(* ===== verification/CPrelude.thy ===== *)
theory CPrelude
  imports Main "HOL-Library.Word" "HOL-Library.Multiset"
begin

text \<open>
  The execution model shared by every component, and the generic lemmas on linked
  structures.

  A C routine is a function from the memory it works on to an outcome:
  \<^item> \<open>Some (Ok x s)\<close>: it returned \<open>x\<close> and left the memory \<open>s\<close>;
  \<^item> \<open>Some (Err e)\<close>: it was stopped by a failed assertion or ran into undefined behaviour;
  \<^item> \<open>None\<close>: it does not return.

  Memory is split by structure field (one partial map per field, keyed by the address of
  the enclosing object), so that a write to one field leaves every other field alone, as
  it does for well-typed C objects. An address outside the domain of a field's map is not
  an object with that field: reading or writing it is a \<open>Fault\<close>. Address 0 is
  \<open>NULL\<close>. Addresses of array elements are consecutive (one unit per element).
\<close>

subsection \<open>Outcomes and sequencing\<close>

named_theorems c_eval
named_theorems c_frame

type_synonym addr = nat

abbreviation NULL :: addr where
  "NULL \<equiv> 0"

datatype c_error =
    Fault addr
  | Assert_fail
  | Uninit_read
  | Shift_range
  | Div_zero

datatype ('a, 's) outcome = Ok 'a 's | Err c_error

type_synonym ('s, 'a) cprog = "'s \<Rightarrow> ('a, 's) outcome option"

abbreviation Ret :: "'a \<Rightarrow> 's \<Rightarrow> ('a, 's) outcome option" where
  "Ret x s \<equiv> Some (Ok x s)"

abbreviation Abort :: "c_error \<Rightarrow> ('a, 's) outcome option" where
  "Abort e \<equiv> Some (Err e)"

definition ret :: "'a \<Rightarrow> ('s, 'a) cprog" where
  [c_eval]: "ret x s = Ret x s"

definition abortM :: "c_error \<Rightarrow> ('s, 'a) cprog" where
  [c_eval]: "abortM e s = Abort e"

definition bindM :: "('s, 'a) cprog \<Rightarrow> ('a \<Rightarrow> ('s, 'b) cprog) \<Rightarrow> ('s, 'b) cprog" where
  [c_eval]: "bindM m f s =
     (case m s of
        None \<Rightarrow> None
      | Some r \<Rightarrow> (case r of Ok x s' \<Rightarrow> f x s' | Err e \<Rightarrow> Abort e))"

definition seqM :: "('s, 'a) cprog \<Rightarrow> ('s, 'b) cprog \<Rightarrow> ('s, 'b) cprog" where
  [c_eval]: "seqM m k s =
     (case m s of
        None \<Rightarrow> None
      | Some r \<Rightarrow> (case r of Ok x s' \<Rightarrow> k s' | Err e \<Rightarrow> Abort e))"

text \<open>\<open>assert\<close> and \<open>verify\<close> (include/ctype/assert.h) stop the program unless the
  condition holds; no build file of the repository disables them.\<close>

definition assertM :: "bool \<Rightarrow> ('s, unit) cprog" where
  [c_eval]: "assertM b s = (if b then Ret () s else Abort Assert_fail)"

text \<open>A read of a field given by its selector.\<close>

definition rd :: "('s \<Rightarrow> (addr \<rightharpoonup> 'v)) \<Rightarrow> addr \<Rightarrow> ('s, 'v) cprog" where
  [c_eval]: "rd fld p s = (case fld s p of None \<Rightarrow> Abort (Fault p) | Some v \<Rightarrow> Ret v s)"

text \<open>A write to a field given by its selector and its update function.\<close>

definition wr ::
  "('s \<Rightarrow> (addr \<rightharpoonup> 'v)) \<Rightarrow> (((addr \<rightharpoonup> 'v) \<Rightarrow> (addr \<rightharpoonup> 'v)) \<Rightarrow> 's \<Rightarrow> 's) \<Rightarrow> addr \<Rightarrow> 'v \<Rightarrow> ('s, unit) cprog" where
  [c_eval]: "wr fld upd p v s =
     (case fld s p of None \<Rightarrow> Abort (Fault p) | Some _ \<Rightarrow> Ret () (upd (\<lambda>_. (fld s)(p \<mapsto> v)) s))"

text \<open>A \<open>for\<close> loop over a list of indices.\<close>

fun forM :: "'a list \<Rightarrow> ('a \<Rightarrow> ('s, unit) cprog) \<Rightarrow> ('s, unit) cprog" where
  "forM [] f = ret ()"
| "forM (x # xs) f = seqM (f x) (forM xs f)"

lemma seqM_assoc: "seqM (seqM a b) c = seqM a (seqM b c)"
  by (simp add: seqM_def fun_eq_iff split: option.splits outcome.splits)

lemma seqM_ret: "seqM (ret x) m = m"
  by (simp add: seqM_def ret_def fun_eq_iff)

lemma forM_append: "forM (xs @ ys) f = seqM (forM xs f) (forM ys f)"
  by (induction xs) (simp_all add: seqM_assoc seqM_ret)

lemma seqM_ret_unit: "seqM m (ret ()) = (m :: ('s, unit) cprog)"
  by (auto simp: seqM_def ret_def fun_eq_iff split: option.splits outcome.splits)

lemma forM_snoc: "forM xs f s = Ret () s' \<Longrightarrow> forM (xs @ [x]) f s = f x s'"
  by (simp only: forM_append forM.simps seqM_ret_unit) (simp add: seqM_def)

text \<open>Loops without a bound are least fixed points: \<open>None\<close> is the loop that never ends.\<close>

lemma bindM_mono [partial_function_mono]:
  fixes m :: "('f \<Rightarrow> 'r option) \<Rightarrow> ('s, 'a) cprog"
  assumes m: "\<And>t. mono_option (\<lambda>f. m f t)"
    and k: "\<And>x t. mono_option (\<lambda>f. k f x t)"
  shows "mono_option (\<lambda>f. bindM (m f) (k f) s)"
proof (rule monotoneI)
  fix f g :: "'f \<Rightarrow> 'r option"
  assume fg: "option.le_fun f g"
  have m': "option_ord (m f s) (m g s)"
    using m [of s] fg by (auto dest: monotoneD)
  have k': "option_ord (k f x t) (k g x t)" for x t
    using k [of x t] fg by (auto dest: monotoneD)
  show "option_ord (bindM (m f) (k f) s) (bindM (m g) (k g) s)"
  proof (cases "m f s")
    case None
    then show ?thesis by (simp add: bindM_def flat_ord_def)
  next
    case (Some r)
    with m' have "m g s = Some r" by (auto simp: flat_ord_def)
    with Some k' show ?thesis by (cases r) (auto simp: bindM_def flat_ord_def)
  qed
qed

lemma seqM_eq_bindM: "seqM m k = bindM m (\<lambda>_. k)"
  by (simp add: seqM_def bindM_def fun_eq_iff)

lemma seqM_mono [partial_function_mono]:
  assumes "\<And>t. mono_option (\<lambda>f. m f t)" and "\<And>t. mono_option (\<lambda>f. k f t)"
  shows "mono_option (\<lambda>f. seqM (m f) (k f) s)"
  unfolding seqM_eq_bindM using assms by (rule bindM_mono)

lemma if_app_mono [partial_function_mono]:
  assumes "mono_option (\<lambda>f. m f s)" and "mono_option (\<lambda>f. k f s)"
  shows "mono_option (\<lambda>f. (if b then m f else k f) s)"
  using assms by (cases b) simp_all

subsection \<open>Chains of links ending in NULL\<close>

text \<open>
  \<open>lpath h p xs\<close>: starting at the link field of \<open>p\<close>, the links run through \<open>xs\<close>.
  \<open>chain h p xs\<close>: moreover the last object of \<open>p # xs\<close> holds \<open>NULL\<close>. The object \<open>p\<close>
  is the list head, \<open>xs\<close> the elements.
\<close>

fun lpath :: "(addr \<rightharpoonup> addr) \<Rightarrow> addr \<Rightarrow> addr list \<Rightarrow> bool" where
  "lpath h p [] = True"
| "lpath h p (x # xs) = (h p = Some x \<and> x \<noteq> NULL \<and> lpath h x xs)"

fun chain :: "(addr \<rightharpoonup> addr) \<Rightarrow> addr \<Rightarrow> addr list \<Rightarrow> bool" where
  "chain h p [] = (h p = Some NULL)"
| "chain h p (x # xs) = (h p = Some x \<and> x \<noteq> NULL \<and> chain h x xs)"

text \<open>The object that \<open>lpath h p xs\<close> ends in.\<close>

fun tip :: "addr \<Rightarrow> addr list \<Rightarrow> addr" where
  "tip p [] = p"
| "tip p (x # xs) = tip x xs"

lemma tip_append [simp]: "tip p (xs @ ys) = tip (tip p xs) ys"
  by (induction xs arbitrary: p) auto

lemma tip_in_set: "tip p xs \<in> set (p # xs)"
  by (induction xs arbitrary: p) auto

lemma tip_last [simp]: "xs \<noteq> [] \<Longrightarrow> tip p xs = last xs"
  by (induction xs arbitrary: p) auto

definition first :: "addr list \<Rightarrow> addr" where
  "first xs = (case xs of [] \<Rightarrow> NULL | x # _ \<Rightarrow> x)"

definition final :: "addr list \<Rightarrow> addr" where
  "final xs = (if xs = [] then NULL else last xs)"

lemma first_simps [simp]: "first [] = NULL" "first (x # xs) = x"
  by (simp_all add: first_def)

lemma final_simps [simp]: "final [] = NULL" "final (xs @ x # ys) = tip x ys"
  by (simp_all add: final_def tip_last)

lemma final_Cons [simp]: "final (x # xs) = tip x xs"
  by (cases xs) (simp_all add: final_def tip_last)

lemma final_tip: "xs \<noteq> [] \<Longrightarrow> final xs = tip p xs"
  by (simp add: final_def tip_last)

lemma final_nonempty [simp]: "xs \<noteq> [] \<Longrightarrow> final xs = last xs"
  by (simp add: final_def)

lemma chain_head: "chain h p xs \<Longrightarrow> h p = Some (first xs)"
  by (cases xs) auto

lemma first_NULL: "chain h p xs \<Longrightarrow> first xs = NULL \<longleftrightarrow> xs = []"
  by (cases xs) auto

lemma chain_append: "chain h p (xs @ ys) \<longleftrightarrow> lpath h p xs \<and> chain h (tip p xs) ys"
  by (induction xs arbitrary: p) auto

lemma lpath_append: "lpath h p (xs @ ys) \<longleftrightarrow> lpath h p xs \<and> lpath h (tip p xs) ys"
  by (induction xs arbitrary: p) auto

lemma chain_iff_lpath: "chain h p xs \<longleftrightarrow> lpath h p xs \<and> h (tip p xs) = Some NULL"
  using chain_append [of h p xs "[]"] by simp

lemma chain_not_NULL: "chain h p xs \<Longrightarrow> NULL \<notin> set xs"
  by (induction xs arbitrary: p) auto

lemma chain_unique: "chain h p xs \<Longrightarrow> chain h p ys \<Longrightarrow> xs = ys"
proof (induction xs arbitrary: p ys)
  case Nil
  then show ?case by (cases ys) auto
next
  case (Cons x xs)
  then show ?case by (cases ys) auto
qed

lemma chain_head_notin: "chain h p xs \<Longrightarrow> p \<notin> set xs"
proof
  assume ch: "chain h p xs" and "p \<in> set xs"
  then obtain us vs where xs: "xs = (us @ [p]) @ vs"
    by (metis append.assoc append_Cons append_Nil split_list)
  with ch have "chain h p vs"
    by (simp only: chain_append) auto
  with ch have "vs = xs" by (rule chain_unique [THEN sym])
  with xs show False by simp
qed

lemma chain_distinct: "chain h p xs \<Longrightarrow> distinct (p # xs)"
proof (induction xs arbitrary: p)
  case Nil
  then show ?case by simp
next
  case (Cons x xs)
  from Cons.prems have "p \<notin> set (x # xs)" by (rule chain_head_notin)
  moreover have "distinct (x # xs)" using Cons by (simp only: chain.simps)
  ultimately show ?case by simp
qed

lemma chain_dom: "chain h p xs \<Longrightarrow> x \<in> set (p # xs) \<Longrightarrow> \<exists>y. h x = Some y"
  by (induction xs arbitrary: p) auto

lemma chain_last: "chain h p xs \<Longrightarrow> h (tip p xs) = Some NULL"
  by (simp add: chain_iff_lpath)

lemma lpath_upd [c_frame]: "u \<notin> set (p # xs) \<Longrightarrow> lpath (h(u := v)) p xs = lpath h p xs"
  by (induction xs arbitrary: p) auto

lemma chain_upd [c_frame]: "u \<notin> set (p # xs) \<Longrightarrow> chain (h(u := v)) p xs = chain h p xs"
  by (induction xs arbitrary: p) auto

lemma lpath_upd_last:
  "distinct (p # xs) \<Longrightarrow> lpath (h(tip p xs := v)) p xs = lpath h p xs"
proof (induction xs arbitrary: p)
  case Nil
  then show ?case by simp
next
  case (Cons x xs)
  have "tip x xs \<noteq> p" using Cons.prems tip_in_set [of x xs] by auto
  with Cons show ?case by simp
qed

lemma chain_cong:
  "(\<And>x. x \<in> set (p # xs) \<Longrightarrow> h x = h' x) \<Longrightarrow> chain h p xs = chain h' p xs"
  by (induction xs arbitrary: p) auto

text \<open>Linking in a new object, and cutting one out.\<close>

lemma lpath_splice:
  assumes "lpath h p xs" and "distinct (p # xs)" and "e \<notin> set (p # xs)"
  shows "lpath (h(tip p xs \<mapsto> a, e \<mapsto> b)) p xs"
  using assms by (simp only: lpath_upd lpath_upd_last [OF assms(2)] not_False_eq_True)

lemma chain_insert:
  assumes "chain h p (xs @ ys)" and "e \<notin> set (p # xs @ ys)" and "e \<noteq> NULL"
  shows "chain (h(tip p xs \<mapsto> e, e \<mapsto> first ys)) p (xs @ e # ys)"
proof -
  let ?l = "tip p xs"
  let ?h = "h(?l \<mapsto> e, e \<mapsto> first ys)"
  have d: "distinct (p # xs @ ys)" using assms(1) by (rule chain_distinct)
  have lp: "lpath h p xs" and cy: "chain h ?l ys" using assms(1) by (auto simp: chain_append)
  have l: "?l \<in> set (p # xs)" by (rule tip_in_set)
  have le: "e \<noteq> ?l" using assms(2) l by auto
  have lp': "lpath ?h p xs" using lp d assms(2) by (intro lpath_splice) auto
  have "chain ?h e ys"
  proof (cases ys)
    case Nil
    then show ?thesis by simp
  next
    case (Cons y zs)
    have "?l \<notin> set (y # zs)" "e \<notin> set (y # zs)" using d l assms(2) Cons by auto
    moreover have "chain h y zs" "y \<noteq> NULL" using cy Cons by auto
    ultimately have "chain ?h y zs" by (simp only: chain_upd not_False_eq_True)
    then show ?thesis using Cons \<open>y \<noteq> NULL\<close> by simp
  qed
  then show ?thesis using lp' le assms(3) by (simp add: chain_append)
qed

lemma chain_snoc:
  assumes "chain h p xs" and "e \<notin> set (p # xs)" and "e \<noteq> NULL"
  shows "chain (h(tip p xs \<mapsto> e, e \<mapsto> NULL)) p (xs @ [e])"
  using chain_insert [of h p xs "[]" e] assms by simp

lemma chain_push:
  assumes "chain h p xs" and "e \<notin> set (p # xs)" and "e \<noteq> NULL"
  shows "chain (h(e \<mapsto> first xs, p \<mapsto> e)) p (e # xs)"
  using chain_insert [of h p "[]" xs e] assms by (simp add: fun_upd_twist)

lemma chain_cut:
  assumes "chain h p (xs @ e # ys)"
  shows "chain (h(tip p xs \<mapsto> first ys, e \<mapsto> NULL)) p (xs @ ys)"
    and "chain (h(tip p xs \<mapsto> first ys, e \<mapsto> NULL)) e []"
proof -
  let ?l = "tip p xs"
  have d: "distinct (p # xs @ e # ys)" using assms by (rule chain_distinct)
  have lp: "lpath h p xs" and ce: "chain h e ys" and e0: "e \<noteq> NULL"
    using assms by (auto simp: chain_append)
  have l: "?l \<in> set (p # xs)" by (rule tip_in_set)
  have lnotin: "?l \<notin> set (e # ys)" using d l by auto
  have dpx: "distinct (p # xs)" and epx: "e \<notin> set (p # xs)" using d by auto
  let ?h = "h(?l \<mapsto> first ys, e \<mapsto> NULL)"
  have lp': "lpath ?h p xs" using lp dpx epx by (rule lpath_splice)
  have "chain ?h ?l ys"
  proof (cases ys)
    case Nil
    then show ?thesis using lnotin by simp
  next
    case (Cons y zs)
    have "chain h y zs" using ce Cons by simp
    moreover have "?l \<notin> set (y # zs)" "e \<notin> set (y # zs)" using lnotin d Cons by auto
    ultimately have "chain ?h y zs" by (simp only: chain_upd not_False_eq_True)
    then show ?thesis using Cons ce lnotin by simp
  qed
  with lp' show "chain ?h p (xs @ ys)" by (simp add: chain_append)
  show "chain ?h e []" by simp
qed

subsection \<open>Offsets from a base\<close>

text \<open>The address at a 32-bit offset from a base, for objects in shared memory.\<close>

abbreviation at_off :: "addr \<Rightarrow> 32 word \<Rightarrow> addr" where
  "at_off base off \<equiv> base + unat off"

lemma at_off_inj: "at_off base a = at_off base b \<longleftrightarrow> a = b"
  by (simp add: word_unat_eq_iff)

lemma at_off_in: "at_off base e \<in> set (map (at_off base) xs) \<longleftrightarrow> e \<in> set xs"
  by (induction xs) (auto simp: word_unat_eq_iff)

subsection \<open>Addresses above those in use\<close>

lemma Suc_Max_above: "finite A \<Longrightarrow> a \<in> insert b A \<Longrightarrow> a < Suc (Max (insert b A))"
  by (simp only: less_Suc_eq_le Max_ge finite_insert)

lemma Suc_Max_fresh: "finite A \<Longrightarrow> Suc (Max (insert b A)) \<notin> A"
  using Suc_Max_above [of A "Suc (Max (insert b A))" b] by blast

end
