(* ===== verification/Slink.thy ===== *)
theory Slink
  imports CPrelude
begin

text \<open>
  The singly linked chains of include/ctype/list.h and the two chain routines of
  common/ctype/list.c. The memory holds one field, the \<open>sl_next\<close> pointer of every
  \<open>struct slink\<close>; later components extend it. Callbacks given as function pointers are
  programs of their own (they may read the memory and may fail).
\<close>

subsection \<open>Data and operations\<close>

record slink_mem =
  sl_next :: "addr \<rightharpoonup> addr"

record slink_iter =
  sl_prev :: addr
  sl_curr :: addr

abbreviation get_next :: "addr \<Rightarrow> ('z slink_mem_scheme, addr) cprog" where
  "get_next p \<equiv> rd sl_next p"

abbreviation set_next :: "addr \<Rightarrow> addr \<Rightarrow> ('z slink_mem_scheme, unit) cprog" where
  "set_next p v \<equiv> wr sl_next sl_next_update p v"

definition slink_init :: "addr \<Rightarrow> ('z slink_mem_scheme, unit) cprog" where
  "slink_init head = set_next head NULL"

definition slink_iter_init :: "addr \<Rightarrow> ('z slink_mem_scheme, slink_iter) cprog" where
  "slink_iter_init head =
     (if head \<noteq> NULL
      then bindM (get_next head) (\<lambda>n. ret \<lparr>sl_prev = head, sl_curr = n\<rparr>)
      else ret \<lparr>sl_prev = head, sl_curr = NULL\<rparr>)"

definition slink_iter_term :: "slink_iter \<Rightarrow> bool" where
  "slink_iter_term iter = (sl_curr iter = NULL)"

definition slink_iter_next :: "slink_iter \<Rightarrow> ('z slink_mem_scheme, slink_iter) cprog" where
  "slink_iter_next iter =
     bindM (get_next (sl_curr iter)) (\<lambda>n. ret \<lparr>sl_prev = sl_curr iter, sl_curr = n\<rparr>)"

definition slink_iter_rm_curr :: "slink_iter \<Rightarrow> ('z slink_mem_scheme, addr) cprog" where
  "slink_iter_rm_curr iter =
     (let cur = sl_curr iter in
      if cur \<noteq> NULL
      then bindM (get_next (sl_curr iter)) (\<lambda>n.
           seqM (set_next (sl_prev iter) n)
          (seqM (set_next (sl_curr iter) NULL)
          (ret cur)))
      else ret cur)"

definition slink_iter_curr :: "slink_iter \<Rightarrow> addr" where
  "slink_iter_curr iter = sl_curr iter"

definition slink_iter_prev :: "slink_iter \<Rightarrow> addr" where
  "slink_iter_prev iter = sl_prev iter"

definition slink_empty :: "addr \<Rightarrow> ('z slink_mem_scheme, bool) cprog" where
  "slink_empty head = bindM (get_next head) (\<lambda>n. ret (n = NULL))"

definition slink_add_front :: "addr \<Rightarrow> addr \<Rightarrow> ('z slink_mem_scheme, unit) cprog" where
  "slink_add_front head elm =
     bindM (get_next head) (\<lambda>n.
     seqM (set_next elm n)
     (set_next head elm))"

definition slink_rm_front :: "addr \<Rightarrow> ('z slink_mem_scheme, addr) cprog" where
  "slink_rm_front head =
     bindM (get_next head) (\<lambda>elm.
     if elm \<noteq> NULL
     then bindM (get_next elm) (\<lambda>n.
          seqM (set_next head n)
         (seqM (set_next elm NULL)
         (ret elm)))
     else ret elm)"

text \<open>
  \<open>slink_find\<close> walks \<open>head\<close> along the chain. The second component of its result is what
  it stores through \<open>prv\<close>: \<open>None\<close> where it stores nothing.
\<close>

partial_function (option) slink_find_loop ::
  "addr \<Rightarrow> addr \<Rightarrow> addr \<Rightarrow> (addr \<Rightarrow> addr \<Rightarrow> ('z slink_mem_scheme, int) cprog) \<Rightarrow> bool
   \<Rightarrow> ('z slink_mem_scheme, addr \<times> addr option) cprog" where
  "slink_find_loop orig head elm cmp_func rm s =
     bindM (get_next head) (\<lambda>n.
     if n = NULL then ret (NULL, None)
     else bindM (cmp_func n elm) (\<lambda>c.
       if c = 0 then
         (if rm
          then bindM (get_next n) (\<lambda>nn.
               seqM (set_next head nn)
              (seqM (set_next n NULL)
              (ret (n, Some (if head = orig then NULL else head)))))
          else ret (n, None))
       else slink_find_loop orig n elm cmp_func rm)) s"

definition slink_find ::
  "addr \<Rightarrow> addr \<Rightarrow> (addr \<Rightarrow> addr \<Rightarrow> ('z slink_mem_scheme, int) cprog) \<Rightarrow> bool
   \<Rightarrow> ('z slink_mem_scheme, addr \<times> addr option) cprog" where
  "slink_find head elm cmp_func rm = slink_find_loop head head elm cmp_func rm"

text \<open>The body of \<open>foreach_slink_iter\<close> in \<open>slink_filter_out\<close>, then the loop.\<close>

definition slink_filter_step ::
  "addr \<Rightarrow> (addr \<Rightarrow> ('z slink_mem_scheme, bool) cprog) \<Rightarrow> slink_iter \<Rightarrow> ('z slink_mem_scheme, unit) cprog" where
  "slink_filter_step nlst sel_fn iter =
     bindM (sel_fn (slink_iter_curr iter)) (\<lambda>b.
     if b then bindM (slink_iter_rm_curr iter) (\<lambda>match. slink_add_front nlst match)
     else ret ())"

partial_function (option) slink_filter_loop ::
  "addr \<Rightarrow> (addr \<Rightarrow> ('z slink_mem_scheme, bool) cprog) \<Rightarrow> slink_iter \<Rightarrow> ('z slink_mem_scheme, int) cprog" where
  "slink_filter_loop nlst sel_fn iter s =
     (if slink_iter_term iter then ret 0
      else seqM (slink_filter_step nlst sel_fn iter)
          (bindM (slink_iter_next iter) (\<lambda>iter'. slink_filter_loop nlst sel_fn iter'))) s"

definition slink_filter_out ::
  "addr \<Rightarrow> addr \<Rightarrow> (addr \<Rightarrow> ('z slink_mem_scheme, bool) cprog) \<Rightarrow> ('z slink_mem_scheme, int) cprog" where
  "slink_filter_out root nlst sel_fn =
     bindM (slink_iter_init root) (\<lambda>iter. slink_filter_loop nlst sel_fn iter)"

lemmas slink_defs =
  slink_init_def slink_iter_init_def slink_iter_term_def slink_iter_next_def
  slink_iter_rm_curr_def slink_iter_curr_def slink_iter_prev_def slink_empty_def
  slink_add_front_def slink_rm_front_def

subsection \<open>What the operations do to a chain\<close>

lemma slink_empty_chain:
  "chain (sl_next s) p xs \<Longrightarrow> slink_empty p s = Ret (xs = []) s"
  by (cases xs) (auto simp: slink_defs c_eval)

lemma slink_add_front_run:
  assumes "chain (sl_next s) p xs" and "e \<in> dom (sl_next s)" and "e \<noteq> p"
  shows "slink_add_front p e s =
    Ret () (s\<lparr>sl_next := (sl_next s)(e \<mapsto> first xs, p \<mapsto> e)\<rparr>)"
  using assms chain_head [OF assms(1)] by (auto simp: slink_defs c_eval)

lemma slink_rm_front_run:
  assumes "chain (sl_next s) p (x # xs)"
  shows "slink_rm_front p s =
    Ret x (s\<lparr>sl_next := (sl_next s)(p \<mapsto> first xs, x \<mapsto> NULL)\<rparr>)"
  using assms chain_head [of "sl_next s" x xs] by (auto simp: slink_defs c_eval)

lemma slink_rm_front_empty:
  "chain (sl_next s) p [] \<Longrightarrow> slink_rm_front p s = Ret NULL s"
  by (auto simp: slink_defs c_eval)

lemma slink_find_loop_none:
  assumes "chain (sl_next s) p xs"
    and "\<And>x. x \<in> set xs \<Longrightarrow> cmp x elm s = Ret (f x) s \<and> f x \<noteq> 0"
  shows "slink_find_loop orig p elm cmp rm s = Ret (NULL, None) s"
  using assms
proof (induction xs arbitrary: p)
  case Nil
  then show ?case by (simp add: slink_find_loop.simps c_eval)
next
  case (Cons x xs)
  have c: "cmp x elm s = Ret (f x) s" "f x \<noteq> 0" using Cons.prems(2) [of x] by auto
  have "slink_find_loop orig x elm cmp rm s = Ret (NULL, None) s"
    using Cons by simp
  then show ?case
    using Cons.prems(1) c by (subst slink_find_loop.simps) (simp add: c_eval)
qed

lemma slink_find_loop_some:
  assumes "chain (sl_next s) p (us @ x # vs)"
    and "\<And>y. y \<in> set us \<Longrightarrow> cmp y elm s = Ret (f y) s \<and> f y \<noteq> 0"
    and "cmp x elm s = Ret 0 s"
  shows "slink_find_loop orig p elm cmp rm s =
    (if rm
     then Ret (x, Some (if tip p us = orig then NULL else tip p us))
            (s\<lparr>sl_next := (sl_next s)(tip p us \<mapsto> first vs, x \<mapsto> NULL)\<rparr>)
     else Ret (x, None) s)"
  using assms
proof (induction us arbitrary: p)
  case Nil
  then have "sl_next s x = Some (first vs)" using chain_head by auto
  with Nil show ?case
    by (subst slink_find_loop.simps) (auto simp: c_eval)
next
  case (Cons u us)
  have c: "cmp u elm s = Ret (f u) s" "f u \<noteq> 0" using Cons.prems(2) [of u] by auto
  have "slink_find_loop orig p elm cmp rm s = slink_find_loop orig u elm cmp rm s"
    using Cons.prems(1) c by (subst slink_find_loop.simps) (simp add: c_eval)
  moreover have ch: "chain (sl_next s) u (us @ x # vs)" using Cons.prems(1) by simp
  moreover have "\<And>y. y \<in> set us \<Longrightarrow> cmp y elm s = Ret (f y) s \<and> f y \<noteq> 0"
    using Cons.prems(2) by simp
  note Cons.IH [OF ch this Cons.prems(3)]
  moreover have "tip p (u # us) = tip u us" by simp
  ultimately show ?case by simp
qed

end
