(* ===== verification/Slist.thy ===== *)
theory Slist
  imports Slink
begin

text \<open>
  The list with a head and a tail pointer, \<open>struct slist\<close> of include/ctype/list.h, and its
  routines in common/ctype/list.c: first the intrusive list of links, then the list of data
  pointers (\<open>struct sl_elm\<close>) built on it. The address of a \<open>struct slist\<close> is the address
  of its first member \<open>sl_head\<close>, so its \<open>sl_head.sl_next\<close> is the \<open>sl_next\<close> cell at that
  address; likewise the address of a \<open>struct sl_elm\<close> is that of its \<open>sl_link\<close>.
\<close>

subsection \<open>The intrusive list\<close>

record slist_mem = slink_mem +
  sl_tail :: "addr \<rightharpoonup> addr"

abbreviation get_tail :: "addr \<Rightarrow> ('z slist_mem_scheme, addr) cprog" where
  "get_tail l \<equiv> rd sl_tail l"

abbreviation set_tail :: "addr \<Rightarrow> addr \<Rightarrow> ('z slist_mem_scheme, unit) cprog" where
  "set_tail l v \<equiv> wr sl_tail sl_tail_update l v"

definition slist_init :: "addr \<Rightarrow> ('z slist_mem_scheme, unit) cprog" where
  "slist_init l = seqM (set_tail l NULL) (slink_init l)"

definition slist_peek_front :: "addr \<Rightarrow> ('z slist_mem_scheme, addr) cprog" where
  "slist_peek_front l = get_next l"

definition slist_empty :: "addr \<Rightarrow> ('z slist_mem_scheme, bool) cprog" where
  "slist_empty l = slink_empty l"

definition slist_insert_back :: "addr \<Rightarrow> addr \<Rightarrow> ('z slist_mem_scheme, unit) cprog" where
  "slist_insert_back l elem =
     seqM
      (bindM (get_tail l) (\<lambda>t.
       if t = NULL then slink_add_front l elem
       else bindM (get_next t) (\<lambda>n.
            seqM (assertM (n = NULL))
            (set_next t elem))))
     (seqM (set_next elem NULL)
     (set_tail l elem))"

definition slist_insert_front :: "addr \<Rightarrow> addr \<Rightarrow> ('z slist_mem_scheme, unit) cprog" where
  "slist_insert_front l elem =
     seqM
      (bindM (slink_empty l) (\<lambda>b. if b then set_tail l elem else ret ()))
      (slink_add_front l elem)"

definition slist_rm_front :: "addr \<Rightarrow> ('z slist_mem_scheme, addr) cprog" where
  "slist_rm_front l =
     bindM (slink_rm_front l) (\<lambda>elem.
     if elem \<noteq> NULL
     then bindM (get_tail l) (\<lambda>t.
          if t = elem
          then bindM (slink_empty l) (\<lambda>b.
               seqM (assertM b)
              (seqM (set_tail l NULL)
              (ret elem)))
          else ret elem)
     else ret elem)"

partial_function (option) slist_free ::
  "addr \<Rightarrow> (addr \<Rightarrow> ('z slist_mem_scheme, unit) cprog) \<Rightarrow> ('z slist_mem_scheme, unit) cprog" where
  "slist_free l free_fn s =
     bindM (slist_empty l) (\<lambda>b.
     if b then ret ()
     else bindM (slist_rm_front l) (\<lambda>ptr.
          seqM (free_fn ptr) (slist_free l free_fn))) s"

text \<open>
  \<open>slist_find\<close> has an uninitialised local \<open>prev\<close>, which \<open>slink_find\<close> sets only when it
  removes an element; using it otherwise is an \<open>Uninit_read\<close>.
\<close>

definition slist_find ::
  "addr \<Rightarrow> addr \<Rightarrow> (addr \<Rightarrow> addr \<Rightarrow> ('z slist_mem_scheme, int) cprog) \<Rightarrow> bool
   \<Rightarrow> ('z slist_mem_scheme, addr) cprog" where
  "slist_find l data cmp_fn rm =
     bindM (slink_find l data cmp_fn rm) (\<lambda>r.
     bindM (if rm then bindM (get_tail l) (\<lambda>t. ret (fst r = t)) else ret False) (\<lambda>b.
     if b
     then (case snd r of
             None \<Rightarrow> abortM Uninit_read
           | Some prev \<Rightarrow> seqM (set_tail l prev) (ret (fst r)))
     else ret (fst r)))"

text \<open>The loop of \<open>slist_insert_sorted\<close>; the result tells whether it inserted and returned.\<close>

partial_function (option) slist_sorted_loop ::
  "addr \<Rightarrow> (addr \<Rightarrow> addr \<Rightarrow> ('z slist_mem_scheme, int) cprog) \<Rightarrow> slink_iter
   \<Rightarrow> ('z slist_mem_scheme, bool) cprog" where
  "slist_sorted_loop elem cmp_fn iter s =
     (if slink_iter_term iter then ret False
      else bindM (cmp_fn (slink_iter_curr iter) elem) (\<lambda>c.
        if c > 0
        then seqM
              (if slink_iter_prev iter \<noteq> NULL
               then seqM (set_next (slink_iter_prev iter) elem)
                    (set_next elem (slink_iter_curr iter))
               else slink_add_front (slink_iter_curr iter) elem)
              (ret True)
        else bindM (slink_iter_next iter) (\<lambda>iter'. slist_sorted_loop elem cmp_fn iter'))) s"

definition slist_insert_sorted ::
  "addr \<Rightarrow> addr \<Rightarrow> (addr \<Rightarrow> addr \<Rightarrow> ('z slist_mem_scheme, int) cprog)
   \<Rightarrow> ('z slist_mem_scheme, unit) cprog" where
  "slist_insert_sorted l elem cmp_fn =
     bindM (slist_empty l) (\<lambda>b.
     if \<not> b
     then bindM (get_tail l) (\<lambda>t.
          bindM (cmp_fn t elem) (\<lambda>c.
          bindM (if c > 0
                 then bindM (slink_iter_init l) (\<lambda>iter. slist_sorted_loop elem cmp_fn iter)
                 else ret False) (\<lambda>inserted.
          if inserted then ret () else slist_insert_back l elem)))
     else slist_insert_front l elem)"

definition slist_filter_step ::
  "addr \<Rightarrow> (addr \<Rightarrow> ('z slist_mem_scheme, bool) cprog) \<Rightarrow> slink_iter \<Rightarrow> int
   \<Rightarrow> ('z slist_mem_scheme, int) cprog" where
  "slist_filter_step nlst sel_fn iter cnt =
     bindM (sel_fn (slink_iter_curr iter)) (\<lambda>b.
     if b
     then bindM (slink_iter_rm_curr iter) (\<lambda>chk.
          seqM (assertM (chk = slink_iter_curr iter))
         (seqM (slist_insert_back nlst (slink_iter_curr iter))
         (ret (cnt + 1))))
     else ret cnt)"

partial_function (option) slist_filter_loop ::
  "addr \<Rightarrow> (addr \<Rightarrow> ('z slist_mem_scheme, bool) cprog) \<Rightarrow> slink_iter \<Rightarrow> int
   \<Rightarrow> ('z slist_mem_scheme, int) cprog" where
  "slist_filter_loop nlst sel_fn iter cnt s =
     (if slink_iter_term iter then ret cnt
      else bindM (slist_filter_step nlst sel_fn iter cnt) (\<lambda>cnt'.
           bindM (slink_iter_next iter) (\<lambda>iter'.
           slist_filter_loop nlst sel_fn iter' cnt'))) s"

definition slist_filter_out ::
  "addr \<Rightarrow> addr \<Rightarrow> (addr \<Rightarrow> ('z slist_mem_scheme, bool) cprog) \<Rightarrow> ('z slist_mem_scheme, int) cprog" where
  "slist_filter_out root nlst sel_fn =
     bindM (slink_iter_init root) (\<lambda>iter. slist_filter_loop nlst sel_fn iter 0)"

definition slist_merge :: "addr \<Rightarrow> addr \<Rightarrow> ('z slist_mem_scheme, unit) cprog" where
  "slist_merge root l =
     bindM (get_tail root) (\<lambda>t.
     seqM
      (if t \<noteq> NULL
       then bindM (get_next l) (\<lambda>n.
            seqM (set_next t n)
           (bindM (get_tail l) (\<lambda>lt.
            seqM (set_tail root lt)
            (set_tail l NULL))))
       else bindM (get_next l) (\<lambda>n.
            bindM (get_tail l) (\<lambda>lt.
            seqM (set_next root n)
           (seqM (set_tail root lt)
           (set_tail l NULL)))))
      (slink_init l))"

definition slist_split :: "addr \<Rightarrow> addr \<Rightarrow> addr \<Rightarrow> ('z slist_mem_scheme, unit) cprog" where
  "slist_split old split nlst =
     seqM (assertM (split \<noteq> NULL))
    (bindM (slist_empty nlst) (\<lambda>b.
     seqM (assertM b)
    (bindM (get_next split) (\<lambda>n.
     if n \<noteq> NULL
     then seqM (set_next nlst n)
         (bindM (get_tail old) (\<lambda>t.
          seqM (set_tail nlst t)
          (set_next split NULL)))
     else ret ()))))"

definition slist_print_sel_fn :: "addr \<Rightarrow> ('z slist_mem_scheme, bool) cprog" where
  "slist_print_sel_fn ptr = ret False"

partial_function (option) slist_print_loop ::
  "(addr \<Rightarrow> ('z slist_mem_scheme, unit) cprog) \<Rightarrow> slink_iter \<Rightarrow> ('z slist_mem_scheme, unit) cprog" where
  "slist_print_loop print_fn iter s =
     (if slink_iter_term iter then ret ()
      else seqM (print_fn (slink_iter_curr iter))
          (bindM (slink_iter_next iter) (\<lambda>iter'. slist_print_loop print_fn iter'))) s"

definition slist_print ::
  "addr \<Rightarrow> (addr \<Rightarrow> ('z slist_mem_scheme, unit) cprog) \<Rightarrow> ('z slist_mem_scheme, unit) cprog" where
  "slist_print root print_fn =
     bindM (slink_iter_init root) (\<lambda>iter. slist_print_loop print_fn iter)"

definition slist_print_data :: "addr \<Rightarrow> ('z slist_mem_scheme, unit) cprog" where
  "slist_print_data root =
     seqM (slist_filter_out root NULL slist_print_sel_fn) (ret ())"

subsection \<open>The list of data pointers\<close>

text \<open>
  \<open>malloc\<close> of a \<open>struct sl_elm\<close> returns the address \<open>mp\<close> (\<open>NULL\<close> when it fails) with
  indeterminate contents \<open>junk\<close>; \<open>free\<close> takes the object out of the memory, so that a
  later access to it is a fault.
\<close>

record sl_elm_mem = slist_mem +
  sl_data :: "addr \<rightharpoonup> addr"

abbreviation get_data :: "addr \<Rightarrow> ('z sl_elm_mem_scheme, addr) cprog" where
  "get_data p \<equiv> rd sl_data p"

definition malloc_sl_elm :: "addr \<Rightarrow> addr \<Rightarrow> ('z sl_elm_mem_scheme, addr) cprog" where
  "malloc_sl_elm mp junk s =
     (if mp = NULL then Ret NULL s
      else Ret mp (s\<lparr>sl_next := (sl_next s)(mp \<mapsto> junk), sl_data := (sl_data s)(mp \<mapsto> junk)\<rparr>))"

definition free_sl_elm :: "addr \<Rightarrow> ('z sl_elm_mem_scheme, unit) cprog" where
  "free_sl_elm p s =
     (if p \<in> dom (sl_next s) \<and> p \<in> dom (sl_data s)
      then Ret () (s\<lparr>sl_next := (sl_next s)(p := None), sl_data := (sl_data s)(p := None)\<rparr>)
      else Abort (Fault p))"

definition new_sl_elm :: "addr \<Rightarrow> addr \<Rightarrow> addr \<Rightarrow> ('z sl_elm_mem_scheme, addr) cprog" where
  "new_sl_elm mp junk data =
     bindM (malloc_sl_elm mp junk) (\<lambda>elem.
     seqM (wr sl_data sl_data_update elem data)
     (ret elem))"

definition slist_insert_back_data ::
  "addr \<Rightarrow> addr \<Rightarrow> addr \<Rightarrow> addr \<Rightarrow> ('z sl_elm_mem_scheme, unit) cprog" where
  "slist_insert_back_data mp junk l data =
     bindM (new_sl_elm mp junk data) (\<lambda>elem. slist_insert_back l elem)"

definition slist_insert_front_data ::
  "addr \<Rightarrow> addr \<Rightarrow> addr \<Rightarrow> addr \<Rightarrow> ('z sl_elm_mem_scheme, unit) cprog" where
  "slist_insert_front_data mp junk l data =
     bindM (new_sl_elm mp junk data) (\<lambda>elem. slist_insert_front l elem)"

definition slist_rm_front_data :: "addr \<Rightarrow> ('z sl_elm_mem_scheme, addr) cprog" where
  "slist_rm_front_data l =
     bindM (slist_rm_front l) (\<lambda>ptr.
     if ptr \<noteq> NULL
     then bindM (get_data ptr) (\<lambda>data.
          seqM (free_sl_elm ptr)
          (ret data))
     else ret NULL)"

partial_function (option) slist_free_data ::
  "addr \<Rightarrow> (addr \<Rightarrow> ('z sl_elm_mem_scheme, unit) cprog) option \<Rightarrow> ('z sl_elm_mem_scheme, unit) cprog" where
  "slist_free_data l free_fn s =
     bindM (slist_empty l) (\<lambda>b.
     if b then ret ()
     else bindM (slist_rm_front_data l) (\<lambda>data.
          seqM (if free_fn \<noteq> None then the free_fn data else ret ())
          (slist_free_data l free_fn))) s"

definition slist_peek_front_data :: "addr \<Rightarrow> ('z sl_elm_mem_scheme, addr) cprog" where
  "slist_peek_front_data l =
     bindM (slist_peek_front l) (\<lambda>ptr. ret (if ptr \<noteq> NULL then ptr else NULL))"

definition slist_iter_data_cmp ::
  "(addr \<Rightarrow> addr \<Rightarrow> ('z sl_elm_mem_scheme, int) cprog) \<Rightarrow> addr \<Rightarrow> addr \<Rightarrow> addr
   \<Rightarrow> ('z sl_elm_mem_scheme, int) cprog" where
  "slist_iter_data_cmp iter_cmpfn iter_data elm1 elm2 =
     bindM (get_data elm1) (\<lambda>d. iter_cmpfn d iter_data)"

definition slist_find_data ::
  "addr \<Rightarrow> addr \<Rightarrow> (addr \<Rightarrow> addr \<Rightarrow> ('z sl_elm_mem_scheme, int) cprog) \<Rightarrow> bool
   \<Rightarrow> ('z sl_elm_mem_scheme, addr) cprog" where
  "slist_find_data l data cmp_fn rm =
     bindM (slist_find l NULL (slist_iter_data_cmp cmp_fn data) rm) (\<lambda>ptr.
     if ptr \<noteq> NULL
     then bindM (get_data ptr) (\<lambda>res.
          seqM (free_sl_elm ptr)
          (ret res))
     else ret NULL)"

definition slist_insert_sorted_data ::
  "addr \<Rightarrow> addr \<Rightarrow> addr \<Rightarrow> addr \<Rightarrow> (addr \<Rightarrow> addr \<Rightarrow> ('z sl_elm_mem_scheme, int) cprog)
   \<Rightarrow> ('z sl_elm_mem_scheme, unit) cprog" where
  "slist_insert_sorted_data mp junk l data cmp_fn =
     bindM (new_sl_elm mp junk data) (\<lambda>elem.
     slist_insert_sorted l elem
       (\<lambda>e1 e2. bindM (get_data e1) (\<lambda>d1. bindM (get_data e2) (\<lambda>d2. cmp_fn d1 d2))))"

definition slist_filter_out_data ::
  "addr \<Rightarrow> addr \<Rightarrow> (addr \<Rightarrow> ('z sl_elm_mem_scheme, bool) cprog) \<Rightarrow> ('z sl_elm_mem_scheme, int) cprog" where
  "slist_filter_out_data root nlst sel_fn =
     slist_filter_out root nlst (\<lambda>e. bindM (get_data e) sel_fn)"

lemmas slist_defs =
  slist_init_def slist_peek_front_def slist_empty_def slist_insert_back_def
  slist_insert_front_def slist_rm_front_def slist_find_def slist_insert_sorted_def
  slist_filter_out_def slist_merge_def slist_split_def

end
