(* ===== verification/CInterfaces.thy ===== *)
theory CInterfaces
  imports CPrelude
begin

text \<open>
  Interfaces that several of the containers implement, with what a client may derive from
  them alone: a first-in first-out queue (common/ctype/list.c, include/ctype/dlist.h), and a
  sequence kept in order by sorted insertion. \<open>rep s xs\<close> says that in memory \<open>s\<close> the
  container holds the objects \<open>xs\<close>, \<open>cell s e\<close> that \<open>e\<close> is an object that can be linked
  into it.
\<close>

subsection \<open>Callbacks\<close>

text \<open>The callback compares without changing the memory: element \<open>x\<close> against the sought
  one gives \<open>f x\<close>.\<close>

definition pure_on :: "addr set \<Rightarrow> (addr \<Rightarrow> ('s, 'v) cprog) \<Rightarrow> (addr \<Rightarrow> 'v) \<Rightarrow> 's \<Rightarrow> bool" where
  "pure_on A g f s \<longleftrightarrow> (\<forall>x \<in> A. g x s = Ret (f x) s)"

lemma pure_onD: "pure_on A g f s \<Longrightarrow> x \<in> A \<Longrightarrow> g x s = Ret (f x) s"
  by (simp add: pure_on_def)

lemma pure_on_subset: "pure_on A g f s \<Longrightarrow> B \<subseteq> A \<Longrightarrow> pure_on B g f s"
  by (auto simp: pure_on_def)

text \<open>The callback selects by a fixed predicate, whatever the memory.\<close>

definition pure_sel :: "(addr \<Rightarrow> ('s, 'v) cprog) \<Rightarrow> (addr \<Rightarrow> 'v) \<Rightarrow> bool" where
  "pure_sel g f \<longleftrightarrow> (\<forall>x t. g x t = Ret (f x) t)"

subsection \<open>Queues\<close>

fun drain :: "nat \<Rightarrow> ('s, addr) cprog \<Rightarrow> ('s, addr list) cprog" where
  "drain 0 deq = ret []"
| "drain (Suc n) deq = bindM deq (\<lambda>x. bindM (drain n deq) (\<lambda>xs. ret (x # xs)))"

locale c_fifo =
  fixes rep :: "'s \<Rightarrow> addr list \<Rightarrow> bool"
    and cell :: "'s \<Rightarrow> addr \<Rightarrow> bool"
    and enq :: "addr \<Rightarrow> ('s, unit) cprog"
    and deq :: "('s, addr) cprog"
  assumes enq_law: "rep s xs \<Longrightarrow> cell s e \<Longrightarrow> e \<notin> set xs \<Longrightarrow>
      \<exists>s'. enq e s = Ret () s' \<and> rep s' (xs @ [e]) \<and> (\<forall>p. cell s p \<longrightarrow> cell s' p)"
    and deq_law: "rep s (x # xs) \<Longrightarrow>
      \<exists>s'. deq s = Ret x s' \<and> rep s' xs \<and> (\<forall>p. cell s p \<longrightarrow> cell s' p)"
    and deq_empty_law: "rep s [] \<Longrightarrow> deq s = Ret NULL s"
begin

lemma enq_all:
  "rep s xs \<Longrightarrow> distinct (xs @ es) \<Longrightarrow> \<forall>e \<in> set es. cell s e \<Longrightarrow>
   \<exists>s'. forM es enq s = Ret () s' \<and> rep s' (xs @ es)"
proof (induction es arbitrary: s xs)
  case Nil
  then show ?case by (simp add: c_eval)
next
  case (Cons e es)
  then obtain s1 where s1: "enq e s = Ret () s1" "rep s1 (xs @ [e])" "\<forall>p. cell s p \<longrightarrow> cell s1 p"
    using enq_law [of s xs e] by auto
  then have "\<exists>s'. forM es enq s1 = Ret () s' \<and> rep s' ((xs @ [e]) @ es)"
    using Cons.prems by (intro Cons.IH) auto
  with s1(1) show ?case by (auto simp: c_eval)
qed

lemma drain_all:
  "rep s xs \<Longrightarrow> \<exists>s'. drain (length xs) deq s = Ret xs s' \<and> rep s' []"
proof (induction xs arbitrary: s)
  case Nil
  then show ?case by (simp add: c_eval)
next
  case (Cons x xs)
  then obtain s1 where s1: "deq s = Ret x s1" "rep s1 xs"
    using deq_law [of s x xs] by auto
  with Cons.IH [of s1] show ?case by (auto simp: c_eval)
qed

lemma first_in_first_out:
  assumes "rep s xs" and "distinct (xs @ es)" and "\<forall>e \<in> set es. cell s e"
  shows "\<exists>s'. seqM (forM es enq) (drain (length (xs @ es)) deq) s = Ret (xs @ es) s' \<and> rep s' []"
proof -
  obtain s1 where "forM es enq s = Ret () s1" "rep s1 (xs @ es)"
    using enq_all [OF assms] by auto
  with drain_all [of s1 "xs @ es"] show ?thesis by (auto simp: c_eval)
qed

end

subsection \<open>Sorted sequences\<close>

text \<open>The comparator contract of the C containers: 0 for equal, -1 if the first element is
  smaller, 1 if it is greater, here by a key of the element.\<close>

definition key_ord :: "(addr \<Rightarrow> 'k::linorder) \<Rightarrow> addr \<Rightarrow> addr \<Rightarrow> int" where
  "key_ord key x y = (if key x = key y then 0 else if key x < key y then - 1 else 1)"

definition key_cmp :: "(addr \<Rightarrow> 'k::linorder) \<Rightarrow> addr \<Rightarrow> addr \<Rightarrow> ('s, int) cprog" where
  "key_cmp key x y = ret (key_ord key x y)"

lemma key_ord_le [simp]: "key_ord key x y \<le> 0 \<longleftrightarrow> key x \<le> key y"
  by (auto simp: key_ord_def)

lemma key_ord_gt [simp]: "0 < key_ord key x y \<longleftrightarrow> key y < key x"
  by (auto simp: key_ord_def)

lemma sorted_insert_between:
  assumes "sorted (map key (us @ vs))" and "\<forall>x \<in> set us. key x \<le> key e" and "\<forall>x \<in> set vs. key e \<le> key x"
  shows "sorted (map key (us @ e # vs))"
  using assms by (auto simp: sorted_append)

locale c_sorted =
  fixes rep :: "'s \<Rightarrow> addr list \<Rightarrow> bool"
    and cell :: "'s \<Rightarrow> addr \<Rightarrow> bool"
    and ins :: "addr \<Rightarrow> ('s, unit) cprog"
    and key :: "addr \<Rightarrow> 'k::linorder"
  assumes ins_law: "rep s xs \<Longrightarrow> sorted (map key xs) \<Longrightarrow> cell s e \<Longrightarrow> e \<notin> set xs \<Longrightarrow>
      \<exists>s' us vs. ins e s = Ret () s' \<and> rep s' (us @ e # vs) \<and> xs = us @ vs
        \<and> sorted (map key (us @ e # vs)) \<and> (\<forall>p. cell s p \<longrightarrow> cell s' p)"
begin

lemma ins_all_sorted:
  "rep s xs \<Longrightarrow> sorted (map key xs) \<Longrightarrow> distinct (xs @ es) \<Longrightarrow> \<forall>e \<in> set es. cell s e \<Longrightarrow>
   \<exists>s' ys. forM es ins s = Ret () s' \<and> rep s' ys \<and> sorted (map key ys) \<and> mset ys = mset (xs @ es)"
proof (induction es arbitrary: s xs)
  case Nil
  then show ?case by (auto simp: c_eval)
next
  case (Cons e es)
  then obtain s1 us vs where s1: "ins e s = Ret () s1" "rep s1 (us @ e # vs)" "xs = us @ vs"
      "sorted (map key (us @ e # vs))" "\<forall>p. cell s p \<longrightarrow> cell s1 p"
    using ins_law [of s xs e] by auto
  then have "\<exists>s' ys. forM es ins s1 = Ret () s' \<and> rep s' ys \<and> sorted (map key ys)
      \<and> mset ys = mset ((us @ e # vs) @ es)"
    using Cons.prems by (intro Cons.IH) auto
  with s1(1,3) show ?case by (auto simp: c_eval)
qed

end

end
