(* ===== verification/SlistSpec.thy ===== *)
theory SlistSpec
  imports Slist CInterfaces
begin

text \<open>
  What the routines of common/ctype/list.c do to the list they are given, in terms of the
  sequence of elements it holds (\<open>slist_rep\<close>).
\<close>

subsection \<open>Abstraction\<close>

definition slist_rep :: "'z slist_mem_scheme \<Rightarrow> addr \<Rightarrow> addr list \<Rightarrow> bool" where
  "slist_rep s l xs \<longleftrightarrow> chain (sl_next s) l xs \<and> sl_tail s l = Some (final xs)"

definition is_link :: "'z slink_mem_scheme \<Rightarrow> addr \<Rightarrow> bool" where
  "is_link s e \<longleftrightarrow> e \<noteq> NULL \<and> e \<in> dom (sl_next s)"

lemma slist_repD:
  assumes "slist_rep s l xs"
  shows "chain (sl_next s) l xs" and "sl_tail s l = Some (final xs)"
    and "sl_next s l = Some (first xs)" and "distinct (l # xs)" and "NULL \<notin> set xs"
  using assms chain_head chain_distinct [of _ l xs] chain_not_NULL
  by (auto simp: slist_rep_def simp del: distinct.simps)

lemma slist_rep_unique: "slist_rep s l xs \<Longrightarrow> slist_rep s l ys \<Longrightarrow> xs = ys"
  by (auto simp: slist_rep_def dest: chain_unique)

lemma slist_rep_cong:
  assumes "\<And>p. p \<in> set (l # xs) \<Longrightarrow> sl_next s' p = sl_next s p" and "sl_tail s' l = sl_tail s l"
  shows "slist_rep s' l xs = slist_rep s l xs"
  using assms chain_cong [of l xs "sl_next s'" "sl_next s"] by (simp add: slist_rep_def)

lemma chain_last_cell: "chain h p xs \<Longrightarrow> xs \<noteq> [] \<Longrightarrow> h (last xs) = Some NULL"
  using chain_last [of h p xs] by simp

lemma chain_last_not_NULL: "chain h p xs \<Longrightarrow> xs \<noteq> [] \<Longrightarrow> last xs \<noteq> NULL"
  using chain_not_NULL [of h p xs] last_in_set [of xs] by metis

subsection \<open>Insertion and removal at the ends\<close>

lemma slist_init_run:
  assumes "sl_next s l \<noteq> None" and "sl_tail s l \<noteq> None"
  shows "\<exists>s'. slist_init l s = Ret () s' \<and> slist_rep s' l []"
  using assms by (auto simp: slist_init_def slink_init_def c_eval slist_rep_def)

lemma slist_empty_run: "slist_rep s l xs \<Longrightarrow> slist_empty l s = Ret (xs = []) s"
  by (simp add: slist_empty_def slink_empty_chain slist_rep_def)

definition put_back :: "addr \<Rightarrow> addr list \<Rightarrow> addr \<Rightarrow> 'z slist_mem_scheme \<Rightarrow> 'z slist_mem_scheme" where
  "put_back l xs e s =
     s\<lparr>sl_next := (sl_next s)(tip l xs \<mapsto> e, e \<mapsto> NULL), sl_tail := (sl_tail s)(l \<mapsto> e)\<rparr>"

lemma slist_insert_back_run:
  assumes rep: "slist_rep s l xs" and e: "is_link s e" "e \<notin> set (l # xs)"
  shows "slist_insert_back l e s = Ret () (put_back l xs e s)"
proof (cases "xs = []")
  case True
  have "slink_add_front l e s = Ret () (s\<lparr>sl_next := (sl_next s)(e \<mapsto> NULL, l \<mapsto> e)\<rparr>)"
    using slink_add_front_run [of s l xs e] rep e True by (auto simp: slist_rep_def is_link_def)
  then show ?thesis
    using rep e True
    by (auto simp: slist_insert_back_def c_eval slist_rep_def put_back_def fun_upd_twist)
next
  case False
  have "sl_next s (last xs) = Some NULL" "last xs \<noteq> NULL" "last xs \<noteq> e"
    using slist_repD(1) [OF rep] chain_last_cell chain_last_not_NULL False e(2) last_in_set [of xs]
    by auto
  then show ?thesis
    using rep e False
    by (auto simp: slist_insert_back_def c_eval slist_rep_def put_back_def is_link_def)
qed

lemma slist_rep_put_back:
  assumes "slist_rep s l xs" "is_link s e" "e \<notin> set (l # xs)"
  shows "slist_rep (put_back l xs e s) l (xs @ [e])"
  using assms chain_snoc [of "sl_next s" l xs e]
  by (simp add: slist_rep_def put_back_def is_link_def)

lemma slist_insert_front_run:
  assumes rep: "slist_rep s l xs" and e: "is_link s e" "e \<notin> set (l # xs)"
  shows "slist_insert_front l e s =
    Ret () (s\<lparr>sl_next := (sl_next s)(e \<mapsto> first xs, l \<mapsto> e), sl_tail := (sl_tail s)(l \<mapsto> final (e # xs))\<rparr>)"
proof -
  have ch: "chain (sl_next s) l xs" using rep by (rule slist_repD)
  show ?thesis
  proof (cases "xs = []")
    case True
    then show ?thesis
      using rep e slink_empty_chain [OF ch] slink_add_front_run [of "s\<lparr>sl_tail := (sl_tail s)(l \<mapsto> e)\<rparr>" l "[]" e]
      by (simp add: slist_insert_front_def c_eval slist_rep_def is_link_def final_Cons)
  next
    case False
    then show ?thesis
      using rep e slink_empty_chain [OF ch] slink_add_front_run [OF ch, of e]
      by (simp add: slist_insert_front_def c_eval slist_rep_def is_link_def final_Cons map_upd_triv)
  qed
qed

lemma slist_rep_put_front:
  assumes "slist_rep s l xs" "is_link s e" "e \<notin> set (l # xs)"
  shows "slist_rep (s\<lparr>sl_next := (sl_next s)(e \<mapsto> first xs, l \<mapsto> e),
                     sl_tail := (sl_tail s)(l \<mapsto> final (e # xs))\<rparr>) l (e # xs)"
  using assms chain_push [of "sl_next s" l xs e] by (simp add: slist_rep_def is_link_def)

definition take_front :: "addr \<Rightarrow> addr \<Rightarrow> addr list \<Rightarrow> 'z slist_mem_scheme \<Rightarrow> 'z slist_mem_scheme" where
  "take_front l x xs s =
     s\<lparr>sl_next := (sl_next s)(l \<mapsto> first xs, x \<mapsto> NULL), sl_tail := (sl_tail s)(l \<mapsto> final xs)\<rparr>"

lemma slist_rm_front_run:
  assumes rep: "slist_rep s l (x # xs)"
  shows "slist_rm_front l s = Ret x (take_front l x xs s)"
proof -
  have ch: "chain (sl_next s) l (x # xs)" and d: "distinct (l # x # xs)"
    using rep by (rule slist_repD)+
  have x: "x \<noteq> NULL" using ch by simp
  show ?thesis
  proof (cases "xs = []")
    case True
    then show ?thesis
      using rep x d slink_rm_front_run [OF ch]
      by (simp add: slist_rm_front_def c_eval slist_rep_def take_front_def slink_empty_def final_Cons)
  next
    case False
    then have "last xs \<noteq> x" using d last_in_set [of xs] by auto
    then show ?thesis
      using rep x False slink_rm_front_run [OF ch]
      by (auto simp: slist_rm_front_def c_eval slist_rep_def take_front_def final_Cons map_upd_triv)
  qed
qed

lemma slist_rep_take_front:
  assumes "slist_rep s l (x # xs)"
  shows "slist_rep (take_front l x xs s) l xs"
  using assms chain_cut(1) [of "sl_next s" l "[]" x xs] by (simp add: slist_rep_def take_front_def)

lemma slist_rm_front_empty:
  "slist_rep s l [] \<Longrightarrow> slist_rm_front l s = Ret NULL s"
  by (simp add: slist_rm_front_def c_eval slink_rm_front_empty slist_rep_def)

lemma is_link_put_back [simp]:
  "slist_rep s l xs \<Longrightarrow> is_link (put_back l xs e s) p \<longleftrightarrow> is_link s p \<or> (p = e \<and> e \<noteq> NULL)"
  using chain_last [of "sl_next s" l xs]
  by (auto simp: is_link_def put_back_def slist_rep_def)

lemma is_link_take_front [simp]:
  "slist_rep s l (x # xs) \<Longrightarrow> is_link (take_front l x xs s) p \<longleftrightarrow> is_link s p"
  using chain_dom [of "sl_next s" l "x # xs" x]
  by (auto simp: is_link_def take_front_def slist_rep_def)

subsection \<open>Search\<close>

lemma slink_find_none:
  assumes "chain (sl_next s) p xs" and "pure_on (set xs) (\<lambda>x. cmp x elm) f s"
    and "\<forall>x \<in> set xs. f x \<noteq> 0"
  shows "slink_find p elm cmp rm s = Ret (NULL, None) s"
  unfolding slink_find_def
  using assms by (intro slink_find_loop_none [where f = f]) (auto simp: pure_on_def)

lemma slink_find_some:
  assumes "chain (sl_next s) p (us @ x # vs)" and "pure_on (set (us @ [x])) (\<lambda>x. cmp x elm) f s"
    and "\<forall>y \<in> set us. f y \<noteq> 0" and "f x = 0"
  shows "slink_find p elm cmp rm s =
    (if rm
     then Ret (x, Some (final us))
            (s\<lparr>sl_next := (sl_next s)(tip p us \<mapsto> first vs, x \<mapsto> NULL)\<rparr>)
     else Ret (x, None) s)"
proof -
  have d: "distinct (p # us @ x # vs)" using assms(1) by (rule chain_distinct)
  have prev: "(if tip p us = p then NULL else tip p us) = final us"
    using d last_in_set [of us] by (auto simp: final_def)
  have x: "cmp x elm s = Ret 0 s" using pure_onD [OF assms(2), of x] assms(4) by simp
  have us: "\<And>y. y \<in> set us \<Longrightarrow> cmp y elm s = Ret (f y) s \<and> f y \<noteq> 0"
    using pure_onD [OF assms(2)] assms(3) by auto
  show ?thesis
    unfolding slink_find_def by (subst slink_find_loop_some [where cmp = cmp and elm = elm and f = f, OF assms(1) us x]) (simp_all only: prev)
qed

lemma slist_find_none:
  assumes "slist_rep s l xs" and "xs \<noteq> []" and "pure_on (set xs) (\<lambda>x. cmp x elm) f s"
    and "\<forall>x \<in> set xs. f x \<noteq> 0"
  shows "slist_find l elm cmp rm s = Ret NULL s"
proof -
  have ch: "chain (sl_next s) l xs" using assms(1) by (rule slist_repD)
  have "last xs \<noteq> NULL" using ch assms(2) by (rule chain_last_not_NULL)
  then show ?thesis
    using slink_find_none [where cmp = cmp and elm = elm and f = f and rm = rm, OF ch assms(3,4)] assms(1,2)
    by (simp add: slist_find_def c_eval slist_rep_def)
qed

definition cut_elem ::
  "addr \<Rightarrow> addr list \<Rightarrow> addr \<Rightarrow> addr list \<Rightarrow> 'z slist_mem_scheme \<Rightarrow> 'z slist_mem_scheme" where
  "cut_elem l us x vs s =
     s\<lparr>sl_next := (sl_next s)(tip l us \<mapsto> first vs, x \<mapsto> NULL),
       sl_tail := (sl_tail s)(l \<mapsto> final (us @ vs))\<rparr>"

lemma slist_rep_cut_elem:
  assumes "slist_rep s l (us @ x # vs)"
  shows "slist_rep (cut_elem l us x vs s) l (us @ vs)"
  using assms chain_cut(1) [of "sl_next s" l us x vs] by (simp add: slist_rep_def cut_elem_def)

lemma slist_find_some:
  assumes rep: "slist_rep s l (us @ x # vs)"
    and f: "pure_on (set (us @ [x])) (\<lambda>x. cmp x elm) f s" "\<forall>y \<in> set us. f y \<noteq> 0" "f x = 0"
  shows "slist_find l elm cmp rm s = (if rm then Ret x (cut_elem l us x vs s) else Ret x s)"
proof -
  have ch: "chain (sl_next s) l (us @ x # vs)" and d: "distinct (l # us @ x # vs)"
    using rep by (rule slist_repD)+
  note find = slink_find_some [where cmp = cmp and elm = elm and f = f and rm = rm, OF ch f]
  show ?thesis
  proof (cases "rm \<and> vs \<noteq> []")
    case True
    then have "last vs \<noteq> x" using d last_in_set [of vs] by auto
    then show ?thesis
      using True find rep
      by (auto simp: slist_find_def c_eval slist_rep_def cut_elem_def final_def map_upd_triv)
  next
    case False
    then show ?thesis
      using find rep by (auto simp: slist_find_def c_eval slist_rep_def cut_elem_def)
  qed
qed

subsection \<open>Sorted insertion\<close>

definition put_at ::
  "addr \<Rightarrow> addr list \<Rightarrow> addr \<Rightarrow> addr list \<Rightarrow> 'z slist_mem_scheme \<Rightarrow> 'z slist_mem_scheme" where
  "put_at l us e vs s = s\<lparr>sl_next := (sl_next s)(tip l us \<mapsto> e, e \<mapsto> first vs)\<rparr>"

lemma slist_sorted_loop_run:
  assumes "chain (sl_next s) q vs" and "q \<noteq> NULL"
    and "pure_on (set vs) (\<lambda>x. cmp x e) f s" and "is_link s e" "e \<notin> set (q # vs)"
    and "\<exists>x \<in> set vs. f x > 0"
  shows "slist_sorted_loop e cmp \<lparr>sl_prev = q, sl_curr = first vs\<rparr> s =
    Ret True (put_at q (takeWhile (\<lambda>x. f x \<le> 0) vs) e (dropWhile (\<lambda>x. f x \<le> 0) vs) s)"
  using assms
proof (induction vs arbitrary: q)
  case Nil
  then show ?case by simp
next
  case (Cons v vs)
  have v: "v \<noteq> NULL" and q: "sl_next s q = Some v" using Cons.prems(1) by auto
  have c: "cmp v e s = Ret (f v) s" using Cons.prems(3) by (simp add: pure_on_def)
  show ?case
  proof (cases "f v > 0")
    case True
    then show ?thesis
      using c v q Cons.prems(2,4,5)
      by (subst slist_sorted_loop.simps) (auto simp: c_eval slink_defs put_at_def is_link_def)
  next
    case False
    have "slist_sorted_loop e cmp \<lparr>sl_prev = v, sl_curr = first vs\<rparr> s =
      Ret True (put_at v (takeWhile (\<lambda>x. f x \<le> 0) vs) e (dropWhile (\<lambda>x. f x \<le> 0) vs) s)"
      using Cons.prems False v by (intro Cons.IH) (auto simp: pure_on_def)
    moreover have "sl_next s v = Some (first vs)" using Cons.prems(1) by (simp add: chain_head)
    ultimately show ?thesis
      using False c v by (subst slist_sorted_loop.simps) (simp add: c_eval slink_defs put_at_def)
  qed
qed

definition ins_sorted :: "(addr \<Rightarrow> int) \<Rightarrow> addr \<Rightarrow> addr list \<Rightarrow> addr list" where
  "ins_sorted f e xs =
     (if xs = [] \<or> f (last xs) \<le> 0 then xs @ [e]
      else takeWhile (\<lambda>x. f x \<le> 0) xs @ e # dropWhile (\<lambda>x. f x \<le> 0) xs)"

lemma slist_rep_put_at:
  assumes "slist_rep s l (us @ vs)" "vs \<noteq> []" "is_link s e" "e \<notin> set (l # us @ vs)"
  shows "slist_rep (put_at l us e vs s) l (us @ e # vs)"
  using assms chain_insert [of "sl_next s" l us vs e]
  by (simp add: slist_rep_def put_at_def is_link_def)

lemma is_link_put_at: "is_link s p \<Longrightarrow> is_link (put_at l us e vs s) p"
  by (auto simp: is_link_def put_at_def)

lemma slist_insert_sorted_run:
  assumes rep: "slist_rep s l xs" and l: "l \<noteq> NULL" and e: "is_link s e" "e \<notin> set (l # xs)"
    and f: "pure_on (set xs) (\<lambda>x. cmp x e) f s"
  shows "\<exists>s'. slist_insert_sorted l e cmp s = Ret () s' \<and> slist_rep s' l (ins_sorted f e xs)
    \<and> (\<forall>p. is_link s p \<longrightarrow> is_link s' p)"
proof (cases "xs = [] \<or> f (last xs) \<le> 0")
  case True
  show ?thesis
  proof (cases "xs = []")
    case True
    then show ?thesis
      using slist_empty_run [OF rep] slist_insert_front_run [OF rep e] slist_rep_put_front [OF rep e]
      by (simp add: slist_insert_sorted_def c_eval ins_sorted_def is_link_def)
  next
    case False
    then have "cmp (last xs) e s = Ret (f (last xs)) s" using f by (simp add: pure_on_def)
    then show ?thesis
      using slist_empty_run [OF rep] slist_insert_back_run [OF rep e] slist_rep_put_back [OF rep e]
        False True slist_repD(2) [OF rep] rep
      by (simp add: slist_insert_sorted_def c_eval ins_sorted_def)
  qed
next
  case False
  then have ne: "xs \<noteq> []" and pos: "f (last xs) > 0" by auto
  let ?us = "takeWhile (\<lambda>x. f x \<le> 0) xs" and ?vs = "dropWhile (\<lambda>x. f x \<le> 0) xs"
  have c: "cmp (last xs) e s = Ret (f (last xs)) s" using f ne by (simp add: pure_on_def)
  have ch: "chain (sl_next s) l xs" using rep by (rule slist_repD)
  have ex: "\<exists>x \<in> set xs. f x > 0" using ne pos last_in_set by blast
  have "slist_sorted_loop e cmp \<lparr>sl_prev = l, sl_curr = first xs\<rparr> s = Ret True (put_at l ?us e ?vs s)"
    using slist_sorted_loop_run [of s l xs cmp e f] ch f e l ex by simp
  moreover have "?vs \<noteq> []" using ex by (force simp: dropWhile_eq_Nil_conv)
  moreover have "slist_rep (put_at l ?us e ?vs s) l (?us @ e # ?vs)"
    using slist_rep_put_at [of s l ?us ?vs e] rep e \<open>?vs \<noteq> []\<close> by simp
  ultimately show ?thesis
    using slist_empty_run [OF rep] ne pos c l slist_repD(2,3) [OF rep]
    by (simp add: slist_insert_sorted_def c_eval ins_sorted_def slink_iter_init_def is_link_put_at)
qed

subsection \<open>Merging and splitting\<close>

text \<open>Two lists share no object.\<close>

definition lists_apart :: "addr \<Rightarrow> addr list \<Rightarrow> addr \<Rightarrow> addr list \<Rightarrow> bool" where
  "lists_apart a xs b ys \<longleftrightarrow> set (a # xs) \<inter> set (b # ys) = {}"

lemma lists_apart_last:
  "lists_apart a xs b ys \<Longrightarrow> tip a xs \<notin> set (b # ys)"
  using tip_in_set [of a xs] by (auto simp: lists_apart_def)

lemma chain_join:
  assumes "chain h a xs" and "chain h b ys" and "lists_apart a xs b ys"
  shows "chain (h(tip a xs \<mapsto> first ys, b \<mapsto> NULL)) a (xs @ ys)"
proof -
  let ?h = "h(tip a xs \<mapsto> first ys, b \<mapsto> NULL)"
  have ab: "tip a xs \<notin> set (b # ys)" using assms(3) by (rule lists_apart_last)
  have "lpath ?h a xs"
  proof (rule lpath_splice)
    show "lpath h a xs" using assms(1) by (simp add: chain_iff_lpath)
    show "distinct (a # xs)" using assms(1) by (rule chain_distinct)
    show "b \<notin> set (a # xs)" using assms(3) by (auto simp: lists_apart_def)
  qed
  moreover have "chain ?h (tip a xs) ys"
  proof (cases ys)
    case Nil
    then show ?thesis using ab by (auto)
  next
    case (Cons y zs)
    have "b \<notin> set ys" using assms(2) by (rule chain_head_notin)
    then show ?thesis using Cons ab assms(2) by (auto simp: chain_upd)
  qed
  ultimately show ?thesis by (simp add: chain_append)
qed

definition merged :: "addr \<Rightarrow> addr list \<Rightarrow> addr \<Rightarrow> addr list \<Rightarrow> 'z slist_mem_scheme \<Rightarrow> 'z slist_mem_scheme" where
  "merged a xs b ys s =
     s\<lparr>sl_next := (sl_next s)(tip a xs \<mapsto> first ys, b \<mapsto> NULL),
       sl_tail := (sl_tail s)(a \<mapsto> final ys, b \<mapsto> NULL)\<rparr>"

lemma slist_merge_run:
  assumes a: "slist_rep s a xs" and b: "slist_rep s b ys" and ap: "lists_apart a xs b ys"
  shows "slist_merge a b s = Ret () (merged a xs b ys s)"
proof (cases "xs = []")
  case True
  then show ?thesis
    using slist_repD(2,3) [OF a] slist_repD(2,3) [OF b] ap
    by (auto simp: slist_merge_def slink_init_def c_eval merged_def lists_apart_def)
next
  case False
  have "last xs \<noteq> NULL" "sl_next s (last xs) = Some NULL" "last xs \<noteq> b"
    using slist_repD(1) [OF a] False chain_last_not_NULL chain_last_cell lists_apart_last [OF ap] by auto
  then show ?thesis
    using False slist_repD(2,3) [OF a] slist_repD(2,3) [OF b] ap
    by (auto simp: slist_merge_def slink_init_def c_eval merged_def lists_apart_def)
qed

lemma merged_chains:
  assumes a: "slist_rep s a xs" and b: "slist_rep s b ys" and ap: "lists_apart a xs b ys"
  shows "chain (sl_next (merged a xs b ys s)) a (xs @ ys)" and "slist_rep (merged a xs b ys s) b []"
    and "sl_tail (merged a xs b ys s) a = Some (final ys)"
  using chain_join [OF slist_repD(1) [OF a] slist_repD(1) [OF b] ap] ap
  by (auto simp: merged_def slist_rep_def lists_apart_def)

definition split_at :: "addr \<Rightarrow> addr list \<Rightarrow> addr \<Rightarrow> addr list \<Rightarrow> addr \<Rightarrow> 'z slist_mem_scheme \<Rightarrow> 'z slist_mem_scheme" where
  "split_at a us x vs b s =
     s\<lparr>sl_next := (sl_next s)(b \<mapsto> first vs, x \<mapsto> NULL), sl_tail := (sl_tail s)(b \<mapsto> final vs)\<rparr>"

lemma slist_split_run:
  assumes a: "slist_rep s a (us @ x # vs)" and b: "slist_rep s b []"
    and ap: "lists_apart a (us @ x # vs) b []" and vs: "vs \<noteq> []"
  shows "slist_split a x b s = Ret () (split_at a us x vs b s)"
proof -
  have "chain (sl_next s) x vs" and x: "x \<noteq> NULL"
    using slist_repD(1) [OF a] by (auto simp: chain_append)
  then have "sl_next s x = Some (first vs)" "first vs \<noteq> NULL"
    using chain_head first_NULL [of "sl_next s" x vs] vs by auto
  then show ?thesis using x
    using slist_repD(2) [OF a] slist_repD(2,3) [OF b] slist_empty_run [OF b] ap vs
    by (auto simp: slist_split_def c_eval split_at_def lists_apart_def)
qed

lemma split_at_chains:
  assumes a: "slist_rep s a (us @ x # vs)" and b: "slist_rep s b []"
    and ap: "lists_apart a (us @ x # vs) b []" and vs: "vs \<noteq> []"
  shows "chain (sl_next (split_at a us x vs b s)) a (us @ [x])"
    and "slist_rep (split_at a us x vs b s) b vs"
    and "sl_tail (split_at a us x vs b s) a = Some (last vs)"
proof -
  have d: "distinct (a # us @ x # vs)" using a by (rule slist_repD)
  have ch: "chain (sl_next s) a (us @ x # vs)" using a by (rule slist_repD)
  let ?h = "sl_next (split_at a us x vs b s)"
  have h: "?h = (sl_next s)(b \<mapsto> first vs, x \<mapsto> NULL)" by (simp add: split_at_def)
  have "lpath (sl_next s) a (us @ [x])" using ch by (simp add: chain_append lpath_append)
  moreover have "b \<notin> set (a # us @ [x])" using ap by (auto simp: lists_apart_def)
  ultimately have "lpath ((sl_next s)(b \<mapsto> first vs)) a (us @ [x])"
    by (simp only: lpath_upd not_False_eq_True)
  moreover have "distinct (a # us @ [x])" using d by auto
  ultimately have "lpath ?h a (us @ [x])"
    using lpath_upd_last [of a "us @ [x]" "(sl_next s)(b \<mapsto> first vs)" "Some NULL"] h by simp
  then show "chain ?h a (us @ [x])" using h by (simp add: chain_iff_lpath)
  obtain y zs where vz: "vs = y # zs" using vs by (cases vs) auto
  have "chain (sl_next s) y zs" "y \<noteq> NULL" using ch vz by (auto simp: chain_append)
  moreover have "b \<notin> set vs" "x \<notin> set vs" "x \<noteq> b" using ap d by (auto simp: lists_apart_def)
  ultimately show "slist_rep (split_at a us x vs b s) b vs"
    using h vz by (auto simp: slist_rep_def chain_upd split_at_def)
  show "sl_tail (split_at a us x vs b s) a = Some (last vs)"
    using slist_repD(2) [OF a] vs ap by (auto simp: split_at_def lists_apart_def)
qed

subsection \<open>Filtering\<close>

lemma slist_filter_loop_none:
  assumes "chain (sl_next s) q vs" and "pure_sel sel P" and "\<forall>x \<in> set vs. \<not> P x"
  shows "slist_filter_loop n sel \<lparr>sl_prev = q, sl_curr = first vs\<rparr> cnt s = Ret cnt s"
  using assms
proof (induction vs arbitrary: q)
  case Nil
  then show ?case by (subst slist_filter_loop.simps) (simp add: slink_defs c_eval)
next
  case (Cons v vs)
  have "slist_filter_loop n sel \<lparr>sl_prev = v, sl_curr = first vs\<rparr> cnt s = Ret cnt s"
    using Cons by simp
  moreover have "sl_next s v = Some (first vs)" "v \<noteq> NULL" using Cons.prems(1) by (auto simp: chain_head)
  ultimately show ?case
    using Cons.prems(2,3)
    by (subst slist_filter_loop.simps) (simp add: slink_defs slist_filter_step_def c_eval pure_sel_def)
qed

lemma slist_filter_loop_step:
  assumes "chain (sl_next s) q (v # vs)" and "pure_sel sel P" and "\<not> P v"
  shows "slist_filter_loop n sel \<lparr>sl_prev = q, sl_curr = v\<rparr> cnt s =
    slist_filter_loop n sel \<lparr>sl_prev = v, sl_curr = first vs\<rparr> cnt s"
proof -
  have "sl_next s v = Some (first vs)" "v \<noteq> NULL" using assms(1) by (auto simp: chain_head)
  then show ?thesis
    using assms(2,3)
    by (subst slist_filter_loop.simps) (simp add: slink_defs slist_filter_step_def c_eval pure_sel_def)
qed

text \<open>The state after the first selected element \<open>x\<close> has been moved to the list \<open>n\<close>.\<close>

definition filtered ::
  "addr \<Rightarrow> addr list \<Rightarrow> addr \<Rightarrow> addr list \<Rightarrow> addr \<Rightarrow> addr list \<Rightarrow> 'z slist_mem_scheme \<Rightarrow> 'z slist_mem_scheme" where
  "filtered a us x vs n ys s =
     put_back n ys x (s\<lparr>sl_next := (sl_next s)(tip a us \<mapsto> first vs, x \<mapsto> NULL)\<rparr>)"

lemma cut_is_link:
  assumes "chain (sl_next s) a (us @ x # vs)"
  shows "is_link (s\<lparr>sl_next := (sl_next s)(q \<mapsto> v, x \<mapsto> NULL)\<rparr>) x"
  using chain_not_NULL [OF assms] by (auto simp: is_link_def)

lemma lists_apart_cut:
  assumes "lists_apart a (us @ x # vs) n ys" and "slist_rep s n ys"
  shows "slist_rep (s\<lparr>sl_next := (sl_next s)(tip a us \<mapsto> v, x \<mapsto> NULL)\<rparr>) n ys"
proof -
  have "tip a us \<in> set (a # us)" by (rule tip_in_set)
  then have "tip a us \<notin> set (n # ys)" "x \<notin> set (n # ys)"
    using assms(1) by (auto simp: lists_apart_def)
  then show ?thesis
    using slist_rep_cong [of n ys "s\<lparr>sl_next := (sl_next s)(tip a us \<mapsto> v, x \<mapsto> NULL)\<rparr>" s] assms(2)
    by (metis (no_types, lifting) fun_upd_other slink_mem.select_convs(1) slink_mem.surjective
        slink_mem.update_convs(1) slist_mem.select_convs(1) slist_mem.surjective)
qed

lemma slist_filter_loop_hit:
  assumes "chain (sl_next s) q (x # vs)" and "pure_sel sel P" and "P x"
    and "slist_rep (s\<lparr>sl_next := (sl_next s)(q \<mapsto> first vs, x \<mapsto> NULL)\<rparr>) n ys" and "x \<notin> set (n # ys)"
  shows "slist_filter_loop n sel \<lparr>sl_prev = q, sl_curr = x\<rparr> cnt s =
    Ret (cnt + 1) (put_back n ys x (s\<lparr>sl_next := (sl_next s)(q \<mapsto> first vs, x \<mapsto> NULL)\<rparr>))"
proof -
  let ?s = "s\<lparr>sl_next := (sl_next s)(q \<mapsto> first vs, x \<mapsto> NULL)\<rparr>"
  have x: "x \<noteq> NULL" "sl_next s x = Some (first vs)" "sl_next s q = Some x"
    using assms(1) by (auto simp: chain_head)
  have xq: "x \<noteq> q" using chain_head_notin [OF assms(1)] by auto
  have "is_link ?s x" using assms(1) cut_is_link [of s q "[]" x vs] by simp
  then have "slist_insert_back n x ?s = Ret () (put_back n ys x ?s)"
    by (rule slist_insert_back_run [OF assms(4) _ assms(5)])
  moreover have "sl_next (put_back n ys x ?s) x = Some NULL" by (simp add: put_back_def)
  ultimately show ?thesis
    using x xq assms(2,3)
    apply (subst slist_filter_loop.simps)
    apply (simp add: slink_defs slist_filter_step_def c_eval pure_sel_def)
    apply (subst slist_filter_loop.simps)
    apply (simp add: slink_defs c_eval)
    done
qed

lemma slist_filter_loop_first:
  assumes "chain (sl_next s) q (us @ x # vs)" and "pure_sel sel P"
    and "\<forall>y \<in> set us. \<not> P y" and "P x"
    and "slist_rep (s\<lparr>sl_next := (sl_next s)(tip q us \<mapsto> first vs, x \<mapsto> NULL)\<rparr>) n ys"
    and "x \<notin> set (n # ys)"
  shows "slist_filter_loop n sel \<lparr>sl_prev = q, sl_curr = first (us @ [x])\<rparr> cnt s =
    Ret (cnt + 1) (filtered q us x vs n ys s)"
  using assms
proof (induction us arbitrary: q)
  case Nil
  have ch: "chain (sl_next s) q (x # vs)" using Nil.prems(1) by (simp only: append_Nil)
  have "slist_rep (s\<lparr>sl_next := (sl_next s)(q \<mapsto> first vs, x \<mapsto> NULL)\<rparr>) n ys"
    using Nil.prems(5) by (simp only: tip.simps)
  note slist_filter_loop_hit [OF ch Nil.prems(2,4) this Nil.prems(6)]
  then show ?case by (simp add: filtered_def)
next
  case (Cons u us)
  have "first (us @ x # vs) = first (us @ [x])" by (cases us) auto
  then have "slist_filter_loop n sel \<lparr>sl_prev = q, sl_curr = u\<rparr> cnt s =
    slist_filter_loop n sel \<lparr>sl_prev = u, sl_curr = first (us @ [x])\<rparr> cnt s"
    using slist_filter_loop_step [of s q u "us @ x # vs" sel P n cnt] Cons.prems(1-3) by simp
  moreover have "slist_filter_loop n sel \<lparr>sl_prev = u, sl_curr = first (us @ [x])\<rparr> cnt s =
    Ret (cnt + 1) (filtered u us x vs n ys s)"
    using Cons by simp
  ultimately show ?case by (simp add: filtered_def)
qed

lemma slist_filter_out_run:
  assumes a: "slist_rep s a (us @ x # vs)" and n: "slist_rep s n ys"
    and ap: "lists_apart a (us @ x # vs) n ys" and "a \<noteq> NULL"
    and sel: "pure_sel sel P" "\<forall>y \<in> set us. \<not> P y" "P x"
  shows "slist_filter_out a n sel s = Ret 1 (filtered a us x vs n ys s)"
proof -
  have x: "x \<notin> set (n # ys)" using ap by (auto simp: lists_apart_def)
  have "slist_filter_loop n sel \<lparr>sl_prev = a, sl_curr = first (us @ [x])\<rparr> 0 s =
    Ret (0 + 1) (filtered a us x vs n ys s)"
    using slist_repD(1) [OF a] sel lists_apart_cut [OF ap n, of "first vs"] x
    by (rule slist_filter_loop_first)
  moreover have "first (us @ x # vs) = first (us @ [x])" by (cases us) auto
  ultimately show ?thesis
    using slist_repD(3) [OF a] assms(4) by (simp add: slist_filter_out_def slink_iter_init_def c_eval)
qed

lemma filtered_chains:
  assumes a: "slist_rep s a (us @ x # vs)" and n: "slist_rep s n ys"
    and ap: "lists_apart a (us @ x # vs) n ys"
  shows "chain (sl_next (filtered a us x vs n ys s)) a (us @ vs)"
    and "slist_rep (filtered a us x vs n ys s) n (ys @ [x])"
    and "sl_tail (filtered a us x vs n ys s) a = Some (final (us @ x # vs))"
proof -
  let ?s = "s\<lparr>sl_next := (sl_next s)(tip a us \<mapsto> first vs, x \<mapsto> NULL)\<rparr>"
  have ch: "chain (sl_next s) a (us @ x # vs)" using a by (rule slist_repD)
  have x: "x \<notin> set (n # ys)" using ap by (auto simp: lists_apart_def)
  have n': "slist_rep ?s n ys" by (rule lists_apart_cut [OF ap n])
  have d: "distinct (a # us @ x # vs)" using ch by (rule chain_distinct)
  show "slist_rep (filtered a us x vs n ys s) n (ys @ [x])"
    unfolding filtered_def using n' cut_is_link [OF ch] x by (rule slist_rep_put_back)
  have "tip n ys \<in> set (n # ys)" by (rule tip_in_set)
  then have "tip n ys \<notin> set (a # us @ vs)" "x \<notin> set (a # us @ vs)"
    using ap d by (auto simp: lists_apart_def)
  then show "chain (sl_next (filtered a us x vs n ys s)) a (us @ vs)"
    using chain_cut(1) [OF ch]
    by (simp add: filtered_def put_back_def chain_upd set_simps)
  show "sl_tail (filtered a us x vs n ys s) a = Some (final (us @ x # vs))"
    using slist_repD(2) [OF a] ap by (auto simp: filtered_def put_back_def lists_apart_def)
qed

subsection \<open>The list as a queue and as a sorted sequence\<close>

interpretation slq: c_fifo
  "\<lambda>s xs. slist_rep s l xs" "\<lambda>s e. is_link s e \<and> e \<noteq> l" "slist_insert_back l" "slist_rm_front l"
  for l :: addr
proof (unfold_locales, goal_cases)
  case (1 s xs e)
  then show ?case
    using slist_insert_back_run [of s l xs e] slist_rep_put_back [of s l xs e] by auto
next
  case (2 s x xs)
  then show ?case
    using slist_rm_front_run [of s l x xs] slist_rep_take_front [of s l x xs] by auto
next
  case (3 s)
  then show ?case by (rule slist_rm_front_empty)
qed

lemma ins_sorted_split:
  assumes "sorted (map key xs)" and "\<And>x. f x \<le> 0 \<longleftrightarrow> key x \<le> key e"
  obtains us vs where "ins_sorted f e xs = us @ e # vs" "xs = us @ vs"
    "sorted (map key (us @ e # vs))"
proof (cases "xs = [] \<or> f (last xs) \<le> 0")
  case True
  have "\<forall>x \<in> set xs. key x \<le> key e"
  proof
    fix x assume x: "x \<in> set xs"
    then have "xs \<noteq> []" by auto
    then obtain ys y where xs: "xs = ys @ [y]" by (cases xs rule: rev_cases) auto
    have "key x \<le> key (last xs)" using assms(1) x unfolding xs by (auto simp: sorted_append)
    also have "key (last xs) \<le> key e" using True \<open>xs \<noteq> []\<close> assms(2) [of "last xs"] by blast
    finally show "key x \<le> key e" .
  qed
  then have "sorted (map key (xs @ e # []))"
    using assms(1) by (intro sorted_insert_between) auto
  then show ?thesis using True that [of xs "[]"] by (simp add: ins_sorted_def)
next
  case False
  let ?us = "takeWhile (\<lambda>x. f x \<le> 0) xs" and ?vs = "dropWhile (\<lambda>x. f x \<le> 0) xs"
  have vs: "\<forall>x \<in> set ?vs. key e \<le> key x"
  proof (cases ?vs)
    case Nil
    then show ?thesis by (simp only: list.set ball_empty)
  next
    case (Cons v ws)
    then have "\<not> f v \<le> 0" using hd_dropWhile [of "\<lambda>x. f x \<le> 0" xs] by auto
    then have "key e < key v" using assms(2) by auto
    moreover have "sorted (map key ?vs)"
      using assms(1) sorted_append [of "map key ?us" "map key ?vs"]
      by (metis map_append takeWhile_dropWhile_id)
    ultimately show ?thesis using Cons by auto
  qed
  have "\<forall>x \<in> set ?us. key x \<le> key e" using assms(2) by (auto dest: set_takeWhileD)
  with vs have "sorted (map key (?us @ e # ?vs))"
    using assms(1) by (intro sorted_insert_between) auto
  then show ?thesis using False that [of ?us ?vs] by (simp add: ins_sorted_def)
qed

interpretation slsort: c_sorted
  "\<lambda>s xs. slist_rep s l xs \<and> l \<noteq> NULL" "\<lambda>s e. is_link s e \<and> e \<noteq> l"
  "\<lambda>e. slist_insert_sorted l e (key_cmp key)" key
  for l :: addr and key :: "addr \<Rightarrow> 'k::linorder"
proof (unfold_locales, goal_cases)
  case (1 s xs e)
  have "pure_on (set xs) (\<lambda>x. key_cmp key x e) (\<lambda>x. key_ord key x e) s"
    by (simp add: pure_on_def key_cmp_def ret_def)
  then obtain s' where s': "slist_insert_sorted l e (key_cmp key) s = Ret () s'"
      "slist_rep s' l (ins_sorted (\<lambda>x. key_ord key x e) e xs)" "\<forall>p. is_link s p \<longrightarrow> is_link s' p"
    using slist_insert_sorted_run [of s l xs e "key_cmp key" "\<lambda>x. key_ord key x e"] 1 by auto
  obtain us vs where "ins_sorted (\<lambda>x. key_ord key x e) e xs = us @ e # vs" "xs = us @ vs"
      "sorted (map key (us @ e # vs))"
    using ins_sorted_split [of key xs "\<lambda>x. key_ord key x e" e] 1(2) by auto
  with s' 1 show ?case by auto
qed

end
