(* ===== verification/SlistProps.thy ===== *)
theory SlistProps
  imports SlistSpec
begin

text \<open>
  The properties of the singly linked list. The correct operations come first (queue order,
  sorted insertion, search, concatenation), then the behaviour of the operations that do
  not keep the list's tail pointer, or the iteration, as their comments describe.
\<close>

subsection \<open>Order of the elements\<close>

text \<open>Elements put into an initialised list with \<open>slist_insert_back\<close> come out of
  \<open>slist_rm_front\<close> in the order in which they were put in, none is lost, and the list is
  empty (and well-formed) afterwards.\<close>

theorem slist_queue_fifo:
  assumes "slist_rep s l xs" and "distinct (xs @ es)" and "\<forall>e \<in> set es. is_link s e \<and> e \<noteq> l"
  shows "\<exists>s'. seqM (forM es (slist_insert_back l)) (drain (length (xs @ es)) (slist_rm_front l)) s
      = Ret (xs @ es) s' \<and> slist_rep s' l []"
  using assms by (rule slq.first_in_first_out)

definition demo_slist :: slist_mem where
  "demo_slist = \<lparr>sl_next = [1 \<mapsto> 2, 2 \<mapsto> 0, 3 \<mapsto> 7, 4 \<mapsto> 0, 5 \<mapsto> 0], sl_tail = [1 \<mapsto> 2, 4 \<mapsto> 0]\<rparr>"

lemma demo_slist_rep: "slist_rep demo_slist 1 [2]" "slist_rep demo_slist 4 []"
  by (simp_all add: slist_rep_def demo_slist_def)

lemma demo_slist_link: "is_link demo_slist 2" "is_link demo_slist 3" "is_link demo_slist 5"
  by (simp_all add: is_link_def demo_slist_def)

theorem slist_queue_fifo_witness:
  "\<exists>s'. seqM (forM [3, 5] (slist_insert_back 1)) (drain 3 (slist_rm_front 1)) demo_slist
      = Ret [2, 3, 5] s' \<and> slist_rep s' 1 []"
  using slist_queue_fifo [OF demo_slist_rep(1), of "[3, 5]"] demo_slist_link
  by (simp add: numeral_3_eq_3 del: drain.simps)

text \<open>C22: inserting objects one after the other with \<open>slist_insert_sorted\<close> into a sorted list
  leaves a sorted list that holds exactly the old and the new objects.\<close>

theorem slist_insertion_sorts:
  fixes key :: "addr \<Rightarrow> 'k::linorder"
  assumes "slist_rep s l xs" and "l \<noteq> NULL" and "sorted (map key xs)" and "distinct (xs @ es)"
    and "\<forall>e \<in> set es. is_link s e \<and> e \<noteq> l"
  shows "\<exists>s' ys. forM es (\<lambda>e. slist_insert_sorted l e (key_cmp key)) s = Ret () s'
      \<and> slist_rep s' l ys \<and> sorted (map key ys) \<and> mset ys = mset (xs @ es)"
  using slsort.ins_all_sorted [of s l xs key es] assms by blast

theorem slist_insertion_sorts_witness:
  "\<exists>s' ys. forM [5, 3] (\<lambda>e. slist_insert_sorted 1 e (key_cmp (\<lambda>a. a))) demo_slist = Ret () s'
      \<and> slist_rep s' 1 ys \<and> sorted (map (\<lambda>a. a) ys) \<and> mset ys = mset ([2] @ [5, 3])"
  using slist_insertion_sorts [OF demo_slist_rep(1), of "\<lambda>a. a" "[5, 3]"] demo_slist_link by simp

subsection \<open>Search\<close>

text \<open>\<open>slist_find\<close> returns the first element on which the comparison gives 0; with
  \<open>rm\<close> it takes out that element and no other, and keeps the tail pointer right even when
  the element was the last one. The search ends and does not touch the memory otherwise.\<close>

theorem slist_find_first:
  assumes "slist_rep s l (us @ x # vs)" and "pure_on (set (us @ [x])) (\<lambda>y. cmp y d) f s"
    and "\<forall>y \<in> set us. f y \<noteq> 0" and "f x = 0"
  shows "slist_find l d cmp False s = Ret x s
    \<and> (\<exists>s'. slist_find l d cmp True s = Ret x s' \<and> slist_rep s' l (us @ vs))"
  using slist_find_some [where cmp = cmp and elm = d and f = f, OF assms] slist_rep_cut_elem [OF assms(1)]
  by auto

definition demo_sel :: "addr \<Rightarrow> addr \<Rightarrow> ('s, int) cprog" where
  "demo_sel x y = ret (if x = y then 0 else 1)"

theorem slist_find_first_witness:
  "slist_find 1 2 demo_sel False demo_slist = Ret 2 demo_slist
    \<and> (\<exists>s'. slist_find 1 2 demo_sel True demo_slist = Ret 2 s' \<and> slist_rep s' 1 [])"
  using slist_find_first [of demo_slist 1 "[]" 2 "[]" demo_sel 2 "\<lambda>y. if y = 2 then 0 else 1"] demo_slist_rep(1)
  by (simp add: pure_on_def demo_sel_def ret_def)

text \<open>On an empty list, \<open>slist_find\<close> with \<open>rm\<close> uses its local \<open>prev\<close> although
  nothing ever stored into it: \<open>NULL\<close>, the result of the search, equals the empty list's
  \<open>NULL\<close> tail.\<close>

theorem slist_find_rm_empty_uninit:
  "slist_rep s l [] \<Longrightarrow> slist_find l d cmp True s = Abort Uninit_read"
  using slink_find_none [where p = l and xs = "[]" and cmp = cmp and elm = d and f = "\<lambda>_. 1" and rm = True and s = s]
  by (simp add: slist_rep_def slist_find_def c_eval pure_on_def)

theorem slist_find_rm_empty_uninit_witness:
  "slist_find 4 2 demo_sel True demo_slist = Abort Uninit_read"
  using demo_slist_rep(2) by (rule slist_find_rm_empty_uninit)

subsection \<open>Concatenation and cutting\<close>

text \<open>\<open>slist_merge\<close> appends the elements of the second list to the first and empties
  the second, provided the second list is not empty or the first one is.\<close>

theorem slist_merge_appends:
  assumes "slist_rep s a xs" and "slist_rep s b ys" and "lists_apart a xs b ys"
    and "ys \<noteq> [] \<or> xs = []"
  shows "\<exists>s'. slist_merge a b s = Ret () s' \<and> slist_rep s' a (xs @ ys) \<and> slist_rep s' b []"
proof -
  have "final ys = final (xs @ ys)" using assms(4) by (cases ys) auto
  then show ?thesis
    using slist_merge_run [OF assms(1-3)] merged_chains [OF assms(1-3)] by (auto simp: slist_rep_def)
qed

definition demo_two :: slist_mem where
  "demo_two = \<lparr>sl_next = [1 \<mapsto> 2, 2 \<mapsto> 0, 3 \<mapsto> 4, 4 \<mapsto> 0, 5 \<mapsto> 0, 6 \<mapsto> 0], sl_tail = [1 \<mapsto> 2, 3 \<mapsto> 4, 6 \<mapsto> 0]\<rparr>"

lemma demo_two_rep: "slist_rep demo_two 1 [2]" "slist_rep demo_two 3 [4]" "slist_rep demo_two 6 []"
  by (simp_all add: slist_rep_def demo_two_def)

theorem slist_merge_appends_witness:
  "\<exists>s'. slist_merge 1 3 demo_two = Ret () s' \<and> slist_rep s' 1 [2, 4] \<and> slist_rep s' 3 []"
  using slist_merge_appends [OF demo_two_rep(1,2)] by (simp add: lists_apart_def)

text \<open>Merging an empty list into a non-empty one leaves the first list with the tail
  pointer \<open>NULL\<close>; the next \<open>slist_insert_back\<close> then loses all of its elements: the list
  holds the new element alone.\<close>

theorem slist_merge_empty_loses:
  assumes a: "slist_rep s a xs" and b: "slist_rep s b []" and ap: "lists_apart a xs b []"
    and xs: "xs \<noteq> []" and e: "is_link s e" "e \<notin> set (a # b # xs)"
  shows "\<exists>s1 s2. slist_merge a b s = Ret () s1 \<and> sl_tail s1 a = Some NULL
    \<and> slist_insert_back a e s1 = Ret () s2 \<and> slist_rep s2 a [e]"
proof -
  let ?s = "merged a xs b [] s"
  have ch: "chain (sl_next ?s) a xs" and tl: "sl_tail ?s a = Some NULL"
    using merged_chains [OF a b ap] by auto
  have "e \<in> dom (sl_next ?s)" using e by (auto simp: merged_def is_link_def)
  then have "slink_add_front a e ?s = Ret () (?s\<lparr>sl_next := (sl_next ?s)(e \<mapsto> first xs, a \<mapsto> e)\<rparr>)"
    using slink_add_front_run [OF ch, of e] e by auto
  then have "slist_insert_back a e ?s =
      Ret () (?s\<lparr>sl_next := (sl_next ?s)(a \<mapsto> e, e \<mapsto> NULL), sl_tail := (sl_tail ?s)(a \<mapsto> e)\<rparr>)"
    using tl e by (auto simp: slist_insert_back_def c_eval fun_upd_twist)
  then show ?thesis
    using slist_merge_run [OF a b ap] tl e by (auto simp: slist_rep_def is_link_def)
qed

theorem slist_merge_empty_loses_witness:
  "\<exists>s1 s2. slist_merge 1 6 demo_two = Ret () s1 \<and> sl_tail s1 1 = Some NULL
    \<and> slist_insert_back 1 5 s1 = Ret () s2 \<and> slist_rep s2 1 [5]"
  using slist_merge_empty_loses [OF demo_two_rep(1,3), of 5]
  by (simp add: lists_apart_def is_link_def demo_two_def)

text \<open>\<open>slist_split\<close> moves the elements after the split point to the new list, but
  leaves the old list's tail pointer on the last of the elements that moved away: an element
  then inserted at the back of the old list lands at the end of the new one.\<close>

theorem slist_split_stale_tail:
  assumes a: "slist_rep s a (us @ x # vs)" and b: "slist_rep s b []"
    and ap: "lists_apart a (us @ x # vs) b []" and vs: "vs \<noteq> []"
    and e: "is_link s e" "e \<notin> set (a # b # us @ x # vs)"
  shows "\<exists>s1 s2. slist_split a x b s = Ret () s1 \<and> slist_rep s1 b vs
    \<and> slist_insert_back a e s1 = Ret () s2
    \<and> chain (sl_next s2) a (us @ [x]) \<and> chain (sl_next s2) b (vs @ [e])"
proof -
  let ?s = "split_at a us x vs b s"
  have ca: "chain (sl_next ?s) a (us @ [x])" and rb: "slist_rep ?s b vs"
    and tl: "sl_tail ?s a = Some (last vs)"
    using split_at_chains [OF a b ap vs] by auto
  have cb: "chain (sl_next ?s) b vs" using rb by (rule slist_repD)
  have lv: "last vs \<noteq> NULL" "sl_next ?s (last vs) = Some NULL" "last vs \<in> set vs"
    using chain_last_not_NULL [OF cb vs] chain_last_cell [OF cb vs] vs by auto
  have d: "distinct (a # us @ x # vs)" using a by (rule slist_repD)
  have ed: "e \<in> dom (sl_next ?s)" using e by (auto simp: split_at_def is_link_def)
  let ?s2 = "?s\<lparr>sl_next := (sl_next ?s)(last vs \<mapsto> e, e \<mapsto> NULL), sl_tail := (sl_tail ?s)(a \<mapsto> e)\<rparr>"
  have "slist_insert_back a e ?s = Ret () ?s2"
    using tl lv ed e by (auto simp: slist_insert_back_def c_eval)
  moreover have "last vs \<notin> set (a # us @ [x])" "e \<notin> set (a # us @ [x])" using lv(3) d e by auto
  then have "chain (sl_next ?s2) a (us @ [x])" using ca by (simp add: chain_upd del: set_simps)
  moreover have "chain (sl_next ?s2) b (vs @ [e])"
    using chain_snoc [OF cb, of e] e vs by (simp add: is_link_def)
  ultimately show ?thesis using slist_split_run [OF a b ap vs] rb by blast
qed

definition demo_split :: slist_mem where
  "demo_split = \<lparr>sl_next = [1 \<mapsto> 2, 2 \<mapsto> 3, 3 \<mapsto> 0, 5 \<mapsto> 0, 6 \<mapsto> 0], sl_tail = [1 \<mapsto> 3, 6 \<mapsto> 0]\<rparr>"

theorem slist_split_stale_tail_witness:
  "\<exists>s1 s2. slist_split 1 2 6 demo_split = Ret () s1 \<and> slist_rep s1 6 [3]
    \<and> slist_insert_back 1 5 s1 = Ret () s2
    \<and> chain (sl_next s2) 1 [2] \<and> chain (sl_next s2) 6 [3, 5]"
  using slist_split_stale_tail [of demo_split 1 "[]" 2 "[3]" 6 5]
  by (simp add: slist_rep_def lists_apart_def is_link_def demo_split_def)

subsection \<open>Filtering\<close>

text \<open>\<open>slist_filter_out\<close> moves the first selected element to the new list and stops
  there, because the iteration goes on from the link of the element it has just moved: later
  selected elements stay, the count returned is 1, and the tail pointer of the old list still
  names its old last element.\<close>

theorem slist_filter_out_first_only:
  assumes "slist_rep s a (us @ x # vs)" and "slist_rep s n ys"
    and "lists_apart a (us @ x # vs) n ys" and "a \<noteq> NULL"
    and "pure_sel sel P" and "\<forall>y \<in> set us. \<not> P y" and "P x"
  shows "\<exists>s'. slist_filter_out a n sel s = Ret 1 s'
    \<and> chain (sl_next s') a (us @ vs) \<and> slist_rep s' n (ys @ [x])
    \<and> sl_tail s' a = Some (final (us @ x # vs))"
  using slist_filter_out_run [OF assms] filtered_chains [OF assms(1-3)] by auto

theorem slist_filter_out_first_only_witness:
  "\<exists>s'. slist_filter_out 1 6 (\<lambda>_. ret True) demo_split = Ret 1 s'
    \<and> chain (sl_next s') 1 [3] \<and> slist_rep s' 6 [2] \<and> sl_tail s' 1 = Some 3"
  using slist_filter_out_first_only [of demo_split 1 "[]" 2 "[3]" 6 "[]" "\<lambda>_. ret True" "\<lambda>_. True"]
  by (simp add: slist_rep_def lists_apart_def demo_split_def pure_sel_def ret_def)

text \<open>The iteration of \<open>slink_filter_out\<close> goes on inside the list the element was moved to:
  two selected elements at its front change places for ever.\<close>

lemma slink_filter_swap:
  assumes "chain (sl_next s) n (p # q # ys)"
  shows "\<exists>s'. slink_filter_step n (\<lambda>_. ret True) \<lparr>sl_prev = p, sl_curr = q\<rparr> s = Ret () s'
    \<and> slink_iter_next \<lparr>sl_prev = p, sl_curr = q\<rparr> s' = Ret \<lparr>sl_prev = q, sl_curr = p\<rparr> s'
    \<and> chain (sl_next s') n (q # p # ys)"
proof -
  let ?h = "(sl_next s)(p \<mapsto> first ys, q \<mapsto> NULL)"
  have d: "distinct (n # p # q # ys)" using assms by (rule chain_distinct)
  have c: "sl_next s n = Some p" "sl_next s p = Some q" "sl_next s q = Some (first ys)" "q \<noteq> NULL"
    using assms by (auto simp: chain_head)
  have "chain ?h n (p # ys)" using chain_cut(1) [of "sl_next s" n "[p]" q ys] assms by simp
  then have "chain (?h(q \<mapsto> p, n \<mapsto> q)) n (q # p # ys)"
    using chain_push [of ?h n "p # ys" q] c(4) d by simp
  then show ?thesis
    using c d by (auto simp: slink_filter_step_def slink_defs c_eval)
qed

lemma slink_filter_loop_never_returns:
  assumes "slink_filter_loop n sel iter s = Some r"
  shows "\<not> (sel = (\<lambda>_. ret True) \<and> (\<exists>p q ys. chain (sl_next s) n (p # q # ys) \<and> iter = \<lparr>sl_prev = p, sl_curr = q\<rparr>))"
proof (rule slink_filter_loop.raw_induct [where P =
      "\<lambda>n sel iter s r. \<not> (sel = (\<lambda>_. ret True) \<and> (\<exists>p q ys. chain (sl_next s) n (p # q # ys) \<and> iter = \<lparr>sl_prev = p, sl_curr = q\<rparr>))",
      OF _ assms])
  fix f n sel iter s r
  assume IH: "\<And>n sel iter s r. f n sel iter s = Some r \<Longrightarrow>
      \<not> (sel = (\<lambda>_. ret True) \<and> (\<exists>p q ys. chain (sl_next s) n (p # q # ys) \<and> iter = \<lparr>sl_prev = p, sl_curr = q\<rparr>))"
    and body: "(if slink_iter_term iter then ret 0
      else seqM (slink_filter_step n sel iter) (bindM (slink_iter_next iter) (\<lambda>iter'. f n sel iter'))) s = Some r"
  show "\<not> (sel = (\<lambda>_. ret True) \<and> (\<exists>p q ys. chain (sl_next s) n (p # q # ys) \<and> iter = \<lparr>sl_prev = p, sl_curr = q\<rparr>))"
  proof
    assume "sel = (\<lambda>_. ret True) \<and> (\<exists>p q ys. chain (sl_next s) n (p # q # ys) \<and> iter = \<lparr>sl_prev = p, sl_curr = q\<rparr>)"
    then obtain p q ys where sel: "sel = (\<lambda>_. ret True)" and it: "iter = \<lparr>sl_prev = p, sl_curr = q\<rparr>"
      and ch: "chain (sl_next s) n (p # q # ys)" by auto
    obtain s' where s': "slink_filter_step n sel iter s = Ret () s'"
        "slink_iter_next iter s' = Ret \<lparr>sl_prev = q, sl_curr = p\<rparr> s'" "chain (sl_next s') n (q # p # ys)"
      using slink_filter_swap [OF ch] sel it by auto
    have "\<not> slink_iter_term iter" using ch it by (simp add: slink_iter_term_def)
    with body s'(1,2) have "f n sel \<lparr>sl_prev = q, sl_curr = p\<rparr> s' = Some r"
      by (simp add: c_eval)
    with IH s'(3) sel show False by blast
  qed
qed

text \<open>\<open>slink_filter_out\<close> that selects every element never returns when the list to move
  the elements to is not empty.\<close>

theorem slink_filter_out_diverges:
  assumes "chain (sl_next s) a (x # xs)" and "chain (sl_next s) n (y # ys)"
    and "lists_apart a (x # xs) n (y # ys)" and "a \<noteq> NULL"
  shows "slink_filter_out a n (\<lambda>_. ret True) s = None"
proof -
  let ?h = "(sl_next s)(a \<mapsto> first xs, x \<mapsto> NULL)"
  let ?s = "s\<lparr>sl_next := ?h(x \<mapsto> y, n \<mapsto> x)\<rparr>"
  have c: "sl_next s a = Some x" "sl_next s x = Some (first xs)" "x \<noteq> NULL" "sl_next s n = Some y"
    using assms(1,2) by (auto simp: chain_head)
  have ap: "a \<notin> set (n # y # ys)" "x \<notin> set (n # y # ys)" using assms(3) by (auto simp: lists_apart_def)
  have "a \<noteq> x" using chain_distinct [OF assms(1)] by auto
  have "chain ?h n (y # ys)" using assms(2) ap by (simp only: chain_upd not_False_eq_True)
  then have "chain (sl_next ?s) n (x # y # ys)" using chain_push [of ?h n "y # ys" x] ap c by simp
  then have "slink_filter_loop n (\<lambda>_. ret True) \<lparr>sl_prev = x, sl_curr = y\<rparr> ?s = None"
    using slink_filter_loop_never_returns [of n "\<lambda>_. ret True" "\<lparr>sl_prev = x, sl_curr = y\<rparr>" ?s]
    by (cases "slink_filter_loop n (\<lambda>_. ret True) \<lparr>sl_prev = x, sl_curr = y\<rparr> ?s") blast+
  then have "slink_filter_loop n (\<lambda>_. ret True) \<lparr>sl_prev = a, sl_curr = x\<rparr> s = None"
    using c ap \<open>a \<noteq> x\<close>
    by (subst slink_filter_loop.simps) (auto simp: slink_filter_step_def slink_defs c_eval)
  then show ?thesis
    using c assms(4) by (simp add: slink_filter_out_def slink_iter_init_def c_eval)
qed

theorem slink_filter_out_diverges_witness:
  "slink_filter_out 1 3 (\<lambda>_. ret True) demo_two = None"
  using slink_filter_out_diverges [of demo_two 1 2 "[]" 3 4 "[]"]
  by (simp add: demo_two_def lists_apart_def)

subsection \<open>The list of data pointers\<close>

text \<open>The list \<open>l\<close> holds the data pointers \<open>ds\<close>.\<close>

definition data_rep :: "'z sl_elm_mem_scheme \<Rightarrow> addr \<Rightarrow> addr list \<Rightarrow> addr list \<Rightarrow> bool" where
  "data_rep s l xs ds \<longleftrightarrow> slist_rep s l xs \<and> map (sl_data s) xs = map Some ds"

lemma new_sl_elm_run:
  assumes "mp \<noteq> NULL"
  shows "new_sl_elm mp junk d s =
    Ret mp (s\<lparr>sl_next := (sl_next s)(mp \<mapsto> junk), sl_data := (sl_data s)(mp \<mapsto> d)\<rparr>)"
  using assms by (simp add: new_sl_elm_def malloc_sl_elm_def c_eval)

lemma data_rep_alloc:
  assumes "data_rep s l xs ds" and "mp \<notin> dom (sl_next s)"
  shows "slist_rep (s\<lparr>sl_next := (sl_next s)(mp \<mapsto> junk), sl_data := (sl_data s)(mp \<mapsto> d)\<rparr>) l xs"
    and "mp \<notin> set (l # xs)"
proof -
  have rep: "slist_rep s l xs" using assms(1) by (simp add: data_rep_def)
  then have ch: "chain (sl_next s) l xs" by (rule slist_repD)
  show mp: "mp \<notin> set (l # xs)" using chain_dom [OF ch, of mp] assms(2) by auto
  show "slist_rep (s\<lparr>sl_next := (sl_next s)(mp \<mapsto> junk), sl_data := (sl_data s)(mp \<mapsto> d)\<rparr>) l xs"
    using rep mp by (simp add: slist_rep_def chain_upd del: set_simps)
qed

lemma slist_rm_front_data_run:
  assumes rep: "data_rep s l (x # xs) (d # ds)"
  shows "\<exists>s'. slist_rm_front_data l s = Ret d s' \<and> data_rep s' l xs ds
    \<and> sl_next s' x = None \<and> sl_data s' = (sl_data s)(x := None)
    \<and> (\<forall>p. p \<noteq> l \<longrightarrow> p \<noteq> x \<longrightarrow> sl_next s' p = sl_next s p)"
proof -
  have r: "slist_rep s l (x # xs)" and dx: "sl_data s x = Some d" "map (sl_data s) xs = map Some ds"
    using rep by (auto simp: data_rep_def)
  have x: "x \<noteq> NULL" "x \<notin> set (l # xs)" using slist_repD(4,5) [OF r] by auto
  let ?s = "take_front l x xs s"
  let ?s' = "?s\<lparr>sl_next := (sl_next ?s)(x := None), sl_data := (sl_data ?s)(x := None)\<rparr>"
  have run: "slist_rm_front_data l s = Ret d ?s'"
    using slist_rm_front_run [OF r] x dx
    by (simp add: slist_rm_front_data_def c_eval free_sl_elm_def take_front_def domIff)
  have "slist_rep ?s' l xs"
    using slist_rep_take_front [OF r] x by (simp add: slist_rep_def chain_upd del: set_simps)
  moreover have "map (sl_data ?s') xs = map Some ds" using dx x by (auto simp: take_front_def)
  ultimately show ?thesis
    using run by (intro exI [of _ ?s']) (auto simp: data_rep_def take_front_def)
qed

text \<open>\<open>slist_insert_back_data\<close> adds its argument as the last data pointer, and
  \<open>slist_rm_front_data\<close> returns the first one and frees its element; when \<open>malloc\<close> fails
  the insertion writes through the null pointer.\<close>

theorem slist_data_queue:
  assumes rep: "data_rep s l xs ds" and fresh: "mp \<notin> dom (sl_next s)" and null: "sl_data s NULL = None"
  shows "(mp \<noteq> NULL \<longrightarrow> (\<exists>s'. slist_insert_back_data mp junk l d s = Ret () s'
            \<and> data_rep s' l (xs @ [mp]) (ds @ [d])))
    \<and> slist_insert_back_data NULL junk l d s = Abort (Fault NULL)
    \<and> (\<forall>x xs' d' ds'. xs = x # xs' \<and> ds = d' # ds' \<longrightarrow>
         (\<exists>s'. slist_rm_front_data l s = Ret d' s' \<and> data_rep s' l xs' ds'
            \<and> sl_next s' x = None \<and> sl_data s' x = None))"
proof (intro conjI impI allI)
  assume mp: "mp \<noteq> NULL"
  let ?s = "s\<lparr>sl_next := (sl_next s)(mp \<mapsto> junk), sl_data := (sl_data s)(mp \<mapsto> d)\<rparr>"
  have r: "slist_rep ?s l xs" and n: "mp \<notin> set (l # xs)" by (rule data_rep_alloc [OF rep fresh])+
  have lk: "is_link ?s mp" using mp by (simp add: is_link_def)
  have "map (sl_data (put_back l xs mp ?s)) (xs @ [mp]) = map Some (ds @ [d])"
    using rep n by (auto simp: data_rep_def put_back_def)
  then have "data_rep (put_back l xs mp ?s) l (xs @ [mp]) (ds @ [d])"
    using slist_rep_put_back [OF r lk n] by (simp add: data_rep_def)
  then show "\<exists>s'. slist_insert_back_data mp junk l d s = Ret () s' \<and> data_rep s' l (xs @ [mp]) (ds @ [d])"
    using slist_insert_back_run [OF r lk n] new_sl_elm_run [OF mp, of junk d s]
    by (simp add: slist_insert_back_data_def c_eval)
next
  show "slist_insert_back_data NULL junk l d s = Abort (Fault NULL)"
    using null by (simp add: slist_insert_back_data_def new_sl_elm_def malloc_sl_elm_def c_eval)
next
  fix x xs' d' ds' assume "xs = x # xs' \<and> ds = d' # ds'"
  then show "\<exists>s'. slist_rm_front_data l s = Ret d' s' \<and> data_rep s' l xs' ds'
      \<and> sl_next s' x = None \<and> sl_data s' x = None"
    using slist_rm_front_data_run [of s l x xs' d' ds'] rep by auto
qed

definition demo_data :: sl_elm_mem where
  "demo_data = \<lparr>sl_next = [1 \<mapsto> 2, 2 \<mapsto> 0], sl_tail = [1 \<mapsto> 2], sl_data = [2 \<mapsto> 77]\<rparr>"

lemma demo_data_rep: "data_rep demo_data 1 [2] [77]"
  by (simp add: data_rep_def slist_rep_def demo_data_def)

theorem slist_data_queue_witness:
  "(\<exists>s'. slist_insert_back_data 5 9 1 88 demo_data = Ret () s' \<and> data_rep s' 1 [2, 5] [77, 88])
    \<and> (\<exists>s'. slist_rm_front_data 1 demo_data = Ret 77 s' \<and> data_rep s' 1 [] [] \<and> sl_next s' 2 = None)"
  using slist_data_queue [OF demo_data_rep, of 5 9 88] by (auto simp: demo_data_def)

text \<open>\<open>slist_find_data\<close> frees the element it finds even when it is asked not to remove
  it: the list then still leads to the freed element, and the next walk over it faults.\<close>

theorem slist_find_data_frees_linked:
  assumes rep: "data_rep s l (x # xs) (d # ds)"
    and l: "l \<noteq> NULL" and cmp: "\<forall>t. cmp d k t = Ret 0 t"
  shows "\<exists>s'. slist_find_data l k cmp False s = Ret d s' \<and> sl_next s' l = Some x
    \<and> sl_next s' x = None \<and> slist_print l (\<lambda>_. ret ()) s' = Abort (Fault x)"
proof -
  have r: "slist_rep s l (x # xs)" and dx: "sl_data s x = Some d" using rep by (auto simp: data_rep_def)
  have x: "x \<noteq> NULL" "x \<noteq> l" "sl_next s l = Some x" "x \<in> dom (sl_next s)"
    using slist_repD(1,4,5) [OF r] chain_dom [OF slist_repD(1) [OF r], of x] by auto
  let ?s = "s\<lparr>sl_next := (sl_next s)(x := None), sl_data := (sl_data s)(x := None)\<rparr>"
  have "slist_find l NULL (slist_iter_data_cmp cmp k) False s = Ret x s"
    using slist_find_some [where us = "[]" and f = "\<lambda>_. 0" and cmp = "slist_iter_data_cmp cmp k" and elm = NULL and rm = False]
      r dx cmp by (simp add: pure_on_def slist_iter_data_cmp_def c_eval)
  then have "slist_find_data l k cmp False s = Ret d ?s"
    using x dx by (simp add: slist_find_data_def c_eval free_sl_elm_def domIff)
  moreover have "slist_print l (\<lambda>_. ret ()) ?s = Abort (Fault x)"
    using x l by (simp add: slist_print_def slink_defs c_eval slist_print_loop.simps)
  ultimately show ?thesis using x by auto
qed

theorem slist_find_data_frees_linked_witness:
  "\<exists>s'. slist_find_data 1 77 demo_sel False demo_data = Ret 77 s' \<and> sl_next s' 1 = Some 2
    \<and> sl_next s' 2 = None \<and> slist_print 1 (\<lambda>_. ret ()) s' = Abort (Fault 2)"
  using slist_find_data_frees_linked [OF demo_data_rep, of demo_sel 77] by (simp add: demo_sel_def ret_def)

text \<open>\<open>slist_free_data\<close> without a callback ends, empties the list and frees every
  element of it.\<close>

theorem slist_free_data_frees_all:
  assumes "data_rep s l xs ds"
  shows "\<exists>s'. slist_free_data l None s = Ret () s' \<and> data_rep s' l [] []
    \<and> (\<forall>x. sl_data s' x = (if x \<in> set xs then None else sl_data s x))
    \<and> (\<forall>x. x \<noteq> l \<longrightarrow> sl_next s' x = (if x \<in> set xs then None else sl_next s x))"
  using assms
proof (induction xs arbitrary: s ds)
  case Nil
  then show ?case
    using slist_empty_run [of s l "[]"] by (simp add: data_rep_def slist_free_data.simps c_eval)
next
  case (Cons x xs)
  then obtain d ds' where ds: "ds = d # ds'" by (auto simp: data_rep_def)
  have ne: "slist_empty l s = Ret False s"
    using slist_empty_run [of s l "x # xs"] Cons.prems by (simp add: data_rep_def)
  have nx: "x \<notin> set (l # xs)"
    using slist_repD(4) [of s l "x # xs"] Cons.prems by (auto simp: data_rep_def)
  obtain s1 where s1: "slist_rm_front_data l s = Ret d s1" "data_rep s1 l xs ds'" "sl_next s1 x = None"
      "sl_data s1 = (sl_data s)(x := None)" "\<forall>p. p \<noteq> l \<longrightarrow> p \<noteq> x \<longrightarrow> sl_next s1 p = sl_next s p"
    using slist_rm_front_data_run [of s l x xs d ds'] Cons.prems ds by auto
  have "slist_free_data l None s = slist_free_data l None s1"
    by (subst slist_free_data.simps) (simp add: c_eval ne s1(1))
  with Cons.IH [OF s1(2)] s1(3,4,5) nx show ?case by auto
qed

theorem slist_free_data_frees_all_witness:
  "\<exists>s'. slist_free_data 1 None demo_data = Ret () s' \<and> data_rep s' 1 [] [] \<and> sl_next s' 2 = None"
  using slist_free_data_frees_all [OF demo_data_rep] by force

end
