(* ===== verification/Dlist.thy ===== *)
theory Dlist
  imports CInterfaces
begin

text \<open>
  The circular doubly linked list: the inline routines and macros of include/ctype/dlist.h
  and the routines of common/ctype/dlist.c. The memory holds the \<open>dl_next\<close> and \<open>dl_prev\<close>
  members of every \<open>struct dlist\<close>, the list heads included.
\<close>

record dlist_mem =
  dl_next :: "addr \<rightharpoonup> addr"
  dl_prev :: "addr \<rightharpoonup> addr"

abbreviation dlink_next :: "addr \<Rightarrow> ('z dlist_mem_scheme, addr) cprog" where
  "dlink_next p \<equiv> rd dl_next p"

abbreviation dlink_prev :: "addr \<Rightarrow> ('z dlist_mem_scheme, addr) cprog" where
  "dlink_prev p \<equiv> rd dl_prev p"

abbreviation set_dl_next :: "addr \<Rightarrow> addr \<Rightarrow> ('z dlist_mem_scheme, unit) cprog" where
  "set_dl_next p v \<equiv> wr dl_next dl_next_update p v"

abbreviation set_dl_prev :: "addr \<Rightarrow> addr \<Rightarrow> ('z dlist_mem_scheme, unit) cprog" where
  "set_dl_prev p v \<equiv> wr dl_prev dl_prev_update p v"

subsection \<open>The inline routines\<close>

definition dlist_init :: "addr \<Rightarrow> ('z dlist_mem_scheme, unit) cprog" where
  "dlist_init dlist = seqM (set_dl_prev dlist dlist) (set_dl_next dlist dlist)"

definition dlist_empty :: "addr \<Rightarrow> ('z dlist_mem_scheme, bool) cprog" where
  "dlist_empty dlist =
     bindM (dlink_next dlist) (\<lambda>n.
     if n = dlist then bindM (dlink_prev dlist) (\<lambda>p. ret (p = dlist)) else ret False)"

definition dlist_add_front :: "addr \<Rightarrow> addr \<Rightarrow> ('z dlist_mem_scheme, unit) cprog" where
  "dlist_add_front dlist elm =
     bindM (dlink_next dlist) (\<lambda>n.
     seqM (set_dl_next elm n)
    (seqM (set_dl_prev elm dlist)
    (bindM (dlink_next dlist) (\<lambda>n'.
     seqM (set_dl_prev n' elm)
     (set_dl_next dlist elm)))))"

definition dlist_add_back :: "addr \<Rightarrow> addr \<Rightarrow> ('z dlist_mem_scheme, unit) cprog" where
  "dlist_add_back dlist elm = bindM (dlink_prev dlist) (\<lambda>p. dlist_add_front p elm)"

definition dlist_rm :: "addr \<Rightarrow> ('z dlist_mem_scheme, unit) cprog" where
  "dlist_rm elm =
     bindM (dlink_prev elm) (\<lambda>p.
     bindM (dlink_next elm) (\<lambda>n.
     seqM (set_dl_next p n)
    (bindM (dlink_next elm) (\<lambda>n'.
     bindM (dlink_prev elm) (\<lambda>p'.
     set_dl_prev n' p')))))"

definition dlist_rm_init :: "addr \<Rightarrow> ('z dlist_mem_scheme, unit) cprog" where
  "dlist_rm_init elm = seqM (dlist_rm elm) (dlist_init elm)"

definition dlist_peek_front :: "addr \<Rightarrow> ('z dlist_mem_scheme, addr) cprog" where
  "dlist_peek_front dlist =
     (if dlist \<noteq> NULL
      then bindM (dlist_empty dlist) (\<lambda>b. if \<not> b then dlink_next dlist else ret NULL)
      else ret NULL)"

definition dlist_peek_back :: "addr \<Rightarrow> ('z dlist_mem_scheme, addr) cprog" where
  "dlist_peek_back dlist =
     (if dlist \<noteq> NULL
      then bindM (dlist_empty dlist) (\<lambda>b. if \<not> b then dlink_prev dlist else ret NULL)
      else ret NULL)"

definition dlist_rm_front :: "addr \<Rightarrow> ('z dlist_mem_scheme, addr) cprog" where
  "dlist_rm_front dlist =
     (if dlist \<noteq> NULL
      then bindM (dlist_empty dlist) (\<lambda>b.
           if \<not> b then bindM (dlink_next dlist) (\<lambda>curr. seqM (dlist_rm curr) (ret curr))
           else ret NULL)
      else ret NULL)"

definition dlist_rm_back :: "addr \<Rightarrow> ('z dlist_mem_scheme, addr) cprog" where
  "dlist_rm_back dlist =
     (if dlist \<noteq> NULL
      then bindM (dlist_empty dlist) (\<lambda>b.
           if \<not> b then bindM (dlink_prev dlist) (\<lambda>curr. seqM (dlist_rm curr) (ret curr))
           else ret NULL)
      else ret NULL)"

definition dlist_merge :: "addr \<Rightarrow> addr \<Rightarrow> ('z dlist_mem_scheme, unit) cprog" where
  "dlist_merge root l =
     bindM (dlist_empty l) (\<lambda>b.
     if \<not> b
     then bindM (dlink_prev root) (\<lambda>rp. bindM (dlink_next l) (\<lambda>ln.
          seqM (set_dl_next rp ln)
         (bindM (dlink_next l) (\<lambda>ln. bindM (dlink_prev root) (\<lambda>rp.
          seqM (set_dl_prev ln rp)
         (bindM (dlink_prev l) (\<lambda>lp.
          seqM (set_dl_next lp root)
         (bindM (dlink_prev l) (\<lambda>lp.
          seqM (set_dl_prev root lp)
          (dlist_init l))))))))))
     else ret ())"

definition dlist_merge_front :: "addr \<Rightarrow> addr \<Rightarrow> ('z dlist_mem_scheme, unit) cprog" where
  "dlist_merge_front root l =
     bindM (dlist_empty l) (\<lambda>b.
     if \<not> b
     then bindM (dlink_next root) (\<lambda>rn. bindM (dlink_prev l) (\<lambda>lp.
          seqM (set_dl_prev rn lp)
         (bindM (dlink_prev l) (\<lambda>lp. bindM (dlink_next root) (\<lambda>rn.
          seqM (set_dl_next lp rn)
         (bindM (dlink_next l) (\<lambda>ln.
          seqM (set_dl_next root ln)
         (bindM (dlink_next l) (\<lambda>ln.
          seqM (set_dl_prev ln root)
          (dlist_init l))))))))))
     else ret ())"

text \<open>An iterator is a pointer to the current element.\<close>

definition dlist_iter_init :: "addr \<Rightarrow> ('z dlist_mem_scheme, addr) cprog" where
  "dlist_iter_init l = dlink_next l"

definition dlist_iter_term :: "addr \<Rightarrow> addr \<Rightarrow> bool" where
  "dlist_iter_term l iter = (if iter = l then True else False)"

definition dlist_iter_next :: "addr \<Rightarrow> ('z dlist_mem_scheme, addr) cprog" where
  "dlist_iter_next iter = dlink_next iter"

definition dlist_iter_prev :: "addr \<Rightarrow> ('z dlist_mem_scheme, addr) cprog" where
  "dlist_iter_prev iter = dlink_prev iter"

text \<open>Returns the removed element and the iterator's new value.\<close>

definition dlist_iter_rm_curr :: "addr \<Rightarrow> ('z dlist_mem_scheme, addr \<times> addr) cprog" where
  "dlist_iter_rm_curr iter =
     bindM (dlink_next iter) (\<lambda>n.
     seqM (dlist_rm iter) (ret (iter, n)))"

partial_function (option) dlist_free ::
  "addr \<Rightarrow> (addr \<Rightarrow> ('z dlist_mem_scheme, unit) cprog) \<Rightarrow> ('z dlist_mem_scheme, unit) cprog" where
  "dlist_free dlist free_fn s =
     bindM (dlist_empty dlist) (\<lambda>b.
     if b then ret ()
     else bindM (dlist_rm_front dlist) (\<lambda>cptr.
          seqM (free_fn cptr) (dlist_free dlist free_fn))) s"

partial_function (option) dlist_find_loop ::
  "addr \<Rightarrow> addr \<Rightarrow> (addr \<Rightarrow> addr \<Rightarrow> ('z dlist_mem_scheme, int) cprog) \<Rightarrow> bool \<Rightarrow> addr
   \<Rightarrow> ('z dlist_mem_scheme, addr) cprog" where
  "dlist_find_loop dlist elm cmp_fn rm iter s =
     (if dlist_iter_term dlist iter then ret NULL
      else bindM (cmp_fn iter elm) (\<lambda>c.
           if c = 0
           then seqM (if rm then dlist_iter_rm_curr iter else ret (iter, iter)) (ret iter)
           else bindM (dlist_iter_next iter) (\<lambda>iter'. dlist_find_loop dlist elm cmp_fn rm iter'))) s"

definition dlist_find ::
  "addr \<Rightarrow> addr \<Rightarrow> (addr \<Rightarrow> addr \<Rightarrow> ('z dlist_mem_scheme, int) cprog) \<Rightarrow> bool
   \<Rightarrow> ('z dlist_mem_scheme, addr) cprog" where
  "dlist_find dlist elm cmp_fn rm =
     bindM (dlist_iter_init dlist) (\<lambda>iter. dlist_find_loop dlist elm cmp_fn rm iter)"

subsection \<open>common/ctype/dlist.c\<close>

definition dlist_split :: "addr \<Rightarrow> addr \<Rightarrow> addr \<Rightarrow> ('z dlist_mem_scheme, unit) cprog" where
  "dlist_split hdr ptr res =
     bindM (dlist_empty ptr) (\<lambda>b.
     if \<not> b
     then if hdr \<noteq> ptr
          then seqM (set_dl_next res ptr)
              (bindM (dlink_prev hdr) (\<lambda>hp.
               seqM (set_dl_prev res hp)
              (bindM (dlink_prev ptr) (\<lambda>pp.
               seqM (set_dl_prev hdr pp)
              (bindM (dlink_prev hdr) (\<lambda>hp.
               seqM (set_dl_next hp hdr)
              (seqM (set_dl_prev ptr res)
              (bindM (dlink_prev res) (\<lambda>rp.
               set_dl_next rp res)))))))))
          else dlist_merge hdr res
     else ret ())"

partial_function (option) dlist_sorted_loop ::
  "addr \<Rightarrow> addr \<Rightarrow> (addr \<Rightarrow> addr \<Rightarrow> ('z dlist_mem_scheme, int) cprog) \<Rightarrow> addr
   \<Rightarrow> ('z dlist_mem_scheme, unit) cprog" where
  "dlist_sorted_loop l elm cmp_fn cur s =
     (if dlist_iter_term l cur then ret ()
      else bindM (cmp_fn elm cur) (\<lambda>c.
           if c \<le> 0 then dlist_add_back cur elm
           else bindM (dlist_iter_next cur) (\<lambda>cur'. dlist_sorted_loop l elm cmp_fn cur'))) s"

definition dlist_add_sorted ::
  "addr \<Rightarrow> addr \<Rightarrow> (addr \<Rightarrow> addr \<Rightarrow> ('z dlist_mem_scheme, int) cprog)
   \<Rightarrow> ('z dlist_mem_scheme, unit) cprog" where
  "dlist_add_sorted l elm cmp_fn =
     bindM (dlist_empty l) (\<lambda>b.
     if \<not> b
     then bindM (dlink_prev l) (\<lambda>p.
          bindM (cmp_fn p elm) (\<lambda>c.
          if c \<ge> 0
          then bindM (dlist_iter_init l) (\<lambda>cur. dlist_sorted_loop l elm cmp_fn cur)
          else dlist_add_back l elm))
     else dlist_add_front l elm)"

text \<open>One round of the loop of \<open>dlist_filter_out\<close>: the iterator after the body.\<close>

definition dlist_filter_step ::
  "addr \<Rightarrow> (addr \<Rightarrow> ('z dlist_mem_scheme, bool) cprog) \<Rightarrow> addr \<Rightarrow> ('z dlist_mem_scheme, addr) cprog" where
  "dlist_filter_step newlst cmp_func iter =
     bindM (cmp_func iter) (\<lambda>b.
     if b
     then bindM (dlist_iter_rm_curr iter) (\<lambda>r.
          seqM (dlist_add_back newlst (fst r)) (ret (snd r)))
     else ret iter)"

partial_function (option) dlist_filter_loop ::
  "addr \<Rightarrow> addr \<Rightarrow> (addr \<Rightarrow> ('z dlist_mem_scheme, bool) cprog) \<Rightarrow> addr \<Rightarrow> ('z dlist_mem_scheme, unit) cprog" where
  "dlist_filter_loop old newlst cmp_func iter s =
     (if dlist_iter_term old iter then ret ()
      else bindM (dlist_filter_step newlst cmp_func iter) (\<lambda>iter'.
           bindM (dlist_iter_next iter') (\<lambda>iter''.
           dlist_filter_loop old newlst cmp_func iter''))) s"

definition dlist_filter_out ::
  "addr \<Rightarrow> addr \<Rightarrow> (addr \<Rightarrow> ('z dlist_mem_scheme, bool) cprog) \<Rightarrow> ('z dlist_mem_scheme, unit) cprog" where
  "dlist_filter_out old newlst cmp_func =
     bindM (dlist_iter_init old) (\<lambda>iter. dlist_filter_loop old newlst cmp_func iter)"

partial_function (option) dlist_print_loop ::
  "addr \<Rightarrow> (addr \<Rightarrow> ('z dlist_mem_scheme, unit) cprog) \<Rightarrow> addr \<Rightarrow> ('z dlist_mem_scheme, unit) cprog" where
  "dlist_print_loop dlist print_fn iter s =
     (if dlist_iter_term dlist iter then ret ()
      else seqM (print_fn iter)
          (bindM (dlist_iter_next iter) (\<lambda>iter'. dlist_print_loop dlist print_fn iter'))) s"

definition dlist_print ::
  "addr \<Rightarrow> (addr \<Rightarrow> ('z dlist_mem_scheme, unit) cprog) \<Rightarrow> ('z dlist_mem_scheme, unit) cprog" where
  "dlist_print dlist print_fn =
     bindM (dlist_iter_init dlist) (\<lambda>iter. dlist_print_loop dlist print_fn iter)"

lemmas dlist_defs =
  dlist_init_def dlist_empty_def dlist_add_front_def dlist_add_back_def dlist_rm_def
  dlist_rm_init_def dlist_iter_init_def dlist_iter_term_def dlist_iter_next_def
  dlist_iter_prev_def dlist_iter_rm_curr_def

end
