(* ===== verification/DlistSpec.thy ===== *)
theory DlistSpec
  imports Dlist
begin

text \<open>
  What the routines on circular lists do to the sequence of elements the list holds
  (\<open>dlist_rep\<close>), and the properties of the component.
\<close>

subsection \<open>Doubly linked sequences\<close>

text \<open>Every two neighbours of the sequence point at each other.\<close>

fun dlinks :: "(addr \<rightharpoonup> addr) \<Rightarrow> (addr \<rightharpoonup> addr) \<Rightarrow> addr list \<Rightarrow> bool" where
  "dlinks nx pv (x # y # zs) = (nx x = Some y \<and> pv y = Some x \<and> dlinks nx pv (y # zs))"
| "dlinks nx pv [x] = True"
| "dlinks nx pv [] = True"

lemma dlinks_append: "dlinks nx pv (as @ b # bs) \<longleftrightarrow> dlinks nx pv (as @ [b]) \<and> dlinks nx pv (b # bs)"
proof (induction as)
  case Nil
  then show ?case by simp
next
  case (Cons a as)
  then show ?case by (cases as) auto
qed

lemma dlinks_join:
  "dlinks nx pv (as @ t # n # bs) \<longleftrightarrow>
   dlinks nx pv (as @ [t]) \<and> nx t = Some n \<and> pv n = Some t \<and> dlinks nx pv (n # bs)"
  using dlinks_append [of nx pv as t "n # bs"] by simp

lemma dlinks_join_seg:
  "as \<noteq> [] \<Longrightarrow> bs \<noteq> [] \<Longrightarrow> dlinks nx pv (as @ bs) \<longleftrightarrow>
   dlinks nx pv as \<and> nx (last as) = Some (hd bs) \<and> pv (hd bs) = Some (last as) \<and> dlinks nx pv bs"
  by (cases as rule: rev_cases; cases bs) (auto simp: dlinks_join)

lemma dlinks_nx [c_frame]: "u \<notin> set (butlast zs) \<Longrightarrow> dlinks (nx(u := v)) pv zs = dlinks nx pv zs"
  by (induction zs rule: dlinks.induct [where ?a0.0 = nx and ?a1.0 = pv]) (auto split: if_splits)

lemma dlinks_pv [c_frame]: "u \<notin> set (tl zs) \<Longrightarrow> dlinks nx (pv(u := v)) zs = dlinks nx pv zs"
  by (induction zs rule: dlinks.induct [where ?a0.0 = nx and ?a1.0 = pv]) auto

lemma dlinks_cong:
  "(\<And>x. x \<in> set zs \<Longrightarrow> nx x = nx' x \<and> pv x = pv' x) \<Longrightarrow> dlinks nx pv zs = dlinks nx' pv' zs"
  by (induction zs rule: dlinks.induct [where ?a0.0 = nx and ?a1.0 = pv]) auto

lemma last_notin_butlast: "distinct A \<Longrightarrow> last A \<notin> set (butlast A)"
  by (cases A rule: rev_cases) auto

lemma notin_parts: "x \<notin> set zs \<Longrightarrow> x \<notin> set (butlast zs) \<and> x \<notin> set (tl zs)"
  by (auto dest: in_set_butlastD list.set_sel(2) [rotated]) (cases zs; auto)

lemma hd_notin_tl: "distinct B \<Longrightarrow> hd B \<notin> set (tl B)"
  by (cases B) auto

text \<open>\<open>apart A B\<close>: the sequence \<open>A @ B\<close> repeats no object, except that it may end where
  it started.\<close>

definition apart :: "addr list \<Rightarrow> addr list \<Rightarrow> bool" where
  "apart A B \<longleftrightarrow> A \<noteq> [] \<and> B \<noteq> [] \<and> distinct A \<and> distinct B
     \<and> last A \<notin> set (butlast B) \<and> hd B \<notin> set (tl A)"

lemma dlinks_relink:
  assumes "apart A B" and "dlinks nx pv A" and "dlinks nx pv B"
  shows "dlinks (nx(last A \<mapsto> hd B)) (pv(hd B \<mapsto> last A)) (A @ B)"
  using assms last_notin_butlast [of A] hd_notin_tl [of B]
  by (simp add: apart_def dlinks_join_seg dlinks_nx dlinks_pv)

lemma dlinks_insert:
  assumes "dlinks nx pv (A @ B)" and "apart A B" and "e \<notin> set A \<union> set B"
  shows "dlinks (nx(e \<mapsto> hd B, last A \<mapsto> e)) (pv(e \<mapsto> last A, hd B \<mapsto> e)) (A @ e # B)"
proof -
  have ab: "A \<noteq> []" "B \<noteq> []" using assms(2) by (auto simp: apart_def)
  have fr: "e \<notin> set (butlast A)" "e \<notin> set (tl A)" "e \<notin> set (butlast B)" "e \<notin> set (tl B)"
    "e \<noteq> last A" "e \<noteq> hd B"
    using assms(3) ab by (auto dest: in_set_butlastD list.set_sel(2))
  have "dlinks nx pv A" "dlinks nx pv B" using assms(1) ab by (simp_all add: dlinks_join_seg)
  then show ?thesis
    using ab fr assms(2) last_notin_butlast [of A] hd_notin_tl [of B]
    by (cases B) (auto simp: dlinks_join_seg apart_def dlinks_nx dlinks_pv)
qed

lemma dlinks_remove:
  assumes "dlinks nx pv (A @ e # B)" and "apart A B"
  shows "dlinks (nx(last A \<mapsto> hd B)) (pv(hd B \<mapsto> last A)) (A @ B)"
    and "nx e = Some (hd B)" and "pv e = Some (last A)"
proof -
  have l: "dlinks nx pv A" "dlinks nx pv (e # B)" "pv e = Some (last A)"
    using assms by (simp_all add: dlinks_join_seg apart_def)
  then have "dlinks nx pv B" "nx e = Some (hd B)" using assms(2) by (cases B; simp add: apart_def)+
  with l show "dlinks (nx(last A \<mapsto> hd B)) (pv(hd B \<mapsto> last A)) (A @ B)"
    "nx e = Some (hd B)" "pv e = Some (last A)"
    using dlinks_relink [OF assms(2)] by auto
qed

subsection \<open>Abstraction\<close>

definition dlist_rep :: "'z dlist_mem_scheme \<Rightarrow> addr \<Rightarrow> addr list \<Rightarrow> bool" where
  "dlist_rep s l xs \<longleftrightarrow> dlinks (dl_next s) (dl_prev s) (l # xs @ [l]) \<and> distinct (l # xs) \<and> NULL \<notin> set (l # xs)"

definition is_dlink :: "'z dlist_mem_scheme \<Rightarrow> addr \<Rightarrow> bool" where
  "is_dlink s e \<longleftrightarrow> e \<noteq> NULL \<and> e \<in> dom (dl_next s) \<and> e \<in> dom (dl_prev s)"

text \<open>The neighbours of a position of the ring.\<close>

definition after :: "addr \<Rightarrow> addr list \<Rightarrow> addr" where
  "after l vs = hd (vs @ [l])"

definition before :: "addr \<Rightarrow> addr list \<Rightarrow> addr" where
  "before l us = last (l # us)"

lemma after_simps [simp]: "after l [] = l" "after l (v # vs) = v"
  by (simp_all add: after_def)

lemma before_simps [simp]: "before l [] = l" "before l (us @ [u]) = u"
  by (simp_all add: before_def)

lemma before_in: "before l us \<in> set (l # us)"
  unfolding before_def by (rule last_in_set) simp

lemma after_in: "after l vs \<in> set (l # vs)"
  by (cases vs) auto

lemma ring_apart:
  "distinct (l # us @ vs) \<Longrightarrow> apart (l # us) (vs @ [l])"
  unfolding apart_def
  using last_in_set [of us] by (cases vs; cases us rule: rev_cases) (auto simp: butlast_append)

lemma ring_ends:
  assumes "dlist_rep s l (us @ vs)"
  shows "dl_next s (before l us) = Some (after l vs)" and "dl_prev s (after l vs) = Some (before l us)"
proof -
  have "dlinks (dl_next s) (dl_prev s) ((l # us) @ (vs @ [l]))" using assms by (simp add: dlist_rep_def)
  then show "dl_next s (before l us) = Some (after l vs)" "dl_prev s (after l vs) = Some (before l us)"
    by (subst (asm) dlinks_join_seg; simp add: before_def after_def)+
qed

lemma ring_head:
  assumes "dlist_rep s l xs"
  shows "dl_next s l = Some (after l xs)" and "dl_prev s l = Some (before l xs)"
  using ring_ends [of s l "[]" xs] ring_ends [of s l xs "[]"] assms by simp_all

lemma ring_cell:
  assumes "dlist_rep s l xs" and "x \<in> set (l # xs)"
  shows "x \<noteq> NULL" "x \<in> dom (dl_next s)" "x \<in> dom (dl_prev s)"
proof -
  show "x \<noteq> NULL" using assms unfolding dlist_rep_def by metis
  have "x \<in> dom (dl_next s) \<and> x \<in> dom (dl_prev s)"
  proof (cases "x = l")
    case True
    then show ?thesis using ring_head [OF assms(1)] by auto
  next
    case False
    then obtain us vs where "xs = us @ x # vs" using assms(2) by (auto dest: split_list)
    then show ?thesis
      using ring_ends [of s l "us @ [x]" vs] ring_ends [of s l us "x # vs"] assms(1) by auto
  qed
  then show "x \<in> dom (dl_next s)" "x \<in> dom (dl_prev s)" by auto
qed

lemma after_eq: "l \<notin> set xs \<Longrightarrow> after l xs = l \<longleftrightarrow> xs = []"
  by (cases xs) auto

lemma before_eq: "l \<notin> set xs \<Longrightarrow> before l xs = l \<longleftrightarrow> xs = []"
  by (cases xs rule: rev_cases) auto

subsection \<open>Insertion and removal\<close>

lemma dlist_empty_run: "dlist_rep s l xs \<Longrightarrow> dlist_empty l s = Ret (xs = []) s"
  using ring_head [of s l xs] after_eq [of l xs] before_eq [of l xs]
  by (auto simp: dlist_empty_def c_eval dlist_rep_def)

lemma dlist_init_run:
  assumes "is_dlink s l"
  shows "dlist_init l s = Ret () (s\<lparr>dl_next := (dl_next s)(l \<mapsto> l), dl_prev := (dl_prev s)(l \<mapsto> l)\<rparr>)"
  using assms by (auto simp: dlist_init_def c_eval is_dlink_def)

lemma dlist_rep_init:
  "l \<noteq> NULL \<Longrightarrow> dl_next s l = Some l \<Longrightarrow> dl_prev s l = Some l \<Longrightarrow> dlist_rep s l []"
  by (simp add: dlist_rep_def)

definition dl_put :: "addr \<Rightarrow> addr list \<Rightarrow> addr \<Rightarrow> addr list \<Rightarrow> 'z dlist_mem_scheme \<Rightarrow> 'z dlist_mem_scheme" where
  "dl_put l us e vs s =
     s\<lparr>dl_next := (dl_next s)(e \<mapsto> after l vs, before l us \<mapsto> e),
       dl_prev := (dl_prev s)(e \<mapsto> before l us, after l vs \<mapsto> e)\<rparr>"

lemma dlist_add_run:
  assumes "dlist_rep s l (us @ vs)" and "is_dlink s e" and "e \<notin> set (l # us @ vs)"
  shows "dlist_add_front (before l us) e s = Ret () (dl_put l us e vs s)"
proof -
  have "before l us \<noteq> e" "after l vs \<noteq> e" using assms(3) before_in [of l us] after_in [of l vs] by auto
  then show ?thesis
    using ring_ends [OF assms(1)] assms(2)
    by (auto simp: dlist_add_front_def c_eval dl_put_def is_dlink_def)
qed

lemma dlist_rep_put:
  assumes "dlist_rep s l (us @ vs)" and "is_dlink s e" and "e \<notin> set (l # us @ vs)"
  shows "dlist_rep (dl_put l us e vs s) l (us @ e # vs)"
  using assms dlinks_insert [of "dl_next s" "dl_prev s" "l # us" "vs @ [l]" e]
    ring_apart [of l us vs]
  by (auto simp: dlist_rep_def dl_put_def is_dlink_def before_def after_def)

lemma is_dlink_put [simp]:
  "dlist_rep s l (us @ vs) \<Longrightarrow> is_dlink s e \<Longrightarrow> is_dlink (dl_put l us e vs s) p = is_dlink s p"
  using ring_ends [of s l us vs] by (auto simp: is_dlink_def dl_put_def)

lemma dlist_add_front_run:
  assumes "dlist_rep s l xs" and "is_dlink s e" and "e \<notin> set (l # xs)"
  shows "dlist_add_front l e s = Ret () (dl_put l [] e xs s)"
  using dlist_add_run [of s l "[]" xs e] assms by simp

lemma dlist_add_before_run:
  assumes "dlist_rep s l (us @ vs)" and "is_dlink s e" and "e \<notin> set (l # us @ vs)"
  shows "dlist_add_back (after l vs) e s = Ret () (dl_put l us e vs s)"
  using dlist_add_run [OF assms] ring_ends(2) [OF assms(1)] by (simp add: dlist_add_back_def c_eval)

lemma dlist_add_back_run:
  assumes "dlist_rep s l xs" and "is_dlink s e" and "e \<notin> set (l # xs)"
  shows "dlist_add_back l e s = Ret () (dl_put l xs e [] s)"
  using dlist_add_before_run [of s l xs "[]" e] assms by simp

definition dl_cut :: "addr \<Rightarrow> addr list \<Rightarrow> addr list \<Rightarrow> 'z dlist_mem_scheme \<Rightarrow> 'z dlist_mem_scheme" where
  "dl_cut l us vs s =
     s\<lparr>dl_next := (dl_next s)(before l us \<mapsto> after l vs),
       dl_prev := (dl_prev s)(after l vs \<mapsto> before l us)\<rparr>"

lemma dlist_rm_run:
  assumes "dlist_rep s l (us @ x # vs)"
  shows "dlist_rm x s = Ret () (dl_cut l us vs s)"
proof -
  have "before l us \<noteq> x" "after l vs \<noteq> x"
    using assms before_in [of l us] after_in [of l vs] by (auto simp: dlist_rep_def)
  then show ?thesis
    using ring_ends [OF assms] ring_ends [of s l "us @ [x]" vs] assms
      ring_cell [OF assms, of "before l us"] ring_cell [OF assms, of "after l vs"]
    by (auto simp: dlist_rm_def c_eval dl_cut_def)
qed

lemma dlist_rep_cut:
  assumes "dlist_rep s l (us @ x # vs)"
  shows "dlist_rep (dl_cut l us vs s) l (us @ vs)"
proof -
  have "apart (l # us) (vs @ [l])" using assms by (intro ring_apart) (auto simp: dlist_rep_def)
  then show ?thesis
    using assms dlinks_remove(1) [of "dl_next s" "dl_prev s" "l # us" x "vs @ [l]"]
    by (auto simp: dlist_rep_def dl_cut_def before_def after_def)
qed

lemma is_dlink_cut [simp]:
  "dlist_rep s l (us @ x # vs) \<Longrightarrow> is_dlink (dl_cut l us vs s) p = is_dlink s p"
  using ring_ends [of s l us "x # vs"] ring_ends [of s l "us @ [x]" vs]
  by (auto simp: is_dlink_def dl_cut_def)

lemma dlist_rm_front_run:
  assumes "dlist_rep s l (x # xs)"
  shows "dlist_rm_front l s = Ret x (dl_cut l [] xs s)"
  using assms dlist_empty_run [OF assms] dlist_rm_run [of s l "[]" x xs] ring_head [OF assms]
  by (auto simp: dlist_rm_front_def c_eval dlist_rep_def)

lemma dlist_rm_back_run:
  assumes "dlist_rep s l (xs @ [x])"
  shows "dlist_rm_back l s = Ret x (dl_cut l xs [] s)"
  using assms dlist_empty_run [OF assms] dlist_rm_run [of s l xs x "[]"] ring_head [OF assms]
  by (auto simp: dlist_rm_back_def c_eval dlist_rep_def)

lemma dlist_rm_empty:
  assumes "dlist_rep s l []"
  shows "dlist_rm_front l s = Ret NULL s" and "dlist_rm_back l s = Ret NULL s"
  using assms dlist_empty_run [OF assms]
  by (simp_all add: dlist_rm_front_def dlist_rm_back_def c_eval dlist_rep_def)

interpretation dlq: c_fifo "\<lambda>s. dlist_rep s l" "\<lambda>s e. is_dlink s e \<and> e \<noteq> l" "dlist_add_back l" "dlist_rm_front l"
  for l :: addr
proof (unfold_locales, goal_cases)
  case (1 s xs e)
  then show ?case using dlist_add_back_run [of s l xs e] dlist_rep_put [of s l xs "[]" e] by auto
next
  case (2 s x xs)
  then show ?case using dlist_rm_front_run [OF 2] dlist_rep_cut [of s l "[]" x xs] is_dlink_cut [of s l "[]" x xs] by auto
next
  case (3 s)
  then show ?case by (rule dlist_rm_empty)
qed

subsection \<open>Search and sorted insertion\<close>

text \<open>A walk over the ring, from the element after \<open>us\<close> to the head.\<close>

lemma dlist_find_loop_run:
  assumes "dlist_rep s l (us @ vs @ ws)" and "pure_on (set vs) (\<lambda>y. cmp y d) f s" and "\<forall>y \<in> set vs. f y \<noteq> 0"
  shows "dlist_find_loop l d cmp rm (after l (vs @ ws)) s = dlist_find_loop l d cmp rm (after l ws) s"
  using assms
proof (induction vs arbitrary: us)
  case Nil
  then show ?case by simp
next
  case (Cons v vs)
  have v: "v \<noteq> l" "dl_next s v = Some (after l (vs @ ws))"
    using Cons.prems(1) ring_ends [of s l "us @ [v]" "vs @ ws"] by (auto simp: dlist_rep_def)
  have "dlist_find_loop l d cmp rm v s = dlist_find_loop l d cmp rm (after l (vs @ ws)) s"
    using v pure_onD [OF Cons.prems(2), of v] Cons.prems(3)
    by (subst dlist_find_loop.simps) (simp add: dlist_iter_term_def dlist_iter_next_def c_eval)
  also have "\<dots> = dlist_find_loop l d cmp rm (after l ws) s"
    using Cons.prems Cons.IH [of "us @ [v]"] by (simp add: pure_on_def)
  finally show ?case by simp
qed

lemma dlist_iter_rm_curr_run:
  assumes "dlist_rep s l (us @ x # vs)"
  shows "dlist_iter_rm_curr x s = Ret (x, after l vs) (dl_cut l us vs s)"
  using dlist_rm_run [OF assms] ring_ends [of s l "us @ [x]" vs] assms
  by (simp add: dlist_iter_rm_curr_def c_eval)

lemma dlist_find_some:
  assumes "dlist_rep s l (us @ x # vs)" and "pure_on (set (us @ [x])) (\<lambda>y. cmp y d) f s"
    and "\<forall>y \<in> set us. f y \<noteq> 0" and "f x = 0"
  shows "dlist_find l d cmp rm s = Ret x (if rm then dl_cut l us vs s else s)"
proof -
  have "x \<noteq> l" using assms(1) by (auto simp: dlist_rep_def)
  then have "dlist_find_loop l d cmp rm x s = Ret x (if rm then dl_cut l us vs s else s)"
    using pure_onD [OF assms(2), of x] assms(4) dlist_iter_rm_curr_run [OF assms(1)]
    by (subst dlist_find_loop.simps) (simp add: dlist_iter_term_def c_eval)
  moreover have "dlist_find_loop l d cmp rm (after l (us @ x # vs)) s = dlist_find_loop l d cmp rm x s"
    using dlist_find_loop_run [of s l "[]" us "x # vs" cmp d f rm] assms pure_on_subset [OF assms(2), of "set us"] by auto
  ultimately show ?thesis
    using ring_head(1) [OF assms(1)] by (simp add: dlist_find_def dlist_iter_init_def c_eval)
qed

lemma dlist_find_none:
  assumes "dlist_rep s l xs" and "pure_on (set xs) (\<lambda>y. cmp y d) f s" and "\<forall>y \<in> set xs. f y \<noteq> 0"
  shows "dlist_find l d cmp rm s = Ret NULL s"
proof -
  have "dlist_find_loop l d cmp rm (after l xs) s = dlist_find_loop l d cmp rm l s"
    using dlist_find_loop_run [of s l "[]" xs "[]" cmp d f rm] assms by simp
  then show ?thesis
    using ring_head(1) [OF assms(1)] dlist_find_loop.simps [of l d cmp rm l s]
    by (simp add: dlist_find_def dlist_iter_init_def dlist_iter_term_def c_eval)
qed

lemma dlist_sorted_loop_run:
  fixes key :: "addr \<Rightarrow> 'k::linorder"
  assumes "dlist_rep s l (us @ vs)" and "is_dlink s e" and "e \<notin> set (l # us @ vs)"
    and "\<exists>v \<in> set vs. key e \<le> key v"
  shows "\<exists>ps qs. vs = ps @ qs \<and> dlist_sorted_loop l e (key_cmp key) (after l vs) s = Ret () (dl_put l (us @ ps) e qs s)
    \<and> (\<forall>x \<in> set ps. key x < key e) \<and> (\<exists>q qs'. qs = q # qs' \<and> key e \<le> key q)"
  using assms
proof (induction vs arbitrary: us)
  case Nil
  then show ?case by simp
next
  case (Cons v vs)
  have v: "v \<noteq> l" "dl_next s v = Some (after l vs)"
    using Cons.prems(1) ring_ends [of s l "us @ [v]" vs] by (auto simp: dlist_rep_def)
  show ?case
  proof (cases "key e \<le> key v")
    case True
    then have "dlist_sorted_loop l e (key_cmp key) v s = Ret () (dl_put l us e (v # vs) s)"
      using v dlist_add_before_run [OF Cons.prems(1,2,3)]
      by (subst dlist_sorted_loop.simps) (simp add: dlist_iter_term_def key_cmp_def c_eval)
    with True show ?thesis by (intro exI [of _ "[]"] exI [of _ "v # vs"]) auto
  next
    case False
    have "dlist_sorted_loop l e (key_cmp key) v s = dlist_sorted_loop l e (key_cmp key) (after l vs) s"
      using False v
      by (subst dlist_sorted_loop.simps) (simp add: dlist_iter_term_def dlist_iter_next_def key_cmp_def c_eval)
    moreover obtain ps qs where "vs = ps @ qs"
        "dlist_sorted_loop l e (key_cmp key) (after l vs) s = Ret () (dl_put l ((us @ [v]) @ ps) e qs s)"
        "\<forall>x \<in> set ps. key x < key e" "\<exists>q qs'. qs = q # qs' \<and> key e \<le> key q"
      using Cons.IH [of "us @ [v]"] Cons.prems False by auto
    ultimately show ?thesis using False by (intro exI [of _ "v # ps"] exI [of _ qs]) auto
  qed
qed

lemma dlist_add_sorted_run:
  fixes key :: "addr \<Rightarrow> 'k::linorder"
  assumes "dlist_rep s l xs" and "is_dlink s e" and "e \<notin> set (l # xs)" and "sorted (map key xs)"
  shows "\<exists>us vs. xs = us @ vs \<and> dlist_add_sorted l e (key_cmp key) s = Ret () (dl_put l us e vs s)
    \<and> sorted (map key (us @ e # vs))"
proof (cases xs rule: rev_cases)
  case Nil
  then show ?thesis
    using dlist_empty_run [OF assms(1)] dlist_add_front_run [OF assms(1,2,3)]
    by (simp add: dlist_add_sorted_def c_eval)
next
  case (snoc ys y)
  have run: "dlist_add_sorted l e (key_cmp key) s =
      (if key e \<le> key y then dlist_sorted_loop l e (key_cmp key) (after l xs) s else dlist_add_back l e s)"
    using dlist_empty_run [OF assms(1)] ring_head [OF assms(1)] snoc
    by (auto simp: dlist_add_sorted_def c_eval key_cmp_def key_ord_def dlist_iter_init_def)
  show ?thesis
  proof (cases "key e \<le> key y")
    case True
    then obtain ps q qs where p: "xs = ps @ q # qs"
        "dlist_sorted_loop l e (key_cmp key) (after l xs) s = Ret () (dl_put l ps e (q # qs) s)"
        "\<forall>x \<in> set ps. key x < key e" "key e \<le> key q"
      using dlist_sorted_loop_run [of s l "[]" xs e key] assms snoc by auto
    have "sorted (map key (ps @ e # q # qs))"
      using assms(4) p by (intro sorted_insert_between) (auto simp: sorted_append)
    then show ?thesis using run p True by (intro exI [of _ ps] exI [of _ "q # qs"]) simp
  next
    case False
    have "sorted (map key (xs @ [e]))"
      using assms(4) False snoc by (intro sorted_insert_between) (auto simp: sorted_append)
    then show ?thesis using run False dlist_add_back_run [OF assms(1,2,3)] by (intro exI [of _ xs] exI [of _ "[]"]) auto
  qed
qed

interpretation dlsort: c_sorted
  "\<lambda>s xs. dlist_rep s l xs" "\<lambda>s e. is_dlink s e \<and> e \<noteq> l" "\<lambda>e. dlist_add_sorted l e (key_cmp key)" key
  for l :: addr and key :: "addr \<Rightarrow> 'k::linorder"
proof (unfold_locales, goal_cases)
  case (1 s xs e)
  then obtain us vs where "xs = us @ vs" "dlist_add_sorted l e (key_cmp key) s = Ret () (dl_put l us e vs s)"
      "sorted (map key (us @ e # vs))"
    using dlist_add_sorted_run [of s l xs e key] by auto
  with 1 show ?case using dlist_rep_put [of s l us vs e] is_dlink_put [of s l us vs e] by auto
qed

subsection \<open>Two lists: merging and cutting\<close>

definition rings_apart :: "addr \<Rightarrow> addr list \<Rightarrow> addr \<Rightarrow> addr list \<Rightarrow> bool" where
  "rings_apart a xs b ys \<longleftrightarrow> set (a # xs) \<inter> set (b # ys) = {}"

lemma dlist_rep_cong:
  assumes "\<And>p. p \<in> set (l # xs) \<Longrightarrow> dl_next s' p = dl_next s p \<and> dl_prev s' p = dl_prev s p"
  shows "dlist_rep s' l xs = dlist_rep s l xs"
  using assms dlinks_cong [of "l # xs @ [l]" "dl_next s'" "dl_next s" "dl_prev s'" "dl_prev s"]
  by (simp add: dlist_rep_def)

lemma ring_parts:
  assumes "dlist_rep s l xs"
  shows "dlinks (dl_next s) (dl_prev s) (l # xs)" and "dlinks (dl_next s) (dl_prev s) xs"
proof -
  have "dlinks (dl_next s) (dl_prev s) ((l # xs) @ [l])" using assms by (simp add: dlist_rep_def)
  then show 1: "dlinks (dl_next s) (dl_prev s) (l # xs)" by (subst (asm) dlinks_join_seg) auto
  then show "dlinks (dl_next s) (dl_prev s) xs" by (cases xs) auto
qed

definition dl_merged :: "addr \<Rightarrow> addr list \<Rightarrow> addr \<Rightarrow> addr list \<Rightarrow> 'z dlist_mem_scheme \<Rightarrow> 'z dlist_mem_scheme" where
  "dl_merged r xs l ys s =
     s\<lparr>dl_next := (dl_next s)(before r xs \<mapsto> after l ys, before l ys \<mapsto> r, l \<mapsto> l),
       dl_prev := (dl_prev s)(after l ys \<mapsto> before r xs, r \<mapsto> before l ys, l \<mapsto> l)\<rparr>"

lemma before_after_ne:
  "ys \<noteq> [] \<Longrightarrow> l \<notin> set ys \<Longrightarrow> before l ys \<in> set ys \<and> after l ys \<in> set ys \<and> before l ys \<noteq> l \<and> after l ys \<noteq> l"
  using after_eq [of l ys] before_eq [of l ys] after_in [of l ys] before_in [of l ys] by auto

lemma dlist_merge_run:
  assumes r: "dlist_rep s r xs" and l: "dlist_rep s l ys" and ap: "rings_apart r xs l ys" and ys: "ys \<noteq> []"
  shows "dlist_merge r l s = Ret () (dl_merged r xs l ys s)"
proof -
  have b: "before l ys \<in> set ys" "after l ys \<in> set ys" "before l ys \<noteq> l" "after l ys \<noteq> l"
    using before_after_ne [of ys l] ys l by (auto simp: dlist_rep_def)
  have c: "before r xs \<in> set (r # xs)" by (rule before_in)
  have ne: "before r xs \<noteq> l" "before r xs \<noteq> before l ys" "before r xs \<noteq> after l ys" "r \<noteq> l"
      "r \<noteq> before l ys" "r \<noteq> after l ys"
    using ap b c by (auto simp: rings_apart_def)
  show ?thesis
    using dlist_empty_run [OF l] ring_head [OF r] ring_head [OF l] ys ne b ring_cell [OF r c]
      ring_cell [OF l, of "before l ys"] ring_cell [OF l, of "after l ys"]
    by (auto simp: dlist_merge_def dlist_init_def c_eval dl_merged_def)
qed

lemma dlist_rep_merged:
  assumes r: "dlist_rep s r xs" and l: "dlist_rep s l ys" and ap: "rings_apart r xs l ys" and ys: "ys \<noteq> []"
  shows "dlist_rep (dl_merged r xs l ys s) r (xs @ ys)" and "dlist_rep (dl_merged r xs l ys s) l []"
proof -
  have d: "distinct (r # xs)" "distinct (l # ys)" using r l by (auto simp: dlist_rep_def)
  have b: "before l ys \<in> set ys" "after l ys \<in> set ys" "before l ys \<noteq> l" "after l ys \<noteq> l"
    using before_after_ne [of ys l] ys d by auto
  have c: "before r xs \<in> set (r # xs)" by (rule before_in)
  have e: "before r xs \<notin> set (butlast (r # xs))" "before l ys \<notin> set (butlast ys)" "after l ys \<notin> set (tl ys)"
    using last_notin_butlast [OF d(1)] last_notin_butlast [of ys] hd_notin_tl [of ys] d ys
    by (auto simp: before_def after_def)
  have n: "before r xs \<notin> set ys" "before l ys \<notin> set (r # xs)" "after l ys \<notin> set (r # xs)" "l \<notin> set (r # xs)"
    "r \<notin> set ys" "r \<noteq> l" "before r xs \<noteq> l"
    using ap b c by (auto simp: rings_apart_def)
  let ?s = "dl_merged r xs l ys s"
  have "dlinks (dl_next ?s) (dl_prev ?s) (r # xs)"
    using ring_parts(1) [OF r] e(1) notin_parts [OF n(2)] notin_parts [OF n(3)] notin_parts [OF n(4)] d(1)
    by (simp add: dl_merged_def dlinks_nx dlinks_pv)
  moreover have "dlinks (dl_next ?s) (dl_prev ?s) ys"
    using ring_parts(2) [OF l] e(2,3) notin_parts [OF n(1)] notin_parts [OF n(5)] notin_parts [of l ys] d(2)
    by (simp add: dl_merged_def dlinks_nx dlinks_pv)
  moreover have "before r xs \<noteq> before l ys" "r \<noteq> after l ys" using n b c by auto
  ultimately have "dlinks (dl_next ?s) (dl_prev ?s) ((r # xs) @ ys @ [r])"
    using ys n b by (subst dlinks_join_seg; simp add: dlinks_join_seg dl_merged_def before_def after_def)+
  then show "dlist_rep ?s r (xs @ ys)"
    using d ap r l by (auto simp: dlist_rep_def rings_apart_def)
  show "dlist_rep ?s l []" using l n b by (auto simp: dlist_rep_def dl_merged_def)
qed

definition dl_merged_front :: "addr \<Rightarrow> addr list \<Rightarrow> addr \<Rightarrow> addr list \<Rightarrow> 'z dlist_mem_scheme \<Rightarrow> 'z dlist_mem_scheme" where
  "dl_merged_front r xs l ys s =
     s\<lparr>dl_next := (dl_next s)(before l ys \<mapsto> after r xs, r \<mapsto> after l ys, l \<mapsto> l),
       dl_prev := (dl_prev s)(after r xs \<mapsto> before l ys, after l ys \<mapsto> r, l \<mapsto> l)\<rparr>"

lemma dlist_merge_front_run:
  assumes r: "dlist_rep s r xs" and l: "dlist_rep s l ys" and ap: "rings_apart r xs l ys" and ys: "ys \<noteq> []"
  shows "dlist_merge_front r l s = Ret () (dl_merged_front r xs l ys s)"
proof -
  have b: "before l ys \<in> set ys" "after l ys \<in> set ys" "before l ys \<noteq> l" "after l ys \<noteq> l"
    using before_after_ne [of ys l] ys l by (auto simp: dlist_rep_def)
  have c: "after r xs \<in> set (r # xs)" by (rule after_in)
  have ne: "after r xs \<noteq> l" "after r xs \<noteq> before l ys" "after r xs \<noteq> after l ys" "r \<noteq> l"
      "r \<noteq> before l ys" "r \<noteq> after l ys"
    using ap b c by (auto simp: rings_apart_def)
  show ?thesis
    using dlist_empty_run [OF l] ring_head [OF r] ring_head [OF l] ys ne b ring_cell [OF r c]
      ring_cell [OF l, of "before l ys"] ring_cell [OF l, of "after l ys"]
    by (auto simp: dlist_merge_front_def dlist_init_def c_eval dl_merged_front_def)
qed

lemma dlist_rep_merged_front:
  assumes r: "dlist_rep s r xs" and l: "dlist_rep s l ys" and ap: "rings_apart r xs l ys" and ys: "ys \<noteq> []"
  shows "dlist_rep (dl_merged_front r xs l ys s) r (ys @ xs)" and "dlist_rep (dl_merged_front r xs l ys s) l []"
proof -
  have d: "distinct (r # xs)" "distinct (l # ys)" using r l by (auto simp: dlist_rep_def)
  have b: "before l ys \<in> set ys" "after l ys \<in> set ys" "before l ys \<noteq> l" "after l ys \<noteq> l"
    using before_after_ne [of ys l] ys d by auto
  have c: "after r xs \<in> set (xs @ [r])" using after_in [of r xs] by auto
  have d': "distinct (xs @ [r])" using d by auto
  have e: "after r xs \<notin> set (tl (xs @ [r]))" "before l ys \<notin> set (butlast ys)" "after l ys \<notin> set (tl ys)"
    using hd_notin_tl [OF d'] last_notin_butlast [of ys] hd_notin_tl [of ys] d ys
    by (auto simp: before_def after_def)
  have n: "after r xs \<notin> set ys" "before l ys \<notin> set (xs @ [r])" "after l ys \<notin> set (xs @ [r])" "l \<notin> set (xs @ [r])"
    "r \<notin> set ys" "r \<noteq> l" "after r xs \<noteq> l" "l \<notin> set ys"
    using ap b c d by (auto simp: rings_apart_def)
  let ?s = "dl_merged_front r xs l ys s"
  have "dlinks (dl_next s) (dl_prev s) ([r] @ xs @ [r])" using r by (simp add: dlist_rep_def)
  then have "dlinks (dl_next s) (dl_prev s) (xs @ [r])" by (subst (asm) dlinks_join_seg) auto
  then have "dlinks (dl_next ?s) (dl_prev ?s) (xs @ [r])"
    using e(1) notin_parts [OF n(2)] notin_parts [OF n(3)] notin_parts [OF n(4)] d
    by (simp add: dl_merged_front_def dlinks_nx dlinks_pv)
  moreover have "dlinks (dl_next ?s) (dl_prev ?s) ys"
    using ring_parts(2) [OF l] e(2,3) notin_parts [OF n(1)] notin_parts [OF n(5)] notin_parts [OF n(8)]
    by (simp add: dl_merged_front_def dlinks_nx dlinks_pv)
  moreover have "after r xs \<noteq> after l ys" "r \<noteq> before l ys" using n b c by auto
  ultimately have "dlinks (dl_next ?s) (dl_prev ?s) ([r] @ ys @ (xs @ [r]))"
    using ys n b by (subst dlinks_join_seg; simp add: dlinks_join_seg dl_merged_front_def before_def after_def)+
  then show "dlist_rep ?s r (ys @ xs)"
    using d ap r l by (auto simp: dlist_rep_def rings_apart_def)
  show "dlist_rep ?s l []" using l n b by (auto simp: dlist_rep_def dl_merged_front_def)
qed

definition dl_split :: "addr \<Rightarrow> addr list \<Rightarrow> addr list \<Rightarrow> addr \<Rightarrow> 'z dlist_mem_scheme \<Rightarrow> 'z dlist_mem_scheme" where
  "dl_split a us vs b s =
     s\<lparr>dl_next := (dl_next s)(b \<mapsto> after a vs, before a us \<mapsto> a, before a vs \<mapsto> b),
       dl_prev := (dl_prev s)(b \<mapsto> before a vs, a \<mapsto> before a us, after a vs \<mapsto> b)\<rparr>"

lemma dlist_split_run:
  assumes a: "dlist_rep s a (us @ v # vs)" and b: "is_dlink s b" "b \<notin> set (a # us @ v # vs)"
  shows "dlist_split a v b s = Ret () (dl_split a us (v # vs) b s)"
proof -
  have va: "v \<noteq> a" "v \<noteq> b" "a \<noteq> b" using a b by (auto simp: dlist_rep_def)
  have nx: "dl_next s v = Some (after a vs)" "after a vs \<noteq> v"
    using ring_ends [of s a "us @ [v]" vs] a after_in [of a vs] by (auto simp: dlist_rep_def)
  have l: "before a (v # vs) \<in> set (v # vs)" "before a us \<in> set (a # us)"
    using before_after_ne [of "v # vs" a] a before_in [of a us] by (auto simp: dlist_rep_def)
  have lu: "before a (us @ v # vs) = before a (v # vs)" by (simp add: before_def)
  have e: "dlist_empty v s = Ret False s" using nx by (simp add: dlist_empty_def c_eval)
  have ne: "before a (v # vs) \<noteq> b" "before a us \<noteq> b" "before a us \<noteq> v" "before a us \<noteq> before a (v # vs)"
      "before a (v # vs) \<noteq> a"
    using l a b by (auto simp: dlist_rep_def)
  show ?thesis
    using e va ne ring_head(2) [OF a] ring_ends [OF a] lu b(1)
      ring_cell [OF a, of "before a us"] ring_cell [OF a, of "before a (v # vs)"] l ring_cell [OF a, of a]
    by (auto simp: dlist_split_def c_eval dl_split_def is_dlink_def)
qed

lemma dlist_rep_split:
  assumes a: "dlist_rep s a (us @ v # vs)" and b: "is_dlink s b" "b \<notin> set (a # us @ v # vs)"
  shows "dlist_rep (dl_split a us (v # vs) b s) a us" and "dlist_rep (dl_split a us (v # vs) b s) b (v # vs)"
proof -
  let ?s = "dl_split a us (v # vs) b s"
  let ?l = "before a (v # vs)"
  have d: "distinct (a # us @ v # vs)" using a by (auto simp: dlist_rep_def)
  have l: "?l = last (v # vs)" "?l \<in> set (v # vs)" by (simp_all add: before_def)
  have p: "before a us \<in> set (a # us)" "before a us = last (a # us)" by (rule before_in) (simp add: before_def)
  have "dlinks (dl_next s) (dl_prev s) ((a # us) @ (v # vs))" using ring_parts(1) [OF a] by simp
  then have au: "dlinks (dl_next s) (dl_prev s) (a # us)" and vv: "dlinks (dl_next s) (dl_prev s) (v # vs)"
    by (subst (asm) dlinks_join_seg; simp)+
  have n: "b \<notin> set (a # us)" "?l \<notin> set (a # us)" "v \<notin> set (a # us)" "b \<notin> set (v # vs)"
    "before a us \<notin> set (v # vs)" "a \<notin> set (v # vs)"
    using l(2) d b(2) p(1) by auto
  have e: "before a us \<notin> set (butlast (a # us))" "?l \<notin> set (butlast (v # vs))"
    using last_notin_butlast [of "a # us"] last_notin_butlast [of "v # vs"] d p(2) l(1) by auto
  have "dlinks (dl_next ?s) (dl_prev ?s) (a # us)"
    using au notin_parts [OF n(1)] notin_parts [OF n(2)] notin_parts [OF n(3)] e(1) d
    by (simp add: dl_split_def dlinks_nx dlinks_pv)
  moreover have "?l \<noteq> before a us" "v \<noteq> a" using n p l by auto
  ultimately have "dlinks (dl_next ?s) (dl_prev ?s) ((a # us) @ [a])"
    using p(2) d by (subst dlinks_join_seg) (simp_all add: dl_split_def)
  then show "dlist_rep ?s a us" using a by (auto simp: dlist_rep_def)
  have vv': "dlinks (dl_next ?s) (dl_prev ?s) (v # vs)"
    using vv notin_parts [OF n(4)] notin_parts [OF n(5)] notin_parts [OF n(6)] e(2) d
    by (simp add: dl_split_def dlinks_nx dlinks_pv)
  have "dl_next ?s b = Some v" "dl_prev ?s v = Some b" "dl_next ?s ?l = Some b" "dl_prev ?s b = Some ?l"
    using n l p(1) b(2) by (auto simp: dl_split_def)
  then have "dlinks (dl_next ?s) (dl_prev ?s) ((b # v # vs) @ [b])"
    using vv' l(1) by (subst dlinks_join_seg) simp_all
  then show "dlist_rep ?s b (v # vs)" using a b by (auto simp: dlist_rep_def is_dlink_def)
qed

subsection \<open>Filtering\<close>

text \<open>
  The traversal of \<open>dlist_filter_out\<close> on sequences: \<open>ks\<close> the elements passed and kept,
  then the elements ahead, then the elements moved. After a match the iterator already
  stands on the next element, and the loop steps over it untested; when the match was the
  last element, the iterator stands on the list head and steps to the first element again.
\<close>

function dl_filter :: "(addr \<Rightarrow> bool) \<Rightarrow> addr list \<Rightarrow> addr list \<Rightarrow> addr list \<Rightarrow> addr list \<times> addr list" where
  "dl_filter P ks [] ms = (ks, ms)"
| "dl_filter P ks [x] ms =
     (if P x then dl_filter P [] ks (ms @ [x]) else dl_filter P (ks @ [x]) [] ms)"
| "dl_filter P ks (x # y # rs) ms =
     (if P x then dl_filter P (ks @ [y]) rs (ms @ [x]) else dl_filter P (ks @ [x]) (y # rs) ms)"
  by pat_completeness auto
termination
  by (relation "measures [\<lambda>(P, ks, rs, ms). length ks + length rs, \<lambda>(P, ks, rs, ms). length rs]") auto

lemma dl_filter_mset:
  "dl_filter P ks rs ms = (ks', ms') \<Longrightarrow> mset ks' + mset ms' = mset ks + mset rs + mset ms"
  by (induction P ks rs ms arbitrary: ks' ms' rule: dl_filter.induct) (auto split: if_splits)

lemma dl_filter_moved:
  "dl_filter P ks rs ms = (ks', ms') \<Longrightarrow> \<exists>es. ms' = ms @ es \<and> (\<forall>x \<in> set es. P x)"
  by (induction P ks rs ms arbitrary: ks' ms' rule: dl_filter.induct) (fastforce split: if_splits)+

lemma dl_put_frame:
  assumes "dlist_rep s a xs" and "dlist_rep s b (us @ vs)" and "rings_apart a xs b (us @ vs)" and "e \<notin> set (a # xs)"
  shows "dlist_rep (dl_put b us e vs s) a xs"
proof -
  have "before b us \<notin> set (a # xs)" "after b vs \<notin> set (a # xs)"
    using assms(3) before_in [of b us] after_in [of b vs] by (auto simp: rings_apart_def)
  then show ?thesis
    using assms by (subst dlist_rep_cong [where s = s]) (auto simp: dl_put_def)
qed

lemma dl_cut_frame:
  assumes "dlist_rep s a xs" and "rings_apart a xs b (us @ x # vs)"
  shows "dlist_rep (dl_cut b us vs s) a xs"
proof -
  have "before b us \<notin> set (a # xs)" "after b vs \<notin> set (a # xs)"
    using assms(2) before_in [of b us] after_in [of b vs] by (auto simp: rings_apart_def)
  then show ?thesis
    using assms by (subst dlist_rep_cong [where s = s]) (auto simp: dl_cut_def)
qed

lemma dlist_filter_step_run:
  assumes a: "dlist_rep s a (ks @ x # rs)" and b: "dlist_rep s b ys" and ap: "rings_apart a (ks @ x # rs) b ys"
    and sel: "pure_sel sel P"
  shows "\<exists>s'. dlist_filter_step b sel x s = Ret (if P x then after a rs else x) s'
    \<and> dlist_rep s' a (if P x then ks @ rs else ks @ x # rs) \<and> dlist_rep s' b (if P x then ys @ [x] else ys)"
proof (cases "P x")
  case True
  let ?s = "dl_cut a ks rs s"
  have "is_dlink s x" using ring_cell [OF a, of x] by (auto simp: is_dlink_def)
  then have x: "is_dlink ?s x" using a by simp
  have b1: "dlist_rep ?s b ys" using dl_cut_frame [OF b, of a ks x rs] ap by (auto simp: rings_apart_def)
  have xb: "x \<notin> set (b # ys)" using ap by (auto simp: rings_apart_def)
  have xa: "x \<notin> set (a # ks @ rs)" using a by (auto simp: dlist_rep_def)
  have a1: "dlist_rep ?s a (ks @ rs)" by (rule dlist_rep_cut [OF a])
  have "dlist_rep (dl_put b ys x [] ?s) a (ks @ rs)"
    using dl_put_frame [OF a1, of b ys "[]" x] b1 ap xa by (auto simp: rings_apart_def)
  moreover have "dlist_rep (dl_put b ys x [] ?s) b (ys @ [x])"
    using dlist_rep_put [of ?s b ys "[]" x] b1 x xb by simp
  ultimately show ?thesis
    using True sel dlist_iter_rm_curr_run [OF a] dlist_add_back_run [OF b1 x xb]
    by (simp add: dlist_filter_step_def c_eval pure_sel_def)
next
  case False
  then show ?thesis using sel a b by (simp add: dlist_filter_step_def c_eval pure_sel_def)
qed

lemma dlist_filter_loop_unfold:
  assumes "dlist_rep s a (ks @ x # rs)"
  shows "dlist_filter_loop a b sel x s =
    bindM (dlist_filter_step b sel x) (\<lambda>i. bindM (dlist_iter_next i) (\<lambda>j. dlist_filter_loop a b sel j)) s"
  using assms by (subst dlist_filter_loop.simps) (auto simp: dlist_iter_term_def dlist_rep_def)

text \<open>The loop moves its iterator to where the next element's link leads.\<close>

lemma dlist_filter_loop_next:
  assumes "dlist_rep s a (ks @ x # rs)" and "dlist_filter_step b sel x s = Ret i s'"
    and "dlist_rep s' a (us @ vs)" and "i = before a us"
  shows "dlist_filter_loop a b sel x s = dlist_filter_loop a b sel (after a vs) s'"
  using dlist_filter_loop_unfold [OF assms(1), of b sel] assms(2,4) ring_ends(1) [OF assms(3)]
  by (simp add: c_eval dlist_iter_next_def)

lemma dlist_filter_loop_run:
  assumes "dlist_rep s a (ks @ rs)" and "dlist_rep s b ms" and "rings_apart a (ks @ rs) b ms" and "pure_sel sel P"
  shows "\<exists>s'. dlist_filter_loop a b sel (after a rs) s = Ret () s'
    \<and> dlist_rep s' a (fst (dl_filter P ks rs ms)) \<and> dlist_rep s' b (snd (dl_filter P ks rs ms))"
  using assms
proof (induction P ks rs ms arbitrary: s rule: dl_filter.induct)
  case (1 P ks ms)
  then show ?case by (subst dlist_filter_loop.simps) (simp add: dlist_iter_term_def c_eval)
next
  case (2 P ks x ms)
  obtain s1 where s1: "dlist_filter_step b sel x s = Ret (if P x then a else x) s1"
      "dlist_rep s1 a (if P x then ks else ks @ [x])" "dlist_rep s1 b (if P x then ms @ [x] else ms)"
    using dlist_filter_step_run [of s a ks x "[]" b ms sel P, OF 2(3-6)] by (cases "P x") auto
  have ap: "rings_apart a ks b (ms @ [x])" "rings_apart a (ks @ [x]) b ms"
    using 2(3,5) by (auto simp: rings_apart_def dlist_rep_def)
  show ?case
  proof (cases "P x")
    case True
    have "dlist_filter_loop a b sel x s = dlist_filter_loop a b sel (after a ks) s1"
      using dlist_filter_loop_next [of s a ks x "[]" b sel a s1 "[]" ks] 2(3) s1 True by simp
    with 2(1) [OF True, of s1] s1 ap True 2(6) show ?thesis by simp
  next
    case False
    have "dlist_filter_loop a b sel x s = dlist_filter_loop a b sel a s1"
      using dlist_filter_loop_next [of s a ks x "[]" b sel x s1 "ks @ [x]" "[]"] 2(3) s1 False by simp
    with 2(2) [OF False, of s1] s1 ap False 2(6) show ?thesis by simp
  qed
next
  case (3 P ks x y rs ms)
  obtain s1 where s1: "dlist_filter_step b sel x s = Ret (if P x then y else x) s1"
      "dlist_rep s1 a (if P x then ks @ y # rs else ks @ x # y # rs)" "dlist_rep s1 b (if P x then ms @ [x] else ms)"
    using dlist_filter_step_run [of s a ks x "y # rs" b ms sel P, OF 3(3-6)] by (cases "P x") auto
  have ap: "rings_apart a (ks @ y # rs) b (ms @ [x])" "rings_apart a (ks @ x # y # rs) b ms"
    using 3(3,5) by (auto simp: rings_apart_def dlist_rep_def)
  show ?case
  proof (cases "P x")
    case True
    have "dlist_filter_loop a b sel x s = dlist_filter_loop a b sel (after a rs) s1"
      using dlist_filter_loop_next [of s a ks x "y # rs" b sel y s1 "ks @ [y]" rs] 3(3) s1 True by simp
    with 3(1) [OF True, of s1] s1 ap True 3(6) show ?thesis by simp
  next
    case False
    have "dlist_filter_loop a b sel x s = dlist_filter_loop a b sel y s1"
      using dlist_filter_loop_next [of s a ks x "y # rs" b sel x s1 "ks @ [x]" "y # rs"] 3(3) s1 False by simp
    with 3(2) [OF False, of s1] s1 ap False 3(6) show ?thesis by simp
  qed
qed

lemma dlist_filter_out_run:
  assumes "dlist_rep s a xs" and "dlist_rep s b ys" and "rings_apart a xs b ys" and "pure_sel sel P"
  shows "\<exists>s'. dlist_filter_out a b sel s = Ret () s'
    \<and> dlist_rep s' a (fst (dl_filter P [] xs ys)) \<and> dlist_rep s' b (snd (dl_filter P [] xs ys))"
  using dlist_filter_loop_run [of s a "[]" xs b ys sel P] assms ring_head(1) [OF assms(1)]
  by (simp add: dlist_filter_out_def dlist_iter_init_def c_eval)

end
