(* ===== verification/DlistProps.thy ===== *)
theory DlistProps
  imports DlistSpec
begin

text \<open>
  The properties of the circular list: order, search, concatenation and cutting, and what
  the traversal of \<open>dlist_filter_out\<close> reaches.
\<close>

definition demo_dlist :: dlist_mem where
  "demo_dlist =
    \<lparr>dl_next = [1 \<mapsto> 2, 2 \<mapsto> 3, 3 \<mapsto> 1, 4 \<mapsto> 5, 5 \<mapsto> 4, 6 \<mapsto> 6, 7 \<mapsto> 9, 8 \<mapsto> 9],
     dl_prev = [1 \<mapsto> 3, 2 \<mapsto> 1, 3 \<mapsto> 2, 4 \<mapsto> 5, 5 \<mapsto> 4, 6 \<mapsto> 6, 7 \<mapsto> 9, 8 \<mapsto> 9]\<rparr>"

lemma demo_dlist_rep: "dlist_rep demo_dlist 1 [2, 3]" "dlist_rep demo_dlist 4 [5]" "dlist_rep demo_dlist 6 []"
  by (simp_all add: dlist_rep_def demo_dlist_def)

lemma demo_dlist_link: "is_dlink demo_dlist 6" "is_dlink demo_dlist 7" "is_dlink demo_dlist 8"
  by (simp_all add: is_dlink_def demo_dlist_def)

subsection \<open>Order\<close>

text \<open>Elements added with \<open>dlist_add_back\<close> come out of \<open>dlist_rm_front\<close> in the order in
  which they were added, after the elements that were already there, and the list ends up
  empty.\<close>

theorem dlist_queue_fifo:
  assumes "dlist_rep s l xs" and "distinct (xs @ es)" and "\<forall>e \<in> set es. is_dlink s e \<and> e \<noteq> l"
  shows "\<exists>s'. seqM (forM es (dlist_add_back l)) (drain (length (xs @ es)) (dlist_rm_front l)) s
      = Ret (xs @ es) s' \<and> dlist_rep s' l []"
  using assms by (rule dlq.first_in_first_out)

theorem dlist_queue_fifo_witness:
  "\<exists>s'. seqM (forM [8, 7] (dlist_add_back 4)) (drain 3 (dlist_rm_front 4)) demo_dlist
      = Ret [5, 8, 7] s' \<and> dlist_rep s' 4 []"
  using dlist_queue_fifo [OF demo_dlist_rep(2), of "[8, 7]"] demo_dlist_link
  by (simp add: numeral_3_eq_3 del: drain.simps)

text \<open>C29: Inserting elements with \<open>dlist_add_sorted\<close> into a sorted list, in any order, leaves
  a sorted list of exactly the old and new elements.\<close>

theorem dlist_insertion_sorts:
  fixes key :: "addr \<Rightarrow> 'k::linorder"
  assumes "dlist_rep s l xs" and "sorted (map key xs)" and "distinct (xs @ es)"
    and "\<forall>e \<in> set es. is_dlink s e \<and> e \<noteq> l"
  shows "\<exists>s' ys. forM es (\<lambda>e. dlist_add_sorted l e (key_cmp key)) s = Ret () s'
      \<and> dlist_rep s' l ys \<and> sorted (map key ys) \<and> mset ys = mset (xs @ es)"
  using assms by (rule dlsort.ins_all_sorted)

theorem dlist_insertion_sorts_witness:
  "\<exists>s' ys. forM [8, 7] (\<lambda>e. dlist_add_sorted 4 e (key_cmp (\<lambda>a. a))) demo_dlist = Ret () s'
      \<and> dlist_rep s' 4 ys \<and> sorted (map (\<lambda>a. a) ys) \<and> mset ys = mset ([5] @ [8, 7])"
  using dlist_insertion_sorts [OF demo_dlist_rep(2), of "\<lambda>a. a" "[8, 7]"] demo_dlist_link by simp

subsection \<open>Search and removal\<close>

text \<open>\<open>dlist_find\<close> returns the first element on which the comparison gives 0, and with
  \<open>rm\<close> takes out that element and no other; it returns \<open>NULL\<close> and leaves the memory
  alone when there is none. It always ends.\<close>

theorem dlist_find_first:
  assumes "dlist_rep s l xs" and "pure_on (set xs) (\<lambda>y. cmp y d) f s"
  shows "(\<forall>us x vs. xs = us @ x # vs \<longrightarrow> (\<forall>y \<in> set us. f y \<noteq> 0) \<longrightarrow> f x = 0 \<longrightarrow>
       dlist_find l d cmp False s = Ret x s \<and>
       (\<exists>s'. dlist_find l d cmp True s = Ret x s' \<and> dlist_rep s' l (us @ vs)))
    \<and> ((\<forall>y \<in> set xs. f y \<noteq> 0) \<longrightarrow> dlist_find l d cmp rm s = Ret NULL s)"
proof (intro conjI allI impI)
  fix us x vs assume xs: "xs = us @ x # vs" and us: "\<forall>y \<in> set us. f y \<noteq> 0" and x: "f x = 0"
  have p: "pure_on (set (us @ [x])) (\<lambda>y. cmp y d) f s" using assms(2) xs by (auto simp: pure_on_def)
  have r: "dlist_rep s l (us @ x # vs)" using assms(1) xs by simp
  note run = dlist_find_some [where cmp = cmp and d = d and f = f, OF r p us x]
  show "dlist_find l d cmp False s = Ret x s" using run [of False] by simp
  show "\<exists>s'. dlist_find l d cmp True s = Ret x s' \<and> dlist_rep s' l (us @ vs)"
    using run [of True] dlist_rep_cut [OF r] by auto
next
  assume "\<forall>y \<in> set xs. f y \<noteq> 0"
  with assms show "dlist_find l d cmp rm s = Ret NULL s" by (rule dlist_find_none)
qed

definition demo_eq :: "addr \<Rightarrow> addr \<Rightarrow> ('s, int) cprog" where
  "demo_eq x y = ret (if x = y then 0 else 1)"

theorem dlist_find_first_witness:
  "(\<exists>s'. dlist_find 1 3 demo_eq True demo_dlist = Ret 3 s' \<and> dlist_rep s' 1 [2])"
proof -
  have "pure_on (set [2, 3]) (\<lambda>y. demo_eq y 3) (\<lambda>y. if y = 3 then 0 else 1) demo_dlist"
    by (simp add: pure_on_def demo_eq_def ret_def)
  from dlist_find_first [where cmp = demo_eq and d = 3, OF demo_dlist_rep(1) this] show ?thesis by (auto dest: spec [of _ "[2]"])
qed

text \<open>\<open>dlist_free\<close> hands every element to the callback, in order and after taking it
  out, and ends with the empty list, as long as the callback leaves the remaining ring alone.\<close>

theorem dlist_free_all:
  assumes "dlist_rep s l xs"
    and "\<forall>x t ys. dlist_rep t l ys \<and> x \<notin> set (l # ys) \<longrightarrow> (\<exists>t'. fr x t = Ret () t' \<and> dlist_rep t' l ys \<and> log t' = log t @ [x])"
    and "\<forall>us vs t. log (dl_cut l us vs t) = log t"
  shows "\<exists>s'. dlist_free l fr s = Ret () s' \<and> dlist_rep s' l [] \<and> log s' = log s @ xs"
  using assms(1)
proof (induction xs arbitrary: s)
  case Nil
  then show ?case using dlist_empty_run [of s l "[]"] by (subst dlist_free.simps) (simp add: c_eval)
next
  case (Cons x xs)
  have e: "dlist_empty l s = Ret False s" using dlist_empty_run [OF Cons.prems] by simp
  let ?s = "dl_cut l [] xs s"
  have r: "dlist_rep ?s l xs" using dlist_rep_cut [of s l "[]" x xs] Cons.prems by simp
  have "x \<notin> set (l # xs)" using Cons.prems by (auto simp: dlist_rep_def)
  with r obtain s1 where s1: "fr x ?s = Ret () s1" "dlist_rep s1 l xs" "log s1 = log s @ [x]"
    using assms(2,3) by metis
  have "dlist_free l fr s = dlist_free l fr s1"
    by (subst dlist_free.simps) (simp add: c_eval e dlist_rm_front_run [OF Cons.prems] s1(1))
  with Cons.IH [OF s1(2)] s1(3) show ?case by auto
qed

record demo_log_mem = dlist_mem +
  freed :: "addr list"

definition demo_log :: demo_log_mem where
  "demo_log = \<lparr>dl_next = [1 \<mapsto> 2, 2 \<mapsto> 3, 3 \<mapsto> 1], dl_prev = [1 \<mapsto> 3, 2 \<mapsto> 1, 3 \<mapsto> 2], freed = []\<rparr>"

definition demo_free :: "addr \<Rightarrow> (demo_log_mem, unit) cprog" where
  "demo_free x s = Ret () (s\<lparr>freed := freed s @ [x]\<rparr>)"

theorem dlist_free_all_witness:
  "\<exists>s'. dlist_free 1 demo_free demo_log = Ret () s' \<and> dlist_rep s' 1 [] \<and> freed s' = [2, 3]"
proof -
  have "dlist_rep demo_log 1 [2, 3]" by (simp add: dlist_rep_def demo_log_def)
  moreover have "\<forall>x t ys. dlist_rep t 1 ys \<and> x \<notin> set (1 # ys) \<longrightarrow>
      (\<exists>t'. demo_free x t = Ret () t' \<and> dlist_rep t' 1 ys \<and> freed t' = freed t @ [x])"
    by (simp add: demo_free_def dlist_rep_def)
  moreover have "\<forall>us vs t. freed (dl_cut 1 us vs t) = freed t" by (simp add: dl_cut_def)
  ultimately have "\<exists>s'. dlist_free 1 demo_free demo_log = Ret () s' \<and> dlist_rep s' 1 [] \<and> freed s' = freed demo_log @ [2, 3]"
    by (intro dlist_free_all) simp_all
  then show ?thesis by (simp add: demo_log_def)
qed

subsection \<open>Concatenation and cutting\<close>

text \<open>\<open>dlist_merge\<close> appends the second list to the first and \<open>dlist_merge_front\<close> puts it
  before the first; both leave the second list empty, also when it was empty already.\<close>

theorem dlist_merge_concat:
  assumes "dlist_rep s a xs" and "dlist_rep s b ys" and "rings_apart a xs b ys"
  shows "(\<exists>s'. dlist_merge a b s = Ret () s' \<and> dlist_rep s' a (xs @ ys) \<and> dlist_rep s' b [])
    \<and> (\<exists>s'. dlist_merge_front a b s = Ret () s' \<and> dlist_rep s' a (ys @ xs) \<and> dlist_rep s' b [])"
proof (cases "ys = []")
  case True
  then show ?thesis
    using dlist_empty_run [OF assms(2)] assms by (simp add: dlist_merge_def dlist_merge_front_def c_eval)
next
  case False
  then show ?thesis
    using dlist_merge_run [OF assms] dlist_rep_merged [OF assms]
      dlist_merge_front_run [OF assms] dlist_rep_merged_front [OF assms] by auto
qed

theorem dlist_merge_concat_witness:
  "(\<exists>s'. dlist_merge 1 4 demo_dlist = Ret () s' \<and> dlist_rep s' 1 [2, 3, 5] \<and> dlist_rep s' 4 [])
    \<and> (\<exists>s'. dlist_merge_front 1 4 demo_dlist = Ret () s' \<and> dlist_rep s' 1 [5, 2, 3] \<and> dlist_rep s' 4 [])"
  using dlist_merge_concat [OF demo_dlist_rep(1,2)] by (simp add: rings_apart_def)

text \<open>\<open>dlist_split\<close> at an element leaves the elements before it in the old list and puts
  it and the later ones into the (empty) result list, and \<open>dlist_merge\<close> of the two restores
  the sequence.\<close>

theorem dlist_split_merge:
  assumes a: "dlist_rep s a (us @ v # vs)" and b: "is_dlink s b" "b \<notin> set (a # us @ v # vs)"
  shows "\<exists>s1 s2. dlist_split a v b s = Ret () s1 \<and> dlist_rep s1 a us \<and> dlist_rep s1 b (v # vs)
    \<and> dlist_merge a b s1 = Ret () s2 \<and> dlist_rep s2 a (us @ v # vs) \<and> dlist_rep s2 b []"
proof -
  let ?s = "dl_split a us (v # vs) b s"
  have r: "dlist_rep ?s a us" "dlist_rep ?s b (v # vs)" by (rule dlist_rep_split [OF assms])+
  have ap: "rings_apart a us b (v # vs)" using a b by (auto simp: rings_apart_def dlist_rep_def)
  show ?thesis
    using dlist_split_run [OF assms] r dlist_merge_run [OF r ap] dlist_rep_merged [OF r ap] by auto
qed

theorem dlist_split_merge_witness:
  "\<exists>s1 s2. dlist_split 1 3 6 demo_dlist = Ret () s1 \<and> dlist_rep s1 1 [2] \<and> dlist_rep s1 6 [3]
    \<and> dlist_merge 1 6 s1 = Ret () s2 \<and> dlist_rep s2 1 [2, 3] \<and> dlist_rep s2 6 []"
  using dlist_split_merge [of demo_dlist 1 "[2]" 3 "[]" 6] demo_dlist_rep demo_dlist_link by simp

subsection \<open>Filtering\<close>

text \<open>\<open>dlist_filter_out\<close> ends and keeps both lists well-formed; it appends to the new
  list only elements the callback selects, and every element of the old list ends up in
  exactly one of the two lists, as the traversal \<open>dl_filter\<close> describes.\<close>

theorem dlist_filter_out_moves:
  assumes "dlist_rep s a xs" and "dlist_rep s b ys" and "rings_apart a xs b ys" and "pure_sel sel P"
  shows "\<exists>s' ks es. dlist_filter_out a b sel s = Ret () s' \<and> dlist_rep s' a ks \<and> dlist_rep s' b (ys @ es)
    \<and> dl_filter P [] xs ys = (ks, ys @ es) \<and> mset ks + mset es = mset xs \<and> (\<forall>x \<in> set es. P x)"
proof -
  obtain ks ms where f: "dl_filter P [] xs ys = (ks, ms)" by fastforce
  obtain es where es: "ms = ys @ es" "\<forall>x \<in> set es. P x" using dl_filter_moved [OF f] by auto
  have "mset ks + mset es = mset xs" using dl_filter_mset [OF f] es(1) by simp
  with dlist_filter_out_run [OF assms] f es show ?thesis by auto
qed

theorem dlist_filter_out_moves_witness:
  "\<exists>s' ks es. dlist_filter_out 1 4 (\<lambda>x. ret (x = 2)) demo_dlist = Ret () s' \<and> dlist_rep s' 1 ks
    \<and> dlist_rep s' 4 ([5] @ es) \<and> dl_filter (\<lambda>x. x = 2) [] [2, 3] [5] = (ks, [5] @ es)
    \<and> mset ks + mset es = mset [2, 3] \<and> (\<forall>x \<in> set es. x = 2)"
  using demo_dlist_rep(1,2)
  by (rule dlist_filter_out_moves) (simp_all add: rings_apart_def pure_sel_def ret_def)

text \<open>Contrary to its comment, \<open>dlist_filter_out\<close> does not apply the callback to every
  element: of two neighbours that both match, at the end of a list whose other elements do
  not match, the second is never looked at and stays.\<close>

theorem dlist_filter_out_skips:
  assumes "dlist_rep s a (us @ [x, y])" and "dlist_rep s b []" and "rings_apart a (us @ [x, y]) b []"
    and "pure_sel sel P" and "\<forall>u \<in> set us. \<not> P u" and "P x" and "P y"
  shows "\<exists>s'. dlist_filter_out a b sel s = Ret () s' \<and> dlist_rep s' a (us @ [y]) \<and> dlist_rep s' b [x]"
proof -
  have "dl_filter P ks (us @ [x, y]) [] = (ks @ us @ [y], [x])" for ks
    using assms(5) assms(6)
  proof (induction us arbitrary: ks)
    case Nil
    then show ?case by simp
  next
    case (Cons u us)
    then show ?case by (cases us) auto
  qed
  with dlist_filter_out_run [OF assms(1-4)] show ?thesis by auto
qed

theorem dlist_filter_out_skips_witness:
  "\<exists>s'. dlist_filter_out 1 6 (\<lambda>x. ret True) demo_dlist = Ret () s' \<and> dlist_rep s' 1 [3] \<and> dlist_rep s' 6 [2]"
  using dlist_filter_out_skips [of demo_dlist 1 "[]" 2 3 6 "\<lambda>x. ret True" "\<lambda>_. True"] demo_dlist_rep
  by (simp add: rings_apart_def pure_sel_def ret_def)

end
