(* ===== verification/CTables.thy ===== *)
theory CTables
  imports CInterfaces
begin

text \<open>
  The interface of a keyed table with what a client may derive from it, and the facts on
  arrays of buckets that the two hash tables (Dhash and Shash) share.
\<close>

subsection \<open>Keyed tables\<close>

text \<open>
  A table \<open>t\<close> whose elements are found by their keys. \<open>rep s t m\<close>: in memory \<open>s\<close> the
  table \<open>t\<close> holds, for each key, the element \<open>m\<close> gives. Insertion returns the bucket it
  used, search and removal the element (\<open>NULL\<close> for none), all three the updated table; a
  search may reorganise the table.
\<close>

definition or_NULL :: "addr option \<Rightarrow> addr" where
  "or_NULL r = (case r of None \<Rightarrow> NULL | Some x \<Rightarrow> x)"

lemma or_NULL_simps [simp]: "or_NULL None = NULL" "or_NULL (Some x) = x"
  by (simp_all add: or_NULL_def)

fun ins_seq :: "('t \<Rightarrow> addr \<Rightarrow> ('s, 'i \<times> 't) cprog) \<Rightarrow> 't \<Rightarrow> addr list \<Rightarrow> ('s, 't) cprog" where
  "ins_seq ins t [] = ret t"
| "ins_seq ins t (e # es) = bindM (ins t e) (\<lambda>r. ins_seq ins (snd r) es)"

text \<open>The keys of a sequence of elements.\<close>

definition key_map :: "(addr \<Rightarrow> 'k) \<Rightarrow> addr list \<Rightarrow> ('k \<rightharpoonup> addr)" where
  "key_map key xs = map_of (map (\<lambda>x. (key x, x)) xs)"

lemma key_map_Some:
  "distinct (map key xs) \<Longrightarrow> key_map key xs k = Some x \<longleftrightarrow> x \<in> set xs \<and> key x = k"
  by (auto simp: key_map_def map_of_eq_Some_iff comp_def)

lemma key_map_None: "key_map key xs k = None \<longleftrightarrow> k \<notin> key ` set xs"
  by (auto simp: key_map_def map_of_eq_None_iff image_iff)

lemma key_map_mset:
  assumes "distinct (map key xs)" and "mset xs = mset ys"
  shows "key_map key xs = key_map key ys" and "distinct (map key ys)"
proof -
  have "mset (map key xs) = mset (map key ys)" using assms(2) by simp
  with assms(1) show d: "distinct (map key ys)" by (metis mset_eq_imp_distinct_iff)
  have "set xs = set ys" using assms(2) by (metis set_mset_mset)
  then have "key_map key xs k = Some x \<longleftrightarrow> key_map key ys k = Some x" for k x
    by (simp add: key_map_Some [OF assms(1)] key_map_Some [OF d])
  then show "key_map key xs = key_map key ys" by (metis ext not_Some_eq)
qed

lemma key_map_add:
  assumes "distinct (map key xs)" and "key e \<notin> key ` set xs" and "mset ys = add_mset e (mset xs)"
  shows "key_map key ys = (key_map key xs)(key e \<mapsto> e)" and "distinct (map key ys)"
proof -
  have d: "distinct (map key (e # xs))" using assms(1,2) by simp
  have m: "mset (e # xs) = mset ys" using assms(3) by simp
  show "distinct (map key ys)" by (rule key_map_mset(2) [OF d m])
  show "key_map key ys = (key_map key xs)(key e \<mapsto> e)"
    using key_map_mset(1) [OF d m] by (simp add: key_map_def)
qed

lemma key_map_del:
  assumes "distinct (map key ys)" and "mset ys = add_mset e (mset xs)"
  shows "key_map key xs = (key_map key ys)(key e := None)" and "distinct (map key xs)"
proof -
  have m: "mset ys = mset (e # xs)" using assms(2) by simp
  have d: "distinct (map key (e # xs))" by (rule key_map_mset(2) [OF assms(1) m])
  then show "distinct (map key xs)" by simp
  have "key_map key xs (key e) = None" using d by (simp add: key_map_None)
  then show "key_map key xs = (key_map key ys)(key e := None)"
    using key_map_mset(1) [OF assms(1) m] by (auto simp: key_map_def)
qed

locale c_table =
  fixes rep :: "'s \<Rightarrow> 't \<Rightarrow> ('k \<rightharpoonup> addr) \<Rightarrow> bool"
    and cell :: "'s \<Rightarrow> 't \<Rightarrow> addr \<Rightarrow> bool"
    and key :: "addr \<Rightarrow> 'k"
    and ins :: "'t \<Rightarrow> addr \<Rightarrow> ('s, 'i \<times> 't) cprog"
    and fnd :: "'t \<Rightarrow> addr \<Rightarrow> ('s, addr \<times> 't) cprog"
    and rmv :: "'t \<Rightarrow> addr \<Rightarrow> ('s, addr \<times> 't) cprog"
  assumes ins_law: "rep s t m \<Longrightarrow> cell s t e \<Longrightarrow> m (key e) = None \<Longrightarrow>
      \<exists>i s' t'. ins t e s = Ret (i, t') s' \<and> rep s' t' (m(key e \<mapsto> e)) \<and> (\<forall>p. cell s t p \<longrightarrow> cell s' t' p)"
    and fnd_law: "rep s t m \<Longrightarrow>
      \<exists>s' t'. fnd t p s = Ret (or_NULL (m (key p)), t') s' \<and> rep s' t' m \<and> (\<forall>p. cell s t p \<longrightarrow> cell s' t' p)"
    and rmv_law: "rep s t m \<Longrightarrow>
      \<exists>s' t'. rmv t p s = Ret (or_NULL (m (key p)), t') s' \<and> rep s' t' (m(key p := None))
        \<and> (\<forall>p. cell s t p \<longrightarrow> cell s' t' p)"
begin

lemma ins_seq_run:
  "rep s t m \<Longrightarrow> distinct (map key es) \<Longrightarrow> \<forall>e \<in> set es. cell s t e \<and> m (key e) = None \<Longrightarrow>
   \<exists>s' t'. ins_seq ins t es s = Ret t' s' \<and> rep s' t' (m ++ key_map key es) \<and> (\<forall>p. cell s t p \<longrightarrow> cell s' t' p)"
proof (induction es arbitrary: s t m)
  case Nil
  then show ?case by (auto simp: c_eval key_map_def)
next
  case (Cons e es)
  then obtain i s1 t1 where s1: "ins t e s = Ret (i, t1) s1" "rep s1 t1 (m(key e \<mapsto> e))" "\<forall>p. cell s t p \<longrightarrow> cell s1 t1 p"
    using ins_law [of s t m e] by auto
  have "\<forall>e' \<in> set es. cell s1 t1 e' \<and> (m(key e \<mapsto> e)) (key e') = None"
    using Cons.prems s1(3) by (force simp: image_iff)
  moreover have "distinct (map key es)" using Cons.prems(2) by simp
  ultimately obtain s2 t2 where s2: "ins_seq ins t1 es s1 = Ret t2 s2"
      "rep s2 t2 (m(key e \<mapsto> e) ++ key_map key es)" "\<forall>p. cell s1 t1 p \<longrightarrow> cell s2 t2 p"
    using Cons.IH [OF s1(2)] by blast
  have "key_map key es (key e) = None" using Cons.prems(2) by (simp add: key_map_None)
  then have "m(key e \<mapsto> e) ++ key_map key es = m ++ key_map key (e # es)"
    by (auto simp: key_map_def map_add_def fun_eq_iff split: option.splits)
  with s1 s2 show ?case by (simp add: c_eval)
qed

lemma insert_find:
  assumes "rep s t m" and "distinct (map key es)" and "\<forall>e \<in> set es. cell s t e \<and> m (key e) = None"
  shows "\<exists>s' t'. bindM (ins_seq ins t es) (\<lambda>t1. fnd t1 p) s = Ret (or_NULL ((m ++ key_map key es) (key p)), t') s'
    \<and> rep s' t' (m ++ key_map key es)"
proof -
  obtain s1 t1 where s1: "ins_seq ins t es s = Ret t1 s1" "rep s1 t1 (m ++ key_map key es)"
    using ins_seq_run [OF assms] by auto
  with fnd_law [OF s1(2), of p] show ?thesis by (auto simp: c_eval simp del: map_add_find_right)
qed

lemma insert_remove:
  assumes "rep s t m" and "cell s t e" and "m (key e) = None" and "key p = key e"
  shows "\<exists>s' t'. bindM (ins t e) (\<lambda>r. rmv (snd r) p) s = Ret (e, t') s' \<and> rep s' t' m"
proof -
  obtain i s1 t1 where s1: "ins t e s = Ret (i, t1) s1" "rep s1 t1 (m(key e \<mapsto> e))"
    using ins_law [OF assms(1-3)] by auto
  have "(m(key e \<mapsto> e))(key p := None) = m" using assms(3,4) by auto
  with rmv_law [OF s1(2), of p] s1(1) assms(4) show ?thesis by (auto simp: c_eval)
qed

end

subsection \<open>Buckets\<close>

text \<open>Contents of the array after an update of one bucket.\<close>

lemma mset_concat_put:
  assumes "i < length bs" and "bs ! i = us @ vs"
  shows "mset (concat (bs[i := us @ e # vs])) = add_mset e (mset (concat bs))"
proof -
  have "bs = take i bs @ (us @ vs) # drop (Suc i) bs" using id_take_nth_drop [OF assms(1)] assms(2) by simp
  then have "mset (concat bs) = mset (concat (take i bs @ (us @ vs) # drop (Suc i) bs))" by simp
  then show ?thesis using assms(1) by (simp add: upd_conv_take_nth_drop)
qed

lemma mset_concat_cut:
  assumes "i < length bs" and "bs ! i = us @ x # vs"
  shows "mset (concat bs) = add_mset x (mset (concat (bs[i := us @ vs])))"
proof -
  have "bs[i := us @ vs, i := us @ x # vs] = bs" using assms(2) by (metis list_update_id list_update_overwrite)
  then show ?thesis using mset_concat_put [of i "bs[i := us @ vs]" us vs x] assms(1) by simp
qed

text \<open>A hash function is below the number of buckets.\<close>

definition good_hash :: "(nat \<Rightarrow> 'k \<Rightarrow> nat) \<Rightarrow> bool" where
  "good_hash h \<longleftrightarrow> (\<forall>n k. 0 < n \<longrightarrow> h n k < n)"

text \<open>Every element is in the bucket its key hashes to.\<close>

definition hashed :: "(nat \<Rightarrow> 'k \<Rightarrow> nat) \<Rightarrow> (addr \<Rightarrow> 'k) \<Rightarrow> addr list list \<Rightarrow> bool" where
  "hashed h key bs \<longleftrightarrow> (\<forall>i < length bs. \<forall>x \<in> set (bs ! i). h (length bs) (key x) = i)"

lemma hashed_put:
  "hashed h key bs \<Longrightarrow> i < length bs \<Longrightarrow> bs ! i = us @ vs \<Longrightarrow> h (length bs) (key e) = i
   \<Longrightarrow> hashed h key (bs[i := us @ e # vs])"
  by (auto simp: hashed_def nth_list_update)

lemma hashed_cut:
  "hashed h key bs \<Longrightarrow> i < length bs \<Longrightarrow> bs ! i = us @ x # vs \<Longrightarrow> hashed h key (bs[i := us @ vs])"
  by (auto simp: hashed_def nth_list_update)

lemma find_split:
  "find P xs = Some x \<Longrightarrow> \<exists>ps qs. xs = ps @ x # qs \<and> (\<forall>y \<in> set ps. \<not> P y) \<and> P x"
proof (induction xs)
  case Nil
  then show ?case by simp
next
  case (Cons y xs)
  show ?case
  proof (cases "P y")
    case True
    with Cons.prems show ?thesis by (intro exI [of _ "[]"] exI [of _ xs]) auto
  next
    case False
    with Cons obtain ps qs where "xs = ps @ x # qs" "\<forall>y \<in> set ps. \<not> P y" "P x" by auto
    with False show ?thesis by (intro exI [of _ "y # ps"] exI [of _ qs]) auto
  qed
qed

text \<open>The bucket of a key decides what the table holds under it.\<close>

lemma bucket_of_key:
  assumes "hashed h key bs" and "good_hash h" and "bs \<noteq> []" and "distinct (map key (concat bs))"
  shows "find (\<lambda>x. key x = k) (bs ! h (length bs) k) = key_map key (concat bs) k"
proof -
  let ?i = "h (length bs) k"
  have i: "?i < length bs" using assms(2,3) by (simp add: good_hash_def)
  show ?thesis
  proof (cases "key_map key (concat bs) k")
    case None
    then have "\<forall>x \<in> set (concat bs). key x \<noteq> k" by (auto simp: key_map_None)
    then have "\<forall>x \<in> set (bs ! ?i). key x \<noteq> k" using i nth_mem by fastforce
    then show ?thesis using None by (simp add: find_None_iff)
  next
    case (Some x)
    then have x: "x \<in> set (concat bs)" "key x = k" by (simp_all only: key_map_Some [OF assms(4)])
    then obtain j where j: "j < length bs" "x \<in> set (bs ! j)" by (metis UN_E in_set_conv_nth set_concat)
    then have "j = ?i" using assms(1) x(2) by (auto simp: hashed_def)
    moreover obtain y where y: "find (\<lambda>x. key x = k) (bs ! ?i) = Some y"
      using j x(2) \<open>j = ?i\<close> by (metis (mono_tags, lifting) find_None_iff not_Some_eq)
    then have "y \<in> set (bs ! ?i)" "key y = k" by (auto simp: find_Some_iff)
    then have "y \<in> set (concat bs)" "key y = k" using nth_mem [OF i] by auto
    then have "key_map key (concat bs) k = Some y" by (simp only: key_map_Some [OF assms(4)])
    then show ?thesis using y Some by simp
  qed
qed

subsection \<open>Maps with values\<close>

text \<open>The commands of a map, what they answer for a map \<open>m\<close> (\<open>nov\<close> for an absent key), and a
  run of them on a table. Insertion is legal for an absent key.\<close>

datatype ('k, 'v) map_cmd = Put 'k 'v | Get 'k | Del 'k

definition val_or :: "'v \<Rightarrow> 'v option \<Rightarrow> 'v" where
  "val_or nov r = (case r of None \<Rightarrow> nov | Some v \<Rightarrow> v)"

fun map_spec :: "'v \<Rightarrow> ('k, 'v) map_cmd list \<Rightarrow> ('k \<rightharpoonup> 'v) \<Rightarrow> 'v list" where
  "map_spec nov [] m = []"
| "map_spec nov (Put k v # cs) m = map_spec nov cs (m(k \<mapsto> v))"
| "map_spec nov (Get k # cs) m = val_or nov (m k) # map_spec nov cs m"
| "map_spec nov (Del k # cs) m = val_or nov (m k) # map_spec nov cs (m(k := None))"

fun map_legal :: "('k \<Rightarrow> bool) \<Rightarrow> ('k, 'v) map_cmd list \<Rightarrow> ('k \<rightharpoonup> 'v) \<Rightarrow> bool" where
  "map_legal ok [] m \<longleftrightarrow> True"
| "map_legal ok (Put k v # cs) m \<longleftrightarrow> ok k \<and> m k = None \<and> map_legal ok cs (m(k \<mapsto> v))"
| "map_legal ok (Get k # cs) m \<longleftrightarrow> ok k \<and> map_legal ok cs m"
| "map_legal ok (Del k # cs) m \<longleftrightarrow> ok k \<and> map_legal ok cs (m(k := None))"

fun map_run ::
  "('t \<Rightarrow> 'k \<Rightarrow> 'v \<Rightarrow> ('s, 't) cprog) \<Rightarrow> ('t \<Rightarrow> 'k \<Rightarrow> ('s, 'v) cprog) \<Rightarrow> ('t \<Rightarrow> 'k \<Rightarrow> ('s, 'v \<times> 't) cprog)
   \<Rightarrow> ('k, 'v) map_cmd list \<Rightarrow> 't \<Rightarrow> ('s, 'v list) cprog" where
  "map_run put get del [] t = ret []"
| "map_run put get del (Put k v # cs) t = bindM (put t k v) (\<lambda>t'. map_run put get del cs t')"
| "map_run put get del (Get k # cs) t =
     bindM (get t k) (\<lambda>v. bindM (map_run put get del cs t) (\<lambda>vs. ret (v # vs)))"
| "map_run put get del (Del k # cs) t =
     bindM (del t k) (\<lambda>r. bindM (map_run put get del cs (snd r)) (\<lambda>vs. ret (fst r # vs)))"

locale c_map =
  fixes rep :: "'s \<Rightarrow> 't \<Rightarrow> ('k \<rightharpoonup> 'v) \<Rightarrow> bool"
    and ok :: "'k \<Rightarrow> bool"
    and nov :: 'v
    and put :: "'t \<Rightarrow> 'k \<Rightarrow> 'v \<Rightarrow> ('s, 't) cprog"
    and get :: "'t \<Rightarrow> 'k \<Rightarrow> ('s, 'v) cprog"
    and del :: "'t \<Rightarrow> 'k \<Rightarrow> ('s, 'v \<times> 't) cprog"
  assumes put_law: "rep s t m \<Longrightarrow> ok k \<Longrightarrow> m k = None \<Longrightarrow> \<exists>s' t'. put t k v s = Ret t' s' \<and> rep s' t' (m(k \<mapsto> v))"
    and get_law: "rep s t m \<Longrightarrow> ok k \<Longrightarrow> \<exists>s'. get t k s = Ret (val_or nov (m k)) s' \<and> rep s' t m"
    and del_law: "rep s t m \<Longrightarrow> ok k \<Longrightarrow> \<exists>s' t'. del t k s = Ret (val_or nov (m k), t') s' \<and> rep s' t' (m(k := None))"
begin

lemma run_refines:
  "rep s t m \<Longrightarrow> map_legal ok cs m \<Longrightarrow> \<exists>s'. map_run put get del cs t s = Ret (map_spec nov cs m) s'"
proof (induction cs arbitrary: s t m)
  case Nil
  then show ?case by (simp add: c_eval)
next
  case (Cons c cs)
  show ?case
  proof (cases c)
    case (Put k v)
    with Cons.prems obtain s1 t1 where "put t k v s = Ret t1 s1" "rep s1 t1 (m(k \<mapsto> v))"
      using put_law [of s t m k v] by auto
    with Put Cons.IH [of s1 t1] Cons.prems show ?thesis by (auto simp: c_eval)
  next
    case (Get k)
    with Cons.prems obtain s1 where "get t k s = Ret (val_or nov (m k)) s1" "rep s1 t m"
      using get_law [of s t m k] by auto
    with Get Cons.IH [of s1 t m] Cons.prems show ?thesis by (auto simp: c_eval)
  next
    case (Del k)
    with Cons.prems obtain s1 t1 where "del t k s = Ret (val_or nov (m k), t1) s1" "rep s1 t1 (m(k := None))"
      using del_law [of s t m k] by auto
    moreover from this obtain s2 where "map_run put get del cs t1 s1 = Ret (map_spec nov cs (m(k := None))) s2"
      using Cons.IH [of s1 t1] Cons.prems(2) Del by auto
    ultimately show ?thesis using Del by (simp add: c_eval)
  qed
qed

end

end
