(* ===== verification/Dhash.thy ===== *)
theory Dhash
  imports DlistSpec CTables
begin

text \<open>
  The hash table with doubly linked buckets: the first half of include/ctype/hash.h and of
  common/ctype/hash.c. A \<open>struct dhash\<close> is a record that the routines take and return
  updated; the bucket array and the elements live in the memory of Dlist. A function pointer
  is an optional program, \<open>None\<close> the null pointer; calling that is a fault.

  \<open>malloc\<close> is a parameter: \<open>alloc s n\<close> is the address it returns in memory \<open>s\<close> for an
  array of \<open>n\<close> elements, and the word the new cells hold before they are written. \<open>free\<close>
  takes the cells out of the memory again.
\<close>

subsection \<open>Data\<close>

type_synonym 's hash_ptr = "(int \<Rightarrow> addr \<Rightarrow> ('s, int) cprog) option"
type_synonym 's cmp_ptr = "(addr \<Rightarrow> addr \<Rightarrow> ('s, int) cprog) option"
type_synonym 's alloc = "'s \<Rightarrow> nat \<Rightarrow> addr \<times> addr"

definition call_fn :: "('x \<Rightarrow> 'y \<Rightarrow> ('s, 'v) cprog) option \<Rightarrow> 'x \<Rightarrow> 'y \<Rightarrow> ('s, 'v) cprog" where
  "call_fn p x y = (case p of None \<Rightarrow> abortM (Fault NULL) | Some f \<Rightarrow> f x y)"

lemma call_fn_Some [simp]: "call_fn (Some f) x y = f x y"
  by (simp add: call_fn_def)

record 's dhash =
  dh_bucket :: addr
  dh_bk_size :: int
  dh_elm_cnt :: int
  dh_max_chain :: int
  dh_hash_fn :: "'s hash_ptr"
  dh_cmp_fn :: "'s cmp_ptr"

text \<open>The iterator; its member \<open>dh_tab\<close> is the table argument of the routines below.\<close>

record dhash_iter =
  dh_curr :: addr
  dh_iter :: addr

text \<open>The cells of an array.\<close>

definition arr :: "addr \<Rightarrow> nat \<Rightarrow> addr set" where
  "arr p n = {p..<p + n}"

definition malloc_dlists ::
  "'z dlist_mem_scheme alloc \<Rightarrow> int \<Rightarrow> ('z dlist_mem_scheme, addr) cprog" where
  "malloc_dlists alloc nsize s =
     (let mp = fst (alloc s (nat nsize)); junk = snd (alloc s (nat nsize)); cells = arr mp (nat nsize) in
      if mp = NULL then Ret NULL s
      else Ret mp (s\<lparr>dl_next := (\<lambda>p. if p \<in> cells then Some junk else dl_next s p),
                     dl_prev := (\<lambda>p. if p \<in> cells then Some junk else dl_prev s p)\<rparr>))"

definition free_dlists :: "addr \<Rightarrow> int \<Rightarrow> ('z dlist_mem_scheme, unit) cprog" where
  "free_dlists p nsize s =
     (if p = NULL then Ret () s
      else if arr p (nat nsize) \<subseteq> dom (dl_next s) \<and> arr p (nat nsize) \<subseteq> dom (dl_prev s)
      then Ret () (s\<lparr>dl_next := (\<lambda>q. if q \<in> arr p (nat nsize) then None else dl_next s q),
                     dl_prev := (\<lambda>q. if q \<in> arr p (nat nsize) then None else dl_prev s q)\<rparr>)
      else Abort (Fault p))"

subsection \<open>Operations\<close>

definition dhash_init ::
  "'z dlist_mem_scheme alloc \<Rightarrow> int \<Rightarrow> 'z dlist_mem_scheme hash_ptr \<Rightarrow> 'z dlist_mem_scheme cmp_ptr
   \<Rightarrow> ('z dlist_mem_scheme, 'z dlist_mem_scheme dhash) cprog" where
  "dhash_init alloc nsize hash_fn cmp_fn =
     bindM (malloc_dlists alloc nsize) (\<lambda>bucket.
     seqM (forM [0..<nat nsize] (\<lambda>i. dlist_init (bucket + i)))
     (ret \<lparr>dh_bucket = bucket, dh_bk_size = nsize, dh_elm_cnt = 0, dh_max_chain = 0,
           dh_hash_fn = hash_fn, dh_cmp_fn = cmp_fn\<rparr>))"

definition dhash_free ::
  "'z dlist_mem_scheme dhash \<Rightarrow> (addr \<Rightarrow> int \<Rightarrow> ('z dlist_mem_scheme, unit) cprog) option \<Rightarrow> int
   \<Rightarrow> ('z dlist_mem_scheme, unit) cprog" where
  "dhash_free table free_fn sz =
     seqM (if free_fn \<noteq> None
           then forM [0..<nat (dh_bk_size table)] (\<lambda>i.
                  dlist_free (dh_bucket table + i) (\<lambda>ptr. the free_fn ptr sz))
           else ret ())
     (free_dlists (dh_bucket table) (dh_bk_size table))"

definition dhash_insert_elm ::
  "'z dlist_mem_scheme dhash \<Rightarrow> addr \<Rightarrow> 'z dlist_mem_scheme hash_ptr
   \<Rightarrow> ('z dlist_mem_scheme, int \<times> 'z dlist_mem_scheme dhash) cprog" where
  "dhash_insert_elm table elm hash_fn =
     bindM (call_fn hash_fn (dh_bk_size table) elm) (\<lambda>index.
     seqM (assertM (0 \<le> index \<and> index < dh_bk_size table))
    (seqM (dlist_add_back (dh_bucket table + nat index) elm)
     (ret (index, table\<lparr>dh_elm_cnt := dh_elm_cnt table + 1\<rparr>))))"

definition dhash_insert ::
  "'z dlist_mem_scheme dhash \<Rightarrow> addr \<Rightarrow> ('z dlist_mem_scheme, int \<times> 'z dlist_mem_scheme dhash) cprog" where
  "dhash_insert table elm = dhash_insert_elm table elm (dh_hash_fn table)"

definition dhash_takeout_elm ::
  "'z dlist_mem_scheme dhash \<Rightarrow> addr \<Rightarrow> ('z dlist_mem_scheme, 'z dlist_mem_scheme dhash) cprog" where
  "dhash_takeout_elm table elm =
     seqM (dlist_rm elm) (ret (table\<lparr>dh_elm_cnt := dh_elm_cnt table - 1\<rparr>))"

definition dhash_iter_term :: "dhash_iter \<Rightarrow> bool" where
  "dhash_iter_term iter = (if dh_curr iter = NULL then True else False)"

definition dhash_iter_curr :: "dhash_iter \<Rightarrow> addr" where
  "dhash_iter_curr iter = dh_iter iter"

text \<open>The search of \<open>dhash_iter_next\<close> for the next bucket that holds an element.\<close>

partial_function (option) dhash_iter_scan ::
  "addr \<Rightarrow> addr \<Rightarrow> ('z dlist_mem_scheme, dhash_iter) cprog" where
  "dhash_iter_scan end_bk cur s =
     (if cur < end_bk
      then bindM (dlist_empty cur) (\<lambda>b.
           if \<not> b then bindM (dlist_iter_init cur) (\<lambda>i. ret \<lparr>dh_curr = cur, dh_iter = i\<rparr>)
           else dhash_iter_scan end_bk (cur + 1))
      else ret \<lparr>dh_curr = NULL, dh_iter = NULL\<rparr>) s"

definition dhash_iter_next ::
  "'z dlist_mem_scheme dhash \<Rightarrow> dhash_iter \<Rightarrow> ('z dlist_mem_scheme, dhash_iter) cprog" where
  "dhash_iter_next tab iter =
     (if dh_curr iter \<noteq> NULL
      then bindM
            (if \<not> dlist_iter_term (dh_curr iter) (dh_iter iter) \<or> dh_curr iter = dh_bucket tab
             then bindM (dlist_iter_next (dh_iter iter)) (\<lambda>i.
                  ret (iter\<lparr>dh_iter := i\<rparr>, \<not> dlist_iter_term (dh_curr iter) i))
             else ret (iter, False)) (\<lambda>r.
           if snd r then ret (fst r)
           else dhash_iter_scan (dh_bucket tab + nat (dh_bk_size tab)) (dh_curr (fst r) + 1))
      else ret iter)"

definition dhash_iter_init ::
  "'z dlist_mem_scheme dhash option \<Rightarrow> ('z dlist_mem_scheme, dhash_iter) cprog" where
  "dhash_iter_init table =
     (case table of
        Some tab \<Rightarrow>
          bindM (dlist_iter_init (dh_bucket tab)) (\<lambda>i.
          let iter = \<lparr>dh_curr = dh_bucket tab, dh_iter = i\<rparr> in
          if dlist_iter_term (dh_curr iter) (dh_iter iter) then dhash_iter_next tab iter
          else ret iter)
      | None \<Rightarrow> ret \<lparr>dh_curr = NULL, dh_iter = NULL\<rparr>)"

text \<open>Returns the removed element, the new iterator and the table.\<close>

definition dhash_iter_rm_curr ::
  "'z dlist_mem_scheme dhash \<Rightarrow> dhash_iter
   \<Rightarrow> ('z dlist_mem_scheme, addr \<times> dhash_iter \<times> 'z dlist_mem_scheme dhash) cprog" where
  "dhash_iter_rm_curr tab iter =
     (let curr = dh_iter iter in
      if dh_iter iter \<noteq> NULL
      then bindM (dlist_iter_prev (dh_iter iter)) (\<lambda>p.
           bindM (dhash_takeout_elm tab curr) (\<lambda>tab'.
           if dlist_iter_term (dh_curr iter) p
           then if dh_curr iter > dh_bucket tab'
                then let bk = dh_curr iter - 1 in
                     seqM (assertM (bk \<ge> dh_bucket tab'))
                    (bindM (dlist_iter_init bk) (\<lambda>i.
                     ret (curr, \<lparr>dh_curr = bk, dh_iter = i\<rparr>, tab')))
                else seqM (assertM (dh_curr iter = dh_bucket tab'))
                     (ret (curr, iter\<lparr>dh_iter := dh_curr iter\<rparr>, tab'))
           else ret (curr, iter\<lparr>dh_iter := p\<rparr>, tab')))
      else ret (curr, iter, tab))"

text \<open>The loop of \<open>dhash_rehash\<close>, with its local \<open>out\<close> and \<open>count\<close>.\<close>

partial_function (option) dhash_rehash_loop ::
  "'z dlist_mem_scheme dhash \<Rightarrow> 'z dlist_mem_scheme dhash \<Rightarrow> dhash_iter \<Rightarrow> int
   \<Rightarrow> ('z dlist_mem_scheme, 'z dlist_mem_scheme dhash \<times> 'z dlist_mem_scheme dhash \<times> int) cprog" where
  "dhash_rehash_loop inp out iter cnt s =
     (if dhash_iter_term iter then ret (inp, out, cnt)
      else bindM (dhash_iter_rm_curr inp iter) (\<lambda>r.
           seqM (assertM (fst r \<noteq> NULL))
          (bindM (dhash_insert_elm (out\<lparr>dh_elm_cnt := 0\<rparr>) (fst r) (dh_hash_fn (snd (snd r)))) (\<lambda>q.
           bindM (dhash_iter_next (snd (snd r)) (fst (snd r))) (\<lambda>iter'.
           dhash_rehash_loop (snd (snd r)) (snd q) iter' (cnt + 1)))))) s"

definition dhash_rehash ::
  "'z dlist_mem_scheme alloc \<Rightarrow> 'z dlist_mem_scheme dhash
   \<Rightarrow> ('z dlist_mem_scheme, 'z dlist_mem_scheme dhash) cprog" where
  "dhash_rehash alloc inp =
     bindM (dhash_init alloc (1 + dh_bk_size inp * 2) None None) (\<lambda>out.
     let inp0 = inp\<lparr>dh_elm_cnt := 0\<rparr> in
     bindM (dhash_iter_init (Some inp0)) (\<lambda>iter.
     bindM (dhash_rehash_loop inp0 out iter 0) (\<lambda>r.
     let inp1 = fst r; out1 = fst (snd r); cnt = snd (snd r) in
     seqM (free_dlists (dh_bucket inp1) (dh_bk_size inp1))
     (ret (inp1\<lparr>dh_bucket := dh_bucket out1, dh_bk_size := dh_bk_size out1,
                dh_elm_cnt := cnt, dh_max_chain := dh_max_chain out1\<rparr>)))))"

text \<open>The search loops of \<open>dhash_rm_elm\<close> and \<open>dhash_find_elm\<close>: the element and the number of
  elements looked at.\<close>

partial_function (option) dhash_rm_loop ::
  "'z dlist_mem_scheme dhash \<Rightarrow> addr \<Rightarrow> addr \<Rightarrow> 'z dlist_mem_scheme cmp_ptr \<Rightarrow> addr \<Rightarrow> int
   \<Rightarrow> ('z dlist_mem_scheme, addr \<times> int \<times> 'z dlist_mem_scheme dhash) cprog" where
  "dhash_rm_loop table bucket elm hash_cmp iter nchain s =
     (if dlist_iter_term bucket iter then ret (NULL, nchain, table)
      else bindM (call_fn hash_cmp iter elm) (\<lambda>c.
           if c = 0
           then bindM (dlist_iter_rm_curr iter) (\<lambda>r.
                ret (fst r, nchain + 1, table\<lparr>dh_elm_cnt := dh_elm_cnt table - 1\<rparr>))
           else bindM (dlist_iter_next iter) (\<lambda>iter'.
                dhash_rm_loop table bucket elm hash_cmp iter' (nchain + 1)))) s"

definition dhash_rm_elm ::
  "'z dlist_mem_scheme alloc \<Rightarrow> 'z dlist_mem_scheme dhash \<Rightarrow> addr \<Rightarrow> 'z dlist_mem_scheme hash_ptr
   \<Rightarrow> 'z dlist_mem_scheme cmp_ptr \<Rightarrow> ('z dlist_mem_scheme, addr \<times> 'z dlist_mem_scheme dhash) cprog" where
  "dhash_rm_elm alloc table elm hash_fn hash_cmp =
     bindM (call_fn hash_fn (dh_bk_size table) elm) (\<lambda>index.
     seqM (assertM (0 \<le> index \<and> index < dh_bk_size table))
    (let bucket = dh_bucket table + nat index in
     bindM (dlist_iter_init bucket) (\<lambda>iter.
     bindM (dhash_rm_loop table bucket elm hash_cmp iter 0) (\<lambda>r.
     let cur = fst r; nchain = fst (snd r);
         table' = (snd (snd r))\<lparr>dh_max_chain := max (dh_max_chain (snd (snd r))) nchain\<rparr> in
     if nchain \<ge> 32 \<and> dh_elm_cnt table' > 0
     then bindM (dhash_rehash alloc table') (\<lambda>table''. ret (cur, table''))
     else ret (cur, table')))))"

definition dhash_rm ::
  "'z dlist_mem_scheme alloc \<Rightarrow> 'z dlist_mem_scheme dhash \<Rightarrow> addr
   \<Rightarrow> ('z dlist_mem_scheme, addr \<times> 'z dlist_mem_scheme dhash) cprog" where
  "dhash_rm alloc table elm = dhash_rm_elm alloc table elm (dh_hash_fn table) (dh_cmp_fn table)"

partial_function (option) dhash_find_loop ::
  "addr \<Rightarrow> addr \<Rightarrow> 'z dlist_mem_scheme cmp_ptr \<Rightarrow> addr \<Rightarrow> int
   \<Rightarrow> ('z dlist_mem_scheme, addr \<times> int) cprog" where
  "dhash_find_loop bucket elm hash_cmp iter cnt s =
     (if dlist_iter_term bucket iter then ret (NULL, cnt)
      else bindM (call_fn hash_cmp iter elm) (\<lambda>c.
           if c = 0 then ret (iter, cnt + 1)
           else bindM (dlist_iter_next iter) (\<lambda>iter'.
                dhash_find_loop bucket elm hash_cmp iter' (cnt + 1)))) s"

definition dhash_find_elm ::
  "'z dlist_mem_scheme alloc \<Rightarrow> 'z dlist_mem_scheme dhash \<Rightarrow> addr \<Rightarrow> 'z dlist_mem_scheme hash_ptr
   \<Rightarrow> 'z dlist_mem_scheme cmp_ptr \<Rightarrow> ('z dlist_mem_scheme, addr \<times> 'z dlist_mem_scheme dhash) cprog" where
  "dhash_find_elm alloc table elm hash_fn hash_cmp =
     bindM (call_fn hash_fn (dh_bk_size table) elm) (\<lambda>index.
     seqM (assertM (0 \<le> index \<and> index < dh_bk_size table))
    (let bucket = dh_bucket table + nat index in
     bindM (dlist_iter_init bucket) (\<lambda>iter.
     bindM (dhash_find_loop bucket elm hash_cmp iter 0) (\<lambda>r.
     let found = fst r; cnt = snd r;
         table' = table\<lparr>dh_max_chain := (if dh_max_chain table > cnt then dh_max_chain table else cnt)\<rparr> in
     if cnt \<ge> 32 \<and> dh_elm_cnt table' > 0
     then bindM (dhash_rehash alloc table') (\<lambda>table''. ret (found, table''))
     else ret (found, table')))))"

definition dhash_find ::
  "'z dlist_mem_scheme alloc \<Rightarrow> 'z dlist_mem_scheme dhash \<Rightarrow> addr
   \<Rightarrow> ('z dlist_mem_scheme, addr \<times> 'z dlist_mem_scheme dhash) cprog" where
  "dhash_find alloc table elm = dhash_find_elm alloc table elm (dh_hash_fn table) (dh_cmp_fn table)"

text \<open>The traversal of one bucket in \<open>dhash_filter\<close> is that of \<open>dlist_filter_out\<close>, statement for
  statement, with the bucket's index handed to the callback.\<close>

definition dhash_filter ::
  "'z dlist_mem_scheme dhash \<Rightarrow> addr \<Rightarrow> (addr \<Rightarrow> int \<Rightarrow> ('z dlist_mem_scheme, bool) cprog)
   \<Rightarrow> ('z dlist_mem_scheme, unit) cprog" where
  "dhash_filter table newlst select_fn =
     forM [0..<nat (dh_bk_size table)] (\<lambda>i.
       dlist_filter_out (dh_bucket table + i) newlst (\<lambda>elm. select_fn elm (int i)))"

definition dhash_filter_all ::
  "(addr \<Rightarrow> int \<Rightarrow> ('z dlist_mem_scheme, unit) cprog) \<Rightarrow> addr \<Rightarrow> int \<Rightarrow> ('z dlist_mem_scheme, bool) cprog" where
  "dhash_filter_all app_fn elm index = seqM (app_fn elm index) (ret False)"

definition dhash_apply_all ::
  "'z dlist_mem_scheme dhash \<Rightarrow> (addr \<Rightarrow> int \<Rightarrow> ('z dlist_mem_scheme, unit) cprog)
   \<Rightarrow> ('z dlist_mem_scheme, unit) cprog" where
  "dhash_apply_all table app_fn = dhash_filter table NULL (dhash_filter_all app_fn)"

end
