(* ===== verification/DhashSpec.thy ===== *)
theory DhashSpec
  imports Dhash
begin

text \<open>
  Bucket arrays as sequences of sequences, and what the routines of the doubly linked hash
  table do to them. At the end the table is shown to implement the map interface
  \<open>c_table\<close>, rehashing included.
\<close>

subsection \<open>Arrays of rings\<close>

definition nodes :: "addr \<Rightarrow> addr list list \<Rightarrow> addr set" where
  "nodes bk bs = arr bk (length bs) \<union> set (concat bs)"

definition rings :: "'z dlist_mem_scheme \<Rightarrow> addr \<Rightarrow> addr list list \<Rightarrow> bool" where
  "rings s bk bs \<longleftrightarrow> (\<forall>i < length bs. dlist_rep s (bk + i) (bs ! i))
     \<and> (\<forall>i < length bs. \<forall>j < length bs. i \<noteq> j \<longrightarrow> rings_apart (bk + i) (bs ! i) (bk + j) (bs ! j))"

lemma arr_mem: "p \<in> arr a n \<longleftrightarrow> a \<le> p \<and> p < a + n"
  by (auto simp: arr_def)

lemma arr_bucket [simp]: "a + i \<in> arr a n \<longleftrightarrow> i < n"
  by (simp add: arr_mem)

lemma arr_own [simp]: "a \<in> arr a n \<longleftrightarrow> 0 < n"
  by (simp add: arr_mem)

lemma ringsD:
  assumes "rings s bk bs" and "i < length bs"
  shows "dlist_rep s (bk + i) (bs ! i)"
    and "\<And>j. j < length bs \<Longrightarrow> j \<noteq> i \<Longrightarrow> rings_apart (bk + j) (bs ! j) (bk + i) (bs ! i)"
  using assms by (auto simp: rings_def)

lemma ring_in_nodes: "i < length bs \<Longrightarrow> set ((bk + i) # bs ! i) \<subseteq> nodes bk bs"
  using nth_mem [of i bs] by (auto simp: nodes_def)

lemma rings_apart_in:
  "i < length bs \<Longrightarrow> x \<in> set ((bk + i) # bs ! i) \<Longrightarrow> x \<in> nodes bk bs"
  using ring_in_nodes by blast

lemma rings_cong:
  assumes "\<And>p. p \<in> nodes bk bs \<Longrightarrow> dl_next s' p = dl_next s p \<and> dl_prev s' p = dl_prev s p"
  shows "rings s' bk bs = rings s bk bs"
proof -
  have "dlist_rep s' (bk + i) (bs ! i) = dlist_rep s (bk + i) (bs ! i)" if "i < length bs" for i
    using assms rings_apart_in [OF that] by (intro dlist_rep_cong) blast
  then show ?thesis by (simp add: rings_def)
qed

lemma rings_put:
  assumes r: "rings s bk bs" and i: "i < length bs" and b: "bs ! i = us @ vs"
    and e: "is_dlink s e" "e \<notin> nodes bk bs"
  shows "rings (dl_put (bk + i) us e vs s) bk (bs[i := us @ e # vs])"
proof -
  have ri: "dlist_rep s (bk + i) (us @ vs)" using ringsD(1) [OF r i] b by simp
  have en: "j < length bs \<Longrightarrow> e \<notin> set ((bk + j) # bs ! j)" for j using e(2) rings_apart_in by blast
  have new: "dlist_rep (dl_put (bk + i) us e vs s) (bk + i) (us @ e # vs)"
    using dlist_rep_put [OF ri e(1)] en [OF i] b by simp
  have old: "dlist_rep (dl_put (bk + i) us e vs s) (bk + j) (bs ! j)" if "j < length bs" "j \<noteq> i" for j
    using dl_put_frame [OF ringsD(1) [OF r that(1)] ri] ringsD(2) [OF r i that] b en [OF that(1)] by simp
  have "rings_apart (bk + j) (bs[i := us @ e # vs] ! j) (bk + k) (bs[i := us @ e # vs] ! k)"
    if "j < length bs" "k < length bs" "j \<noteq> k" for j k
    using ringsD(2) [OF r that(2,1,3)] that b en [OF that(1)] en [OF that(2)]
    by (cases "j = i"; cases "k = i") (auto simp: rings_apart_def)
  moreover have "dlist_rep (dl_put (bk + i) us e vs s) (bk + j) (bs[i := us @ e # vs] ! j)"
    if "j < length bs" for j
    using new old that by (cases "j = i") auto
  ultimately show ?thesis unfolding rings_def by simp
qed

lemma rings_cut:
  assumes r: "rings s bk bs" and i: "i < length bs" and b: "bs ! i = us @ x # vs"
  shows "rings (dl_cut (bk + i) us vs s) bk (bs[i := us @ vs])"
proof -
  have ri: "dlist_rep s (bk + i) (us @ x # vs)" using ringsD(1) [OF r i] b by simp
  have new: "dlist_rep (dl_cut (bk + i) us vs s) (bk + i) (us @ vs)" by (rule dlist_rep_cut [OF ri])
  have old: "dlist_rep (dl_cut (bk + i) us vs s) (bk + j) (bs ! j)" if "j < length bs" "j \<noteq> i" for j
    using dl_cut_frame [OF ringsD(1) [OF r that(1)]] ringsD(2) [OF r i that] b by simp
  have "rings_apart (bk + j) (bs[i := us @ vs] ! j) (bk + k) (bs[i := us @ vs] ! k)"
    if "j < length bs" "k < length bs" "j \<noteq> k" for j k
    using ringsD(2) [OF r that(2,1,3)] that b by (cases "j = i"; cases "k = i") (auto simp: rings_apart_def)
  moreover have "dlist_rep (dl_cut (bk + i) us vs s) (bk + j) (bs[i := us @ vs] ! j)" if "j < length bs" for j
    using new old that by (cases "j = i") auto
  ultimately show ?thesis unfolding rings_def by simp
qed

lemma nodes_put:
  "i < length bs \<Longrightarrow> bs ! i = us @ vs \<Longrightarrow> nodes bk (bs[i := us @ e # vs]) = insert e (nodes bk bs)"
  using arg_cong [OF mset_concat_put [of i bs us vs e], of set_mset]
  by (simp add: nodes_def del: set_concat)

lemma dom_put:
  assumes "dlist_rep s l (us @ vs)" and "is_dlink s e"
  shows "dom (dl_next (dl_put l us e vs s)) = dom (dl_next s)"
    and "dom (dl_prev (dl_put l us e vs s)) = dom (dl_prev s)"
  using ring_ends [OF assms(1)] assms(2) by (auto simp: dl_put_def is_dlink_def)

lemma dom_cut:
  assumes "dlist_rep s l (us @ x # vs)"
  shows "dom (dl_next (dl_cut l us vs s)) = dom (dl_next s)"
    and "dom (dl_prev (dl_cut l us vs s)) = dom (dl_prev s)"
  using ring_ends(1) [of s l us "x # vs"] ring_ends(2) [of s l "us @ [x]" vs] assms by (auto simp: dl_cut_def)

subsection \<open>Callbacks\<close>

text \<open>What the table asks of its callbacks: the hash of an element depends on its key and
  is below the number of buckets; two elements compare equal iff their keys are equal. They
  do not change the memory.\<close>

definition hash_by :: "(nat \<Rightarrow> 'k \<Rightarrow> nat) \<Rightarrow> (addr \<Rightarrow> 'k) \<Rightarrow> 's hash_ptr" where
  "hash_by h key = Some (\<lambda>n e. ret (int (h (nat n) (key e))))"

definition cmp_by :: "(addr \<Rightarrow> 'k) \<Rightarrow> 's cmp_ptr" where
  "cmp_by key = Some (\<lambda>x y. ret (if key x = key y then 0 else 1))"

lemma hash_by_run: "call_fn (hash_by h key) n e s = Ret (int (h (nat n) (key e))) s"
  by (simp add: hash_by_def ret_def)

lemma cmp_by_run: "call_fn (cmp_by key) x y s = Ret (if key x = key y then 0 else 1) s"
  by (simp add: cmp_by_def ret_def)

text \<open>A function that hashes the elements \<open>A\<close> by their key into \<open>n\<close> buckets, in every memory that
  agrees with \<open>v\<close> beside the links.\<close>

definition hashes ::
  "'z dlist_mem_scheme hash_ptr \<Rightarrow> nat \<Rightarrow> (nat \<Rightarrow> 'k \<Rightarrow> nat) \<Rightarrow> (addr \<Rightarrow> 'k) \<Rightarrow> addr set \<Rightarrow> 'z \<Rightarrow> bool" where
  "hashes fn n h key A v \<longleftrightarrow>
     (\<forall>e \<in> A. \<forall>s. dlist_mem.more s = v \<longrightarrow> call_fn fn (int n) e s = Ret (int (h n (key e))) s)"

lemma hashes_by: "hashes (hash_by h key) n h key A v"
  by (simp add: hashes_def hash_by_run)

lemma hashes_sub: "hashes fn n h key A v \<Longrightarrow> B \<subseteq> A \<Longrightarrow> hashes fn n h key B v"
  by (auto simp: hashes_def)

lemma more_put [simp]: "dlist_mem.more (dl_put l us e vs s) = dlist_mem.more s" "dlist_mem.more (dl_cut l us vs s) = dlist_mem.more s"
  by (simp_all add: dl_put_def dl_cut_def)

subsection \<open>Insertion\<close>

definition bk_push :: "(nat \<Rightarrow> 'k \<Rightarrow> nat) \<Rightarrow> (addr \<Rightarrow> 'k) \<Rightarrow> addr list list \<Rightarrow> addr \<Rightarrow> addr list list" where
  "bk_push h key bs e = (let i = h (length bs) (key e) in bs[i := bs ! i @ [e]])"

lemma bk_push_props:
  assumes "good_hash h" and "bs \<noteq> []"
  shows "length (bk_push h key bs e) = length bs"
    and "mset (concat (bk_push h key bs e)) = add_mset e (mset (concat bs))"
    and "hashed h key bs \<Longrightarrow> hashed h key (bk_push h key bs e)"
    and "nodes bk (bk_push h key bs e) = insert e (nodes bk bs)"
    and "bk_push h key bs e \<noteq> []"
proof -
  let ?i = "h (length bs) (key e)"
  have i: "?i < length bs" using assms by (simp add: good_hash_def)
  show "length (bk_push h key bs e) = length bs" by (simp add: bk_push_def Let_def)
  show "bk_push h key bs e \<noteq> []" using assms(2) by (simp add: bk_push_def Let_def)
  show "mset (concat (bk_push h key bs e)) = add_mset e (mset (concat bs))"
    using mset_concat_put [OF i, of "bs ! ?i" "[]" e] by (simp add: bk_push_def Let_def)
  show "hashed h key bs \<Longrightarrow> hashed h key (bk_push h key bs e)"
    using hashed_put [of h key bs ?i "bs ! ?i" "[]" e] i by (simp add: bk_push_def Let_def)
  show "nodes bk (bk_push h key bs e) = insert e (nodes bk bs)"
    using nodes_put [OF i, of "bs ! ?i" "[]" bk e] by (simp add: bk_push_def Let_def)
qed

lemma dhash_insert_elm_run:
  assumes r: "rings s (dh_bucket t) bs" "dh_bk_size t = int (length bs)" "bs \<noteq> []"
    and h: "good_hash h" and e: "is_dlink s e" "e \<notin> nodes (dh_bucket t) bs"
    and fn: "hashes fn (length bs) h key {e} (dlist_mem.more s)"
  shows "\<exists>s'. dhash_insert_elm t e fn s =
      Ret (int (h (length bs) (key e)), t\<lparr>dh_elm_cnt := dh_elm_cnt t + 1\<rparr>) s'
    \<and> rings s' (dh_bucket t) (bk_push h key bs e)
    \<and> dom (dl_next s') = dom (dl_next s) \<and> dom (dl_prev s') = dom (dl_prev s) \<and> dlist_mem.more s' = dlist_mem.more s
    \<and> (\<forall>p. p \<notin> insert e (nodes (dh_bucket t) bs) \<longrightarrow> dl_next s' p = dl_next s p \<and> dl_prev s' p = dl_prev s p)"
proof -
  let ?i = "h (length bs) (key e)" and ?b = "dh_bucket t"
  have i: "?i < length bs" using r(3) h by (simp add: good_hash_def)
  have ri: "dlist_rep s (?b + ?i) (bs ! ?i)" by (rule ringsD(1) [OF r(1) i])
  have en: "e \<notin> set ((?b + ?i) # bs ! ?i)" using e(2) rings_apart_in [OF i] by blast
  let ?s = "dl_put (?b + ?i) (bs ! ?i) e [] s"
  have "rings ?s ?b (bk_push h key bs e)"
    using rings_put [OF r(1) i, of "bs ! ?i" "[]" e] e by (simp add: bk_push_def Let_def)
  moreover have "before (?b + ?i) (bs ! ?i) \<in> nodes ?b bs" "after (?b + ?i) [] \<in> nodes ?b bs"
    using before_in rings_apart_in [OF i] i by (auto simp: nodes_def)
  then have "\<forall>p. p \<notin> insert e (nodes ?b bs) \<longrightarrow> dl_next ?s p = dl_next s p \<and> dl_prev ?s p = dl_prev s p"
    by (auto simp: dl_put_def)
  moreover have "dhash_insert_elm t e fn s = Ret (int ?i, t\<lparr>dh_elm_cnt := dh_elm_cnt t + 1\<rparr>) ?s"
    using i r(2) dlist_add_back_run [OF ri e(1) en] fn
    by (simp add: dhash_insert_elm_def c_eval hashes_def)
  ultimately show ?thesis using dom_put [of s "?b + ?i" "bs ! ?i" "[]" e] ri e(1) by auto
qed

subsection \<open>Iteration\<close>

text \<open>Where an iterator stands that looks for the first element of the buckets from \<open>a\<close> on.\<close>

fun scan_pos :: "addr \<Rightarrow> addr list list \<Rightarrow> dhash_iter" where
  "scan_pos a [] = \<lparr>dh_curr = NULL, dh_iter = NULL\<rparr>"
| "scan_pos a (b # bs) = (if b = [] then scan_pos (a + 1) bs else \<lparr>dh_curr = a, dh_iter = hd b\<rparr>)"

lemma scan_pos_skip: "scan_pos a (replicate k [] @ bs) = scan_pos (a + k) bs"
  by (induction k arbitrary: a) simp_all

lemma first_bucket:
  "concat bs \<noteq> [] \<Longrightarrow> \<exists>k x xs rest. bs = replicate k [] @ (x # xs) # rest"
proof (induction bs)
  case Nil
  then show ?case by simp
next
  case (Cons b bs)
  show ?case
  proof (cases b)
    case Nil
    with Cons obtain k x xs rest where "bs = replicate k [] @ (x # xs) # rest" by auto
    with Nil show ?thesis by (intro exI [of _ "Suc k"]) auto
  next
    case (Cons x xs)
    then show ?thesis by (intro exI [of _ 0]) auto
  qed
qed

lemma scan_pos_end: "concat bs = [] \<Longrightarrow> scan_pos a bs = \<lparr>dh_curr = NULL, dh_iter = NULL\<rparr>"
  by (induction bs arbitrary: a) auto

lemma dhash_iter_scan_run:
  assumes "\<And>i. i < length bs \<Longrightarrow> dlist_rep s (a + i) (bs ! i)"
  shows "dhash_iter_scan (a + length bs) a s = Ret (scan_pos a bs) s"
  using assms
proof (induction bs arbitrary: a)
  case Nil
  then show ?case by (subst dhash_iter_scan.simps) (simp add: c_eval)
next
  case (Cons b bs)
  have r: "dlist_rep s a b" using Cons.prems [of 0] by simp
  have "dlist_rep s (a + 1 + i) (bs ! i)" if "i < length bs" for i
    using Cons.prems [of "Suc i"] that by simp
  then have ih: "dhash_iter_scan (a + 1 + length bs) (a + 1) s = Ret (scan_pos (a + 1) bs) s"
    by (rule Cons.IH)
  have nx: "dl_next s a = Some (after a b)" by (rule ring_head [OF r])
  then show ?case
    using ih dlist_empty_run [OF r]
    by (subst dhash_iter_scan.simps) (cases b; simp add: c_eval dlist_iter_init_def)
qed

lemma scan_from:
  assumes "rings s bk bs" and "j \<le> length bs"
  shows "dhash_iter_scan (bk + length bs) (bk + j) s = Ret (scan_pos (bk + j) (drop j bs)) s"
proof -
  have "dlist_rep s (bk + j + i) (drop j bs ! i)" if "i < length (drop j bs)" for i
    using ringsD(1) [OF assms(1), of "j + i"] that by (simp add: add.assoc)
  from dhash_iter_scan_run [OF this] assms(2) show ?thesis by simp
qed

lemma dhash_iter_init_run:
  assumes r: "rings s (dh_bucket t) bs" "dh_bk_size t = int (length bs)" "bs \<noteq> []"
  shows "dhash_iter_init (Some t) s = Ret (scan_pos (dh_bucket t) bs) s"
proof -
  obtain b bs' where bs: "bs = b # bs'" using r(3) by (cases bs) auto
  have rb: "dlist_rep s (dh_bucket t) b" using ringsD(1) [OF r(1), of 0] bs by simp
  have nz: "dh_bucket t \<noteq> NULL" using rb by (simp add: dlist_rep_def)
  have nx: "dl_next s (dh_bucket t) = Some (after (dh_bucket t) b)" by (rule ring_head [OF rb])
  have sc: "dhash_iter_scan (dh_bucket t + length bs) (dh_bucket t + 1) s = Ret (scan_pos (dh_bucket t + 1) bs') s"
    using scan_from [OF r(1), of 1] bs by simp
  have ne: "b = x # xs \<Longrightarrow> x \<noteq> dh_bucket t" for x xs using rb by (auto simp: dlist_rep_def)
  show ?thesis
    using nz nx sc r(2) ne bs
    by (cases b) (auto simp: dhash_iter_init_def dlist_iter_init_def dlist_iter_term_def
        dhash_iter_next_def dlist_iter_next_def c_eval nat_add_distrib)
qed

text \<open>Removing the element the iterator stands on when no bucket before it holds anything:
  the iterator falls back to the bucket before (or to the head of the first bucket), and
  \<open>dhash_iter_next\<close> leads from there to the next remaining element.\<close>

definition back_pos :: "addr \<Rightarrow> nat \<Rightarrow> dhash_iter" where
  "back_pos bk k = \<lparr>dh_curr = bk + (k - 1), dh_iter = bk + (k - 1)\<rparr>"

lemma nth_empty_before: "i < k \<Longrightarrow> (replicate k [] @ bs) ! i = []"
  by (simp add: nth_append)

lemma dhash_iter_rm_first:
  assumes r: "rings s (dh_bucket t) bs" and bs: "bs = replicate k [] @ (x # xs) # rest"
  shows "dhash_iter_rm_curr t \<lparr>dh_curr = dh_bucket t + k, dh_iter = x\<rparr> s =
      Ret (x, back_pos (dh_bucket t) k, t\<lparr>dh_elm_cnt := dh_elm_cnt t - 1\<rparr>) (dl_cut (dh_bucket t + k) [] xs s)"
    and "rings (dl_cut (dh_bucket t + k) [] xs s) (dh_bucket t) (replicate k [] @ xs # rest)"
proof -
  let ?b = "dh_bucket t" and ?s = "dl_cut (dh_bucket t + k) [] xs s"
  have k: "k < length bs" "bs ! k = [] @ x # xs" using bs by (auto simp: nth_append)
  have rk: "dlist_rep s (?b + k) ([] @ x # xs)" using ringsD(1) [OF r k(1)] k(2) by simp
  have "bs[k := [] @ xs] = replicate k [] @ xs # rest" using bs by (simp add: list_update_append)
  then show r': "rings ?s ?b (replicate k [] @ xs # rest)" using rings_cut [OF r k] by simp
  have x: "x \<noteq> NULL" using ring_cell [OF rk, of x] by simp
  have pv: "dl_prev s x = Some (?b + k)" using ring_ends(2) [OF rk] by simp
  have bk1: "dl_next ?s (?b + (k - 1)) = Some (?b + (k - 1))" if "0 < k"
  proof -
    have "(replicate k [] @ xs # rest) ! (k - 1) = []" using that by (intro nth_empty_before) simp
    then show ?thesis
      using that ringsD(1) [OF r', of "k - 1"] ring_head(1) [of ?s "?b + (k - 1)" "[]"] by simp
  qed
  show "dhash_iter_rm_curr t \<lparr>dh_curr = ?b + k, dh_iter = x\<rparr> s =
      Ret (x, back_pos ?b k, t\<lparr>dh_elm_cnt := dh_elm_cnt t - 1\<rparr>) ?s"
  proof (cases "k = 0")
    case True
    then show ?thesis using x pv dlist_rm_run [OF rk]
      by (simp add: dhash_iter_rm_curr_def dlist_iter_prev_def dhash_takeout_elm_def
          dlist_iter_term_def back_pos_def c_eval)
  next
    case False
    then have "?b + k - 1 = ?b + (k - 1)" by simp
    then show ?thesis using False x pv dlist_rm_run [OF rk] bk1
      by (simp add: dhash_iter_rm_curr_def dlist_iter_prev_def dhash_takeout_elm_def Let_def
          dlist_iter_term_def dlist_iter_init_def back_pos_def c_eval)
  qed
qed

lemma dhash_iter_next_back:
  assumes r: "rings s (dh_bucket t) (replicate k [] @ bs)" and sz: "dh_bk_size t = int (k + length bs)"
    and ne: "bs \<noteq> []"
  shows "dhash_iter_next t (back_pos (dh_bucket t) k) s = Ret (scan_pos (dh_bucket t) (replicate k [] @ bs)) s"
proof -
  let ?b = "dh_bucket t" and ?bs = "replicate k [] @ bs"
  have l: "nat (dh_bk_size t) = k + length bs" using sz by simp
  have r0: "dlist_rep s ?b (?bs ! 0)" using ringsD(1) [OF r, of 0] ne by simp
  have nz: "?b \<noteq> NULL" using r0 by (simp add: dlist_rep_def)
  have nx: "dl_next s ?b = Some (after ?b (?bs ! 0))" by (rule ring_head [OF r0])
  have sc: "dhash_iter_scan (?b + (k + length bs)) (?b + j) s = Ret (scan_pos (?b + j) (drop j ?bs)) s"
    if "j \<le> k + length bs" for j using scan_from [OF r, of j] that by simp
  show ?thesis
  proof (cases "k = 0")
    case True
    obtain b bs' where bs: "bs = b # bs'" using ne by (cases bs) auto
    have "b = x # xs \<Longrightarrow> x \<noteq> ?b" for x xs using r0 True bs by (auto simp: dlist_rep_def)
    then show ?thesis using True nz nx sc [of 1] l bs
      by (cases b) (auto simp: dhash_iter_next_def back_pos_def dlist_iter_term_def dlist_iter_next_def c_eval)
  next
    case False
    then have "?bs ! 0 = []" by (intro nth_empty_before) simp
    then have nx': "dl_next s ?b = Some ?b" using nx by simp
    have "?b + (k - 1) + 1 = ?b + k" using False by simp
    moreover have "?b + (k - 1) = ?b \<longleftrightarrow> k = 1" using False by auto
    ultimately show ?thesis using False nz nx' sc [of k] l scan_pos_skip [of ?b k bs]
      by (auto simp: dhash_iter_next_def back_pos_def dlist_iter_term_def dlist_iter_next_def c_eval)
  qed
qed

lemma rings_cut_fresh:
  assumes r: "rings s bk bs" and i: "i < length bs" and b: "bs ! i = us @ x # vs"
  shows "x \<notin> nodes bk (bs[i := us @ vs])"
proof
  assume x: "x \<in> nodes bk (bs[i := us @ vs])"
  have di: "distinct ((bk + i) # us @ x # vs)" using ringsD(1) [OF r i] b by (simp add: dlist_rep_def)
  have "x \<notin> set ((bk + j) # bs[i := us @ vs] ! j)" if "j < length bs" for j
    using ringsD(2) [OF r i that] di b that by (cases "j = i") (auto simp: rings_apart_def)
  moreover have "\<exists>j < length bs. x \<in> set ((bk + j) # bs[i := us @ vs] ! j)"
    using x unfolding nodes_def
    by (auto simp: in_set_conv_nth arr_mem) (metis le_add_diff_inverse nat_add_left_cancel_less, metis length_list_update)
  ultimately show False by blast
qed

lemma rings_cut_other:
  assumes r: "rings s bk bs" and i: "i < length bs" and b: "bs ! i = us @ x # vs"
    and o: "rings s c os" and d: "nodes bk bs \<inter> nodes c os = {}"
  shows "rings (dl_cut (bk + i) us vs s) c os"
proof -
  have "before (bk + i) us \<in> nodes bk bs" "after (bk + i) vs \<in> nodes bk bs"
    using rings_apart_in [OF i, of _ bk] before_in [of "bk + i" us] after_in [of "bk + i" vs] b by auto
  then show ?thesis using o d by (subst rings_cong [where s = s]) (auto simp: dl_cut_def)
qed

subsection \<open>Rehashing\<close>

text \<open>Source and target of a rehash: two tables with nothing in common.\<close>

definition rehash_inv ::
  "(nat \<Rightarrow> 'k \<Rightarrow> nat) \<Rightarrow> (addr \<Rightarrow> 'k) \<Rightarrow> 'z dlist_mem_scheme dhash \<Rightarrow> addr list list
   \<Rightarrow> 'z dlist_mem_scheme dhash \<Rightarrow> addr list list \<Rightarrow> 'z dlist_mem_scheme \<Rightarrow> bool" where
  "rehash_inv h key t bs u os s \<longleftrightarrow>
     rings s (dh_bucket t) bs \<and> dh_bk_size t = int (length bs) \<and> bs \<noteq> []
   \<and> hashes (dh_hash_fn t) (length os) h key (set (concat bs)) (dlist_mem.more s)
   \<and> rings s (dh_bucket u) os \<and> dh_bk_size u = int (length os) \<and> os \<noteq> []
   \<and> nodes (dh_bucket t) bs \<inter> nodes (dh_bucket u) os = {} \<and> hashed h key os"

lemma dhash_rehash_step:
  assumes I: "rehash_inv h key t bs u os s" and h: "good_hash h" and bs: "bs = replicate k [] @ (x # xs) # rest"
  shows "\<exists>s' bs' os'. dhash_rehash_loop t u (scan_pos (dh_bucket t) bs) n s =
      dhash_rehash_loop (t\<lparr>dh_elm_cnt := dh_elm_cnt t - 1\<rparr>) (u\<lparr>dh_elm_cnt := 1\<rparr>) (scan_pos (dh_bucket t) bs') (n + 1) s'
    \<and> rehash_inv h key (t\<lparr>dh_elm_cnt := dh_elm_cnt t - 1\<rparr>) bs' (u\<lparr>dh_elm_cnt := 1\<rparr>) os' s'
    \<and> mset (concat bs) = add_mset x (mset (concat bs')) \<and> mset (concat os') = add_mset x (mset (concat os))
    \<and> length os' = length os
    \<and> dom (dl_next s') = dom (dl_next s) \<and> dom (dl_prev s') = dom (dl_prev s) \<and> dlist_mem.more s' = dlist_mem.more s"
proof -
  let ?b = "dh_bucket t" and ?c = "dh_bucket u" and ?t = "t\<lparr>dh_elm_cnt := dh_elm_cnt t - 1\<rparr>"
  note I' = I [unfolded rehash_inv_def]
  define bs' where "bs' = replicate k [] @ xs # rest"
  define s1 where "s1 = dl_cut (?b + k) [] xs s"
  have k: "k < length bs" "bs ! k = [] @ x # xs" "bs' = bs[k := [] @ xs]"
    using bs by (auto simp: nth_append list_update_append bs'_def)
  have rk: "dlist_rep s (?b + k) ([] @ x # xs)" using ringsD(1) [of s ?b bs k] I' k by simp
  have rm: "dhash_iter_rm_curr t \<lparr>dh_curr = ?b + k, dh_iter = x\<rparr> s = Ret (x, back_pos ?b k, ?t) s1"
    and r1: "rings s1 ?b bs'"
    using dhash_iter_rm_first [of s t bs k x xs rest] I' bs by (simp_all add: bs'_def s1_def)
  have ms: "mset (concat bs) = add_mset x (mset (concat bs'))" using mset_concat_cut [OF k(1,2)] k(3) by simp
  have nd: "nodes ?b bs = insert x (nodes ?b bs')"
    using arg_cong [OF ms, of set_mset] k(3) by (simp add: nodes_def del: set_concat)
  have d1: "dom (dl_next s1) = dom (dl_next s)" "dom (dl_prev s1) = dom (dl_prev s)"
    using dom_cut [OF rk] by (auto simp: s1_def)
  have x: "x \<noteq> NULL" "is_dlink s1 x" using ring_cell [OF rk, of x] d1 by (auto simp: is_dlink_def)
  have xn: "x \<notin> nodes ?b bs'" using rings_cut_fresh [of s ?b bs k "[]" x xs] I' k by simp
  have xu: "x \<notin> nodes ?c os" "nodes ?b bs' \<inter> nodes ?c os = {}" using I' nd by auto
  have ru: "rings s1 ?c os"
    using rings_cut_other [of s ?b bs k "[]" x xs ?c os] I' k by (simp add: s1_def)
  note os1 = bk_push_props [OF h, where bs = os and key = key and e = x]
  let ?os = "bk_push h key os x"
  let ?u = "u\<lparr>dh_elm_cnt := 0\<rparr>"
  have u: "rings s1 (dh_bucket ?u) os" "dh_bk_size ?u = int (length os)" "os \<noteq> []" "x \<notin> nodes (dh_bucket ?u) os"
    using ru I' xu(1) by simp_all
  have m1: "dlist_mem.more s1 = dlist_mem.more s" by (simp add: s1_def)
  have xb: "x \<in> set (concat bs)" "set (concat bs') \<subseteq> set (concat bs)"
    using arg_cong [OF ms, of set_mset] by (simp_all del: set_concat) auto
  have fn: "hashes (dh_hash_fn t) (length os) h key {x} (dlist_mem.more s1)"
    using I' xb(1) m1 by (auto simp: hashes_def)
  obtain s2 where s2': "dhash_insert_elm ?u x (dh_hash_fn t) s1 =
        Ret (int (h (length os) (key x)), ?u\<lparr>dh_elm_cnt := dh_elm_cnt ?u + 1\<rparr>) s2
      \<and> rings s2 (dh_bucket ?u) ?os \<and> dom (dl_next s2) = dom (dl_next s1) \<and> dom (dl_prev s2) = dom (dl_prev s1) \<and> dlist_mem.more s2 = dlist_mem.more s1
      \<and> (\<forall>p. p \<notin> insert x (nodes (dh_bucket ?u) os) \<longrightarrow> dl_next s2 p = dl_next s1 p \<and> dl_prev s2 p = dl_prev s1 p)"
    using dhash_insert_elm_run [OF u(1-3) h x(2) u(4) fn] by blast
  have eq: "?u\<lparr>dh_elm_cnt := dh_elm_cnt ?u + 1\<rparr> = u\<lparr>dh_elm_cnt := 1\<rparr>" "dh_bucket ?u = ?c" by simp_all
  from s2' [unfolded eq] have s2: "dhash_insert_elm ?u x (dh_hash_fn t) s1 =
        Ret (int (h (length os) (key x)), u\<lparr>dh_elm_cnt := 1\<rparr>) s2"
      "rings s2 ?c ?os" "dom (dl_next s2) = dom (dl_next s1)" "dom (dl_prev s2) = dom (dl_prev s1)"
      "\<And>p. p \<notin> insert x (nodes ?c os) \<Longrightarrow> dl_next s2 p = dl_next s1 p \<and> dl_prev s2 p = dl_prev s1 p"
      "dlist_mem.more s2 = dlist_mem.more s"
    unfolding m1 by blast+
  have "dl_next s2 p = dl_next s1 p \<and> dl_prev s2 p = dl_prev s1 p" if "p \<in> nodes ?b bs'" for p
  proof (rule s2(5))
    show "p \<notin> insert x (nodes ?c os)" using that xn xu(2) by auto
  qed
  then have r2: "rings s2 ?b bs'" using r1 rings_cong [of ?b bs' s2 s1] by simp
  have nx: "dhash_iter_next ?t (back_pos ?b k) s2 = Ret (scan_pos ?b bs') s2"
    using dhash_iter_next_back [of s2 ?t k "xs # rest"] r2 I' bs by (simp add: bs'_def)
  have lb: "length bs' = length bs" "bs' \<noteq> []" by (simp_all add: bs bs'_def)
  have fn': "hashes (dh_hash_fn t) (length os) h key (set (concat bs')) (dlist_mem.more s)"
    by (rule hashes_sub [OF conjunct1 [OF conjunct2 [OF conjunct2 [OF conjunct2 [OF I']]]] xb(2)])
  have "dhash_rehash_loop t u (scan_pos ?b bs) n s =
      dhash_rehash_loop ?t (u\<lparr>dh_elm_cnt := 1\<rparr>) (scan_pos ?b bs') (n + 1) s2"
    using bs rm s2(1) nx x(1) I' ring_cell(1) [OF rk, of "?b + k"]
    by (subst dhash_rehash_loop.simps) (auto simp: scan_pos_skip dhash_iter_term_def c_eval)
  moreover have "rehash_inv h key ?t bs' (u\<lparr>dh_elm_cnt := 1\<rparr>) ?os s2"
    unfolding rehash_inv_def using fn' r2 s2(2,6) I' os1 xu(2) xn lb by (simp del: set_concat)
  moreover have "mset (concat ?os) = add_mset x (mset (concat os))" "length ?os = length os"
    using os1(1,2) I' by auto
  ultimately show ?thesis using ms s2(3,4,6) d1 by metis
qed

lemma dhash_rehash_loop_run:
  assumes "rehash_inv h key t bs u os s" and "good_hash h"
  shows "\<exists>s' os' c d. dhash_rehash_loop t u (scan_pos (dh_bucket t) bs) n s =
        Ret (t\<lparr>dh_elm_cnt := c\<rparr>, u\<lparr>dh_elm_cnt := d\<rparr>, n + int (length (concat bs))) s'
    \<and> rings s' (dh_bucket u) os' \<and> length os' = length os \<and> hashed h key os'
    \<and> mset (concat os') = mset (concat bs) + mset (concat os)
    \<and> dom (dl_next s') = dom (dl_next s) \<and> dom (dl_prev s') = dom (dl_prev s) \<and> dlist_mem.more s' = dlist_mem.more s"
  using assms
proof (induction "length (concat bs)" arbitrary: s t u bs os n)
  case 0
  then have e: "concat bs = []" by simp
  have "dhash_rehash_loop t u (scan_pos (dh_bucket t) bs) n s = Ret (t, u, n) s"
    unfolding scan_pos_end [OF e] by (subst dhash_rehash_loop.simps) (simp add: dhash_iter_term_def c_eval)
  then show ?case using 0 e
    by (intro exI [of _ s] exI [of _ os] exI [of _ "dh_elm_cnt t"] exI [of _ "dh_elm_cnt u"]) (simp add: rehash_inv_def)
next
  case (Suc m)
  let ?t = "t\<lparr>dh_elm_cnt := dh_elm_cnt t - 1\<rparr>" and ?u = "u\<lparr>dh_elm_cnt := 1\<rparr>"
  have "concat bs \<noteq> []" using Suc(2) by (metis length_0_conv nat.distinct(1))
  then obtain k x xs rest where bs: "bs = replicate k [] @ (x # xs) # rest" using first_bucket by metis
  obtain s1 bs1 os1 where s1: "dhash_rehash_loop t u (scan_pos (dh_bucket t) bs) n s =
        dhash_rehash_loop ?t ?u (scan_pos (dh_bucket t) bs1) (n + 1) s1"
      "rehash_inv h key ?t bs1 ?u os1 s1" "mset (concat bs) = add_mset x (mset (concat bs1))"
      "mset (concat os1) = add_mset x (mset (concat os))" "length os1 = length os"
      "dom (dl_next s1) = dom (dl_next s)" "dom (dl_prev s1) = dom (dl_prev s)" "dlist_mem.more s1 = dlist_mem.more s"
    using dhash_rehash_step [OF Suc(3,4) bs, of n] by blast
  have len: "length (concat bs) = Suc (length (concat bs1))"
    using arg_cong [OF s1(3), of size] by (simp only: size_mset size_add_mset)
  then have "m = length (concat bs1)" using Suc(2) by simp
  from Suc(1) [OF this s1(2) Suc(4), of "n + 1"] obtain s2 os2 c d where
      s2: "dhash_rehash_loop ?t ?u (scan_pos (dh_bucket t) bs1) (n + 1) s1 =
        Ret (t\<lparr>dh_elm_cnt := c\<rparr>, u\<lparr>dh_elm_cnt := d\<rparr>, n + 1 + int (length (concat bs1))) s2"
      "rings s2 (dh_bucket u) os2" "length os2 = length os1" "hashed h key os2"
      "mset (concat os2) = mset (concat bs1) + mset (concat os1)"
      "dom (dl_next s2) = dom (dl_next s1)" "dom (dl_prev s2) = dom (dl_prev s1)" "dlist_mem.more s2 = dlist_mem.more s1"
    by auto
  have "n + 1 + int (length (concat bs1)) = n + int (length (concat bs))" using len by simp
  then show ?case using s1 s2
    by (intro exI [of _ s2] exI [of _ os2] exI [of _ c] exI [of _ d]) (simp del: mset_concat)
qed

lemma rings_arr_apart:
  assumes "rings s bk bs"
  shows "arr bk (length bs) \<inter> set (concat bs) = {}"
proof -
  have "bk + i \<notin> set (bs ! j)" if "i < length bs" "j < length bs" for i j
    using ringsD(1) [OF assms that(1)] ringsD(2) [OF assms that(2), of i] that
    by (cases "i = j") (auto simp: dlist_rep_def rings_apart_def)
  then show ?thesis
    by (auto simp: in_set_conv_nth arr_mem) (metis le_add_diff_inverse nat_add_left_cancel_less)
qed

text \<open>Malloc succeeds and hands out cells nothing else uses.\<close>

definition fresh_alloc :: "'z dlist_mem_scheme alloc \<Rightarrow> bool" where
  "fresh_alloc alloc \<longleftrightarrow> (\<forall>s n. finite (dom (dl_next s)) \<longrightarrow>
     fst (alloc s n) \<noteq> NULL \<and> arr (fst (alloc s n)) n \<inter> dom (dl_next s) = {})"

lemma dlist_inits:
  assumes "\<And>p. p \<in> arr b n \<Longrightarrow> is_dlink s p"
  shows "\<exists>s'. forM [0..<n] (\<lambda>i. dlist_init (b + i)) s = Ret () s'
    \<and> (\<forall>p. dl_next s' p = (if p \<in> arr b n then Some p else dl_next s p)
         \<and> dl_prev s' p = (if p \<in> arr b n then Some p else dl_prev s p)) \<and> dlist_mem.more s' = dlist_mem.more s"
  using assms
proof (induction n)
  case 0
  have "arr b 0 = {}" by (simp add: arr_def)
  then show ?case by (simp add: c_eval)
next
  case (Suc n)
  have "\<And>p. p \<in> arr b n \<Longrightarrow> is_dlink s p" using Suc.prems by (simp add: arr_mem)
  then obtain s1 where s1: "forM [0..<n] (\<lambda>i. dlist_init (b + i)) s = Ret () s1"
      "\<forall>p. dl_next s1 p = (if p \<in> arr b n then Some p else dl_next s p)
         \<and> dl_prev s1 p = (if p \<in> arr b n then Some p else dl_prev s p)" "dlist_mem.more s1 = dlist_mem.more s"
    using Suc.IH by blast
  have "is_dlink s1 (b + n)" using Suc.prems [of "b + n"] s1(2) by (auto simp: is_dlink_def)
  from dlist_init_run [OF this] show ?case
    using s1 by (auto simp: forM_append seqM_ret c_eval less_Suc_eq arr_mem)
qed

lemma dhash_init_run:
  assumes f: "fresh_alloc alloc" "finite (dom (dl_next s))" and n: "0 < n"
  shows "\<exists>s' mp. dhash_init alloc (int n) hf cf s =
      Ret \<lparr>dh_bucket = mp, dh_bk_size = int n, dh_elm_cnt = 0, dh_max_chain = 0, dh_hash_fn = hf, dh_cmp_fn = cf\<rparr> s'
    \<and> rings s' mp (replicate n []) \<and> arr mp n \<inter> dom (dl_next s) = {}
    \<and> (\<forall>p. p \<notin> arr mp n \<longrightarrow> dl_next s' p = dl_next s p \<and> dl_prev s' p = dl_prev s p) \<and> dlist_mem.more s' = dlist_mem.more s"
proof -
  define mp where "mp = fst (alloc s n)"
  define s1 where "s1 = s\<lparr>dl_next := (\<lambda>p. if p \<in> arr mp n then Some (snd (alloc s n)) else dl_next s p),
                     dl_prev := (\<lambda>p. if p \<in> arr mp n then Some (snd (alloc s n)) else dl_prev s p)\<rparr>"
  have mp: "mp \<noteq> NULL" "arr mp n \<inter> dom (dl_next s) = {}"
    using f by (auto simp: fresh_alloc_def mp_def)
  have ml: "malloc_dlists alloc (int n) s = Ret mp s1"
    using mp(1) unfolding malloc_dlists_def Let_def nat_int mp_def [symmetric] s1_def by simp
  have "is_dlink s1 p" if "p \<in> arr mp n" for p using that mp(1) by (auto simp: is_dlink_def s1_def arr_mem)
  then obtain s2 where s2: "forM [0..<n] (\<lambda>i. dlist_init (mp + i)) s1 = Ret () s2"
      "\<forall>p. dl_next s2 p = (if p \<in> arr mp n then Some p else dl_next s1 p)
         \<and> dl_prev s2 p = (if p \<in> arr mp n then Some p else dl_prev s1 p)" "dlist_mem.more s2 = dlist_mem.more s1"
    using dlist_inits by blast
  have "dlist_mem.more s2 = dlist_mem.more s" using s2(3) by (simp add: s1_def)
  moreover have "rings s2 mp (replicate n [])"
    unfolding rings_def using s2(2) mp(1) by (auto simp: rings_apart_def intro: dlist_rep_init)
  moreover have "dl_next s2 p = dl_next s p \<and> dl_prev s2 p = dl_prev s p" if "p \<notin> arr mp n" for p
    using s2(2) that by (simp add: s1_def)
  ultimately show ?thesis
    using ml s2(1) mp(2) by (intro exI [of _ s2] exI [of _ mp]) (simp add: dhash_init_def c_eval)
qed

lemma nodes_empty [simp]: "nodes bk (replicate n []) = arr bk n"
  by (auto simp: nodes_def)

lemma rings_nodes_dom:
  assumes "rings s bk bs" and "p \<in> nodes bk bs"
  shows "is_dlink s p"
proof -
  have "\<exists>i < length bs. p \<in> set ((bk + i) # bs ! i)"
    using assms(2) unfolding nodes_def
    by (auto simp: in_set_conv_nth arr_mem) (metis le_add_diff_inverse nat_add_left_cancel_less, metis)
  then obtain i where "i < length bs" "p \<in> set ((bk + i) # bs ! i)" by blast
  then show ?thesis using ring_cell [OF ringsD(1) [OF assms(1)]] by (auto simp: is_dlink_def)
qed

definition dhash_rep ::
  "(nat \<Rightarrow> 'k \<Rightarrow> nat) \<Rightarrow> (addr \<Rightarrow> 'k) \<Rightarrow> 'z dlist_mem_scheme \<Rightarrow> 'z dlist_mem_scheme dhash \<Rightarrow> addr list list \<Rightarrow> bool" where
  "dhash_rep h key s t bs \<longleftrightarrow>
     rings s (dh_bucket t) bs \<and> dh_bk_size t = int (length bs) \<and> bs \<noteq> [] \<and> hashed h key bs
   \<and> dh_elm_cnt t = int (length (concat bs)) \<and> dh_hash_fn t = hash_by h key \<and> dh_cmp_fn t = cmp_by key
   \<and> good_hash h \<and> finite (dom (dl_next s))"

definition dhash_cell :: "'z dlist_mem_scheme \<Rightarrow> 'z dlist_mem_scheme dhash \<Rightarrow> addr \<Rightarrow> bool" where
  "dhash_cell s t p \<longleftrightarrow> is_dlink s p \<and> p \<notin> arr (dh_bucket t) (nat (dh_bk_size t))"

definition drop_cells :: "addr \<Rightarrow> nat \<Rightarrow> 'z dlist_mem_scheme \<Rightarrow> 'z dlist_mem_scheme" where
  "drop_cells b n s = s\<lparr>dl_next := (\<lambda>q. if q \<in> arr b n then None else dl_next s q),
                     dl_prev := (\<lambda>q. if q \<in> arr b n then None else dl_prev s q)\<rparr>"

lemma dom_drop [simp]:
  "dom (dl_next (drop_cells b n s)) = dom (dl_next s) - arr b n"
  "dom (dl_prev (drop_cells b n s)) = dom (dl_prev s) - arr b n"
  by (auto simp: drop_cells_def split: if_splits)

lemma rings_drop:
  assumes "rings s bk bs" and "arr b n \<inter> nodes bk bs = {}"
  shows "rings (drop_cells b n s) bk bs"
  using assms by (subst rings_cong [where s = s]) (auto simp: drop_cells_def)

lemma free_dlists_run:
  assumes "rings s bk bs" and "bs \<noteq> []" and "dom (dl_next s) \<subseteq> dom (dl_next s')" and "dom (dl_prev s) \<subseteq> dom (dl_prev s')"
  shows "free_dlists bk (int (length bs)) s' = Ret () (drop_cells bk (length bs) s')"
proof -
  have "arr bk (length bs) \<subseteq> dom (dl_next s')" "arr bk (length bs) \<subseteq> dom (dl_prev s')"
    using rings_nodes_dom [OF assms(1)] assms(3,4) unfolding nodes_def is_dlink_def by blast+
  moreover have "bk \<noteq> NULL" using ringsD(1) [OF assms(1), of 0] assms(2) by (auto simp: dlist_rep_def)
  ultimately show ?thesis by (simp add: free_dlists_def drop_cells_def)
qed

text \<open>Only the function the table is configured with matters for the new buckets, not how the
  elements were distributed before.\<close>

lemma dhash_rehash_gen:
  assumes R: "rings s (dh_bucket t) bs" "dh_bk_size t = int (length bs)" "bs \<noteq> []" "finite (dom (dl_next s))" and h: "good_hash h"
    and fn: "hashes (dh_hash_fn t) (2 * length bs + 1) h key (set (concat bs)) (dlist_mem.more s)" and al: "fresh_alloc alloc"
  shows "\<exists>s' mp bs'. dhash_rehash alloc t s =
        Ret (t\<lparr>dh_bucket := mp, dh_bk_size := int (length bs'), dh_elm_cnt := int (length (concat bs)), dh_max_chain := 0\<rparr>) s'
    \<and> rings s' mp bs' \<and> hashed h key bs' \<and> length bs' = 2 * length bs + 1 \<and> mset (concat bs') = mset (concat bs)
    \<and> finite (dom (dl_next s')) \<and> dlist_mem.more s' = dlist_mem.more s
    \<and> (\<forall>p. dhash_cell s t p \<longrightarrow> is_dlink s' p \<and> p \<notin> arr mp (length bs'))"
proof -
  define n where "n = length bs"
  define m where "m = 2 * n + 1"
  have m0: "0 < m" by (simp add: m_def)
  let ?b = "dh_bucket t" and ?t = "t\<lparr>dh_elm_cnt := 0\<rparr>"
  have r: "rings s ?b bs" "bs \<noteq> []" "finite (dom (dl_next s))" "good_hash h" and sz: "dh_bk_size t = int n"
    using R h by (auto simp: n_def)
  obtain s1 mp where s1: "dhash_init alloc (int m) None None s =
        Ret \<lparr>dh_bucket = mp, dh_bk_size = int m, dh_elm_cnt = 0, dh_max_chain = 0, dh_hash_fn = None, dh_cmp_fn = None\<rparr> s1"
      "rings s1 mp (replicate m [])" "arr mp m \<inter> dom (dl_next s) = {}"
      "\<And>p. p \<notin> arr mp m \<Longrightarrow> dl_next s1 p = dl_next s p \<and> dl_prev s1 p = dl_prev s p" "dlist_mem.more s1 = dlist_mem.more s"
    using dhash_init_run [OF al r(3) m0, of None None] by blast
  define u where "u = \<lparr>dh_bucket = mp, dh_bk_size = int m, dh_elm_cnt = 0, dh_max_chain = 0,
    dh_hash_fn = None :: 'a dlist_mem_scheme hash_ptr, dh_cmp_fn = None :: 'a dlist_mem_scheme cmp_ptr\<rparr>"
  have nd: "p \<in> nodes ?b bs \<Longrightarrow> p \<notin> arr mp m" for p
    using rings_nodes_dom [OF r(1)] s1(3) by (auto simp: is_dlink_def)
  have r1: "rings s1 ?b bs" using r(1) s1(4) nd rings_cong [of ?b bs s1 s] by blast
  have "hashes (dh_hash_fn t) m h key (set (concat bs)) (dlist_mem.more s)" using fn by (simp only: m_def n_def)
  then have inv: "rehash_inv h key ?t bs u (replicate m []) s1"
    using r1 R s1(2,5) nd m0 by (auto simp: rehash_inv_def u_def hashed_def simp del: set_concat)
  have it: "dhash_iter_init (Some ?t) s1 = Ret (scan_pos (dh_bucket ?t) bs) s1"
    using dhash_iter_init_run [of s1 ?t bs] r1 R by simp
  obtain s2 os c d where s2: "dhash_rehash_loop ?t u (scan_pos (dh_bucket ?t) bs) 0 s1 =
        Ret (?t\<lparr>dh_elm_cnt := c\<rparr>, u\<lparr>dh_elm_cnt := d\<rparr>, int (length (concat bs))) s2"
      "rings s2 mp os" "length os = m" "hashed h key os" "mset (concat os) = mset (concat bs)"
      "dom (dl_next s2) = dom (dl_next s1)" "dom (dl_prev s2) = dom (dl_prev s1)" "dlist_mem.more s2 = dlist_mem.more s1"
    using dhash_rehash_loop_run [OF inv r(4), of 0] by (auto simp: u_def)
  define s3 where "s3 = drop_cells ?b n s2"
  have out: "arr ?b n \<inter> nodes mp os = {}" "arr mp m \<inter> arr ?b n = {}"
  proof -
    have "set (concat os) = set (concat bs)" using arg_cong [OF s2(5), of set_mset] by (simp del: set_concat mset_concat)
    then have "nodes mp os = arr mp m \<union> set (concat bs)" using s2(3) by (simp add: nodes_def del: set_concat)
    moreover have "arr ?b n \<subseteq> nodes ?b bs" by (auto simp: nodes_def n_def)
    moreover have "arr ?b n \<inter> set (concat bs) = {}" by (rule rings_arr_apart [OF r(1), folded n_def])
    ultimately show "arr ?b n \<inter> nodes mp os = {}" "arr mp m \<inter> arr ?b n = {}" using nd by blast+
  qed
  have fr: "free_dlists ?b (int n) s2 = Ret () s3"
    using free_dlists_run [OF r1 r(2), of s2] s2(6,7) by (simp add: s3_def n_def)
  let ?t' = "t\<lparr>dh_bucket := mp, dh_bk_size := int m, dh_elm_cnt := int (length (concat bs)), dh_max_chain := 0\<rparr>"
  have "1 + dh_bk_size t * 2 = int m" using sz by (simp add: m_def)
  then have run: "dhash_rehash alloc t s = Ret ?t' s3"
    using s1(1) it s2(1) fr sz unfolding dhash_rehash_def Let_def
    by (simp add: c_eval u_def [symmetric]) (simp add: u_def)
  have "rings s3 mp os" unfolding s3_def by (rule rings_drop [OF s2(2) out(1)])
  moreover have "length (concat os) = length (concat bs)" using s2(5) by (rule mset_eq_length)
  moreover have "dom (dl_next s1) \<subseteq> dom (dl_next s) \<union> arr mp m" using s1(4) by (auto simp: domIff)
  then have "finite (dom (dl_next s3))"
    using r(3) s2(6) by (auto simp: s3_def arr_def intro: finite_subset)
  moreover have "is_dlink s3 p \<and> p \<notin> arr mp m" if "dhash_cell s t p" for p
  proof -
    have "p \<notin> arr mp m" using that s1(3) by (auto simp: dhash_cell_def is_dlink_def)
    moreover have "p \<in> dom (dl_next s1)" "p \<in> dom (dl_prev s1)"
      using that s1(4) [OF \<open>p \<notin> arr mp m\<close>] by (auto simp: dhash_cell_def is_dlink_def)
    ultimately show ?thesis
      using that s2(6,7) sz by (simp add: dhash_cell_def is_dlink_def s3_def)
  qed
  moreover have "dlist_mem.more s3 = dlist_mem.more s" using s1(5) s2(8) by (simp add: s3_def drop_cells_def)
  ultimately show ?thesis
    using run s2(3-5) by (intro exI [of _ s3] exI [of _ mp] exI [of _ os]) (simp add: m_def n_def)
qed

lemma dhash_rehash_run:
  assumes rep: "dhash_rep h key s t bs" and al: "fresh_alloc alloc"
  shows "\<exists>s' t' bs'. dhash_rehash alloc t s = Ret t' s' \<and> dhash_rep h key s' t' bs'
    \<and> length bs' = 2 * length bs + 1 \<and> mset (concat bs') = mset (concat bs)
    \<and> (\<forall>p. dhash_cell s t p \<longrightarrow> dhash_cell s' t' p)"
proof -
  note R = rep [unfolded dhash_rep_def]
  have fn: "hashes (dh_hash_fn t) (2 * length bs + 1) h key (set (concat bs)) (dlist_mem.more s)" using R by (simp only: hashes_by)
  obtain s' mp bs' where s': "dhash_rehash alloc t s =
        Ret (t\<lparr>dh_bucket := mp, dh_bk_size := int (length bs'), dh_elm_cnt := int (length (concat bs)), dh_max_chain := 0\<rparr>) s'"
      "rings s' mp bs'" "hashed h key bs'" "length bs' = 2 * length bs + 1" "mset (concat bs') = mset (concat bs)"
      "finite (dom (dl_next s'))" "\<forall>p. dhash_cell s t p \<longrightarrow> is_dlink s' p \<and> p \<notin> arr mp (length bs')"
    using dhash_rehash_gen [where s = s and t = t and bs = bs and h = h and key = key, OF _ _ _ _ _ fn al] R by blast
  have "length (concat bs') = length (concat bs)" using s'(5) by (rule mset_eq_length)
  let ?t' = "t\<lparr>dh_bucket := mp, dh_bk_size := int (length bs'), dh_elm_cnt := int (length (concat bs)), dh_max_chain := 0\<rparr>"
  have "bs' \<noteq> []" using s'(4) by auto
  with \<open>length (concat bs') = length (concat bs)\<close> show ?thesis
    using s'(1,5,7) R s'(2,3,6) by (intro exI [of _ s'] exI [of _ ?t'] exI [of _ bs'] conjI s'(4))
      (auto simp: dhash_rep_def dhash_cell_def simp del: set_concat)
qed

subsection \<open>Search and removal\<close>

lemma dhash_find_loop_run:
  assumes "dlist_rep s b (us @ vs)"
  shows "\<exists>c. dhash_find_loop b p (cmp_by key) (after b vs) n s =
    Ret (or_NULL (find (\<lambda>x. key x = key p) vs), c) s"
  using assms
proof (induction vs arbitrary: us n)
  case Nil
  then show ?case by (subst dhash_find_loop.simps) (simp add: dlist_iter_term_def c_eval)
next
  case (Cons v vs)
  have v: "v \<noteq> b" "dl_next s v = Some (after b vs)"
    using Cons.prems ring_ends [of s b "us @ [v]" vs] by (auto simp: dlist_rep_def)
  show ?case
    using v Cons.IH [of "us @ [v]" "n + 1"] Cons.prems
    by (subst dhash_find_loop.simps) (auto simp: dlist_iter_term_def dlist_iter_next_def cmp_by_run c_eval)
qed

lemma dhash_rm_loop_none:
  assumes "dlist_rep s b (us @ vs)" and "\<forall>x \<in> set vs. key x \<noteq> key p"
  shows "\<exists>c. dhash_rm_loop t b p (cmp_by key) (after b vs) n s = Ret (NULL, c, t) s"
  using assms
proof (induction vs arbitrary: us n)
  case Nil
  then show ?case by (subst dhash_rm_loop.simps) (simp add: dlist_iter_term_def c_eval)
next
  case (Cons v vs)
  have v: "v \<noteq> b" "dl_next s v = Some (after b vs)"
    using Cons.prems ring_ends [of s b "us @ [v]" vs] by (auto simp: dlist_rep_def)
  show ?case
    using v Cons.IH [of "us @ [v]" "n + 1"] Cons.prems
    by (subst dhash_rm_loop.simps) (auto simp: dlist_iter_term_def dlist_iter_next_def cmp_by_run c_eval)
qed

lemma dhash_rm_loop_some:
  assumes "dlist_rep s b (us @ ps @ x # vs)" and "\<forall>y \<in> set ps. key y \<noteq> key p" and "key x = key p"
  shows "\<exists>c. dhash_rm_loop t b p (cmp_by key) (after b (ps @ x # vs)) n s =
    Ret (x, c, t\<lparr>dh_elm_cnt := dh_elm_cnt t - 1\<rparr>) (dl_cut b (us @ ps) vs s)"
  using assms
proof (induction ps arbitrary: us n)
  case Nil
  have "x \<noteq> b" using Nil.prems by (auto simp: dlist_rep_def)
  then show ?case
    using Nil.prems dlist_iter_rm_curr_run [of s b us x vs]
    by (subst dhash_rm_loop.simps) (simp add: dlist_iter_term_def cmp_by_run c_eval)
next
  case (Cons v ps)
  have v: "v \<noteq> b" "dl_next s v = Some (after b (ps @ x # vs))"
    using Cons.prems ring_ends [of s b "us @ [v]" "ps @ x # vs"] by (auto simp: dlist_rep_def)
  show ?case
    using v Cons.IH [of "us @ [v]" "n + 1"] Cons.prems
    by (subst dhash_rm_loop.simps) (auto simp: dlist_iter_term_def dlist_iter_next_def cmp_by_run c_eval)
qed

definition dhash_maps ::
  "'z dlist_mem_scheme alloc \<Rightarrow> (nat \<Rightarrow> 'k \<Rightarrow> nat) \<Rightarrow> (addr \<Rightarrow> 'k) \<Rightarrow> 'z dlist_mem_scheme
   \<Rightarrow> 'z dlist_mem_scheme dhash \<Rightarrow> ('k \<rightharpoonup> addr) \<Rightarrow> bool" where
  "dhash_maps alloc h key s t m \<longleftrightarrow>
     (\<exists>bs. dhash_rep h key s t bs \<and> distinct (map key (concat bs)) \<and> m = key_map key (concat bs))
   \<and> fresh_alloc alloc"

text \<open>The common end of search and removal: the chain counter, and rehashing when it is long.\<close>

lemma dhash_finish:
  assumes rep: "dhash_rep h key s t bs" "distinct (map key (concat bs))" and al: "fresh_alloc alloc"
  shows "\<exists>s' t'. (if b then bindM (dhash_rehash alloc (t\<lparr>dh_max_chain := c\<rparr>)) (\<lambda>t'. ret (x, t'))
                  else ret (x, t\<lparr>dh_max_chain := c\<rparr>)) s = Ret (x, t') s'
    \<and> dhash_maps alloc h key s' t' (key_map key (concat bs))
    \<and> (\<forall>p. dhash_cell s t p \<longrightarrow> dhash_cell s' t' p)"
proof -
  let ?t = "t\<lparr>dh_max_chain := c\<rparr>"
  have r: "dhash_rep h key s ?t bs" using rep by (simp add: dhash_rep_def)
  show ?thesis
  proof (cases b)
    case True
    obtain s1 t1 bs1 where s1: "dhash_rehash alloc ?t s = Ret t1 s1" "dhash_rep h key s1 t1 bs1"
        "mset (concat bs1) = mset (concat bs)" "\<forall>p. dhash_cell s ?t p \<longrightarrow> dhash_cell s1 t1 p"
      using dhash_rehash_run [OF r al] by blast
    have "dhash_maps alloc h key s1 t1 (key_map key (concat bs))"
      using key_map_mset [OF rep(2) s1(3) [symmetric]] s1(2) al unfolding dhash_maps_def by blast
    then show ?thesis using True s1(1,4) by (simp add: c_eval dhash_cell_def)
  next
    case False
    then show ?thesis using r rep(2) al by (auto simp: dhash_maps_def dhash_cell_def c_eval)
  qed
qed

lemma dhash_insert_maps:
  assumes "dhash_maps alloc h key s t m" and c: "dhash_cell s t e" and n: "m (key e) = None"
  shows "\<exists>i s' t'. dhash_insert t e s = Ret (i, t') s' \<and> dhash_maps alloc h key s' t' (m(key e \<mapsto> e))
    \<and> (\<forall>p. dhash_cell s t p \<longrightarrow> dhash_cell s' t' p)"
proof -
  obtain bs where R: "dhash_rep h key s t bs" "distinct (map key (concat bs))" "m = key_map key (concat bs)" "fresh_alloc alloc"
    using assms(1) by (auto simp: dhash_maps_def)
  note R1 = R(1) [unfolded dhash_rep_def]
  have ne: "key e \<notin> key ` set (concat bs)" using n R(3) by (simp only: key_map_None not_False_eq_True)
  then have "e \<notin> nodes (dh_bucket t) bs" using c R1 by (auto simp: nodes_def dhash_cell_def)
  then obtain s1 where s1: "dhash_insert_elm t e (hash_by h key) s = Ret (int (h (length bs) (key e)), t\<lparr>dh_elm_cnt := dh_elm_cnt t + 1\<rparr>) s1"
      "rings s1 (dh_bucket t) (bk_push h key bs e)" "dom (dl_next s1) = dom (dl_next s)" "dom (dl_prev s1) = dom (dl_prev s)"
    using dhash_insert_elm_run [where s = s and t = t and bs = bs and h = h and e = e and fn = "hash_by h key" and key = key,
        OF _ _ _ _ _ _ hashes_by] c R1 by (auto simp: dhash_cell_def)
  have p: "length (bk_push h key bs e) = length bs" "mset (concat (bk_push h key bs e)) = add_mset e (mset (concat bs))"
      "hashed h key (bk_push h key bs e)" "bk_push h key bs e \<noteq> []"
    using bk_push_props [where h = h and bs = bs and key = key and e = e] R1 by auto
  have "length (concat (bk_push h key bs e)) = length (concat bs) + 1"
    using arg_cong [OF p(2), of size] by (simp only: size_mset size_add_mset Suc_eq_plus1)
  then have "dhash_rep h key s1 (t\<lparr>dh_elm_cnt := dh_elm_cnt t + 1\<rparr>) (bk_push h key bs e)"
    using s1 p R1 by (auto simp: dhash_rep_def)
  then have "dhash_maps alloc h key s1 (t\<lparr>dh_elm_cnt := dh_elm_cnt t + 1\<rparr>) (m(key e \<mapsto> e))"
    using key_map_add [OF R(2) ne p(2)] R(3,4) unfolding dhash_maps_def by metis
  then show ?thesis
    using s1 R1 by (auto simp: dhash_insert_def dhash_cell_def is_dlink_def)
qed

lemma dhash_find_maps:
  assumes "dhash_maps alloc h key s t m"
  shows "\<exists>s' t'. dhash_find alloc t p s = Ret (or_NULL (m (key p)), t') s' \<and> dhash_maps alloc h key s' t' m
    \<and> (\<forall>p. dhash_cell s t p \<longrightarrow> dhash_cell s' t' p)"
proof -
  obtain bs where R: "dhash_rep h key s t bs" "distinct (map key (concat bs))" "m = key_map key (concat bs)" "fresh_alloc alloc"
    using assms by (auto simp: dhash_maps_def)
  note R1 = R(1) [unfolded dhash_rep_def]
  let ?i = "h (length bs) (key p)" and ?b = "dh_bucket t + h (length bs) (key p)"
  have i: "?i < length bs" using R1 by (simp add: good_hash_def)
  have f: "dh_bk_size t = int (length bs)" "dh_hash_fn t = hash_by h key" "dh_cmp_fn t = cmp_by key"
    using R1 by auto
  have ri: "dlist_rep s ?b ([] @ bs ! ?i)" using ringsD(1) [OF conjunct1 [OF R1] i] by simp
  obtain c where "dhash_find_loop ?b p (cmp_by key) (after ?b (bs ! ?i)) 0 s = Ret (or_NULL (m (key p)), c) s"
    using dhash_find_loop_run [OF ri, of p key 0] bucket_of_key [of h key bs "key p"] R by (auto simp: R1)
  then have "dhash_find alloc t p s =
      (if c \<ge> 32 \<and> dh_elm_cnt t > 0
       then bindM (dhash_rehash alloc (t\<lparr>dh_max_chain := (if dh_max_chain t > c then dh_max_chain t else c)\<rparr>)) (\<lambda>t'. ret (or_NULL (m (key p)), t'))
       else ret (or_NULL (m (key p)), t\<lparr>dh_max_chain := (if dh_max_chain t > c then dh_max_chain t else c)\<rparr>)) s"
    using i f ring_head(1) [OF ri]
    by (simp add: dhash_find_def dhash_find_elm_def hash_by_run dlist_iter_init_def c_eval Let_def)
  then show ?thesis
    using dhash_finish [OF R(1,2,4), of "c \<ge> 32 \<and> dh_elm_cnt t > 0" "if dh_max_chain t > c then dh_max_chain t else c" "or_NULL (m (key p))"] R(3) by simp
qed

lemma dhash_rm_loop_maps:
  assumes R: "dhash_rep h key s t bs" "distinct (map key (concat bs))" "m = key_map key (concat bs)"
    and b: "b = dh_bucket t + h (length bs) (key p)" and vs: "vs = bs ! h (length bs) (key p)"
  shows "\<exists>c s1 t1 bs1. dhash_rm_loop t b p (cmp_by key) (after b vs) 0 s = Ret (or_NULL (m (key p)), c, t1) s1
      \<and> dhash_rep h key s1 t1 bs1 \<and> distinct (map key (concat bs1)) \<and> m(key p := None) = key_map key (concat bs1)
      \<and> (\<forall>p. dhash_cell s t p \<longrightarrow> dhash_cell s1 t1 p)"
proof -
  note R1 = R(1) [unfolded dhash_rep_def]
  let ?i = "h (length bs) (key p)"
  have i: "?i < length bs" using R1 by (simp add: good_hash_def)
  have ri: "dlist_rep s b ([] @ vs)" using ringsD(1) [OF conjunct1 [OF R1] i] b vs by simp
  have fnd: "find (\<lambda>x. key x = key p) vs = m (key p)"
    using bucket_of_key [of h key bs "key p"] R vs by (simp add: R1)
  show ?thesis
  proof (cases "m (key p)")
    case None
    then have "\<forall>x \<in> set vs. key x \<noteq> key p" and m: "m(key p := None) = key_map key (concat bs)"
      using fnd R(3) by (auto simp: find_None_iff)
    then obtain c where c: "dhash_rm_loop t b p (cmp_by key) (after b vs) 0 s = Ret (NULL, c, t) s"
      using dhash_rm_loop_none [OF ri, of key p t 0] by blast
    have "dhash_rm_loop t b p (cmp_by key) (after b vs) 0 s = Ret (or_NULL (m (key p)), c, t) s"
      using c None by simp
    then show ?thesis using R(1,2) m
      by (intro exI [of _ c] exI [of _ s] exI [of _ t] exI [of _ bs] conjI allI impI)
  next
    case (Some x)
    then obtain ps qs where v: "vs = ps @ x # qs" "\<forall>y \<in> set ps. key y \<noteq> key p" "key x = key p"
      using fnd find_split [of "\<lambda>x. key x = key p" vs x] by auto
    have rb: "dlist_rep s b (ps @ x # qs)" and bi: "bs ! ?i = ps @ x # qs" using ri v(1) vs by simp_all
    let ?bs = "bs[?i := ps @ qs]" and ?s = "dl_cut b ps qs s" and ?t = "t\<lparr>dh_elm_cnt := dh_elm_cnt t - 1\<rparr>"
    have ms: "mset (concat bs) = add_mset x (mset (concat ?bs))" by (rule mset_concat_cut [OF i bi])
    have "length (concat bs) = Suc (length (concat ?bs))"
      using arg_cong [OF ms, of size] by (simp only: size_mset size_add_mset)
    then have "dhash_rep h key ?s ?t ?bs"
      using R1 rings_cut [OF conjunct1 [OF R1] i bi] hashed_cut [of h key, OF _ i bi] dom_cut [OF rb] b
      by (simp add: dhash_rep_def)
    moreover have "dhash_cell ?s ?t q = dhash_cell s t q" for q using rb by (simp add: dhash_cell_def)
    moreover obtain c where "dhash_rm_loop t b p (cmp_by key) (after b vs) 0 s = Ret (or_NULL (m (key p)), c, ?t) ?s"
      using dhash_rm_loop_some [of s b "[]" ps x qs key p t 0] rb v Some by auto
    moreover have "m(key p := None) = key_map key (concat ?bs)" using key_map_del(1) [OF R(2) ms] v(3) R(3) by simp
    ultimately show ?thesis using key_map_del(2) [OF R(2) ms]
      by (intro exI [of _ c] exI [of _ ?s] exI [of _ ?t] exI [of _ ?bs] conjI allI impI) simp_all
  qed
qed

lemma dhash_rm_maps:
  assumes "dhash_maps alloc h key s t m"
  shows "\<exists>s' t'. dhash_rm alloc t p s = Ret (or_NULL (m (key p)), t') s' \<and> dhash_maps alloc h key s' t' (m(key p := None))
    \<and> (\<forall>p. dhash_cell s t p \<longrightarrow> dhash_cell s' t' p)"
proof -
  obtain bs where R: "dhash_rep h key s t bs" "distinct (map key (concat bs))" "m = key_map key (concat bs)" "fresh_alloc alloc"
    using assms by (auto simp: dhash_maps_def)
  note R1 = R(1) [unfolded dhash_rep_def]
  let ?i = "h (length bs) (key p)" and ?b = "dh_bucket t + h (length bs) (key p)"
  have i: "?i < length bs" using R1 by (simp add: good_hash_def)
  have f: "dh_bk_size t = int (length bs)" "dh_hash_fn t = hash_by h key" "dh_cmp_fn t = cmp_by key"
    using R1 by auto
  have ri: "dlist_rep s ?b (bs ! ?i)" by (rule ringsD(1) [OF conjunct1 [OF R1] i])
  obtain c s1 t1 bs1 where s1: "dhash_rm_loop t ?b p (cmp_by key) (after ?b (bs ! ?i)) 0 s = Ret (or_NULL (m (key p)), c, t1) s1"
      "dhash_rep h key s1 t1 bs1" "distinct (map key (concat bs1))" "m(key p := None) = key_map key (concat bs1)"
      "\<forall>p. dhash_cell s t p \<longrightarrow> dhash_cell s1 t1 p"
    using dhash_rm_loop_maps [OF R(1-3) refl refl, of p] by blast
  have "dhash_rm alloc t p s =
      (if c \<ge> 32 \<and> dh_elm_cnt t1 > 0
       then bindM (dhash_rehash alloc (t1\<lparr>dh_max_chain := max (dh_max_chain t1) c\<rparr>)) (\<lambda>t'. ret (or_NULL (m (key p)), t'))
       else ret (or_NULL (m (key p)), t1\<lparr>dh_max_chain := max (dh_max_chain t1) c\<rparr>)) s1"
    using i f ring_head(1) [OF ri] s1(1)
    by (simp add: dhash_rm_def dhash_rm_elm_def hash_by_run dlist_iter_init_def c_eval Let_def)
  then show ?thesis
    using dhash_finish [OF s1(2,3) R(4), of "c \<ge> 32 \<and> dh_elm_cnt t1 > 0" "max (dh_max_chain t1) c" "or_NULL (m (key p))"] s1(4,5) by auto
qed

interpretation dht: c_table
  "dhash_maps alloc h key" dhash_cell key dhash_insert "dhash_find alloc" "dhash_rm alloc"
  for alloc :: "'z dlist_mem_scheme alloc" and h :: "nat \<Rightarrow> 'k \<Rightarrow> nat" and key :: "addr \<Rightarrow> 'k"
  by unfold_locales (fact dhash_insert_maps dhash_find_maps dhash_rm_maps)+

end
