(* ===== verification/DhashProps.thy ===== *)
theory DhashProps
  imports DhashSpec
begin

text \<open>The properties of the hash table with doubly linked buckets.\<close>

text \<open>An allocator that hands out the addresses above every one in use.\<close>

definition top_alloc :: "'z dlist_mem_scheme alloc" where
  "top_alloc s n = (Suc (Max (insert 0 (dom (dl_next s)))), 0)"

lemma top_alloc_fresh:
  assumes "finite (dom (dl_next s))"
  shows "arr (Suc (Max (insert 0 (dom (dl_next s))))) n \<inter> dom (dl_next s) = {}"
proof -
  have "p \<le> Max (insert 0 (dom (dl_next s)))" if "p \<in> dom (dl_next s)" for p
    using that assms by (intro Max_ge) auto
  then show ?thesis by (auto simp: arr_mem) (metis domI not_less_eq_eq)
qed

lemma fresh_top_alloc: "fresh_alloc top_alloc"
  by (simp add: fresh_alloc_def top_alloc_def top_alloc_fresh)

definition demo_hash :: "nat \<Rightarrow> nat \<Rightarrow> nat" where
  "demo_hash n k = k mod n"

definition demo_tab_mem :: dlist_mem where
  "demo_tab_mem =
    \<lparr>dl_next = [10 \<mapsto> 2, 2 \<mapsto> 4, 4 \<mapsto> 10, 11 \<mapsto> 3, 3 \<mapsto> 11, 5 \<mapsto> 0, 6 \<mapsto> 0],
     dl_prev = [10 \<mapsto> 4, 4 \<mapsto> 2, 2 \<mapsto> 10, 11 \<mapsto> 3, 3 \<mapsto> 11, 5 \<mapsto> 0, 6 \<mapsto> 0]\<rparr>"

definition demo_tab :: "dlist_mem dhash" where
  "demo_tab = \<lparr>dh_bucket = 10, dh_bk_size = 2, dh_elm_cnt = 3, dh_max_chain = 0,
     dh_hash_fn = hash_by demo_hash (\<lambda>x. x), dh_cmp_fn = cmp_by (\<lambda>x. x)\<rparr>"

lemma all_less_two: "(\<forall>i < Suc (Suc 0). P i) \<longleftrightarrow> P 0 \<and> P (Suc 0)"
  by (auto simp: less_Suc_eq)

lemma demo_tab_rings: "rings demo_tab_mem 10 [[2, 4], [3]]"
  by (simp add: rings_def all_less_two dlist_rep_def demo_tab_mem_def rings_apart_def)

lemma demo_tab_hashed: "hashed demo_hash (\<lambda>x. x) [[2, 4], [3]]"
  unfolding hashed_def demo_hash_def by (simp add: all_less_two) (simp add: numeral_2_eq_2 [symmetric])

lemma demo_tab_rep: "dhash_rep demo_hash (\<lambda>x. x) demo_tab_mem demo_tab [[2, 4], [3]]"
  using demo_tab_rings demo_tab_hashed
  by (simp add: dhash_rep_def demo_tab_def good_hash_def) (simp add: demo_hash_def demo_tab_mem_def)

lemma demo_tab_maps:
  "dhash_maps top_alloc demo_hash (\<lambda>x. x) demo_tab_mem demo_tab (key_map (\<lambda>x. x) [2, 4, 3])"
  unfolding dhash_maps_def
  by (intro conjI exI [of _ "[[2, 4], [3]]"] fresh_top_alloc demo_tab_rep) simp_all

lemma demo_tab_cell: "dhash_cell demo_tab_mem demo_tab 5" "dhash_cell demo_tab_mem demo_tab 6"
  by (simp_all add: dhash_cell_def is_dlink_def demo_tab_mem_def demo_tab_def arr_mem)

text \<open>C1: after inserting elements with different keys that the table does not hold yet, it maps exactly the old
  and the new keys, and \<open>dhash_find\<close> with any element returns the one the table has under its key, the inserted
  one when the key is new, and \<open>NULL\<close> when the key is neither old nor new. This holds whether
  or not the search rehashes the table.\<close>

theorem dhash_insert_find:
  assumes "dhash_maps alloc h key s t m" and "distinct (map key es)"
    and "\<forall>e \<in> set es. dhash_cell s t e \<and> m (key e) = None"
  shows "\<exists>s' t'. bindM (ins_seq dhash_insert t es) (\<lambda>t1. dhash_find alloc t1 p) s
        = Ret (case (m ++ key_map key es) (key p) of Some e \<Rightarrow> e | None \<Rightarrow> NULL, t') s'
    \<and> dhash_maps alloc h key s' t' (m ++ key_map key es)"
  using dht.insert_find [OF assms, of p] by (simp only: or_NULL_def)

theorem dhash_insert_find_witness:
  "(\<exists>s' t'. bindM (ins_seq dhash_insert demo_tab [5, 6]) (\<lambda>t1. dhash_find top_alloc t1 6) demo_tab_mem = Ret (6, t') s'
      \<and> dhash_maps top_alloc demo_hash (\<lambda>x. x) s' t' (key_map (\<lambda>x. x) [2, 4, 3] ++ key_map (\<lambda>x. x) [5, 6]))
    \<and> (\<exists>s' t'. bindM (ins_seq dhash_insert demo_tab [5, 6]) (\<lambda>t1. dhash_find top_alloc t1 9) demo_tab_mem = Ret (0, t') s')"
proof -
  have m: "(key_map (\<lambda>x. x) [2, 4, 3] ++ key_map (\<lambda>x. x) [5, 6]) 6 = Some 6"
    "(key_map (\<lambda>x. x) [2, 4, 3] ++ key_map (\<lambda>x. x) [5, 6]) 9 = None" by (simp_all add: key_map_def)
  have c: "\<forall>e \<in> set [5, 6]. dhash_cell demo_tab_mem demo_tab e \<and> key_map (\<lambda>x. x) [2, 4, 3] e = None"
    by (simp add: demo_tab_cell key_map_None)
  show ?thesis
    using dhash_insert_find [OF demo_tab_maps _ c, of 6] dhash_insert_find [OF demo_tab_maps _ c, of 9] by (auto simp: m)
qed

text \<open>C10: \<open>dhash_rm\<close> returns the element that was inserted under the key and brings the table
  back to the map it was before the insertion.\<close>

theorem dhash_insert_remove:
  assumes "dhash_maps alloc h key s t m" and "dhash_cell s t e" and "m (key e) = None" and "key p = key e"
  shows "\<exists>s' t'. bindM (dhash_insert t e) (\<lambda>r. dhash_rm alloc (snd r) p) s = Ret (e, t') s'
    \<and> dhash_maps alloc h key s' t' m"
  using assms by (rule dht.insert_remove)

theorem dhash_insert_remove_witness:
  "\<exists>s' t'. bindM (dhash_insert demo_tab 5) (\<lambda>r. dhash_rm top_alloc (snd r) 5) demo_tab_mem = Ret (5, t') s'
    \<and> dhash_maps top_alloc demo_hash (\<lambda>x. x) s' t' (key_map (\<lambda>x. x) [2, 4, 3])"
  by (rule dhash_insert_remove [OF demo_tab_maps]) (simp_all add: demo_tab_cell key_map_None)

text \<open>C2: \<open>dhash_rehash\<close> ends; the table then has twice as many buckets plus one, holds
  exactly the elements it held, each in the bucket its hash names, and counts them right; the
  old bucket array is gone and every other object is untouched as an object.\<close>

theorem dhash_rehash_keeps:
  assumes "dhash_rep h key s t bs" and "fresh_alloc alloc"
  shows "\<exists>s' t' bs'. dhash_rehash alloc t s = Ret t' s' \<and> dhash_rep h key s' t' bs'
    \<and> length bs' = 2 * length bs + 1 \<and> mset (concat bs') = mset (concat bs)
    \<and> (\<forall>p. dhash_cell s t p \<longrightarrow> dhash_cell s' t' p)"
  using assms by (rule dhash_rehash_run)

theorem dhash_rehash_keeps_witness:
  "\<exists>s' t' bs'. dhash_rehash top_alloc demo_tab demo_tab_mem = Ret t' s'
    \<and> dhash_rep demo_hash (\<lambda>x. x) s' t' bs' \<and> length bs' = 5 \<and> mset (concat bs') = mset [2, 4, 3]"
proof -
  obtain s' t' bs' where "dhash_rehash top_alloc demo_tab demo_tab_mem = Ret t' s'"
      "dhash_rep demo_hash (\<lambda>x. x) s' t' bs'" "length bs' = 2 * length [[2, 4], [3 :: addr]] + 1"
      "mset (concat bs') = mset (concat [[2, 4], [3]])"
    using dhash_rehash_keeps [OF demo_tab_rep fresh_top_alloc] by metis
  then show ?thesis by (intro exI [of _ s'] exI [of _ t'] exI [of _ bs']) simp
qed

text \<open>Removing the only element of a bucket with \<open>dhash_iter_rm_curr\<close> in the middle of an
  iteration sends the iterator back into the bucket before: the next element it yields is
  one the iteration has passed already.\<close>

theorem dhash_iter_rm_revisits:
  assumes r: "rings s (dh_bucket t) bs" and j: "Suc j < length bs"
    and b: "bs ! j = a # b # rs" "bs ! Suc j = [c]"
  shows "\<exists>s' i t'. dhash_iter_rm_curr t \<lparr>dh_curr = dh_bucket t + Suc j, dh_iter = c\<rparr> s = Ret (c, i, t') s'
    \<and> dhash_iter_next t' i s' = Ret \<lparr>dh_curr = dh_bucket t + j, dh_iter = b\<rparr> s'"
proof -
  let ?l = "dh_bucket t + Suc j" and ?p = "dh_bucket t + j"
  let ?s = "dl_cut ?l [] [] s"
  have rl: "dlist_rep s ?l ([] @ c # [])" using ringsD(1) [OF r j] b(2) by simp
  have rp: "dlist_rep ?s ?p (a # b # rs)"
    using dl_cut_frame [of s ?p "bs ! j" ?l "[]" c "[]"] ringsD(1) [OF r, of j] ringsD(2) [OF r j, of j] j b by simp
  have c: "c \<noteq> NULL" "dl_prev s c = Some ?l" using ring_cell [OF rl, of c] ring_ends(2) [OF rl] by simp_all
  have p: "dl_next ?s ?p = Some a" "dl_next ?s a = Some b" "a \<noteq> ?p" "b \<noteq> ?p" "?p \<noteq> NULL"
    using ring_head(1) [OF rp] ring_ends(1) [of ?s ?p "[a]" "b # rs"] rp by (auto simp: dlist_rep_def)
  have rm: "dhash_iter_rm_curr t \<lparr>dh_curr = ?l, dh_iter = c\<rparr> s =
      Ret (c, \<lparr>dh_curr = ?p, dh_iter = a\<rparr>, t\<lparr>dh_elm_cnt := dh_elm_cnt t - 1\<rparr>) ?s"
    using c p(1) dlist_rm_run [OF rl]
    by (simp add: dhash_iter_rm_curr_def dlist_iter_prev_def dhash_takeout_elm_def dlist_iter_term_def
        dlist_iter_init_def Let_def c_eval)
  then show ?thesis using p
    by (auto simp: dhash_iter_next_def dlist_iter_term_def dlist_iter_next_def c_eval)
qed

theorem dhash_iter_rm_revisits_witness:
  "\<exists>s' i t'. dhash_iter_rm_curr demo_tab \<lparr>dh_curr = 11, dh_iter = 3\<rparr> demo_tab_mem = Ret (3, i, t') s'
    \<and> dhash_iter_next t' i s' = Ret \<lparr>dh_curr = 10, dh_iter = 4\<rparr> s'"
  using dhash_iter_rm_revisits [of demo_tab_mem demo_tab "[[2, 4], [3]]" 0 2 4 "[]" 3] demo_tab_rings
  by (simp add: demo_tab_def)

end
