(* ===== verification/Shash.thy ===== *)
theory Shash
  imports Slink CTables
begin

text \<open>
  The hash table with singly linked buckets (the second half of include/ctype/hash.h and of
  common/ctype/hash.c), and the string hash. As for Dhash, a \<open>struct shash\<close> is a record that
  the routines take and return updated, a function pointer an optional program, and
  \<open>alloc s n\<close> what \<open>malloc\<close> answers in memory \<open>s\<close> for an array of \<open>n\<close> links.
\<close>

type_synonym 's shash_hash_fn = "(int \<Rightarrow> addr \<Rightarrow> ('s, int) cprog) option"
type_synonym 's shash_cmp_fn = "(addr \<Rightarrow> addr \<Rightarrow> ('s, int) cprog) option"
type_synonym 's slink_alloc = "'s \<Rightarrow> nat \<Rightarrow> addr \<times> addr"

record 's shash =
  sh_bucket :: addr
  sh_bk_size :: int
  sh_elm_cnt :: int
  sh_max_chain :: int
  sh_hash_fn :: "'s shash_hash_fn"
  sh_cmp_fn :: "'s shash_cmp_fn"

text \<open>The iterator; its member \<open>sh_tab\<close> is the table argument of the routines.\<close>

record shash_iter =
  sh_curr :: addr
  sh_iter :: slink_iter

definition call_hash :: "'s shash_hash_fn \<Rightarrow> int \<Rightarrow> addr \<Rightarrow> ('s, int) cprog" where
  "call_hash p n e = (case p of None \<Rightarrow> abortM (Fault NULL) | Some f \<Rightarrow> f n e)"

definition call_cmp :: "'s shash_cmp_fn \<Rightarrow> addr \<Rightarrow> addr \<Rightarrow> ('s, int) cprog" where
  "call_cmp p x y = (case p of None \<Rightarrow> abortM (Fault NULL) | Some f \<Rightarrow> f x y)"

definition links :: "addr \<Rightarrow> nat \<Rightarrow> addr set" where
  "links p n = {p..<p + n}"

definition malloc_slinks :: "'z slink_mem_scheme slink_alloc \<Rightarrow> int \<Rightarrow> ('z slink_mem_scheme, addr) cprog" where
  "malloc_slinks alloc nsize s =
     (let mp = fst (alloc s (nat nsize)); junk = snd (alloc s (nat nsize)) in
      if mp = NULL then Ret NULL s
      else Ret mp (s\<lparr>sl_next := (\<lambda>p. if p \<in> links mp (nat nsize) then Some junk else sl_next s p)\<rparr>))"

definition free_slinks :: "addr \<Rightarrow> int \<Rightarrow> ('z slink_mem_scheme, unit) cprog" where
  "free_slinks p nsize s =
     (if p = NULL then Ret () s
      else if links p (nat nsize) \<subseteq> dom (sl_next s)
      then Ret () (s\<lparr>sl_next := (\<lambda>q. if q \<in> links p (nat nsize) then None else sl_next s q)\<rparr>)
      else Abort (Fault p))"

subsection \<open>Operations\<close>

definition shash_init ::
  "'z slink_mem_scheme slink_alloc \<Rightarrow> int \<Rightarrow> 'z slink_mem_scheme shash_hash_fn \<Rightarrow> 'z slink_mem_scheme shash_cmp_fn
   \<Rightarrow> ('z slink_mem_scheme, 'z slink_mem_scheme shash) cprog" where
  "shash_init alloc nsize hash_fn cmp_fn =
     bindM (malloc_slinks alloc nsize) (\<lambda>bucket.
     seqM (forM [0..<nat nsize] (\<lambda>i. slink_init (bucket + i)))
     (ret \<lparr>sh_bucket = bucket, sh_bk_size = nsize, sh_elm_cnt = 0, sh_max_chain = 0,
           sh_hash_fn = hash_fn, sh_cmp_fn = cmp_fn\<rparr>))"

partial_function (option) shash_free_bucket ::
  "addr \<Rightarrow> (addr \<Rightarrow> int \<Rightarrow> ('z slink_mem_scheme, unit) cprog) \<Rightarrow> int \<Rightarrow> ('z slink_mem_scheme, unit) cprog" where
  "shash_free_bucket bk free_fn sz s =
     bindM (slink_empty bk) (\<lambda>b.
     if b then ret ()
     else bindM (slink_rm_front bk) (\<lambda>ptr.
          seqM (free_fn ptr sz) (shash_free_bucket bk free_fn sz))) s"

definition shash_free ::
  "'z slink_mem_scheme shash \<Rightarrow> (addr \<Rightarrow> int \<Rightarrow> ('z slink_mem_scheme, unit) cprog) option \<Rightarrow> int
   \<Rightarrow> ('z slink_mem_scheme, unit) cprog" where
  "shash_free table free_fn sz =
     seqM (if free_fn \<noteq> None
           then forM [0..<nat (sh_bk_size table)] (\<lambda>i. shash_free_bucket (sh_bucket table + i) (the free_fn) sz)
           else ret ())
     (free_slinks (sh_bucket table) (sh_bk_size table))"

definition shash_iter_term :: "shash_iter \<Rightarrow> bool" where
  "shash_iter_term iter = (if sh_curr iter = NULL then True else False)"

definition shash_iter_curr :: "shash_iter \<Rightarrow> addr" where
  "shash_iter_curr iter = (if sh_curr iter \<noteq> NULL then slink_iter_curr (sh_iter iter) else NULL)"

text \<open>The search of \<open>shash_iter_next\<close> for the next bucket that holds an element.\<close>

partial_function (option) shash_iter_scan ::
  "addr \<Rightarrow> shash_iter \<Rightarrow> ('z slink_mem_scheme, shash_iter) cprog" where
  "shash_iter_scan end_bk iter s =
     (if sh_curr iter < end_bk
      then bindM (slink_empty (sh_curr iter)) (\<lambda>b.
           if \<not> b then bindM (slink_iter_init (sh_curr iter)) (\<lambda>i. ret (iter\<lparr>sh_iter := i\<rparr>))
           else shash_iter_scan end_bk (iter\<lparr>sh_curr := sh_curr iter + 1\<rparr>))
      else ret (iter\<lparr>sh_curr := NULL, sh_iter := (sh_iter iter)\<lparr>sl_curr := NULL\<rparr>\<rparr>)) s"

definition shash_iter_next ::
  "'z slink_mem_scheme shash \<Rightarrow> shash_iter \<Rightarrow> ('z slink_mem_scheme, shash_iter) cprog" where
  "shash_iter_next tab iter =
     (if sh_curr iter \<noteq> NULL
      then bindM
            (if \<not> slink_iter_term (sh_iter iter)
             then bindM (slink_iter_next (sh_iter iter)) (\<lambda>i.
                  ret (iter\<lparr>sh_iter := i\<rparr>, \<not> slink_iter_term i))
             else ret (iter, False)) (\<lambda>r.
           if snd r then ret (fst r)
           else shash_iter_scan (sh_bucket tab + nat (sh_bk_size tab))
                  ((fst r)\<lparr>sh_curr := sh_curr (fst r) + 1\<rparr>))
      else ret iter)"

definition shash_iter_init ::
  "'z slink_mem_scheme shash option \<Rightarrow> shash_iter \<Rightarrow> ('z slink_mem_scheme, shash_iter) cprog" where
  "shash_iter_init table iter =
     (case table of
        Some tab \<Rightarrow>
          bindM (slink_iter_init (sh_bucket tab)) (\<lambda>i.
          let iter' = \<lparr>sh_curr = sh_bucket tab, sh_iter = i\<rparr> in
          if slink_iter_term (sh_iter iter') then shash_iter_next tab iter' else ret iter')
      | None \<Rightarrow> ret (iter\<lparr>sh_curr := NULL, sh_iter := (sh_iter iter)\<lparr>sl_curr := NULL\<rparr>\<rparr>))"

text \<open>Returns the removed element and the new iterator.\<close>

definition shash_iter_rm_curr ::
  "'z slink_mem_scheme shash \<Rightarrow> shash_iter \<Rightarrow> ('z slink_mem_scheme, addr \<times> shash_iter) cprog" where
  "shash_iter_rm_curr tab iter =
     (let curr = sl_curr (sh_iter iter); prev = sl_prev (sh_iter iter) in
      if curr \<noteq> NULL
      then seqM (assertM (prev \<noteq> NULL))
          (bindM (get_next prev) (\<lambda>pn.
           seqM (assertM (pn = curr))
          (bindM (get_next curr) (\<lambda>cn.
           seqM (set_next prev cn)
          (bindM (get_next prev) (\<lambda>pn'.
           if pn' = NULL \<and> prev = sh_curr iter
           then let bk = (if sh_curr iter > sh_bucket tab then sh_curr iter - 1 else sh_curr iter) in
                bindM (slink_empty bk) (\<lambda>b.
                if \<not> b then ret (curr, \<lparr>sh_curr = bk, sh_iter = \<lparr>sl_prev = bk, sl_curr = NULL\<rparr>\<rparr>)
                else bindM (slink_iter_init bk) (\<lambda>i. ret (curr, \<lparr>sh_curr = bk, sh_iter = i\<rparr>)))
           else ret (curr, iter\<lparr>sh_iter := (sh_iter iter)\<lparr>sl_curr := prev\<rparr>\<rparr>)))))))
      else ret (curr, iter))"

definition shash_insert_bucket ::
  "'z slink_mem_scheme shash \<Rightarrow> addr \<Rightarrow> int
   \<Rightarrow> ('z slink_mem_scheme, int \<times> 'z slink_mem_scheme shash) cprog" where
  "shash_insert_bucket table elm index =
     seqM (assertM (0 \<le> index \<and> index < sh_bk_size table))
    (seqM (slink_add_front (sh_bucket table + nat index) elm)
     (ret (index, table\<lparr>sh_elm_cnt := sh_elm_cnt table + 1\<rparr>)))"

definition shash_insert_elm ::
  "'z slink_mem_scheme shash \<Rightarrow> addr \<Rightarrow> 'z slink_mem_scheme shash_hash_fn
   \<Rightarrow> ('z slink_mem_scheme, int \<times> 'z slink_mem_scheme shash) cprog" where
  "shash_insert_elm table elm hash_fn =
     bindM (call_hash hash_fn (sh_bk_size table) elm) (\<lambda>index.
     seqM (assertM (0 \<le> index \<and> index < sh_bk_size table))
    (seqM (slink_add_front (sh_bucket table + nat index) elm)
     (ret (index, table\<lparr>sh_elm_cnt := sh_elm_cnt table + 1\<rparr>))))"

definition shash_insert ::
  "'z slink_mem_scheme shash \<Rightarrow> addr \<Rightarrow> ('z slink_mem_scheme, int \<times> 'z slink_mem_scheme shash) cprog" where
  "shash_insert table elm = shash_insert_elm table elm (sh_hash_fn table)"

text \<open>The index and, through \<open>bucket\<close>, the bucket.\<close>

definition shash_index ::
  "'z slink_mem_scheme shash \<Rightarrow> addr \<Rightarrow> ('z slink_mem_scheme, int \<times> addr) cprog" where
  "shash_index table elm =
     bindM (call_hash (sh_hash_fn table) (sh_bk_size table) elm) (\<lambda>index.
     seqM (assertM (0 \<le> index \<and> index < sh_bk_size table))
     (ret (index, sh_bucket table + nat index)))"

definition shash_idx_bucket :: "'z slink_mem_scheme shash \<Rightarrow> int \<Rightarrow> ('z slink_mem_scheme, addr) cprog" where
  "shash_idx_bucket table idx =
     seqM (assertM (0 \<le> idx \<and> idx < sh_bk_size table)) (ret (sh_bucket table + nat idx))"

definition shash_get_bucket :: "'z slink_mem_scheme shash \<Rightarrow> addr \<Rightarrow> ('z slink_mem_scheme, int) cprog" where
  "shash_get_bucket table elm = call_hash (sh_hash_fn table) (sh_bk_size table) elm"

definition shash_rm_elm ::
  "'z slink_mem_scheme shash \<Rightarrow> addr \<Rightarrow> 'z slink_mem_scheme shash_hash_fn \<Rightarrow> 'z slink_mem_scheme shash_cmp_fn
   \<Rightarrow> ('z slink_mem_scheme, addr \<times> 'z slink_mem_scheme shash) cprog" where
  "shash_rm_elm table elm hash_fn hash_cmp =
     bindM (call_hash hash_fn (sh_bk_size table) elm) (\<lambda>index.
     seqM (assertM (0 \<le> index \<and> index < sh_bk_size table))
    (bindM (slink_find (sh_bucket table + nat index) elm (call_cmp hash_cmp) True) (\<lambda>r.
     ret (fst r, if fst r \<noteq> NULL then table\<lparr>sh_elm_cnt := sh_elm_cnt table - 1\<rparr> else table))))"

definition shash_rm ::
  "'z slink_mem_scheme shash \<Rightarrow> addr \<Rightarrow> ('z slink_mem_scheme, addr \<times> 'z slink_mem_scheme shash) cprog" where
  "shash_rm table elm = shash_rm_elm table elm (sh_hash_fn table) (sh_cmp_fn table)"

definition shash_rm_bucket ::
  "'z slink_mem_scheme shash \<Rightarrow> addr \<Rightarrow> int
   \<Rightarrow> ('z slink_mem_scheme, addr \<times> 'z slink_mem_scheme shash) cprog" where
  "shash_rm_bucket table elm index =
     seqM (assertM (0 \<le> index \<and> index < sh_bk_size table))
    (bindM (slink_find (sh_bucket table + nat index) elm (call_cmp (sh_cmp_fn table)) True) (\<lambda>r.
     ret (fst r, if fst r \<noteq> NULL then table\<lparr>sh_elm_cnt := sh_elm_cnt table - 1\<rparr> else table)))"

definition shash_takeout_elm ::
  "'z slink_mem_scheme shash \<Rightarrow> addr \<Rightarrow> ('z slink_mem_scheme, 'z slink_mem_scheme shash) cprog" where
  "shash_takeout_elm table elm =
     bindM (call_hash (sh_hash_fn table) (sh_bk_size table) elm) (\<lambda>index.
     seqM (assertM (0 \<le> index \<and> index < sh_bk_size table))
    (bindM (slink_find (sh_bucket table + nat index) elm (call_cmp (sh_cmp_fn table)) True) (\<lambda>r.
     seqM (assertM (fst r = elm))
     (ret (table\<lparr>sh_elm_cnt := sh_elm_cnt table - 1\<rparr>)))))"

definition shash_find ::
  "'z slink_mem_scheme shash \<Rightarrow> addr \<Rightarrow> ('z slink_mem_scheme, addr) cprog" where
  "shash_find table elm =
     bindM (call_hash (sh_hash_fn table) (sh_bk_size table) elm) (\<lambda>index.
     seqM (assertM (0 \<le> index \<and> index < sh_bk_size table))
    (bindM (slink_find (sh_bucket table + nat index) elm (call_cmp (sh_cmp_fn table)) False) (\<lambda>r.
     ret (fst r))))"

definition shash_find_bucket ::
  "'z slink_mem_scheme shash \<Rightarrow> addr \<Rightarrow> int \<Rightarrow> ('z slink_mem_scheme, addr) cprog" where
  "shash_find_bucket table elm index =
     seqM (assertM (0 \<le> index \<and> index < sh_bk_size table))
    (bindM (slink_find (sh_bucket table + nat index) elm (call_cmp (sh_cmp_fn table)) False) (\<lambda>r.
     ret (fst r)))"

text \<open>The body and the loop over one bucket of \<open>shash_filter\<close>.\<close>

definition shash_filter_step ::
  "addr \<Rightarrow> int \<Rightarrow> (addr \<Rightarrow> int \<Rightarrow> ('z slink_mem_scheme, bool) cprog) \<Rightarrow> slink_iter
   \<Rightarrow> ('z slink_mem_scheme, unit) cprog" where
  "shash_filter_step newlst i select_fn iter =
     bindM (select_fn (slink_iter_curr iter) i) (\<lambda>b.
     if b
     then bindM (slink_iter_rm_curr iter) (\<lambda>chk.
          seqM (assertM (chk = slink_iter_curr iter))
          (slink_add_front newlst (slink_iter_curr iter)))
     else ret ())"

partial_function (option) shash_filter_loop ::
  "addr \<Rightarrow> int \<Rightarrow> (addr \<Rightarrow> int \<Rightarrow> ('z slink_mem_scheme, bool) cprog) \<Rightarrow> slink_iter
   \<Rightarrow> ('z slink_mem_scheme, unit) cprog" where
  "shash_filter_loop newlst i select_fn iter s =
     (if slink_iter_term iter then ret ()
      else seqM (shash_filter_step newlst i select_fn iter)
          (bindM (slink_iter_next iter) (\<lambda>iter'. shash_filter_loop newlst i select_fn iter'))) s"

definition shash_filter ::
  "'z slink_mem_scheme shash \<Rightarrow> addr \<Rightarrow> (addr \<Rightarrow> int \<Rightarrow> ('z slink_mem_scheme, bool) cprog)
   \<Rightarrow> ('z slink_mem_scheme, unit) cprog" where
  "shash_filter table newlst select_fn =
     forM [0..<nat (sh_bk_size table)] (\<lambda>i.
       bindM (slink_iter_init (sh_bucket table + i)) (\<lambda>iter.
       shash_filter_loop newlst (int i) select_fn iter))"

definition shash_filter_all ::
  "(addr \<Rightarrow> int \<Rightarrow> ('z slink_mem_scheme, unit) cprog) \<Rightarrow> addr \<Rightarrow> int \<Rightarrow> ('z slink_mem_scheme, bool) cprog" where
  "shash_filter_all app_fn elm index = seqM (app_fn elm index) (ret False)"

definition shash_apply_all ::
  "'z slink_mem_scheme shash \<Rightarrow> (addr \<Rightarrow> int \<Rightarrow> ('z slink_mem_scheme, unit) cprog)
   \<Rightarrow> ('z slink_mem_scheme, unit) cprog" where
  "shash_apply_all table app_fn = shash_filter table NULL (shash_filter_all app_fn)"

subsection \<open>String hash\<close>

unbundle bit_operations_syntax

text \<open>A plain \<open>char\<close> is taken as signed (as gcc has it on x86), so it is sign-extended when it
  is added to the 32-bit sum.\<close>

definition hash_step :: "32 word \<Rightarrow> 8 word \<Rightarrow> 32 word" where
  "hash_step h c =
     (let h1 = push_bit 4 h + scast c
      in h1 XOR (drop_bit 24 (h1 AND 0xf0000000) AND 0x0fffffff))"

fun hash_string_fn :: "8 word list \<Rightarrow> 32 word" where
  "hash_string_fn str = foldl hash_step 0 (takeWhile (\<lambda>c. c \<noteq> 0) str)"

end
