(* ===== verification/ShashSpec.thy ===== *)
theory ShashSpec
  imports Shash SlistSpec
begin

text \<open>
  Arrays of chains, what the routines of the singly linked hash table do to them, and the
  table as an instance of the interface \<open>c_table\<close>.
\<close>

subsection \<open>Arrays of chains\<close>

definition buckets :: "'z slink_mem_scheme \<Rightarrow> addr \<Rightarrow> addr list list \<Rightarrow> bool" where
  "buckets s bk bs \<longleftrightarrow> bk \<noteq> NULL \<and> (\<forall>i < length bs. chain (sl_next s) (bk + i) (bs ! i))
     \<and> (\<forall>i < length bs. \<forall>j < length bs. i \<noteq> j \<longrightarrow> set ((bk + i) # bs ! i) \<inter> set ((bk + j) # bs ! j) = {})"

lemma bucketsD:
  assumes "buckets s bk bs" and "i < length bs"
  shows "chain (sl_next s) (bk + i) (bs ! i)"
    and "\<And>j. j < length bs \<Longrightarrow> j \<noteq> i \<Longrightarrow> set ((bk + j) # bs ! j) \<inter> set ((bk + i) # bs ! i) = {}"
proof -
  show "chain (sl_next s) (bk + i) (bs ! i)" using assms by (auto simp: buckets_def)
  show "set ((bk + j) # bs ! j) \<inter> set ((bk + i) # bs ! i) = {}" if "j < length bs" "j \<noteq> i" for j
    using assms that unfolding buckets_def by blast
qed

lemma disjoint_sub: "C \<inter> B = {} \<Longrightarrow> A \<subseteq> B \<Longrightarrow> C \<inter> A = {}"
  by blast

text \<open>One bucket replaced; the memory changes inside that bucket and at the objects \<open>E\<close> only.\<close>

lemma buckets_upd:
  assumes b: "buckets s bk bs" and i: "i < length bs" and ch: "chain (sl_next s') (bk + i) xs"
    and fr: "\<And>p. p \<notin> set ((bk + i) # bs ! i) \<union> E \<Longrightarrow> sl_next s' p = sl_next s p"
    and xs: "set xs \<subseteq> set (bs ! i) \<union> E" and E: "\<And>j. j < length bs \<Longrightarrow> set ((bk + j) # bs ! j) \<inter> E = {}"
  shows "buckets s' bk (bs[i := xs])"
proof -
  have ap: "set ((bk + j) # bs ! j) \<inter> (set ((bk + i) # bs ! i) \<union> E) = {}" if "j < length bs" "j \<noteq> i" for j
    using bucketsD(2) [OF b i that] E [OF that(1)] by blast
  have "chain (sl_next s') (bk + j) (bs[i := xs] ! j)" if "j < length bs" for j
  proof (cases "j = i")
    case True
    then show ?thesis using ch that by simp
  next
    case False
    have "sl_next s p = sl_next s' p" if "p \<in> set ((bk + j) # bs ! j)" for p
      using fr [of p] ap [OF \<open>j < length bs\<close> False] that by (metis disjoint_iff)
    then show ?thesis using bucketsD(1) [OF b that] chain_cong [of "bk + j" "bs ! j" "sl_next s" "sl_next s'"] False by simp
  qed
  moreover have sub: "set ((bk + i) # xs) \<subseteq> set ((bk + i) # bs ! i) \<union> E" using xs by auto
  have new: "set ((bk + j) # bs ! j) \<inter> set ((bk + i) # xs) = {}" if "j < length bs" "j \<noteq> i" for j
    using ap [OF that] sub by (rule disjoint_sub)
  have "set ((bk + j) # bs[i := xs] ! j) \<inter> set ((bk + k) # bs[i := xs] ! k) = {}"
    if jk: "j < length bs" "k < length bs" "j \<noteq> k" for j k
  proof -
    consider "j = i" "k \<noteq> i" | "k = i" "j \<noteq> i" | "j \<noteq> i" "k \<noteq> i" using jk(3) by blast
    then show ?thesis
    proof cases
      case 1
      then have "bs[i := xs] ! j = xs" "bs[i := xs] ! k = bs ! k" using i by simp_all
      then show ?thesis using new [OF jk(2) 1(2)] 1 by (simp only: Int_commute)
    next
      case 2
      then have "bs[i := xs] ! k = xs" "bs[i := xs] ! j = bs ! j" using i by simp_all
      then show ?thesis using new [OF jk(1) 2(2)] 2 by (simp only:)
    next
      case 3
      then have "bs[i := xs] ! k = bs ! k" "bs[i := xs] ! j = bs ! j" by simp_all
      then show ?thesis using bucketsD(2) [OF b jk(2,1,3)] by (simp only:)
    qed
  qed
  ultimately show ?thesis using b by (auto simp: buckets_def simp del: set_simps)
qed

subsection \<open>The table as a map\<close>

definition shash_by :: "(nat \<Rightarrow> 'k \<Rightarrow> nat) \<Rightarrow> (addr \<Rightarrow> 'k) \<Rightarrow> 's shash_hash_fn" where
  "shash_by h key = Some (\<lambda>n e. ret (int (h (nat n) (key e))))"

definition scmp_by :: "(addr \<Rightarrow> 'k) \<Rightarrow> 's shash_cmp_fn" where
  "scmp_by key = Some (\<lambda>x y. ret (if key x = key y then 0 else 1))"

lemma shash_by_run: "call_hash (shash_by h key) n e s = Ret (int (h (nat n) (key e))) s"
  by (simp add: shash_by_def call_hash_def ret_def)

lemma scmp_by_pure: "pure_on A (\<lambda>x. call_cmp (scmp_by key) x y) (\<lambda>x. if key x = key y then 0 else 1) s"
  by (simp add: scmp_by_def call_cmp_def ret_def pure_on_def)

lemmas shash_search_none = slink_find_none
  [where cmp = "call_cmp (scmp_by key)" and elm = p and f = "\<lambda>x. if key x = key p then 0 else 1", OF _ scmp_by_pure]
  for key p

lemmas shash_search_some = slink_find_some
  [where cmp = "call_cmp (scmp_by key)" and elm = p and f = "\<lambda>x. if key x = key p then 0 else 1", OF _ scmp_by_pure]
  for key p

definition shash_rep ::
  "(nat \<Rightarrow> 'k \<Rightarrow> nat) \<Rightarrow> (addr \<Rightarrow> 'k) \<Rightarrow> 'z slink_mem_scheme \<Rightarrow> 'z slink_mem_scheme shash \<Rightarrow> addr list list \<Rightarrow> bool" where
  "shash_rep h key s t bs \<longleftrightarrow>
     buckets s (sh_bucket t) bs \<and> sh_bk_size t = int (length bs) \<and> bs \<noteq> [] \<and> hashed h key bs
   \<and> sh_elm_cnt t = int (length (concat bs)) \<and> sh_hash_fn t = shash_by h key \<and> sh_cmp_fn t = scmp_by key
   \<and> good_hash h"

definition shash_maps ::
  "(nat \<Rightarrow> 'k \<Rightarrow> nat) \<Rightarrow> (addr \<Rightarrow> 'k) \<Rightarrow> 'z slink_mem_scheme \<Rightarrow> 'z slink_mem_scheme shash \<Rightarrow> ('k \<rightharpoonup> addr) \<Rightarrow> bool" where
  "shash_maps h key s t m \<longleftrightarrow>
     (\<exists>bs. shash_rep h key s t bs \<and> distinct (map key (concat bs)) \<and> m = key_map key (concat bs))"

definition shash_cell :: "'z slink_mem_scheme \<Rightarrow> 'z slink_mem_scheme shash \<Rightarrow> addr \<Rightarrow> bool" where
  "shash_cell s t p \<longleftrightarrow> is_link s p \<and> p \<notin> links (sh_bucket t) (nat (sh_bk_size t))"

lemma shash_bucket:
  assumes "shash_rep h key s t bs"
  shows "h (length bs) k < length bs"
    and "chain (sl_next s) (sh_bucket t + h (length bs) k) (bs ! h (length bs) k)"
proof -
  show i: "h (length bs) k < length bs" using assms by (simp add: shash_rep_def good_hash_def)
  show "chain (sl_next s) (sh_bucket t + h (length bs) k) (bs ! h (length bs) k)"
    using bucketsD(1) [OF _ i] assms unfolding shash_rep_def by blast
qed

text \<open>Insertion and removal change links and the count of elements only.\<close>

lemma shash_insert_maps:
  assumes "shash_maps h key s t m" and c: "shash_cell s t e" and n: "m (key e) = None"
  shows "\<exists>i nx c. shash_insert t e s = Ret (i, t\<lparr>sh_elm_cnt := c\<rparr>) (s\<lparr>sl_next := nx\<rparr>)
    \<and> shash_maps h key (s\<lparr>sl_next := nx\<rparr>) (t\<lparr>sh_elm_cnt := c\<rparr>) (m(key e \<mapsto> e))
    \<and> (\<forall>p. shash_cell s t p \<longrightarrow> shash_cell (s\<lparr>sl_next := nx\<rparr>) (t\<lparr>sh_elm_cnt := c\<rparr>) p) \<and> dom nx = dom (sl_next s)"
proof -
  obtain bs where R: "shash_rep h key s t bs" "distinct (map key (concat bs))" "m = key_map key (concat bs)"
    using assms(1) by (auto simp: shash_maps_def)
  note R1 = R(1) [unfolded shash_rep_def]
  let ?i = "h (length bs) (key e)" and ?b = "sh_bucket t + h (length bs) (key e)"
  let ?s = "s\<lparr>sl_next := (sl_next s)(e \<mapsto> first (bs ! ?i), ?b \<mapsto> e)\<rparr>" and ?bs = "bs[?i := e # bs ! ?i]"
  let ?t = "t\<lparr>sh_elm_cnt := sh_elm_cnt t + 1\<rparr>"
  note i = shash_bucket(1) [OF R(1), of "key e"] and ch = shash_bucket(2) [OF R(1), of "key e"]
  have ne: "key e \<notin> key ` set (concat bs)" using n R(3) by (simp only: key_map_None not_False_eq_True)
  have e: "e \<notin> set ((sh_bucket t + j) # bs ! j)" if "j < length bs" for j
  proof -
    have "e \<notin> set (concat bs)" using ne by auto
    then have "e \<notin> set (bs ! j)" using nth_mem [OF that] by auto
    moreover have "e \<noteq> sh_bucket t + j" using c R1 that by (auto simp: shash_cell_def links_def)
    ultimately show ?thesis by simp
  qed
  have ch': "chain (sl_next ?s) ?b (e # bs ! ?i)"
    using chain_push [OF ch e [OF i]] c by (simp add: shash_cell_def is_link_def)
  have "buckets ?s (sh_bucket t) ?bs"
    using conjunct1 [OF R1] i ch' by (rule buckets_upd [where E = "{e}"]) (use e in auto)
  moreover have ms: "mset (concat ?bs) = add_mset e (mset (concat bs))"
    using mset_concat_put [OF i, of "[]" "bs ! ?i" e] by simp
  moreover have "length (concat ?bs) = length (concat bs) + 1"
    using arg_cong [OF ms, of size] by (simp only: size_mset size_add_mset Suc_eq_plus1)
  ultimately have "shash_rep h key ?s ?t ?bs"
    using R1 hashed_put [of h key bs ?i "[]" "bs ! ?i" e] i by (simp add: shash_rep_def)
  then have "shash_maps h key ?s ?t (m(key e \<mapsto> e))"
    using key_map_add [OF R(2) ne ms] R(3) unfolding shash_maps_def by metis
  moreover have "shash_insert t e s = Ret (int ?i, ?t) ?s"
    using slink_add_front_run [OF ch, of e] e [OF i] c i R1
    by (simp add: shash_insert_def shash_insert_elm_def shash_by_run c_eval shash_cell_def is_link_def)
  moreover have "shash_cell s t p \<longrightarrow> shash_cell ?s ?t p" for p by (auto simp: shash_cell_def is_link_def)
  moreover have "dom ((sl_next s)(e \<mapsto> first (bs ! ?i), ?b \<mapsto> e)) = dom (sl_next s)"
    using chain_dom [OF ch, of ?b] c by (auto simp: shash_cell_def is_link_def)
  ultimately show ?thesis by blast
qed

lemma shash_find_maps:
  assumes "shash_maps h key s t m"
  shows "shash_find t p s = Ret (or_NULL (m (key p))) s"
proof -
  obtain bs where R: "shash_rep h key s t bs" "distinct (map key (concat bs))" "m = key_map key (concat bs)"
    using assms by (auto simp: shash_maps_def)
  note R1 = R(1) [unfolded shash_rep_def]
  let ?i = "h (length bs) (key p)" and ?b = "sh_bucket t + h (length bs) (key p)"
  note i = shash_bucket(1) [OF R(1), of "key p"] and ch = shash_bucket(2) [OF R(1), of "key p"]
  have fnd: "find (\<lambda>x. key x = key p) (bs ! ?i) = m (key p)"
    using bucket_of_key [of h key bs "key p"] R by (simp add: R1)
  have "\<exists>r. slink_find ?b p (call_cmp (scmp_by key)) False s = Ret (or_NULL (m (key p)), r) s"
  proof (cases "m (key p)")
    case None
    then have "\<forall>x \<in> set (bs ! ?i). key x \<noteq> key p" using fnd by (simp add: find_None_iff)
    then show ?thesis using shash_search_none [OF ch, of key p False] None by simp
  next
    case (Some x)
    then obtain ps qs where v: "bs ! ?i = ps @ x # qs" "\<forall>y \<in> set ps. key y \<noteq> key p" "key x = key p"
      using fnd find_split [of "\<lambda>x. key x = key p" "bs ! ?i" x] by auto
    then show ?thesis using shash_search_some [OF ch [unfolded v(1)], of key p False] Some by simp
  qed
  then show ?thesis using i R1 by (auto simp: shash_find_def shash_by_run c_eval)
qed

lemma shash_rm_maps:
  assumes "shash_maps h key s t m"
  shows "\<exists>nx c. shash_rm t p s = Ret (or_NULL (m (key p)), t\<lparr>sh_elm_cnt := c\<rparr>) (s\<lparr>sl_next := nx\<rparr>)
    \<and> shash_maps h key (s\<lparr>sl_next := nx\<rparr>) (t\<lparr>sh_elm_cnt := c\<rparr>) (m(key p := None))
    \<and> (\<forall>p. shash_cell s t p \<longrightarrow> shash_cell (s\<lparr>sl_next := nx\<rparr>) (t\<lparr>sh_elm_cnt := c\<rparr>) p) \<and> dom nx = dom (sl_next s)"
proof -
  obtain bs where R: "shash_rep h key s t bs" "distinct (map key (concat bs))" "m = key_map key (concat bs)"
    using assms by (auto simp: shash_maps_def)
  note R1 = R(1) [unfolded shash_rep_def]
  let ?i = "h (length bs) (key p)" and ?b = "sh_bucket t + h (length bs) (key p)"
  note i = shash_bucket(1) [OF R(1), of "key p"] and ch = shash_bucket(2) [OF R(1), of "key p"]
  have fnd: "find (\<lambda>x. key x = key p) (bs ! ?i) = m (key p)"
    using bucket_of_key [of h key bs "key p"] R by (simp add: R1)
  have f: "sh_bk_size t = int (length bs)" "sh_hash_fn t = shash_by h key" "sh_cmp_fn t = scmp_by key"
    using R1 by auto
  show ?thesis
  proof (cases "m (key p)")
    case None
    then have "\<forall>x \<in> set (bs ! ?i). key x \<noteq> key p" and m: "m(key p := None) = m"
      using fnd by (auto simp: find_None_iff)
    then have "shash_rm t p s = Ret (NULL, t) s"
      using shash_search_none [OF ch, of key p True] i f
      by (simp add: shash_rm_def shash_rm_elm_def shash_by_run c_eval)
    then show ?thesis using assms m None by (intro exI [of _ "sl_next s"] exI [of _ "sh_elm_cnt t"]) simp
  next
    case (Some x)
    then obtain ps qs where v: "bs ! ?i = ps @ x # qs" "\<forall>y \<in> set ps. key y \<noteq> key p" "key x = key p"
      using fnd find_split [of "\<lambda>x. key x = key p" "bs ! ?i" x] by auto
    let ?s = "s\<lparr>sl_next := (sl_next s)(tip ?b ps \<mapsto> first qs, x \<mapsto> NULL)\<rparr>" and ?bs = "bs[?i := ps @ qs]"
    let ?t = "t\<lparr>sh_elm_cnt := sh_elm_cnt t - 1\<rparr>"
    note chv = ch [unfolded v(1)]
    have tp: "tip ?b ps \<in> set (?b # bs ! ?i)" "x \<in> set (?b # bs ! ?i)" using tip_in_set [of ?b ps] v(1) by auto
    have ch': "chain (sl_next ?s) ?b (ps @ qs)" using chain_cut(1) [OF chv] by simp
    have "buckets ?s (sh_bucket t) ?bs"
      using conjunct1 [OF R1] i ch' by (rule buckets_upd [where E = "{}"]) (use tp v(1) in auto)
    moreover have ms: "mset (concat bs) = add_mset x (mset (concat ?bs))" by (rule mset_concat_cut [OF i v(1)])
    moreover have "length (concat bs) = Suc (length (concat ?bs))"
      using arg_cong [OF ms, of size] by (simp only: size_mset size_add_mset)
    ultimately have "shash_rep h key ?s ?t ?bs"
      using R1 hashed_cut [of h key bs ?i ps x qs] i v(1) by (simp add: shash_rep_def)
    then have "shash_maps h key ?s ?t (m(key p := None))"
      using key_map_del [OF R(2) ms] R(3) v(3) unfolding shash_maps_def by metis
    moreover have "x \<noteq> NULL" using chain_not_NULL [OF chv] by auto
    then have "shash_rm t p s = Ret (or_NULL (m (key p)), ?t) ?s"
      using shash_search_some [OF chv, of key p True] v Some i f
      by (simp add: shash_rm_def shash_rm_elm_def shash_by_run c_eval)
    moreover have "shash_cell s t q \<longrightarrow> shash_cell ?s ?t q" for q by (auto simp: shash_cell_def is_link_def)
    moreover have "dom ((sl_next s)(tip ?b ps \<mapsto> first qs, x \<mapsto> NULL)) = dom (sl_next s)"
      using chain_dom [OF ch tp(1)] chain_dom [OF ch tp(2)] by auto
    ultimately show ?thesis by blast
  qed
qed

interpretation sht: c_table
  "shash_maps h key" shash_cell key shash_insert "\<lambda>t p. bindM (shash_find t p) (\<lambda>r. ret (r, t))" shash_rm
  for h :: "nat \<Rightarrow> 'k \<Rightarrow> nat" and key :: "addr \<Rightarrow> 'k"
proof (unfold_locales, goal_cases)
  case (1 s t m e)
  then show ?case using shash_insert_maps [of h key s t m e] by blast
next
  case (2 s t m p)
  then show ?case using shash_find_maps [OF 2, of p] by (auto simp: c_eval)
next
  case (3 s t m p)
  then show ?case using shash_rm_maps [of h key s t m p] by blast
qed

end
