(* ===== verification/ShashProps.thy ===== *)
theory ShashProps
  imports ShashSpec
begin

text \<open>
  The properties of the hash table with singly linked buckets: it is a map, and its
  iterator visits every element once even when elements are removed on the way.
\<close>

subsection \<open>Iteration\<close>

definition at_pos :: "addr \<Rightarrow> nat \<Rightarrow> addr list \<Rightarrow> addr \<Rightarrow> shash_iter" where
  "at_pos bk j us x = \<lparr>sh_curr = bk + j, sh_iter = \<lparr>sl_prev = tip (bk + j) us, sl_curr = x\<rparr>\<rparr>"

lemma shash_scan_end:
  assumes "\<And>k. k < length cs \<Longrightarrow> chain (sl_next s) (a + k) (cs ! k)" and "concat cs = []" and "sh_curr it = a"
  shows "\<exists>it'. shash_iter_scan (a + length cs) it s = Ret it' s \<and> sh_curr it' = NULL \<and> sl_curr (sh_iter it') = NULL"
  using assms
proof (induction cs arbitrary: a it)
  case Nil
  then show ?case by (subst shash_iter_scan.simps) (simp add: c_eval)
next
  case (Cons c cs)
  have c: "slink_empty a s = Ret True s" using Cons.prems slink_empty_chain [of s a c] Cons.prems(1) [of 0] by simp
  have "\<And>k. k < length cs \<Longrightarrow> chain (sl_next s) (Suc a + k) (cs ! k)"
    using Cons.prems(1) [of "Suc k" for k] by simp
  then have "\<exists>it'. shash_iter_scan (Suc a + length cs) (it\<lparr>sh_curr := Suc a\<rparr>) s = Ret it' s \<and> sh_curr it' = NULL \<and> sl_curr (sh_iter it') = NULL"
    using Cons.prems(2) by (intro Cons.IH) auto
  then show ?case using c Cons.prems(3) by (subst shash_iter_scan.simps) (simp add: c_eval)
qed

lemma shash_scan_first:
  assumes "\<And>k. k < length cs \<Longrightarrow> chain (sl_next s) (a + k) (cs ! k)" and "cs = replicate k [] @ (x # xs) # rest"
    and "sh_curr it = a" and "a \<noteq> NULL"
  shows "shash_iter_scan (a + length cs) it s = Ret (at_pos a k [] x) s"
  using assms
proof (induction k arbitrary: a it cs)
  case 0
  have ch: "chain (sl_next s) a (x # xs)" using 0(1) [of 0] 0(2) by simp
  then show ?case
    using 0 slink_empty_chain [OF ch]
    by (subst shash_iter_scan.simps) (cases it; simp add: c_eval slink_iter_init_def at_pos_def)
next
  case (Suc k)
  obtain cs' where cs: "cs = [] # cs'" "cs' = replicate k [] @ (x # xs) # rest" using Suc.prems(2) by simp
  have ch: "chain (sl_next s) (Suc a + j) (cs' ! j)" if "j < length cs'" for j
    using Suc.prems(1) [of "Suc j"] cs that by simp
  have "slink_empty a s = Ret True s" using slink_empty_chain [of s a "[]"] Suc.prems(1) [of 0] cs by simp
  moreover have "shash_iter_scan (Suc a + length cs') (it\<lparr>sh_curr := Suc a\<rparr>) s = Ret (at_pos (Suc a) k [] x) s"
    using Suc.IH [OF ch cs(2)] by simp
  moreover have "at_pos (Suc a) k [] x = at_pos a (Suc k) [] x" by (simp add: at_pos_def)
  ultimately show ?case using cs Suc.prems(3) by (subst shash_iter_scan.simps) (simp add: c_eval)
qed

text \<open>A client's walk over the table: note the current element, remove it if \<open>P\<close> says so, go on.\<close>

partial_function (option) shash_sweep ::
  "'z slink_mem_scheme shash \<Rightarrow> (addr \<Rightarrow> bool) \<Rightarrow> shash_iter \<Rightarrow> addr list \<Rightarrow> ('z slink_mem_scheme, addr list) cprog" where
  "shash_sweep tab P iter seen s =
     (if shash_iter_term iter then ret seen
      else bindM (if P (shash_iter_curr iter) then bindM (shash_iter_rm_curr tab iter) (\<lambda>r. ret (snd r)) else ret iter) (\<lambda>i.
           bindM (shash_iter_next tab i) (\<lambda>i'. shash_sweep tab P i' (seen @ [shash_iter_curr iter])))) s"

text \<open>Where an iterator may stand that has passed the elements \<open>us\<close> of bucket \<open>i\<close>, with \<open>vs\<close>
  ahead in that bucket: on the next element, or past the end.\<close>

definition lands :: "addr \<Rightarrow> nat \<Rightarrow> addr list \<Rightarrow> addr list \<Rightarrow> addr list list \<Rightarrow> shash_iter \<Rightarrow> bool" where
  "lands bk i us vs bs it \<longleftrightarrow>
     (if vs \<noteq> [] then it = at_pos bk i us (hd vs)
      else if concat (drop (Suc i) bs) = [] then sh_curr it = NULL \<and> sl_curr (sh_iter it) = NULL
      else \<exists>k y ys rest. drop (Suc i) bs = replicate k [] @ (y # ys) # rest \<and> it = at_pos bk (Suc i + k) [] y)"

lemma nonempty_bucket: "concat cs \<noteq> [] \<Longrightarrow> \<exists>k y ys rest. cs = replicate k [] @ (y # ys) # rest"
proof (induction cs)
  case Nil
  then show ?case by simp
next
  case (Cons c cs)
  show ?case
  proof (cases c)
    case Nil
    with Cons obtain k y ys rest where "cs = replicate k [] @ (y # ys) # rest" by auto
    with Nil show ?thesis by (intro exI [of _ "Suc k"]) auto
  next
    case (Cons y ys)
    then show ?thesis by (intro exI [of _ 0]) auto
  qed
qed

lemma scan_lands:
  assumes "buckets s bk bs" and "i < length bs" and "sh_curr it = bk + Suc i"
  shows "\<exists>it'. shash_iter_scan (bk + length bs) it s = Ret it' s \<and> lands bk i us [] bs it'"
proof -
  let ?cs = "drop (Suc i) bs"
  have e: "bk + Suc i + length ?cs = bk + length bs" using assms(2) by simp
  have ch: "chain (sl_next s) (bk + Suc i + k) (?cs ! k)" if "k < length ?cs" for k
    using bucketsD(1) [OF assms(1), of "Suc i + k"] that by (simp add: add.assoc)
  show ?thesis
  proof (cases "concat ?cs = []")
    case True
    then show ?thesis using shash_scan_end [OF ch True assms(3)] unfolding e by (auto simp: lands_def)
  next
    case False
    obtain k y ys rest where cs: "?cs = replicate k [] @ (y # ys) # rest" using nonempty_bucket [OF False] by blast
    have "shash_iter_scan (bk + length bs) it s = Ret (at_pos (bk + Suc i) k [] y) s"
      using shash_scan_first [OF ch cs assms(3)] unfolding e by simp
    moreover have "at_pos (bk + Suc i) k [] y = at_pos bk (Suc i + k) [] y" by (simp add: at_pos_def add.assoc)
    ultimately show ?thesis using False cs unfolding lands_def by metis
  qed
qed

lemma shash_next_keep:
  assumes b: "buckets s (sh_bucket t) bs" and i: "i < length bs" and x: "bs ! i = us @ x # vs"
    and sz: "sh_bk_size t = int (length bs)"
  shows "\<exists>it. shash_iter_next t (at_pos (sh_bucket t) i us x) s = Ret it s \<and> lands (sh_bucket t) i (us @ [x]) vs bs it"
proof -
  have ch: "chain (sl_next s) (sh_bucket t + i) (us @ x # vs)" and bk: "sh_bucket t \<noteq> NULL"
    using bucketsD(1) [OF b i] b x by (auto simp: buckets_def)
  have c: "x \<noteq> NULL" "sl_next s x = Some (first vs)" "vs \<noteq> [] \<Longrightarrow> hd vs \<noteq> NULL"
    using ch by (auto simp: chain_append chain_head neq_Nil_conv)
  show ?thesis
  proof (cases vs)
    case Nil
    then show ?thesis
      using scan_lands [OF b i, of "\<lparr>sh_curr = sh_bucket t + Suc i, sh_iter = \<lparr>sl_prev = x, sl_curr = NULL\<rparr>\<rparr>" "us @ [x]"] bk c sz
      by (auto simp: shash_iter_next_def at_pos_def slink_iter_term_def slink_iter_next_def c_eval)
  next
    case (Cons v ws)
    then show ?thesis using bk c
      by (auto simp: shash_iter_next_def at_pos_def slink_iter_term_def slink_iter_next_def c_eval lands_def)
  qed
qed

text \<open>The iterator of an emptied bucket \<open>i\<close> stands at the end of the bucket before it (of
  bucket 0 itself when \<open>i\<close> is 0).\<close>

lemma shash_next_from_empty:
  assumes b: "buckets s (sh_bucket t) bs" and i: "i < length bs" and sz: "sh_bk_size t = int (length bs)" and e: "bs ! i = []"
  shows "\<exists>it. shash_iter_next t \<lparr>sh_curr = sh_bucket t + (i - 1),
        sh_iter = \<lparr>sl_prev = sh_bucket t + (i - 1), sl_curr = NULL\<rparr>\<rparr> s = Ret it s \<and> lands (sh_bucket t) i us [] bs it"
proof -
  let ?p = "sh_bucket t + (i - 1)"
  let ?it = "\<lambda>c. \<lparr>sh_curr = c, sh_iter = \<lparr>sl_prev = ?p, sl_curr = NULL\<rparr>\<rparr>"
  have bk: "sh_bucket t \<noteq> NULL" using b by (simp add: buckets_def)
  have em: "slink_empty (sh_bucket t + i) s = Ret True s" using slink_empty_chain [OF bucketsD(1) [OF b i]] e by simp
  obtain it where it: "shash_iter_scan (sh_bucket t + length bs) (?it (sh_bucket t + Suc i)) s = Ret it s"
      "lands (sh_bucket t) i us [] bs it"
    using scan_lands [OF b i, of "?it (sh_bucket t + Suc i)"] by auto
  have "shash_iter_scan (sh_bucket t + length bs) (?it (?p + 1)) s = Ret it s"
  proof (cases "i = 0")
    case True
    then show ?thesis using it(1) by simp
  next
    case False
    then have "?p + 1 = sh_bucket t + i" by simp
    then show ?thesis using it(1) em i by (subst shash_iter_scan.simps) (simp add: c_eval)
  qed
  then show ?thesis using it(2) bk sz by (simp add: shash_iter_next_def slink_iter_term_def c_eval)
qed

text \<open>After a removal the iterator goes on in any memory with the remaining buckets, so also in
  one in which the removed element has been freed.\<close>

lemma shash_rm_curr_run:
  assumes b: "buckets s (sh_bucket t) bs" and i: "i < length bs" and x: "bs ! i = us @ x # vs"
    and sz: "sh_bk_size t = int (length bs)"
  obtains i' v where "shash_iter_rm_curr t (at_pos (sh_bucket t) i us x) s = Ret (x, i') (s\<lparr>sl_next := (sl_next s)(tip (sh_bucket t + i) us \<mapsto> v)\<rparr>)"
    and "buckets (s\<lparr>sl_next := (sl_next s)(tip (sh_bucket t + i) us \<mapsto> v)\<rparr>) (sh_bucket t) (bs[i := us @ vs])"
    and "\<And>s'. buckets s' (sh_bucket t) (bs[i := us @ vs]) \<Longrightarrow>
      \<exists>it. shash_iter_next t i' s' = Ret it s' \<and> lands (sh_bucket t) i us vs (bs[i := us @ vs]) it"
proof -
  let ?b = "sh_bucket t + i" and ?bs = "bs[i := us @ vs]"
  let ?p = "tip ?b us"
  let ?s = "s\<lparr>sl_next := (sl_next s)(?p \<mapsto> first vs)\<rparr>"
  have ch: "chain (sl_next s) ?b (us @ x # vs)" and bk: "sh_bucket t \<noteq> NULL"
    using bucketsD(1) [OF b i] b x by (auto simp: buckets_def)
  have c: "x \<noteq> NULL" "sl_next s x = Some (first vs)" "vs \<noteq> [] \<Longrightarrow> hd vs \<noteq> NULL" "sl_next s ?p = Some x"
    using ch by (auto simp: chain_append chain_head neq_Nil_conv)
  have p: "?p \<in> set (?b # us)" by (rule tip_in_set)
  have p0: "?p \<noteq> NULL" using p bk chain_not_NULL [OF ch] by (metis Un_iff add_is_0 set_ConsD set_append)
  have d: "distinct (?b # us @ x # vs)" by (rule chain_distinct [OF ch])
  have xn: "x \<notin> set (?b # us @ vs)" using d by auto
  have ch': "chain (sl_next ?s) ?b (us @ vs)"
    using chain_cut(1) [OF ch] chain_upd [OF xn] by simp
  have B: "buckets ?s (sh_bucket t) ?bs"
    using b i ch' by (rule buckets_upd [where E = "{}"]) (use p x in auto)
  have i': "i < length ?bs" "sh_bk_size t = int (length ?bs)" using i sz by simp_all
  show thesis
  proof (cases "us = [] \<and> vs = []")
    case True
    let ?k = "sh_bucket t + (i - 1)"
    have "chain (sl_next ?s) ?k (?bs ! (i - 1))" using bucketsD(1) [OF B, of "i - 1"] i by simp
    then have e: "slink_empty ?k ?s = Ret (?bs ! (i - 1) = []) ?s" and n: "sl_next ?s ?k = Some (first (?bs ! (i - 1)))"
      by (rule slink_empty_chain, rule chain_head)
    let ?it = "\<lparr>sh_curr = ?k, sh_iter = \<lparr>sl_prev = ?k, sl_curr = NULL\<rparr>\<rparr>"
    have rm: "shash_iter_rm_curr t (at_pos (sh_bucket t) i us x) s = Ret (x, ?it) ?s"
    proof (cases i)
      case 0
      then show ?thesis using True c bk
        by (simp add: shash_iter_rm_curr_def at_pos_def Let_def slink_iter_init_def slink_empty_def c_eval)
    next
      case (Suc j)
      have n0: "?bs ! j = [] \<Longrightarrow> first (?bs ! j) = NULL" by simp
      show ?thesis using Suc True c bk e n n0
        by (simp add: shash_iter_rm_curr_def at_pos_def Let_def slink_iter_init_def c_eval)
    qed
    have "\<exists>it. shash_iter_next t ?it s' = Ret it s' \<and> lands (sh_bucket t) i us vs ?bs it"
      if "buckets s' (sh_bucket t) ?bs" for s' :: "'a slink_mem_scheme"
      using shash_next_from_empty [OF that i', of us] True i bk by simp
    with rm B show ?thesis by (rule that)
  next
    case False
    then have np: "\<not> (first vs = NULL \<and> ?p = ?b)"
      using c(3) d by (cases vs; cases us rule: rev_cases) auto
    let ?it = "\<lparr>sh_curr = ?b, sh_iter = \<lparr>sl_prev = ?p, sl_curr = ?p\<rparr>\<rparr>"
    have rm: "shash_iter_rm_curr t (at_pos (sh_bucket t) i us x) s = Ret (x, ?it) ?s"
      using c p0 np by (auto simp: shash_iter_rm_curr_def at_pos_def Let_def c_eval)
    have "\<exists>it. shash_iter_next t ?it s' = Ret it s' \<and> lands (sh_bucket t) i us vs ?bs it"
      if B': "buckets s' (sh_bucket t) ?bs" for s' :: "'a slink_mem_scheme"
    proof -
      have nx: "sl_next s' ?p = Some (first vs)"
        using bucketsD(1) [OF B' i'(1)] i chain_head [of _ ?p vs] by (simp add: chain_append)
      obtain it where "shash_iter_scan (sh_bucket t + length ?bs)
          \<lparr>sh_curr = sh_bucket t + Suc i, sh_iter = \<lparr>sl_prev = ?p, sl_curr = NULL\<rparr>\<rparr> s' = Ret it s'"
        "lands (sh_bucket t) i us [] ?bs it"
        using scan_lands [OF B' i'(1)] by force
      then show ?thesis using c(3) p0 bk i' nx
        by (cases vs) (auto simp: shash_iter_next_def slink_iter_term_def slink_iter_next_def c_eval lands_def at_pos_def)
    qed
    with rm B show ?thesis by (rule that)
  qed
qed

text \<open>The buckets at the end of a walk that has passed the elements \<open>us\<close> of bucket \<open>i\<close>.\<close>

definition swept :: "(addr \<Rightarrow> bool) \<Rightarrow> nat \<Rightarrow> addr list \<Rightarrow> addr list \<Rightarrow> addr list list \<Rightarrow> addr list list" where
  "swept P i us vs bs =
     take i bs @ (us @ filter (\<lambda>x. \<not> P x) vs) # map (filter (\<lambda>x. \<not> P x)) (drop (Suc i) bs)"

lemma lands_cases:
  assumes l: "lands bk i us vs bs it" and i: "i < length bs" and b: "bs ! i = us @ vs"
  obtains (fin) "vs = []" "concat (drop (Suc i) bs) = []" "sh_curr it = NULL" "sl_curr (sh_iter it) = NULL"
  | (pos) j us' y ys where "j < length bs" "bs ! j = us' @ y # ys" "it = at_pos bk j us' y"
      "vs @ concat (drop (Suc i) bs) = y # ys @ concat (drop (Suc j) bs)" "swept P i us vs bs = swept P j us' (y # ys) bs"
proof (cases vs)
  case (Cons v ws)
  then show ?thesis using l i b pos [of i us v ws] by (simp add: lands_def)
next
  case Nil
  show ?thesis
  proof (cases "concat (drop (Suc i) bs) = []")
    case True
    then show ?thesis using l Nil fin unfolding lands_def by simp
  next
    case False
    then obtain k y ys rest where k: "drop (Suc i) bs = replicate k [] @ (y # ys) # rest" "it = at_pos bk (Suc i + k) [] y"
      using l Nil unfolding lands_def by (simp only: if_False not_True_eq_False if_not_P) metis
    have bs: "bs = take i bs @ us # replicate k [] @ (y # ys) # rest"
      using id_take_nth_drop [OF i] k(1) b Nil by simp
    have j: "Suc i + k < length bs" using arg_cong [OF k(1), of length] i by simp
    have dr: "drop (Suc (Suc i + k)) bs = rest"
      using arg_cong [OF k(1), of "drop (Suc k)"] by (simp add: add.commute)
    have tk: "take (Suc i + k) bs = take i bs @ us # replicate k []"
      by (subst bs) (use i in \<open>simp add: min_def\<close>)
    have "bs ! (Suc i + k) = [] @ y # ys" by (subst bs) (use i in \<open>simp add: nth_append\<close>)
    moreover have "vs @ concat (drop (Suc i) bs) = y # ys @ concat (drop (Suc (Suc i + k)) bs)"
      unfolding dr using k(1) Nil by simp
    moreover have "swept P i us vs bs = swept P (Suc i + k) [] (y # ys) bs"
      unfolding swept_def dr tk using k(1) Nil by simp
    ultimately show ?thesis using pos [OF j _ k(2)] by blast
  qed
qed

lemma shash_sweep_run:
  assumes "buckets s (sh_bucket t) bs" and "sh_bk_size t = int (length bs)" and "i < length bs"
    and "bs ! i = us @ vs" and "lands (sh_bucket t) i us vs bs it"
  shows "\<exists>s'. shash_sweep t P it seen s = Ret (seen @ vs @ concat (drop (Suc i) bs)) s'
    \<and> buckets s' (sh_bucket t) (swept P i us vs bs)"
  using assms
proof (induction "length (vs @ concat (drop (Suc i) bs))" arbitrary: s bs i us vs it seen rule: less_induct)
  case less
  note b = less.prems(1) and sz = less.prems(2) and i = less.prems(3)
  show ?case
    using less.prems(5) i less.prems(4)
  proof (cases rule: lands_cases [where P = P])
    case fin
    then have "map (filter (\<lambda>x. \<not> P x)) (drop (Suc i) bs) = drop (Suc i) bs" by (intro map_idI) auto
    then have "swept P i us vs bs = bs"
      using fin(1) id_take_nth_drop [OF i] less.prems(4) by (simp add: swept_def)
    moreover have "shash_sweep t P it seen s = Ret seen s"
      using fin(3) by (subst shash_sweep.simps) (simp add: shash_iter_term_def c_eval)
    ultimately show ?thesis using fin b by (simp del: concat_eq_Nil_conv)
  next
    case (pos j us' y ys)
    have bk: "sh_bucket t + j \<noteq> NULL" using b by (simp add: buckets_def)
    have cur: "shash_iter_curr it = y" "\<not> shash_iter_term it"
      using pos(3) bk by (auto simp: shash_iter_curr_def shash_iter_term_def at_pos_def slink_iter_curr_def)
    show ?thesis
    proof (cases "P y")
      case True
      let ?bs = "bs[j := us' @ ys]"
      obtain s1 i1 it1 where s1: "shash_iter_rm_curr t it s = Ret (y, i1) s1" "shash_iter_next t i1 s1 = Ret it1 s1"
          "lands (sh_bucket t) j us' ys ?bs it1" "buckets s1 (sh_bucket t) ?bs"
        using shash_rm_curr_run [OF b pos(1,2) sz] pos(3) by metis
      have step: "shash_sweep t P it seen s = shash_sweep t P it1 (seen @ [y]) s1"
        using True cur s1(1,2) by (subst shash_sweep.simps) (simp add: c_eval)
      have "swept P j us' (y # ys) bs = swept P j us' ys ?bs" using True by (simp add: swept_def)
      moreover have "drop (Suc j) ?bs = drop (Suc j) bs" by simp
      moreover have "\<exists>s'. shash_sweep t P it1 (seen @ [y]) s1 = Ret ((seen @ [y]) @ ys @ concat (drop (Suc j) ?bs)) s'
          \<and> buckets s' (sh_bucket t) (swept P j us' ys ?bs)"
        by (rule less.hyps) (use pos sz s1 in auto)
      ultimately show ?thesis unfolding step using pos(4,5) by simp
    next
      case False
      obtain it1 where s1: "shash_iter_next t it s = Ret it1 s" "lands (sh_bucket t) j (us' @ [y]) ys bs it1"
        using shash_next_keep [OF b pos(1,2) sz] pos(3) by blast
      have step: "shash_sweep t P it seen s = shash_sweep t P it1 (seen @ [y]) s"
        using False cur s1(1) by (subst shash_sweep.simps) (simp add: c_eval)
      have "swept P j us' (y # ys) bs = swept P j (us' @ [y]) ys bs" using False by (simp add: swept_def)
      moreover have "\<exists>s'. shash_sweep t P it1 (seen @ [y]) s = Ret ((seen @ [y]) @ ys @ concat (drop (Suc j) bs)) s'
          \<and> buckets s' (sh_bucket t) (swept P j (us' @ [y]) ys bs)"
        by (rule less.hyps) (use pos sz s1 b in auto)
      ultimately show ?thesis unfolding step using pos(4,5) by simp
    qed
  qed
qed

lemma shash_iter_init_lands:
  assumes b: "buckets s (sh_bucket t) bs" and sz: "sh_bk_size t = int (length bs)" and ne: "bs \<noteq> []"
  shows "\<exists>it. shash_iter_init (Some t) it0 s = Ret it s \<and> lands (sh_bucket t) 0 [] (bs ! 0) bs it"
proof -
  have bk: "sh_bucket t \<noteq> NULL" using b by (simp add: buckets_def)
  have ch: "chain (sl_next s) (sh_bucket t) (bs ! 0)" using bucketsD(1) [OF b, of 0] ne by simp
  show ?thesis
  proof (cases "bs ! 0")
    case Nil
    then have "\<exists>it. shash_iter_next t \<lparr>sh_curr = sh_bucket t, sh_iter = \<lparr>sl_prev = sh_bucket t, sl_curr = NULL\<rparr>\<rparr> s = Ret it s
        \<and> lands (sh_bucket t) 0 [] [] bs it"
      using shash_next_from_empty [OF b _ sz, of 0 "[]"] ne by simp
    then show ?thesis using Nil bk ch
      by (simp add: shash_iter_init_def slink_iter_init_def slink_iter_term_def c_eval)
  next
    case (Cons x xs)
    then show ?thesis using bk ch
      by (simp add: shash_iter_init_def slink_iter_init_def slink_iter_term_def c_eval lands_def at_pos_def)
  qed
qed

subsection \<open>Properties\<close>

text \<open>C4: a walk over the whole table with \<open>shash_iter_init\<close>, \<open>shash_iter_next\<close> and
  \<open>shash_iter_rm_curr\<close> on selected elements ends, visits every element exactly once, in
  bucket order, and leaves exactly the elements that were not selected.\<close>

theorem shash_walk_all:
  assumes b: "buckets s (sh_bucket t) bs" and sz: "sh_bk_size t = int (length bs)" and ne: "bs \<noteq> []"
  shows "\<exists>s'. bindM (shash_iter_init (Some t) it0) (\<lambda>it. shash_sweep t P it []) s = Ret (concat bs) s'
    \<and> buckets s' (sh_bucket t) (map (filter (\<lambda>x. \<not> P x)) bs)"
proof -
  obtain it where it: "shash_iter_init (Some t) it0 s = Ret it s" "lands (sh_bucket t) 0 [] (bs ! 0) bs it"
    using shash_iter_init_lands [OF assms] by blast
  have e: "bs ! 0 @ concat (drop (Suc 0) bs) = concat bs" "swept P 0 [] (bs ! 0) bs = map (filter (\<lambda>x. \<not> P x)) bs"
    using ne by (cases bs; simp add: swept_def)+
  show ?thesis
    using shash_sweep_run [OF b sz _ _ it(2), of P "[]"] it(1) ne unfolding e by (auto simp: c_eval e)
qed

definition demo_smem :: slink_mem where
  "demo_smem = \<lparr>sl_next = [10 \<mapsto> 2, 2 \<mapsto> 4, 4 \<mapsto> 0, 11 \<mapsto> 3, 3 \<mapsto> 0, 5 \<mapsto> 0, 6 \<mapsto> 0]\<rparr>"

definition demo_shash_fn :: "nat \<Rightarrow> nat \<Rightarrow> nat" where
  "demo_shash_fn n k = k mod n"

definition demo_stab :: "slink_mem shash" where
  "demo_stab = \<lparr>sh_bucket = 10, sh_bk_size = 2, sh_elm_cnt = 3, sh_max_chain = 0,
     sh_hash_fn = shash_by demo_shash_fn (\<lambda>x. x), sh_cmp_fn = scmp_by (\<lambda>x. x)\<rparr>"

lemma ball_two: "(\<forall>i < Suc (Suc 0). P i) \<longleftrightarrow> P 0 \<and> P (Suc 0)"
  by (auto simp: less_Suc_eq)

lemma demo_buckets: "buckets demo_smem 10 [[2, 4], [3]]"
  by (simp add: buckets_def ball_two demo_smem_def)

theorem shash_walk_all_witness:
  "\<exists>s'. bindM (shash_iter_init (Some demo_stab) \<lparr>sh_curr = 0, sh_iter = \<lparr>sl_prev = 0, sl_curr = 0\<rparr>\<rparr>) (\<lambda>it. shash_sweep demo_stab (\<lambda>x. x = 3 \<or> x = 2) it []) demo_smem
      = Ret [2, 4, 3] s' \<and> buckets s' 10 [[4], []]"
  using shash_walk_all [of demo_smem demo_stab "[[2, 4], [3]]" "\<lparr>sh_curr = 0, sh_iter = \<lparr>sl_prev = 0, sl_curr = 0\<rparr>\<rparr>" "\<lambda>x. x = 3 \<or> x = 2"] demo_buckets
  by (simp add: demo_stab_def)

lemma demo_shashed: "hashed demo_shash_fn (\<lambda>x. x) [[2, 4], [3]]"
  unfolding hashed_def demo_shash_fn_def by (simp add: ball_two) (simp add: numeral_2_eq_2 [symmetric])

lemma demo_smaps: "shash_maps demo_shash_fn (\<lambda>x. x) demo_smem demo_stab (key_map (\<lambda>x. x) [2, 4, 3])"
  unfolding shash_maps_def shash_rep_def
  using demo_buckets demo_shashed
  by (intro exI [of _ "[[2, 4], [3]]"]) (simp add: demo_stab_def good_hash_def, simp add: demo_shash_fn_def)

lemma demo_scell: "shash_cell demo_smem demo_stab 5" "shash_cell demo_smem demo_stab 6"
  by (simp_all add: shash_cell_def is_link_def demo_smem_def demo_stab_def links_def)

text \<open>C3: after inserting elements with different keys that the table does not hold yet, it maps exactly the old
  and the new keys, and \<open>shash_find\<close> with any element returns the one the table has under its key, the
  inserted one when the key is new, and \<open>NULL\<close> when the key is neither old nor new.\<close>

theorem shash_insert_find:
  assumes "shash_maps h key s t m" and "distinct (map key es)"
    and "\<forall>e \<in> set es. shash_cell s t e \<and> m (key e) = None"
  shows "\<exists>s' t'. bindM (ins_seq shash_insert t es) (\<lambda>t1. bindM (shash_find t1 p) (\<lambda>r. ret (r, t1))) s
        = Ret (case (m ++ key_map key es) (key p) of Some e \<Rightarrow> e | None \<Rightarrow> NULL, t') s'
    \<and> shash_maps h key s' t' (m ++ key_map key es)"
  using sht.insert_find [OF assms, of p] by (simp only: or_NULL_def)

theorem shash_insert_find_witness:
  "(\<exists>s' t'. bindM (ins_seq shash_insert demo_stab [5, 6]) (\<lambda>t1. bindM (shash_find t1 6) (\<lambda>r. ret (r, t1))) demo_smem
      = Ret (6, t') s' \<and> shash_maps demo_shash_fn (\<lambda>x. x) s' t' (key_map (\<lambda>x. x) [2, 4, 3] ++ key_map (\<lambda>x. x) [5, 6]))
    \<and> (\<exists>s' t'. bindM (ins_seq shash_insert demo_stab [5, 6]) (\<lambda>t1. bindM (shash_find t1 9) (\<lambda>r. ret (r, t1))) demo_smem
      = Ret (0, t') s')"
proof -
  have m: "(key_map (\<lambda>x. x) [2, 4, 3] ++ key_map (\<lambda>x. x) [5, 6]) 6 = Some 6"
    "(key_map (\<lambda>x. x) [2, 4, 3] ++ key_map (\<lambda>x. x) [5, 6]) 9 = None" by (simp_all add: key_map_def)
  have c: "\<forall>e \<in> set [5, 6]. shash_cell demo_smem demo_stab e \<and> key_map (\<lambda>x. x) [2, 4, 3] e = None"
    by (simp add: demo_scell key_map_None)
  show ?thesis
    using shash_insert_find [OF demo_smaps _ c, of 6] shash_insert_find [OF demo_smaps _ c, of 9] by (auto simp: m)
qed

text \<open>\<open>shash_rm\<close> returns the element inserted under the key and restores the map.\<close>

theorem shash_insert_remove:
  assumes "shash_maps h key s t m" and "shash_cell s t e" and "m (key e) = None" and "key p = key e"
  shows "\<exists>s' t'. bindM (shash_insert t e) (\<lambda>r. shash_rm (snd r) p) s = Ret (e, t') s' \<and> shash_maps h key s' t' m"
  using assms by (rule sht.insert_remove)

theorem shash_insert_remove_witness:
  "\<exists>s' t'. bindM (shash_insert demo_stab 5) (\<lambda>r. shash_rm (snd r) 5) demo_smem = Ret (5, t') s'
    \<and> shash_maps demo_shash_fn (\<lambda>x. x) s' t' (key_map (\<lambda>x. x) [2, 4, 3])"
  by (rule shash_insert_remove [OF demo_smaps]) (simp_all add: demo_scell key_map_None)

end
