(* ===== verification/ShashCalls.thy ===== *)
theory ShashCalls
  imports ShashSpec
begin

text \<open>
  Tables whose hash and comparison functions read the memory. In a memory in which the
  functions of a table give what hashing and comparing by a key would give, on the elements of
  the table and the sought one, the routines do what they do with the functions of that key,
  so that the results for those carry over.
\<close>

definition shash_pure ::
  "(nat \<Rightarrow> 'k \<Rightarrow> nat) \<Rightarrow> (addr \<Rightarrow> 'k) \<Rightarrow> 'z slink_mem_scheme shash \<Rightarrow> 'z slink_mem_scheme shash" where
  "shash_pure h key t = t\<lparr>sh_hash_fn := shash_by h key, sh_cmp_fn := scmp_by key\<rparr>"

definition hash_like :: "(nat \<Rightarrow> 'k \<Rightarrow> nat) \<Rightarrow> (addr \<Rightarrow> 'k) \<Rightarrow> 'z slink_mem_scheme \<Rightarrow> 'z slink_mem_scheme shash \<Rightarrow> addr \<Rightarrow> bool" where
  "hash_like h key s t e \<longleftrightarrow>
     call_hash (sh_hash_fn t) (sh_bk_size t) e s = Ret (int (h (nat (sh_bk_size t)) (key e))) s"

definition cmp_like :: "(addr \<Rightarrow> 'k) \<Rightarrow> 'z slink_mem_scheme \<Rightarrow> 'z slink_mem_scheme shash \<Rightarrow> addr set \<Rightarrow> addr \<Rightarrow> bool" where
  "cmp_like key s t A p \<longleftrightarrow> (\<forall>x \<in> A. \<exists>c. call_cmp (sh_cmp_fn t) x p s = Ret c s \<and> (c = 0 \<longleftrightarrow> key x = key p))"

lemma shash_pure_sel [simp]:
  "sh_bucket (shash_pure h key t) = sh_bucket t" "sh_bk_size (shash_pure h key t) = sh_bk_size t"
  "sh_elm_cnt (shash_pure h key t) = sh_elm_cnt t" "sh_hash_fn (shash_pure h key t) = shash_by h key"
  "sh_cmp_fn (shash_pure h key t) = scmp_by key"
  "shash_pure h key (t\<lparr>sh_elm_cnt := c\<rparr>) = (shash_pure h key t)\<lparr>sh_elm_cnt := c\<rparr>"
  by (simp_all add: shash_pure_def)

lemma cnt_inj: "(t :: 's shash)\<lparr>sh_elm_cnt := a\<rparr> = t\<lparr>sh_elm_cnt := b\<rparr> \<longleftrightarrow> a = b" "(t :: 's shash) = t\<lparr>sh_elm_cnt := b\<rparr> \<longleftrightarrow> sh_elm_cnt t = b"
  by (cases t; simp)+

lemma slink_find_cong:
  assumes ch: "chain (sl_next s) b xs"
    and f: "pure_on (set xs) (\<lambda>x. cmp x p) f s" and g: "pure_on (set xs) (\<lambda>x. cmp' x p) g s"
    and eq: "\<forall>x \<in> set xs. f x = 0 \<longleftrightarrow> g x = 0"
  shows "slink_find b p cmp rm s = slink_find b p cmp' rm s"
proof (cases "\<exists>x \<in> set xs. f x = 0")
  case False
  then show ?thesis using slink_find_none [of s b xs cmp p f rm] slink_find_none [of s b xs cmp' p g rm] ch f g eq by simp
next
  case True
  then obtain us x vs where v: "xs = us @ x # vs" "f x = 0" "\<forall>y \<in> set us. f y \<noteq> 0"
    using split_list_first_prop [of xs "\<lambda>x. f x = 0"] by blast
  have "pure_on (set (us @ [x])) (\<lambda>x. cmp x p) f s" "pure_on (set (us @ [x])) (\<lambda>x. cmp' x p) g s"
    using f g v(1) by (auto intro: pure_on_subset)
  then show ?thesis
    using slink_find_some [of s b us x vs cmp p f rm] slink_find_some [of s b us x vs cmp' p g rm] ch v eq by simp
qed

lemma cmp_like_pure:
  assumes "cmp_like key s t A p"
  obtains f where "pure_on A (\<lambda>x. call_cmp (sh_cmp_fn t) x p) f s" and "\<forall>x \<in> A. f x = 0 \<longleftrightarrow> key x = key p"
  using assms unfolding cmp_like_def pure_on_def by metis

text \<open>The search of the bucket of \<open>p\<close>, with either functions.\<close>

lemma bucket_search:
  assumes m: "shash_maps h key s (shash_pure h key t) m" and c: "cmp_like key s t (ran m) p"
  shows "slink_find (sh_bucket t + h (nat (sh_bk_size t)) (key p)) p (call_cmp (sh_cmp_fn t)) rm s
    = slink_find (sh_bucket t + h (nat (sh_bk_size t)) (key p)) p (call_cmp (scmp_by key)) rm s"
proof -
  obtain bs where R: "shash_rep h key s (shash_pure h key t) bs" "distinct (map key (concat bs))" "m = key_map key (concat bs)"
    using m by (auto simp: shash_maps_def)
  let ?i = "h (length bs) (key p)"
  have n: "nat (sh_bk_size t) = length bs" using R(1) by (simp add: shash_rep_def)
  note i = shash_bucket(1) [OF R(1), of "key p"]
  have "set (bs ! ?i) \<subseteq> ran m"
    using nth_mem [OF i] key_map_Some [OF R(2)] R(3) unfolding ran_def by fastforce
  then have "cmp_like key s t (set (bs ! ?i)) p" using c unfolding cmp_like_def by blast
  then obtain f where f: "pure_on (set (bs ! ?i)) (\<lambda>x. call_cmp (sh_cmp_fn t) x p) f s"
      "\<forall>x \<in> set (bs ! ?i). f x = 0 \<longleftrightarrow> key x = key p" by (rule cmp_like_pure)
  show ?thesis unfolding n
    by (rule slink_find_cong [where xs = "bs ! ?i" and f = f and g = "\<lambda>x. if key x = key p then 0 else 1"])
       (use shash_bucket(2) [OF R(1), of "key p"] f scmp_by_pure in auto)
qed

lemma shash_index_ok:
  "shash_maps h key s (shash_pure h key t) m \<Longrightarrow> int (h (nat (sh_bk_size t)) k) < sh_bk_size t"
  using shash_bucket(1) [of h key s "shash_pure h key t" _ k] by (auto simp: shash_maps_def shash_rep_def)

lemma shash_find_calls:
  assumes "shash_maps h key s (shash_pure h key t) m" and "hash_like h key s t p" and "cmp_like key s t (ran m) p"
  shows "shash_find t p s = Ret (or_NULL (m (key p))) s"
proof -
  have "shash_find t p s = shash_find (shash_pure h key t) p s"
    using bucket_search [OF assms(1, 3), of False] assms(2) shash_index_ok [OF assms(1), of "key p"]
    by (simp add: shash_find_def hash_like_def shash_by_run c_eval)
  then show ?thesis using shash_find_maps [OF assms(1)] by simp
qed

lemma shash_insert_calls:
  assumes "shash_maps h key s (shash_pure h key t) m" and "hash_like h key s t e"
    and "shash_cell s t e" and "m (key e) = None"
  shows "\<exists>i nx c. shash_insert t e s = Ret (i, t\<lparr>sh_elm_cnt := c\<rparr>) (s\<lparr>sl_next := nx\<rparr>)
    \<and> shash_maps h key (s\<lparr>sl_next := nx\<rparr>) (shash_pure h key (t\<lparr>sh_elm_cnt := c\<rparr>)) (m(key e \<mapsto> e))
    \<and> (\<forall>p. shash_cell s t p \<longrightarrow> shash_cell (s\<lparr>sl_next := nx\<rparr>) t p) \<and> dom nx = dom (sl_next s)"
proof -
  have cell: "shash_cell s (shash_pure h key t) e" using assms(3) by (simp add: shash_cell_def)
  obtain i nx c where r: "shash_insert (shash_pure h key t) e s = Ret (i, (shash_pure h key t)\<lparr>sh_elm_cnt := c\<rparr>) (s\<lparr>sl_next := nx\<rparr>)"
    and m: "shash_maps h key (s\<lparr>sl_next := nx\<rparr>) ((shash_pure h key t)\<lparr>sh_elm_cnt := c\<rparr>) (m(key e \<mapsto> e))"
    and cs: "\<forall>p. shash_cell s (shash_pure h key t) p \<longrightarrow> shash_cell (s\<lparr>sl_next := nx\<rparr>) ((shash_pure h key t)\<lparr>sh_elm_cnt := c\<rparr>) p"
    and d: "dom nx = dom (sl_next s)"
    using shash_insert_maps [OF assms(1) cell assms(4)] by blast
  have "shash_insert t e s = Ret (i, t\<lparr>sh_elm_cnt := c\<rparr>) (s\<lparr>sl_next := nx\<rparr>)"
    using r assms(2) shash_index_ok [OF assms(1), of "key e"]
    by (auto simp: shash_insert_def shash_insert_elm_def hash_like_def shash_by_run c_eval cnt_inj
        split: option.splits outcome.splits)
  then show ?thesis using m cs d by (auto simp: shash_cell_def)
qed

lemma shash_rm_calls:
  assumes "shash_maps h key s (shash_pure h key t) m" and "hash_like h key s t p" and "cmp_like key s t (ran m) p"
  shows "\<exists>nx c. shash_rm t p s = Ret (or_NULL (m (key p)), t\<lparr>sh_elm_cnt := c\<rparr>) (s\<lparr>sl_next := nx\<rparr>)
    \<and> shash_maps h key (s\<lparr>sl_next := nx\<rparr>) (shash_pure h key (t\<lparr>sh_elm_cnt := c\<rparr>)) (m(key p := None))
    \<and> (\<forall>p. shash_cell s t p \<longrightarrow> shash_cell (s\<lparr>sl_next := nx\<rparr>) t p) \<and> dom nx = dom (sl_next s)"
proof -
  obtain nx c where r: "shash_rm (shash_pure h key t) p s = Ret (or_NULL (m (key p)), (shash_pure h key t)\<lparr>sh_elm_cnt := c\<rparr>) (s\<lparr>sl_next := nx\<rparr>)"
    and m: "shash_maps h key (s\<lparr>sl_next := nx\<rparr>) ((shash_pure h key t)\<lparr>sh_elm_cnt := c\<rparr>) (m(key p := None))"
    and cs: "\<forall>p. shash_cell s (shash_pure h key t) p \<longrightarrow> shash_cell (s\<lparr>sl_next := nx\<rparr>) ((shash_pure h key t)\<lparr>sh_elm_cnt := c\<rparr>) p"
    and d: "dom nx = dom (sl_next s)"
    using shash_rm_maps [OF assms(1), of p] by blast
  have "shash_rm t p s = Ret (or_NULL (m (key p)), t\<lparr>sh_elm_cnt := c\<rparr>) (s\<lparr>sl_next := nx\<rparr>)"
    using r assms(2) shash_index_ok [OF assms(1), of "key p"] bucket_search [OF assms(1, 3), of True]
    by (auto simp: shash_rm_def shash_rm_elm_def hash_like_def shash_by_run c_eval cnt_inj
        split: option.splits outcome.splits if_splits)
  then show ?thesis using m cs d by (auto simp: shash_cell_def)
qed

text \<open>Only the keys of the elements matter.\<close>

lemma shash_maps_rekey:
  assumes "shash_maps h key s (shash_pure h key t) m" and eq: "\<forall>x \<in> ran m. key' x = key x"
  shows "shash_maps h key' s (shash_pure h key' t) m"
proof -
  obtain bs where R: "shash_rep h key s (shash_pure h key t) bs" "distinct (map key (concat bs))" "m = key_map key (concat bs)"
    using assms(1) by (auto simp: shash_maps_def)
  have k: "key' x = key x" if "x \<in> set (concat bs)" for x
    using eq key_map_Some [OF R(2), of "key x" x] R(3) that by (auto simp: ran_def)
  then have mk: "map key' (concat bs) = map key (concat bs)" by (intro map_cong) simp_all
  have "key_map key' (concat bs) = key_map key (concat bs)"
    unfolding key_map_def using k by (intro arg_cong [where f = map_of] map_cong) simp_all
  moreover have "hashed h key' bs"
    using R(1) k nth_mem by (fastforce simp: shash_rep_def hashed_def)
  ultimately show ?thesis
    using R unfolding shash_maps_def by (intro exI [of _ bs]) (simp add: shash_rep_def mk del: map_concat)
qed

text \<open>The cells of a table: its bucket heads and its elements. What happens elsewhere in memory
  does not matter.\<close>

definition tab_cells :: "'z slink_mem_scheme shash \<Rightarrow> ('k \<rightharpoonup> addr) \<Rightarrow> addr set" where
  "tab_cells t m = links (sh_bucket t) (nat (sh_bk_size t)) \<union> ran m"

lemma shash_maps_elem:
  assumes "shash_maps h key s t m" and "m k = Some x"
  shows "key x = k" and "x \<noteq> NULL" and "x \<in> dom (sl_next s)" and "x \<notin> links (sh_bucket t) (nat (sh_bk_size t))"
proof -
  obtain bs where R: "shash_rep h key s t bs" "distinct (map key (concat bs))" "m = key_map key (concat bs)"
    using assms(1) by (auto simp: shash_maps_def)
  then have x: "x \<in> set (concat bs)" and k: "key x = k" using key_map_Some [OF R(2)] assms(2) by auto
  show "key x = k" by (rule k)
  obtain i where i: "i < length bs" "x \<in> set (bs ! i)" using x by (metis UN_E in_set_conv_nth set_concat)
  have b: "buckets s (sh_bucket t) bs" "nat (sh_bk_size t) = length bs" using R(1) by (simp_all add: shash_rep_def)
  note ch = bucketsD(1) [OF b(1) i(1)]
  show "x \<noteq> NULL" using chain_not_NULL [OF ch] i(2) by metis
  show "x \<in> dom (sl_next s)" using chain_dom [OF ch, of x] i(2) by auto
  have "x \<noteq> sh_bucket t + j" if "j < length bs" for j
    using chain_distinct [OF ch] bucketsD(2) [OF b(1) i(1) that] i(2) by (cases "j = i") auto
  then show "x \<notin> links (sh_bucket t) (nat (sh_bk_size t))"
    using b(2) by (auto simp: links_def) (metis add_less_cancel_left le_Suc_ex)
qed

text \<open>A removed element is off the table.\<close>

lemma tab_cells_rm:
  assumes "shash_maps h key s t m" and "m k = Some x" and "sh_bucket t' = sh_bucket t" and "sh_bk_size t' = sh_bk_size t"
  shows "x \<notin> tab_cells t' (m(k := None))"
proof -
  note el = shash_maps_elem [OF assms(1)]
  have "x \<notin> ran (m(k := None))" using el(1) [OF assms(2)] el(1) by (auto simp: ran_def split: if_splits)
  then show ?thesis using el(4) [OF assms(2)] assms(3,4) by (simp add: tab_cells_def)
qed

lemma tab_cells_dom:
  assumes "shash_maps h key s t m"
  shows "tab_cells t m \<subseteq> dom (sl_next s)"
proof -
  obtain bs where R: "shash_rep h key s t bs" using assms by (auto simp: shash_maps_def)
  have "sh_bucket t + i \<in> dom (sl_next s)" if "i < length bs" for i
    using chain_dom [OF bucketsD(1) [of s "sh_bucket t" bs i], of "sh_bucket t + i"] R that by (auto simp: shash_rep_def)
  then have "links (sh_bucket t) (nat (sh_bk_size t)) \<subseteq> dom (sl_next s)"
    using R by (auto simp: links_def shash_rep_def) (metis add_less_cancel_left domD le_Suc_ex)
  then show ?thesis using shash_maps_elem(3) [OF assms] by (auto simp: tab_cells_def ran_def)
qed

lemma buckets_cong:
  assumes "buckets s bk bs" and "\<And>i x. i < length bs \<Longrightarrow> x \<in> set ((bk + i) # bs ! i) \<Longrightarrow> sl_next s' x = sl_next s x"
  shows "buckets s' bk bs"
proof -
  have "chain (sl_next s') (bk + i) (bs ! i)" if "i < length bs" for i
    using bucketsD(1) [OF assms(1) that] chain_cong [of "bk + i" "bs ! i" "sl_next s" "sl_next s'"] assms(2) [OF that] by auto
  then show ?thesis using assms(1) by (simp add: buckets_def)
qed

lemma shash_maps_frame:
  assumes "shash_maps h key s t m" and "\<And>x. x \<in> tab_cells t m \<Longrightarrow> sl_next s' x = sl_next s x"
  shows "shash_maps h key s' t m"
proof -
  obtain bs where R: "shash_rep h key s t bs" "distinct (map key (concat bs))" "m = key_map key (concat bs)"
    using assms(1) by (auto simp: shash_maps_def)
  have n: "nat (sh_bk_size t) = length bs" using R(1) by (simp add: shash_rep_def)
  have "x \<in> tab_cells t m" if "i < length bs" "x \<in> set ((sh_bucket t + i) # bs ! i)" for i x
  proof (cases "x = sh_bucket t + i")
    case True
    then show ?thesis using that(1) n by (simp add: tab_cells_def links_def)
  next
    case False
    then have "x \<in> set (concat bs)" using that nth_mem by fastforce
    then have "m (key x) = Some x" using key_map_Some [OF R(2)] R(3) by blast
    then show ?thesis by (auto simp: tab_cells_def ran_def)
  qed
  then have "buckets s' (sh_bucket t) bs"
    using R(1) assms(2) unfolding shash_rep_def by (meson buckets_cong)
  then have "shash_rep h key s' t bs" using R(1) by (simp add: shash_rep_def)
  then show ?thesis using R(2, 3) unfolding shash_maps_def by blast
qed

end
