(* ===== verification/KvMap.thy ===== *)
theory KvMap
  imports ShashCalls
begin

text \<open>
  The map from 64-bit keys to pointers and objects of include/cpptype/hash-obj.h and
  common/cpptype/hash-obj.cpp (\<open>Uint64KvMap\<close> and its iterator) on top of the hash table with
  singly linked buckets. A record is allocated for every entry; the table's hash and comparison
  functions read the key in the record. An object pointer is the address it holds (the
  reference count that \<open>boost::intrusive_ptr\<close> keeps beside it is not modelled). \<open>alloc s\<close> is
  what \<open>malloc\<close> answers in memory \<open>s\<close>, \<open>loc\<close> the address of the local record a search is
  made with.
\<close>

subsection \<open>Data and operations\<close>

record kv_mem = slink_mem +
  kv_key :: "addr \<rightharpoonup> 64 word"
  kv_value :: "addr \<rightharpoonup> addr"
  kv_obj :: "addr \<rightharpoonup> addr"

type_synonym kv_tab = "kv_mem shash"

text \<open>A 64-bit unsigned converted to an int.\<close>

definition to_int :: "64 word \<Rightarrow> int" where
  "to_int w = sint (ucast w :: 32 word)"

definition kv64_sh_hash_chain :: "int \<Rightarrow> addr \<Rightarrow> (kv_mem, int) cprog" where
  "kv64_sh_hash_chain nsize elm =
     bindM (rd kv_key elm) (\<lambda>k.
     if (word_of_int nsize :: 64 word) = 0 then abortM Div_zero else ret (to_int (k mod word_of_int nsize)))"

definition kv64_sh_hash_cmp_chain :: "addr \<Rightarrow> addr \<Rightarrow> (kv_mem, int) cprog" where
  "kv64_sh_hash_cmp_chain e1 e2 =
     bindM (rd kv_key e1) (\<lambda>k1. bindM (rd kv_key e2) (\<lambda>k2. ret (to_int (k1 - k2))))"

definition kv64_ctor :: "kv_mem slink_alloc \<Rightarrow> int \<Rightarrow> (kv_mem, kv_tab) cprog" where
  "kv64_ctor alloc_links nsize =
     shash_init alloc_links nsize (Some kv64_sh_hash_chain) (Some kv64_sh_hash_cmp_chain)"

definition kv64_dtor :: "kv_tab \<Rightarrow> (kv_mem, unit) cprog" where
  "kv64_dtor tab = shash_free tab None (sh_bk_size tab)"

text \<open>\<open>malloc\<close> followed by \<open>memset\<close> to zero.\<close>

definition malloc_kv :: "(kv_mem \<Rightarrow> addr) \<Rightarrow> (kv_mem, addr) cprog" where
  "malloc_kv alloc s =
     (let p = alloc s in
      if p = NULL then Abort (Fault NULL)
      else Ret p (s\<lparr>sl_next := (sl_next s)(p \<mapsto> NULL), kv_key := (kv_key s)(p \<mapsto> 0),
                    kv_value := (kv_value s)(p \<mapsto> NULL), kv_obj := (kv_obj s)(p \<mapsto> NULL)\<rparr>))"

definition free_kv :: "addr \<Rightarrow> (kv_mem, unit) cprog" where
  "free_kv p s = Ret () (s\<lparr>sl_next := (sl_next s)(p := None), kv_key := (kv_key s)(p := None),
                          kv_value := (kv_value s)(p := None), kv_obj := (kv_obj s)(p := None)\<rparr>)"

definition kv64_alloc :: "(kv_mem \<Rightarrow> addr) \<Rightarrow> 64 word \<Rightarrow> addr \<Rightarrow> (kv_mem, addr) cprog" where
  "kv64_alloc alloc key val =
     bindM (malloc_kv alloc) (\<lambda>rec.
     seqM (wr kv_key kv_key_update rec key)
    (seqM (wr kv_value kv_value_update rec val)
     (ret rec)))"

definition kv64_alloc_obj :: "(kv_mem \<Rightarrow> addr) \<Rightarrow> 64 word \<Rightarrow> addr \<Rightarrow> (kv_mem, addr) cprog" where
  "kv64_alloc_obj alloc key val =
     bindM (kv64_alloc alloc key NULL) (\<lambda>rec.
     seqM (wr kv_obj kv_obj_update rec val) (ret rec))"

definition kv64_insert :: "(kv_mem \<Rightarrow> addr) \<Rightarrow> kv_tab \<Rightarrow> 64 word \<Rightarrow> addr \<Rightarrow> (kv_mem, int \<times> kv_tab) cprog" where
  "kv64_insert alloc tab key val = bindM (kv64_alloc alloc key val) (\<lambda>rec. shash_insert tab rec)"

definition kv64_insert_obj :: "(kv_mem \<Rightarrow> addr) \<Rightarrow> kv_tab \<Rightarrow> 64 word \<Rightarrow> addr \<Rightarrow> (kv_mem, int \<times> kv_tab) cprog" where
  "kv64_insert_obj alloc tab key val = bindM (kv64_alloc_obj alloc key val) (\<lambda>rec. shash_insert tab rec)"

text \<open>The local record \<open>fnd\<close>, with its key set, and its end.\<close>

definition push_fnd :: "addr \<Rightarrow> 64 word \<Rightarrow> (kv_mem, unit) cprog" where
  "push_fnd loc key s = Ret () (s\<lparr>sl_next := (sl_next s)(loc \<mapsto> NULL), kv_key := (kv_key s)(loc \<mapsto> key),
     kv_value := (kv_value s)(loc \<mapsto> NULL), kv_obj := (kv_obj s)(loc \<mapsto> NULL)\<rparr>)"

definition kv64_value :: "addr \<Rightarrow> kv_tab \<Rightarrow> 64 word \<Rightarrow> (kv_mem, addr) cprog" where
  "kv64_value loc tab key =
     seqM (push_fnd loc key)
    (bindM (shash_find tab loc) (\<lambda>lnk.
     bindM (if lnk \<noteq> NULL then rd kv_value lnk else ret NULL) (\<lambda>v.
     seqM (free_kv loc) (ret v))))"

definition kv64_object :: "addr \<Rightarrow> kv_tab \<Rightarrow> 64 word \<Rightarrow> (kv_mem, addr) cprog" where
  "kv64_object loc tab key =
     seqM (push_fnd loc key)
    (bindM (shash_find tab loc) (\<lambda>lnk.
     bindM (if lnk \<noteq> NULL then rd kv_obj lnk else ret NULL) (\<lambda>v.
     seqM (free_kv loc) (ret v))))"

text \<open>Returns the object, \<open>*val\<close> and the table.\<close>

definition kv64_remove :: "addr \<Rightarrow> kv_tab \<Rightarrow> 64 word \<Rightarrow> (kv_mem, addr \<times> addr \<times> kv_tab) cprog" where
  "kv64_remove loc tab key =
     seqM (push_fnd loc key)
    (bindM (shash_rm tab loc) (\<lambda>r.
     bindM
      (if fst r \<noteq> NULL
       then bindM (rd kv_obj (fst r)) (\<lambda>obj. bindM (rd kv_value (fst r)) (\<lambda>val.
            seqM (wr kv_obj kv_obj_update (fst r) NULL)
           (seqM (free_kv (fst r))
            (ret (obj, val)))))
       else ret (NULL, NULL)) (\<lambda>res.
     seqM (free_kv loc) (ret (fst res, snd res, snd r)))))"

subsection \<open>The iterator\<close>

definition kv64_iter_value :: "shash_iter \<Rightarrow> (kv_mem, addr) cprog" where
  "kv64_iter_value iter = (let link = sl_curr (sh_iter iter) in if link \<noteq> NULL then rd kv_value link else ret NULL)"

definition kv64_iter_key :: "shash_iter \<Rightarrow> (kv_mem, 64 word) cprog" where
  "kv64_iter_key iter = (let link = sl_curr (sh_iter iter) in if link \<noteq> NULL then rd kv_key link else ret (- 1))"

definition kv64_iter_deref :: "shash_iter \<Rightarrow> (kv_mem, addr) cprog" where
  "kv64_iter_deref iter = (let cur = sl_curr (sh_iter iter) in if cur \<noteq> NULL then rd kv_obj cur else ret NULL)"

text \<open>Equality with the end of the map: no current bucket and no current element.\<close>

definition kv64_iter_at_end :: "shash_iter \<Rightarrow> bool" where
  "kv64_iter_at_end iter \<longleftrightarrow> sh_curr iter = NULL \<and> sl_curr (sh_iter iter) = NULL"

text \<open>Returns the object, \<open>*val\<close> when it is set, and the iterator.\<close>

definition kv64_iter_takeout :: "kv_tab \<Rightarrow> shash_iter \<Rightarrow> (kv_mem, addr \<times> addr option \<times> shash_iter) cprog" where
  "kv64_iter_takeout tab iter =
     bindM (shash_iter_rm_curr tab iter) (\<lambda>r.
     if fst r \<noteq> NULL
     then bindM (rd kv_obj (fst r)) (\<lambda>obj. bindM (rd kv_value (fst r)) (\<lambda>val.
          seqM (wr kv_obj kv_obj_update (fst r) NULL)
         (seqM (free_kv (fst r))
          (ret (obj, Some val, snd r)))))
     else ret (NULL, None, snd r))"

partial_function (option) kv64_clear_loop :: "kv_tab \<Rightarrow> shash_iter \<Rightarrow> (kv_mem, unit) cprog" where
  "kv64_clear_loop tab iter s =
     (if kv64_iter_at_end iter then ret ()
      else bindM (kv64_iter_takeout tab iter) (\<lambda>r.
           bindM (shash_iter_next tab (snd (snd r))) (\<lambda>iter'. kv64_clear_loop tab iter'))) s"

text \<open>\<open>junk\<close>: what the iterator holds before it is initialised.\<close>

definition kv64_clear :: "shash_iter \<Rightarrow> kv_tab \<Rightarrow> (kv_mem, unit) cprog" where
  "kv64_clear junk tab = bindM (shash_iter_init (Some tab) junk) (\<lambda>iter. kv64_clear_loop tab iter)"

end
