(* ===== verification/ShashClear.thy ===== *)
theory ShashClear
  imports ShashProps ShashCalls
begin

text \<open>
  Emptying a table through its iterator, the way the C++ maps on \<open>shash\<close> do it: take out the
  current element, free its record, advance. The interface names what such a map's
  \<open>iter_takeout\<close> does on top of \<open>shash_iter_rm_curr\<close>; that the loop ends with every bucket
  empty and every record freed is shown once for all of them.
\<close>

subsection \<open>Freeing a removed element\<close>

lemma buckets_gone:
  assumes b: "buckets s bk bs" and x: "\<And>j. j < length bs \<Longrightarrow> x \<notin> set ((bk + j) # bs ! j)"
    and nx: "sl_next s' = (sl_next s)(x := None)"
  shows "buckets s' bk bs"
  using b by (rule buckets_cong) (use x nx in auto)

lemma removed_not_in:
  assumes b: "buckets s bk bs" and i: "i < length bs" and x: "bs ! i = us @ x # vs" and j: "j < length bs"
  shows "x \<notin> set ((bk + j) # bs[i := us @ vs] ! j)"
proof (cases "j = i")
  case True
  then show ?thesis using chain_distinct [OF bucketsD(1) [OF b i]] i x by auto
next
  case False
  then show ?thesis using bucketsD(2) [OF b i j] x by auto
qed

lemma distinct_rest:
  assumes b: "buckets s bk bs" and j: "j < length bs" and y: "bs ! j = us @ y # ys"
  shows "y \<notin> set (ys @ concat (drop (Suc j) bs))"
proof -
  have "y \<notin> set (bs ! k)" if "k < length bs" "k \<noteq> j" for k
    using bucketsD(2) [OF b j that] y by auto
  then have "y \<notin> set b" if "b \<in> set (drop (Suc j) bs)" for b
    using that by (auto simp: in_set_conv_nth [of b])
  then have "y \<notin> set (concat (drop (Suc j) bs))" by auto
  moreover have "y \<notin> set ys" using chain_distinct [OF bucketsD(1) [OF b j]] y by auto
  ultimately show ?thesis by simp
qed

lemma tip_dom: "chain h p (us @ x # vs) \<Longrightarrow> tip p us \<in> dom h"
  by (auto simp: chain_append)

lemma map_filter_none: "map (filter (\<lambda>x. False)) bs = replicate (length bs) []"
  by (induction bs) auto

lemma swept_all: "i < length bs \<Longrightarrow> swept (\<lambda>x. True) i us vs bs = take i bs @ us # replicate (length bs - Suc i) []"
  by (simp add: swept_def map_filter_none)

lemma shash_maps_empty:
  assumes "buckets s (sh_bucket t) (replicate n [])" and "sh_bk_size t = int n" and "n > 0" and "good_hash h"
  shows "shash_maps h key s (shash_pure h key (t\<lparr>sh_elm_cnt := 0\<rparr>)) Map.empty"
  using assms unfolding shash_maps_def shash_rep_def
  by (intro exI [of _ "replicate n []"]) (auto simp: hashed_def key_map_def)

text \<open>A table that \<open>shash_init\<close> made has only empty buckets.\<close>

lemma slinks_init:
  assumes "\<And>i. i < n \<Longrightarrow> sl_next s (b + i) \<noteq> None"
  shows "forM [0..<n] (\<lambda>i. slink_init (b + i)) s = Ret () (s\<lparr>sl_next := (\<lambda>p. if p \<in> links b n then Some NULL else sl_next s p)\<rparr>)"
  using assms
proof (induction n)
  case 0
  then show ?case by (simp add: c_eval links_def)
next
  case (Suc n)
  let ?s = "s\<lparr>sl_next := (\<lambda>p. if p \<in> links b n then Some NULL else sl_next s p)\<rparr>"
  have "forM [0..<n] (\<lambda>i. slink_init (b + i)) s = Ret () ?s" by (rule Suc.IH) (use Suc.prems in simp)
  then have step: "forM [0..<Suc n] (\<lambda>i. slink_init (b + i)) s = slink_init (b + n) ?s" by (simp add: forM_snoc)
  have f: "(\<lambda>p. if p \<in> links b n then Some NULL else sl_next s p)(b + n \<mapsto> NULL) = (\<lambda>p. if p \<in> links b (Suc n) then Some NULL else sl_next s p)"
    by (auto simp: fun_eq_iff links_def)
  have "sl_next s (b + n) \<noteq> None" using Suc.prems by simp
  then have "slink_init (b + n) ?s = Ret () (s\<lparr>sl_next := (\<lambda>p. if p \<in> links b n then Some NULL else sl_next s p)(b + n \<mapsto> NULL)\<rparr>)"
    by (auto simp: slink_init_def c_eval)
  then show ?case unfolding step f .
qed

lemma shash_init_run:
  assumes "alloc s n = (b, junk)" and "b \<noteq> NULL"
  shows "shash_init alloc (int n) h c s
      = Ret \<lparr>sh_bucket = b, sh_bk_size = int n, sh_elm_cnt = 0, sh_max_chain = 0, sh_hash_fn = h, sh_cmp_fn = c\<rparr>
          (s\<lparr>sl_next := (\<lambda>p. if p \<in> links b n then Some NULL else sl_next s p)\<rparr>)"
    and "buckets (s\<lparr>sl_next := (\<lambda>p. if p \<in> links b n then Some NULL else sl_next s p)\<rparr>) b (replicate n [])"
proof -
  let ?s = "s\<lparr>sl_next := (\<lambda>p. if p \<in> links b n then Some junk else sl_next s p)\<rparr>"
  have "forM [0..<n] (\<lambda>i. slink_init (b + i)) ?s = Ret () (?s\<lparr>sl_next := (\<lambda>p. if p \<in> links b n then Some NULL else sl_next ?s p)\<rparr>)"
    by (rule slinks_init) (simp add: links_def)
  moreover have "(\<lambda>p. if p \<in> links b n then Some NULL else sl_next ?s p) = (\<lambda>p. if p \<in> links b n then Some NULL else sl_next s p)" by auto
  moreover have "?s\<lparr>sl_next := f\<rparr> = s\<lparr>sl_next := f\<rparr>" for f by simp
  ultimately have "forM [0..<n] (\<lambda>i. slink_init (b + i)) ?s = Ret () (s\<lparr>sl_next := (\<lambda>p. if p \<in> links b n then Some NULL else sl_next s p)\<rparr>)"
    by (simp only:)
  then show "shash_init alloc (int n) h c s
      = Ret \<lparr>sh_bucket = b, sh_bk_size = int n, sh_elm_cnt = 0, sh_max_chain = 0, sh_hash_fn = h, sh_cmp_fn = c\<rparr>
          (s\<lparr>sl_next := (\<lambda>p. if p \<in> links b n then Some NULL else sl_next s p)\<rparr>)"
    using assms by (simp add: shash_init_def malloc_slinks_def c_eval Let_def)
  show "buckets (s\<lparr>sl_next := (\<lambda>p. if p \<in> links b n then Some NULL else sl_next s p)\<rparr>) b (replicate n [])"
    using assms(2) by (simp add: buckets_def links_def)
qed

subsection \<open>The interface\<close>

locale shash_clearing =
  fixes takeout :: "'z slink_mem_scheme shash \<Rightarrow> shash_iter \<Rightarrow> ('z slink_mem_scheme, 'r \<times> 'q \<times> shash_iter) cprog"
    and loop :: "'z slink_mem_scheme shash \<Rightarrow> shash_iter \<Rightarrow> ('z slink_mem_scheme, unit) cprog"
    and live :: "'z slink_mem_scheme \<Rightarrow> addr \<Rightarrow> bool"
    and gone :: "addr \<Rightarrow> 'z slink_mem_scheme \<Rightarrow> 'z slink_mem_scheme"
  assumes takeout_law: "shash_iter_rm_curr t it s = Ret (x, it') s' \<Longrightarrow> x \<noteq> NULL \<Longrightarrow> live s' x \<Longrightarrow>
      \<exists>r q. takeout t it s = Ret (r, q, it') (gone x s')"
    and loop_law: "loop t it s =
      (if sh_curr it = NULL \<and> sl_curr (sh_iter it) = NULL then ret ()
       else bindM (takeout t it) (\<lambda>r. bindM (shash_iter_next t (snd (snd r))) (\<lambda>it'. loop t it'))) s"
    and gone_links: "sl_next (gone x s) = (sl_next s)(x := None)"
    and live_gone: "live s y \<Longrightarrow> y \<noteq> x \<Longrightarrow> live (gone x s) y"
    and live_links: "live (s\<lparr>sl_next := nx\<rparr>) y \<longleftrightarrow> live s y"
begin

lemma step_run:
  assumes b: "buckets s (sh_bucket t) bs" and sz: "sh_bk_size t = int (length bs)" and i: "i < length bs"
    and x: "bs ! i = us @ x # vs" and live: "live s x"
  obtains it v s1 where "loop t (at_pos (sh_bucket t) i us x) s = loop t it s1"
    and "s1 = gone x (s\<lparr>sl_next := (sl_next s)(tip (sh_bucket t + i) us \<mapsto> v)\<rparr>)"
    and "buckets s1 (sh_bucket t) (bs[i := us @ vs])" and "lands (sh_bucket t) i us vs (bs[i := us @ vs]) it"
proof -
  let ?s = "\<lambda>v. s\<lparr>sl_next := (sl_next s)(tip (sh_bucket t + i) us \<mapsto> v)\<rparr>" and ?bs = "bs[i := us @ vs]"
  obtain i' v where rm: "shash_iter_rm_curr t (at_pos (sh_bucket t) i us x) s = Ret (x, i') (?s v)"
    and B: "buckets (?s v) (sh_bucket t) ?bs"
    and go: "\<And>s'. buckets s' (sh_bucket t) ?bs \<Longrightarrow> \<exists>it. shash_iter_next t i' s' = Ret it s' \<and> lands (sh_bucket t) i us vs ?bs it"
    using shash_rm_curr_run [OF b i x sz] by blast
  have x0: "x \<noteq> NULL" using chain_not_NULL [OF bucketsD(1) [OF b i]] x by auto
  have "live (?s v) x" using live by (simp add: live_links)
  with takeout_law [OF rm x0] obtain r q where t: "takeout t (at_pos (sh_bucket t) i us x) s = Ret (r, q, i') (gone x (?s v))" by blast
  have G: "buckets (gone x (?s v)) (sh_bucket t) ?bs"
    using B by (rule buckets_gone) (use removed_not_in [OF b i x] gone_links in auto)
  from go [OF this] obtain it where n: "shash_iter_next t i' (gone x (?s v)) = Ret it (gone x (?s v))" "lands (sh_bucket t) i us vs ?bs it"
    by blast
  have "sh_curr (at_pos (sh_bucket t) i us x) \<noteq> NULL" using b by (simp add: at_pos_def buckets_def)
  then have "loop t (at_pos (sh_bucket t) i us x) s = loop t it (gone x (?s v))"
    using t n(1) by (subst loop_law) (simp add: c_eval)
  then show thesis using that [OF _ refl G n(2)] by blast
qed

lemma loop_clears:
  assumes "buckets s (sh_bucket t) bs" and "sh_bk_size t = int (length bs)" and "i < length bs"
    and "bs ! i = us @ vs" and "lands (sh_bucket t) i us vs bs it"
    and "\<forall>x \<in> set (vs @ concat (drop (Suc i) bs)). live s x" and "P s"
    and "\<And>s x. P s \<Longrightarrow> P (gone x s)" and "\<And>s p v. P s \<Longrightarrow> p \<in> dom (sl_next s) \<Longrightarrow> P (s\<lparr>sl_next := (sl_next s)(p \<mapsto> v)\<rparr>)"
  shows "\<exists>s'. loop t it s = Ret () s' \<and> buckets s' (sh_bucket t) (swept (\<lambda>x. True) i us vs bs)
    \<and> P s' \<and> (\<forall>x \<in> set (vs @ concat (drop (Suc i) bs)). sl_next s' x = None)"
  using assms
proof (induction "length (vs @ concat (drop (Suc i) bs))" arbitrary: s bs i us vs it P rule: less_induct)
  case less
  note b = less.prems(1) and sz = less.prems(2) and i = less.prems(3) and P = less.prems(7-9)
  show ?case
    using less.prems(5) i less.prems(4)
  proof (cases rule: lands_cases [where P = "\<lambda>x. True"])
    case fin
    then have "map (filter (\<lambda>x. \<not> True)) (drop (Suc i) bs) = drop (Suc i) bs" by (intro map_idI) auto
    then have "swept (\<lambda>x. True) i us vs bs = bs"
      using fin(1) id_take_nth_drop [OF i] less.prems(4) by (simp add: swept_def)
    moreover have "loop t it s = Ret () s" using fin(3,4) by (subst loop_law) (simp add: c_eval)
    ultimately show ?thesis using fin(1,2) b P(1) by (simp del: concat_eq_Nil_conv)
  next
    case (pos j us' y ys)
    let ?bs = "bs[j := us' @ ys]" and ?Q = "\<lambda>s. P s \<and> sl_next s y = None"
    have lv: "live s y" using less.prems(6) pos(4) by simp
    obtain it1 v s1 where s1: "loop t it s = loop t it1 s1" "s1 = gone y (s\<lparr>sl_next := (sl_next s)(tip (sh_bucket t + j) us' \<mapsto> v)\<rparr>)"
        "buckets s1 (sh_bucket t) ?bs" "lands (sh_bucket t) j us' ys ?bs it1"
      using step_run [OF b sz pos(1,2) lv] pos(3) by metis
    have y: "y \<notin> set (ys @ concat (drop (Suc j) bs))"
      using b pos(1,2) by (rule distinct_rest)
    have lv1: "\<forall>x \<in> set (ys @ concat (drop (Suc j) ?bs)). live s1 x"
      using less.prems(6) pos(4) y unfolding s1(2) by (auto simp: live_links intro!: live_gone)
    have tip: "tip (sh_bucket t + j) us' \<in> dom (sl_next s)" using tip_dom bucketsD(1) [OF b pos(1)] pos(2) by metis
    have P1: "?Q s1" using P(2) [OF P(3) [OF P(1) tip]] unfolding s1(2) by (simp add: gone_links)
    have "\<exists>s'. loop t it1 s1 = Ret () s' \<and> buckets s' (sh_bucket t) (swept (\<lambda>x. True) j us' ys ?bs)
        \<and> ?Q s' \<and> (\<forall>x \<in> set (ys @ concat (drop (Suc j) ?bs)). sl_next s' x = None)"
      by (rule less.hyps) (use pos(1,4) sz s1(3,4) lv1 P1 P(2,3) in \<open>auto simp: gone_links\<close>)
    moreover have "swept (\<lambda>x. True) j us' (y # ys) bs = swept (\<lambda>x. True) j us' ys ?bs" by (simp add: swept_def)
    ultimately show ?thesis unfolding s1(1) using pos(4,5) by auto
  qed
qed

text \<open>The whole clearing of a table, \<open>P\<close> being what a client needs to know of the memory.\<close>

lemma clear_run:
  assumes b: "buckets s (sh_bucket t) bs" and sz: "sh_bk_size t = int (length bs)" and ne: "bs \<noteq> []"
    and live: "\<forall>x \<in> set (concat bs). live s x"
    and P: "P s" "\<And>s x. P s \<Longrightarrow> P (gone x s)" "\<And>s p v. P s \<Longrightarrow> p \<in> dom (sl_next s) \<Longrightarrow> P (s\<lparr>sl_next := (sl_next s)(p \<mapsto> v)\<rparr>)"
  shows "\<exists>s'. bindM (shash_iter_init (Some t) junk) (\<lambda>it. loop t it) s = Ret () s'
    \<and> buckets s' (sh_bucket t) (replicate (length bs) []) \<and> P s' \<and> (\<forall>x \<in> set (concat bs). sl_next s' x = None)"
proof -
  obtain it where it: "shash_iter_init (Some t) junk s = Ret it s" "lands (sh_bucket t) 0 [] (bs ! 0) bs it"
    using shash_iter_init_lands [OF b sz ne] by blast
  have bs: "concat bs = bs ! 0 @ concat (drop (Suc 0) bs)" using ne by (cases bs) auto
  have rep: "swept (\<lambda>x. True) 0 [] (bs ! 0) bs = replicate (length bs) []"
    using ne by (cases bs) (auto simp: swept_all)
  have "\<exists>s'. loop t it s = Ret () s' \<and> buckets s' (sh_bucket t) (swept (\<lambda>x. True) 0 [] (bs ! 0) bs)
    \<and> P s' \<and> (\<forall>x \<in> set (bs ! 0 @ concat (drop (Suc 0) bs)). sl_next s' x = None)"
    by (rule loop_clears [OF b sz _ _ it(2)]) (use ne live bs P in auto)
  then show ?thesis using it(1) unfolding rep bs by (auto simp: c_eval)
qed

end

end
