(* ===== verification/KvMapProps.thy ===== *)
theory KvMapProps
  imports KvMap ShashClear
begin

text \<open>The map from 64-bit keys as an instance of the interface \<open>c_map\<close>, and what its comparison
  function does to keys that agree in their low 32 bits.\<close>

subsection \<open>Hash and comparison\<close>

definition kv64_h :: "nat \<Rightarrow> 64 word \<Rightarrow> nat" where
  "kv64_h n k = unat k mod n"

definition key_of :: "kv_mem \<Rightarrow> addr \<Rightarrow> 64 word" where
  "key_of s x = the (kv_key s x)"

lemma unat_low: "unat (ucast (w :: 64 word) :: 32 word) = unat w mod 2 ^ 32"
  by (simp add: unsigned_ucast_eq take_bit_eq_mod)

lemma to_int_small: "unat w < 2 ^ 31 \<Longrightarrow> to_int w = int (unat w)"
proof -
  assume a: "unat w < 2 ^ 31"
  then have "unat (ucast w :: 32 word) = unat w" by (simp add: unat_low)
  then have "uint (ucast w :: 32 word) = int (unat w)" by (metis uint_nat)
  moreover have "uint w < 2 ^ 31" using a by (metis uint_nat of_nat_less_iff of_nat_numeral of_nat_power)
  then have "signed_take_bit 31 (uint w) = uint w"
    using uint_nonnegative [of w] by (intro signed_take_bit_int_eq_self) linarith+
  ultimately show ?thesis by (simp add: to_int_def sint_uint)
qed

lemma to_int_zero: "to_int w = 0 \<longleftrightarrow> unat w mod 2 ^ 32 = 0"
proof -
  have "to_int w = 0 \<longleftrightarrow> (ucast w :: 32 word) = 0" by (simp add: to_int_def signed_eq_0_iff)
  also have "\<dots> \<longleftrightarrow> unat (ucast w :: 32 word) = 0" by (simp add: unat_eq_zero)
  finally show ?thesis by (simp only: unat_low)
qed

text \<open>Two keys compare as equal exactly when they agree in their low 32 bits.\<close>

lemma cmp_low: "to_int (k1 - k2) = 0 \<longleftrightarrow> unat k1 mod 2 ^ 32 = unat k2 mod 2 ^ 32"
proof -
  have "int (unat (k1 - k2)) = (int (unat k1) - int (unat k2)) mod 2 ^ 64"
    by (simp add: uint_nat [symmetric] uint_word_ariths)
  then have "int (unat (k1 - k2) mod 2 ^ 32) = (int (unat k1) - int (unat k2)) mod 2 ^ 32"
    by (simp add: zmod_int mod_mod_cancel)
  then have "unat (k1 - k2) mod 2 ^ 32 = 0 \<longleftrightarrow> (int (unat k1) - int (unat k2)) mod 2 ^ 32 = 0"
    by (metis of_nat_eq_0_iff)
  also have "\<dots> \<longleftrightarrow> int (unat k1) mod 2 ^ 32 = int (unat k2) mod 2 ^ 32"
    by (simp only: mod_eq_dvd_iff dvd_eq_mod_eq_0)
  also have "\<dots> \<longleftrightarrow> int (unat k1 mod 2 ^ 32) = int (unat k2 mod 2 ^ 32)" by (simp only: zmod_int of_nat_power of_nat_numeral)
  finally show ?thesis by (simp only: to_int_zero of_nat_eq_iff)
qed

lemma hash_word:
  assumes "0 < n" and "n < 2 ^ 31"
  shows "(word_of_int n :: 64 word) \<noteq> 0" and "to_int (k mod word_of_int n) = int (kv64_h (nat n) k)"
proof -
  have u: "unat (word_of_int n :: 64 word) = nat n"
    using assms by (simp add: unsigned_of_int take_bit_int_eq_self)
  then show "(word_of_int n :: 64 word) \<noteq> 0" using assms(1) by (metis unsigned_0 nat_0_iff not_le)
  have "unat (k mod word_of_int n) = kv64_h (nat n) k" by (simp add: unat_mod u kv64_h_def)
  moreover have "kv64_h (nat n) k < nat n" using assms(1) by (simp add: kv64_h_def)
  ultimately show "to_int (k mod word_of_int n) = int (kv64_h (nat n) k)"
    using to_int_small [of "k mod word_of_int n"] assms(2) by simp
qed

lemma good_kv64_h: "good_hash kv64_h"
  by (simp add: good_hash_def kv64_h_def)

subsection \<open>Representation\<close>

text \<open>\<open>kv64_tab s t em\<close>: the table \<open>t\<close> holds for each key the record \<open>em\<close> gives. The keys are
  below \<open>2 ^ 32\<close>, where the comparison tells them apart.\<close>

definition small_key :: "64 word \<Rightarrow> bool" where
  "small_key k \<longleftrightarrow> unat k < 2 ^ 32"

definition kv64_tab :: "kv_mem \<Rightarrow> kv_tab \<Rightarrow> (64 word \<rightharpoonup> addr) \<Rightarrow> bool" where
  "kv64_tab s t em \<longleftrightarrow>
     shash_maps kv64_h (key_of s) s (shash_pure kv64_h (key_of s) t) em
     \<and> sh_hash_fn t = Some kv64_sh_hash_chain \<and> sh_cmp_fn t = Some kv64_sh_hash_cmp_chain
     \<and> sh_bk_size t < 2 ^ 31
     \<and> (\<forall>k x. em k = Some x \<longrightarrow> small_key k \<and> kv_key s x = Some k \<and> kv_value s x \<noteq> None \<and> kv_obj s x \<noteq> None)"

lemma cmp_small: "small_key a \<Longrightarrow> small_key b \<Longrightarrow> to_int (a - b) = 0 \<longleftrightarrow> a = b"
  by (simp add: cmp_low small_key_def word_unat_eq_iff)

lemma kv64_size: "kv64_tab s t em \<Longrightarrow> 0 < sh_bk_size t \<and> sh_bk_size t < 2 ^ 31"
  by (auto simp: kv64_tab_def shash_maps_def shash_rep_def)

text \<open>A memory that agrees on the table and adds a record \<open>p\<close> of key \<open>k\<close> elsewhere.\<close>

definition extends :: "kv_mem \<Rightarrow> addr \<Rightarrow> 64 word \<Rightarrow> kv_mem \<Rightarrow> bool" where
  "extends s p k s' \<longleftrightarrow> p \<notin> dom (sl_next s) \<and> kv_key s' = (kv_key s)(p \<mapsto> k)
     \<and> (\<forall>x. x \<noteq> p \<longrightarrow> sl_next s' x = sl_next s x \<and> kv_value s' x = kv_value s x \<and> kv_obj s' x = kv_obj s x)"

lemma kv64_extends:
  assumes tab: "kv64_tab s t em" and ext: "extends s p k s'"
  shows "kv64_tab s' t em" and "hash_like kv64_h (key_of s') s' t p" and "p \<notin> tab_cells t em"
    and "small_key k \<Longrightarrow> cmp_like (key_of s') s' t (ran em) p"
proof -
  note M = tab [unfolded kv64_tab_def]
  have cells: "tab_cells t em \<subseteq> dom (sl_next s)"
    using tab_cells_dom [OF conjunct1 [OF M]] by (simp add: tab_cells_def)
  then show p: "p \<notin> tab_cells t em" using ext by (auto simp: extends_def)
  have rn: "x \<noteq> p" if "em j = Some x" for j x using p that by (auto simp: tab_cells_def ran_def)
  have "\<forall>x \<in> ran em. key_of s' x = key_of s x"
    using rn ext unfolding key_of_def extends_def ran_def by fastforce
  then have "shash_maps kv64_h (key_of s') s (shash_pure kv64_h (key_of s') t) em"
    by (rule shash_maps_rekey [OF conjunct1 [OF M]])
  then have "shash_maps kv64_h (key_of s') s' (shash_pure kv64_h (key_of s') t) em"
    by (rule shash_maps_frame) (use ext p in \<open>auto simp: extends_def tab_cells_def\<close>)
  moreover have "kv_key s' x = Some j \<and> kv_value s' x \<noteq> None \<and> kv_obj s' x \<noteq> None" if "em j = Some x" for j x
    using M rn [OF that] ext that by (auto simp: extends_def)
  ultimately show tab': "kv64_tab s' t em" using M unfolding kv64_tab_def by blast
  show "hash_like kv64_h (key_of s') s' t p"
    using kv64_size [OF tab] hash_word(1) [of "sh_bk_size t"] hash_word(2) [of "sh_bk_size t" k] M ext
    by (simp add: hash_like_def call_hash_def kv64_sh_hash_chain_def key_of_def extends_def c_eval)
  show "cmp_like (key_of s') s' t (ran em) p" if "small_key k"
    unfolding cmp_like_def
  proof
    fix x assume "x \<in> ran em"
    then obtain j where j: "em j = Some x" by (auto simp: ran_def)
    then have "small_key j" "kv_key s' x = Some j" "kv_key s' p = Some k"
      using M tab' ext by (auto simp: kv64_tab_def extends_def)
    then show "\<exists>c. call_cmp (sh_cmp_fn t) x p s' = Ret c s' \<and> (c = 0 \<longleftrightarrow> key_of s' x = key_of s' p)"
      using M cmp_small [OF _ that, of j] by (simp add: call_cmp_def kv64_sh_hash_cmp_chain_def key_of_def c_eval)
  qed
qed

lemma extends_push:
  "loc \<notin> dom (sl_next s) \<Longrightarrow> \<exists>s'. push_fnd loc k s = Ret () s' \<and> extends s loc k s'"
  by (simp add: push_fnd_def extends_def)

subsection \<open>The operations\<close>

definition val_of :: "kv_mem \<Rightarrow> (64 word \<rightharpoonup> addr) \<Rightarrow> (64 word \<rightharpoonup> addr \<times> addr)" where
  "val_of s em = (\<lambda>k. map_option (\<lambda>x. (the (kv_value s x), the (kv_obj s x))) (em k))"

definition kv64_rep :: "addr \<Rightarrow> kv_mem \<Rightarrow> kv_tab \<Rightarrow> (64 word \<rightharpoonup> addr \<times> addr) \<Rightarrow> bool" where
  "kv64_rep loc s t m \<longleftrightarrow> loc \<noteq> NULL \<and> loc \<notin> dom (sl_next s) \<and> loc \<notin> dom (kv_key s) \<and> loc \<notin> dom (kv_value s) \<and> loc \<notin> dom (kv_obj s)
     \<and> finite (dom (sl_next s)) \<and> (\<exists>em. kv64_tab s t em \<and> m = val_of s em)"

text \<open>An allocator that answers with fresh memory apart from the local at \<open>loc\<close>.\<close>

definition fresh_kv :: "addr \<Rightarrow> (kv_mem \<Rightarrow> addr) \<Rightarrow> bool" where
  "fresh_kv loc alloc \<longleftrightarrow>
     (\<forall>s. finite (dom (sl_next s)) \<longrightarrow> alloc s \<noteq> NULL \<and> alloc s \<noteq> loc \<and> alloc s \<notin> dom (sl_next s))"

lemma free_push:
  "loc \<notin> dom (sl_next s) \<Longrightarrow> loc \<notin> dom (kv_key s) \<Longrightarrow> loc \<notin> dom (kv_value s) \<Longrightarrow> loc \<notin> dom (kv_obj s) \<Longrightarrow>
   push_fnd loc k s = Ret () s' \<Longrightarrow> free_kv loc s' = Ret () s"
  by (auto simp: push_fnd_def free_kv_def domIff fun_upd_idem)

lemma kv64_find_run:
  assumes "kv64_rep loc s t m" and "small_key k"
  shows "kv64_value loc t k s = Ret (case m k of None \<Rightarrow> NULL | Some r \<Rightarrow> fst r) s"
    and "kv64_object loc t k s = Ret (case m k of None \<Rightarrow> NULL | Some r \<Rightarrow> snd r) s"
proof -
  obtain em where tab: "kv64_tab s t em" and m: "m = val_of s em" using assms(1) by (auto simp: kv64_rep_def)
  obtain s' where s': "push_fnd loc k s = Ret () s'" "extends s loc k s'"
    using extends_push [of loc s k] assms(1) by (auto simp: kv64_rep_def)
  note E = kv64_extends [OF tab s'(2)]
  have key: "key_of s' loc = k" using s'(2) by (simp add: key_of_def extends_def)
  have fnd: "shash_find t loc s' = Ret (or_NULL (em k)) s'"
    using shash_find_calls [OF _ E(2) E(4) [OF assms(2)]] E(1) key by (simp add: kv64_tab_def)
  have free: "free_kv loc s' = Ret () s" using free_push [OF _ _ _ _ s'(1)] assms(1) by (simp add: kv64_rep_def)
  have el: "x \<noteq> NULL \<and> kv_value s' x = kv_value s x \<and> kv_obj s' x = kv_obj s x \<and> kv_value s x \<noteq> None \<and> kv_obj s x \<noteq> None"
    if "em k = Some x" for x
  proof -
    have "x \<noteq> NULL" using shash_maps_elem(2) [of kv64_h "key_of s" s _ em k x] tab that by (auto simp: kv64_tab_def)
    moreover have "x \<noteq> loc" using E(3) that by (auto simp: tab_cells_def ran_def)
    ultimately show ?thesis using s'(2) tab that by (auto simp: extends_def kv64_tab_def)
  qed
  show "kv64_value loc t k s = Ret (case m k of None \<Rightarrow> NULL | Some r \<Rightarrow> fst r) s"
    using s'(1) fnd free el by (cases "em k") (auto simp: kv64_value_def c_eval m val_of_def)
  show "kv64_object loc t k s = Ret (case m k of None \<Rightarrow> NULL | Some r \<Rightarrow> snd r) s"
    using s'(1) fnd free el by (cases "em k") (auto simp: kv64_object_def c_eval m val_of_def)
qed

lemma key_of_links [simp]: "key_of (s\<lparr>sl_next := nx\<rparr>) = key_of s"
  by (simp add: key_of_def fun_eq_iff)

lemma kv64_put_run:
  assumes rep: "kv64_rep loc s t m" and k: "small_key k" "m k = None"
    and ext: "extends s p k s1" and p: "p \<noteq> NULL" "p \<noteq> loc" "sl_next s1 p \<noteq> None" "kv_value s1 p = Some v" "kv_obj s1 p = Some w"
    and loc: "loc \<notin> dom (kv_value s1)" "loc \<notin> dom (kv_obj s1)"
  shows "\<exists>i t' s'. shash_insert t p s1 = Ret (i, t') s' \<and> kv64_rep loc s' t' (m(k \<mapsto> (v, w)))"
proof -
  obtain em where tab: "kv64_tab s t em" and m: "m = val_of s em" using rep by (auto simp: kv64_rep_def)
  note E = kv64_extends [OF tab ext]
  have key: "key_of s1 p = k" using ext by (simp add: key_of_def extends_def)
  have none: "em k = None" using k(2) by (simp add: m val_of_def)
  have cell: "shash_cell s1 t p" using E(3) p by (auto simp: shash_cell_def is_link_def tab_cells_def)
  obtain i nx c where r: "shash_insert t p s1 = Ret (i, t\<lparr>sh_elm_cnt := c\<rparr>) (s1\<lparr>sl_next := nx\<rparr>)"
    and M: "shash_maps kv64_h (key_of s1) (s1\<lparr>sl_next := nx\<rparr>) (shash_pure kv64_h (key_of s1) (t\<lparr>sh_elm_cnt := c\<rparr>)) (em(k \<mapsto> p))"
    and d: "dom nx = dom (sl_next s1)"
    using shash_insert_calls [OF conjunct1 [OF E(1) [unfolded kv64_tab_def]] E(2) cell] none unfolding key by blast
  have "kv64_tab (s1\<lparr>sl_next := nx\<rparr>) (t\<lparr>sh_elm_cnt := c\<rparr>) (em(k \<mapsto> p))"
    using M E(1) k(1) p ext unfolding kv64_tab_def by (simp add: extends_def)
  moreover have "m(k \<mapsto> (v, w)) = val_of (s1\<lparr>sl_next := nx\<rparr>) (em(k \<mapsto> p))"
  proof
    fix j
    have "x \<noteq> p" if "em j = Some x" for x using E(3) that by (auto simp: tab_cells_def ran_def)
    then show "(m(k \<mapsto> (v, w))) j = val_of (s1\<lparr>sl_next := nx\<rparr>) (em(k \<mapsto> p)) j"
      using p ext by (cases "em j") (simp_all add: m val_of_def extends_def)
  qed
  moreover have "dom (sl_next s1) = insert p (dom (sl_next s))" using ext p(3) by (auto simp: extends_def domIff)
  ultimately have "kv64_rep loc (s1\<lparr>sl_next := nx\<rparr>) (t\<lparr>sh_elm_cnt := c\<rparr>) (m(k \<mapsto> (v, w)))"
    using rep p(2) ext loc d unfolding kv64_rep_def by (auto simp: extends_def)
  with r show ?thesis by blast
qed

lemma kv64_insert_run:
  assumes rep: "kv64_rep loc s t m" and k: "small_key k" "m k = None" and fr: "fresh_kv loc alloc"
  shows "\<exists>i t' s'. kv64_insert alloc t k v s = Ret (i, t') s' \<and> kv64_rep loc s' t' (m(k \<mapsto> (v, NULL)))"
    and "\<exists>i t' s'. kv64_insert_obj alloc t k v s = Ret (i, t') s' \<and> kv64_rep loc s' t' (m(k \<mapsto> (NULL, v)))"
proof -
  let ?p = "alloc s"
  have p: "?p \<noteq> NULL" "?p \<noteq> loc" "?p \<notin> dom (sl_next s)" using fr rep by (auto simp: fresh_kv_def kv64_rep_def)
  define s1 where "s1 = (\<lambda>a b. s\<lparr>sl_next := (sl_next s)(?p \<mapsto> NULL), kv_key := (kv_key s)(?p \<mapsto> k),
      kv_value := (kv_value s)(?p \<mapsto> a), kv_obj := (kv_obj s)(?p \<mapsto> b)\<rparr>)"
  have ext: "extends s ?p k (s1 a b)" for a b using p(3) by (simp add: extends_def s1_def)
  have put: "\<exists>i t' s'. shash_insert t ?p (s1 a b) = Ret (i, t') s' \<and> kv64_rep loc s' t' (m(k \<mapsto> (a, b)))" for a b
    by (rule kv64_put_run [OF rep k ext]) (use p rep in \<open>auto simp: s1_def kv64_rep_def\<close>)
  have al: "kv64_alloc alloc k v s = Ret ?p (s1 v NULL)" "kv64_alloc_obj alloc k v s = Ret ?p (s1 NULL v)"
    using p(1) by (simp_all add: kv64_alloc_def kv64_alloc_obj_def malloc_kv_def s1_def c_eval Let_def)
  show "\<exists>i t' s'. kv64_insert alloc t k v s = Ret (i, t') s' \<and> kv64_rep loc s' t' (m(k \<mapsto> (v, NULL)))"
    using put [of v NULL] al(1) by (simp add: kv64_insert_def c_eval)
  show "\<exists>i t' s'. kv64_insert_obj alloc t k v s = Ret (i, t') s' \<and> kv64_rep loc s' t' (m(k \<mapsto> (NULL, v)))"
    using put [of NULL v] al(2) by (simp add: kv64_insert_obj_def c_eval)
qed

text \<open>Records off the table can be dropped.\<close>

definition drop_kv :: "addr set \<Rightarrow> kv_mem \<Rightarrow> kv_mem" where
  "drop_kv D s = s\<lparr>sl_next := sl_next s |` (- D), kv_key := kv_key s |` (- D),
     kv_value := kv_value s |` (- D), kv_obj := kv_obj s |` (- D)\<rparr>"

lemma kv64_tab_drop:
  assumes tab: "kv64_tab s t em" and D: "D \<inter> tab_cells t em = {}"
  shows "kv64_tab (drop_kv D s) t em" and "val_of (drop_kv D s) em = val_of s em"
proof -
  have rn: "x \<notin> D" if "em j = Some x" for j x using D that by (auto simp: tab_cells_def ran_def)
  have "\<forall>x \<in> ran em. key_of (drop_kv D s) x = key_of s x"
    using rn by (auto simp: key_of_def drop_kv_def ran_def restrict_map_def)
  then have "shash_maps kv64_h (key_of (drop_kv D s)) s (shash_pure kv64_h (key_of (drop_kv D s)) t) em"
    by (rule shash_maps_rekey [OF conjunct1 [OF tab [unfolded kv64_tab_def]]])
  then have "shash_maps kv64_h (key_of (drop_kv D s)) (drop_kv D s) (shash_pure kv64_h (key_of (drop_kv D s)) t) em"
    by (rule shash_maps_frame) (use D in \<open>auto simp: drop_kv_def tab_cells_def restrict_map_def\<close>)
  moreover have "kv_key (drop_kv D s) x = kv_key s x \<and> kv_value (drop_kv D s) x = kv_value s x \<and> kv_obj (drop_kv D s) x = kv_obj s x"
    if "em j = Some x" for j x using rn [OF that] by (simp add: drop_kv_def restrict_map_def)
  ultimately show "kv64_tab (drop_kv D s) t em" using tab unfolding kv64_tab_def by auto
  show "val_of (drop_kv D s) em = val_of s em"
    using rn by (auto simp: val_of_def drop_kv_def restrict_map_def fun_eq_iff map_option_case split: option.splits)
qed

lemma free_drop: "free_kv p (drop_kv D s) = Ret () (drop_kv (insert p D) s)"
  by (auto simp: free_kv_def drop_kv_def restrict_map_def fun_eq_iff)

lemma free_drop_first: "free_kv p (s\<lparr>kv_obj := (kv_obj s)(p \<mapsto> v)\<rparr>) = Ret () (drop_kv {p} s)" "free_kv p s = Ret () (drop_kv {p} s)"
  by (auto simp: free_kv_def drop_kv_def restrict_map_def fun_eq_iff)

lemma kv64_remove_run:
  assumes rep: "kv64_rep loc s t m" and k: "small_key k"
  shows "\<exists>t' s'. kv64_remove loc t k s = Ret (case m k of None \<Rightarrow> (NULL, NULL, t') | Some r \<Rightarrow> (snd r, fst r, t')) s'
    \<and> kv64_rep loc s' t' (m(k := None))"
proof -
  obtain em where tab: "kv64_tab s t em" and m: "m = val_of s em" using rep by (auto simp: kv64_rep_def)
  obtain s1 where s1: "push_fnd loc k s = Ret () s1" "extends s loc k s1"
    using extends_push [of loc s k] rep by (auto simp: kv64_rep_def)
  note E = kv64_extends [OF tab s1(2)]
  have key: "key_of s1 loc = k" using s1(2) by (simp add: key_of_def extends_def)
  obtain nx c where r: "shash_rm t loc s1 = Ret (or_NULL (em k), t\<lparr>sh_elm_cnt := c\<rparr>) (s1\<lparr>sl_next := nx\<rparr>)"
    and M: "shash_maps kv64_h (key_of s1) (s1\<lparr>sl_next := nx\<rparr>) (shash_pure kv64_h (key_of s1) (t\<lparr>sh_elm_cnt := c\<rparr>)) (em(k := None))"
    and d: "dom nx = dom (sl_next s1)"
    using shash_rm_calls [OF conjunct1 [OF E(1) [unfolded kv64_tab_def]] E(2) E(4) [OF k]] unfolding key by blast
  let ?s2 = "s1\<lparr>sl_next := nx\<rparr>" and ?t = "t\<lparr>sh_elm_cnt := c\<rparr>" and ?em = "em(k := None)"
  let ?D = "insert loc (set_option (em k))"
  have tab2: "kv64_tab ?s2 ?t ?em" using M E(1) unfolding kv64_tab_def by auto
  have sub: "?D \<inter> tab_cells ?t ?em = {}"
  proof -
    have "x \<notin> tab_cells ?t ?em" if x: "em k = Some x" for x
      by (rule tab_cells_rm [OF conjunct1 [OF tab [unfolded kv64_tab_def]] x]) simp_all
    moreover have "loc \<notin> tab_cells ?t ?em" using E(3) by (auto simp: tab_cells_def ran_def split: if_splits)
    ultimately show ?thesis by auto
  qed
  have el: "x \<noteq> NULL \<and> kv_value s1 x = kv_value s x \<and> kv_obj s1 x = kv_obj s x \<and> kv_value s x \<noteq> None \<and> kv_obj s x \<noteq> None"
    if "em j = Some x" for j x
  proof -
    have "x \<noteq> NULL" using shash_maps_elem(2) [OF conjunct1 [OF tab [unfolded kv64_tab_def]] that] .
    moreover have "x \<noteq> loc" using E(3) that by (auto simp: tab_cells_def ran_def)
    ultimately show ?thesis using s1(2) tab that by (auto simp: extends_def kv64_tab_def)
  qed
  have run: "kv64_remove loc t k s = Ret (case m k of None \<Rightarrow> (NULL, NULL, ?t) | Some r \<Rightarrow> (snd r, fst r, ?t)) (drop_kv ?D ?s2)"
    using s1(1) r el [of k] free_drop_first [of _ ?s2] free_drop [of loc _ ?s2]
    by (cases "em k") (auto simp: kv64_remove_def c_eval m val_of_def)
  have "m(k := None) = val_of ?s2 ?em"
    using el by (auto simp: m val_of_def fun_eq_iff map_option_case split: option.splits)
  then have "m(k := None) = val_of (drop_kv ?D ?s2) ?em" using kv64_tab_drop(2) [OF tab2 sub] by simp
  moreover have "finite (dom nx)" using d rep s1 by (simp add: kv64_rep_def push_fnd_def) auto
  then have "finite (dom (sl_next (drop_kv ?D ?s2)))" by (simp add: drop_kv_def)
  ultimately have "kv64_rep loc (drop_kv ?D ?s2) ?t (m(k := None))"
    using rep kv64_tab_drop(1) [OF tab2 sub] unfolding kv64_rep_def by (auto simp: drop_kv_def)
  with run show ?thesis by blast
qed

subsection \<open>The map as an instance of the interface\<close>

definition kv64_put :: "(kv_mem \<Rightarrow> addr) \<Rightarrow> kv_tab \<Rightarrow> 64 word \<Rightarrow> addr \<Rightarrow> (kv_mem, kv_tab) cprog" where
  "kv64_put alloc t k v = bindM (kv64_insert alloc t k v) (\<lambda>r. ret (snd r))"

definition kv64_take :: "addr \<Rightarrow> kv_tab \<Rightarrow> 64 word \<Rightarrow> (kv_mem, addr \<times> kv_tab) cprog" where
  "kv64_take loc t k = bindM (kv64_remove loc t k) (\<lambda>r. ret (fst (snd r), snd (snd r)))"

definition kv64_vals :: "addr \<Rightarrow> (kv_mem \<Rightarrow> addr) \<Rightarrow> kv_mem \<Rightarrow> kv_tab \<Rightarrow> (64 word \<rightharpoonup> addr) \<Rightarrow> bool" where
  "kv64_vals loc alloc s t m \<longleftrightarrow> fresh_kv loc alloc \<and> (\<exists>m'. kv64_rep loc s t m' \<and> m = (\<lambda>k. map_option fst (m' k)))"

lemma map_fst_upd:
  "(\<lambda>k. map_option fst (m k))(k \<mapsto> v) = (\<lambda>j. map_option fst ((m(k \<mapsto> (v, w))) j))"
  "(\<lambda>k. map_option fst (m k))(k := None) = (\<lambda>j. map_option fst ((m(k := None)) j))"
  by auto

interpretation kvm: c_map "kv64_vals loc alloc" small_key NULL "kv64_put alloc" "kv64_value loc" "kv64_take loc"
  for loc :: addr and alloc :: "kv_mem \<Rightarrow> addr"
proof (unfold_locales, goal_cases)
  case (1 s t m k v)
  then obtain m' where m': "fresh_kv loc alloc" "kv64_rep loc s t m'" "m = (\<lambda>k. map_option fst (m' k))" "m' k = None"
    by (auto simp: kv64_vals_def)
  then obtain i t' s' where "kv64_insert alloc t k v s = Ret (i, t') s'" "kv64_rep loc s' t' (m'(k \<mapsto> (v, NULL)))"
    using kv64_insert_run(1) [of loc s t m' k alloc v] 1(2) by blast
  with m' show ?case unfolding kv64_vals_def kv64_put_def m'(3) map_fst_upd(1) [of m' k v NULL] by (auto simp: c_eval)
next
  case (2 s t m k)
  then obtain m' where m': "kv64_rep loc s t m'" "m = (\<lambda>k. map_option fst (m' k))" by (auto simp: kv64_vals_def)
  have "val_or NULL (m k) = (case m' k of None \<Rightarrow> NULL | Some r \<Rightarrow> fst r)" by (cases "m' k") (simp_all add: val_or_def m'(2))
  with 2 show ?case using kv64_find_run(1) [OF m'(1) 2(2)] by auto
next
  case (3 s t m k)
  then obtain m' where m': "fresh_kv loc alloc" "kv64_rep loc s t m'" "m = (\<lambda>k. map_option fst (m' k))" by (auto simp: kv64_vals_def)
  obtain t' s' where r: "kv64_remove loc t k s = Ret (case m' k of None \<Rightarrow> (NULL, NULL, t') | Some r \<Rightarrow> (snd r, fst r, t')) s'"
      "kv64_rep loc s' t' (m'(k := None))"
    using kv64_remove_run [OF m'(2) 3(2)] by blast
  have "kv64_take loc t k s = Ret (val_or NULL (m k), t') s'"
    using r(1) by (cases "m' k") (simp_all add: kv64_take_def c_eval val_or_def m'(3))
  with r(2) m'(1) show ?case unfolding kv64_vals_def m'(3) map_fst_upd(2) by blast
qed

subsection \<open>Properties\<close>

text \<open>C19: A sequence of insertions under absent keys, lookups and removals, all with keys below
  \<open>2 ^ 32\<close>, on a \<open>Uint64KvMap\<close> returns what a map from keys to values gives: the value
  inserted last under the key and not removed since, or the null pointer.\<close>

theorem kv64_refines_map:
  assumes "kv64_vals loc alloc s t m" and "map_legal small_key cs m"
  shows "\<exists>s'. map_run (kv64_put alloc) (kv64_value loc) (kv64_take loc) cs t s = Ret (map_spec NULL cs m) s'"
  using assms by (rule kvm.run_refines)

definition demo_kv_alloc :: "kv_mem \<Rightarrow> addr" where
  "demo_kv_alloc s = Suc (Max (insert 20 (dom (sl_next s))))"

lemma demo_kv_fresh: "fresh_kv 5 demo_kv_alloc"
  using Suc_Max_fresh [of "dom (sl_next s)" 20 for s] Suc_Max_above [of "dom (sl_next s)" 20 20 for s]
  by (fastforce simp: fresh_kv_def demo_kv_alloc_def)

definition demo_kv :: kv_mem where
  "demo_kv = \<lparr>sl_next = [10 \<mapsto> 0, 11 \<mapsto> 12, 12 \<mapsto> 0], kv_key = [12 \<mapsto> 3], kv_value = [12 \<mapsto> 77], kv_obj = [12 \<mapsto> 0]\<rparr>"

definition demo_kv_tab :: kv_tab where
  "demo_kv_tab = \<lparr>sh_bucket = 10, sh_bk_size = 2, sh_elm_cnt = 1, sh_max_chain = 0,
     sh_hash_fn = Some kv64_sh_hash_chain, sh_cmp_fn = Some kv64_sh_hash_cmp_chain\<rparr>"

lemma demo_kv_maps: "kv64_tab demo_kv demo_kv_tab [3 \<mapsto> 12]"
proof -
  have "buckets demo_kv 10 [[], [12]]" by (auto simp: buckets_def demo_kv_def less_Suc_eq)
  moreover have "hashed kv64_h (key_of demo_kv) [[], [12]]"
    unfolding hashed_def kv64_h_def key_of_def
    by (simp add: demo_kv_def less_Suc_eq all_conj_distrib) (simp add: numeral_2_eq_2 [symmetric])
  ultimately have "shash_rep kv64_h (key_of demo_kv) demo_kv (shash_pure kv64_h (key_of demo_kv) demo_kv_tab) [[], [12]]"
    by (simp add: shash_rep_def demo_kv_tab_def good_kv64_h)
  moreover have "key_map (key_of demo_kv) (concat [[], [12]]) = [3 \<mapsto> 12]"
    by (simp add: key_map_def key_of_def demo_kv_def)
  ultimately have "shash_maps kv64_h (key_of demo_kv) demo_kv (shash_pure kv64_h (key_of demo_kv) demo_kv_tab) [3 \<mapsto> 12]"
    unfolding shash_maps_def by (intro exI [of _ "[[], [12]]"]) simp
  then show ?thesis by (simp add: kv64_tab_def demo_kv_tab_def demo_kv_def small_key_def)
qed

lemma demo_kv_rep: "kv64_rep 5 demo_kv demo_kv_tab [3 \<mapsto> (77, 0)]"
  unfolding kv64_rep_def using demo_kv_maps
  by (auto simp: demo_kv_def val_of_def intro!: exI [of _ "[3 \<mapsto> 12]"])

theorem kv64_refines_map_witness:
  "\<exists>s'. map_run (kv64_put demo_kv_alloc) (kv64_value 5) (kv64_take 5) [Put 1 50, Get 1, Get 3, Del 3, Get 3, Get 7] demo_kv_tab demo_kv
     = Ret [50, 77, 77, 0, 0] s'"
proof -
  have "kv64_vals 5 demo_kv_alloc demo_kv demo_kv_tab [3 \<mapsto> 77]"
    unfolding kv64_vals_def using demo_kv_fresh demo_kv_rep by (auto intro!: exI [of _ "[3 \<mapsto> (77, 0)]"])
  from kv64_refines_map [OF this, of "[Put 1 50, Get 1, Get 3, Del 3, Get 3, Get 7]"]
  show ?thesis by (simp add: small_key_def val_or_def)
qed

text \<open>Keys that agree in their low 32 bits and hash to the same bucket are the same key to a
  \<open>Uint64KvMap\<close>: looking up \<open>k2\<close> returns the value stored under \<open>k1\<close>.\<close>

theorem kv64_key_alias:
  assumes "kv64_rep loc s t m" and "small_key k1" and "unat k2 mod 2 ^ 32 = unat k1"
    and "kv64_h (nat (sh_bk_size t)) k2 = kv64_h (nat (sh_bk_size t)) k1"
  shows "kv64_value loc t k2 s = Ret (case m k1 of None \<Rightarrow> NULL | Some r \<Rightarrow> fst r) s"
proof -
  obtain em where tab: "kv64_tab s t em" and m: "m = val_of s em" using assms(1) by (auto simp: kv64_rep_def)
  obtain s' where s': "push_fnd loc k2 s = Ret () s'" "extends s loc k2 s'"
    using extends_push [of loc s k2] assms(1) by (auto simp: kv64_rep_def)
  note E = kv64_extends [OF tab s'(2)]
  let ?key = "(key_of s')(loc := k1)"
  have rn: "x \<noteq> loc" if "x \<in> ran em" for x using E(3) that by (auto simp: tab_cells_def)
  have M: "shash_maps kv64_h ?key s' (shash_pure kv64_h ?key t) em"
    using conjunct1 [OF E(1) [unfolded kv64_tab_def]] by (rule shash_maps_rekey) (simp add: rn)
  have H: "hash_like kv64_h ?key s' t loc"
    using E(2) assms(4) s'(2) by (simp add: hash_like_def key_of_def extends_def)
  have "cmp_like ?key s' t (ran em) loc"
    unfolding cmp_like_def
  proof
    fix x assume x: "x \<in> ran em"
    then obtain j where j: "em j = Some x" by (auto simp: ran_def)
    then have "small_key j" "kv_key s' x = Some j" "kv_key s' loc = Some k2"
      using E(1) s'(2) by (auto simp: kv64_tab_def extends_def)
    then show "\<exists>c. call_cmp (sh_cmp_fn t) x loc s' = Ret c s' \<and> (c = 0 \<longleftrightarrow> ?key x = ?key loc)"
      using E(1) rn [OF x] cmp_low [of j k2] assms(3)
      by (simp add: kv64_tab_def call_cmp_def kv64_sh_hash_cmp_chain_def key_of_def c_eval small_key_def word_unat_eq_iff)
  qed
  from shash_find_calls [OF M H this] have fnd: "shash_find t loc s' = Ret (or_NULL (em k1)) s'" by simp
  have free: "free_kv loc s' = Ret () s" using free_push [OF _ _ _ _ s'(1)] assms(1) by (simp add: kv64_rep_def)
  have "x \<noteq> NULL \<and> kv_value s' x = kv_value s x \<and> kv_value s x \<noteq> None" if "em k1 = Some x" for x
    using shash_maps_elem(2) [OF M that] rn [of x] s'(2) tab that by (auto simp: extends_def kv64_tab_def ran_def)
  then show ?thesis
    using s'(1) fnd free by (cases "em k1") (auto simp: kv64_value_def c_eval m val_of_def)
qed

theorem kv64_key_alias_witness:
  "kv64_value 5 demo_kv_tab 0x100000003 demo_kv = Ret 77 demo_kv"
proof -
  have "kv64_value 5 demo_kv_tab 0x100000003 demo_kv = Ret (case [3 \<mapsto> (77, 0 :: addr)] (3 :: 64 word) of None \<Rightarrow> NULL | Some r \<Rightarrow> fst r) demo_kv"
    by (rule kv64_key_alias [OF demo_kv_rep]) (simp_all add: small_key_def kv64_h_def demo_kv_tab_def)
  then show ?thesis by simp
qed

text \<open>The constructor makes the empty map.\<close>

lemma kv64_ctor_run:
  assumes "al s n = (b, junk)" and "b \<noteq> NULL" and "0 < n" and "n < 2 ^ 31" and "loc \<noteq> NULL" and "loc \<notin> links b n"
    and "loc \<notin> dom (sl_next s)" and "loc \<notin> dom (kv_key s)" and "loc \<notin> dom (kv_value s)" and "loc \<notin> dom (kv_obj s)" and "finite (dom (sl_next s))"
  shows "\<exists>t s'. kv64_ctor al (int n) s = Ret t s' \<and> kv64_rep loc s' t Map.empty"
proof -
  let ?t = "\<lparr>sh_bucket = b, sh_bk_size = int n, sh_elm_cnt = 0, sh_max_chain = 0,
    sh_hash_fn = Some kv64_sh_hash_chain, sh_cmp_fn = Some kv64_sh_hash_cmp_chain\<rparr>"
  let ?s = "s\<lparr>sl_next := (\<lambda>p. if p \<in> links b n then Some NULL else sl_next s p)\<rparr>"
  note I = shash_init_run [where alloc = al, OF assms(1,2)]
  have z: "?t\<lparr>sh_elm_cnt := 0\<rparr> = ?t" by simp
  have "shash_maps kv64_h (key_of ?s) ?s (shash_pure kv64_h (key_of ?s) (?t\<lparr>sh_elm_cnt := 0\<rparr>)) Map.empty"
    by (rule shash_maps_empty [of _ _ n]) (use I(2) assms(3) good_kv64_h in simp_all)
  then have T: "kv64_tab ?s ?t Map.empty" using assms(4) unfolding z kv64_tab_def by simp
  have "dom (\<lambda>p. if p \<in> links b n then Some NULL else sl_next s p) = links b n \<union> dom (sl_next s)" by auto
  then have "finite (dom (\<lambda>p. if p \<in> links b n then Some NULL else sl_next s p))" using assms(11) by (simp add: links_def)
  then have "kv64_rep loc ?s ?t Map.empty"
    using T assms(5-10) unfolding kv64_rep_def by (auto simp: val_of_def intro!: exI [of _ Map.empty])
  then show ?thesis using I(1) by (auto simp: kv64_ctor_def)
qed

subsection \<open>Clearing\<close>

definition live_kv :: "kv_mem \<Rightarrow> addr \<Rightarrow> bool" where
  "live_kv s x \<longleftrightarrow> kv_value s x \<noteq> None \<and> kv_obj s x \<noteq> None"

lemma kv64_takeout_run:
  assumes "shash_iter_rm_curr t it s = Ret (x, it') s'" and "x \<noteq> NULL" and "live_kv s' x"
  shows "\<exists>r q. kv64_iter_takeout t it s = Ret (r, q, it') (drop_kv {x} s')"
  using assms free_drop_first(1) [of x s' NULL] by (auto simp: kv64_iter_takeout_def live_kv_def c_eval)

interpretation kvc: shash_clearing kv64_iter_takeout kv64_clear_loop live_kv "\<lambda>x. drop_kv {x}"
proof (unfold_locales, goal_cases)
  case (1 t it s x it' s')
  then show ?case by (rule kv64_takeout_run)
next
  case (2 t it s)
  show ?case by (subst kv64_clear_loop.simps) (simp add: kv64_iter_at_end_def)
qed (auto simp: drop_kv_def live_kv_def restrict_map_def fun_eq_iff)



end
