(* ===== verification/StrHash.thy ===== *)
theory StrHash
  imports KvMapProps
begin

text \<open>
  C strings in memory and the string hash of common/cpptype/object.cpp. The bytes are a map
  from addresses that the memory \<open>'s\<close> keeps in the member \<open>mem\<close>.
\<close>

subsection \<open>The routines\<close>

text \<open>\<open>strlen\<close> and \<open>strcmp\<close> of the C library, of which the code uses whether the result is 0.\<close>

partial_function (option) c_strlen :: "('s \<Rightarrow> addr \<rightharpoonup> 8 word) \<Rightarrow> addr \<Rightarrow> nat \<Rightarrow> ('s, nat) cprog" where
  "c_strlen mem p n s = bindM (rd mem (p + n)) (\<lambda>c. if c = 0 then ret n else c_strlen mem p (n + 1)) s"

partial_function (option) c_strcmp :: "('s \<Rightarrow> addr \<rightharpoonup> 8 word) \<Rightarrow> addr \<Rightarrow> addr \<Rightarrow> ('s, int) cprog" where
  "c_strcmp mem p q s =
     bindM (rd mem p) (\<lambda>a. bindM (rd mem q) (\<lambda>b.
     if a \<noteq> b \<or> a = 0 then ret (uint a - uint b) else c_strcmp mem (p + 1) (q + 1))) s"

text \<open>A char is signed: it is extended with its sign to the width of the hash.\<close>

partial_function (option) strfn_loop :: "('s \<Rightarrow> addr \<rightharpoonup> 8 word) \<Rightarrow> addr \<Rightarrow> 64 word \<Rightarrow> ('s, 64 word) cprog" where
  "strfn_loop mem str hash s =
     bindM (rd mem str) (\<lambda>c.
     if c = 0 then ret hash else strfn_loop mem (str + 1) ((push_bit 5 hash + hash) + scast c)) s"

definition obj_hash_strfn :: "('s \<Rightarrow> addr \<rightharpoonup> 8 word) \<Rightarrow> int \<Rightarrow> addr \<Rightarrow> ('s, int) cprog" where
  "obj_hash_strfn mem nsize str =
     bindM (strfn_loop mem str 5381) (\<lambda>hash.
     if (word_of_int nsize :: 64 word) = 0 then abortM Div_zero else ret (to_int (hash mod word_of_int nsize)))"

subsection \<open>Strings in memory\<close>

fun cstr :: "(addr \<rightharpoonup> 8 word) \<Rightarrow> addr \<Rightarrow> 8 word list \<Rightarrow> bool" where
  "cstr h p [] \<longleftrightarrow> h p = Some 0"
| "cstr h p (c # w) \<longleftrightarrow> h p = Some c \<and> c \<noteq> 0 \<and> cstr h (Suc p) w"

definition str_bytes :: "addr \<Rightarrow> 8 word list \<Rightarrow> addr set" where
  "str_bytes p w = {p ..< p + length w + 1}"

lemma cstr_unique: "cstr h p v \<Longrightarrow> cstr h p w \<Longrightarrow> v = w"
proof (induction v arbitrary: p w)
  case Nil
  then show ?case by (cases w) auto
next
  case (Cons c v)
  then show ?case by (cases w) auto
qed

lemma cstr_cong: "(\<And>a. a \<in> str_bytes p w \<Longrightarrow> h' a = h a) \<Longrightarrow> cstr h' p w = cstr h p w"
  by (induction w arbitrary: p) (auto simp: str_bytes_def)

lemma cstr_keep: "cstr h p w \<Longrightarrow> \<forall>a \<in> str_bytes p w. h' a = h a \<Longrightarrow> cstr h' p w"
  using cstr_cong [of p w h' h] by blast

lemma cstr_dom: "cstr h p w \<Longrightarrow> str_bytes p w \<subseteq> dom h"
proof (induction w arbitrary: p)
  case Nil
  then show ?case by (auto simp: str_bytes_def)
next
  case (Cons c w)
  then have "str_bytes (Suc p) w \<subseteq> dom h" "p \<in> dom h" by auto
  moreover have "str_bytes p (c # w) = insert p (str_bytes (Suc p) w)" by (auto simp: str_bytes_def)
  ultimately show ?case by simp
qed

lemma cstr_iff: "cstr h p w \<longleftrightarrow> (\<forall>i < length w. h (p + i) = Some (w ! i)) \<and> h (p + length w) = Some 0 \<and> 0 \<notin> set w"
proof (induction w arbitrary: p)
  case Nil
  then show ?case by simp
next
  case (Cons c w)
  have "(\<forall>i < length (c # w). h (p + i) = Some ((c # w) ! i)) \<longleftrightarrow> h p = Some c \<and> (\<forall>i < length w. h (Suc p + i) = Some (w ! i))"
    by (auto simp: less_Suc_eq_0_disj)
  then show ?case using Cons by auto
qed

lemma strlen_run: "cstr (mem s) (p + n) w \<Longrightarrow> c_strlen mem p n s = Ret (n + length w) s"
  by (induction w arbitrary: n; subst c_strlen.simps) (auto simp: c_eval)

lemma strcmp_run:
  "cstr (mem s) p v \<Longrightarrow> cstr (mem s) q w \<Longrightarrow> \<exists>c. c_strcmp mem p q s = Ret c s \<and> (c = 0 \<longleftrightarrow> v = w)"
proof (induction v arbitrary: p q w)
  case Nil
  then show ?case by (subst c_strcmp.simps) (cases w; auto simp: c_eval uint_0_iff)
next
  case (Cons a v)
  show ?case
  proof (cases w)
    case Nil
    then show ?thesis using Cons.prems by (subst c_strcmp.simps) (auto simp: c_eval uint_0_iff)
  next
    case (Cons b w')
    then show ?thesis using Cons.prems Cons.IH [of "Suc p" "Suc q" w'] by (subst c_strcmp.simps) (auto simp: c_eval word_uint_eq_iff)
  qed
qed

text \<open>The hash of a string: from 5381, times 33 and plus the next signed char, modulo \<open>2 ^ 64\<close>.\<close>

definition djb2 :: "8 word list \<Rightarrow> 64 word" where
  "djb2 w = foldl (\<lambda>h c. 33 * h + scast c) 5381 w"

lemma times_33: "push_bit 5 h + h = 33 * (h :: 64 word)"
  by (simp add: push_bit_eq_mult)

lemma strfn_run: "cstr (mem s) p w \<Longrightarrow> strfn_loop mem p h s = Ret (foldl (\<lambda>h c. 33 * h + scast c) h w) s"
proof (induction w arbitrary: p h)
  case Nil
  then show ?case by (subst strfn_loop.simps) (simp add: c_eval)
next
  case (Cons c w)
  then show ?case by (subst strfn_loop.simps) (simp add: c_eval times_33)
qed

definition skv_h :: "nat \<Rightarrow> 8 word list \<Rightarrow> nat" where
  "skv_h n w = unat (djb2 w) mod n"

lemma good_skv_h: "good_hash skv_h"
  by (simp add: good_hash_def skv_h_def)

lemma hash_strfn_run:
  assumes "cstr (mem s) p w" and "0 < n" and "n < 2 ^ 31"
  shows "obj_hash_strfn mem n p s = Ret (int (skv_h (nat n) w)) s"
  using strfn_run [where mem = mem, OF assms(1), of 5381] hash_word [OF assms(2,3)]
  by (simp add: obj_hash_strfn_def c_eval djb2_def [symmetric] kv64_h_def skv_h_def)

text \<open>The string hash returns the djb2 hash of the string, reduced to a valid bucket index,
  and leaves memory alone.\<close>

theorem obj_hash_strfn_djb2:
  assumes "cstr (mem s) p w" and "0 < n" and "n < 2 ^ 31"
  shows "obj_hash_strfn mem n p s = Ret (int (unat (djb2 w) mod nat n)) s \<and> int (unat (djb2 w) mod nat n) < n"
proof
  show "obj_hash_strfn mem n p s = Ret (int (unat (djb2 w) mod nat n)) s" using hash_strfn_run [where mem = mem, OF assms] by (simp add: skv_h_def)
  have "unat (djb2 w) mod nat n < nat n" using assms(2) by simp
  then show "int (unat (djb2 w) mod nat n) < n" using assms(2) by linarith
qed

definition demo_str :: "addr \<rightharpoonup> 8 word" where
  "demo_str = [40 \<mapsto> 0x61, 41 \<mapsto> 0x62, 42 \<mapsto> 0]"

theorem obj_hash_strfn_djb2_witness: "obj_hash_strfn (\<lambda>s. s) 31 40 demo_str = Ret 23 demo_str"
proof -
  have "cstr demo_str 40 [0x61, 0x62]" by (simp add: demo_str_def)
  from obj_hash_strfn_djb2 [where mem = "\<lambda>s. s", OF this, of 31] show ?thesis by (simp add: djb2_def)
qed

end
