(* ===== verification/StrKvMap.thy ===== *)
theory StrKvMap
  imports StrHash
begin

text \<open>
  The map from C strings to pointers and objects of include/cpptype/hash-obj.h and
  common/cpptype/hash-obj.cpp (\<open>StringKvMap\<close> and its iterator). A record holds a pointer to its key: the caller's string, or a copy
  in the space behind the record. Strings are bytes in a map of their own (\<open>chr\<close>); \<open>blk\<close> is the
  size \<open>malloc\<close> was asked for at an address, which \<open>free\<close> gives back. \<open>alloc s n\<close> is what
  \<open>malloc (n)\<close> answers in memory \<open>s\<close>, \<open>old\<close> what fresh bytes hold, \<open>loc\<close> the address of the
  local record a search is made with, of which only the key is ever read.
\<close>

subsection \<open>Data\<close>

record skv_mem = slink_mem +
  chr :: "addr \<rightharpoonup> 8 word"
  skv_key :: "addr \<rightharpoonup> addr"
  skv_value :: "addr \<rightharpoonup> addr"
  skv_obj :: "addr \<rightharpoonup> addr"
  blk :: "addr \<rightharpoonup> nat"

type_synonym skv_tab = "skv_mem shash"
type_synonym skv_allocator = "skv_mem \<Rightarrow> nat \<Rightarrow> addr"

subsection \<open>Records\<close>

definition sizeof_skv :: nat where
  "sizeof_skv = 32"

abbreviation s_keyspace :: "addr \<Rightarrow> nat \<Rightarrow> addr" where
  "s_keyspace p i \<equiv> p + sizeof_skv + i"

definition skv_sh_hash_chain :: "int \<Rightarrow> addr \<Rightarrow> (skv_mem, int) cprog" where
  "skv_sh_hash_chain nsize elm = bindM (rd skv_key elm) (\<lambda>k. obj_hash_strfn chr nsize k)"

definition skv_sh_hash_cmp_chain :: "addr \<Rightarrow> addr \<Rightarrow> (skv_mem, int) cprog" where
  "skv_sh_hash_cmp_chain e1 e2 =
     bindM (rd skv_key e1) (\<lambda>k1. bindM (rd skv_key e2) (\<lambda>k2. c_strcmp chr k1 k2))"

definition skv_ctor :: "skv_mem slink_alloc \<Rightarrow> int \<Rightarrow> (skv_mem, skv_tab) cprog" where
  "skv_ctor alloc_links nsize =
     shash_init alloc_links nsize (Some skv_sh_hash_chain) (Some skv_sh_hash_cmp_chain)"

definition skv_dtor :: "skv_tab \<Rightarrow> (skv_mem, unit) cprog" where
  "skv_dtor tab = shash_free tab None (sh_bk_size tab)"

text \<open>The bytes of the block at \<open>p\<close> of size \<open>n\<close> behind the record.\<close>

definition tail_bytes :: "addr \<Rightarrow> nat \<Rightarrow> addr set" where
  "tail_bytes p n = {p + sizeof_skv ..< p + n}"

text \<open>\<open>malloc\<close>, and \<open>memset\<close> of the record to zero.\<close>

definition malloc_skv :: "skv_allocator \<Rightarrow> (addr \<Rightarrow> 8 word) \<Rightarrow> nat \<Rightarrow> (skv_mem, addr) cprog" where
  "malloc_skv alloc old n s =
     (let p = alloc s n in
      if p = NULL then Abort (Fault NULL)
      else Ret p (s\<lparr>sl_next := (sl_next s)(p \<mapsto> NULL),
        chr := (\<lambda>a. if a \<in> tail_bytes p n then Some (old a) else chr s a),
        skv_key := (skv_key s)(p \<mapsto> NULL), skv_value := (skv_value s)(p \<mapsto> NULL), skv_obj := (skv_obj s)(p \<mapsto> NULL),
        blk := (blk s)(p \<mapsto> n)\<rparr>))"

definition drop_skv :: "addr \<Rightarrow> addr set \<Rightarrow> skv_mem \<Rightarrow> skv_mem" where
  "drop_skv p B s = s\<lparr>sl_next := (sl_next s)(p := None), chr := (\<lambda>a. if a \<in> B then None else chr s a),
     skv_key := (skv_key s)(p := None), skv_value := (skv_value s)(p := None), skv_obj := (skv_obj s)(p := None),
     blk := (blk s)(p := None)\<rparr>"

definition free_skv :: "addr \<Rightarrow> (skv_mem, unit) cprog" where
  "free_skv p s = (case blk s p of None \<Rightarrow> Abort (Fault p) | Some n \<Rightarrow> Ret () (drop_skv p (tail_bytes p n) s))"

partial_function (option) skv_copy_loop :: "addr \<Rightarrow> addr \<Rightarrow> nat \<Rightarrow> (skv_mem, nat) cprog" where
  "skv_copy_loop key r i s =
     bindM (rd chr (key + i)) (\<lambda>c.
     if c \<noteq> 0 then seqM (wr chr chr_update (s_keyspace r i) c) (skv_copy_loop key r (i + 1)) else ret i) s"

definition skv_alloc :: "skv_allocator \<Rightarrow> (addr \<Rightarrow> 8 word) \<Rightarrow> nat \<Rightarrow> addr \<Rightarrow> addr \<Rightarrow> (skv_mem, addr) cprog" where
  "skv_alloc alloc old nsize key val =
     bindM (malloc_skv alloc old nsize) (\<lambda>r.
     seqM
      (if nsize > sizeof_skv
       then bindM (skv_copy_loop key r 0) (\<lambda>i.
            seqM (wr chr chr_update (s_keyspace r i) 0)
           (seqM (wr skv_key skv_key_update r (s_keyspace r 0))
            (assertM (i + 1 + sizeof_skv = nsize))))
       else seqM (assertM (nsize = sizeof_skv)) (wr skv_key skv_key_update r key))
    (seqM (wr skv_value skv_value_update r val)
     (ret r)))"

definition skv_alloc_obj :: "skv_allocator \<Rightarrow> (addr \<Rightarrow> 8 word) \<Rightarrow> nat \<Rightarrow> addr \<Rightarrow> addr \<Rightarrow> (skv_mem, addr) cprog" where
  "skv_alloc_obj alloc old nsize key val =
     bindM (skv_alloc alloc old nsize key NULL) (\<lambda>r.
     seqM (wr skv_obj skv_obj_update r val) (ret r))"

subsection \<open>Operations\<close>

definition skv_size :: "addr \<Rightarrow> bool \<Rightarrow> (skv_mem, nat) cprog" where
  "skv_size key cpy = (if cpy then bindM (c_strlen chr key 0) (\<lambda>n. ret (sizeof_skv + n + 1)) else ret sizeof_skv)"

definition skv_insert ::
  "skv_allocator \<Rightarrow> (addr \<Rightarrow> 8 word) \<Rightarrow> skv_tab \<Rightarrow> addr \<Rightarrow> addr \<Rightarrow> bool \<Rightarrow> (skv_mem, int \<times> skv_tab) cprog" where
  "skv_insert alloc old tab key val cpy =
     bindM (skv_size key cpy) (\<lambda>n. bindM (skv_alloc alloc old n key val) (\<lambda>r. shash_insert tab r))"

definition skv_insert_obj ::
  "skv_allocator \<Rightarrow> (addr \<Rightarrow> 8 word) \<Rightarrow> skv_tab \<Rightarrow> addr \<Rightarrow> addr \<Rightarrow> bool \<Rightarrow> (skv_mem, int \<times> skv_tab) cprog" where
  "skv_insert_obj alloc old tab key val cpy =
     bindM (skv_size key cpy) (\<lambda>n. bindM (skv_alloc_obj alloc old n key val) (\<lambda>r. shash_insert tab r))"

text \<open>The local record \<open>fnd\<close>, with its key set, and its end.\<close>

definition push_skv :: "addr \<Rightarrow> addr \<Rightarrow> (skv_mem, unit) cprog" where
  "push_skv loc key s = Ret () (s\<lparr>sl_next := (sl_next s)(loc \<mapsto> NULL), skv_key := (skv_key s)(loc \<mapsto> key),
     skv_value := (skv_value s)(loc \<mapsto> NULL), skv_obj := (skv_obj s)(loc \<mapsto> NULL)\<rparr>)"

definition pop_skv :: "addr \<Rightarrow> (skv_mem, unit) cprog" where
  "pop_skv loc s = Ret () (drop_skv loc {} s)"

definition skv_find_value :: "addr \<Rightarrow> skv_tab \<Rightarrow> addr \<Rightarrow> (skv_mem, addr) cprog" where
  "skv_find_value loc tab key =
     seqM (push_skv loc key)
    (bindM (shash_find tab loc) (\<lambda>lnk.
     bindM (if lnk \<noteq> NULL then rd skv_value lnk else ret NULL) (\<lambda>v.
     seqM (pop_skv loc) (ret v))))"

definition skv_object :: "addr \<Rightarrow> skv_tab \<Rightarrow> addr \<Rightarrow> (skv_mem, addr) cprog" where
  "skv_object loc tab key =
     seqM (push_skv loc key)
    (bindM (shash_find tab loc) (\<lambda>lnk.
     bindM (if lnk \<noteq> NULL then rd skv_obj lnk else ret NULL) (\<lambda>v.
     seqM (pop_skv loc) (ret v))))"

text \<open>Returns the object, \<open>*val\<close> and the table.\<close>

definition skv_remove :: "addr \<Rightarrow> skv_tab \<Rightarrow> addr \<Rightarrow> (skv_mem, addr \<times> addr \<times> skv_tab) cprog" where
  "skv_remove loc tab key =
     seqM (push_skv loc key)
    (bindM (shash_rm tab loc) (\<lambda>r.
     bindM
      (if fst r \<noteq> NULL
       then bindM (rd skv_obj (fst r)) (\<lambda>obj. bindM (rd skv_value (fst r)) (\<lambda>val.
            seqM (wr skv_obj skv_obj_update (fst r) NULL)
           (seqM (free_skv (fst r))
            (ret (obj, val)))))
       else ret (NULL, NULL)) (\<lambda>res.
     seqM (pop_skv loc) (ret (fst res, snd res, snd r)))))"

subsection \<open>The iterator\<close>

definition skv_iter_value :: "shash_iter \<Rightarrow> (skv_mem, addr) cprog" where
  "skv_iter_value iter = (let link = sl_curr (sh_iter iter) in if link \<noteq> NULL then rd skv_value link else ret NULL)"

definition skv_iter_key :: "shash_iter \<Rightarrow> (skv_mem, addr) cprog" where
  "skv_iter_key iter = (let link = sl_curr (sh_iter iter) in if link \<noteq> NULL then rd skv_key link else ret NULL)"

definition skv_iter_deref :: "shash_iter \<Rightarrow> (skv_mem, addr) cprog" where
  "skv_iter_deref iter = (let cur = sl_curr (sh_iter iter) in if cur \<noteq> NULL then rd skv_obj cur else ret NULL)"

definition skv_iter_takeout :: "skv_tab \<Rightarrow> shash_iter \<Rightarrow> (skv_mem, addr \<times> addr option \<times> shash_iter) cprog" where
  "skv_iter_takeout tab iter =
     bindM (shash_iter_rm_curr tab iter) (\<lambda>r.
     if fst r \<noteq> NULL
     then bindM (rd skv_obj (fst r)) (\<lambda>obj. bindM (rd skv_value (fst r)) (\<lambda>val.
          seqM (wr skv_obj skv_obj_update (fst r) NULL)
         (seqM (free_skv (fst r))
          (ret (obj, Some val, snd r)))))
     else ret (NULL, None, snd r))"

partial_function (option) skv_clear_loop :: "skv_tab \<Rightarrow> shash_iter \<Rightarrow> (skv_mem, unit) cprog" where
  "skv_clear_loop tab iter s =
     (if kv64_iter_at_end iter then ret ()
      else bindM (skv_iter_takeout tab iter) (\<lambda>r.
           bindM (shash_iter_next tab (snd (snd r))) (\<lambda>iter'. skv_clear_loop tab iter'))) s"

definition skv_clear :: "shash_iter \<Rightarrow> skv_tab \<Rightarrow> (skv_mem, unit) cprog" where
  "skv_clear junk tab = bindM (shash_iter_init (Some tab) junk) (\<lambda>iter. skv_clear_loop tab iter)"

end
