(* ===== verification/StrKvProps.thy ===== *)
theory StrKvProps
  imports StrKvMap
begin

text \<open>The string map as an instance of the interface \<open>c_map\<close>: with keys that are copied it does
  not depend on the caller's strings after the call.\<close>

subsection \<open>Copying a key\<close>

lemma copy_run:
  assumes "cstr (chr s) (key + i) w" and "str_bytes (key + i) w \<inter> str_bytes (s_keyspace r i) w = {}"
    and "str_bytes (s_keyspace r i) w \<subseteq> dom (chr s)"
  shows "\<exists>h. skv_copy_loop key r i s = Ret (i + length w) (s\<lparr>chr := h\<rparr>) \<and> dom h = dom (chr s)
    \<and> (\<forall>a. a \<notin> str_bytes (s_keyspace r i) w \<longrightarrow> h a = chr s a) \<and> (\<forall>j < length w. h (s_keyspace r i + j) = Some (w ! j))"
  using assms
proof (induction w arbitrary: i s)
  case Nil
  then show ?case by (subst skv_copy_loop.simps) (auto simp: c_eval intro: exI [of _ "chr s"])
next
  case (Cons c w)
  let ?k = "s_keyspace r i"
  let ?s = "s\<lparr>chr := (chr s)(?k \<mapsto> c)\<rparr>"
  have sub: "str_bytes (key + Suc i) w \<subseteq> str_bytes (key + i) (c # w)" "str_bytes (s_keyspace r (Suc i)) w \<subseteq> str_bytes ?k (c # w)"
      "?k \<in> str_bytes ?k (c # w)" "?k \<notin> str_bytes (s_keyspace r (Suc i)) w"
    by (auto simp: str_bytes_def)
  have d: "?k \<in> dom (chr s)" using Cons.prems(3) sub(3) by blast
  have "cstr (chr ?s) (key + Suc i) w"
    by (rule cstr_keep [where h = "chr s"]) (use Cons.prems(1,2) sub(1,3) in auto)
  then have "\<exists>h. skv_copy_loop key r (Suc i) ?s = Ret (Suc i + length w) (?s\<lparr>chr := h\<rparr>) \<and> dom h = dom (chr ?s)
      \<and> (\<forall>a. a \<notin> str_bytes (s_keyspace r (Suc i)) w \<longrightarrow> h a = chr ?s a) \<and> (\<forall>j < length w. h (s_keyspace r (Suc i) + j) = Some (w ! j))"
    by (rule Cons.IH) (use Cons.prems(2,3) sub d in auto)
  then obtain h where h: "skv_copy_loop key r (Suc i) ?s = Ret (Suc i + length w) (?s\<lparr>chr := h\<rparr>)" "dom h = dom (chr ?s)"
      "\<forall>a. a \<notin> str_bytes (s_keyspace r (Suc i)) w \<longrightarrow> h a = chr ?s a" "\<forall>j < length w. h (s_keyspace r (Suc i) + j) = Some (w ! j)"
    by blast
  have "skv_copy_loop key r i s = Ret (i + length (c # w)) (s\<lparr>chr := h\<rparr>)"
    using h(1) d Cons.prems(1) by (subst skv_copy_loop.simps) (auto simp: c_eval)
  moreover have "dom h = dom (chr s)" using h(2) d by auto
  moreover have "\<forall>a. a \<notin> str_bytes ?k (c # w) \<longrightarrow> h a = chr s a" using h(3) sub(2,3) by auto
  moreover have "h (?k + j) = Some ((c # w) ! j)" if "j < length (c # w)" for j
    using that h(3,4) sub(4) by (cases j) auto
  ultimately show ?case by blast
qed

text \<open>The memory with a new record \<open>p\<close> that owns a copy of its key.\<close>

definition with_skv :: "skv_mem \<Rightarrow> addr \<Rightarrow> 8 word list \<Rightarrow> (addr \<rightharpoonup> 8 word) \<Rightarrow> addr \<Rightarrow> addr \<Rightarrow> skv_mem" where
  "with_skv s p w h v ob = s\<lparr>sl_next := (sl_next s)(p \<mapsto> NULL), chr := h, skv_key := (skv_key s)(p \<mapsto> s_keyspace p 0),
     skv_value := (skv_value s)(p \<mapsto> v), skv_obj := (skv_obj s)(p \<mapsto> ob), blk := (blk s)(p \<mapsto> sizeof_skv + length w + 1)\<rparr>"

lemma tail_str: "tail_bytes p (sizeof_skv + length w + 1) = str_bytes (s_keyspace p 0) w"
  by (auto simp: tail_bytes_def str_bytes_def)

lemma alloc_run:
  assumes key: "cstr (chr s) key w" and p: "alloc s (sizeof_skv + length w + 1) = p" "p \<noteq> NULL"
    and fr: "str_bytes (s_keyspace p 0) w \<inter> dom (chr s) = {}"
  shows "\<exists>h. (\<forall>v. skv_alloc alloc old (sizeof_skv + length w + 1) key v s = Ret p (with_skv s p w h v NULL)
      \<and> skv_alloc_obj alloc old (sizeof_skv + length w + 1) key v s = Ret p (with_skv s p w h NULL v))
    \<and> cstr h (s_keyspace p 0) w \<and> dom h = dom (chr s) \<union> str_bytes (s_keyspace p 0) w
    \<and> (\<forall>a. a \<notin> str_bytes (s_keyspace p 0) w \<longrightarrow> h a = chr s a)"
proof -
  let ?n = "sizeof_skv + length w + 1" and ?k = "s_keyspace p 0"
  let ?h0 = "\<lambda>a. if a \<in> str_bytes ?k w then Some (old a) else chr s a"
  define s1 where "s1 = s\<lparr>sl_next := (sl_next s)(p \<mapsto> NULL), chr := ?h0,
    skv_key := (skv_key s)(p \<mapsto> NULL), skv_value := (skv_value s)(p \<mapsto> NULL), skv_obj := (skv_obj s)(p \<mapsto> NULL), blk := (blk s)(p \<mapsto> ?n)\<rparr>"
  have m: "malloc_skv alloc old ?n s = Ret p s1"
    using p by (simp add: malloc_skv_def s1_def tail_str [simplified])
  have ap: "str_bytes key w \<inter> str_bytes ?k w = {}" using cstr_dom [OF key] fr by blast
  have k1: "cstr (chr s1) (key + 0) w"
    by (rule cstr_keep [where h = "chr s"]) (use key ap in \<open>auto simp: s1_def\<close>)
  have d1: "str_bytes ?k w \<subseteq> dom (chr s1)" by (auto simp: s1_def)
  obtain h where h: "skv_copy_loop key p 0 s1 = Ret (length w) (s1\<lparr>chr := h\<rparr>)" "dom h = dom (chr s1)"
      "\<forall>a. a \<notin> str_bytes ?k w \<longrightarrow> h a = chr s1 a" "\<forall>j < length w. h (?k + j) = Some (w ! j)"
    using copy_run [OF k1, of p] ap d1 by auto
  have e: "?k + length w \<in> str_bytes ?k w" by (simp add: str_bytes_def)
  then have d: "h (?k + length w) \<noteq> None" using h(2) by (auto simp: s1_def)
  let ?h = "h(?k + length w \<mapsto> 0)"
  have "0 \<notin> set w" using key by (simp add: cstr_iff)
  then have c: "cstr ?h ?k w" using h(4) by (simp add: cstr_iff)
  have "dom ?h = dom (chr s) \<union> str_bytes ?k w" using h(2) e by (auto simp: s1_def split: if_splits)
  moreover have "\<forall>a. a \<notin> str_bytes ?k w \<longrightarrow> ?h a = chr s a" using h(3) e by (auto simp: s1_def)
  moreover have fl: "skv_key s1 p = Some NULL" "skv_value s1 p = Some NULL" by (simp_all add: s1_def)
  moreover have al: "skv_alloc alloc old ?n key v s = Ret p (with_skv s p w ?h v NULL)" for v
    using m h(1) d fl by (auto simp: skv_alloc_def c_eval with_skv_def s1_def)
  moreover have "skv_alloc_obj alloc old ?n key v s = Ret p (with_skv s p w ?h NULL v)" for v
    by (simp only: skv_alloc_obj_def bindM_def al option.simps outcome.simps) (simp add: c_eval with_skv_def)
  ultimately show ?thesis using c by blast
qed

subsection \<open>Representation\<close>

definition str_of :: "(addr \<rightharpoonup> 8 word) \<Rightarrow> addr \<Rightarrow> 8 word list" where
  "str_of h p = (SOME w. cstr h p w)"

lemma str_of_cstr: "cstr h p w \<Longrightarrow> str_of h p = w"
  unfolding str_of_def using cstr_unique by blast

definition key_str :: "skv_mem \<Rightarrow> addr \<Rightarrow> 8 word list" where
  "key_str s x = str_of (chr s) (the (skv_key s x))"

abbreviation own_bytes :: "addr \<Rightarrow> 8 word list \<Rightarrow> addr set" where
  "own_bytes x k \<equiv> str_bytes (s_keyspace x 0) k"

text \<open>The record \<open>x\<close> has a copy of its key \<open>k\<close>.\<close>

definition skv_own :: "skv_mem \<Rightarrow> 8 word list \<Rightarrow> addr \<Rightarrow> bool" where
  "skv_own s k x \<longleftrightarrow> skv_key s x = Some (s_keyspace x 0) \<and> cstr (chr s) (s_keyspace x 0) k
     \<and> skv_value s x \<noteq> None \<and> skv_obj s x \<noteq> None \<and> blk s x = Some (sizeof_skv + length k + 1)"

definition skv_apart :: "(8 word list \<rightharpoonup> addr) \<Rightarrow> bool" where
  "skv_apart em \<longleftrightarrow> (\<forall>k x j y. em k = Some x \<and> em j = Some y \<and> x \<noteq> y \<longrightarrow> own_bytes x k \<inter> own_bytes y j = {})"

definition skv_table :: "skv_mem \<Rightarrow> skv_tab \<Rightarrow> (8 word list \<rightharpoonup> addr) \<Rightarrow> bool" where
  "skv_table s t em \<longleftrightarrow>
     shash_maps skv_h (key_str s) s (shash_pure skv_h (key_str s) t) em
     \<and> sh_hash_fn t = Some skv_sh_hash_chain \<and> sh_cmp_fn t = Some skv_sh_hash_cmp_chain \<and> sh_bk_size t < 2 ^ 31
     \<and> (\<forall>k x. em k = Some x \<longrightarrow> skv_own s k x) \<and> skv_apart em"

lemmas skv_maps = conjunct1 [OF iffD1 [OF skv_table_def]]

lemma skv_own_key: "skv_own s k x \<Longrightarrow> key_str s x = k"
  by (simp add: skv_own_def key_str_def str_of_cstr)

lemma skv_table_own: "skv_table s t em \<Longrightarrow> em k = Some x \<Longrightarrow> skv_own s k x"
  by (simp add: skv_table_def)

text \<open>A memory that agrees on the table.\<close>

definition skv_same :: "skv_tab \<Rightarrow> (8 word list \<rightharpoonup> addr) \<Rightarrow> skv_mem \<Rightarrow> skv_mem \<Rightarrow> bool" where
  "skv_same t em s s' \<longleftrightarrow> (\<forall>x \<in> tab_cells t em. sl_next s' x = sl_next s x)
     \<and> (\<forall>k x. em k = Some x \<longrightarrow> skv_key s' x = skv_key s x \<and> skv_value s' x = skv_value s x \<and> skv_obj s' x = skv_obj s x
         \<and> blk s' x = blk s x \<and> (\<forall>a \<in> own_bytes x k. chr s' a = chr s a))"

lemma skv_own_same: "skv_own s k x \<Longrightarrow> skv_same t em s s' \<Longrightarrow> em k = Some x \<Longrightarrow> skv_own s' k x"
  unfolding skv_own_def skv_same_def using cstr_keep [of "chr s" "s_keyspace x 0" k "chr s'"] by auto

lemma skv_table_same:
  assumes tab: "skv_table s t em" and same: "skv_same t em s s'"
  shows "skv_table s' t em"
proof -
  have own: "skv_own s' k x" if "em k = Some x" for k x
    using skv_own_same [OF skv_table_own [OF tab that] same that] .
  have "\<forall>x \<in> ran em. key_str s' x = key_str s x"
    using own skv_own_key skv_table_own [OF tab] by (fastforce simp: ran_def)
  then have "shash_maps skv_h (key_str s') s (shash_pure skv_h (key_str s') t) em"
    by (rule shash_maps_rekey [OF skv_maps [OF tab]])
  then have "shash_maps skv_h (key_str s') s' (shash_pure skv_h (key_str s') t) em"
    by (rule shash_maps_frame) (use same in \<open>auto simp: skv_same_def tab_cells_def\<close>)
  then show ?thesis using tab own unfolding skv_table_def by blast
qed

text \<open>The table's functions on a record with a string for its key.\<close>

lemma skv_seek:
  assumes tab: "skv_table s t em" and p: "skv_key s p = Some q" "cstr (chr s) q k"
  shows "hash_like skv_h (key_str s) s t p" and "cmp_like (key_str s) s t (ran em) p" and "key_str s p = k"
proof -
  have sz: "0 < sh_bk_size t" "sh_bk_size t < 2 ^ 31"
    using tab by (auto simp: skv_table_def shash_maps_def shash_rep_def)
  show key: "key_str s p = k" using p by (simp add: key_str_def str_of_cstr)
  show "hash_like skv_h (key_str s) s t p"
    using hash_strfn_run [where mem = chr, OF p(2) sz] tab p(1) key
    by (simp add: hash_like_def call_hash_def skv_sh_hash_chain_def c_eval skv_table_def)
  show "cmp_like (key_str s) s t (ran em) p"
    unfolding cmp_like_def
  proof
    fix x assume "x \<in> ran em"
    then obtain j where j: "em j = Some x" by (auto simp: ran_def)
    note own = skv_table_own [OF tab j]
    show "\<exists>c. call_cmp (sh_cmp_fn t) x p s = Ret c s \<and> (c = 0 \<longleftrightarrow> key_str s x = key_str s p)"
      using strcmp_run [of chr s "s_keyspace x 0" j q k] own skv_own_key [OF own] p key tab
      by (auto simp: call_cmp_def skv_sh_hash_cmp_chain_def c_eval skv_own_def skv_table_def)
  qed
qed

definition skv_vals :: "skv_mem \<Rightarrow> (8 word list \<rightharpoonup> addr) \<Rightarrow> (8 word list \<rightharpoonup> addr \<times> addr)" where
  "skv_vals s em = (\<lambda>k. map_option (\<lambda>x. (the (skv_value s x), the (skv_obj s x))) (em k))"

lemma skv_vals_same: "skv_same t em s s' \<Longrightarrow> skv_vals s' em = skv_vals s em"
  by (auto simp: skv_vals_def skv_same_def fun_eq_iff map_option_case split: option.splits)

text \<open>\<open>skv_rep loc U s t m\<close>: the map \<open>m\<close>, in a memory with the local \<open>loc\<close> and the bytes \<open>U\<close> of
  a buffer of the caller outside.\<close>

definition skv_local :: "addr \<Rightarrow> skv_mem \<Rightarrow> bool" where
  "skv_local loc s \<longleftrightarrow> loc \<noteq> NULL \<and> loc \<notin> dom (sl_next s) \<and> loc \<notin> dom (skv_key s) \<and> loc \<notin> dom (skv_value s)
     \<and> loc \<notin> dom (skv_obj s) \<and> loc \<notin> dom (blk s) \<and> finite (dom (sl_next s)) \<and> finite (dom (chr s))"

definition skv_rep :: "addr \<Rightarrow> addr set \<Rightarrow> skv_mem \<Rightarrow> skv_tab \<Rightarrow> (8 word list \<rightharpoonup> addr \<times> addr) \<Rightarrow> bool" where
  "skv_rep loc U s t m \<longleftrightarrow> skv_local loc s \<and> (\<exists>em. skv_table s t em \<and> m = skv_vals s em \<and> (\<forall>k x. em k = Some x \<longrightarrow> own_bytes x k \<inter> U = {}))"

definition fresh_skv :: "addr \<Rightarrow> addr set \<Rightarrow> skv_allocator \<Rightarrow> bool" where
  "fresh_skv loc U alloc \<longleftrightarrow>
     (\<forall>s n. finite (dom (sl_next s)) \<and> finite (dom (chr s)) \<longrightarrow> alloc s n \<noteq> NULL \<and> alloc s n \<noteq> loc
        \<and> alloc s n \<notin> dom (sl_next s) \<and> tail_bytes (alloc s n) n \<inter> (dom (chr s) \<union> U) = {})"

lemma push_same:
  assumes "skv_table s t em" and "loc \<notin> dom (sl_next s)"
  shows "\<exists>s'. push_skv loc q s = Ret () s' \<and> skv_same t em s s' \<and> skv_key s' loc = Some q \<and> chr s' = chr s \<and> loc \<notin> tab_cells t em"
proof -
  have "tab_cells t em \<subseteq> dom (sl_next s)" using tab_cells_dom [OF skv_maps [OF assms(1)]] by (simp add: tab_cells_def)
  with assms(2) have loc: "loc \<notin> tab_cells t em" by blast
  moreover have "x \<noteq> loc" if "em k = Some x" for k x using loc that by (auto simp: tab_cells_def ran_def)
  ultimately show ?thesis by (auto simp: push_skv_def skv_same_def)
qed

lemma pop_push:
  "loc \<notin> dom (sl_next s) \<Longrightarrow> loc \<notin> dom (skv_key s) \<Longrightarrow> loc \<notin> dom (skv_value s) \<Longrightarrow> loc \<notin> dom (skv_obj s) \<Longrightarrow> loc \<notin> dom (blk s) \<Longrightarrow>
   push_skv loc q s = Ret () s' \<Longrightarrow> pop_skv loc s' = Ret () s"
  by (auto simp: push_skv_def pop_skv_def drop_skv_def domIff fun_upd_idem)

lemma skv_elem:
  assumes "skv_table s t em" and "em k = Some x"
  shows "x \<noteq> NULL" and "\<exists>v ob. skv_value s x = Some v \<and> skv_obj s x = Some ob \<and> skv_vals s em k = Some (v, ob)"
  using shash_maps_elem(2) [OF skv_maps [OF assms(1)] assms(2)] skv_table_own [OF assms] assms(2)
  by (auto simp: skv_own_def skv_vals_def)

lemma skv_find_run:
  assumes rep: "skv_rep loc U s t m" and key: "cstr (chr s) q k"
  shows "skv_find_value loc t q s = Ret (case m k of None \<Rightarrow> NULL | Some r \<Rightarrow> fst r) s"
    and "skv_object loc t q s = Ret (case m k of None \<Rightarrow> NULL | Some r \<Rightarrow> snd r) s"
proof -
  obtain em where tab: "skv_table s t em" and m: "m = skv_vals s em" using rep by (auto simp: skv_rep_def)
  obtain s' where s': "push_skv loc q s = Ret () s'" "skv_same t em s s'" "skv_key s' loc = Some q" "chr s' = chr s"
    using push_same [OF tab, of loc q] rep by (auto simp: skv_rep_def skv_local_def)
  have tab': "skv_table s' t em" by (rule skv_table_same [OF tab s'(2)])
  have "cstr (chr s') q k" using key s'(4) by simp
  note S = skv_seek [OF tab' s'(3) this]
  have fnd: "shash_find t loc s' = Ret (or_NULL (em k)) s'"
    using shash_find_calls [OF skv_maps [OF tab'] S(1,2)] S(3) by simp
  have pop: "pop_skv loc s' = Ret () s" using pop_push [OF _ _ _ _ _ s'(1)] rep by (simp add: skv_rep_def skv_local_def)
  have vals: "m = skv_vals s' em" using skv_vals_same [OF s'(2)] m by simp
  have el: "x \<noteq> NULL \<and> (\<exists>v ob. skv_value s' x = Some v \<and> skv_obj s' x = Some ob \<and> m k = Some (v, ob))" if "em k = Some x" for x
    using skv_elem [OF tab' that] vals by simp
  have no: "m k = None" if "em k = None" using that by (simp add: m skv_vals_def)
  show "skv_find_value loc t q s = Ret (case m k of None \<Rightarrow> NULL | Some r \<Rightarrow> fst r) s"
    using s'(1) fnd pop el no by (cases "em k") (auto simp: skv_find_value_def c_eval)
  show "skv_object loc t q s = Ret (case m k of None \<Rightarrow> NULL | Some r \<Rightarrow> snd r) s"
    using s'(1) fnd pop el no by (cases "em k") (auto simp: skv_object_def c_eval)
qed

lemma skv_links [simp]:
  "key_str (s\<lparr>sl_next := nx\<rparr>) = key_str s" "skv_own (s\<lparr>sl_next := nx\<rparr>) = skv_own s" "skv_vals (s\<lparr>sl_next := nx\<rparr>) = skv_vals s"
  by (simp_all add: key_str_def skv_own_def skv_vals_def fun_eq_iff)

lemma skv_put_run:
  assumes rep: "skv_rep loc U s t m" and none: "m k = None"
    and p: "p \<noteq> NULL" "p \<noteq> loc" "p \<notin> dom (sl_next s)" "own_bytes p k \<inter> (dom (chr s) \<union> U) = {}"
    and h: "cstr h (s_keyspace p 0) k" "dom h = dom (chr s) \<union> own_bytes p k" "\<forall>a. a \<notin> own_bytes p k \<longrightarrow> h a = chr s a"
  shows "\<exists>i t' s'. shash_insert t p (with_skv s p k h v ob) = Ret (i, t') s' \<and> skv_rep loc U s' t' (m(k \<mapsto> (v, ob))) \<and> chr s' = h"
proof -
  let ?s = "with_skv s p k h v ob"
  obtain em where tab: "skv_table s t em" and m: "m = skv_vals s em" and U: "\<And>j x. em j = Some x \<Longrightarrow> own_bytes x j \<inter> U = {}"
    using rep by (auto simp: skv_rep_def)
  have "tab_cells t em \<subseteq> dom (sl_next s)" using tab_cells_dom [OF skv_maps [OF tab]] by (simp add: tab_cells_def)
  with p(3) have pt: "p \<notin> tab_cells t em" by blast
  then have px: "x \<noteq> p" if "em j = Some x" for j x using that by (auto simp: tab_cells_def ran_def)
  have ob: "own_bytes x j \<inter> own_bytes p k = {}" if "em j = Some x" for j x
  proof -
    have "own_bytes x j \<subseteq> dom (chr s)" using skv_table_own [OF tab that] cstr_dom unfolding skv_own_def by blast
    with p(4) show ?thesis by blast
  qed
  have same: "skv_same t em s ?s"
    unfolding skv_same_def with_skv_def using px pt ob h(3) by (simp add: disjoint_iff)
  note T = skv_table_same [OF tab same]
  have own: "skv_own ?s k p" using h(1) by (simp add: skv_own_def with_skv_def)
  have S: "skv_key ?s p = Some (s_keyspace p 0)" "cstr (chr ?s) (s_keyspace p 0) k" using h(1) by (simp_all add: with_skv_def)
  note seek = skv_seek [OF T S]
  have cell: "shash_cell ?s t p" using pt p(1) by (auto simp: shash_cell_def is_link_def tab_cells_def with_skv_def)
  have none': "em k = None" using none by (simp add: m skv_vals_def)
  obtain i nx c where r: "shash_insert t p ?s = Ret (i, t\<lparr>sh_elm_cnt := c\<rparr>) (?s\<lparr>sl_next := nx\<rparr>)"
    and M: "shash_maps skv_h (key_str ?s) (?s\<lparr>sl_next := nx\<rparr>) (shash_pure skv_h (key_str ?s) (t\<lparr>sh_elm_cnt := c\<rparr>)) (em(k \<mapsto> p))"
    and d: "dom nx = dom (sl_next ?s)"
    using shash_insert_calls [OF skv_maps [OF T] seek(1) cell] none' unfolding seek(3) by blast
  have "skv_apart (em(k \<mapsto> p))" using tab ob unfolding skv_apart_def skv_table_def by (auto simp: Int_commute)
  moreover have "\<forall>j x. (em(k \<mapsto> p)) j = Some x \<longrightarrow> skv_own ?s j x" using own skv_table_own [OF T] by simp
  ultimately have T': "skv_table (?s\<lparr>sl_next := nx\<rparr>) (t\<lparr>sh_elm_cnt := c\<rparr>) (em(k \<mapsto> p))"
    using M T unfolding skv_table_def by simp
  have "m(k \<mapsto> (v, ob)) = skv_vals (?s\<lparr>sl_next := nx\<rparr>) (em(k \<mapsto> p))"
    using skv_vals_same [OF same] by (auto simp: m fun_eq_iff skv_vals_def with_skv_def)
  moreover have "\<forall>j x. (em(k \<mapsto> p)) j = Some x \<longrightarrow> own_bytes x j \<inter> U = {}" using U p(4) by auto
  moreover have "skv_local loc (?s\<lparr>sl_next := nx\<rparr>)"
    using conjunct1 [OF rep [unfolded skv_rep_def]] p(2) h(2) d by (simp add: skv_local_def with_skv_def str_bytes_def domIff)
  ultimately have "skv_rep loc U (?s\<lparr>sl_next := nx\<rparr>) (t\<lparr>sh_elm_cnt := c\<rparr>) (m(k \<mapsto> (v, ob)))"
    using T' unfolding skv_rep_def by blast
  moreover have "chr (?s\<lparr>sl_next := nx\<rparr>) = h" by (simp add: with_skv_def)
  ultimately show ?thesis using r by blast
qed

lemma skv_insert_run:
  assumes rep: "skv_rep loc U s t m" and none: "m k = None" and key: "cstr (chr s) q k" and fr: "fresh_skv loc U alloc"
  shows "\<exists>i t' s'. skv_insert alloc old t q v True s = Ret (i, t') s' \<and> skv_rep loc U s' t' (m(k \<mapsto> (v, NULL)))
      \<and> (\<forall>a \<in> dom (chr s). chr s' a = chr s a) \<and> (\<forall>a \<in> U. chr s' a = chr s a)"
    and "\<exists>i t' s'. skv_insert_obj alloc old t q v True s = Ret (i, t') s' \<and> skv_rep loc U s' t' (m(k \<mapsto> (NULL, v)))
      \<and> (\<forall>a \<in> dom (chr s). chr s' a = chr s a) \<and> (\<forall>a \<in> U. chr s' a = chr s a)"
proof -
  let ?n = "sizeof_skv + length k + 1"
  let ?p = "alloc s ?n"
  have f: "finite (dom (sl_next s))" "finite (dom (chr s))" using rep by (simp_all add: skv_rep_def skv_local_def)
  have p: "?p \<noteq> NULL" "?p \<noteq> loc" "?p \<notin> dom (sl_next s)" "own_bytes ?p k \<inter> (dom (chr s) \<union> U) = {}"
    using fr [unfolded fresh_skv_def, rule_format, of s ?n] f tail_str [of ?p k] by simp_all
  have "own_bytes ?p k \<inter> dom (chr s) = {}" using p(4) by blast
  from alloc_run [where alloc = alloc and p = ?p and old = old, OF key refl p(1) this] obtain h where
      al: "\<And>v. skv_alloc alloc old ?n q v s = Ret ?p (with_skv s ?p k h v NULL)"
        "\<And>v. skv_alloc_obj alloc old ?n q v s = Ret ?p (with_skv s ?p k h NULL v)"
    and h: "cstr h (s_keyspace ?p 0) k" "dom h = dom (chr s) \<union> own_bytes ?p k" "\<forall>a. a \<notin> own_bytes ?p k \<longrightarrow> h a = chr s a"
    by blast
  have sz: "skv_size q True s = Ret ?n s"
    using strlen_run [of chr s q 0 k] key by (simp add: skv_size_def c_eval)
  note put = skv_put_run [OF rep none p h]
  have keep: "(\<forall>a \<in> dom (chr s). h a = chr s a) \<and> (\<forall>a \<in> U. h a = chr s a)" using h(3) p(4) by blast
  show "\<exists>i t' s'. skv_insert alloc old t q v True s = Ret (i, t') s' \<and> skv_rep loc U s' t' (m(k \<mapsto> (v, NULL)))
      \<and> (\<forall>a \<in> dom (chr s). chr s' a = chr s a) \<and> (\<forall>a \<in> U. chr s' a = chr s a)"
    using put [of v NULL] sz al(1) [of v] keep by (auto simp: skv_insert_def bindM_def)
  show "\<exists>i t' s'. skv_insert_obj alloc old t q v True s = Ret (i, t') s' \<and> skv_rep loc U s' t' (m(k \<mapsto> (NULL, v)))
      \<and> (\<forall>a \<in> dom (chr s). chr s' a = chr s a) \<and> (\<forall>a \<in> U. chr s' a = chr s a)"
    using put [of NULL v] sz al(2) [of v] keep by (auto simp: skv_insert_obj_def bindM_def)
qed

lemma free_own:
  "skv_own s k x \<Longrightarrow> free_skv x (s\<lparr>skv_obj := (skv_obj s)(x \<mapsto> v)\<rparr>) = Ret () (drop_skv x (own_bytes x k) s)"
  using tail_str [of x k] by (simp add: skv_own_def free_skv_def drop_skv_def cong: if_cong)

lemma skv_same_drop:
  assumes "x \<notin> tab_cells t em" and "\<And>j y. em j = Some y \<Longrightarrow> own_bytes y j \<inter> B = {}"
  shows "skv_same t em s (drop_skv x B s)"
proof -
  have "y \<noteq> x" if "em j = Some y" for j y using assms(1) that by (auto simp: tab_cells_def ran_def)
  with assms show ?thesis by (auto simp: skv_same_def drop_skv_def)
qed

lemma skv_same_trans: "skv_same t em s s' \<Longrightarrow> skv_same t em s' s'' \<Longrightarrow> skv_same t em s s''"
  by (simp add: skv_same_def)

lemma drop_finite: "finite (dom (sl_next s)) \<Longrightarrow> finite (dom (sl_next (drop_skv x B s)))"
    "finite (dom (chr s)) \<Longrightarrow> finite (dom (chr (drop_skv x B s)))"
  by (auto simp: drop_skv_def dom_def elim!: rev_finite_subset)

lemma drop_local:
  "loc \<noteq> NULL \<Longrightarrow> finite (dom (sl_next s)) \<Longrightarrow> finite (dom (chr s)) \<Longrightarrow> skv_local loc (drop_skv loc B s)"
  using drop_finite [of s loc B] by (simp add: skv_local_def) (simp add: drop_skv_def)

lemma skv_remove_run:
  assumes rep: "skv_rep loc U s t m" and key: "cstr (chr s) q k"
  shows "\<exists>t' s'. skv_remove loc t q s = Ret (case m k of None \<Rightarrow> (NULL, NULL, t') | Some r \<Rightarrow> (snd r, fst r, t')) s'
    \<and> skv_rep loc U s' t' (m(k := None)) \<and> (\<forall>a \<in> U. chr s' a = chr s a)"
proof -
  obtain em where tab: "skv_table s t em" and m: "m = skv_vals s em" and U: "\<And>j x. em j = Some x \<Longrightarrow> own_bytes x j \<inter> U = {}"
    and loc: "skv_local loc s" using rep by (auto simp: skv_rep_def)
  obtain s1 where s1: "push_skv loc q s = Ret () s1" "skv_same t em s s1" "skv_key s1 loc = Some q" "chr s1 = chr s" "loc \<notin> tab_cells t em"
    using push_same [OF tab, of loc q] loc by (auto simp: skv_local_def)
  have tab1: "skv_table s1 t em" by (rule skv_table_same [OF tab s1(2)])
  have "cstr (chr s1) q k" using key s1(4) by simp
  note seek = skv_seek [OF tab1 s1(3) this]
  obtain nx c where r: "shash_rm t loc s1 = Ret (or_NULL (em k), t\<lparr>sh_elm_cnt := c\<rparr>) (s1\<lparr>sl_next := nx\<rparr>)"
    and M: "shash_maps skv_h (key_str s1) (s1\<lparr>sl_next := nx\<rparr>) (shash_pure skv_h (key_str s1) (t\<lparr>sh_elm_cnt := c\<rparr>)) (em(k := None))"
    and d: "dom nx = dom (sl_next s1)"
    using shash_rm_calls [OF skv_maps [OF tab1] seek(1,2)] unfolding seek(3) by blast
  let ?s2 = "s1\<lparr>sl_next := nx\<rparr>" and ?t = "t\<lparr>sh_elm_cnt := c\<rparr>" and ?em = "em(k := None)"
  let ?s3 = "case em k of None \<Rightarrow> ?s2 | Some x \<Rightarrow> drop_skv x (own_bytes x k) ?s2"
  let ?s4 = "drop_skv loc {} ?s3"
  have "skv_apart ?em" using tab unfolding skv_apart_def skv_table_def by (metis fun_upd_apply option.distinct(1))
  then have tab2: "skv_table ?s2 ?t ?em" using M tab1 unfolding skv_table_def by simp
  have off: "x \<notin> tab_cells ?t ?em" if "em k = Some x" for x
    by (rule tab_cells_rm [OF skv_maps [OF tab] that]) simp_all
  have locx: "loc \<notin> tab_cells ?t ?em" using s1(5) by (auto simp: tab_cells_def ran_def split: if_splits)
  have ne: "y \<noteq> x" if "em k = Some x" "?em j = Some y" for x y j using off [OF that(1)] that(2) by (auto simp: tab_cells_def ran_def)
  have ap: "own_bytes y j \<inter> own_bytes x k = {}" if "em k = Some x" "?em j = Some y" for x y j
    using tab ne [OF that] that unfolding skv_table_def skv_apart_def by (metis fun_upd_apply option.distinct(1))
  have same: "skv_same ?t ?em ?s2 ?s4"
  proof (cases "em k")
    case None
    then show ?thesis using skv_same_drop [OF locx] by simp
  next
    case (Some x)
    have "skv_same ?t ?em ?s2 (drop_skv x (own_bytes x k) ?s2)"
      by (rule skv_same_drop [OF off [OF Some]]) (use ap [OF Some] in blast)
    then show ?thesis using Some skv_same_trans skv_same_drop [OF locx, of "{}"] by simp
  qed
  have own: "skv_own ?s2 k x" "x \<noteq> NULL" if "em k = Some x" for x
    using skv_table_own [OF tab1 that] skv_elem(1) [OF tab1 that] by simp_all
  have el: "\<exists>v ob. skv_value s1 x = Some v \<and> skv_obj s1 x = Some ob \<and> m k = Some (v, ob)" if "em k = Some x" for x
    using skv_elem(2) [OF tab1 that] skv_vals_same [OF s1(2)] m by simp
  have run: "skv_remove loc t q s = Ret (case m k of None \<Rightarrow> (NULL, NULL, ?t) | Some r \<Rightarrow> (snd r, fst r, ?t)) ?s4"
  proof (cases "em k")
    case None
    then have "m k = None" by (simp add: m skv_vals_def)
    then show ?thesis using None s1(1) r by (simp add: skv_remove_def c_eval pop_skv_def)
  next
    case (Some x)
    from el [OF Some] obtain v ob where "skv_value s1 x = Some v" "skv_obj s1 x = Some ob" "m k = Some (v, ob)" by blast
    then show ?thesis using Some s1(1) r own [OF Some] free_own [OF own(1) [OF Some], of NULL]
      by (simp add: skv_remove_def c_eval pop_skv_def)
  qed
  have "m(k := None) = skv_vals ?s2 ?em"
    using skv_vals_same [OF s1(2)] by (auto simp: m skv_vals_def fun_eq_iff)
  then have vals: "m(k := None) = skv_vals ?s4 ?em" using skv_vals_same [OF same] by simp
  have fin: "finite (dom nx)" "finite (dom (chr s1))" using d loc s1(1,4) by (auto simp: push_skv_def skv_local_def)
  have loc4: "skv_local loc ?s4"
  proof (rule drop_local)
    show "loc \<noteq> NULL" using loc by (simp add: skv_local_def)
    show "finite (dom (sl_next ?s3))" "finite (dom (chr ?s3))" using drop_finite [of ?s2] fin by (simp_all split: option.split)
  qed
  have keep: "\<forall>a \<in> U. chr ?s4 a = chr s a" using U s1(4) by (cases "em k") (auto simp: drop_skv_def)
  have "\<forall>j x. ?em j = Some x \<longrightarrow> own_bytes x j \<inter> U = {}" using U by simp
  with vals loc4 skv_table_same [OF tab2 same] have "skv_rep loc U ?s4 ?t (m(k := None))"
    unfolding skv_rep_def by blast
  with run keep show ?thesis by blast
qed

subsection \<open>The map as an instance of the interface\<close>

text \<open>A caller with one buffer of \<open>B\<close> bytes at \<open>buf\<close>, which holds the key during a call and is
  reused afterwards.\<close>

definition lay_str :: "addr \<Rightarrow> 8 word list \<Rightarrow> (skv_mem, unit) cprog" where
  "lay_str buf w s = Ret () (s\<lparr>chr := (\<lambda>a. if a \<in> str_bytes buf w then Some ((w @ [0]) ! (a - buf)) else chr s a)\<rparr>)"

definition wipe_str :: "addr \<Rightarrow> 8 word list \<Rightarrow> (skv_mem, unit) cprog" where
  "wipe_str buf w s = Ret () (s\<lparr>chr := (\<lambda>a. if a \<in> str_bytes buf w then None else chr s a)\<rparr>)"

definition with_key :: "addr \<Rightarrow> 8 word list \<Rightarrow> (skv_mem, 'r) cprog \<Rightarrow> (skv_mem, 'r) cprog" where
  "with_key buf w prog = seqM (lay_str buf w) (bindM prog (\<lambda>r. seqM (wipe_str buf w) (ret r)))"

definition buf_key :: "nat \<Rightarrow> 8 word list \<Rightarrow> bool" where
  "buf_key B w \<longleftrightarrow> 0 \<notin> set w \<and> length w < B"

definition skv_put :: "skv_allocator \<Rightarrow> (addr \<Rightarrow> 8 word) \<Rightarrow> addr \<Rightarrow> skv_tab \<Rightarrow> 8 word list \<Rightarrow> addr \<Rightarrow> (skv_mem, skv_tab) cprog" where
  "skv_put alloc old buf t k v = with_key buf k (bindM (skv_insert alloc old t buf v True) (\<lambda>r. ret (snd r)))"

definition skv_get :: "addr \<Rightarrow> addr \<Rightarrow> skv_tab \<Rightarrow> 8 word list \<Rightarrow> (skv_mem, addr) cprog" where
  "skv_get loc buf t k = with_key buf k (skv_find_value loc t buf)"

definition skv_del :: "addr \<Rightarrow> addr \<Rightarrow> skv_tab \<Rightarrow> 8 word list \<Rightarrow> (skv_mem, addr \<times> skv_tab) cprog" where
  "skv_del loc buf t k = with_key buf k (bindM (skv_remove loc t buf) (\<lambda>r. ret (fst (snd r), snd (snd r))))"

lemma lay_cstr: "0 \<notin> set w \<Longrightarrow> cstr (\<lambda>a. if a \<in> str_bytes buf w then Some ((w @ [0]) ! (a - buf)) else h a) buf w"
  by (simp add: cstr_iff str_bytes_def nth_append)

lemma skv_rep_chr:
  assumes rep: "skv_rep loc U s t m" and "finite U" and h: "\<And>a. a \<notin> U \<Longrightarrow> h a = chr s a"
  shows "skv_rep loc U (s\<lparr>chr := h\<rparr>) t m"
proof -
  obtain em where tab: "skv_table s t em" and m: "m = skv_vals s em" and U: "\<forall>j x. em j = Some x \<longrightarrow> own_bytes x j \<inter> U = {}"
    using rep by (auto simp: skv_rep_def)
  have same: "skv_same t em s (s\<lparr>chr := h\<rparr>)"
    using U h by (auto simp: skv_same_def)
  have "dom h \<subseteq> dom (chr s) \<union> U" using h by (metis Un_iff domIff subsetI)
  then have "finite (dom h)" using assms(2) rep by (meson finite_Un finite_subset skv_local_def skv_rep_def)
  then have "skv_local loc (s\<lparr>chr := h\<rparr>)" using rep by (simp add: skv_rep_def skv_local_def)
  then show ?thesis using skv_table_same [OF tab same] skv_vals_same [OF same] m U unfolding skv_rep_def by auto
qed

lemma with_key_run:
  assumes rep: "skv_rep loc {buf ..< buf + B} s t m" and k: "buf_key B k"
    and prog: "\<And>s1. skv_rep loc {buf ..< buf + B} s1 t m \<Longrightarrow> cstr (chr s1) buf k \<Longrightarrow>
      \<exists>r s2. prog s1 = Ret r s2 \<and> skv_rep loc {buf ..< buf + B} s2 (tab r) m' \<and> Q r"
  shows "\<exists>r s2. with_key buf k prog s = Ret r s2 \<and> skv_rep loc {buf ..< buf + B} s2 (tab r) m' \<and> Q r"
proof -
  have sub: "str_bytes buf k \<subseteq> {buf ..< buf + B}" using k by (auto simp: buf_key_def str_bytes_def)
  let ?h = "\<lambda>a. if a \<in> str_bytes buf k then Some ((k @ [0]) ! (a - buf)) else chr s a"
  have "skv_rep loc {buf ..< buf + B} (s\<lparr>chr := ?h\<rparr>) t m" by (rule skv_rep_chr [OF rep]) (use sub in auto)
  moreover have "cstr (chr (s\<lparr>chr := ?h\<rparr>)) buf k" using lay_cstr [of k buf "chr s"] k by (simp add: buf_key_def)
  ultimately obtain r s2 where p: "prog (s\<lparr>chr := ?h\<rparr>) = Ret r s2" "skv_rep loc {buf ..< buf + B} s2 (tab r) m'" "Q r"
    using prog by blast
  let ?s3 = "s2\<lparr>chr := (\<lambda>a. if a \<in> str_bytes buf k then None else chr s2 a)\<rparr>"
  have "skv_rep loc {buf ..< buf + B} ?s3 (tab r) m'" by (rule skv_rep_chr [OF p(2)]) (use sub in auto)
  moreover have "with_key buf k prog s = Ret r ?s3"
    using p(1) by (simp add: with_key_def lay_str_def wipe_str_def c_eval)
  ultimately show ?thesis using p(3) by blast
qed

definition skv_holds :: "addr \<Rightarrow> addr \<Rightarrow> nat \<Rightarrow> skv_allocator \<Rightarrow> skv_mem \<Rightarrow> skv_tab \<Rightarrow> (8 word list \<rightharpoonup> addr) \<Rightarrow> bool" where
  "skv_holds loc buf B alloc s t m \<longleftrightarrow> fresh_skv loc {buf ..< buf + B} alloc
     \<and> (\<exists>m'. skv_rep loc {buf ..< buf + B} s t m' \<and> m = (\<lambda>k. map_option fst (m' k)))"

interpretation skm: c_map "skv_holds loc buf B alloc" "buf_key B" NULL "skv_put alloc old buf" "skv_get loc buf" "skv_del loc buf"
  for loc buf :: addr and B :: nat and alloc :: skv_allocator and old :: "addr \<Rightarrow> 8 word"
proof (unfold_locales, goal_cases)
  case (1 s t m k v)
  then obtain m' where m': "fresh_skv loc {buf ..< buf + B} alloc" "skv_rep loc {buf ..< buf + B} s t m'" "m = (\<lambda>k. map_option fst (m' k))" "m' k = None"
    by (auto simp: skv_holds_def)
  have "\<exists>t' s'. skv_put alloc old buf t k v s = Ret t' s' \<and> skv_rep loc {buf ..< buf + B} s' t' (m'(k \<mapsto> (v, NULL))) \<and> True"
    unfolding skv_put_def
  proof (rule with_key_run [OF m'(2) 1(2)])
    fix s1 assume "skv_rep loc {buf ..< buf + B} s1 t m'" "cstr (chr s1) buf k"
    from skv_insert_run(1) [of loc "{buf ..< buf + B}", OF this(1) m'(4) this(2) m'(1), of old v] obtain i t' s' where
      "skv_insert alloc old t buf v True s1 = Ret (i, t') s'" "skv_rep loc {buf ..< buf + B} s' t' (m'(k \<mapsto> (v, NULL)))" by blast
    then show "\<exists>t' s'. bindM (skv_insert alloc old t buf v True) (\<lambda>r. ret (snd r)) s1 = Ret t' s'
        \<and> skv_rep loc {buf ..< buf + B} s' t' (m'(k \<mapsto> (v, NULL))) \<and> True"
      by (simp add: c_eval)
  qed
  then obtain t' s' where "skv_put alloc old buf t k v s = Ret t' s'" "skv_rep loc {buf ..< buf + B} s' t' (m'(k \<mapsto> (v, NULL)))" by blast
  with m' show ?case unfolding skv_holds_def m'(3) map_fst_upd(1) [of m' k v NULL] by blast
next
  case (2 s t m k)
  then obtain m' where m': "fresh_skv loc {buf ..< buf + B} alloc" "skv_rep loc {buf ..< buf + B} s t m'" "m = (\<lambda>k. map_option fst (m' k))"
    by (auto simp: skv_holds_def)
  have v: "val_or NULL (m k) = (case m' k of None \<Rightarrow> NULL | Some r \<Rightarrow> fst r)" by (cases "m' k") (simp_all add: val_or_def m'(3))
  have "\<exists>r s'. skv_get loc buf t k s = Ret r s' \<and> skv_rep loc {buf ..< buf + B} s' t m' \<and> r = val_or NULL (m k)"
    unfolding skv_get_def v
    by (rule with_key_run [where tab = "\<lambda>r. t", OF m'(2) 2(2)]) (use skv_find_run(1) in blast)
  then show ?case using m'(1) unfolding skv_holds_def m'(3) by blast
next
  case (3 s t m k)
  then obtain m' where m': "fresh_skv loc {buf ..< buf + B} alloc" "skv_rep loc {buf ..< buf + B} s t m'" "m = (\<lambda>k. map_option fst (m' k))"
    by (auto simp: skv_holds_def)
  have "\<exists>r s'. skv_del loc buf t k s = Ret r s' \<and> skv_rep loc {buf ..< buf + B} s' (snd r) (m'(k := None)) \<and> fst r = val_or NULL (m k)"
    unfolding skv_del_def
  proof (rule with_key_run [OF m'(2) 3(2)])
    fix s1 assume "skv_rep loc {buf ..< buf + B} s1 t m'" "cstr (chr s1) buf k"
    from skv_remove_run [OF this] obtain t' s' where "skv_remove loc t buf s1 = Ret (case m' k of None \<Rightarrow> (NULL, NULL, t') | Some r \<Rightarrow> (snd r, fst r, t')) s'"
      "skv_rep loc {buf ..< buf + B} s' t' (m'(k := None))" by blast
    then show "\<exists>r s'. bindM (skv_remove loc t buf) (\<lambda>r. ret (fst (snd r), snd (snd r))) s1 = Ret r s'
        \<and> skv_rep loc {buf ..< buf + B} s' (snd r) (m'(k := None)) \<and> fst r = val_or NULL (m k)"
      by (cases "m' k") (auto simp: c_eval val_or_def m'(3))
  qed
  then obtain t' s' where "skv_del loc buf t k s = Ret (val_or NULL (m k), t') s'" "skv_rep loc {buf ..< buf + B} s' t' (m'(k := None))" by (metis prod.collapse)
  with m'(1) show ?case unfolding skv_holds_def m'(3) map_fst_upd(2) by blast
qed

subsection \<open>Clearing\<close>

definition live_skv :: "skv_mem \<Rightarrow> addr \<Rightarrow> bool" where
  "live_skv s x \<longleftrightarrow> skv_value s x \<noteq> None \<and> skv_obj s x \<noteq> None \<and> blk s x \<noteq> None"

definition gone_skv :: "addr \<Rightarrow> skv_mem \<Rightarrow> skv_mem" where
  "gone_skv x s = drop_skv x (tail_bytes x (the (blk s x))) s"

lemma skv_takeout_run:
  assumes "shash_iter_rm_curr t it s = Ret (x, it') s'" and "x \<noteq> NULL" and "live_skv s' x"
  shows "\<exists>r q. skv_iter_takeout t it s = Ret (r, q, it') (gone_skv x s')"
  using assms by (auto simp: skv_iter_takeout_def live_skv_def c_eval free_skv_def gone_skv_def drop_skv_def cong: if_cong)

interpretation skc: shash_clearing skv_iter_takeout skv_clear_loop live_skv gone_skv
proof (unfold_locales, goal_cases)
  case (1 t it s x it' s')
  then show ?case by (rule skv_takeout_run)
next
  case (2 t it s)
  show ?case by (subst skv_clear_loop.simps) (simp add: kv64_iter_at_end_def)
qed (auto simp: gone_skv_def drop_skv_def live_skv_def)

text \<open>The key copies of freed records are freed, those of others can be.\<close>

definition copy_freed :: "skv_mem \<Rightarrow> 8 word list \<Rightarrow> addr \<Rightarrow> bool" where
  "copy_freed s k x \<longleftrightarrow> (sl_next s x = None \<longrightarrow> own_bytes x k \<inter> dom (chr s) = {})
     \<and> (sl_next s x \<noteq> None \<longrightarrow> blk s x = Some (sizeof_skv + length k + 1))"

definition copies_freed :: "(8 word list \<rightharpoonup> addr) \<Rightarrow> skv_mem \<Rightarrow> bool" where
  "copies_freed em s \<longleftrightarrow> (\<forall>k x. em k = Some x \<longrightarrow> copy_freed s k x)"

lemma copy_gone:
  assumes "copy_freed s k x"
  shows "copy_freed (gone_skv y s) k x"
proof (cases "x = y \<and> sl_next s x \<noteq> None")
  case True
  then show ?thesis using assms tail_str [of x k]
    by (auto simp: copy_freed_def gone_skv_def drop_skv_def split: if_splits)
next
  case False
  have "dom (chr (gone_skv y s)) \<subseteq> dom (chr s)" by (auto simp: gone_skv_def drop_skv_def dom_def)
  moreover have "sl_next (gone_skv y s) x = sl_next s x" using False by (auto simp: gone_skv_def drop_skv_def)
  moreover have "blk (gone_skv y s) x = blk s x" if "sl_next s x \<noteq> None" using False that by (auto simp: gone_skv_def drop_skv_def)
  ultimately show ?thesis using assms unfolding copy_freed_def by auto
qed

lemma copies_gone: "copies_freed em s \<Longrightarrow> copies_freed em (gone_skv y s)"
  by (simp add: copies_freed_def copy_gone)

lemma copies_link: "copies_freed em s \<Longrightarrow> p \<in> dom (sl_next s) \<Longrightarrow> copies_freed em (s\<lparr>sl_next := (sl_next s)(p \<mapsto> v)\<rparr>)"
  unfolding copies_freed_def copy_freed_def by (simp add: domIff)

subsection \<open>Properties\<close>

text \<open>C20: Whatever the caller does with the buffer it passed its keys in, a sequence of
  insertions (with copied keys, under absent keys), lookups and removals on a \<open>StringKvMap\<close>
  returns what a map from strings to values gives.\<close>

theorem skv_refines_map:
  assumes "skv_holds loc buf B alloc s t m" and "map_legal (buf_key B) cs m"
  shows "\<exists>s'. map_run (skv_put alloc old buf) (skv_get loc buf) (skv_del loc buf) cs t s = Ret (map_spec NULL cs m) s'"
  using assms by (rule skm.run_refines)

definition demo_skv_alloc :: skv_allocator where
  "demo_skv_alloc s n = Suc (Max (insert 60 (dom (sl_next s) \<union> dom (chr s))))"

lemma demo_skv_fresh: "fresh_skv 5 {40 ..< 50} demo_skv_alloc"
  unfolding fresh_skv_def
proof (intro allI impI)
  fix s :: skv_mem and n assume f: "finite (dom (sl_next s)) \<and> finite (dom (chr s))"
  have above: "a < demo_skv_alloc s n" if "a = 60 \<or> a \<in> dom (sl_next s) \<or> a \<in> dom (chr s)" for a
    unfolding demo_skv_alloc_def by (rule Suc_Max_above) (use f that in auto)
  have "demo_skv_alloc s n \<notin> dom (sl_next s)" "60 < demo_skv_alloc s n" "\<forall>a \<in> dom (chr s). a < demo_skv_alloc s n"
    using above [of "demo_skv_alloc s n"] above [of 60] above by auto
  then have "tail_bytes (demo_skv_alloc s n) n \<inter> (dom (chr s) \<union> {40 ..< 50}) = {}"
    by (auto simp: tail_bytes_def) (metis domI less_le_not_le le_add1 order_trans)
  with above [of "demo_skv_alloc s n"] above [of 60] show "demo_skv_alloc s n \<noteq> NULL \<and> demo_skv_alloc s n \<noteq> 5 \<and> demo_skv_alloc s n \<notin> dom (sl_next s)
      \<and> tail_bytes (demo_skv_alloc s n) n \<inter> (dom (chr s) \<union> {40 ..< 50}) = {}"
    by auto
qed

definition demo_skv :: skv_mem where
  "demo_skv = \<lparr>sl_next = [10 \<mapsto> 0, 11 \<mapsto> 0], chr = Map.empty, skv_key = Map.empty, skv_value = Map.empty,
     skv_obj = Map.empty, blk = Map.empty\<rparr>"

definition demo_skv_tab :: skv_tab where
  "demo_skv_tab = \<lparr>sh_bucket = 10, sh_bk_size = 2, sh_elm_cnt = 0, sh_max_chain = 0,
     sh_hash_fn = Some skv_sh_hash_chain, sh_cmp_fn = Some skv_sh_hash_cmp_chain\<rparr>"

lemma demo_skv_holds: "skv_holds 5 40 10 demo_skv_alloc demo_skv demo_skv_tab Map.empty"
proof -
  have "buckets demo_skv 10 (replicate 2 [])" by (auto simp: buckets_def demo_skv_def less_Suc_eq numeral_2_eq_2)
  then have "shash_maps skv_h (key_str demo_skv) demo_skv (shash_pure skv_h (key_str demo_skv) (demo_skv_tab\<lparr>sh_elm_cnt := 0\<rparr>)) Map.empty"
    by (intro shash_maps_empty [where n = 2]) (simp_all add: demo_skv_tab_def good_skv_h)
  moreover have "demo_skv_tab\<lparr>sh_elm_cnt := 0\<rparr> = demo_skv_tab" by (simp add: demo_skv_tab_def)
  ultimately have "skv_table demo_skv demo_skv_tab Map.empty"
    by (simp add: skv_table_def skv_apart_def) (simp add: demo_skv_tab_def)
  then have "skv_rep 5 {40 ..< 40 + 10} demo_skv demo_skv_tab Map.empty"
    unfolding skv_rep_def by (auto simp: skv_local_def demo_skv_def skv_vals_def intro!: exI [of _ Map.empty])
  then show ?thesis using demo_skv_fresh unfolding skv_holds_def by (auto intro!: exI [of _ Map.empty])
qed

theorem skv_refines_map_witness:
  "\<exists>s'. map_run (skv_put demo_skv_alloc (\<lambda>a. 7) 40) (skv_get 5 40) (skv_del 5 40)
     [Put [0x61, 0x62] 50, Put [0x63] 60, Get [0x61, 0x62], Del [0x61, 0x62], Get [0x61, 0x62], Get [0x63]] demo_skv_tab demo_skv
     = Ret [50, 50, 0, 60] s'"
  using skv_refines_map [OF demo_skv_holds, of "[Put [0x61, 0x62] 50, Put [0x63] 60, Get [0x61, 0x62], Del [0x61, 0x62], Get [0x61, 0x62], Get [0x63]]"]
  by (simp add: buf_key_def val_or_def)

text \<open>C21: \<open>clear\<close> of a \<open>StringKvMap\<close> ends with no entry left, and with the record and the
  key copy of every entry freed.\<close>

theorem skv_clear_empties:
  assumes tab: "skv_table s t em"
  shows "\<exists>s'. skv_clear junk t s = Ret () s' \<and> skv_table s' (t\<lparr>sh_elm_cnt := 0\<rparr>) Map.empty
    \<and> (\<forall>k x. em k = Some x \<longrightarrow> sl_next s' x = None \<and> own_bytes x k \<inter> dom (chr s') = {})"
proof -
  obtain bs where R: "shash_rep skv_h (key_str s) s (shash_pure skv_h (key_str s) t) bs"
      "distinct (map (key_str s) (concat bs))" "em = key_map (key_str s) (concat bs)"
    using skv_maps [OF tab] by (auto simp: shash_maps_def)
  have r: "ran em = set (concat bs)" using key_map_Some [OF R(2)] R(3) unfolding ran_def by blast
  have B: "buckets s (sh_bucket t) bs" "sh_bk_size t = int (length bs)" "bs \<noteq> []" using R(1) by (simp_all add: shash_rep_def)
  have own: "skv_own s k x \<and> sl_next s x \<noteq> None" if "em k = Some x" for k x
    using skv_table_own [OF tab that] shash_maps_elem(3) [OF skv_maps [OF tab] that] by (simp add: domIff)
  have "\<forall>x \<in> set (concat bs). live_skv s x" using own unfolding r [symmetric] live_skv_def ran_def skv_own_def by auto
  moreover have "copies_freed em s" using own unfolding copies_freed_def copy_freed_def skv_own_def by blast
  ultimately obtain s' where s': "skv_clear junk t s = Ret () s'" "buckets s' (sh_bucket t) (replicate (length bs) [])"
      "copies_freed em s'" "\<forall>x \<in> set (concat bs). sl_next s' x = None"
    using skc.clear_run [OF B, of "copies_freed em" junk] copies_gone copies_link by (auto simp: skv_clear_def)
  have "shash_maps skv_h (key_str s') s' (shash_pure skv_h (key_str s') (t\<lparr>sh_elm_cnt := 0\<rparr>)) Map.empty"
    by (rule shash_maps_empty [OF s'(2) B(2)]) (use B(3) good_skv_h in auto)
  then have "skv_table s' (t\<lparr>sh_elm_cnt := 0\<rparr>) Map.empty" using tab by (simp add: skv_table_def skv_apart_def)
  moreover have "sl_next s' x = None" if "em k = Some x" for k x using s'(4) ranI [of em, OF that] unfolding r by blast
  ultimately show ?thesis using s'(1,3) unfolding copies_freed_def copy_freed_def by blast
qed

text \<open>A map with one entry, the string \<open>ab\<close>.\<close>

theorem skv_clear_empties_witness:
  "\<exists>t s s'. skv_put demo_skv_alloc (\<lambda>a. 7) 40 demo_skv_tab [0x61, 0x62] 50 demo_skv = Ret t s
     \<and> skv_clear \<lparr>sh_curr = 0, sh_iter = \<lparr>sl_prev = 0, sl_curr = 0\<rparr>\<rparr> t s = Ret () s' \<and> skv_table s' (t\<lparr>sh_elm_cnt := 0\<rparr>) Map.empty"
proof -
  have "buf_key 10 [0x61, 0x62]" by (simp add: buf_key_def)
  from skm.put_law [OF demo_skv_holds this, of "\<lambda>a. 7" 50] obtain t s em where
    "skv_put demo_skv_alloc (\<lambda>a. 7) 40 demo_skv_tab [0x61, 0x62] 50 demo_skv = Ret t s" "skv_table s t em"
    by (auto simp: skv_holds_def skv_rep_def)
  then show ?thesis using skv_clear_empties [of s t em] by blast
qed

end
