(* ===== verification/ObjLinks.thy ===== *)
theory ObjLinks
  imports DhashSpec StrHash
begin

text \<open>
  Objects that carry their links: include/cpptype/object.h (\<open>Object\<close>, \<open>ODlink\<close>) and the list of
  include/cpptype/list-obj.h (\<open>DListObj\<close>). A link is a ring link with a pointer back to the
  object. An object pointer is the address it holds (reference counts are not modelled);
  what the virtual methods \<open>obj_key64\<close> and \<open>obj_keystr\<close> of an object return is kept in
  \<open>o_key64\<close> and \<open>o_keystr\<close>, the bytes of strings in \<open>o_chr\<close>. The other virtual methods are
  those of \<open>Object\<close> itself.
\<close>

subsection \<open>Data\<close>

record obj_mem = dlist_mem +
  ol_ptr :: "addr \<rightharpoonup> addr"
  o_key64 :: "addr \<rightharpoonup> 64 word"
  o_keystr :: "addr \<rightharpoonup> addr"
  o_chr :: "addr \<rightharpoonup> 8 word"

text \<open>The addresses of the links in an object: \<open>Object::m_chain\<close>, \<open>LruObj::m_lru\<close>.\<close>

definition m_chain :: "addr \<Rightarrow> addr" where
  "m_chain o1 = o1 + 8"

definition m_lru :: "addr \<Rightarrow> addr" where
  "m_lru o1 = o1 + 40"

subsection \<open>Links\<close>

definition odlink_init :: "addr \<Rightarrow> addr \<Rightarrow> (obj_mem, unit) cprog" where
  "odlink_init link p s = Ret () (s\<lparr>dl_next := (dl_next s)(link \<mapsto> link), dl_prev := (dl_prev s)(link \<mapsto> link), ol_ptr := (ol_ptr s)(link \<mapsto> p)\<rparr>)"

definition odlink_dtor :: "addr \<Rightarrow> (obj_mem, unit) cprog" where
  "odlink_dtor link =
     bindM (dlist_empty link) (\<lambda>b. seqM (assertM b)
     (\<lambda>s. Ret () (s\<lparr>dl_next := (dl_next s)(link := None), dl_prev := (dl_prev s)(link := None), ol_ptr := (ol_ptr s)(link := None)\<rparr>)))"

text \<open>\<open>obj_ptr\<close> and \<open>obj_cptr\<close>.\<close>

definition obj_ptr :: "addr \<Rightarrow> (obj_mem, addr) cprog" where
  "obj_ptr link = rd ol_ptr link"

definition obj_detach :: "addr \<Rightarrow> (obj_mem, addr) cprog" where
  "obj_detach link =
     (if link \<noteq> NULL
      then bindM (rd ol_ptr link) (\<lambda>r.
           seqM (wr ol_ptr ol_ptr_update link NULL)
          (seqM (dlist_init link)
          (seqM (assertM (r \<noteq> NULL)) (ret r))))
      else ret NULL)"

definition obj_rm :: "addr \<Rightarrow> (obj_mem, unit) cprog" where
  "obj_rm link =
     bindM (rd ol_ptr link) (\<lambda>p.
     seqM (assertM (p \<noteq> NULL))
    (seqM (dlist_rm_init link)
     (wr ol_ptr ol_ptr_update link NULL)))"

definition obj_peek_front :: "addr \<Rightarrow> (obj_mem, addr) cprog" where
  "obj_peek_front l = bindM (dlist_peek_front l) (\<lambda>link. obj_ptr link)"

definition obj_rm_front :: "addr \<Rightarrow> (obj_mem, addr) cprog" where
  "obj_rm_front l = bindM (dlist_rm_front l) (\<lambda>link. obj_detach link)"

definition obj_rm_back :: "addr \<Rightarrow> (obj_mem, addr) cprog" where
  "obj_rm_back l = bindM (dlist_rm_back l) (\<lambda>link. obj_detach link)"

text \<open>\<open>dlist_empty (&ol_link) && (ol_ptr == p)\<close>, with its short circuit.\<close>

definition empty_with :: "addr \<Rightarrow> addr \<Rightarrow> (obj_mem, bool) cprog" where
  "empty_with link p = bindM (dlist_empty link) (\<lambda>b. if b then bindM (rd ol_ptr link) (\<lambda>q. ret (q = p)) else ret False)"

definition obj_ref :: "addr \<Rightarrow> addr \<Rightarrow> (obj_mem, unit) cprog" where
  "obj_ref link p = bindM (empty_with link NULL) (\<lambda>b. seqM (assertM b) (wr ol_ptr ol_ptr_update link p))"

definition obj_deref :: "addr \<Rightarrow> addr \<Rightarrow> (obj_mem, unit) cprog" where
  "obj_deref link p =
     bindM (dlist_empty link) (\<lambda>b. seqM (assertM b)
    (bindM (rd ol_ptr link) (\<lambda>q. seqM (assertM (q = p))
     (wr ol_ptr ol_ptr_update link NULL))))"

definition obj_add_front :: "addr \<Rightarrow> addr \<Rightarrow> addr \<Rightarrow> (obj_mem, unit) cprog" where
  "obj_add_front link obj l =
     bindM (empty_with link NULL) (\<lambda>b. seqM (assertM b)
    (seqM (dlist_add_front l link)
     (wr ol_ptr ol_ptr_update link obj)))"

definition obj_add_back :: "addr \<Rightarrow> addr \<Rightarrow> addr \<Rightarrow> (obj_mem, unit) cprog" where
  "obj_add_back link obj l =
     bindM (empty_with link NULL) (\<lambda>b. seqM (assertM b)
    (seqM (dlist_add_back l link)
     (wr ol_ptr ol_ptr_update link obj)))"

definition obj_is_chained :: "addr \<Rightarrow> (obj_mem, bool) cprog" where
  "obj_is_chained obj = bindM (dlist_empty (m_chain obj)) (\<lambda>b. ret (\<not> b))"

subsection \<open>Keys of objects\<close>

definition obj_hash64 :: "int \<Rightarrow> 64 word \<Rightarrow> (obj_mem, int) cprog" where
  "obj_hash64 nsize key =
     (if (word_of_int nsize :: 64 word) = 0 then abortM Div_zero else ret (to_int (key mod word_of_int nsize)))"

definition obj_compare64 :: "addr \<Rightarrow> 64 word \<Rightarrow> (obj_mem, int) cprog" where
  "obj_compare64 obj key = bindM (rd o_key64 obj) (\<lambda>k. ret (to_int (k - key)))"

definition obj_hash_str :: "int \<Rightarrow> addr \<Rightarrow> (obj_mem, int) cprog" where
  "obj_hash_str nsize key = obj_hash_strfn o_chr nsize key"

definition obj_compare_str :: "addr \<Rightarrow> addr \<Rightarrow> (obj_mem, int) cprog" where
  "obj_compare_str obj key = bindM (rd o_keystr obj) (\<lambda>k. c_strcmp o_chr k key)"

text \<open>The key of the object a link belongs to; a null object is dereferenced.\<close>

definition obj_key_dlink :: "addr \<Rightarrow> (obj_mem, 64 word) cprog" where
  "obj_key_dlink link = bindM (obj_ptr link) (\<lambda>p. rd o_key64 p)"

definition obj_hash_dlink :: "int \<Rightarrow> addr \<Rightarrow> (obj_mem, int) cprog" where
  "obj_hash_dlink nsize link = bindM (obj_key_dlink link) (\<lambda>k. obj_hash64 nsize k)"

definition obj_compare_dlink :: "addr \<Rightarrow> addr \<Rightarrow> (obj_mem, int) cprog" where
  "obj_compare_dlink obj link = bindM (obj_key_dlink link) (\<lambda>k. obj_compare64 obj k)"

subsection \<open>Search keys\<close>

text \<open>An object \<open>ObjKeyFind\<close> on the stack at \<open>loc\<close>, of which only one key is set, and its end. Its second
  link is not used with the containers below.\<close>

definition push_seed64 :: "addr \<Rightarrow> 64 word \<Rightarrow> (obj_mem, unit) cprog" where
  "push_seed64 loc key = seqM (odlink_init (m_chain loc) NULL)
     (seqM (obj_ref (m_chain loc) loc) (\<lambda>s. Ret () (s\<lparr>o_key64 := (o_key64 s)(loc \<mapsto> key)\<rparr>)))"

definition push_seed_str :: "addr \<Rightarrow> addr \<Rightarrow> (obj_mem, unit) cprog" where
  "push_seed_str loc key = seqM (odlink_init (m_chain loc) NULL)
     (seqM (obj_ref (m_chain loc) loc) (\<lambda>s. Ret () (s\<lparr>o_keystr := (o_keystr s)(loc \<mapsto> key)\<rparr>)))"

definition pop_seed :: "addr \<Rightarrow> (obj_mem, unit) cprog" where
  "pop_seed loc = seqM (obj_deref (m_chain loc) loc)
     (seqM (odlink_dtor (m_chain loc))
     (\<lambda>s. Ret () (s\<lparr>o_key64 := (o_key64 s)(loc := None), o_keystr := (o_keystr s)(loc := None)\<rparr>)))"

subsection \<open>The list of objects\<close>

definition dl_ctor :: "addr \<Rightarrow> (obj_mem, unit) cprog" where
  "dl_ctor l = dlist_init l"

definition dl_cmp_key64 :: "addr \<Rightarrow> addr \<Rightarrow> (obj_mem, int) cprog" where
  "dl_cmp_key64 e1 e2 = bindM (obj_ptr e1) (\<lambda>o1. bindM (obj_ptr e2) (\<lambda>o2.
     bindM (rd o_key64 o2) (\<lambda>k. obj_compare64 o1 k)))"

definition dl_cmp_keystr :: "addr \<Rightarrow> addr \<Rightarrow> (obj_mem, int) cprog" where
  "dl_cmp_keystr e1 e2 = bindM (obj_ptr e1) (\<lambda>o1. bindM (obj_ptr e2) (\<lambda>o2.
     bindM (rd o_keystr o2) (\<lambda>k. obj_compare_str o1 k)))"

definition dl_cmp_chain :: "addr \<Rightarrow> addr \<Rightarrow> (obj_mem, int) cprog" where
  "dl_cmp_chain e1 e2 = bindM (obj_ptr e1) (\<lambda>o1. bindM (obj_ptr e2) (\<lambda>o2.
     bindM (rd o_key64 o2) (\<lambda>k. obj_compare64 o1 k)))"

text \<open>What the searches do with the link found.\<close>

definition dl_found :: "addr \<Rightarrow> bool \<Rightarrow> (obj_mem, addr) cprog" where
  "dl_found link rm = (if link \<noteq> NULL then (if rm then obj_detach link else obj_ptr link) else ret NULL)"

definition dl_find_key64 :: "addr \<Rightarrow> addr \<Rightarrow> 64 word \<Rightarrow> bool \<Rightarrow> (obj_mem, addr) cprog" where
  "dl_find_key64 loc l key rm =
     seqM (push_seed64 loc key)
    (bindM (dlist_find l (m_chain loc) dl_cmp_key64 rm) (\<lambda>link.
     bindM (dl_found link rm) (\<lambda>r. seqM (pop_seed loc) (ret r))))"

definition dl_find_keystr :: "addr \<Rightarrow> addr \<Rightarrow> addr \<Rightarrow> bool \<Rightarrow> (obj_mem, addr) cprog" where
  "dl_find_keystr loc l key rm =
     seqM (push_seed_str loc key)
    (bindM (dlist_find l (m_chain loc) dl_cmp_keystr rm) (\<lambda>link.
     bindM (dl_found link rm) (\<lambda>r. seqM (pop_seed loc) (ret r))))"

definition dl_find_chain :: "addr \<Rightarrow> addr \<Rightarrow> bool \<Rightarrow> (obj_mem, addr) cprog" where
  "dl_find_chain l p rm = bindM (dlist_find l p dl_cmp_chain rm) (\<lambda>link. dl_found link rm)"

definition dl_add_sorted :: "addr \<Rightarrow> addr \<Rightarrow> (obj_mem, unit) cprog" where
  "dl_add_sorted l obj =
     bindM (empty_with (m_chain obj) NULL) (\<lambda>b. seqM (assertM b)
    (seqM (dlist_add_sorted l (m_chain obj) dl_cmp_chain)
     (wr ol_ptr ol_ptr_update (m_chain obj) obj)))"

definition dl_add_sorted_link :: "addr \<Rightarrow> addr \<Rightarrow> addr \<Rightarrow> (obj_mem, unit) cprog" where
  "dl_add_sorted_link l obj p =
     bindM (rd ol_ptr p) (\<lambda>q. seqM (assertM (q = NULL))
    (seqM (dlist_add_sorted l p dl_cmp_chain)
     (wr ol_ptr ol_ptr_update p obj)))"

definition dl_add_sorted_key64 :: "addr \<Rightarrow> addr \<Rightarrow> (obj_mem, unit) cprog" where
  "dl_add_sorted_key64 l obj =
     bindM (rd ol_ptr (m_chain obj)) (\<lambda>q. seqM (assertM (q = NULL))
    (seqM (dlist_add_sorted l (m_chain obj) dl_cmp_key64)
     (wr ol_ptr ol_ptr_update (m_chain obj) obj)))"

definition dl_add_sorted_keystr :: "addr \<Rightarrow> addr \<Rightarrow> (obj_mem, unit) cprog" where
  "dl_add_sorted_keystr l obj =
     bindM (rd ol_ptr (m_chain obj)) (\<lambda>q. seqM (assertM (q = NULL))
    (seqM (dlist_add_sorted l (m_chain obj) dl_cmp_keystr)
     (wr ol_ptr ol_ptr_update (m_chain obj) obj)))"

definition dl_empty :: "addr \<Rightarrow> (obj_mem, bool) cprog" where
  "dl_empty l = dlist_empty l"

definition dl_add_front :: "addr \<Rightarrow> addr \<Rightarrow> (obj_mem, unit) cprog" where
  "dl_add_front l obj = obj_add_front (m_chain obj) obj l"

definition dl_add_back :: "addr \<Rightarrow> addr \<Rightarrow> (obj_mem, unit) cprog" where
  "dl_add_back l obj = obj_add_back (m_chain obj) obj l"

definition dl_peek_front :: "addr \<Rightarrow> (obj_mem, addr) cprog" where
  "dl_peek_front l = obj_peek_front l"

definition dl_rm_front :: "addr \<Rightarrow> (obj_mem, addr) cprog" where
  "dl_rm_front l = obj_rm_front l"

definition dl_rm_back :: "addr \<Rightarrow> (obj_mem, addr) cprog" where
  "dl_rm_back l = obj_rm_back l"

definition dl_split_obj :: "addr \<Rightarrow> addr \<Rightarrow> addr \<Rightarrow> (obj_mem, unit) cprog" where
  "dl_split_obj l obj res =
     bindM (rd ol_ptr (m_chain obj)) (\<lambda>p. seqM (assertM (p = obj)) (dlist_split l (m_chain obj) res))"

text \<open>The iterator \<open>DObjIter\<close> is the link it stands at; the end of a list is its head.\<close>

definition dl_begin :: "addr \<Rightarrow> (obj_mem, addr) cprog" where
  "dl_begin l = dlink_next l"

definition dl_end :: "addr \<Rightarrow> addr" where
  "dl_end l = l"

definition dl_iter_deref :: "addr \<Rightarrow> (obj_mem, addr) cprog" where
  "dl_iter_deref iter = (if iter \<noteq> NULL then obj_ptr iter else ret NULL)"

definition dl_iter_eq :: "addr \<Rightarrow> addr \<Rightarrow> bool" where
  "dl_iter_eq iter rhs = (if iter = rhs then True else False)"

definition dl_iter_incr :: "addr \<Rightarrow> (obj_mem, addr) cprog" where
  "dl_iter_incr iter = dlist_iter_next iter"

end
