(* ===== verification/DHashObj.thy ===== *)
theory DHashObj
  imports ObjLinks
begin

text \<open>
  The hash table of objects (\<open>DHashObj\<close> of include/cpptype/hash-obj.h and
  common/cpptype/hash-obj.cpp) over the table with doubly linked buckets. An object is entered
  by its 64-bit key, by its string or through another link of it; the table itself is
  configured with the functions for strings. \<open>alloc\<close> is \<open>malloc\<close>, \<open>loc\<close> the address of the
  object on the stack a search is made with.
\<close>

type_synonym obj_tab = "obj_mem dhash"

subsection \<open>The functions of the table\<close>

text \<open>\<open>(&obj->m_chain.ol_link == elm) || (obj->m_chain.obj_ptr() == obj)\<close>\<close>

definition own_link :: "addr \<Rightarrow> addr \<Rightarrow> (obj_mem, bool) cprog" where
  "own_link obj elm = (if m_chain obj = elm then ret True else bindM (obj_ptr (m_chain obj)) (\<lambda>p. ret (p = obj)))"

definition dh_hash_key64 :: "int \<Rightarrow> addr \<Rightarrow> (obj_mem, int) cprog" where
  "dh_hash_key64 bk_size elm =
     bindM (obj_ptr elm) (\<lambda>obj. seqM (assertM (obj \<noteq> NULL))
    (bindM (own_link obj elm) (\<lambda>b. seqM (assertM b)
    (bindM (rd o_key64 obj) (\<lambda>k. obj_hash64 bk_size k)))))"

definition dh_hash_cmp_key64 :: "addr \<Rightarrow> addr \<Rightarrow> (obj_mem, int) cprog" where
  "dh_hash_cmp_key64 elm1 elm2 =
     bindM (obj_ptr elm1) (\<lambda>obj. bindM (obj_ptr elm2) (\<lambda>cmp. seqM (assertM (obj \<noteq> NULL \<and> cmp \<noteq> NULL))
    (bindM (own_link obj elm1) (\<lambda>b1. seqM (assertM b1)
    (bindM (own_link cmp elm2) (\<lambda>b2. seqM (assertM b2)
    (bindM (rd o_key64 cmp) (\<lambda>k. obj_compare64 obj k))))))))"

definition dh_hash_keystr :: "int \<Rightarrow> addr \<Rightarrow> (obj_mem, int) cprog" where
  "dh_hash_keystr bk_size elm =
     bindM (obj_ptr elm) (\<lambda>obj. seqM (assertM (obj \<noteq> NULL))
    (bindM (own_link obj elm) (\<lambda>b. seqM (assertM b)
    (bindM (rd o_keystr obj) (\<lambda>k. obj_hash_str bk_size k)))))"

definition dh_hash_cmp_keystr :: "addr \<Rightarrow> addr \<Rightarrow> (obj_mem, int) cprog" where
  "dh_hash_cmp_keystr elm1 elm2 =
     bindM (obj_ptr elm1) (\<lambda>obj. bindM (obj_ptr elm2) (\<lambda>cmp. seqM (assertM (obj \<noteq> NULL \<and> cmp \<noteq> NULL))
    (bindM (own_link obj elm1) (\<lambda>b1. seqM (assertM b1)
    (bindM (own_link cmp elm2) (\<lambda>b2. seqM (assertM b2)
    (bindM (rd o_keystr cmp) (\<lambda>k. obj_compare_str obj k))))))))"

text \<open>\<open>hash_dlink\<close> is the virtual method \<open>obj_hash_dlink\<close> of the objects.\<close>

definition dh_hash_chain_with :: "(addr \<Rightarrow> int \<Rightarrow> addr \<Rightarrow> (obj_mem, int) cprog) \<Rightarrow> int \<Rightarrow> addr \<Rightarrow> (obj_mem, int) cprog" where
  "dh_hash_chain_with hash_dlink bk_size elm =
     bindM (obj_ptr elm) (\<lambda>obj. seqM (assertM (obj \<noteq> NULL)) (hash_dlink obj bk_size (m_chain obj)))"

definition dh_hash_chain :: "int \<Rightarrow> addr \<Rightarrow> (obj_mem, int) cprog" where
  "dh_hash_chain = dh_hash_chain_with (\<lambda>obj. obj_hash_dlink)"

definition dh_hash_cmp_chain :: "addr \<Rightarrow> addr \<Rightarrow> (obj_mem, int) cprog" where
  "dh_hash_cmp_chain elm1 elm2 =
     bindM (obj_ptr elm1) (\<lambda>obj. seqM (assertM (obj \<noteq> NULL \<and> elm2 \<noteq> NULL))
    (bindM (own_link obj elm1) (\<lambda>b1. seqM (assertM b1)
     (obj_compare_dlink obj elm2))))"

subsection \<open>Operations\<close>

definition dho_ctor :: "obj_mem alloc \<Rightarrow> int \<Rightarrow> (obj_mem, obj_tab) cprog" where
  "dho_ctor alloc nsize = dhash_init alloc nsize (Some dh_hash_keystr) (Some dh_hash_cmp_keystr)"

definition dho_dtor :: "obj_tab \<Rightarrow> (obj_mem, unit) cprog" where
  "dho_dtor tab = dhash_free tab None (dh_bk_size tab)"

definition dho_remove_obj :: "obj_tab \<Rightarrow> addr \<Rightarrow> (obj_mem, obj_tab) cprog" where
  "dho_remove_obj tab obj =
     seqM (assertM (obj \<noteq> NULL))
    (bindM (obj_ptr (m_chain obj)) (\<lambda>p. seqM (assertM (p = obj))
    (bindM (dhash_takeout_elm tab (m_chain obj)) (\<lambda>tab'.
     seqM (dlist_init (m_chain obj))
    (seqM (obj_deref (m_chain obj) obj)
     (ret tab'))))))"

definition dho_insert_key64 :: "obj_tab \<Rightarrow> addr \<Rightarrow> (obj_mem, int \<times> obj_tab) cprog" where
  "dho_insert_key64 tab obj =
     bindM (rd ol_ptr (m_chain obj)) (\<lambda>p. seqM (assertM (p = NULL))
    (seqM (wr ol_ptr ol_ptr_update (m_chain obj) obj)
     (dhash_insert_elm tab (m_chain obj) (Some dh_hash_key64))))"

text \<open>What the lookups return for the link found, with the table.\<close>

definition dho_found :: "addr \<times> obj_tab \<Rightarrow> (obj_mem, addr \<times> obj_tab) cprog" where
  "dho_found r = (if fst r = NULL then ret (NULL, snd r) else bindM (obj_ptr (fst r)) (\<lambda>p. ret (p, snd r)))"

definition dho_lookup64 :: "obj_mem alloc \<Rightarrow> addr \<Rightarrow> obj_tab \<Rightarrow> 64 word \<Rightarrow> (obj_mem, addr \<times> obj_tab) cprog" where
  "dho_lookup64 alloc loc tab key =
     seqM (push_seed64 loc key)
    (bindM (dhash_find_elm alloc tab (m_chain loc) (Some dh_hash_key64) (Some dh_hash_cmp_key64)) (\<lambda>r.
     bindM (dho_found r) (\<lambda>x. seqM (pop_seed loc) (ret x))))"

definition dho_insert_keystr :: "obj_tab \<Rightarrow> addr \<Rightarrow> (obj_mem, int \<times> obj_tab) cprog" where
  "dho_insert_keystr tab obj =
     bindM (rd ol_ptr (m_chain obj)) (\<lambda>p. seqM (assertM (p = NULL))
    (seqM (wr ol_ptr ol_ptr_update (m_chain obj) obj)
     (dhash_insert tab (m_chain obj))))"

definition dho_lookup_str :: "obj_mem alloc \<Rightarrow> addr \<Rightarrow> obj_tab \<Rightarrow> addr \<Rightarrow> (obj_mem, addr \<times> obj_tab) cprog" where
  "dho_lookup_str alloc loc tab key =
     seqM (push_seed_str loc key)
    (bindM (dhash_find_elm alloc tab (m_chain loc) (Some dh_hash_keystr) (Some dh_hash_cmp_keystr)) (\<lambda>r.
     bindM (dho_found r) (\<lambda>x. seqM (pop_seed loc) (ret x))))"

definition dho_insert_chain_with ::
  "(addr \<Rightarrow> int \<Rightarrow> addr \<Rightarrow> (obj_mem, int) cprog) \<Rightarrow> obj_tab \<Rightarrow> addr \<Rightarrow> addr \<Rightarrow> (obj_mem, int \<times> obj_tab) cprog" where
  "dho_insert_chain_with hash_dlink tab obj p =
     seqM (assertM (obj \<noteq> NULL \<and> p \<noteq> NULL))
    (seqM (obj_ref p obj)
     (dhash_insert_elm tab p (Some (dh_hash_chain_with hash_dlink))))"

definition dho_insert_chain :: "obj_tab \<Rightarrow> addr \<Rightarrow> addr \<Rightarrow> (obj_mem, int \<times> obj_tab) cprog" where
  "dho_insert_chain = dho_insert_chain_with (\<lambda>obj. obj_hash_dlink)"

definition dho_remove_chain :: "obj_tab \<Rightarrow> addr \<Rightarrow> addr \<Rightarrow> (obj_mem, obj_tab) cprog" where
  "dho_remove_chain tab obj p =
     bindM (dhash_takeout_elm tab p) (\<lambda>tab'.
     seqM (dlist_init p)
    (seqM (obj_deref p obj)
     (ret tab')))"

definition dho_lookup_chain :: "obj_mem alloc \<Rightarrow> obj_tab \<Rightarrow> addr \<Rightarrow> (obj_mem, addr \<times> obj_tab) cprog" where
  "dho_lookup_chain alloc tab p =
     bindM (dhash_find_elm alloc tab p (Some dh_hash_chain) (Some dh_hash_cmp_chain)) (\<lambda>r. dho_found r)"

subsection \<open>The iterator\<close>

text \<open>Equality with the end of the table: both members of the iterator are null.\<close>

definition dho_at_end :: "dhash_iter \<Rightarrow> bool" where
  "dho_at_end iter \<longleftrightarrow> dh_curr iter = NULL \<and> dh_iter iter = NULL"

definition dho_iter_value :: "dhash_iter \<Rightarrow> (obj_mem, addr) cprog" where
  "dho_iter_value iter = (if dh_iter iter \<noteq> NULL then obj_ptr (dh_iter iter) else ret NULL)"

definition dho_iter_key :: "dhash_iter \<Rightarrow> (obj_mem, addr) cprog" where
  "dho_iter_key iter = bindM (dho_iter_value iter) (\<lambda>v. if v \<noteq> NULL then rd o_keystr v else ret NULL)"

definition dho_iter_takeout :: "obj_tab \<Rightarrow> dhash_iter \<Rightarrow> (obj_mem, addr \<times> dhash_iter \<times> obj_tab) cprog" where
  "dho_iter_takeout tab iter =
     bindM (dhash_iter_rm_curr tab iter) (\<lambda>r.
     if fst r \<noteq> NULL then bindM (obj_detach (fst r)) (\<lambda>obj. ret (obj, snd r)) else ret (NULL, snd r))"

partial_function (option) dho_clear_loop :: "obj_tab \<Rightarrow> dhash_iter \<Rightarrow> (obj_mem, obj_tab) cprog" where
  "dho_clear_loop tab iter s =
     (if dho_at_end iter then ret tab
      else bindM (dho_iter_takeout tab iter) (\<lambda>r.
           bindM (dhash_iter_next (snd (snd r)) (fst (snd r))) (\<lambda>iter'. dho_clear_loop (snd (snd r)) iter'))) s"

definition dho_clear :: "obj_tab \<Rightarrow> (obj_mem, obj_tab) cprog" where
  "dho_clear tab = bindM (dhash_iter_init (Some tab)) (\<lambda>iter. dho_clear_loop tab iter)"

definition dho_size :: "obj_tab \<Rightarrow> int" where
  "dho_size tab = dh_elm_cnt tab"

end
