(* ===== verification/ObjProps.thy ===== *)
theory ObjProps
  imports DHashObj
begin

text \<open>
  Lists and tables of objects: a walk over a list meets its objects in order, and the
  operations that follow the pointer of a link before it is set.
\<close>

subsection \<open>Walks\<close>

text \<open>A range \<open>for\<close> loop over a list.\<close>

partial_function (option) dl_walk :: "addr \<Rightarrow> addr \<Rightarrow> (obj_mem, addr list) cprog" where
  "dl_walk l iter s =
     (if dl_iter_eq iter (dl_end l) then ret []
      else bindM (dl_iter_deref iter) (\<lambda>x.
           bindM (dl_iter_incr iter) (\<lambda>iter'.
           bindM (dl_walk l iter') (\<lambda>xs. ret (x # xs))))) s"

lemma dl_walk_from:
  assumes "dlist_rep s l (us @ map f xs)" and "\<forall>x \<in> set xs. ol_ptr s (f x) = Some x"
  shows "dl_walk l (after l (map f xs)) s = Ret xs s"
  using assms
proof (induction xs arbitrary: us)
  case Nil
  then show ?case by (subst dl_walk.simps) (simp add: dl_iter_eq_def dl_end_def c_eval)
next
  case (Cons x xs)
  have v: "f x \<noteq> l" "f x \<noteq> NULL" "dl_next s (f x) = Some (after l (map f xs))"
    using Cons.prems(1) ring_ends [of s l "us @ [f x]" "map f xs"] by (auto simp: dlist_rep_def)
  show ?case
    using v Cons.IH [of "us @ [f x]"] Cons.prems
    by (subst dl_walk.simps)
      (simp add: dl_iter_eq_def dl_end_def dl_iter_deref_def dl_iter_incr_def obj_ptr_def dlist_iter_next_def c_eval)
qed

text \<open>A range \<open>for\<close> over a list of objects ends and meets every object, in the order of the list.\<close>

theorem dl_walk_all:
  assumes "dlist_rep s l (map f xs)" and "\<forall>x \<in> set xs. ol_ptr s (f x) = Some x"
  shows "bindM (dl_begin l) (\<lambda>iter. dl_walk l iter) s = Ret xs s"
  using dl_walk_from [of s l "[]" f xs] assms ring_head(1) [OF assms(1)] by (simp add: dl_begin_def c_eval)

definition demo_list_mem :: obj_mem where
  "demo_list_mem = \<lparr>dl_next = [20 \<mapsto> 108, 108 \<mapsto> 208, 208 \<mapsto> 20, 308 \<mapsto> 308], dl_prev = [20 \<mapsto> 208, 108 \<mapsto> 20, 208 \<mapsto> 108, 308 \<mapsto> 308],
     ol_ptr = [108 \<mapsto> 100, 208 \<mapsto> 200, 308 \<mapsto> 0], o_key64 = [100 \<mapsto> 5, 200 \<mapsto> 6, 300 \<mapsto> 7], o_keystr = Map.empty, o_chr = Map.empty\<rparr>"

lemma demo_list_rep: "dlist_rep demo_list_mem 20 (map m_chain [100, 200])" "dlist_rep demo_list_mem (m_chain 300) []"
  by (simp_all add: dlist_rep_def demo_list_mem_def m_chain_def)

theorem dl_walk_all_witness: "bindM (dl_begin 20) (\<lambda>iter. dl_walk 20 iter) demo_list_mem = Ret [100, 200] demo_list_mem"
  by (rule dl_walk_all [OF demo_list_rep(1)]) (simp add: demo_list_mem_def m_chain_def)

subsection \<open>Null objects\<close>

lemma dl_add_sorted_null:
  assumes L: "dlist_rep s l xs" and "xs \<noteq> []" and "ol_ptr s (last xs) \<noteq> None"
    and "dlist_rep s (m_chain obj) []" and "ol_ptr s (m_chain obj) = Some NULL" and "o_key64 s NULL = None" and "o_keystr s NULL = None"
  shows "dl_add_sorted l obj s = Abort (Fault NULL)" and "dl_add_sorted_key64 l obj s = Abort (Fault NULL)"
    and "dl_add_sorted_keystr l obj s = Abort (Fault NULL)" and "dl_add_sorted_link l obj (m_chain obj) s = Abort (Fault NULL)"
proof -
  obtain q where q: "ol_ptr s (last xs) = Some q" using assms(3) by auto
  have p: "dl_prev s l = Some (last xs)" using ring_head(2) [OF L] assms(2) by (simp add: before_def)
  note c = dlist_empty_run [OF L] dlist_empty_run [OF assms(4)]
  show "dl_add_sorted l obj s = Abort (Fault NULL)"
    using c p q assms by (simp add: dl_add_sorted_def empty_with_def dlist_add_sorted_def dl_cmp_chain_def obj_ptr_def c_eval)
  show "dl_add_sorted_key64 l obj s = Abort (Fault NULL)"
    using c p q assms by (simp add: dl_add_sorted_key64_def dlist_add_sorted_def dl_cmp_key64_def obj_ptr_def c_eval)
  show "dl_add_sorted_keystr l obj s = Abort (Fault NULL)"
    using c p q assms by (simp add: dl_add_sorted_keystr_def dlist_add_sorted_def dl_cmp_keystr_def obj_ptr_def c_eval)
  show "dl_add_sorted_link l obj (m_chain obj) s = Abort (Fault NULL)"
    using c p q assms by (simp add: dl_add_sorted_link_def dlist_add_sorted_def dl_cmp_chain_def obj_ptr_def c_eval)
qed

text \<open>The sorted insertions of an object into a list that is not empty compare through the link
  of the new object, whose pointer is set only afterwards: they read the key of a null object.\<close>

theorem dl_add_sorted_faults:
  assumes "dlist_rep s l xs" and "xs \<noteq> []" and "ol_ptr s (last xs) \<noteq> None"
    and "dlist_rep s (m_chain obj) []" and "ol_ptr s (m_chain obj) = Some NULL" and "o_key64 s NULL = None" and "o_keystr s NULL = None"
  shows "dl_add_sorted l obj s = Abort (Fault NULL) \<and> dl_add_sorted_key64 l obj s = Abort (Fault NULL)
    \<and> dl_add_sorted_keystr l obj s = Abort (Fault NULL) \<and> dl_add_sorted_link l obj (m_chain obj) s = Abort (Fault NULL)"
  using dl_add_sorted_null [OF assms] by simp

theorem dl_add_sorted_faults_witness:
  "dl_add_sorted 20 300 demo_list_mem = Abort (Fault NULL) \<and> dl_add_sorted_key64 20 300 demo_list_mem = Abort (Fault NULL)"
  using dl_add_sorted_faults [OF demo_list_rep(1) _ _ demo_list_rep(2)] by (simp add: demo_list_mem_def m_chain_def)

text \<open>Looking at the front of an empty list follows a null link.\<close>

theorem dl_peek_front_empty_faults: "dlist_rep s l [] \<Longrightarrow> ol_ptr s NULL = None \<Longrightarrow> dl_peek_front l s = Abort (Fault NULL)"
  using dlist_empty_run [of s l "[]"]
  by (auto simp: dl_peek_front_def obj_peek_front_def dlist_peek_front_def obj_ptr_def c_eval dlist_rep_def)

text \<open>Entering an object into a table through another of its links than \<open>m_chain\<close> hashes the
  link \<open>m_chain\<close> all the same, whose pointer is null.\<close>

theorem dho_insert_chain_faults:
  assumes "p \<noteq> m_chain obj" and "obj \<noteq> NULL" and "p \<noteq> NULL" and "dlist_rep s p []" and "ol_ptr s p = Some NULL"
    and "ol_ptr s (m_chain obj) = Some NULL" and "o_key64 s NULL = None"
  shows "dho_insert_chain tab obj p s = Abort (Fault NULL)"
  using assms dlist_empty_run [OF assms(4)]
  by (simp add: dho_insert_chain_def dho_insert_chain_with_def dh_hash_chain_with_def obj_ref_def empty_with_def dhash_insert_elm_def call_fn_def obj_ptr_def
      obj_hash_dlink_def obj_key_dlink_def c_eval)

end
