(* ===== verification/LruTable.thy ===== *)
theory LruTable
  imports DHashObj
begin

text \<open>
  The cache of include/cpptype/lru-cache.h and common/cpptype/lru-cache.cpp (\<open>LruTable\<close>): a
  table of objects and a list of the same objects, oldest first; an insertion over the limit
  kicks out the oldest. A \<open>LruTable\<close> is a record that the routines take and return; taking
  its mutex when it is held does not return. The virtual methods \<open>lookup_missed\<close> of its
  subclasses and the callbacks are parameters, called without the mutex.
\<close>

subsection \<open>Data\<close>

record lru_tab =
  m_max_elm :: int
  m_hit_cnt :: int
  m_miss_cnt :: int
  m_kick_cnt :: int
  m_hash :: obj_tab
  m_list :: addr
  m_lock :: bool

definition lru_lock :: "lru_tab \<Rightarrow> (obj_mem, lru_tab) cprog" where
  "lru_lock T s = (if m_lock T then None else Ret (T\<lparr>m_lock := True\<rparr>) s)"

definition lru_unlock :: "lru_tab \<Rightarrow> lru_tab" where
  "lru_unlock T = T\<lparr>m_lock := False\<rparr>"

definition lru_ctor :: "obj_mem alloc \<Rightarrow> addr \<Rightarrow> int \<Rightarrow> (obj_mem, lru_tab) cprog" where
  "lru_ctor alloc l max_elm =
     bindM (dho_ctor alloc max_elm) (\<lambda>hash. seqM (dl_ctor l)
     (ret \<lparr>m_max_elm = max_elm, m_hit_cnt = 0, m_miss_cnt = 0, m_kick_cnt = 0, m_hash = hash, m_list = l, m_lock = False\<rparr>))"

subsection \<open>Insertion\<close>

definition lru_ref_obj_nolock :: "lru_tab \<Rightarrow> addr \<Rightarrow> (obj_mem, unit) cprog" where
  "lru_ref_obj_nolock T obj = seqM (obj_rm (m_lru obj)) (obj_add_back (m_lru obj) obj (m_list T))"

definition lru_ref_obj :: "lru_tab \<Rightarrow> addr \<Rightarrow> (obj_mem, lru_tab) cprog" where
  "lru_ref_obj T obj =
     bindM (lru_lock T) (\<lambda>T'.
     seqM (obj_rm (m_lru obj))
    (seqM (obj_add_back (m_lru obj) obj (m_list T'))
     (ret (lru_unlock T'))))"

partial_function (option) lru_evict :: "lru_tab \<Rightarrow> (obj_mem, lru_tab) cprog" where
  "lru_evict T s =
     (if dho_size (m_hash T) > m_max_elm T
      then bindM (dl_rm_front (m_list T)) (\<lambda>old.
           seqM (assertM (old \<noteq> NULL))
          (bindM (dho_remove_obj (m_hash T) old) (\<lambda>hash.
           lru_evict (T\<lparr>m_kick_cnt := m_kick_cnt T + 1, m_hash := hash\<rparr>))))
      else ret T) s"

definition lru_insert_key64 :: "obj_mem alloc \<Rightarrow> addr \<Rightarrow> lru_tab \<Rightarrow> addr \<Rightarrow> (obj_mem, bool \<times> lru_tab) cprog" where
  "lru_insert_key64 alloc loc T obj =
     (if obj = NULL then ret (False, T)
      else bindM (lru_lock T) (\<lambda>T1.
           bindM (rd o_key64 obj) (\<lambda>k.
           bindM (dho_lookup64 alloc loc (m_hash T1) k) (\<lambda>r.
           let T2 = T1\<lparr>m_hash := snd r\<rparr> in
           bindM
            (if fst r = NULL
             then let T3 = T2\<lparr>m_miss_cnt := m_miss_cnt T2 + 1\<rparr> in
                  bindM (dho_insert_key64 (m_hash T3) obj) (\<lambda>q.
                  seqM (obj_add_back (m_lru obj) obj (m_list T3))
                  (ret (T3\<lparr>m_hash := snd q\<rparr>)))
             else let T3 = T2\<lparr>m_hit_cnt := m_hit_cnt T2 + 1\<rparr> in
                  seqM (lru_ref_obj_nolock T3 (fst r)) (ret T3)) (\<lambda>T4.
           bindM (lru_evict T4) (\<lambda>T5. ret (True, lru_unlock T5)))))))"

definition lru_insert_keystr :: "obj_mem alloc \<Rightarrow> addr \<Rightarrow> lru_tab \<Rightarrow> addr \<Rightarrow> (obj_mem, bool \<times> lru_tab) cprog" where
  "lru_insert_keystr alloc loc T obj =
     (if obj = NULL then ret (False, T)
      else bindM (lru_lock T) (\<lambda>T1.
           bindM (rd o_keystr obj) (\<lambda>k.
           bindM (dho_lookup_str alloc loc (m_hash T1) k) (\<lambda>r.
           let T2 = T1\<lparr>m_hash := snd r\<rparr> in
           bindM
            (if fst r = NULL
             then let T3 = T2\<lparr>m_miss_cnt := m_miss_cnt T2 + 1\<rparr> in
                  bindM (dho_insert_keystr (m_hash T3) obj) (\<lambda>q.
                  seqM (obj_add_back (m_lru obj) obj (m_list T3))
                  (ret (True, T3\<lparr>m_hash := snd q\<rparr>)))
             else let T3 = T2\<lparr>m_hit_cnt := m_hit_cnt T2 + 1\<rparr> in
                  bindM (lru_ref_obj T3 (fst r)) (\<lambda>T4. ret (False, T4))) (\<lambda>x.
           bindM (lru_evict (snd x)) (\<lambda>T5. ret (fst x, lru_unlock T5)))))))"

subsection \<open>Removal\<close>

definition lru_remove_obj :: "lru_tab \<Rightarrow> addr \<Rightarrow> (obj_mem, bool \<times> lru_tab) cprog" where
  "lru_remove_obj T obj =
     (if obj = NULL then ret (False, T)
      else bindM (lru_lock T) (\<lambda>T1.
           seqM (obj_rm (m_lru obj))
          (bindM (dho_remove_obj (m_hash T1) obj) (\<lambda>hash.
           ret (True, lru_unlock (T1\<lparr>m_hash := hash\<rparr>))))))"

partial_function (option) lru_clear_loop :: "lru_tab \<Rightarrow> (obj_mem, lru_tab) cprog" where
  "lru_clear_loop T s =
     bindM (dl_empty (m_list T)) (\<lambda>b.
     if \<not> b
     then bindM (dl_rm_front (m_list T)) (\<lambda>obj.
          bindM (dho_remove_obj (m_hash T) obj) (\<lambda>hash. lru_clear_loop (T\<lparr>m_hash := hash\<rparr>)))
     else ret T) s"

definition lru_clear :: "lru_tab \<Rightarrow> (obj_mem, lru_tab) cprog" where
  "lru_clear T =
     bindM (lru_lock T) (\<lambda>T1.
     bindM (lru_clear_loop T1) (\<lambda>T2.
     seqM (assertM (dho_size (m_hash T2) = 0)) (ret (lru_unlock T2))))"

definition lru_dtor :: "lru_tab \<Rightarrow> (obj_mem, lru_tab) cprog" where
  "lru_dtor T = lru_clear T"

text \<open>The iterator's \<open>iter_takeout\<close> leaves the mutex and the counters alone.\<close>

definition lru_iter_takeout :: "obj_tab \<Rightarrow> dhash_iter \<Rightarrow> (obj_mem, addr \<times> dhash_iter \<times> obj_tab) cprog" where
  "lru_iter_takeout tab iter =
     bindM (dhash_iter_rm_curr tab iter) (\<lambda>r.
     if fst r \<noteq> NULL
     then bindM (obj_detach (fst r)) (\<lambda>obj. seqM (obj_rm (m_lru obj)) (ret (obj, snd r)))
     else ret (NULL, snd r))"

subsection \<open>Lookup\<close>

definition lru_lookup64 ::
  "obj_mem alloc \<Rightarrow> addr \<Rightarrow> (lru_tab \<Rightarrow> 64 word \<Rightarrow> (obj_mem, addr \<times> lru_tab) cprog)
   \<Rightarrow> lru_tab \<Rightarrow> 64 word \<Rightarrow> (obj_mem, addr \<times> lru_tab) cprog" where
  "lru_lookup64 alloc loc lookup_missed T key =
     bindM (lru_lock T) (\<lambda>T1.
     bindM (dho_lookup64 alloc loc (m_hash T1) key) (\<lambda>r.
     let T2 = lru_unlock (T1\<lparr>m_hash := snd r\<rparr>) in
     if fst r \<noteq> NULL then ret (fst r, T2\<lparr>m_hit_cnt := m_hit_cnt T2 + 1\<rparr>)
     else bindM (lookup_missed (T2\<lparr>m_miss_cnt := m_miss_cnt T2 + 1\<rparr>) key) (\<lambda>q.
          if fst q \<noteq> NULL
          then bindM (lru_insert_key64 alloc loc (snd q) (fst q)) (\<lambda>x. ret (fst q, snd x))
          else ret (NULL, snd q))))"

definition lru_lookup_str ::
  "obj_mem alloc \<Rightarrow> addr \<Rightarrow> (lru_tab \<Rightarrow> addr \<Rightarrow> (obj_mem, addr \<times> lru_tab) cprog)
   \<Rightarrow> lru_tab \<Rightarrow> addr \<Rightarrow> (obj_mem, addr \<times> lru_tab) cprog" where
  "lru_lookup_str alloc loc lookup_missed T key =
     bindM (lru_lock T) (\<lambda>T1.
     bindM (dho_lookup_str alloc loc (m_hash T1) key) (\<lambda>r.
     let T2 = lru_unlock (T1\<lparr>m_hash := snd r\<rparr>) in
     if fst r \<noteq> NULL then ret (fst r, T2\<lparr>m_hit_cnt := m_hit_cnt T2 + 1\<rparr>)
     else bindM (lookup_missed (T2\<lparr>m_miss_cnt := m_miss_cnt T2 + 1\<rparr>) key) (\<lambda>q.
          if fst q \<noteq> NULL
          then bindM (lru_insert_keystr alloc loc (snd q) (fst q)) (\<lambda>x. ret (fst q, snd x))
          else ret (NULL, snd q))))"

text \<open>The lookup by a C++ string hands the address of the string object on as a C string.\<close>

definition lru_lookup_string ::
  "obj_mem alloc \<Rightarrow> addr \<Rightarrow> (lru_tab \<Rightarrow> addr \<Rightarrow> (obj_mem, addr \<times> lru_tab) cprog)
   \<Rightarrow> lru_tab \<Rightarrow> addr \<Rightarrow> (obj_mem, addr \<times> lru_tab) cprog" where
  "lru_lookup_string alloc loc lookup_missed T str = lru_lookup_str alloc loc lookup_missed T str"

definition lru_lookup64_cb ::
  "obj_mem alloc \<Rightarrow> addr \<Rightarrow> (lru_tab \<Rightarrow> 64 word \<Rightarrow> (obj_mem, lru_tab) cprog) \<Rightarrow> (lru_tab \<Rightarrow> addr \<Rightarrow> 64 word \<Rightarrow> (obj_mem, lru_tab) cprog)
   \<Rightarrow> lru_tab \<Rightarrow> 64 word \<Rightarrow> (obj_mem, lru_tab) cprog" where
  "lru_lookup64_cb alloc loc lookup_missed cb T key =
     bindM (lru_lock T) (\<lambda>T1.
     bindM (dho_lookup64 alloc loc (m_hash T1) key) (\<lambda>r.
     let T2 = lru_unlock (T1\<lparr>m_hash := snd r\<rparr>) in
     if fst r = NULL then lookup_missed (T2\<lparr>m_hit_cnt := m_hit_cnt T2 + 1\<rparr>) key
     else cb (T2\<lparr>m_miss_cnt := m_miss_cnt T2 + 1\<rparr>) (fst r) key))"

definition lru_lookup_str_cb ::
  "obj_mem alloc \<Rightarrow> addr \<Rightarrow> (lru_tab \<Rightarrow> addr \<Rightarrow> (obj_mem, lru_tab) cprog) \<Rightarrow> (lru_tab \<Rightarrow> addr \<Rightarrow> addr \<Rightarrow> (obj_mem, lru_tab) cprog)
   \<Rightarrow> lru_tab \<Rightarrow> addr \<Rightarrow> (obj_mem, lru_tab) cprog" where
  "lru_lookup_str_cb alloc loc lookup_missed cb T key =
     bindM (lru_lock T) (\<lambda>T1.
     bindM (dho_lookup_str alloc loc (m_hash T1) key) (\<lambda>r.
     let T2 = lru_unlock (T1\<lparr>m_hash := snd r\<rparr>) in
     if fst r = NULL then lookup_missed (T2\<lparr>m_hit_cnt := m_hit_cnt T2 + 1\<rparr>) key
     else cb (T2\<lparr>m_miss_cnt := m_miss_cnt T2 + 1\<rparr>) (fst r) key))"

end
