(* ===== verification/DHashObjProps.thy ===== *)
theory DHashObjProps
  imports DHashObj DhashProps KvMapProps
begin

text \<open>
  The table of objects as a part of memory that other structures share: a sequence \<open>ls\<close> of links
  that the table holds, and what its operations do to them with functions that read the
  objects. A search that looks at fewer than 32 elements does not rehash; one that does
  moves the elements to the buckets of the functions the table was configured with.
\<close>

subsection \<open>The table as a part of memory\<close>

text \<open>Operations on links leave the objects alone.\<close>

definition same_objs :: "obj_mem \<Rightarrow> obj_mem \<Rightarrow> bool" where
  "same_objs s s' \<longleftrightarrow> ol_ptr s' = ol_ptr s \<and> o_key64 s' = o_key64 s \<and> o_keystr s' = o_keystr s \<and> o_chr s' = o_chr s"

definition same_links :: "addr set \<Rightarrow> obj_mem \<Rightarrow> obj_mem \<Rightarrow> bool" where
  "same_links A s s' \<longleftrightarrow> (\<forall>p \<in> A. dl_next s' p = dl_next s p \<and> dl_prev s' p = dl_prev s p)"

lemma more_objs:
  assumes "dlist_mem.more s' = dlist_mem.more s"
  shows "same_objs s s'"
proof -
  obtain nx pv a b c d where "s = \<lparr>dl_next = nx, dl_prev = pv, ol_ptr = a, o_key64 = b, o_keystr = c, o_chr = d\<rparr>" by (cases s)
  moreover obtain nx' pv' a' b' c' d' where
    "s' = \<lparr>dl_next = nx', dl_prev = pv', ol_ptr = a', o_key64 = b', o_keystr = c', o_chr = d'\<rparr>" by (cases s')
  ultimately show ?thesis using assms by (simp add: same_objs_def)
qed

lemma same_links_sub: "same_links A s s' \<Longrightarrow> B \<subseteq> A \<Longrightarrow> same_links B s s'"
  by (auto simp: same_links_def)

lemma same_links_trans: "same_links A s s' \<Longrightarrow> same_links A s' s'' \<Longrightarrow> same_links A s s''"
  by (simp add: same_links_def)

lemma ring_same: "same_links A s s' \<Longrightarrow> set (l # xs) \<subseteq> A \<Longrightarrow> dlist_rep s' l xs = dlist_rep s l xs"
  by (rule dlist_rep_cong) (auto simp: same_links_def)

lemma put_objs [simp]: "same_objs s (dl_put l us e vs s)" "same_objs s (dl_cut l us vs s)"
  by (simp_all add: same_objs_def dl_put_def dl_cut_def)

lemma put_links: "A \<inter> set (l # us @ e # vs) = {} \<Longrightarrow> same_links A s (dl_put l us e vs s)"
  using before_in [of l us] after_in [of l vs] by (auto simp: same_links_def dl_put_def)

lemma cut_links: "A \<inter> set (l # us @ vs) = {} \<Longrightarrow> same_links A s (dl_cut l us vs s)"
  using before_in [of l us] after_in [of l vs] by (auto simp: same_links_def dl_cut_def)

lemma in_nodes:
  assumes "p \<in> nodes bk bs"
  shows "\<exists>i < length bs. p \<in> set ((bk + i) # bs ! i)"
proof (cases "p \<in> arr bk (length bs)")
  case True
  then have "p - bk < length bs" "bk + (p - bk) = p" by (auto simp: arr_mem)
  then show ?thesis by (metis list.set_intros(1))
next
  case False
  then have "p \<in> set (concat bs)" using assms by (simp add: nodes_def)
  then obtain b where b: "b \<in> set bs" "p \<in> set b" by auto
  then obtain i where "i < length bs" "bs ! i = b" by (metis in_set_conv_nth)
  with b(2) show ?thesis by auto
qed

definition hcells :: "obj_tab \<Rightarrow> addr list \<Rightarrow> addr set" where
  "hcells H ls = arr (dh_bucket H) (nat (dh_bk_size H)) \<union> set ls"

lemma nodes_hcells:
  assumes "mset (concat bs) = mset ls" and "dh_bk_size H = int (length bs)"
  shows "nodes (dh_bucket H) bs = hcells H ls"
proof -
  have "set (concat bs) = set ls" using assms(1) by (metis set_mset_mset)
  then show ?thesis using assms(2) by (simp only: nodes_def hcells_def nat_int)
qed

definition hpart :: "(nat \<Rightarrow> 'k \<Rightarrow> nat) \<Rightarrow> obj_mem \<Rightarrow> obj_tab \<Rightarrow> (addr \<Rightarrow> 'k) \<Rightarrow> addr list \<Rightarrow> bool" where
  "hpart h s H key ls \<longleftrightarrow>
     (\<exists>bs. rings s (dh_bucket H) bs \<and> dh_bk_size H = int (length bs) \<and> bs \<noteq> [] \<and> hashed h key bs \<and> mset (concat bs) = mset ls)
     \<and> dh_elm_cnt H = int (length ls) \<and> dh_bk_size H < 2 ^ 31"

lemma hpartE:
  assumes "hpart h s H key ls"
  obtains bs where "rings s (dh_bucket H) bs" "dh_bk_size H = int (length bs)" "bs \<noteq> []" "hashed h key bs" "mset (concat bs) = mset ls"
    "dh_elm_cnt H = int (length ls)" "dh_bk_size H < 2 ^ 31" "nodes (dh_bucket H) bs = hcells H ls"
proof -
  obtain bs where bs: "rings s (dh_bucket H) bs" "dh_bk_size H = int (length bs)" "bs \<noteq> []" "hashed h key bs" "mset (concat bs) = mset ls"
    using assms by (auto simp: hpart_def)
  note nodes_hcells [OF bs(5,2)]
  with bs assms that show thesis by (simp add: hpart_def)
qed

lemma hpart_size: "hpart h s H key ls \<Longrightarrow> 0 < dh_bk_size H \<and> dh_bk_size H < 2 ^ 31 \<and> dh_elm_cnt H = int (length ls)"
  by (auto simp: hpart_def)

lemma hpart_same:
  assumes "hpart h s H key ls" and "same_links (hcells H ls) s s'" and "\<forall>l \<in> set ls. key' l = key l"
  shows "hpart h s' H key' ls"
proof -
  obtain bs where bs: "rings s (dh_bucket H) bs" "dh_bk_size H = int (length bs)" "bs \<noteq> []" "hashed h key bs" "mset (concat bs) = mset ls"
    "dh_elm_cnt H = int (length ls)" "dh_bk_size H < 2 ^ 31" "nodes (dh_bucket H) bs = hcells H ls"
    using hpartE [OF assms(1)] by metis
  have "rings s' (dh_bucket H) bs = rings s (dh_bucket H) bs"
    using assms(2) bs(8) by (intro rings_cong) (simp add: same_links_def)
  moreover have "\<forall>i < length bs. \<forall>x \<in> set (bs ! i). key' x = key x"
    using assms(3) bs(5) nth_mem by (metis UN_I set_concat set_mset_mset)
  then have "hashed h key' bs" using bs(4) by (simp add: hashed_def)
  ultimately show ?thesis using bs unfolding hpart_def by blast
qed

lemma hpart_cell:
  assumes "hpart h s H key ls" and "p \<in> hcells H ls"
  shows "is_dlink s p"
proof -
  obtain bs where bs: "rings s (dh_bucket H) bs" "nodes (dh_bucket H) bs = hcells H ls" using hpartE [OF assms(1)] by metis
  obtain i where "i < length bs" "p \<in> set ((dh_bucket H + i) # bs ! i)" using in_nodes assms(2) bs(2) by metis
  then show ?thesis using ring_cell [OF ringsD(1) [OF bs(1)]] by (auto simp: is_dlink_def)
qed

subsection \<open>Insertion and removal\<close>

lemma hpart_insert:
  assumes H: "hpart h s H key ls" and h: "good_hash h" and e: "is_dlink s e" "e \<notin> hcells H ls"
    and fn: "call_fn fn (dh_bk_size H) e s = Ret (int (h (nat (dh_bk_size H)) (key e))) s"
  obtains i s' where "dhash_insert_elm H e fn s = Ret (i, H\<lparr>dh_elm_cnt := dh_elm_cnt H + 1\<rparr>) s'"
    and "hpart h s' (H\<lparr>dh_elm_cnt := dh_elm_cnt H + 1\<rparr>) key (ls @ [e])" and "same_objs s s'"
    and "same_links (- insert e (hcells H ls)) s s'" and "dom (dl_next s') = dom (dl_next s)" and "dom (dl_prev s') = dom (dl_prev s)"
proof -
  obtain bs where bs: "rings s (dh_bucket H) bs" "dh_bk_size H = int (length bs)" "bs \<noteq> []" "hashed h key bs" "mset (concat bs) = mset ls"
    "dh_elm_cnt H = int (length ls)" "dh_bk_size H < 2 ^ 31" "nodes (dh_bucket H) bs = hcells H ls"
    using hpartE [OF H] by metis
  let ?i = "h (length bs) (key e)" and ?b = "dh_bucket H" and ?H = "H\<lparr>dh_elm_cnt := dh_elm_cnt H + 1\<rparr>"
  have i: "?i < length bs" using bs(3) h by (simp add: good_hash_def)
  have ri: "dlist_rep s (?b + ?i) (bs ! ?i)" by (rule ringsD(1) [OF bs(1) i])
  have cells: "set ((?b + ?i) # bs ! ?i) \<subseteq> hcells H ls" using rings_apart_in [OF i] bs(8) by blast
  with e(2) have en: "e \<notin> set ((?b + ?i) # bs ! ?i)" by blast
  let ?s = "dl_put (?b + ?i) (bs ! ?i) e [] s"
  have run: "dhash_insert_elm H e fn s = Ret (int ?i, ?H) ?s"
    using i bs(2) dlist_add_back_run [OF ri e(1) en] fn by (simp add: dhash_insert_elm_def c_eval)
  note P = bk_push_props [where key = key and e = e, OF h bs(3)]
  have "rings ?s ?b (bk_push h key bs e)"
    using rings_put [OF bs(1) i, of "bs ! ?i" "[]" e] e bs(8) by (simp add: bk_push_def Let_def)
  then have "hpart h ?s ?H key (ls @ [e])"
    using P bs unfolding hpart_def by (intro conjI exI [of _ "bk_push h key bs e"]) simp_all
  moreover have "same_links (- insert e (hcells H ls)) s ?s" by (rule put_links) (use cells in auto)
  moreover have "dom (dl_next ?s) = dom (dl_next s)" "dom (dl_prev ?s) = dom (dl_prev s)"
    using dom_put [of s "?b + ?i" "bs ! ?i" "[]" e] ri e(1) by auto
  ultimately show thesis using that [OF run] by simp
qed

lemma in_bucket:
  assumes "hpart h s H key ls" and "e \<in> set ls"
  obtains bs i us vs where "rings s (dh_bucket H) bs" "dh_bk_size H = int (length bs)" "bs \<noteq> []" "hashed h key bs" "mset (concat bs) = mset ls"
    "nodes (dh_bucket H) bs = hcells H ls" "i < length bs" "bs ! i = us @ e # vs"
proof -
  obtain bs where bs: "rings s (dh_bucket H) bs" "dh_bk_size H = int (length bs)" "bs \<noteq> []" "hashed h key bs" "mset (concat bs) = mset ls"
    "nodes (dh_bucket H) bs = hcells H ls"
    using hpartE [OF assms(1)] by metis
  have "e \<in> set (concat bs)" using assms(2) bs(5) by (metis set_mset_mset)
  then obtain i where i: "i < length bs" "e \<in> set (bs ! i)" by (metis UN_E in_set_conv_nth set_concat)
  with bs that show thesis by (metis split_list)
qed

lemma hpart_takeout:
  assumes H: "hpart h s H key (as @ e # cs)"
  obtains s' where "dhash_takeout_elm H e s = Ret (H\<lparr>dh_elm_cnt := dh_elm_cnt H - 1\<rparr>) s'"
    and "hpart h s' (H\<lparr>dh_elm_cnt := dh_elm_cnt H - 1\<rparr>) key (as @ cs)" and "same_objs s s'"
    and "same_links (- hcells H (as @ e # cs)) s s'" and "dom (dl_next s') = dom (dl_next s)" and "dom (dl_prev s') = dom (dl_prev s)"
    and "e \<notin> hcells H (as @ cs)"
proof -
  obtain bs i us vs where bs: "rings s (dh_bucket H) bs" "dh_bk_size H = int (length bs)" "bs \<noteq> []" "hashed h key bs"
      "mset (concat bs) = mset (as @ e # cs)" "nodes (dh_bucket H) bs = hcells H (as @ e # cs)" "i < length bs" "bs ! i = us @ e # vs"
    using in_bucket [OF H, of e] by (metis in_set_conv_decomp)
  let ?b = "dh_bucket H + i" and ?H = "H\<lparr>dh_elm_cnt := dh_elm_cnt H - 1\<rparr>" and ?bs = "bs[i := us @ vs]"
  let ?s = "dl_cut ?b us vs s"
  have ri: "dlist_rep s ?b (us @ e # vs)" using ringsD(1) [OF bs(1,7)] bs(8) by simp
  have run: "dhash_takeout_elm H e s = Ret ?H ?s" using dlist_rm_run [OF ri] by (simp add: dhash_takeout_elm_def c_eval)
  have ms: "mset (concat bs) = add_mset e (mset (concat ?bs))" by (rule mset_concat_cut [OF bs(7,8)])
  then have ms': "mset (concat ?bs) = mset (as @ cs)" using bs(5) by simp
  have R: "rings ?s (dh_bucket H) ?bs" by (rule rings_cut [OF bs(1,7,8)])
  have part: "hpart h ?s ?H key (as @ cs)"
    using R hashed_cut [OF bs(4,7,8)] ms' bs(2,3) hpart_size [OF H] unfolding hpart_def by (intro conjI exI [of _ ?bs]) simp_all
  have cells: "set (?b # us @ e # vs) \<subseteq> hcells H (as @ e # cs)" using ring_in_nodes [OF bs(7)] bs(6,8) by metis
  have fr: "same_links (- hcells H (as @ e # cs)) s ?s" by (rule cut_links) (use cells in auto)
  have e: "e \<notin> hcells H (as @ cs)"
  proof -
    have "nodes (dh_bucket H) ?bs = hcells H (as @ cs)" by (rule nodes_hcells [OF ms']) (simp add: bs(2))
    moreover have "e \<notin> set ((dh_bucket H + j) # ?bs ! j)" if "j < length bs" for j
    proof (cases "j = i")
      case True
      then show ?thesis using ri that by (auto simp: dlist_rep_def)
    next
      case False
      then show ?thesis using ringsD(2) [OF bs(1,7) that] bs(8) by (auto simp: rings_apart_def)
    qed
    ultimately show ?thesis using in_nodes [of e "dh_bucket H" ?bs] by auto
  qed
  have "dom (dl_next ?s) = dom (dl_next s)" "dom (dl_prev ?s) = dom (dl_prev s)" using dom_cut [OF ri] by simp_all
  with that [OF run part _ fr _ _ e] show thesis by simp
qed


subsection \<open>Search\<close>

lemma hpart_perm: "hpart h s H key ls \<Longrightarrow> mset ls' = mset ls \<Longrightarrow> hpart h s H key ls'"
  unfolding hpart_def by (metis mset_eq_length)

lemma hpart_table: "hpart h s (H\<lparr>dh_max_chain := c\<rparr>) key ls = hpart h s H key ls"
  by (simp add: hpart_def)

lemma find_loop_reads:
  assumes "dlist_rep s b (us @ vs)" and "\<forall>x \<in> set vs. \<exists>c. call_fn cmp x p s = Ret c s \<and> (c = 0 \<longleftrightarrow> key x = k)"
  shows "\<exists>c. dhash_find_loop b p cmp (after b vs) n s = Ret (or_NULL (find (\<lambda>x. key x = k) vs), c) s \<and> c \<le> n + int (length vs)"
  using assms
proof (induction vs arbitrary: us n)
  case Nil
  then show ?case by (subst dhash_find_loop.simps) (simp add: dlist_iter_term_def c_eval)
next
  case (Cons v vs)
  have v: "v \<noteq> b" "dl_next s v = Some (after b vs)"
    using Cons.prems(1) ring_ends [of s b "us @ [v]" vs] by (auto simp: dlist_rep_def)
  obtain c where c: "call_fn cmp v p s = Ret c s" "c = 0 \<longleftrightarrow> key v = k" using Cons.prems(2) by auto
  show ?case
    using v c Cons.IH [of "us @ [v]" "n + 1"] Cons.prems
    by (subst dhash_find_loop.simps) (auto simp: dlist_iter_term_def dlist_iter_next_def c_eval)
qed

text \<open>A search of a table of fewer than 32 elements: it returns the element of the key and changes
  the longest chain seen, nothing else.\<close>

lemma hpart_find:
  assumes H: "hpart h s H key ls" and d: "distinct (map key ls)" and h: "good_hash h" and n: "length ls < 32"
    and fn: "call_fn fn (dh_bk_size H) p s = Ret (int (h (nat (dh_bk_size H)) k)) s"
    and cmp: "\<forall>x \<in> set ls. \<exists>c. call_fn cmp x p s = Ret c s \<and> (c = 0 \<longleftrightarrow> key x = k)"
  shows "\<exists>c. dhash_find_elm alloc H p fn cmp s = Ret (or_NULL (key_map key ls k), H\<lparr>dh_max_chain := c\<rparr>) s"
proof -
  obtain bs where bs: "rings s (dh_bucket H) bs" "dh_bk_size H = int (length bs)" "bs \<noteq> []" "hashed h key bs" "mset (concat bs) = mset ls"
    using hpartE [OF H] by metis
  let ?i = "h (length bs) k" and ?b = "dh_bucket H + h (length bs) k"
  have i: "?i < length bs" using bs(3) h by (simp add: good_hash_def)
  have d': "distinct (map key (concat bs))" using d bs(5) by (metis mset_map mset_eq_imp_distinct_iff)
  have f: "find (\<lambda>x. key x = k) (bs ! ?i) = key_map key ls k"
    using bucket_of_key [OF bs(4) h bs(3) d'] key_map_mset(1) [OF d' bs(5)] by simp
  have ri: "dlist_rep s ?b ([] @ bs ! ?i)" using ringsD(1) [OF bs(1) i] by simp
  have "set (bs ! ?i) \<subseteq> set (concat bs)" using i nth_mem by auto
  then have sub: "set (bs ! ?i) \<subseteq> set ls" using bs(5) by (metis set_mset_mset)
  have "length (bs ! ?i) \<le> length (concat bs)" unfolding length_concat using i by (intro member_le_sum_list) auto
  then have len: "length (bs ! ?i) \<le> length ls" using mset_eq_length [OF bs(5)] by simp
  obtain c where "dhash_find_loop ?b p cmp (after ?b (bs ! ?i)) 0 s = Ret (or_NULL (key_map key ls k), c) s" "c \<le> int (length (bs ! ?i))"
    using find_loop_reads [OF ri, of cmp p key k 0] cmp sub f by auto
  moreover from this have "c < 32" using len n by linarith
  ultimately have "dhash_find_elm alloc H p fn cmp s =
      Ret (or_NULL (key_map key ls k), H\<lparr>dh_max_chain := (if dh_max_chain H > c then dh_max_chain H else c)\<rparr>) s"
    using i bs(2) fn ring_head(1) [OF ri] by (simp add: dhash_find_elm_def dlist_iter_init_def c_eval Let_def)
  then show ?thesis by blast
qed

subsection \<open>Search by a 64-bit key\<close>

text \<open>The key of an object, and that of the object a link belongs to.\<close>

definition okey :: "obj_mem \<Rightarrow> addr \<Rightarrow> 64 word" where
  "okey s x = the (o_key64 s x)"

definition lkey :: "obj_mem \<Rightarrow> addr \<Rightarrow> 64 word" where
  "lkey s l = okey s (the (ol_ptr s l))"

definition stored :: "obj_mem \<Rightarrow> addr list \<Rightarrow> bool" where
  "stored s xs \<longleftrightarrow> (\<forall>x \<in> set xs. x \<noteq> NULL \<and> ol_ptr s (m_chain x) = Some x \<and> (\<exists>k. o_key64 s x = Some k \<and> small_key k))"

text \<open>The place on the stack is no object, and the memory with a search key in it.\<close>

definition free_seed :: "obj_mem \<Rightarrow> addr \<Rightarrow> bool" where
  "free_seed s loc \<longleftrightarrow> loc \<noteq> NULL \<and> dl_next s (m_chain loc) = None \<and> dl_prev s (m_chain loc) = None
     \<and> ol_ptr s (m_chain loc) = None \<and> o_key64 s loc = None \<and> o_keystr s loc = None"

definition seeded :: "obj_mem \<Rightarrow> addr \<Rightarrow> 64 word \<Rightarrow> obj_mem" where
  "seeded s loc k = s\<lparr>dl_next := (dl_next s)(m_chain loc \<mapsto> m_chain loc), dl_prev := (dl_prev s)(m_chain loc \<mapsto> m_chain loc),
     ol_ptr := (ol_ptr s)(m_chain loc \<mapsto> loc), o_key64 := (o_key64 s)(loc \<mapsto> k)\<rparr>"

lemma chain_inj [simp]: "m_chain x = m_chain y \<longleftrightarrow> x = y" "m_chain x \<noteq> NULL"
  by (simp_all add: m_chain_def)

lemma push_seed_run: "push_seed64 loc k s = Ret () (seeded s loc k)"
  by (simp add: push_seed64_def odlink_init_def obj_ref_def empty_with_def dlist_empty_def seeded_def m_chain_def c_eval)

lemma pop_seed_run: "free_seed s loc \<Longrightarrow> pop_seed loc (seeded s loc k) = Ret () s"
  by (simp add: pop_seed_def obj_deref_def odlink_dtor_def dlist_empty_def seeded_def free_seed_def m_chain_def c_eval fun_upd_idem)

lemma dho_lookup64_run:
  assumes H: "hpart kv64_h s H (lkey s) (map m_chain xs)" and d: "distinct (map (okey s) xs)" and st: "stored s xs"
    and f: "free_seed s loc" and k: "small_key k" and n: "length xs < 32"
  shows "\<exists>c. dho_lookup64 alloc loc H k s = Ret (or_NULL (key_map (okey s) xs k), H\<lparr>dh_max_chain := c\<rparr>) s"
proof -
  let ?s = "seeded s loc k"
  have nl: "loc \<notin> set xs" using st f by (auto simp: stored_def free_seed_def)
  have lk: "\<forall>l \<in> set (map m_chain xs). lkey ?s l = lkey s l" and lk': "x \<in> set xs \<Longrightarrow> lkey ?s (m_chain x) = okey s x" for x
    using st nl by (auto simp: lkey_def okey_def seeded_def stored_def)
  have "m_chain loc \<notin> hcells H (map m_chain xs)"
    using hpart_cell [OF H, of "m_chain loc"] f by (auto simp: is_dlink_def free_seed_def)
  then have "same_links (hcells H (map m_chain xs)) s ?s" by (auto simp: same_links_def seeded_def)
  then have H': "hpart kv64_h ?s H (lkey ?s) (map m_chain xs)" using H lk hpart_same by blast
  have km: "map (lkey ?s) (map m_chain xs) = map (okey s) xs" using lk' by simp
  have fn: "call_fn (Some dh_hash_key64) (dh_bk_size H) (m_chain loc) ?s = Ret (int (kv64_h (nat (dh_bk_size H)) k)) ?s"
    using hpart_size [OF H] hash_word(1) [of "dh_bk_size H"] hash_word(2) [of "dh_bk_size H" k] f
    by (simp add: call_fn_def dh_hash_key64_def own_link_def obj_ptr_def obj_hash64_def seeded_def free_seed_def c_eval)
  have "\<exists>c. call_fn (Some dh_hash_cmp_key64) (m_chain x) (m_chain loc) ?s = Ret c ?s \<and> (c = 0 \<longleftrightarrow> lkey ?s (m_chain x) = k)"
    if x: "x \<in> set xs" for x
  proof -
    obtain kx where "x \<noteq> NULL" "ol_ptr s (m_chain x) = Some x" "o_key64 s x = Some kx" "small_key kx" "x \<noteq> loc"
      using st x nl by (auto simp: stored_def)
    then show ?thesis
      using f cmp_small [OF _ k, of kx] lk' [OF x]
      by (simp add: call_fn_def dh_hash_cmp_key64_def own_link_def obj_ptr_def obj_compare64_def seeded_def free_seed_def okey_def c_eval)
  qed
  then obtain c where c: "dhash_find_elm alloc H (m_chain loc) (Some dh_hash_key64) (Some dh_hash_cmp_key64) ?s =
      Ret (or_NULL (key_map (lkey ?s) (map m_chain xs) k), H\<lparr>dh_max_chain := c\<rparr>) ?s"
    using hpart_find [where cmp = "Some dh_hash_cmp_key64" and alloc = alloc, OF H' _ good_kv64_h _ fn] d n unfolding km by auto
  show ?thesis
  proof (cases "key_map (okey s) xs k")
    case None
    then have "key_map (lkey ?s) (map m_chain xs) k = None" using lk' by (simp add: key_map_None image_iff)
    then show ?thesis using c None pop_seed_run [OF f] by (auto simp: dho_lookup64_def push_seed_run dho_found_def c_eval)
  next
    case (Some x)
    then have x: "x \<in> set xs" "okey s x = k" using key_map_Some [OF d] by simp_all
    then have "key_map (lkey ?s) (map m_chain xs) k = Some (m_chain x)"
      using key_map_Some [of "lkey ?s" "map m_chain xs"] d lk' unfolding km by auto
    moreover have "ol_ptr ?s (m_chain x) = Some x" using st x nl by (auto simp: stored_def seeded_def)
    ultimately show ?thesis
      using c Some pop_seed_run [OF f] by (auto simp: dho_lookup64_def push_seed_run dho_found_def obj_ptr_def c_eval)
  qed
qed

end
