(* ===== verification/DHashStrings.thy ===== *)
theory DHashStrings
  imports LruTable DHashObjProps
begin

text \<open>
  The table of objects by string keys, the key it is configured for: lookups by string, what
  rehashing does to objects that were entered by their number, and why the cache cannot be used
  with strings.
\<close>

subsection \<open>Search by a string\<close>

text \<open>The string of each object, and of the object a link belongs to.\<close>

definition named :: "obj_mem \<Rightarrow> (addr \<Rightarrow> 8 word list) \<Rightarrow> addr list \<Rightarrow> bool" where
  "named s sk xs \<longleftrightarrow> (\<forall>x \<in> set xs. x \<noteq> NULL \<and> ol_ptr s (m_chain x) = Some x \<and> (\<exists>p. o_keystr s x = Some p \<and> cstr (o_chr s) p (sk x)))"

definition skey :: "obj_mem \<Rightarrow> (addr \<Rightarrow> 8 word list) \<Rightarrow> addr \<Rightarrow> 8 word list" where
  "skey s sk l = sk (the (ol_ptr s l))"

definition seeded_str :: "obj_mem \<Rightarrow> addr \<Rightarrow> addr \<Rightarrow> obj_mem" where
  "seeded_str s loc p = s\<lparr>dl_next := (dl_next s)(m_chain loc \<mapsto> m_chain loc), dl_prev := (dl_prev s)(m_chain loc \<mapsto> m_chain loc),
     ol_ptr := (ol_ptr s)(m_chain loc \<mapsto> loc), o_keystr := (o_keystr s)(loc \<mapsto> p)\<rparr>"

lemma push_seed_str_run: "push_seed_str loc p s = Ret () (seeded_str s loc p)"
  by (simp add: push_seed_str_def odlink_init_def obj_ref_def empty_with_def dlist_empty_def seeded_str_def m_chain_def c_eval)

lemma pop_seed_str_run: "free_seed s loc \<Longrightarrow> pop_seed loc (seeded_str s loc p) = Ret () s"
  by (simp add: pop_seed_def obj_deref_def odlink_dtor_def dlist_empty_def seeded_str_def free_seed_def m_chain_def c_eval fun_upd_idem)

lemma dho_lookup_str_run:
  assumes H: "hpart skv_h s H (skey s sk) (map m_chain xs)" and d: "distinct (map sk xs)" and st: "named s sk xs"
    and f: "free_seed s loc" and w: "cstr (o_chr s) p w" and n: "length xs < 32"
  shows "\<exists>c. dho_lookup_str alloc loc H p s = Ret (or_NULL (key_map sk xs w), H\<lparr>dh_max_chain := c\<rparr>) s"
proof -
  let ?s = "seeded_str s loc p"
  have nl: "loc \<notin> set xs" using st f by (auto simp: named_def free_seed_def)
  have lk': "x \<in> set xs \<Longrightarrow> skey ?s sk (m_chain x) = sk x" "x \<in> set xs \<Longrightarrow> skey s sk (m_chain x) = sk x" for x
    using st nl by (auto simp: skey_def seeded_str_def named_def)
  have "m_chain loc \<notin> hcells H (map m_chain xs)"
    using hpart_cell [OF H, of "m_chain loc"] f by (auto simp: is_dlink_def free_seed_def)
  then have "same_links (hcells H (map m_chain xs)) s ?s" by (auto simp: same_links_def seeded_str_def)
  then have H': "hpart skv_h ?s H (skey ?s sk) (map m_chain xs)" by (rule hpart_same [OF H]) (use lk' in auto)
  have km: "map (skey ?s sk) (map m_chain xs) = map sk xs" using lk' by simp
  have oc: "o_chr ?s = o_chr s" by (simp add: seeded_str_def)
  have "obj_hash_strfn o_chr (dh_bk_size H) p ?s = Ret (int (skv_h (nat (dh_bk_size H)) w)) ?s"
    using hash_strfn_run [where mem = o_chr and s = ?s, of p w "dh_bk_size H"] w hpart_size [OF H] by (simp add: oc)
  then have fn: "call_fn (Some dh_hash_keystr) (dh_bk_size H) (m_chain loc) ?s = Ret (int (skv_h (nat (dh_bk_size H)) w)) ?s"
    using f by (simp add: call_fn_def dh_hash_keystr_def own_link_def obj_ptr_def obj_hash_str_def seeded_str_def free_seed_def c_eval)
  have "\<exists>c. call_fn (Some dh_hash_cmp_keystr) (m_chain x) (m_chain loc) ?s = Ret c ?s \<and> (c = 0 \<longleftrightarrow> skey ?s sk (m_chain x) = w)"
    if x: "x \<in> set xs" for x
  proof -
    obtain q where q: "x \<noteq> NULL" "ol_ptr s (m_chain x) = Some x" "o_keystr s x = Some q" "cstr (o_chr s) q (sk x)" "x \<noteq> loc"
      using st x nl by (auto simp: named_def)
    obtain c where c: "c_strcmp o_chr q p ?s = Ret c ?s" "(c = 0) = (sk x = w)"
      using strcmp_run [where mem = o_chr and s = ?s, of q "sk x" p w] q(4) w by (auto simp: oc)
    have "call_fn (Some dh_hash_cmp_keystr) (m_chain x) (m_chain loc) ?s = c_strcmp o_chr q p ?s"
      using q f by (simp add: call_fn_def dh_hash_cmp_keystr_def own_link_def obj_ptr_def obj_compare_str_def seeded_str_def free_seed_def c_eval)
    then show ?thesis using c lk'(1) [OF x] by auto
  qed
  then obtain c where c: "dhash_find_elm alloc H (m_chain loc) (Some dh_hash_keystr) (Some dh_hash_cmp_keystr) ?s =
      Ret (or_NULL (key_map (skey ?s sk) (map m_chain xs) w), H\<lparr>dh_max_chain := c\<rparr>) ?s"
    using hpart_find [where cmp = "Some dh_hash_cmp_keystr" and alloc = alloc, OF H' _ good_skv_h _ fn] d n unfolding km by auto
  show ?thesis
  proof (cases "key_map sk xs w")
    case None
    then have "key_map (skey ?s sk) (map m_chain xs) w = None" using lk' by (simp add: key_map_None image_iff)
    then show ?thesis using c None pop_seed_str_run [OF f] by (auto simp: dho_lookup_str_def push_seed_str_run dho_found_def c_eval)
  next
    case (Some x)
    then have x: "x \<in> set xs" "sk x = w" using key_map_Some [OF d] by simp_all
    then have "key_map (skey ?s sk) (map m_chain xs) w = Some (m_chain x)"
      using key_map_Some [of "skey ?s sk" "map m_chain xs"] d lk' unfolding km by auto
    moreover have "ol_ptr ?s (m_chain x) = Some x" using st x nl by (auto simp: named_def seeded_str_def)
    ultimately show ?thesis
      using c Some pop_seed_str_run [OF f] by (auto simp: dho_lookup_str_def push_seed_str_run dho_found_def obj_ptr_def c_eval)
  qed
qed

subsection \<open>Rehashing\<close>

text \<open>A search of a bucket that does not hold the key.\<close>

lemma bucket_miss:
  assumes H: "rings s (dh_bucket H) bs" "dh_bk_size H = int (length bs)" and i: "i < length bs"
    and fn: "call_fn fn (dh_bk_size H) p s = Ret (int i) s" and n: "length (bs ! i) < 32"
    and cmp: "\<forall>x \<in> set (bs ! i). \<exists>c. call_fn cmp x p s = Ret c s \<and> c \<noteq> 0"
  shows "\<exists>c. dhash_find_elm alloc H p fn cmp s = Ret (NULL, H\<lparr>dh_max_chain := c\<rparr>) s"
proof -
  let ?b = "dh_bucket H + i"
  have ri: "dlist_rep s ?b ([] @ bs ! i)" using ringsD(1) [OF H(1) i] by simp
  have "find (\<lambda>x. True = False) (bs ! i) = None" by (simp add: find_None_iff)
  then obtain c where "dhash_find_loop ?b p cmp (after ?b (bs ! i)) 0 s = Ret (NULL, c) s" "c \<le> int (length (bs ! i))"
    using find_loop_reads [OF ri, of cmp p "\<lambda>_. True" False 0] cmp by auto
  then have "dhash_find_elm alloc H p fn cmp s = Ret (NULL, H\<lparr>dh_max_chain := (if dh_max_chain H > c then dh_max_chain H else c)\<rparr>) s"
    using i H(2) fn n ring_head(1) [OF ri] by (simp add: dhash_find_elm_def dlist_iter_init_def c_eval Let_def)
  then show ?thesis by blast
qed


lemma rehash_to_strings:
  assumes H: "hpart kv64_h s H (lkey s) (map m_chain xs)" and nm: "named s sk xs" and c: "dh_hash_fn H = Some dh_hash_keystr"
    and al: "fresh_alloc alloc" and fin: "finite (dom (dl_next s))" and m: "m = 2 * nat (dh_bk_size H) + 1" "m < 2 ^ 31"
  shows "\<exists>H' s' bs. dhash_rehash alloc H s = Ret H' s' \<and> rings s' (dh_bucket H') bs \<and> dh_bk_size H' = int (length bs) \<and> length bs = m
    \<and> hashed skv_h (skey s sk) bs \<and> mset (concat bs) = mset (map m_chain xs) \<and> same_objs s s'"
proof -
  obtain bs where bs: "rings s (dh_bucket H) bs" "dh_bk_size H = int (length bs)" "bs \<noteq> []" "mset (concat bs) = mset (map m_chain xs)"
    using hpartE [OF H] by metis
  have sb: "set (concat bs) = m_chain ` set xs" using bs(4) by (metis set_mset_mset set_map)
  have mm: "m = 2 * length bs + 1" using m(1) bs(2) by simp
  then have m0: "0 < m" by simp
  have "call_fn (Some dh_hash_keystr) (int m) e s2 = Ret (int (skv_h m (skey s sk e))) s2"
    if s2: "dlist_mem.more s2 = dlist_mem.more s" and e: "e \<in> set (concat bs)" for e s2
  proof -
    obtain y where y: "y \<in> set xs" "e = m_chain y" using e sb by auto
    then obtain q where q: "y \<noteq> NULL" "ol_ptr s2 (m_chain y) = Some y" "o_keystr s2 y = Some q" "cstr (o_chr s2) q (sk y)"
      using nm more_objs [OF s2] by (auto simp: named_def same_objs_def)
    have "skey s sk e = sk y" using y nm by (simp add: skey_def named_def)
    then show ?thesis
      using q y hash_strfn_run [where mem = o_chr and s = s2, of q "sk y" "int m"] m0 m(2)
      by (simp add: call_fn_def dh_hash_keystr_def own_link_def obj_ptr_def obj_hash_str_def c_eval)
  qed
  then have fn: "hashes (dh_hash_fn H) (2 * length bs + 1) skv_h (skey s sk) (set (concat bs)) (dlist_mem.more s)"
    unfolding hashes_def c mm [symmetric] by blast
  obtain s' mp bs' where s': "dhash_rehash alloc H s =
        Ret (H\<lparr>dh_bucket := mp, dh_bk_size := int (length bs'), dh_elm_cnt := int (length (concat bs)), dh_max_chain := 0\<rparr>) s'"
      "rings s' mp bs'" "hashed skv_h (skey s sk) bs'" "length bs' = m" "mset (concat bs') = mset (concat bs)" "dlist_mem.more s' = dlist_mem.more s"
    using dhash_rehash_gen [where key = "skey s sk", OF bs(1-3) fin good_skv_h fn al] unfolding mm by blast
  have "same_objs s s'" by (rule more_objs [OF s'(6)])
  moreover have "mset (concat bs') = mset (map m_chain xs)" using s'(5) bs(4) by simp
  ultimately show ?thesis
    using s'(2-4) by (intro exI [of _ "H\<lparr>dh_bucket := mp, dh_bk_size := int (length bs'), dh_elm_cnt := int (length (concat bs)), dh_max_chain := 0\<rparr>"]
      exI [of _ s'] exI [of _ bs'] conjI s'(1)) simp_all
qed

text \<open>What lies in the bucket that a search by the key of \<open>x\<close> looks at.\<close>

lemma string_bucket:
  assumes b: "hashed skv_h (skey s sk) bs" "mset (concat bs) = mset (map m_chain xs)" and nm: "named s sk xs" and d: "distinct xs"
    and i: "i < length bs" and x: "skv_h (length bs) (sk x) \<noteq> i"
  shows "\<And>l. l \<in> set (bs ! i) \<Longrightarrow> \<exists>y \<in> set xs. l = m_chain y \<and> skv_h (length bs) (sk y) = i \<and> y \<noteq> x"
    and "length (bs ! i) \<le> card {y \<in> set xs. skv_h (length bs) (sk y) = i}"
proof -
  have sb: "set (concat bs) = m_chain ` set xs" using b(2) by (metis set_mset_mset set_map)
  show mem: "\<exists>y \<in> set xs. l = m_chain y \<and> skv_h (length bs) (sk y) = i \<and> y \<noteq> x" if l: "l \<in> set (bs ! i)" for l
  proof -
    have "l \<in> set (concat bs)" using i l nth_mem by auto
    then obtain y where y: "y \<in> set xs" "l = m_chain y" using sb by auto
    then have "skey s sk l = sk y" using nm by (simp add: skey_def named_def)
    moreover have "skv_h (length bs) (skey s sk l) = i" using b(1) i l by (simp add: hashed_def)
    ultimately have "skv_h (length bs) (sk y) = i" by simp
    then show ?thesis using y x by auto
  qed
  have "distinct (map m_chain xs)" using d by (simp add: distinct_map inj_on_def)
  then have "distinct (concat bs)" using b(2) by (metis mset_eq_imp_distinct_iff)
  then have "length (bs ! i) = card (set (bs ! i))" using i by (simp add: distinct_concat_iff distinct_card)
  also have "\<dots> \<le> card (m_chain ` {y \<in> set xs. skv_h (length bs) (sk y) = i})" using mem by (intro card_mono) auto
  also have "\<dots> \<le> card {y \<in> set xs. skv_h (length bs) (sk y) = i}" by (intro card_image_le) simp
  finally show "length (bs ! i) \<le> card {y \<in> set xs. skv_h (length bs) (sk y) = i}" .
qed

text \<open>A search by key of a bucket that holds no object of the key.\<close>

lemma lookup64_miss:
  assumes r: "rings s (dh_bucket H) bs" "dh_bk_size H = int (length bs)" "length bs < 2 ^ 31" and i: "kv64_h (length bs) k < length bs"
    and short: "length (bs ! kv64_h (length bs) k) < 32" and f: "free_seed s loc" and sk: "small_key k"
    and mem: "\<And>l. l \<in> set (bs ! kv64_h (length bs) k) \<Longrightarrow> \<exists>y ky. l = m_chain y \<and> y \<noteq> NULL \<and> ol_ptr s l = Some y \<and> o_key64 s y = Some ky
      \<and> small_key ky \<and> ky \<noteq> k"
  shows "\<exists>H2. dho_lookup64 alloc loc H k s = Ret (NULL, H2) s"
proof -
  let ?s = "seeded s loc k" and ?i = "kv64_h (length bs) k"
  have "m_chain loc \<notin> nodes (dh_bucket H) bs" using rings_nodes_dom [OF r(1)] f by (auto simp: free_seed_def is_dlink_def)
  then have "rings ?s (dh_bucket H) bs = rings s (dh_bucket H) bs" by (intro rings_cong) (auto simp: seeded_def)
  with r(1) have r': "rings ?s (dh_bucket H) bs" by simp
  have ne: "bs \<noteq> []" using i by auto
  then have fh: "call_fn (Some dh_hash_key64) (dh_bk_size H) (m_chain loc) ?s = Ret (int ?i) ?s"
    using hash_word(1) [of "int (length bs)"] hash_word(2) [of "int (length bs)" k] r(2,3) i f ne
    by (simp add: call_fn_def dh_hash_key64_def own_link_def obj_ptr_def obj_hash64_def seeded_def free_seed_def c_eval)
  have "\<exists>c. call_fn (Some dh_hash_cmp_key64) l (m_chain loc) ?s = Ret c ?s \<and> c \<noteq> 0" if l: "l \<in> set (bs ! ?i)" for l
  proof -
    obtain y ky where y: "l = m_chain y" "y \<noteq> NULL" "ol_ptr s l = Some y" "o_key64 s y = Some ky" "small_key ky" "ky \<noteq> k" using mem [OF l] by blast
    then have "y \<noteq> loc" using f by (auto simp: free_seed_def)
    then show ?thesis
      using y f cmp_small [OF y(5) sk]
      by (auto simp: call_fn_def dh_hash_cmp_key64_def own_link_def obj_ptr_def obj_compare64_def seeded_def free_seed_def c_eval)
  qed
  then obtain c where "dhash_find_elm alloc H (m_chain loc) (Some dh_hash_key64) (Some dh_hash_cmp_key64) ?s = Ret (NULL, H\<lparr>dh_max_chain := c\<rparr>) ?s"
    using bucket_miss [OF r' r(2) i fh short, of "Some dh_hash_cmp_key64" alloc] by auto
  then show ?thesis using pop_seed_run [OF f] by (auto simp: dho_lookup64_def push_seed_run dho_found_def c_eval)
qed

text \<open>C34: a table of objects is configured with the string functions. When it is rehashed, objects
  that were entered by their 64-bit key move to the buckets of their strings, and a lookup by
  the key of such an object does not find it any more unless both hash to the same bucket. (The
  bucket searched is assumed short enough not to rehash again.)\<close>

theorem dho_rehash_loses:
  assumes H: "hpart kv64_h s H (lkey s) (map m_chain xs)" and st: "stored s xs" and nm: "named s sk xs" and d: "distinct (map (okey s) xs)"
    and c: "dh_hash_fn H = Some dh_hash_keystr" and al: "fresh_alloc alloc" and fin: "finite (dom (dl_next s))"
    and m: "m = 2 * nat (dh_bk_size H) + 1" "m < 2 ^ 31"
    and x: "x \<in> set xs" "skv_h m (sk x) \<noteq> kv64_h m (okey s x)"
    and few: "card {y \<in> set xs. skv_h m (sk y) = kv64_h m (okey s x)} < 32"
  shows "\<exists>H' s'. dhash_rehash alloc H s = Ret H' s'
    \<and> (\<forall>loc. free_seed s' loc \<longrightarrow> (\<exists>H2. dho_lookup64 alloc loc H' (okey s x) s' = Ret (NULL, H2) s'))"
proof -
  obtain H' s' bs where s': "dhash_rehash alloc H s = Ret H' s'" "rings s' (dh_bucket H') bs" "dh_bk_size H' = int (length bs)" "length bs = m"
      "hashed skv_h (skey s sk) bs" "mset (concat bs) = mset (map m_chain xs)" "same_objs s s'"
    using rehash_to_strings [OF H nm c al fin m] by blast
  let ?i = "kv64_h (length bs) (okey s x)"
  have i: "?i < length bs" using good_kv64_h s'(4) m(1) by (simp add: good_hash_def)
  have ds: "distinct xs" using d by (simp add: distinct_map)
  have x2: "skv_h (length bs) (sk x) \<noteq> ?i" and few2: "card {y \<in> set xs. skv_h (length bs) (sk y) = ?i} < 32" using x(2) few by (simp_all add: s'(4))
  note B = string_bucket [OF s'(5,6) nm ds i x2]
  have sk: "small_key (okey s x)" using st x(1) by (auto simp: stored_def okey_def)
  have "\<exists>y ky. l = m_chain y \<and> y \<noteq> NULL \<and> ol_ptr s' l = Some y \<and> o_key64 s' y = Some ky \<and> small_key ky \<and> ky \<noteq> okey s x"
    if l: "l \<in> set (bs ! ?i)" for l
  proof -
    obtain y where y: "y \<in> set xs" "l = m_chain y" "y \<noteq> x" using B(1) [OF l] by auto
    then have "okey s y \<noteq> okey s x" using d x(1) by (auto simp: distinct_map dest: inj_onD)
    then show ?thesis using st s'(7) y by (auto simp: stored_def same_objs_def okey_def)
  qed
  then have "\<exists>H2. dho_lookup64 alloc loc H' (okey s x) s' = Ret (NULL, H2) s'" if "free_seed s' loc" for loc
    using lookup64_miss [OF s'(2,3) _ i _ that sk, of alloc] B(2) few2 m(2) s'(4) by auto
  then show ?thesis using s'(1) by blast
qed

definition demo_obj_mem :: obj_mem where
  "demo_obj_mem = \<lparr>dl_next = [10 \<mapsto> 108, 108 \<mapsto> 10], dl_prev = [10 \<mapsto> 108, 108 \<mapsto> 10], ol_ptr = [108 \<mapsto> 100],
     o_key64 = [100 \<mapsto> 6], o_keystr = [100 \<mapsto> 40], o_chr = demo_str\<rparr>"

definition demo_obj_tab :: obj_tab where
  "demo_obj_tab = \<lparr>dh_bucket = 10, dh_bk_size = 1, dh_elm_cnt = 1, dh_max_chain = 0, dh_hash_fn = Some dh_hash_keystr, dh_cmp_fn = Some dh_hash_cmp_keystr\<rparr>"

lemma demo_obj_rings: "rings demo_obj_mem 10 [[108]]"
  by (simp add: rings_def dlist_rep_def demo_obj_mem_def rings_apart_def)

lemma demo_obj_part:
  assumes "good_hash h"
  shows "hpart h demo_obj_mem demo_obj_tab key (map m_chain [100])"
proof -
  have "(0::nat) < 1" by simp
  then have "h 1 (key 108) < 1" by (rule assms [unfolded good_hash_def, rule_format])
  then have h0: "h 1 (key 108) = 0" by simp
  have "hashed h key [[108]]" unfolding hashed_def
  proof (intro allI impI ballI)
    fix i and x :: addr assume "i < length [[108 :: addr]]" and "x \<in> set ([[108]] ! i)"
    then have "i = 0" "x = 108" by auto
    then show "h (length [[108 :: addr]]) (key x) = i" using h0 by simp
  qed
  then show ?thesis
    using demo_obj_rings unfolding hpart_def by (intro conjI exI [of _ "[[108]]"]) (simp_all add: demo_obj_tab_def m_chain_def)
qed

lemma demo_obj_named: "named demo_obj_mem (\<lambda>_. [0x61, 0x62]) [100]"
  by (simp add: named_def demo_obj_mem_def m_chain_def demo_str_def)

theorem dho_rehash_loses_witness:
  "\<exists>H' s'. dhash_rehash top_alloc demo_obj_tab demo_obj_mem = Ret H' s'
    \<and> (\<forall>loc. free_seed s' loc \<longrightarrow> (\<exists>H2. dho_lookup64 top_alloc loc H' 6 s' = Ret (NULL, H2) s'))"
proof -
  have "stored demo_obj_mem [100]" "okey demo_obj_mem 100 = 6" by (simp_all add: stored_def okey_def demo_obj_mem_def m_chain_def small_key_def)
  moreover have "skv_h 3 [0x61, 0x62] = 2" "kv64_h 3 6 = 0" by (simp_all add: skv_h_def djb2_def kv64_h_def)
  ultimately show ?thesis
    using dho_rehash_loses [OF demo_obj_part [OF good_kv64_h] _ demo_obj_named _ _ fresh_top_alloc, of 3 100]
    by (simp add: demo_obj_tab_def) (simp add: demo_obj_mem_def)
qed

subsection \<open>A cache by strings\<close>

text \<open>Inserting by string an object whose string is that of an object in the table never
  returns: the hit is recorded through \<open>ref_obj\<close>, which takes the mutex the insertion holds.\<close>

theorem lru_insert_keystr_deadlocks:
  assumes "hpart skv_h s (m_hash T) (skey s sk) (map m_chain xs)" and "distinct (map sk xs)" and st: "named s sk xs"
    and "free_seed s loc" and "length xs < 32" and "obj \<noteq> NULL" and p: "o_keystr s obj = Some p" "cstr (o_chr s) p w" and w: "w \<in> sk ` set xs"
  shows "lru_insert_keystr alloc loc T obj s = None"
proof -
  obtain c where c: "dho_lookup_str alloc loc (m_hash T) p s = Ret (or_NULL (key_map sk xs w), (m_hash T)\<lparr>dh_max_chain := c\<rparr>) s"
    using dho_lookup_str_run [OF assms(1-4) p(2) assms(5), of alloc] by blast
  obtain x where x: "key_map sk xs w = Some x" using w key_map_None [of sk xs w] by (metis option.exhaust)
  then have "x \<noteq> NULL" using st key_map_Some [OF assms(2)] by (simp add: named_def)
  then show ?thesis using c x p(1) assms(6) by (simp add: lru_insert_keystr_def lru_lock_def lru_ref_obj_def c_eval Let_def)
qed

theorem lru_insert_keystr_deadlocks_witness:
  "lru_insert_keystr top_alloc 50
     \<lparr>m_max_elm = 2, m_hit_cnt = 0, m_miss_cnt = 0, m_kick_cnt = 0, m_hash = demo_obj_tab, m_list = 20, m_lock = False\<rparr> 100 demo_obj_mem = None"
  by (rule lru_insert_keystr_deadlocks [of _ _ "\<lambda>_. [0x61, 0x62]" "[100]" _ _ 40 "[0x61, 0x62]"])
    (simp_all add: demo_obj_part good_skv_h demo_obj_named del: list.map, simp_all add: free_seed_def demo_obj_mem_def m_chain_def demo_str_def)

end
