(* ===== verification/LruProps.thy ===== *)
theory LruProps
  imports LruTable DHashObjProps
begin

text \<open>
  The cache as an instance of an abstract cache: a sequence of entries, oldest first. Memory is
  seen as two parts that do not overlap, the table with the links \<open>m_chain\<close> of a set \<open>P\<close> of
  objects and the list with their links \<open>m_lru\<close>; each step of the code changes one of them.
\<close>

subsection \<open>Two parts of memory\<close>

lemma lru_inj [simp]: "m_lru x = m_lru y \<longleftrightarrow> x = y" "m_lru x \<noteq> NULL"
  by (simp_all add: m_lru_def)

definition lru_static :: "obj_mem \<Rightarrow> obj_mem \<Rightarrow> bool" where
  "lru_static s s' \<longleftrightarrow> o_key64 s' = o_key64 s \<and> o_keystr s' = o_keystr s \<and> dom (dl_next s') = dom (dl_next s)
     \<and> dom (dl_prev s') = dom (dl_prev s) \<and> dom (ol_ptr s') = dom (ol_ptr s)"

definition keeps :: "addr set \<Rightarrow> obj_mem \<Rightarrow> obj_mem \<Rightarrow> bool" where
  "keeps A s s' \<longleftrightarrow> (\<forall>p \<in> A. dl_next s' p = dl_next s p \<and> dl_prev s' p = dl_prev s p \<and> ol_ptr s' p = ol_ptr s p)"

lemma keeps_sub: "keeps A s s' \<Longrightarrow> B \<subseteq> A \<Longrightarrow> keeps B s s'"
  by (auto simp: keeps_def)

lemma keeps_trans: "keeps A s s' \<Longrightarrow> keeps A s' s'' \<Longrightarrow> keeps A s s''"
  by (simp add: keeps_def)

lemma static_trans: "lru_static s s' \<Longrightarrow> lru_static s' s'' \<Longrightarrow> lru_static s s''"
  by (simp add: lru_static_def)

lemma is_dlink_static: "lru_static s s' \<Longrightarrow> is_dlink s' p = is_dlink s p"
  by (simp add: lru_static_def is_dlink_def)

lemma okey_static: "lru_static s s' \<Longrightarrow> okey s' = okey s"
  by (simp add: lru_static_def okey_def fun_eq_iff)

text \<open>The links \<open>f x\<close> of the objects of \<open>P\<close> refer to their object exactly for those in \<open>xs\<close>.\<close>

definition owned :: "(addr \<Rightarrow> addr) \<Rightarrow> addr set \<Rightarrow> obj_mem \<Rightarrow> addr list \<Rightarrow> bool" where
  "owned f P s xs \<longleftrightarrow> (\<forall>x \<in> P. ol_ptr s (f x) = Some (if x \<in> set xs then x else NULL))"

lemma ownedD: "owned f P s xs \<Longrightarrow> x \<in> P \<Longrightarrow> ol_ptr s (f x) = Some (if x \<in> set xs then x else NULL)"
  by (simp add: owned_def)

subsection \<open>The list\<close>

definition lreg :: "addr set \<Rightarrow> addr \<Rightarrow> addr set" where
  "lreg P l = insert l (m_lru ` P)"

definition lside :: "addr set \<Rightarrow> obj_mem \<Rightarrow> addr \<Rightarrow> addr list \<Rightarrow> bool" where
  "lside P s l ys \<longleftrightarrow> dlist_rep s l (map m_lru ys) \<and> owned m_lru P s ys \<and> set ys \<subseteq> P
     \<and> (\<forall>x \<in> P. x \<noteq> NULL \<and> m_lru x \<noteq> l \<and> is_dlink s (m_lru x)) \<and> (\<forall>x \<in> P - set ys. dlist_rep s (m_lru x) [])"

lemma lside_keeps:
  assumes "lside P s l ys" and "keeps (lreg P l) s s'"
  shows "lside P s' l ys"
proof -
  have "dlist_rep s' l (map m_lru ys) = dlist_rep s l (map m_lru ys)"
    using assms by (intro dlist_rep_cong) (auto simp: keeps_def lreg_def lside_def)
  moreover have "dlist_rep s' (m_lru x) [] = dlist_rep s (m_lru x) []" if "x \<in> P" for x
    using assms that by (intro dlist_rep_cong) (auto simp: keeps_def lreg_def)
  moreover have "owned m_lru P s' ys" "\<forall>x \<in> P. is_dlink s' (m_lru x)"
    using assms by (auto simp: keeps_def lreg_def lside_def owned_def is_dlink_def domIff)
  ultimately show ?thesis using assms(1) by (simp add: lside_def)
qed

text \<open>A step of the list leaves what does not belong to it alone.\<close>

definition lstep :: "addr set \<Rightarrow> addr \<Rightarrow> obj_mem \<Rightarrow> obj_mem \<Rightarrow> addr list \<Rightarrow> bool" where
  "lstep P l s s' ys \<longleftrightarrow> lside P s' l ys \<and> lru_static s s' \<and> keeps (- lreg P l) s s'"

lemma lside_add_back:
  assumes L: "lside P s l ys" and x: "x \<in> P" "x \<notin> set ys"
  shows "\<exists>s'. obj_add_back (m_lru x) x l s = Ret () s' \<and> lstep P l s s' (ys @ [x])"
proof -
  note L' = L [unfolded lside_def]
  have r: "dlist_rep s l (map m_lru ys)" "dlist_rep s (m_lru x) []" "is_dlink s (m_lru x)" "m_lru x \<notin> set (l # map m_lru ys)"
    using L' x by auto
  have o: "ol_ptr s (m_lru x) = Some NULL" using L' x by (auto dest: ownedD)
  let ?p = "dl_put l (map m_lru ys) (m_lru x) [] s"
  let ?s = "?p\<lparr>ol_ptr := (ol_ptr ?p)(m_lru x \<mapsto> x)\<rparr>"
  have op: "ol_ptr ?p = ol_ptr s" "o_key64 ?p = o_key64 s" "o_keystr ?p = o_keystr s" by (simp_all add: dl_put_def)
  have run: "obj_add_back (m_lru x) x l s = Ret () ?s"
    using o op dlist_empty_run [OF r(2)] dlist_add_back_run [OF r(1,3,4)] by (simp add: obj_add_back_def empty_with_def c_eval)
  have cells: "set (l # map m_lru ys @ [m_lru x]) \<subseteq> lreg P l" using L' x by (auto simp: lreg_def)
  have "same_links (- set (l # map m_lru ys @ [m_lru x])) s ?p" by (rule put_links) auto
  then have lk: "same_links (- set (l # map m_lru ys @ [m_lru x])) s ?s" by (simp add: same_links_def)
  have r1: "dlist_rep ?p l (map m_lru (ys @ [x]))" using dlist_rep_put [of s l "map m_lru ys" "[]" "m_lru x"] r by simp
  then have "dlist_rep ?s l (map m_lru (ys @ [x]))" by (simp add: dlist_rep_def)
  moreover have d: "dom (dl_next ?p) = dom (dl_next s)" "dom (dl_prev ?p) = dom (dl_prev s)"
    using dom_put [of s l "map m_lru ys" "[]" "m_lru x"] r by simp_all
  moreover have "dlist_rep ?s (m_lru z) []" if z: "z \<in> P - set (ys @ [x])" for z
  proof -
    have "m_lru z \<notin> set (l # map m_lru ys @ [m_lru x])" using L' z by auto
    then have "dlist_rep ?s (m_lru z) [] = dlist_rep s (m_lru z) []" using lk by (intro dlist_rep_cong) (auto simp: same_links_def)
    then show ?thesis using L' z by simp
  qed
  moreover have "owned m_lru P ?s (ys @ [x])" using L' by (auto simp: owned_def op)
  ultimately have "lside P ?s l (ys @ [x])" using L' x d by (simp add: lside_def is_dlink_def)
  moreover have "lru_static s ?s" using d op o by (auto simp: lru_static_def)
  moreover have "keeps (- set (l # map m_lru ys @ [m_lru x])) s ?s" using lk op by (auto simp: keeps_def same_links_def)
  then have "keeps (- lreg P l) s ?s" by (rule keeps_sub) (use cells in blast)
  ultimately show ?thesis using run by (auto simp: lstep_def)
qed

text \<open>A link taken off the list and made a list of its own, with its pointer reset.\<close>

definition loose :: "addr \<Rightarrow> addr list \<Rightarrow> addr \<Rightarrow> addr list \<Rightarrow> obj_mem \<Rightarrow> obj_mem" where
  "loose l us e vs s = (let s1 = dl_cut l us vs s in
     s1\<lparr>dl_next := (dl_next s1)(e \<mapsto> e), dl_prev := (dl_prev s1)(e \<mapsto> e), ol_ptr := (ol_ptr s1)(e \<mapsto> NULL)\<rparr>)"

lemma lside_loose:
  assumes L: "lside P s l (us @ x # vs)"
  shows "lstep P l s (loose l (map m_lru us) (m_lru x) (map m_lru vs) s) (us @ vs)"
proof -
  note L' = L [unfolded lside_def]
  let ?u = "map m_lru us" and ?v = "map m_lru vs" and ?e = "m_lru x"
  let ?c = "dl_cut l ?u ?v s" and ?s = "loose l ?u ?e ?v s"
  have r: "dlist_rep s l (?u @ ?e # ?v)" using L' by simp
  have c: "dlist_rep ?c l (?u @ ?v)" "dom (dl_next ?c) = dom (dl_next s)" "dom (dl_prev ?c) = dom (dl_prev s)"
    using dlist_rep_cut [OF r] dom_cut [OF r] by simp_all
  have en: "?e \<notin> set (l # ?u @ ?v)" and e: "is_dlink s ?e" "x \<in> P" "x \<notin> set (us @ vs)" using r L' by (auto simp: dlist_rep_def)
  have op: "ol_ptr ?c = ol_ptr s" "o_key64 ?c = o_key64 s" "o_keystr ?c = o_keystr s" by (simp_all add: dl_cut_def)
  have "dlist_rep ?s l (?u @ ?v) = dlist_rep ?c l (?u @ ?v)"
    using en by (intro dlist_rep_cong) (auto simp: loose_def Let_def)
  with c(1) have r1: "dlist_rep ?s l (map m_lru (us @ vs))" by simp
  have "same_links (- set (l # ?u @ ?v)) s ?c" by (rule cut_links) auto
  then have lk: "same_links (- set (l # ?u @ ?e # ?v)) s ?s" by (auto simp: same_links_def loose_def Let_def)
  have cells: "set (l # ?u @ ?e # ?v) \<subseteq> lreg P l" using L' by (auto simp: lreg_def)
  have rz: "dlist_rep ?s (m_lru z) []" if z: "z \<in> P - set (us @ vs)" for z
  proof (cases "z = x")
    case True
    then show ?thesis by (simp add: dlist_rep_init loose_def Let_def)
  next
    case False
    then have "m_lru z \<notin> set (l # ?u @ ?e # ?v)" using L' z by auto
    then have "dlist_rep ?s (m_lru z) [] = dlist_rep s (m_lru z) []" using lk by (intro dlist_rep_cong) (auto simp: same_links_def)
    then show ?thesis using L' z False by simp
  qed
  have d: "dom (dl_next ?s) = dom (dl_next s)" "dom (dl_prev ?s) = dom (dl_prev s)" using c(2,3) e(1) by (auto simp: loose_def Let_def is_dlink_def)
  have "owned m_lru P ?s (us @ vs)" using L' e(3) by (auto simp: owned_def op loose_def Let_def)
  then have "lside P ?s l (us @ vs)" using L' r1 rz d by (simp add: lside_def is_dlink_def)
  moreover have "ol_ptr s ?e = Some x" using L' e(2) by (auto dest: ownedD)
  then have "lru_static s ?s" using d op by (auto simp: lru_static_def loose_def Let_def)
  moreover have "keeps (- set (l # ?u @ ?e # ?v)) s ?s" using lk op by (auto simp: keeps_def same_links_def loose_def Let_def)
  then have "keeps (- lreg P l) s ?s" by (rule keeps_sub) (use cells in blast)
  ultimately show ?thesis by (simp add: lstep_def)
qed

lemma lside_rm:
  assumes L: "lside P s l (us @ x # vs)"
  shows "\<exists>s'. obj_rm (m_lru x) s = Ret () s' \<and> lstep P l s s' (us @ vs)"
proof -
  note L' = L [unfolded lside_def]
  have r: "dlist_rep s l (map m_lru us @ m_lru x # map m_lru vs)" and x: "x \<in> P" "x \<noteq> NULL" "is_dlink s (m_lru x)" using L' by auto
  have "ol_ptr s (m_lru x) = Some x" using L' x by (auto dest: ownedD)
  moreover have "is_dlink (dl_cut l (map m_lru us) (map m_lru vs) s) (m_lru x)" using r x(3) by simp
  ultimately have "obj_rm (m_lru x) s = Ret () (loose l (map m_lru us) (m_lru x) (map m_lru vs) s)"
    using dlist_rm_run [OF r] dlist_init_run [of "dl_cut l (map m_lru us) (map m_lru vs) s" "m_lru x"] x(2)
    by (simp add: obj_rm_def dlist_rm_init_def c_eval loose_def Let_def dl_cut_def)
  with lside_loose [OF L] show ?thesis by blast
qed

lemma lside_rm_absent:
  assumes "lside P s l ys" and "x \<in> P" and "x \<notin> set ys"
  shows "obj_rm (m_lru x) s = Abort Assert_fail"
  using assms ownedD [of m_lru P s ys x] by (simp add: lside_def obj_rm_def c_eval)

lemma lside_pop:
  assumes L: "lside P s l (x # ys)"
  shows "\<exists>s'. dl_rm_front l s = Ret x s' \<and> lstep P l s s' ys"
proof -
  note L' = L [unfolded lside_def]
  have r: "dlist_rep s l ([] @ m_lru x # map m_lru ys)" and x: "x \<in> P" "x \<noteq> NULL" "is_dlink s (m_lru x)" using L' by auto
  define c where "c = dl_cut l [] (map m_lru ys) s"
  have o: "ol_ptr c (m_lru x) = Some x" using L' x by (auto simp: c_def dl_cut_def dest: ownedD)
  have "is_dlink (c\<lparr>ol_ptr := (ol_ptr c)(m_lru x \<mapsto> NULL)\<rparr>) (m_lru x)"
    using is_dlink_cut [OF r, of "m_lru x"] x(3) by (simp add: c_def is_dlink_def)
  note i = dlist_init_run [OF this]
  have "dlist_rm_front l s = Ret (m_lru x) c" using dlist_rm_front_run [of s l "m_lru x" "map m_lru ys"] r by (simp add: c_def)
  then have "dl_rm_front l s = Ret x (loose l (map m_lru []) (m_lru x) (map m_lru ys) s)"
    using o i x(2) by (simp add: dl_rm_front_def obj_rm_front_def obj_detach_def c_eval loose_def Let_def c_def [symmetric])
  with lside_loose [of P s l "[]" x ys] L show ?thesis by auto
qed


subsection \<open>The table\<close>

definition hreg :: "addr set \<Rightarrow> obj_tab \<Rightarrow> addr set" where
  "hreg P H = arr (dh_bucket H) (nat (dh_bk_size H)) \<union> m_chain ` P"

definition hside :: "addr set \<Rightarrow> obj_mem \<Rightarrow> obj_tab \<Rightarrow> addr list \<Rightarrow> bool" where
  "hside P s H xs \<longleftrightarrow> hpart kv64_h s H (lkey s) (map m_chain xs) \<and> owned m_chain P s xs \<and> set xs \<subseteq> P \<and> distinct (map (okey s) xs)
     \<and> (\<forall>x \<in> P. x \<noteq> NULL \<and> is_dlink s (m_chain x) \<and> m_chain x \<notin> arr (dh_bucket H) (nat (dh_bk_size H))
          \<and> (\<exists>k. o_key64 s x = Some k \<and> small_key k))"

definition hstep :: "addr set \<Rightarrow> obj_tab \<Rightarrow> obj_mem \<Rightarrow> obj_mem \<Rightarrow> obj_tab \<Rightarrow> addr list \<Rightarrow> bool" where
  "hstep P H s s' H' xs \<longleftrightarrow> hside P s' H' xs \<and> lru_static s s' \<and> keeps (- hreg P H) s s' \<and> hreg P H' = hreg P H"

lemma lkey_chain: "owned m_chain P s xs \<Longrightarrow> x \<in> P \<Longrightarrow> x \<in> set xs \<Longrightarrow> lkey s (m_chain x) = okey s x"
  by (simp add: lkey_def owned_def)

lemma hcells_hreg: "set xs \<subseteq> P \<Longrightarrow> hcells H (map m_chain xs) \<subseteq> hreg P H"
  by (auto simp: hcells_def hreg_def)

lemma hside_keeps:
  assumes H: "hside P s H xs" and k: "keeps (hreg P H) s s'" and st: "lru_static s s'"
  shows "hside P s' H xs"
proof -
  note H' = H [unfolded hside_def]
  have "keeps (hcells H (map m_chain xs)) s s'" using keeps_sub [OF k hcells_hreg] H' by simp
  then have "same_links (hcells H (map m_chain xs)) s s'" by (simp add: same_links_def keeps_def)
  moreover have own: "owned m_chain P s' xs" using H' k by (auto simp: owned_def keeps_def hreg_def)
  then have "\<forall>l \<in> set (map m_chain xs). lkey s' l = lkey s l"
    using H' okey_static [OF st] lkey_chain [of P s xs] lkey_chain [of P s' xs] by auto
  ultimately have "hpart kv64_h s' H (lkey s') (map m_chain xs)" using H' by (elim conjE) (rule hpart_same [where s = s and key = "lkey s"]; assumption)
  then show ?thesis using H' own okey_static [OF st] is_dlink_static [OF st] st by (simp add: hside_def lru_static_def)
qed

lemma hside_stored: "hside P s H xs \<Longrightarrow> stored s xs"
  by (auto simp: hside_def stored_def owned_def subset_iff)

lemma hside_perm:
  assumes "hside P s H xs" and "mset ys = mset xs"
  shows "hside P s H ys"
proof -
  have "mset (map m_chain ys) = mset (map m_chain xs)" "mset (map (okey s) ys) = mset (map (okey s) xs)" using assms(2) by simp_all
  moreover have "set ys = set xs" using assms(2) by (metis set_mset_mset)
  ultimately show ?thesis using assms(1) hpart_perm unfolding hside_def owned_def by (metis mset_eq_imp_distinct_iff)
qed

lemma hside_insert:
  assumes H: "hside P s H xs" and x: "x \<in> P" "okey s x \<notin> okey s ` set xs"
  shows "\<exists>i s'. dho_insert_key64 H x s = Ret (i, H\<lparr>dh_elm_cnt := dh_elm_cnt H + 1\<rparr>) s'
    \<and> hstep P H s s' (H\<lparr>dh_elm_cnt := dh_elm_cnt H + 1\<rparr>) (xs @ [x])"
proof -
  note H' = H [unfolded hside_def]
  let ?H = "H\<lparr>dh_elm_cnt := dh_elm_cnt H + 1\<rparr>" and ?e = "m_chain x"
  define s1 where "s1 = s\<lparr>ol_ptr := (ol_ptr s)(?e \<mapsto> x)\<rparr>"
  have xn: "x \<notin> set xs" and e: "?e \<notin> hcells H (map m_chain xs)" "is_dlink s1 ?e" using H' x by (auto simp: hcells_def s1_def is_dlink_def)
  obtain k where k: "o_key64 s1 x = Some k" "small_key k" "x \<noteq> NULL" using H' x(1) by (auto simp: s1_def)
  have o: "ol_ptr s ?e = Some NULL" using H' x(1) xn by (auto dest: ownedD)
  have own1: "owned m_chain P s1 (xs @ [x])" using H' by (auto simp: owned_def s1_def)
  have ok1: "okey s1 = okey s" by (simp add: okey_def s1_def fun_eq_iff)
  have "\<forall>l \<in> set (map m_chain xs). lkey s1 l = lkey s l" using xn by (auto simp: lkey_def ok1) (auto simp: s1_def)
  moreover have "same_links (hcells H (map m_chain xs)) s s1" by (simp add: same_links_def s1_def)
  ultimately have H1: "hpart kv64_h s1 H (lkey s1) (map m_chain xs)" using H' by (elim conjE) (rule hpart_same [where s = s and key = "lkey s"]; assumption)
  have lx: "lkey s1 ?e = k" using k by (simp add: lkey_def okey_def s1_def)
  have fn: "call_fn (Some dh_hash_key64) (dh_bk_size H) ?e s1 = Ret (int (kv64_h (nat (dh_bk_size H)) (lkey s1 ?e))) s1"
    using hpart_size [OF H1] hash_word(1) [of "dh_bk_size H"] hash_word(2) [of "dh_bk_size H" k] k lx
    by (simp add: call_fn_def dh_hash_key64_def own_link_def obj_ptr_def obj_hash64_def s1_def c_eval)
  obtain i s' where s': "dhash_insert_elm H ?e (Some dh_hash_key64) s1 = Ret (i, ?H) s'"
      "hpart kv64_h s' ?H (lkey s1) (map m_chain xs @ [?e])" "same_objs s1 s'" "same_links (- insert ?e (hcells H (map m_chain xs))) s1 s'"
      "dom (dl_next s') = dom (dl_next s1)" "dom (dl_prev s') = dom (dl_prev s1)"
    using hpart_insert [where key = "lkey s1", OF H1 good_kv64_h e(2,1) fn] by metis
  have run: "dho_insert_key64 H x s = Ret (i, ?H) s'" using o s'(1) by (simp add: dho_insert_key64_def c_eval s1_def)
  have lk: "lkey s' = lkey s1" and ok: "okey s' = okey s" using s'(3) by (simp_all add: lkey_def okey_def same_objs_def fun_eq_iff s1_def)
  have st: "lru_static s s'" using s'(3,5,6) o by (auto simp: lru_static_def same_objs_def s1_def)
  have "owned m_chain P s' (xs @ [x])" using own1 s'(3) by (simp add: owned_def same_objs_def)
  then have "hside P s' ?H (xs @ [x])"
    using H' x s'(2) ok is_dlink_static [OF st] st by (simp add: hside_def lk lru_static_def)
  moreover have sub: "insert ?e (hcells H (map m_chain xs)) \<subseteq> hreg P H" using H' x(1) hcells_hreg [of xs P H] by (auto simp: hreg_def)
  have "keeps (- insert ?e (hcells H (map m_chain xs))) s s'"
    using s'(3,4) by (auto simp: keeps_def same_links_def same_objs_def s1_def)
  then have "keeps (- hreg P H) s s'" by (rule keeps_sub) (use sub in blast)
  ultimately show ?thesis using run st by (auto simp: hstep_def hreg_def)
qed

lemma hside_remove:
  assumes H: "hside P s H (us @ x # vs)"
  shows "\<exists>s'. dho_remove_obj H x s = Ret (H\<lparr>dh_elm_cnt := dh_elm_cnt H - 1\<rparr>) s'
    \<and> hstep P H s s' (H\<lparr>dh_elm_cnt := dh_elm_cnt H - 1\<rparr>) (us @ vs)"
proof -
  note H' = H [unfolded hside_def]
  let ?H = "H\<lparr>dh_elm_cnt := dh_elm_cnt H - 1\<rparr>" and ?e = "m_chain x" and ?us = "map m_chain us" and ?vs = "map m_chain vs"
  have x: "x \<in> P" "x \<noteq> NULL" "is_dlink s ?e" "x \<notin> set (us @ vs)" "ol_ptr s ?e = Some x" using H' by (auto dest: ownedD)
  have H0: "hpart kv64_h s H (lkey s) (?us @ ?e # ?vs)" using H' by simp
  obtain s1 where s1: "dhash_takeout_elm H ?e s = Ret ?H s1" "hpart kv64_h s1 ?H (lkey s) (?us @ ?vs)" "same_objs s s1"
      "same_links (- hcells H (?us @ ?e # ?vs)) s s1" "dom (dl_next s1) = dom (dl_next s)" "dom (dl_prev s1) = dom (dl_prev s)"
      "?e \<notin> hcells H (?us @ ?vs)"
    using hpart_takeout [where key = "lkey s", OF H0] by metis
  define s2 where "s2 = s1\<lparr>dl_next := (dl_next s1)(?e \<mapsto> ?e), dl_prev := (dl_prev s1)(?e \<mapsto> ?e)\<rparr>"
  define s3 where "s3 = s2\<lparr>ol_ptr := (ol_ptr s2)(?e \<mapsto> NULL)\<rparr>"
  have "is_dlink s1 ?e" using x(3) s1(5,6) by (simp add: is_dlink_def)
  then have i: "dlist_init ?e s1 = Ret () s2" by (simp add: dlist_init_run s2_def)
  have o: "ol_ptr s1 ?e = Some x" using s1(3) x(5) by (simp add: same_objs_def)
  have "dlist_rep s2 ?e []" by (simp add: dlist_rep_init s2_def)
  then have "obj_deref ?e x s2 = Ret () s3" using dlist_empty_run [of s2 ?e "[]"] o by (simp add: obj_deref_def c_eval s2_def s3_def)
  then have run: "dho_remove_obj H x s = Ret ?H s3" using x s1(1) i by (simp add: dho_remove_obj_def obj_ptr_def c_eval)
  have st: "lru_static s s3"
    using s1(3,5,6) x(3) domI [where m = "ol_ptr s", OF x(5)] by (simp add: lru_static_def same_objs_def s3_def s2_def is_dlink_def insert_absorb)
  have ok: "okey s3 = okey s" by (rule okey_static [OF st])
  have own: "owned m_chain P s3 (us @ vs)" using H' s1(3) x(4) by (auto simp: owned_def s3_def s2_def same_objs_def)
  have "same_links (hcells ?H (?us @ ?vs)) s1 s3" using s1(7) by (auto simp: same_links_def s3_def s2_def hcells_def)
  moreover have "\<forall>l \<in> set (?us @ ?vs). lkey s3 l = lkey s l" using H' x(4) s1(3) by (auto simp: lkey_def ok) (auto simp: s3_def s2_def same_objs_def)
  ultimately have "hpart kv64_h s3 ?H (lkey s3) (?us @ ?vs)" by (rule hpart_same [where key = "lkey s", OF s1(2)])
  then have "hside P s3 ?H (us @ vs)" using H' own is_dlink_static [OF st] st by (simp add: hside_def ok lru_static_def)
  moreover have sub: "insert ?e (hcells H (?us @ ?e # ?vs)) \<subseteq> hreg P H" using H' hcells_hreg [of "us @ x # vs" P H] by (auto simp: hreg_def)
  have "keeps (- insert ?e (hcells H (?us @ ?e # ?vs))) s s3"
    using s1(3,4) by (auto simp: keeps_def same_links_def same_objs_def s2_def s3_def)
  then have "keeps (- hreg P H) s s3" by (rule keeps_sub) (use sub in blast)
  ultimately show ?thesis using run st by (auto simp: hstep_def hreg_def)
qed


subsection \<open>Both parts\<close>

definition lru_parts :: "addr set \<Rightarrow> addr \<Rightarrow> obj_mem \<Rightarrow> lru_tab \<Rightarrow> addr list \<Rightarrow> addr list \<Rightarrow> bool" where
  "lru_parts P loc s T xs ys \<longleftrightarrow> hside P s (m_hash T) xs \<and> lside P s (m_list T) ys
     \<and> hreg P (m_hash T) \<inter> lreg P (m_list T) = {} \<and> free_seed s loc"

lemma free_seed_static: "lru_static s s' \<Longrightarrow> free_seed s' loc = free_seed s loc"
  unfolding lru_static_def free_seed_def by (metis domIff)

lemma parts_list:
  assumes "lru_parts P loc s T xs ys" and "lstep P (m_list T) s s' ys'"
  shows "lru_parts P loc s' T xs ys'"
proof -
  have "keeps (hreg P (m_hash T)) s s'" by (rule keeps_sub [of "- lreg P (m_list T)"]) (use assms in \<open>auto simp: lru_parts_def lstep_def\<close>)
  then show ?thesis
    using assms hside_keeps [of P s "m_hash T" xs s'] free_seed_static [of s s' loc] by (simp add: lru_parts_def lstep_def)
qed

lemma parts_hash:
  assumes "lru_parts P loc s T xs ys" and "hstep P (m_hash T) s s' H' xs'"
  shows "lru_parts P loc s' (T\<lparr>m_hash := H'\<rparr>) xs' ys"
proof -
  have "keeps (lreg P (m_list T)) s s'" by (rule keeps_sub [of "- hreg P (m_hash T)"]) (use assms in \<open>auto simp: lru_parts_def hstep_def\<close>)
  then show ?thesis
    using assms lside_keeps [of P s "m_list T" ys s'] free_seed_static [of s s' loc] by (simp add: lru_parts_def hstep_def)
qed

lemma parts_cong: "m_hash T' = m_hash T \<Longrightarrow> m_list T' = m_list T \<Longrightarrow> lru_parts P loc s T' xs ys = lru_parts P loc s T xs ys"
  by (simp add: lru_parts_def)

lemma parts_chain: "lru_parts P loc s (T\<lparr>m_hash := (m_hash T)\<lparr>dh_max_chain := c\<rparr>\<rparr>) xs ys = lru_parts P loc s T xs ys"
  by (simp add: lru_parts_def hside_def hpart_table hreg_def)

lemma parts_size: "lru_parts P loc s T xs ys \<Longrightarrow> dho_size (m_hash T) = int (length xs)"
  using hpart_size [of kv64_h s "m_hash T" "lkey s" "map m_chain xs"] by (simp add: lru_parts_def hside_def dho_size_def)

lemma parts_perm: "lru_parts P loc s T xs ys \<Longrightarrow> mset xs' = mset xs \<Longrightarrow> lru_parts P loc s T xs' ys"
  using hside_perm by (auto simp: lru_parts_def)

text \<open>Whatever a run does to the counters and the table, these stay.\<close>

definition same_tab :: "lru_tab \<Rightarrow> lru_tab \<Rightarrow> bool" where
  "same_tab T T' \<longleftrightarrow> m_max_elm T' = m_max_elm T \<and> m_list T' = m_list T"

subsection \<open>The loops\<close>

text \<open>One turn of either loop: the oldest object leaves the list and then the table.\<close>

lemma parts_pop:
  assumes "lru_parts P loc s T (x # xs) (x # xs)"
  shows "\<exists>s1 s2 H. dl_rm_front (m_list T) s = Ret x s1 \<and> dho_remove_obj (m_hash T) x s1 = Ret H s2
    \<and> lru_parts P loc s2 (T\<lparr>m_hash := H\<rparr>) xs xs \<and> lru_static s s2 \<and> x \<noteq> NULL"
proof -
  obtain s1 where s1: "dl_rm_front (m_list T) s = Ret x s1" "lstep P (m_list T) s s1 xs"
    using lside_pop [of P s "m_list T" x xs] assms by (auto simp: lru_parts_def)
  have p1: "lru_parts P loc s1 T ([] @ x # xs) xs" using parts_list [OF assms s1(2)] by simp
  then obtain s2 where s2: "dho_remove_obj (m_hash T) x s1 = Ret ((m_hash T)\<lparr>dh_elm_cnt := dh_elm_cnt (m_hash T) - 1\<rparr>) s2"
      "hstep P (m_hash T) s1 s2 ((m_hash T)\<lparr>dh_elm_cnt := dh_elm_cnt (m_hash T) - 1\<rparr>) ([] @ xs)"
    using hside_remove [of P s1 "m_hash T" "[]" x xs] by (auto simp: lru_parts_def)
  have "lru_static s s2" using s1(2) s2(2) static_trans [of s s1 s2] by (simp add: lstep_def hstep_def)
  moreover have "x \<noteq> NULL" using assms by (auto simp: lru_parts_def lside_def)
  ultimately show ?thesis using s1(1) s2(1) parts_hash [OF p1 s2(2)] by auto
qed

lemma lru_evict_run:
  assumes "lru_parts P loc s T xs xs" and "0 \<le> m_max_elm T"
  shows "\<exists>s' H. lru_evict T s = Ret (T\<lparr>m_kick_cnt := m_kick_cnt T + int (length xs - nat (m_max_elm T)), m_hash := H\<rparr>) s'
    \<and> lru_parts P loc s' (T\<lparr>m_hash := H\<rparr>) (drop (length xs - nat (m_max_elm T)) xs) (drop (length xs - nat (m_max_elm T)) xs) \<and> lru_static s s'"
  using assms
proof (induction xs arbitrary: s T)
  case Nil
  then show ?case using parts_size [of P loc s T "[]" "[]"]
    by (subst lru_evict.simps) (auto simp: lru_static_def c_eval intro!: exI [of _ "m_hash T"])
next
  case (Cons x xs)
  note sz = parts_size [OF Cons.prems(1)]
  show ?case
  proof (cases "m_max_elm T < int (length (x # xs))")
    case False
    then have "length (x # xs) - nat (m_max_elm T) = 0" using Cons.prems(2) by linarith
    then show ?thesis
      using sz False Cons.prems(1) by (subst lru_evict.simps) (auto simp: lru_static_def c_eval intro!: exI [of _ "m_hash T"])
  next
    case True
    obtain s1 s2 H where s2: "dl_rm_front (m_list T) s = Ret x s1" "dho_remove_obj (m_hash T) x s1 = Ret H s2"
        "lru_parts P loc s2 (T\<lparr>m_hash := H\<rparr>) xs xs" "lru_static s s2" "x \<noteq> NULL"
      using parts_pop [OF Cons.prems(1)] by blast
    let ?T = "T\<lparr>m_kick_cnt := m_kick_cnt T + 1, m_hash := H\<rparr>"
    have "lru_parts P loc s2 ?T xs xs" using s2(3) parts_cong [of ?T "T\<lparr>m_hash := H\<rparr>"] by simp
    from Cons.IH [OF this] Cons.prems(2) obtain s' H' where s': "lru_evict ?T s2 =
        Ret (?T\<lparr>m_kick_cnt := m_kick_cnt ?T + int (length xs - nat (m_max_elm ?T)), m_hash := H'\<rparr>) s'"
        "lru_parts P loc s' (?T\<lparr>m_hash := H'\<rparr>) (drop (length xs - nat (m_max_elm T)) xs) (drop (length xs - nat (m_max_elm T)) xs)"
        "lru_static s2 s'"
      by auto
    have n: "length (x # xs) - nat (m_max_elm T) = Suc (length xs - nat (m_max_elm T))" using True Cons.prems(2) by (simp add: Suc_diff_le nat_le_iff)
    have "lru_evict T s = Ret (T\<lparr>m_kick_cnt := m_kick_cnt T + int (length (x # xs) - nat (m_max_elm T)), m_hash := H'\<rparr>) s'"
      using True sz s2(1,2,5) s'(1) by (subst lru_evict.simps) (simp add: n c_eval algebra_simps)
    moreover have "lru_parts P loc s' (T\<lparr>m_hash := H'\<rparr>) (drop (length xs - nat (m_max_elm T)) xs) (drop (length xs - nat (m_max_elm T)) xs)"
      using s'(2) parts_cong [of "T\<lparr>m_hash := H'\<rparr>" "?T\<lparr>m_hash := H'\<rparr>"] by simp
    ultimately show ?thesis using static_trans [OF s2(4) s'(3)] unfolding n by auto
  qed
qed

lemma lru_clear_loop_run:
  assumes "lru_parts P loc s T xs xs"
  shows "\<exists>s' H. lru_clear_loop T s = Ret (T\<lparr>m_hash := H\<rparr>) s' \<and> lru_parts P loc s' (T\<lparr>m_hash := H\<rparr>) [] [] \<and> lru_static s s'"
  using assms
proof (induction xs arbitrary: s T)
  case Nil
  then have "dl_empty (m_list T) s = Ret True s"
    using dlist_empty_run [of s "m_list T" "[]"] by (simp add: lru_parts_def lside_def dl_empty_def)
  then show ?case using Nil by (subst lru_clear_loop.simps) (auto simp: lru_static_def c_eval intro!: exI [of _ "m_hash T"])
next
  case (Cons x xs)
  have "dl_empty (m_list T) s = Ret False s"
    using dlist_empty_run [of s "m_list T" "map m_lru (x # xs)"] Cons.prems by (simp add: lru_parts_def lside_def dl_empty_def)
  moreover obtain s1 s2 H where s2: "dl_rm_front (m_list T) s = Ret x s1" "dho_remove_obj (m_hash T) x s1 = Ret H s2"
      "lru_parts P loc s2 (T\<lparr>m_hash := H\<rparr>) xs xs" "lru_static s s2"
    using parts_pop [OF Cons.prems] by blast
  ultimately have "lru_clear_loop T s = lru_clear_loop (T\<lparr>m_hash := H\<rparr>) s2"
    by (subst lru_clear_loop.simps) (simp add: c_eval)
  moreover obtain s' H' where "lru_clear_loop (T\<lparr>m_hash := H\<rparr>) s2 = Ret (T\<lparr>m_hash := H\<rparr>\<lparr>m_hash := H'\<rparr>) s'"
      "lru_parts P loc s' (T\<lparr>m_hash := H\<rparr>\<lparr>m_hash := H'\<rparr>) [] []" "lru_static s2 s'"
    using Cons.IH [OF s2(3)] by blast
  ultimately show ?case using static_trans [OF s2(4)] by auto
qed


subsection \<open>The abstract cache\<close>

text \<open>A cache of at most \<open>n\<close> entries, oldest first: an entry of a known key becomes the newest,
  one of a new key is added and the oldest beyond \<open>n\<close> leave.\<close>

definition lc_find :: "(addr \<Rightarrow> 'k) \<Rightarrow> 'k \<Rightarrow> addr list \<Rightarrow> addr option" where
  "lc_find kf k xs = find (\<lambda>x. kf x = k) xs"

definition lc_insert :: "(addr \<Rightarrow> 'k) \<Rightarrow> nat \<Rightarrow> addr \<Rightarrow> addr list \<Rightarrow> addr list" where
  "lc_insert kf n x xs = (case lc_find kf (kf x) xs of
     Some y \<Rightarrow> removeAll y xs @ [y]
   | None \<Rightarrow> drop (Suc (length xs) - n) (xs @ [x]))"

text \<open>\<open>f\<close> gives the object of a key that is not in the cache, or \<open>NULL\<close>.\<close>

definition lc_lookup :: "(addr \<Rightarrow> 'k) \<Rightarrow> nat \<Rightarrow> ('k \<Rightarrow> addr) \<Rightarrow> 'k \<Rightarrow> addr list \<Rightarrow> addr \<times> addr list" where
  "lc_lookup kf n f k xs = (case lc_find kf k xs of
     Some y \<Rightarrow> (y, xs)
   | None \<Rightarrow> if f k = NULL then (NULL, xs) else (f k, lc_insert kf n (f k) xs))"

lemma lc_find_map: "distinct (map kf xs) \<Longrightarrow> key_map kf xs k = lc_find kf k xs"
proof (induction xs)
  case (Cons x xs)
  then show ?case by (auto simp: key_map_def lc_find_def)
qed (simp add: key_map_def lc_find_def)

lemma lc_find_Some: "lc_find kf k xs = Some x \<Longrightarrow> x \<in> set xs \<and> kf x = k"
  by (auto simp: lc_find_def find_Some_iff)

lemma lc_find_None: "lc_find kf k xs = None \<longleftrightarrow> k \<notin> kf ` set xs"
  by (auto simp: lc_find_def find_None_iff)

subsection \<open>Operations of the cache\<close>

definition lru_rep :: "addr set \<Rightarrow> addr \<Rightarrow> obj_mem \<Rightarrow> lru_tab \<Rightarrow> addr list \<Rightarrow> bool" where
  "lru_rep P loc s T xs \<longleftrightarrow> lru_parts P loc s T xs xs \<and> \<not> m_lock T \<and> 0 < m_max_elm T \<and> m_max_elm T < 32
     \<and> int (length xs) \<le> m_max_elm T"

lemma lru_repD:
  assumes "lru_rep P loc s T xs"
  shows "lru_parts P loc s T xs xs" and "\<not> m_lock T" and "length xs < 32" and "length xs \<le> nat (m_max_elm T)"
    and "set xs \<subseteq> P" and "distinct (map (okey s) xs)" and "distinct xs"
    and "x \<in> P \<Longrightarrow> x \<noteq> NULL \<and> o_key64 s x = Some (okey s x) \<and> small_key (okey s x)"
proof -
  note R = assms [unfolded lru_rep_def]
  note H = conjunct1 [OF conjunct1 [OF R, unfolded lru_parts_def], unfolded hside_def]
  show "lru_parts P loc s T xs xs" "\<not> m_lock T" "length xs < 32" "length xs \<le> nat (m_max_elm T)" using R by auto
  show "set xs \<subseteq> P" "distinct (map (okey s) xs)" using H by simp_all
  then show "distinct xs" by (simp add: distinct_map)
  show "x \<noteq> NULL \<and> o_key64 s x = Some (okey s x) \<and> small_key (okey s x)" if "x \<in> P" using H that by (auto simp: okey_def)
qed

text \<open>The search of the table.\<close>

lemma lru_find_run:
  assumes "lru_rep P loc s T xs" and "small_key k"
  shows "\<exists>c. dho_lookup64 alloc loc (m_hash T) k s = Ret (or_NULL (lc_find (okey s) k xs), (m_hash T)\<lparr>dh_max_chain := c\<rparr>) s"
proof -
  note R = lru_repD [OF assms(1)]
  have "hside P s (m_hash T) xs" "free_seed s loc" using R(1) by (simp_all add: lru_parts_def)
  then show ?thesis
    using dho_lookup64_run [of s "m_hash T" xs loc k alloc] R(3,6) assms(2) hside_stored [of P s "m_hash T" xs] lc_find_map [OF R(6)]
    by (simp add: hside_def)
qed

text \<open>An object in the cache becomes the newest.\<close>

lemma parts_touch:
  assumes p: "lru_parts P loc s T xs xs" and x: "x \<in> set xs" and d: "distinct xs"
  shows "\<exists>s'. lru_ref_obj_nolock T x s = Ret () s' \<and> lru_parts P loc s' T (removeAll x xs @ [x]) (removeAll x xs @ [x]) \<and> lru_static s s'"
proof -
  obtain us vs where xs: "xs = us @ x # vs" using x by (metis split_list)
  then have r: "removeAll x xs = us @ vs" "x \<notin> set (us @ vs)" using d by auto
  have L: "lside P s (m_list T) (us @ x # vs)" "x \<in> P" using p xs by (auto simp: lru_parts_def lside_def)
  obtain s1 where s1: "obj_rm (m_lru x) s = Ret () s1" "lstep P (m_list T) s s1 (us @ vs)" using lside_rm [OF L(1)] by blast
  then obtain s2 where s2: "obj_add_back (m_lru x) x (m_list T) s1 = Ret () s2" "lstep P (m_list T) s1 s2 ((us @ vs) @ [x])"
    using lside_add_back [of P s1 "m_list T" "us @ vs" x] L(2) r(2) by (auto simp: lstep_def)
  have "lru_parts P loc s2 T xs ((us @ vs) @ [x])" using parts_list [OF parts_list [OF p s1(2)] s2(2)] .
  then have "lru_parts P loc s2 T (removeAll x xs @ [x]) (removeAll x xs @ [x])" unfolding r(1) by (rule parts_perm) (simp add: xs)
  moreover have "lru_ref_obj_nolock T x s = Ret () s2" using s1(1) s2(1) by (simp add: lru_ref_obj_nolock_def c_eval)
  moreover have "lru_static s s2" using s1(2) s2(2) static_trans by (simp add: lstep_def) blast
  ultimately show ?thesis by blast
qed

text \<open>An object of a new key enters both parts.\<close>

lemma parts_enter:
  assumes p: "lru_parts P loc s T xs xs" and x: "x \<in> P" "okey s x \<notin> okey s ` set xs"
  shows "\<exists>i s1 s2 H. dho_insert_key64 (m_hash T) x s = Ret (i, H) s1 \<and> obj_add_back (m_lru x) x (m_list T) s1 = Ret () s2
    \<and> lru_parts P loc s2 (T\<lparr>m_hash := H\<rparr>) (xs @ [x]) (xs @ [x]) \<and> lru_static s s2"
proof -
  let ?H = "(m_hash T)\<lparr>dh_elm_cnt := dh_elm_cnt (m_hash T) + 1\<rparr>"
  obtain i s1 where s1: "dho_insert_key64 (m_hash T) x s = Ret (i, ?H) s1" "hstep P (m_hash T) s s1 ?H (xs @ [x])"
    using hside_insert [of P s "m_hash T" xs x] p x by (auto simp: lru_parts_def)
  have p1: "lru_parts P loc s1 (T\<lparr>m_hash := ?H\<rparr>) (xs @ [x]) xs" by (rule parts_hash [OF p s1(2)])
  have "x \<notin> set xs" using x(2) by auto
  then obtain s2 where s2: "obj_add_back (m_lru x) x (m_list T) s1 = Ret () s2" "lstep P (m_list T) s1 s2 (xs @ [x])"
    using lside_add_back [of P s1 "m_list T" xs x] p1 x(1) by (auto simp: lru_parts_def)
  have "lru_parts P loc s2 (T\<lparr>m_hash := ?H\<rparr>) (xs @ [x]) (xs @ [x])" using parts_list [OF p1] s2(2) by simp
  moreover have "lru_static s s2" using s1(2) s2(2) static_trans [of s s1 s2] by (simp add: lstep_def hstep_def)
  ultimately show ?thesis using s1(1) s2(1) by blast
qed

text \<open>What the operations return besides the memory: the same limit, and the counters.\<close>

definition lru_counts :: "lru_tab \<Rightarrow> lru_tab \<Rightarrow> int \<Rightarrow> int \<Rightarrow> int \<Rightarrow> bool" where
  "lru_counts T T' h m k \<longleftrightarrow> m_max_elm T' = m_max_elm T \<and> m_hit_cnt T' = m_hit_cnt T + h \<and> m_miss_cnt T' = m_miss_cnt T + m
     \<and> m_kick_cnt T' = m_kick_cnt T + k"

lemma lru_insert_run:
  assumes R: "lru_rep P loc s T xs" and x: "x \<in> P"
  shows "\<exists>T' s'. lru_insert_key64 alloc loc T x s = Ret (True, T') s'
    \<and> lru_rep P loc s' T' (lc_insert (okey s) (nat (m_max_elm T)) x xs) \<and> lru_static s s'
    \<and> (if lc_find (okey s) (okey s x) xs = None then lru_counts T T' 0 1 (int (Suc (length xs) - nat (m_max_elm T))) else lru_counts T T' 1 0 0)"
proof -
  note D = lru_repD [OF R]
  let ?k = "okey s x" and ?n = "nat (m_max_elm T)"
  have k: "x \<noteq> NULL" "o_key64 s x = Some ?k" "small_key ?k" using D(8) [OF x] by auto
  obtain c where c: "dho_lookup64 alloc loc (m_hash T) ?k s = Ret (or_NULL (lc_find (okey s) ?k xs), (m_hash T)\<lparr>dh_max_chain := c\<rparr>) s"
    using lru_find_run [OF R k(3)] by blast
  let ?T = "T\<lparr>m_lock := True, m_hash := (m_hash T)\<lparr>dh_max_chain := c\<rparr>\<rparr>"
  have mx: "0 \<le> m_max_elm T" using R by (simp add: lru_rep_def)
  have p: "lru_parts P loc s ?T xs xs" using D(1) parts_chain [where T = T and c = c and P = P and loc = loc and s = s and xs = xs and ys = xs]
    by (simp add: lru_parts_def)
  show ?thesis
  proof (cases "lc_find (okey s) ?k xs")
    case (Some y)
    then have y: "y \<in> set xs" using lc_find_Some [OF Some] by simp
    then have y0: "y \<noteq> NULL" using D(5) D(8) [of y] by auto
    let ?T1 = "?T\<lparr>m_hit_cnt := m_hit_cnt T + 1\<rparr>" and ?ys = "removeAll y xs @ [y]"
    have "lru_parts P loc s ?T1 xs xs" using p parts_cong [of ?T1 ?T] by simp
    from parts_touch [OF this y D(7)] obtain s1 where s1: "lru_ref_obj_nolock ?T1 y s = Ret () s1" "lru_parts P loc s1 ?T1 ?ys ?ys" "lru_static s s1"
      by blast
    have len: "length ?ys = length xs" using D(7) y by (simp add: distinct_remove1_removeAll [symmetric] length_remove1 card_gt_0_iff) (metis Suc_pred length_pos_if_in_set)
    obtain s2 H where s2: "lru_evict ?T1 s1 = Ret (?T1\<lparr>m_kick_cnt := m_kick_cnt T + int (length ?ys - ?n), m_hash := H\<rparr>) s2"
        "lru_parts P loc s2 (?T1\<lparr>m_hash := H\<rparr>) (drop (length ?ys - ?n) ?ys) (drop (length ?ys - ?n) ?ys)" "lru_static s1 s2"
      using lru_evict_run [OF s1(2)] mx by auto
    let ?T2 = "lru_unlock (?T1\<lparr>m_kick_cnt := m_kick_cnt T + int (length ?ys - ?n), m_hash := H\<rparr>)"
    have z: "length ?ys - ?n = 0" using len D(4) by simp
    have "lru_insert_key64 alloc loc T x s = Ret (True, ?T2) s2"
      using k y0 c Some s1(1) s2(1) D(2) by (simp add: lru_insert_key64_def lru_lock_def c_eval Let_def)
    moreover have "lru_parts P loc s2 ?T2 ?ys ?ys" using s2(2) z parts_cong [of ?T2 "?T1\<lparr>m_hash := H\<rparr>"] by (simp add: lru_unlock_def)
    then have "lru_rep P loc s2 ?T2 ?ys" using R len by (simp add: lru_rep_def lru_unlock_def)
    moreover have "lru_counts T ?T2 1 0 0" using z by (simp add: lru_counts_def lru_unlock_def)
    ultimately show ?thesis using Some static_trans [OF s1(3) s2(3)] by (auto simp: lc_insert_def)
  next
    case None
    let ?T1 = "?T\<lparr>m_miss_cnt := m_miss_cnt T + 1\<rparr>" and ?ys = "xs @ [x]"
    have p1: "lru_parts P loc s ?T1 xs xs" using p parts_cong [of ?T1 ?T] by simp
    obtain i s1 s2 H where s2: "dho_insert_key64 (m_hash ?T1) x s = Ret (i, H) s1" "obj_add_back (m_lru x) x (m_list ?T1) s1 = Ret () s2"
        "lru_parts P loc s2 (?T1\<lparr>m_hash := H\<rparr>) ?ys ?ys" "lru_static s s2"
      using parts_enter [OF p1 x] None by (auto simp: lc_find_None)
    obtain s3 H' where s3: "lru_evict (?T1\<lparr>m_hash := H\<rparr>) s2 =
          Ret (?T1\<lparr>m_hash := H\<rparr>\<lparr>m_kick_cnt := m_kick_cnt T + int (length ?ys - ?n), m_hash := H'\<rparr>) s3"
        "lru_parts P loc s3 (?T1\<lparr>m_hash := H\<rparr>\<lparr>m_hash := H'\<rparr>) (drop (length ?ys - ?n) ?ys) (drop (length ?ys - ?n) ?ys)" "lru_static s2 s3"
      using lru_evict_run [OF s2(3)] mx by auto
    let ?T2 = "lru_unlock (?T1\<lparr>m_hash := H\<rparr>\<lparr>m_kick_cnt := m_kick_cnt T + int (length ?ys - ?n), m_hash := H'\<rparr>)"
    have run: "lru_insert_key64 alloc loc T x s = Ret (True, ?T2) s3"
      using k c None s2(1,2) s3(1) D(2) by (simp add: lru_insert_key64_def lru_lock_def c_eval Let_def)
    have "lru_parts P loc s3 ?T2 (drop (length ?ys - ?n) ?ys) (drop (length ?ys - ?n) ?ys)"
      using s3(2) parts_cong [of ?T2 "?T1\<lparr>m_hash := H\<rparr>\<lparr>m_hash := H'\<rparr>"] by (simp add: lru_unlock_def)
    moreover have "int (length (drop (length ?ys - ?n) ?ys)) \<le> m_max_elm T" using mx by (simp del: drop_append)
    ultimately have "lru_rep P loc s3 ?T2 (drop (length ?ys - ?n) ?ys)"
      using R unfolding lru_rep_def lru_unlock_def by (simp del: drop_append length_drop)
    moreover have "lru_counts T ?T2 0 1 (int (Suc (length xs) - ?n))" by (simp add: lru_counts_def lru_unlock_def)
    ultimately show ?thesis using run None static_trans [OF s2(4) s3(3)] by (auto simp: lc_insert_def)
  qed
qed

end
