(* ===== verification/CMachine.thy ===== *)
theory CMachine
  imports CPrelude
begin

text \<open>The interface of structures that carry out the commands of an abstract machine.\<close>

text \<open>Commands that a structure \<open>t\<close> in memory carries out as an abstract machine says; where the
  machine has no step, the code stops at an assertion.\<close>

fun m_run :: "('c \<Rightarrow> 't \<Rightarrow> ('s, 'r \<times> 't) cprog) \<Rightarrow> 'c list \<Rightarrow> 't \<Rightarrow> ('s, 'r list \<times> 't) cprog" where
  "m_run exec [] t = ret ([], t)"
| "m_run exec (c # cs) t = bindM (exec c t) (\<lambda>r. bindM (m_run exec cs (snd r)) (\<lambda>q. ret (fst r # fst q, snd q)))"

fun spec_run :: "('c \<Rightarrow> 'x \<Rightarrow> ('r \<times> 'x) option) \<Rightarrow> 'c list \<Rightarrow> 'x \<Rightarrow> ('r list \<times> 'x) option" where
  "spec_run spec [] x = Some ([], x)"
| "spec_run spec (c # cs) x = (case spec c x of None \<Rightarrow> None
     | Some r \<Rightarrow> (case spec_run spec cs (snd r) of None \<Rightarrow> None | Some q \<Rightarrow> Some (fst r # fst q, snd q)))"

locale c_machine =
  fixes rep :: "'s \<Rightarrow> 't \<Rightarrow> 'x \<Rightarrow> bool"
    and exec :: "'c \<Rightarrow> 't \<Rightarrow> ('s, 'r \<times> 't) cprog"
    and spec :: "'c \<Rightarrow> 'x \<Rightarrow> ('r \<times> 'x) option"
    and valid :: "'c \<Rightarrow> bool"
  assumes step_law: "rep s t x \<Longrightarrow> valid c \<Longrightarrow> spec c x = Some (r, x') \<Longrightarrow> \<exists>t' s'. exec c t s = Ret (r, t') s' \<and> rep s' t' x'"
    and stop_law: "rep s t x \<Longrightarrow> valid c \<Longrightarrow> spec c x = None \<Longrightarrow> exec c t s = Abort Assert_fail"
begin

lemma run_some:
  "rep s t x \<Longrightarrow> \<forall>c \<in> set cs. valid c \<Longrightarrow> spec_run spec cs x = Some (rs, x') \<Longrightarrow> \<exists>t' s'. m_run exec cs t s = Ret (rs, t') s' \<and> rep s' t' x'"
proof (induction cs arbitrary: s t x rs x')
  case Nil
  then show ?case by (auto simp: c_eval)
next
  case (Cons c cs)
  then obtain r y q where r: "spec c x = Some (r, y)" "spec_run spec cs y = Some (q, x')" "rs = r # q"
    by (auto split: option.splits)
  obtain t1 s1 where s1: "exec c t s = Ret (r, t1) s1" "rep s1 t1 y" using step_law Cons.prems(1,2) r(1) by force
  then obtain t2 s2 where "m_run exec cs t1 s1 = Ret (q, t2) s2" "rep s2 t2 x'" using Cons.IH [OF s1(2) _ r(2)] Cons.prems(2) by auto
  with s1(1) r(3) show ?case by (simp add: c_eval)
qed

lemma run_none:
  "rep s t x \<Longrightarrow> \<forall>c \<in> set cs. valid c \<Longrightarrow> spec_run spec cs x = None \<Longrightarrow> m_run exec cs t s = Abort Assert_fail"
proof (induction cs arbitrary: s t x)
  case (Cons c cs)
  show ?case
  proof (cases "spec c x")
    case None
    then show ?thesis using stop_law Cons.prems by (simp add: c_eval)
  next
    case (Some r)
    then obtain t1 s1 where s1: "exec c t s = Ret (fst r, t1) s1" "rep s1 t1 (snd r)"
      using step_law [of s t x c "fst r" "snd r"] Cons.prems(1,2) by auto
    moreover have "spec_run spec cs (snd r) = None" using Cons.prems(3) Some by (auto split: option.splits)
    ultimately show ?thesis using Cons.IH [OF s1(2)] Cons.prems(2) by (simp add: c_eval)
  qed
qed simp

text \<open>What a client sees does not depend on where things lie in memory.\<close>

lemma run_same:
  assumes "rep s t x" and "rep s2 t2 x" and "\<forall>c \<in> set cs. valid c" and "m_run exec cs t s = Ret (rs, t') s'"
  shows "\<exists>t2' s2'. m_run exec cs t2 s2 = Ret (rs, t2') s2'"
proof (cases "spec_run spec cs x")
  case None
  then show ?thesis using run_none [OF assms(1,3)] assms(4) by simp
next
  case (Some q)
  then have q: "spec_run spec cs x = Some (fst q, snd q)" by simp
  then have "fst q = rs" using run_some [OF assms(1,3) q] assms(4) by auto
  then show ?thesis using run_some [OF assms(2,3) q] by blast
qed

end

end
