(* ===== verification/LruCache.thy ===== *)
theory LruCache
  imports LruProps CMachine
begin

text \<open>
  The cache of objects against the abstract cache of LruProps: each command, sequences of
  commands through the interface \<open>c_machine\<close>, and what a cache holds after a sequence of
  insertions.
\<close>

subsection \<open>Lookup, removal and clear\<close>

text \<open>The subclass's \<open>lookup_missed\<close> returns the object \<open>f key\<close> and does not touch the cache.\<close>

definition loads :: "(64 word \<Rightarrow> addr) \<Rightarrow> (lru_tab \<Rightarrow> 64 word \<Rightarrow> (obj_mem, addr \<times> lru_tab) cprog) \<Rightarrow> bool" where
  "loads f lm \<longleftrightarrow> (\<forall>T k s. lm T k s = Ret (f k, T) s)"

definition loader_of :: "addr set \<Rightarrow> (addr \<Rightarrow> 64 word) \<Rightarrow> (64 word \<Rightarrow> addr) \<Rightarrow> bool" where
  "loader_of P kf f \<longleftrightarrow> (\<forall>k. f k \<noteq> NULL \<longrightarrow> f k \<in> P \<and> kf (f k) = k)"

lemma static_refl [simp]: "lru_static s s"
  by (simp add: lru_static_def)

lemma lru_lookup_run:
  assumes R: "lru_rep P loc s T xs" and k: "small_key k" and lm: "loads f lm" "loader_of P (okey s) f"
  shows "\<exists>T' s'. lru_lookup64 alloc loc lm T k s = Ret (fst (lc_lookup (okey s) (nat (m_max_elm T)) f k xs), T') s'
    \<and> lru_rep P loc s' T' (snd (lc_lookup (okey s) (nat (m_max_elm T)) f k xs)) \<and> lru_static s s'
    \<and> m_max_elm T' = m_max_elm T
    \<and> (if lc_find (okey s) k xs \<noteq> None then lru_counts T T' 1 0 0
       else if f k = NULL then lru_counts T T' 0 1 0
       else lru_counts T T' 0 2 (int (Suc (length xs) - nat (m_max_elm T))))"
proof -
  note D = lru_repD [OF R]
  obtain c where c: "dho_lookup64 alloc loc (m_hash T) k s = Ret (or_NULL (lc_find (okey s) k xs), (m_hash T)\<lparr>dh_max_chain := c\<rparr>) s"
    using lru_find_run [OF R k] by blast
  define T1 where "T1 = T\<lparr>m_hash := (m_hash T)\<lparr>dh_max_chain := c\<rparr>, m_lock := False\<rparr>"
  have T1: "m_max_elm T1 = m_max_elm T" "m_hit_cnt T1 = m_hit_cnt T" "m_miss_cnt T1 = m_miss_cnt T" "m_kick_cnt T1 = m_kick_cnt T" "\<not> m_lock T1"
    by (simp_all add: T1_def)
  have "lru_parts P loc s T1 xs xs"
    using D(1) parts_chain [where T = T and c = c and P = P and loc = loc and s = s and xs = xs and ys = xs] by (simp add: lru_parts_def T1_def)
  then have R1: "lru_rep P loc s (T1\<lparr>m_hit_cnt := h\<rparr>) xs" "lru_rep P loc s (T1\<lparr>m_miss_cnt := h\<rparr>) xs" for h
    using R T1 by (simp_all add: lru_rep_def lru_parts_def)
  show ?thesis
  proof (cases "lc_find (okey s) k xs")
    case (Some y)
    then have "y \<noteq> NULL" using D(5) D(8) [of y] lc_find_Some [OF Some] by auto
    then have "lru_lookup64 alloc loc lm T k s = Ret (y, T1\<lparr>m_hit_cnt := m_hit_cnt T1 + 1\<rparr>) s"
      using c Some D(2) by (simp add: lru_lookup64_def lru_lock_def lru_unlock_def T1_def c_eval Let_def)
    then show ?thesis using Some R1(1) [of "m_hit_cnt T1 + 1"] T1 by (auto simp: lc_lookup_def lru_counts_def)
  next
    case None
    let ?T = "T1\<lparr>m_miss_cnt := m_miss_cnt T1 + 1\<rparr>"
    have R2: "lru_rep P loc s ?T xs" by (rule R1)
    have run: "lru_lookup64 alloc loc lm T k s =
        (if f k \<noteq> NULL then bindM (lru_insert_key64 alloc loc ?T (f k)) (\<lambda>x. ret (f k, snd x)) s else Ret (NULL, ?T) s)"
      using c None D(2) lm(1) by (simp add: lru_lookup64_def lru_lock_def lru_unlock_def T1_def c_eval Let_def loads_def)
    show ?thesis
    proof (cases "f k = NULL")
      case True
      then show ?thesis using run None R2 T1 by (auto simp: lc_lookup_def lru_counts_def)
    next
      case False
      then have fk: "f k \<in> P" "okey s (f k) = k" using lm(2) by (auto simp: loader_of_def)
      obtain T' s' where "lru_insert_key64 alloc loc ?T (f k) s = Ret (True, T') s'"
          "lru_rep P loc s' T' (lc_insert (okey s) (nat (m_max_elm ?T)) (f k) xs)" "lru_static s s'"
          "lru_counts ?T T' 0 1 (int (Suc (length xs) - nat (m_max_elm ?T)))"
        using lru_insert_run [OF R2 fk(1), of alloc] None fk(2) by auto
      then show ?thesis using run None False T1 by (auto simp: lc_lookup_def lru_counts_def c_eval)
    qed
  qed
qed

lemma lru_remove_run:
  assumes R: "lru_rep P loc s T xs" and x: "x \<in> set xs"
  shows "\<exists>T' s'. lru_remove_obj T x s = Ret (True, T') s' \<and> lru_rep P loc s' T' (removeAll x xs) \<and> lru_static s s' \<and> lru_counts T T' 0 0 0"
proof -
  note D = lru_repD [OF R]
  obtain us vs where xs: "xs = us @ x # vs" using x by (metis split_list)
  then have r: "removeAll x xs = us @ vs" using D(7) by auto
  let ?T = "T\<lparr>m_lock := True\<rparr>"
  have p: "lru_parts P loc s ?T xs xs" using D(1) parts_cong [of ?T T] by simp
  have L: "lside P s (m_list T) (us @ x # vs)" "x \<noteq> NULL" using D(1,5) D(8) [of x] x xs by (auto simp: lru_parts_def)
  obtain s1 where s1: "obj_rm (m_lru x) s = Ret () s1" "lstep P (m_list ?T) s s1 (us @ vs)" using lside_rm [OF L(1)] by auto
  have p1: "lru_parts P loc s1 ?T (us @ x # vs) (us @ vs)" using parts_list [OF p s1(2)] xs by simp
  let ?H = "(m_hash T)\<lparr>dh_elm_cnt := dh_elm_cnt (m_hash T) - 1\<rparr>"
  obtain s2 where s2: "dho_remove_obj (m_hash T) x s1 = Ret ?H s2" "hstep P (m_hash ?T) s1 s2 ?H (us @ vs)"
    using hside_remove [of P s1 "m_hash T" us x vs] p1 by (auto simp: lru_parts_def)
  let ?T2 = "lru_unlock (?T\<lparr>m_hash := ?H\<rparr>)"
  have "lru_parts P loc s2 ?T2 (us @ vs) (us @ vs)"
    using parts_hash [OF p1 s2(2)] parts_cong [of ?T2 "?T\<lparr>m_hash := ?H\<rparr>"] by (simp add: lru_unlock_def)
  then have "lru_rep P loc s2 ?T2 (us @ vs)" using R xs by (simp add: lru_rep_def lru_unlock_def)
  moreover have "lru_remove_obj T x s = Ret (True, ?T2) s2"
    using L(2) s1(1) s2(1) D(2) by (simp add: lru_remove_obj_def lru_lock_def c_eval)
  moreover have "lru_static s s2" using s1(2) s2(2) static_trans [of s s1 s2] by (simp add: lstep_def hstep_def)
  ultimately show ?thesis unfolding r by (auto simp: lru_counts_def lru_unlock_def)
qed

lemma lru_remove_absent:
  assumes "lru_rep P loc s T xs" and "x \<in> P" and "x \<notin> set xs"
  shows "lru_remove_obj T x s = Abort Assert_fail"
  using assms lru_repD(2,8) [OF assms(1)] lside_rm_absent [of P s "m_list T" xs x]
  by (simp add: lru_remove_obj_def lru_lock_def lru_rep_def lru_parts_def c_eval)

lemma lru_clear_run:
  assumes R: "lru_rep P loc s T xs"
  shows "\<exists>T' s'. lru_clear T s = Ret T' s' \<and> lru_rep P loc s' T' [] \<and> lru_static s s' \<and> lru_counts T T' 0 0 0"
proof -
  note D = lru_repD [OF R]
  let ?T = "T\<lparr>m_lock := True\<rparr>"
  have p: "lru_parts P loc s ?T xs xs" using D(1) parts_cong [of ?T T] by simp
  obtain s1 H where s1: "lru_clear_loop ?T s = Ret (?T\<lparr>m_hash := H\<rparr>) s1" "lru_parts P loc s1 (?T\<lparr>m_hash := H\<rparr>) [] []" "lru_static s s1"
    using lru_clear_loop_run [OF p] by blast
  have "dho_size H = 0" using parts_size [OF s1(2)] by simp
  then have "lru_clear T s = Ret (lru_unlock (?T\<lparr>m_hash := H\<rparr>)) s1" using s1(1) D(2) by (simp add: lru_clear_def lru_lock_def c_eval)
  moreover have "lru_rep P loc s1 (lru_unlock (?T\<lparr>m_hash := H\<rparr>)) []"
    using s1(2) R parts_cong [of "lru_unlock (?T\<lparr>m_hash := H\<rparr>)" "?T\<lparr>m_hash := H\<rparr>"] by (simp add: lru_rep_def lru_unlock_def)
  ultimately show ?thesis using s1(3) by (auto simp: lru_counts_def lru_unlock_def)
qed


subsection \<open>The cache as a machine\<close>

datatype lru_cmd = L_insert addr | L_lookup "64 word" | L_remove addr | L_clear

datatype lru_res = R_flag bool | R_obj addr | R_none

fun lru_exec ::
  "obj_mem alloc \<Rightarrow> addr \<Rightarrow> (lru_tab \<Rightarrow> 64 word \<Rightarrow> (obj_mem, addr \<times> lru_tab) cprog) \<Rightarrow> lru_cmd \<Rightarrow> lru_tab
   \<Rightarrow> (obj_mem, lru_res \<times> lru_tab) cprog" where
  "lru_exec alloc loc lm (L_insert x) T = bindM (lru_insert_key64 alloc loc T x) (\<lambda>r. ret (R_flag (fst r), snd r))"
| "lru_exec alloc loc lm (L_lookup k) T = bindM (lru_lookup64 alloc loc lm T k) (\<lambda>r. ret (R_obj (fst r), snd r))"
| "lru_exec alloc loc lm (L_remove x) T = bindM (lru_remove_obj T x) (\<lambda>r. ret (R_flag (fst r), snd r))"
| "lru_exec alloc loc lm L_clear T = bindM (lru_clear T) (\<lambda>T'. ret (R_none, T'))"

fun lc_exec :: "(addr \<Rightarrow> 64 word) \<Rightarrow> nat \<Rightarrow> (64 word \<Rightarrow> addr) \<Rightarrow> lru_cmd \<Rightarrow> addr list \<Rightarrow> (lru_res \<times> addr list) option" where
  "lc_exec kf n f (L_insert x) xs = Some (R_flag True, lc_insert kf n x xs)"
| "lc_exec kf n f (L_lookup k) xs = Some (R_obj (fst (lc_lookup kf n f k xs)), snd (lc_lookup kf n f k xs))"
| "lc_exec kf n f (L_remove x) xs = (if x \<in> set xs then Some (R_flag True, removeAll x xs) else None)"
| "lc_exec kf n f L_clear xs = Some (R_none, [])"

fun lru_valid :: "addr set \<Rightarrow> lru_cmd \<Rightarrow> bool" where
  "lru_valid P (L_insert x) \<longleftrightarrow> x \<in> P"
| "lru_valid P (L_lookup k) \<longleftrightarrow> small_key k"
| "lru_valid P (L_remove x) \<longleftrightarrow> x \<in> P"
| "lru_valid P L_clear \<longleftrightarrow> True"

definition lru_inv ::
  "addr set \<Rightarrow> addr \<Rightarrow> (addr \<Rightarrow> 64 word) \<Rightarrow> int \<Rightarrow> (64 word \<Rightarrow> addr) \<Rightarrow> (lru_tab \<Rightarrow> 64 word \<Rightarrow> (obj_mem, addr \<times> lru_tab) cprog)
   \<Rightarrow> obj_mem \<Rightarrow> lru_tab \<Rightarrow> addr list \<Rightarrow> bool" where
  "lru_inv P loc kf n f lm s T xs \<longleftrightarrow> lru_rep P loc s T xs \<and> okey s = kf \<and> m_max_elm T = n \<and> loads f lm \<and> loader_of P kf f"

lemma lru_inv_next:
  "lru_inv P loc kf n f lm s T xs \<Longrightarrow> lru_rep P loc s' T' ys \<Longrightarrow> lru_static s s' \<Longrightarrow> m_max_elm T' = m_max_elm T
   \<Longrightarrow> lru_inv P loc kf n f lm s' T' ys"
  using okey_static [of s s'] by (simp add: lru_inv_def)

lemma counts_max: "lru_counts T T' h m k \<Longrightarrow> m_max_elm T' = m_max_elm T"
  by (simp add: lru_counts_def)

lemma lru_step:
  assumes I: "lru_inv P loc kf n f lm s T xs" and v: "lru_valid P c" and c: "lc_exec kf (nat n) f c xs = Some (r, ys)"
  shows "\<exists>T' s'. lru_exec alloc loc lm c T s = Ret (r, T') s' \<and> lru_inv P loc kf n f lm s' T' ys"
proof -
  have R: "lru_rep P loc s T xs" "okey s = kf" "m_max_elm T = n" "loads f lm" "loader_of P (okey s) f" using I by (simp_all add: lru_inv_def)
  show ?thesis
  proof (cases c)
    case (L_insert x)
    then have "x \<in> P" using v by simp
    then obtain T' s' where "lru_insert_key64 alloc loc T x s = Ret (True, T') s'" "lru_rep P loc s' T' (lc_insert kf (nat n) x xs)"
        "lru_static s s'" "m_max_elm T' = m_max_elm T"
      using lru_insert_run [OF R(1), of x alloc] R(2,3) counts_max by (metis (full_types))
    then show ?thesis using lru_inv_next [OF I] L_insert c by (auto simp: c_eval)
  next
    case (L_lookup k)
    then have "small_key k" using v by simp
    from lru_lookup_run [OF R(1) this R(4,5), of alloc] show ?thesis
      using lru_inv_next [OF I] L_lookup c R(2,3) by (auto simp: c_eval)
  next
    case (L_remove x)
    then have x: "x \<in> set xs" using c by (auto split: if_splits)
    obtain T' s' where "lru_remove_obj T x s = Ret (True, T') s'" "lru_rep P loc s' T' (removeAll x xs)" "lru_static s s'" "lru_counts T T' 0 0 0"
      using lru_remove_run [OF R(1) x] by blast
    then show ?thesis using lru_inv_next [OF I] L_remove c x counts_max by (auto simp: c_eval)
  next
    case L_clear
    obtain T' s' where "lru_clear T s = Ret T' s'" "lru_rep P loc s' T' []" "lru_static s s'" "lru_counts T T' 0 0 0"
      using lru_clear_run [OF R(1)] by blast
    then show ?thesis using lru_inv_next [OF I] L_clear c counts_max by (auto simp: c_eval)
  qed
qed

lemma lru_stop:
  assumes I: "lru_inv P loc kf n f lm s T xs" and v: "lru_valid P c" and c: "lc_exec kf (nat n) f c xs = None"
  shows "lru_exec alloc loc lm c T s = Abort Assert_fail"
proof -
  obtain x where x: "c = L_remove x" "x \<notin> set xs" using c by (cases c) (auto split: if_splits)
  then have "lru_remove_obj T x s = Abort Assert_fail" using lru_remove_absent [of P loc s T xs x] I v by (simp add: lru_inv_def)
  then show ?thesis using x(1) by (simp add: c_eval)
qed

interpretation lruc: c_machine "lru_inv P loc kf n f lm" "lru_exec alloc loc lm" "lc_exec kf (nat n) f" "lru_valid P"
  by unfold_locales (rule lru_step, assumption+, rule lru_stop)

subsection \<open>Construction\<close>

text \<open>Objects that are in no container, and the head of a list apart from them.\<close>

definition lru_pool :: "addr set \<Rightarrow> obj_mem \<Rightarrow> addr \<Rightarrow> bool" where
  "lru_pool P s l \<longleftrightarrow> finite (dom (dl_next s)) \<and> is_dlink s l \<and> m_chain ` P \<inter> m_lru ` P = {} \<and> l \<notin> m_chain ` P \<union> m_lru ` P
     \<and> (\<forall>x \<in> P. x \<noteq> NULL \<and> is_dlink s (m_chain x) \<and> dlist_rep s (m_lru x) [] \<and> ol_ptr s (m_chain x) = Some NULL
          \<and> ol_ptr s (m_lru x) = Some NULL \<and> (\<exists>k. o_key64 s x = Some k \<and> small_key k))"

lemma lru_ctor_run:
  assumes al: "fresh_alloc alloc" and P: "lru_pool P s l" and n: "0 < n" "n < 32"
  shows "\<exists>T s'. lru_ctor alloc l n s = Ret T s' \<and> m_max_elm T = n \<and> lru_counts (T\<lparr>m_hit_cnt := 0, m_miss_cnt := 0, m_kick_cnt := 0\<rparr>) T 0 0 0
    \<and> okey s' = okey s \<and> (\<forall>loc. free_seed s' loc \<longrightarrow> lru_rep P loc s' T [])"
proof -
  note P' = P [unfolded lru_pool_def]
  define m where "m = nat n"
  have m: "0 < m" "int m = n" using n by (simp_all add: m_def)
  have fin: "finite (dom (dl_next s))" using P' by simp
  let ?H = "\<lambda>mp. \<lparr>dh_bucket = mp, dh_bk_size = n, dh_elm_cnt = 0, dh_max_chain = 0, dh_hash_fn = Some dh_hash_keystr, dh_cmp_fn = Some dh_hash_cmp_keystr\<rparr>"
  obtain s1 mp where s1: "dhash_init alloc n (Some dh_hash_keystr) (Some dh_hash_cmp_keystr) s = Ret (?H mp) s1"
      "rings s1 mp (replicate m [])" "arr mp m \<inter> dom (dl_next s) = {}"
      "\<And>p. p \<notin> arr mp m \<Longrightarrow> dl_next s1 p = dl_next s p \<and> dl_prev s1 p = dl_prev s p" "dlist_mem.more s1 = dlist_mem.more s"
    using dhash_init_run [where hf = "Some dh_hash_keystr" and cf = "Some dh_hash_cmp_keystr", OF al fin m(1)] unfolding m(2) by blast
  have ob: "ol_ptr s1 = ol_ptr s" "o_key64 s1 = o_key64 s" using more_objs [OF s1(5)] by (simp_all add: same_objs_def)
  have out: "p \<notin> arr mp m" "dl_next s1 p = dl_next s p" "dl_prev s1 p = dl_prev s p" if "is_dlink s p" for p
    using that s1(3) s1(4) [of p] by (auto simp: is_dlink_def)
  have lr: "is_dlink s (m_lru x)" if "x \<in> P" for x
    using P' that ring_cell [of s "m_lru x" "[]" "m_lru x"] by (auto simp: is_dlink_def)
  define s2 where "s2 = s1\<lparr>dl_next := (dl_next s1)(l \<mapsto> l), dl_prev := (dl_prev s1)(l \<mapsto> l)\<rparr>"
  define T where "T = \<lparr>m_max_elm = n, m_hit_cnt = 0, m_miss_cnt = 0, m_kick_cnt = 0, m_hash = ?H mp, m_list = l, m_lock = False\<rparr>"
  have l: "is_dlink s l" "is_dlink s1 l" using P' out [of l] by (simp_all add: is_dlink_def domIff)
  have run: "lru_ctor alloc l n s = Ret T s2"
    using s1(1) dlist_init_run [OF l(2)] by (simp add: lru_ctor_def dho_ctor_def dl_ctor_def c_eval s2_def T_def)
  have ln: "l \<notin> nodes mp (replicate m [])" using out(1) [OF l(1)] by (auto simp: nodes_def)
  have "rings s2 mp (replicate m []) = rings s1 mp (replicate m [])" using ln by (intro rings_cong) (auto simp: s2_def)
  then have "hpart kv64_h s2 (?H mp) (lkey s2) (map m_chain [])"
    using s1(2) m n unfolding hpart_def by (intro conjI exI [of _ "replicate m []"]) (auto simp: hashed_def)
  moreover have "owned m_chain P s2 []" "owned m_lru P s2 []" using P' ob by (auto simp: owned_def s2_def)
  moreover have "is_dlink s2 p" if "is_dlink s p" for p using out [OF that] that by (auto simp: s2_def is_dlink_def)
  moreover have "\<forall>x \<in> P. dlist_rep s2 (m_lru x) []"
  proof
    fix x assume x: "x \<in> P"
    then have "dlist_rep s2 (m_lru x) [] = dlist_rep s (m_lru x) []"
      using out [OF lr [OF x]] P' by (intro dlist_rep_cong) (auto simp: s2_def)
    then show "dlist_rep s2 (m_lru x) []" using P' x by simp
  qed
  moreover have "dlist_rep s2 l []" using l(1) by (simp add: dlist_rep_init s2_def is_dlink_def)
  moreover have "\<forall>x \<in> P. \<exists>k. o_key64 s2 x = Some k \<and> small_key k" using P' ob by (simp add: s2_def)
  ultimately have "hside P s2 (?H mp) []" "lside P s2 l []"
    using P' lr out(1) m(2) by (auto simp: hside_def lside_def m_def)
  moreover have "hreg P (?H mp) \<inter> lreg P l = {}" using P' lr l(1) out(1) m_def by (fastforce simp: hreg_def lreg_def)
  ultimately have "\<forall>loc. free_seed s2 loc \<longrightarrow> lru_rep P loc s2 T []" using n by (simp add: lru_rep_def lru_parts_def T_def)
  moreover have "okey s2 = okey s" using ob by (simp add: okey_def fun_eq_iff s2_def)
  ultimately show ?thesis using run by (auto simp: lru_counts_def T_def)
qed


subsection \<open>What a cache remembers\<close>

definition last_n :: "nat \<Rightarrow> 'a list \<Rightarrow> 'a list" where
  "last_n n xs = drop (length xs - n) xs"

lemma remdups_snoc: "remdups (zs @ [x]) = removeAll x (remdups zs) @ [x]"
  by (induction zs) auto

lemma removeAll_notin: "x \<notin> set xs \<Longrightarrow> removeAll x xs = xs"
  by (induction xs) auto

lemma length_removeAll: "distinct xs \<Longrightarrow> x \<in> set xs \<Longrightarrow> length (removeAll x xs) = length xs - 1"
  by (simp add: distinct_remove1_removeAll [symmetric] length_remove1)

lemma last_n_insert:
  assumes "distinct r" and "0 < n"
  shows "last_n n (removeAll x r @ [x]) = (if x \<in> set (last_n n r) then removeAll x (last_n n r) @ [x] else drop (Suc (length (last_n n r)) - n) (last_n n r @ [x]))"
proof -
  define p where "p = take (length r - n) r"
  define q where "q = last_n n r"
  have r: "r = p @ q" by (simp add: p_def q_def last_n_def)
  have lq: "length q \<le> n" and pq: "p \<noteq> [] \<Longrightarrow> length q = n" by (auto simp: p_def q_def last_n_def)
  have d: "set p \<inter> set q = {}" "distinct p" "distinct q" using assms(1) r by auto
  show ?thesis
  proof (cases "x \<in> set q")
    case True
    then have "x \<notin> set p" using d by auto
    then have e: "removeAll x r @ [x] = p @ (removeAll x q @ [x])" by (simp add: r removeAll_notin)
    have "length (removeAll x q @ [x]) = length q" using length_removeAll [OF d(3) True] True by (cases q) auto
    then have "last_n n (removeAll x r @ [x]) = removeAll x q @ [x]" unfolding e using lq pq by (cases "p = []") (auto simp: last_n_def)
    then show ?thesis using True by (simp add: q_def)
  next
    case False
    have e: "removeAll x r @ [x] = removeAll x p @ q @ [x]" by (simp add: r removeAll_notin [OF False])
    have "last_n n (removeAll x r @ [x]) = drop (Suc (length q) - n) (q @ [x])"
      unfolding e using lq pq by (cases "p = []") (auto simp: last_n_def)
    then show ?thesis using False by (simp add: q_def)
  qed
qed

lemma lc_insert_inj:
  assumes "inj_on kf P" and "set xs \<subseteq> P" and "x \<in> P"
  shows "lc_insert kf n x xs = (if x \<in> set xs then removeAll x xs @ [x] else drop (Suc (length xs) - n) (xs @ [x]))"
proof (cases "lc_find kf (kf x) xs")
  case None
  then have "x \<notin> set xs" by (auto simp: lc_find_None)
  then show ?thesis using None by (simp add: lc_insert_def)
next
  case (Some y)
  then have "y \<in> set xs" "kf y = kf x" using lc_find_Some by metis+
  then have "y = x" using assms by (auto dest: inj_onD)
  then show ?thesis using Some \<open>y \<in> set xs\<close> by (simp add: lc_insert_def)
qed

lemma lc_insert_all:
  assumes "inj_on kf P" and "set zs \<subseteq> P" and "0 < n"
  shows "spec_run (lc_exec kf n f) (map L_insert zs) xs = Some (replicate (length zs) (R_flag True), foldl (\<lambda>c x. lc_insert kf n x c) xs zs)"
    and "foldl (\<lambda>c x. lc_insert kf n x c) [] zs = last_n n (remdups zs)"
proof -
  show "spec_run (lc_exec kf n f) (map L_insert zs) xs = Some (replicate (length zs) (R_flag True), foldl (\<lambda>c x. lc_insert kf n x c) xs zs)"
    by (induction zs arbitrary: xs) simp_all
  show "foldl (\<lambda>c x. lc_insert kf n x c) [] zs = last_n n (remdups zs)"
    using assms(2)
  proof (induction zs rule: rev_induct)
    case Nil
    then show ?case by (simp add: last_n_def)
  next
    case (snoc x zs)
    have "set (last_n n (remdups zs)) \<subseteq> P" using snoc.prems set_drop_subset [of _ "remdups zs"] by (auto simp: last_n_def)
    then have "lc_insert kf n x (last_n n (remdups zs)) = last_n n (removeAll x (remdups zs) @ [x])"
      using lc_insert_inj [OF assms(1), of "last_n n (remdups zs)" x n] last_n_insert [of "remdups zs" n x] snoc.prems assms(3) by simp
    then show ?case using snoc by (simp add: remdups_snoc)
  qed
qed

subsection \<open>Properties\<close>

text \<open>C12: a cache made by the constructor with a limit from 1 to 31, and any commands on it over a pool of loose objects
  with keys below \<open>2 ^ 32\<close>, behave as the abstract cache: each insertion, lookup by a key below \<open>2 ^ 32\<close> (with what
  the subclass loads on a miss, an object of the pool with that key), removal and clear returns what it returns there and
  the cache then holds its entries in its order; removing an object that is not in the cache stops at an
  assertion. From 32 entries on a lookup may rehash the table, and lookups miss.\<close>

theorem lru_refines_cache:
  assumes "fresh_alloc alloc" and "lru_pool P s l" and "0 < n" and "n < 32"
    and run: "lru_ctor alloc l n s = Ret T s1" and "free_seed s1 loc"
    and "loads f lm" and "loader_of P (okey s) f" and v: "\<forall>c \<in> set cs. lru_valid P c"
  shows "case spec_run (lc_exec (okey s) (nat n) f) cs [] of
      Some (rs, xs) \<Rightarrow> \<exists>T' s'. m_run (lru_exec alloc loc lm) cs T s1 = Ret (rs, T') s' \<and> lru_rep P loc s' T' xs
    | None \<Rightarrow> m_run (lru_exec alloc loc lm) cs T s1 = Abort Assert_fail"
proof -
  have I: "lru_inv P loc (okey s) n f lm s1 T []"
    using lru_ctor_run [OF assms(1-4)] assms(6-8) run by (auto simp: lru_inv_def)
  show ?thesis
  proof (cases "spec_run (lc_exec (okey s) (nat n) f) cs []")
    case None
    then show ?thesis using lruc.run_none [OF I v] by simp
  next
    case (Some q)
    then have "spec_run (lc_exec (okey s) (nat n) f) cs [] = Some (fst q, snd q)" by simp
    from lruc.run_some [OF I v this, of alloc] show ?thesis by (auto simp: Some lru_inv_def)
  qed
qed

definition demo_lru_mem :: obj_mem where
  "demo_lru_mem = \<lparr>dl_next = (\<lambda>p. if p \<in> {20, 108, 208, 308, 140, 240, 340} then Some p else None),
     dl_prev = (\<lambda>p. if p \<in> {20, 108, 208, 308, 140, 240, 340} then Some p else None),
     ol_ptr = (\<lambda>p. if p \<in> {108, 208, 308, 140, 240, 340} then Some 0 else None),
     o_key64 = [100 \<mapsto> 5, 200 \<mapsto> 6, 300 \<mapsto> 7], o_keystr = Map.empty, o_chr = Map.empty\<rparr>"

lemma demo_lru_dom: "dom (dl_next demo_lru_mem) = {20, 108, 208, 308, 140, 240, 340}"
  by (auto simp: demo_lru_mem_def split: if_splits)

lemma demo_lru_pool: "lru_pool {100, 200, 300} demo_lru_mem 20"
  unfolding lru_pool_def demo_lru_dom
  by (simp add: demo_lru_mem_def is_dlink_def dlist_rep_def m_chain_def m_lru_def small_key_def domIff)

definition demo_load :: "64 word \<Rightarrow> addr" where
  "demo_load k = (if k = 7 then 300 else 0)"

definition demo_missed :: "lru_tab \<Rightarrow> 64 word \<Rightarrow> (obj_mem, addr \<times> lru_tab) cprog" where
  "demo_missed T k = ret (demo_load k, T)"


lemma demo_lru_top: "top_alloc demo_lru_mem n = (341, 0)"
  by (simp add: top_alloc_def demo_lru_dom)

lemma demo_lru_made:
  obtains T s1 where "lru_ctor top_alloc 20 2 demo_lru_mem = Ret T s1" and "free_seed s1 50"
proof -
  have at: "dl_next demo_lru_mem 20 = Some 20" "dl_prev demo_lru_mem 20 = Some 20" by (simp_all add: demo_lru_mem_def)
  have a: "arr 341 2 = {341, 342}" by (auto simp: arr_def)
  have u: "[0..<2] = [0, Suc 0]" by (simp add: upt_conv_Cons)
  show thesis
    by (rule that)
      (simp add: lru_ctor_def dho_ctor_def dl_ctor_def dhash_init_def malloc_dlists_def demo_lru_top a u at dlist_init_def c_eval Let_def,
       simp add: free_seed_def demo_lru_mem_def m_chain_def)
qed

theorem lru_refines_cache_witness:
  "\<exists>T s1 T' s'. lru_ctor top_alloc 20 2 demo_lru_mem = Ret T s1
    \<and> m_run (lru_exec top_alloc 50 demo_missed) [L_insert 100, L_insert 200, L_insert 100, L_lookup 7, L_lookup 6, L_lookup 5, L_remove 300] T s1
        = Ret ([R_flag True, R_flag True, R_flag True, R_obj 300, R_obj 0, R_obj 100, R_flag True], T') s'
    \<and> lru_rep {100, 200, 300} 50 s' T' [100]"
proof -
  let ?cs = "[L_insert 100, L_insert 200, L_insert 100, L_lookup 7, L_lookup 6, L_lookup 5, L_remove 300]"
  obtain T s1 where s1: "lru_ctor top_alloc 20 2 demo_lru_mem = Ret T s1" "free_seed s1 50" using demo_lru_made .
  have ld: "loads demo_load demo_missed" "loader_of {100, 200, 300} (okey demo_lru_mem) demo_load"
    by (simp_all add: loads_def loader_of_def demo_missed_def demo_load_def okey_def demo_lru_mem_def c_eval)
  have v: "\<forall>c \<in> set ?cs. lru_valid {100, 200, 300} c" by (simp add: small_key_def)
  have "spec_run (lc_exec (okey demo_lru_mem) (nat 2) demo_load) ?cs [] =
      Some ([R_flag True, R_flag True, R_flag True, R_obj 300, R_obj 0, R_obj 100, R_flag True], [100])"
    by (simp add: lc_insert_def lc_lookup_def lc_find_def demo_load_def okey_def demo_lru_mem_def)
  then show ?thesis
    using lru_refines_cache [OF fresh_top_alloc demo_lru_pool _ _ s1 ld v] s1(1) by auto
qed

text \<open>C13: inserting objects of a pool with different keys below \<open>2 ^ 32\<close>, in any order and as often as one likes, into an
  empty cache with a limit from 1 to 31 leaves exactly the most recently inserted ones in it, as many as the limit, in
  the order of their last insertion.\<close>

theorem lru_keeps_recent:
  assumes R: "lru_rep P loc s T []" and "inj_on (okey s) P" and "set zs \<subseteq> P"
  shows "\<exists>T' s'. m_run (lru_exec alloc loc lm) (map L_insert zs) T s = Ret (replicate (length zs) (R_flag True), T') s'
    \<and> lru_rep P loc s' T' (last_n (nat (m_max_elm T)) (remdups zs))"
proof -
  define lm0 :: "lru_tab \<Rightarrow> 64 word \<Rightarrow> (obj_mem, addr \<times> lru_tab) cprog" where "lm0 = (\<lambda>T k. ret (NULL, T))"
  have I: "lru_inv P loc (okey s) (m_max_elm T) (\<lambda>_. NULL) lm0 s T []"
    using R by (simp add: lru_inv_def loads_def loader_of_def lm0_def c_eval)
  have n: "0 < nat (m_max_elm T)" using R by (simp add: lru_rep_def)
  have "m_run (lru_exec alloc loc lm) (map L_insert zs) T s = m_run (lru_exec alloc loc lm0) (map L_insert zs) T s"
    by (induction zs arbitrary: T s) (simp_all add: c_eval split: option.splits outcome.splits)
  moreover have "\<forall>c \<in> set (map L_insert zs). lru_valid P c" using assms(3) by auto
  ultimately show ?thesis
    using lruc.run_some [OF I _ lc_insert_all(1) [OF assms(2,3) n], of alloc] lc_insert_all(2) [OF assms(2,3) n]
    by (auto simp: lru_inv_def)
qed

theorem lru_keeps_recent_witness:
  "\<exists>T s1 T' s'. lru_ctor top_alloc 20 2 demo_lru_mem = Ret T s1
    \<and> m_run (lru_exec top_alloc 50 demo_missed) (map L_insert [100, 200, 300, 100]) T s1 = Ret (replicate 4 (R_flag True), T') s'
    \<and> lru_rep {100, 200, 300} 50 s' T' [300, 100]"
proof -
  obtain T s1 where s1: "lru_ctor top_alloc 20 2 demo_lru_mem = Ret T s1" "free_seed s1 50" using demo_lru_made .
  from lru_ctor_run [OF fresh_top_alloc demo_lru_pool, of 2] s1
  have R: "lru_rep {100, 200, 300} 50 s1 T []" "m_max_elm T = 2" "okey s1 = okey demo_lru_mem" by auto
  have "inj_on (okey s1) {100, 200, 300}" by (simp add: R(3) okey_def demo_lru_mem_def inj_on_def)
  from lru_keeps_recent [OF R(1) this, of "[100, 200, 300, 100]" top_alloc demo_missed] s1(1)
  show ?thesis by (simp add: R(2) last_n_def numeral_eq_Suc)
qed


text \<open>A lookup that loads the object it misses counts two misses.\<close>

theorem lru_miss_counted_twice:
  assumes "lru_rep P loc s T xs" and "small_key k" and "loads f lm" and "loader_of P (okey s) f" and "k \<notin> okey s ` set xs" and "f k \<noteq> NULL"
  shows "\<exists>T' s'. lru_lookup64 alloc loc lm T k s = Ret (f k, T') s' \<and> m_miss_cnt T' = m_miss_cnt T + 2 \<and> m_hit_cnt T' = m_hit_cnt T"
  using lru_lookup_run [OF assms(1-4), of alloc] assms(5,6) lc_find_None [of "okey s" k xs] by (auto simp: lc_lookup_def lru_counts_def)

end
