(* ===== verification/SlistObj.thy ===== *)
theory SlistObj
  imports StrHash
begin

text \<open>
  Objects in singly linked containers: \<open>OSlink\<close> (include/cpptype/object.h), the list
  \<open>SListObj\<close> (include/cpptype/list-obj.h, common/cpptype/list-obj.cpp) and the table
  \<open>SHashObj\<close> (include/cpptype/hash-obj.h, common/cpptype/hash-obj.cpp). As in ObjLinks an object is
  the address of it, and what its virtual methods return is kept by address; the links are
  given by the caller.
\<close>

subsection \<open>Links\<close>

record sobj_mem = slist_mem +
  os_ptr :: "addr \<rightharpoonup> addr"
  so_key64 :: "addr \<rightharpoonup> 64 word"
  so_keystr :: "addr \<rightharpoonup> addr"
  so_chr :: "addr \<rightharpoonup> 8 word"

definition oslink_init :: "addr \<Rightarrow> addr \<Rightarrow> (sobj_mem, unit) cprog" where
  "oslink_init link p s = Ret () (s\<lparr>sl_next := (sl_next s)(link \<mapsto> NULL), os_ptr := (os_ptr s)(link \<mapsto> p)\<rparr>)"

definition oslink_dtor :: "addr \<Rightarrow> (sobj_mem, unit) cprog" where
  "oslink_dtor link =
     bindM (slink_empty link) (\<lambda>b. seqM (assertM b)
     (\<lambda>s. Ret () (s\<lparr>sl_next := (sl_next s)(link := None), os_ptr := (os_ptr s)(link := None)\<rparr>)))"

definition os_obj_ptr :: "addr \<Rightarrow> (sobj_mem, addr) cprog" where
  "os_obj_ptr link = rd os_ptr link"

definition os_detach :: "addr \<Rightarrow> (sobj_mem, addr) cprog" where
  "os_detach link =
     (if link \<noteq> NULL
      then bindM (rd os_ptr link) (\<lambda>r.
           seqM (wr os_ptr os_ptr_update link NULL)
          (seqM (assertM (r \<noteq> NULL)) (ret r)))
      else ret NULL)"

definition os_rm_front :: "addr \<Rightarrow> (sobj_mem, addr) cprog" where
  "os_rm_front head = bindM (slink_rm_front head) (\<lambda>link. os_detach link)"

definition os_add_front :: "addr \<Rightarrow> addr \<Rightarrow> addr \<Rightarrow> (sobj_mem, unit) cprog" where
  "os_add_front link obj head =
     bindM (rd os_ptr link) (\<lambda>p. seqM (assertM (p = NULL \<and> obj \<noteq> NULL))
    (seqM (slink_add_front head link)
     (wr os_ptr os_ptr_update link obj)))"

text \<open>\<open>slink_empty (&ol_link) && (ol_ptr == p)\<close>, with its short circuit.\<close>

definition os_empty_with :: "addr \<Rightarrow> addr \<Rightarrow> (sobj_mem, bool) cprog" where
  "os_empty_with link p = bindM (slink_empty link) (\<lambda>b. if b then bindM (rd os_ptr link) (\<lambda>q. ret (q = p)) else ret False)"

definition os_ref :: "addr \<Rightarrow> addr \<Rightarrow> (sobj_mem, unit) cprog" where
  "os_ref link p = bindM (os_empty_with link NULL) (\<lambda>b. seqM (assertM b) (wr os_ptr os_ptr_update link p))"

definition os_deref :: "addr \<Rightarrow> addr \<Rightarrow> (sobj_mem, unit) cprog" where
  "os_deref link p = bindM (os_empty_with link p) (\<lambda>b. seqM (assertM b) (wr os_ptr os_ptr_update link NULL))"

subsection \<open>Keys of objects\<close>

definition so_compare64 :: "addr \<Rightarrow> 64 word \<Rightarrow> (sobj_mem, int) cprog" where
  "so_compare64 obj key = bindM (rd so_key64 obj) (\<lambda>k. ret (to_int (k - key)))"

definition so_compare_str :: "addr \<Rightarrow> addr \<Rightarrow> (sobj_mem, int) cprog" where
  "so_compare_str obj key = bindM (rd so_keystr obj) (\<lambda>k. c_strcmp so_chr k key)"

definition so_key_slink :: "addr \<Rightarrow> (sobj_mem, 64 word) cprog" where
  "so_key_slink link = bindM (os_obj_ptr link) (\<lambda>p. rd so_key64 p)"

definition so_hash_slink :: "int \<Rightarrow> addr \<Rightarrow> (sobj_mem, int) cprog" where
  "so_hash_slink nsize link = bindM (so_key_slink link) (\<lambda>k.
     if (word_of_int nsize :: 64 word) = 0 then abortM Div_zero else ret (to_int (k mod word_of_int nsize)))"

definition so_compare_slink :: "addr \<Rightarrow> addr \<Rightarrow> (sobj_mem, int) cprog" where
  "so_compare_slink obj link = bindM (so_key_slink link) (\<lambda>k. so_compare64 obj k)"

subsection \<open>Search keys\<close>

text \<open>The link \<open>m_link\<close> of an \<open>ObjKeyFind\<close> on the stack at \<open>loc\<close>; its link \<open>m_chain\<close> is not used here.\<close>

definition m_link :: "addr \<Rightarrow> addr" where
  "m_link loc = loc + 40"

definition push_sseed64 :: "addr \<Rightarrow> 64 word \<Rightarrow> (sobj_mem, unit) cprog" where
  "push_sseed64 loc key = seqM (oslink_init (m_link loc) loc) (\<lambda>s. Ret () (s\<lparr>so_key64 := (so_key64 s)(loc \<mapsto> key)\<rparr>))"

definition push_sseed_str :: "addr \<Rightarrow> addr \<Rightarrow> (sobj_mem, unit) cprog" where
  "push_sseed_str loc key = seqM (oslink_init (m_link loc) loc) (\<lambda>s. Ret () (s\<lparr>so_keystr := (so_keystr s)(loc \<mapsto> key)\<rparr>))"

definition pop_sseed :: "addr \<Rightarrow> (sobj_mem, unit) cprog" where
  "pop_sseed loc = seqM (os_deref (m_link loc) loc)
     (seqM (oslink_dtor (m_link loc))
     (\<lambda>s. Ret () (s\<lparr>so_key64 := (so_key64 s)(loc := None), so_keystr := (so_keystr s)(loc := None)\<rparr>)))"

subsection \<open>The list of objects\<close>

definition slo_ctor :: "addr \<Rightarrow> (sobj_mem, unit) cprog" where
  "slo_ctor l = slist_init l"

definition slo_cmp_key64 :: "addr \<Rightarrow> addr \<Rightarrow> (sobj_mem, int) cprog" where
  "slo_cmp_key64 e1 e2 = bindM (os_obj_ptr e1) (\<lambda>o1. bindM (os_obj_ptr e2) (\<lambda>o2.
     bindM (rd so_key64 o2) (\<lambda>k. so_compare64 o1 k)))"

definition slo_cmp_keystr :: "addr \<Rightarrow> addr \<Rightarrow> (sobj_mem, int) cprog" where
  "slo_cmp_keystr e1 e2 = bindM (os_obj_ptr e1) (\<lambda>o1. bindM (os_obj_ptr e2) (\<lambda>o2.
     bindM (rd so_keystr o2) (\<lambda>k. so_compare_str o1 k)))"

definition slo_cmp_chain :: "addr \<Rightarrow> addr \<Rightarrow> (sobj_mem, int) cprog" where
  "slo_cmp_chain e1 e2 = bindM (os_obj_ptr e1) (\<lambda>o1. bindM (os_obj_ptr e2) (\<lambda>o2.
     bindM (rd so_key64 o2) (\<lambda>k. so_compare64 o1 k)))"

text \<open>\<open>assert ((obj != nullptr) && (p->ol_ptr == nullptr))\<close>\<close>

definition assert_unset :: "addr \<Rightarrow> addr \<Rightarrow> (sobj_mem, unit) cprog" where
  "assert_unset obj p = (if obj \<noteq> NULL then bindM (rd os_ptr p) (\<lambda>q. assertM (q = NULL)) else assertM False)"

definition slo_add_sorted :: "addr \<Rightarrow> addr \<Rightarrow> addr \<Rightarrow> (sobj_mem, unit) cprog" where
  "slo_add_sorted l obj p = seqM (assert_unset obj p) (seqM (slist_insert_sorted l p slo_cmp_chain) (wr os_ptr os_ptr_update p obj))"

definition slo_add_sorted_key64 :: "addr \<Rightarrow> addr \<Rightarrow> addr \<Rightarrow> (sobj_mem, unit) cprog" where
  "slo_add_sorted_key64 l obj p = seqM (assert_unset obj p) (seqM (slist_insert_sorted l p slo_cmp_key64) (wr os_ptr os_ptr_update p obj))"

definition slo_add_sorted_keystr :: "addr \<Rightarrow> addr \<Rightarrow> addr \<Rightarrow> (sobj_mem, unit) cprog" where
  "slo_add_sorted_keystr l obj p = seqM (assert_unset obj p) (seqM (slist_insert_sorted l p slo_cmp_keystr) (wr os_ptr os_ptr_update p obj))"

definition slo_found :: "addr \<Rightarrow> bool \<Rightarrow> (sobj_mem, addr) cprog" where
  "slo_found link rm = (if link \<noteq> NULL then (if rm then os_detach link else os_obj_ptr link) else ret NULL)"

definition slo_find_key64 :: "addr \<Rightarrow> addr \<Rightarrow> 64 word \<Rightarrow> bool \<Rightarrow> (sobj_mem, addr) cprog" where
  "slo_find_key64 loc l key rm =
     seqM (push_sseed64 loc key)
    (bindM (slist_find l (m_link loc) slo_cmp_key64 rm) (\<lambda>link.
     bindM (slo_found link rm) (\<lambda>r. seqM (pop_sseed loc) (ret r))))"

definition slo_find_keystr :: "addr \<Rightarrow> addr \<Rightarrow> addr \<Rightarrow> bool \<Rightarrow> (sobj_mem, addr) cprog" where
  "slo_find_keystr loc l key rm =
     seqM (push_sseed_str loc key)
    (bindM (slist_find l (m_link loc) slo_cmp_keystr rm) (\<lambda>link.
     bindM (slo_found link rm) (\<lambda>r. seqM (pop_sseed loc) (ret r))))"

definition slo_find_chain :: "addr \<Rightarrow> addr \<Rightarrow> bool \<Rightarrow> (sobj_mem, addr) cprog" where
  "slo_find_chain l p rm =
     bindM (rd os_ptr p) (\<lambda>q. seqM (assertM (q \<noteq> NULL))
    (bindM (slist_find l p slo_cmp_chain rm) (\<lambda>link. slo_found link rm)))"

definition slo_empty :: "addr \<Rightarrow> (sobj_mem, bool) cprog" where
  "slo_empty l = slist_empty l"

definition slo_add_front :: "addr \<Rightarrow> addr \<Rightarrow> addr \<Rightarrow> (sobj_mem, unit) cprog" where
  "slo_add_front l obj p = seqM (assert_unset obj p) (seqM (slist_insert_front l p) (wr os_ptr os_ptr_update p obj))"

definition slo_add_back :: "addr \<Rightarrow> addr \<Rightarrow> addr \<Rightarrow> (sobj_mem, unit) cprog" where
  "slo_add_back l obj p = seqM (assert_unset obj p) (seqM (slist_insert_back l p) (wr os_ptr os_ptr_update p obj))"

definition slo_rm_front :: "addr \<Rightarrow> (sobj_mem, addr) cprog" where
  "slo_rm_front l = bindM (slist_rm_front l) (\<lambda>link. os_detach link)"

definition slo_peek_front :: "addr \<Rightarrow> (sobj_mem, addr) cprog" where
  "slo_peek_front l = bindM (slist_peek_front l) (\<lambda>link. os_obj_ptr link)"

definition slo_split :: "addr \<Rightarrow> addr \<Rightarrow> addr \<Rightarrow> addr \<Rightarrow> (sobj_mem, unit) cprog" where
  "slo_split l obj p res = bindM (rd os_ptr p) (\<lambda>q. seqM (assertM (q = obj)) (slist_split l p res))"

definition slo_merge :: "addr \<Rightarrow> addr \<Rightarrow> (sobj_mem, unit) cprog" where
  "slo_merge l mrg = slist_merge l mrg"

definition slo_filter_out :: "addr \<Rightarrow> addr \<Rightarrow> (addr \<Rightarrow> (sobj_mem, bool) cprog) \<Rightarrow> (sobj_mem, int) cprog" where
  "slo_filter_out l out fn = slist_filter_out l out fn"

text \<open>The iterator \<open>SObjIter\<close>: its constructor ignores the list, \<open>begin\<close> and \<open>end\<close> are
  constructed alike, and \<open>operator ++\<close> changes nothing.\<close>

definition sobj_iter :: "addr \<Rightarrow> (sobj_mem, slink_iter) cprog" where
  "sobj_iter l = slink_iter_init NULL"

definition sobj_iter_deref :: "slink_iter \<Rightarrow> (sobj_mem, addr) cprog" where
  "sobj_iter_deref iter = os_obj_ptr (slink_iter_curr iter)"

definition sobj_iter_eq :: "slink_iter \<Rightarrow> slink_iter \<Rightarrow> bool" where
  "sobj_iter_eq iter rhs = (if sl_curr iter \<noteq> sl_curr rhs then True else False)"

definition sobj_iter_ne :: "slink_iter \<Rightarrow> slink_iter \<Rightarrow> bool" where
  "sobj_iter_ne iter rhs = (\<not> sobj_iter_eq iter rhs)"

definition sobj_iter_incr :: "slink_iter \<Rightarrow> slink_iter" where
  "sobj_iter_incr iter = iter"

end
