(* ===== verification/ShashObj.thy ===== *)
theory ShashObj
  imports SlistObj ShashClear
begin

text \<open>
  The table of objects over singly linked buckets (\<open>SHashObj\<close> of include/cpptype/hash-obj.h and
  common/cpptype/hash-obj.cpp): an object is entered and found by the key of the object that a
  link refers to.
\<close>

type_synonym sobj_tab = "sobj_mem shash"

definition sh_hash_chain :: "int \<Rightarrow> addr \<Rightarrow> (sobj_mem, int) cprog" where
  "sh_hash_chain nsize elm = bindM (os_obj_ptr elm) (\<lambda>obj. seqM (assertM (obj \<noteq> NULL)) (so_hash_slink nsize elm))"

definition sh_hash_cmp_chain :: "addr \<Rightarrow> addr \<Rightarrow> (sobj_mem, int) cprog" where
  "sh_hash_cmp_chain e1 e2 = bindM (os_obj_ptr e1) (\<lambda>obj. seqM (assertM (obj \<noteq> NULL \<and> e2 \<noteq> NULL)) (so_compare_slink obj e2))"

definition sho_ctor :: "sobj_mem slink_alloc \<Rightarrow> int \<Rightarrow> (sobj_mem, sobj_tab) cprog" where
  "sho_ctor alloc nsize = shash_init alloc nsize (Some sh_hash_chain) (Some sh_hash_cmp_chain)"

definition sho_dtor :: "sobj_tab \<Rightarrow> (sobj_mem, unit) cprog" where
  "sho_dtor tab = shash_free tab None (sh_bk_size tab)"

definition sho_insert_chain :: "sobj_tab \<Rightarrow> addr \<Rightarrow> addr \<Rightarrow> (sobj_mem, int \<times> sobj_tab) cprog" where
  "sho_insert_chain tab obj p =
     seqM (assertM (obj \<noteq> NULL \<and> p \<noteq> NULL)) (seqM (os_ref p obj) (shash_insert tab p))"

definition sho_remove_chain :: "sobj_tab \<Rightarrow> addr \<Rightarrow> addr \<Rightarrow> (sobj_mem, sobj_tab) cprog" where
  "sho_remove_chain tab obj p = bindM (shash_takeout_elm tab p) (\<lambda>tab'. seqM (os_deref p obj) (ret tab'))"

definition sho_lookup :: "sobj_tab \<Rightarrow> addr \<Rightarrow> (sobj_mem, addr) cprog" where
  "sho_lookup tab p = bindM (shash_find tab p) (\<lambda>res. if res \<noteq> NULL then os_obj_ptr res else ret NULL)"

subsection \<open>The iterator\<close>

text \<open>Equality with the end of the table: both members of the iterator are null.\<close>

definition sho_at_end :: "shash_iter \<Rightarrow> bool" where
  "sho_at_end iter \<longleftrightarrow> sh_curr iter = NULL \<and> sl_curr (sh_iter iter) = NULL"

definition sho_iter_value :: "shash_iter \<Rightarrow> (sobj_mem, addr) cprog" where
  "sho_iter_value iter = (if sl_curr (sh_iter iter) \<noteq> NULL then os_obj_ptr (sl_curr (sh_iter iter)) else ret NULL)"

definition sho_iter_key :: "shash_iter \<Rightarrow> (sobj_mem, addr) cprog" where
  "sho_iter_key iter = bindM (sho_iter_value iter) (\<lambda>v. if v \<noteq> NULL then rd so_keystr v else ret NULL)"

definition sho_iter_takeout :: "sobj_tab \<Rightarrow> shash_iter \<Rightarrow> (sobj_mem, addr \<times> shash_iter) cprog" where
  "sho_iter_takeout tab iter =
     bindM (shash_iter_rm_curr tab iter) (\<lambda>r.
     if fst r \<noteq> NULL then bindM (os_detach (fst r)) (\<lambda>obj. ret (obj, snd r)) else ret (NULL, snd r))"

partial_function (option) sho_clear_loop :: "sobj_tab \<Rightarrow> shash_iter \<Rightarrow> (sobj_mem, unit) cprog" where
  "sho_clear_loop tab iter s =
     (if sho_at_end iter then ret ()
      else bindM (sho_iter_takeout tab iter) (\<lambda>r.
           bindM (shash_iter_next tab (snd r)) (\<lambda>iter'. sho_clear_loop tab iter'))) s"

definition sho_clear :: "shash_iter \<Rightarrow> sobj_tab \<Rightarrow> (sobj_mem, unit) cprog" where
  "sho_clear junk tab = bindM (shash_iter_init (Some tab) junk) (\<lambda>iter. sho_clear_loop tab iter)"


subsection \<open>The table in memory\<close>

text \<open>What insertion and removal do to the links outside the table.\<close>

lemma shash_insert_frame:
  assumes "shash_insert t e s = Ret r s'" and "q \<noteq> e" and "q \<notin> links (sh_bucket t) (nat (sh_bk_size t))"
    and "hash_like h key s t e"
  shows "sl_next s' q = sl_next s q"
proof -
  let ?i = "h (nat (sh_bk_size t)) (key e)"
  have "?i < nat (sh_bk_size t)"
    using assms(1,4) by (auto simp: shash_insert_def shash_insert_elm_def hash_like_def c_eval split: if_splits option.splits outcome.splits)
  then have "q \<noteq> sh_bucket t + ?i" using assms(3) by (auto simp: links_def)
  then show ?thesis
    using assms(1,2,4) by (auto simp: shash_insert_def shash_insert_elm_def hash_like_def slink_defs c_eval
        split: if_splits option.splits outcome.splits)
qed

lemma find_first: "\<forall>u \<in> set us. \<not> P u \<Longrightarrow> P y \<Longrightarrow> find P (us @ y # vs) = Some y"
  by (induction us) auto

lemma shash_rm_frame:
  assumes m: "shash_maps h key s (shash_pure h key t) m" and hl: "hash_like h key s t p" and cl: "cmp_like key s t (ran m) p"
    and x: "m (key p) = Some x" and r: "shash_rm t p s = Ret r s'"
  shows "sl_next s' x = Some NULL" and "q \<notin> tab_cells t m \<Longrightarrow> sl_next s' q = sl_next s q"
proof -
  obtain bs where R: "shash_rep h key s (shash_pure h key t) bs" "distinct (map key (concat bs))" "m = key_map key (concat bs)"
    using m by (auto simp: shash_maps_def)
  let ?i = "h (length bs) (key p)" and ?b = "sh_bucket t + h (length bs) (key p)"
  have n: "sh_bk_size t = int (length bs)" and H: "hashed h key bs" "good_hash h" "bs \<noteq> []" using R(1) by (auto simp: shash_rep_def)
  have i: "?i < length bs" and ch: "chain (sl_next s) ?b (bs ! ?i)" using shash_bucket [OF R(1)] by simp_all
  have f: "find (\<lambda>y. key y = key p) (bs ! ?i) = Some x" using bucket_of_key [OF H R(2)] x R(3) by simp
  then have "\<exists>y \<in> set (bs ! ?i). key y = key p" using find_None_iff [of "\<lambda>y. key y = key p" "bs ! ?i"] by auto
  then obtain us y vs where us: "bs ! ?i = us @ y # vs" "key y = key p" "\<forall>y \<in> set us. key y \<noteq> key p"
    using split_list_first_prop [of "bs ! ?i" "\<lambda>y. key y = key p"] by blast
  then have "y = x" using f find_first [of us "\<lambda>y. key y = key p" y vs] by simp
  with us have xs: "bs ! ?i = us @ x # vs" "key x = key p" "\<forall>y \<in> set us. key y \<noteq> key p" by simp_all
  have sub: "set (bs ! ?i) \<subseteq> ran m"
  proof
    fix y assume "y \<in> set (bs ! ?i)"
    then have "y \<in> set (concat bs)" using i nth_mem by auto
    then have "m (key y) = Some y" using key_map_Some [OF R(2)] R(3) by simp
    then show "y \<in> ran m" by (rule ranI)
  qed
  obtain g where g: "pure_on (ran m) (\<lambda>x. call_cmp (sh_cmp_fn t) x p) g s" "\<forall>x \<in> ran m. g x = 0 \<longleftrightarrow> key x = key p"
    using cmp_like_pure [OF cl] .
  have "slink_find ?b p (call_cmp (sh_cmp_fn t)) True s =
      Ret (x, Some (final us)) (s\<lparr>sl_next := (sl_next s)(tip ?b us \<mapsto> first vs, x \<mapsto> NULL)\<rparr>)"
    using slink_find_some [of s ?b us x vs "call_cmp (sh_cmp_fn t)" p g True] ch xs g sub pure_on_subset [OF g(1), of "set (us @ [x])"] by auto
  then have s': "s' = s\<lparr>sl_next := (sl_next s)(tip ?b us \<mapsto> first vs, x \<mapsto> NULL)\<rparr>"
    using r hl i n by (auto simp: shash_rm_def shash_rm_elm_def hash_like_def c_eval split: if_splits)
  then show "sl_next s' x = Some NULL" by simp
  have "tip ?b us \<in> insert ?b (set us)" by (cases us rule: rev_cases) simp_all
  moreover have "?b \<in> links (sh_bucket t) (nat (sh_bk_size t))" using i n by (simp add: links_def)
  moreover have "set us \<subseteq> ran m" "x \<in> ran m" using sub xs(1) by auto
  ultimately show "sl_next s' q = sl_next s q" if "q \<notin> tab_cells t m" using that s' by (auto simp: tab_cells_def)
qed

lemma shash_takeout_of_rm:
  "shash_rm t p s = Ret (p, t') s' \<Longrightarrow> p \<noteq> NULL \<Longrightarrow> shash_takeout_elm t p s = Ret t' s'"
  by (auto simp: shash_rm_def shash_rm_elm_def shash_takeout_elm_def c_eval split: if_splits option.splits outcome.splits)

end
