(* ===== verification/ShashObjProps.thy ===== *)
theory ShashObjProps
  imports ShashObj CMachine
begin

text \<open>
  The table \<open>SHashObj\<close> as a machine over a set of links, and the defects of the containers of
  objects over singly linked lists.
\<close>

subsection \<open>Representation\<close>

text \<open>\<open>L\<close>: the links that may be in the table, each of an object \<open>ow p\<close> of key \<open>kf (ow p)\<close>;
  \<open>Q\<close>: other links, of objects one may look up; \<open>X\<close>: the links in the table.\<close>

definition sho_links :: "addr set \<Rightarrow> addr set \<Rightarrow> (addr \<Rightarrow> addr) \<Rightarrow> (addr \<Rightarrow> 64 word) \<Rightarrow> sobj_mem \<Rightarrow> sobj_tab \<Rightarrow> addr list \<Rightarrow> bool" where
  "sho_links L Q ow kf s t X \<longleftrightarrow>
     (\<forall>p \<in> L. shash_cell s t p \<and> os_ptr s p = Some (if p \<in> set X then ow p else NULL) \<and> (p \<notin> set X \<longrightarrow> sl_next s p = Some NULL))
   \<and> (\<forall>q \<in> Q. q \<noteq> NULL \<and> os_ptr s q = Some (ow q))
   \<and> (\<forall>p \<in> L \<union> Q. ow p \<noteq> NULL \<and> so_key64 s (ow p) = Some (kf (ow p)) \<and> small_key (kf (ow p)))"

definition sho_inv :: "addr set \<Rightarrow> addr set \<Rightarrow> (addr \<Rightarrow> addr) \<Rightarrow> (addr \<Rightarrow> 64 word) \<Rightarrow> sobj_mem \<Rightarrow> sobj_tab \<Rightarrow> addr list \<Rightarrow> bool" where
  "sho_inv L Q ow kf s t X \<longleftrightarrow>
     shash_maps kv64_h (\<lambda>p. kf (ow p)) s (shash_pure kv64_h (\<lambda>p. kf (ow p)) t) (key_map (\<lambda>p. kf (ow p)) X)
   \<and> sh_hash_fn t = Some sh_hash_chain \<and> sh_cmp_fn t = Some sh_hash_cmp_chain \<and> sh_bk_size t < 2 ^ 31
   \<and> distinct X \<and> set X \<subseteq> L \<and> L \<inter> Q = {} \<and> inj_on (\<lambda>p. kf (ow p)) L \<and> sho_links L Q ow kf s t X"

lemma sho_distinct: "sho_inv L Q ow kf s t X \<Longrightarrow> distinct (map (\<lambda>p. kf (ow p)) X)"
  by (auto simp: sho_inv_def distinct_map intro: inj_on_subset)

lemma sho_ran: "sho_inv L Q ow kf s t X \<Longrightarrow> ran (key_map (\<lambda>p. kf (ow p)) X) = set X"
  using key_map_Some [OF sho_distinct] by (auto simp: ran_def)

text \<open>A link that refers to its object can be hashed and compared.\<close>

lemma sho_calls:
  assumes I: "sho_inv L Q ow kf s t X" and s': "so_key64 s' = so_key64 s" "\<forall>x \<in> set X. os_ptr s' x = os_ptr s x"
    and p: "p \<in> L \<union> Q" "os_ptr s' p = Some (ow p)"
  shows "hash_like kv64_h (\<lambda>p. kf (ow p)) s' t p" and "cmp_like (\<lambda>p. kf (ow p)) s' t (ran (key_map (\<lambda>p. kf (ow p)) X)) p"
proof -
  have K: "ow q \<noteq> NULL" "so_key64 s' (ow q) = Some (kf (ow q))" "small_key (kf (ow q))" if "q \<in> L \<union> Q" for q
    using I that s'(1) by (auto simp: sho_inv_def sho_links_def)
  have n: "0 < sh_bk_size t" "sh_bk_size t < 2 ^ 31" using I by (auto simp: sho_inv_def shash_maps_def shash_rep_def)
  have fn: "sh_hash_fn t = Some sh_hash_chain" "sh_cmp_fn t = Some sh_hash_cmp_chain" using I by (simp_all add: sho_inv_def)
  show "hash_like kv64_h (\<lambda>p. kf (ow p)) s' t p"
    using K [OF p(1)] p(2) fn(1) hash_word(1) [OF n] hash_word(2) [OF n, of "kf (ow p)"]
    by (simp add: hash_like_def call_hash_def sh_hash_chain_def os_obj_ptr_def so_hash_slink_def so_key_slink_def c_eval)
  have p0: "p \<noteq> NULL" using p(1) I by (auto simp: sho_inv_def sho_links_def shash_cell_def is_link_def)
  show "cmp_like (\<lambda>p. kf (ow p)) s' t (ran (key_map (\<lambda>p. kf (ow p)) X)) p"
    unfolding cmp_like_def sho_ran [OF I]
  proof
    fix x assume x: "x \<in> set X"
    then have xL: "x \<in> L" using I by (auto simp: sho_inv_def)
    then have "os_ptr s' x = Some (ow x)" using I x s'(2) by (simp add: sho_inv_def sho_links_def)
    then show "\<exists>c. call_cmp (sh_cmp_fn t) x p s' = Ret c s' \<and> (c = 0) = (kf (ow x) = kf (ow p))"
      using K [of x] K [OF p(1)] xL p(2) p0 fn(2) cmp_small [of "kf (ow x)" "kf (ow p)"]
      by (simp add: call_cmp_def sh_hash_cmp_chain_def os_obj_ptr_def so_compare_slink_def so_key_slink_def so_compare64_def c_eval)
  qed
qed

subsection \<open>Operations\<close>

lemma sho_find_run:
  assumes I: "sho_inv L Q ow kf s t X" and p: "p \<in> Q \<or> p \<in> set X"
  shows "sho_lookup t p s = Ret (case find (\<lambda>x. kf (ow x) = kf (ow p)) X of None \<Rightarrow> NULL | Some x \<Rightarrow> ow x) s"
proof -
  have "os_ptr s p = Some (ow p)" "p \<in> L \<union> Q" using I p by (auto simp: sho_inv_def sho_links_def)
  note C = sho_calls [OF I refl _ this(2,1)]
  have M: "shash_maps kv64_h (\<lambda>p. kf (ow p)) s (shash_pure kv64_h (\<lambda>p. kf (ow p)) t) (key_map (\<lambda>p. kf (ow p)) X)" using I by (simp add: sho_inv_def)
  have f: "shash_find t p s = Ret (or_NULL (key_map (\<lambda>p. kf (ow p)) X (kf (ow p)))) s"
    using shash_find_calls [OF M C(1) C(2)] by simp
  show ?thesis
  proof (cases "find (\<lambda>x. kf (ow x) = kf (ow p)) X")
    case None
    then have "key_map (\<lambda>p. kf (ow p)) X (kf (ow p)) = None" by (auto simp: find_None_iff key_map_None)
    then show ?thesis using f None by (simp add: sho_lookup_def c_eval)
  next
    case (Some x)
    then have x: "x \<in> set X" "kf (ow x) = kf (ow p)" by (auto simp: find_Some_iff)
    then have "key_map (\<lambda>p. kf (ow p)) X (kf (ow p)) = Some x" using key_map_Some [OF sho_distinct [OF I]] by simp
    moreover have "x \<noteq> NULL" "os_ptr s x = Some (ow x)"
      using I x by (auto simp: sho_inv_def sho_links_def shash_cell_def is_link_def)
    ultimately show ?thesis using f Some by (simp add: sho_lookup_def os_obj_ptr_def c_eval)
  qed
qed

lemma sho_unset:
  assumes "sho_inv L Q ow kf s t X" and "p \<in> L" and "p \<notin> set X"
  shows "sho_lookup t p s = Abort Assert_fail" and "sho_remove_chain t obj p s = Abort Assert_fail"
proof -
  have "sh_hash_chain n p s = Abort Assert_fail" for n
    using assms by (simp add: sho_inv_def sho_links_def sh_hash_chain_def os_obj_ptr_def c_eval)
  moreover have "sh_hash_fn t = Some sh_hash_chain" using assms(1) by (simp add: sho_inv_def)
  ultimately show "sho_lookup t p s = Abort Assert_fail" "sho_remove_chain t obj p s = Abort Assert_fail"
    by (simp_all add: sho_lookup_def shash_find_def sho_remove_chain_def shash_takeout_elm_def call_hash_def c_eval)
qed

lemma sho_insert_run:
  assumes I: "sho_inv L Q ow kf s t X" and p: "p \<in> L" "p \<notin> set X"
  shows "\<exists>i t' s'. sho_insert_chain t (ow p) p s = Ret (i, t') s' \<and> sho_inv L Q ow kf s' t' (X @ [p])"
proof -
  let ?key = "\<lambda>p. kf (ow p)"
  have P: "shash_cell s t p" "os_ptr s p = Some NULL" "sl_next s p = Some NULL" "p \<noteq> NULL" "ow p \<noteq> NULL"
    using I p by (auto simp: sho_inv_def sho_links_def shash_cell_def is_link_def)
  define s1 where "s1 = s\<lparr>os_ptr := (os_ptr s)(p \<mapsto> ow p)\<rparr>"
  have ref: "os_ref p (ow p) s = Ret () s1" using P by (simp add: os_ref_def os_empty_with_def slink_empty_def c_eval s1_def)
  have "\<forall>x \<in> set X. os_ptr s1 x = os_ptr s x" using p(2) by (auto simp: s1_def)
  note C = sho_calls [OF I _ this, of p]
  have hl: "hash_like kv64_h ?key s1 t p" using C(1) p(1) by (simp add: s1_def)
  have M: "shash_maps kv64_h ?key s1 (shash_pure kv64_h ?key t) (key_map ?key X)"
    using I shash_maps_frame [of kv64_h ?key s "shash_pure kv64_h ?key t" "key_map ?key X" s1] by (simp add: sho_inv_def s1_def)
  have fr: "?key p \<notin> ?key ` set X" using I p by (auto simp: sho_inv_def dest: inj_onD)
  then have nk: "key_map ?key X (?key p) = None" by (simp add: key_map_None)
  have cell: "shash_cell s1 t p" using P(1) by (simp add: shash_cell_def is_link_def s1_def)
  obtain i nx c where r: "shash_insert t p s1 = Ret (i, t\<lparr>sh_elm_cnt := c\<rparr>) (s1\<lparr>sl_next := nx\<rparr>)"
      "shash_maps kv64_h ?key (s1\<lparr>sl_next := nx\<rparr>) (shash_pure kv64_h ?key (t\<lparr>sh_elm_cnt := c\<rparr>)) ((key_map ?key X)(?key p \<mapsto> p))"
      "\<forall>q. shash_cell s1 t q \<longrightarrow> shash_cell (s1\<lparr>sl_next := nx\<rparr>) t q"
    using shash_insert_calls [where key = ?key, OF M hl cell nk] by blast
  let ?s = "s1\<lparr>sl_next := nx\<rparr>" and ?t = "t\<lparr>sh_elm_cnt := c\<rparr>"
  have km: "key_map ?key (X @ [p]) = (key_map ?key X)(?key p \<mapsto> p)" using key_map_add(1) [OF sho_distinct [OF I] fr, of "X @ [p]"] by simp
  have out: "sl_next ?s q = sl_next s q" if "q \<in> L" "q \<noteq> p" for q
    using shash_insert_frame [OF r(1) that(2) _ hl] I that by (auto simp: sho_inv_def sho_links_def shash_cell_def s1_def)
  have "sho_links L Q ow kf ?s ?t (X @ [p])"
  proof -
    have S: "sho_links L Q ow kf s t X" using I by (simp add: sho_inv_def)
    have cl: "shash_cell ?s ?t q" if "q \<in> L" for q
    proof -
      have "shash_cell s1 t q" using S that by (simp add: sho_links_def shash_cell_def is_link_def s1_def)
      then show ?thesis using r(3) by (simp add: shash_cell_def)
    qed
    have pQ: "p \<notin> Q" using I p(1) by (auto simp: sho_inv_def)
    show ?thesis using S cl out p pQ unfolding sho_links_def by (auto simp: s1_def)
  qed
  then have "sho_inv L Q ow kf ?s ?t (X @ [p])" using I r(2) p km by (simp add: sho_inv_def)
  moreover have "sho_insert_chain t (ow p) p s = Ret (i, ?t) ?s" using P ref r(1) by (simp add: sho_insert_chain_def c_eval)
  ultimately show ?thesis by blast
qed

lemma sho_insert_twice:
  assumes "sho_inv L Q ow kf s t X" and "p \<in> set X"
  shows "sho_insert_chain t (ow p) p s = Abort Assert_fail"
proof -
  have p: "p \<in> L" "os_ptr s p = Some (ow p)" "ow p \<noteq> NULL" "is_link s p"
    using assms by (auto simp: sho_inv_def sho_links_def shash_cell_def)
  then obtain n where "sl_next s p = Some n" by (auto simp: is_link_def)
  then show ?thesis using p by (simp add: sho_insert_chain_def os_ref_def os_empty_with_def slink_empty_def is_link_def c_eval)
qed

lemma sho_remove_run:
  assumes I: "sho_inv L Q ow kf s t X" and p: "p \<in> set X"
  shows "\<exists>t' s'. sho_remove_chain t (ow p) p s = Ret t' s' \<and> sho_inv L Q ow kf s' t' (removeAll p X)"
proof -
  let ?key = "\<lambda>p. kf (ow p)"
  have P: "p \<in> L" "os_ptr s p = Some (ow p)" "p \<noteq> NULL"
    using I p by (auto simp: sho_inv_def sho_links_def shash_cell_def is_link_def)
  note C = sho_calls [OF I refl _ _ P(2)]
  have hl: "hash_like kv64_h ?key s t p" and cl: "cmp_like ?key s t (ran (key_map ?key X)) p" using C P(1) by simp_all
  have M: "shash_maps kv64_h ?key s (shash_pure kv64_h ?key t) (key_map ?key X)" using I by (simp add: sho_inv_def)
  have k: "key_map ?key X (?key p) = Some p" using key_map_Some [OF sho_distinct [OF I]] p by simp
  obtain nx c where r: "shash_rm t p s = Ret (p, t\<lparr>sh_elm_cnt := c\<rparr>) (s\<lparr>sl_next := nx\<rparr>)"
      "shash_maps kv64_h ?key (s\<lparr>sl_next := nx\<rparr>) (shash_pure kv64_h ?key (t\<lparr>sh_elm_cnt := c\<rparr>)) ((key_map ?key X)(?key p := None))"
      "\<forall>q. shash_cell s t q \<longrightarrow> shash_cell (s\<lparr>sl_next := nx\<rparr>) t q"
    using shash_rm_calls [where key = ?key, OF M hl cl] k by auto
  define s1 where "s1 = s\<lparr>sl_next := nx\<rparr>"
  define s2 where "s2 = s1\<lparr>os_ptr := (os_ptr s1)(p \<mapsto> NULL)\<rparr>"
  let ?t = "t\<lparr>sh_elm_cnt := c\<rparr>" and ?X = "removeAll p X"
  have nxp: "nx p = Some NULL" using shash_rm_frame(1) [where key = ?key, OF M hl cl k r(1)] by simp
  have out: "nx q = sl_next s q" if "q \<in> L" "q \<notin> set X" for q
  proof -
    have "q \<notin> links (sh_bucket t) (nat (sh_bk_size t))" using I that by (simp add: sho_inv_def sho_links_def shash_cell_def)
    then have "q \<notin> tab_cells t (key_map ?key X)" using that(2) sho_ran [OF I] by (simp add: tab_cells_def)
    then show ?thesis using shash_rm_frame(2) [where key = ?key, OF M hl cl k r(1)] by simp
  qed
  have "os_deref p (ow p) s1 = Ret () s2" using nxp P(2) by (simp add: os_deref_def os_empty_with_def slink_empty_def c_eval s1_def s2_def)
  then have run: "sho_remove_chain t (ow p) p s = Ret ?t s2"
    using shash_takeout_of_rm [OF r(1) P(3)] by (simp add: sho_remove_chain_def c_eval s1_def)
  have dX: "distinct X" using I by (simp add: sho_inv_def)
  have "mset X = add_mset p (mset ?X)" using dX p by (simp add: distinct_remove1_removeAll [symmetric])
  then have km: "key_map ?key ?X = (key_map ?key X)(?key p := None)" using key_map_del(1) [OF sho_distinct [OF I]] by blast
  have M2: "shash_maps kv64_h ?key s2 (shash_pure kv64_h ?key ?t) (key_map ?key ?X)"
    using r(2) shash_maps_frame [of kv64_h ?key "s\<lparr>sl_next := nx\<rparr>" "shash_pure kv64_h ?key ?t" "key_map ?key ?X" s2] km
    by (simp add: s2_def s1_def)
  have "sho_links L Q ow kf s2 ?t ?X"
  proof -
    have S: "sho_links L Q ow kf s t X" using I by (simp add: sho_inv_def)
    have cl: "shash_cell s2 ?t q" if "q \<in> L" for q
    proof -
      have "shash_cell s t q" using S that by (simp add: sho_links_def)
      then have "shash_cell s1 t q" using r(3) by (simp add: s1_def)
      then show ?thesis by (simp add: shash_cell_def is_link_def s2_def)
    qed
    have pQ: "p \<notin> Q" using I P(1) by (auto simp: sho_inv_def)
    show ?thesis using S cl out nxp pQ unfolding sho_links_def by (auto simp: s2_def s1_def)
  qed
  then have "sho_inv L Q ow kf s2 ?t ?X" using I M2 dX by (auto simp: sho_inv_def distinct_removeAll)
  with run show ?thesis by blast
qed


subsection \<open>The table as a machine\<close>

datatype sho_cmd = SO_insert addr | SO_find addr | SO_remove addr

fun sho_exec :: "(addr \<Rightarrow> addr) \<Rightarrow> sho_cmd \<Rightarrow> sobj_tab \<Rightarrow> (sobj_mem, addr \<times> sobj_tab) cprog" where
  "sho_exec ow (SO_insert p) t = bindM (sho_insert_chain t (ow p) p) (\<lambda>r. ret (NULL, snd r))"
| "sho_exec ow (SO_find p) t = bindM (sho_lookup t p) (\<lambda>r. ret (r, t))"
| "sho_exec ow (SO_remove p) t = bindM (sho_remove_chain t (ow p) p) (\<lambda>t'. ret (NULL, t'))"

fun so_spec :: "addr set \<Rightarrow> (addr \<Rightarrow> addr) \<Rightarrow> (addr \<Rightarrow> 64 word) \<Rightarrow> sho_cmd \<Rightarrow> addr list \<Rightarrow> (addr \<times> addr list) option" where
  "so_spec Q ow kf (SO_insert p) X = (if p \<in> set X then None else Some (NULL, X @ [p]))"
| "so_spec Q ow kf (SO_find p) X =
     (if p \<in> Q \<or> p \<in> set X
      then Some (case find (\<lambda>x. kf (ow x) = kf (ow p)) X of None \<Rightarrow> NULL | Some x \<Rightarrow> ow x, X)
      else None)"
| "so_spec Q ow kf (SO_remove p) X = (if p \<in> set X then Some (NULL, removeAll p X) else None)"

fun sho_valid :: "addr set \<Rightarrow> addr set \<Rightarrow> sho_cmd \<Rightarrow> bool" where
  "sho_valid L Q (SO_insert p) \<longleftrightarrow> p \<in> L"
| "sho_valid L Q (SO_find p) \<longleftrightarrow> p \<in> L \<union> Q"
| "sho_valid L Q (SO_remove p) \<longleftrightarrow> p \<in> L"

lemma sho_step:
  assumes I: "sho_inv L Q ow kf s t X" and v: "sho_valid L Q c" and c: "so_spec Q ow kf c X = Some (r, Y)"
  shows "\<exists>t' s'. sho_exec ow c t s = Ret (r, t') s' \<and> sho_inv L Q ow kf s' t' Y"
proof (cases c)
  case (SO_insert p)
  then have "p \<in> L" "p \<notin> set X" using v c by (auto split: if_splits)
  from sho_insert_run [OF I this] show ?thesis using SO_insert c by (auto simp: c_eval split: if_splits)
next
  case (SO_find p)
  then have "p \<in> Q \<or> p \<in> set X" using c by (auto split: if_splits)
  from sho_find_run [OF I this] this show ?thesis using SO_find c I by (auto simp: c_eval)
next
  case (SO_remove p)
  then have "p \<in> set X" using c by (auto split: if_splits)
  from sho_remove_run [OF I this] this show ?thesis using SO_remove c by (auto simp: c_eval split: if_splits)
qed

lemma sho_stop:
  assumes I: "sho_inv L Q ow kf s t X" and v: "sho_valid L Q c" and c: "so_spec Q ow kf c X = None"
  shows "sho_exec ow c t s = Abort Assert_fail"
proof (cases c)
  case (SO_insert p)
  then show ?thesis using sho_insert_twice [OF I, of p] c by (simp add: c_eval split: if_splits)
next
  case (SO_find p)
  then show ?thesis using sho_unset(1) [OF I, of p] c v by (auto simp: c_eval split: if_splits)
next
  case (SO_remove p)
  then show ?thesis using sho_unset(2) [OF I, of p "ow p"] c v by (auto simp: c_eval split: if_splits)
qed

interpretation shoc: c_machine "sho_inv L Q ow kf" "sho_exec ow" "so_spec Q ow kf" "sho_valid L Q"
  by unfold_locales (rule sho_step, assumption+, rule sho_stop)

subsection \<open>Properties\<close>

text \<open>C33: insertions, lookups and removals on a table \<open>SHashObj\<close> through links of objects with different keys below
  \<open>2 ^ 32\<close> do what a set of links does: a lookup through any link of an object returns the object
  in the table of the same key; inserting a link twice, and removing or looking up through a
  link that refers to no object, stop at an assertion.\<close>

theorem sho_refines_set:
  assumes "sho_inv L Q ow kf s t X" and "\<forall>c \<in> set cs. sho_valid L Q c"
  shows "case spec_run (so_spec Q ow kf) cs X of
      Some (rs, Y) \<Rightarrow> \<exists>t' s'. m_run (sho_exec ow) cs t s = Ret (rs, t') s' \<and> sho_inv L Q ow kf s' t' Y
    | None \<Rightarrow> m_run (sho_exec ow) cs t s = Abort Assert_fail"
proof (cases "spec_run (so_spec Q ow kf) cs X")
  case None
  then show ?thesis using shoc.run_none [OF assms] by simp
next
  case (Some q)
  then have "spec_run (so_spec Q ow kf) cs X = Some (fst q, snd q)" by simp
  from shoc.run_some [OF assms this] show ?thesis using Some by (auto split: prod.splits)
qed

definition demo_sobj_mem :: sobj_mem where
  "demo_sobj_mem = \<lparr>sl_next = [10 \<mapsto> 0, 20 \<mapsto> 0, 30 \<mapsto> 0], sl_tail = Map.empty, os_ptr = [20 \<mapsto> 0, 30 \<mapsto> 0, 40 \<mapsto> 400],
     so_key64 = [200 \<mapsto> 5, 300 \<mapsto> 6, 400 \<mapsto> 6], so_keystr = Map.empty, so_chr = Map.empty\<rparr>"

definition demo_sobj_tab :: sobj_tab where
  "demo_sobj_tab = \<lparr>sh_bucket = 10, sh_bk_size = 1, sh_elm_cnt = 0, sh_max_chain = 0,
     sh_hash_fn = Some sh_hash_chain, sh_cmp_fn = Some sh_hash_cmp_chain\<rparr>"

definition demo_owner :: "addr \<Rightarrow> addr" where
  "demo_owner p = 10 * p"

definition demo_key :: "addr \<Rightarrow> 64 word" where
  "demo_key x = (if x = 200 then 5 else 6)"

lemma demo_sobj_inv: "sho_inv {20, 30} {40} demo_owner demo_key demo_sobj_mem demo_sobj_tab []"
proof -
  have "buckets demo_sobj_mem 10 (replicate 1 [])" by (simp add: buckets_def demo_sobj_mem_def)
  then have "shash_maps kv64_h (\<lambda>p. demo_key (demo_owner p)) demo_sobj_mem
      (shash_pure kv64_h (\<lambda>p. demo_key (demo_owner p)) (demo_sobj_tab\<lparr>sh_elm_cnt := 0\<rparr>)) Map.empty"
    by (intro shash_maps_empty [where n = 1]) (simp_all add: demo_sobj_tab_def good_kv64_h)
  then show ?thesis
    by (simp add: sho_inv_def sho_links_def demo_sobj_tab_def key_map_def shash_cell_def is_link_def links_def small_key_def)
      (simp add: demo_sobj_mem_def demo_key_def demo_owner_def)
qed

theorem sho_refines_set_witness:
  "\<exists>t' s'. m_run (sho_exec demo_owner) [SO_insert 20, SO_find 40, SO_insert 30, SO_find 40, SO_find 20, SO_remove 30, SO_find 40]
      demo_sobj_tab demo_sobj_mem = Ret ([0, 0, 0, 300, 200, 0, 0], t') s'
    \<and> m_run (sho_exec demo_owner) [SO_insert 20, SO_insert 20] demo_sobj_tab demo_sobj_mem = Abort Assert_fail"
  using sho_refines_set [OF demo_sobj_inv, of "[SO_insert 20, SO_find 40, SO_insert 30, SO_find 40, SO_find 20, SO_remove 30, SO_find 40]"]
    sho_refines_set [OF demo_sobj_inv, of "[SO_insert 20, SO_insert 20]"]
  by (auto simp: demo_key_def demo_owner_def)

text \<open>A range \<open>for\<close> loop over a list \<open>SListObj\<close>.\<close>

partial_function (option) slo_walk :: "slink_iter \<Rightarrow> slink_iter \<Rightarrow> (sobj_mem, addr list) cprog" where
  "slo_walk iter e s =
     (if sobj_iter_ne iter e
      then bindM (sobj_iter_deref iter) (\<lambda>x. bindM (slo_walk (sobj_iter_incr iter) e) (\<lambda>xs. ret (x # xs)))
      else ret []) s"

text \<open>A range \<open>for\<close> over any list \<open>SListObj\<close>, also an empty one, follows a null link.\<close>

theorem slo_walk_faults:
  assumes "os_ptr s NULL = None"
  shows "bindM (sobj_iter l) (\<lambda>iter. bindM (sobj_iter l) (\<lambda>e. slo_walk iter e)) s = Abort (Fault NULL)"
  using assms
  by (simp add: sobj_iter_def slink_iter_init_def c_eval)
    (subst slo_walk.simps, simp add: sobj_iter_ne_def sobj_iter_eq_def sobj_iter_deref_def slink_iter_curr_def os_obj_ptr_def c_eval)

theorem slo_walk_faults_witness:
  "bindM (sobj_iter 10) (\<lambda>iter. bindM (sobj_iter 10) (\<lambda>e. slo_walk iter e)) demo_sobj_mem = Abort (Fault NULL)"
  by (rule slo_walk_faults) (simp add: demo_sobj_mem_def)

text \<open>Adding an object in order to a list with elements compares through the link of the object
  before it is set.\<close>

theorem slo_add_sorted_faults:
  assumes "sl_tail s l = Some q" and "os_ptr s q = Some x" and "sl_next s l = Some f" and "f \<noteq> NULL"
    and "obj \<noteq> NULL" and "os_ptr s p = Some NULL" and "so_key64 s NULL = None"
  shows "slo_add_sorted l obj p s = Abort (Fault NULL)"
  using assms by (simp add: slo_add_sorted_def assert_unset_def slist_insert_sorted_def slist_empty_def slink_empty_def slo_cmp_chain_def os_obj_ptr_def c_eval)

text \<open>The iterator of the table leaves the link it takes out pointing into its old bucket, when
  it was not the last one there: the link cannot be entered again.\<close>

theorem sho_takeout_unusable:
  assumes "sl_next s p = Some n" and "n \<noteq> NULL" and "obj \<noteq> NULL" and "p \<noteq> NULL"
  shows "sho_insert_chain t obj p s = Abort Assert_fail"
  using assms by (simp add: sho_insert_chain_def os_ref_def os_empty_with_def slink_empty_def c_eval)

end
