(* ===== verification/Bitmap.thy ===== *)
theory Bitmap
  imports CPrelude
begin

text \<open>
  The bit arrays of include/ctype/bitmap.h and common/ctype/bmap.c. The memory holds 32-bit
  words; \<open>bmap\<close> is the address of the first word, sizes and positions are C ints. A shift of
  1 into the sign bit gives the word with only that bit set, as gcc compiles it.
\<close>

unbundle bit_operations_syntax

subsection \<open>Operations\<close>

record bmap_mem =
  bm_word :: "addr \<rightharpoonup> 32 word"

definition U32_BITS_SHFT :: nat where "U32_BITS_SHFT = 5"

definition U32_BITS_COUNT :: int where "U32_BITS_COUNT = 2 ^ U32_BITS_SHFT"

definition U32_BITS_MASK :: int where "U32_BITS_MASK = U32_BITS_COUNT - 1"

definition BIT_IDX_IN_U32 :: "int \<Rightarrow> int" where
  "BIT_IDX_IN_U32 x = (x AND U32_BITS_MASK)"

definition BIT_MASK_IN_U32 :: "int \<Rightarrow> 32 word" where
  "BIT_MASK_IN_U32 x = push_bit (nat (BIT_IDX_IN_U32 x)) 1"

definition U32_IDX_IN_BIT_ARR :: "int \<Rightarrow> int" where
  "U32_IDX_IN_BIT_ARR x = drop_bit U32_BITS_SHFT x"

text \<open>The address of element \<open>i\<close> of a word array.\<close>

definition word_at :: "addr \<Rightarrow> int \<Rightarrow> addr" where
  "word_at bmap i = nat (int bmap + i)"

definition bmap_u32cnt :: "int \<Rightarrow> int" where
  "bmap_u32cnt nsize =
     (let u32cnt = U32_IDX_IN_BIT_ARR nsize in
      if BIT_MASK_IN_U32 nsize \<noteq> 0 then u32cnt + 1 else u32cnt)"

definition bmap_init :: "addr \<Rightarrow> int \<Rightarrow> bool \<Rightarrow> ('z bmap_mem_scheme, unit) cprog" where
  "bmap_init bmap nsize clear =
     (let init = (if clear = False then 0xffffffff else 0);
          u32cnt = bmap_u32cnt nsize in
      forM [0..<nat u32cnt] (\<lambda>i. wr bm_word bm_word_update (word_at bmap (int i)) init))"

definition bmap_value :: "addr \<Rightarrow> int \<Rightarrow> int \<Rightarrow> ('z bmap_mem_scheme, int) cprog" where
  "bmap_value bmap nsize pos =
     seqM (assertM (pos < nsize))
    (bindM (rd bm_word (word_at bmap (U32_IDX_IN_BIT_ARR pos))) (\<lambda>w.
     ret (sint (w AND BIT_MASK_IN_U32 pos))))"

definition bmap_set :: "addr \<Rightarrow> int \<Rightarrow> int \<Rightarrow> ('z bmap_mem_scheme, unit) cprog" where
  "bmap_set bmap nsize pos =
     seqM (assertM (pos < nsize))
    (bindM (rd bm_word (word_at bmap (U32_IDX_IN_BIT_ARR pos))) (\<lambda>w.
     wr bm_word bm_word_update (word_at bmap (U32_IDX_IN_BIT_ARR pos)) (w OR BIT_MASK_IN_U32 pos)))"

definition bmap_clear :: "addr \<Rightarrow> int \<Rightarrow> int \<Rightarrow> ('z bmap_mem_scheme, unit) cprog" where
  "bmap_clear bmap nsize pos =
     seqM (assertM (pos < nsize))
    (bindM (rd bm_word (word_at bmap (U32_IDX_IN_BIT_ARR pos))) (\<lambda>w.
     wr bm_word bm_word_update (word_at bmap (U32_IDX_IN_BIT_ARR pos)) (w AND NOT (BIT_MASK_IN_U32 pos))))"

definition bmap_free_bit :: "addr \<Rightarrow> int \<Rightarrow> int \<Rightarrow> ('z bmap_mem_scheme, unit) cprog" where
  "bmap_free_bit bmap nsize bit_pos = bmap_clear bmap nsize bit_pos"

text \<open>The inner loop of \<open>bmap_num_free_bits\<close>, over the bits of one word.\<close>

fun count_free :: "32 word \<Rightarrow> nat list \<Rightarrow> int \<Rightarrow> int" where
  "count_free w [] nfree = nfree"
| "count_free w (j # js) nfree =
     count_free w js (if w AND push_bit j 1 = 0 then nfree + 1 else nfree)"

fun num_free_loop :: "addr \<Rightarrow> nat list \<Rightarrow> int \<Rightarrow> ('z bmap_mem_scheme, int) cprog" where
  "num_free_loop bmap [] nfree = ret nfree"
| "num_free_loop bmap (i # is) nfree =
     bindM (rd bm_word (word_at bmap (int i))) (\<lambda>w.
     num_free_loop bmap is
       (if w = 0 then nfree + U32_BITS_COUNT else count_free w [0..<nat U32_BITS_COUNT] nfree))"

definition bmap_num_free_bits :: "addr \<Rightarrow> int \<Rightarrow> ('z bmap_mem_scheme, int) cprog" where
  "bmap_num_free_bits bmap nsize =
     (let u32cnt = bmap_u32cnt nsize in num_free_loop bmap [0..<nat u32cnt] 0)"

text \<open>Declared in the header with a contract, but the bodies do nothing.\<close>

definition bmap_alloc_bit :: "addr \<Rightarrow> int \<Rightarrow> ('z bmap_mem_scheme, int) cprog" where
  "bmap_alloc_bit bmap nsize = ret 0"

definition bmap_nfree_bits :: "addr \<Rightarrow> int \<Rightarrow> int \<Rightarrow> ('z bmap_mem_scheme, int) cprog" where
  "bmap_nfree_bits bmap nsize nbits = ret 0"

definition bmap_best_nfree_bits :: "addr \<Rightarrow> int \<Rightarrow> int \<Rightarrow> ('z bmap_mem_scheme, int) cprog" where
  "bmap_best_nfree_bits bmap nsize nbits = ret 0"

definition bmap_alloc_nbits :: "addr \<Rightarrow> int \<Rightarrow> int \<Rightarrow> ('z bmap_mem_scheme, int) cprog" where
  "bmap_alloc_nbits bmap nsize nbits = ret 0"

definition bmap_free_nbits :: "addr \<Rightarrow> int \<Rightarrow> int \<Rightarrow> int \<Rightarrow> ('z bmap_mem_scheme, unit) cprog" where
  "bmap_free_nbits bmap nsize start nbits = ret ()"

definition bmap_print :: "addr \<Rightarrow> int \<Rightarrow> ('z bmap_mem_scheme, unit) cprog" where
  "bmap_print bmap nsize = ret ()"

subsection \<open>Bit positions\<close>

lemma bit_idx: "BIT_IDX_IN_U32 x = x mod 32"
  using take_bit_eq_mask [of 5 x] take_bit_eq_mod [of 5 x]
  by (simp add: BIT_IDX_IN_U32_def U32_BITS_MASK_def U32_BITS_COUNT_def U32_BITS_SHFT_def mask_eq_exp_minus_1)

lemma word_idx: "U32_IDX_IN_BIT_ARR x = x div 32"
  by (simp add: U32_IDX_IN_BIT_ARR_def U32_BITS_SHFT_def drop_bit_eq_div)

lemma bit_idx_less: "nat (BIT_IDX_IN_U32 x) < 32"
  by (simp add: bit_idx nat_less_iff)

lemma bit_mask_bit: "bit (BIT_MASK_IN_U32 x) n \<longleftrightarrow> n = nat (x mod 32)"
  using bit_idx_less [of x] by (auto simp: BIT_MASK_IN_U32_def bit_idx bit_simps)

lemma bit_mask_nonzero [simp]: "BIT_MASK_IN_U32 x \<noteq> 0"
  using bit_mask_bit [of x "nat (x mod 32)"] by auto

text \<open>The count is one too high for every size that is a multiple of 32: the test looks at
  the mask of the last bit, which is never 0, instead of at its index.\<close>

lemma u32cnt: "bmap_u32cnt n = n div 32 + 1"
  by (simp add: bmap_u32cnt_def word_idx)

lemma masked_zero: "w AND BIT_MASK_IN_U32 x = 0 \<longleftrightarrow> \<not> bit w (nat (x mod 32))"
proof -
  have lt: "bit u n \<Longrightarrow> n < 32 \<and> bit u n" for u :: "32 word" and n using bit_imp_le_length [of u n] by simp
  have "w AND BIT_MASK_IN_U32 x = 0 \<longleftrightarrow> (\<forall>n. \<not> bit (w AND BIT_MASK_IN_U32 x) n)"
    by (subst bit_eq_iff) (auto dest: lt)
  also have "\<dots> \<longleftrightarrow> \<not> bit w (nat (x mod 32))" by (auto simp: bit_and_iff bit_mask_bit)
  finally show ?thesis .
qed

text \<open>The abstraction: the bits of the words at \<open>bmap\<close>.\<close>

definition bmap_bit :: "'z bmap_mem_scheme \<Rightarrow> addr \<Rightarrow> int \<Rightarrow> bool" where
  "bmap_bit s bmap pos = bit (the (bm_word s (word_at bmap (pos div 32)))) (nat (pos mod 32))"

definition bmap_words :: "'z bmap_mem_scheme \<Rightarrow> addr \<Rightarrow> nat \<Rightarrow> bool" where
  "bmap_words s bmap n \<longleftrightarrow> (\<forall>i < n. word_at bmap (int i) \<in> dom (bm_word s))"

lemma bmap_words_at:
  assumes "bmap_words s bmap n" and "0 \<le> pos" and "pos < 32 * int n"
  obtains w where "bm_word s (word_at bmap (pos div 32)) = Some w"
proof -
  have "nat (pos div 32) < n" "int (nat (pos div 32)) = pos div 32" using assms(2,3) by linarith+
  then show ?thesis using assms(1) that by (metis bmap_words_def domD)
qed

lemma word_at_inj: "0 \<le> i \<Longrightarrow> 0 \<le> j \<Longrightarrow> word_at b i = word_at b j \<longleftrightarrow> i = j"
  by (auto simp: word_at_def)

lemma same_bit: "x div 32 = y div 32 \<Longrightarrow> nat (x mod 32) = nat (y mod 32) \<longleftrightarrow> (x :: int) = y"
  by (metis div_mult_mod_eq eq_nat_nat_iff pos_mod_sign zero_less_numeral)

subsection \<open>Properties\<close>

lemma bmap_set_run:
  assumes "bmap_words s bmap n" and "0 \<le> pos" and "pos < 32 * int n" and "pos < nsize"
  shows "\<exists>s'. bmap_set bmap nsize pos s = Ret () s' \<and> bmap_words s' bmap n
    \<and> (\<forall>q. 0 \<le> q \<longrightarrow> bmap_bit s' bmap q = (q = pos \<or> bmap_bit s bmap q))"
proof -
  obtain w where w: "bm_word s (word_at bmap (pos div 32)) = Some w" using bmap_words_at [OF assms(1-3)] .
  let ?s = "s\<lparr>bm_word := (bm_word s)(word_at bmap (pos div 32) \<mapsto> (w OR BIT_MASK_IN_U32 pos))\<rparr>"
  have "bmap_bit ?s bmap q = (q = pos \<or> bmap_bit s bmap q)" if "0 \<le> q" for q
    using w that assms(2) same_bit [of q pos] word_at_inj [of "q div 32" "pos div 32" bmap]
    by (cases "q div 32 = pos div 32") (auto simp: bmap_bit_def bit_or_iff bit_mask_bit)
  moreover have "bmap_words ?s bmap n" using assms(1) by (auto simp: bmap_words_def)
  ultimately show ?thesis using w assms(4) by (simp add: bmap_set_def c_eval word_idx)
qed

lemma bmap_clear_run:
  assumes "bmap_words s bmap n" and "0 \<le> pos" and "pos < 32 * int n" and "pos < nsize"
  shows "\<exists>s'. bmap_clear bmap nsize pos s = Ret () s' \<and> bmap_words s' bmap n
    \<and> (\<forall>q. 0 \<le> q \<longrightarrow> bmap_bit s' bmap q = (q \<noteq> pos \<and> bmap_bit s bmap q))"
proof -
  obtain w where w: "bm_word s (word_at bmap (pos div 32)) = Some w" using bmap_words_at [OF assms(1-3)] .
  let ?s = "s\<lparr>bm_word := (bm_word s)(word_at bmap (pos div 32) \<mapsto> (w AND NOT (BIT_MASK_IN_U32 pos)))\<rparr>"
  have "nat (q mod 32) < 32" for q :: int by (simp add: nat_less_iff)
  then have "bmap_bit ?s bmap q = (q \<noteq> pos \<and> bmap_bit s bmap q)" if "0 \<le> q" for q
    using w that assms(2) same_bit [of q pos] word_at_inj [of "q div 32" "pos div 32" bmap]
    by (cases "q div 32 = pos div 32") (auto simp: bmap_bit_def bit_and_iff bit_not_iff bit_mask_bit)
  moreover have "bmap_words ?s bmap n" using assms(1) by (auto simp: bmap_words_def)
  ultimately show ?thesis using w assms(4) by (simp add: bmap_clear_def c_eval word_idx)
qed

lemma bmap_value_run:
  assumes "bmap_words s bmap n" and "0 \<le> pos" and "pos < 32 * int n" and "pos < nsize"
  shows "\<exists>v. bmap_value bmap nsize pos s = Ret v s \<and> (v \<noteq> 0 \<longleftrightarrow> bmap_bit s bmap pos)"
proof -
  obtain w where w: "bm_word s (word_at bmap (pos div 32)) = Some w" using bmap_words_at [OF assms(1-3)] .
  have "sint (w AND BIT_MASK_IN_U32 pos) = 0 \<longleftrightarrow> w AND BIT_MASK_IN_U32 pos = 0"
    by (rule signed_eq_0_iff)
  then show ?thesis
    using w assms(4) masked_zero [of w pos] by (simp add: bmap_value_def c_eval word_idx bmap_bit_def)
qed

text \<open>\<open>bmap_set\<close> and \<open>bmap_clear\<close> change the addressed bit and no other, \<open>bmap_value\<close>
  reads it, and a position at or past the given size stops the program.\<close>

theorem bmap_set_clear_value:
  assumes "bmap_words s bmap n" and "0 \<le> pos" and "pos < 32 * int n" and "pos < nsize" and "0 \<le> q" and "q < 32 * int n"
    and "q < nsize"
  shows "(\<exists>s' v. seqM (bmap_set bmap nsize pos) (bmap_value bmap nsize q) s = Ret v s'
            \<and> (v \<noteq> 0 \<longleftrightarrow> q = pos \<or> bmap_bit s bmap q))
    \<and> (\<exists>s' v. seqM (bmap_clear bmap nsize pos) (bmap_value bmap nsize q) s = Ret v s'
            \<and> (v \<noteq> 0 \<longleftrightarrow> q \<noteq> pos \<and> bmap_bit s bmap q))
    \<and> bmap_set bmap pos pos s = Abort Assert_fail \<and> bmap_clear bmap pos pos s = Abort Assert_fail"
proof -
  obtain s1 where s1: "bmap_set bmap nsize pos s = Ret () s1" "bmap_words s1 bmap n"
      "\<forall>q. 0 \<le> q \<longrightarrow> bmap_bit s1 bmap q = (q = pos \<or> bmap_bit s bmap q)"
    using bmap_set_run [OF assms(1-4)] by blast
  obtain s2 where s2: "bmap_clear bmap nsize pos s = Ret () s2" "bmap_words s2 bmap n"
      "\<forall>q. 0 \<le> q \<longrightarrow> bmap_bit s2 bmap q = (q \<noteq> pos \<and> bmap_bit s bmap q)"
    using bmap_clear_run [OF assms(1-4)] by blast
  show ?thesis
    using s1 s2 bmap_value_run [OF s1(2) assms(5-7)] bmap_value_run [OF s2(2) assms(5-7)] assms(5)
    by (simp add: c_eval) (auto simp: bmap_set_def bmap_clear_def c_eval)
qed

definition demo_bmap :: bmap_mem where
  "demo_bmap = \<lparr>bm_word = [100 \<mapsto> 5, 101 \<mapsto> 0]\<rparr>"

lemma demo_bmap_words: "bmap_words demo_bmap 100 2"
  by (auto simp: bmap_words_def demo_bmap_def word_at_def less_Suc_eq numeral_2_eq_2)

theorem bmap_set_clear_value_witness:
  "\<exists>s' v. seqM (bmap_set 100 64 33) (bmap_value 100 64 33) demo_bmap = Ret v s' \<and> v \<noteq> 0"
  using bmap_set_clear_value [OF demo_bmap_words, of 33 64 33] by auto

lemma bmap_init_words:
  assumes "bmap_words s bmap n"
  shows "forM [0..<n] (\<lambda>i. wr bm_word bm_word_update (word_at bmap (int i)) v) s =
    Ret () (s\<lparr>bm_word := (\<lambda>p. if p \<in> (\<lambda>i. word_at bmap (int i)) ` {..<n} then Some v else bm_word s p)\<rparr>)"
  using assms
proof (induction n)
  case 0
  then show ?case by (simp add: c_eval)
next
  case (Suc n)
  let ?s = "s\<lparr>bm_word := (\<lambda>p. if p \<in> (\<lambda>i. word_at bmap (int i)) ` {..<n} then Some v else bm_word s p)\<rparr>"
  have "forM [0..<n] (\<lambda>i. wr bm_word bm_word_update (word_at bmap (int i)) v) s = Ret () ?s"
    using Suc by (simp add: bmap_words_def)
  then have "forM [0..<Suc n] (\<lambda>i. wr bm_word bm_word_update (word_at bmap (int i)) v) s =
      wr bm_word bm_word_update (word_at bmap (int n)) v ?s"
    using forM_snoc [of "[0..<n]"] by simp
  moreover have "word_at bmap (int n) \<in> dom (bm_word ?s)" using Suc.prems by (auto simp: bmap_words_def)
  then have "wr bm_word bm_word_update (word_at bmap (int n)) v ?s =
      Ret () (?s\<lparr>bm_word := (bm_word ?s)(word_at bmap (int n) \<mapsto> v)\<rparr>)"
    by (auto simp: wr_def)
  moreover have "(bm_word ?s)(word_at bmap (int n) \<mapsto> v) =
      (\<lambda>p. if p \<in> (\<lambda>i. word_at bmap (int i)) ` {..<Suc n} then Some v else bm_word s p)"
    by (auto simp: lessThan_Suc)
  ultimately show ?case by simp
qed

text \<open>\<open>bmap_init\<close> writes \<open>size / 32 + 1\<close> words: given an array of exactly \<open>size / 32\<close>
  words for a size that is a multiple of 32, it writes past the end.\<close>

theorem bmap_init_overrun:
  assumes "bmap_words s bmap n" and "word_at bmap (int n) \<notin> dom (bm_word s)"
  shows "bmap_init bmap (32 * int n) c s = Abort (Fault (word_at bmap (int n)))"
proof -
  let ?v = "if c = False then 0xffffffff else 0"
  have "nat (32 * int n div 32 + 1) = Suc n" by simp
  moreover have "word_at bmap (int n) \<notin> (\<lambda>i. word_at bmap (int i)) ` {..<n}" by (auto simp: word_at_inj)
  ultimately show ?thesis
    using forM_snoc [OF bmap_init_words [OF assms(1), of ?v], of n] assms(2)
    by (simp add: bmap_init_def Let_def u32cnt wr_def domIff)
qed

theorem bmap_init_overrun_witness:
  "bmap_init 100 64 True demo_bmap = Abort (Fault 102)"
  using bmap_init_overrun [OF demo_bmap_words, of True] by (simp add: demo_bmap_def word_at_def)

lemma count_free: "count_free w js n = n + int (length (filter (\<lambda>j. \<not> bit w j) js))" if "\<forall>j \<in> set js. j < 32"
  using that
proof (induction js arbitrary: n)
  case Nil
  then show ?case by simp
next
  case (Cons j js)
  have "w AND push_bit j 1 = 0 \<longleftrightarrow> \<not> bit w j"
    using masked_zero [of w "int j"] Cons.prems by (simp add: BIT_MASK_IN_U32_def bit_idx)
  with Cons show ?case by simp
qed

definition zeros :: "32 word \<Rightarrow> int" where
  "zeros w = int (length (filter (\<lambda>j. \<not> bit w j) [0..<32]))"

lemma num_free_loop:
  assumes "\<forall>i \<in> set is. bm_word s (word_at bmap (int i)) = Some (f i)"
  shows "num_free_loop bmap is n s = Ret (n + sum_list (map (\<lambda>i. zeros (f i)) is)) s"
  using assms
proof (induction "is" arbitrary: n)
  case Nil
  then show ?case by (simp add: c_eval)
next
  case (Cons i "is")
  have "zeros 0 = 32" by (simp add: zeros_def)
  then have "(if f i = 0 then n + U32_BITS_COUNT else count_free (f i) [0..<nat U32_BITS_COUNT] n) = n + zeros (f i)"
    using count_free [of "[0..<32]" "f i" n] by (simp add: U32_BITS_COUNT_def U32_BITS_SHFT_def zeros_def)
  with Cons show ?case by (simp add: c_eval)
qed

text \<open>\<open>bmap_num_free_bits\<close> returns the number of zero bits among all bits of the
  \<open>size / 32 + 1\<close> words it looks at, so that for an array of which every bit is free it
  returns more than the array's size.\<close>

theorem bmap_num_free_bits_all_words:
  assumes "0 \<le> nsize" and "\<forall>i < nat (nsize div 32 + 1). bm_word s (word_at bmap (int i)) = Some (f i)"
  shows "bmap_num_free_bits bmap nsize s = Ret (\<Sum>i \<leftarrow> [0..<nat (nsize div 32 + 1)]. zeros (f i)) s
    \<and> ((\<forall>i < nat (nsize div 32 + 1). f i = 0) \<longrightarrow>
        bmap_num_free_bits bmap nsize s = Ret (32 * (nsize div 32 + 1)) s \<and> nsize < 32 * (nsize div 32 + 1))"
proof -
  have run: "bmap_num_free_bits bmap nsize s = Ret (\<Sum>i \<leftarrow> [0..<nat (nsize div 32 + 1)]. zeros (f i)) s"
    using num_free_loop [of "[0..<nat (nsize div 32 + 1)]" s bmap f 0] assms(2)
    by (simp add: bmap_num_free_bits_def u32cnt)
  have "(\<Sum>i \<leftarrow> [0..<k]. zeros (f i)) = 32 * int k" if "\<forall>i < k. f i = 0" for k
    using that by (induction k) (simp_all add: zeros_def)
  from this [of "nat (nsize div 32 + 1)"] show ?thesis using run assms(1) by auto
qed

theorem bmap_num_free_bits_all_words_witness:
  "bmap_num_free_bits 100 40 \<lparr>bm_word = [100 \<mapsto> 0, 101 \<mapsto> 0]\<rparr> = Ret 64 \<lparr>bm_word = [100 \<mapsto> 0, 101 \<mapsto> 0]\<rparr>"
  using bmap_num_free_bits_all_words [of 40 "\<lparr>bm_word = [100 \<mapsto> 0, 101 \<mapsto> 0]\<rparr>" 100 "\<lambda>_. 0"]
  by (auto simp: word_at_def less_Suc_eq numeral_2_eq_2)

end
