(* ===== verification/UuidMap.thy ===== *)
theory UuidMap
  imports Slist Shash
begin

text \<open>
  The map from 64- and 128-bit uuids to 32-bit object ids: include/ctype/uuid-map.h,
  common/ctype/uuid-map.c and the \<open>uuid128\<close> helpers of include/ctype/types.h.

  A \<open>struct uuid_map\<close> is known by the address of its first member \<open>uid_link\<close>. The memory
  extends that of the singly linked lists by its other members, by the \<open>uuid64_t\<close> objects
  that callers point to, and by the set of mutexes that are held: locking a held mutex does
  not return. A \<open>uuid128_t\<close> on its own has its two words in the same fields as the ones
  inside a \<open>struct uuid_map\<close>. Locals whose address is taken get an address \<open>loc\<close> for the
  duration of the call.
\<close>

unbundle bit_operations_syntax

subsection \<open>Data\<close>

record uuid_mem = slist_mem +
  uid_ptr :: "addr \<rightharpoonup> addr"
  uid_obj_id :: "addr \<rightharpoonup> 32 word"
  uuid_lo :: "addr \<rightharpoonup> 64 word"
  uuid_hi :: "addr \<rightharpoonup> 64 word"
  uuid64_at :: "addr \<rightharpoonup> 64 word"
  held :: "nat set"

definition UUID_REC_COLLISION_SHFT :: nat where "UUID_REC_COLLISION_SHFT = 6"

definition OBJ_ID_NIL :: "32 word" where "OBJ_ID_NIL = 0"

definition INVAL_UUID :: "64 word" where "INVAL_UUID = 0"

definition OSD_MAX_CPUS :: nat where "OSD_MAX_CPUS = 32"

text \<open>\<open>gl_uuid_map\<close>. Its mutexes are numbered: \<open>uid_bket_spin[i]\<close> is \<open>i\<close>, \<open>uid_spin\<close> comes after
  them; \<open>uid_free_map\<close> is the address of the list head.\<close>

record uuid_map_ctrl =
  uid_idx_mask :: "32 word"
  uid_col_mask :: "32 word"
  uid_map_entries :: "32 word"
  uid_free_map :: addr
  uid_map_recs :: addr
  uid_table :: "uuid_mem shash"

definition uid_spin :: nat where "uid_spin = OSD_MAX_CPUS"

definition pthread_mutex_lock :: "nat \<Rightarrow> (uuid_mem, unit) cprog" where
  "pthread_mutex_lock m s = (if m \<in> held s then None else Ret () (s\<lparr>held := insert m (held s)\<rparr>))"

definition pthread_mutex_unlock :: "nat \<Rightarrow> (uuid_mem, unit) cprog" where
  "pthread_mutex_unlock m s = Ret () (s\<lparr>held := held s - {m}\<rparr>)"

definition pthread_mutex_init :: "nat \<Rightarrow> (uuid_mem, unit) cprog" where
  "pthread_mutex_init m s = Ret () (s\<lparr>held := held s - {m}\<rparr>)"

subsection \<open>The 128-bit ids\<close>

definition uuid128_equal :: "addr \<Rightarrow> addr \<Rightarrow> (uuid_mem, bool) cprog" where
  "uuid128_equal a1 a2 =
     bindM (rd uuid_lo a1) (\<lambda>l1. bindM (rd uuid_lo a2) (\<lambda>l2.
     if l1 = l2
     then bindM (rd uuid_hi a1) (\<lambda>h1. bindM (rd uuid_hi a2) (\<lambda>h2. ret (h1 = h2)))
     else ret False))"

definition uuid128_nil :: "addr \<Rightarrow> (uuid_mem, bool) cprog" where
  "uuid128_nil uuid =
     bindM (rd uuid_lo uuid) (\<lambda>l.
     if l = INVAL_UUID then bindM (rd uuid_hi uuid) (\<lambda>h. ret (h = INVAL_UUID)) else ret False)"

definition uuid128_set_nil :: "addr \<Rightarrow> (uuid_mem, unit) cprog" where
  "uuid128_set_nil uuid =
     seqM (wr uuid_lo uuid_lo_update uuid INVAL_UUID) (wr uuid_hi uuid_hi_update uuid INVAL_UUID)"

text \<open>A structure assignment between two \<open>uuid128_t\<close>.\<close>

definition uuid128_copy :: "addr \<Rightarrow> addr \<Rightarrow> (uuid_mem, unit) cprog" where
  "uuid128_copy dst src =
     bindM (rd uuid_lo src) (\<lambda>l. bindM (rd uuid_hi src) (\<lambda>h.
     seqM (wr uuid_lo uuid_lo_update dst l) (wr uuid_hi uuid_hi_update dst h)))"

subsection \<open>Object ids and callbacks\<close>

text \<open>The index and, through \<open>collision\<close>, the collision number.\<close>

definition objid_index :: "32 word \<Rightarrow> 32 word \<Rightarrow> 32 word \<times> 32 word" where
  "objid_index idx_mask oid = (oid AND idx_mask, drop_bit UUID_REC_COLLISION_SHFT oid)"

definition objid_assign_val :: "32 word \<Rightarrow> 32 word \<Rightarrow> 32 word \<Rightarrow> 64 word" where
  "objid_assign_val idx_mask idx collision =
     (let oid = (ucast (idx AND idx_mask) :: 64 word)
      in oid OR ucast (push_bit UUID_REC_COLLISION_SHFT collision))"

definition objid_hash_fn :: "int \<Rightarrow> addr \<Rightarrow> (uuid_mem, int) cprog" where
  "objid_hash_fn nsize entry =
     bindM (rd uuid_lo entry) (\<lambda>lo.
     bindM (rd uuid_hi entry) (\<lambda>hi.
     let hash = (ucast lo :: 32 word) XOR ucast (drop_bit 32 lo);
         hash' = (if hi \<noteq> 0 then (hash XOR ucast hi) XOR ucast (drop_bit 32 hi) else hash) in
     if (of_int nsize :: 32 word) = 0 then abortM Div_zero
     else ret (sint (hash' mod of_int nsize))))"

definition objid_hash_cmp_fn :: "addr \<Rightarrow> addr \<Rightarrow> (uuid_mem, int) cprog" where
  "objid_hash_cmp_fn e1 e2 = bindM (uuid128_equal e1 e2) (\<lambda>b. ret (if b then 0 else 1))"

definition objid_id_cmp_fn :: "addr \<Rightarrow> addr \<Rightarrow> (uuid_mem, int) cprog" where
  "objid_id_cmp_fn e1 e2 =
     bindM (rd uid_obj_id e1) (\<lambda>i1. bindM (rd uid_obj_id e2) (\<lambda>i2. ret (if i1 = i2 then 0 else 1)))"

subsection \<open>Set-up and free records\<close>

text \<open>\<open>1 << i\<close> is defined for \<open>i < 32\<close> only.\<close>

fun idx_mask_loop :: "nat list \<Rightarrow> 32 word \<Rightarrow> (uuid_mem, 32 word) cprog" where
  "idx_mask_loop [] msk = ret msk"
| "idx_mask_loop (i # is) msk =
     (if i < 32 then idx_mask_loop is (msk OR push_bit i 1) else abortM Shift_range)"

definition objid_init_ctrl ::
  "uuid_mem slink_alloc \<Rightarrow> uuid_map_ctrl \<Rightarrow> 32 word \<Rightarrow> addr \<Rightarrow> (uuid_mem, uuid_map_ctrl) cprog" where
  "objid_init_ctrl alloc ctrl map_entries maps =
     bindM (idx_mask_loop [0..<unat map_entries] 0) (\<lambda>msk.
     seqM (pthread_mutex_init uid_spin)
    (seqM (forM [0..<OSD_MAX_CPUS] pthread_mutex_init)
    (seqM (slist_init (uid_free_map ctrl))
    (seqM (forM [0..<unat map_entries] (\<lambda>i. slist_insert_back (uid_free_map ctrl) (maps + i)))
    (bindM (shash_init alloc (uint map_entries) (Some objid_hash_fn) (Some objid_hash_cmp_fn)) (\<lambda>tab.
     ret (ctrl\<lparr>uid_idx_mask := msk, uid_col_mask := NOT msk, uid_map_recs := maps,
               uid_map_entries := map_entries, uid_table := tab\<rparr>)))))))"

definition objid_alloc_map_rec :: "uuid_map_ctrl \<Rightarrow> (uuid_mem, addr) cprog" where
  "objid_alloc_map_rec ctrl =
     seqM (pthread_mutex_lock uid_spin)
    (bindM (slist_rm_front (uid_free_map ctrl)) (\<lambda>ptr.
     seqM (pthread_mutex_unlock uid_spin)
    (seqM (assertM (ptr \<noteq> NULL))
     (ret ptr))))"

definition objid_free_map_rec :: "uuid_map_ctrl \<Rightarrow> addr \<Rightarrow> (uuid_mem, unit) cprog" where
  "objid_free_map_rec ctrl umap =
     seqM (pthread_mutex_lock uid_spin)
    (seqM (slist_insert_back (uid_free_map ctrl) umap)
     (pthread_mutex_unlock uid_spin))"

definition objid_bucket_spinl :: "32 word \<Rightarrow> nat" where
  "objid_bucket_spinl idx = unat (idx AND of_nat (OSD_MAX_CPUS - 1))"

subsection \<open>Mapping\<close>

text \<open>The walk of \<open>objid_add_mapping\<close> along the bucket: the record with the same uuid
  (\<open>NULL\<close> for none), the last link before it and the collision count.\<close>

partial_function (option) objid_add_loop ::
  "uuid_map_ctrl \<Rightarrow> 32 word \<Rightarrow> addr \<Rightarrow> addr \<Rightarrow> addr \<Rightarrow> 32 word \<Rightarrow> (uuid_mem, addr \<times> addr \<times> 32 word) cprog" where
  "objid_add_loop ctrl idx umap pre cur col s =
     (if cur = NULL then ret (NULL, pre, col)
      else bindM (rd uid_obj_id cur) (\<lambda>oid.
           seqM (assertM (idx = fst (objid_index (uid_idx_mask ctrl) oid)))
          (bindM (objid_hash_cmp_fn cur umap) (\<lambda>c.
           if c = 0 then ret (cur, pre, col + 1)
           else bindM (get_next cur) (\<lambda>nxt. objid_add_loop ctrl idx umap cur nxt (col + 1)))))) s"

definition objid_add_mapping :: "uuid_map_ctrl \<Rightarrow> addr \<Rightarrow> (uuid_mem, 32 word) cprog" where
  "objid_add_mapping ctrl umap =
     bindM (shash_index (uid_table ctrl) umap) (\<lambda>r.
     let idx = (of_int (fst r) :: 32 word); lnk = snd r in
     seqM (assertM (idx \<noteq> - 1))
    (seqM (assertM (lnk \<noteq> NULL))
    (seqM (pthread_mutex_lock (objid_bucket_spinl idx))
    (bindM (get_next lnk) (\<lambda>cur.
     bindM (objid_add_loop ctrl idx umap lnk cur (if idx \<noteq> 0 then 0 else 1)) (\<lambda>w.
     let rec = fst w; pre = fst (snd w); col = snd (snd w) in
     seqM
      (if rec = NULL
       then bindM (get_next pre) (\<lambda>n.
            seqM (assertM (n = NULL))
           (seqM (set_next pre umap)
           (seqM (set_next umap NULL)
           (wr uid_obj_id uid_obj_id_update umap (ucast (objid_assign_val (uid_idx_mask ctrl) idx col))))))
       else ret ())
    (seqM (pthread_mutex_unlock (objid_bucket_spinl idx))
    (if rec \<noteq> NULL
     then seqM (assertM (umap \<noteq> rec))
         (bindM (rd uid_ptr umap) (\<lambda>ptr.
          seqM (objid_free_map_rec ctrl umap)
         (bindM (rd uid_ptr rec) (\<lambda>rptr.
          if rptr = ptr then rd uid_obj_id rec else ret OBJ_ID_NIL))))
     else bindM (rd uid_obj_id umap) (\<lambda>oid.
          seqM (assertM (oid \<noteq> OBJ_ID_NIL)) (ret oid))))))))))"

definition objid_map_uuid64 :: "uuid_map_ctrl \<Rightarrow> addr \<Rightarrow> addr \<Rightarrow> (uuid_mem, 32 word) cprog" where
  "objid_map_uuid64 ctrl uuid ptr =
     bindM (objid_alloc_map_rec ctrl) (\<lambda>umap.
     seqM (wr uid_ptr uid_ptr_update umap ptr)
    (bindM (rd uuid64_at uuid) (\<lambda>u.
     seqM (wr uuid_lo uuid_lo_update umap u)
    (seqM (wr uuid_hi uuid_hi_update umap INVAL_UUID)
     (objid_add_mapping ctrl umap)))))"

definition objid_map_uuid128 :: "uuid_map_ctrl \<Rightarrow> addr \<Rightarrow> addr \<Rightarrow> (uuid_mem, 32 word) cprog" where
  "objid_map_uuid128 ctrl uuid ptr =
     bindM (objid_alloc_map_rec ctrl) (\<lambda>umap.
     seqM (wr uid_ptr uid_ptr_update umap ptr)
    (seqM (uuid128_copy umap uuid)
     (objid_add_mapping ctrl umap)))"

definition objid_remap_ptr :: "32 word \<Rightarrow> addr \<Rightarrow> (uuid_mem, int) cprog" where
  "objid_remap_ptr oid ptr = ret 0"

definition objid_unmap_ptr :: "32 word \<Rightarrow> (uuid_mem, int) cprog" where
  "objid_unmap_ptr oid = ret 0"

definition objid_unmap :: "32 word \<Rightarrow> (uuid_mem, int) cprog" where
  "objid_unmap oid = ret 0"

subsection \<open>Lookup\<close>

text \<open>A local \<open>uuid_map_t\<close> at \<open>loc\<close>, with indeterminate members (\<open>0\<close> here; none is read before it
  is written), and its removal at the end of the call.\<close>

definition push_local :: "addr \<Rightarrow> (uuid_mem, unit) cprog" where
  "push_local loc s = Ret ()
     (s\<lparr>sl_next := (sl_next s)(loc \<mapsto> 0), uid_ptr := (uid_ptr s)(loc \<mapsto> 0), uid_obj_id := (uid_obj_id s)(loc \<mapsto> 0),
        uuid_lo := (uuid_lo s)(loc \<mapsto> 0), uuid_hi := (uuid_hi s)(loc \<mapsto> 0)\<rparr>)"

definition pop_local :: "addr \<Rightarrow> (uuid_mem, unit) cprog" where
  "pop_local loc s = Ret ()
     (s\<lparr>sl_next := (sl_next s)(loc := None), uid_ptr := (uid_ptr s)(loc := None),
        uid_obj_id := (uid_obj_id s)(loc := None), uuid_lo := (uuid_lo s)(loc := None),
        uuid_hi := (uuid_hi s)(loc := None)\<rparr>)"

definition objid_uuid_lookup ::
  "addr \<Rightarrow> uuid_map_ctrl \<Rightarrow> 32 word \<Rightarrow> addr \<Rightarrow> addr \<Rightarrow> (uuid_mem, addr) cprog" where
  "objid_uuid_lookup loc ctrl oid uuid64 uuid128 =
     seqM (push_local loc)
    (let idx = fst (objid_index (uid_idx_mask ctrl) oid) in
     bindM (shash_idx_bucket (uid_table ctrl) (sint idx)) (\<lambda>bket.
     seqM (wr uid_obj_id uid_obj_id_update loc oid)
    (seqM (pthread_mutex_lock (objid_bucket_spinl idx))
    (bindM (slink_find bket loc objid_id_cmp_fn False) (\<lambda>r.
     let found = fst r in
     bindM
      (if found \<noteq> NULL
       then bindM (rd uid_ptr found) (\<lambda>ptr.
            bindM (rd uuid_hi found) (\<lambda>hi.
            seqM
             (if hi = INVAL_UUID
              then bindM (rd uuid_lo found) (\<lambda>lo.
                   seqM (wr uuid64_at uuid64_at_update uuid64 lo)
                   (if uuid128 \<noteq> NULL then uuid128_set_nil uuid128 else ret ()))
              else seqM (uuid128_copy uuid128 found)
                   (if uuid64 \<noteq> NULL then wr uuid64_at uuid64_at_update uuid64 INVAL_UUID else ret ()))
             (ret ptr)))
       else seqM (if uuid64 \<noteq> NULL then wr uuid64_at uuid64_at_update uuid64 INVAL_UUID else ret ())
           (seqM (if uuid128 \<noteq> NULL then seqM (uuid128_nil uuid128) (ret ()) else ret ())
           (ret NULL))) (\<lambda>ptr.
     seqM (pthread_mutex_unlock (objid_bucket_spinl idx))
    (seqM (pop_local loc)
     (ret ptr))))))))"

text \<open>The loop of \<open>uuid128_objid_lookup\<close>, whose local \<open>rec\<close> is set in its body only: \<open>None\<close> is
  the indeterminate value it starts with.\<close>

partial_function (option) objid_lookup_loop ::
  "uuid_map_ctrl \<Rightarrow> 32 word \<Rightarrow> addr \<Rightarrow> addr \<Rightarrow> addr option \<Rightarrow> (uuid_mem, addr option) cprog" where
  "objid_lookup_loop ctrl idx fnd cur rec s =
     (if cur = NULL then ret rec
      else bindM (rd uid_obj_id cur) (\<lambda>oid.
           seqM (assertM (idx = fst (objid_index (uid_idx_mask ctrl) oid)))
          (bindM (objid_hash_cmp_fn cur fnd) (\<lambda>c.
           if c = 0 then ret (Some cur)
           else bindM (get_next cur) (\<lambda>nxt. objid_lookup_loop ctrl idx fnd nxt (Some NULL)))))) s"

text \<open>Returns the pointer and, through \<open>id\<close>, the object id.\<close>

definition uuid128_objid_lookup ::
  "addr \<Rightarrow> uuid_map_ctrl \<Rightarrow> addr \<Rightarrow> (uuid_mem, addr \<times> 32 word) cprog" where
  "uuid128_objid_lookup loc ctrl uuid =
     seqM (push_local loc)
    (seqM (uuid128_copy loc uuid)
    (bindM (shash_index (uid_table ctrl) loc) (\<lambda>r.
     let idx = (of_int (fst r) :: 32 word); lnk = snd r in
     seqM (assertM (idx \<noteq> - 1))
    (seqM (assertM (lnk \<noteq> NULL))
    (seqM (pthread_mutex_lock (objid_bucket_spinl idx))
    (bindM (get_next lnk) (\<lambda>cur.
     bindM (objid_lookup_loop ctrl idx loc cur None) (\<lambda>rec.
     bindM (case rec of
              None \<Rightarrow> abortM Uninit_read
            | Some r' \<Rightarrow> if r' = NULL then ret (NULL, OBJ_ID_NIL)
                       else bindM (rd uid_ptr r') (\<lambda>ptr. bindM (rd uid_obj_id r') (\<lambda>oid. ret (ptr, oid)))) (\<lambda>res.
     seqM (pthread_mutex_unlock (objid_bucket_spinl idx))
    (seqM (pop_local loc)
     (ret res)))))))))))"

text \<open>The local \<open>uuid128\<close> of \<open>uuid64_objid_lookup\<close> is at \<open>loc2\<close>.\<close>

definition uuid64_objid_lookup ::
  "addr \<Rightarrow> addr \<Rightarrow> uuid_map_ctrl \<Rightarrow> addr \<Rightarrow> (uuid_mem, addr \<times> 32 word) cprog" where
  "uuid64_objid_lookup loc loc2 ctrl uuid =
     seqM (push_local loc2)
    (bindM (rd uuid64_at uuid) (\<lambda>u.
     seqM (wr uuid_lo uuid_lo_update loc2 u)
    (seqM (wr uuid_hi uuid_hi_update loc2 INVAL_UUID)
    (bindM (uuid128_objid_lookup loc ctrl loc2) (\<lambda>r.
     seqM (pop_local loc2) (ret r))))))"

subsection \<open>The control vector\<close>

text \<open>\<open>uuid_map_alloc\<close> of the control vector answers with the address \<open>maps\<close> of \<open>cnt\<close> records,
  \<open>NULL\<close> when it fails.\<close>

definition alloc_uuid_maps :: "addr \<Rightarrow> nat \<Rightarrow> (uuid_mem, addr) cprog" where
  "alloc_uuid_maps maps cnt s =
     (let new = links maps cnt in
      if maps = NULL then Ret NULL s
      else Ret maps (s\<lparr>sl_next := (\<lambda>p. if p \<in> new then Some 0 else sl_next s p),
        uid_ptr := (\<lambda>p. if p \<in> new then Some 0 else uid_ptr s p),
        uid_obj_id := (\<lambda>p. if p \<in> new then Some 0 else uid_obj_id s p),
        uuid_lo := (\<lambda>p. if p \<in> new then Some 0 else uuid_lo s p),
        uuid_hi := (\<lambda>p. if p \<in> new then Some 0 else uuid_hi s p)\<rparr>))"

definition uuid_map_rec_shft :: nat where "uuid_map_rec_shft = 16"

definition uuid_map_std_init ::
  "uuid_mem slink_alloc \<Rightarrow> addr \<Rightarrow> nat \<Rightarrow> uuid_map_ctrl \<Rightarrow> (uuid_mem, uuid_map_ctrl) cprog" where
  "uuid_map_std_init alloc mp rec_shft ctrl =
     (let cnt = 2 ^ rec_shft in
      bindM (alloc_uuid_maps mp cnt) (\<lambda>maps.
      objid_init_ctrl alloc ctrl (of_nat cnt) maps))"

definition uuid_map_std_shutdown :: "(uuid_mem, unit) cprog" where
  "uuid_map_std_shutdown = ret ()"

definition uuid_map_persist :: "(uuid_mem, unit) cprog" where
  "uuid_map_persist = ret ()"

end
