(* ===== verification/UuidProps.thy ===== *)
theory UuidProps
  imports UuidMap ShashSpec
begin

text \<open>
  The properties of the uuid map: the encoding of object ids, and the configurations in
  which it holds.
\<close>

unbundle bit_operations_syntax

subsection \<open>The index mask\<close>

lemma idx_mask_loop_run:
  assumes "n \<le> 32"
  shows "idx_mask_loop [0..<n] 0 s = Ret (mask n) s"
proof -
  have snoc: "idx_mask_loop (xs @ [k]) m s = (case idx_mask_loop xs m s of
      Some (Ok w t) \<Rightarrow> if k < 32 then Ret (w OR push_bit k 1) t else Abort Shift_range | r \<Rightarrow> r)" for xs k m
    by (induction xs arbitrary: m) (auto simp: c_eval)
  show ?thesis
    using assms
  proof (induction n)
    case 0
    then show ?case by (simp add: c_eval)
  next
    case (Suc n)
    have "mask n OR push_bit n 1 = (mask (Suc n) :: 32 word)"
      by (rule bit_word_eqI) (auto simp: bit_simps less_Suc_eq)
    then show ?case using Suc by (simp add: snoc)
  qed
qed

lemma idx_mask_loop_shift:
  assumes "32 \<notin> set xs" and "\<forall>x \<in> set xs. x < 32"
  shows "idx_mask_loop (xs @ 32 # ys) m s = Abort Shift_range"
  using assms by (induction xs arbitrary: m) (auto simp: c_eval)

lemma idx_mask_loop_abort: "32 < n \<Longrightarrow> idx_mask_loop [0..<n] 0 s = Abort Shift_range"
proof -
  assume "32 < n"
  then have "[0..<n] = [0..<32] @ 32 # [33..<n]"
    using upt_add_eq_append [of 0 32 "n - 32"] upt_conv_Cons [of 32 n] by simp
  then show ?thesis using idx_mask_loop_shift [of "[0..<32]" "[33..<n]"] by simp
qed

text \<open>The id of index \<open>i\<close> and collision number \<open>c\<close> under the mask of \<open>n\<close> bits.\<close>

definition obj_id :: "nat \<Rightarrow> 32 word \<Rightarrow> 32 word \<Rightarrow> 32 word" where
  "obj_id n i c = ucast (objid_assign_val (mask n) i c)"

lemma obj_id_bit:
  "bit (obj_id n i c) k \<longleftrightarrow> k < 32 \<and> (bit i k \<and> k < n \<or> 6 \<le> k \<and> bit c (k - 6))"
  by (auto simp: obj_id_def objid_assign_val_def Let_def bit_simps UUID_REC_COLLISION_SHFT_def)

lemma small_bits: "unat (i :: 32 word) < 2 ^ m \<Longrightarrow> bit i k \<Longrightarrow> k < m"
proof (rule ccontr)
  assume i: "unat i < 2 ^ m" and b: "bit i k" and k: "\<not> k < m"
  have "bit (unat i) k" using b by (simp add: bit_unsigned_iff)
  then have "2 ^ k \<le> unat i" by (metis bit_iff_odd div_less even_zero not_le)
  moreover have "(2 :: nat) ^ m \<le> 2 ^ k" using k by (intro power_increasing) auto
  ultimately show False using i by linarith
qed

text \<open>For a table of at most 6 entries, \<open>objid_index\<close> gives back the index and the
  collision number that \<open>objid_assign_val\<close> put into an object id.\<close>

theorem objid_roundtrip:
  assumes "n \<le> 6" and "unat i < 2 ^ n" and "unat c < 2 ^ 26"
  shows "objid_index (mask n) (ucast (objid_assign_val (mask n) i c)) = (i, c)"
proof -
  have ib: "bit i k \<Longrightarrow> k < n" for k by (rule small_bits [OF assms(2)])
  have cb: "bit c k \<Longrightarrow> k < 26" for k by (rule small_bits [OF assms(3)])
  have "obj_id n i c AND mask n = i"
    using assms(1) by (intro bit_word_eqI) (auto simp: bit_simps obj_id_bit dest: ib)
  moreover have "drop_bit 6 (obj_id n i c) = c"
    using assms(1) by (intro bit_word_eqI) (auto simp: bit_simps obj_id_bit dest: ib cb)
  ultimately show ?thesis by (simp add: objid_index_def UUID_REC_COLLISION_SHFT_def obj_id_def)
qed

theorem objid_roundtrip_witness:
  "objid_index (mask 4) (ucast (objid_assign_val (mask 4) 3 5)) = (3, 5)"
  by (rule objid_roundtrip) simp_all

text \<open>For a table of more than 6 entries the mask covers the lowest bits of the collision
  number: the id of the first collision does not lead back to its index, so that the walk
  of \<open>objid_add_mapping\<close> over a bucket with such a record fails its assertion.\<close>

theorem objid_collision_asserts:
  assumes "6 < n" and "n \<le> 32" and "unat i < n" and "uid_idx_mask ctrl = mask n"
    and "uid_obj_id s cur = Some (ucast (objid_assign_val (mask n) i 1))" and "cur \<noteq> NULL"
  shows "fst (objid_index (mask n) (ucast (objid_assign_val (mask n) i 1))) \<noteq> i
    \<and> objid_add_loop ctrl i m pre cur col s = Abort Assert_fail"
proof -
  have "unat i < 2 ^ 6" using assms(2,3) by simp
  then have "\<not> bit i 6" using small_bits [of i 6 6] by auto
  moreover have "bit (obj_id n i 1 AND mask n) 6" using assms(1) by (simp add: bit_simps obj_id_bit)
  ultimately have ne: "fst (objid_index (mask n) (ucast (objid_assign_val (mask n) i 1))) \<noteq> i"
    by (auto simp: objid_index_def obj_id_def)
  then show ?thesis
    using assms(4-6) by (subst objid_add_loop.simps) (auto simp: c_eval)
qed

definition demo_ctrl :: uuid_map_ctrl where
  "demo_ctrl = \<lparr>uid_idx_mask = mask 8, uid_col_mask = NOT (mask 8), uid_map_entries = 8, uid_free_map = 9,
     uid_map_recs = 20, uid_table = \<lparr>sh_bucket = 40, sh_bk_size = 2, sh_elm_cnt = 0, sh_max_chain = 0,
       sh_hash_fn = Some objid_hash_fn, sh_cmp_fn = Some objid_hash_cmp_fn\<rparr>\<rparr>"

definition demo_umem :: uuid_mem where
  "demo_umem = \<lparr>sl_next = [20 \<mapsto> 0, 40 \<mapsto> 0, 41 \<mapsto> 0], sl_tail = Map.empty, uid_ptr = [20 \<mapsto> 5],
     uid_obj_id = [20 \<mapsto> ucast (objid_assign_val (mask 8) 3 1)], uuid_lo = [20 \<mapsto> 3, 30 \<mapsto> 7], uuid_hi = [20 \<mapsto> 0, 30 \<mapsto> 0],
     uuid64_at = Map.empty, held = {}\<rparr>"

theorem objid_collision_asserts_witness:
  "objid_add_loop demo_ctrl 3 21 40 20 0 demo_umem = Abort Assert_fail"
  using objid_collision_asserts [of 8 3 demo_ctrl demo_umem 20 21 40 0] by (simp add: demo_ctrl_def demo_umem_def)

text \<open>\<open>objid_init_ctrl\<close> builds the mask by shifting 1 by the number of the entry, not by
  the number of index bits: for more than 32 entries it shifts by 32 or more, so that the
  default configuration (\<open>2 ^ 16\<close> entries) runs into undefined behaviour before anything is
  set up.\<close>

theorem objid_init_ctrl_shift_range:
  "32 < unat n \<Longrightarrow> objid_init_ctrl alloc ctrl n maps s = Abort Shift_range
    \<and> (mp \<noteq> NULL \<longrightarrow> uuid_map_std_init alloc mp uuid_map_rec_shft ctrl s = Abort Shift_range)"
proof -
  assume n: "32 < unat n"
  have "unat (of_nat (2 ^ uuid_map_rec_shft) :: 32 word) = 65536"
    by (simp add: uuid_map_rec_shft_def)
  then show ?thesis
    using idx_mask_loop_abort [OF n] idx_mask_loop_abort [of 65536]
    by (simp add: objid_init_ctrl_def uuid_map_std_init_def alloc_uuid_maps_def Let_def c_eval)
qed

theorem objid_init_ctrl_shift_range_witness:
  "objid_init_ctrl (\<lambda>_ _. (90, 0)) demo_ctrl 33 20 demo_umem = Abort Shift_range
    \<and> uuid_map_std_init (\<lambda>_ _. (90, 0)) 20 uuid_map_rec_shft demo_ctrl demo_umem = Abort Shift_range"
  using objid_init_ctrl_shift_range [of 33 "\<lambda>_ _. (90, 0)" demo_ctrl 20 demo_umem 20] by simp

subsection \<open>Lookup in an empty bucket\<close>

definition uuid_hash :: "64 word \<Rightarrow> 64 word \<Rightarrow> 32 word" where
  "uuid_hash lo hi =
     (let hash = (ucast lo :: 32 word) XOR ucast (drop_bit 32 lo)
      in if hi \<noteq> 0 then (hash XOR ucast hi) XOR ucast (drop_bit 32 hi) else hash)"

definition uuid_bucket :: "nat \<Rightarrow> 64 word \<Rightarrow> 64 word \<Rightarrow> nat" where
  "uuid_bucket n lo hi = unat (uuid_hash lo hi) mod n"

lemma objid_hash_fn_run:
  assumes "uuid_lo s e = Some lo" and "uuid_hi s e = Some hi" and n: "0 < n" "n < 2 ^ 31"
  shows "objid_hash_fn (int n) e s = Ret (int (uuid_bucket n lo hi)) s"
proof -
  let ?w = "uuid_hash lo hi mod of_nat n"
  have un: "unat (of_nat n :: 32 word) = n" using n by (simp add: unat_of_nat)
  then have nz: "(of_nat n :: 32 word) \<noteq> 0" using n by (metis unat_0 less_irrefl)
  have u: "unat ?w = uuid_bucket n lo hi" by (simp add: unat_mod_distrib un uuid_bucket_def)
  have lt: "uint ?w < 2 ^ 31" using u n by (simp add: uint_nat uuid_bucket_def) (meson less_trans mod_less_divisor of_nat_less_iff of_nat_numeral)
  have "sint ?w = uint ?w" using lt order_trans [of "- (2 ^ 31) :: int" 0 "uint ?w"]
    by (subst sint_uint) (simp add: signed_take_bit_int_eq_self)
  then have "sint ?w = int (uuid_bucket n lo hi)" using u by (simp add: uint_nat)
  then show ?thesis
    using assms nz by (simp add: objid_hash_fn_def c_eval Let_def uuid_hash_def)
qed

text \<open>\<open>uuid128_objid_lookup\<close> of a uuid whose bucket is empty, as in a freshly initialised
  map, tests its local \<open>rec\<close> although nothing ever stored into it.\<close>

theorem uuid128_lookup_empty_uninit:
  assumes "uuid_lo s u = Some lo" and "uuid_hi s u = Some hi" and "0 < n" and "n < 2 ^ 31"
    and "sh_hash_fn (uid_table ctrl) = Some objid_hash_fn" and "sh_bk_size (uid_table ctrl) = int n"
    and "sl_next s (sh_bucket (uid_table ctrl) + uuid_bucket n lo hi) = Some NULL"
    and "sh_bucket (uid_table ctrl) \<noteq> NULL" and "held s = {}"
    and "loc \<noteq> u" and "loc \<noteq> sh_bucket (uid_table ctrl) + uuid_bucket n lo hi"
  shows "uuid128_objid_lookup loc ctrl u s = Abort Uninit_read"
proof -
  let ?k = "uuid_bucket n lo hi"
  have k: "?k < n" using assms(3) by (simp add: uuid_bucket_def)
  have k31: "?k < 2147483648" using k assms(4) by simp
  have m1: "(of_nat ?k :: 32 word) \<noteq> - 1"
  proof
    assume "(of_nat ?k :: 32 word) = - 1"
    then have "bit (of_nat ?k :: 32 word) 31" by simp
    then have "bit ?k 31" by (simp add: bit_simps)
    then show False using k31 by (simp add: bit_iff_odd)
  qed
  define s1 where "s1 = s\<lparr>sl_next := (sl_next s)(loc \<mapsto> 0), uid_ptr := (uid_ptr s)(loc \<mapsto> 0), uid_obj_id := (uid_obj_id s)(loc \<mapsto> 0),
        uuid_lo := (uuid_lo s)(loc \<mapsto> lo), uuid_hi := (uuid_hi s)(loc \<mapsto> hi)\<rparr>"
  have pre: "seqM (push_local loc) (uuid128_copy loc u) s = Ret () s1"
    using assms(1,2,10) by (simp add: push_local_def uuid128_copy_def c_eval s1_def)
  have hs: "shash_index (uid_table ctrl) loc s1 = Ret (int ?k, sh_bucket (uid_table ctrl) + ?k) s1"
    using objid_hash_fn_run [of s1 loc lo hi n] assms(3-6) k
    by (simp add: shash_index_def call_hash_def c_eval s1_def)
  have nx: "sl_next s1 (sh_bucket (uid_table ctrl) + ?k) = Some NULL" "held s1 = {}"
    using assms(7,9,11) by (simp_all add: s1_def)
  have "uuid128_objid_lookup loc ctrl u s =
      seqM (seqM (push_local loc) (uuid128_copy loc u)) (bindM (shash_index (uid_table ctrl) loc) (\<lambda>r.
        let idx = (of_int (fst r) :: 32 word); lnk = snd r in
        seqM (assertM (idx \<noteq> - 1)) (seqM (assertM (lnk \<noteq> NULL)) (seqM (pthread_mutex_lock (objid_bucket_spinl idx))
        (bindM (get_next lnk) (\<lambda>cur. bindM (objid_lookup_loop ctrl idx loc cur None) (\<lambda>rec.
        bindM (case rec of None \<Rightarrow> abortM Uninit_read
               | Some r' \<Rightarrow> if r' = NULL then ret (NULL, OBJ_ID_NIL)
                       else bindM (rd uid_ptr r') (\<lambda>ptr. bindM (rd uid_obj_id r') (\<lambda>oid. ret (ptr, oid)))) (\<lambda>res.
        seqM (pthread_mutex_unlock (objid_bucket_spinl idx)) (seqM (pop_local loc) (ret res)))))))))) s"
    unfolding uuid128_objid_lookup_def seqM_assoc ..
  then show ?thesis
    using pre hs nx m1 assms(8)
    by (simp add: seqM_def bindM_def Let_def assertM_def pthread_mutex_lock_def rd_def
        objid_lookup_loop.simps ret_def abortM_def)
qed

theorem uuid128_lookup_empty_uninit_witness:
  "uuid128_objid_lookup 99 demo_ctrl 30 demo_umem = Abort Uninit_read"
  by (rule uuid128_lookup_empty_uninit [where lo = 7 and hi = 0 and n = 2])
     (simp_all add: demo_ctrl_def demo_umem_def uuid_bucket_def uuid_hash_def)

end
