(* ===== verification/DataFsm.thy ===== *)
theory DataFsm
  imports CPrelude
begin

text \<open>
  The table-driven state machine of include/ctype/data-statefsm.h and
  common/ctype/data-statefsm.c. The tables are constant data; the memory holds the state of
  the state object and the code of the event, and is extended by whatever the callers'
  structures around them hold, which the action functions may change as well. Reading past
  the end of a table, or through a null arc table, is a fault.
\<close>

unbundle bit_operations_syntax

subsection \<open>Data and operations\<close>

record dst_mem =
  dst_idx :: "32 word"
  dst_evt :: "32 word"

record 's dt_state_arc =
  dst_evt_code :: "32 word"
  dst_exe_flags :: "32 word"
  dst_next_state :: "32 word"
  dst_action_fn :: "('s, unit) cprog option"

record 's dt_state_defs =
  dst_index :: "32 word"
  dst_name :: string
  dst_trans_arcs :: "'s dt_state_arc list option"

record 's dt_state_fsm =
  dst_num_evts :: "32 word"
  dst_num_states :: "32 word"
  dst_states :: "'s dt_state_defs list"

definition DST_EVT_NO_OP :: "32 word" where "DST_EVT_NO_OP = 0xffffffff"
definition DST_EXE_NONE :: "32 word" where "DST_EXE_NONE = 0"
definition DST_EXE_NEXT_ST :: "32 word" where "DST_EXE_NEXT_ST = 1"
definition DST_NEXT_STATIC :: "32 word" where "DST_NEXT_STATIC = 2"
definition DST_CHG_ST_1ST :: "32 word" where "DST_CHG_ST_1ST = 4"

definition dt_state_assign_st :: "32 word \<Rightarrow> ('z dst_mem_scheme, unit) cprog" where
  "dt_state_assign_st state s = Ret () (s\<lparr>dst_idx := state\<rparr>)"

definition dt_state_current :: "('z dst_mem_scheme, 32 word) cprog" where
  "dt_state_current s = Ret (dst_idx s) s"

definition dt_state_assign_evt :: "32 word \<Rightarrow> ('z dst_mem_scheme, unit) cprog" where
  "dt_state_assign_evt code s = Ret () (s\<lparr>dst_evt := code\<rparr>)"

definition dt_state_evt_code :: "('z dst_mem_scheme, 32 word) cprog" where
  "dt_state_evt_code s = Ret (dst_evt s) s"

text \<open>Element \<open>i\<close> of an array that has the elements \<open>xs\<close>.\<close>

definition elem :: "'a list \<Rightarrow> 32 word \<Rightarrow> ('s, 'a) cprog" where
  "elem xs i = (if unat i < length xs then ret (xs ! unat i) else abortM (Fault (unat i)))"

definition arc_of :: "'s dt_state_defs \<Rightarrow> 32 word \<Rightarrow> ('s, 's dt_state_arc) cprog" where
  "arc_of cur evt = (case dst_trans_arcs cur of None \<Rightarrow> abortM (Fault NULL) | Some arcs \<Rightarrow> elem arcs evt)"

definition verify_arc :: "'s dt_state_fsm \<Rightarrow> 's dt_state_defs \<Rightarrow> nat \<Rightarrow> ('s, unit) cprog" where
  "verify_arc tab cur evt =
     (if dst_trans_arcs cur = None then ret ()
      else bindM (arc_of cur (of_nat evt)) (\<lambda>arc.
           seqM (assertM (dst_evt_code arc = of_nat evt))
           (if dst_exe_flags arc AND DST_CHG_ST_1ST \<noteq> 0 \<or> dst_exe_flags arc AND DST_NEXT_STATIC \<noteq> 0
            then assertM (dst_next_state arc < dst_num_states tab)
            else ret ())))"

definition dt_state_verify_table :: "'s dt_state_fsm \<Rightarrow> ('s, unit) cprog" where
  "dt_state_verify_table tab =
     forM [0..<unat (dst_num_states tab)] (\<lambda>i.
       bindM (elem (dst_states tab) (of_nat i)) (\<lambda>cur.
       seqM (assertM (dst_index cur = of_nat i))
       (forM [0..<unat (dst_num_evts tab)] (verify_arc tab cur))))"

text \<open>One pass of the loop of \<open>dt_state_evt\<close>: whether the loop goes on.\<close>

definition dt_state_step ::
  "'z dst_mem_scheme dt_state_fsm \<Rightarrow> ('z dst_mem_scheme, bool) cprog" where
  "dt_state_step tab s =
     seqM (assertM (dst_evt s < dst_num_evts tab))
    (seqM (assertM (dst_idx s < dst_num_states tab))
    (bindM (elem (dst_states tab) (dst_idx s)) (\<lambda>cur.
     bindM (arc_of cur (dst_evt s)) (\<lambda>arc.
     let pre = dst_idx s in
     seqM (if dst_exe_flags arc AND DST_CHG_ST_1ST \<noteq> 0 then dt_state_assign_st (dst_next_state arc) else ret ())
    (seqM (case dst_action_fn arc of None \<Rightarrow> ret () | Some fn \<Rightarrow> fn)
    (bindM dt_state_current (\<lambda>idx.
     seqM (if idx = pre \<and> dst_exe_flags arc AND DST_NEXT_STATIC \<noteq> 0
           then dt_state_assign_st (dst_next_state arc) else ret ())
     (ret (dst_exe_flags arc AND DST_EXE_NEXT_ST \<noteq> 0))))))))) s"

partial_function (option) dt_state_evt ::
  "'z dst_mem_scheme dt_state_fsm \<Rightarrow> ('z dst_mem_scheme, unit) cprog" where
  "dt_state_evt tab s =
     (if dst_evt s \<noteq> DST_EVT_NO_OP
      then bindM (dt_state_step tab) (\<lambda>b. if b then dt_state_evt tab else ret ())
      else ret ()) s"

definition dt_act_illegal_ok :: "('z dst_mem_scheme, unit) cprog" where
  "dt_act_illegal_ok = ret ()"

definition dt_act_illegal_panic :: "('z dst_mem_scheme, unit) cprog" where
  "dt_act_illegal_panic = assertM False"

subsection \<open>Well-formed tables\<close>

text \<open>What \<open>dt_state_verify_table\<close> checks, for tables whose arrays have the sizes the table
  states.\<close>

definition sized :: "'s dt_state_fsm \<Rightarrow> bool" where
  "sized tab \<longleftrightarrow> length (dst_states tab) = unat (dst_num_states tab)
     \<and> (\<forall>cur \<in> set (dst_states tab). \<forall>arcs. dst_trans_arcs cur = Some arcs \<longrightarrow> length arcs = unat (dst_num_evts tab))"

definition arc_ok :: "'s dt_state_fsm \<Rightarrow> nat \<Rightarrow> 's dt_state_arc \<Rightarrow> bool" where
  "arc_ok tab evt arc \<longleftrightarrow> dst_evt_code arc = of_nat evt
     \<and> (dst_exe_flags arc AND DST_CHG_ST_1ST \<noteq> 0 \<or> dst_exe_flags arc AND DST_NEXT_STATIC \<noteq> 0
        \<longrightarrow> dst_next_state arc < dst_num_states tab)"

definition table_ok :: "'s dt_state_fsm \<Rightarrow> bool" where
  "table_ok tab \<longleftrightarrow> (\<forall>i < length (dst_states tab). dst_index (dst_states tab ! i) = of_nat i
     \<and> (\<forall>arcs. dst_trans_arcs (dst_states tab ! i) = Some arcs \<longrightarrow> (\<forall>e < length arcs. arc_ok tab e (arcs ! e))))"

lemma forM_check:
  assumes "\<And>x. x \<in> set xs \<Longrightarrow> f x s = (if P x then Ret () s else Abort Assert_fail)"
  shows "forM xs f s = (if \<forall>x \<in> set xs. P x then Ret () s else Abort Assert_fail)"
  using assms by (induction xs) (auto simp: c_eval)

lemma unat_of_nat_less: "i < unat (n :: 32 word) \<Longrightarrow> unat (of_nat i :: 32 word) = i"
proof -
  assume "i < unat n"
  then have "i < 2 ^ LENGTH(32)" by (rule less_trans) (rule unsigned_less)
  then show ?thesis by (simp add: unat_of_nat)
qed

lemma sized_arcs:
  "sized tab \<Longrightarrow> i < length (dst_states tab) \<Longrightarrow> dst_trans_arcs (dst_states tab ! i) = Some arcs
   \<Longrightarrow> length arcs = unat (dst_num_evts tab)"
  by (metis nth_mem sized_def)

lemma verify_arc_run:
  assumes "sized tab" and "cur \<in> set (dst_states tab)" and "e < unat (dst_num_evts tab)"
  shows "verify_arc tab cur e s =
    (if \<forall>arcs. dst_trans_arcs cur = Some arcs \<longrightarrow> arc_ok tab e (arcs ! e) then Ret () s else Abort Assert_fail)"
  using assms unat_of_nat_less [OF assms(3)]
  by (cases "dst_trans_arcs cur")
     (auto simp: verify_arc_def arc_of_def elem_def c_eval arc_ok_def sized_def)

lemma dt_state_verify_table_run:
  assumes "sized tab"
  shows "dt_state_verify_table tab s = (if table_ok tab then Ret () s else Abort Assert_fail)"
proof -
  let ?P = "\<lambda>i. dst_index (dst_states tab ! i) = of_nat i
      \<and> (\<forall>e \<in> set [0..<unat (dst_num_evts tab)]. \<forall>arcs. dst_trans_arcs (dst_states tab ! i) = Some arcs \<longrightarrow> arc_ok tab e (arcs ! e))"
  have len: "length (dst_states tab) = unat (dst_num_states tab)" using assms by (simp add: sized_def)
  have "bindM (elem (dst_states tab) (of_nat i)) (\<lambda>cur. seqM (assertM (dst_index cur = of_nat i))
      (forM [0..<unat (dst_num_evts tab)] (verify_arc tab cur))) s = (if ?P i then Ret () s else Abort Assert_fail)"
    if "i \<in> set [0..<unat (dst_num_states tab)]" for i
  proof -
    have i: "i < length (dst_states tab)" "unat (of_nat i :: 32 word) = i"
      using that len unat_of_nat_less [of i "dst_num_states tab"] by auto
    have "forM [0..<unat (dst_num_evts tab)] (verify_arc tab (dst_states tab ! i)) s =
        (if \<forall>e \<in> set [0..<unat (dst_num_evts tab)]. \<forall>arcs. dst_trans_arcs (dst_states tab ! i) = Some arcs \<longrightarrow> arc_ok tab e (arcs ! e)
         then Ret () s else Abort Assert_fail)"
      using i(1) by (intro forM_check verify_arc_run [OF assms]) auto
    then show ?thesis using i by (simp add: elem_def c_eval)
  qed
  then have "dt_state_verify_table tab s =
      (if \<forall>i \<in> set [0..<unat (dst_num_states tab)]. ?P i then Ret () s else Abort Assert_fail)"
    unfolding dt_state_verify_table_def by (rule forM_check)
  moreover have "(\<forall>i \<in> set [0..<unat (dst_num_states tab)]. ?P i) \<longleftrightarrow> table_ok tab"
    using len sized_arcs [OF assms] unfolding table_ok_def by auto
  ultimately show ?thesis by simp
qed

subsection \<open>Running a verified table\<close>

text \<open>The state and the event are ones the table has an entry for, or there is no event left.\<close>

definition in_range :: "'s dt_state_fsm \<Rightarrow> 'z dst_mem_scheme \<Rightarrow> bool" where
  "in_range tab s \<longleftrightarrow> dst_idx s < dst_num_states tab \<and> (dst_evt s = DST_EVT_NO_OP \<or> dst_evt s < dst_num_evts tab)"

text \<open>An action function returns, and leaves a state and an event of the table.\<close>

definition action_ok :: "'z dst_mem_scheme dt_state_fsm \<Rightarrow> ('z dst_mem_scheme, unit) cprog \<Rightarrow> bool" where
  "action_ok tab fn \<longleftrightarrow> (\<forall>s. in_range tab s \<longrightarrow> (\<exists>s'. fn s = Ret () s' \<and> in_range tab s'))"

definition runnable :: "'z dst_mem_scheme dt_state_fsm \<Rightarrow> bool" where
  "runnable tab \<longleftrightarrow> sized tab \<and> table_ok tab
     \<and> (\<forall>cur \<in> set (dst_states tab). dst_trans_arcs cur \<noteq> None)
     \<and> (\<forall>cur \<in> set (dst_states tab). \<forall>arcs. dst_trans_arcs cur = Some arcs \<longrightarrow>
          (\<forall>arc \<in> set arcs. \<forall>fn. dst_action_fn arc = Some fn \<longrightarrow> action_ok tab fn))"

text \<open>The arc of a state and an event.\<close>

definition arc_at :: "'s dt_state_fsm \<Rightarrow> 32 word \<Rightarrow> 32 word \<Rightarrow> 's dt_state_arc" where
  "arc_at tab i e = the (dst_trans_arcs (dst_states tab ! unat i)) ! unat e"

lemma runnable_arc:
  assumes "runnable tab" and "i < dst_num_states tab" and "e < dst_num_evts tab"
  obtains cur where "elem (dst_states tab) i s = Ret cur s" and "arc_of cur e s = Ret (arc_at tab i e) s"
    and "arc_ok tab (unat e) (arc_at tab i e)"
    and "\<And>fn. dst_action_fn (arc_at tab i e) = Some fn \<Longrightarrow> action_ok tab fn"
proof -
  let ?cur = "dst_states tab ! unat i"
  have sz: "sized tab" and ok: "table_ok tab" using assms(1) by (simp_all add: runnable_def)
  have i: "unat i < length (dst_states tab)"
    using assms(2) sz by (simp add: sized_def word_less_nat_alt)
  then have mem: "?cur \<in> set (dst_states tab)" by simp
  then obtain arcs where arcs: "dst_trans_arcs ?cur = Some arcs"
    using assms(1) unfolding runnable_def by (meson option.exhaust)
  have e: "unat e < length arcs"
    using assms(3) sized_arcs [OF sz i arcs] by (simp add: word_less_nat_alt)
  have at: "arc_at tab i e = arcs ! unat e" by (simp add: arc_at_def arcs)
  show thesis
  proof
    show "elem (dst_states tab) i s = Ret ?cur s" using i by (simp add: elem_def c_eval)
    show "arc_of ?cur e s = Ret (arc_at tab i e) s" using e by (simp add: arc_of_def arcs elem_def at c_eval)
    show "arc_ok tab (unat e) (arc_at tab i e)" using ok i e arcs unfolding at table_ok_def by blast
    show "action_ok tab fn" if "dst_action_fn (arc_at tab i e) = Some fn" for fn
      using assms(1) mem arcs nth_mem [OF e] that unfolding runnable_def at by blast
  qed
qed

lemma run_action:
  assumes "\<And>fn. f = Some fn \<Longrightarrow> action_ok tab fn" and "in_range tab s"
  obtains s' where "(case f of None \<Rightarrow> ret () | Some fn \<Rightarrow> fn) s = Ret () s'" and "in_range tab s'"
  using assms by (cases f) (auto simp: action_ok_def c_eval)

lemma in_range_idx: "in_range tab s \<Longrightarrow> i < dst_num_states tab \<Longrightarrow> in_range tab (s\<lparr>dst_idx := i\<rparr>)"
  by (simp add: in_range_def)

lemma dt_state_step_ok:
  assumes run: "runnable tab" and rng: "in_range tab s" and op: "dst_evt s \<noteq> DST_EVT_NO_OP"
  shows "\<exists>s'. dt_state_step tab s = Ret (dst_exe_flags (arc_at tab (dst_idx s) (dst_evt s)) AND DST_EXE_NEXT_ST \<noteq> 0) s'
    \<and> in_range tab s'"
proof -
  let ?arc = "arc_at tab (dst_idx s) (dst_evt s)"
  have idx: "dst_idx s < dst_num_states tab" and evt: "dst_evt s < dst_num_evts tab"
    using rng op by (auto simp: in_range_def)
  obtain cur where cur: "elem (dst_states tab) (dst_idx s) s = Ret cur s" "arc_of cur (dst_evt s) s = Ret ?arc s"
    and ok: "arc_ok tab (unat (dst_evt s)) ?arc"
    and act: "\<And>fn. dst_action_fn ?arc = Some fn \<Longrightarrow> action_ok tab fn"
    using runnable_arc [OF run idx evt] by blast
  let ?s1 = "if dst_exe_flags ?arc AND DST_CHG_ST_1ST \<noteq> 0 then s\<lparr>dst_idx := dst_next_state ?arc\<rparr> else s"
  have "in_range tab ?s1" using rng ok in_range_idx by (auto simp: arc_ok_def)
  from run_action [OF act this] obtain s2
    where s2: "(case dst_action_fn ?arc of None \<Rightarrow> ret () | Some fn \<Rightarrow> fn) ?s1 = Ret () s2" and r2: "in_range tab s2" .
  let ?s3 = "if dst_idx s2 = dst_idx s \<and> dst_exe_flags ?arc AND DST_NEXT_STATIC \<noteq> 0
             then s2\<lparr>dst_idx := dst_next_state ?arc\<rparr> else s2"
  have "in_range tab ?s3" using r2 ok in_range_idx by (auto simp: arc_ok_def)
  moreover have "dt_state_step tab s = Ret (dst_exe_flags ?arc AND DST_EXE_NEXT_ST \<noteq> 0) ?s3"
    using idx evt cur s2
    by (simp add: dt_state_step_def c_eval dt_state_assign_st_def dt_state_current_def Let_def split: if_splits)
  ultimately show ?thesis by blast
qed

lemma dt_state_evt_no_op: "dst_evt s = DST_EVT_NO_OP \<Longrightarrow> dt_state_evt tab s = Ret () s"
  by (subst dt_state_evt.simps) (simp add: c_eval)

lemma dt_state_evt_step:
  "dst_evt s \<noteq> DST_EVT_NO_OP \<Longrightarrow> dt_state_step tab s = Ret b s' \<Longrightarrow>
   dt_state_evt tab s = (if b then dt_state_evt tab s' else Ret () s')"
  by (subst dt_state_evt.simps) (simp add: c_eval)

lemma dt_state_evt_inv:
  assumes "dt_state_evt tab s = Some r"
  shows "runnable tab \<longrightarrow> in_range tab s \<longrightarrow> (\<exists>s'. r = Ok () s' \<and> in_range tab s')"
  using assms
proof (rule dt_state_evt.raw_induct [where P =
      "\<lambda>tab s r. runnable tab \<longrightarrow> in_range tab s \<longrightarrow> (\<exists>s'. r = Ok () s' \<and> in_range tab s')", rotated], intro impI)
  fix evt tab and s :: "'a dst_mem_scheme" and r
  assume IH: "\<And>tab s r. evt tab s = Some r \<Longrightarrow>
      runnable tab \<longrightarrow> in_range tab s \<longrightarrow> (\<exists>s'. r = Ok () s' \<and> in_range tab s')"
    and run: "(if dst_evt s \<noteq> DST_EVT_NO_OP then bindM (dt_state_step tab) (\<lambda>b. if b then evt tab else ret ()) else ret ()) s = Some r"
    and ok: "runnable tab" and rng: "in_range tab s"
  show "\<exists>s'. r = Ok () s' \<and> in_range tab s'"
  proof (cases "dst_evt s = DST_EVT_NO_OP")
    case True
    with run rng show ?thesis by (auto simp: c_eval)
  next
    case False
    from dt_state_step_ok [OF ok rng False] obtain b s' where "dt_state_step tab s = Ret b s'" "in_range tab s'" by blast
    with False run IH [of tab s'] rng ok show ?thesis by (cases b) (auto simp: c_eval)
  qed
qed

subsection \<open>Properties\<close>

text \<open>C26: For a table whose arrays have the sizes it states, \<open>dt_state_verify_table\<close> returns,
  with nothing changed, exactly when every state carries its own index, every arc carries its
  own event code, and every arc that names its next state names one of the table; otherwise
  the check stops the program.\<close>

theorem dt_state_verify_table_checks:
  assumes "sized tab"
  shows "dt_state_verify_table tab s = (if table_ok tab then Ret () s else Abort Assert_fail)"
  using assms by (rule dt_state_verify_table_run)

text \<open>A turnstile: event 0 (coin) unlocks, event 1 (push) locks again and is consumed.\<close>

definition arc :: "32 word \<Rightarrow> 32 word \<Rightarrow> 32 word \<Rightarrow> ('z dst_mem_scheme, unit) cprog option \<Rightarrow> 'z dst_mem_scheme dt_state_arc" where
  "arc e fl nx fn = \<lparr>dst_evt_code = e, dst_exe_flags = fl, dst_next_state = nx, dst_action_fn = fn\<rparr>"

definition turnstile :: "dst_mem dt_state_fsm" where
  "turnstile = \<lparr>dst_num_evts = 2, dst_num_states = 2, dst_states =
     [\<lparr>dst_index = 0, dst_name = ''locked'', dst_trans_arcs = Some [arc 0 2 1 None, arc 1 0 0 (Some dt_act_illegal_ok)]\<rparr>,
      \<lparr>dst_index = 1, dst_name = ''open'', dst_trans_arcs = Some [arc 0 0 0 None, arc 1 5 0 (Some (dt_state_assign_evt DST_EVT_NO_OP))]\<rparr>]\<rparr>"

lemmas turnstile_defs = turnstile_def arc_def DST_EVT_NO_OP_def DST_CHG_ST_1ST_def DST_NEXT_STATIC_def DST_EXE_NEXT_ST_def

lemma all_below_two: "(\<forall>i < Suc (Suc 0). P i) \<longleftrightarrow> P 0 \<and> P 1"
  by (auto simp: less_Suc_eq)

lemma turnstile_ok: "sized turnstile" "table_ok turnstile"
  by (simp_all add: turnstile_defs sized_def table_ok_def arc_ok_def all_below_two)

lemma turnstile_runnable: "runnable turnstile"
  using turnstile_ok unfolding runnable_def
  by (auto simp: turnstile_defs action_ok_def in_range_def dt_state_assign_evt_def dt_act_illegal_ok_def ret_def)

theorem dt_state_verify_table_checks_witness:
  "dt_state_verify_table turnstile \<lparr>dst_idx = 0, dst_evt = 0\<rparr> = Ret () \<lparr>dst_idx = 0, dst_evt = 0\<rparr>"
  using dt_state_verify_table_checks [OF turnstile_ok(1), of "\<lparr>dst_idx = 0, dst_evt = 0\<rparr>"] turnstile_ok(2) by simp



text \<open>C25: With a table that passes the check, that has an arc table in every state, and whose actions return and
  leave a state and an event of the table, and when every pass that goes on lowers some measure, the
  loop started in a state and with an event of the table ends in a state of the table.\<close>

theorem dt_state_evt_returns:
  assumes "runnable tab" and "in_range tab s"
    and "\<And>t t'. in_range tab t \<Longrightarrow> dst_evt t \<noteq> DST_EVT_NO_OP \<Longrightarrow> dt_state_step tab t = Ret True t' \<Longrightarrow> (f t' :: nat) < f t"
  shows "\<exists>s'. dt_state_evt tab s = Ret () s' \<and> in_range tab s'"
  using assms(2)
proof (induction "f s" arbitrary: s rule: less_induct)
  case less
  show ?case
  proof (cases "dst_evt s = DST_EVT_NO_OP")
    case True
    then show ?thesis using dt_state_evt_no_op less.prems by blast
  next
    case False
    from dt_state_step_ok [OF assms(1) less.prems False] obtain b s'
      where s': "dt_state_step tab s = Ret b s'" "in_range tab s'" by blast
    then show ?thesis
      using less.hyps [of s'] assms(3) [OF less.prems False] dt_state_evt_step [OF False s'(1)] by (cases b) auto
  qed
qed

lemma word_less_2: "(x :: 32 word) < 2 \<longleftrightarrow> x = 0 \<or> x = 1"
proof
  assume "x < 2"
  then have "unat x = 0 \<or> unat x = 1" by (simp add: word_less_nat_alt less_2_cases_iff)
  then show "x = 0 \<or> x = 1" by (metis unsigned_0 unsigned_1 word_unat_eq_iff)
qed auto

lemma turnstile_step:
  assumes "in_range turnstile t" and "dst_evt t \<noteq> DST_EVT_NO_OP" and "dt_state_step turnstile t = Ret True t'"
  shows "dst_evt t' = DST_EVT_NO_OP"
  using assms
  by (auto simp: in_range_def dt_state_step_def turnstile_defs word_less_2 elem_def arc_of_def c_eval
      dt_state_assign_st_def dt_state_assign_evt_def dt_state_current_def dt_act_illegal_ok_def)

theorem dt_state_evt_returns_witness:
  "\<exists>s'. dt_state_evt turnstile \<lparr>dst_idx = 1, dst_evt = 1\<rparr> = Ret () s' \<and> in_range turnstile s'"
proof (rule dt_state_evt_returns [OF turnstile_runnable, where f = "\<lambda>t. if dst_evt t = DST_EVT_NO_OP then 0 else 1"])
  show "in_range turnstile \<lparr>dst_idx = 1, dst_evt = 1\<rparr>" by (simp add: in_range_def turnstile_def)
qed (simp add: turnstile_step)

text \<open>When the passes of the loop lead from states of some set to states of the same set,
  each asking for the next pass and none clearing the event, \<open>dt_state_evt\<close> never returns;
  the loop has no bound of its own.\<close>

theorem dt_state_evt_diverges:
  assumes "s \<in> S"
    and "\<And>t. t \<in> S \<Longrightarrow> dst_evt t \<noteq> DST_EVT_NO_OP \<and> (\<exists>t' \<in> S. dt_state_step tab t = Ret True t')"
  shows "dt_state_evt tab s = None"
proof (rule ccontr)
  assume "dt_state_evt tab s \<noteq> None"
  then obtain r where "dt_state_evt tab s = Some r" by blast
  then have "tab = tab \<longrightarrow> s \<notin> S"
  proof (rule dt_state_evt.raw_induct [where P = "\<lambda>tab' s _. tab' = tab \<longrightarrow> s \<notin> S", rotated], intro impI notI)
    fix evt tab' and t :: "'a dst_mem_scheme" and r
    assume IH: "\<And>tab' s r. evt tab' s = Some r \<Longrightarrow> tab' = tab \<longrightarrow> s \<notin> S"
      and run: "(if dst_evt t \<noteq> DST_EVT_NO_OP then bindM (dt_state_step tab') (\<lambda>b. if b then evt tab' else ret ()) else ret ()) t = Some r"
      and "tab' = tab" and "t \<in> S"
    with assms(2) [of t] IH show False by (auto simp: c_eval)
  qed
  with assms(1) show False by simp
qed

text \<open>A state whose only arc leads back to it and asks for the next pass.\<close>

definition spinner :: "dst_mem dt_state_fsm" where
  "spinner = \<lparr>dst_num_evts = 1, dst_num_states = 1, dst_states =
     [\<lparr>dst_index = 0, dst_name = ''spin'', dst_trans_arcs = Some [arc 0 3 0 None]\<rparr>]\<rparr>"

theorem dt_state_evt_diverges_witness:
  "sized spinner \<and> table_ok spinner \<and> dt_state_evt spinner \<lparr>dst_idx = 0, dst_evt = 0\<rparr> = None"
proof -
  have "dt_state_evt spinner \<lparr>dst_idx = 0, dst_evt = 0\<rparr> = None"
    by (rule dt_state_evt_diverges [where S = "{\<lparr>dst_idx = 0, dst_evt = 0\<rparr>}"])
       (simp_all add: dt_state_step_def spinner_def turnstile_defs elem_def arc_of_def c_eval
          dt_state_assign_st_def dt_state_current_def)
  then show ?thesis by (simp add: sized_def table_ok_def arc_ok_def spinner_def turnstile_defs)
qed

text \<open>A state without an arc table passes the check of \<open>dt_state_verify_table\<close>, but any
  event submitted in that state is looked up through the null pointer.\<close>

theorem dt_state_evt_null_arcs:
  assumes "dst_idx s < dst_num_states tab" and "dst_evt s < dst_num_evts tab" and "dst_evt s \<noteq> DST_EVT_NO_OP"
    and "sized tab" and "dst_trans_arcs (dst_states tab ! unat (dst_idx s)) = None"
  shows "dt_state_evt tab s = Abort (Fault NULL)"
proof -
  have "unat (dst_idx s) < length (dst_states tab)" using assms(1, 4) by (simp add: sized_def word_less_nat_alt)
  then show ?thesis using assms by (subst dt_state_evt.simps) (simp add: dt_state_step_def elem_def arc_of_def c_eval)
qed

definition hollow :: "dst_mem dt_state_fsm" where
  "hollow = \<lparr>dst_num_evts = 1, dst_num_states = 1, dst_states =
     [\<lparr>dst_index = 0, dst_name = ''end'', dst_trans_arcs = None\<rparr>]\<rparr>"

theorem dt_state_evt_null_arcs_witness:
  "table_ok hollow \<and> dt_state_evt hollow \<lparr>dst_idx = 0, dst_evt = 0\<rparr> = Abort (Fault NULL)"
  using dt_state_evt_null_arcs [of "\<lparr>dst_idx = 0, dst_evt = 0\<rparr>" hollow]
  by (simp add: hollow_def sized_def table_ok_def DST_EVT_NO_OP_def)

end
