(* ===== verification/Ctrlvec.thy ===== *)
theory Ctrlvec
  imports CPrelude
begin

text \<open>
  The control vectors of common/ctype/ctrlvec.c: the modules of a program, each with optional
  init, startup, shutdown and cleanup functions, listed in an array of pointers that ends with
  \<open>NULL\<close>. The array and the vectors are constant data: the array is the list of the pointers
  in it (reading past its end is a fault), the vectors are a map from addresses. The
  functions work on a memory of any type.
\<close>

subsection \<open>Data and operations\<close>

type_synonym 's ctrl_fn = "addr \<Rightarrow> ('s, unit) cprog"

record 's ctrlvec =
  ctrl_init_fn :: "'s ctrl_fn option"
  ctrl_startup_fn :: "'s ctrl_fn option"
  ctrl_shutdown_fn :: "'s ctrl_fn option"
  ctrl_cleanup_fn :: "'s ctrl_fn option"

text \<open>Reading \<open>vec[i]\<close>, and calling one of the functions of the vector at an address.\<close>

definition vec_at :: "addr list \<Rightarrow> nat \<Rightarrow> ('s, addr) cprog" where
  "vec_at vec i = (if i < length vec then ret (vec ! i) else abortM (Fault i))"

definition ctrl_call ::
  "('s ctrlvec \<Rightarrow> 's ctrl_fn option) \<Rightarrow> (addr \<rightharpoonup> 's ctrlvec) \<Rightarrow> addr \<Rightarrow> ('s, unit) cprog" where
  "ctrl_call fld cvs p =
     (case cvs p of
        None \<Rightarrow> abortM (Fault p)
      | Some cur \<Rightarrow> (case fld cur of None \<Rightarrow> ret () | Some fn \<Rightarrow> fn p))"

text \<open>The loops of \<open>init_ctrlvec\<close> and \<open>startup_ctrlvec\<close> from index \<open>i\<close> on.\<close>

function init_loop :: "(addr \<rightharpoonup> 's ctrlvec) \<Rightarrow> addr list \<Rightarrow> nat \<Rightarrow> ('s, unit) cprog" where
  "init_loop cvs vec i =
     (if i < length vec
      then if vec ! i \<noteq> NULL then seqM (ctrl_call ctrl_init_fn cvs (vec ! i)) (init_loop cvs vec (i + 1)) else ret ()
      else abortM (Fault i))"
  by pat_completeness auto
termination by (relation "measure (\<lambda>(_, vec, i). length vec - i)") auto

definition init_ctrlvec :: "(addr \<rightharpoonup> 's ctrlvec) \<Rightarrow> addr list \<Rightarrow> ('s, unit) cprog" where
  "init_ctrlvec cvs vec = init_loop cvs vec 0"

function startup_loop :: "(addr \<rightharpoonup> 's ctrlvec) \<Rightarrow> addr list \<Rightarrow> nat \<Rightarrow> ('s, unit) cprog" where
  "startup_loop cvs vec i =
     (if i < length vec
      then if vec ! i \<noteq> NULL then seqM (ctrl_call ctrl_startup_fn cvs (vec ! i)) (startup_loop cvs vec (i + 1)) else ret ()
      else abortM (Fault i))"
  by pat_completeness auto
termination by (relation "measure (\<lambda>(_, vec, i). length vec - i)") auto

definition startup_ctrlvec :: "(addr \<rightharpoonup> 's ctrlvec) \<Rightarrow> addr list \<Rightarrow> ('s, unit) cprog" where
  "startup_ctrlvec cvs vec = startup_loop cvs vec 0"

text \<open>The first loop of \<open>shutdown_ctrlvec\<close> and \<open>cleanup_ctrlvec\<close> looks for the end of the
  array, the second counts down.\<close>

function vec_end :: "addr list \<Rightarrow> nat \<Rightarrow> ('s, nat) cprog" where
  "vec_end vec i =
     (if i < length vec then if vec ! i \<noteq> NULL then vec_end vec (i + 1) else ret i else abortM (Fault i))"
  by pat_completeness auto
termination by (relation "measure (\<lambda>(vec, i). length vec - i)") auto

declare init_loop.simps [simp del] startup_loop.simps [simp del] vec_end.simps [simp del]

definition shutdown_ctrlvec :: "(addr \<rightharpoonup> 's ctrlvec) \<Rightarrow> addr list \<Rightarrow> ('s, unit) cprog" where
  "shutdown_ctrlvec cvs vec =
     bindM (vec_end vec 0) (\<lambda>start.
       if 0 < start
       then forM (rev [0..<start]) (\<lambda>i. bindM (vec_at vec i) (ctrl_call ctrl_shutdown_fn cvs))
       else ret ())"

definition cleanup_ctrlvec :: "(addr \<rightharpoonup> 's ctrlvec) \<Rightarrow> addr list \<Rightarrow> ('s, unit) cprog" where
  "cleanup_ctrlvec cvs vec =
     bindM (vec_end vec 0) (\<lambda>start.
       if 0 < start
       then forM (rev [0..<start]) (\<lambda>i. bindM (vec_at vec i) (ctrl_call ctrl_cleanup_fn cvs))
       else ret ())"

subsection \<open>The loops over a terminated array\<close>

lemma init_loop_run:
  "NULL \<notin> set ps \<Longrightarrow> init_loop cvs (qs @ ps @ NULL # rest) (length qs) = forM ps (ctrl_call ctrl_init_fn cvs)"
proof (induction ps arbitrary: qs)
  case (Cons p ps)
  then show ?case using Cons.IH [of "qs @ [p]"] by (subst init_loop.simps) simp
qed (subst init_loop.simps, simp)

lemma startup_loop_run:
  "NULL \<notin> set ps \<Longrightarrow> startup_loop cvs (qs @ ps @ NULL # rest) (length qs) = forM ps (ctrl_call ctrl_startup_fn cvs)"
proof (induction ps arbitrary: qs)
  case (Cons p ps)
  then show ?case using Cons.IH [of "qs @ [p]"] by (subst startup_loop.simps) simp
qed (subst startup_loop.simps, simp)

lemma vec_end_run:
  "NULL \<notin> set ps \<Longrightarrow> vec_end (qs @ ps @ NULL # rest) (length qs) = ret (length qs + length ps)"
proof (induction ps arbitrary: qs)
  case (Cons p ps)
  then show ?case using Cons.IH [of "qs @ [p]"] by (subst vec_end.simps) simp
qed (subst vec_end.simps, simp)

lemma forM_vec_rev:
  "forM (rev [0..<length ps]) (\<lambda>i. bindM (vec_at (ps @ rest) i) f) = forM (rev ps) f"
proof (induction ps arbitrary: rest rule: rev_induct)
  case (snoc p ps)
  have "bindM (vec_at (ps @ p # rest) (length ps)) f = f p"
    by (simp add: vec_at_def bindM_def ret_def fun_eq_iff)
  then show ?case using snoc.IH [of "p # rest"] by simp
qed simp

lemma down_run:
  fixes f :: "addr \<Rightarrow> ('s, unit) cprog"
  assumes "NULL \<notin> set ps"
  shows "bindM (vec_end (ps @ NULL # rest) 0) (\<lambda>start.
       if 0 < start then forM (rev [0..<start]) (\<lambda>i. bindM (vec_at (ps @ NULL # rest) i) f) else ret ()) = forM (rev ps) f"
proof -
  have "vec_end (ps @ NULL # rest) 0 s = Ret (length ps) s" for s :: 's
    by (simp add: vec_end_run [OF assms, of "[]" rest, simplified] ret_def)
  then show ?thesis using forM_vec_rev [of ps "NULL # rest" f] by (cases ps) (simp_all add: fun_eq_iff bindM_def)
qed

subsection \<open>Properties\<close>

text \<open>For an array of modules \<open>ps\<close> ended by \<open>NULL\<close>, \<open>init_ctrlvec\<close> and \<open>startup_ctrlvec\<close>
  call the modules' functions from the first to the last, \<open>shutdown_ctrlvec\<close> and
  \<open>cleanup_ctrlvec\<close> from the last to the first; a missing function is skipped, and what stands
  after the \<open>NULL\<close> is not looked at.\<close>

theorem ctrlvec_order:
  assumes "NULL \<notin> set ps"
  shows "init_ctrlvec cvs (ps @ NULL # rest) = forM ps (ctrl_call ctrl_init_fn cvs)
    \<and> startup_ctrlvec cvs (ps @ NULL # rest) = forM ps (ctrl_call ctrl_startup_fn cvs)
    \<and> shutdown_ctrlvec cvs (ps @ NULL # rest) = forM (rev ps) (ctrl_call ctrl_shutdown_fn cvs)
    \<and> cleanup_ctrlvec cvs (ps @ NULL # rest) = forM (rev ps) (ctrl_call ctrl_cleanup_fn cvs)"
  using init_loop_run [OF assms, of cvs "[]" rest] startup_loop_run [OF assms, of cvs "[]" rest]
    down_run [OF assms, of rest "ctrl_call ctrl_shutdown_fn cvs"] down_run [OF assms, of rest "ctrl_call ctrl_cleanup_fn cvs"]
  by (simp add: init_ctrlvec_def startup_ctrlvec_def shutdown_ctrlvec_def cleanup_ctrlvec_def)

text \<open>Two modules that record their calls, the second without a startup function.\<close>

definition log_call :: "nat \<Rightarrow> addr \<Rightarrow> ((nat \<times> addr) list, unit) cprog" where
  "log_call k p s = Ret () (s @ [(k, p)])"

definition two_modules :: "addr \<rightharpoonup> (nat \<times> addr) list ctrlvec" where
  "two_modules =
    [10 \<mapsto> \<lparr>ctrl_init_fn = Some (log_call 0), ctrl_startup_fn = Some (log_call 1),
            ctrl_shutdown_fn = Some (log_call 2), ctrl_cleanup_fn = Some (log_call 3)\<rparr>,
     20 \<mapsto> \<lparr>ctrl_init_fn = Some (log_call 0), ctrl_startup_fn = None,
            ctrl_shutdown_fn = Some (log_call 2), ctrl_cleanup_fn = Some (log_call 3)\<rparr>]"

theorem ctrlvec_order_witness:
  "startup_ctrlvec two_modules [10, 20, NULL] [] = Ret () [(1, 10)]
   \<and> shutdown_ctrlvec two_modules [10, 20, NULL] [] = Ret () [(2, 20), (2, 10)]"
  using ctrlvec_order [of "[10, 20]" two_modules "[]"]
  by (simp add: two_modules_def ctrl_call_def log_call_def c_eval)

end
