(* ===== verification/ShmDlist.thy ===== *)
theory ShmDlist
  imports DlistSpec
begin

text \<open>
  The circular doubly linked list over offsets of include/ctype/shm-dlist.h, which can be
  mapped at different addresses in different processes, and its refinement of the list over
  pointers: at every base, each routine does to the offsets what the routine of dlist.h of the
  same name does to the pointers \<open>base + offset\<close>.
\<close>

subsection \<open>Data and operations\<close>

record idlist_mem =
  idl_next :: "addr \<rightharpoonup> 32 word"
  idl_prev :: "addr \<rightharpoonup> 32 word"

definition idlist_init :: "addr \<Rightarrow> 32 word \<Rightarrow> ('z idlist_mem_scheme, unit) cprog" where
  "idlist_init base ilist_off =
     seqM (wr idl_prev idl_prev_update (at_off base ilist_off) ilist_off)
          (wr idl_next idl_next_update (at_off base ilist_off) ilist_off)"

definition idlist_empty :: "addr \<Rightarrow> 32 word \<Rightarrow> ('z idlist_mem_scheme, bool) cprog" where
  "idlist_empty base ilist_off =
     bindM (rd idl_next (at_off base ilist_off)) (\<lambda>n.
     if n = ilist_off then bindM (rd idl_prev (at_off base ilist_off)) (\<lambda>p. ret (p = ilist_off)) else ret False)"

definition idlist_add_front :: "addr \<Rightarrow> 32 word \<Rightarrow> 32 word \<Rightarrow> ('z idlist_mem_scheme, unit) cprog" where
  "idlist_add_front base list_off elm_off =
     bindM (rd idl_next (at_off base list_off)) (\<lambda>nx.
     let elem = at_off base elm_off; list = at_off base list_off; next = at_off base nx in
     bindM (rd idl_next list) (\<lambda>n.
     seqM (wr idl_next idl_next_update elem n)
    (seqM (wr idl_prev idl_prev_update elem list_off)
    (seqM (wr idl_prev idl_prev_update next elm_off)
     (wr idl_next idl_next_update list elm_off)))))"

definition idlist_add_back :: "addr \<Rightarrow> 32 word \<Rightarrow> 32 word \<Rightarrow> ('z idlist_mem_scheme, unit) cprog" where
  "idlist_add_back base list_off elm_off =
     bindM (rd idl_prev (at_off base list_off)) (\<lambda>p. idlist_add_front base p elm_off)"

definition idlist_rm :: "addr \<Rightarrow> 32 word \<Rightarrow> ('z idlist_mem_scheme, unit) cprog" where
  "idlist_rm base elm_off =
     (let elem = at_off base elm_off in
      bindM (rd idl_next elem) (\<lambda>nx. bindM (rd idl_prev elem) (\<lambda>pv.
      let next = at_off base nx; prev = at_off base pv in
      bindM (rd idl_prev elem) (\<lambda>p.
      seqM (wr idl_prev idl_prev_update next p)
     (bindM (rd idl_next elem) (\<lambda>n.
      wr idl_next idl_next_update prev n))))))"

subsection \<open>Refinement of the list over pointers\<close>

definition idl_abs :: "addr \<Rightarrow> idlist_mem \<Rightarrow> dlist_mem" where
  "idl_abs base s =
     \<lparr>dl_next = (\<lambda>p. map_option (at_off base) (idl_next s p)),
      dl_prev = (\<lambda>p. map_option (at_off base) (idl_prev s p))\<rparr>"

text \<open>What is compared of two runs: the result and the memory, or that the run was stopped,
  wherever it was stopped.\<close>

fun outcome_of :: "('s \<Rightarrow> 't) \<Rightarrow> ('a, 's) outcome option \<Rightarrow> ('a \<times> 't) option option" where
  "outcome_of f None = None"
| "outcome_of f (Some (Ok x s)) = Some (Some (x, f s))"
| "outcome_of f (Some (Err e)) = Some None"

definition refines :: "addr \<Rightarrow> (idlist_mem, 'a) cprog \<Rightarrow> (dlist_mem, 'a) cprog \<Rightarrow> bool" where
  "refines base m n \<longleftrightarrow> (\<forall>s. outcome_of (\<lambda>t. t) (n (idl_abs base s)) = outcome_of (idl_abs base) (m s))"

lemma refinesD: "refines base m n \<Longrightarrow> outcome_of (\<lambda>t. t) (n (idl_abs base s)) = outcome_of (idl_abs base) (m s)"
  by (simp add: refines_def)

lemma refines_run:
  assumes "refines base m n" and "n (idl_abs base s) = Ret x t"
  shows "\<exists>s'. m s = Ret x s' \<and> idl_abs base s' = t"
proof -
  have "outcome_of (idl_abs base) (m s) = Some (Some (x, t))" using refinesD [OF assms(1), of s] assms(2) by simp
  then show ?thesis by (cases "(idl_abs base, m s)" rule: outcome_of.cases) auto
qed

lemma idl_abs_upd [simp]:
  "idl_abs base (s\<lparr>idl_next := f\<rparr>) = (idl_abs base s)\<lparr>dl_next := \<lambda>p. map_option (at_off base) (f p)\<rparr>"
  "idl_abs base (s\<lparr>idl_prev := f\<rparr>) = (idl_abs base s)\<lparr>dl_prev := \<lambda>p. map_option (at_off base) (f p)\<rparr>"
  by (simp_all add: idl_abs_def)

lemma idl_abs_sel [simp]:
  "dl_next (idl_abs base s) p = map_option (at_off base) (idl_next s p)"
  "dl_prev (idl_abs base s) p = map_option (at_off base) (idl_prev s p)"
  by (simp_all add: idl_abs_def)

lemma map_option_upd:
  "(\<lambda>p. map_option f ((m(q \<mapsto> v)) p)) = (\<lambda>p. map_option f (m p))(q \<mapsto> f v)"
  "(\<lambda>p. map_option f (if p = q then Some v else m p)) = (\<lambda>p. map_option f (m p))(q \<mapsto> f v)"
  by auto

lemma idl_abs_fun:
  "dl_next (idl_abs base s) = (\<lambda>p. map_option (at_off base) (idl_next s p))"
  "dl_prev (idl_abs base s) = (\<lambda>p. map_option (at_off base) (idl_prev s p))"
  by (simp_all add: idl_abs_def)

lemma refines_init: "refines base (idlist_init base l) (dlist_init (at_off base l))"
  by (auto simp: refines_def idlist_init_def dlist_init_def c_eval idl_abs_fun map_option_upd split: option.splits)

lemma refines_empty: "refines base (idlist_empty base l) (dlist_empty (at_off base l))"
  by (auto simp: refines_def idlist_empty_def dlist_empty_def c_eval idl_abs_fun word_unat_eq_iff split: option.splits)

lemma refines_add_front:
  "refines base (idlist_add_front base l e) (dlist_add_front (at_off base l) (at_off base e))"
  by (auto simp: refines_def idlist_add_front_def dlist_add_front_def c_eval idl_abs_fun map_option_upd Let_def
      split: option.splits if_splits)

lemma refines_add_back:
  "refines base (idlist_add_back base l e) (dlist_add_back (at_off base l) (at_off base e))"
  unfolding refines_def
proof
  fix s
  show "outcome_of (\<lambda>t. t) (dlist_add_back (at_off base l) (at_off base e) (idl_abs base s))
      = outcome_of (idl_abs base) (idlist_add_back base l e s)"
    by (cases "idl_prev s (at_off base l)")
       (simp_all add: idlist_add_back_def dlist_add_back_def c_eval refinesD [OF refines_add_front])
qed

lemma refines_rm: "refines base (idlist_rm base e) (dlist_rm (at_off base e))"
  unfolding refines_def
proof
  fix s
  let ?p = "at_off base e"
  show "outcome_of (\<lambda>t. t) (dlist_rm ?p (idl_abs base s)) = outcome_of (idl_abs base) (idlist_rm base e s)"
  proof (cases "idl_next s ?p"; cases "idl_prev s ?p")
    fix n p assume np: "idl_next s ?p = Some n" "idl_prev s ?p = Some p"
    then show ?thesis
      by (cases "idl_prev s (at_off base n)"; cases "idl_next s (at_off base p)")
         (auto simp: idlist_rm_def dlist_rm_def c_eval idl_abs_fun map_option_upd Let_def)
  qed (simp_all add: idlist_rm_def dlist_rm_def c_eval Let_def)
qed

subsection \<open>Properties\<close>

text \<open>C23: At every base, each routine of the list over offsets does what the routine of the
  same name of the list over pointers does at the addresses \<open>base + offset\<close>: both return the
  same result and leave memories that correspond, or both are stopped by an access outside of
  the objects.\<close>

theorem idlist_refines_dlist:
  "refines base (idlist_init base l) (dlist_init (at_off base l))
   \<and> refines base (idlist_empty base l) (dlist_empty (at_off base l))
   \<and> refines base (idlist_add_front base l e) (dlist_add_front (at_off base l) (at_off base e))
   \<and> refines base (idlist_add_back base l e) (dlist_add_back (at_off base l) (at_off base e))
   \<and> refines base (idlist_rm base e) (dlist_rm (at_off base e))"
  by (intro conjI refines_init refines_empty refines_add_front refines_add_back refines_rm)

text \<open>The ring of offsets \<open>xs\<close> around the head \<open>l\<close>.\<close>

definition idl_rep :: "addr \<Rightarrow> idlist_mem \<Rightarrow> 32 word \<Rightarrow> 32 word list \<Rightarrow> bool" where
  "idl_rep base s l xs \<longleftrightarrow> dlist_rep (idl_abs base s) (at_off base l) (map (at_off base) xs)"

text \<open>On a ring of offsets, wherever it is mapped, \<open>idlist_add_front\<close> puts an element that
  is not on it first, \<open>idlist_add_back\<close> puts it last, and \<open>idlist_rm\<close> takes an element out,
  each leaving the others in their order.\<close>

theorem idlist_ring:
  assumes "idl_rep base s l (us @ vs)" and "is_dlink (idl_abs base s) (at_off base e)" and "e \<notin> set (l # us @ vs)"
  shows "(\<exists>s'. idlist_add_front base l e s = Ret () s' \<and> idl_rep base s' l (e # us @ vs))
    \<and> (\<exists>s'. idlist_add_back base l e s = Ret () s' \<and> idl_rep base s' l (us @ vs @ [e]))
    \<and> (\<forall>x ws. vs = x # ws \<longrightarrow> (\<exists>s'. idlist_rm base x s = Ret () s' \<and> idl_rep base s' l (us @ ws)))"
proof (intro conjI allI impI)
  let ?f = "at_off base" let ?a = "idl_abs base s" let ?xs = "map ?f (us @ vs)"
  have rep: "dlist_rep ?a (?f l) ?xs" using assms(1) by (simp add: idl_rep_def)
  have new: "?f e \<notin> set (?f l # ?xs)" using assms(3) at_off_in [of base e "l # us @ vs"] by simp
  show "\<exists>s'. idlist_add_front base l e s = Ret () s' \<and> idl_rep base s' l (e # us @ vs)"
    using refines_run [OF refines_add_front dlist_add_front_run [OF rep assms(2) new]]
      dlist_rep_put [of ?a "?f l" "[]" ?xs "?f e"] rep new assms(2)
    by (auto simp: idl_rep_def)
  show "\<exists>s'. idlist_add_back base l e s = Ret () s' \<and> idl_rep base s' l (us @ vs @ [e])"
    using refines_run [OF refines_add_back dlist_add_back_run [OF rep assms(2) new]]
      dlist_rep_put [of ?a "?f l" ?xs "[]" "?f e"] rep new assms(2)
    by (auto simp: idl_rep_def)
  fix x ws assume "vs = x # ws"
  with rep have rep': "dlist_rep ?a (?f l) (map ?f us @ ?f x # map ?f ws)" by simp
  show "\<exists>s'. idlist_rm base x s = Ret () s' \<and> idl_rep base s' l (us @ ws)"
    using refines_run [OF refines_rm dlist_rm_run [OF rep']] dlist_rep_cut [OF rep']
    by (auto simp: idl_rep_def)
qed

theorem idlist_ring_witness:
  "\<exists>s'. idlist_add_back 1000 8 24 \<lparr>idl_next = [1008 \<mapsto> 16, 1016 \<mapsto> 8, 1024 \<mapsto> 0], idl_prev = [1008 \<mapsto> 16, 1016 \<mapsto> 8, 1024 \<mapsto> 0]\<rparr> = Ret () s'
    \<and> idl_rep 1000 s' 8 [16, 24]"
proof -
  let ?s = "\<lparr>idl_next = [1008 \<mapsto> 16, 1016 \<mapsto> 8, 1024 \<mapsto> 0], idl_prev = [1008 \<mapsto> 16, 1016 \<mapsto> 8, 1024 \<mapsto> 0]\<rparr> :: idlist_mem"
  have "idl_rep 1000 ?s 8 ([] @ [16])" by (simp add: idl_rep_def dlist_rep_def)
  moreover have "is_dlink (idl_abs 1000 ?s) (at_off 1000 24)" by (simp add: is_dlink_def dom_def)
  ultimately show ?thesis using idlist_ring [of 1000 ?s 8 "[]" "[16]" 24] by simp
qed

end
