(* ===== verification/ShmSlist.thy ===== *)
theory ShmSlist
  imports CPrelude
begin

text \<open>
  The singly linked list over offsets of include/ctype/shm-slist.h and
  common/ctype/shm-slist.c, for objects in shared memory. Offsets are 32 bits wide, and the
  object at offset \<open>off\<close> has the address \<open>base + off\<close>. The output parameters of
  \<open>islist_iter_next\<close> and \<open>isl_fixup_list\<close> are returned beside the result.
\<close>

subsection \<open>Data and operations\<close>

record islist_mem =
  il_next :: "addr \<rightharpoonup> 32 word"
  isl_head :: "addr \<rightharpoonup> 32 word"
  isl_tail :: "addr \<rightharpoonup> 32 word"

record islist_iter =
  isl_base :: addr
  isl_bound :: "32 word"
  isl_curr :: "32 word"

abbreviation set_il_next :: "addr \<Rightarrow> 32 word \<Rightarrow> ('z islist_mem_scheme, unit) cprog" where
  "set_il_next p v \<equiv> wr il_next il_next_update p v"

abbreviation set_isl_head :: "addr \<Rightarrow> 32 word \<Rightarrow> ('z islist_mem_scheme, unit) cprog" where
  "set_isl_head p v \<equiv> wr isl_head isl_head_update p v"

abbreviation set_isl_tail :: "addr \<Rightarrow> 32 word \<Rightarrow> ('z islist_mem_scheme, unit) cprog" where
  "set_isl_tail p v \<equiv> wr isl_tail isl_tail_update p v"

text \<open>\<open>IDX_NIL\<close> is the int \<open>-1\<close>: compared with or stored into a 32-bit unsigned it is the
  largest one.\<close>

definition IDX_NIL :: "32 word" where "IDX_NIL = - 1"

definition ilink_init :: "addr \<Rightarrow> ('z islist_mem_scheme, unit) cprog" where
  "ilink_init elem = set_il_next elem IDX_NIL"

definition isl_init :: "addr \<Rightarrow> ('z islist_mem_scheme, unit) cprog" where
  "isl_init root = seqM (set_isl_head root IDX_NIL) (set_isl_tail root IDX_NIL)"

definition isl_empty :: "addr \<Rightarrow> ('z islist_mem_scheme, bool) cprog" where
  "isl_empty root =
     bindM (rd isl_head root) (\<lambda>h.
     if h = IDX_NIL then bindM (rd isl_tail root) (\<lambda>t. ret (t = IDX_NIL)) else ret False)"

definition islist_init :: "addr \<Rightarrow> 32 word \<Rightarrow> ('z islist_mem_scheme, unit) cprog" where
  "islist_init base list_off = isl_init (at_off base list_off)"

definition isl_iter_init :: "addr \<Rightarrow> addr \<Rightarrow> 32 word \<Rightarrow> ('z islist_mem_scheme, islist_iter) cprog" where
  "isl_iter_init root base bound =
     bindM (rd isl_head root) (\<lambda>h. ret \<lparr>isl_base = base, isl_bound = bound, isl_curr = h\<rparr>)"

definition islist_iter_init :: "addr \<Rightarrow> 32 word \<Rightarrow> 32 word \<Rightarrow> ('z islist_mem_scheme, islist_iter) cprog" where
  "islist_iter_init base list_off bound = isl_iter_init (at_off base list_off) base bound"

text \<open>The result is the return value, \<open>*next\<close>, \<open>*link\<close> and the iterator.\<close>

definition islist_iter_next ::
  "islist_iter \<Rightarrow> ('z islist_mem_scheme, int \<times> 32 word \<times> addr \<times> islist_iter) cprog" where
  "islist_iter_next iter =
     (if isl_curr iter = IDX_NIL \<or> isl_curr iter > isl_bound iter
      then ret (if isl_curr iter = IDX_NIL then - 1 else - 2, IDX_NIL, NULL, iter)
      else let link = at_off (isl_base iter) (isl_curr iter) in
           bindM (rd il_next link) (\<lambda>n. ret (0, isl_curr iter, link, iter\<lparr>isl_curr := n\<rparr>)))"

definition isl_add_front :: "addr \<Rightarrow> 32 word \<Rightarrow> addr \<Rightarrow> 32 word \<Rightarrow> ('z islist_mem_scheme, unit) cprog" where
  "isl_add_front base bound root elm_off =
     seqM (assertM (elm_off < bound))
    (bindM (rd isl_head root) (\<lambda>h.
     seqM (assertM (h < bound))
    (bindM (rd isl_tail root) (\<lambda>t.
     seqM (assertM (t < bound))
    (bindM (rd isl_head root) (\<lambda>h.
     seqM (set_il_next (at_off base elm_off) h)
    (seqM (set_isl_head root elm_off)
    (bindM (rd isl_tail root) (\<lambda>t.
     if t = IDX_NIL then set_isl_tail root elm_off else ret ())))))))))"

definition islist_add_front :: "addr \<Rightarrow> 32 word \<Rightarrow> 32 word \<Rightarrow> 32 word \<Rightarrow> ('z islist_mem_scheme, unit) cprog" where
  "islist_add_front base bound list_off elm_off =
     seqM (assertM (list_off < bound)) (isl_add_front base bound (at_off base list_off) elm_off)"

definition isl_rm_front :: "addr \<Rightarrow> 32 word \<Rightarrow> addr \<Rightarrow> ('z islist_mem_scheme, addr) cprog" where
  "isl_rm_front base bound root =
     bindM (rd isl_head root) (\<lambda>h.
     if h = IDX_NIL then ret NULL
     else let elem = at_off base h in
          seqM (assertM (h < bound))
         (bindM (rd il_next elem) (\<lambda>n.
          seqM (assertM (n < bound))
         (bindM (rd il_next elem) (\<lambda>n.
          seqM (set_isl_head root n)
         (seqM (set_il_next elem IDX_NIL)
         (bindM (rd isl_head root) (\<lambda>h.
          seqM (if h = IDX_NIL then set_isl_tail root IDX_NIL else ret ())
          (ret elem)))))))))"

definition islist_rm_front :: "addr \<Rightarrow> 32 word \<Rightarrow> 32 word \<Rightarrow> ('z islist_mem_scheme, addr) cprog" where
  "islist_rm_front base bound list_off =
     seqM (assertM (list_off < bound)) (isl_rm_front base bound (at_off base list_off))"

definition isl_add_back :: "addr \<Rightarrow> 32 word \<Rightarrow> addr \<Rightarrow> 32 word \<Rightarrow> ('z islist_mem_scheme, unit) cprog" where
  "isl_add_back base bound root elm_off =
     seqM (assertM (elm_off < bound))
    (bindM (rd isl_tail root) (\<lambda>t.
     seqM (assertM (t < bound))
    (bindM (rd isl_head root) (\<lambda>h.
     seqM (assertM (h < bound))
    (seqM (set_il_next (at_off base elm_off) IDX_NIL)
    (bindM (rd isl_tail root) (\<lambda>t.
     if t = IDX_NIL
     then seqM (set_isl_head root elm_off) (set_isl_tail root elm_off)
     else bindM (rd il_next (at_off base t)) (\<lambda>n.
          seqM (assertM (n = IDX_NIL))
         (seqM (set_il_next (at_off base t) elm_off)
          (set_isl_tail root elm_off))))))))))"

definition islist_add_back :: "addr \<Rightarrow> 32 word \<Rightarrow> 32 word \<Rightarrow> 32 word \<Rightarrow> ('z islist_mem_scheme, unit) cprog" where
  "islist_add_back base bound list_off elm_off =
     seqM (assertM (list_off < bound)) (isl_add_back base bound (at_off base list_off) elm_off)"

text \<open>\<open>islist_find\<close> and \<open>islist_filter_out\<close> have empty bodies in the source.\<close>

definition islist_find ::
  "addr \<Rightarrow> 32 word \<Rightarrow> 32 word \<Rightarrow> 32 word \<Rightarrow> (addr \<Rightarrow> addr \<Rightarrow> ('z islist_mem_scheme, int) cprog) \<Rightarrow> bool \<Rightarrow> addr
   \<Rightarrow> ('z islist_mem_scheme, unit) cprog" where
  "islist_find base bound list_off elm_off cmp_fn rm prv = ret ()"

definition islist_filter_out ::
  "addr \<Rightarrow> 32 word \<Rightarrow> 32 word \<Rightarrow> 32 word \<Rightarrow> (addr \<Rightarrow> addr \<Rightarrow> ('z islist_mem_scheme, bool) cprog) \<Rightarrow> addr
   \<Rightarrow> ('z islist_mem_scheme, int) cprog" where
  "islist_filter_out base bound root_off nlist_off sel_fn arg = ret 0"

text \<open>The counting loop at the end of \<open>isl_fixup_list\<close>, and the whole routine; the result is
  the return value and \<open>*cnt\<close>.\<close>

partial_function (option) isl_count_loop ::
  "islist_iter \<Rightarrow> 32 word \<Rightarrow> ('z islist_mem_scheme, int \<times> 32 word) cprog" where
  "isl_count_loop iter cnt s =
     bindM (islist_iter_next iter) (\<lambda>(r, off, nxt, iter').
       if r = - 2 then ret (r, 0)
       else if r = 0 then isl_count_loop iter' (cnt + 1)
       else ret (0, cnt + 1 - 1)) s"

definition isl_repair :: "addr \<Rightarrow> 32 word \<Rightarrow> addr \<Rightarrow> ('z islist_mem_scheme, int) cprog" where
  "isl_repair base bound root =
     bindM (rd isl_tail root) (\<lambda>t.
     bindM (rd isl_head root) (\<lambda>h.
     if t = IDX_NIL
     then if h \<noteq> IDX_NIL then seqM (set_isl_tail root h) (ret 0) else ret 0
     else if h = IDX_NIL
     then bindM (rd il_next (at_off base t)) (\<lambda>n.
          if n = IDX_NIL then seqM (set_isl_tail root IDX_NIL) (ret 0) else ret (- 1))
     else bindM (rd il_next (at_off base t)) (\<lambda>n.
          if n \<noteq> IDX_NIL
          then if n > bound then ret (- 2)
               else bindM (rd il_next (at_off base n)) (\<lambda>nn.
                    if nn = IDX_NIL then seqM (set_isl_tail root n) (ret 0) else ret (- 1))
          else ret 0)))"

definition isl_fixup_list ::
  "addr \<Rightarrow> 32 word \<Rightarrow> addr \<Rightarrow> ('z islist_mem_scheme, int \<times> 32 word) cprog" where
  "isl_fixup_list base bound root =
     bindM (rd isl_head root) (\<lambda>h.
     bindM (if h \<ge> bound then ret True else bindM (rd isl_tail root) (\<lambda>t. ret (t \<ge> bound))) (\<lambda>out.
     if out then ret (- 2, 0)
     else bindM (isl_repair base bound root) (\<lambda>r.
          if r \<noteq> 0 then ret (r, 0)
          else bindM (isl_iter_init root base bound) (\<lambda>iter. isl_count_loop iter 0))))"

definition islist_fixup_list ::
  "addr \<Rightarrow> 32 word \<Rightarrow> 32 word \<Rightarrow> ('z islist_mem_scheme, int \<times> 32 word) cprog" where
  "islist_fixup_list base bound list_off =
     seqM (assertM (list_off < bound)) (isl_fixup_list base bound (at_off base list_off))"

subsection \<open>Representation\<close>

fun ipath :: "(addr \<rightharpoonup> 32 word) \<Rightarrow> addr \<Rightarrow> 32 word list \<Rightarrow> bool" where
  "ipath nx base [] \<longleftrightarrow> True"
| "ipath nx base [x] \<longleftrightarrow> nx (at_off base x) = Some IDX_NIL"
| "ipath nx base (x # y # xs) \<longleftrightarrow> nx (at_off base x) = Some y \<and> ipath nx base (y # xs)"

text \<open>The list at \<open>root\<close> has the elements \<open>xs\<close>, all below the bound.\<close>

definition isl_rep :: "addr \<Rightarrow> 32 word \<Rightarrow> 'z islist_mem_scheme \<Rightarrow> addr \<Rightarrow> 32 word list \<Rightarrow> bool" where
  "isl_rep base bound s root xs \<longleftrightarrow>
     isl_head s root = Some (if xs = [] then IDX_NIL else hd xs)
     \<and> isl_tail s root = Some (if xs = [] then IDX_NIL else last xs)
     \<and> ipath (il_next s) base xs \<and> distinct xs \<and> (\<forall>x \<in> set xs. x < bound)"

lemma NIL_not_less [simp]: "\<not> IDX_NIL < bound" "bound \<le> IDX_NIL"
  by (simp_all add: IDX_NIL_def)

lemma less_not_NIL: "x < bound \<Longrightarrow> x \<noteq> IDX_NIL"
  by auto

lemma ipath_frame:
  "u \<notin> set xs \<Longrightarrow> ipath (nx(at_off base u := v)) base xs = ipath nx base xs"
  by (induction xs rule: ipath.induct [where ?a0.0 = nx and ?a1.0 = base]) (auto simp: word_unat_eq_iff)

lemma ipath_cons: "ipath nx base (x # xs) \<longleftrightarrow> nx (at_off base x) = Some (if xs = [] then IDX_NIL else hd xs) \<and> ipath nx base xs"
  by (cases xs) auto

lemma ipath_snoc:
  "xs \<noteq> [] \<Longrightarrow> distinct (xs @ [e]) \<Longrightarrow> ipath nx base xs \<Longrightarrow>
   ipath (nx(at_off base e \<mapsto> IDX_NIL, at_off base (last xs) \<mapsto> e)) base (xs @ [e])"
proof (induction xs)
  case (Cons x xs)
  then have "xs \<noteq> [] \<Longrightarrow> x \<noteq> last xs" "x \<noteq> e" "xs \<noteq> [] \<Longrightarrow> e \<noteq> last xs" using last_in_set [of xs] by auto
  with Cons show ?case by (auto simp: word_unat_eq_iff ipath_cons hd_append)
qed simp

lemma ipath_last: "xs \<noteq> [] \<Longrightarrow> ipath nx base xs \<Longrightarrow> nx (at_off base (last xs)) = Some IDX_NIL"
  by (induction xs rule: ipath.induct [where ?a0.0 = nx and ?a1.0 = base]) auto

lemma ipath_cell: "ipath nx base xs \<Longrightarrow> x \<in> set xs \<Longrightarrow> \<exists>v. nx (at_off base x) = Some v"
  by (induction xs) (auto simp: ipath_cons)

lemma ipath_prev:
  "xs \<noteq> [] \<Longrightarrow> ipath nx base (xs @ [x]) \<Longrightarrow> nx (at_off base (last xs)) = Some x \<and> nx (at_off base x) = Some IDX_NIL"
  by (induction xs) (auto simp: ipath_cons split: if_splits)

lemma isl_count_loop_run:
  "ipath (il_next s) base xs \<Longrightarrow> \<forall>x \<in> set xs. x < bound \<Longrightarrow>
   isl_count_loop \<lparr>isl_base = base, isl_bound = bound, isl_curr = if xs = [] then IDX_NIL else hd xs\<rparr> cnt s
     = Ret (0, cnt + of_nat (length xs)) s"
proof (induction xs arbitrary: cnt)
  case Nil
  then show ?case by (subst isl_count_loop.simps) (simp add: islist_iter_next_def c_eval)
next
  case (Cons x xs)
  then have "x \<noteq> IDX_NIL" "\<not> bound < x" using less_not_NIL [of x bound] by auto
  with Cons show ?case
    by (subst isl_count_loop.simps) (simp add: islist_iter_next_def c_eval ipath_cons add.assoc Let_def)
qed

lemma isl_rep_cons:
  assumes "isl_rep base bound s root (x # xs)"
  shows "isl_head s root = Some x" "isl_tail s root = Some (last (x # xs))" "ipath (il_next s) base (x # xs)"
    "distinct (x # xs)" "\<forall>y \<in> set (x # xs). y < bound" "last (x # xs) < bound" "last (x # xs) \<in> set (x # xs)"
proof -
  show l: "last (x # xs) \<in> set (x # xs)" by (rule last_in_set) simp
  show "\<forall>y \<in> set (x # xs). y < bound" using assms by (simp add: isl_rep_def)
  with l show "last (x # xs) < bound" by blast
qed (use assms in \<open>simp_all add: isl_rep_def\<close>)

lemma isl_add_front_run:
  assumes rep: "isl_rep base bound s root (x # xs)"
    and new: "e < bound" "e \<notin> set (x # xs)" "il_next s (at_off base e) = Some v"
  shows "\<exists>s'. isl_add_front base bound root e s = Ret () s' \<and> isl_rep base bound s' root (e # x # xs)"
proof -
  let ?s = "s\<lparr>il_next := (il_next s)(at_off base e \<mapsto> x), isl_head := (isl_head s)(root \<mapsto> e)\<rparr>"
  note h = isl_rep_cons [OF rep]
  have "x < bound" "last (x # xs) \<noteq> IDX_NIL" using h(5) less_not_NIL [OF h(6)] by simp_all
  then have "isl_add_front base bound root e s = Ret () ?s"
    using h(1, 2, 6) new by (simp add: isl_add_front_def c_eval del: last.simps)
  moreover have "isl_rep base bound ?s root (e # x # xs)"
    using h(1-5) new ipath_frame [OF new(2), of "il_next s" base "Some x"] by (simp add: isl_rep_def)
  ultimately show ?thesis by blast
qed

lemma isl_add_back_run:
  assumes rep: "isl_rep base bound s root (x # xs)"
    and new: "e < bound" "e \<notin> set (x # xs)" "il_next s (at_off base e) = Some v"
  shows "\<exists>s'. isl_add_back base bound root e s = Ret () s' \<and> isl_rep base bound s' root (x # xs @ [e])"
proof -
  let ?t = "last (x # xs)"
  let ?s = "s\<lparr>il_next := (il_next s)(at_off base e \<mapsto> IDX_NIL, at_off base ?t \<mapsto> e), isl_tail := (isl_tail s)(root \<mapsto> e)\<rparr>"
  note h = isl_rep_cons [OF rep]
  have "il_next s (at_off base ?t) = Some IDX_NIL" by (rule ipath_last [OF _ h(3)]) simp
  moreover have "x < bound" "?t \<noteq> IDX_NIL" "?t \<noteq> e" using h(5, 7) new(2) less_not_NIL [OF h(6)] by (simp, simp, metis)
  ultimately have "isl_add_back base bound root e s = Ret () ?s"
    using h(1, 2, 6) new by (simp add: isl_add_back_def c_eval word_unat_eq_iff del: last.simps)
  moreover have "ipath (il_next ?s) base (x # xs @ [e])" "distinct (x # xs @ [e])"
    using ipath_snoc [of "x # xs" e "il_next s" base] h(3, 4) new(2) by (auto simp del: last.simps)
  then have "isl_rep base bound ?s root (x # xs @ [e])"
    using h(1, 5) new(1) by (simp add: isl_rep_def del: last.simps) simp
  ultimately show ?thesis by blast
qed

lemma isl_rm_front_run:
  assumes rep: "isl_rep base bound s root (x # y # xs)"
  shows "\<exists>s'. isl_rm_front base bound root s = Ret (at_off base x) s' \<and> isl_rep base bound s' root (y # xs)"
proof -
  let ?s = "s\<lparr>isl_head := (isl_head s)(root \<mapsto> y), il_next := (il_next s)(at_off base x \<mapsto> IDX_NIL)\<rparr>"
  note h = isl_rep_cons [OF rep]
  have "x < bound" "y < bound" "x \<noteq> IDX_NIL" "y \<noteq> IDX_NIL" using h(5) by auto
  then have "isl_rm_front base bound root s = Ret (at_off base x) ?s"
    using h(1-3) by (simp add: isl_rm_front_def c_eval Let_def)
  moreover have "isl_rep base bound ?s root (y # xs)"
    using h(1-5) ipath_frame [of x "y # xs" "il_next s" base "Some IDX_NIL"] by (simp add: isl_rep_def)
  ultimately show ?thesis by blast
qed

subsection \<open>Properties\<close>

text \<open>On a list with elements, \<open>isl_add_front\<close> and \<open>isl_add_back\<close> put an element that is
  not on it first or last, and \<open>isl_rm_front\<close> takes the first one off and returns its address
  when another one follows.\<close>

theorem isl_nonempty_ops:
  assumes "isl_rep base bound s root (x # xs)" and "e < bound" and "e \<notin> set (x # xs)" and "il_next s (at_off base e) \<noteq> None"
  shows "(\<exists>s'. isl_add_front base bound root e s = Ret () s' \<and> isl_rep base bound s' root (e # x # xs))
    \<and> (\<exists>s'. isl_add_back base bound root e s = Ret () s' \<and> isl_rep base bound s' root (x # xs @ [e]))
    \<and> (xs \<noteq> [] \<longrightarrow> (\<exists>s'. isl_rm_front base bound root s = Ret (at_off base x) s' \<and> isl_rep base bound s' root xs))"
proof -
  obtain v where v: "il_next s (at_off base e) = Some v" using assms(4) by blast
  show ?thesis
    using isl_add_front_run [OF assms(1-3) v] isl_add_back_run [OF assms(1-3) v] isl_rm_front_run [of base bound s root x] assms(1)
    by (cases xs) simp_all
qed

definition shm_demo :: islist_mem where
  "shm_demo = \<lparr>il_next = [1016 \<mapsto> 24, 1024 \<mapsto> IDX_NIL, 1032 \<mapsto> 0], isl_head = [1008 \<mapsto> 16], isl_tail = [1008 \<mapsto> 24]\<rparr>"

lemma shm_demo_rep: "isl_rep 1000 64 shm_demo 1008 [16, 24]"
  by (simp add: isl_rep_def shm_demo_def)

theorem isl_nonempty_ops_witness:
  "\<exists>s'. isl_add_back 1000 64 1008 32 shm_demo = Ret () s' \<and> isl_rep 1000 64 s' 1008 [16, 24, 32]"
  using isl_nonempty_ops [OF shm_demo_rep, of 32] by (simp add: shm_demo_def)

text \<open>An empty list stays unusable: \<open>IDX_NIL\<close> is not below any bound, so both insertions
  fail their checks on an empty list, \<open>isl_rm_front\<close> fails its check on a list of one element,
  and \<open>isl_fixup_list\<close> takes an empty list for a corrupted one.\<close>

theorem isl_empty_unusable:
  assumes "isl_rep base bound s root []" and "isl_rep base bound s root' [x]"
  shows "isl_add_front base bound root e s = Abort Assert_fail
    \<and> isl_add_back base bound root e s = Abort Assert_fail
    \<and> isl_rm_front base bound root' s = Abort Assert_fail
    \<and> isl_fixup_list base bound root s = Ret (- 2, 0) s"
  using assms less_not_NIL [of x bound]
  by (simp add: isl_rep_def isl_add_front_def isl_add_back_def isl_rm_front_def isl_fixup_list_def c_eval Let_def)

definition shm_empty :: islist_mem where
  "shm_empty = \<lparr>il_next = [1016 \<mapsto> IDX_NIL, 1024 \<mapsto> IDX_NIL],
                isl_head = [1008 \<mapsto> IDX_NIL, 1000 \<mapsto> 16], isl_tail = [1008 \<mapsto> IDX_NIL, 1000 \<mapsto> 16]\<rparr>"

theorem isl_empty_unusable_witness:
  "isl_add_back 1000 64 1008 24 shm_empty = Abort Assert_fail \<and> isl_rm_front 1000 64 1000 shm_empty = Abort Assert_fail"
  using isl_empty_unusable [of 1000 64 shm_empty 1008 1000 16 24] by (simp add: isl_rep_def shm_empty_def)

text \<open>C28: \<open>isl_fixup_list\<close> returns 0 and the number of elements of a list with at least one element that is
  intact, without changing it. When \<open>isl_add_back\<close> was interrupted on such a list before it moved the tail, it moves the
  tail to the new element, and returns 0 and the number of elements including it. (An empty list it
  takes for corrupted.)\<close>

theorem isl_fixup_recovers:
  assumes "ipath (il_next s) base (x # xs)" and "distinct (x # xs)" and "\<forall>y \<in> set (x # xs). y < bound"
    and "isl_head s root = Some x"
  shows "(isl_tail s root = Some (last (x # xs)) \<longrightarrow>
      isl_fixup_list base bound root s = Ret (0, of_nat (length (x # xs))) s)
    \<and> (\<forall>ys e. x # xs = ys @ [e] \<and> ys \<noteq> [] \<and> isl_tail s root = Some (last ys) \<longrightarrow>
      (\<exists>s'. isl_fixup_list base bound root s = Ret (0, of_nat (length (x # xs))) s' \<and> isl_rep base bound s' root (x # xs)))"
proof (intro conjI impI allI)
  have x: "x < bound" "x \<noteq> IDX_NIL" "\<not> bound \<le> x" using assms(3) by auto
  note count = isl_count_loop_run [OF assms(1, 3), where cnt = 0]
  {
    assume t: "isl_tail s root = Some (last (x # xs))"
    have l: "last (x # xs) < bound" using assms(3) last_in_set [of "x # xs"] by blast
    have "il_next s (at_off base (last (x # xs))) = Some IDX_NIL" by (rule ipath_last [OF _ assms(1)]) simp
    then show "isl_fixup_list base bound root s = Ret (0, of_nat (length (x # xs))) s"
      using t assms(4) x l less_not_NIL [OF l] count
      by (simp add: isl_fixup_list_def isl_repair_def isl_iter_init_def c_eval not_le del: last.simps)
  }
  fix ys e assume ys: "x # xs = ys @ [e] \<and> ys \<noteq> [] \<and> isl_tail s root = Some (last ys)"
  have mem: "last ys \<in> set (x # xs)" "e \<in> set (x # xs)" using ys last_in_set [of ys] by auto
  then have lt: "last ys < bound" "e < bound" using assms(3) by blast+
  have link: "il_next s (at_off base (last ys)) = Some e \<and> il_next s (at_off base e) = Some IDX_NIL"
    using ipath_prev [of ys] ys assms(1) by simp
  let ?s = "s\<lparr>isl_tail := (isl_tail s)(root \<mapsto> e)\<rparr>"
  have "isl_count_loop \<lparr>isl_base = base, isl_bound = bound, isl_curr = x\<rparr> 0 ?s = Ret (0, of_nat (length (x # xs))) ?s"
    using isl_count_loop_run [of ?s base "x # xs" bound 0] assms(1, 3) by simp
  then have "isl_fixup_list base bound root s = Ret (0, of_nat (length (x # xs))) ?s"
    using ys assms(4) x lt link less_not_NIL [OF lt(1)] less_not_NIL [OF lt(2)]
    by (simp add: isl_fixup_list_def isl_repair_def isl_iter_init_def c_eval not_le)
  moreover have "last (x # xs) = e" using ys by (metis last_snoc)
  then have "isl_rep base bound ?s root (x # xs)"
    using assms by (simp add: isl_rep_def del: last.simps)
  ultimately show "\<exists>s'. isl_fixup_list base bound root s = Ret (0, of_nat (length (x # xs))) s' \<and> isl_rep base bound s' root (x # xs)"
    by blast
qed

theorem isl_fixup_recovers_witness:
  "\<exists>s'. isl_fixup_list 1000 64 1008 (shm_demo\<lparr>isl_tail := [1008 \<mapsto> 16]\<rparr>) = Ret (0, 2) s' \<and> isl_rep 1000 64 s' 1008 [16, 24]"
  using isl_fixup_recovers [of "shm_demo\<lparr>isl_tail := [1008 \<mapsto> 16]\<rparr>" 1000 16 "[24]" 64 1008]
  by (simp add: shm_demo_def)

end
