(* ===== verification/ShmSeg.thy ===== *)
theory ShmSeg
  imports ShmSlist Bitmap
begin

text \<open>
  The segments of fixed-size records in shared memory of common/ctype/shm-seg.h and
  common/ctype/shm-seg.c: the header at the start of the segment, the control object in
  private memory, the computation of the layout, and the allocation of records. The free list
  of a segment is the list over offsets at the header's \<open>seg_free_rec\<close>. A mutex is the set of
  the mutexes held: locking one that is held never returns. Writing the layout of a fresh
  segment (\<open>shm_seg_reinit\<close>) reaches the same memory as header, fence, bitmap and records, and
  is outside of this model of memory by structure field.
\<close>

unbundle bit_operations_syntax

subsection \<open>Data\<close>

record shm_mem = islist_mem +
  seg_uuid :: "addr \<rightharpoonup> 64 word"
  seg_pa :: "addr \<rightharpoonup> 64 word"
  seg_link :: "addr \<rightharpoonup> 32 word \<times> 32 word"
  seg_state :: "addr \<rightharpoonup> 32 word"
  seg_size :: "addr \<rightharpoonup> 32 word"
  seg_rec_size :: "addr \<rightharpoonup> 32 word"
  seg_uhdr_size :: "addr \<rightharpoonup> 16 word"
  seg_rec_alignment :: "addr \<rightharpoonup> 16 word"
  seg_uhdr_off :: "addr \<rightharpoonup> 32 word"
  seg_ntotal :: "addr \<rightharpoonup> 32 word"
  seg_nfree :: "addr \<rightharpoonup> 32 word"
  seg_npending :: "addr \<rightharpoonup> 32 word"
  seg_uuid_dup :: "addr \<rightharpoonup> 64 word"
  seg_ptr :: "addr \<rightharpoonup> addr"
  seg_spin :: "addr \<rightharpoonup> addr"
  seg_ops :: "addr \<rightharpoonup> addr"
  seg_held :: "addr set"

definition SHM_SEG_EMPTY :: "32 word" where "SHM_SEG_EMPTY = 0x00000001"
definition SHM_SEG_PARTIAL :: "32 word" where "SHM_SEG_PARTIAL = 0x00000002"
definition SHM_SEG_FULL :: "32 word" where "SHM_SEG_FULL = 0x00000004"
definition SHM_SEG_EXCL_MASK :: "32 word" where "SHM_SEG_EXCL_MASK = 0x0000ffff"
definition SHM_SEG_INTERN_REC :: "32 word" where "SHM_SEG_INTERN_REC = 0x10000000"
definition SHM_SEG_EXTERN_REC :: "32 word" where "SHM_SEG_EXTERN_REC = 0x20000000"

text \<open>The sizes of the header and of a record header, and the place of the free list in the
  header (the members before it take 56 bytes).\<close>

definition sizeof_shm_seg_hdr :: "64 word" where "sizeof_shm_seg_hdr = 72"
definition sizeof_seg_rec_hdr :: "64 word" where "sizeof_seg_rec_hdr = 8"
definition sizeof_u32 :: "64 word" where "sizeof_u32 = 4"

definition seg_free_rec :: "addr \<Rightarrow> addr" where
  "seg_free_rec hdr = hdr + 56"

record shm_seg_param =
  shm_rec_align_sz :: "32 word"
  shm_rec_size :: "32 word"
  shm_uhdr_size :: "32 word"
  shm_seg_size :: "64 word"
  shm_seg_pa :: "64 word"

subsection \<open>Checks and layout\<close>

definition seg_verify :: "addr \<Rightarrow> (shm_mem, int) cprog" where
  "seg_verify seg =
     bindM (rd seg_size seg) (\<lambda>n.
     bindM (isl_fixup_list seg n (seg_free_rec seg)) (\<lambda>(r, cnt).
     if r = 0 then bindM (rd seg_nfree seg) (\<lambda>_. ret r) else ret r))"

definition seg_verify_layout :: "addr \<Rightarrow> (shm_mem, bool) cprog" where
  "seg_verify_layout seg = ret True"

text \<open>Unsigned division, which stops the program when the divisor is 0.\<close>

definition divM :: "'a::len word \<Rightarrow> 'a word \<Rightarrow> ('s, 'a word) cprog" where
  "divM a b = (if b = 0 then abortM Div_zero else ret (a div b))"

text \<open>\<open>seg_cal_usage\<close> works out the number, kind and size of the records, the size of the area
  in front of them and the offset of the user's header. Sizes are 64 bits wide where
  \<open>size_t\<close> takes part and are cut to 32 bits when stored. \<open>round_up_align\<close> is not defined in
  the repository and is a parameter.\<close>

definition seg_cal_usage ::
  "(32 word \<Rightarrow> 32 word \<Rightarrow> 32 word) \<Rightarrow> shm_seg_param
   \<Rightarrow> ('s, 32 word \<times> 32 word \<times> 32 word \<times> 32 word \<times> 32 word) cprog" where
  "seg_cal_usage round_up_align p =
     (let hdr_siz = ucast (sizeof_shm_seg_hdr + ucast (shm_uhdr_size p) + sizeof_u32) :: 32 word;
          hdr_siz = round_up_align hdr_siz (shm_rec_align_sz p);
          rec_siz = round_up_align (shm_rec_size p) (shm_rec_align_sz p);
          usr_siz = ucast (shm_seg_size p - ucast hdr_siz) :: 32 word in
      bindM (if usr_siz > rec_siz then divM usr_siz rec_siz
             else ret (ucast (ucast usr_siz div sizeof_seg_rec_hdr))) (\<lambda>cnt :: 32 word.
      let hdr_siz = ucast (word_of_int (bmap_u32cnt (sint cnt)) * sizeof_u32) :: 32 word;
          uhdr_off = ucast (ucast hdr_siz + sizeof_shm_seg_hdr + sizeof_u32) :: 32 word;
          hdr_siz = hdr_siz + shm_uhdr_size p;
          hdr_siz = round_up_align hdr_siz (shm_rec_align_sz p);
          usr_siz = ucast (shm_seg_size p - ucast hdr_siz) :: 32 word in
      if usr_siz \<ge> rec_siz
      then bindM (divM usr_siz rec_siz) (\<lambda>n. ret (n, SHM_SEG_INTERN_REC, rec_siz, hdr_siz, uhdr_off))
      else ret (ucast (ucast usr_siz div sizeof_seg_rec_hdr :: 64 word), SHM_SEG_EXTERN_REC, rec_siz, hdr_siz, uhdr_off)))"

subsection \<open>Handles\<close>

definition shm_seg_handle2obj :: "addr \<Rightarrow> (shm_mem, addr \<times> addr) cprog" where
  "shm_seg_handle2obj handle =
     bindM (rd seg_ptr handle) (\<lambda>hdr.
     bindM (rd seg_uuid hdr) (\<lambda>u. bindM (rd seg_uuid_dup hdr) (\<lambda>d.
     seqM (assertM (u = d)) (ret (handle, hdr)))))"

text \<open>The header is set to zeroes, one member after the other.\<close>

definition shm_seg_clear_header :: "addr \<Rightarrow> (shm_mem, unit) cprog" where
  "shm_seg_clear_header handle =
     bindM (shm_seg_handle2obj handle) (\<lambda>(obj, seg).
     seqM (wr seg_uuid seg_uuid_update seg 0)
    (seqM (wr seg_pa seg_pa_update seg 0)
    (seqM (wr seg_link seg_link_update seg (0, 0))
    (seqM (wr seg_state seg_state_update seg 0)
    (seqM (wr seg_size seg_size_update seg 0)
    (seqM (wr seg_rec_size seg_rec_size_update seg 0)
    (seqM (wr seg_uhdr_size seg_uhdr_size_update seg 0)
    (seqM (wr seg_rec_alignment seg_rec_alignment_update seg 0)
    (seqM (wr seg_uhdr_off seg_uhdr_off_update seg 0)
    (seqM (wr seg_ntotal seg_ntotal_update seg 0)
    (seqM (wr seg_nfree seg_nfree_update seg 0)
    (seqM (wr seg_npending seg_npending_update seg 0)
    (seqM (set_isl_head (seg_free_rec seg) 0)
    (seqM (set_isl_tail (seg_free_rec seg) 0)
     (wr seg_uuid_dup seg_uuid_dup_update seg 0)))))))))))))))"

text \<open>The control object is freed: no member of it can be reached any more.\<close>

definition free_seg_obj :: "addr \<Rightarrow> (shm_mem, unit) cprog" where
  "free_seg_obj p s = Ret () (s\<lparr>seg_ptr := (seg_ptr s)(p := None), seg_spin := (seg_spin s)(p := None),
     seg_ops := (seg_ops s)(p := None)\<rparr>)"

text \<open>The unmap function of the operations at an address, when there is one.\<close>

type_synonym unmap_ops = "addr \<Rightarrow> (addr \<Rightarrow> 64 word \<Rightarrow> (shm_mem, unit) cprog) option"

definition shm_seg_dtor :: "unmap_ops \<Rightarrow> addr \<Rightarrow> (shm_mem, unit) cprog" where
  "shm_seg_dtor shm_unmap_va obj =
     bindM (shm_seg_handle2obj obj) (\<lambda>(seg, hdr).
     bindM (rd seg_ops seg) (\<lambda>ops.
     seqM (case shm_unmap_va ops of
             None \<Rightarrow> ret ()
           | Some fn \<Rightarrow> bindM (rd seg_ptr seg) (\<lambda>h. bindM (rd seg_pa h) (\<lambda>pa. fn NULL pa)))
     (free_seg_obj seg)))"

definition shm_seg_uuid :: "addr \<Rightarrow> (shm_mem, 64 word) cprog" where
  "shm_seg_uuid obj = bindM (shm_seg_handle2obj obj) (\<lambda>(seg, hdr). bindM (rd seg_ptr seg) (\<lambda>h. rd seg_uuid h))"

definition shm_seg_op_arg :: "addr \<Rightarrow> (shm_mem, addr) cprog" where
  "shm_seg_op_arg obj = bindM (shm_seg_handle2obj obj) (\<lambda>(seg, hdr). ret NULL)"

definition shm_seg_spinlock :: "addr \<Rightarrow> (shm_mem, addr) cprog" where
  "shm_seg_spinlock obj = bindM (shm_seg_handle2obj obj) (\<lambda>(seg, hdr). rd seg_spin seg)"

definition shm_seg_uhdr :: "addr \<Rightarrow> (shm_mem, addr) cprog" where
  "shm_seg_uhdr obj =
     bindM (shm_seg_handle2obj obj) (\<lambda>(seg, hdr).
     bindM (rd seg_ptr seg) (\<lambda>h. bindM (rd seg_uhdr_off h) (\<lambda>off. ret (at_off h off))))"

definition shm_seg_base_adr :: "addr \<Rightarrow> (shm_mem, addr \<times> 32 word \<times> 64 word) cprog" where
  "shm_seg_base_adr obj =
     bindM (shm_seg_handle2obj obj) (\<lambda>(seg, hdr).
     bindM (rd seg_pa hdr) (\<lambda>pa. bindM (rd seg_size hdr) (\<lambda>n. ret (hdr, n, pa))))"

subsection \<open>Records\<close>

definition seg_mutex_lock :: "addr \<Rightarrow> (shm_mem, unit) cprog" where
  "seg_mutex_lock m s = (if m \<in> seg_held s then None else Ret () (s\<lparr>seg_held := insert m (seg_held s)\<rparr>))"

definition seg_mutex_unlock :: "addr \<Rightarrow> (shm_mem, unit) cprog" where
  "seg_mutex_unlock m s = Ret () (s\<lparr>seg_held := seg_held s - {m}\<rparr>)"

definition shm_verify_pa_range :: "addr \<Rightarrow> 64 word \<Rightarrow> (shm_mem, unit) cprog" where
  "shm_verify_pa_range hdr pa =
     bindM (rd seg_pa hdr) (\<lambda>b. bindM (rd seg_size hdr) (\<lambda>n. assertM (pa \<le> b + ucast n)))"

abbreviation set_seg_state :: "addr \<Rightarrow> 32 word \<Rightarrow> (shm_mem, unit) cprog" where
  "set_seg_state p v \<equiv> wr seg_state seg_state_update p v"

abbreviation set_seg_nfree :: "addr \<Rightarrow> 32 word \<Rightarrow> (shm_mem, unit) cprog" where
  "set_seg_nfree p v \<equiv> wr seg_nfree seg_nfree_update p v"

text \<open>The part of \<open>shm_seg_alloc_rec\<close> under the lock: the address of the record, or \<open>NULL\<close>.\<close>

definition alloc_locked :: "addr \<Rightarrow> (shm_mem, addr) cprog" where
  "alloc_locked hdr =
     bindM (rd seg_size hdr) (\<lambda>n.
     bindM (isl_rm_front hdr n (seg_free_rec hdr)) (\<lambda>ptr.
     if ptr \<noteq> NULL
     then bindM (rd seg_nfree hdr) (\<lambda>k.
          seqM (set_seg_nfree hdr (k - 1))
         (bindM (rd seg_state hdr) (\<lambda>st.
          seqM (set_seg_state hdr (st AND NOT SHM_SEG_EXCL_MASK))
         (bindM (rd seg_nfree hdr) (\<lambda>k.
          bindM (rd seg_state hdr) (\<lambda>st.
          seqM (set_seg_state hdr (st OR (if k = 0 then SHM_SEG_FULL else SHM_SEG_PARTIAL)))
          (ret ptr)))))))
     else ret ptr))"

text \<open>The result is the address of the record and \<open>*pa\<close>.\<close>

definition shm_seg_alloc_rec :: "addr \<Rightarrow> (shm_mem, addr \<times> 64 word) cprog" where
  "shm_seg_alloc_rec obj =
     bindM (shm_seg_handle2obj obj) (\<lambda>(seg, hdr).
     bindM (rd seg_state hdr) (\<lambda>st.
     bindM (if st AND SHM_SEG_FULL = 0
            then bindM (rd seg_spin seg) (\<lambda>m.
                 seqM (seg_mutex_lock m)
                (bindM (alloc_locked hdr) (\<lambda>ptr.
                 seqM (seg_mutex_unlock m) (ret ptr))))
            else ret NULL) (\<lambda>ptr.
     bindM (if ptr \<noteq> NULL then bindM (rd seg_pa hdr) (\<lambda>b. ret (b + of_nat (ptr - hdr))) else ret 0) (\<lambda>pa.
     bindM (rd seg_state hdr) (\<lambda>st.
     if st AND SHM_SEG_INTERN_REC \<noteq> 0
     then seqM (shm_verify_pa_range hdr pa) (ret (ptr, pa))
     else ret (NULL, pa))))))"

definition shm_seg_free_rec :: "addr \<Rightarrow> 64 word \<Rightarrow> (shm_mem, unit) cprog" where
  "shm_seg_free_rec obj pa =
     bindM (shm_seg_handle2obj obj) (\<lambda>(seg, hdr).
     bindM (rd seg_spin seg) (\<lambda>m.
     seqM (seg_mutex_lock m)
    (bindM (rd seg_state hdr) (\<lambda>st.
     seqM (if st AND SHM_SEG_INTERN_REC \<noteq> 0
           then bindM (rd seg_pa hdr) (\<lambda>b.
                seqM (assertM (pa \<ge> b))
               (bindM (rd seg_size hdr) (\<lambda>n.
                seqM (isl_add_front hdr n (seg_free_rec hdr) (ucast (pa - b)))
               (bindM (rd seg_nfree hdr) (\<lambda>k.
                seqM (set_seg_nfree hdr (k + 1))
               (bindM (rd seg_nfree hdr) (\<lambda>k.
                bindM (rd seg_ntotal hdr) (\<lambda>t.
                if k = t
                then bindM (rd seg_state hdr) (\<lambda>st.
                     seqM (set_seg_state hdr (st AND NOT SHM_SEG_EXCL_MASK))
                    (bindM (rd seg_state hdr) (\<lambda>st.
                     set_seg_state hdr (st OR SHM_SEG_EMPTY))))
                else ret ()))))))))
           else ret ())
     (seg_mutex_unlock m)))))"

subsection \<open>Representation\<close>

text \<open>A chain of offsets that ends with offset 0, the place of the header: a header that was
  cleared has 0 in both ends of its free list.\<close>

fun zpath :: "(addr \<rightharpoonup> 32 word) \<Rightarrow> addr \<Rightarrow> 32 word list \<Rightarrow> bool" where
  "zpath nx base [] \<longleftrightarrow> True"
| "zpath nx base (x # xs) \<longleftrightarrow> nx (at_off base x) = Some (hd (xs @ [0])) \<and> zpath nx base xs"

text \<open>\<open>seg_rep s obj hdr m b n t st xs\<close>: the control object \<open>obj\<close>, with the mutex \<open>m\<close> that is not
  held, manages the segment at \<open>hdr\<close> of physical address \<open>b\<close>, size \<open>n\<close>, \<open>t\<close> records and state
  \<open>st\<close>, of which the records at the offsets \<open>xs\<close> are free.\<close>

definition seg_rep ::
  "shm_mem \<Rightarrow> addr \<Rightarrow> addr \<Rightarrow> addr \<Rightarrow> 64 word \<Rightarrow> 32 word \<Rightarrow> 32 word \<Rightarrow> 32 word \<Rightarrow> 32 word list \<Rightarrow> bool" where
  "seg_rep s obj hdr m b n t st xs \<longleftrightarrow>
     seg_ptr s obj = Some hdr \<and> seg_spin s obj = Some m \<and> m \<notin> seg_held s
     \<and> seg_uuid s hdr \<noteq> None \<and> seg_uuid_dup s hdr = seg_uuid s hdr
     \<and> seg_pa s hdr = Some b \<and> seg_size s hdr = Some n \<and> seg_ntotal s hdr = Some t \<and> seg_state s hdr = Some st
     \<and> seg_nfree s hdr = Some (of_nat (length xs)) \<and> length xs < 2 ^ 32
     \<and> isl_head s (seg_free_rec hdr) = Some (hd (xs @ [0])) \<and> isl_tail s (seg_free_rec hdr) = Some 0
     \<and> zpath (il_next s) hdr xs \<and> distinct xs \<and> (\<forall>x \<in> set xs. 0 < x \<and> x < n)
     \<and> 0 < hdr \<and> 0 < n \<and> unat b + unat n < 2 ^ 64"

lemma zpath_frame: "u \<notin> set xs \<Longrightarrow> zpath (nx(at_off base u := v)) base xs = zpath nx base xs"
  by (induction xs) (auto simp: word_unat_eq_iff)

lemma unat_ucast_up: "unat (ucast (x :: 32 word) :: 64 word) = unat x"
proof -
  have "unat x < 2 ^ LENGTH(32)" by (rule unsigned_less)
  then have "take_bit 64 (unat x) = unat x" by (intro take_bit_nat_eq_self) simp
  then show ?thesis by (simp add: unsigned_ucast_eq)
qed

lemma ucast_pa:
  fixes b :: "64 word" and x n :: "32 word"
  assumes "unat b + unat n < 2 ^ 64" and "x < n"
  shows "b \<le> b + ucast x" "b + ucast x \<le> b + ucast n"
proof -
  have "unat x < unat n" using assms(2) by (simp add: word_less_nat_alt)
  moreover from this have "unat (b + ucast x) = unat b + unat x" "unat (b + ucast n) = unat b + unat n"
    using assms(1) by (simp_all add: unat_word_ariths unat_ucast_up)
  ultimately show "b \<le> b + ucast x" "b + ucast x \<le> b + ucast n" by (simp_all add: word_le_nat_alt)
qed

lemma state_bits:
  fixes st :: "32 word"
  shows "(st AND NOT SHM_SEG_EXCL_MASK OR SHM_SEG_FULL) AND SHM_SEG_INTERN_REC = st AND SHM_SEG_INTERN_REC"
    "(st AND NOT SHM_SEG_EXCL_MASK OR SHM_SEG_PARTIAL) AND SHM_SEG_INTERN_REC = st AND SHM_SEG_INTERN_REC"
    "(st AND NOT SHM_SEG_EXCL_MASK OR SHM_SEG_FULL) AND SHM_SEG_FULL = SHM_SEG_FULL"
    "(st AND NOT SHM_SEG_EXCL_MASK OR SHM_SEG_PARTIAL) AND SHM_SEG_FULL = 0"
  unfolding SHM_SEG_EXCL_MASK_def SHM_SEG_FULL_def SHM_SEG_INTERN_REC_def SHM_SEG_PARTIAL_def
  by (simp_all add: bit.conj_disj_distrib2 and.assoc)

abbreviation used_state :: "32 word \<Rightarrow> 32 word list \<Rightarrow> 32 word" where
  "used_state st xs \<equiv> st AND NOT SHM_SEG_EXCL_MASK OR (if xs = [] then SHM_SEG_FULL else SHM_SEG_PARTIAL)"

definition seg_pop :: "addr \<Rightarrow> 32 word \<Rightarrow> 32 word \<Rightarrow> 32 word list \<Rightarrow> shm_mem \<Rightarrow> shm_mem" where
  "seg_pop hdr st x xs s =
     s\<lparr>isl_head := (isl_head s)(seg_free_rec hdr \<mapsto> hd (xs @ [0])), il_next := (il_next s)(at_off hdr x \<mapsto> IDX_NIL),
       seg_nfree := (seg_nfree s)(hdr \<mapsto> of_nat (length xs)), seg_state := (seg_state s)(hdr \<mapsto> used_state st xs)\<rparr>"

lemma hd_below: "\<forall>x \<in> set xs. 0 < x \<and> x < n \<Longrightarrow> 0 < n \<Longrightarrow> hd (xs @ [0]) < (n :: 32 word)"
  by (cases xs) auto

lemma zero_length: "length xs < 2 ^ 32 \<Longrightarrow> (of_nat (length xs) :: 32 word) = 0 \<longleftrightarrow> xs = []"
  using nat_dvd_not_less [of "length xs" "2 ^ 32"] by (auto simp: word_of_nat_eq_0_iff)

lemma alloc_locked_run:
  assumes rep: "seg_rep s obj hdr m b n t st (x # xs)"
  shows "alloc_locked hdr (s\<lparr>seg_held := h\<rparr>) = Ret (at_off hdr x) ((seg_pop hdr st x xs s)\<lparr>seg_held := h\<rparr>)"
proof -
  have lt: "x < n" "hd (xs @ [0]) < n" using rep hd_below [of xs n] by (simp_all add: seg_rep_def)
  have nil: "x \<noteq> IDX_NIL" "hd (xs @ [0]) \<noteq> IDX_NIL" using less_not_NIL lt by blast+
  have "isl_rm_front hdr n (seg_free_rec hdr) (s\<lparr>seg_held := h\<rparr>) = Ret (at_off hdr x)
      (s\<lparr>isl_head := (isl_head s)(seg_free_rec hdr \<mapsto> hd (xs @ [0])), il_next := (il_next s)(at_off hdr x \<mapsto> IDX_NIL), seg_held := h\<rparr>)"
    using rep lt nil by (simp add: isl_rm_front_def c_eval seg_rep_def Let_def)
  then show ?thesis
    using rep zero_length [of xs] by (simp add: alloc_locked_def c_eval seg_rep_def seg_pop_def)
qed

lemma seg_rep_pop:
  "seg_rep s obj hdr m b n t st (x # xs) \<Longrightarrow> seg_rep (seg_pop hdr st x xs s) obj hdr m b n t (used_state st xs) xs"
  by (simp add: seg_rep_def seg_pop_def zpath_frame)

lemma shm_seg_alloc_rec_run:
  assumes rep: "seg_rep s obj hdr m b n t st (x # xs)"
    and st: "st AND SHM_SEG_FULL = 0" "st AND SHM_SEG_INTERN_REC \<noteq> 0"
  shows "shm_seg_alloc_rec obj s = Ret (at_off hdr x, b + ucast x) (seg_pop hdr st x xs s)"
proof -
  let ?s = "seg_pop hdr st x xs s"
  note rep' = seg_rep_pop [OF rep]
  have held: "seg_held ?s = seg_held s" "m \<notin> seg_held s" using rep by (simp_all add: seg_pop_def seg_rep_def)
  have open_hdr: "shm_seg_handle2obj obj s = Ret (obj, hdr) s"
    using rep by (auto simp: shm_seg_handle2obj_def c_eval seg_rep_def)
  have st': "used_state st xs AND SHM_SEG_INTERN_REC \<noteq> 0" using st(2) by (simp add: state_bits)
  have pa: "b + ucast x \<le> b + ucast n" using rep by (intro ucast_pa(2)) (simp_all add: seg_rep_def)
  have off: "(of_nat (unat x) :: 64 word) = ucast x" by simp
  have "(seg_mutex_unlock m (?s\<lparr>seg_held := insert m (seg_held s)\<rparr>)) = Ret () ?s"
    using held by (simp add: seg_mutex_unlock_def)
  then show ?thesis
    using rep rep' open_hdr held alloc_locked_run [OF rep, of "insert m (seg_held s)"] st(1) st' pa
    by (simp add: shm_seg_alloc_rec_def shm_verify_pa_range_def seg_mutex_lock_def c_eval seg_rep_def off)
qed

definition seg_push :: "addr \<Rightarrow> 32 word \<Rightarrow> 32 word \<Rightarrow> 32 word \<Rightarrow> 32 word list \<Rightarrow> shm_mem \<Rightarrow> shm_mem" where
  "seg_push hdr t st x xs s =
     s\<lparr>il_next := (il_next s)(at_off hdr x \<mapsto> hd (xs @ [0])), isl_head := (isl_head s)(seg_free_rec hdr \<mapsto> x),
       seg_nfree := (seg_nfree s)(hdr \<mapsto> of_nat (length (x # xs))),
       seg_state := (seg_state s)(hdr \<mapsto>
         if of_nat (length (x # xs)) = t then st AND NOT SHM_SEG_EXCL_MASK OR SHM_SEG_EMPTY else st)\<rparr>"

lemma full_nonzero: "SHM_SEG_FULL \<noteq> 0"
  by (simp add: SHM_SEG_FULL_def)

lemma pa_offset: "ucast (ucast (x :: 32 word) :: 64 word) = x"
  by (simp add: unsigned_ucast_eq word_unat_eq_iff take_bit_word_eq_self)

lemma shm_seg_free_rec_run:
  assumes rep: "seg_rep s obj hdr m b n t st xs" and st: "st AND SHM_SEG_INTERN_REC \<noteq> 0"
    and x: "0 < x" "x < n" "il_next s (at_off hdr x) = Some v"
  shows "shm_seg_free_rec obj (b + ucast x) s = Ret () (seg_push hdr t st x xs s)"
proof -
  let ?h = "s\<lparr>seg_held := insert m (seg_held s)\<rparr>"
  let ?s = "seg_push hdr t st x xs s"
  have held: "seg_held s - {m} = seg_held s" using rep by (simp add: seg_rep_def)
  have open_hdr: "shm_seg_handle2obj obj s = Ret (obj, hdr) s"
    using rep by (auto simp: shm_seg_handle2obj_def c_eval seg_rep_def)
  have pa: "b \<le> b + ucast x" using rep x(2) by (intro ucast_pa(1) [of b n]) (simp_all add: seg_rep_def)
  have lt: "hd (xs @ [0]) < n" using rep hd_below [of xs n] by (simp add: seg_rep_def)
  have "0 \<noteq> IDX_NIL" by (simp add: IDX_NIL_def)
  then have "isl_add_front hdr n (seg_free_rec hdr) x ?h = Ret ()
      (?h\<lparr>il_next := (il_next s)(at_off hdr x \<mapsto> hd (xs @ [0])), isl_head := (isl_head s)(seg_free_rec hdr \<mapsto> x)\<rparr>)"
    using rep x lt by (simp add: isl_add_front_def c_eval seg_rep_def)
  moreover have "?s = s\<lparr>il_next := il_next ?s, isl_head := isl_head ?s, seg_nfree := seg_nfree ?s, seg_state := seg_state ?s\<rparr>"
    by (simp add: seg_push_def)
  ultimately show ?thesis
    using rep open_hdr st pa held
    by (simp add: shm_seg_free_rec_def seg_mutex_lock_def seg_mutex_unlock_def c_eval seg_rep_def seg_push_def pa_offset fun_upd_idem add.commute)
qed

lemma seg_rep_push:
  assumes "seg_rep s obj hdr m b n t st xs" and "0 < x" "x < n" "x \<notin> set xs" "length xs + 1 < 2 ^ 32"
  shows "seg_rep (seg_push hdr t st x xs s) obj hdr m b n t
    (if of_nat (length (x # xs)) = t then st AND NOT SHM_SEG_EXCL_MASK OR SHM_SEG_EMPTY else st) (x # xs)"
  using assms by (simp add: seg_rep_def seg_push_def zpath_frame)

lemma used_state_mask: "used_state st xs AND NOT SHM_SEG_EXCL_MASK = st AND NOT SHM_SEG_EXCL_MASK"
proof -
  have "SHM_SEG_FULL AND NOT SHM_SEG_EXCL_MASK = 0" "SHM_SEG_PARTIAL AND NOT SHM_SEG_EXCL_MASK = 0"
    by (simp_all add: SHM_SEG_FULL_def SHM_SEG_PARTIAL_def SHM_SEG_EXCL_MASK_def)
  then show ?thesis by (simp add: bit.conj_disj_distrib2 and.assoc)
qed

subsection \<open>Properties\<close>

text \<open>C27: In a segment with internal records that is not full, \<open>shm_seg_alloc_rec\<close> takes the first
  free record, returns its address and its physical address, counts it off and leaves the segment in the state
  partial, or full when no record is left. Giving that physical address back with \<open>shm_seg_free_rec\<close> puts the
  record in front of the free ones again and counts it; the state becomes empty when all records of the
  segment are free, and otherwise stays what the allocation made it. Both release the mutex.\<close>

theorem shm_seg_alloc_free:
  assumes "seg_rep s obj hdr m b n t st (x # xs)"
    and "st AND SHM_SEG_FULL = 0" and "st AND SHM_SEG_INTERN_REC \<noteq> 0"
  shows "\<exists>s1 s2. shm_seg_alloc_rec obj s = Ret (at_off hdr x, b + ucast x) s1
    \<and> seg_rep s1 obj hdr m b n t (st AND NOT SHM_SEG_EXCL_MASK OR (if xs = [] then SHM_SEG_FULL else SHM_SEG_PARTIAL)) xs
    \<and> shm_seg_free_rec obj (b + ucast x) s1 = Ret () s2
    \<and> seg_rep s2 obj hdr m b n t
        (if of_nat (length (x # xs)) = t then st AND NOT SHM_SEG_EXCL_MASK OR SHM_SEG_EMPTY
         else st AND NOT SHM_SEG_EXCL_MASK OR (if xs = [] then SHM_SEG_FULL else SHM_SEG_PARTIAL)) (x # xs)"
proof -
  let ?s = "seg_pop hdr st x xs s"
  have x: "0 < x" "x < n" "x \<notin> set xs" "length xs + 1 < 2 ^ 32" "il_next ?s (at_off hdr x) = Some IDX_NIL"
    using assms(1) by (simp_all add: seg_rep_def seg_pop_def)
  have again: "used_state st xs AND NOT SHM_SEG_EXCL_MASK = st AND NOT SHM_SEG_EXCL_MASK" by (rule used_state_mask)
  have "used_state st xs AND SHM_SEG_INTERN_REC \<noteq> 0" using assms(3) by (simp add: state_bits)
  from shm_seg_free_rec_run [OF seg_rep_pop [OF assms(1)] this x(1, 2, 5)]
  show ?thesis
    using shm_seg_alloc_rec_run [OF assms] seg_rep_pop [OF assms(1)] seg_rep_push [OF seg_rep_pop [OF assms(1)] x(1-4)]
    unfolding again by blast
qed

text \<open>A segment at address 4096 of three records of which the two at the offsets 128 and 192 are
  free.\<close>

definition demo_seg :: shm_mem where
  "demo_seg = \<lparr>il_next = [4224 \<mapsto> 192, 4288 \<mapsto> 0, 4160 \<mapsto> 7], isl_head = [4152 \<mapsto> 128], isl_tail = [4152 \<mapsto> 0],
     seg_uuid = [4096 \<mapsto> 9], seg_pa = [4096 \<mapsto> 0x10000], seg_link = [4096 \<mapsto> (0, 0)], seg_state = [4096 \<mapsto> 0x10000002],
     seg_size = [4096 \<mapsto> 256], seg_rec_size = [4096 \<mapsto> 64], seg_uhdr_size = [4096 \<mapsto> 0], seg_rec_alignment = [4096 \<mapsto> 8],
     seg_uhdr_off = [4096 \<mapsto> 80], seg_ntotal = [4096 \<mapsto> 3], seg_nfree = [4096 \<mapsto> 2], seg_npending = [4096 \<mapsto> 0],
     seg_uuid_dup = [4096 \<mapsto> 9], seg_ptr = [50 \<mapsto> 4096], seg_spin = [50 \<mapsto> 60], seg_ops = [50 \<mapsto> 70], seg_held = {}\<rparr>"

lemma demo_seg_rep: "seg_rep demo_seg 50 4096 60 0x10000 256 3 0x10000002 [128, 192]"
  by (simp add: seg_rep_def demo_seg_def seg_free_rec_def)

theorem shm_seg_alloc_free_witness:
  "\<exists>s1 s2. shm_seg_alloc_rec 50 demo_seg = Ret (4224, 0x10080) s1 \<and> shm_seg_free_rec 50 0x10080 s1 = Ret () s2"
  using shm_seg_alloc_free [OF demo_seg_rep] by (auto simp: SHM_SEG_FULL_def SHM_SEG_INTERN_REC_def)

lemma alloc_full:
  assumes "seg_rep s obj hdr m b n t st xs" and "st AND SHM_SEG_FULL \<noteq> 0" and "st AND SHM_SEG_INTERN_REC \<noteq> 0"
  shows "shm_seg_alloc_rec obj s = Ret (NULL, 0) s"
  using assms by (auto simp: shm_seg_alloc_rec_def shm_seg_handle2obj_def shm_verify_pa_range_def c_eval seg_rep_def)

text \<open>Once the last free record of a segment has been allocated, freeing a record while others
  are still in use does not take the segment out of the full state: the record is on the free
  list, but the next \<open>shm_seg_alloc_rec\<close> returns \<open>NULL\<close>.\<close>

theorem shm_seg_stays_full:
  assumes "seg_rep s obj hdr m b n t st [x]" and "t \<noteq> 1"
    and "st AND SHM_SEG_FULL = 0" and "st AND SHM_SEG_INTERN_REC \<noteq> 0"
  shows "\<exists>s1 s2 st2. shm_seg_alloc_rec obj s = Ret (at_off hdr x, b + ucast x) s1
    \<and> shm_seg_free_rec obj (b + ucast x) s1 = Ret () s2
    \<and> seg_rep s2 obj hdr m b n t st2 [x]
    \<and> shm_seg_alloc_rec obj s2 = Ret (NULL, 0) s2"
proof -
  let ?s = "seg_pop hdr st x [] s" let ?st = "used_state st []"
  have x: "0 < x" "x < n" "il_next ?s (at_off hdr x) = Some IDX_NIL" using assms(1) by (simp_all add: seg_rep_def seg_pop_def)
  have st: "?st AND SHM_SEG_FULL \<noteq> 0" "?st AND SHM_SEG_INTERN_REC \<noteq> 0"
    using assms(4) full_nonzero by (simp_all add: state_bits)
  note pop = seg_rep_pop [OF assms(1)]
  have push: "seg_rep (seg_push hdr t ?st x [] ?s) obj hdr m b n t ?st [x]"
    using seg_rep_push [OF pop x(1, 2)] assms(2) by simp
  show ?thesis
    using shm_seg_alloc_rec_run [OF assms(1, 3, 4)] shm_seg_free_rec_run [OF pop st(2) x] push alloc_full [OF push st]
    by blast
qed

theorem shm_seg_stays_full_witness:
  "\<exists>s1 s2. shm_seg_alloc_rec 50 (demo_seg\<lparr>isl_head := [4152 \<mapsto> 192], seg_nfree := [4096 \<mapsto> 1]\<rparr>) = Ret (4288, 0x100C0) s1
    \<and> shm_seg_free_rec 50 0x100C0 s1 = Ret () s2 \<and> shm_seg_alloc_rec 50 s2 = Ret (NULL, 0) s2"
proof -
  have "seg_rep (demo_seg\<lparr>isl_head := [4152 \<mapsto> 192], seg_nfree := [4096 \<mapsto> 1]\<rparr>) 50 4096 60 0x10000 256 3 0x10000002 [192]"
    by (simp add: seg_rep_def demo_seg_def seg_free_rec_def)
  from shm_seg_stays_full [OF this] show ?thesis by (auto simp: SHM_SEG_FULL_def SHM_SEG_INTERN_REC_def)
qed

lemma ucast_plus: "ucast (76 + ucast c :: 64 word) = (c :: 32 word) + 76"
proof -
  have "unat (ucast (ucast c + (76 :: 64 word)) :: 32 word) = (unat c + 76) mod 2 ^ 64 mod 2 ^ 32"
    by (simp add: unsigned_ucast_eq [of "ucast c + 76"] unat_word_ariths unat_ucast_up take_bit_eq_mod)
  also have "\<dots> = unat (c + 76)" by (simp add: unat_word_ariths mod_mod_cancel)
  finally show ?thesis by (simp only: word_unat_eq_iff add.commute)
qed

text \<open>In the layout that \<open>seg_cal_usage\<close> works out, the area in front of the records leaves the
  segment's own header out: unless the user's header is large, the first record starts before
  the offset of the user's header, so that records lie over the header and the bitmap.\<close>

theorem seg_cal_usage_overlap:
  assumes "seg_cal_usage rnd p s = Ret (cnt, flg, rec_siz, rec_off, uhdr_off) s'"
    and "\<And>x. unat (rnd x (shm_rec_align_sz p)) < unat x + unat (shm_rec_align_sz p)"
    and "76 \<le> uhdr_off" and "unat (shm_uhdr_size p) + unat (shm_rec_align_sz p) \<le> 76"
  shows "rec_off < uhdr_off"
proof -
  obtain c :: "32 word" where off: "rec_off = rnd (c + shm_uhdr_size p) (shm_rec_align_sz p)"
      "uhdr_off = ucast (ucast c + sizeof_shm_seg_hdr + sizeof_u32)"
    using assms(1) by (auto simp: seg_cal_usage_def divM_def c_eval Let_def split: if_splits)
  have "uhdr_off = c + 76" using ucast_plus [of c] unfolding off(2)
    by (simp add: sizeof_shm_seg_hdr_def sizeof_u32_def)
  then have "unat uhdr_off = (unat c + 76) mod 4294967296" by (simp add: unat_word_ariths)
  moreover have "unat c < 2 ^ LENGTH(32)" by (rule unsigned_less)
  moreover have "76 \<le> unat uhdr_off" using assms(3) by (simp add: word_le_nat_alt)
  ultimately have "unat uhdr_off = unat c + 76" by (cases "unat c + 76 < 4294967296") (simp_all add: le_mod_geq)
  moreover have "unat rec_off < unat c + unat (shm_uhdr_size p) + unat (shm_rec_align_sz p)"
    using assms(2) [of "c + shm_uhdr_size p"] off(1) by (simp add: unat_word_ariths)
  ultimately show ?thesis using assms(4) by (simp add: word_less_nat_alt)
qed

text \<open>Rounding up to a multiple, with the wrap-around of 32 bits.\<close>

definition round_up :: "32 word \<Rightarrow> 32 word \<Rightarrow> 32 word" where
  "round_up x a = (x + (a - 1)) div a * a"

lemma round_up_8: "unat (round_up x 8) < unat x + 8"
proof -
  have "unat (round_up x 8) \<le> unat ((x + 7) div 8) * 8"
    by (simp add: round_up_def unat_word_ariths)
  also have "\<dots> \<le> unat (x + 7)" by (simp add: unat_div)
  also have "\<dots> \<le> unat x + 7" by (simp add: unat_word_ariths)
  finally show ?thesis by simp
qed

theorem seg_cal_usage_overlap_witness:
  "seg_cal_usage round_up \<lparr>shm_rec_align_sz = 8, shm_rec_size = 60, shm_uhdr_size = 16, shm_seg_size = 4096, shm_seg_pa = 0\<rparr> ()
     = Ret (63, SHM_SEG_INTERN_REC, 64, 24, 84) () \<and> (24 :: 32 word) < 84"
proof -
  let ?p = "\<lparr>shm_rec_align_sz = 8, shm_rec_size = 60, shm_uhdr_size = 16, shm_seg_size = 4096, shm_seg_pa = 0\<rparr>"
  have run: "seg_cal_usage round_up ?p () = Ret (63, SHM_SEG_INTERN_REC, 64, 24, 84) ()"
    using u32cnt [of 62] by (simp add: seg_cal_usage_def divM_def round_up_def c_eval Let_def sizeof_shm_seg_hdr_def sizeof_u32_def)
  have "(24 :: 32 word) < 84" by (rule seg_cal_usage_overlap [OF run]) (simp_all add: round_up_8)
  with run show ?thesis by simp
qed

end
