(* ===== verification/SyncLock.thy ===== *)
theory SyncLock
  imports CPrelude
begin

text \<open>
  The rendezvous of include/cpptype/lock.h and common/cpptype/lock.cpp (\<open>SyncLock\<close>) with any
  number of threads. Every statement of the three routines is a step of its own; the steps of
  different threads interleave freely. The mutex is the thread that holds it; a condition
  variable is the local of the thread that calls \<open>sync_wait\<close>, so that \<open>sync_cv\<close> is the thread
  whose variable it points to. As POSIX allows, a sleeping thread may also wake up without a
  signal. The counters are the code's \<open>int\<close>s, far from their limits.
\<close>

subsection \<open>The routines\<close>

type_synonym tid = nat

record sync_lock =
  sync_count :: int
  sync_notif :: int
  sync_mtx :: "tid option"
  sync_cv :: "tid option"

text \<open>The next statement of a thread; \<open>Wait_sleep c\<close>: asleep on the condition variable of
  thread \<open>c\<close>; \<open>Halted\<close>: stopped by a failed assertion or a null pointer.\<close>

datatype sync_pc =
    Outside
  | Wait_lock | Wait_set | Wait_test | Wait_sleep tid | Wait_wake | Wait_clear | Wait_reset | Wait_unlock
  | Done_lock | Done_inc | Done_test | Done_signal | Done_unlock
  | Adj_lock int | Adj_check int | Adj_set int | Adj_unlock
  | Halted

definition sync_new :: "int \<Rightarrow> sync_lock" where
  "sync_new n = \<lparr>sync_count = n, sync_notif = 0, sync_mtx = None, sync_cv = None\<rparr>"

text \<open>\<open>pthread_mutex_lock\<close>: \<open>None\<close> while another thread holds the mutex.\<close>

definition acquire :: "tid \<Rightarrow> sync_pc \<Rightarrow> sync_lock \<Rightarrow> (sync_pc \<times> sync_lock) option" where
  "acquire t p s = (if sync_mtx s = None then Some (p, s\<lparr>sync_mtx := Some t\<rparr>) else None)"

fun sync_wait :: "tid \<Rightarrow> sync_pc \<Rightarrow> sync_lock \<Rightarrow> (sync_pc \<times> sync_lock) option" where
  "sync_wait t Wait_lock s = acquire t Wait_set s"
| "sync_wait t Wait_set s = Some (Wait_test, s\<lparr>sync_cv := Some t\<rparr>)"
| "sync_wait t Wait_test s =
     (if sync_count s \<noteq> sync_notif s
      then (case sync_cv s of
              None \<Rightarrow> Some (Halted, s)
            | Some c \<Rightarrow> Some (Wait_sleep c, s\<lparr>sync_mtx := None\<rparr>))
      else Some (Wait_clear, s))"
| "sync_wait t Wait_wake s = acquire t Wait_test s"
| "sync_wait t Wait_clear s = Some (Wait_reset, s\<lparr>sync_cv := None\<rparr>)"
| "sync_wait t Wait_reset s = Some (Wait_unlock, s\<lparr>sync_notif := 0\<rparr>)"
| "sync_wait t Wait_unlock s = Some (Outside, s\<lparr>sync_mtx := None\<rparr>)"
| "sync_wait t _ s = None"

text \<open>The signal itself acts on another thread and is a step of the system below.\<close>

fun sync_done :: "tid \<Rightarrow> sync_pc \<Rightarrow> sync_lock \<Rightarrow> (sync_pc \<times> sync_lock) option" where
  "sync_done t Done_lock s = acquire t Done_inc s"
| "sync_done t Done_inc s = Some (Done_test, s\<lparr>sync_notif := sync_notif s + 1\<rparr>)"
| "sync_done t Done_test s =
     Some (if sync_count s = sync_notif s \<and> sync_cv s \<noteq> None then Done_signal else Done_unlock, s)"
| "sync_done t Done_unlock s = Some (Outside, s\<lparr>sync_mtx := None\<rparr>)"
| "sync_done t _ s = None"

fun sync_adjust_wait :: "tid \<Rightarrow> sync_pc \<Rightarrow> sync_lock \<Rightarrow> (sync_pc \<times> sync_lock) option" where
  "sync_adjust_wait t (Adj_lock n) s = acquire t (Adj_check n) s"
| "sync_adjust_wait t (Adj_check n) s = Some (if n \<ge> sync_notif s then Adj_set n else Halted, s)"
| "sync_adjust_wait t (Adj_set n) s = Some (Adj_unlock, s\<lparr>sync_count := n\<rparr>)"
| "sync_adjust_wait t Adj_unlock s = Some (Outside, s\<lparr>sync_mtx := None\<rparr>)"
| "sync_adjust_wait t _ s = None"

subsection \<open>Interleaving\<close>

text \<open>What an observer sees of a step: a notification counted, a wait that is over.\<close>

datatype sync_event = Internal | Notified | Returned

type_synonym sync_sys = "sync_lock \<times> (tid \<Rightarrow> sync_pc)"

definition event_of :: "sync_pc \<Rightarrow> sync_event" where
  "event_of p = (if p = Done_inc then Notified else if p = Wait_reset then Returned else Internal)"

text \<open>\<open>calls\<close>: which routine a thread may call.\<close>

inductive sync_step :: "(tid \<Rightarrow> sync_pc \<Rightarrow> bool) \<Rightarrow> sync_sys \<Rightarrow> sync_event \<Rightarrow> sync_sys \<Rightarrow> bool"
  for calls :: "tid \<Rightarrow> sync_pc \<Rightarrow> bool" where
  call: "\<lbrakk>pcs t = Outside; calls t p; p = Wait_lock \<or> p = Done_lock \<or> p = Adj_lock n\<rbrakk> \<Longrightarrow>
    sync_step calls (s, pcs) Internal (s, pcs(t := p))"
| waits: "sync_wait t (pcs t) s = Some (p, s') \<Longrightarrow> sync_step calls (s, pcs) (event_of (pcs t)) (s', pcs(t := p))"
| notifies: "sync_done t (pcs t) s = Some (p, s') \<Longrightarrow> sync_step calls (s, pcs) (event_of (pcs t)) (s', pcs(t := p))"
| adjusts: "sync_adjust_wait t (pcs t) s = Some (p, s') \<Longrightarrow> sync_step calls (s, pcs) Internal (s', pcs(t := p))"
| wakes: "\<lbrakk>pcs t = Done_signal; sync_cv s = Some c; pcs u = Wait_sleep c\<rbrakk> \<Longrightarrow>
    sync_step calls (s, pcs) Internal (s, pcs(t := Done_unlock, u := Wait_wake))"
| wakes_none: "\<lbrakk>pcs t = Done_signal; sync_cv s = Some c; \<forall>u. pcs u \<noteq> Wait_sleep c\<rbrakk> \<Longrightarrow>
    sync_step calls (s, pcs) Internal (s, pcs(t := Done_unlock))"
| spurious: "pcs u = Wait_sleep c \<Longrightarrow> sync_step calls (s, pcs) Internal (s, pcs(u := Wait_wake))"

inductive sync_run :: "(tid \<Rightarrow> sync_pc \<Rightarrow> bool) \<Rightarrow> sync_sys \<Rightarrow> sync_event list \<Rightarrow> sync_sys \<Rightarrow> bool"
  for calls :: "tid \<Rightarrow> sync_pc \<Rightarrow> bool" and x :: sync_sys where
  start: "sync_run calls x [] x"
| more: "sync_run calls x es y \<Longrightarrow> sync_step calls y e z \<Longrightarrow> sync_run calls x (es @ [e]) z"

definition sync_begin :: "int \<Rightarrow> sync_sys" where
  "sync_begin n = (sync_new n, \<lambda>t. Outside)"

subsection \<open>Invariants\<close>

fun_cases sync_waitE: "sync_wait t p s = Some q"
fun_cases sync_doneE: "sync_done t p s = Some q"
fun_cases sync_adjust_waitE: "sync_adjust_wait t p s = Some q"

lemmas sync_routineE = sync_waitE sync_doneE sync_adjust_waitE

text \<open>Between taking and releasing the mutex.\<close>

fun in_section :: "sync_pc \<Rightarrow> bool" where
  "in_section Outside = False"
| "in_section Wait_lock = False"
| "in_section (Wait_sleep c) = False"
| "in_section Wait_wake = False"
| "in_section Done_lock = False"
| "in_section (Adj_lock n) = False"
| "in_section p = True"

fun mutex_inv :: "sync_sys \<Rightarrow> bool" where
  "mutex_inv (s, pcs) \<longleftrightarrow> (\<forall>t. in_section (pcs t) \<longleftrightarrow> sync_mtx s = Some t)"

text \<open>What a step of a routine does to the mutex.\<close>

definition mutex_use :: "tid \<Rightarrow> sync_pc \<Rightarrow> sync_lock \<Rightarrow> sync_pc \<Rightarrow> sync_lock \<Rightarrow> bool" where
  "mutex_use t p s p' s' \<longleftrightarrow>
     (if in_section p then sync_mtx s' = (if in_section p' then sync_mtx s else None)
      else if in_section p' then sync_mtx s = None \<and> sync_mtx s' = Some t else sync_mtx s' = sync_mtx s)"

lemma mutex_use:
  "sync_wait t p s = Some (p', s') \<Longrightarrow> mutex_use t p s p' s'"
  "sync_done t p s = Some (p', s') \<Longrightarrow> mutex_use t p s p' s'"
  "sync_adjust_wait t p s = Some (p', s') \<Longrightarrow> mutex_use t p s p' s'"
  by (auto elim!: sync_routineE simp: mutex_use_def acquire_def split: if_splits option.splits)

lemma mutex_keep: "mutex_use t (pcs t) s p s' \<Longrightarrow> mutex_inv (s, pcs) \<Longrightarrow> mutex_inv (s', pcs(t := p))"
  by (auto simp: mutex_use_def split: if_splits)

lemma mutex_same: "in_section p = in_section (pcs t) \<Longrightarrow> mutex_inv (s, pcs(t := p)) \<longleftrightarrow> mutex_inv (s, pcs)"
  by simp metis

lemma mutex_step: "sync_step calls x e y \<Longrightarrow> mutex_inv x \<Longrightarrow> mutex_inv y"
proof (induction rule: sync_step.induct)
  case (wakes pcs t s c u)
  then have "u \<noteq> t" by force
  with wakes show ?case by (simp add: mutex_same del: mutex_inv.simps)
qed (auto simp: mutex_same simp del: mutex_inv.simps intro: mutex_keep mutex_use)

text \<open>Notifications counted since the last wait was over.\<close>

definition notified_since :: "sync_event list \<Rightarrow> nat" where
  "notified_since es = length (filter (\<lambda>e. e = Notified) (takeWhile (\<lambda>e. e \<noteq> Returned) (rev es)))"

lemma notified_since_simps [simp]:
  "notified_since [] = 0"
  "notified_since (es @ [Internal]) = notified_since es"
  "notified_since (es @ [Notified]) = Suc (notified_since es)"
  "notified_since (es @ [Returned]) = 0"
  by (simp_all add: notified_since_def)

fun count_inv :: "sync_event list \<Rightarrow> sync_sys \<Rightarrow> bool" where
  "count_inv es (s, pcs) \<longleftrightarrow> sync_notif s = int (notified_since es)"

lemma count_step: "sync_step calls x e y \<Longrightarrow> count_inv es x \<Longrightarrow> count_inv (es @ [e]) y"
proof (induction rule: sync_step.induct)
  case (waits t pcs s p s')
  then show ?case by (auto elim!: sync_waitE simp: event_of_def acquire_def split: if_splits option.splits)
next
  case (notifies t pcs s p s')
  then show ?case by (auto elim!: sync_doneE simp: event_of_def acquire_def split: if_splits)
next
  case (adjusts t pcs s p s')
  then show ?case by (auto elim!: sync_adjust_waitE simp: acquire_def split: if_splits)
qed auto

text \<open>A thread past the loop of \<open>sync_wait\<close> has seen the counters equal; nobody changes them
  while it holds the mutex.\<close>

fun exit_inv :: "sync_sys \<Rightarrow> bool" where
  "exit_inv (s, pcs) \<longleftrightarrow> (\<forall>t. pcs t = Wait_clear \<or> pcs t = Wait_reset \<longrightarrow> sync_count s = sync_notif s)"

lemma section_excludes:
  assumes "mutex_inv (s, pcs)" and "in_section (pcs t)" and "u \<noteq> t"
  shows "pcs u \<noteq> Wait_clear \<and> pcs u \<noteq> Wait_reset \<and> pcs u \<noteq> Done_test \<and> pcs u \<noteq> Done_signal"
proof -
  have "\<not> in_section (pcs u)" using assms by auto
  then show ?thesis by auto
qed

lemma exit_step: "sync_step calls x e y \<Longrightarrow> mutex_inv x \<Longrightarrow> exit_inv x \<Longrightarrow> exit_inv y"
proof (induction rule: sync_step.induct)
  case (waits t pcs s p s')
  note excl = section_excludes [OF waits(2), of t]
  from waits(1,3) excl show ?case by (auto elim!: sync_waitE simp: acquire_def split: if_splits option.splits)
next
  case (notifies t pcs s p s')
  note excl = section_excludes [OF notifies(2), of t]
  from notifies(1,3) excl show ?case by (auto elim!: sync_doneE simp: acquire_def split: if_splits)
next
  case (adjusts t pcs s p s')
  note excl = section_excludes [OF adjusts(2), of t]
  from adjusts(1,3) excl show ?case by (auto elim!: sync_adjust_waitE simp: acquire_def split: if_splits)
qed auto

subsection \<open>One waiter\<close>

text \<open>Only thread \<open>w\<close> waits, and nobody adjusts the count.\<close>

definition one_waiter :: "tid \<Rightarrow> tid \<Rightarrow> sync_pc \<Rightarrow> bool" where
  "one_waiter w t p \<longleftrightarrow> (if t = w then p = Wait_lock else p = Done_lock)"

fun waiting :: "sync_pc \<Rightarrow> bool" where
  "waiting Wait_test = True"
| "waiting (Wait_sleep c) = True"
| "waiting Wait_wake = True"
| "waiting p = False"

fun waiter_pc :: "sync_pc \<Rightarrow> bool" where
  "waiter_pc Wait_lock = True"
| "waiter_pc Wait_set = True"
| "waiter_pc Wait_test = True"
| "waiter_pc (Wait_sleep c) = True"
| "waiter_pc Wait_wake = True"
| "waiter_pc Wait_clear = True"
| "waiter_pc Wait_reset = True"
| "waiter_pc Wait_unlock = True"
| "waiter_pc p = False"

fun done_pc :: "sync_pc \<Rightarrow> bool" where
  "done_pc Done_lock = True"
| "done_pc Done_inc = True"
| "done_pc Done_test = True"
| "done_pc Done_signal = True"
| "done_pc Done_unlock = True"
| "done_pc p = False"

text \<open>The waiter sleeps on its own variable, and when the counters are equal while it sleeps,
  a notifier is about to signal it.\<close>

definition roles :: "tid \<Rightarrow> (tid \<Rightarrow> sync_pc) \<Rightarrow> bool" where
  "roles w pcs \<longleftrightarrow> (pcs w = Outside \<or> waiter_pc (pcs w)) \<and> (\<forall>t. t \<noteq> w \<longrightarrow> pcs t = Outside \<or> done_pc (pcs t))"

definition signalling :: "(tid \<Rightarrow> sync_pc) \<Rightarrow> bool" where
  "signalling pcs \<longleftrightarrow> (\<exists>t. pcs t = Done_test \<or> pcs t = Done_signal)"

lemma signalling_other: "signalling pcs \<Longrightarrow> pcs t \<noteq> Done_test \<Longrightarrow> pcs t \<noteq> Done_signal \<Longrightarrow> signalling (pcs(t := p))"
  by (auto simp: signalling_def)

lemma signalling_here: "p = Done_test \<or> p = Done_signal \<Longrightarrow> signalling (pcs(t := p))"
  by (auto simp: signalling_def)

fun wake_inv :: "tid \<Rightarrow> sync_sys \<Rightarrow> bool" where
  "wake_inv w (s, pcs) \<longleftrightarrow>
     roles w pcs \<and> (waiting (pcs w) \<longrightarrow> sync_cv s = Some w) \<and> (\<forall>c. pcs w = Wait_sleep c \<longrightarrow> c = w) \<and>
     (\<forall>c. pcs w = Wait_sleep c \<longrightarrow> sync_count s = sync_notif s \<longrightarrow> signalling pcs)"

lemma roles_no_adjust: "roles w pcs \<Longrightarrow> sync_adjust_wait t (pcs t) s = None"
  by (cases "t = w"; cases "pcs t") (auto simp: roles_def)

lemma roles_waits: "roles w pcs \<Longrightarrow> sync_wait t (pcs t) s = Some q \<Longrightarrow> t = w"
  by (rule ccontr, cases "pcs t") (auto simp: roles_def dest: spec [of _ t])

lemma roles_notifies: "roles w pcs \<Longrightarrow> sync_done t (pcs t) s = Some q \<Longrightarrow> t \<noteq> w"
  by (rule notI, cases "pcs t") (auto simp: roles_def)

lemma roles_sleeps: "roles w pcs \<Longrightarrow> pcs t = Wait_sleep c \<Longrightarrow> t = w"
  by (rule ccontr) (auto simp: roles_def dest: spec [of _ t])

lemma roles_signals: "roles w pcs \<Longrightarrow> pcs t = Done_signal \<Longrightarrow> t \<noteq> w"
  by (auto simp: roles_def)

lemma roles_wait: "roles w pcs \<Longrightarrow> sync_wait w (pcs w) s = Some (p, s') \<Longrightarrow> roles w (pcs(w := p)) \<or> p = Halted"
  by (auto elim!: sync_waitE simp: roles_def acquire_def split: if_splits option.splits)

lemma roles_done: "roles w pcs \<Longrightarrow> t \<noteq> w \<Longrightarrow> sync_done t (pcs t) s = Some (p, s') \<Longrightarrow> roles w (pcs(t := p))"
  by (auto elim!: sync_doneE simp: roles_def acquire_def split: if_splits)

lemma wake_wait:
  assumes step: "sync_wait w (pcs w) s = Some (p, s')" and inv: "wake_inv w (s, pcs)"
  shows "wake_inv w (s', pcs(w := p))"
proof -
  have "p \<noteq> Halted" using assms by (auto elim!: sync_waitE simp: acquire_def split: if_splits option.splits)
  then have "roles w (pcs(w := p))" using roles_wait [of w pcs s p s'] step inv by simp
  moreover have "(waiting p \<longrightarrow> sync_cv s' = Some w) \<and> (\<forall>c. p = Wait_sleep c \<longrightarrow> c = w \<and> sync_count s' \<noteq> sync_notif s')"
    using assms by (auto elim!: sync_waitE simp: acquire_def split: if_splits option.splits)
  ultimately show ?thesis by auto
qed

lemma wake_done:
  assumes step: "sync_done t (pcs t) s = Some (p, s')" and inv: "wake_inv w (s, pcs)"
    and excl: "mutex_inv (s, pcs)"
  shows "wake_inv w (s', pcs(t := p))"
proof -
  have t: "t \<noteq> w" using roles_notifies [of w pcs t s] step inv by simp
  have keep: "sync_cv s' = sync_cv s" using step by (auto elim!: sync_doneE simp: acquire_def split: if_splits)
  have "signalling (pcs(t := p))"
    if w: "pcs w = Wait_sleep c" and eq: "sync_count s' = sync_notif s'" for c
  proof (cases "pcs t = Done_inc \<or> pcs t = Done_test")
    case True
    with step eq inv w have "p = Done_test \<or> p = Done_signal" by (elim disjE) (simp_all split: if_splits)
    then show ?thesis by (rule signalling_here)
  next
    case False
    with step have same: "sync_count s' = sync_count s" "sync_notif s' = sync_notif s" "pcs t \<noteq> Done_signal"
      by (auto elim!: sync_doneE simp: acquire_def split: if_splits)
    with inv w eq have "signalling pcs" by simp
    with False same show ?thesis by (simp add: signalling_other)
  qed
  with roles_done [of w pcs t s p s'] step inv t keep show ?thesis by simp
qed

lemma wake_step:
  "sync_step (one_waiter w) x e y \<Longrightarrow> mutex_inv x \<Longrightarrow> wake_inv w x \<Longrightarrow> wake_inv w y"
proof (induction rule: sync_step.induct)
  case (call pcs t p n s)
  then have "roles w (pcs(t := p))" by (auto simp: roles_def one_waiter_def split: if_splits)
  with call show ?case using signalling_other [of pcs t p]
    by (cases "t = w") (simp_all add: one_waiter_def)
next
  case (waits t pcs s p s')
  then have "t = w" using roles_waits by fastforce
  with waits wake_wait show ?case by blast
next
  case (notifies t pcs s p s')
  then show ?case by (blast intro: wake_done)
next
  case (adjusts t pcs s p s')
  then show ?case using roles_no_adjust by fastforce
next
  case (wakes pcs t s c u)
  then have "u = w" "t \<noteq> w" using roles_sleeps roles_signals by fastforce+
  with wakes show ?case by (auto simp: roles_def)
next
  case (wakes_none pcs t s c)
  then have t: "t \<noteq> w" using roles_signals by fastforce
  have "pcs w \<noteq> Wait_sleep d" for d using wakes_none by auto
  with t wakes_none show ?case by (auto simp: roles_def)
next
  case (spurious pcs u c s)
  then have "u = w" using roles_sleeps by fastforce
  with spurious show ?case by (auto simp: roles_def)
qed

subsection \<open>Runs\<close>

lemma run_inv:
  "sync_run calls (sync_begin n) es y \<Longrightarrow> mutex_inv y \<and> count_inv es y \<and> exit_inv y"
proof (induction rule: sync_run.induct)
  case start
  show ?case by (simp add: sync_begin_def sync_new_def)
next
  case (more es y e z)
  then show ?case using mutex_step count_step exit_step by blast
qed

lemma run_wake: "sync_run (one_waiter w) (sync_begin n) es y \<Longrightarrow> wake_inv w y"
proof (induction rule: sync_run.induct)
  case start
  show ?case by (simp add: sync_begin_def roles_def)
next
  case (more es y e z)
  then show ?case using wake_step run_inv by blast
qed

lemma event_of_simps [simp]:
  "event_of Done_inc = Notified" "event_of Wait_reset = Returned"
  "event_of Done_test = Internal" "event_of Done_unlock = Internal" "event_of Done_lock = Internal"
  "event_of Wait_lock = Internal" "event_of Wait_set = Internal" "event_of Wait_test = Internal"
  "event_of Wait_wake = Internal" "event_of Wait_clear = Internal" "event_of Wait_unlock = Internal"
  by (simp_all add: event_of_def)

lemma sync_step_returned: "sync_step calls (s, pcs) Returned y \<Longrightarrow> \<exists>t. pcs t = Wait_reset"
  by (erule sync_step.cases) (auto simp: event_of_def split: if_splits)

lemma run_thread_wait:
  "sync_run calls x es (s, pcs) \<Longrightarrow> sync_wait t (pcs t) s = Some (p, s') \<Longrightarrow>
   sync_run calls x (es @ [event_of (pcs t)]) (s', pcs(t := p))"
  by (blast intro: sync_run.more sync_step.waits)

lemma run_call:
  "sync_run calls x es (s, pcs) \<Longrightarrow> pcs t = Outside \<Longrightarrow> calls t p \<Longrightarrow> p = Wait_lock \<or> p = Done_lock \<Longrightarrow>
   sync_run calls x (es @ [Internal]) (s, pcs(t := p))"
  by (blast intro: sync_run.more sync_step.call)

lemma run_thread_done:
  "sync_run calls x es (s, pcs) \<Longrightarrow> sync_done t (pcs t) s = Some (p, s') \<Longrightarrow>
   sync_run calls x (es @ [event_of (pcs t)]) (s', pcs(t := p))"
  by (blast intro: sync_run.more sync_step.notifies)

text \<open>From the signal to the return of the waiter.\<close>

lemma signal_returns:
  assumes run: "sync_run calls x es (s, pcs)" and pcs: "pcs t = Done_signal" "pcs w = Wait_sleep w"
    and s: "sync_cv s = Some w" "sync_mtx s = Some t" "sync_count s = sync_notif s"
  shows "\<exists>z. sync_run calls x (es @ [Internal, Internal, Internal, Internal, Internal, Returned]) z"
proof -
  have tw: "t \<noteq> w" using pcs by auto
  have "sync_run calls x (es @ [Internal]) (s, pcs(t := Done_unlock, w := Wait_wake))"
    using run sync_step.wakes [where calls = calls, OF pcs(1) s(1) pcs(2)] by (rule sync_run.more)
  from run_thread_done [OF this, of t Outside] tw
  have "sync_run calls x ((es @ [Internal]) @ [Internal]) (s\<lparr>sync_mtx := None\<rparr>, pcs(t := Outside, w := Wait_wake))"
    by (simp add: fun_upd_twist)
  from run_thread_wait [OF this, of w Wait_test] tw
  have "sync_run calls x (((es @ [Internal]) @ [Internal]) @ [Internal]) (s\<lparr>sync_mtx := Some w\<rparr>, pcs(t := Outside, w := Wait_test))"
    by (simp add: acquire_def)
  from run_thread_wait [OF this, of w Wait_clear] tw s
  have "sync_run calls x ((((es @ [Internal]) @ [Internal]) @ [Internal]) @ [Internal]) (s\<lparr>sync_mtx := Some w\<rparr>, pcs(t := Outside, w := Wait_clear))"
    by simp
  from run_thread_wait [OF this, of w Wait_reset] tw
  have "sync_run calls x (((((es @ [Internal]) @ [Internal]) @ [Internal]) @ [Internal]) @ [Internal])
     (s\<lparr>sync_mtx := Some w, sync_cv := None\<rparr>, pcs(t := Outside, w := Wait_reset))"
    by simp
  from run_thread_wait [OF this, of w Wait_unlock] tw show ?thesis by auto
qed

text \<open>More notifications than the count, and no thread past the loop of \<open>sync_wait\<close>.\<close>

fun passed_inv :: "sync_sys \<Rightarrow> bool" where
  "passed_inv (s, pcs) \<longleftrightarrow> sync_count s < sync_notif s \<and>
     (\<forall>t. pcs t \<noteq> Wait_clear \<and> pcs t \<noteq> Wait_reset \<and> (\<forall>n. pcs t \<noteq> Adj_lock n \<and> pcs t \<noteq> Adj_check n \<and> pcs t \<noteq> Adj_set n))"

lemma passed_step:
  assumes "sync_step calls x e y" and "\<And>t n. \<not> calls t (Adj_lock n)" and "passed_inv x"
  shows "passed_inv y \<and> e \<noteq> Returned"
  using assms(1,3)
proof (induction rule: sync_step.induct)
  case (call pcs t p n s)
  with assms(2) show ?case by auto
next
  case (waits t pcs s p s')
  then show ?case
    by (auto elim!: sync_waitE simp: event_of_def acquire_def split: if_splits option.splits)
next
  case (notifies t pcs s p s')
  then show ?case by (auto elim!: sync_doneE simp: event_of_def acquire_def split: if_splits)
next
  case (adjusts t pcs s p s')
  then show ?case by (auto elim!: sync_adjust_waitE simp: acquire_def split: if_splits)
qed auto

lemma passed_run:
  assumes "sync_run calls x es y" and "\<And>t n. \<not> calls t (Adj_lock n)" and "passed_inv x"
  shows "passed_inv y \<and> Returned \<notin> set es"
  using assms(1)
proof (induction rule: sync_run.induct)
  case (more es y e z)
  then show ?case using passed_step [OF more(2) assms(2)] by auto
qed (simp add: assms(3))

subsection \<open>Properties\<close>

text \<open>Runs from the beginning: thread 1 falls asleep; thread 2 notifies it.\<close>

lemma demo_asleep:
  "sync_run (one_waiter 1) (sync_begin 1) [Internal, Internal, Internal, Internal]
     (\<lparr>sync_count = 1, sync_notif = 0, sync_mtx = None, sync_cv = Some 1\<rparr>, (\<lambda>t. Outside)(1 := Wait_sleep 1))"
proof -
  let ?run = "sync_run (one_waiter 1) (sync_begin 1)"
  have "?run [] (sync_new 1, \<lambda>t. Outside)" using sync_run.start [of _ "sync_begin 1"] by (simp add: sync_begin_def)
  from run_call [OF this, of 1 Wait_lock]
  have "?run [Internal] (sync_new 1, (\<lambda>t. Outside)(1 := Wait_lock))" by (simp add: one_waiter_def)
  from run_thread_wait [OF this, of 1 Wait_set]
  have "?run [Internal, Internal] ((sync_new 1)\<lparr>sync_mtx := Some 1\<rparr>, (\<lambda>t. Outside)(1 := Wait_set))"
    by (simp add: acquire_def sync_new_def)
  from run_thread_wait [OF this, of 1 Wait_test]
  have "?run [Internal, Internal, Internal] ((sync_new 1)\<lparr>sync_mtx := Some 1, sync_cv := Some 1\<rparr>, (\<lambda>t. Outside)(1 := Wait_test))"
    by simp
  from run_thread_wait [OF this, of 1 "Wait_sleep 1"] show ?thesis by (simp add: sync_new_def)
qed

lemma demo_notified:
  "sync_run (one_waiter 1) (sync_begin 1) [Internal, Internal, Internal, Internal, Internal, Internal, Notified]
     (\<lparr>sync_count = 1, sync_notif = 1, sync_mtx = Some 2, sync_cv = Some 1\<rparr>, (\<lambda>t. Outside)(1 := Wait_sleep 1, 2 := Done_test))"
proof -
  from run_call [OF demo_asleep, of 2 Done_lock] run_thread_done
  have "sync_run (one_waiter 1) (sync_begin 1) [Internal, Internal, Internal, Internal, Internal]
     (\<lparr>sync_count = 1, sync_notif = 0, sync_mtx = None, sync_cv = Some 1\<rparr>, (\<lambda>t. Outside)(1 := Wait_sleep 1, 2 := Done_lock))"
    by (simp add: one_waiter_def)
  from run_thread_done [OF this, of 2 Done_inc]
  have "sync_run (one_waiter 1) (sync_begin 1) [Internal, Internal, Internal, Internal, Internal, Internal]
     (\<lparr>sync_count = 1, sync_notif = 0, sync_mtx = Some 2, sync_cv = Some 1\<rparr>, (\<lambda>t. Outside)(1 := Wait_sleep 1, 2 := Done_inc))"
    by (simp add: acquire_def)
  from run_thread_done [OF this, of 2 Done_test] show ?thesis by simp
qed

text \<open>C7: A wait that is over has seen exactly \<open>sync_count\<close> notifications since the wait
  before it was over, whatever the threads call and however their steps interleave.\<close>

theorem sync_wait_exact:
  assumes "sync_run calls (sync_begin n) es (s, pcs)" and "sync_step calls (s, pcs) Returned y"
  shows "int (notified_since es) = sync_count s"
  using run_inv [OF assms(1)] sync_step_returned [OF assms(2)] by auto

theorem sync_wait_exact_witness:
  "\<exists>es s pcs. sync_run (one_waiter 1) (sync_begin 1) es (s, pcs) \<and> pcs 1 = Wait_reset \<and>
     int (notified_since es) = sync_count s \<and> sync_count s = 1"
proof -
  let ?run = "sync_run (one_waiter 1) (sync_begin 1)"
  let ?es = "[Internal, Internal, Internal, Internal, Internal, Internal, Notified]"
  let ?s = "\<lparr>sync_count = 1, sync_notif = 1, sync_mtx = None, sync_cv = Some 1\<rparr>"
  let ?all = "?es @ [Internal, Internal, Internal, Internal, Internal, Internal]"
  let ?last = "?s\<lparr>sync_mtx := Some 1, sync_cv := None\<rparr>"
  let ?pcs = "(\<lambda>t. Outside)(2 := Outside, 1 := Wait_reset)"
  from run_thread_done [OF demo_notified, of 2 Done_signal]
  have "?run (?es @ [Internal]) (?s\<lparr>sync_mtx := Some 2\<rparr>, (\<lambda>t. Outside)(1 := Wait_sleep 1, 2 := Done_signal))" by simp
  from sync_run.more [OF this sync_step.wakes [of _ 2 _ 1 1]]
  have "?run (?es @ [Internal, Internal]) (?s\<lparr>sync_mtx := Some 2\<rparr>, (\<lambda>t. Outside)(2 := Done_unlock, 1 := Wait_wake))"
    by (simp add: fun_upd_twist)
  from run_thread_done [OF this, of 2 Outside]
  have "?run (?es @ [Internal, Internal, Internal]) (?s, (\<lambda>t. Outside)(2 := Outside, 1 := Wait_wake))"
    by (simp add: fun_upd_twist)
  from run_thread_wait [OF this, of 1 Wait_test]
  have "?run (?es @ [Internal, Internal, Internal, Internal]) (?s\<lparr>sync_mtx := Some 1\<rparr>, (\<lambda>t. Outside)(2 := Outside, 1 := Wait_test))"
    by (simp add: acquire_def)
  from run_thread_wait [OF this, of 1 Wait_clear]
  have "?run (?es @ [Internal, Internal, Internal, Internal, Internal]) (?s\<lparr>sync_mtx := Some 1\<rparr>, (\<lambda>t. Outside)(2 := Outside, 1 := Wait_clear))"
    by simp
  from run_thread_wait [OF this, of 1 Wait_reset]
  have "?run (?es @ [Internal, Internal, Internal, Internal, Internal, Internal])
     (?s\<lparr>sync_mtx := Some 1, sync_cv := None\<rparr>, (\<lambda>t. Outside)(2 := Outside, 1 := Wait_reset))"
    by simp
  moreover have "sync_step (one_waiter 1) (?last, ?pcs) Returned (?last\<lparr>sync_notif := 0\<rparr>, ?pcs(1 := Wait_unlock))"
    using sync_step.waits [of 1 ?pcs ?last Wait_unlock "?last\<lparr>sync_notif := 0\<rparr>" "one_waiter 1"] by simp
  ultimately have "int (notified_since ?all) = sync_count ?last" by (rule sync_wait_exact)
  with \<open>?run ?all (?last, ?pcs)\<close> show ?thesis by (intro exI [of _ ?all] exI [of _ ?last] exI [of _ ?pcs]) simp
qed



text \<open>From there the run can go on to the return of the wait without another notification.\<close>

theorem sync_wake_not_lost:
  assumes "sync_run (one_waiter w) (sync_begin n) es (s, pcs)"
    and "pcs w = Wait_sleep c" and "sync_count s = sync_notif s"
  shows "\<exists>es' y. sync_run (one_waiter w) (sync_begin n) (es @ es' @ [Returned]) y \<and> Notified \<notin> set es'"
proof -
  have mx: "mutex_inv (s, pcs)" and wk: "wake_inv w (s, pcs)" using run_inv run_wake assms(1) by blast+
  have c: "c = w" "sync_cv s = Some w" "signalling pcs" using wk assms(2,3) by auto
  then obtain t where t: "pcs t = Done_test \<or> pcs t = Done_signal" by (auto simp: signalling_def)
  then have "in_section (pcs t)" by auto
  with mx have m: "sync_mtx s = Some t" by simp
  show ?thesis
  proof (cases "pcs t = Done_signal")
    case True
    from signal_returns [OF assms(1) this _ c(2) m assms(3)] c(1) assms(2)
    obtain y where "sync_run (one_waiter w) (sync_begin n) (es @ [Internal, Internal, Internal, Internal, Internal, Returned]) y" by blast
    then show ?thesis by (intro exI [of _ "[Internal, Internal, Internal, Internal, Internal]"] exI [of _ y]) simp
  next
    case False
    with t have dt: "pcs t = Done_test" by simp
    with assms(2) have tw: "t \<noteq> w" by auto
    have "sync_run (one_waiter w) (sync_begin n) (es @ [Internal]) (s, pcs(t := Done_signal))"
      using run_thread_done [OF assms(1), of t Done_signal s] dt c assms(3) by simp
    from signal_returns [OF this _ _ c(2) m assms(3)] c(1) assms(2) tw
    obtain y where "sync_run (one_waiter w) (sync_begin n) (es @ [Internal, Internal, Internal, Internal, Internal, Internal, Returned]) y" by auto
    then show ?thesis by (intro exI [of _ "[Internal, Internal, Internal, Internal, Internal, Internal]"] exI [of _ y]) simp
  qed
qed

theorem sync_wake_not_lost_witness:
  "\<exists>es' y. sync_run (one_waiter 1) (sync_begin 1)
     ([Internal, Internal, Internal, Internal, Internal, Internal, Notified] @ es' @ [Returned]) y \<and> Notified \<notin> set es'"
  by (rule sync_wake_not_lost [OF demo_notified]) simp_all

text \<open>Once more notifications than \<open>sync_count\<close> have arrived before a waiter left its loop,
  no wait is ever over, unless the count is adjusted.\<close>

theorem sync_extra_done_blocks:
  assumes "sync_count s < sync_notif s"
    and "\<And>t. pcs t = Outside \<or> pcs t = Wait_sleep t \<or> pcs t = Wait_wake"
    and "\<And>t n. \<not> calls t (Adj_lock n)"
    and "sync_run calls (s, pcs) es y"
  shows "Returned \<notin> set es"
proof -
  have "passed_inv (s, pcs)" using assms(1) assms(2) by (auto, (metis sync_pc.distinct)+)
  from passed_run [OF assms(4) assms(3) this] show ?thesis by simp
qed

theorem sync_extra_done_blocks_witness:
  "{es. \<exists>y. sync_run (one_waiter 1)
     (\<lparr>sync_count = 1, sync_notif = 2, sync_mtx = None, sync_cv = Some 1\<rparr>, (\<lambda>t. Outside)(1 := Wait_sleep 1)) es y}
   \<inter> {es. Returned \<in> set es} = {}"
proof -
  have "Returned \<notin> set es" if "sync_run (one_waiter 1)
     (\<lparr>sync_count = 1, sync_notif = 2, sync_mtx = None, sync_cv = Some 1\<rparr>, (\<lambda>t. Outside)(1 := Wait_sleep 1)) es y" for es y
    using _ _ _ that by (rule sync_extra_done_blocks) (auto simp: one_waiter_def split: if_splits)
  then show ?thesis by blast
qed

end
