(* ===== verification/PageLock.thy ===== *)
theory PageLock
  imports CPrelude
begin

text \<open>
  The page locks of include/util/pagelock.h and common/util/pagelock.cpp: a counter per page
  that was locked into memory, under a mutex. Addresses and sizes are 64-bit words, so that the
  computation of the pages and the loops over them wrap as they do in the code. \<open>mlock\<close> and
  \<open>munlock\<close> are parameters, given the address, the length and the state of the kernel.
\<close>

unbundle bit_operations_syntax

subsection \<open>Operations\<close>

type_synonym 'k page_call = "64 word \<Rightarrow> 64 word \<Rightarrow> 'k \<Rightarrow> int \<times> 'k"

record 'k page_mem =
  pg_locked :: "64 word \<rightharpoonup> int"
  pg_held :: bool
  pg_kernel :: 'k

record page_lock =
  pg_size :: "64 word"
  pg_mask :: "64 word"

text \<open>The constructor, given the page size.\<close>

definition PageLock_new :: "64 word \<Rightarrow> ('k page_mem, page_lock) cprog" where
  "PageLock_new psize =
     seqM (assertM (psize AND (psize - 1) = 0))
     (ret \<lparr>pg_size = psize, pg_mask = NOT (psize - 1)\<rparr>)"

text \<open>A mutex that is held is not free for its holder either.\<close>

definition pg_mtx_lock :: "('k page_mem, unit) cprog" where
  "pg_mtx_lock s = (if pg_held s then None else Ret () (s\<lparr>pg_held := True\<rparr>))"

definition pg_mtx_unlock :: "('k page_mem, unit) cprog" where
  "pg_mtx_unlock s = Ret () (s\<lparr>pg_held := False\<rparr>)"

definition kernel_call :: "'k page_call \<Rightarrow> 64 word \<Rightarrow> 64 word \<Rightarrow> ('k page_mem, bool) cprog" where
  "kernel_call f p len s = (let (r, k) = f p len (pg_kernel s) in Ret (r = 0) (s\<lparr>pg_kernel := k\<rparr>))"

definition set_locked :: "64 word \<Rightarrow> int option \<Rightarrow> ('k page_mem, unit) cprog" where
  "set_locked pg v s = Ret () (s\<lparr>pg_locked := (pg_locked s)(pg := v)\<rparr>)"

definition lock_page :: "'k page_call \<Rightarrow> page_lock \<Rightarrow> 64 word \<Rightarrow> bool \<Rightarrow> ('k page_mem, bool) cprog" where
  "lock_page mlock m pg ok s =
     (case pg_locked s pg of
        None \<Rightarrow> bindM (kernel_call mlock pg (pg_size m)) (\<lambda>r.
                if r then seqM (set_locked pg (Some 1)) (ret ok) else ret False)
      | Some n \<Rightarrow> seqM (set_locked pg (Some (n + 1))) (ret ok)) s"

partial_function (option) lock_loop ::
    "'k page_call \<Rightarrow> page_lock \<Rightarrow> 64 word \<Rightarrow> 64 word \<Rightarrow> bool \<Rightarrow> ('k page_mem, bool) cprog" where
  "lock_loop mlock m pg endp ok s =
     (if pg \<le> endp then bindM (lock_page mlock m pg ok) (\<lambda>ok'. lock_loop mlock m (pg + pg_size m) endp ok')
      else ret ok) s"

definition pg_lock_range :: "'k page_call \<Rightarrow> page_lock \<Rightarrow> 64 word \<Rightarrow> 64 word \<Rightarrow> ('k page_mem, bool) cprog" where
  "pg_lock_range mlock m p len =
     (if p = 0 \<or> len = 0 then ret False
      else let start = p AND pg_mask m; endp = (p + len - 1) AND pg_mask m in
        seqM pg_mtx_lock
       (bindM (lock_loop mlock m start endp True) (\<lambda>r.
        seqM pg_mtx_unlock (ret r))))"

definition unlock_page :: "'k page_call \<Rightarrow> page_lock \<Rightarrow> 64 word \<Rightarrow> ('k page_mem, unit) cprog" where
  "unlock_page munlock m pg s =
     (case pg_locked s pg of
        None \<Rightarrow> abortM Assert_fail
      | Some n \<Rightarrow>
          if n = 0
          then bindM (kernel_call munlock pg (pg_size m)) (\<lambda>r.
               seqM (assertM (\<not> r)) (set_locked pg None))
          else ret ()) s"

partial_function (option) unlock_loop ::
    "'k page_call \<Rightarrow> page_lock \<Rightarrow> 64 word \<Rightarrow> 64 word \<Rightarrow> ('k page_mem, unit) cprog" where
  "unlock_loop munlock m pg endp s =
     (if pg \<le> endp then seqM (unlock_page munlock m pg) (unlock_loop munlock m (pg + pg_size m) endp)
      else ret ()) s"

definition pg_unlock_range :: "'k page_call \<Rightarrow> page_lock \<Rightarrow> 64 word \<Rightarrow> 64 word \<Rightarrow> ('k page_mem, unit) cprog" where
  "pg_unlock_range munlock m p len =
     (if p = 0 \<or> len = 0 then ret ()
      else let start = p AND pg_mask m; endp = (p + len - 1) AND pg_mask m in
        seqM pg_mtx_lock
       (seqM (unlock_loop munlock m start endp) pg_mtx_unlock))"

text \<open>The number of pages locked.\<close>

definition pg_get_lock_cnt :: "('k page_mem, nat) cprog" where
  "pg_get_lock_cnt = seqM pg_mtx_lock (\<lambda>s. seqM pg_mtx_unlock (ret (card (dom (pg_locked s)))) s)"

subsection \<open>Pages of a range\<close>

lemma and_not_mask: "(w :: 64 word) AND NOT (2 ^ k - 1) = push_bit k (drop_bit k w)"
  by (rule bit_eqI) (auto simp: bit_and_iff bit_not_iff bit_push_bit_iff bit_drop_bit_eq bit_mask_iff simp flip: mask_eq_exp_minus_1)

lemma unat_bound: "unat (w :: 64 word) < 2 ^ 64"
  by (rule order.strict_trans2 [OF unsigned_less]) simp

lemma page_of:
  assumes "k < 64"
  shows "unat ((w :: 64 word) AND NOT (2 ^ k - 1)) = unat w div 2 ^ k * 2 ^ k"
proof -
  have "unat w div 2 ^ k * 2 ^ k < 2 ^ 64" using unat_bound [of w] by (rule le_less_trans [rotated]) simp
  with unat_bound [of w] show ?thesis
    by (simp only: and_not_mask unsigned_push_bit_eq unsigned_drop_bit_eq)
      (simp add: push_bit_eq_mult drop_bit_eq_div take_bit_eq_mod)
qed

text \<open>The pages the loops go through, and the pages of the bytes of a range.\<close>

primrec page_list :: "64 word \<Rightarrow> 64 word \<Rightarrow> nat \<Rightarrow> 64 word list" where
  "page_list psize pg 0 = []"
| "page_list psize pg (Suc n) = pg # page_list psize (pg + psize) n"

definition pages :: "page_lock \<Rightarrow> 64 word \<Rightarrow> 64 word \<Rightarrow> 64 word set" where
  "pages m p len = {(p + of_nat i) AND pg_mask m | i. i < unat len}"

definition pg_ok :: "page_lock \<Rightarrow> nat \<Rightarrow> bool" where
  "pg_ok m k \<longleftrightarrow> k < 64 \<and> pg_size m = 2 ^ k \<and> pg_mask m = NOT (2 ^ k - 1)"

lemma unat_psize: "k < 64 \<Longrightarrow> unat (2 ^ k :: 64 word) = 2 ^ k"
proof -
  assume "k < 64"
  then have "(2 :: nat) ^ k < 2 ^ 64" by (rule power_strict_increasing) simp
  moreover have "(2 ^ k :: 64 word) = of_nat (2 ^ k)" by simp
  ultimately show ?thesis by (simp only: unat_of_nat) (simp add: take_bit_eq_mod)
qed

lemma unat_step:
  assumes "k < 64" and "unat pg + Suc n * 2 ^ k < 2 ^ 64"
  shows "unat (pg + 2 ^ k :: 64 word) = unat pg + 2 ^ k"
  using assms by (simp add: unat_word_ariths unat_psize)

lemma page_list_set:
  assumes "k < 64" and "unat pg + n * 2 ^ k < 2 ^ 64"
  shows "unat ` set (page_list (2 ^ k) pg n) = (\<lambda>i. unat pg + i * 2 ^ k) ` {..<n}"
  using assms(2)
proof (induction n arbitrary: pg)
  case (Suc n)
  have "(\<lambda>i. unat pg + i * 2 ^ k) ` {..<Suc n} = insert (unat pg) ((\<lambda>i. unat pg + 2 ^ k + i * 2 ^ k) ` {..<n})"
    by (simp add: lessThan_Suc_eq_insert_0 image_image add.assoc)
  with Suc unat_step [OF assms(1) Suc.prems] show ?case by simp
qed simp

lemma page_list_above:
  assumes "k < 64" and "unat pg + Suc n * 2 ^ k < 2 ^ 64"
  shows "pg \<notin> set (page_list (2 ^ k) (pg + 2 ^ k) n)"
proof
  assume "pg \<in> set (page_list (2 ^ k) (pg + 2 ^ k) n)"
  with page_list_set [of k "pg + 2 ^ k" n] unat_step [OF assms] assms
  have "unat pg \<in> (\<lambda>i. unat pg + 2 ^ k + i * 2 ^ k) ` {..<n}" by (metis (no_types) add.assoc imageI mult_Suc)
  then show False by auto
qed

text \<open>Counters after a range was locked: \<open>good\<close> are the pages the kernel agrees to lock.\<close>

definition counted :: "(64 word \<Rightarrow> bool) \<Rightarrow> 64 word set \<Rightarrow> (64 word \<rightharpoonup> int) \<Rightarrow> (64 word \<rightharpoonup> int)" where
  "counted good S locked = (\<lambda>q. if q \<in> S then (case locked q of None \<Rightarrow> if good q then Some 1 else None | Some n \<Rightarrow> Some (n + 1)) else locked q)"

definition answers :: "'k page_call \<Rightarrow> (64 word \<Rightarrow> bool) \<Rightarrow> bool" where
  "answers f good \<longleftrightarrow> (\<forall>p len kern. fst (f p len kern) = 0 \<longleftrightarrow> good p)"

lemma lock_page_run:
  assumes "answers mlock good"
  shows "\<exists>s'. lock_page mlock m pg ok s = Ret (ok \<and> (pg \<in> dom (pg_locked s) \<or> good pg)) s' \<and>
    pg_locked s' = counted good {pg} (pg_locked s) \<and> pg_held s' = pg_held s"
proof (cases "pg_locked s pg")
  case None
  obtain r kern where "mlock pg (pg_size m) (pg_kernel s) = (r, kern)" by fastforce
  moreover then have "r = 0 \<longleftrightarrow> good pg" using assms by (metis answers_def fst_conv)
  ultimately show ?thesis using None
    by (auto simp: lock_page_def kernel_call_def set_locked_def c_eval counted_def fun_eq_iff)
next
  case (Some n)
  then show ?thesis by (auto simp: lock_page_def set_locked_def c_eval counted_def fun_eq_iff)
qed

lemma counted_insert: "pg \<notin> S \<Longrightarrow> counted good S (counted good {pg} l) = counted good (insert pg S) l"
  by (auto simp: counted_def fun_eq_iff)

lemma lock_loop_run:
  assumes "answers mlock good" and k: "k < 64" "pg_size m = 2 ^ k"
    and "unat endp + 2 ^ k = unat pg + n * 2 ^ k" and "unat pg + n * 2 ^ k < 2 ^ 64"
  shows "\<exists>s'. lock_loop mlock m pg endp ok s =
      Ret (ok \<and> (\<forall>q \<in> set (page_list (2 ^ k) pg n). q \<in> dom (pg_locked s) \<or> good q)) s' \<and>
    pg_locked s' = counted good (set (page_list (2 ^ k) pg n)) (pg_locked s) \<and> pg_held s' = pg_held s"
  using assms(4,5)
proof (induction n arbitrary: pg ok s)
  case 0
  then have "\<not> pg \<le> endp" by (simp add: word_le_nat_alt) (metis less_add_same_cancel1 not_less zero_less_numeral zero_less_power)
  then show ?case by (simp add: lock_loop.simps c_eval counted_def)
next
  case (Suc n)
  let ?P = "set (page_list (2 ^ k) (pg + 2 ^ k) n)"
  note st = unat_step [OF k(1) Suc.prems(2)]
  have le: "pg \<le> endp" using Suc.prems(1) by (simp add: word_le_nat_alt)
  obtain s1 where s1: "lock_page mlock m pg ok s = Ret (ok \<and> (pg \<in> dom (pg_locked s) \<or> good pg)) s1"
    "pg_locked s1 = counted good {pg} (pg_locked s)" "pg_held s1 = pg_held s"
    using lock_page_run [OF assms(1)] by blast
  have out: "pg \<notin> ?P" using page_list_above [OF k(1) Suc.prems(2)] .
  from Suc.IH [of "pg + 2 ^ k" "ok \<and> (pg \<in> dom (pg_locked s) \<or> good pg)" s1] Suc.prems st
  obtain s2 where s2: "lock_loop mlock m (pg + 2 ^ k) endp (ok \<and> (pg \<in> dom (pg_locked s) \<or> good pg)) s1 =
      Ret ((ok \<and> (pg \<in> dom (pg_locked s) \<or> good pg)) \<and> (\<forall>q \<in> ?P. q \<in> dom (pg_locked s1) \<or> good q)) s2"
    "pg_locked s2 = counted good ?P (pg_locked s1)" "pg_held s2 = pg_held s1"
    by (auto simp: add.assoc)
  have "(\<forall>q \<in> ?P. q \<in> dom (pg_locked s1) \<or> good q) \<longleftrightarrow> (\<forall>q \<in> ?P. q \<in> dom (pg_locked s) \<or> good q)"
    using out by (auto simp: s1(2) counted_def split: if_splits)
  with le s1 s2 out k(2) show ?case
    by (subst lock_loop.simps) (auto simp: c_eval counted_insert)
qed

text \<open>The loop goes through the pages of the bytes of the range.\<close>

lemma pages_nat:
  assumes "pg_ok m k" and "unat p + unat len \<le> 2 ^ 64"
  shows "unat ` pages m p len = {a div 2 ^ k * 2 ^ k | a. unat p \<le> a \<and> a < unat p + unat len}"
proof -
  have page: "unat ((p + of_nat i) AND pg_mask m) = (unat p + i) div 2 ^ k * 2 ^ k" if "i < unat len" for i
  proof -
    have "unat (p + of_nat i) = unat p + i"
      using assms(2) that by (simp add: unat_word_ariths unat_of_nat take_bit_eq_mod)
    then show ?thesis using assms(1) page_of [of k "p + of_nat i"] by (simp add: pg_ok_def)
  qed
  have "\<exists>i < unat len. a = unat p + i" if "unat p \<le> a" "a < unat p + unat len" for a
    using that by (intro exI [of _ "a - unat p"]) simp
  with page show ?thesis unfolding pages_def by (auto simp: image_iff) (metis page)+
qed

lemma pages_between:
  assumes "0 < (l :: nat)" and "0 < (K :: nat)"
  shows "{a div K * K | a. b \<le> a \<and> a < b + l} = (\<lambda>i. b div K * K + i * K) ` {..< (b + l - 1) div K - b div K + 1}"
    (is "?A = ?f ` ?B")
proof
  show "?A \<subseteq> ?f ` ?B"
  proof
    fix q assume "q \<in> ?A"
    then obtain a where a: "q = a div K * K" "b \<le> a" "a < b + l" by auto
    have "b div K \<le> a div K" "a div K \<le> (b + l - 1) div K" using a by (simp_all add: div_le_mono)
    then have "q = ?f (a div K - b div K)" "a div K - b div K \<in> ?B"
      using a(1) by (simp_all add: add_mult_distrib [symmetric])
    then show "q \<in> ?f ` ?B" by blast
  qed
  show "?f ` ?B \<subseteq> ?A"
  proof
    fix q assume "q \<in> ?f ` ?B"
    then obtain i where i: "q = (b div K + i) * K" "i \<in> ?B" by (auto simp: add_mult_distrib)
    have "b div K \<le> (b + l - 1) div K" using assms by (intro div_le_mono) simp
    with i(2) have i': "b div K + i \<le> (b + l - 1) div K" by simp
    define a where "a = max b ((b div K + i) * K)"
    have "(b div K + i) * K \<le> b + l - 1"
      using i' assms(2) by (metis div_times_less_eq_dividend le_trans mult_le_mono1)
    then have "a < b + l" "b \<le> a" using assms(1) by (auto simp: a_def)
    moreover have "a div K = b div K + i"
    proof (cases "i = 0")
      case True
      then show ?thesis by (simp add: a_def max_absorb1)
    next
      case False
      have "b < (b div K + 1) * K" using assms(2) by (simp add: dividend_less_div_times add.commute)
      also have "\<dots> \<le> (b div K + i) * K" using False by (intro mult_le_mono1) simp
      finally show ?thesis using assms(2) by (simp add: a_def max_absorb2)
    qed
    ultimately show "q \<in> ?A" using i(1) by (intro CollectI exI [of _ a]) simp
  qed
qed

definition page_count :: "nat \<Rightarrow> nat \<Rightarrow> nat \<Rightarrow> nat" where
  "page_count k b l = (b + l - 1) div 2 ^ k - b div 2 ^ k + 1"

lemma last_byte:
  assumes "len \<noteq> 0" and "unat p + unat len \<le> 2 ^ 64"
  shows "unat (p + len - 1 :: 64 word) = unat p + unat len - 1"
proof -
  have l: "0 < unat len" using assms(1) by (simp add: unat_gt_0)
  then have "p + len - 1 = of_nat (unat p + unat len - 1)" by (simp add: of_nat_diff)
  moreover have "unat p + unat len - 1 < 2 ^ 64" using assms(2) l by simp
  ultimately show ?thesis by (simp only: unat_of_nat) (simp add: take_bit_eq_mod)
qed

lemma range_pages:
  assumes ok: "pg_ok m k" and len: "len \<noteq> 0" and fit: "unat p + unat len + 2 ^ k \<le> 2 ^ 64"
  defines "start \<equiv> p AND pg_mask m" and "endp \<equiv> (p + len - 1) AND pg_mask m"
    and "n \<equiv> page_count k (unat p) (unat len)"
  shows "unat endp + 2 ^ k = unat start + n * 2 ^ k" and "unat start + n * 2 ^ k < 2 ^ 64"
    and "set (page_list (2 ^ k) start n) = pages m p len"
proof -
  let ?b = "unat p" and ?l = "unat len" and ?K = "(2 :: nat) ^ k"
  have k: "k < 64" using ok by (simp add: pg_ok_def)
  have l: "0 < ?l" using len by (simp add: unat_gt_0)
  have "unat (p + len - 1) = ?b + ?l - 1" using last_byte [OF len] fit by simp
  then have e: "unat endp = (?b + ?l - 1) div ?K * ?K" and s: "unat start = ?b div ?K * ?K"
    using ok page_of [OF k] by (simp_all add: start_def endp_def pg_ok_def)
  have "?b div ?K \<le> (?b + ?l - 1) div ?K" using l by (intro div_le_mono) simp
  then have "(?b div ?K + n) * ?K = ((?b + ?l - 1) div ?K + 1) * ?K" by (simp add: n_def page_count_def)
  then have sum: "unat start + n * ?K = unat endp + ?K" unfolding e s by (simp add: add_mult_distrib)
  then show "unat endp + 2 ^ k = unat start + n * 2 ^ k" by simp
  have "unat endp \<le> ?b + ?l - 1" unfolding e by simp
  with sum fit l show lim: "unat start + n * 2 ^ k < 2 ^ 64" by linarith
  have "unat ` set (page_list (2 ^ k) start n) = unat ` pages m p len"
    using page_list_set [OF k lim] pages_between [OF l, of ?K ?b] pages_nat [OF ok, of p len] fit
    by (simp add: s n_def page_count_def)
  moreover have "inj (unat :: 64 word \<Rightarrow> nat)" by (rule injI) (simp add: word_unat_eq_iff)
  ultimately show "set (page_list (2 ^ k) start n) = pages m p len" by (simp only: inj_image_eq_iff)
qed

subsection \<open>Unlocking\<close>

lemma unlock_loop_run:
  assumes k: "k < 64" "pg_size m = 2 ^ k"
    and "unat endp + 2 ^ k = unat pg + n * 2 ^ k" and "unat pg + n * 2 ^ k < 2 ^ 64"
    and "\<And>q. q \<in> set (page_list (2 ^ k) pg n) \<Longrightarrow> \<exists>c. pg_locked s q = Some c \<and> c \<noteq> 0"
  shows "unlock_loop munlock m pg endp s = Ret () s"
  using assms(3-5)
proof (induction n arbitrary: pg)
  case 0
  then have "\<not> pg \<le> endp"
    by (simp add: word_le_nat_alt) (metis less_add_same_cancel1 not_less zero_less_numeral zero_less_power)
  then show ?case by (simp add: unlock_loop.simps c_eval)
next
  case (Suc n)
  note st = unat_step [OF k(1) Suc.prems(2)]
  have "unlock_loop munlock m (pg + 2 ^ k) endp s = Ret () s"
    by (rule Suc.IH) (use Suc.prems st in \<open>auto simp: add.assoc\<close>)
  moreover have "pg \<le> endp" using Suc.prems(1) by (simp add: word_le_nat_alt)
  moreover have "unlock_page munlock m pg s = Ret () s"
    using Suc.prems(3) [of pg] by (auto simp: unlock_page_def c_eval)
  ultimately show ?case using k(2) by (subst unlock_loop.simps) (simp add: c_eval)
qed

lemma pg_unlock_range_run:
  assumes ok: "pg_ok m k" and fit: "unat p + unat len + 2 ^ k \<le> 2 ^ 64" and "\<not> pg_held s"
    and "\<And>q. q \<in> pages m p len \<Longrightarrow> \<exists>c. pg_locked s q = Some c \<and> c \<noteq> 0"
  shows "pg_unlock_range munlock m p len s = Ret () s"
proof (cases "p = 0 \<or> len = 0")
  case False
  note R = range_pages [OF ok _ fit]
  have "unlock_loop munlock m (p AND pg_mask m) ((p + len - 1) AND pg_mask m) (s\<lparr>pg_held := True\<rparr>) = Ret () (s\<lparr>pg_held := True\<rparr>)"
    using ok False R assms(4) by (intro unlock_loop_run [where n = "page_count k (unat p) (unat len)"]) (auto simp: pg_ok_def)
  moreover have "s\<lparr>pg_held := False\<rparr> = s" using assms(3) by (cases s) simp
  ultimately show ?thesis using False assms(3)
    by (simp add: pg_unlock_range_def pg_mtx_lock_def pg_mtx_unlock_def Let_def c_eval)
qed (auto simp: pg_unlock_range_def c_eval)

subsection \<open>The last page\<close>

lemma aligned_le:
  assumes "k < 64" and "2 ^ k dvd unat (pg :: 64 word)"
  shows "unat pg + 2 ^ k \<le> 2 ^ 64" and "2 ^ k dvd unat (pg + 2 ^ k)"
proof -
  have d: "(2 :: nat) ^ k dvd 2 ^ 64" using assms(1) by (intro le_imp_power_dvd) simp
  have "2 ^ k dvd 2 ^ 64 - unat pg" using d assms(2) by (rule dvd_diff_nat)
  moreover have "0 < 2 ^ 64 - unat pg" using unat_bound [of pg] by simp
  ultimately have "2 ^ k \<le> 2 ^ 64 - unat pg" by (rule dvd_imp_le)
  with unat_bound [of pg] show "unat pg + 2 ^ k \<le> 2 ^ 64" by linarith
  have "2 ^ k dvd (unat pg + 2 ^ k) mod 2 ^ 64" using assms(2) d by (intro dvd_mod) simp_all
  then show "2 ^ k dvd unat (pg + 2 ^ k)" using assms(1) by (simp add: unat_word_ariths unat_psize)
qed

lemma lock_page_returns: "\<exists>ok' s'. lock_page mlock m pg ok s = Ret ok' s'"
  by (auto simp: lock_page_def kernel_call_def set_locked_def c_eval split: option.splits prod.splits)

lemma lock_loop_endless:
  assumes k: "k < 64" "pg_size m = 2 ^ k" and "2 ^ 64 \<le> unat endp + 2 ^ k" and "2 ^ k dvd unat pg"
  shows "lock_loop mlock m pg endp ok s = None"
proof (rule ccontr)
  assume "lock_loop mlock m pg endp ok s \<noteq> None"
  then obtain r where "lock_loop mlock m pg endp ok s = Some r" by blast
  then have "\<not> (pg_size m = 2 ^ k \<and> 2 ^ 64 \<le> unat endp + 2 ^ k \<and> 2 ^ k dvd unat pg)"
  proof (rule lock_loop.raw_induct [where P =
      "\<lambda>mlock m pg endp ok s r. \<not> (pg_size m = 2 ^ k \<and> 2 ^ 64 \<le> unat endp + 2 ^ k \<and> 2 ^ k dvd unat pg)", rotated], intro notI)
    fix lp :: "'a page_call \<Rightarrow> page_lock \<Rightarrow> 64 word \<Rightarrow> 64 word \<Rightarrow> bool \<Rightarrow> ('a page_mem, bool) cprog"
      and mlock m pg endp ok s r
    assume IH: "\<And>mlock m pg endp ok s r. lp mlock m pg endp ok s = Some r \<Longrightarrow>
        \<not> (pg_size m = 2 ^ k \<and> 2 ^ 64 \<le> unat endp + 2 ^ k \<and> 2 ^ k dvd unat pg)"
      and run: "(if pg \<le> endp then bindM (lock_page mlock m pg ok) (lp mlock m (pg + pg_size m) endp) else ret ok) s = Some r"
      and h: "pg_size m = 2 ^ k \<and> 2 ^ 64 \<le> unat endp + 2 ^ k \<and> 2 ^ k dvd unat pg"
    have "pg \<le> endp" using aligned_le(1) [OF k(1), of pg] h by (simp add: word_le_nat_alt)
    moreover obtain ok' s' where "lock_page mlock m pg ok s = Ret ok' s'" using lock_page_returns by blast
    ultimately have "lp mlock m (pg + 2 ^ k) endp ok' s' = Some r" using run h by (simp add: c_eval)
    from IH [OF this] aligned_le(2) [OF k(1)] h show False by blast
  qed
  with assms show False by simp
qed

subsection \<open>Properties\<close>

text \<open>\<open>pg_lock_range\<close> returns, having counted exactly the pages that hold a byte of the
  range: a page that was locked is counted once more, another one is locked when the kernel
  agrees; the answer is whether all of them are locked now.\<close>

theorem pg_lock_range_counts:
  assumes ok: "pg_ok m k" and "answers mlock good" and "p \<noteq> 0" and "len \<noteq> 0"
    and fit: "unat p + unat len + 2 ^ k \<le> 2 ^ 64" and "\<not> pg_held s"
  shows "\<exists>s'. pg_lock_range mlock m p len s = Ret (\<forall>q \<in> pages m p len. q \<in> dom (pg_locked s) \<or> good q) s' \<and>
    pg_locked s' = counted good (pages m p len) (pg_locked s) \<and> \<not> pg_held s'"
proof -
  note R = range_pages [OF ok assms(4) fit]
  have k: "k < 64" "pg_size m = 2 ^ k" using ok by (auto simp: pg_ok_def)
  from lock_loop_run [OF assms(2) k R(1,2), of True "s\<lparr>pg_held := True\<rparr>"] R(3)
  show ?thesis using assms(3,4,6)
    by (auto simp: pg_lock_range_def pg_mtx_lock_def pg_mtx_unlock_def Let_def c_eval)
qed

text \<open>C32: A range that is locked and unlocked stays locked: \<open>pg_unlock_range\<close> does not lower the
  counters, so that every page of the range is counted once more than before.\<close>

theorem pg_unlock_keeps_locked:
  assumes ok: "pg_ok m k" and ans: "answers mlock (\<lambda>q. True)" and "p \<noteq> 0" and "len \<noteq> 0"
    and fit: "unat p + unat len + 2 ^ k \<le> 2 ^ 64" and "\<not> pg_held s"
    and pos: "\<And>q c. pg_locked s q = Some c \<Longrightarrow> c > 0"
  shows "\<exists>s'. seqM (pg_lock_range mlock m p len) (pg_unlock_range munlock m p len) s = Ret () s' \<and>
    (\<forall>q \<in> pages m p len. pg_locked s' q = Some (case pg_locked s q of None \<Rightarrow> 1 | Some c \<Rightarrow> c + 1))"
proof -
  note R = range_pages [OF ok assms(4) fit]
  have k: "k < 64" "pg_size m = 2 ^ k" using ok by (auto simp: pg_ok_def)
  obtain s' where s': "pg_lock_range mlock m p len s = Ret True s'"
    "pg_locked s' = counted (\<lambda>q. True) (pages m p len) (pg_locked s)" "\<not> pg_held s'"
    using lock_loop_run [OF ans k R(1,2), of True "s\<lparr>pg_held := True\<rparr>"] R(3) assms(3,4,6)
    by (auto simp: pg_lock_range_def pg_mtx_lock_def pg_mtx_unlock_def Let_def c_eval)
  have here: "pg_locked s' q = Some (case pg_locked s q of None \<Rightarrow> 1 | Some c \<Rightarrow> c + 1)" if "q \<in> pages m p len" for q
    using that by (simp add: s'(2) counted_def split: option.splits)
  have "\<exists>c. pg_locked s' q = Some c \<and> c \<noteq> 0" if "q \<in> pages m p len" for q
    using here [OF that] pos [of q] by (cases "pg_locked s q") fastforce+
  from pg_unlock_range_run [OF ok fit s'(3) this] s'(1) here show ?thesis by (simp add: c_eval)
qed

text \<open>Locking a range that reaches the last page of the address space does not return: the
  page address wraps to 0, which is again not beyond the end.\<close>

theorem pg_lock_range_last_page:
  assumes ok: "pg_ok m k" and "p \<noteq> 0" and "len \<noteq> 0" and "unat p + unat len \<le> 2 ^ 64"
    and last: "2 ^ 64 < unat p + unat len + 2 ^ k"
  shows "pg_lock_range mlock m p len s = None"
proof -
  have k: "k < 64" "pg_size m = 2 ^ k" using ok by (auto simp: pg_ok_def)
  have l: "0 < unat len" using assms(3) by (simp add: unat_gt_0)
  have d: "(2 :: nat) ^ k dvd 2 ^ 64 - 2 ^ k" using k(1) by (intro dvd_diff_nat le_imp_power_dvd) simp_all
  have "unat (p + len - 1) = unat p + unat len - 1" using last_byte assms(3,4) by blast
  then have e: "unat ((p + len - 1) AND pg_mask m) = (unat p + unat len - 1) div 2 ^ k * 2 ^ k"
    and s: "unat (p AND pg_mask m) = unat p div 2 ^ k * 2 ^ k"
    using ok page_of [OF k(1)] by (simp_all add: pg_ok_def)
  have "(2 ^ 64 - 2 ^ k) div 2 ^ k * 2 ^ k \<le> (unat p + unat len - 1) div 2 ^ k * (2 :: nat) ^ k"
    using last by (intro mult_le_mono1 div_le_mono) linarith
  then have "2 ^ 64 - 2 ^ k \<le> unat ((p + len - 1) AND pg_mask m)" unfolding e dvd_div_mult_self [OF d] .
  then have "2 ^ 64 \<le> unat ((p + len - 1) AND pg_mask m) + 2 ^ k" by linarith
  from lock_loop_endless [OF k this, of "p AND pg_mask m" mlock True "s\<lparr>pg_held := True\<rparr>"] s show ?thesis using assms(2,3)
    by (simp add: pg_lock_range_def pg_mtx_lock_def Let_def c_eval)
qed

text \<open>An instance: pages of 4096 bytes, a kernel that agrees, one page locked already.\<close>

definition demo_pg :: page_lock where
  "demo_pg = \<lparr>pg_size = 4096, pg_mask = NOT 4095\<rparr>"

definition demo_pg_mem :: "unit page_mem" where
  "demo_pg_mem = \<lparr>pg_locked = [4096 \<mapsto> 1], pg_held = False, pg_kernel = ()\<rparr>"

definition demo_mlock :: "unit page_call" where
  "demo_mlock p len kern = (0, ())"

lemma demo_pg_ok: "pg_ok demo_pg 12" "answers demo_mlock (\<lambda>q. True)"
  by (simp_all add: pg_ok_def demo_pg_def answers_def demo_mlock_def)

theorem pg_lock_range_counts_witness:
  "\<exists>s'. pg_lock_range demo_mlock demo_pg 8000 200 demo_pg_mem = Ret True s' \<and>
     pg_locked s' = counted (\<lambda>q. True) (pages demo_pg 8000 200) [4096 \<mapsto> 1] \<and> \<not> pg_held s'"
  using pg_lock_range_counts [OF demo_pg_ok, of 8000 200 demo_pg_mem] by (simp add: demo_pg_mem_def)

theorem pg_unlock_keeps_locked_witness:
  "\<exists>s'. seqM (pg_lock_range demo_mlock demo_pg 8000 200) (pg_unlock_range demo_mlock demo_pg 8000 200) demo_pg_mem = Ret () s' \<and>
     pg_locked s' 4096 = Some 2"
proof -
  have "(8000 + of_nat 0) AND pg_mask demo_pg = 4096" by (simp add: demo_pg_def)
  then have "4096 \<in> pages demo_pg 8000 200" unfolding pages_def by (intro CollectI exI [of _ 0]) simp
  moreover have "c > 0" if "pg_locked demo_pg_mem q = Some c" for q c
    using that by (simp add: demo_pg_mem_def split: if_splits)
  then have "\<exists>s'. seqM (pg_lock_range demo_mlock demo_pg 8000 200) (pg_unlock_range demo_mlock demo_pg 8000 200) demo_pg_mem = Ret () s' \<and>
    (\<forall>q \<in> pages demo_pg 8000 200. pg_locked s' q = Some (case pg_locked demo_pg_mem q of None \<Rightarrow> 1 | Some c \<Rightarrow> c + 1))"
    by (intro pg_unlock_keeps_locked [OF demo_pg_ok]) (simp_all add: demo_pg_mem_def)
  ultimately show ?thesis by (auto simp: demo_pg_mem_def)
qed

theorem pg_lock_range_last_page_witness:
  "pg_lock_range demo_mlock demo_pg 18446744073709547520 4096 demo_pg_mem = None"
  by (rule pg_lock_range_last_page [OF demo_pg_ok(1)]) simp_all

end
