(* ===== verification/ThreadPool.thy ===== *)
theory ThreadPool
  imports CPrelude
begin

text \<open>
  The thread pool of include/di/request.h, common/di/request-impl.h and common/di/request.cpp:
  requests, worker threads, the two-step scheduling of a request, barriers and shutdown.

  Requests and workers are numbers; a field of a worker or of a request is a map from them. The
  intrusive lists (\<open>DListObj\<close>) are lists of numbers; an object is chained when it is in one of
  them, and adding a chained object is the failed assertion of the code. A section under the
  pool's mutex is one step, as is a section under a worker's mutex and every test or counter
  update outside, and the handler of a request runs between two steps, in a worker or in the caller of
  \<open>schedule\<close>; between the steps the threads interleave. Three stretches without a mutex are taken as one step:
  the assertions of \<open>schedule\<close> with the store before it locks the pool, \<open>worker_spawn_thr\<close> with
  the \<open>pthread_create\<close> in it, and the end of \<open>req_exec_task\<close> after the handler. A worker's mutex is held by the worker
  in its loop, except while it sleeps or executes a request. Counters are \<open>int\<close>s far from their
  limits.
\<close>

unbundle bit_operations_syntax

subsection \<open>State\<close>

type_synonym rid = nat
type_synonym wid = nat

definition fast_queue :: nat where [simp]: "fast_queue = 0"
definition slow_queue :: nat where [simp]: "slow_queue = 1"
definition time_wait :: nat where [simp]: "time_wait = 2"
definition suspend :: nat where [simp]: "suspend = 3"
definition barrier :: nat where [simp]: "barrier = 4"
definition max_reqq :: nat where [simp]: "max_reqq = 5"

definition idle_thr :: nat where [simp]: "idle_thr = 0"
definition fast_thr :: nat where [simp]: "fast_thr = 1"
definition slow_thr :: nat where [simp]: "slow_thr = 2"
definition dorman_thr :: nat where [simp]: "dorman_thr = 3"
definition max_thrq :: nat where [simp]: "max_thrq = 4"

definition req_max_rr :: int where [simp]: "req_max_rr = 8"

definition rq_complete :: "32 word" where [simp]: "rq_complete = 0x0001"
definition rq_barrier :: "32 word" where [simp]: "rq_barrier = 0x8000"

datatype thp_state_e = Idle | Spawning | Fast_thread | Slow_thread | Terminate

text \<open>Where a worker's thread is: none, at its start, at the top of its loop, about to ask for
  a request of the pool, back without one, about to sleep, asleep, with a request to execute,
  executing it, about to count it off, leaving.\<close>

datatype wrk_pc =
    No_thread | Start | Begin | Top | Get | Got_none | Doze | Sleep | Run rid | Exec rid | Count_off | Leave | Last

text \<open>The local variables of \<open>schedule\<close> after it released the pool's mutex.\<close>

record sched_call =
  c_req :: rid
  c_wrk :: "wid option"
  c_noq :: bool
  c_dorman :: bool

text \<open>A call between two of its steps: \<open>schedule\<close> about to take the mutex, after it released it, in \<open>worker_enqueue\<close>,
  after it saw that the pool is not stopped, about to start the thread of a worker, about to execute the
  request itself (with its local \<open>dorman\<close>), and in the handler of it; \<open>schedule_barrier\<close> about to call
  \<open>schedule\<close>; and \<open>mod_init\<close> in the loop that starts the first workers.\<close>

datatype pool_call =
    Lock_pool rid nat
  | Deliver sched_call
  | Enqueue wid rid
  | Dormant wid rid
  | Spawn wid
  | Inline rid bool
  | Handler rid bool
  | Resubmit "nat option" rid nat
  | Start_min nat

record pool =
  thp_shutdown :: bool
  thp_min :: nat
  thp_max :: nat
  thp_barrier_cnt :: int
  thp_sched_req :: int
  thp_run_thds :: int
  thp_queue :: "nat \<Rightarrow> wid list"
  m_queue :: "nat \<Rightarrow> rid list"
  thp_exe_shutdown :: int
  stat_sched :: int
  stat_spawn_fail :: int
  stat_attemp_rr :: int
  stat_success_rr :: int
  stat_barrier_req :: int
  stat_barrier_pause :: int
  stat_barrier_resume :: int
  rq_done_flgs :: "rid \<Rightarrow> 32 word"
  rq_mod :: "rid \<Rightarrow> nat option"
  wrk_state :: "wid \<Rightarrow> thp_state_e"
  wrk_qno :: "wid \<Rightarrow> nat"
  wrk_reqcnt :: "wid \<Rightarrow> int"
  wrk_thr_id :: "wid \<Rightarrow> nat"
  wrk_queue :: "wid \<Rightarrow> rid list"
  wrk_sched :: "wid \<Rightarrow> int"
  wrk_sched_fast :: "wid \<Rightarrow> int"
  wrk_sched_slow :: "wid \<Rightarrow> int"
  wrk_sched_idle :: "wid \<Rightarrow> int"
  wrk_sched_dorman :: "wid \<Rightarrow> int"
  wrk_sched_direct :: "wid \<Rightarrow> int"
  wrk_idle_comm_work :: "wid \<Rightarrow> int"
  wrk_idle_comm_sleep :: "wid \<Rightarrow> int"
  wrk_thr_spawned :: "wid \<Rightarrow> int"
  wrk_thr_exit :: "wid \<Rightarrow> int"
  wrk_pc :: "wid \<Rightarrow> wrk_pc"
  pool_calls :: "pool_call list"

definition askM :: "('s \<Rightarrow> 'a) \<Rightarrow> ('s, 'a) cprog" where
  [c_eval]: "askM f s = Ret (f s) s"

definition updM :: "('s \<Rightarrow> 's) \<Rightarrow> ('s, unit) cprog" where
  [c_eval]: "updM f s = Ret () (f s)"

text \<open>A step that is not enabled.\<close>

definition blockM :: "('s, 'a) cprog" where
  [c_eval]: "blockM s = None"

definition inc :: "((('i \<Rightarrow> int) \<Rightarrow> 'i \<Rightarrow> int) \<Rightarrow> 's \<Rightarrow> 's) \<Rightarrow> 'i \<Rightarrow> ('s, unit) cprog" where
  "inc upd i = updM (upd (\<lambda>f. f(i := f i + 1)))"

subsection \<open>Queues\<close>

definition req_chained :: "rid \<Rightarrow> pool \<Rightarrow> bool" where
  "req_chained r s \<longleftrightarrow> list_ex (\<lambda>q. r \<in> set (m_queue s q)) [0..<max_reqq] \<or> list_ex (\<lambda>w. r \<in> set (wrk_queue s w)) [0..<thp_max s]"

definition mod_enqueue :: "rid \<Rightarrow> nat \<Rightarrow> (pool, unit) cprog" where
  "mod_enqueue r qno =
     bindM (askM (req_chained r)) (\<lambda>ch.
     seqM (assertM (qno < max_reqq))
    (seqM (assertM (\<not> ch))
     (updM (m_queue_update (\<lambda>f. f(qno := f qno @ [r]))))))"

definition mod_front_queue :: "rid \<Rightarrow> nat \<Rightarrow> (pool, unit) cprog" where
  "mod_front_queue r qno =
     bindM (askM (req_chained r)) (\<lambda>ch.
     seqM (assertM (qno < max_reqq))
    (seqM (assertM (\<not> ch))
     (updM (m_queue_update (\<lambda>f. f(qno := r # f qno))))))"

definition mod_dequeue :: "nat \<Rightarrow> (pool, rid option) cprog" where
  "mod_dequeue qno =
     seqM (assertM (qno < max_reqq))
    (bindM (askM (\<lambda>s. m_queue s qno)) (\<lambda>xs.
     case xs of
       [] \<Rightarrow> ret None
     | r # rs \<Rightarrow> seqM (updM (m_queue_update (\<lambda>f. f(qno := rs)))) (ret (Some r))))"

text \<open>The table \<open>wrk_qmap\<close>.\<close>

definition wrk_qmap :: "(thp_state_e \<times> nat) list" where
  "wrk_qmap = [(Idle, idle_thr), (Fast_thread, fast_thr), (Slow_thread, slow_thr), (Terminate, dorman_thr), (Spawning, max_thrq)]"

definition worker_update_state :: "wid \<Rightarrow> nat \<Rightarrow> (pool, unit) cprog" where
  "worker_update_state w qno =
     seqM (assertM (qno < max_thrq))
    (seqM (assertM (qno = snd (wrk_qmap ! qno)))
    (seqM (updM (wrk_qno_update (\<lambda>f. f(w := snd (wrk_qmap ! qno)))))
    (bindM (askM (\<lambda>s. wrk_state s w)) (\<lambda>st.
     if st \<noteq> Terminate then updM (wrk_state_update (\<lambda>f. f(w := fst (wrk_qmap ! qno)))) else ret ()))))"

definition thp_swap_queue :: "wid \<Rightarrow> nat \<Rightarrow> (pool, unit) cprog" where
  "thp_swap_queue w qnum =
     seqM (assertM (qnum < max_thrq))
    (seqM (worker_update_state w qnum)
    (seqM (updM (thp_queue_update (\<lambda>f q. filter (\<lambda>x. x \<noteq> w) (f q))))
     (updM (thp_queue_update (\<lambda>f. f(qnum := f qnum @ [w]))))))"

definition thp_dequeue :: "nat \<Rightarrow> (pool, wid option) cprog" where
  "thp_dequeue qnum =
     seqM (assertM (qnum < max_thrq))
    (bindM (askM (\<lambda>s. thp_queue s qnum)) (\<lambda>xs.
     case xs of
       [] \<Rightarrow> ret None
     | w # ws \<Rightarrow> seqM (updM (thp_queue_update (\<lambda>f. f(qnum := ws)))) (ret (Some w))))"

text \<open>\<open>pthread_cond_signal (&wrk->wrk_cv)\<close>\<close>

definition signal_wrk :: "wid \<Rightarrow> (pool, unit) cprog" where
  "signal_wrk w = updM (wrk_pc_update (\<lambda>f. if f w = Sleep then f(w := Top) else f))"

definition set_pc :: "wid \<Rightarrow> wrk_pc \<Rightarrow> (pool, unit) cprog" where
  "set_pc w p = updM (wrk_pc_update (\<lambda>f. f(w := p)))"

subsection \<open>Requests\<close>

text \<open>\<open>req_done\<close>, as \<open>req_exec_task\<close> calls it.\<close>

definition req_done :: "rid \<Rightarrow> 32 word \<Rightarrow> (pool, unit) cprog" where
  "req_done r flags =
     seqM (bindM (askM (\<lambda>s. rq_mod s r)) (\<lambda>md.
       if md \<noteq> None then updM (rq_done_flgs_update (\<lambda>f. f(r := rq_complete OR flags))) else ret ()))
    (bindM (askM (req_chained r)) (\<lambda>ch. assertM (\<not> ch)))"

text \<open>\<open>req_exec_task\<close> before and after the module's handler ran; \<open>kept\<close>: the handler put the
  request on a queue of its own.\<close>

definition exec_begin :: "rid \<Rightarrow> (pool, unit) cprog" where
  "exec_begin r = bindM (askM (req_chained r)) (\<lambda>ch. assertM (\<not> ch))"

definition exec_end :: "rid \<Rightarrow> bool \<Rightarrow> (pool, unit) cprog" where
  "exec_end r kept = bindM (askM (req_chained r)) (\<lambda>ch. if \<not> ch \<and> \<not> kept then req_done r 0 else ret ())"

subsection \<open>Workers\<close>

definition wrk_can_terminate :: "wid \<Rightarrow> pool \<Rightarrow> bool" where
  "wrk_can_terminate w s \<longleftrightarrow> wrk_state s w = Terminate \<and> wrk_queue s w = [] \<and> thp_barrier_cnt s = 0 \<and> thp_sched_req s = 0"

text \<open>\<open>tid\<close>: the identifier \<open>pthread_create\<close> gives the thread, 0 when it fails.\<close>

definition worker_spawn_thr :: "wid \<Rightarrow> nat \<Rightarrow> (pool, unit) cprog" where
  "worker_spawn_thr w tid =
     bindM (askM (\<lambda>s. wrk_thr_id s w \<noteq> 0 \<or> wrk_state s w \<noteq> Terminate)) (\<lambda>running.
     if running then ret ()
     else
       seqM (updM (wrk_state_update (\<lambda>f. f(w := Spawning))))
      (seqM (inc wrk_sched_dorman_update w)
      (seqM (updM (thp_run_thds_update (\<lambda>n. n + 1)))
      (if tid \<noteq> 0
       then seqM (updM (wrk_thr_id_update (\<lambda>f. f(w := tid)))) (set_pc w Start)
       else
         seqM (updM (wrk_thr_id_update (\<lambda>f. f(w := 0))))
        (seqM (updM (thp_run_thds_update (\<lambda>n. n - 1)))
        (seqM (updM (stat_spawn_fail_update (\<lambda>n. n + 1)))
         (thp_swap_queue w dorman_thr)))))))"

text \<open>Whether the worker holds its mutex.\<close>

fun wrk_holds :: "wrk_pc \<Rightarrow> bool" where
  "wrk_holds Top = True"
| "wrk_holds Get = True"
| "wrk_holds Got_none = True"
| "wrk_holds Doze = True"
| "wrk_holds Leave = True"
| "wrk_holds p = False"

text \<open>The execution of a request by the caller of \<open>schedule\<close>, up to the handler; what follows is \<open>exec_end\<close>.\<close>

definition exec_inline :: "rid \<Rightarrow> bool \<Rightarrow> (pool, pool_call option) cprog" where
  "exec_inline r dorm = seqM (updM (thp_exe_shutdown_update (\<lambda>n. n + 1))) (seqM (exec_begin r) (ret (Some (Handler r dorm))))"

text \<open>The section of \<open>worker_enqueue\<close> under the worker's mutex: what the call does next.\<close>

definition worker_enqueue :: "wid \<Rightarrow> rid \<Rightarrow> (pool, pool_call option) cprog" where
  "worker_enqueue w r =
     bindM (askM (\<lambda>s. (wrk_pc s w, wrk_state s w))) (\<lambda>(p, st).
     if wrk_holds p then blockM
     else if st \<noteq> Terminate
     then
       seqM (inc wrk_sched_direct_update w)
      (seqM (if st = Fast_thread then inc wrk_sched_fast_update w else inc wrk_sched_slow_update w)
      (seqM (inc wrk_reqcnt_update w)
      (seqM (updM (wrk_queue_update (\<lambda>f. f(w := f w @ [r]))))
      (seqM (signal_wrk w) (ret None)))))
     else ret (Some (Inline r False)))"

subsection \<open>Scheduling\<close>

text \<open>The choice of a worker when one serves the queue: the front one, put at the tail; when
  it has too many requests, the one that is at the front now.\<close>

definition round_robin :: "wid \<Rightarrow> nat \<Rightarrow> (pool, wid option) cprog" where
  "round_robin w thp =
     seqM (thp_swap_queue w thp)
    (bindM (askM (\<lambda>s. wrk_reqcnt s w)) (\<lambda>cnt.
     if cnt > req_max_rr
     then
       seqM (updM (stat_attemp_rr_update (\<lambda>n. n + 1)))
      (bindM (thp_dequeue thp) (\<lambda>nxt.
       bindM (askM (\<lambda>s. thp_queue s thp)) (\<lambda>rest.
       if nxt \<noteq> Some w
       then
         seqM (assertM (nxt \<noteq> None \<and> rest \<noteq> []))
        (seqM (updM (stat_success_rr_update (\<lambda>n. n + 1)))
        (bindM (askM (\<lambda>s. wrk_reqcnt s (the nxt) < req_max_rr)) (\<lambda>few.
         seqM (if few then updM (thp_queue_update (\<lambda>f. f(thp := the nxt # f thp))) else ret ())
         (ret nxt))))
       else seqM (assertM (rest = [])) (ret nxt))))
     else ret (Some w)))"

text \<open>\<open>schedule\<close> under the pool's mutex: \<open>None\<close> when the call is over.\<close>

definition schedule_locked :: "rid \<Rightarrow> nat \<Rightarrow> (pool, sched_call option) cprog" where
  "schedule_locked r qno =
     seqM (updM (stat_sched_update (\<lambda>n. n + 1)))
    (bindM (askM thp_barrier_cnt) (\<lambda>bar.
     if bar > 0
     then
       seqM (updM (thp_barrier_cnt_update (\<lambda>n. n + 1)))
      (seqM (updM (stat_barrier_pause_update (\<lambda>n. n + 1)))
      (seqM (mod_enqueue r barrier) (ret None)))
     else
       seqM (updM (thp_sched_req_update (\<lambda>n. n + 1)))
      (if qno \<noteq> fast_queue \<and> qno \<noteq> slow_queue
       then seqM (mod_enqueue r (if qno = time_wait then time_wait else suspend)) (ret None)
       else let thp = (if qno = fast_queue then fast_thr else slow_thr) in
         bindM (thp_dequeue thp) (\<lambda>wrk.
         case wrk of
           Some w \<Rightarrow> bindM (round_robin w thp) (\<lambda>wrk'.
             ret (Some \<lparr>c_req = r, c_wrk = wrk', c_noq = False, c_dorman = False\<rparr>))
         | None \<Rightarrow>
             bindM (thp_dequeue idle_thr) (\<lambda>wrk'.
             case wrk' of
               Some w \<Rightarrow> seqM (inc wrk_sched_idle_update w)
                 (ret (Some \<lparr>c_req = r, c_wrk = Some w, c_noq = False, c_dorman = False\<rparr>))
             | None \<Rightarrow>
                 bindM (askM thp_shutdown) (\<lambda>down.
                 if \<not> down
                 then
                   seqM (mod_enqueue r qno)
                  (bindM (thp_dequeue dorman_thr) (\<lambda>wrk''.
                   ret (if wrk'' = None then None
                        else Some \<lparr>c_req = r, c_wrk = wrk'', c_noq = False, c_dorman = True\<rparr>)))
                 else ret (Some \<lparr>c_req = r, c_wrk = None, c_noq = True, c_dorman = False\<rparr>)))))))"

text \<open>\<open>schedule\<close> after it released the pool's mutex, up to its next step.\<close>

definition schedule_unlocked :: "sched_call \<Rightarrow> (pool, pool_call option) cprog" where
  "schedule_unlocked c =
     (case c_wrk c of
       None \<Rightarrow>
         if c_noq c then bindM (askM thp_shutdown) (\<lambda>down. seqM (assertM down) (ret (Some (Inline (c_req c) (c_dorman c)))))
         else ret None
     | Some w \<Rightarrow>
         if \<not> c_dorman c
         then seqM (bindM (askM (req_chained (c_req c))) (\<lambda>ch. assertM (\<not> ch))) (ret (Some (Enqueue w (c_req c))))
         else bindM (askM thp_shutdown) (\<lambda>down. ret (Some (if \<not> down then Dormant w (c_req c) else Inline (c_req c) True))))"

text \<open>The other half of its test, the state of the worker.\<close>

definition dormant_test :: "wid \<Rightarrow> rid \<Rightarrow> (pool, pool_call option) cprog" where
  "dormant_test w r = bindM (askM (\<lambda>s. wrk_state s w)) (\<lambda>st. ret (Some (if st = Terminate then Spawn w else Inline r True)))"

text \<open>\<open>schedule\<close> up to the mutex.\<close>

definition schedule :: "nat option \<Rightarrow> rid \<Rightarrow> nat \<Rightarrow> (pool, pool_call option) cprog" where
  "schedule md r qno =
     bindM (askM (\<lambda>s. (rq_mod s r, req_chained r s))) (\<lambda>(old, ch).
     seqM (assertM (old = None \<or> old = md))
    (seqM (assertM (qno < max_reqq \<and> \<not> ch))
    (seqM (updM (rq_mod_update (\<lambda>f. f(r := md))))
     (ret (Some (Lock_pool r qno))))))"

text \<open>The test of \<open>schedule_barrier\<close>, under the mutex: whether the request was queued.\<close>

definition schedule_barrier_locked :: "rid \<Rightarrow> (pool, bool) cprog" where
  "schedule_barrier_locked r =
     seqM (updM (stat_barrier_req_update (\<lambda>n. n + 1)))
    (bindM (askM thp_sched_req) (\<lambda>active.
     if active \<ge> 1
     then
       seqM (updM (stat_sched_update (\<lambda>n. n + 1)))
      (seqM (updM (thp_barrier_cnt_update (\<lambda>n. n + 1)))
      (seqM (updM (rq_done_flgs_update (\<lambda>f. f(r := f r OR rq_barrier))))
      (seqM (mod_enqueue r barrier) (ret True))))
     else ret False))"

text \<open>The first step of \<open>schedule_barrier\<close>.\<close>

definition schedule_barrier :: "nat option \<Rightarrow> rid \<Rightarrow> nat \<Rightarrow> (pool, pool_call option) cprog" where
  "schedule_barrier md r qno =
     bindM (schedule_barrier_locked r) (\<lambda>queued. ret (if queued then None else Some (Resubmit md r qno)))"

subsection \<open>Taking requests\<close>

text \<open>One pass of the loop of \<open>thp_promote_barrier_lck\<close>: whether it goes on.\<close>

definition promote_one :: "(pool, bool) cprog" where
  "promote_one =
     bindM (mod_dequeue barrier) (\<lambda>rq.
     case rq of
       None \<Rightarrow> abortM Assert_fail
     | Some r \<Rightarrow>
         bindM (askM (\<lambda>s. rq_done_flgs s r AND rq_barrier = 0)) (\<lambda>plain.
         if plain
         then
           seqM (updM (thp_sched_req_update (\<lambda>n. n + 1)))
          (seqM (updM (stat_barrier_resume_update (\<lambda>n. n + 1)))
          (seqM (updM (thp_barrier_cnt_update (\<lambda>n. n - 1)))
          (seqM (mod_enqueue r fast_queue)
          (bindM (thp_dequeue idle_thr) (\<lambda>wrk.
           case wrk of
             None \<Rightarrow> ret True
           | Some w \<Rightarrow> seqM (thp_swap_queue w fast_thr) (seqM (signal_wrk w) (ret True)))))))
         else seqM (mod_front_queue r barrier) (ret False)))"

partial_function (option) thp_promote_barrier_lck :: "(pool, unit) cprog" where
  "thp_promote_barrier_lck s =
     (if thp_barrier_cnt s > 0 then bindM promote_one (\<lambda>more. if more then thp_promote_barrier_lck else ret ())
      else ret ()) s"

definition get_req_or_put_idle :: "wid \<Rightarrow> (pool, rid option) cprog" where
  "get_req_or_put_idle w =
     bindM (mod_dequeue fast_queue) (\<lambda>req.
     case req of
       Some r \<Rightarrow>
         seqM (inc wrk_sched_fast_update w)
        (seqM (inc wrk_idle_comm_work_update w)
        (seqM (thp_swap_queue w fast_thr) (ret (Some r))))
     | None \<Rightarrow>
         bindM (mod_dequeue slow_queue) (\<lambda>req'.
         case req' of
           Some r \<Rightarrow>
             seqM (inc wrk_sched_slow_update w)
            (seqM (inc wrk_idle_comm_work_update w)
            (seqM (thp_swap_queue w slow_thr) (ret (Some r))))
         | None \<Rightarrow>
             bindM (askM (\<lambda>s. thp_barrier_cnt s = 0 \<or> thp_sched_req s > 0)) (\<lambda>rest.
             if rest
             then
               seqM (inc wrk_idle_comm_sleep_update w)
              (seqM (thp_swap_queue w idle_thr) (ret None))
             else
               bindM (mod_dequeue barrier) (\<lambda>req''.
               seqM (assertM (req'' \<noteq> None))
              (seqM (updM (thp_sched_req_update (\<lambda>n. n + 1)))
              (seqM (updM (thp_barrier_cnt_update (\<lambda>n. n - 1)))
              (seqM thp_promote_barrier_lck (ret req''))))))))"

subsection \<open>The worker's thread\<close>

definition start_req :: "wid \<Rightarrow> rid \<Rightarrow> (pool, unit) cprog" where
  "start_req w r =
     seqM (inc wrk_sched_update w)
    (seqM (bindM (askM thp_sched_req) (\<lambda>n. assertM (n \<ge> 0)))
     (set_pc w (Run r)))"

definition thp_thread_terminate :: "wid \<Rightarrow> (pool, unit) cprog" where
  "thp_thread_terminate w =
     seqM (updM (thp_run_thds_update (\<lambda>n. n - 1)))
    (seqM (thp_swap_queue w dorman_thr)
    (seqM (bindM (askM (\<lambda>s. thp_queue s idle_thr)) (\<lambda>ws. forM ws signal_wrk))
     (bindM (askM thp_run_thds) (\<lambda>n. assertM (n \<ge> 0)))))"

text \<open>The next step of \<open>worker_loop\<close>.\<close>

definition worker_loop :: "wid \<Rightarrow> bool \<Rightarrow> (pool, unit) cprog" where
  "worker_loop w kept =
     bindM (askM (\<lambda>s. (wrk_pc s w, wrk_state s w, wrk_can_terminate w s, wrk_queue s w))) (\<lambda>(p, st, ends, q).
     case p of
       No_thread \<Rightarrow> blockM
     | Start \<Rightarrow>
         seqM (assertM (st = Spawning \<or> st = Terminate))
        (seqM (thp_swap_queue w fast_thr) (set_pc w Begin))
     | Begin \<Rightarrow> seqM (inc wrk_thr_spawned_update w) (set_pc w Top)
     | Top \<Rightarrow>
         if ends then set_pc w Leave
         else (case q of
             [] \<Rightarrow> set_pc w Get
           | r # rs \<Rightarrow>
               seqM (updM (wrk_queue_update (\<lambda>f. f(w := rs))))
              (seqM (updM (wrk_reqcnt_update (\<lambda>f. f(w := f w - 1))))
               (start_req w r)))
     | Get \<Rightarrow>
         bindM (get_req_or_put_idle w) (\<lambda>req.
         case req of None \<Rightarrow> set_pc w Got_none | Some r \<Rightarrow> start_req w r)
     | Got_none \<Rightarrow>
         if ends then set_pc w Leave
         else seqM (assertM (st = Idle \<or> st = Terminate)) (set_pc w Doze)
     | Doze \<Rightarrow> set_pc w Sleep
     | Sleep \<Rightarrow> blockM
     | Run r \<Rightarrow> seqM (exec_begin r) (set_pc w (Exec r))
     | Exec r \<Rightarrow> seqM (exec_end r kept) (set_pc w Count_off)
     | Count_off \<Rightarrow> seqM (updM (thp_sched_req_update (\<lambda>n. n - 1))) (set_pc w Top)
     | Leave \<Rightarrow>
         seqM (updM (wrk_thr_id_update (\<lambda>f. f(w := 0))))
        (seqM (inc wrk_thr_exit_update w) (set_pc w Last))
     | Last \<Rightarrow> seqM (thp_thread_terminate w) (set_pc w No_thread))"

subsection \<open>Start and stop\<close>

definition pool_new :: "nat \<Rightarrow> nat \<Rightarrow> pool" where
  "pool_new mn mx = \<lparr>thp_shutdown = False, thp_min = mn, thp_max = mx, thp_barrier_cnt = 0, thp_sched_req = 0,
     thp_run_thds = 0, thp_queue = (\<lambda>_. []), m_queue = (\<lambda>_. []), thp_exe_shutdown = 0, stat_sched = 0,
     stat_spawn_fail = 0, stat_attemp_rr = 0, stat_success_rr = 0, stat_barrier_req = 0, stat_barrier_pause = 0,
     stat_barrier_resume = 0, rq_done_flgs = (\<lambda>_. 0), rq_mod = (\<lambda>_. None), wrk_state = (\<lambda>_. Terminate),
     wrk_qno = (\<lambda>_. dorman_thr), wrk_reqcnt = (\<lambda>_. 0), wrk_thr_id = (\<lambda>_. 0), wrk_queue = (\<lambda>_. []),
     wrk_sched = (\<lambda>_. 0), wrk_sched_fast = (\<lambda>_. 0), wrk_sched_slow = (\<lambda>_. 0), wrk_sched_idle = (\<lambda>_. 0),
     wrk_sched_dorman = (\<lambda>_. 0), wrk_sched_direct = (\<lambda>_. 0), wrk_idle_comm_work = (\<lambda>_. 0),
     wrk_idle_comm_sleep = (\<lambda>_. 0), wrk_thr_spawned = (\<lambda>_. 0), wrk_thr_exit = (\<lambda>_. 0),
     wrk_pc = (\<lambda>_. No_thread), pool_calls = []\<rparr>"

text \<open>\<open>mod_init\<close> while there is no thread yet, and one pass of its loop that starts the workers; \<open>tid\<close>: what
  \<open>pthread_create\<close> gives. The threads that were started run while the loop goes on.\<close>

definition pool_mod_init :: "(pool, unit) cprog" where
  "pool_mod_init =
     bindM (askM (\<lambda>s. (thp_min s, thp_max s))) (\<lambda>(mn, mx).
     seqM (forM [mn..<mx] (\<lambda>i. thp_swap_queue i dorman_thr))
     (updM (pool_calls_update (\<lambda>cs. cs @ [Start_min 0]))))"

definition pool_start_min :: "nat \<Rightarrow> nat \<Rightarrow> (pool, pool_call option) cprog" where
  "pool_start_min i tid =
     bindM (askM thp_min) (\<lambda>mn.
     if i < mn then seqM (worker_spawn_thr i tid) (ret (Some (Start_min (i + 1)))) else ret None)"

text \<open>\<open>thp_stop\<close> before it waits, and when it has seen the last thread go.\<close>

definition thp_stop_begin :: "(pool, unit) cprog" where
  "thp_stop_begin =
     seqM (updM (thp_shutdown_update (\<lambda>_. True)))
    (bindM (askM thp_max) (\<lambda>mx.
     forM [0..<mx] (\<lambda>i. seqM (updM (wrk_state_update (\<lambda>f. f(i := Terminate)))) (signal_wrk i))))"

definition thp_stop_end :: "(pool, unit) cprog" where
  "thp_stop_end s =
     (if \<not> thp_shutdown s \<or> thp_run_thds s > 0 then blockM
      else
        seqM (assertM (thp_run_thds s = 0))
       (seqM (assertM (list_all (\<lambda>w. wrk_state s w = Terminate \<and> wrk_queue s w = []) [0..<thp_max s]))
        (assertM (list_all (\<lambda>q. m_queue s q = []) [0..<max_reqq])))) s"

text \<open>The numbers \<open>thp_dump_stat\<close> checks at the end.\<close>

definition total :: "(wid \<Rightarrow> int) \<Rightarrow> pool \<Rightarrow> int" where
  "total f s = sum_list (map f [0..<thp_max s])"

definition thp_dump_stat :: "(pool, unit) cprog" where
  "thp_dump_stat s =
     seqM (assertM (total (wrk_thr_spawned s) s = total (wrk_thr_exit s) s))
    (seqM (assertM (stat_sched s = total (wrk_sched s) s))
    (seqM (assertM (total (wrk_sched_direct s) s + total (wrk_idle_comm_work s) s = stat_sched s))
     (assertM (thp_exe_shutdown s + total (wrk_sched_fast s) s + total (wrk_sched_slow s) s = stat_sched s)))) s"

subsection \<open>Interleaving\<close>

datatype pool_act =
    Call_schedule "nat option" rid nat
  | Call_barrier "nat option" rid nat
  | Go_on nat nat bool
  | Work wid bool
  | Wake wid
  | Call_stop
  | Stop_done

text \<open>The next step of a call, and where it is then.\<close>

fun pool_go_on :: "pool_call \<Rightarrow> nat \<Rightarrow> bool \<Rightarrow> (pool, pool_call option) cprog" where
  "pool_go_on (Lock_pool r qno) tid kept = bindM (schedule_locked r qno) (\<lambda>c. ret (map_option Deliver c))"
| "pool_go_on (Deliver cl) tid kept = schedule_unlocked cl"
| "pool_go_on (Enqueue w r) tid kept = worker_enqueue w r"
| "pool_go_on (Dormant w r) tid kept = dormant_test w r"
| "pool_go_on (Spawn w) tid kept = seqM (worker_spawn_thr w tid) (ret None)"
| "pool_go_on (Inline r dorm) tid kept = exec_inline r dorm"
| "pool_go_on (Handler r dorm) tid kept = seqM (exec_end r kept) (ret None)"
| "pool_go_on (Resubmit md r qno) tid kept = schedule md r qno"
| "pool_go_on (Start_min i) tid kept = pool_start_min i tid"

text \<open>\<open>Go_on i tid kept\<close>: the \<open>i\<close>-th call in progress goes on; \<open>Work w kept\<close>: the thread of worker
  \<open>w\<close> makes a step; \<open>Wake w\<close>: it wakes up without a signal.\<close>

definition keep_call :: "pool_call option \<Rightarrow> (pool, unit) cprog" where
  "keep_call x = updM (pool_calls_update (\<lambda>cs. cs @ (case x of None \<Rightarrow> [] | Some c \<Rightarrow> [c])))"

fun pool_step :: "pool_act \<Rightarrow> (pool, unit) cprog" where
  "pool_step (Call_schedule md r qno) = bindM (schedule md r qno) keep_call"
| "pool_step (Call_barrier md r qno) = bindM (schedule_barrier md r qno) keep_call"
| "pool_step (Go_on i tid kept) =
     bindM (askM pool_calls) (\<lambda>cs.
     if i < length cs
     then seqM (updM (pool_calls_update (\<lambda>cs. take i cs @ drop (Suc i) cs))) (bindM (pool_go_on (cs ! i) tid kept) keep_call)
     else blockM)"
| "pool_step (Work w kept) = bindM (askM thp_max) (\<lambda>mx. if w < mx then worker_loop w kept else blockM)"
| "pool_step (Wake w) = bindM (askM (\<lambda>s. wrk_pc s w)) (\<lambda>p. if p = Sleep then set_pc w Top else blockM)"
| "pool_step Call_stop = thp_stop_begin"
| "pool_step Stop_done = thp_stop_end"

fun pool_run :: "pool_act list \<Rightarrow> (pool, unit) cprog" where
  "pool_run [] = ret ()"
| "pool_run (a # as) = seqM (pool_step a) (pool_run as)"

declare thp_promote_barrier_lck.simps [code]

end
