(* ===== verification/ThreadPoolProps.thy ===== *)
theory ThreadPoolProps
  imports ThreadPool
begin

text \<open>
  Properties of the thread pool under every interleaving: how far the counter of pending requests is off,
  when a request behind a barrier starts, and what breaks when
  requests are submitted during shutdown or promoted from behind a barrier.
\<close>

subsection \<open>Partial correctness\<close>

text \<open>\<open>Q\<close> holds after \<open>m\<close>, if it returns.\<close>

definition wlp :: "('s, 'a) cprog \<Rightarrow> ('a \<Rightarrow> 's \<Rightarrow> bool) \<Rightarrow> 's \<Rightarrow> bool" where
  "wlp m Q s \<longleftrightarrow> (\<forall>x s'. m s = Ret x s' \<longrightarrow> Q x s')"

named_theorems wlp_rules

lemma wlp_basic [wlp_rules]:
  "wlp (bindM m f) Q s = wlp m (\<lambda>x. wlp (f x) Q) s"
  "wlp (seqM m k) Q s = wlp m (\<lambda>_. wlp k Q) s"
  "wlp (ret v) Qv s = Qv v s"
  "wlp (abortM e) Qe s"
  "wlp blockM Qb s"
  "wlp (assertM b) R s = (b \<longrightarrow> R () s)"
  "wlp (askM fa) Qa s = Qa (fa s) s"
  "wlp (updM g) R s = R () (g s)"
  by (auto simp: wlp_def c_eval split: option.splits outcome.splits)

lemma wlp_ret [wlp_rules]: "wlp (ret v) Q = Q v"
  by (simp add: fun_eq_iff wlp_rules)

lemma wlp_split [wlp_rules]:
  "wlp (if b then m else k) Q s = (if b then wlp m Q s else wlp k Q s)"
  "wlp (case x of None \<Rightarrow> m | Some y \<Rightarrow> f y) Q s = (case x of None \<Rightarrow> wlp m Q s | Some y \<Rightarrow> wlp (f y) Q s)"
  "wlp (case xs of [] \<Rightarrow> m | z # zs \<Rightarrow> g z zs) Q s = (case xs of [] \<Rightarrow> wlp m Q s | z # zs \<Rightarrow> wlp (g z zs) Q s)"
  "wlp (case pr of (a, b) \<Rightarrow> h a b) Q s = (case pr of (a, b) \<Rightarrow> wlp (h a b) Q s)"
  by (simp_all split: option.splits list.splits prod.splits)

lemma wlp_mono: "wlp m Q s \<Longrightarrow> (\<And>x s'. Q x s' \<Longrightarrow> R x s') \<Longrightarrow> wlp m R s"
  by (auto simp: wlp_def)

lemma wlp_forM:
  assumes "I s" and "\<And>x t. x \<in> set xs \<Longrightarrow> I t \<Longrightarrow> wlp (f x) (\<lambda>_. I) t"
  shows "wlp (forM xs f) (\<lambda>_. I) s"
  using assms
proof (induction xs arbitrary: s)
  case (Cons x xs)
  have "wlp (f x) (\<lambda>_ t. wlp (forM xs f) (\<lambda>_. I) t) s"
    using Cons.prems(2) [OF _ Cons.prems(1)] by (rule wlp_mono) (simp_all add: Cons.IH Cons.prems)
  then show ?case by (simp add: wlp_rules)
qed (simp add: wlp_rules)

lemma wlp_run: "pool_run (a # as) s = Ret () s' \<Longrightarrow> \<exists>t. pool_step a s = Ret () t \<and> pool_run as t = Ret () s'"
  by (auto simp: c_eval split: option.splits outcome.splits)

subsection \<open>The basic operations\<close>

lemma qmap_nth: "q < 4 \<Longrightarrow> snd (wrk_qmap ! q) = q"
  by (auto simp: wrk_qmap_def less_Suc_eq numeral_eq_Suc)

definition swapped :: "wid \<Rightarrow> nat \<Rightarrow> (nat \<Rightarrow> wid list) \<Rightarrow> nat \<Rightarrow> wid list" where
  "swapped w q f = (\<lambda>p. filter (\<lambda>x. x \<noteq> w) (f p) @ (if p = q then [w] else []))"

definition new_state :: "wid \<Rightarrow> nat \<Rightarrow> (wid \<Rightarrow> thp_state_e) \<Rightarrow> wid \<Rightarrow> thp_state_e" where
  "new_state w q f = (if f w \<noteq> Terminate then f(w := fst (wrk_qmap ! q)) else f)"

lemma swapped_comp: "(\<lambda>f. f(q := f q @ [w])) \<circ> (\<lambda>f p. filter (\<lambda>x. x \<noteq> w) (f p)) = swapped w q"
  by (auto simp: swapped_def fun_eq_iff)

lemma new_state_upd:
  "wrk_state s w \<noteq> Terminate \<Longrightarrow> wrk_state_update (new_state w q) s = wrk_state_update (\<lambda>f. f(w := fst (wrk_qmap ! q))) s"
  "wrk_state s w = Terminate \<Longrightarrow> wrk_state_update (new_state w q) s = s"
  by (cases s; simp add: new_state_def)+

lemma wlp_swap [wlp_rules]:
  "wlp (thp_swap_queue w q) R s = (q < 4 \<longrightarrow>
     R () (thp_queue_update (swapped w q) (wrk_state_update (new_state w q) (wrk_qno_update (\<lambda>f. f(w := q)) s))))"
  by (cases "wrk_state s w = Terminate")
    (simp_all add: thp_swap_queue_def worker_update_state_def wlp_rules qmap_nth swapped_comp new_state_upd)

lemma wlp_queues [wlp_rules]:
  "wlp (mod_enqueue r q) R s = (q < 5 \<and> \<not> req_chained r s \<longrightarrow> R () (m_queue_update (\<lambda>f. f(q := f q @ [r])) s))"
  "wlp (mod_front_queue r q) R s = (q < 5 \<and> \<not> req_chained r s \<longrightarrow> R () (m_queue_update (\<lambda>f. f(q := r # f q)) s))"
  "wlp (signal_wrk w) R s = R () (wrk_pc_update (\<lambda>f. if f w = Sleep then f(w := Top) else f) s)"
  "wlp (set_pc w p) R s = R () (wrk_pc_update (\<lambda>f. f(w := p)) s)"
  by (auto simp: mod_enqueue_def mod_front_queue_def signal_wrk_def set_pc_def wlp_rules)

lemma wlp_inc [wlp_rules]: "wlp (inc upd i) R s = R () (upd (\<lambda>f. f(i := f i + 1)) s)"
  by (simp add: inc_def wlp_rules)

lemma wlp_dequeues [wlp_rules]:
  "wlp (thp_dequeue q) Q s = (q < 4 \<longrightarrow> (case thp_queue s q of
     [] \<Rightarrow> Q None s | w # ws \<Rightarrow> Q (Some w) (thp_queue_update (\<lambda>f. f(q := ws)) s)))"
  "wlp (mod_dequeue q) Q' s = (q < 5 \<longrightarrow> (case m_queue s q of
     [] \<Rightarrow> Q' None s | r # rs \<Rightarrow> Q' (Some r) (m_queue_update (\<lambda>f. f(q := rs)) s)))"
  by (auto simp: thp_dequeue_def mod_dequeue_def wlp_rules split: list.splits)

subsection \<open>Pending requests\<close>

fun busy :: "wrk_pc \<Rightarrow> int" where
  "busy (Run r) = 1"
| "busy (Exec r) = 1"
| "busy Count_off = 1"
| "busy p = 0"

text \<open>A request in the hands of \<open>schedule\<close>: counted and on no queue, up to the end of the handler when
  \<open>schedule\<close> executes it.\<close>

fun undelivered :: "pool_call \<Rightarrow> bool" where
  "undelivered (Deliver c) \<longleftrightarrow> \<not> c_dorman c"
| "undelivered (Enqueue w r) \<longleftrightarrow> True"
| "undelivered (Inline r dorm) \<longleftrightarrow> \<not> dorm"
| "undelivered (Handler r dorm) \<longleftrightarrow> \<not> dorm"
| "undelivered c \<longleftrightarrow> False"

text \<open>A counted request whose caller executes it.\<close>

fun in_handler :: "pool_call \<Rightarrow> bool" where
  "in_handler (Handler r dorm) \<longleftrightarrow> \<not> dorm"
| "in_handler c \<longleftrightarrow> False"

definition queued :: "(nat \<Rightarrow> rid list) \<Rightarrow> int" where
  "queued f = int (length (f fast_queue) + length (f slow_queue) + length (f time_wait) + length (f suspend))"

definition own_load :: "nat \<Rightarrow> (wid \<Rightarrow> rid list) \<Rightarrow> int" where
  "own_load n f = (\<Sum>w<n. int (length (f w)))"

definition running :: "nat \<Rightarrow> (wid \<Rightarrow> wrk_pc) \<Rightarrow> int" where
  "running n f = (\<Sum>w<n. busy (f w))"

definition in_hand :: "pool_call list \<Rightarrow> int" where
  "in_hand cs = int (length (filter undelivered cs))"

definition by_caller :: "pool_call list \<Rightarrow> int" where
  "by_caller cs = int (length (filter in_handler cs))"

text \<open>Requests that were counted and are queued, handed over or executed, leaving out those
  behind a barrier.\<close>

definition pending :: "pool \<Rightarrow> int" where
  "pending s = queued (m_queue s) + own_load (thp_max s) (wrk_queue s) + running (thp_max s) (wrk_pc s) + in_hand (pool_calls s)"

text \<open>Requests that are counted but not pending any more.\<close>

definition leaked :: "pool \<Rightarrow> int" where
  "leaked s = thp_sched_req s - pending s"

text \<open>Those, and the ones whose caller is executing them, which are never counted off.\<close>

definition lost :: "pool \<Rightarrow> int" where
  "lost s = leaked s + by_caller (pool_calls s)"

fun call_ok :: "nat \<Rightarrow> pool_call \<Rightarrow> bool" where
  "call_ok n (Deliver c) \<longleftrightarrow> (case c_wrk c of None \<Rightarrow> c_noq c \<and> \<not> c_dorman c | Some w \<Rightarrow> w < n)"
| "call_ok n (Enqueue w r) \<longleftrightarrow> w < n"
| "call_ok n (Dormant w r) \<longleftrightarrow> w < n"
| "call_ok n (Spawn w) \<longleftrightarrow> w < n"
| "call_ok n c \<longleftrightarrow> True"

text \<open>A worker without a thread, or one that is leaving, is not in its loop.\<close>

definition thread_ok :: "(wid \<Rightarrow> nat) \<Rightarrow> (wid \<Rightarrow> wrk_pc) \<Rightarrow> bool" where
  "thread_ok ids pcs \<longleftrightarrow> (\<forall>w. ids w = 0 \<longrightarrow> pcs w = No_thread \<or> pcs w = Last)"

lemma thread_ok_signal [simp]: "thread_ok ids pcs \<Longrightarrow> thread_ok ids (if pcs w = Sleep then pcs(w := Top) else pcs)"
  unfolding thread_ok_def by auto

lemma thread_ok_step: "thread_ok ids pcs \<Longrightarrow> ids w \<noteq> 0 \<or> p = No_thread \<or> p = Last \<Longrightarrow> thread_ok ids (pcs(w := p))"
  by (auto simp: thread_ok_def)

lemma thread_ok_alive: "thread_ok ids pcs \<Longrightarrow> pcs w \<noteq> No_thread \<Longrightarrow> pcs w \<noteq> Last \<Longrightarrow> ids w \<noteq> 0"
  by (auto simp: thread_ok_def)

lemma thread_ok_idle: "thread_ok ids pcs \<Longrightarrow> ids w = 0 \<Longrightarrow> busy (pcs w) = 0"
  by (auto simp: thread_ok_def dest: spec [of _ w])

lemma thread_ok_spawn: "thread_ok ids pcs \<Longrightarrow> tid \<noteq> 0 \<Longrightarrow> thread_ok (ids(w := tid)) (pcs(w := p))"
  by (simp add: thread_ok_def)

lemma thread_ok_leave: "thread_ok ids pcs \<Longrightarrow> thread_ok (ids(w := 0)) (pcs(w := Last))"
  by (simp add: thread_ok_def)

text \<open>Only workers of the pool are in its queues.\<close>

definition queues_ok :: "nat \<Rightarrow> (nat \<Rightarrow> wid list) \<Rightarrow> bool" where
  "queues_ok n f \<longleftrightarrow> (\<forall>q. set (f q) \<subseteq> {..<n})"

lemma queues_ok_swapped [simp]: "queues_ok n f \<Longrightarrow> w < n \<Longrightarrow> queues_ok n (swapped w q f)"
  by (auto simp: queues_ok_def swapped_def)

lemma queues_ok_head: "queues_ok n f \<Longrightarrow> f q = w # ws \<Longrightarrow> w < n"
  by (auto simp: queues_ok_def dest: spec [of _ q])

lemma queues_ok_tail: "queues_ok n f \<Longrightarrow> f q = w # ws \<Longrightarrow> queues_ok n (f(q := ws))"
  unfolding queues_ok_def by (metis fun_upd_apply set_subset_Cons subset_trans)

lemma queues_ok_front: "queues_ok n f \<Longrightarrow> w < n \<Longrightarrow> queues_ok n (f(q := w # f q))"
  by (auto simp: queues_ok_def dest: spec [of _ q])

definition pool_inv :: "pool \<Rightarrow> bool" where
  "pool_inv s \<longleftrightarrow> thp_min s \<le> thp_max s \<and> thp_barrier_cnt s = int (length (m_queue s barrier)) \<and>
     queues_ok (thp_max s) (thp_queue s) \<and> (\<forall>c \<in> set (pool_calls s). call_ok (thp_max s) c) \<and>
     thread_ok (wrk_thr_id s) (wrk_pc s)"

lemma sum_update:
  fixes h :: "'b \<Rightarrow> int"
  assumes "w < (n :: nat)"
  shows "(\<Sum>i<n. h ((f(w := x)) i)) = (\<Sum>i<n. h (f i)) - h (f w) + h x"
proof -
  have "(\<Sum>i<n. h ((f(w := x)) i)) = h x + (\<Sum>i \<in> {..<n} - {w}. h (f i))"
    using assms by (subst sum.remove [of _ w]) (auto intro!: sum.cong)
  moreover have "(\<Sum>i<n. h (f i)) = h (f w) + (\<Sum>i \<in> {..<n} - {w}. h (f i))"
    using assms by (subst sum.remove [of _ w]) auto
  ultimately show ?thesis by simp
qed

lemma own_load_upd: "w < n \<Longrightarrow> own_load n (f(w := xs)) = own_load n f - int (length (f w)) + int (length xs)"
  unfolding own_load_def by (rule sum_update)

lemma running_upd: "w < n \<Longrightarrow> running n (f(w := p)) = running n f - busy (f w) + busy p"
  unfolding running_def by (rule sum_update)

lemma running_signal [simp]: "running n (if f w = Sleep then f(w := Top) else f) = running n f"
  unfolding running_def by (rule sum.cong) auto

lemma running_wake: "f w = Sleep \<Longrightarrow> running n (f(w := Top)) = running n f"
  unfolding running_def by (rule sum.cong) auto

subsection \<open>Every step keeps the invariant\<close>

definition step_ok :: "pool \<Rightarrow> pool \<Rightarrow> bool" where
  "step_ok s s' \<longleftrightarrow> pool_inv s' \<and> thp_max s' = thp_max s \<and> leaked s' \<ge> leaked s \<and> lost s' \<ge> lost s \<and>
     lost s' - thp_exe_shutdown s' \<le> lost s - thp_exe_shutdown s"

lemmas leaked_simps = leaked_def pending_def queued_def in_hand_def

text \<open>A part of a step that leaves the calls alone.\<close>

definition same_calls :: "pool \<Rightarrow> pool \<Rightarrow> bool" where
  "same_calls s s' \<longleftrightarrow> thp_max s' = thp_max s \<and> pool_calls s' = pool_calls s \<and> thp_exe_shutdown s' = thp_exe_shutdown s"

definition moved :: "pool \<Rightarrow> pool \<Rightarrow> bool" where
  "moved s s' \<longleftrightarrow> pool_inv s' \<and> leaked s' = leaked s \<and> same_calls s s'"

lemmas moved_simps = moved_def same_calls_def

lemma moved_step: "moved s s' \<Longrightarrow> step_ok s s'"
  by (simp add: moved_simps step_ok_def lost_def)

text \<open>What a step of the call \<open>c\<close>, taken out of the calls, leaves: its next step \<open>x\<close>, and counters that fit.\<close>

definition credit :: "pool_call option \<Rightarrow> int" where
  "credit x = (case x of None \<Rightarrow> 0 | Some c \<Rightarrow> if undelivered c then 1 else 0)"

definition work :: "pool_call option \<Rightarrow> int" where
  "work x = (case x of None \<Rightarrow> 0 | Some c \<Rightarrow> if in_handler c then 1 else 0)"

lemma credit_work [simp]:
  "credit None = 0" "credit (Some c) = (if undelivered c then 1 else 0)"
  "work None = 0" "work (Some c) = (if in_handler c then 1 else 0)"
  by (simp_all add: credit_def work_def)

definition call_post :: "pool \<Rightarrow> pool_call option \<Rightarrow> pool_call option \<Rightarrow> pool \<Rightarrow> bool" where
  "call_post s c x s' \<longleftrightarrow> pool_inv s' \<and> thp_max s' = thp_max s \<and> pool_calls s' = pool_calls s \<and>
     (\<forall>y. x = Some y \<longrightarrow> call_ok (thp_max s) y) \<and>
     leaked s' - credit x \<ge> leaked s - credit c \<and>
     leaked s' - credit x + work x \<ge> leaked s - credit c + work c \<and>
     leaked s' - credit x + work x - thp_exe_shutdown s' \<le> leaked s - credit c + work c - thp_exe_shutdown s"

lemma wlp_req_done: "wlp (req_done r fl) (\<lambda>_ s'. s' = s \<or> s' = rq_done_flgs_update (\<lambda>f. f(r := rq_complete OR fl)) s) s"
  by (auto simp: req_done_def wlp_rules)

lemma wlp_exec_end: "wlp (exec_end r kept) (\<lambda>_ s'. \<exists>g. s' = rq_done_flgs_update g s) s"
proof -
  have "s = rq_done_flgs_update (\<lambda>f. f) s" by simp
  then have "wlp (req_done r 0) (\<lambda>_ s'. \<exists>g. s' = rq_done_flgs_update g s) s"
    by (intro wlp_mono [OF wlp_req_done]) blast
  then show ?thesis by (auto simp: exec_end_def wlp_rules intro: exI [of _ "\<lambda>f. f"])
qed

lemma inv_flags [simp]:
  "pool_inv (rq_done_flgs_update g s) = pool_inv s"
  "leaked (rq_done_flgs_update g s) = leaked s"
  "pool_inv (thp_exe_shutdown_update h s) = pool_inv s"
  "leaked (thp_exe_shutdown_update h s) = leaked s"
  by (simp_all add: pool_inv_def leaked_simps)

lemma step_ok_idle: "step_ok s s' \<Longrightarrow> pool_inv s'"
  by (simp add: step_ok_def)

lemma wlp_exec_inline:
  "pool_inv s \<Longrightarrow> wlp (exec_inline r dorm) (call_post s (Some (Inline r dorm))) s"
  by (simp add: exec_inline_def exec_begin_def wlp_rules call_post_def)

text \<open>Handing a request over: it is in hand before.\<close>

lemma wlp_worker_enqueue:
  assumes "pool_inv s" and "w < thp_max s"
  shows "wlp (worker_enqueue w r) (call_post s (Some (Enqueue w r))) s"
  using assms by (auto simp: worker_enqueue_def wlp_rules call_post_def pool_inv_def leaked_simps own_load_upd)

lemma wlp_worker_spawn_thr:
  assumes "pool_inv s" and "w < thp_max s"
  shows "wlp (worker_spawn_thr w tid) (\<lambda>_ s'. moved s s') s"
proof -
  have t: "thread_ok (wrk_thr_id s) (wrk_pc s)" using assms(1) by (simp add: pool_inv_def)
  have "(wrk_thr_id s)(w := 0) = wrk_thr_id s" if "wrk_thr_id s w = 0" using that by (simp add: fun_upd_idem)
  with assms t thread_ok_idle [OF t, of w] show ?thesis
    by (auto simp: worker_spawn_thr_def wlp_rules moved_simps pool_inv_def leaked_simps running_upd
        thread_ok_spawn)
qed

lemma wlp_round_robin:
  assumes "pool_inv s" and "w < thp_max s"
  shows "wlp (round_robin w thp) (\<lambda>x s'. moved s s' \<and>
     (\<exists>v. x = Some v \<and> v < thp_max s)) s"
proof -
  let ?f = "swapped w thp (thp_queue s)"
  have ok: "queues_ok (thp_max s) ?f" using assms by (simp add: pool_inv_def)
  have "v < thp_max s \<and> queues_ok (thp_max s) (?f(thp := vs)) \<and> queues_ok (thp_max s) (?f(thp := v # vs))"
    if "?f thp = v # vs" for v vs
    using queues_ok_head [OF ok that] queues_ok_tail [OF ok that] ok that by (simp add: fun_upd_idem)
  with ok assms show ?thesis
    by (auto simp: round_robin_def wlp_rules pool_inv_def leaked_simps moved_simps split: list.splits)
qed

lemma inv_queue_tail:
  assumes "pool_inv s" and "thp_queue s q = w # ws"
  shows "w < thp_max s" and "pool_inv (thp_queue_update (\<lambda>f. f(q := ws)) s)"
  using assms queues_ok_head queues_ok_tail by (auto simp: pool_inv_def)

lemma leaked_queue [simp]: "leaked (thp_queue_update g s) = leaked s"
  by (simp add: leaked_simps)

lemma inv_stats [simp]:
  "pool_inv (stat_sched_update g s) = pool_inv s" "leaked (stat_sched_update g s) = leaked s"
  "pool_inv (rq_mod_update h s) = pool_inv s" "leaked (rq_mod_update h s) = leaked s"
  "pool_inv (thp_sched_req_update k s) = pool_inv s" "leaked (thp_sched_req_update (\<lambda>n. n + d) s) = leaked s + d"
  "pool_inv (stat_barrier_req_update g s) = pool_inv s" "leaked (stat_barrier_req_update g s) = leaked s"
  "pool_inv (wrk_sched_idle_update j s) = pool_inv s" "leaked (wrk_sched_idle_update j s) = leaked s"
  by (simp_all add: pool_inv_def leaked_simps)

text \<open>What \<open>schedule\<close> leaves for its second step: a counted request in hand, or one queued
  with a worker to start.\<close>

definition sched_post :: "pool \<Rightarrow> sched_call option \<Rightarrow> pool \<Rightarrow> bool" where
  "sched_post s x s' \<longleftrightarrow> pool_inv s' \<and> same_calls s s' \<and>
     (case x of None \<Rightarrow> leaked s' = leaked s
      | Some c \<Rightarrow> call_ok (thp_max s) (Deliver c) \<and> leaked s' = leaked s + (if c_dorman c then 0 else 1))"

lemma wlp_serve_queue:
  assumes "pool_inv s" and "thp_queue s thp = w # ws"
  shows "wlp (round_robin w thp) (\<lambda>x s'. moved s s' \<and>
     (\<exists>v. x = Some v \<and> v < thp_max s)) (thp_queue_update (\<lambda>f. f(thp := ws)) s)"
  using wlp_round_robin [OF inv_queue_tail(2) [OF assms], of w thp] inv_queue_tail(1) [OF assms]
  by (simp add: moved_simps)

lemma inv_enqueue:
  "pool_inv s \<Longrightarrow> q < 4 \<Longrightarrow> pool_inv (m_queue_update (\<lambda>f. f(q := f q @ [r])) s)"
  "q < 4 \<Longrightarrow> leaked (m_queue_update (\<lambda>f. f(q := f q @ [r])) s) = leaked s - 1"
  by (auto simp: pool_inv_def leaked_simps less_Suc_eq numeral_eq_Suc)

lemma wlp_schedule_locked:
  assumes "pool_inv s"
  shows "wlp (schedule_locked r qno) (sched_post s) s"
proof -
  let ?t = "thp_sched_req_update (\<lambda>n. n + 1) (stat_sched_update (\<lambda>n. n + 1) s)"
  have t: "pool_inv ?t" "leaked ?t = leaked s + 1" using assms by simp_all
  have serve: "wlp (round_robin w thp) (\<lambda>x. sched_post s (Some \<lparr>c_req = r, c_wrk = x, c_noq = False, c_dorman = False\<rparr>))
      (thp_queue_update (\<lambda>f. f(thp := ws)) ?t)" if "thp_queue s thp = w # ws" for w ws thp
    by (rule wlp_mono [OF wlp_serve_queue [OF t(1)]]) (use that t(2) in \<open>auto simp: sched_post_def moved_simps\<close>)
  have idle: "sched_post s (Some \<lparr>c_req = r, c_wrk = Some w, c_noq = False, c_dorman = False\<rparr>)
      (wrk_sched_idle_update g (thp_queue_update (\<lambda>f. f(q := ws)) ?t))" if "thp_queue s q = w # ws" for w ws q g
    using inv_queue_tail [OF t(1), of q w ws] that t by (auto simp: sched_post_def moved_simps)
  have bar: "sched_post s None (m_queue_update (\<lambda>f. f(4 := f 4 @ [r])) (stat_barrier_pause_update (\<lambda>n. n + 1)
      (thp_barrier_cnt_update (\<lambda>n. n + 1) (stat_sched_update (\<lambda>n. n + 1) s))))"
    using assms by (simp add: sched_post_def moved_simps pool_inv_def leaked_simps)
  have queue: "sched_post s None (m_queue_update (\<lambda>f. f(q := f q @ [r])) ?t)" if "q < 4" for q
    using inv_enqueue(1) [OF t(1) that] inv_enqueue(2) [OF that, of r ?t] t by (simp add: sched_post_def moved_simps)
  have dorm: "sched_post s (Some \<lparr>c_req = r, c_wrk = Some w, c_noq = False, c_dorman = True\<rparr>)
      (thp_queue_update (\<lambda>f. f(3 := ws)) (m_queue_update (\<lambda>f. f(q := f q @ [r])) ?t))"
    if "thp_queue s 3 = w # ws" "q < 4" for w ws q
    using inv_queue_tail [OF inv_enqueue(1) [OF t(1) that(2), of r], of 3 w ws] inv_enqueue(2) [OF that(2), of r ?t] t that
    by (simp add: sched_post_def moved_simps)
  have noq: "sched_post s (Some \<lparr>c_req = r, c_wrk = None, c_noq = True, c_dorman = False\<rparr>) ?t"
    using t by (simp add: sched_post_def moved_simps)
  show ?thesis
    unfolding schedule_locked_def Let_def
    by (simp add: wlp_rules serve idle bar queue dorm noq split: list.split)
qed

lemma wlp_schedule:
  "pool_inv s \<Longrightarrow> wlp (schedule md r qno) (\<lambda>x s'. moved s s' \<and> x = Some (Lock_pool r qno)) s"
  by (simp add: schedule_def wlp_rules moved_simps)

lemma wlp_schedule_barrier:
  "pool_inv s \<Longrightarrow> wlp (schedule_barrier md r qno)
     (\<lambda>x s'. moved s s' \<and> (x = None \<or> x = Some (Resubmit md r qno))) s"
  by (simp add: schedule_barrier_def schedule_barrier_locked_def wlp_rules moved_simps pool_inv_def leaked_simps)

text \<open>Each step of a call.\<close>

lemma post_same: "pool_inv s' \<Longrightarrow> same_calls s s' \<Longrightarrow> leaked s' - leaked s = credit x - credit c \<Longrightarrow> work x = 0 \<Longrightarrow> work c = 0 \<Longrightarrow>
    (\<And>y. x = Some y \<Longrightarrow> call_ok (thp_max s) y) \<Longrightarrow> call_post s c x s'"
  by (simp add: call_post_def same_calls_def)

lemma wlp_schedule_unlocked:
  assumes "pool_inv s" and "call_ok (thp_max s) (Deliver c)"
  shows "wlp (schedule_unlocked c) (call_post s (Some (Deliver c))) s"
  using assms by (cases "c_wrk c") (auto simp: schedule_unlocked_def wlp_rules call_post_def)

lemma wlp_pool_go_on:
  assumes inv: "pool_inv s" and ok: "call_ok (thp_max s) c"
  shows "wlp (pool_go_on c tid kept) (call_post s (Some c)) s"
proof (cases c)
  case (Lock_pool r qno)
  have "wlp (ret (map_option Deliver x)) (call_post s (Some c)) t" if "sched_post s x t" for x t
    using that Lock_pool by (auto simp: wlp_rules sched_post_def intro!: post_same split: option.splits)
  with wlp_schedule_locked [OF inv, of r qno] show ?thesis
    by (auto simp: Lock_pool wlp_basic(1) intro: wlp_mono)
next
  case (Deliver cl)
  with wlp_schedule_unlocked [OF inv] ok show ?thesis by simp
next
  case (Enqueue w r)
  with wlp_worker_enqueue [OF inv] ok show ?thesis by simp
next
  case (Dormant w r)
  with inv ok show ?thesis by (simp add: dormant_test_def wlp_rules call_post_def)
next
  case (Spawn w)
  with ok have "wlp (worker_spawn_thr w tid) (\<lambda>_. call_post s (Some c) None) s"
    by (intro wlp_mono [OF wlp_worker_spawn_thr [OF inv]]) (auto simp: moved_simps intro!: post_same)
  with Spawn show ?thesis by (simp add: wlp_rules)
next
  case (Inline r dorm)
  with wlp_exec_inline [OF inv] show ?thesis by simp
next
  case (Handler r dorm)
  have "wlp (exec_end r kept) (\<lambda>_. call_post s (Some c) None) s"
    by (rule wlp_mono [OF wlp_exec_end]) (use inv Handler in \<open>auto simp: call_post_def\<close>)
  with Handler show ?thesis by (simp add: wlp_rules)
next
  case (Resubmit md r qno)
  show ?thesis
    unfolding Resubmit pool_go_on.simps
    by (rule wlp_mono [OF wlp_schedule [OF inv]]) (auto simp: moved_simps intro!: post_same)
next
  case (Start_min i)
  have "wlp (worker_spawn_thr i tid) (\<lambda>_. call_post s (Some c) (Some (Start_min (i + 1)))) s" if "i < thp_min s"
  proof (rule wlp_mono [OF wlp_worker_spawn_thr [OF inv]])
    show "i < thp_max s" using inv that by (simp add: pool_inv_def)
  qed (auto simp: Start_min moved_simps intro!: post_same)
  moreover have "call_post s (Some c) None s" using inv Start_min by (simp add: call_post_def)
  ultimately show ?thesis by (simp add: Start_min pool_start_min_def wlp_rules)
qed

lemma in_hand_mid:
  "in_hand (xs @ x # ys) = in_hand (xs @ ys) + credit (Some x)" "by_caller (xs @ x # ys) = by_caller (xs @ ys) + work (Some x)"
  by (simp_all add: in_hand_def by_caller_def)

lemma in_hand_take:
  assumes "i < length cs"
  shows "in_hand cs = in_hand (take i cs @ drop (Suc i) cs) + credit (Some (cs ! i))"
    and "by_caller cs = by_caller (take i cs @ drop (Suc i) cs) + work (Some (cs ! i))"
    and "set (take i cs @ drop (Suc i) cs) \<subseteq> set cs"
proof -
  have "cs = take i cs @ cs ! i # drop (Suc i) cs" using assms by (rule id_take_nth_drop)
  then have *: "f cs = f (take i cs @ cs ! i # drop (Suc i) cs)" for f :: "pool_call list \<Rightarrow> int" by (rule arg_cong)
  show "in_hand cs = in_hand (take i cs @ drop (Suc i) cs) + credit (Some (cs ! i))"
    using * [of in_hand] in_hand_mid(1) [of "take i cs" "cs ! i" "drop (Suc i) cs"] by (simp del: credit_work)
  show "by_caller cs = by_caller (take i cs @ drop (Suc i) cs) + work (Some (cs ! i))"
    using * [of by_caller] in_hand_mid(2) [of "take i cs" "cs ! i" "drop (Suc i) cs"] by (simp del: credit_work)
  show "set (take i cs @ drop (Suc i) cs) \<subseteq> set cs" by (auto dest: in_set_takeD in_set_dropD)
qed

text \<open>A call that goes on: taken out, its step, and put back.\<close>

lemma wlp_keep_call:
  assumes "call_post t c x u" and "step_ok s s" and "thp_max t = thp_max s" and "thp_exe_shutdown t = thp_exe_shutdown s"
    and "leaked t = leaked s + credit c" and "lost t = lost s + credit c - work c"
  shows "wlp (keep_call x) (\<lambda>_. step_ok s) u"
proof -
  define u' where "u' = pool_calls_update (\<lambda>cs. cs @ (case x of None \<Rightarrow> [] | Some c \<Rightarrow> [c])) u"
  have "pool_inv u'" "thp_max u' = thp_max u" "thp_exe_shutdown u' = thp_exe_shutdown u"
    using assms(1) by (auto simp: u'_def call_post_def pool_inv_def split: option.splits)
  moreover have "leaked u' = leaked u - credit x" "lost u' = lost u - credit x + work x"
    by (auto simp: u'_def lost_def leaked_def pending_def in_hand_def by_caller_def split: option.split)
  moreover have "lost u - leaked u = lost t - leaked t" using assms(1) by (simp add: lost_def call_post_def)
  ultimately have "step_ok s u'" using assms by (simp add: step_ok_def call_post_def)
  then show ?thesis by (simp add: keep_call_def wlp_rules u'_def)
qed

lemma wlp_call:
  assumes "wlp m (call_post s None) s" and "pool_inv s"
  shows "wlp (bindM m keep_call) (\<lambda>_. step_ok s) s"
proof -
  have "wlp (keep_call x) (\<lambda>_. step_ok s) u" if "call_post s None x u" for x u
    using that by (rule wlp_keep_call) (use assms(2) in \<open>simp_all add: step_ok_def\<close>)
  with assms(1) show ?thesis by (auto simp: wlp_basic(1) intro: wlp_mono)
qed

lemma wlp_new_call:
  assumes "pool_inv s"
  shows "wlp (pool_step (Call_schedule md r qno)) (\<lambda>_. step_ok s) s" and "wlp (pool_step (Call_barrier md r qno)) (\<lambda>_. step_ok s) s"
proof -
  have "wlp (schedule md r qno) (call_post s None) s"
    by (rule wlp_mono [OF wlp_schedule [OF assms]]) (auto simp: moved_simps intro!: post_same)
  then show "wlp (pool_step (Call_schedule md r qno)) (\<lambda>_. step_ok s) s" using wlp_call assms by simp
  have "wlp (schedule_barrier md r qno) (call_post s None) s"
    by (rule wlp_mono [OF wlp_schedule_barrier [OF assms]]) (auto simp: moved_simps intro!: post_same)
  then show "wlp (pool_step (Call_barrier md r qno)) (\<lambda>_. step_ok s) s" using wlp_call assms by simp
qed

lemma wlp_go_on:
  assumes "pool_inv s"
  shows "wlp (pool_step (Go_on i tid kept)) (\<lambda>_. step_ok s) s"
proof (cases "i < length (pool_calls s)")
  case True
  let ?c = "pool_calls s ! i"
  let ?t = "pool_calls_update (\<lambda>cs. take i cs @ drop (Suc i) cs) s"
  note ih = in_hand_take [OF True]
  have inv: "pool_inv ?t" using assms ih(3) by (auto simp: pool_inv_def)
  have t: "leaked ?t = leaked s + credit (Some ?c)" "lost ?t = lost s + credit (Some ?c) - work (Some ?c)"
    using ih(1,2) by (simp_all add: lost_def leaked_def pending_def del: credit_work)
  have c: "call_ok (thp_max ?t) ?c" using assms True by (auto simp: pool_inv_def)
  have "wlp (keep_call x) (\<lambda>_. step_ok s) u" if "call_post ?t (Some ?c) x u" for x u
    using that by (rule wlp_keep_call) (use assms t in \<open>simp_all add: step_ok_def\<close>)
  then have "wlp (bindM (pool_go_on ?c tid kept) keep_call) (\<lambda>_. step_ok s) ?t"
    unfolding wlp_basic(1) by (rule wlp_mono [OF wlp_pool_go_on [OF inv c]])
  with True show ?thesis by (simp add: wlp_rules)
qed (simp add: wlp_rules)

subsubsection \<open>Barriers\<close>

definition promoted :: "pool \<Rightarrow> pool \<Rightarrow> bool" where
  "promoted s s' \<longleftrightarrow> moved s s' \<and>
     wrk_thr_id s' = wrk_thr_id s \<and> (\<forall>w. busy (wrk_pc s' w) = busy (wrk_pc s w)) \<and>
     (\<forall>w. wrk_pc s w \<noteq> Sleep \<longrightarrow> wrk_pc s' w = wrk_pc s w)"

lemma wlp_promote_one:
  assumes "pool_inv s"
  shows "wlp promote_one (\<lambda>_. promoted s) s"
proof -
  have ok: "queues_ok (thp_max s) (thp_queue s)" using assms by (simp add: pool_inv_def)
  note queues_ok_head [OF ok, of 0] queues_ok_tail [OF ok, of 0]
  with assms show ?thesis
    by (auto simp: promote_one_def wlp_rules promoted_def moved_simps pool_inv_def leaked_simps split: list.split)
qed

lemma promoted_trans: "promoted s t \<Longrightarrow> promoted t u \<Longrightarrow> promoted s u"
  unfolding promoted_def moved_simps by (metis busy.simps(11))

lemma promoted_refl: "pool_inv s \<Longrightarrow> promoted s s"
  by (simp add: promoted_def moved_simps)

lemma wlp_promote:
  assumes "pool_inv s"
  shows "wlp thp_promote_barrier_lck (\<lambda>_. promoted s) s"
proof -
  have "pool_inv s \<longrightarrow> (\<forall>s'. r = Ok () s' \<longrightarrow> promoted s s')" if "thp_promote_barrier_lck s = Some r" for s r
    using that
  proof (rule thp_promote_barrier_lck.raw_induct [where P =
      "\<lambda>s r. pool_inv s \<longrightarrow> (\<forall>s'. r = Ok () s' \<longrightarrow> promoted s s')", rotated], intro impI allI)
    fix lp :: "(pool, unit) cprog" and s r s'
    assume IH: "\<And>s r. lp s = Some r \<Longrightarrow> pool_inv s \<longrightarrow> (\<forall>s'. r = Ok () s' \<longrightarrow> promoted s s')"
      and run: "(if thp_barrier_cnt s > 0 then bindM promote_one (\<lambda>more. if more then lp else ret ()) else ret ()) s = Some r"
      and inv: "pool_inv s" and r: "r = Ok () s'"
    have "wlp (bindM promote_one (\<lambda>more. if more then lp else ret ())) (\<lambda>_. promoted s) s"
    proof -
      have "wlp (if more then lp else ret ()) (\<lambda>_. promoted s) t" if "promoted s t" for more t
      proof -
        have "pool_inv t" using that by (simp add: promoted_def moved_simps)
        then have "wlp lp (\<lambda>_. promoted t) t" using IH by (auto simp: wlp_def)
        then show ?thesis using that promoted_trans by (auto simp: wlp_rules intro: wlp_mono)
      qed
      then show ?thesis using wlp_promote_one [OF inv] by (auto simp: wlp_basic(1) intro: wlp_mono)
    qed
    with run r inv show "promoted s s'"
      by (cases "thp_barrier_cnt s > 0") (auto simp: wlp_def c_eval promoted_refl)
  qed
  with assms show ?thesis by (auto simp: wlp_def)
qed

text \<open>A request that was taken is counted and about to run.\<close>

definition taken :: "wid \<Rightarrow> pool \<Rightarrow> rid option \<Rightarrow> pool \<Rightarrow> bool" where
  "taken w s x s' \<longleftrightarrow> pool_inv s' \<and> same_calls s s' \<and> wrk_thr_id s' w = wrk_thr_id s w \<and>
     wrk_pc s' w = wrk_pc s w \<and> leaked s' = leaked s + (if x = None then 0 else 1)"

lemma wlp_get_req:
  assumes "pool_inv s" and "w < thp_max s" and "wrk_pc s w = Get"
  shows "wlp (get_req_or_put_idle w) (taken w s) s"
proof -
  have bar: "wlp thp_promote_barrier_lck (\<lambda>_. taken w s (Some r))
      (thp_barrier_cnt_update (\<lambda>n. n - 1) (thp_sched_req_update (\<lambda>n. n + 1) (m_queue_update (\<lambda>f. f(4 := rs)) s)))" (is "wlp _ _ ?t")
    if "m_queue s 4 = r # rs" for r rs
  proof -
    have t: "pool_inv ?t" "leaked ?t = leaked s + 1" using assms that by (auto simp: pool_inv_def leaked_simps)
    show ?thesis by (rule wlp_mono [OF wlp_promote [OF t(1)]]) (use assms t(2) in \<open>auto simp: promoted_def taken_def moved_simps\<close>)
  qed
  show ?thesis
    using assms
    by (simp add: get_req_or_put_idle_def wlp_rules bar split: list.split)
      (auto simp: taken_def moved_simps pool_inv_def leaked_simps)
qed

lemma wlp_start_req:
  assumes "pool_inv s" and "w < thp_max s" and "busy (wrk_pc s w) = 0" and "wrk_thr_id s w \<noteq> 0"
  shows "wlp (start_req w r) (\<lambda>_ s'. pool_inv s' \<and> same_calls s s' \<and> leaked s' = leaked s - 1) s"
  using assms by (simp add: start_req_def wlp_rules same_calls_def pool_inv_def leaked_simps running_upd thread_ok_step)

text \<open>A worker that moves on without a request.\<close>

lemma inv_move:
  assumes "pool_inv s" and "w < thp_max s" and "wrk_thr_id s w \<noteq> 0" and "busy p = busy (wrk_pc s w)"
  shows "pool_inv (wrk_pc_update (\<lambda>f. f(w := p)) s)" and "leaked (wrk_pc_update (\<lambda>f. f(w := p)) s) = leaked s"
  using assms by (simp_all add: pool_inv_def leaked_simps running_upd thread_ok_step)

lemma inv_alive: "pool_inv s \<Longrightarrow> wrk_pc s w \<noteq> No_thread \<Longrightarrow> wrk_pc s w \<noteq> Last \<Longrightarrow> wrk_thr_id s w \<noteq> 0"
  using thread_ok_alive by (auto simp: pool_inv_def)

lemma wlp_terminate:
  assumes "pool_inv s" and "w < thp_max s" and "wrk_pc s w = Last"
  shows "wlp (seqM (thp_thread_terminate w) (set_pc w No_thread)) (\<lambda>_. moved s) s"
proof -
  define I where "I = (\<lambda>t. moved s t \<and> wrk_pc t w = Last)"
  have sig: "wlp (signal_wrk v) (\<lambda>_. I) t" if "I t" for v t
    using that by (auto simp: I_def wlp_rules moved_simps pool_inv_def leaked_simps)
  let ?t = "thp_queue_update (swapped w 3) (wrk_state_update (new_state w 3) (wrk_qno_update (\<lambda>f. f(w := 3)) (thp_run_thds_update (\<lambda>n. n - 1) s)))"
  have "I ?t" using assms by (auto simp: I_def moved_simps pool_inv_def leaked_simps)
  then have "wlp (forM ws signal_wrk) (\<lambda>_. I) ?t" for ws by (rule wlp_forM) (simp add: sig)
  moreover have "wlp (bindM (askM thp_run_thds) (\<lambda>n. assertM (0 \<le> n))) (\<lambda>_. wlp (set_pc w No_thread) (\<lambda>_. moved s)) t" if "I t" for t
    using that assms(2) by (auto simp: wlp_rules I_def moved_simps pool_inv_def leaked_simps running_upd thread_ok_step)
  ultimately have "wlp (forM ws signal_wrk) (\<lambda>_. wlp (bindM (askM thp_run_thds) (\<lambda>n. assertM (0 \<le> n)))
      (\<lambda>_. wlp (set_pc w No_thread) (\<lambda>_. moved s))) ?t" for ws
    by (blast intro: wlp_mono)
  then show ?thesis by (simp add: thp_thread_terminate_def wlp_rules)
qed

lemma wlp_worker_loop:
  assumes inv: "pool_inv s" and w: "w < thp_max s"
  shows "wlp (worker_loop w kept) (\<lambda>_. moved s) s"
proof -
  have alive: "wrk_pc s w \<noteq> No_thread \<Longrightarrow> wrk_pc s w \<noteq> Last \<Longrightarrow> wrk_thr_id s w \<noteq> 0" using inv_alive [OF inv] .
  show ?thesis
  proof (cases "wrk_pc s w")
    case Top
    have "wlp (start_req w r) (\<lambda>_. moved s) (wrk_reqcnt_update g (wrk_queue_update (\<lambda>f. f(w := rs)) s))" (is "wlp _ _ ?t")
      if "wrk_queue s w = r # rs" for r rs g
    proof -
      have t: "pool_inv ?t" "leaked ?t = leaked s + 1"
        using inv w that by (simp_all add: pool_inv_def leaked_simps own_load_upd)
      show ?thesis by (rule wlp_mono [OF wlp_start_req [OF t(1)]]) (use Top alive w t(2) in \<open>auto simp: moved_simps\<close>)
    qed
    with Top inv_move [OF inv w] alive show ?thesis
      by (simp add: worker_loop_def wlp_rules moved_simps split: list.split)
  next
    case Get
    have "wlp (case x of None \<Rightarrow> set_pc w Got_none | Some r \<Rightarrow> start_req w r) (\<lambda>_. moved s) t" if "taken w s x t" for x t
    proof (cases x)
      case None
      with that inv_move [of t w Got_none] w Get alive show ?thesis by (simp add: wlp_rules taken_def moved_simps)
    next
      case (Some r)
      have "wlp (start_req w r) (\<lambda>_. moved s) t"
        by (rule wlp_mono [OF wlp_start_req]) (use that Some w Get alive in \<open>auto simp: taken_def moved_simps\<close>)
      with Some show ?thesis by simp
    qed
    with wlp_get_req [OF inv w Get] Get show ?thesis
      by (auto simp: worker_loop_def wlp_basic(1,7) intro: wlp_mono)
  next
    case (Exec r)
    have "wlp (exec_end r kept) (\<lambda>_ t. wlp (set_pc w Count_off) (\<lambda>_. moved s) t) s"
      by (rule wlp_mono [OF wlp_exec_end]) (use inv w Exec alive in \<open>auto simp: wlp_rules moved_simps inv_move\<close>)
    with Exec show ?thesis by (simp add: worker_loop_def wlp_basic(1,2,7))
  next
    case Last
    with wlp_terminate [OF inv w] show ?thesis by (simp add: worker_loop_def wlp_basic(1,7))
  next
    case Leave
    with inv w show ?thesis
      by (simp add: worker_loop_def wlp_rules moved_simps pool_inv_def leaked_simps running_upd thread_ok_leave)
  next
    case Count_off
    with inv w alive show ?thesis
      by (simp add: worker_loop_def wlp_rules moved_simps pool_inv_def leaked_simps running_upd thread_ok_step)
  next
    case Start
    with inv w alive show ?thesis
      by (simp add: worker_loop_def wlp_rules moved_simps pool_inv_def leaked_simps running_upd thread_ok_step)
  next
    case Begin
    with inv w alive show ?thesis
      by (simp add: worker_loop_def wlp_rules moved_simps pool_inv_def leaked_simps running_upd thread_ok_step)
  next
    case (Run r)
    with inv_move [OF inv w] alive show ?thesis by (simp add: worker_loop_def exec_begin_def wlp_rules moved_simps)
  qed (use inv_move [OF inv w] alive in \<open>simp_all add: worker_loop_def wlp_rules moved_simps\<close>)
qed

lemma wlp_stop:
  assumes "pool_inv s"
  shows "wlp thp_stop_begin (\<lambda>_. moved s) s" and "wlp thp_stop_end (\<lambda>_. moved s) s"
proof -
  have "wlp (seqM (updM (wrk_state_update (\<lambda>f. f(i := Terminate)))) (signal_wrk i)) (\<lambda>_. moved s) t" if "moved s t" for i t
    using that by (auto simp: wlp_rules moved_simps pool_inv_def leaked_simps)
  moreover have "moved s (thp_shutdown_update (\<lambda>_. True) s)" using assms by (simp add: moved_simps pool_inv_def leaked_simps)
  ultimately show "wlp thp_stop_begin (\<lambda>_. moved s) s"
    by (simp add: thp_stop_begin_def wlp_basic wlp_forM)
  show "wlp thp_stop_end (\<lambda>_. moved s) s"
    using assms by (auto simp: thp_stop_end_def wlp_def c_eval moved_simps split: if_splits)
qed

lemma wlp_step: "wlp m (\<lambda>_. moved s) t \<Longrightarrow> wlp m (\<lambda>_. step_ok s) t"
  by (erule wlp_mono) (rule moved_step)

lemma pool_step_ok:
  assumes "pool_inv s"
  shows "wlp (pool_step a) (\<lambda>_. step_ok s) s"
proof (cases a)
  case (Wake w)
  have "moved s (wrk_pc_update (\<lambda>f. f(w := Top)) s)" if "wrk_pc s w = Sleep"
    using assms that inv_alive [OF assms, of w] by (simp add: moved_simps pool_inv_def leaked_simps running_wake thread_ok_step)
  with Wake show ?thesis by (simp add: wlp_rules moved_step)
next
  case (Work w kept)
  with assms show ?thesis by (auto simp: wlp_rules intro: wlp_step wlp_worker_loop)
qed (use assms wlp_new_call wlp_go_on wlp_stop in \<open>auto simp: wlp_rules simp del: pool_step.simps(1-3) intro: wlp_step\<close>)

subsection \<open>Reachable states\<close>

definition pool_reach :: "nat \<Rightarrow> nat \<Rightarrow> pool \<Rightarrow> bool" where
  "pool_reach mn mx s \<longleftrightarrow> mn \<le> mx \<and>
     (\<exists>acts s0. pool_mod_init (pool_new mn mx) = Ret () s0 \<and> pool_run acts s0 = Ret () s)"

lemma step_ok_trans: "step_ok s t \<Longrightarrow> step_ok t u \<Longrightarrow> step_ok s u"
  by (auto simp: step_ok_def)

lemma step_ok_refl: "pool_inv s \<Longrightarrow> step_ok s s"
  by (simp add: step_ok_def)

lemma pool_run_ok: "pool_run acts s = Ret () s' \<Longrightarrow> pool_inv s \<Longrightarrow> step_ok s s'"
proof (induction acts arbitrary: s)
  case (Cons a acts)
  from wlp_run [OF Cons.prems(1)] obtain t where t: "pool_step a s = Ret () t" "pool_run acts t = Ret () s'" by blast
  have "step_ok s t" using pool_step_ok [OF Cons.prems(2), of a] t(1) by (simp add: wlp_def)
  moreover from this have "step_ok t s'" using Cons.IH [OF t(2)] by (simp add: step_ok_def)
  ultimately show ?case by (rule step_ok_trans)
qed (simp add: c_eval step_ok_refl)

lemma pool_new_inv:
  "mn \<le> mx \<Longrightarrow> pool_inv (pool_new mn mx)" "leaked (pool_new mn mx) = 0" "lost (pool_new mn mx) = 0"
  "thp_exe_shutdown (pool_new mn mx) = 0" "thp_max (pool_new mn mx) = mx"
  by (simp_all add: pool_new_def pool_inv_def queues_ok_def thread_ok_def leaked_simps lost_def by_caller_def own_load_def running_def)

lemma wlp_mod_init:
  assumes "mn \<le> mx"
  shows "wlp pool_mod_init (\<lambda>_. step_ok (pool_new mn mx)) (pool_new mn mx)"
proof -
  let ?s = "pool_new mn mx"
  have swap: "wlp (thp_swap_queue i dorman_thr) (\<lambda>_. step_ok ?s) t" if "i < mx" "step_ok ?s t" for i t
  proof (rule wlp_mono)
    show "wlp (thp_swap_queue i dorman_thr) (\<lambda>_. moved t) t"
      using that by (auto simp: wlp_rules moved_simps step_ok_def pool_inv_def leaked_simps pool_new_inv)
  qed (use that moved_step step_ok_trans in blast)
  have loop: "wlp (forM [mn..<mx] (\<lambda>i. thp_swap_queue i dorman_thr)) (\<lambda>_. step_ok ?s) ?s"
    by (rule wlp_forM) (simp_all add: swap step_ok_refl pool_new_inv assms del: dorman_thr_def)
  have "wlp (updM (pool_calls_update (\<lambda>cs. cs @ [Start_min 0]))) (\<lambda>_. step_ok ?s) t" if "step_ok ?s t" for t
  proof -
    let ?t = "pool_calls_update (\<lambda>cs. cs @ [Start_min 0]) t"
    have "leaked ?t = leaked t" "by_caller (pool_calls ?t) = by_caller (pool_calls t)" by (simp_all add: leaked_simps by_caller_def)
    moreover have "pool_inv ?t" using that by (auto simp: step_ok_def pool_inv_def pool_new_inv)
    ultimately show ?thesis using that by (simp add: wlp_rules step_ok_def lost_def)
  qed
  with loop have "wlp (seqM (forM [mn..<mx] (\<lambda>i. thp_swap_queue i dorman_thr)) (updM (pool_calls_update (\<lambda>cs. cs @ [Start_min 0])))) (\<lambda>_. step_ok ?s) ?s"
    by (auto simp: wlp_basic(2) intro: wlp_mono)
  moreover have "thp_min ?s = mn" by (simp add: pool_new_def)
  ultimately show ?thesis by (simp add: pool_mod_init_def wlp_basic(1,7) pool_new_inv)
qed

lemma reach_ok:
  assumes "pool_reach mn mx s"
  shows "step_ok (pool_new mn mx) s"
proof -
  obtain acts s0 where s0: "pool_mod_init (pool_new mn mx) = Ret () s0" "pool_run acts s0 = Ret () s" and le: "mn \<le> mx"
    using assms by (auto simp: pool_reach_def)
  have "step_ok (pool_new mn mx) s0" using wlp_mod_init [OF le] s0(1) by (simp add: wlp_def)
  moreover from this have "step_ok s0 s" using pool_run_ok [OF s0(2)] by (simp add: step_ok_def)
  ultimately show ?thesis by (rule step_ok_trans)
qed

lemma by_caller_nonneg: "by_caller cs \<ge> 0"
  by (simp add: by_caller_def)

lemma reach_inv:
  assumes "pool_reach mn mx s"
  shows "pool_inv s" and "leaked s \<ge> 0" and "leaked s \<le> thp_exe_shutdown s" and "thp_max s = mx"
  using reach_ok [OF assms] by_caller_nonneg [of "pool_calls s"] lost_def [of s] by (simp_all add: step_ok_def pool_new_inv)

lemma sum_zero:
  fixes g :: "nat \<Rightarrow> int"
  assumes "(\<Sum>w<n. g w) \<le> 0" and "\<And>w. g w \<ge> 0"
  shows "\<forall>w<n. g w = 0"
proof -
  have "(\<Sum>w<n. g w) = 0" using assms by (meson order_antisym sum_nonneg)
  then show ?thesis using assms(2) by (simp add: sum_nonneg_eq_0_iff)
qed

lemma busy_nonneg: "busy p \<ge> 0"
  by (cases p) simp_all

lemma queued_nonneg: "queued f \<ge> 0" by (simp add: queued_def)
lemma own_load_nonneg: "own_load n f \<ge> 0" by (simp add: own_load_def sum_nonneg)
lemma running_nonneg: "running n f \<ge> 0" by (simp add: running_def sum_nonneg busy_nonneg)

lemma pending_nonneg: "pending s \<ge> 0"
  by (simp add: pending_def queued_nonneg own_load_nonneg running_nonneg in_hand_def)

text \<open>No request is queued, in the hands of a caller, or executed.\<close>

definition quiet :: "pool \<Rightarrow> bool" where
  "quiet s \<longleftrightarrow> (\<forall>q \<in> {fast_queue, slow_queue, time_wait, suspend}. m_queue s q = []) \<and>
     (\<forall>v < thp_max s. wrk_queue s v = [] \<and> busy (wrk_pc s v) = 0) \<and> (\<forall>c \<in> set (pool_calls s). \<not> undelivered c)"

lemma pending_zero:
  assumes "pending s \<le> 0"
  shows "quiet s"
proof -
  have nn: "own_load (thp_max s) (wrk_queue s) \<ge> 0" "running (thp_max s) (wrk_pc s) \<ge> 0" "queued (m_queue s) \<ge> 0" "in_hand (pool_calls s) \<ge> 0"
    by (simp_all add: own_load_def running_def queued_def in_hand_def sum_nonneg busy_nonneg)
  with assms have z: "own_load (thp_max s) (wrk_queue s) \<le> 0" "running (thp_max s) (wrk_pc s) \<le> 0"
    "queued (m_queue s) \<le> 0" "in_hand (pool_calls s) \<le> 0" by (simp_all add: pending_def)
  have "\<forall>v<thp_max s. int (length (wrk_queue s v)) = 0" using z(1) unfolding own_load_def by (rule sum_zero) simp
  moreover have "\<forall>v<thp_max s. busy (wrk_pc s v) = 0" using z(2) unfolding running_def by (rule sum_zero) (rule busy_nonneg)
  moreover have "\<forall>c \<in> set (pool_calls s). \<not> undelivered c" using z(4) by (simp add: in_hand_def filter_empty_conv)
  moreover have "\<forall>q \<in> {fast_queue, slow_queue, time_wait, suspend}. m_queue s q = []" using z(3) by (auto simp: queued_def of_nat_add [symmetric] simp del: of_nat_add)
  ultimately show ?thesis by (simp add: quiet_def)
qed

lemma wlp_queues_kept:
  assumes "wrk_pc s w \<noteq> Get"
  shows "wlp (worker_loop w kept) (\<lambda>_ s'. m_queue s' = m_queue s) s"
proof (cases "wrk_pc s w")
  case (Exec r)
  have "wlp (exec_end r kept) (\<lambda>_ t. wlp (set_pc w Count_off) (\<lambda>_ s'. m_queue s' = m_queue s) t) s"
    by (rule wlp_mono [OF wlp_exec_end]) (auto simp: wlp_rules)
  with Exec show ?thesis by (simp add: worker_loop_def wlp_basic(1,2,7))
next
  case Last
  have *: "wlp (forM ws signal_wrk) (\<lambda>_ t. m_queue t = m_queue s) t" if "m_queue t = m_queue s" for ws t
    using that by (rule wlp_forM) (simp add: wlp_rules)
  have "wlp (forM ws signal_wrk) (\<lambda>_. wlp (bindM (askM thp_run_thds) (\<lambda>n. assertM (0 \<le> n)))
      (\<lambda>_. wlp (set_pc w No_thread) (\<lambda>_ t. m_queue t = m_queue s))) t" if "m_queue t = m_queue s" for ws t
    using that by (intro wlp_mono [OF *]) (simp_all add: wlp_rules)
  with Last show ?thesis by (simp add: worker_loop_def thp_thread_terminate_def wlp_rules)
qed (use assms in \<open>simp_all add: worker_loop_def start_req_def exec_begin_def wlp_rules split: list.split\<close>)

lemma wlp_const: "P \<Longrightarrow> wlp m (\<lambda>_ _. P) s"
  by (simp add: wlp_def)

text \<open>Only a worker that found the pool quiet takes requests from behind the barrier.\<close>

lemma wlp_barrier_taken:
  "wlp (worker_loop w kept) (\<lambda>_ s'. m_queue s' barrier = m_queue s barrier \<or>
     (thp_sched_req s \<le> 0 \<and> (\<exists>r rs. m_queue s barrier = r # rs \<and> wrk_pc s' w = Run r))) s"
proof (cases "wrk_pc s w = Get")
  case True
  let ?R = "\<lambda>x s'. m_queue s' 4 = m_queue s 4 \<or> (thp_sched_req s \<le> 0 \<and> (\<exists>r rs. m_queue s 4 = r # rs \<and> x = Some r))"
  have bar: "wlp thp_promote_barrier_lck (\<lambda>_. ?R (Some r)) t" if "m_queue s 4 = r # rs" "\<not> 0 < thp_sched_req s" for r rs t
    by (rule wlp_mono [OF wlp_const [OF TrueI]]) (use that in auto)
  have "wlp (get_req_or_put_idle w) ?R s"
    by (simp add: get_req_or_put_idle_def wlp_rules bar split: list.split) (auto simp: wlp_const)
  moreover have "wlp (case x of None \<Rightarrow> set_pc w Got_none | Some r \<Rightarrow> start_req w r) (\<lambda>_ s'. m_queue s' barrier = m_queue s barrier \<or>
     (thp_sched_req s \<le> 0 \<and> (\<exists>r rs. m_queue s barrier = r # rs \<and> wrk_pc s' w = Run r))) t" if "?R x t" for x t
    using that by (auto simp: wlp_rules start_req_def split: option.split)
  ultimately have "wlp (get_req_or_put_idle w) (\<lambda>x. wlp (case x of None \<Rightarrow> set_pc w Got_none | Some r \<Rightarrow> start_req w r)
     (\<lambda>_ s'. m_queue s' barrier = m_queue s barrier \<or>
       (thp_sched_req s \<le> 0 \<and> (\<exists>r rs. m_queue s barrier = r # rs \<and> wrk_pc s' w = Run r)))) s"
    by (rule wlp_mono)
  then show ?thesis using True by (simp add: worker_loop_def wlp_basic(1,7))
qed (auto intro!: wlp_mono [OF wlp_queues_kept])

subsection \<open>Properties\<close>



lemma by_caller_pending: "by_caller (pool_calls s) \<le> pending s"
proof -
  have sub: "in_handler c \<Longrightarrow> undelivered c" for c by (cases c) simp_all
  have "length (filter in_handler cs) \<le> length (filter undelivered cs)" for cs
    by (induction cs) (auto dest: sub)
  then have "by_caller (pool_calls s) \<le> in_hand (pool_calls s)" by (simp add: by_caller_def in_hand_def)
  then show ?thesis
    using queued_nonneg [of "m_queue s"] own_load_nonneg [of "thp_max s" "wrk_queue s"] running_nonneg [of "thp_max s" "wrk_pc s"]
    by (simp add: pending_def)
qed


subsection \<open>Runs\<close>

fun final_pool :: "(unit, pool) outcome option \<Rightarrow> pool" where
  "final_pool (Some (Ok u s)) = s"
| "final_pool r = pool_new 0 0"

fun returned :: "(unit, pool) outcome option \<Rightarrow> bool" where
  "returned (Some (Ok u s)) = True"
| "returned r = False"

fun asserted :: "(unit, pool) outcome option \<Rightarrow> bool" where
  "asserted (Some (Err e)) \<longleftrightarrow> e = Assert_fail"
| "asserted r = False"

fun blocked :: "(unit, pool) outcome option \<Rightarrow> bool" where
  "blocked None = True"
| "blocked (Some r) = False"

lemma returned_Ret: "returned r \<Longrightarrow> r = Ret () (final_pool r)"
  by (cases r rule: returned.cases) auto

text \<open>\<open>mod_init\<close> to its end, with the number of the worker plus 1 as the identifier of its thread, and what follows.\<close>

definition demo_start :: "nat \<Rightarrow> pool_act list" where
  "demo_start mn = map (\<lambda>i. Go_on 0 (i + 1) False) [0..<Suc mn]"

definition demo_run :: "nat \<Rightarrow> nat \<Rightarrow> pool_act list \<Rightarrow> (unit, pool) outcome option" where
  "demo_run mn mx acts = pool_run (demo_start mn @ acts) (final_pool (pool_mod_init (pool_new mn mx)))"

lemma demo_reach:
  assumes "returned (pool_mod_init (pool_new mn mx))" and "returned (demo_run mn mx acts)" and "mn \<le> mx"
  shows "pool_reach mn mx (final_pool (demo_run mn mx acts))"
  using returned_Ret [OF assms(1)] returned_Ret [OF assms(2)] assms(3)
  unfolding pool_reach_def demo_run_def by blast

text \<open>A request is executed, a barrier request and another one wait; the second worker finds
  nothing to do, the first one comes back.\<close>

definition demo_acts :: "pool_act list" where
  "demo_acts = [Work 0 False, Call_schedule (Some 9) 1 0, Go_on 0 0 False, Go_on 0 0 False, Go_on 0 0 False, Work 0 False, Work 0 False,
     Call_barrier (Some 9) 2 0, Call_schedule (Some 9) 3 0, Go_on 0 0 False, Work 1 False, Work 1 False, Work 1 False, Work 1 False,
     Work 0 False, Work 0 False, Work 0 False, Work 0 False]"

lemma demo_init: "returned (pool_mod_init (pool_new 2 2))" "returned (pool_mod_init (pool_new 1 2))"
  by code_simp+

lemma demo_ok: "returned (demo_run 2 2 demo_acts)"
  by code_simp

lemmas demo_reached = demo_reach [OF demo_init(1) demo_ok]


text \<open>A worker that found nothing to do may crash: before it goes to sleep, another worker
  that promotes requests from behind a barrier makes it a fast thread, and its assertion that
  it is idle fails.\<close>

theorem promote_crashes_worker:
  "asserted (demo_run 2 2 (demo_acts @ [Work 0 False, Work 1 False]))"
  by code_simp


definition demo_late :: "pool_act list" where
  "demo_late = [Work 0 False, Call_schedule (Some 9) 1 0, Go_on 0 0 False, Call_stop, Go_on 0 0 False, Go_on 0 0 False, Go_on 0 0 False]"


text \<open>A request queued for a worker that is to be started is also executed by its caller
  when the pool is stopped in between; the assertion that it is not on a queue fails.\<close>

theorem stop_while_starting_crashes:
  "asserted (demo_run 1 2 [Work 0 False, Call_schedule (Some 9) 5 slow_queue, Go_on 0 7 False, Call_stop, Go_on 0 7 False, Go_on 0 7 False])"
  by code_simp

definition demo_twice :: "pool_act list" where
  "demo_twice = [Work 0 False, Work 0 False, Call_schedule (Some 9) 5 slow_queue, Go_on 0 7 False, Work 0 False, Work 0 False, Work 0 False,
     Call_stop, Go_on 0 7 False, Go_on 0 7 False]"

text \<open>C9: When the pool is stopped while a caller of \<open>schedule\<close>, which put its request on the common queue, is about
  to start a dormant worker, and another worker has taken the request by then, the request is executed
  twice at the same time, by that worker and by the caller: such a state can be reached.\<close>

theorem stop_executes_twice:
  "\<exists>s. pool_reach 1 2 s \<and> wrk_pc s 0 = Exec 5 \<and> Handler 5 True \<in> set (pool_calls s)"
proof -
  let ?s = "final_pool (demo_run 1 2 demo_twice)"
  have "returned (demo_run 1 2 demo_twice)" by code_simp
  then have "pool_reach 1 2 ?s" by (intro demo_reach [OF demo_init(2)]) simp_all
  moreover have "wrk_pc ?s 0 = Exec 5" "pool_calls ?s = [Handler 5 True]" by code_simp+
  ultimately show ?thesis by (intro exI [of _ ?s]) simp
qed

definition demo_doze :: "pool_act list" where
  "demo_doze = [Work 0 False, Work 0 False, Work 0 False, Work 0 False, Work 0 False, Call_stop, Work 0 False]"

text \<open>The signal of \<open>thp_stop\<close> is lost on a worker that has decided to sleep: it sleeps, no
  thread of the pool can move, and \<open>thp_stop\<close> waits for it.\<close>

theorem stop_wakeup_lost:
  "returned (demo_run 1 1 demo_doze) \<and> pool_calls (final_pool (demo_run 1 1 demo_doze)) = [] \<and>
   blocked (pool_step Stop_done (final_pool (demo_run 1 1 demo_doze))) \<and>
   blocked (pool_step (Work 0 True) (final_pool (demo_run 1 1 demo_doze))) \<and>
   blocked (pool_step (Work 0 False) (final_pool (demo_run 1 1 demo_doze)))"
  by code_simp

definition demo_audit :: "pool_act list" where
  "demo_audit = [Work 0 False, Call_schedule (Some 9) 1 0, Go_on 0 0 False, Go_on 0 0 False, Go_on 0 0 False, Work 0 False, Work 0 False, Call_barrier (Some 9) 2 0,
     Work 0 False, Work 0 False, Work 0 False, Work 0 False, Work 0 False, Work 0 False, Work 0 False, Work 0 False,
     Call_stop, Work 0 False, Work 0 False, Work 0 False, Stop_done]"

text \<open>After a barrier request went through the barrier queue, the audit at the end of the
  pool fails although every request was executed and every thread is gone.\<close>

theorem barrier_breaks_audit:
  "returned (demo_run 1 1 demo_audit) \<and> asserted (thp_dump_stat (final_pool (demo_run 1 1 demo_audit)))"
  by code_simp

subsection \<open>The promotion loop ends\<close>

lemma promote_one_returns: "promote_one s \<noteq> None"
  by (auto simp: promote_one_def mod_dequeue_def mod_enqueue_def mod_front_queue_def thp_dequeue_def thp_swap_queue_def
      worker_update_state_def signal_wrk_def c_eval split: list.splits)

lemma wlp_promote_counts: "wlp promote_one (\<lambda>more s'. more \<longrightarrow> thp_barrier_cnt s' = thp_barrier_cnt s - 1) s"
  by (simp add: promote_one_def wlp_rules split: list.split)

text \<open>Promoting the requests behind a barrier ends, with at most as many passes as the
  counter of waiting requests says.\<close>

theorem promote_ends: "\<exists>r. thp_promote_barrier_lck s = Some r"
proof (induction "nat (thp_barrier_cnt s)" arbitrary: s rule: less_induct)
  case less
  obtain r where r: "promote_one s = Some r" using promote_one_returns [of s] by blast
  have "nat (thp_barrier_cnt s') < nat (thp_barrier_cnt s)" if "0 < thp_barrier_cnt s" "r = Ok True s'" for s'
    using wlp_promote_counts [of s] r that by (auto simp: wlp_def)
  with less r show ?case
    by (subst thp_promote_barrier_lck.simps) (cases r, auto simp: c_eval)
qed

end
