(* ===== verification/TaskPend.thy ===== *)
theory TaskPend
  imports CPrelude
begin

text \<open>
  The light-weight task of include/di/request.h and common/di/request.cpp (\<open>Task\<close>): any thread
  submits it by counting \<open>tsk_pend\<close> up; the one that found 0 hands it to the thread pool, whose
  worker runs the handler until the counter is back at 0. The atomic operations are steps of
  their own, the threads interleave freely. \<open>schedule\<close> of the pool is not the one of \<open>ThreadPool\<close> here: in
  its place stands what a task relies on, that the pool holds the task until one thread executes it, once for
  each time it was handed over (\<open>tsk_pooled\<close> counts these). A pool that is stopped in the meantime breaks
  that contract: \<open>ThreadPoolProps\<close> shows a request that is executed twice.
\<close>

subsection \<open>The routines\<close>

text \<open>The next statement of a thread: about to hand the task to the pool; in the loop of
  \<open>req_exec_task\<close> with its counter of passes; stopped by a failed assertion.\<close>

datatype task_pc =
    Away
  | Hand_over
  | Load nat
  | Handle int nat
  | Subtract int nat
  | Assert_stop
  | Loop_stop

record task_mem =
  tsk_pend :: int
  tsk_pooled :: nat

datatype task_event = Quiet | Submitted | Handled

text \<open>The first statement of \<open>task_submit\<close>, and what follows when the counter was 0.\<close>

definition task_submit :: "task_mem \<Rightarrow> task_pc \<times> task_mem" where
  "task_submit s = (if tsk_pend s = 0 then Hand_over else Away, s\<lparr>tsk_pend := tsk_pend s + 1\<rparr>)"

text \<open>The assertion of \<open>task_submit\<close> and its call of \<open>schedule\<close>, as the contract above has it.\<close>

definition task_hand_over :: "task_mem \<Rightarrow> task_pc \<times> task_mem" where
  "task_hand_over s = (if tsk_pooled s = 0 then (Away, s\<lparr>tsk_pooled := tsk_pooled s + 1\<rparr>) else (Assert_stop, s))"

fun task_exec :: "task_pc \<Rightarrow> task_mem \<Rightarrow> (task_pc \<times> task_mem) option" where
  "task_exec (Load n) s = Some (if tsk_pend s > 0 then Handle (tsk_pend s) n else Assert_stop, s)"
| "task_exec (Handle p n) s = Some (if n + 1 < 1000 then Subtract p (n + 1) else Loop_stop, s)"
| "task_exec (Subtract p n) s = Some (if tsk_pend s \<noteq> p then Load n else Away, s\<lparr>tsk_pend := tsk_pend s - p\<rparr>)"
| "task_exec q s = None"

type_synonym task_sys = "task_mem \<times> (nat \<Rightarrow> task_pc)"

definition handler_event :: "task_pc \<Rightarrow> task_event" where
  "handler_event q = (case q of Handle p n \<Rightarrow> Handled | _ \<Rightarrow> Quiet)"

inductive task_step :: "task_sys \<Rightarrow> task_event \<Rightarrow> task_sys \<Rightarrow> bool" where
  submit: "pcs t = Away \<Longrightarrow> task_submit s = (q, s') \<Longrightarrow> task_step (s, pcs) Submitted (s', pcs(t := q))"
| hand_over: "pcs t = Hand_over \<Longrightarrow> task_hand_over s = (q, s') \<Longrightarrow> task_step (s, pcs) Quiet (s', pcs(t := q))"
| picks: "pcs t = Away \<Longrightarrow> tsk_pooled s > 0 \<Longrightarrow>
    task_step (s, pcs) Quiet (s\<lparr>tsk_pooled := tsk_pooled s - 1\<rparr>, pcs(t := Load 0))"
| exec: "task_exec (pcs t) s = Some (q, s') \<Longrightarrow> task_step (s, pcs) (handler_event (pcs t)) (s', pcs(t := q))"

inductive task_run :: "task_event list \<Rightarrow> task_sys \<Rightarrow> bool" where
  start: "task_run [] (\<lparr>tsk_pend = 0, tsk_pooled = 0\<rparr>, \<lambda>t. Away)"
| more: "task_run es x \<Longrightarrow> task_step x e y \<Longrightarrow> task_run (es @ [e]) y"

fun_cases task_execE: "task_exec q s = Some r"

subsection \<open>Invariant\<close>

text \<open>Submissions since the handler last began.\<close>

definition unserved :: "task_event list \<Rightarrow> int" where
  "unserved es = int (length (filter (\<lambda>e. e = Submitted) (takeWhile (\<lambda>e. e \<noteq> Handled) (rev es))))"

lemma unserved_simps [simp]:
  "unserved [] = 0" "unserved (es @ [Quiet]) = unserved es"
  "unserved (es @ [Submitted]) = unserved es + 1" "unserved (es @ [Handled]) = 0"
  by (simp_all add: unserved_def)

lemma unserved_nonneg: "unserved es \<ge> 0"
  by (simp add: unserved_def)

text \<open>While the counter is above 0 exactly one holds the task: the pool, or one thread. What the
  counter would lose with the pending subtraction was served.\<close>

fun pc_ok :: "int \<Rightarrow> int \<Rightarrow> task_pc \<Rightarrow> bool" where
  "pc_ok pend k Away \<longleftrightarrow> False"
| "pc_ok pend k Assert_stop \<longleftrightarrow> False"
| "pc_ok pend k (Handle p n) \<longleftrightarrow> 0 < p \<and> p \<le> pend \<and> k \<le> pend"
| "pc_ok pend k (Subtract p n) \<longleftrightarrow> 0 < p \<and> p \<le> pend \<and> k \<le> pend - p"
| "pc_ok pend k q \<longleftrightarrow> k \<le> pend"

definition held_by :: "nat \<Rightarrow> (nat \<Rightarrow> task_pc) \<Rightarrow> bool" where
  "held_by t pcs \<longleftrightarrow> (\<forall>u. u \<noteq> t \<longrightarrow> pcs u = Away)"

fun task_inv :: "task_event list \<Rightarrow> task_sys \<Rightarrow> bool" where
  "task_inv es (s, pcs) \<longleftrightarrow>
     (tsk_pend s = 0 \<and> tsk_pooled s = 0 \<and> pcs = (\<lambda>_. Away) \<and> unserved es = 0) \<or>
     (tsk_pend s > 0 \<and> tsk_pooled s = 1 \<and> pcs = (\<lambda>_. Away) \<and> unserved es \<le> tsk_pend s) \<or>
     (tsk_pend s > 0 \<and> tsk_pooled s = 0 \<and> (\<exists>t. held_by t pcs \<and> pc_ok (tsk_pend s) (unserved es) (pcs t)))"

lemma held_other: "held_by t pcs \<Longrightarrow> pcs u \<noteq> Away \<Longrightarrow> u = t"
  by (auto simp: held_by_def)

lemma held_upd: "held_by t pcs \<Longrightarrow> held_by t (pcs(t := q))"
  by (simp add: held_by_def)

lemma held_drop: "held_by t pcs \<Longrightarrow> pcs(t := Away) = (\<lambda>_. Away)"
  by (auto simp: held_by_def fun_eq_iff)

lemma pc_ok_submit: "pc_ok pend k q \<Longrightarrow> pc_ok (pend + 1) (k + 1) q"
  by (cases q) auto

lemma exec_keeps:
  assumes step: "task_exec (pcs t) s = Some (q, s')" and held: "held_by t pcs" and s: "tsk_pend s > 0" "tsk_pooled s = 0"
    and ok: "pc_ok (tsk_pend s) (unserved es) (pcs t)"
  shows "task_inv (es @ [handler_event (pcs t)]) (s', pcs(t := q))"
proof (cases "\<exists>p n. pcs t = Subtract p n \<and> tsk_pend s = p")
  case True
  with step ok have "q = Away" "s' = s\<lparr>tsk_pend := 0\<rparr>" "unserved es = 0" "handler_event (pcs t) = Quiet"
    using unserved_nonneg [of es] by (auto simp: handler_event_def)
  with s held_drop [OF held] show ?thesis by simp
next
  case False
  with step s ok have "tsk_pend s' > 0 \<and> tsk_pooled s' = 0 \<and> pc_ok (tsk_pend s') (unserved (es @ [handler_event (pcs t)])) q"
    by (auto elim!: task_execE simp: handler_event_def split: if_splits)
  moreover have "held_by t (pcs(t := q))" using held by (rule held_upd)
  ultimately show ?thesis by (simp del: fun_upd_apply) (metis fun_upd_same)
qed

lemma task_step_inv: "task_step x e y \<Longrightarrow> task_inv es x \<Longrightarrow> task_inv (es @ [e]) y"
proof (induction rule: task_step.induct)
  case (submit pcs t s q s')
  consider (free) "tsk_pend s = 0" "tsk_pooled s = 0" "pcs = (\<lambda>_. Away)" "unserved es = 0"
    | (pool) "tsk_pend s > 0" "tsk_pooled s = 1" "pcs = (\<lambda>_. Away)" "unserved es \<le> tsk_pend s"
    | (held) u where "tsk_pend s > 0" "tsk_pooled s = 0" "held_by u pcs" "pc_ok (tsk_pend s) (unserved es) (pcs u)"
    using submit.prems by auto
  then show ?case
  proof cases
    case free
    with submit show ?thesis by (auto simp: task_submit_def held_by_def intro!: exI [of _ t])
  next
    case pool
    with submit show ?thesis by (auto simp: task_submit_def fun_upd_idem)
  next
    case held
    have "pcs(t := Away) = pcs" using submit.hyps(1) by (simp add: fun_upd_idem)
    with submit.hyps held pc_ok_submit [OF held(4)] show ?thesis by (auto simp: task_submit_def)
  qed
next
  case (hand_over pcs t s q s')
  then obtain u where u: "tsk_pend s > 0" "tsk_pooled s = 0" "held_by u pcs" "pc_ok (tsk_pend s) (unserved es) (pcs u)" by auto
  have "t = u" using held_other [OF u(3)] hand_over.hyps(1) by simp
  with hand_over.hyps u held_drop show ?case by (auto simp: task_hand_over_def)
next
  case (picks pcs t s)
  then have s: "tsk_pend s > 0" "tsk_pooled s = 1" "pcs = (\<lambda>_. Away)" "unserved es \<le> tsk_pend s" by auto
  then have "held_by t (pcs(t := Load 0))" by (simp add: held_by_def)
  with s show ?case by (auto intro!: exI [of _ t])
next
  case (exec pcs t s q s')
  have away: "pcs t \<noteq> Away" using exec.hyps by auto
  then obtain u where u: "tsk_pend s > 0" "tsk_pooled s = 0" "held_by u pcs" "pc_ok (tsk_pend s) (unserved es) (pcs u)"
    using exec.prems by auto
  have "t = u" using held_other [OF u(3) away] .
  with exec_keeps [of pcs t s q s' es] exec.hyps u show ?case by simp
qed

lemma task_run_inv: "task_run es x \<Longrightarrow> task_inv es x"
proof (induction rule: task_run.induct)
  case start
  show ?case by simp
next
  case (more es x e y)
  then show ?case by (blast intro: task_step_inv)
qed

subsection \<open>Properties\<close>

text \<open>However submissions and executions interleave, the handler runs in one thread at a
  time, and neither the assertion that the task is not on a queue nor the one that something is
  pending fails.\<close>

theorem task_exclusive:
  assumes "task_run es (s, pcs)"
  shows "(pcs t = Handle p n \<and> pcs u = Handle p' n' \<longrightarrow> t = u) \<and> pcs t \<noteq> Assert_stop"
proof (cases "pcs = (\<lambda>_. Away)")
  case False
  with task_run_inv [OF assms] obtain v where v: "held_by v pcs" "pc_ok (tsk_pend s) (unserved es) (pcs v)" by auto
  have "t = v \<and> u = v" if "pcs t = Handle p n" "pcs u = Handle p' n'" using held_other [OF v(1)] that by simp
  moreover have "pcs t \<noteq> Assert_stop" using held_other [OF v(1), of t] v(2) by auto
  ultimately show ?thesis by blast
qed simp

text \<open>No submission is lost: when nothing is pending any more, the handler began after the
  last submission; as long as one is not served, the task is in the pool or a thread has it.\<close>

theorem task_not_lost:
  assumes "task_run es (s, pcs)"
  shows "(tsk_pend s = 0 \<longrightarrow> unserved es = 0) \<and> (unserved es > 0 \<longrightarrow> tsk_pooled s = 1 \<or> (\<exists>t. pcs t \<noteq> Away))"
proof (cases "pcs = (\<lambda>_. Away)")
  case True
  with task_run_inv [OF assms] show ?thesis by auto
next
  case False
  then have "\<exists>t. pcs t \<noteq> Away" by auto
  moreover have "tsk_pend s > 0" using task_run_inv [OF assms] False by auto
  ultimately show ?thesis by simp
qed

text \<open>A run: two submissions, the pool's worker begins.\<close>

definition demo_task :: task_sys where
  "demo_task = (\<lparr>tsk_pend = 2, tsk_pooled = 0\<rparr>, (\<lambda>t. Away)(1 := Load 0))"

lemma demo_task_run: "task_run [Submitted, Quiet, Submitted, Quiet] demo_task"
proof -
  have "task_run [] (\<lparr>tsk_pend = 0, tsk_pooled = 0\<rparr>, \<lambda>t. Away)" by (rule task_run.start)
  from task_run.more [OF this task_step.submit [of _ 0]]
  have "task_run [Submitted] (\<lparr>tsk_pend = 1, tsk_pooled = 0\<rparr>, (\<lambda>t. Away)(0 := Hand_over))" by (simp add: task_submit_def)
  from task_run.more [OF this task_step.hand_over [of _ 0]]
  have "task_run [Submitted, Quiet] (\<lparr>tsk_pend = 1, tsk_pooled = 1\<rparr>, (\<lambda>t. Away)(0 := Away))" by (simp add: task_hand_over_def)
  from task_run.more [OF this task_step.submit [of _ 0]]
  have "task_run [Submitted, Quiet, Submitted] (\<lparr>tsk_pend = 2, tsk_pooled = 1\<rparr>, (\<lambda>t. Away)(0 := Away))" by (simp add: task_submit_def)
  from task_run.more [OF this task_step.picks [of _ 1]] show ?thesis by (simp add: demo_task_def fun_upd_def)
qed

theorem task_exclusive_witness: "snd demo_task 1 \<noteq> Assert_stop"
  using task_exclusive [of "[Submitted, Quiet, Submitted, Quiet]" "fst demo_task" "snd demo_task" 1] demo_task_run by simp

theorem task_not_lost_witness: "unserved [Submitted, Quiet, Submitted, Quiet] = 2 \<and> (\<exists>t. snd demo_task t \<noteq> Away)"
  using task_not_lost [of "[Submitted, Quiet, Submitted, Quiet]" "fst demo_task" "snd demo_task"] demo_task_run
  by (simp add: unserved_def demo_task_def)

text \<open>A handler that is submitted to again in each of a thousand passes stops the program.\<close>

lemma task_loop_limit: "task_exec (Handle p 999) s = Some (Loop_stop, s)"
  by simp

end
