(* ===== verification/ModuleTree.thy ===== *)
theory ModuleTree
  imports CPrelude
begin

text \<open>
  The start and stop sequences of modules of include/di/module.h and common/di/module.cpp. A
  module has an array of sub-modules (with gaps where one was unregistered) and a word of flags
  that says which stages it went through. The stages are virtual: \<open>hooks m\<close> says for a module
  which of them its class overrides; such a routine is code of its own that is seen here as an
  entry in the log. Calls of a routine that is not overridden are those of the base class, as in
  the code. The array and the names of modules are fixed while stages run.
\<close>

unbundle bit_operations_syntax

subsection \<open>State and routines\<close>

type_synonym mid = nat

datatype stage = Init | Resolve | Startup | Enable | Disable | Shutdown | Cleanup

fun st_flag :: "stage \<Rightarrow> 32 word" where
  "st_flag Init = 0x0001"
| "st_flag Resolve = 0x0002"
| "st_flag Startup = 0x0004"
| "st_flag Enable = 0x0008"
| "st_flag Disable = 0x1000"
| "st_flag Shutdown = 0x2000"
| "st_flag Cleanup = 0x4000"

text \<open>\<open>m_dep_idx m\<close>: \<open>None\<close> when the module has no array of sub-modules.\<close>

record mod_mem =
  m_state :: "mid \<Rightarrow> 32 word"
  m_dep_idx :: "mid \<Rightarrow> mid option list option"
  mod_log :: "(mid \<times> stage) list"

lemma forM_mono [partial_function_mono]:
  assumes "\<And>x t. mono_option (\<lambda>f. g f x t)"
  shows "mono_option (\<lambda>f. forM xs (g f) s)"
proof (induction xs arbitrary: s)
  case (Cons x xs)
  then show ?case by (simp add: seqM_mono assms)
qed (simp add: option.const_mono)

definition set_flag :: "stage \<Rightarrow> mid \<Rightarrow> (mod_mem, unit) cprog" where
  "set_flag st m s = Ret () (s\<lparr>m_state := (m_state s)(m := m_state s m OR st_flag st)\<rparr>)"

definition has_flag :: "stage \<Rightarrow> mid \<Rightarrow> mod_mem \<Rightarrow> bool" where
  "has_flag st m s \<longleftrightarrow> m_state s m AND st_flag st \<noteq> 0"

definition log_hook :: "stage \<Rightarrow> mid \<Rightarrow> (mod_mem, unit) cprog" where
  "log_hook st m s = Ret () (s\<lparr>mod_log := mod_log s @ [(m, st)]\<rparr>)"

text \<open>The sub-modules in the order the loop of the stage goes through them.\<close>

definition stage_order :: "stage \<Rightarrow> mid option list \<Rightarrow> mid list" where
  "stage_order st ds = (let ms = concat (map (case_option [] (\<lambda>m. [m])) ds) in
     if st \<in> {Disable, Shutdown, Cleanup} then rev ms else ms)"

text \<open>The base class's routine of a stage; \<open>mod_cleanup\<close> sets its flag only when there are
  sub-modules.\<close>

partial_function (option) base_stage :: "(mid \<Rightarrow> stage \<Rightarrow> bool) \<Rightarrow> stage \<Rightarrow> mid \<Rightarrow> (mod_mem, unit) cprog" where
  "base_stage hooks st m s =
     (if m_dep_idx s m = None \<or> has_flag st m s
      then (if st = Cleanup then ret () else set_flag st m)
      else
        seqM (set_flag st m)
        (forM (stage_order st (the (m_dep_idx s m))) (\<lambda>c.
           seqM (if hooks c st then log_hook st c else base_stage hooks st c)
           (base_stage hooks st c)))) s"

definition virtual_stage :: "(mid \<Rightarrow> stage \<Rightarrow> bool) \<Rightarrow> stage \<Rightarrow> mid \<Rightarrow> (mod_mem, unit) cprog" where
  "virtual_stage hooks st m = (if hooks m st then log_hook st m else base_stage hooks st m)"

definition mod_init :: "(mid \<Rightarrow> stage \<Rightarrow> bool) \<Rightarrow> mid \<Rightarrow> (mod_mem, unit) cprog" where
  "mod_init hooks = base_stage hooks Init"

definition mod_resolve :: "(mid \<Rightarrow> stage \<Rightarrow> bool) \<Rightarrow> mid \<Rightarrow> (mod_mem, unit) cprog" where
  "mod_resolve hooks = base_stage hooks Resolve"

definition mod_startup :: "(mid \<Rightarrow> stage \<Rightarrow> bool) \<Rightarrow> mid \<Rightarrow> (mod_mem, unit) cprog" where
  "mod_startup hooks = base_stage hooks Startup"

definition mod_enable_service :: "(mid \<Rightarrow> stage \<Rightarrow> bool) \<Rightarrow> mid \<Rightarrow> (mod_mem, unit) cprog" where
  "mod_enable_service hooks = base_stage hooks Enable"

definition mod_disable_service :: "(mid \<Rightarrow> stage \<Rightarrow> bool) \<Rightarrow> mid \<Rightarrow> (mod_mem, unit) cprog" where
  "mod_disable_service hooks = base_stage hooks Disable"

definition mod_shutdown :: "(mid \<Rightarrow> stage \<Rightarrow> bool) \<Rightarrow> mid \<Rightarrow> (mod_mem, unit) cprog" where
  "mod_shutdown hooks = base_stage hooks Shutdown"

definition mod_cleanup :: "(mid \<Rightarrow> stage \<Rightarrow> bool) \<Rightarrow> mid \<Rightarrow> (mod_mem, unit) cprog" where
  "mod_cleanup hooks = base_stage hooks Cleanup"

definition module_start :: "(mid \<Rightarrow> stage \<Rightarrow> bool) \<Rightarrow> mid \<Rightarrow> (mod_mem, unit) cprog" where
  "module_start hooks m =
     seqM (virtual_stage hooks Init m)
    (seqM (virtual_stage hooks Resolve m)
    (seqM (virtual_stage hooks Startup m)
     (virtual_stage hooks Enable m)))"

definition stop_stage :: "(mid \<Rightarrow> stage \<Rightarrow> bool) \<Rightarrow> stage \<Rightarrow> mid \<Rightarrow> (mod_mem, unit) cprog" where
  "stop_stage hooks st m s =
     (if \<not> has_flag st m s then seqM (base_stage hooks st m) (virtual_stage hooks st m) else ret ()) s"

definition module_shutdown :: "(mid \<Rightarrow> stage \<Rightarrow> bool) \<Rightarrow> mid \<Rightarrow> (mod_mem, unit) cprog" where
  "module_shutdown hooks m =
     seqM (stop_stage hooks Disable m)
    (seqM (stop_stage hooks Shutdown m)
     (stop_stage hooks Cleanup m))"

subsection \<open>What a stage does\<close>

definition child_stage :: "(mid \<Rightarrow> stage \<Rightarrow> bool) \<Rightarrow> stage \<Rightarrow> mid \<Rightarrow> (mod_mem, unit) cprog" where
  "child_stage hooks st c = seqM (virtual_stage hooks st c) (base_stage hooks st c)"

lemma base_stage_run:
  "base_stage hooks st m s =
     (if m_dep_idx s m = None \<or> has_flag st m s
      then (if st = Cleanup then ret () else set_flag st m)
      else seqM (set_flag st m) (forM (stage_order st (the (m_dep_idx s m))) (child_stage hooks st))) s"
  by (subst base_stage.simps) (simp add: child_stage_def [abs_def] virtual_stage_def)

definition deps :: "mod_mem \<Rightarrow> mid \<Rightarrow> mid set" where
  "deps s m = (case m_dep_idx s m of None \<Rightarrow> {} | Some ds \<Rightarrow> {c. Some c \<in> set ds})"

text \<open>The stage is over for the module: its flag is set; \<open>mod_cleanup\<close> leaves a module without
  sub-modules as it is.\<close>

definition settled :: "stage \<Rightarrow> mod_mem \<Rightarrow> mid \<Rightarrow> bool" where
  "settled st s m \<longleftrightarrow> has_flag st m s \<or> st = Cleanup \<and> m_dep_idx s m = None"

definition walked :: "stage \<Rightarrow> mod_mem \<Rightarrow> mod_mem \<Rightarrow> bool" where
  "walked st s s' \<longleftrightarrow> m_dep_idx s' = m_dep_idx s \<and>
     (\<forall>x st'. has_flag st' x s \<longrightarrow> has_flag st' x s') \<and>
     (\<forall>x st'. st' \<noteq> st \<longrightarrow> has_flag st' x s' = has_flag st' x s) \<and>
     (\<forall>x. has_flag st x s' \<longrightarrow> \<not> has_flag st x s \<longrightarrow> (\<forall>c \<in> deps s x. settled st s' c))"

lemma set_stage_order: "set (stage_order st ds) = {c. Some c \<in> set ds}"
  by (force simp: stage_order_def Let_def split: option.splits)

lemma flags_distinct: "st' \<noteq> st \<Longrightarrow> st_flag st AND st_flag st' = 0" "st_flag st AND st_flag st = st_flag st" "st_flag st \<noteq> 0"
  by (cases st; cases st'; simp)+

lemma has_flag_set:
  "has_flag st' x (s\<lparr>m_state := (m_state s)(m := m_state s m OR st_flag st)\<rparr>) \<longleftrightarrow> has_flag st' x s \<or> x = m \<and> st' = st"
proof (cases "st' = st")
  case True
  have "(w OR st_flag st) AND st_flag st \<noteq> 0" for w :: "32 word"
    using flags_distinct(3) [of st] by (simp add: bit.conj_disj_distrib2 or_eq_0_iff)
  with True show ?thesis by (auto simp: has_flag_def)
next
  case False
  then have "(w OR st_flag st) AND st_flag st' = w AND st_flag st'" for w :: "32 word"
    using flags_distinct(1) [OF False] by (simp add: bit.conj_disj_distrib2)
  with False show ?thesis by (auto simp: has_flag_def)
qed

lemma walked_refl: "walked st s s"
  by (simp add: walked_def)

lemma settled_mono: "walked st s s' \<Longrightarrow> settled st s c \<Longrightarrow> settled st s' c"
  by (auto simp: settled_def walked_def)

lemma deps_cong: "m_dep_idx s' = m_dep_idx s \<Longrightarrow> deps s' = deps s"
  by (simp add: deps_def fun_eq_iff)

lemma walked_trans:
  assumes "walked st s t" and "walked st t u"
  shows "walked st s u"
proof -
  have "settled st u c" if "has_flag st x u" "\<not> has_flag st x s" "c \<in> deps s x" for x c
  proof (cases "has_flag st x t")
    case True
    with assms(1) that have "settled st t c" by (auto simp: walked_def)
    with assms(2) show ?thesis by (rule settled_mono)
  next
    case False
    moreover have "deps t = deps s" using assms(1) by (intro deps_cong) (simp add: walked_def)
    ultimately show ?thesis using assms(2) that by (auto simp: walked_def)
  qed
  with assms show ?thesis unfolding walked_def by auto
qed

lemma walked_log: "walked st s (s\<lparr>mod_log := l\<rparr>)"
  by (simp add: walked_def has_flag_def)

text \<open>Running a stage on the sub-modules one after the other.\<close>

lemma forM_walk:
  assumes "\<And>c u. c \<in> set cs \<Longrightarrow> walked st t u \<Longrightarrow> \<exists>u'. f c u = Ret () u' \<and> walked st u u' \<and> settled st u' c"
    and "walked st t u"
  shows "\<exists>u'. forM cs f u = Ret () u' \<and> walked st u u' \<and> (\<forall>c \<in> set cs. settled st u' c)"
  using assms
proof (induction cs arbitrary: u)
  case (Cons c cs)
  obtain v where v: "f c u = Ret () v" "walked st u v" "settled st v c" using Cons.prems by auto
  have tv: "walked st t v" using Cons.prems(2) v(2) by (rule walked_trans)
  obtain u' where u': "forM cs f v = Ret () u'" "walked st v u'" "\<forall>c \<in> set cs. settled st u' c"
    using Cons.IH [OF _ tv] Cons.prems(1) by auto
  have "walked st u u'" using v(2) u'(2) by (rule walked_trans)
  moreover have "settled st u' c" using u'(2) v(3) by (rule settled_mono)
  ultimately show ?case using v(1) u' by (simp add: c_eval)
qed (simp add: c_eval walked_refl)

text \<open>A sub-module's own routine, then the one of the base class.\<close>

lemma child_walk:
  assumes base: "\<And>u. walked st t u \<Longrightarrow> \<exists>u'. base_stage hooks st c u = Ret () u' \<and> walked st u u' \<and> settled st u' c"
    and u: "walked st t u"
  shows "\<exists>u'. child_stage hooks st c u = Ret () u' \<and> walked st u u' \<and> settled st u' c"
proof -
  obtain v where v: "virtual_stage hooks st c u = Ret () v" "walked st u v"
    using base [OF u] walked_log [of st u] by (cases "hooks c st") (auto simp: virtual_stage_def log_hook_def)
  obtain u' where u': "base_stage hooks st c v = Ret () u'" "walked st v u'" "settled st u' c"
    using base [OF walked_trans [OF u v(2)]] by blast
  have "walked st u u'" using v(2) u'(2) by (rule walked_trans)
  with v(1) u' show ?thesis by (simp add: child_stage_def c_eval)
qed

text \<open>On a finite set of modules that holds all their sub-modules, every stage ends, and what it
  newly set is settled for all sub-modules.\<close>

lemma base_stage_walk:
  assumes "finite U" and "m \<in> U" and "\<And>x. x \<in> U \<Longrightarrow> deps s x \<subseteq> U"
  shows "\<exists>s'. base_stage hooks st m s = Ret () s' \<and> walked st s s' \<and> settled st s' m"
  using assms(2,3)
proof (induction "card (U - {x. has_flag st x s})" arbitrary: m s rule: less_induct)
  case less
  show ?case
  proof (cases "m_dep_idx s m = None \<or> has_flag st m s")
    case True
    let ?t = "s\<lparr>m_state := (m_state s)(m := m_state s m OR st_flag st)\<rparr>"
    have "walked st s ?t" using True by (auto simp: walked_def has_flag_set settled_def deps_def)
    with True show ?thesis
      by (subst base_stage_run) (auto simp: c_eval set_flag_def settled_def has_flag_set walked_refl)
  next
    case False
    then obtain ds where ds: "m_dep_idx s m = Some ds" by auto
    let ?t = "s\<lparr>m_state := (m_state s)(m := m_state s m OR st_flag st)\<rparr>"
    let ?f = "child_stage hooks st"
    have here: "\<exists>u'. base_stage hooks st c u = Ret () u' \<and> walked st u u' \<and> settled st u' c"
      if "c \<in> U" "walked st ?t u" for c u
    proof (rule less.hyps)
      have "{x. has_flag st x s} \<subseteq> {x. has_flag st x u}" "has_flag st m u"
        using that(2) by (auto simp: walked_def has_flag_set)
      then show "card (U - {x. has_flag st x u}) < card (U - {x. has_flag st x s})"
        using assms(1) less.prems(1) False by (intro psubset_card_mono) auto
      show "c \<in> U" by fact
      have "deps u = deps s" using that(2) by (intro deps_cong) (simp add: walked_def)
      then show "\<And>x. x \<in> U \<Longrightarrow> deps u x \<subseteq> U" using less.prems(2) by simp
    qed
    have each: "\<exists>u'. ?f c u = Ret () u' \<and> walked st u u' \<and> settled st u' c" if "c \<in> U" "walked st ?t u" for c u
      using child_walk [of st ?t hooks c u] here that by blast
    have "set (stage_order st ds) = deps s m" using ds by (simp add: set_stage_order deps_def)
    then have sub: "set (stage_order st ds) \<subseteq> U" using less.prems by blast
    obtain u where u: "forM (stage_order st ds) ?f ?t = Ret () u" "walked st ?t u" "\<forall>c \<in> set (stage_order st ds). settled st u c"
      using forM_walk [of "stage_order st ds" st ?t ?f ?t] each sub walked_refl by blast
    have "walked st s u"
      using u(2,3) False \<open>set (stage_order st ds) = deps s m\<close> unfolding walked_def
      by (auto simp: has_flag_set deps_def)
    moreover have "settled st u m" using u(2) by (auto simp: walked_def settled_def has_flag_set)
    moreover have "base_stage hooks st m s = Ret () u"
      using False ds u(1) by (subst base_stage_run) (simp add: c_eval set_flag_def)
    ultimately show ?thesis by blast
  qed
qed

definition below :: "mod_mem \<Rightarrow> mid \<Rightarrow> mid set" where
  "below s m = {x. (m, x) \<in> {(a, b). b \<in> deps s a}\<^sup>*}"

text \<open>A stage that is over for a module is over for its sub-modules.\<close>

definition closed_stage :: "stage \<Rightarrow> mod_mem \<Rightarrow> bool" where
  "closed_stage st s \<longleftrightarrow> (\<forall>x. has_flag st x s \<longrightarrow> (\<forall>c \<in> deps s x. settled st s c))"

lemma walked_closed:
  assumes "walked st s s'" and "closed_stage st s"
  shows "closed_stage st s'"
  unfolding closed_stage_def
proof (intro allI impI ballI)
  fix x c assume x: "has_flag st x s'" and c: "c \<in> deps s' x"
  have d: "deps s' = deps s" using assms(1) by (intro deps_cong) (simp add: walked_def)
  show "settled st s' c"
  proof (cases "has_flag st x s")
    case True
    with assms(2) c d have "settled st s c" by (simp add: closed_stage_def)
    with assms(1) show ?thesis by (rule settled_mono)
  next
    case False
    with assms(1) x c d show ?thesis by (simp add: walked_def)
  qed
qed

lemma settled_below:
  assumes "closed_stage st s" and "settled st s m" and "x \<in> below s m"
  shows "settled st s x"
proof -
  have "(m, x) \<in> {(a, b). b \<in> deps s a}\<^sup>*" using assms(3) by (simp add: below_def)
  then show ?thesis
  proof (induction rule: rtrancl_induct)
    case (step y z)
    then have "m_dep_idx s y \<noteq> None" by (auto simp: deps_def split: option.splits)
    with step assms(1) show ?case by (auto simp: closed_stage_def settled_def)
  qed (rule assms(2))
qed

text \<open>A stage on a module that does not override it, when the stage is closed before.\<close>

lemma virtual_stage_all:
  assumes U: "finite U" "m \<in> U" "\<And>x. x \<in> U \<Longrightarrow> deps s x \<subseteq> U" and "\<not> hooks m st" and "closed_stage st s"
  shows "\<exists>s'. virtual_stage hooks st m s = Ret () s' \<and> walked st s s' \<and> closed_stage st s' \<and> (\<forall>x \<in> below s m. settled st s' x)"
proof -
  obtain s' where s': "base_stage hooks st m s = Ret () s'" "walked st s s'" "settled st s' m"
    using base_stage_walk [OF U] by blast
  have c: "closed_stage st s'" using s'(2) assms(5) by (rule walked_closed)
  have "deps s' = deps s" using s'(2) by (intro deps_cong) (simp add: walked_def)
  then have "below s' m = below s m" by (simp add: below_def)
  with settled_below [OF c s'(3)] s' c assms(4) show ?thesis by (auto simp: virtual_stage_def)
qed

lemma stop_stage_all:
  assumes U: "finite U" "m \<in> U" "\<And>x. x \<in> U \<Longrightarrow> deps s x \<subseteq> U" and "\<not> hooks m st" and "closed_stage st s"
  shows "\<exists>s'. stop_stage hooks st m s = Ret () s' \<and> walked st s s' \<and> closed_stage st s' \<and> (\<forall>x \<in> below s m. settled st s' x)"
proof (cases "has_flag st m s")
  case True
  then have "settled st s m" by (simp add: settled_def)
  with True settled_below [OF assms(5)] assms(5) show ?thesis by (auto simp: stop_stage_def c_eval walked_refl)
next
  case False
  obtain t where t: "base_stage hooks st m s = Ret () t" "walked st s t" using base_stage_walk [OF U] by blast
  have d: "deps t = deps s" using t(2) by (intro deps_cong) (simp add: walked_def)
  have "\<exists>s'. virtual_stage hooks st m t = Ret () s' \<and> walked st t s' \<and> closed_stage st s' \<and> (\<forall>x \<in> below t m. settled st s' x)"
    using U assms(4) walked_closed [OF t(2) assms(5)] by (intro virtual_stage_all) (simp_all add: d)
  with t False d walked_trans show ?thesis by (auto simp: stop_stage_def c_eval below_def)
qed

text \<open>One stage leaves the others as they are.\<close>

lemma walked_other:
  assumes "walked st s s'" and "st' \<noteq> st"
  shows "closed_stage st' s' = closed_stage st' s" and "settled st' s' x = settled st' s x"
proof -
  have "deps s' = deps s" using assms(1) by (intro deps_cong) (simp add: walked_def)
  moreover have same: "settled st' s' x = settled st' s x" for x using assms by (simp add: walked_def settled_def)
  ultimately show "closed_stage st' s' = closed_stage st' s" using assms by (simp add: closed_stage_def walked_def)
  show "settled st' s' x = settled st' s x" by (rule same)
qed

lemma walked_below:
  assumes "walked st s s'"
  shows "deps s' = deps s" and "below s' = below s"
proof -
  show d: "deps s' = deps s" using assms by (intro deps_cong) (simp add: walked_def)
  show "below s' = below s" by (rule ext) (simp add: below_def d)
qed

subsection \<open>Order of the hooks\<close>

text \<open>A tree of modules, each with its sub-modules in the order of registration, as it is in the memory.\<close>

datatype mtree = Mod mid "mtree list"

fun mod_root :: "mtree \<Rightarrow> mid" where
  "mod_root (Mod m ts) = m"

fun members :: "mtree \<Rightarrow> mid list" where
  "members (Mod m ts) = m # concat (map members ts)"

fun shaped :: "mod_mem \<Rightarrow> mtree \<Rightarrow> bool" where
  "shaped s (Mod m ts) \<longleftrightarrow> (case m_dep_idx s m of None \<Rightarrow> ts = [] | Some ds \<Rightarrow> filter (\<lambda>d. d \<noteq> None) ds = map (Some \<circ> mod_root) ts) \<and>
     (\<forall>t \<in> set ts. shaped s t)"

text \<open>The overriding modules below the root as they are met from parent to sub-modules, these forwards or backwards.\<close>

definition own_hook :: "(mid \<Rightarrow> stage \<Rightarrow> bool) \<Rightarrow> stage \<Rightarrow> mid \<Rightarrow> (mid \<times> stage) list" where
  "own_hook hooks st m = (if hooks m st then [(m, st)] else [])"

fun tour :: "(mid \<Rightarrow> stage \<Rightarrow> bool) \<Rightarrow> stage \<Rightarrow> bool \<Rightarrow> mtree \<Rightarrow> (mid \<times> stage) list" where
  "tour hooks st fwd (Mod m ts) =
     concat ((if fwd then id else rev) (map (\<lambda>t. own_hook hooks st (mod_root t) @ tour hooks st fwd t) ts))"

definition forwards :: "stage \<Rightarrow> bool" where
  "forwards st \<longleftrightarrow> st \<in> {Init, Resolve, Startup, Enable}"

lemma mod_root_member: "mod_root t \<in> set (members t)"
  by (cases t) simp

lemma members_child: "t \<in> set ts \<Longrightarrow> set (members t) \<subseteq> set (members (Mod m ts))"
  by auto

lemma shaped_cong: "m_dep_idx s' = m_dep_idx s \<Longrightarrow> shaped s' t = shaped s t"
  by (induction t) auto

lemma distinct_concat_rev: "distinct (concat (rev xss)) = distinct (concat xss)"
  by (induction xss) auto

lemma stage_order_roots:
  assumes "filter (\<lambda>d. d \<noteq> None) ds = map (Some \<circ> mod_root) ts"
  shows "stage_order st ds = map mod_root (if forwards st then ts else rev ts)"
proof -
  have "concat (map (case_option [] (\<lambda>m. [m])) ds) = map the (filter (\<lambda>d. d \<noteq> None) ds)" by (induction ds) auto
  also have "\<dots> = map mod_root ts" using assms by simp
  finally show ?thesis by (cases st) (simp_all add: stage_order_def forwards_def rev_map)
qed

text \<open>What a stage leaves: the arrays, and the flags of other stages and of modules outside \<open>A\<close>.\<close>

definition kept :: "stage \<Rightarrow> mid set \<Rightarrow> mod_mem \<Rightarrow> mod_mem \<Rightarrow> bool" where
  "kept st A s s' \<longleftrightarrow> m_dep_idx s' = m_dep_idx s \<and> (\<forall>x st'. st' \<noteq> st \<or> x \<notin> A \<longrightarrow> has_flag st' x s' = has_flag st' x s)"

lemma kept_trans: "kept st A s t \<Longrightarrow> kept st B t u \<Longrightarrow> A \<subseteq> C \<Longrightarrow> B \<subseteq> C \<Longrightarrow> kept st C s u"
  unfolding kept_def by (metis subsetD)

lemma kept_log: "kept st A s (s\<lparr>mod_log := l\<rparr>)"
  by (simp add: kept_def has_flag_def)

lemma kept_flag: "kept st A s u \<Longrightarrow> x \<notin> A \<Longrightarrow> has_flag st x u = has_flag st x s"
  by (simp add: kept_def)

definition clear_in :: "stage \<Rightarrow> mid set \<Rightarrow> mod_mem \<Rightarrow> bool" where
  "clear_in st A s \<longleftrightarrow> (\<forall>x \<in> A. \<not> has_flag st x s)"

lemma clear_kept: "kept st A s u \<Longrightarrow> clear_in st B s \<Longrightarrow> A \<inter> B = {} \<Longrightarrow> clear_in st B u"
  by (auto simp: clear_in_def kept_def)

lemma clear_other: "kept st A s u \<Longrightarrow> clear_in st' B s \<Longrightarrow> st' \<noteq> st \<Longrightarrow> clear_in st' B u"
  by (simp add: clear_in_def kept_def)

definition tree_run :: "(mid \<Rightarrow> stage \<Rightarrow> bool) \<Rightarrow> stage \<Rightarrow> mtree \<Rightarrow> mod_mem \<Rightarrow> bool" where
  "tree_run hooks st t s \<longleftrightarrow> (\<exists>s'. base_stage hooks st (mod_root t) s = Ret () s' \<and> kept st (set (members t)) s s' \<and>
     settled st s' (mod_root t) \<and> mod_log s' = mod_log s @ tour hooks st (forwards st) t)"

text \<open>A second call on a module that is through with the stage.\<close>

lemma base_again:
  assumes "settled st s m"
  shows "\<exists>s'. base_stage hooks st m s = Ret () s' \<and> kept st {m} s s' \<and> mod_log s' = mod_log s"
  using assms by (subst base_stage_run) (auto simp: settled_def c_eval set_flag_def kept_def has_flag_set)

lemma child_run:
  assumes "\<And>u. m_dep_idx u = m_dep_idx s \<Longrightarrow> clear_in st (set (members t)) u \<Longrightarrow> tree_run hooks st t u" and "clear_in st (set (members t)) s"
  shows "\<exists>s'. child_stage hooks st (mod_root t) s = Ret () s' \<and> kept st (set (members t)) s s' \<and>
    mod_log s' = mod_log s @ own_hook hooks st (mod_root t) @ tour hooks st (forwards st) t"
proof (cases "hooks (mod_root t) st")
  case True
  let ?s = "s\<lparr>mod_log := mod_log s @ [(mod_root t, st)]\<rparr>"
  have "clear_in st (set (members t)) ?s" using assms(2) by (simp add: clear_in_def has_flag_def)
  then obtain u where u: "base_stage hooks st (mod_root t) ?s = Ret () u" "kept st (set (members t)) ?s u"
    "mod_log u = mod_log ?s @ tour hooks st (forwards st) t" using assms(1) [of ?s] by (auto simp: tree_run_def)
  have "kept st (set (members t)) s u" using kept_log [of st "set (members t)"] u(2) by (rule kept_trans) simp_all
  with True u show ?thesis by (simp add: child_stage_def virtual_stage_def log_hook_def own_hook_def c_eval)
next
  case False
  obtain u where u: "base_stage hooks st (mod_root t) s = Ret () u" "kept st (set (members t)) s u" "settled st u (mod_root t)"
    "mod_log u = mod_log s @ tour hooks st (forwards st) t" using assms by (auto simp: tree_run_def)
  obtain v where v: "base_stage hooks st (mod_root t) u = Ret () v" "kept st {mod_root t} u v" "mod_log v = mod_log u"
    using base_again [OF u(3)] by blast
  have "kept st (set (members t)) s v" using u(2) v(2) by (rule kept_trans) (simp_all add: mod_root_member)
  with False u v show ?thesis by (simp add: child_stage_def virtual_stage_def own_hook_def c_eval)
qed

lemma forest_run:
  assumes "\<And>t u. t \<in> set ts \<Longrightarrow> m_dep_idx u = m_dep_idx s \<Longrightarrow> clear_in st (set (members t)) u \<Longrightarrow> tree_run hooks st t u"
    and "distinct (concat (map members ts))" and "clear_in st (set (concat (map members ts))) s"
  shows "\<exists>s'. forM (map mod_root ts) (child_stage hooks st) s = Ret () s' \<and> kept st (set (concat (map members ts))) s s' \<and>
    mod_log s' = mod_log s @ concat (map (\<lambda>t. own_hook hooks st (mod_root t) @ tour hooks st (forwards st) t) ts)"
  using assms
proof (induction ts arbitrary: s)
  case Nil
  show ?case by (simp add: c_eval kept_def)
next
  case (Cons t ts)
  have c: "clear_in st (set (members t)) s" using Cons.prems(3) by (simp add: clear_in_def)
  obtain u where u: "child_stage hooks st (mod_root t) s = Ret () u" "kept st (set (members t)) s u"
    "mod_log u = mod_log s @ own_hook hooks st (mod_root t) @ tour hooks st (forwards st) t"
    using child_run [OF Cons.prems(1) [OF list.set_intros(1)] c] by blast
  have dep: "m_dep_idx u = m_dep_idx s" using u(2) by (simp add: kept_def)
  have "set (members t) \<inter> set (concat (map members ts)) = {}" using Cons.prems(2) by simp
  moreover have "clear_in st (set (concat (map members ts))) s" using Cons.prems(3) by (simp add: clear_in_def)
  ultimately have clear: "clear_in st (set (concat (map members ts))) u" using clear_kept [OF u(2)] by blast
  have "\<exists>v. forM (map mod_root ts) (child_stage hooks st) u = Ret () v \<and> kept st (set (concat (map members ts))) u v \<and>
      mod_log v = mod_log u @ concat (map (\<lambda>t. own_hook hooks st (mod_root t) @ tour hooks st (forwards st) t) ts)"
  proof (rule Cons.IH [OF _ _ clear])
    show "tree_run hooks st t' u'" if "t' \<in> set ts" "m_dep_idx u' = m_dep_idx u" "clear_in st (set (members t')) u'" for t' u'
      using Cons.prems(1) [of t' u'] that dep by simp
    show "distinct (concat (map members ts))" using Cons.prems(2) by simp
  qed
  then obtain v where v: "forM (map mod_root ts) (child_stage hooks st) u = Ret () v" "kept st (set (concat (map members ts))) u v"
    "mod_log v = mod_log u @ concat (map (\<lambda>t. own_hook hooks st (mod_root t) @ tour hooks st (forwards st) t) ts)" by blast
  have "kept st (set (concat (map members (t # ts)))) s v" using u(2) v(2) by (rule kept_trans) auto
  with u v show ?case by (simp add: c_eval)
qed

lemma tree_runs:
  assumes "shaped s t" and "distinct (members t)" and "clear_in st (set (members t)) s"
  shows "tree_run hooks st t s"
  using assms
proof (induction t arbitrary: s)
  case (Mod m ts)
  let ?t = "s\<lparr>m_state := (m_state s)(m := m_state s m OR st_flag st)\<rparr>"
  have new: "\<not> has_flag st m s" using Mod.prems(3) by (simp add: clear_in_def)
  have t: "kept st {m} s ?t" "has_flag st m ?t" by (auto simp: kept_def has_flag_set)
  show ?case
  proof (cases "m_dep_idx s m")
    case None
    with Mod.prems(1) have "ts = []" by simp
    with None t show ?thesis
      by (auto simp: tree_run_def base_stage_run [of hooks st m s] c_eval set_flag_def settled_def kept_def)
  next
    case (Some ds)
    define us where "us = (if forwards st then ts else rev ts)"
    have order: "stage_order st ds = map mod_root us"
      using Mod.prems(1) Some stage_order_roots unfolding us_def by simp
    have set_us: "set us = set ts" by (simp add: us_def)
    have dist: "distinct (concat (map members us))"
      using Mod.prems(2) distinct_concat_rev [of "map members ts"] by (simp add: us_def rev_map)
    have m: "m \<notin> set (concat (map members us))" using Mod.prems(2) set_us by simp
    have each: "tree_run hooks st t u" if "t \<in> set us" "m_dep_idx u = m_dep_idx ?t" "clear_in st (set (members t)) u" for t u
    proof (rule Mod.IH)
      show "t \<in> set ts" using that(1) set_us by simp
      then show "shaped u t" "distinct (members t)"
        using Mod.prems(1,2) that(2) shaped_cong [of u s t] by (auto simp: distinct_concat_iff)
      show "clear_in st (set (members t)) u" by fact
    qed
    have "clear_in st (set (concat (map members us))) ?t"
      using t(1) by (rule clear_kept) (use Mod.prems(3) m set_us in \<open>simp_all add: clear_in_def\<close>)
    from forest_run [OF each dist this] obtain v where v: "forM (map mod_root us) (child_stage hooks st) ?t = Ret () v"
      "kept st (set (concat (map members us))) ?t v"
      "mod_log v = mod_log ?t @ concat (map (\<lambda>t. own_hook hooks st (mod_root t) @ tour hooks st (forwards st) t) us)" by auto
    have k: "kept st (set (members (Mod m ts))) s v" using t(1) v(2) by (rule kept_trans) (use set_us in auto)
    have "base_stage hooks st m s = Ret () v"
      using new Some order v(1) by (subst base_stage_run) (simp add: c_eval set_flag_def)
    moreover have "has_flag st m v" using kept_flag [OF v(2) m] t(2) by simp
    moreover have "mod_log v = mod_log s @ tour hooks st (forwards st) (Mod m ts)"
      using v(3) by (simp add: us_def rev_map)
    ultimately show ?thesis using k by (simp add: tree_run_def settled_def)
  qed
qed

text \<open>A stage of the start and of the stop sequence.\<close>

lemma virtual_run:
  assumes "shaped s t" and "distinct (members t)" and "clear_in st (set (members t)) s"
  shows "\<exists>s'. virtual_stage hooks st (mod_root t) s = Ret () s' \<and> kept st (set (members t)) s s' \<and>
    mod_log s' = mod_log s @ (if hooks (mod_root t) st then [(mod_root t, st)] else tour hooks st (forwards st) t)"
  using tree_runs [OF assms, of hooks] kept_log by (auto simp: tree_run_def virtual_stage_def log_hook_def)

lemma stop_run:
  assumes "shaped s t" and "distinct (members t)" and "clear_in st (set (members t)) s"
  shows "\<exists>s'. stop_stage hooks st (mod_root t) s = Ret () s' \<and> kept st (set (members t)) s s' \<and>
    mod_log s' = mod_log s @ tour hooks st (forwards st) t @ own_hook hooks st (mod_root t)"
proof -
  let ?m = "mod_root t"
  have new: "\<not> has_flag st ?m s" using assms(3) mod_root_member by (simp add: clear_in_def)
  obtain u where u: "base_stage hooks st ?m s = Ret () u" "kept st (set (members t)) s u" "settled st u ?m"
    "mod_log u = mod_log s @ tour hooks st (forwards st) t" using tree_runs [OF assms, of hooks] by (auto simp: tree_run_def)
  obtain v where v: "virtual_stage hooks st ?m u = Ret () v" "kept st {?m} u v" "mod_log v = mod_log u @ own_hook hooks st ?m"
  proof (cases "hooks ?m st")
    case True
    with that [of "u\<lparr>mod_log := mod_log u @ [(?m, st)]\<rparr>"] show ?thesis
      by (simp add: virtual_stage_def log_hook_def own_hook_def kept_log)
  next
    case False
    with that base_again [OF u(3), of hooks] show ?thesis by (auto simp: virtual_stage_def own_hook_def)
  qed
  have "kept st (set (members t)) s v" using u(2) v(2) by (rule kept_trans) (simp_all add: mod_root_member)
  with new u v show ?thesis by (simp add: stop_stage_def c_eval)
qed

subsection \<open>Sequences of stages\<close>

lemma module_start_stages: "module_start hooks m = forM [Init, Resolve, Startup, Enable] (\<lambda>st. virtual_stage hooks st m)"
  by (simp add: module_start_def seqM_ret_unit)

lemma module_shutdown_stages: "module_shutdown hooks m = forM [Disable, Shutdown, Cleanup] (\<lambda>st. stop_stage hooks st m)"
  by (simp add: module_shutdown_def seqM_ret_unit)

lemma stages_all:
  assumes step: "\<And>st u. st \<in> set sts \<Longrightarrow> m_dep_idx u = m_dep_idx s \<Longrightarrow> closed_stage st u \<Longrightarrow>
      \<exists>u'. f st u = Ret () u' \<and> walked st u u' \<and> (\<forall>x \<in> X st. settled st u' x)"
    and "distinct sts" and "\<And>st. st \<in> set sts \<Longrightarrow> closed_stage st s"
  shows "\<exists>s'. forM sts f s = Ret () s' \<and> (\<forall>st \<in> set sts. \<forall>x \<in> X st. settled st s' x) \<and>
    (\<forall>st x. st \<notin> set sts \<longrightarrow> settled st s' x = settled st s x)"
  using assms
proof (induction sts arbitrary: s)
  case (Cons st sts)
  obtain t where t: "f st s = Ret () t" "walked st s t" "\<forall>x \<in> X st. settled st t x"
    using Cons.prems(1) [of st s] Cons.prems(3) [of st] by auto
  have dep: "m_dep_idx t = m_dep_idx s" using t(2) by (simp add: walked_def)
  have "\<exists>s'. forM sts f t = Ret () s' \<and> (\<forall>st \<in> set sts. \<forall>x \<in> X st. settled st s' x) \<and>
      (\<forall>st x. st \<notin> set sts \<longrightarrow> settled st s' x = settled st t x)"
  proof (rule Cons.IH)
    show "distinct sts" using Cons.prems(2) by simp
    show "closed_stage st' t" if "st' \<in> set sts" for st'
      using that Cons.prems(2,3) walked_other(1) [OF t(2), of st'] by auto
    show "\<exists>u'. f st' u = Ret () u' \<and> walked st' u u' \<and> (\<forall>x \<in> X st'. settled st' u' x)"
      if "st' \<in> set sts" "m_dep_idx u = m_dep_idx t" "closed_stage st' u" for st' u
      using Cons.prems(1) [of st' u] that dep by simp
  qed
  then obtain s' where s': "forM sts f t = Ret () s'" "\<forall>st \<in> set sts. \<forall>x \<in> X st. settled st s' x"
    "\<forall>st x. st \<notin> set sts \<longrightarrow> settled st s' x = settled st t x" by blast
  have "settled st s' x" if "x \<in> X st" for x using s'(3) t(3) that Cons.prems(2) by auto
  moreover have "settled st' s' x = settled st' s x" if "st' \<notin> set (st # sts)" for st' x
    using that s'(3) walked_other(2) [OF t(2), of st' x] by auto
  ultimately show ?case using t(1) s'(1,2) by (simp add: c_eval)
qed (simp add: c_eval)

lemma stages_log:
  assumes step: "\<And>st u. shaped u t \<Longrightarrow> clear_in st (set (members t)) u \<Longrightarrow>
      \<exists>u'. f st u = Ret () u' \<and> kept st (set (members t)) u u' \<and> mod_log u' = mod_log u @ g st"
    and "shaped s t" and "distinct sts" and "\<And>st. st \<in> set sts \<Longrightarrow> clear_in st (set (members t)) s"
  shows "\<exists>s'. forM sts f s = Ret () s' \<and> shaped s' t \<and> mod_log s' = mod_log s @ concat (map g sts) \<and>
    (\<forall>st. st \<notin> set sts \<longrightarrow> clear_in st (set (members t)) s \<longrightarrow> clear_in st (set (members t)) s')"
  using assms(2-)
proof (induction sts arbitrary: s)
  case (Cons st sts)
  obtain u where u: "f st s = Ret () u" "kept st (set (members t)) s u" "mod_log u = mod_log s @ g st"
    using step Cons.prems by (meson list.set_intros(1))
  have "shaped u t" using u(2) Cons.prems(1) shaped_cong [of u s t] by (simp add: kept_def)
  moreover have clear: "clear_in st' (set (members t)) u" if "clear_in st' (set (members t)) s" "st' \<noteq> st" for st'
    using clear_other u(2) that by blast
  ultimately obtain s' where s': "forM sts f u = Ret () s'" "shaped s' t" "mod_log s' = mod_log u @ concat (map g sts)"
    "\<forall>st. st \<notin> set sts \<longrightarrow> clear_in st (set (members t)) u \<longrightarrow> clear_in st (set (members t)) s'"
    using Cons.IH [of u] Cons.prems(2,3) by (metis distinct.simps(2) list.set_intros(2))
  with u clear show ?case by (auto simp: c_eval)
qed (simp add: c_eval)

subsection \<open>Properties\<close>

text \<open>C11: On modules with no flag set \<open>module_start\<close> ends, with cycles among the modules too, and every module
  below the one it is called for has then gone through each of the four stages of the start that this
  module does not override itself (where it does, only its own routine is called, and what that does below
  is up to it).\<close>

theorem module_start_reaches_all:
  assumes U: "finite U" "m \<in> U" "\<And>x. x \<in> U \<Longrightarrow> deps s x \<subseteq> U" and new: "\<And>st x. \<not> has_flag st x s"
  shows "\<exists>s'. module_start hooks m s = Ret () s' \<and>
    (\<forall>st \<in> {Init, Resolve, Startup, Enable}. \<not> hooks m st \<longrightarrow> (\<forall>x \<in> below s m. has_flag st x s'))"
proof -
  let ?X = "\<lambda>st. if hooks m st then {} else below s m"
  have "\<exists>u'. virtual_stage hooks st m u = Ret () u' \<and> walked st u u' \<and> (\<forall>x \<in> ?X st. settled st u' x)"
    if "m_dep_idx u = m_dep_idx s" "closed_stage st u" for st u
  proof (cases "hooks m st")
    case True
    then show ?thesis by (simp add: virtual_stage_def log_hook_def walked_log)
  next
    case False
    then show ?thesis
      using virtual_stage_all [of U m u hooks st] U that deps_cong [OF that(1)] by (auto simp: below_def)
  qed
  moreover have "closed_stage st s" for st using new by (simp add: closed_stage_def)
  ultimately obtain s' where "module_start hooks m s = Ret () s'"
      "\<forall>st \<in> set [Init, Resolve, Startup, Enable]. \<forall>x \<in> ?X st. settled st s' x"
    using stages_all [of "[Init, Resolve, Startup, Enable]" s "\<lambda>st. virtual_stage hooks st m" ?X]
    unfolding module_start_stages by auto
  then show ?thesis by (auto simp: settled_def)
qed


text \<open>A cycle of modules.\<close>

definition demo_cycle :: mod_mem where
  "demo_cycle = \<lparr>m_state = (\<lambda>_. 0), m_dep_idx = [1 \<mapsto> [Some 2], 2 \<mapsto> [Some 1, Some 3]], mod_log = []\<rparr>"

theorem module_start_reaches_all_witness:
  "\<exists>s'. module_start (\<lambda>m st. m = 3) 1 demo_cycle = Ret () s' \<and> has_flag Enable 3 s'"
proof -
  have "\<exists>s'. module_start (\<lambda>m st. m = 3) 1 demo_cycle = Ret () s' \<and>
      (\<forall>st \<in> {Init, Resolve, Startup, Enable}. \<not> (1 :: nat) = 3 \<longrightarrow> (\<forall>x \<in> below demo_cycle 1. has_flag st x s'))"
    by (rule module_start_reaches_all [of "{1, 2, 3}"]) (auto simp: deps_def demo_cycle_def has_flag_def)
  moreover have "3 \<in> below demo_cycle 1"
  proof -
    have "(1, 2) \<in> {(a, b). b \<in> deps demo_cycle a}" "(2, 3) \<in> {(a, b). b \<in> deps demo_cycle a}"
      by (auto simp: deps_def demo_cycle_def)
    then show ?thesis unfolding below_def by (blast intro: rtrancl.rtrancl_into_rtrancl)
  qed
  ultimately show ?thesis by auto
qed

text \<open>Module 1 with 2 and 3, and 4 below 2; module 2 overrides nothing.\<close>

definition demo_tree :: mod_mem where
  "demo_tree = \<lparr>m_state = (\<lambda>_. 0), m_dep_idx = [1 \<mapsto> [Some 2, None, Some 3], 2 \<mapsto> [Some 4]], mod_log = []\<rparr>"


end
