(* ===== verification/RsContain.thy ===== *)
theory RsContain
  imports DHashObj
begin

text \<open>
  The container of resources (\<open>Resource\<close>, \<open>RsContainer\<close>, \<open>RsIterator\<close> of include/di/module.h and
  common/di/module.cpp). A resource is found by its name, by its 64-bit id or by its place in
  an array. The container is a record that the routines take and return; \<open>rs_idx\<close> is a field of the
  resources. \<open>obj_keystr\<close> of a resource returns its member \<open>rs_name\<close> and \<open>obj_key64\<close> its id.
\<close>

subsection \<open>Arrays of object pointers\<close>

datatype places = No_places | Deleted | Places "addr list"

definition pl_get :: "places \<Rightarrow> int \<Rightarrow> (obj_mem, addr) cprog" where
  "pl_get a i = (case a of No_places \<Rightarrow> abortM (Fault NULL) | Deleted \<Rightarrow> abortM (Fault (nat i))
     | Places xs \<Rightarrow> if 0 \<le> i \<and> i < int (length xs) then ret (xs ! nat i) else abortM (Fault (nat i)))"

definition pl_set :: "places \<Rightarrow> int \<Rightarrow> addr \<Rightarrow> (obj_mem, places) cprog" where
  "pl_set a i v = (case a of No_places \<Rightarrow> abortM (Fault NULL) | Deleted \<Rightarrow> abortM (Fault (nat i))
     | Places xs \<Rightarrow> if 0 \<le> i \<and> i < int (length xs) then ret (Places (xs[nat i := v])) else abortM (Fault (nat i)))"

text \<open>\<open>delete []\<close>; a null pointer is left alone.\<close>

definition pl_delete :: "places \<Rightarrow> (obj_mem, places) cprog" where
  "pl_delete a = (case a of No_places \<Rightarrow> ret No_places | Deleted \<Rightarrow> abortM (Fault NULL) | Places xs \<Rightarrow> ret Deleted)"

fun pl_clear :: "places \<Rightarrow> int list \<Rightarrow> (obj_mem, places) cprog" where
  "pl_clear a [] = ret a"
| "pl_clear a (i # js) = bindM (pl_set a i NULL) (\<lambda>a'. pl_clear a' js)"

fun pl_copy :: "places \<Rightarrow> places \<Rightarrow> int list \<Rightarrow> (obj_mem, places) cprog" where
  "pl_copy from_arr to_arr [] = ret to_arr"
| "pl_copy from_arr to_arr (i # js) =
     bindM (pl_get from_arr i) (\<lambda>x. bindM (pl_set to_arr i x) (\<lambda>a'. pl_copy from_arr a' js))"

definition pl_new :: "int \<Rightarrow> places" where
  "pl_new n = Places (replicate (nat n) NULL)"

subsection \<open>Resources\<close>

definition rs_name :: "addr \<Rightarrow> addr" where
  "rs_name rs = rs + 72"

definition rs_id_link :: "addr \<Rightarrow> addr" where
  "rs_id_link rs = rs + 48"

definition rs_name_max :: nat where
  "rs_name_max = 16"

fun memcpy_chr :: "addr \<Rightarrow> addr \<Rightarrow> nat \<Rightarrow> (obj_mem, unit) cprog" where
  "memcpy_chr d p 0 = ret ()"
| "memcpy_chr d p (Suc n) =
     bindM (rd o_chr p) (\<lambda>c. seqM (\<lambda>s. Ret () (s\<lparr>o_chr := (o_chr s)(d \<mapsto> c)\<rparr>)) (memcpy_chr (d + 1) (p + 1) n))"

definition resource_init :: "addr \<Rightarrow> (obj_mem, unit) cprog" where
  "resource_init rs =
     seqM (odlink_init (m_chain rs) NULL) (seqM (odlink_init (rs_id_link rs) NULL)
     (\<lambda>s. Ret () (s\<lparr>o_key64 := (o_key64 s)(rs \<mapsto> 0), o_keystr := (o_keystr s)(rs \<mapsto> rs_name rs), o_chr := (o_chr s)(rs_name rs \<mapsto> 0)\<rparr>)))"

definition resource_ctor :: "addr \<Rightarrow> 64 word \<Rightarrow> addr \<Rightarrow> (obj_mem, unit) cprog" where
  "resource_ctor rs key name =
     seqM (resource_init rs)
    (seqM (\<lambda>s. Ret () (s\<lparr>o_key64 := (o_key64 s)(rs \<mapsto> key)\<rparr>))
     (memcpy_chr (rs_name rs) name rs_name_max))"

subsection \<open>The container\<close>

datatype it_ptr = It_null | It_array int | It_snap int

record rs_cont =
  rs_tab :: "obj_tab option"
  rs_mtx :: bool
  rs_cnt :: int
  rs_arr_elm :: int
  rs_array :: places
  rs_iter_end :: it_ptr
  rs_idx :: "addr \<Rightarrow> int"

definition rs_lock :: "rs_cont \<Rightarrow> (obj_mem, rs_cont) cprog" where
  "rs_lock C s = (if rs_mtx C then None else Ret (C\<lparr>rs_mtx := True\<rparr>) s)"

definition rs_unlock :: "rs_cont \<Rightarrow> rs_cont" where
  "rs_unlock C = C\<lparr>rs_mtx := False\<rparr>"

definition rs_the_tab :: "rs_cont \<Rightarrow> (obj_mem, obj_tab) cprog" where
  "rs_the_tab C = (case rs_tab C of None \<Rightarrow> abortM Assert_fail | Some t \<Rightarrow> ret t)"

definition rs_ctor :: "obj_mem alloc \<Rightarrow> (addr \<Rightarrow> int) \<Rightarrow> int \<Rightarrow> (obj_mem, rs_cont) cprog" where
  "rs_ctor alloc idx n =
     bindM (dho_ctor alloc (if n = 0 then 67 else n)) (\<lambda>t.
     let C = \<lparr>rs_tab = Some t, rs_mtx = False, rs_cnt = 0, rs_arr_elm = n, rs_array = No_places, rs_iter_end = It_null, rs_idx = idx\<rparr> in
     if n > 0 then bindM (pl_clear (pl_new n) [0..n]) (\<lambda>a. ret (C\<lparr>rs_array := a, rs_iter_end := It_array n\<rparr>))
     else ret C)"

definition rs_resize_container :: "rs_cont \<Rightarrow> int \<Rightarrow> (obj_mem, rs_cont) cprog" where
  "rs_resize_container C n =
     (if n \<le> rs_arr_elm C then ret C
      else bindM (rs_lock C) (\<lambda>C1.
           bindM (pl_copy (rs_array C1) (pl_new n) [0..rs_arr_elm C1 - 1]) (\<lambda>a1.
           bindM (pl_clear a1 [max 0 (rs_arr_elm C1)..n - 1]) (\<lambda>a2.
           let C2 = rs_unlock (C1\<lparr>rs_array := a2, rs_arr_elm := n, rs_iter_end := It_array n\<rparr>) in
           bindM (pl_delete (rs_array C2)) (\<lambda>a3. ret (C2\<lparr>rs_array := a3\<rparr>))))))"

text \<open>What \<open>rs_add\<close> and \<open>rs_add_index\<close> enter in the table.\<close>

definition rs_enter :: "obj_tab \<Rightarrow> addr \<Rightarrow> (obj_mem, obj_tab) cprog" where
  "rs_enter t rs =
     bindM (rd o_keystr rs) (\<lambda>p. bindM (rd o_chr p) (\<lambda>c.
     bindM (if c \<noteq> 0 then bindM (dho_insert_keystr t rs) (\<lambda>r. ret (snd r)) else ret t) (\<lambda>t1.
     bindM (rd o_key64 rs) (\<lambda>k.
     if k \<noteq> 0 then bindM (dho_insert_chain t1 rs (rs_id_link rs)) (\<lambda>r. ret (snd r)) else ret t1))))"

fun rs_first_free :: "places \<Rightarrow> int list \<Rightarrow> (obj_mem, int) cprog" where
  "rs_first_free a [] = ret (-1)"
| "rs_first_free a (i # js) = bindM (pl_get a i) (\<lambda>x. if x = NULL then ret i else rs_first_free a js)"

definition rs_add :: "rs_cont \<Rightarrow> addr \<Rightarrow> (obj_mem, rs_cont) cprog" where
  "rs_add C rs =
     bindM (rs_the_tab C) (\<lambda>t.
     bindM (rs_lock C) (\<lambda>C1.
     seqM (assertM (rs_cnt C1 < rs_arr_elm C1))
    (bindM (rs_enter t rs) (\<lambda>t1.
     bindM (rs_first_free (rs_array C1) [0..rs_arr_elm C1 - 1]) (\<lambda>i.
     let C2 = C1\<lparr>rs_tab := Some t1, rs_idx := (rs_idx C1)(rs := i)\<rparr> in
     seqM (assertM (i \<noteq> -1))
    (bindM (pl_set (rs_array C2) i rs) (\<lambda>a.
     ret (rs_unlock (C2\<lparr>rs_cnt := rs_cnt C2 + 1, rs_array := a\<rparr>)))))))))"

definition rs_add_index :: "rs_cont \<Rightarrow> addr \<Rightarrow> int \<Rightarrow> (obj_mem, rs_cont) cprog" where
  "rs_add_index C rs i =
     bindM (rs_the_tab C) (\<lambda>t.
     seqM (assertM (i < rs_arr_elm C))
    (bindM (pl_get (rs_array C) i) (\<lambda>cur.
     seqM (assertM (cur = NULL \<or> cur = rs))
    (bindM (rs_lock C) (\<lambda>C1.
     bindM (rs_enter t rs) (\<lambda>t1.
     bindM (pl_set (rs_array C1) i rs) (\<lambda>a.
     ret (rs_unlock (C1\<lparr>rs_tab := Some t1, rs_idx := (rs_idx C1)(rs := i), rs_array := a\<rparr>)))))))))"

definition rs_remove :: "rs_cont \<Rightarrow> addr \<Rightarrow> (obj_mem, rs_cont) cprog" where
  "rs_remove C rs =
     bindM (rs_the_tab C) (\<lambda>t.
     seqM (assertM (rs_idx C rs \<noteq> -1))
    (bindM (pl_get (rs_array C) (rs_idx C rs)) (\<lambda>cur.
     seqM (assertM (cur = rs))
    (bindM (rs_lock C) (\<lambda>C1.
     bindM (dho_remove_obj t rs) (\<lambda>t1.
     bindM (dho_remove_chain t1 rs (rs_id_link rs)) (\<lambda>t2.
     bindM (pl_set (rs_array C1) (rs_idx C1 rs) NULL) (\<lambda>a.
     ret (rs_unlock (C1\<lparr>rs_tab := Some t2, rs_cnt := rs_cnt C1 - 1, rs_array := a\<rparr>))))))))))"

definition rs_query_id :: "obj_mem alloc \<Rightarrow> addr \<Rightarrow> rs_cont \<Rightarrow> 64 word \<Rightarrow> (obj_mem, addr \<times> rs_cont) cprog" where
  "rs_query_id alloc loc C key =
     bindM (rs_the_tab C) (\<lambda>t. bindM (rs_lock C) (\<lambda>C1.
     bindM (dho_lookup64 alloc loc t key) (\<lambda>r. ret (fst r, rs_unlock (C1\<lparr>rs_tab := Some (snd r)\<rparr>)))))"

definition rs_query_name :: "obj_mem alloc \<Rightarrow> addr \<Rightarrow> rs_cont \<Rightarrow> addr \<Rightarrow> (obj_mem, addr \<times> rs_cont) cprog" where
  "rs_query_name alloc loc C name =
     bindM (rs_the_tab C) (\<lambda>t. bindM (rs_lock C) (\<lambda>C1.
     bindM (dho_lookup_str alloc loc t name) (\<lambda>r. ret (fst r, rs_unlock (C1\<lparr>rs_tab := Some (snd r)\<rparr>)))))"

definition rs_query_index :: "rs_cont \<Rightarrow> int \<Rightarrow> (obj_mem, addr) cprog" where
  "rs_query_index C i = seqM (assertM (i < rs_cnt C \<and> rs_array C \<noteq> No_places)) (pl_get (rs_array C) i)"

definition rs_dtor :: "rs_cont \<Rightarrow> (obj_mem, places) cprog" where
  "rs_dtor C = pl_delete (rs_array C)"

text \<open>The later assignment of an id, and of a name, which only checks.\<close>

definition rs_update_id :: "rs_cont \<Rightarrow> addr \<Rightarrow> 64 word \<Rightarrow> (obj_mem, unit) cprog" where
  "rs_update_id C rs key =
     bindM (rd o_key64 rs) (\<lambda>k. seqM (assertM (k = 0 \<and> rs_idx C rs \<noteq> -1)) (wr o_key64 o_key64_update rs key))"

definition rs_update_name :: "rs_cont \<Rightarrow> addr \<Rightarrow> (obj_mem, unit) cprog" where
  "rs_update_name C rs =
     bindM (rd o_keystr rs) (\<lambda>p. bindM (rd o_chr p) (\<lambda>c. assertM (c = 0 \<and> rs_idx C rs \<noteq> -1)))"

subsection \<open>Iterators\<close>

text \<open>A position in the array of the container or in a snapshot of it. An iterator that was made
  before the array of the container was replaced is not considered.\<close>

record rs_iter =
  it_size :: int
  it_curr :: it_ptr
  it_snap :: places

definition it_none :: rs_iter where
  "it_none = \<lparr>it_size = 0, it_curr = It_null, it_snap = No_places\<rparr>"

definition rs_begin :: "rs_cont \<Rightarrow> rs_iter" where
  "rs_begin C = \<lparr>it_size = 0, it_curr = (if rs_array C = No_places then It_null else It_array 0), it_snap = No_places\<rparr>"

definition rs_at_end :: "rs_cont \<Rightarrow> rs_iter \<Rightarrow> bool" where
  "rs_at_end C it \<longleftrightarrow> it_curr it = rs_iter_end C"

definition it_end :: "rs_iter \<Rightarrow> bool" where
  "it_end it \<longleftrightarrow> it_curr it = (if it_snap it = No_places \<and> it_size it = 0 then It_null else It_snap (it_size it))"

definition it_deref :: "rs_cont \<Rightarrow> rs_iter \<Rightarrow> (obj_mem, addr) cprog" where
  "it_deref C it = (case it_curr it of It_null \<Rightarrow> ret NULL | It_array i \<Rightarrow> pl_get (rs_array C) i | It_snap i \<Rightarrow> pl_get (it_snap it) i)"

definition it_incr :: "rs_iter \<Rightarrow> (obj_mem, rs_iter) cprog" where
  "it_incr it = (case it_curr it of It_null \<Rightarrow> abortM (Fault NULL)
     | It_array i \<Rightarrow> ret (it\<lparr>it_curr := It_array (i + 1)\<rparr>) | It_snap i \<Rightarrow> ret (it\<lparr>it_curr := It_snap (i + 1)\<rparr>))"

definition it_dtor :: "rs_iter \<Rightarrow> (obj_mem, places) cprog" where
  "it_dtor it =
     (if it_snap it \<noteq> No_places
      then seqM (assertM (it_size it \<noteq> 0)) (bindM (pl_clear (it_snap it) [0..it_size it - 1]) pl_delete)
      else ret No_places)"

text \<open>The statement \<open>it++;\<close>: the copy that it returns shares the snapshot and is destroyed.\<close>

definition it_post_incr :: "rs_iter \<Rightarrow> (obj_mem, rs_iter) cprog" where
  "it_post_incr it = bindM (it_incr it) (\<lambda>it'. bindM (it_dtor it) (\<lambda>a. ret (it'\<lparr>it_snap := a\<rparr>)))"

definition rs_snapshot :: "rs_cont \<Rightarrow> rs_iter \<Rightarrow> (obj_mem, rs_iter) cprog" where
  "rs_snapshot C it =
     seqM (assertM (rs_array C \<noteq> No_places \<and> it_snap it = No_places))
    (let n = rs_arr_elm C in
     bindM (rs_lock C) (\<lambda>C1.
     bindM (pl_copy (rs_array C1) (pl_new n) [0..n - 1]) (\<lambda>a.
     ret \<lparr>it_size = n, it_curr = It_snap 0, it_snap = a\<rparr>)))"

partial_function (option) it_walk :: "rs_cont \<Rightarrow> rs_iter \<Rightarrow> addr list \<Rightarrow> (obj_mem, addr list) cprog" where
  "it_walk C it acc s =
     (if it_end it then ret acc
      else bindM (it_deref C it) (\<lambda>x. bindM (it_incr it) (\<lambda>it'. it_walk C it' (acc @ [x])))) s"

end
