(* ===== verification/ModReg.thy ===== *)
theory ModReg
  imports DHashObj
begin

text \<open>
  The registration of sub-modules (common/di/module.cpp, include/di/module.h): the module keeps its
  sub-modules in an array and enters each into a table of objects twice, by its name through
  the link \<open>m_chain\<close> and by its id through the link \<open>m_id_link\<close>. The module is a record that the
  routines take and return; an array is a list of what its places hold (new places hold null
  pointers, as those of object pointers do), a place outside it faults. \<open>m_index\<close> and the
  flag \<open>st_register\<close> are fields of the sub-modules.
\<close>

subsection \<open>Data\<close>

record mod_reg =
  rg_dep_cnt :: int
  rg_dep_siz :: int
  rg_dep_idx :: "addr list option"
  rg_name_tab :: "obj_tab option"
  rg_mod_mtx :: bool
  sub_index :: "addr \<Rightarrow> int"
  sub_registered :: "addr \<Rightarrow> bool"

definition m_id_link :: "addr \<Rightarrow> addr" where
  "m_id_link md = md + 48"

definition lock_mod :: "mod_reg \<Rightarrow> (obj_mem, mod_reg) cprog" where
  "lock_mod R s = (if rg_mod_mtx R then None else Ret (R\<lparr>rg_mod_mtx := True\<rparr>) s)"

definition unlock_mod :: "mod_reg \<Rightarrow> mod_reg" where
  "unlock_mod R = R\<lparr>rg_mod_mtx := False\<rparr>"

definition arr_get :: "addr list option \<Rightarrow> int \<Rightarrow> (obj_mem, addr) cprog" where
  "arr_get a i = (case a of None \<Rightarrow> abortM (Fault NULL)
     | Some xs \<Rightarrow> if 0 \<le> i \<and> i < int (length xs) then ret (xs ! nat i) else abortM (Fault (nat i)))"

definition arr_set :: "addr list option \<Rightarrow> int \<Rightarrow> addr \<Rightarrow> (obj_mem, addr list option) cprog" where
  "arr_set a i v = (case a of None \<Rightarrow> abortM (Fault NULL)
     | Some xs \<Rightarrow> if 0 \<le> i \<and> i < int (length xs) then ret (Some (xs[nat i := v])) else abortM (Fault (nat i)))"

fun clear_places :: "addr list option \<Rightarrow> int list \<Rightarrow> (obj_mem, addr list option) cprog" where
  "clear_places a [] = ret a"
| "clear_places a (i # js) = bindM (arr_set a i NULL) (\<lambda>a'. clear_places a' js)"

definition the_tab :: "mod_reg \<Rightarrow> (obj_mem, obj_tab) cprog" where
  "the_tab R = (case rg_name_tab R of None \<Rightarrow> abortM (Fault NULL) | Some t \<Rightarrow> ret t)"

text \<open>The override of \<open>obj_hash_dlink\<close>; \<open>obj_id\<close> is what \<open>obj_key64\<close> returns for a module.\<close>

definition mod_hash_dlink :: "addr \<Rightarrow> int \<Rightarrow> addr \<Rightarrow> (obj_mem, int) cprog" where
  "mod_hash_dlink this nsize p =
     bindM (obj_ptr p) (\<lambda>elm. seqM (assertM (this = elm))
    (bindM (rd o_key64 this) (\<lambda>k. obj_hash64 nsize k)))"

subsection \<open>Registration\<close>

text \<open>The copy of the array to one of twice the size.\<close>

definition grow_deps :: "mod_reg \<Rightarrow> (obj_mem, mod_reg) cprog" where
  "grow_deps R =
     (if rg_dep_cnt R + 1 = rg_dep_siz R
      then (let siz = rg_dep_siz R * 2 in
            case rg_dep_idx R of
              None \<Rightarrow> abortM (Fault NULL)
            | Some xs \<Rightarrow> ret (R\<lparr>rg_dep_siz := siz,
                rg_dep_idx := Some (take (nat (rg_dep_cnt R)) xs @ replicate (nat siz - nat (rg_dep_cnt R)) NULL)\<rparr>))
      else ret R)"

definition mod_register :: "mod_reg \<Rightarrow> addr \<Rightarrow> (obj_mem, mod_reg) cprog" where
  "mod_register R md =
     (if sub_registered R md then ret R
      else bindM (lock_mod (R\<lparr>sub_registered := (sub_registered R)(md := True)\<rparr>)) (\<lambda>R1.
           bindM (the_tab R1) (\<lambda>t.
           bindM (dho_insert_keystr t md) (\<lambda>r1.
           bindM (dho_insert_chain_with mod_hash_dlink (snd r1) md (m_id_link md)) (\<lambda>r2.
           bindM (grow_deps (R1\<lparr>rg_name_tab := Some (snd r2)\<rparr>)) (\<lambda>R2.
           bindM (arr_set (rg_dep_idx R2) (rg_dep_cnt R2) md) (\<lambda>arr.
           ret (unlock_mod (R2\<lparr>sub_index := (sub_index R2)(md := rg_dep_cnt R2), rg_dep_idx := arr, rg_dep_cnt := rg_dep_cnt R2 + 1\<rparr>)))))))))"

definition mod_register_index :: "mod_reg \<Rightarrow> addr \<Rightarrow> int \<Rightarrow> (obj_mem, mod_reg) cprog" where
  "mod_register_index R md idx =
     seqM (assertM (idx < rg_dep_cnt R \<and> rg_dep_idx R \<noteq> None))
    (bindM (arr_get (rg_dep_idx R) idx) (\<lambda>cur.
     seqM (assertM (cur = NULL \<or> cur = md))
    (bindM (lock_mod R) (\<lambda>R1.
     bindM (arr_set (rg_dep_idx R1) idx md) (\<lambda>arr.
     ret (unlock_mod (R1\<lparr>sub_index := (sub_index R1)(md := idx), rg_dep_idx := arr\<rparr>)))))))"

definition mod_unregister :: "mod_reg \<Rightarrow> addr \<Rightarrow> (obj_mem, mod_reg) cprog" where
  "mod_unregister R md =
     (case rg_name_tab R of
        None \<Rightarrow> ret R
      | Some t \<Rightarrow>
          bindM (lock_mod R) (\<lambda>R1.
          bindM (dho_remove_obj t md) (\<lambda>t1.
          bindM (dho_remove_chain t1 md (m_id_link md)) (\<lambda>t2.
          let R2 = R1\<lparr>rg_name_tab := Some t2\<rparr> in
          if sub_index R2 md \<noteq> -1
          then seqM (assertM (sub_index R2 md < rg_dep_cnt R2))
              (bindM (arr_get (rg_dep_idx R2) (sub_index R2 md)) (\<lambda>cur.
               seqM (assertM (cur = md))
              (bindM (arr_set (rg_dep_idx R2) (sub_index R2 md) NULL) (\<lambda>arr.
               ret (unlock_mod (R2\<lparr>rg_dep_idx := arr\<rparr>))))))
          else ret (unlock_mod R2)))))"

subsection \<open>Lookup\<close>

definition mod_get_id :: "obj_mem alloc \<Rightarrow> addr \<Rightarrow> mod_reg \<Rightarrow> 32 word \<Rightarrow> (obj_mem, addr \<times> mod_reg) cprog" where
  "mod_get_id alloc loc R mid =
     (case rg_name_tab R of
        None \<Rightarrow> ret (NULL, R)
      | Some t \<Rightarrow> bindM (dho_lookup64 alloc loc t (ucast mid)) (\<lambda>r. ret (fst r, R\<lparr>rg_name_tab := Some (snd r)\<rparr>)))"

definition mod_get_name :: "obj_mem alloc \<Rightarrow> addr \<Rightarrow> mod_reg \<Rightarrow> addr \<Rightarrow> (obj_mem, addr \<times> mod_reg) cprog" where
  "mod_get_name alloc loc R name =
     (case rg_name_tab R of
        None \<Rightarrow> ret (NULL, R)
      | Some t \<Rightarrow> bindM (dho_lookup_str alloc loc t name) (\<lambda>r. ret (fst r, R\<lparr>rg_name_tab := Some (snd r)\<rparr>)))"

definition mod_get_index :: "mod_reg \<Rightarrow> int \<Rightarrow> (obj_mem, addr) cprog" where
  "mod_get_index R idx =
     seqM (assertM (idx < rg_dep_cnt R))
    (bindM (arr_get (rg_dep_idx R) idx) (\<lambda>m.
     seqM (assertM (m \<noteq> NULL))
    (seqM (assertM (sub_index R m = idx)) (ret m))))"

subsection \<open>Construction and destruction\<close>

fun register_all :: "mod_reg \<Rightarrow> addr list \<Rightarrow> (obj_mem, mod_reg) cprog" where
  "register_all R [] = ret R"
| "register_all R (m # ms) = bindM (mod_register R m) (\<lambda>R'. register_all R' ms)"

text \<open>\<open>idx\<close> and \<open>reg\<close> are the fields of the sub-modules before.\<close>

definition mod_ctor_subs :: "obj_mem alloc \<Rightarrow> (addr \<Rightarrow> int) \<Rightarrow> (addr \<Rightarrow> bool) \<Rightarrow> addr list \<Rightarrow> (obj_mem, mod_reg) cprog" where
  "mod_ctor_subs alloc idx reg subs =
     (let siz = int (length subs) * 2 in
      bindM (dho_ctor alloc (siz * 2)) (\<lambda>t.
      register_all \<lparr>rg_dep_cnt = 0, rg_dep_siz = siz, rg_dep_idx = Some (replicate (nat siz) NULL), rg_name_tab = Some t,
        rg_mod_mtx = False, sub_index = idx, sub_registered = reg\<rparr> subs))"

text \<open>The constructor that takes the size of the table.\<close>

definition mod_ctor_size :: "obj_mem alloc \<Rightarrow> (addr \<Rightarrow> int) \<Rightarrow> (addr \<Rightarrow> bool) \<Rightarrow> int \<Rightarrow> (obj_mem, mod_reg) cprog" where
  "mod_ctor_size alloc idx reg n =
     bindM (dho_ctor alloc n) (\<lambda>t.
     ret \<lparr>rg_dep_cnt = 0, rg_dep_siz = 0, rg_dep_idx = None, rg_name_tab = Some t, rg_mod_mtx = False, sub_index = idx, sub_registered = reg\<rparr>)"

definition mod_alloc_depmod :: "mod_reg \<Rightarrow> int \<Rightarrow> (obj_mem, mod_reg) cprog" where
  "mod_alloc_depmod R n =
     seqM (assertM (rg_dep_cnt R = 0 \<and> rg_dep_siz R = 0 \<and> rg_dep_idx R = None))
    (let siz = n * 2 in
     bindM (clear_places (Some (replicate (nat siz) NULL)) [0..siz]) (\<lambda>arr. ret (R\<lparr>rg_dep_siz := siz, rg_dep_idx := arr\<rparr>)))"

fun unregister_deps :: "mod_reg \<Rightarrow> int list \<Rightarrow> (obj_mem, mod_reg) cprog" where
  "unregister_deps R [] = ret R"
| "unregister_deps R (i # js) =
     bindM (arr_get (rg_dep_idx R) i) (\<lambda>m.
     bindM (mod_unregister R m) (\<lambda>R1.
     bindM (arr_set (rg_dep_idx R1) i NULL) (\<lambda>arr. unregister_deps (R1\<lparr>rg_dep_idx := arr\<rparr>) js)))"

end
