(* ===== verification/ModRegProps.thy ===== *)
theory ModRegProps
  imports ModReg LruProps DHashStrings CMachine
begin

text \<open>
  The registry of sub-modules as an instance of an abstract machine: a sequence of modules with
  holes where modules were removed, and the set of modules that were ever registered. The
  table holds two links for each module, one in the bucket of its name and one in the bucket
  of its id.
\<close>

subsection \<open>Links of two kinds\<close>

fun mod_h :: "nat \<Rightarrow> 8 word list + 64 word \<Rightarrow> nat" where
  "mod_h n (Inl w) = skv_h n w"
| "mod_h n (Inr k) = kv64_h n k"

lemma good_mod_h: "good_hash mod_h"
proof -
  have "mod_h n k < n" if "0 < n" for n k using good_skv_h good_kv64_h that by (cases k) (simp_all add: good_hash_def)
  then show ?thesis by (simp add: good_hash_def)
qed

definition mod_links :: "addr set \<Rightarrow> addr set" where
  "mod_links P = m_chain ` P \<union> m_id_link ` P"

definition links_apart :: "addr set \<Rightarrow> bool" where
  "links_apart P \<longleftrightarrow> m_chain ` P \<inter> m_id_link ` P = {}"

definition owner :: "addr set \<Rightarrow> addr \<Rightarrow> addr" where
  "owner P l = (if l \<in> m_id_link ` P then l - 48 else l - 8)"

definition mod_key :: "addr set \<Rightarrow> (addr \<Rightarrow> 64 word) \<Rightarrow> (addr \<Rightarrow> 8 word list) \<Rightarrow> addr \<Rightarrow> 8 word list + 64 word" where
  "mod_key P ids sk l = (if l \<in> m_id_link ` P then Inr (ids (owner P l)) else Inl (sk (owner P l)))"

lemma idlink_inj [simp]: "m_id_link x = m_id_link y \<longleftrightarrow> x = y" "m_id_link x \<noteq> NULL"
  by (simp_all add: m_id_link_def)

lemma link_names:
  assumes "links_apart P" and "x \<in> P"
  shows "m_chain x \<in> mod_links P" "m_id_link x \<in> mod_links P" "owner P (m_chain x) = x" "owner P (m_id_link x) = x"
    "mod_key P ids sk (m_chain x) = Inl (sk x)" "mod_key P ids sk (m_id_link x) = Inr (ids x)" "y \<in> P \<Longrightarrow> m_chain x \<noteq> m_id_link y"
proof -
  have n: "m_chain x \<notin> m_id_link ` P" using assms by (auto simp: links_apart_def)
  show "m_chain x \<in> mod_links P" "m_id_link x \<in> mod_links P" using assms(2) by (simp_all add: mod_links_def)
  show o: "owner P (m_chain x) = x" "owner P (m_id_link x) = x" using n assms(2) by (simp_all add: owner_def m_chain_def m_id_link_def)
  show "mod_key P ids sk (m_chain x) = Inl (sk x)" "mod_key P ids sk (m_id_link x) = Inr (ids x)" using n o assms(2) by (simp_all add: mod_key_def)
  show "m_chain x \<noteq> m_id_link y" if "y \<in> P" using n that by auto
qed

lemma link_cases:
  assumes "l \<in> mod_links P"
  obtains x where "x \<in> P" "l = m_chain x" | x where "x \<in> P" "l = m_id_link x"
  using assms by (auto simp: mod_links_def)

lemma owner_in: "links_apart P \<Longrightarrow> l \<in> mod_links P \<Longrightarrow> owner P l \<in> P"
  by (auto elim!: link_cases simp: link_names)

subsection \<open>The table\<close>

definition mod_objs :: "addr set \<Rightarrow> (addr \<Rightarrow> 64 word) \<Rightarrow> (addr \<Rightarrow> 8 word list) \<Rightarrow> obj_mem \<Rightarrow> bool" where
  "mod_objs P ids sk s \<longleftrightarrow> (\<forall>x \<in> P. x \<noteq> NULL \<and> o_key64 s x = Some (ids x) \<and> small_key (ids x)
     \<and> (\<exists>p. o_keystr s x = Some p \<and> cstr (o_chr s) p (sk x)))"

definition mod_tab :: "addr set \<Rightarrow> (addr \<Rightarrow> 64 word) \<Rightarrow> (addr \<Rightarrow> 8 word list) \<Rightarrow> obj_mem \<Rightarrow> obj_tab \<Rightarrow> addr list \<Rightarrow> bool" where
  "mod_tab P ids sk s t ls \<longleftrightarrow> hpart mod_h s t (mod_key P ids sk) ls \<and> set ls \<subseteq> mod_links P \<and> dh_hash_fn t = Some dh_hash_keystr
     \<and> (\<forall>l \<in> mod_links P. l \<notin> arr (dh_bucket t) (nat (dh_bk_size t)) \<and> is_dlink s l \<and> ol_ptr s l = Some (if l \<in> set ls then owner P l else NULL)
        \<and> (l \<notin> set ls \<longrightarrow> dl_next s l = Some l \<and> dl_prev s l = Some l))"

definition mod_static :: "obj_mem \<Rightarrow> obj_mem \<Rightarrow> bool" where
  "mod_static s s' \<longleftrightarrow> lru_static s s' \<and> o_chr s' = o_chr s"

lemma mod_static_refl [simp]: "mod_static s s"
  by (simp add: mod_static_def lru_static_def)

lemma mod_static_trans: "mod_static s s' \<Longrightarrow> mod_static s' s'' \<Longrightarrow> mod_static s s''"
  by (auto simp: mod_static_def intro: static_trans)

lemma mod_objs_static: "mod_static s s' \<Longrightarrow> mod_objs P ids sk s' = mod_objs P ids sk s"
  by (simp add: mod_static_def lru_static_def mod_objs_def)

lemma free_static: "mod_static s s' \<Longrightarrow> free_seed s' loc = free_seed s loc"
proof -
  assume "mod_static s s'"
  then have "dom (dl_next s') = dom (dl_next s)" "dom (dl_prev s') = dom (dl_prev s)" "dom (ol_ptr s') = dom (ol_ptr s)"
    "o_key64 s' = o_key64 s" "o_keystr s' = o_keystr s"
    by (simp_all add: mod_static_def lru_static_def)
  moreover from this have "(dl_next s' p = None) = (dl_next s p = None)" "(dl_prev s' p = None) = (dl_prev s p = None)"
    "(ol_ptr s' p = None) = (ol_ptr s p = None)" for p by (metis domIff)+
  ultimately show ?thesis by (simp add: free_seed_def)
qed

text \<open>A link of a module is entered: its pointer is set, then the link goes into the bucket of its
  key.\<close>

lemma mod_tab_put:
  assumes T: "mod_tab P ids sk s t ls" and l: "l \<in> mod_links P" "l \<notin> set ls"
    and s1: "s1 = s\<lparr>ol_ptr := (ol_ptr s)(l \<mapsto> owner P l)\<rparr>"
    and fn: "call_fn fn (dh_bk_size t) l s1 = Ret (int (mod_h (nat (dh_bk_size t)) (mod_key P ids sk l))) s1"
  shows "\<exists>i t' s'. dhash_insert_elm t l fn s1 = Ret (i, t') s' \<and> mod_tab P ids sk s' t' (ls @ [l]) \<and> mod_static s s'"
proof -
  note T' = T [unfolded mod_tab_def]
  have H: "hpart mod_h s t (mod_key P ids sk) ls" using T' by simp
  have H1: "hpart mod_h s1 t (mod_key P ids sk) ls"
    by (rule hpart_same [OF H]) (simp_all add: same_links_def s1)
  have e: "is_dlink s1 l" "l \<notin> hcells t ls" using T' l by (auto simp: s1 is_dlink_def hcells_def)
  obtain i s' where s': "dhash_insert_elm t l fn s1 = Ret (i, t\<lparr>dh_elm_cnt := dh_elm_cnt t + 1\<rparr>) s'"
      "hpart mod_h s' (t\<lparr>dh_elm_cnt := dh_elm_cnt t + 1\<rparr>) (mod_key P ids sk) (ls @ [l])" "same_objs s1 s'"
      "same_links (- insert l (hcells t ls)) s1 s'" "dom (dl_next s') = dom (dl_next s1)" "dom (dl_prev s') = dom (dl_prev s1)"
    using hpart_insert [OF H1 good_mod_h e fn] by metis
  have st: "mod_static s s'" using s'(3,5,6) T' l(1) by (auto simp: mod_static_def lru_static_def same_objs_def s1)
  have "is_dlink s' q = is_dlink s q" for q using s'(5,6) by (simp add: is_dlink_def s1)
  moreover have "dl_next s' q = Some q \<and> dl_prev s' q = Some q" if "q \<in> mod_links P" "q \<notin> set (ls @ [l])" for q
    using T' that s'(4) by (auto simp: same_links_def hcells_def s1)
  moreover have "ol_ptr s' = (ol_ptr s)(l \<mapsto> owner P l)" using s'(3) by (simp add: same_objs_def s1)
  ultimately have "mod_tab P ids sk s' (t\<lparr>dh_elm_cnt := dh_elm_cnt t + 1\<rparr>) (ls @ [l])"
    using T' s'(2) l unfolding mod_tab_def by simp
  then show ?thesis using s'(1) st by blast
qed

text \<open>Its removal: the link leaves the bucket, is initialised and its pointer reset.\<close>

text \<open>The links that removals may change: those of the table and of the modules.\<close>

definition same_area :: "addr set \<Rightarrow> obj_tab \<Rightarrow> obj_tab \<Rightarrow> obj_mem \<Rightarrow> obj_mem \<Rightarrow> bool" where
  "same_area P t t' s s' \<longleftrightarrow> dh_bucket t' = dh_bucket t \<and> dh_bk_size t' = dh_bk_size t
     \<and> same_links (- (arr (dh_bucket t) (nat (dh_bk_size t)) \<union> mod_links P)) s s'"

lemma same_area_trans: "same_area P t t' s s' \<Longrightarrow> same_area P t' t'' s' s'' \<Longrightarrow> same_area P t t'' s s''"
  by (auto simp: same_area_def same_links_def)

lemma mod_tab_take:
  assumes T: "mod_tab P ids sk s t (as @ l # cs)" and ap: "links_apart P"
  shows "\<exists>t' s'. dho_remove_chain t (owner P l) l s = Ret t' s' \<and> mod_tab P ids sk s' t' (as @ cs) \<and> mod_static s s' \<and> same_area P t t' s s'"
proof -
  note T' = T [unfolded mod_tab_def]
  have H: "hpart mod_h s t (mod_key P ids sk) (as @ l # cs)" using T' by simp
  let ?t = "t\<lparr>dh_elm_cnt := dh_elm_cnt t - 1\<rparr>"
  have l: "l \<in> mod_links P" "ol_ptr s l = Some (owner P l)" "is_dlink s l" using T' by auto
  obtain s1 where s1: "dhash_takeout_elm t l s = Ret ?t s1" "hpart mod_h s1 ?t (mod_key P ids sk) (as @ cs)" "same_objs s s1"
      "same_links (- hcells t (as @ l # cs)) s s1" "dom (dl_next s1) = dom (dl_next s)" "dom (dl_prev s1) = dom (dl_prev s)"
      "l \<notin> hcells t (as @ cs)"
    using hpart_takeout [OF H] by metis
  define s2 where "s2 = s1\<lparr>dl_next := (dl_next s1)(l \<mapsto> l), dl_prev := (dl_prev s1)(l \<mapsto> l), ol_ptr := (ol_ptr s1)(l \<mapsto> NULL)\<rparr>"
  have "is_dlink s1 l" using l(3) s1(5,6) by (simp add: is_dlink_def)
  then have run: "dho_remove_chain t (owner P l) l s = Ret ?t s2"
    using s1(1,3) l(2) by (auto simp: dho_remove_chain_def dlist_init_def is_dlink_def obj_deref_def dlist_empty_def same_objs_def s2_def c_eval)
  have part: "hpart mod_h s2 ?t (mod_key P ids sk) (as @ cs)"
    by (rule hpart_same [OF s1(2)]) (use s1(7) in \<open>auto simp: same_links_def s2_def hcells_def\<close>)
  have st: "mod_static s s2" using s1(3,5,6) l by (auto simp: mod_static_def lru_static_def same_objs_def s2_def is_dlink_def)
  have dl: "is_dlink s2 q" if "is_dlink s q" for q using that s1(5,6) by (simp add: is_dlink_def s2_def)
  have lp: "l \<notin> set (as @ cs)" using s1(7) by (simp add: hcells_def)
  have "hcells t (as @ l # cs) \<subseteq> arr (dh_bucket t) (nat (dh_bk_size t)) \<union> mod_links P" using T' by (auto simp: hcells_def)
  then have area: "same_area P t ?t s s2" using s1(4) l(1) by (auto simp: same_area_def same_links_def s2_def)
  have "mod_tab P ids sk s2 ?t (as @ cs)" unfolding mod_tab_def
  proof (intro conjI ballI impI)
    show "hpart mod_h s2 ?t (mod_key P ids sk) (as @ cs)" by (rule part)
    fix q assume q: "q \<in> mod_links P"
    show "q \<notin> arr (dh_bucket ?t) (nat (dh_bk_size ?t))" "is_dlink s2 q" using q T' dl by simp_all
    show "ol_ptr s2 q = Some (if q \<in> set (as @ cs) then owner P q else NULL)"
      using q T' s1(3) lp by (auto simp: same_objs_def s2_def)
    assume n: "q \<notin> set (as @ cs)"
    show "dl_next s2 q = Some q" "dl_prev s2 q = Some q"
      using n q T' s1(4) by (auto simp: same_links_def hcells_def s2_def)
  qed (use T' in auto)
  then show ?thesis using run st area by blast
qed

subsection \<open>Search\<close>

text \<open>A search with a comparison that accepts links (\<open>acc\<close>) of several keys.\<close>

lemma hpart_search:
  assumes H: "hpart h s H key ls" and h: "good_hash h" and n: "length ls < 32"
    and fn: "call_fn fn (dh_bk_size H) p s = Ret (int (h (nat (dh_bk_size H)) k)) s"
    and cmp: "\<forall>x \<in> set ls. \<exists>c. call_fn cmp x p s = Ret c s \<and> (c = 0 \<longleftrightarrow> acc x)"
  shows "\<exists>r c. dhash_find_elm alloc H p fn cmp s = Ret (or_NULL r, H\<lparr>dh_max_chain := c\<rparr>) s
    \<and> (case r of None \<Rightarrow> \<forall>x \<in> set ls. acc x \<longrightarrow> key x \<noteq> k | Some x \<Rightarrow> x \<in> set ls \<and> acc x)"
proof -
  obtain bs where bs: "rings s (dh_bucket H) bs" "dh_bk_size H = int (length bs)" "bs \<noteq> []" "hashed h key bs" "mset (concat bs) = mset ls"
    using hpartE [OF H] by metis
  let ?i = "h (length bs) k" and ?b = "dh_bucket H + h (length bs) k"
  have i: "?i < length bs" using bs(3) h by (simp add: good_hash_def)
  have ri: "dlist_rep s ?b ([] @ bs ! ?i)" using ringsD(1) [OF bs(1) i] by simp
  have els: "set (concat bs) = set ls" using bs(5) by (metis set_mset_mset)
  have sub: "set (bs ! ?i) \<subseteq> set ls" using els i nth_mem by auto
  have "length (bs ! ?i) \<le> length (concat bs)" unfolding length_concat using i by (intro member_le_sum_list) auto
  then have len: "length (bs ! ?i) \<le> length ls" using mset_eq_length [OF bs(5)] by simp
  have "\<forall>x \<in> set (bs ! ?i). \<exists>c. call_fn cmp x p s = Ret c s \<and> (c = 0 \<longleftrightarrow> acc x = True)" using cmp sub by auto
  then obtain c where c: "dhash_find_loop ?b p cmp (after ?b (bs ! ?i)) 0 s = Ret (or_NULL (find (\<lambda>x. acc x = True) (bs ! ?i)), c) s" "c \<le> int (length (bs ! ?i))"
    using find_loop_reads [OF ri, of cmp p acc True 0] by auto
  from c(1) have c1: "dhash_find_loop ?b p cmp (after ?b (bs ! ?i)) 0 s = Ret (or_NULL (find acc (bs ! ?i)), c) s" by simp
  from c(2) have "c < 32" using len n by linarith
  then have run: "dhash_find_elm alloc H p fn cmp s =
      Ret (or_NULL (find acc (bs ! ?i)), H\<lparr>dh_max_chain := (if dh_max_chain H > c then dh_max_chain H else c)\<rparr>) s"
    using c1 i bs(2) fn ring_head(1) [OF ri] by (simp add: dhash_find_elm_def dlist_iter_init_def c_eval Let_def)
  have "case find acc (bs ! ?i) of None \<Rightarrow> \<forall>x \<in> set ls. acc x \<longrightarrow> key x \<noteq> k | Some x \<Rightarrow> x \<in> set ls \<and> acc x"
  proof (cases "find acc (bs ! ?i)")
    case None
    have "x \<in> set (bs ! ?i)" if "x \<in> set ls" "key x = k" for x
    proof -
      obtain j where "j < length bs" "x \<in> set (bs ! j)" using \<open>x \<in> set ls\<close> els by (metis UN_E in_set_conv_nth set_concat)
      then show ?thesis using bs(4) \<open>key x = k\<close> by (auto simp: hashed_def)
    qed
    then have "\<forall>x \<in> set ls. acc x \<longrightarrow> key x \<noteq> k" using None by (auto simp: find_None_iff)
    then show ?thesis by (simp only: None option.case)
  next
    case (Some x)
    then have "x \<in> set (bs ! ?i)" "acc x" by (auto simp: find_Some_iff)
    then have "x \<in> set ls \<and> acc x" using sub by auto
    then show ?thesis by (simp only: Some option.case)
  qed
  with run show ?thesis by blast
qed

lemma mod_tab_seeded:
  assumes T: "mod_tab P ids sk s t ls" and f: "free_seed s loc"
    and s': "\<forall>q. q \<noteq> m_chain loc \<longrightarrow> dl_next s' q = dl_next s q \<and> dl_prev s' q = dl_prev s q"
  shows "hpart mod_h s' t (mod_key P ids sk) ls"
proof -
  have H: "hpart mod_h s t (mod_key P ids sk) ls" using T by (simp add: mod_tab_def)
  have "m_chain loc \<notin> hcells t ls" using hpart_cell [OF H, of "m_chain loc"] f by (auto simp: is_dlink_def free_seed_def)
  then have "same_links (hcells t ls) s s'" using s' by (metis same_links_def)
  then show ?thesis by (rule hpart_same [OF H]) simp
qed

text \<open>The pointers a search finds in memory with its key on the stack.\<close>

lemma mod_tab_reads:
  assumes T: "mod_tab P ids sk s t ls" and ob: "mod_objs P ids sk s" and ap: "links_apart P" and f: "free_seed s loc"
    and names: "\<forall>x \<in> P. m_id_link x \<in> set ls \<longrightarrow> m_chain x \<in> set ls" and l: "l \<in> set ls"
  shows "owner P l \<in> P" "owner P l \<noteq> loc" "owner P l \<noteq> NULL" "ol_ptr s l = Some (owner P l)" "l \<noteq> m_chain loc"
    "ol_ptr s (m_chain (owner P l)) = Some (owner P l)" "m_chain (owner P l) \<in> set ls"
proof -
  note T' = T [unfolded mod_tab_def]
  have L: "l \<in> mod_links P" using T' l by auto
  show P: "owner P l \<in> P" by (rule owner_in [OF ap L])
  show "owner P l \<noteq> NULL" "owner P l \<noteq> loc" using ob P f by (auto simp: mod_objs_def free_seed_def)
  show "ol_ptr s l = Some (owner P l)" using T' l L by auto
  then show "l \<noteq> m_chain loc" using f by (auto simp: free_seed_def)
  show c: "m_chain (owner P l) \<in> set ls" using L
  proof (cases rule: link_cases)
    case (1 x)
    then show ?thesis using l link_names [OF ap, of x] by auto
  next
    case (2 x)
    then show ?thesis using l link_names [OF ap, of x] names by auto
  qed
  show "ol_ptr s (m_chain (owner P l)) = Some (owner P l)"
    using T' c link_names [OF ap P] by auto
qed

lemma mod_search:
  assumes T: "mod_tab P ids sk s t (map m_chain xs @ map m_id_link xs)" and ob: "mod_objs P ids sk s" and ap: "links_apart P" and f: "free_seed s loc"
    and sub: "set xs \<subseteq> P" and dx: "distinct xs" and n: "length xs < 16" and inj: "inj_on val P"
    and H: "hpart mod_h s' t (mod_key P ids sk) (map m_chain xs @ map m_id_link xs)"
    and ol: "\<forall>q. q \<noteq> m_chain loc \<longrightarrow> ol_ptr s' q = ol_ptr s q"
    and fn: "call_fn fn (dh_bk_size t) p s' = Ret (int (mod_h (nat (dh_bk_size t)) k)) s'"
    and cmp: "\<And>l x. l \<in> mod_links P \<Longrightarrow> l \<noteq> m_chain loc \<Longrightarrow> x \<in> P \<Longrightarrow> x \<noteq> loc \<Longrightarrow> ol_ptr s l = Some x \<Longrightarrow> ol_ptr s (m_chain x) = Some x
      \<Longrightarrow> \<exists>c. call_fn cmp l p s' = Ret c s' \<and> (c = 0 \<longleftrightarrow> val x = v)"
    and key: "\<And>x. x \<in> P \<Longrightarrow> val x = v \<Longrightarrow> mod_key P ids sk (m_chain x) = k \<or> mod_key P ids sk (m_id_link x) = k"
  shows "\<exists>r c. dhash_find_elm alloc t p fn cmp s' = Ret r s' \<and> dho_found r s' = Ret (or_NULL (key_map val xs v), t\<lparr>dh_max_chain := c\<rparr>) s'"
proof -
  let ?ls = "map m_chain xs @ map m_id_link xs"
  have names: "\<forall>x \<in> P. m_id_link x \<in> set ?ls \<longrightarrow> m_chain x \<in> set ?ls"
  proof (intro ballI impI)
    fix x assume x: "x \<in> P" "m_id_link x \<in> set ?ls"
    have "m_id_link x \<noteq> m_chain y" if "y \<in> set xs" for y using link_names(7) [OF ap, of y x] sub that x(1) by auto
    with x(2) show "m_chain x \<in> set ?ls" by auto
  qed
  have chain_in: "m_chain x \<in> set ?ls \<longleftrightarrow> x \<in> set xs" if "x \<in> P" for x
  proof -
    have "m_chain x \<noteq> m_id_link y" if "y \<in> set xs" for y using link_names(7) [OF ap \<open>x \<in> P\<close>, of y] sub that by auto
    then show ?thesis by auto
  qed
  note R = mod_tab_reads [OF T ob ap f names]
  have L: "set ?ls \<subseteq> mod_links P" using T by (simp only: mod_tab_def)
  have c2: "\<forall>l \<in> set ?ls. \<exists>c. call_fn cmp l p s' = Ret c s' \<and> (c = 0 \<longleftrightarrow> val (owner P l) = v)"
  proof
    fix l assume l: "l \<in> set ?ls"
    show "\<exists>c. call_fn cmp l p s' = Ret c s' \<and> (c = 0 \<longleftrightarrow> val (owner P l) = v)"
      using cmp [OF subsetD [OF L l] R(5,1,2,4,6) [OF l]] .
  qed
  have n2: "length ?ls < 32" using n by simp
  obtain r c where r: "dhash_find_elm alloc t p fn cmp s' = Ret (or_NULL r, t\<lparr>dh_max_chain := c\<rparr>) s'"
      "case r of None \<Rightarrow> \<forall>l \<in> set ?ls. val (owner P l) = v \<longrightarrow> mod_key P ids sk l \<noteq> k | Some l \<Rightarrow> l \<in> set ?ls \<and> val (owner P l) = v"
    using hpart_search [where acc = "\<lambda>l. val (owner P l) = v" and alloc = alloc, OF H good_mod_h n2 fn c2] by blast
  have d: "distinct (map val xs)" using dx inj sub by (simp add: distinct_map inj_on_subset)
  show ?thesis
  proof (cases r)
    case None
    then have no: "val (owner P l) = v \<Longrightarrow> mod_key P ids sk l \<noteq> k" if "l \<in> set ?ls" for l using r(2) that by simp
    have "val x \<noteq> v" if x: "x \<in> set xs" for x
    proof -
      have xP: "x \<in> P" using sub x by blast
      have "m_chain x \<in> set ?ls" "m_id_link x \<in> set ?ls" using x by simp_all
      then show ?thesis using no [of "m_chain x"] no [of "m_id_link x"] key [OF xP] link_names(3,4) [OF ap xP] by auto
    qed
    then have "key_map val xs v = None" by (auto simp: key_map_None)
    then show ?thesis using r(1) None by (auto simp: dho_found_def c_eval)
  next
    case (Some l)
    then have l: "l \<in> set ?ls" "val (owner P l) = v" using r(2) by auto
    have o2: "ol_ptr s' l = Some (owner P l)" "l \<noteq> NULL" using R(4,5) [OF l(1)] ol l(1) by (auto simp: m_chain_def m_id_link_def)
    have x: "owner P l \<in> set xs" using R(7) [OF l(1)] chain_in [OF R(1) [OF l(1)]] by simp
    have "key_map val xs v = Some (owner P l)" using x l(2) key_map_Some [OF d] by simp
    then show ?thesis using r(1) Some o2 by (auto simp: dho_found_def obj_ptr_def c_eval)
  qed
qed

lemma mod_find_id:
  assumes T: "mod_tab P ids sk s t (map m_chain xs @ map m_id_link xs)" and ob: "mod_objs P ids sk s" and ap: "links_apart P" and f: "free_seed s loc"
    and sub: "set xs \<subseteq> P" and dx: "distinct xs" and n: "length xs < 16" and inj: "inj_on ids P" and k: "small_key k"
  shows "\<exists>c. dho_lookup64 alloc loc t k s = Ret (or_NULL (key_map ids xs k), t\<lparr>dh_max_chain := c\<rparr>) s"
proof -
  let ?s = "seeded s loc k"
  have H: "hpart mod_h ?s t (mod_key P ids sk) (map m_chain xs @ map m_id_link xs)"
    by (rule mod_tab_seeded [OF T f]) (simp add: seeded_def)
  have fn: "call_fn (Some dh_hash_key64) (dh_bk_size t) (m_chain loc) ?s = Ret (int (mod_h (nat (dh_bk_size t)) (Inr k))) ?s"
    using hpart_size [OF H] hash_word(1) [of "dh_bk_size t"] hash_word(2) [of "dh_bk_size t" k] f
    by (simp add: call_fn_def dh_hash_key64_def own_link_def obj_ptr_def obj_hash64_def seeded_def free_seed_def c_eval)
  have ol: "\<forall>q. q \<noteq> m_chain loc \<longrightarrow> ol_ptr ?s q = ol_ptr s q" by (simp add: seeded_def)
  have cmp: "\<exists>c. call_fn (Some dh_hash_cmp_key64) l (m_chain loc) ?s = Ret c ?s \<and> (c = 0 \<longleftrightarrow> ids x = k)"
    if "l \<noteq> m_chain loc" "x \<in> P" "x \<noteq> loc" "ol_ptr s l = Some x" "ol_ptr s (m_chain x) = Some x" for l x
  proof -
    have "o_key64 s x = Some (ids x)" "small_key (ids x)" "x \<noteq> NULL" using ob that(2) by (auto simp: mod_objs_def)
    then show ?thesis
      using f that cmp_small [OF _ k, of "ids x"]
      by (auto simp: call_fn_def dh_hash_cmp_key64_def own_link_def obj_ptr_def obj_compare64_def seeded_def free_seed_def c_eval)
  qed
  have key: "mod_key P ids sk (m_chain x) = Inr k \<or> mod_key P ids sk (m_id_link x) = Inr k" if "x \<in> P" "ids x = k" for x
    using link_names(6) [OF ap that(1)] that(2) by simp
  obtain r c where "dhash_find_elm alloc t (m_chain loc) (Some dh_hash_key64) (Some dh_hash_cmp_key64) ?s = Ret r ?s"
      "dho_found r ?s = Ret (or_NULL (key_map ids xs k), t\<lparr>dh_max_chain := c\<rparr>) ?s"
    using mod_search [where alloc = alloc, OF T ob ap f sub dx n inj H ol fn cmp key] by blast
  then show ?thesis using pop_seed_run [OF f] by (auto simp: dho_lookup64_def push_seed_run c_eval)
qed

lemma mod_find_name:
  assumes T: "mod_tab P ids sk s t (map m_chain xs @ map m_id_link xs)" and ob: "mod_objs P ids sk s" and ap: "links_apart P" and f: "free_seed s loc"
    and sub: "set xs \<subseteq> P" and dx: "distinct xs" and n: "length xs < 16" and inj: "inj_on sk P" and w: "cstr (o_chr s) q w"
  shows "\<exists>c. dho_lookup_str alloc loc t q s = Ret (or_NULL (key_map sk xs w), t\<lparr>dh_max_chain := c\<rparr>) s"
proof -
  let ?s = "seeded_str s loc q"
  have H: "hpart mod_h ?s t (mod_key P ids sk) (map m_chain xs @ map m_id_link xs)"
    by (rule mod_tab_seeded [OF T f]) (simp add: seeded_str_def)
  have oc: "o_chr ?s = o_chr s" by (simp add: seeded_str_def)
  have "obj_hash_strfn o_chr (dh_bk_size t) q ?s = Ret (int (skv_h (nat (dh_bk_size t)) w)) ?s"
    using hash_strfn_run [where mem = o_chr and s = ?s, of q w "dh_bk_size t"] w hpart_size [OF H] by (simp add: oc)
  then have fn: "call_fn (Some dh_hash_keystr) (dh_bk_size t) (m_chain loc) ?s = Ret (int (mod_h (nat (dh_bk_size t)) (Inl w))) ?s"
    using f by (simp add: call_fn_def dh_hash_keystr_def own_link_def obj_ptr_def obj_hash_str_def seeded_str_def free_seed_def c_eval)
  have ol: "\<forall>q. q \<noteq> m_chain loc \<longrightarrow> ol_ptr ?s q = ol_ptr s q" by (simp add: seeded_str_def)
  have cmp: "\<exists>c. call_fn (Some dh_hash_cmp_keystr) l (m_chain loc) ?s = Ret c ?s \<and> (c = 0 \<longleftrightarrow> sk x = w)"
    if l: "l \<noteq> m_chain loc" "x \<in> P" "x \<noteq> loc" "ol_ptr s l = Some x" "ol_ptr s (m_chain x) = Some x" for l x
  proof -
    obtain p where p: "o_keystr s x = Some p" "cstr (o_chr s) p (sk x)" "x \<noteq> NULL" using ob l(2) by (auto simp: mod_objs_def)
    obtain c where c: "c_strcmp o_chr p q ?s = Ret c ?s" "(c = 0) = (sk x = w)"
      using strcmp_run [where mem = o_chr and s = ?s, of p "sk x" q w] p(2) w by (auto simp: oc)
    have "call_fn (Some dh_hash_cmp_keystr) l (m_chain loc) ?s = c_strcmp o_chr p q ?s"
      using p l f by (simp add: call_fn_def dh_hash_cmp_keystr_def own_link_def obj_ptr_def obj_compare_str_def seeded_str_def free_seed_def c_eval)
    then show ?thesis using c by simp
  qed
  have key: "mod_key P ids sk (m_chain x) = Inl w \<or> mod_key P ids sk (m_id_link x) = Inl w" if "x \<in> P" "sk x = w" for x
    using link_names(5) [OF ap that(1)] that(2) by simp
  obtain r c where "dhash_find_elm alloc t (m_chain loc) (Some dh_hash_keystr) (Some dh_hash_cmp_keystr) ?s = Ret r ?s"
      "dho_found r ?s = Ret (or_NULL (key_map sk xs w), t\<lparr>dh_max_chain := c\<rparr>) ?s"
    using mod_search [where alloc = alloc, OF T ob ap f sub dx n inj H ol fn cmp key] by blast
  then show ?thesis using pop_seed_str_run [OF f] by (auto simp: dho_lookup_str_def push_seed_str_run c_eval)
qed

subsection \<open>The abstract registry\<close>

datatype mod_cmd = M_register addr | M_unregister addr | M_get_id "32 word" | M_get_name addr "8 word list" | M_get_index int

datatype mod_res = M_unit | M_mod addr

definition live :: "addr list \<Rightarrow> addr list" where
  "live sl = filter (\<lambda>x. x \<noteq> NULL) sl"

definition drop_mod :: "addr \<Rightarrow> addr list \<Rightarrow> addr list" where
  "drop_mod x sl = map (\<lambda>y. if y = x then NULL else y) sl"

fun mod_spec :: "(addr \<Rightarrow> 64 word) \<Rightarrow> (addr \<Rightarrow> 8 word list) \<Rightarrow> mod_cmd \<Rightarrow> addr list \<times> addr set \<Rightarrow> (mod_res \<times> addr list \<times> addr set) option" where
  "mod_spec ids sk (M_register x) (sl, reg) = Some (M_unit, if x \<in> reg then (sl, reg) else (sl @ [x], insert x reg))"
| "mod_spec ids sk (M_unregister x) (sl, reg) = (if x \<in> set (live sl) then Some (M_unit, drop_mod x sl, reg) else None)"
| "mod_spec ids sk (M_get_id k) (sl, reg) = Some (M_mod (or_NULL (key_map ids (live sl) (ucast k))), sl, reg)"
| "mod_spec ids sk (M_get_name p w) (sl, reg) = Some (M_mod (or_NULL (key_map sk (live sl) w)), sl, reg)"
| "mod_spec ids sk (M_get_index i) (sl, reg) =
     (if i < int (length sl) \<and> sl ! nat i \<noteq> NULL then Some (M_mod (sl ! nat i), sl, reg) else None)"

fun mod_exec_cmd :: "obj_mem alloc \<Rightarrow> addr \<Rightarrow> mod_cmd \<Rightarrow> mod_reg \<Rightarrow> (obj_mem, mod_res \<times> mod_reg) cprog" where
  "mod_exec_cmd alloc loc (M_register x) R = bindM (mod_register R x) (\<lambda>R'. ret (M_unit, R'))"
| "mod_exec_cmd alloc loc (M_unregister x) R = bindM (mod_unregister R x) (\<lambda>R'. ret (M_unit, R'))"
| "mod_exec_cmd alloc loc (M_get_id k) R = bindM (mod_get_id alloc loc R k) (\<lambda>r. ret (M_mod (fst r), snd r))"
| "mod_exec_cmd alloc loc (M_get_name p w) R = bindM (mod_get_name alloc loc R p) (\<lambda>r. ret (M_mod (fst r), snd r))"
| "mod_exec_cmd alloc loc (M_get_index i) R = bindM (mod_get_index R i) (\<lambda>x. ret (M_mod x, R))"

text \<open>A module given to a routine is of the pool; the pointer of a name is that of its string.\<close>

fun mod_valid :: "addr set \<Rightarrow> (addr \<rightharpoonup> 8 word) \<Rightarrow> mod_cmd \<Rightarrow> bool" where
  "mod_valid P ch (M_register x) \<longleftrightarrow> x \<in> P"
| "mod_valid P ch (M_unregister x) \<longleftrightarrow> x = NULL \<or> x \<in> P"
| "mod_valid P ch (M_get_id k) \<longleftrightarrow> True"
| "mod_valid P ch (M_get_name p w) \<longleftrightarrow> cstr ch p w"
| "mod_valid P ch (M_get_index i) \<longleftrightarrow> 0 \<le> i"

definition mod_pool :: "addr set \<Rightarrow> (addr \<Rightarrow> 64 word) \<Rightarrow> (addr \<Rightarrow> 8 word list) \<Rightarrow> bool" where
  "mod_pool P ids sk \<longleftrightarrow> finite P \<and> card P < 16 \<and> links_apart P \<and> inj_on ids P \<and> inj_on sk P"

definition mod_arr :: "mod_reg \<Rightarrow> addr list \<Rightarrow> bool" where
  "mod_arr R sl \<longleftrightarrow> \<not> rg_mod_mtx R \<and> rg_dep_cnt R = int (length sl) \<and> int (length sl) < rg_dep_siz R \<and> 2 \<le> rg_dep_siz R
     \<and> rg_dep_idx R = Some (sl @ replicate (nat (rg_dep_siz R) - length sl) NULL)
     \<and> (\<forall>i < length sl. sl ! i \<noteq> NULL \<longrightarrow> sub_index R (sl ! i) = int i)"

definition mod_rep :: "addr set \<Rightarrow> (addr \<Rightarrow> 64 word) \<Rightarrow> (addr \<Rightarrow> 8 word list) \<Rightarrow> (addr \<rightharpoonup> 8 word)
    \<Rightarrow> obj_mem \<Rightarrow> mod_reg \<Rightarrow> addr list \<times> addr set \<Rightarrow> bool" where
  "mod_rep P ids sk ch s R x \<longleftrightarrow> (\<exists>t. rg_name_tab R = Some t \<and> mod_tab P ids sk s t (map m_chain (live (fst x)) @ map m_id_link (live (fst x))))
     \<and> mod_pool P ids sk \<and> mod_objs P ids sk s \<and> o_chr s = ch \<and> mod_arr R (fst x)
     \<and> distinct (live (fst x)) \<and> set (live (fst x)) \<subseteq> snd x \<and> snd x \<subseteq> P \<and> (\<forall>y \<in> P. sub_registered R y \<longleftrightarrow> y \<in> snd x)"

lemma live_few:
  assumes "mod_rep P ids sk ch s R (sl, reg)"
  shows "length (live sl) < 16" "set (live sl) \<subseteq> P"
proof -
  show sub: "set (live sl) \<subseteq> P" using assms by (auto simp: mod_rep_def)
  have "finite P" "card P < 16" "distinct (live sl)" using assms by (auto simp: mod_rep_def mod_pool_def)
  with sub show "length (live sl) < 16" by (metis card_mono distinct_card le_less_trans)
qed

lemma mod_tab_perm: "mod_tab P ids sk s t ls \<Longrightarrow> mset ls' = mset ls \<Longrightarrow> mod_tab P ids sk s t ls'"
  using hpart_perm mset_eq_setD unfolding mod_tab_def by metis

lemma mod_tab_chain: "mod_tab P ids sk s (t\<lparr>dh_max_chain := c\<rparr>) ls = mod_tab P ids sk s t ls"
  by (simp add: mod_tab_def hpart_table)

text \<open>The array.\<close>

lemma arr_push:
  assumes "mod_arr R sl" and "x \<notin> set (live sl)"
  shows "\<exists>R2 arr. grow_deps (R\<lparr>rg_name_tab := t\<rparr>) s = Ret R2 s \<and> arr_set (rg_dep_idx R2) (rg_dep_cnt R2) x s = Ret arr s
    \<and> rg_name_tab R2 = t \<and> sub_registered R2 = sub_registered R \<and> sub_index R2 = sub_index R \<and> rg_mod_mtx R2 = rg_mod_mtx R
    \<and> mod_arr (R2\<lparr>sub_index := (sub_index R2)(x := rg_dep_cnt R2), rg_dep_idx := arr, rg_dep_cnt := rg_dep_cnt R2 + 1\<rparr>) (sl @ [x])"
proof -
  let ?n = "length sl"
  have idx: "\<forall>i < length (sl @ [x]). (sl @ [x]) ! i \<noteq> NULL \<longrightarrow> ((sub_index R)(x := int ?n)) ((sl @ [x]) ! i) = int i"
  proof (intro allI impI)
    fix i assume i: "i < length (sl @ [x])" "(sl @ [x]) ! i \<noteq> NULL"
    show "((sub_index R)(x := int ?n)) ((sl @ [x]) ! i) = int i"
    proof (cases "i = ?n")
      case False
      then have "i < ?n" using i(1) by simp
      then have "sl ! i \<noteq> NULL" "sl ! i \<in> set (live sl)" using i(2) by (simp_all add: nth_append live_def)
      then show ?thesis using assms \<open>i < ?n\<close> by (auto simp: mod_arr_def nth_append)
    qed simp
  qed
  have up: "(sl @ replicate m NULL)[?n := x] = (sl @ [x]) @ replicate (m - 1) NULL" if "0 < m" for m
    using that by (cases m) (simp_all add: list_update_append)
  show ?thesis
  proof (cases "rg_dep_cnt R + 1 = rg_dep_siz R")
    case True
    then have m: "nat (rg_dep_siz R * 2) - ?n > 0" "nat (rg_dep_siz R * 2) - ?n - 1 = nat (rg_dep_siz R * 2) - Suc ?n"
      using assms(1) by (auto simp: mod_arr_def)
    show ?thesis
      using True assms(1) idx m up [OF m(1)]
      by (auto simp: mod_arr_def grow_deps_def arr_set_def c_eval Let_def)
  next
    case False
    then have m: "nat (rg_dep_siz R) - ?n > 0" "nat (rg_dep_siz R) - ?n - 1 = nat (rg_dep_siz R) - Suc ?n"
      using assms(1) by (auto simp: mod_arr_def)
    show ?thesis
      using False assms(1) idx m up [OF m(1)]
      by (auto simp: mod_arr_def grow_deps_def arr_set_def c_eval Let_def)
  qed
qed

subsection \<open>Registration and removal\<close>

lemma both_links_put:
  assumes T: "mod_tab P ids sk s t (map m_chain xs @ map m_id_link xs)" and ob: "mod_objs P ids sk s" and ap: "links_apart P"
    and x: "x \<in> P" "x \<notin> set xs" "set xs \<subseteq> P"
    and hd: "\<And>n s2. ol_ptr s2 (m_chain x) = Some x \<Longrightarrow> o_key64 s2 x = Some (ids x) \<Longrightarrow> hash_dlink x n (m_chain x) s2 = obj_hash64 n (ids x) s2"
  shows "\<exists>i1 t1 s1 i2 t2 s2. dho_insert_keystr t x s = Ret (i1, t1) s1 \<and> dho_insert_chain_with hash_dlink t1 x (m_id_link x) s1 = Ret (i2, t2) s2
    \<and> mod_tab P ids sk s2 t2 (map m_chain (xs @ [x]) @ map m_id_link (xs @ [x])) \<and> mod_static s s2 \<and> mod_static s s1"
proof -
  let ?ls = "map m_chain xs @ map m_id_link xs" and ?s = "s\<lparr>ol_ptr := (ol_ptr s)(m_chain x \<mapsto> x)\<rparr>"
  note N = link_names [OF ap x(1)]
  have ne: "m_chain x \<noteq> m_id_link y" "m_id_link x \<noteq> m_chain y" if "y \<in> set xs" for y
    using link_names(7) [OF ap x(1), of y] link_names(7) [OF ap, of y x] that x by auto
  have nin: "m_chain x \<notin> set ?ls" "m_id_link x \<notin> set (?ls @ [m_chain x])" using ne x(2) N(7) [OF x(1)] by auto
  have o: "x \<noteq> NULL" "o_key64 s x = Some (ids x)" using ob x(1) by (auto simp: mod_objs_def)
  obtain p where p: "o_keystr s x = Some p" "cstr (o_chr s) p (sk x)" using ob x(1) by (auto simp: mod_objs_def)
  have sz: "0 < dh_bk_size t" "dh_bk_size t < 2 ^ 31" using hpart_size [of mod_h s t] T by (auto simp: mod_tab_def)
  have t: "dh_hash_fn t = Some dh_hash_keystr" "ol_ptr s (m_chain x) = Some NULL" using T N(1) nin(1) by (auto simp: mod_tab_def)
  have "obj_hash_strfn o_chr (dh_bk_size t) p ?s = Ret (int (skv_h (nat (dh_bk_size t)) (sk x))) ?s"
    using hash_strfn_run [where mem = o_chr and s = ?s, of p "sk x" "dh_bk_size t"] p sz by simp
  then have fn1: "call_fn (dh_hash_fn t) (dh_bk_size t) (m_chain x) ?s = Ret (int (mod_h (nat (dh_bk_size t)) (mod_key P ids sk (m_chain x)))) ?s"
    using t o p N(5) by (simp add: call_fn_def dh_hash_keystr_def own_link_def obj_ptr_def obj_hash_str_def c_eval)
  obtain i1 t1 s1 where s1: "dhash_insert_elm t (m_chain x) (dh_hash_fn t) ?s = Ret (i1, t1) s1" "mod_tab P ids sk s1 t1 (?ls @ [m_chain x])" "mod_static s s1"
    using mod_tab_put [OF T N(1) nin(1) _ fn1] N(3) by auto
  have r1: "dho_insert_keystr t x s = Ret (i1, t1) s1" using s1(1) t(2) by (simp add: dho_insert_keystr_def dhash_insert_def c_eval)
  let ?s1 = "s1\<lparr>ol_ptr := (ol_ptr s1)(m_id_link x \<mapsto> x)\<rparr>"
  have sz1: "0 < dh_bk_size t1" "dh_bk_size t1 < 2 ^ 31" using hpart_size [of mod_h s1 t1] s1(2) by (auto simp: mod_tab_def)
  have l: "ol_ptr s1 (m_id_link x) = Some NULL" "dl_next s1 (m_id_link x) = Some (m_id_link x)" "dl_prev s1 (m_id_link x) = Some (m_id_link x)"
      "ol_ptr s1 (m_chain x) = Some x" "o_key64 s1 x = Some (ids x)"
    using s1(2,3) N(1-3) nin(2) o by (auto simp: mod_tab_def mod_static_def lru_static_def)
  have fn2: "call_fn (Some (dh_hash_chain_with hash_dlink)) (dh_bk_size t1) (m_id_link x) ?s1
      = Ret (int (mod_h (nat (dh_bk_size t1)) (mod_key P ids sk (m_id_link x)))) ?s1"
    using l o N(6) N(7) [OF x(1)] sz1 hash_word(1) [of "dh_bk_size t1"] hash_word(2) [of "dh_bk_size t1" "ids x"]
    by (simp add: call_fn_def dh_hash_chain_with_def hd obj_ptr_def obj_hash64_def c_eval)
  obtain i2 t2 s2 where s2: "dhash_insert_elm t1 (m_id_link x) (Some (dh_hash_chain_with hash_dlink)) ?s1 = Ret (i2, t2) s2"
      "mod_tab P ids sk s2 t2 ((?ls @ [m_chain x]) @ [m_id_link x])" "mod_static s1 s2"
    using mod_tab_put [OF s1(2) N(2) nin(2) _ fn2] N(4) by auto
  have r2: "dho_insert_chain_with hash_dlink t1 x (m_id_link x) s1 = Ret (i2, t2) s2"
    using s2(1) l o by (simp add: dho_insert_chain_with_def obj_ref_def empty_with_def dlist_empty_def c_eval)
  have "mod_tab P ids sk s2 t2 (map m_chain (xs @ [x]) @ map m_id_link (xs @ [x]))" by (rule mod_tab_perm [OF s2(2)]) simp
  then show ?thesis using r1 r2 s1(3) mod_static_trans [OF s1(3) s2(3)] by blast
qed

lemma mod_links_put:
  assumes "mod_tab P ids sk s t (map m_chain xs @ map m_id_link xs)" and "mod_objs P ids sk s" and "links_apart P"
    and "x \<in> P" and "x \<notin> set xs" and "set xs \<subseteq> P"
  shows "\<exists>i1 t1 s1 i2 t2 s2. dho_insert_keystr t x s = Ret (i1, t1) s1 \<and> dho_insert_chain_with mod_hash_dlink t1 x (m_id_link x) s1 = Ret (i2, t2) s2
    \<and> mod_tab P ids sk s2 t2 (map m_chain (xs @ [x]) @ map m_id_link (xs @ [x])) \<and> mod_static s s2"
proof -
  have "ol_ptr s2 (m_chain x) = Some x \<Longrightarrow> o_key64 s2 x = Some (ids x) \<Longrightarrow> mod_hash_dlink x n (m_chain x) s2 = obj_hash64 n (ids x) s2" for n s2
    by (simp add: mod_hash_dlink_def obj_ptr_def c_eval)
  from both_links_put [where hash_dlink = mod_hash_dlink, OF assms this] show ?thesis by blast
qed

lemma live_push: "x \<noteq> NULL \<Longrightarrow> live (sl @ [x]) = live sl @ [x]"
  by (simp add: live_def)

lemma mod_arr_mtx: "mod_arr R sl \<Longrightarrow> mod_arr (R\<lparr>rg_mod_mtx := False\<rparr>) sl"
  by (simp add: mod_arr_def)

lemma mod_register_new:
  assumes R: "mod_rep P ids sk ch s R (sl, reg)" and x: "x \<in> P" "x \<notin> reg"
  shows "\<exists>R' s'. mod_register R x s = Ret R' s' \<and> mod_rep P ids sk ch s' R' (sl @ [x], insert x reg) \<and> mod_static s s'"
proof -
  note R' = R [unfolded mod_rep_def fst_conv snd_conv]
  obtain t where t: "rg_name_tab R = Some t" "mod_tab P ids sk s t (map m_chain (live sl) @ map m_id_link (live sl))" using R' by blast
  have ap: "links_apart P" and ob: "mod_objs P ids sk s" and xl: "x \<notin> set (live sl)" and lp: "set (live sl) \<subseteq> P" and x0: "x \<noteq> NULL"
    using R' x by (auto simp: mod_pool_def mod_objs_def)
  obtain i1 t1 s1 i2 t2 s2 where r: "dho_insert_keystr t x s = Ret (i1, t1) s1" "dho_insert_chain_with mod_hash_dlink t1 x (m_id_link x) s1 = Ret (i2, t2) s2"
      "mod_tab P ids sk s2 t2 (map m_chain (live sl @ [x]) @ map m_id_link (live sl @ [x]))" "mod_static s s2"
    using mod_links_put [OF t(2) ob ap x(1) xl lp] by blast
  let ?R1 = "R\<lparr>sub_registered := (sub_registered R)(x := True), rg_mod_mtx := True\<rparr>"
  have "mod_arr (R\<lparr>sub_registered := (sub_registered R)(x := True)\<rparr>) sl" using R' by (simp add: mod_arr_def)
  from arr_push [OF this xl, of "Some t2" s2] obtain R2 arr where
    R2: "grow_deps (R\<lparr>sub_registered := (sub_registered R)(x := True), rg_name_tab := Some t2\<rparr>) s2 = Ret R2 s2"
      "arr_set (rg_dep_idx R2) (rg_dep_cnt R2) x s2 = Ret arr s2" "rg_name_tab R2 = Some t2"
      "sub_registered R2 = (sub_registered R)(x := True)" "sub_index R2 = sub_index R" "rg_mod_mtx R2 = rg_mod_mtx R"
      "mod_arr (R2\<lparr>sub_index := (sub_index R2)(x := rg_dep_cnt R2), rg_dep_idx := arr, rg_dep_cnt := rg_dep_cnt R2 + 1\<rparr>) (sl @ [x])"
    by auto
  have g: "grow_deps (?R1\<lparr>rg_name_tab := Some t2\<rparr>) s2 = Ret (R2\<lparr>rg_mod_mtx := True\<rparr>) s2"
    using R2(1) by (auto simp: grow_deps_def c_eval Let_def split: if_splits option.splits)
  let ?R3 = "R2\<lparr>sub_index := (sub_index R2)(x := rg_dep_cnt R2), rg_dep_idx := arr, rg_dep_cnt := rg_dep_cnt R2 + 1, rg_mod_mtx := False\<rparr>"
  have mtx: "\<not> rg_mod_mtx R" "\<not> sub_registered R x" using R' x by (auto simp: mod_arr_def)
  have run: "mod_register R x s = Ret ?R3 s2"
    using r(1,2) g R2(2) mtx t(1) by (simp add: mod_register_def lock_mod_def unlock_mod_def the_tab_def c_eval)
  have "mod_rep P ids sk ch s2 ?R3 (sl @ [x], insert x reg)" unfolding mod_rep_def fst_conv snd_conv
  proof (intro conjI)
    show "\<exists>t. rg_name_tab ?R3 = Some t \<and> mod_tab P ids sk s2 t (map m_chain (live (sl @ [x])) @ map m_id_link (live (sl @ [x])))"
      using R2(3) r(3) live_push [OF x0, of sl] by simp
    show "mod_arr ?R3 (sl @ [x])" by (rule mod_arr_mtx [OF R2(7)])
    show "o_chr s2 = ch" using R' r(4) by (simp add: mod_static_def)
    show "\<forall>y \<in> P. sub_registered ?R3 y = (y \<in> insert x reg)" using R' R2(4) by simp
  qed (use R' x x0 xl live_push [OF x0, of sl] mod_objs_static [OF r(4)] in auto)
  then show ?thesis using run r(4) by blast
qed

lemma live_drop: "live (drop_mod x sl) = filter (\<lambda>y. y \<noteq> x) (live sl)"
  by (induction sl) (auto simp: live_def drop_mod_def)

lemma drop_mod_nth:
  assumes at: "\<And>j. j < length sl \<Longrightarrow> sl ! j \<noteq> NULL \<Longrightarrow> f (sl ! j) = int j" and i: "i < length sl" "sl ! i \<noteq> NULL"
  shows "drop_mod (sl ! i) sl = sl[i := NULL]"
proof -
  have one: "sl ! j = sl ! i \<longleftrightarrow> j = i" if j: "j < length sl" for j
  proof
    assume e: "sl ! j = sl ! i"
    then have "sl ! j \<noteq> NULL" using i(2) by argo
    then have "int j = int i" using at [OF j] at [OF i] unfolding e by argo
    then show "j = i" by (rule of_nat_eq_iff [THEN iffD1])
  qed (rule arg_cong)
  show ?thesis
  proof (rule nth_equalityI)
    fix j assume "j < length (drop_mod (sl ! i) sl)"
    then have "j < length sl" by (simp add: drop_mod_def)
    with one [OF this] show "drop_mod (sl ! i) sl ! j = sl[i := NULL] ! j" by (simp add: drop_mod_def nth_list_update)
  qed (simp add: drop_mod_def)
qed

lemma mod_links_take:
  assumes T: "mod_tab P ids sk s t (map m_chain xs @ map m_id_link xs)" and ap: "links_apart P" and x: "x \<in> P" "x \<noteq> NULL"
    and xs: "xs = as @ x # cs"
  shows "\<exists>t1 s1 t2 s2. dho_remove_obj t x s = Ret t1 s1 \<and> dho_remove_chain t1 x (m_id_link x) s1 = Ret t2 s2
    \<and> mod_tab P ids sk s2 t2 (map m_chain (as @ cs) @ map m_id_link (as @ cs)) \<and> mod_static s s2 \<and> same_area P t t2 s s2"
proof -
  note N = link_names [OF ap x(1)]
  have T1: "mod_tab P ids sk s t (map m_chain as @ m_chain x # (map m_chain cs @ map m_id_link xs))" using T xs by simp
  obtain t1 s1 where s1: "dho_remove_chain t x (m_chain x) s = Ret t1 s1"
      "mod_tab P ids sk s1 t1 (map m_chain as @ (map m_chain cs @ map m_id_link xs))" "mod_static s s1"
      "same_area P t t1 s s1"
    using mod_tab_take [OF T1 ap] N(3) by auto
  have "ol_ptr s (m_chain x) = Some x" using T1 N(1,3) by (auto simp: mod_tab_def)
  then have r1: "dho_remove_obj t x s = Ret t1 s1"
    using s1(1) x(2) by (simp add: dho_remove_obj_def dho_remove_chain_def obj_ptr_def c_eval)
  have T2: "mod_tab P ids sk s1 t1 ((map m_chain (as @ cs) @ map m_id_link as) @ m_id_link x # map m_id_link cs)" using s1(2) xs by simp
  obtain t2 s2 where "dho_remove_chain t1 x (m_id_link x) s1 = Ret t2 s2"
      "mod_tab P ids sk s2 t2 ((map m_chain (as @ cs) @ map m_id_link as) @ map m_id_link cs)" "mod_static s1 s2"
      "same_area P t1 t2 s1 s2"
    using mod_tab_take [OF T2 ap] N(4) by auto
  then show ?thesis using r1 mod_static_trans [OF s1(3)] same_area_trans [OF s1(4)] by (intro exI conjI) auto
qed

lemma mod_unregister_live:
  assumes R: "mod_rep P ids sk ch s R (sl, reg)" and x: "x \<in> set (live sl)"
  shows "\<exists>R' s'. mod_unregister R x s = Ret R' s' \<and> mod_rep P ids sk ch s' R' (drop_mod x sl, reg) \<and> mod_static s s'
    \<and> same_area P (the (rg_name_tab R)) (the (rg_name_tab R')) s s'"
proof -
  note R' = R [unfolded mod_rep_def fst_conv snd_conv]
  obtain t where t: "rg_name_tab R = Some t" "mod_tab P ids sk s t (map m_chain (live sl) @ map m_id_link (live sl))" using R' by blast
  have ap: "links_apart P" and xP: "x \<in> P" and x0: "x \<noteq> NULL" and dl: "distinct (live sl)" and A: "mod_arr R sl"
    using R' x by (auto simp: mod_pool_def live_def)
  obtain as cs where xs: "live sl = as @ x # cs" using x by (metis split_list)
  obtain t1 s1 t2 s2 where r: "dho_remove_obj t x s = Ret t1 s1" "dho_remove_chain t1 x (m_id_link x) s1 = Ret t2 s2"
      "mod_tab P ids sk s2 t2 (map m_chain (as @ cs) @ map m_id_link (as @ cs))" "mod_static s s2" "same_area P t t2 s s2"
    using mod_links_take [OF t(2) ap xP x0 xs] by blast
  obtain i where i: "i < length sl" "sl ! i = x" using x by (auto simp: live_def in_set_conv_nth)
  have si: "sub_index R x = int i" using A i x0 by (auto simp: mod_arr_def)
  have at: "sub_index R (sl ! j) = int j" if "j < length sl" "sl ! j \<noteq> NULL" for j using A that by (simp add: mod_arr_def)
  have dm: "drop_mod x sl = sl[i := NULL]" using drop_mod_nth [OF at i(1)] i(2) x0 by simp
  let ?a = "sl @ replicate (nat (rg_dep_siz R) - length sl) NULL"
  let ?R = "R\<lparr>rg_name_tab := Some t2, rg_dep_idx := Some (?a[i := NULL]), rg_mod_mtx := False\<rparr>"
  have run: "mod_unregister R x s = Ret ?R s2"
    using r(1,2) t(1) A i si by (simp add: mod_unregister_def lock_mod_def unlock_mod_def mod_arr_def arr_get_def arr_set_def nth_append c_eval Let_def)
  have "filter (\<lambda>y. y \<noteq> x) as = as" "filter (\<lambda>y. y \<noteq> x) cs = cs" using dl xs by (auto intro: filter_True)
  then have "as @ cs = live (drop_mod x sl)" by (simp add: live_drop xs)
  note r3 = r(3) [unfolded this]
  have "mod_rep P ids sk ch s2 ?R (drop_mod x sl, reg)" unfolding mod_rep_def fst_conv snd_conv
  proof (intro conjI)
    show "\<exists>t. rg_name_tab ?R = Some t \<and> mod_tab P ids sk s2 t (map m_chain (live (drop_mod x sl)) @ map m_id_link (live (drop_mod x sl)))" using r3 by simp
    have "sub_index R (drop_mod x sl ! j) = int j" if "j < length sl" "drop_mod x sl ! j \<noteq> NULL" for j
      using that at i(1) by (cases "j = i") (simp_all add: dm)
    then show "mod_arr ?R (drop_mod x sl)" using A i(1) by (simp add: mod_arr_def dm list_update_append)
    show "o_chr s2 = ch" using R' r(4) by (simp add: mod_static_def)
    show "distinct (live (drop_mod x sl))" using dl by (simp add: live_drop)
    show "set (live (drop_mod x sl)) \<subseteq> reg" using R' by (auto simp: live_drop)
  qed (use R' mod_objs_static [OF r(4)] in auto)
  moreover have "same_area P (the (rg_name_tab R)) (the (rg_name_tab ?R)) s s2" using r(5) t(1) by simp
  ultimately show ?thesis using run r(4) by blast
qed

subsection \<open>The machine\<close>

definition mod_inv :: "addr set \<Rightarrow> (addr \<Rightarrow> 64 word) \<Rightarrow> (addr \<Rightarrow> 8 word list) \<Rightarrow> addr \<Rightarrow> (addr \<rightharpoonup> 8 word)
    \<Rightarrow> obj_mem \<Rightarrow> mod_reg \<Rightarrow> addr list \<times> addr set \<Rightarrow> bool" where
  "mod_inv P ids sk loc ch s R x \<longleftrightarrow> mod_rep P ids sk ch s R x \<and> free_seed s loc"

lemma small_ucast: "small_key (ucast (k :: 32 word))"
proof -
  have "unat (ucast k :: 64 word) \<le> unat k" unfolding unsigned_ucast_eq by (rule take_bit_nat_less_eq_self)
  moreover have "unat k < (2 :: nat) ^ LENGTH(32)" by (rule unsigned_less)
  ultimately show ?thesis by (simp add: small_key_def)
qed

lemma mod_lookups:
  assumes I: "mod_inv P ids sk loc ch s R x"
  shows "\<exists>R'. mod_get_id alloc loc R k s = Ret (or_NULL (key_map ids (live (fst x)) (ucast k)), R') s \<and> mod_inv P ids sk loc ch s R' x"
    and "cstr ch p w \<Longrightarrow> \<exists>R'. mod_get_name alloc loc R p s = Ret (or_NULL (key_map sk (live (fst x)) w), R') s \<and> mod_inv P ids sk loc ch s R' x"
proof -
  note I' = I [unfolded mod_inv_def mod_rep_def]
  obtain t where t: "rg_name_tab R = Some t" "mod_tab P ids sk s t (map m_chain (live (fst x)) @ map m_id_link (live (fst x)))" using I' by blast
  have R: "mod_rep P ids sk ch s R (fst x, snd x)" using I by (simp add: mod_inv_def)
  have P: "links_apart P" "inj_on ids P" "inj_on sk P" "mod_objs P ids sk s" "free_seed s loc" "distinct (live (fst x))" "o_chr s = ch"
    using I' by (auto simp: mod_pool_def)
  have keep: "mod_inv P ids sk loc ch s (R\<lparr>rg_name_tab := Some (t\<lparr>dh_max_chain := c\<rparr>)\<rparr>) x" for c
    using I' t(2) by (simp add: mod_inv_def mod_rep_def mod_tab_chain mod_arr_def)
  show "\<exists>R'. mod_get_id alloc loc R k s = Ret (or_NULL (key_map ids (live (fst x)) (ucast k)), R') s \<and> mod_inv P ids sk loc ch s R' x"
    using mod_find_id [OF t(2) P(4,1,5) live_few(2) [OF R] P(6) live_few(1) [OF R] P(2) small_ucast, of alloc k] t(1) keep
    by (auto simp: mod_get_id_def c_eval)
  show "\<exists>R'. mod_get_name alloc loc R p s = Ret (or_NULL (key_map sk (live (fst x)) w), R') s \<and> mod_inv P ids sk loc ch s R' x" if "cstr ch p w"
    using mod_find_name [OF t(2) P(4,1,5) live_few(2) [OF R] P(6) live_few(1) [OF R] P(3), of p w alloc] t(1) keep that P(7)
    by (auto simp: mod_get_name_def c_eval)
qed

lemma mod_index:
  assumes A: "mod_arr R sl" and i: "0 \<le> i"
  shows "mod_get_index R i s = (if i < int (length sl) \<and> sl ! nat i \<noteq> NULL then Ret (sl ! nat i) s else Abort Assert_fail)"
proof (cases "i < int (length sl)")
  case True
  then have n: "nat i < length sl" "rg_dep_cnt R = int (length sl)" using A i by (auto simp: mod_arr_def)
  have "arr_get (rg_dep_idx R) i s = Ret (sl ! nat i) s" using A n i by (simp add: mod_arr_def arr_get_def nth_append c_eval)
  moreover have "sl ! nat i \<noteq> NULL \<Longrightarrow> sub_index R (sl ! nat i) = i" using A n i by (simp add: mod_arr_def)
  ultimately show ?thesis using True n(2) by (simp add: mod_get_index_def c_eval)
next
  case False
  then show ?thesis using A by (simp add: mod_get_index_def mod_arr_def c_eval)
qed

lemma mod_unregister_stop:
  assumes R: "mod_rep P ids sk ch s R (sl, reg)" and x: "x \<notin> set (live sl)" "x = NULL \<or> x \<in> P"
  shows "mod_unregister R x s = Abort Assert_fail"
proof -
  note R' = R [unfolded mod_rep_def fst_conv snd_conv]
  obtain t where t: "rg_name_tab R = Some t" "mod_tab P ids sk s t (map m_chain (live sl) @ map m_id_link (live sl))" using R' by blast
  have ap: "links_apart P" and m: "\<not> rg_mod_mtx R" and lp: "set (live sl) \<subseteq> P" using R' by (auto simp: mod_pool_def mod_arr_def)
  have "ol_ptr s (m_chain x) = Some NULL" if xP: "x \<in> P"
  proof -
    have "m_chain x \<noteq> m_id_link y" if "y \<in> set (live sl)" for y using link_names(7) [OF ap xP, of y] that lp by auto
    then have "m_chain x \<notin> set (map m_chain (live sl) @ map m_id_link (live sl))" using x(1) by auto
    then show ?thesis using t(2) link_names(1) [OF ap xP] by (auto simp: mod_tab_def)
  qed
  then show ?thesis
    using x(2) t(1) m by (auto simp: mod_unregister_def lock_mod_def dho_remove_obj_def obj_ptr_def c_eval)
qed

lemma mod_step:
  assumes I: "mod_inv P ids sk loc ch s R x" and v: "mod_valid P ch c" and sp: "mod_spec ids sk c x = Some (r, x')"
  shows "\<exists>R' s'. mod_exec_cmd alloc loc c R s = Ret (r, R') s' \<and> mod_inv P ids sk loc ch s' R' x'"
proof -
  obtain sl reg where x: "x = (sl, reg)" by (cases x)
  have R: "mod_rep P ids sk ch s R (sl, reg)" and f: "free_seed s loc" using I by (simp_all add: mod_inv_def x)
  show ?thesis
  proof (cases c)
    case (M_register y)
    show ?thesis
    proof (cases "y \<in> reg")
      case True
      then show ?thesis using R I v sp M_register x by (auto simp: mod_register_def mod_rep_def c_eval)
    next
      case False
      from mod_register_new [OF R _ this] v M_register obtain R' s' where
        "mod_register R y s = Ret R' s'" "mod_rep P ids sk ch s' R' (sl @ [y], insert y reg)" "mod_static s s'" by auto
      then show ?thesis using sp M_register x False f free_static by (auto simp: mod_inv_def c_eval)
    qed
  next
    case (M_unregister y)
    then have y: "y \<in> set (live sl)" using sp x by (auto split: if_splits)
    from mod_unregister_live [OF R y] obtain R' s' where
      "mod_unregister R y s = Ret R' s'" "mod_rep P ids sk ch s' R' (drop_mod y sl, reg)" "mod_static s s'" by auto
    then show ?thesis using sp M_unregister x y f free_static by (auto simp: mod_inv_def c_eval)
  next
    case (M_get_id k)
    then show ?thesis using mod_lookups(1) [OF I, of alloc k] sp x by (auto simp: c_eval)
  next
    case (M_get_name p w)
    then show ?thesis using mod_lookups(2) [OF I, of p w alloc] sp x v by (auto simp: c_eval)
  next
    case (M_get_index i)
    have "mod_arr R sl" using R by (simp add: mod_rep_def)
    from mod_index [OF this, of i s] M_get_index sp x v I show ?thesis by (auto simp: c_eval split: if_splits)
  qed
qed

lemma mod_stop:
  assumes I: "mod_inv P ids sk loc ch s R x" and v: "mod_valid P ch c" and sp: "mod_spec ids sk c x = None"
  shows "mod_exec_cmd alloc loc c R s = Abort Assert_fail"
proof -
  obtain sl reg where x: "x = (sl, reg)" by (cases x)
  have R: "mod_rep P ids sk ch s R (sl, reg)" using I by (simp add: mod_inv_def x)
  then have A: "mod_arr R sl" by (simp add: mod_rep_def)
  show ?thesis
  proof (cases c)
    case (M_unregister y)
    then show ?thesis using mod_unregister_stop [OF R, of y] sp x v by (auto simp: c_eval split: if_splits)
  next
    case (M_get_index i)
    then show ?thesis using mod_index [OF A, of i s] sp x v by (auto simp: c_eval split: if_splits)
  qed (use sp x in simp_all)
qed

interpretation modc: c_machine "mod_inv P ids sk loc ch" "mod_exec_cmd alloc loc" "mod_spec ids sk" "mod_valid P ch"
  by unfold_locales (rule mod_step, assumption+, rule mod_stop)

subsection \<open>Construction\<close>

text \<open>Modules that are in no table.\<close>

definition mod_fresh :: "addr set \<Rightarrow> obj_mem \<Rightarrow> bool" where
  "mod_fresh P s \<longleftrightarrow> finite (dom (dl_next s))
     \<and> (\<forall>l \<in> mod_links P. l \<noteq> NULL \<and> dl_next s l = Some l \<and> dl_prev s l = Some l \<and> ol_ptr s l = Some NULL)"

lemma mod_tab_made:
  assumes al: "fresh_alloc alloc" and F: "mod_fresh P s" and n: "0 < n" "n < 2 ^ 31"
  shows "\<exists>t s'. dho_ctor alloc n s = Ret t s' \<and> mod_tab P ids sk s' t [] \<and> same_objs s s'
    \<and> (\<exists>A. finite A \<and> (\<forall>p. p \<notin> A \<longrightarrow> dl_next s' p = dl_next s p \<and> dl_prev s' p = dl_prev s p))"
proof -
  define m where "m = nat n"
  have m: "0 < m" "int m = n" using n by (simp_all add: m_def)
  have fin: "finite (dom (dl_next s))" using F by (simp add: mod_fresh_def)
  let ?H = "\<lambda>mp. \<lparr>dh_bucket = mp, dh_bk_size = n, dh_elm_cnt = 0, dh_max_chain = 0, dh_hash_fn = Some dh_hash_keystr, dh_cmp_fn = Some dh_hash_cmp_keystr\<rparr>"
  obtain s1 mp where s1: "dhash_init alloc n (Some dh_hash_keystr) (Some dh_hash_cmp_keystr) s = Ret (?H mp) s1"
      "rings s1 mp (replicate m [])" "arr mp m \<inter> dom (dl_next s) = {}"
      "\<And>p. p \<notin> arr mp m \<Longrightarrow> dl_next s1 p = dl_next s p \<and> dl_prev s1 p = dl_prev s p" "dlist_mem.more s1 = dlist_mem.more s"
    using dhash_init_run [where hf = "Some dh_hash_keystr" and cf = "Some dh_hash_cmp_keystr", OF al fin m(1)] unfolding m(2) by blast
  have ob: "same_objs s s1" by (rule more_objs [OF s1(5)])
  have part: "hpart mod_h s1 (?H mp) (mod_key P ids sk) []"
    using s1(2) m n unfolding hpart_def by (intro conjI exI [of _ "replicate m []"]) (auto simp: hashed_def)
  have "l \<notin> arr mp m \<and> is_dlink s1 l \<and> ol_ptr s1 l = Some NULL \<and> dl_next s1 l = Some l \<and> dl_prev s1 l = Some l" if l: "l \<in> mod_links P" for l
  proof -
    have at: "l \<noteq> NULL" "dl_next s l = Some l" "dl_prev s l = Some l" "ol_ptr s l = Some NULL" using F l by (simp_all add: mod_fresh_def)
    then have "l \<notin> arr mp m" using s1(3) by (auto simp: dom_def)
    then show ?thesis using s1(4) [of l] at ob by (auto simp: is_dlink_def same_objs_def)
  qed
  then have "mod_tab P ids sk s1 (?H mp) []" using part by (simp add: mod_tab_def m_def)
  moreover have "finite (arr mp m)" by (simp add: arr_def)
  ultimately show ?thesis using s1(1,4) ob unfolding dho_ctor_def by blast
qed

lemma register_all_run:
  "mod_rep P ids sk ch s R (sl, reg) \<Longrightarrow> set xs \<subseteq> P \<Longrightarrow> distinct xs \<Longrightarrow> set xs \<inter> reg = {}
   \<Longrightarrow> \<exists>R' s'. register_all R xs s = Ret R' s' \<and> mod_rep P ids sk ch s' R' (sl @ xs, reg \<union> set xs) \<and> mod_static s s'"
proof (induction xs arbitrary: s R sl reg)
  case Nil
  then show ?case by (simp add: c_eval)
next
  case (Cons x xs)
  obtain R1 s1 where 1: "mod_register R x s = Ret R1 s1" "mod_rep P ids sk ch s1 R1 (sl @ [x], insert x reg)" "mod_static s s1"
    using mod_register_new [OF Cons.prems(1), of x] Cons.prems(2-4) by auto
  from Cons.IH [OF 1(2)] Cons.prems(2-4) obtain R' s' where
    "register_all R1 xs s1 = Ret R' s'" "mod_rep P ids sk ch s' R' ((sl @ [x]) @ xs, insert x reg \<union> set xs)" "mod_static s1 s'" by auto
  with 1(1) mod_static_trans [OF 1(3)] show ?case by (simp add: c_eval)
qed

lemma mod_ctor_run:
  assumes al: "fresh_alloc alloc" and pool: "mod_pool P ids sk" "mod_objs P ids sk s" "mod_fresh P s"
    and subs: "subs \<noteq> []" "distinct subs" "set subs \<subseteq> P" and reg: "\<forall>x \<in> P. \<not> reg x"
  shows "\<exists>R s'. mod_ctor_subs alloc idx reg subs s = Ret R s' \<and> mod_rep P ids sk (o_chr s) s' R (subs, set subs)
    \<and> (\<exists>A. finite A \<and> (\<forall>loc. free_seed s loc \<and> m_chain loc \<notin> A \<longrightarrow> free_seed s' loc))"
proof -
  let ?siz = "int (length subs) * 2"
  have few: "length subs < 16" using subs(2,3) pool(1) by (metis card_mono distinct_card le_less_trans mod_pool_def)
  have l0: "0 < length subs" using subs(1) by simp
  then have n: "0 < ?siz * 2" "?siz * 2 < 2 ^ 31" using few by simp_all
  obtain t s1 where s1: "dho_ctor alloc (?siz * 2) s = Ret t s1" "mod_tab P ids sk s1 t []" "same_objs s s1"
      "\<exists>A. finite A \<and> (\<forall>p. p \<notin> A \<longrightarrow> dl_next s1 p = dl_next s p \<and> dl_prev s1 p = dl_prev s p)"
    using mod_tab_made [OF al pool(3) n] by blast
  let ?R = "\<lparr>rg_dep_cnt = 0, rg_dep_siz = ?siz, rg_dep_idx = Some (replicate (nat ?siz) NULL), rg_name_tab = Some t,
        rg_mod_mtx = False, sub_index = idx, sub_registered = reg\<rparr>"
  have "2 \<le> ?siz" using l0 by linarith
  then have "mod_arr ?R []" using subs(1) by (simp add: mod_arr_def Suc_le_eq)
  moreover have "mod_objs P ids sk s1" "o_chr s1 = o_chr s" using pool(2) s1(3) by (simp_all add: mod_objs_def same_objs_def)
  ultimately have "mod_rep P ids sk (o_chr s) s1 ?R ([], {})"
    using s1(2) pool(1) reg by (simp add: mod_rep_def live_def)
  from register_all_run [OF this subs(3,2)] obtain R' s' where
    "register_all ?R subs s1 = Ret R' s'" "mod_rep P ids sk (o_chr s) s' R' (subs, set subs)" "mod_static s1 s'" by auto
  moreover from s1(4) obtain A where A: "finite A" "\<forall>p. p \<notin> A \<longrightarrow> dl_next s1 p = dl_next s p \<and> dl_prev s1 p = dl_prev s p" by blast
  then have "free_seed s loc \<and> m_chain loc \<notin> A \<Longrightarrow> free_seed s1 loc" for loc using s1(3) by (simp add: free_seed_def same_objs_def)
  moreover note free_static [OF calculation(3)]
  ultimately show ?thesis using s1(1) A(1) by (auto simp: mod_ctor_subs_def Let_def c_eval)
qed

subsection \<open>Properties\<close>

text \<open>C14: a parent module made over a list of sub-modules, and any registrations, removals and lookups
  by id, name and index on it, behave as the abstract registry, for a pool of fewer than 16 modules with different names
  and different ids below \<open>2 ^ 32\<close>; a module is entered once in its life, also after it was removed. Removing a
  module that is not registered and looking at a place without a module stop at an assertion.\<close>

theorem mod_registry:
  assumes "fresh_alloc alloc" and "mod_pool P ids sk" and "mod_objs P ids sk s" and "mod_fresh P s"
    and "subs \<noteq> []" and "distinct subs" and "set subs \<subseteq> P" and "\<forall>x \<in> P. \<not> reg x" and v: "\<forall>c \<in> set cs. mod_valid P (o_chr s) c"
  shows "\<exists>R s1. mod_ctor_subs alloc idx reg subs s = Ret R s1 \<and> (\<forall>loc. free_seed s1 loc \<longrightarrow>
      (case spec_run (mod_spec ids sk) cs (subs, set subs) of
        Some (rs, x) \<Rightarrow> \<exists>R' s'. m_run (mod_exec_cmd alloc loc) cs R s1 = Ret (rs, R') s' \<and> mod_inv P ids sk loc (o_chr s) s' R' x
      | None \<Rightarrow> m_run (mod_exec_cmd alloc loc) cs R s1 = Abort Assert_fail))"
proof -
  obtain R s1 where R: "mod_ctor_subs alloc idx reg subs s = Ret R s1" "mod_rep P ids sk (o_chr s) s1 R (subs, set subs)"
    using mod_ctor_run [OF assms(1-8)] by blast
  have "case spec_run (mod_spec ids sk) cs (subs, set subs) of
        Some (rs, x) \<Rightarrow> \<exists>R' s'. m_run (mod_exec_cmd alloc loc) cs R s1 = Ret (rs, R') s' \<and> mod_inv P ids sk loc (o_chr s) s' R' x
      | None \<Rightarrow> m_run (mod_exec_cmd alloc loc) cs R s1 = Abort Assert_fail" if f: "free_seed s1 loc" for loc
  proof -
    have I: "mod_inv P ids sk loc (o_chr s) s1 R (subs, set subs)" using R(2) f by (simp add: mod_inv_def)
    show ?thesis
    proof (cases "spec_run (mod_spec ids sk) cs (subs, set subs)")
      case None
      then show ?thesis using modc.run_none [OF I v] by simp
    next
      case (Some q)
      then have "spec_run (mod_spec ids sk) cs (subs, set subs) = Some (fst q, snd q)" by simp
      from modc.run_some [OF I v this, of alloc] show ?thesis by (auto simp: Some)
    qed
  qed
  then show ?thesis using R(1) by blast
qed

text \<open>Two modules in no table, of the names \<open>ab\<close> and \<open>b\<close>.\<close>

definition demo_mod_mem :: obj_mem where
  "demo_mod_mem = \<lparr>dl_next = (\<lambda>p. if p \<in> {108, 148, 208, 248} then Some p else None),
     dl_prev = (\<lambda>p. if p \<in> {108, 148, 208, 248} then Some p else None),
     ol_ptr = (\<lambda>p. if p \<in> {108, 148, 208, 248} then Some 0 else None),
     o_key64 = [100 \<mapsto> 5, 200 \<mapsto> 6], o_keystr = [100 \<mapsto> 40, 200 \<mapsto> 41], o_chr = demo_str\<rparr>"

definition demo_ids :: "addr \<Rightarrow> 64 word" where
  "demo_ids x = (if x = 100 then 5 else 6)"

definition demo_names :: "addr \<Rightarrow> 8 word list" where
  "demo_names x = (if x = 100 then [0x61, 0x62] else [0x62])"

lemma demo_mods:
  "mod_pool {100, 200} demo_ids demo_names" "mod_objs {100, 200} demo_ids demo_names demo_mod_mem" "mod_fresh {100, 200} demo_mod_mem"
proof -
  show "mod_pool {100, 200} demo_ids demo_names"
    by (simp add: mod_pool_def links_apart_def m_chain_def m_id_link_def demo_ids_def demo_names_def inj_on_def)
  show "mod_objs {100, 200} demo_ids demo_names demo_mod_mem"
    by (simp add: mod_objs_def demo_mod_mem_def demo_ids_def demo_names_def small_key_def demo_str_def)
  have "dom (dl_next demo_mod_mem) = {108, 148, 208, 248}" by (auto simp: demo_mod_mem_def split: if_splits)
  then show "mod_fresh {100, 200} demo_mod_mem"
    by (simp add: mod_fresh_def mod_links_def m_chain_def m_id_link_def demo_mod_mem_def)
qed

lemma demo_mod_seed: "free_seed s loc"
  if "\<forall>loc. free_seed demo_mod_mem loc \<and> m_chain loc \<notin> A \<longrightarrow> free_seed s loc" and "loc = 1000 + Max (insert 0 A)" and "finite A"
proof -
  have "m_chain loc \<notin> A" using that(2) Max_ge [of "insert 0 A" "m_chain loc"] that(3) by (auto simp: m_chain_def)
  moreover have "free_seed demo_mod_mem loc" using that(2) by (simp add: free_seed_def demo_mod_mem_def m_chain_def)
  ultimately show ?thesis using that(1) by blast
qed

theorem mod_registry_witness:
  "\<exists>R s1 loc R' s'. mod_ctor_subs top_alloc (\<lambda>_. -1) (\<lambda>_. False) [100] demo_mod_mem = Ret R s1
    \<and> m_run (mod_exec_cmd top_alloc loc) [M_register 200, M_get_id 6, M_get_name 40 [0x61, 0x62], M_unregister 100, M_register 100,
        M_get_name 40 [0x61, 0x62], M_get_index 1] R s1
      = Ret ([M_unit, M_mod 200, M_mod 100, M_unit, M_unit, M_mod 0, M_mod 200], R') s'"
proof -
  let ?cs = "[M_register 200, M_get_id 6, M_get_name 40 [0x61, 0x62], M_unregister 100, M_register 100, M_get_name 40 [0x61, 0x62], M_get_index 1]"
  note d = fresh_top_alloc demo_mods
  obtain R s1 A where R: "mod_ctor_subs top_alloc (\<lambda>_. -1) (\<lambda>_. False) [100] demo_mod_mem = Ret R s1"
      "finite A" "\<forall>loc. free_seed demo_mod_mem loc \<and> m_chain loc \<notin> A \<longrightarrow> free_seed s1 loc"
    using mod_ctor_run [OF d, of "[100]" "\<lambda>_. False" "\<lambda>_. -1"] by auto
  have v: "\<forall>c \<in> set ?cs. mod_valid {100, 200} (o_chr demo_mod_mem) c" by (simp add: demo_mod_mem_def demo_str_def)
  have sp: "spec_run (mod_spec demo_ids demo_names) ?cs ([100], set [100]) =
      Some ([M_unit, M_mod 200, M_mod 100, M_unit, M_unit, M_mod 0, M_mod 200], ([0, 200], {100, 200}))"
    by (simp add: live_def drop_mod_def key_map_def demo_ids_def demo_names_def insert_commute)
  define loc where "loc = 1000 + Max (insert 0 A)"
  have "free_seed s1 loc" by (rule demo_mod_seed [OF R(3) loc_def R(2)])
  then have "\<exists>R' s'. m_run (mod_exec_cmd top_alloc loc) ?cs R s1 = Ret ([M_unit, M_mod 200, M_mod 100, M_unit, M_unit, M_mod 0, M_mod 200], R') s'"
    using mod_registry [OF d _ _ _ _ v, of "[100]" "\<lambda>_. False" "\<lambda>_. -1"] R(1) sp by auto
  then show ?thesis using R(1) by blast
qed

subsection \<open>Arrays that are not there\<close>

lemma live_nth: "i < length sl \<Longrightarrow> sl ! i \<noteq> NULL \<Longrightarrow> sl ! i \<in> set (live sl)"
  by (simp add: live_def)

lemma upto_nats: "[0..int n - 1] = map int [0..<n]"
proof (induction n)
  case (Suc n)
  have "[0..int (Suc n) - 1] = [0..int n - 1] @ [int n]" using upto_rec2 [of 0 "int n"] by simp
  then show ?case using Suc by simp
qed simp

lemma clear_past:
  "length xs = m \<Longrightarrow> k = m - i \<Longrightarrow> i \<le> m \<Longrightarrow> clear_places (Some xs) (map int [i..<Suc m]) s = Abort (Fault m)"
proof (induction k arbitrary: i xs)
  case 0
  then show ?case by (simp add: arr_set_def c_eval)
next
  case (Suc k)
  then have "map int [i..<Suc m] = int i # map int [Suc i..<Suc m]" by (simp add: upt_conv_Cons del: upt_Suc)
  then show ?case using Suc.IH [of "xs[i := NULL]" "Suc i"] Suc.prems by (simp add: arr_set_def c_eval del: upt_Suc)
qed

lemma mod_alloc_past:
  assumes "rg_dep_cnt R = 0" and "rg_dep_siz R = 0" and "rg_dep_idx R = None"
  shows "mod_alloc_depmod R (int n) s = Abort (Fault (2 * n))"
proof -
  have "[0..int n * 2] = map int [0..<Suc (2 * n)]" using upto_nats [of "Suc (2 * n)"] by (simp add: mult.commute)
  moreover have "nat (int n * 2) = 2 * n" by simp
  ultimately show ?thesis using clear_past [of "replicate (2 * n) NULL" "2 * n" "2 * n" 0 s] assms
    by (simp add: mod_alloc_depmod_def c_eval Let_def del: upt_Suc)
qed

text \<open>C35: a parent module made with the size of its table alone never holds a sub-module: it has no
  array, so that registering dereferences a null pointer, and allocating the array writes one
  place past its end.\<close>

theorem mod_sized_unusable:
  assumes al: "fresh_alloc alloc" and pool: "mod_pool P ids sk" "mod_objs P ids sk s" "mod_fresh P s" and n: "0 < n" "n < 2 ^ 31"
    and x: "x \<in> P" "\<not> reg x"
  shows "\<exists>R s1. mod_ctor_size alloc idx reg n s = Ret R s1 \<and> mod_register R x s1 = Abort (Fault NULL)
    \<and> (\<forall>m. mod_alloc_depmod R (int m) s1 = Abort (Fault (2 * m)))"
proof -
  obtain t s1 where t: "dho_ctor alloc n s = Ret t s1" "mod_tab P ids sk s1 t []" "same_objs s s1" using mod_tab_made [OF al pool(3) n] by blast
  have ap: "links_apart P" and ob: "mod_objs P ids sk s1" using pool(1,2) t(3) by (simp_all add: mod_pool_def mod_objs_def same_objs_def)
  have T: "mod_tab P ids sk s1 t (map m_chain [] @ map m_id_link [])" using t(2) by simp
  obtain i1 t1 s2 i2 t2 s3 where "dho_insert_keystr t x s1 = Ret (i1, t1) s2" "dho_insert_chain_with mod_hash_dlink t1 x (m_id_link x) s2 = Ret (i2, t2) s3"
    using mod_links_put [OF T ob ap x(1)] by auto
  then have "mod_register \<lparr>rg_dep_cnt = 0, rg_dep_siz = 0, rg_dep_idx = None, rg_name_tab = Some t, rg_mod_mtx = False, sub_index = idx, sub_registered = reg\<rparr> x s1
      = Abort (Fault NULL)"
    using x(2) by (simp add: mod_register_def lock_mod_def the_tab_def grow_deps_def arr_set_def c_eval)
  then show ?thesis using t(1) by (simp add: mod_ctor_size_def mod_alloc_past c_eval)
qed

theorem mod_sized_unusable_witness:
  "\<exists>R s1. mod_ctor_size top_alloc (\<lambda>_. -1) (\<lambda>_. False) 4 demo_mod_mem = Ret R s1 \<and> mod_register R 100 s1 = Abort (Fault NULL)"
  using mod_sized_unusable [OF fresh_top_alloc demo_mods, of 4 100 "\<lambda>_. False" "\<lambda>_. -1"] by auto

end
