(* ===== verification/RsContainProps.thy ===== *)
theory RsContainProps
  imports RsContain ModRegProps ObjProps
begin

text \<open>
  The container of resources as an instance of an abstract machine: a row of places, each empty or
  with a resource that has a name and an id. It is the machine of a container whose array has
  its places; the constructor does not make one, so that no container of the program is in such a state:
  what the constructor does, and walks over a snapshot, come last.
\<close>

subsection \<open>The table\<close>

lemma rs_id_link: "rs_id_link = m_id_link"
  by (simp add: fun_eq_iff rs_id_link_def m_id_link_def)

definition rs_named :: "addr set \<Rightarrow> (addr \<Rightarrow> 64 word) \<Rightarrow> (addr \<Rightarrow> 8 word list) \<Rightarrow> bool" where
  "rs_named P ids sk \<longleftrightarrow> (\<forall>x \<in> P. ids x \<noteq> 0 \<and> sk x \<noteq> [])"

lemma rs_name_head:
  assumes "mod_objs P ids sk s" and "rs_named P ids sk" and "x \<in> P"
  shows "\<exists>p c. o_keystr s x = Some p \<and> o_chr s p = Some c \<and> c \<noteq> 0"
proof -
  obtain p where p: "o_keystr s x = Some p" "cstr (o_chr s) p (sk x)" using assms by (auto simp: mod_objs_def)
  obtain c w where w: "sk x = c # w" using assms(2,3) by (cases "sk x") (auto simp: rs_named_def)
  with p show ?thesis by auto
qed

lemma rs_enter_run:
  assumes T: "mod_tab P ids sk s t (map m_chain xs @ map m_id_link xs)" and ob: "mod_objs P ids sk s" and ap: "links_apart P"
    and nm: "rs_named P ids sk" and x: "x \<in> P" "x \<notin> set xs" "set xs \<subseteq> P"
  shows "\<exists>t' s'. rs_enter t x s = Ret t' s' \<and> mod_tab P ids sk s' t' (map m_chain (xs @ [x]) @ map m_id_link (xs @ [x])) \<and> mod_static s s'"
proof -
  have hd: "ol_ptr s2 (m_chain x) = Some x \<Longrightarrow> o_key64 s2 x = Some (ids x) \<Longrightarrow> (\<lambda>obj. obj_hash_dlink) x n (m_chain x) s2 = obj_hash64 n (ids x) s2" for n s2
    by (simp add: obj_hash_dlink_def obj_key_dlink_def obj_ptr_def c_eval)
  obtain i1 t1 s1 i2 t2 s2 where 1: "dho_insert_keystr t x s = Ret (i1, t1) s1" "dho_insert_chain t1 x (m_id_link x) s1 = Ret (i2, t2) s2"
      "mod_tab P ids sk s2 t2 (map m_chain (xs @ [x]) @ map m_id_link (xs @ [x]))" "mod_static s s2" "mod_static s s1"
    using both_links_put [where hash_dlink = "\<lambda>obj. obj_hash_dlink", OF T ob ap x hd] unfolding dho_insert_chain_def by blast
  obtain p c where p: "o_keystr s x = Some p" "o_chr s p = Some c" "c \<noteq> 0" using rs_name_head [OF ob nm x(1)] by blast
  have k: "o_key64 s x = Some (ids x)" "ids x \<noteq> 0" using ob nm x(1) by (auto simp: mod_objs_def rs_named_def)
  have s1: "o_key64 s1 x = Some (ids x)" using 1(5) k(1) by (simp add: mod_static_def lru_static_def)
  show ?thesis using 1 p k s1 by (simp add: rs_enter_def rs_id_link c_eval)
qed

subsection \<open>The abstract container\<close>

datatype rs_cmd = R_add addr | R_remove addr | R_query_id "64 word" | R_query_name addr "8 word list" | R_query_index int

definition free_place :: "addr list \<Rightarrow> nat option" where
  "free_place sl = find (\<lambda>i. sl ! i = NULL) [0..<length sl]"

fun rs_spec :: "(addr \<Rightarrow> 64 word) \<Rightarrow> (addr \<Rightarrow> 8 word list) \<Rightarrow> rs_cmd \<Rightarrow> addr list \<Rightarrow> (mod_res \<times> addr list) option" where
  "rs_spec ids sk (R_add x) sl = (case free_place sl of None \<Rightarrow> None
     | Some i \<Rightarrow> if x \<in> set (live sl) then None else Some (M_unit, sl[i := x]))"
| "rs_spec ids sk (R_remove x) sl = (if x \<in> set (live sl) then Some (M_unit, drop_mod x sl) else None)"
| "rs_spec ids sk (R_query_id k) sl = Some (M_mod (or_NULL (key_map ids (live sl) k)), sl)"
| "rs_spec ids sk (R_query_name p w) sl = Some (M_mod (or_NULL (key_map sk (live sl) w)), sl)"
| "rs_spec ids sk (R_query_index i) sl = (if i < int (length (live sl)) then Some (M_mod (sl ! nat i), sl) else None)"

fun rs_exec :: "obj_mem alloc \<Rightarrow> addr \<Rightarrow> rs_cmd \<Rightarrow> rs_cont \<Rightarrow> (obj_mem, mod_res \<times> rs_cont) cprog" where
  "rs_exec alloc loc (R_add x) C = bindM (rs_add C x) (\<lambda>C'. ret (M_unit, C'))"
| "rs_exec alloc loc (R_remove x) C = bindM (rs_remove C x) (\<lambda>C'. ret (M_unit, C'))"
| "rs_exec alloc loc (R_query_id k) C = bindM (rs_query_id alloc loc C k) (\<lambda>r. ret (M_mod (fst r), snd r))"
| "rs_exec alloc loc (R_query_name p w) C = bindM (rs_query_name alloc loc C p) (\<lambda>r. ret (M_mod (fst r), snd r))"
| "rs_exec alloc loc (R_query_index i) C = bindM (rs_query_index C i) (\<lambda>x. ret (M_mod x, C))"

fun rs_valid :: "addr set \<Rightarrow> (addr \<rightharpoonup> 8 word) \<Rightarrow> rs_cmd \<Rightarrow> bool" where
  "rs_valid P ch (R_add x) \<longleftrightarrow> x \<in> P"
| "rs_valid P ch (R_remove x) \<longleftrightarrow> x \<in> P"
| "rs_valid P ch (R_query_id k) \<longleftrightarrow> small_key k"
| "rs_valid P ch (R_query_name p w) \<longleftrightarrow> cstr ch p w"
| "rs_valid P ch (R_query_index i) \<longleftrightarrow> 0 \<le> i"

subsection \<open>The array\<close>

definition rs_arr :: "addr set \<Rightarrow> rs_cont \<Rightarrow> addr list \<Rightarrow> bool" where
  "rs_arr P C sl \<longleftrightarrow> \<not> rs_mtx C \<and> rs_cnt C = int (length (live sl)) \<and> rs_arr_elm C = int (length sl) \<and> rs_array C = Places sl
     \<and> (\<forall>i < length sl. sl ! i \<noteq> NULL \<longrightarrow> rs_idx C (sl ! i) = int i)
     \<and> (\<forall>x \<in> P. rs_idx C x = -1 \<or> 0 \<le> rs_idx C x \<and> rs_idx C x < int (length sl))"

lemma first_free_run:
  "\<forall>j \<in> set js. j < length sl \<Longrightarrow> rs_first_free (Places sl) (map int js) s
     = Ret (case find (\<lambda>i. sl ! i = NULL) js of None \<Rightarrow> -1 | Some i \<Rightarrow> int i) s"
  by (induction js) (auto simp: pl_get_def c_eval)

lemma free_place_run: "rs_first_free (Places sl) [0..int (length sl) - 1] s = Ret (case free_place sl of None \<Rightarrow> -1 | Some i \<Rightarrow> int i) s"
  unfolding upto_nats free_place_def by (rule first_free_run) simp

lemma find_hit: "find P xs = Some x \<Longrightarrow> x \<in> set xs \<and> P x"
  by (induction xs) (auto split: if_splits)

lemma free_place_Some:
  assumes "free_place sl = Some i"
  shows "i < length sl" "sl ! i = NULL" "length (live sl) < length sl"
proof -
  show "i < length sl" "sl ! i = NULL" using find_hit [OF assms [unfolded free_place_def]] by simp_all
  then have n: "NULL \<in> set sl" using nth_mem [of i sl] by simp
  show "length (live sl) < length sl" unfolding live_def by (rule length_filter_less [OF n]) simp
qed

lemma free_place_None:
  assumes "free_place sl = None"
  shows "live sl = sl"
proof -
  have "\<forall>i < length sl. sl ! i \<noteq> NULL" using assms by (auto simp: free_place_def find_None_iff)
  then have "\<forall>y \<in> set sl. y \<noteq> NULL" by (metis in_set_conv_nth)
  then show ?thesis unfolding live_def by (rule filter_True)
qed

lemma live_put:
  assumes "i < length sl" and "sl ! i = NULL" and "x \<noteq> NULL"
  shows "mset (live (sl[i := x])) = mset (live sl @ [x])"
proof -
  have "sl = take i sl @ NULL # drop (Suc i) sl" using id_take_nth_drop [OF assms(1)] assms(2) by simp
  then have "live sl = live (take i sl @ NULL # drop (Suc i) sl)" by (rule arg_cong)
  then have l: "live sl = live (take i sl) @ live (drop (Suc i) sl)" by (simp add: live_def)
  have "sl[i := x] = take i sl @ x # drop (Suc i) sl" by (rule upd_conv_take_nth_drop [OF assms(1)])
  then have "live (sl[i := x]) = live (take i sl) @ x # live (drop (Suc i) sl)" using assms(3) by (simp add: live_def)
  then show ?thesis by (simp add: l)
qed

lemma rs_arr_put:
  assumes A: "rs_arr P C sl" and i: "i < length sl" "sl ! i = NULL" and x: "x \<notin> set (live sl)" "x \<noteq> NULL"
  shows "rs_arr P (C\<lparr>rs_tab := t, rs_mtx := False, rs_cnt := rs_cnt C + 1, rs_array := Places (sl[i := x]), rs_idx := (rs_idx C)(x := int i)\<rparr>) (sl[i := x])"
proof -
  have "length (live (sl[i := x])) = length (live sl) + 1" using mset_eq_length [OF live_put [OF i x(2)]] by simp
  moreover have "((rs_idx C)(x := int i)) (sl[i := x] ! j) = int j" if j: "j < length sl" "sl[i := x] ! j \<noteq> NULL" for j
  proof (cases "j = i")
    case False
    then have n: "sl[i := x] ! j = sl ! j" by simp
    then have "sl ! j \<in> set (live sl)" "rs_idx C (sl ! j) = int j" using j A by (simp_all add: live_def rs_arr_def)
    with x(1) n show ?thesis by auto
  qed (use j in simp)
  ultimately show ?thesis using A i(1) by (simp add: rs_arr_def)
qed

lemma rs_arr_drop:
  assumes A: "rs_arr P C sl" and i: "i < length sl" "sl ! i \<noteq> NULL" and d: "distinct (live sl)"
  shows "drop_mod (sl ! i) sl = sl[i := NULL]"
    and "rs_arr P (C\<lparr>rs_tab := t, rs_mtx := False, rs_cnt := rs_cnt C - 1, rs_array := Places (sl[i := NULL])\<rparr>) (sl[i := NULL])"
proof -
  have at: "rs_idx C (sl ! j) = int j" if "j < length sl" "sl ! j \<noteq> NULL" for j using A that by (simp add: rs_arr_def)
  show dm: "drop_mod (sl ! i) sl = sl[i := NULL]" by (rule drop_mod_nth [OF at i])
  have "live (sl[i := NULL]) = filter (\<lambda>y. y \<noteq> sl ! i) (live sl)" using live_drop [of "sl ! i" sl] dm by simp
  moreover have "filter (\<lambda>y. y \<noteq> sl ! i) (live sl) = remove1 (sl ! i) (live sl)"
    using distinct_remove1_removeAll [OF d] by (simp add: removeAll_filter_not_eq neq_commute)
  moreover have "sl ! i \<in> set (live sl)" by (rule live_nth [OF i])
  ultimately have len: "int (length (live (sl[i := NULL]))) = int (length (live sl)) - 1"
    using length_pos_if_in_set [of "sl ! i" "live sl"] by (simp add: length_remove1 of_nat_diff Suc_le_eq)
  moreover have "rs_idx C (sl[i := NULL] ! j) = int j" if "j < length sl" "sl[i := NULL] ! j \<noteq> NULL" for j
    using that at i(1) by (cases "j = i") simp_all
  ultimately show "rs_arr P (C\<lparr>rs_tab := t, rs_mtx := False, rs_cnt := rs_cnt C - 1, rs_array := Places (sl[i := NULL])\<rparr>) (sl[i := NULL])"
    using A by (simp add: rs_arr_def)
qed

subsection \<open>The machine\<close>

definition rs_rep :: "addr set \<Rightarrow> (addr \<Rightarrow> 64 word) \<Rightarrow> (addr \<Rightarrow> 8 word list) \<Rightarrow> addr \<Rightarrow> (addr \<rightharpoonup> 8 word)
    \<Rightarrow> obj_mem \<Rightarrow> rs_cont \<Rightarrow> addr list \<Rightarrow> bool" where
  "rs_rep P ids sk loc ch s C sl \<longleftrightarrow> (\<exists>t. rs_tab C = Some t \<and> mod_tab P ids sk s t (map m_chain (live sl) @ map m_id_link (live sl)))
     \<and> mod_pool P ids sk \<and> rs_named P ids sk \<and> mod_objs P ids sk s \<and> free_seed s loc \<and> o_chr s = ch \<and> rs_arr P C sl
     \<and> distinct (live sl) \<and> set (live sl) \<subseteq> P"

lemma rs_few: "rs_rep P ids sk loc ch s C sl \<Longrightarrow> length (live sl) < 16"
  unfolding rs_rep_def mod_pool_def by (metis card_mono distinct_card le_less_trans)

lemma rs_rep_next:
  assumes R: "rs_rep P ids sk loc ch s C sl" and st: "mod_static s s'" and t: "rs_tab C' = Some t"
    and T: "mod_tab P ids sk s' t (map m_chain xs @ map m_id_link xs)" and m: "mset (live sl') = mset xs"
    and A: "rs_arr P C' sl'" and d: "distinct (live sl')" and P: "set (live sl') \<subseteq> P"
  shows "rs_rep P ids sk loc ch s' C' sl'"
proof -
  have "mod_tab P ids sk s' t (map m_chain (live sl') @ map m_id_link (live sl'))"
    by (rule mod_tab_perm [OF T]) (simp add: m)
  then show ?thesis using R st t A d P mod_objs_static [OF st] free_static [OF st] by (simp add: rs_rep_def mod_static_def)
qed

lemma rs_tab_in:
  assumes R: "rs_rep P ids sk loc ch s C sl" and x: "x \<in> P" and t: "rs_tab C = Some t"
  shows "ol_ptr s (m_chain x) = Some (if x \<in> set (live sl) then x else NULL)"
proof -
  have T: "mod_tab P ids sk s t (map m_chain (live sl) @ map m_id_link (live sl))" and ap: "links_apart P" and lp: "set (live sl) \<subseteq> P"
    using R t by (auto simp: rs_rep_def mod_pool_def)
  have "m_chain x \<noteq> m_id_link y" if "y \<in> set (live sl)" for y using link_names(7) [OF ap x, of y] that lp by auto
  then have "m_chain x \<in> set (map m_chain (live sl) @ map m_id_link (live sl)) \<longleftrightarrow> x \<in> set (live sl)" by auto
  then show ?thesis using T link_names(1,3) [OF ap x] by (simp only: mod_tab_def if_True if_False split: if_split)
qed

lemma rs_add_run:
  assumes R: "rs_rep P ids sk loc ch s C sl" and x: "x \<in> P"
  shows "case free_place sl of None \<Rightarrow> rs_add C x s = Abort Assert_fail
    | Some i \<Rightarrow> if x \<in> set (live sl) then rs_add C x s = Abort Assert_fail
        else \<exists>C' s'. rs_add C x s = Ret C' s' \<and> rs_rep P ids sk loc ch s' C' (sl[i := x])"
proof -
  note R' = R [unfolded rs_rep_def]
  obtain t where t: "rs_tab C = Some t" "mod_tab P ids sk s t (map m_chain (live sl) @ map m_id_link (live sl))" using R' by blast
  have P: "links_apart P" "mod_objs P ids sk s" "rs_named P ids sk" "rs_arr P C sl" "set (live sl) \<subseteq> P" "x \<noteq> NULL" "distinct (live sl)"
    using R' x by (auto simp: mod_pool_def mod_objs_def)
  have C: "\<not> rs_mtx C" "rs_cnt C = int (length (live sl))" "rs_arr_elm C = int (length sl)" "rs_array C = Places sl" using P(4) by (simp_all add: rs_arr_def)
  show ?thesis
  proof (cases "free_place sl")
    case None
    then show ?thesis using free_place_None [OF None] t(1) C by (simp add: rs_add_def rs_the_tab_def rs_lock_def c_eval)
  next
    case (Some i)
    note F = free_place_Some [OF Some]
    show ?thesis
    proof (cases "x \<in> set (live sl)")
      case True
      obtain p c where "o_keystr s x = Some p" "o_chr s p = Some c" "c \<noteq> 0" using rs_name_head [OF P(2,3) x] by blast
      moreover have "ol_ptr s (m_chain x) = Some x" using rs_tab_in [OF R x t(1)] True by simp
      ultimately have "rs_enter t x s = Abort Assert_fail" using P(6) by (simp add: rs_enter_def dho_insert_keystr_def c_eval)
      then show ?thesis using Some True t(1) C F(3) by (simp add: rs_add_def rs_the_tab_def rs_lock_def c_eval)
    next
      case False
      obtain t' s' where e: "rs_enter t x s = Ret t' s'" "mod_tab P ids sk s' t' (map m_chain (live sl @ [x]) @ map m_id_link (live sl @ [x]))" "mod_static s s'"
        using rs_enter_run [OF t(2) P(2,1,3) x False P(5)] by blast
      let ?C = "C\<lparr>rs_tab := Some t', rs_mtx := False, rs_cnt := rs_cnt C + 1, rs_array := Places (sl[i := x]), rs_idx := (rs_idx C)(x := int i)\<rparr>"
      have run: "rs_add C x s = Ret ?C s'"
        using e(1) t(1) C F Some free_place_run [of sl s']
        by (simp add: rs_add_def rs_the_tab_def rs_lock_def rs_unlock_def pl_set_def c_eval Let_def)
      have m: "mset (live (sl[i := x])) = mset (live sl @ [x])" by (rule live_put [OF F(1,2) P(6)])
      have "distinct (live (sl[i := x]))" using mset_eq_imp_distinct_iff [OF m] P(7) False by simp
      moreover have "set (live (sl[i := x])) \<subseteq> P" using mset_eq_setD [OF m] P(5) x by simp
      ultimately have "rs_rep P ids sk loc ch s' ?C (sl[i := x])"
        using rs_rep_next [OF R e(3) _ e(2) m rs_arr_put [OF P(4) F(1,2) False P(6)], of "Some t'"] by simp
      then show ?thesis using Some False run by auto
    qed
  qed
qed

lemma rs_remove_run:
  assumes R: "rs_rep P ids sk loc ch s C sl" and x: "x \<in> P"
  shows "if x \<in> set (live sl) then \<exists>C' s'. rs_remove C x s = Ret C' s' \<and> rs_rep P ids sk loc ch s' C' (drop_mod x sl)
    else rs_remove C x s = Abort Assert_fail"
proof -
  note R' = R [unfolded rs_rep_def]
  obtain t where t: "rs_tab C = Some t" "mod_tab P ids sk s t (map m_chain (live sl) @ map m_id_link (live sl))" using R' by blast
  have P: "links_apart P" "rs_arr P C sl" "set (live sl) \<subseteq> P" "x \<noteq> NULL" "distinct (live sl)"
    using R' x by (auto simp: mod_pool_def mod_objs_def)
  have C: "\<not> rs_mtx C" "rs_array C = Places sl" using P(2) by (simp_all add: rs_arr_def)
  show ?thesis
  proof (cases "x \<in> set (live sl)")
    case True
    then obtain i where i: "i < length sl" "sl ! i = x" by (auto simp: live_def in_set_conv_nth)
    have id: "rs_idx C x = int i" using P(2,4) i by (auto simp: rs_arr_def)
    obtain as cs where xs: "live sl = as @ x # cs" using True by (metis split_list)
    obtain t1 s1 t2 s2 where r: "dho_remove_obj t x s = Ret t1 s1" "dho_remove_chain t1 x (m_id_link x) s1 = Ret t2 s2"
        "mod_tab P ids sk s2 t2 (map m_chain (as @ cs) @ map m_id_link (as @ cs))" "mod_static s s2"
      using mod_links_take [OF t(2) P(1) x P(4) xs] by blast
    let ?C = "C\<lparr>rs_tab := Some t2, rs_mtx := False, rs_cnt := rs_cnt C - 1, rs_array := Places (sl[i := NULL])\<rparr>"
    have run: "rs_remove C x s = Ret ?C s2"
      using r(1,2) t(1) C id i by (simp add: rs_remove_def rs_the_tab_def rs_lock_def rs_unlock_def pl_get_def pl_set_def rs_id_link c_eval)
    have ni: "sl ! i \<noteq> NULL" using i(2) P(4) by simp
    have D: "drop_mod x sl = sl[i := NULL]" "rs_arr P ?C (sl[i := NULL])" using rs_arr_drop [OF P(2) i(1) ni P(5)] i(2) by simp_all
    have "filter (\<lambda>y. y \<noteq> x) as = as" "filter (\<lambda>y. y \<noteq> x) cs = cs" using P(5) xs by (auto intro: filter_True)
    then have l: "live (drop_mod x sl) = as @ cs" by (simp add: live_drop xs)
    have "rs_rep P ids sk loc ch s2 ?C (drop_mod x sl)"
      by (rule rs_rep_next [OF R r(4) _ r(3)]) (use D l P(3,5) xs in simp_all)
    then show ?thesis using True run by auto
  next
    case False
    then have "rs_idx C x = -1 \<or> 0 \<le> rs_idx C x \<and> rs_idx C x < int (length sl) \<and> sl ! nat (rs_idx C x) \<noteq> x"
      using P(2,4) x live_nth [of "nat (rs_idx C x)" sl] by (auto simp: rs_arr_def nat_less_iff)
    then show ?thesis using False t(1) C(2) by (auto simp: rs_remove_def rs_the_tab_def pl_get_def c_eval)
  qed
qed

lemma rs_queries:
  assumes R: "rs_rep P ids sk loc ch s C sl"
  shows "small_key k \<Longrightarrow> \<exists>C'. rs_query_id alloc loc C k s = Ret (or_NULL (key_map ids (live sl) k), C') s \<and> rs_rep P ids sk loc ch s C' sl"
    and "cstr ch p w \<Longrightarrow> \<exists>C'. rs_query_name alloc loc C p s = Ret (or_NULL (key_map sk (live sl) w), C') s \<and> rs_rep P ids sk loc ch s C' sl"
    and "0 \<le> i \<Longrightarrow> rs_query_index C i s = (if i < int (length (live sl)) then Ret (sl ! nat i) s else Abort Assert_fail)"
proof -
  note R' = R [unfolded rs_rep_def]
  obtain t where t: "rs_tab C = Some t" "mod_tab P ids sk s t (map m_chain (live sl) @ map m_id_link (live sl))" using R' by blast
  have P: "links_apart P" "inj_on ids P" "inj_on sk P" "mod_objs P ids sk s" "free_seed s loc" "distinct (live sl)" "o_chr s = ch" "set (live sl) \<subseteq> P" "rs_arr P C sl"
    using R' by (auto simp: mod_pool_def)
  have m: "\<not> rs_mtx C" using P(9) by (simp add: rs_arr_def)
  have keep: "rs_rep P ids sk loc ch s (C\<lparr>rs_tab := Some (t\<lparr>dh_max_chain := c\<rparr>), rs_mtx := False\<rparr>) sl" for c
    using R' t(2) by (simp add: rs_rep_def mod_tab_chain rs_arr_def)
  show "\<exists>C'. rs_query_id alloc loc C k s = Ret (or_NULL (key_map ids (live sl) k), C') s \<and> rs_rep P ids sk loc ch s C' sl" if "small_key k"
    using mod_find_id [OF t(2) P(4,1,5,8,6) rs_few [OF R] P(2) that, of alloc] t(1) keep m
    by (auto simp: rs_query_id_def rs_the_tab_def rs_lock_def rs_unlock_def c_eval)
  show "\<exists>C'. rs_query_name alloc loc C p s = Ret (or_NULL (key_map sk (live sl) w), C') s \<and> rs_rep P ids sk loc ch s C' sl" if "cstr ch p w"
    using mod_find_name [OF t(2) P(4,1,5,8,6) rs_few [OF R] P(3), of p w alloc] t(1) keep m that P(7)
    by (auto simp: rs_query_name_def rs_the_tab_def rs_lock_def rs_unlock_def c_eval)
  have "length (live sl) \<le> length sl" by (simp add: live_def)
  then show "rs_query_index C i s = (if i < int (length (live sl)) then Ret (sl ! nat i) s else Abort Assert_fail)" if "0 \<le> i"
    using P(9) that by (simp add: rs_query_index_def rs_arr_def pl_get_def c_eval)
qed

lemma rs_step:
  assumes R: "rs_rep P ids sk loc ch s C sl" and v: "rs_valid P ch c" and sp: "rs_spec ids sk c sl = Some (r, sl')"
  shows "\<exists>C' s'. rs_exec alloc loc c C s = Ret (r, C') s' \<and> rs_rep P ids sk loc ch s' C' sl'"
proof (cases c)
  case (R_add x)
  then show ?thesis using rs_add_run [OF R, of x] sp v by (auto simp: c_eval split: option.splits if_splits)
next
  case (R_remove x)
  then show ?thesis using rs_remove_run [OF R, of x] sp v by (auto simp: c_eval split: if_splits)
next
  case (R_query_id k)
  then show ?thesis using rs_queries(1) [OF R, of k alloc] sp v by (auto simp: c_eval)
next
  case (R_query_name p w)
  then show ?thesis using rs_queries(2) [OF R, of p w alloc] sp v by (auto simp: c_eval)
next
  case (R_query_index i)
  then show ?thesis using rs_queries(3) [OF R, of i] sp v R by (auto simp: c_eval split: if_splits)
qed

lemma rs_stop:
  assumes R: "rs_rep P ids sk loc ch s C sl" and v: "rs_valid P ch c" and sp: "rs_spec ids sk c sl = None"
  shows "rs_exec alloc loc c C s = Abort Assert_fail"
proof (cases c)
  case (R_add x)
  then show ?thesis using rs_add_run [OF R, of x] sp v by (auto simp: c_eval split: option.splits if_splits)
next
  case (R_remove x)
  then show ?thesis using rs_remove_run [OF R, of x] sp v by (auto simp: c_eval split: if_splits)
next
  case (R_query_index i)
  then show ?thesis using rs_queries(3) [OF R, of i] sp v by (auto simp: c_eval split: if_splits)
qed (use sp in simp_all)

interpretation rsc: c_machine "rs_rep P ids sk loc ch" "rs_exec alloc loc" "rs_spec ids sk" "rs_valid P ch"
  by unfold_locales (rule rs_step, assumption+, rule rs_stop)

subsection \<open>Construction as it is\<close>

lemma pl_clear_past:
  "length xs = m \<Longrightarrow> k = m - i \<Longrightarrow> i \<le> m \<Longrightarrow> pl_clear (Places xs) (map int [i..<Suc m]) s = Abort (Fault m)"
proof (induction k arbitrary: i xs)
  case 0
  then show ?case by (simp add: pl_set_def c_eval)
next
  case (Suc k)
  then have "map int [i..<Suc m] = int i # map int [Suc i..<Suc m]" by (simp add: upt_conv_Cons del: upt_Suc)
  then show ?case using Suc.IH [of "xs[i := NULL]" "Suc i"] Suc.prems by (simp add: pl_set_def c_eval del: upt_Suc)
qed

lemma pl_clear_all:
  "length xs = m \<Longrightarrow> k = m - i \<Longrightarrow> i \<le> m \<Longrightarrow> pl_clear (Places xs) (map int [i..<m]) s = Ret (Places (take i xs @ replicate (m - i) NULL)) s"
proof (induction k arbitrary: i xs)
  case 0
  then show ?case by (simp add: c_eval)
next
  case (Suc k)
  then have i: "i < m" by simp
  then have "map int [i..<m] = int i # map int [Suc i..<m]" by (simp add: upt_conv_Cons)
  moreover have "take (Suc i) (xs[i := NULL]) = take i xs @ [NULL]" using i Suc.prems(1) by (simp add: take_Suc_conv_app_nth)
  moreover have "replicate (m - i) NULL = NULL # replicate (m - Suc i) NULL" using i by (simp add: Suc_diff_Suc flip: replicate_Suc)
  ultimately show ?case using Suc.IH [of "xs[i := NULL]" "Suc i"] Suc.prems i by (simp add: pl_set_def c_eval)
qed

text \<open>C36: the constructor of a container with places writes one place past its array. A container made
  without places takes no resource; enlarging it frees the new array instead of the old one, so
  that the next addition reads freed memory.\<close>

theorem rs_container_unusable:
  assumes al: "fresh_alloc alloc" and pool: "mod_pool P ids sk" "mod_objs P ids sk s" "mod_fresh P s" "rs_named P ids sk"
    and n: "0 < n" "n < 2 ^ 31" and x: "x \<in> P"
  shows "rs_ctor alloc idx (int n) s = Abort (Fault n)
    \<and> (\<exists>C s1. rs_ctor alloc idx 0 s = Ret C s1 \<and> rs_add C x s1 = Abort Assert_fail
        \<and> (\<exists>C'. rs_resize_container C (int n) s1 = Ret C' s1 \<and> rs_array C' = Deleted \<and> rs_add C' x s1 = Abort (Fault NULL)))"
proof
  have N: "0 < int n" "int n < 2 ^ 31" using n by simp_all
  have up: "[0..int n] = map int [0..<Suc n]" using upto_nats [of "Suc n"] by simp
  have "\<exists>t s1. dho_ctor alloc (int n) s = Ret t s1" using mod_tab_made [OF al pool(3) N] by blast
  then show "rs_ctor alloc idx (int n) s = Abort (Fault n)"
    using n(1) pl_clear_past [of "replicate n NULL" n n 0] by (auto simp: rs_ctor_def pl_new_def up c_eval Let_def simp del: upt_Suc)
next
  have sixty: "(0 :: int) < 67" "(67 :: int) < 2 ^ 31" by simp_all
  obtain t s1 where t: "dho_ctor alloc 67 s = Ret t s1" "mod_tab P ids sk s1 t []" "same_objs s s1" using mod_tab_made [OF al pool(3) sixty] by blast
  let ?C = "\<lparr>rs_tab = Some t, rs_mtx = False, rs_cnt = 0, rs_arr_elm = 0, rs_array = No_places, rs_iter_end = It_null, rs_idx = idx\<rparr>"
  let ?C' = "?C\<lparr>rs_array := Deleted, rs_arr_elm := int n, rs_iter_end := It_array (int n)\<rparr>"
  have ap: "links_apart P" and ob: "mod_objs P ids sk s1" using pool(1,2) t(3) by (simp_all add: mod_pool_def mod_objs_def same_objs_def)
  have T: "mod_tab P ids sk s1 t (map m_chain [] @ map m_id_link [])" using t(2) by simp
  obtain t2 s2 where e: "rs_enter t x s1 = Ret t2 s2" using rs_enter_run [OF T ob ap pool(4) x] by auto
  have c: "rs_ctor alloc idx 0 s = Ret ?C s1" using t(1) by (simp add: rs_ctor_def c_eval Let_def)
  have a: "rs_add ?C x s1 = Abort Assert_fail" by (simp add: rs_add_def rs_the_tab_def rs_lock_def c_eval)
  have r: "rs_resize_container ?C (int n) s1 = Ret ?C' s1"
    using n(1) pl_clear_all [of "replicate n NULL" n n 0 s1]
    by (simp add: rs_resize_container_def rs_lock_def rs_unlock_def pl_new_def pl_delete_def upto_nats c_eval Let_def)
  have "[0..int n - 1] = 0 # [1..int n - 1]" using n(1) by (simp add: upto_rec1)
  then have "rs_add ?C' x s1 = Abort (Fault NULL)"
    using n(1) e by (simp add: rs_add_def rs_the_tab_def rs_lock_def pl_get_def c_eval)
  with r have "\<exists>C'. rs_resize_container ?C (int n) s1 = Ret C' s1 \<and> rs_array C' = Deleted \<and> rs_add C' x s1 = Abort (Fault NULL)"
    by (intro exI [of _ ?C'] conjI) simp_all
  with c a show "\<exists>C s1. rs_ctor alloc idx 0 s = Ret C s1 \<and> rs_add C x s1 = Abort Assert_fail
      \<and> (\<exists>C'. rs_resize_container C (int n) s1 = Ret C' s1 \<and> rs_array C' = Deleted \<and> rs_add C' x s1 = Abort (Fault NULL))"
    by blast
qed

theorem rs_container_unusable_witness:
  "rs_ctor top_alloc (\<lambda>_. -1) 8 demo_mod_mem = Abort (Fault 8)
    \<and> (\<exists>C s1. rs_ctor top_alloc (\<lambda>_. -1) 0 demo_mod_mem = Ret C s1 \<and> rs_add C 100 s1 = Abort Assert_fail)"
proof -
  have "rs_named {100, 200} demo_ids demo_names" by (simp add: rs_named_def demo_ids_def demo_names_def)
  from rs_container_unusable [OF fresh_top_alloc demo_mods this, of 8 100 "\<lambda>_. -1"] show ?thesis by auto
qed

text \<open>Resources without a name, or without an id.\<close>

theorem rs_add_unnamed_faults:
  assumes "o_keystr s x = Some p" and "o_chr s p = Some 0" and "o_key64 s x = Some k" and "k \<noteq> 0" and "x \<noteq> NULL"
    and "dlist_rep s (rs_id_link x) []" and "ol_ptr s (rs_id_link x) = Some NULL" and "ol_ptr s (m_chain x) = Some NULL" and "o_key64 s NULL = None"
  shows "rs_enter t x s = Abort (Fault NULL)"
proof -
  have "rs_id_link x \<noteq> m_chain x" "rs_id_link x \<noteq> NULL" by (simp_all add: rs_id_link_def m_chain_def)
  from dho_insert_chain_faults [OF this(1) assms(5) this(2) assms(6-9)] show ?thesis using assms(1-4) by (simp add: rs_enter_def c_eval)
qed

theorem rs_remove_unnamed_asserts:
  assumes "rs_tab C = Some t" and "rs_idx C x = int i" and "rs_array C = Places sl" and "i < length sl" and "sl ! i = x" and "\<not> rs_mtx C"
    and "x \<noteq> NULL" and "ol_ptr s (m_chain x) = Some NULL"
  shows "rs_remove C x s = Abort Assert_fail"
  using assms by (simp add: rs_remove_def rs_the_tab_def rs_lock_def pl_get_def dho_remove_obj_def obj_ptr_def c_eval)

subsection \<open>Snapshots\<close>

lemma pl_copy_all:
  "length ys = length xs \<Longrightarrow> take i ys = take i xs \<Longrightarrow> k = length xs - i \<Longrightarrow> i \<le> length xs
   \<Longrightarrow> pl_copy (Places xs) (Places ys) (map int [i..<length xs]) s = Ret (Places xs) s"
proof (induction k arbitrary: i ys)
  case 0
  then show ?case by (simp add: c_eval)
next
  case (Suc k)
  then have i: "i < length xs" by simp
  then have "map int [i..<length xs] = int i # map int [Suc i..<length xs]" by (simp add: upt_conv_Cons)
  moreover have "take (Suc i) (ys[i := xs ! i]) = take (Suc i) xs" using i Suc.prems(1,2) by (simp add: take_Suc_conv_app_nth)
  ultimately show ?case using Suc.IH [of "ys[i := xs ! i]" "Suc i"] Suc.prems i by (simp add: pl_get_def pl_set_def c_eval)
qed

lemma it_walk_run:
  "k = length sl - i \<Longrightarrow> i \<le> length sl
   \<Longrightarrow> it_walk C \<lparr>it_size = int (length sl), it_curr = It_snap (int i), it_snap = Places sl\<rparr> acc s = Ret (acc @ drop i sl) s"
proof (induction k arbitrary: i acc)
  case 0
  then show ?case by (subst it_walk.simps) (simp add: it_end_def c_eval)
next
  case (Suc k)
  then have i: "i < length sl" by simp
  then have "drop i sl = sl ! i # drop (Suc i) sl" by (simp add: Cons_nth_drop_Suc)
  then show ?case using Suc.IH [of "Suc i" "acc @ [sl ! i]"] Suc.prems i
    by (subst it_walk.simps) (simp add: it_end_def it_deref_def it_incr_def pl_get_def c_eval add.commute)
qed

text \<open>C37: a walk over a snapshot of the container ends and meets what its places held when the snapshot
  was made, in order, whatever is done to the container meanwhile; but a single \<open>it++\<close> frees
  the snapshot, and the iterator can neither be read nor be destroyed after it.\<close>

theorem rs_snapshot_walk:
  assumes "rs_array C = Places sl" and "rs_arr_elm C = int (length sl)" and "\<not> rs_mtx C"
  shows "\<exists>it. rs_snapshot C it_none s = Ret it s \<and> (\<forall>C' s'. it_walk C' it [] s' = Ret sl s')
    \<and> (sl \<noteq> [] \<longrightarrow> (\<forall>s'. \<exists>it'. it_post_incr it s' = Ret it' s' \<and> (\<forall>C'. it_deref C' it' s' = Abort (Fault 1)) \<and> it_dtor it' s' = Abort (Fault NULL)))"
proof -
  let ?n = "length sl"
  let ?it = "\<lparr>it_size = int ?n, it_curr = It_snap 0, it_snap = Places sl\<rparr>"
  have "rs_snapshot C it_none s = Ret ?it s"
    using assms pl_copy_all [of "replicate ?n NULL" sl 0 ?n s] by (simp add: rs_snapshot_def it_none_def rs_lock_def pl_new_def upto_nats c_eval Let_def)
  moreover have "it_walk C' ?it [] s' = Ret sl s'" for C' s' using it_walk_run [of ?n sl 0 C' "[]" s'] by simp
  moreover have "\<exists>it'. it_post_incr ?it s' = Ret it' s' \<and> (\<forall>C'. it_deref C' it' s' = Abort (Fault 1)) \<and> it_dtor it' s' = Abort (Fault NULL)"
    if ne: "sl \<noteq> []" for s'
  proof -
    let ?i = "\<lparr>it_size = int ?n, it_curr = It_snap 1, it_snap = Deleted\<rparr>"
    have "it_post_incr ?it s' = Ret ?i s'"
      using ne pl_clear_all [of sl ?n ?n 0 s'] by (simp add: it_post_incr_def it_incr_def it_dtor_def pl_delete_def upto_nats c_eval)
    moreover have "it_deref C' ?i s' = Abort (Fault 1)" for C' by (simp add: it_deref_def pl_get_def c_eval)
    moreover have "[0..int ?n - 1] = 0 # [1..int ?n - 1]" using ne by (simp add: upto_rec1 Suc_le_eq)
    then have "it_dtor ?i s' = Abort (Fault NULL)" using ne by (simp add: it_dtor_def pl_set_def c_eval)
    ultimately show ?thesis by blast
  qed
  ultimately show ?thesis by blast
qed

theorem rs_snapshot_walk_witness:
  "let C = \<lparr>rs_tab = None, rs_mtx = False, rs_cnt = 2, rs_arr_elm = 3, rs_array = Places [5, 0, 9], rs_iter_end = It_array 3, rs_idx = (\<lambda>_. -1)\<rparr>
   in \<exists>it. rs_snapshot C it_none demo_mod_mem = Ret it demo_mod_mem \<and> (\<forall>C' s'. it_walk C' it [] s' = Ret [5, 0, 9] s')"
  unfolding Let_def
  using rs_snapshot_walk [of "\<lparr>rs_tab = None, rs_mtx = False, rs_cnt = 2, rs_arr_elm = 3, rs_array = Places [5, 0, 9], rs_iter_end = It_array 3, rs_idx = (\<lambda>_. -1)\<rparr>" "[5, 0, 9]" demo_mod_mem]
  by fastforce

subsection \<open>Names of resources\<close>

lemma memcpy_chr_run:
  "\<forall>i < n. o_chr s (p + i) = Some (b i) \<Longrightarrow> p + n \<le> d \<or> d + n \<le> p
   \<Longrightarrow> memcpy_chr d p n s = Ret () (s\<lparr>o_chr := (\<lambda>a. if d \<le> a \<and> a < d + n then Some (b (a - d)) else o_chr s a)\<rparr>)"
proof (induction n arbitrary: d p b s)
  case 0
  have "(\<lambda>a. if d \<le> a \<and> a < d + 0 then Some (b (a - d)) else o_chr s a) = o_chr s" by (auto simp: fun_eq_iff)
  then show ?case by (simp add: c_eval)
next
  case (Suc n)
  let ?s = "s\<lparr>o_chr := (o_chr s)(d \<mapsto> b 0)\<rparr>"
  have b0: "o_chr s p = Some (b 0)" using Suc.prems(1) by (metis add.right_neutral zero_less_Suc)
  have "o_chr ?s (p + 1 + i) = Some (b (Suc i))" if "i < n" for i
    using Suc.prems that spec [OF Suc.prems(1), of "Suc i"] by auto
  then have "memcpy_chr (d + 1) (p + 1) n ?s =
      Ret () (?s\<lparr>o_chr := (\<lambda>a. if d + 1 \<le> a \<and> a < d + 1 + n then Some (b (Suc (a - (d + 1)))) else o_chr ?s a)\<rparr>)"
    using Suc.IH [of ?s "p + 1" "\<lambda>i. b (Suc i)" "d + 1"] Suc.prems(2) by auto
  moreover have "(\<lambda>a. if d + 1 \<le> a \<and> a < d + 1 + n then Some (b (Suc (a - (d + 1)))) else o_chr ?s a)
      = (\<lambda>a. if d \<le> a \<and> a < d + Suc n then Some (b (a - d)) else o_chr s a)"
    by (auto simp: fun_eq_iff Suc_diff_Suc)
  ultimately show ?case using b0 by (simp add: c_eval)
qed

lemma memcpy_chr_fault:
  "o_chr s (p + i) = None \<Longrightarrow> i < n \<Longrightarrow> p + n \<le> d \<or> d + n \<le> p \<Longrightarrow> \<exists>j \<le> i. o_chr s (p + j) = None \<and> memcpy_chr d p n s = Abort (Fault (p + j))"
proof (induction n arbitrary: d p s i)
  case (Suc n)
  show ?case
  proof (cases "o_chr s p")
    case None
    then show ?thesis by (intro exI [of _ 0]) (simp add: c_eval)
  next
    case (Some c)
    then obtain i' where i': "i = Suc i'" using Suc.prems(1) by (cases i) auto
    let ?s = "s\<lparr>o_chr := (o_chr s)(d \<mapsto> c)\<rparr>"
    have "o_chr ?s (p + 1 + i') = None" using Suc.prems i' by auto
    then obtain j where j: "j \<le> i'" "o_chr ?s (p + 1 + j) = None" "memcpy_chr (d + 1) (p + 1) n ?s = Abort (Fault (p + 1 + j))"
      using Suc.IH [of ?s "p + 1" i' "d + 1"] Suc.prems(2,3) i' by auto
    then have "o_chr s (p + Suc j) = None" by (simp split: if_splits)
    then show ?thesis using j Some i' by (intro exI [of _ "Suc j"]) (simp add: c_eval)
  qed
qed simp

text \<open>The constructor of a resource copies 16 bytes of the name it is given. A name of fewer
  characters is the key string of the resource afterwards, when 16 bytes can be read there; it faults when
  one of them cannot be read, also when the string ends before it.\<close>

theorem resource_ctor_name:
  assumes w: "cstr (o_chr s) p w" "length w < rs_name_max" and ap: "p + rs_name_max \<le> rs_name x \<or> rs_name x + rs_name_max \<le> p"
  shows "if \<forall>i < rs_name_max. o_chr s (p + i) \<noteq> None
    then \<exists>s'. resource_ctor x key p s = Ret () s' \<and> o_key64 s' x = Some key \<and> o_keystr s' x = Some (rs_name x) \<and> cstr (o_chr s') (rs_name x) w
    else \<exists>i < rs_name_max. length w < i \<and> o_chr s (p + i) = None \<and> resource_ctor x key p s = Abort (Fault (p + i))"
proof -
  define s1 where "s1 = s\<lparr>dl_next := (dl_next s)(m_chain x \<mapsto> m_chain x, rs_id_link x \<mapsto> rs_id_link x),
     dl_prev := (dl_prev s)(m_chain x \<mapsto> m_chain x, rs_id_link x \<mapsto> rs_id_link x), ol_ptr := (ol_ptr s)(m_chain x \<mapsto> NULL, rs_id_link x \<mapsto> NULL),
     o_keystr := (o_keystr s)(x \<mapsto> rs_name x), o_chr := (o_chr s)(rs_name x \<mapsto> 0), o_key64 := (o_key64 s)(x \<mapsto> key)\<rparr>"
  have run: "resource_ctor x key p s = memcpy_chr (rs_name x) p rs_name_max s1"
    by (simp add: resource_ctor_def resource_init_def odlink_init_def s1_def c_eval)
  have rd: "o_chr s1 (p + i) = o_chr s (p + i)" if "i < rs_name_max" for i using ap that by (auto simp: s1_def)
  have W: "\<forall>i < length w. o_chr s (p + i) = Some (w ! i)" "o_chr s (p + length w) = Some 0" "0 \<notin> set w" using w(1) by (simp_all add: cstr_iff)
  show ?thesis
  proof (cases "\<forall>i < rs_name_max. o_chr s (p + i) \<noteq> None")
    case True
    let ?b = "\<lambda>i. the (o_chr s (p + i))"
    let ?s = "s1\<lparr>o_chr := (\<lambda>a. if rs_name x \<le> a \<and> a < rs_name x + rs_name_max then Some (?b (a - rs_name x)) else o_chr s1 a)\<rparr>"
    have "\<forall>i < rs_name_max. o_chr s1 (p + i) = Some (?b i)" using True rd by auto
    from memcpy_chr_run [where b = ?b, OF this ap] have "resource_ctor x key p s = Ret () ?s" unfolding run .
    moreover have "cstr (o_chr ?s) (rs_name x) w" unfolding cstr_iff using W w(2) by auto
    moreover have "o_key64 ?s x = Some key" "o_keystr ?s x = Some (rs_name x)" by (simp_all add: s1_def)
    ultimately have "\<exists>s'. resource_ctor x key p s = Ret () s' \<and> o_key64 s' x = Some key \<and> o_keystr s' x = Some (rs_name x) \<and> cstr (o_chr s') (rs_name x) w"
      by blast
    then show ?thesis by (simp only: if_P [OF True])
  next
    case False
    then obtain i where i: "i < rs_name_max" "o_chr s1 (p + i) = None" using rd by auto
    obtain j where j: "j \<le> i" "o_chr s1 (p + j) = None" "memcpy_chr (rs_name x) p rs_name_max s1 = Abort (Fault (p + j))" using memcpy_chr_fault [OF i(2,1) ap] by blast
    then have l: "j < rs_name_max" "o_chr s (p + j) = None" using i(1) rd [of j] by simp_all
    have "length w < j"
    proof (rule ccontr)
      assume "\<not> length w < j"
      then show False using W(1,2) l(2) by (cases "j = length w") auto
    qed
    with l j(3) False show ?thesis unfolding run by auto
  qed
qed

definition demo_padded :: obj_mem where
  "demo_padded = demo_mod_mem\<lparr>o_chr := (\<lambda>a. if a = 40 then Some 0x61 else if 40 < a \<and> a < 60 then Some 0 else None)\<rparr>"

theorem resource_ctor_name_witness:
  "(\<exists>i. 2 < i \<and> resource_ctor 1000 7 40 demo_mod_mem = Abort (Fault (40 + i)))
    \<and> (\<exists>s'. resource_ctor 1000 7 40 demo_padded = Ret () s' \<and> o_keystr s' 1000 = Some 1072 \<and> cstr (o_chr s') 1072 [0x61])"
proof
  have c: "cstr (o_chr demo_mod_mem) 40 [0x61, 0x62]" "o_chr demo_mod_mem (40 + 3) = None" by (simp_all add: demo_mod_mem_def demo_str_def)
  have "(3 :: nat) < rs_name_max" by (simp add: rs_name_max_def)
  with c(2) have n: "\<not> (\<forall>i < rs_name_max. o_chr demo_mod_mem (40 + i) \<noteq> None)" by blast
  have "length [0x61, 0x62 :: 8 word] < rs_name_max" "40 + rs_name_max \<le> rs_name 1000 \<or> rs_name 1000 + rs_name_max \<le> 40"
    by (simp_all add: rs_name_max_def rs_name_def)
  from resource_ctor_name [OF c(1) this, of 7, unfolded if_not_P [OF n]]
  show "\<exists>i. 2 < i \<and> resource_ctor 1000 7 40 demo_mod_mem = Abort (Fault (40 + i))" by auto
  have "cstr (o_chr demo_padded) 40 [0x61]" "\<forall>i < 16. o_chr demo_padded (40 + i) \<noteq> None" by (auto simp: demo_padded_def)
  then show "\<exists>s'. resource_ctor 1000 7 40 demo_padded = Ret () s' \<and> o_keystr s' 1000 = Some 1072 \<and> cstr (o_chr s') 1072 [0x61]"
    using resource_ctor_name [of demo_padded 40 "[0x61]" 1000 7] by (auto simp: rs_name_max_def rs_name_def)
qed

end
