(* ===== verification/ModQueue.thy ===== *)
theory ModQueue
  imports LruProps CMachine
begin

text \<open>
  The queues and locks that a module keeps for the objects of its clients (common/di/module.cpp,
  include/di/module.h): an array of lists of objects and an array of mutexes. Arrays lie in memory, one
  address for each place. The queues refine a row of sequences.
\<close>

subsection \<open>Data and operations\<close>

record mod_qs =
  mq_nr_lock :: int
  mq_nr_queue :: int
  mq_queue :: addr
  mq_locks :: addr
  mq_mtx :: bool

definition mq_at :: "mod_qs \<Rightarrow> int \<Rightarrow> (obj_mem, addr) cprog" where
  "mq_at M qno = (if 0 \<le> qno then ret (mq_queue M + nat qno) else abortM (Fault NULL))"

definition mod_alloc_queue :: "obj_mem alloc \<Rightarrow> mod_qs \<Rightarrow> int \<Rightarrow> (obj_mem, mod_qs) cprog" where
  "mod_alloc_queue alloc M num =
     seqM (assertM (mq_queue M = NULL))
    (bindM (malloc_dlists alloc num) (\<lambda>q.
     seqM (forM [0..<nat num] (\<lambda>i. dl_ctor (q + i)))
     (ret (M\<lparr>mq_queue := q, mq_nr_queue := num\<rparr>))))"

definition q_enqueue :: "mod_qs \<Rightarrow> addr \<Rightarrow> int \<Rightarrow> (obj_mem, unit) cprog" where
  "q_enqueue M obj qno =
     seqM (assertM (qno < mq_nr_queue M \<and> mq_queue M \<noteq> NULL)) (bindM (mq_at M qno) (\<lambda>l. dl_add_back l obj))"

definition q_front_queue :: "mod_qs \<Rightarrow> addr \<Rightarrow> int \<Rightarrow> (obj_mem, unit) cprog" where
  "q_front_queue M obj qno =
     seqM (assertM (qno < mq_nr_queue M \<and> mq_queue M \<noteq> NULL)) (bindM (mq_at M qno) (\<lambda>l. dl_add_front l obj))"

definition q_dequeue :: "mod_qs \<Rightarrow> int \<Rightarrow> (obj_mem, addr) cprog" where
  "q_dequeue M qno =
     seqM (assertM (qno < mq_nr_queue M \<and> mq_queue M \<noteq> NULL)) (bindM (mq_at M qno) dl_rm_front)"

text \<open>\<open>Object::obj_rm\<close>.\<close>

definition object_rm :: "addr \<Rightarrow> (obj_mem, unit) cprog" where
  "object_rm obj =
     bindM (dlist_empty (m_chain obj)) (\<lambda>b.
     if \<not> b then obj_rm (m_chain obj) else bindM (rd ol_ptr (m_chain obj)) (\<lambda>p. assertM (p = NULL)))"

definition q_swap_queue :: "mod_qs \<Rightarrow> addr \<Rightarrow> int \<Rightarrow> (obj_mem, unit) cprog" where
  "q_swap_queue M obj qno =
     seqM (assertM (qno < mq_nr_queue M \<and> mq_queue M \<noteq> NULL))
    (seqM (object_rm obj) (bindM (mq_at M qno) (\<lambda>l. dl_add_back l obj)))"

text \<open>The calls that take the mutex of the module; it is free again when they return.\<close>

definition with_mtx :: "mod_qs \<Rightarrow> (obj_mem, 'v) cprog \<Rightarrow> (obj_mem, 'v) cprog" where
  "with_mtx M p s = (if mq_mtx M then None else p s)"

definition enqueue :: "mod_qs \<Rightarrow> addr \<Rightarrow> int \<Rightarrow> (obj_mem, unit) cprog" where
  "enqueue M obj qno = with_mtx M (q_enqueue M obj qno)"

definition dequeue :: "mod_qs \<Rightarrow> addr \<Rightarrow> (obj_mem, unit) cprog" where
  "dequeue M obj = with_mtx M (object_rm obj)"

definition swap_queue :: "mod_qs \<Rightarrow> addr \<Rightarrow> int \<Rightarrow> (obj_mem, unit) cprog" where
  "swap_queue M obj qno = with_mtx M (q_swap_queue M obj qno)"

text \<open>\<open>qno\<close> is the member \<open>rq_mod_qno\<close> of the request.\<close>

definition mod_exec :: "mod_qs \<Rightarrow> addr \<Rightarrow> int \<Rightarrow> (obj_mem, unit) cprog" where
  "mod_exec M req qno = seqM (assertM (qno \<ge> 0 \<and> qno < mq_nr_queue M)) (enqueue M req qno)"

text \<open>\<open>sched\<close> is the call of the pool, \<open>qnos\<close> the members \<open>rq_mod_qno\<close> of the requests.\<close>

definition mod_schedule ::
  "((addr \<Rightarrow> int) \<Rightarrow> addr \<Rightarrow> int \<Rightarrow> ('s, unit) cprog) \<Rightarrow> (addr \<Rightarrow> int) \<Rightarrow> addr \<Rightarrow> int \<Rightarrow> int \<Rightarrow> ('s, addr \<Rightarrow> int) cprog" where
  "mod_schedule sched qnos req mod_qno thp_qno =
     (let qnos' = qnos(req := mod_qno) in seqM (sched qnos' req thp_qno) (ret qnos'))"

text \<open>The mutexes are at \<open>mem_new\<close>, which \<open>new\<close> returns.\<close>

definition mod_alloc_locks :: "addr \<Rightarrow> mod_qs \<Rightarrow> int \<Rightarrow> (obj_mem, mod_qs) cprog" where
  "mod_alloc_locks mem_new M num = seqM (assertM (mq_locks M = NULL)) (ret (M\<lparr>mq_locks := mem_new, mq_nr_lock := num\<rparr>))"

definition mod_get_lock_idx :: "mod_qs \<Rightarrow> int \<Rightarrow> (obj_mem, addr) cprog" where
  "mod_get_lock_idx M i =
     seqM (assertM (mq_locks M \<noteq> NULL \<and> i \<ge> 0))
     (if mq_nr_lock M = 0 then abortM Div_zero else ret (mq_locks M + nat (i mod mq_nr_lock M)))"

definition mod_get_lock_ptr :: "mod_qs \<Rightarrow> 64 word \<Rightarrow> (obj_mem, addr) cprog" where
  "mod_get_lock_ptr M p =
     seqM (assertM (mq_locks M \<noteq> NULL))
     (if (word_of_int (mq_nr_lock M) :: 64 word) = 0 then abortM Div_zero
      else ret (mq_locks M + unat (drop_bit 4 p mod word_of_int (mq_nr_lock M))))"

subsection \<open>The queues in memory\<close>

definition link_rows :: "addr list list \<Rightarrow> addr list list" where
  "link_rows qs = map (map m_chain) qs"

definition mq_rep :: "addr set \<Rightarrow> obj_mem \<Rightarrow> mod_qs \<Rightarrow> addr list list \<Rightarrow> bool" where
  "mq_rep P s M qs \<longleftrightarrow> \<not> mq_mtx M \<and> mq_queue M \<noteq> NULL \<and> mq_nr_queue M = int (length qs) \<and> rings s (mq_queue M) (link_rows qs)
     \<and> set (concat qs) \<subseteq> P
     \<and> (\<forall>x \<in> P. x \<noteq> NULL \<and> is_dlink s (m_chain x) \<and> m_chain x \<notin> arr (mq_queue M) (length qs)
        \<and> ol_ptr s (m_chain x) = Some (if x \<in> set (concat qs) then x else NULL)
        \<and> (x \<notin> set (concat qs) \<longrightarrow> dl_next s (m_chain x) = Some (m_chain x) \<and> dl_prev s (m_chain x) = Some (m_chain x)))"

lemma rows_simps [simp]:
  "length (link_rows qs) = length qs" "i < length qs \<Longrightarrow> link_rows qs ! i = map m_chain (qs ! i)"
  "link_rows (qs[i := ys]) = (link_rows qs)[i := map m_chain ys]"
  by (simp_all add: link_rows_def map_update)

lemma rows_nodes: "m_chain x \<in> nodes b (link_rows qs) \<longleftrightarrow> m_chain x \<in> arr b (length qs) \<or> x \<in> set (concat qs)"
  by (auto simp: nodes_def link_rows_def)

lemma mq_links:
  assumes "mq_rep P s M qs" and "x \<in> P"
  shows "x \<noteq> NULL" "is_dlink s (m_chain x)" "ol_ptr s (m_chain x) = Some (if x \<in> set (concat qs) then x else NULL)"
    "x \<notin> set (concat qs) \<Longrightarrow> dl_next s (m_chain x) = Some (m_chain x)" "x \<notin> set (concat qs) \<Longrightarrow> dl_prev s (m_chain x) = Some (m_chain x)"
    "x \<notin> set (concat qs) \<Longrightarrow> m_chain x \<notin> nodes (mq_queue M) (link_rows qs)"
  using assms by (auto simp: mq_rep_def rows_nodes)

text \<open>An object enters a queue between two parts of it.\<close>

lemma mq_others:
  assumes R: "mq_rep P s M qs" and i: "i < length qs" and y: "y \<in> P" "y \<notin> set (concat qs)"
    and sub: "set us \<union> set vs \<subseteq> set (map m_chain (qs ! i))"
  shows "m_chain y \<noteq> before (mq_queue M + i) us" "m_chain y \<noteq> after (mq_queue M + i) vs"
proof -
  have "set ((mq_queue M + i) # map m_chain (qs ! i)) \<subseteq> nodes (mq_queue M) (link_rows qs)"
    using ring_in_nodes [of i "link_rows qs" "mq_queue M"] i by simp
  with mq_links(6) [OF R y] sub have "m_chain y \<notin> set ((mq_queue M + i) # us)" "m_chain y \<notin> set ((mq_queue M + i) # vs)" by auto
  then show "m_chain y \<noteq> before (mq_queue M + i) us" "m_chain y \<noteq> after (mq_queue M + i) vs"
    using before_in [of "mq_queue M + i" us] after_in [of "mq_queue M + i" vs] by auto
qed

lemma mq_put:
  assumes R: "mq_rep P s M qs" and i: "i < length qs" "qs ! i = us @ vs" and x: "x \<in> P" "x \<notin> set (concat qs)"
    and s': "s' = dl_put (mq_queue M + i) (map m_chain us) (m_chain x) (map m_chain vs) s"
    and s2: "dl_next s2 = dl_next s'" "dl_prev s2 = dl_prev s'" "ol_ptr s2 = (ol_ptr s)(m_chain x \<mapsto> x)"
  shows "mq_rep P s2 M (qs[i := us @ x # vs])"
proof -
  note X = mq_links [OF R x(1)]
  have rg: "rings s (mq_queue M) (link_rows qs)" using R by (simp add: mq_rep_def)
  have ci: "i < length (link_rows qs)" "link_rows qs ! i = map m_chain us @ map m_chain vs" using i by simp_all
  have "rings s' (mq_queue M) (link_rows (qs[i := us @ x # vs]))" using rings_put [OF rg ci X(2) X(6) [OF x(2)]] i(1) by (simp add: s')
  moreover have "rings s2 (mq_queue M) bs = rings s' (mq_queue M) bs" for bs by (rule rings_cong) (simp add: s2)
  ultimately have rg': "rings s2 (mq_queue M) (link_rows (qs[i := us @ x # vs]))" by simp
  have ri: "dlist_rep s (mq_queue M + i) (map m_chain us @ map m_chain vs)" using ringsD(1) [OF rg ci(1)] ci(2) by simp
  have dl: "is_dlink s2 p \<longleftrightarrow> is_dlink s p" for p using dom_put [OF ri X(2)] by (simp add: is_dlink_def s' s2)
  have ms: "mset (concat (qs[i := us @ x # vs])) = add_mset x (mset (concat qs))" by (rule mset_concat_put [OF i])
  then have els: "set (concat (qs[i := us @ x # vs])) = insert x (set (concat qs))" by (metis set_mset_add_mset_insert set_mset_mset)
  have sub: "set (map m_chain us) \<union> set (map m_chain vs) \<subseteq> set (map m_chain (qs ! i))" using i(2) by auto
  show ?thesis unfolding mq_rep_def els
  proof (intro conjI ballI)
    fix y assume y: "y \<in> P"
    note Y = mq_links [OF R y]
    show "y \<noteq> NULL" "is_dlink s2 (m_chain y)" using Y(1,2) dl by simp_all
    show "ol_ptr s2 (m_chain y) = Some (if y \<in> insert x (set (concat qs)) then y else NULL)" using Y(3) by (simp add: s2)
    show "y \<notin> insert x (set (concat qs)) \<longrightarrow> dl_next s2 (m_chain y) = Some (m_chain y) \<and> dl_prev s2 (m_chain y) = Some (m_chain y)"
      using mq_others [OF R i(1) y _ sub] Y(4,5) by (auto simp: s2 s' dl_put_def simp del: set_concat)
  qed (use R rg' x in \<open>simp_all add: mq_rep_def del: set_concat\<close>)
qed

text \<open>An object leaves its queue.\<close>

lemma mq_cut:
  assumes R: "mq_rep P s M qs" and i: "i < length qs" "qs ! i = us @ x # vs"
    and s': "s' = dl_cut (mq_queue M + i) (map m_chain us) (map m_chain vs) s"
    and s2: "dl_next s2 = (dl_next s')(m_chain x \<mapsto> m_chain x)" "dl_prev s2 = (dl_prev s')(m_chain x \<mapsto> m_chain x)"
      "ol_ptr s2 = (ol_ptr s)(m_chain x \<mapsto> NULL)"
  shows "mq_rep P s2 M (qs[i := us @ vs])" and "x \<notin> set (concat (qs[i := us @ vs]))"
proof -
  have rg: "rings s (mq_queue M) (link_rows qs)" using R by (simp add: mq_rep_def)
  have ci: "i < length (link_rows qs)" "link_rows qs ! i = map m_chain us @ m_chain x # map m_chain vs" using i by simp_all
  have fr: "m_chain x \<notin> nodes (mq_queue M) (link_rows (qs[i := us @ vs]))" using rings_cut_fresh [OF rg ci] i(1) by simp
  show nx: "x \<notin> set (concat (qs[i := us @ vs]))" by (rule conjunct2 [OF fr [unfolded rows_nodes de_Morgan_disj]])
  have "rings s' (mq_queue M) (link_rows (qs[i := us @ vs]))" using rings_cut [OF rg ci] i(1) by (simp add: s')
  moreover have "rings s2 (mq_queue M) (link_rows (qs[i := us @ vs])) = rings s' (mq_queue M) (link_rows (qs[i := us @ vs]))"
    by (rule rings_cong) (use fr in \<open>auto simp: s2\<close>)
  ultimately have rg': "rings s2 (mq_queue M) (link_rows (qs[i := us @ vs]))" by simp
  have ri: "dlist_rep s (mq_queue M + i) (map m_chain us @ m_chain x # map m_chain vs)" using ringsD(1) [OF rg ci(1)] ci(2) by simp
  have dl: "is_dlink s p \<Longrightarrow> is_dlink s2 p" for p using dom_cut [OF ri] by (auto simp: is_dlink_def s' s2)
  have ms: "mset (concat qs) = add_mset x (mset (concat (qs[i := us @ vs])))" by (rule mset_concat_cut [OF i])
  then have els: "set (concat qs) = insert x (set (concat (qs[i := us @ vs])))" by (metis set_mset_add_mset_insert set_mset_mset)
  have sub: "set (map m_chain us) \<union> set (map m_chain vs) \<subseteq> set (map m_chain (qs ! i))" using i(2) by auto
  have lp: "set (concat (qs[i := us @ vs])) \<subseteq> P" using R els by (auto simp: mq_rep_def simp del: set_concat)
  show "mq_rep P s2 M (qs[i := us @ vs])" unfolding mq_rep_def
  proof (intro conjI ballI)
    fix y assume y: "y \<in> P"
    note Y = mq_links [OF R y]
    show "y \<noteq> NULL" "is_dlink s2 (m_chain y)" using Y(1,2) dl by simp_all
    show "ol_ptr s2 (m_chain y) = Some (if y \<in> set (concat (qs[i := us @ vs])) then y else NULL)" using Y(3) els nx by (simp add: s2 del: set_concat)
    show "y \<notin> set (concat (qs[i := us @ vs])) \<longrightarrow> dl_next s2 (m_chain y) = Some (m_chain y) \<and> dl_prev s2 (m_chain y) = Some (m_chain y)"
      using mq_others [OF R i(1) y _ sub] Y(4,5) els by (auto simp: s2 s' dl_cut_def simp del: set_concat)
  qed (use R rg' lp in \<open>simp_all add: mq_rep_def del: set_concat\<close>)
qed

subsection \<open>What the operations do\<close>

lemma mq_at_run: "0 \<le> i \<Longrightarrow> mq_at M i s = Ret (mq_queue M + nat i) s"
  by (simp add: mq_at_def c_eval)

lemma in_queue:
  assumes "x \<in> set (concat qs)"
  obtains i us vs where "i < length qs" "qs ! i = us @ x # vs"
proof -
  obtain q where q: "q \<in> set qs" "x \<in> set q" using assms by auto
  then obtain i where "i < length qs" "qs ! i = q" by (metis in_set_conv_nth)
  with q(2) that show thesis by (metis split_list)
qed

lemma mq_free:
  assumes R: "mq_rep P s M qs" and x: "x \<in> P"
  shows "empty_with (m_chain x) NULL s = Ret (x \<notin> set (concat qs)) s"
proof (cases "x \<in> set (concat qs)")
  case True
  then have "ol_ptr s (m_chain x) = Some x" "x \<noteq> NULL" "is_dlink s (m_chain x)" using mq_links [OF R x] by simp_all
  then show ?thesis using True by (auto simp: empty_with_def dlist_empty_def is_dlink_def c_eval simp del: set_concat)
next
  case False
  then show ?thesis using mq_links(3-5) [OF R x] by (simp add: empty_with_def dlist_empty_def c_eval del: set_concat)
qed

lemma mq_fits:
  assumes R: "mq_rep P s M qs" and i: "i < length qs" and x: "x \<in> P" "x \<notin> set (concat qs)"
  shows "dlist_rep s (mq_queue M + i) (map m_chain (qs ! i))" "m_chain x \<notin> set ((mq_queue M + i) # map m_chain (qs ! i))"
proof -
  have "rings s (mq_queue M) (link_rows qs)" using R by (simp add: mq_rep_def)
  from ringsD(1) [OF this, of i] i show "dlist_rep s (mq_queue M + i) (map m_chain (qs ! i))" by simp
  show "m_chain x \<notin> set ((mq_queue M + i) # map m_chain (qs ! i))"
    using mq_links(6) [OF R x] ring_in_nodes [of i "link_rows qs" "mq_queue M"] i by auto
qed

lemma mq_add_back:
  assumes R: "mq_rep P s M qs" and i: "i < length qs" and x: "x \<in> P"
  shows "if x \<in> set (concat qs) then dl_add_back (mq_queue M + i) x s = Abort Assert_fail
    else \<exists>s'. dl_add_back (mq_queue M + i) x s = Ret () s' \<and> mq_rep P s' M (qs[i := qs ! i @ [x]])"
proof (cases "x \<in> set (concat qs)")
  case True
  then show ?thesis using mq_free [OF R x] by (simp add: dl_add_back_def obj_add_back_def c_eval del: set_concat)
next
  case False
  note X = mq_links [OF R x]
  note ri = mq_fits [OF R i x False]
  let ?s' = "dl_put (mq_queue M + i) (map m_chain (qs ! i)) (m_chain x) [] s"
  have "ol_ptr ?s' = ol_ptr s" using put_objs(1) by (simp add: same_objs_def)
  then have "dl_add_back (mq_queue M + i) x s = Ret () (?s'\<lparr>ol_ptr := (ol_ptr s)(m_chain x \<mapsto> x)\<rparr>)"
    using False X(3) mq_free [OF R x] dlist_add_back_run [OF ri(1) X(2) ri(2)]
    by (simp add: dl_add_back_def obj_add_back_def c_eval del: set_concat)
  moreover have "mq_rep P (?s'\<lparr>ol_ptr := (ol_ptr s)(m_chain x \<mapsto> x)\<rparr>) M (qs[i := qs ! i @ x # []])"
    by (rule mq_put [OF R i _ x False, where s' = ?s']) simp_all
  ultimately show ?thesis using False by simp
qed

lemma mq_add_front:
  assumes R: "mq_rep P s M qs" and i: "i < length qs" and x: "x \<in> P"
  shows "if x \<in> set (concat qs) then dl_add_front (mq_queue M + i) x s = Abort Assert_fail
    else \<exists>s'. dl_add_front (mq_queue M + i) x s = Ret () s' \<and> mq_rep P s' M (qs[i := x # qs ! i])"
proof (cases "x \<in> set (concat qs)")
  case True
  then show ?thesis using mq_free [OF R x] by (simp add: dl_add_front_def obj_add_front_def c_eval del: set_concat)
next
  case False
  note X = mq_links [OF R x]
  note ri = mq_fits [OF R i x False]
  let ?s' = "dl_put (mq_queue M + i) [] (m_chain x) (map m_chain (qs ! i)) s"
  have "ol_ptr ?s' = ol_ptr s" using put_objs(1) by (simp add: same_objs_def)
  then have "dl_add_front (mq_queue M + i) x s = Ret () (?s'\<lparr>ol_ptr := (ol_ptr s)(m_chain x \<mapsto> x)\<rparr>)"
    using False X(3) mq_free [OF R x] dlist_add_front_run [OF ri(1) X(2) ri(2)]
    by (simp add: dl_add_front_def obj_add_front_def c_eval del: set_concat)
  moreover have "mq_rep P (?s'\<lparr>ol_ptr := (ol_ptr s)(m_chain x \<mapsto> x)\<rparr>) M (qs[i := [] @ x # qs ! i])"
    by (rule mq_put [OF R i _ x False, where s' = ?s']) simp_all
  ultimately show ?thesis using False by simp
qed

lemma mq_rm_front:
  assumes R: "mq_rep P s M qs" and i: "i < length qs"
  shows "case qs ! i of [] \<Rightarrow> dl_rm_front (mq_queue M + i) s = Ret NULL s
    | x # xs \<Rightarrow> \<exists>s'. dl_rm_front (mq_queue M + i) s = Ret x s' \<and> mq_rep P s' M (qs[i := xs])"
proof -
  have rg: "rings s (mq_queue M) (link_rows qs)" using R by (simp add: mq_rep_def)
  have ri: "dlist_rep s (mq_queue M + i) (map m_chain (qs ! i))" using ringsD(1) [OF rg, of i] i by simp
  show ?thesis
  proof (cases "qs ! i")
    case Nil
    then have "dlist_rep s (mq_queue M + i) []" using ri by simp
    then show ?thesis using Nil dlist_empty_run [of s "mq_queue M + i" "[]"]
      by (simp add: dl_rm_front_def obj_rm_front_def dlist_rm_front_def obj_detach_def c_eval)
  next
    case (Cons x xs)
    let ?s1 = "dl_cut (mq_queue M + i) [] (map m_chain xs) s"
    have "x # xs \<in> set qs" using nth_mem [OF i] Cons by simp
    then have "x \<in> set (concat qs)" unfolding set_concat by (rule UN_I) simp
    moreover from this have xP: "x \<in> P" using R by (auto simp: mq_rep_def simp del: set_concat)
    ultimately have x: "x \<in> P" "ol_ptr s (m_chain x) = Some x" "x \<noteq> NULL" "is_dlink s (m_chain x)" "x \<in> set (concat qs)"
      using mq_links(1-3) [OF R xP] by simp_all
    have ri': "dlist_rep s (mq_queue M + i) (m_chain x # map m_chain xs)" using ri Cons by simp
    have l: "is_dlink ?s1 (m_chain x)" "ol_ptr ?s1 = ol_ptr s"
      using x(4) dom_cut [of s "mq_queue M + i" "[]" "m_chain x" "map m_chain xs"] ri' put_objs(2) by (simp_all add: is_dlink_def same_objs_def)
    let ?s0 = "?s1\<lparr>ol_ptr := (ol_ptr s)(m_chain x \<mapsto> NULL)\<rparr>"
    have l0: "is_dlink ?s0 (m_chain x)" using l(1) by (simp add: is_dlink_def)
    let ?s2 = "?s0\<lparr>dl_next := (dl_next ?s0)(m_chain x \<mapsto> m_chain x), dl_prev := (dl_prev ?s0)(m_chain x \<mapsto> m_chain x)\<rparr>"
    have "dl_rm_front (mq_queue M + i) s = Ret x ?s2"
      using dlist_rm_front_run [OF ri'] dlist_init_run [OF l0] x(2,3) l(2)
      by (simp add: dl_rm_front_def obj_rm_front_def obj_detach_def c_eval)
    moreover have "mq_rep P ?s2 M (qs[i := [] @ xs])"
      by (rule mq_cut(1) [OF R i, where us = "[]" and s' = ?s1]) (simp_all add: Cons)
    ultimately show ?thesis using Cons by simp
  qed
qed

definition q_drop :: "addr \<Rightarrow> addr list list \<Rightarrow> addr list list" where
  "q_drop x qs = map (filter (\<lambda>y. y \<noteq> x)) qs"

lemma q_drop_out: "x \<notin> set (concat qs) \<Longrightarrow> q_drop x qs = qs"
  unfolding q_drop_def by (rule map_idI) (auto simp: filter_id_conv)

lemma q_drop_at:
  assumes i: "i < length qs" "qs ! i = us @ x # vs" and nx: "x \<notin> set (concat (qs[i := us @ vs]))"
  shows "q_drop x qs = qs[i := us @ vs]"
proof (rule nth_equalityI)
  fix j assume "j < length (q_drop x qs)"
  then have j: "j < length (qs[i := us @ vs])" "j < length qs" by (simp_all add: q_drop_def)
  have "x \<notin> set (qs[i := us @ vs] ! j)" using nx nth_mem [OF j(1)] by auto
  then have "filter (\<lambda>y. y \<noteq> x) (qs[i := us @ vs] ! j) = qs[i := us @ vs] ! j" by (auto simp: filter_id_conv)
  then show "q_drop x qs ! j = qs[i := us @ vs] ! j" using i j by (cases "j = i") (simp_all add: q_drop_def)
qed (simp add: q_drop_def)

lemma mq_object_rm:
  assumes R: "mq_rep P s M qs" and x: "x \<in> P"
  shows "\<exists>s'. object_rm x s = Ret () s' \<and> mq_rep P s' M (q_drop x qs) \<and> x \<notin> set (concat (q_drop x qs))"
proof (cases "x \<in> set (concat qs)")
  case False
  then show ?thesis using mq_links [OF R x] R q_drop_out [OF False]
    by (auto simp: object_rm_def dlist_empty_def c_eval simp del: set_concat)
next
  case True
  obtain i us vs where i: "i < length qs" "qs ! i = us @ x # vs" using in_queue [OF True] .
  note X = mq_links [OF R x]
  have rg: "rings s (mq_queue M) (link_rows qs)" using R by (simp add: mq_rep_def)
  let ?l = "mq_queue M + i" and ?us = "map m_chain us" and ?vs = "map m_chain vs"
  have ri: "dlist_rep s ?l (?us @ m_chain x # ?vs)" using ringsD(1) [OF rg, of i] i by simp
  have nx: "dl_next s (m_chain x) = Some (after ?l ?vs)" "after ?l ?vs \<noteq> m_chain x"
    using ri ring_ends [of s ?l "?us @ [m_chain x]" ?vs] after_in [of ?l ?vs] by (auto simp: dlist_rep_def)
  let ?s1 = "dl_cut ?l ?us ?vs s"
  have l: "is_dlink ?s1 (m_chain x)" "ol_ptr ?s1 = ol_ptr s" using X(2) dom_cut [OF ri] put_objs(2) by (simp_all add: is_dlink_def same_objs_def)
  let ?s2 = "?s1\<lparr>dl_next := (dl_next ?s1)(m_chain x \<mapsto> m_chain x), dl_prev := (dl_prev ?s1)(m_chain x \<mapsto> m_chain x),
    ol_ptr := (ol_ptr s)(m_chain x \<mapsto> NULL)\<rparr>"
  have run: "object_rm x s = Ret () ?s2"
    using nx dlist_rm_run [OF ri] dlist_init_run [OF l(1)] X(1,3) True l(2)
    by (simp add: object_rm_def dlist_empty_def obj_rm_def dlist_rm_init_def c_eval del: set_concat)
  have cut: "mq_rep P ?s2 M (qs[i := us @ vs])" "x \<notin> set (concat (qs[i := us @ vs]))"
    using mq_cut [OF R i, where s' = ?s1 and ?s2.0 = ?s2] by simp_all
  then show ?thesis using run unfolding q_drop_at [OF i cut(2)] by blast
qed

subsection \<open>The machine\<close>

datatype q_cmd = Q_enqueue addr int | Q_front addr int | Q_dequeue int | Q_rm addr | Q_swap addr int

definition q_put :: "(addr list \<Rightarrow> addr list) \<Rightarrow> addr \<Rightarrow> int \<Rightarrow> addr list list \<Rightarrow> (addr \<times> addr list list) option" where
  "q_put f x i qs = (if i < int (length qs) \<and> x \<notin> set (concat qs) then Some (NULL, qs[nat i := f (qs ! nat i)]) else None)"

fun q_spec :: "q_cmd \<Rightarrow> addr list list \<Rightarrow> (addr \<times> addr list list) option" where
  "q_spec (Q_enqueue x i) qs = q_put (\<lambda>q. q @ [x]) x i qs"
| "q_spec (Q_front x i) qs = q_put (\<lambda>q. x # q) x i qs"
| "q_spec (Q_dequeue i) qs = (if i < int (length qs)
     then Some (case qs ! nat i of [] \<Rightarrow> (NULL, qs) | x # xs \<Rightarrow> (x, qs[nat i := xs])) else None)"
| "q_spec (Q_rm x) qs = Some (NULL, q_drop x qs)"
| "q_spec (Q_swap x i) qs = q_put (\<lambda>q. q @ [x]) x i (q_drop x qs)"

fun q_exec :: "q_cmd \<Rightarrow> mod_qs \<Rightarrow> (obj_mem, addr \<times> mod_qs) cprog" where
  "q_exec (Q_enqueue x i) M = seqM (enqueue M x i) (ret (NULL, M))"
| "q_exec (Q_front x i) M = seqM (q_front_queue M x i) (ret (NULL, M))"
| "q_exec (Q_dequeue i) M = bindM (q_dequeue M i) (\<lambda>x. ret (x, M))"
| "q_exec (Q_rm x) M = seqM (dequeue M x) (ret (NULL, M))"
| "q_exec (Q_swap x i) M = seqM (swap_queue M x i) (ret (NULL, M))"

fun q_valid :: "addr set \<Rightarrow> q_cmd \<Rightarrow> bool" where
  "q_valid P (Q_enqueue x i) \<longleftrightarrow> x \<in> P \<and> 0 \<le> i"
| "q_valid P (Q_front x i) \<longleftrightarrow> x \<in> P \<and> 0 \<le> i"
| "q_valid P (Q_dequeue i) \<longleftrightarrow> 0 \<le> i"
| "q_valid P (Q_rm x) \<longleftrightarrow> x \<in> P"
| "q_valid P (Q_swap x i) \<longleftrightarrow> x \<in> P \<and> 0 \<le> i"

lemma mq_head: "mq_rep P s M qs \<Longrightarrow> \<not> mq_mtx M \<and> mq_queue M \<noteq> NULL \<and> mq_nr_queue M = int (length qs)"
  by (simp add: mq_rep_def)

lemma q_enqueue_run:
  assumes R: "mq_rep P s M qs" and x: "x \<in> P" and i: "0 \<le> i"
  shows "case q_put (\<lambda>q. q @ [x]) x i qs of None \<Rightarrow> q_enqueue M x i s = Abort Assert_fail
    | Some r \<Rightarrow> \<exists>s'. q_enqueue M x i s = Ret () s' \<and> mq_rep P s' M (snd r)"
proof (cases "i < int (length qs)")
  case True
  then have n: "nat i < length qs" using i by simp
  show ?thesis using True mq_head [OF R] mq_add_back [OF R n x] mq_at_run [OF i]
    by (auto simp: q_put_def q_enqueue_def c_eval simp del: set_concat)
next
  case False
  then show ?thesis using mq_head [OF R] by (simp add: q_put_def q_enqueue_def c_eval)
qed

lemma q_front_run:
  assumes R: "mq_rep P s M qs" and x: "x \<in> P" and i: "0 \<le> i"
  shows "case q_put (\<lambda>q. x # q) x i qs of None \<Rightarrow> q_front_queue M x i s = Abort Assert_fail
    | Some r \<Rightarrow> \<exists>s'. q_front_queue M x i s = Ret () s' \<and> mq_rep P s' M (snd r)"
proof (cases "i < int (length qs)")
  case True
  then have n: "nat i < length qs" using i by simp
  show ?thesis using True mq_head [OF R] mq_add_front [OF R n x] mq_at_run [OF i]
    by (auto simp: q_put_def q_front_queue_def c_eval simp del: set_concat)
next
  case False
  then show ?thesis using mq_head [OF R] by (simp add: q_put_def q_front_queue_def c_eval)
qed

lemma q_dequeue_run:
  assumes R: "mq_rep P s M qs" and i: "0 \<le> i"
  shows "case q_spec (Q_dequeue i) qs of None \<Rightarrow> q_dequeue M i s = Abort Assert_fail
    | Some r \<Rightarrow> \<exists>s'. q_dequeue M i s = Ret (fst r) s' \<and> mq_rep P s' M (snd r)"
proof (cases "i < int (length qs)")
  case True
  then have n: "nat i < length qs" using i by simp
  show ?thesis using True mq_head [OF R] mq_rm_front [OF R n] mq_at_run [OF i] R
    by (auto simp: q_dequeue_def c_eval split: list.splits)
next
  case False
  then show ?thesis using mq_head [OF R] by (simp add: q_dequeue_def c_eval)
qed

lemma q_swap_run:
  assumes R: "mq_rep P s M qs" and x: "x \<in> P" and i: "0 \<le> i"
  shows "case q_put (\<lambda>q. q @ [x]) x i (q_drop x qs) of None \<Rightarrow> q_swap_queue M x i s = Abort Assert_fail
    | Some r \<Rightarrow> \<exists>s'. q_swap_queue M x i s = Ret () s' \<and> mq_rep P s' M (snd r)"
proof (cases "i < int (length qs)")
  case True
  obtain s1 where s1: "object_rm x s = Ret () s1" "mq_rep P s1 M (q_drop x qs)" "x \<notin> set (concat (q_drop x qs))"
    using mq_object_rm [OF R x] by blast
  have eq: "q_swap_queue M x i s = q_enqueue M x i s1"
    using True mq_head [OF R] s1(1) by (simp add: q_swap_queue_def q_enqueue_def c_eval)
  show ?thesis unfolding eq by (rule q_enqueue_run [OF s1(2) x i])
next
  case False
  then show ?thesis using mq_head [OF R] by (simp add: q_put_def q_drop_def q_swap_queue_def c_eval)
qed

lemma q_put_fst: "q_put f x i qs = Some r \<Longrightarrow> fst r = NULL"
  by (auto simp: q_put_def split: if_splits)

lemma q_run:
  assumes R: "mq_rep P s M qs" and v: "q_valid P c"
  shows "case q_spec c qs of None \<Rightarrow> q_exec c M s = Abort Assert_fail
    | Some r \<Rightarrow> \<exists>s'. q_exec c M s = Ret (fst r, M) s' \<and> mq_rep P s' M (snd r)"
proof (cases c)
  case (Q_enqueue x i)
  then show ?thesis using q_enqueue_run [OF R, of x i] v mq_head [OF R] q_put_fst
    by (auto simp: enqueue_def with_mtx_def c_eval split: option.splits)
next
  case (Q_front x i)
  then show ?thesis using q_front_run [OF R, of x i] v q_put_fst by (auto simp: c_eval split: option.splits)
next
  case (Q_dequeue i)
  then show ?thesis using q_dequeue_run [OF R, of i] v by (auto simp: c_eval split: option.splits simp del: q_spec.simps)
next
  case (Q_rm x)
  then show ?thesis using mq_object_rm [OF R, of x] v mq_head [OF R] by (auto simp: dequeue_def with_mtx_def c_eval)
next
  case (Q_swap x i)
  then show ?thesis using q_swap_run [OF R, of x i] v mq_head [OF R] q_put_fst
    by (auto simp: swap_queue_def with_mtx_def c_eval split: option.splits)
qed

definition mq_inv :: "addr set \<Rightarrow> mod_qs \<Rightarrow> obj_mem \<Rightarrow> mod_qs \<Rightarrow> addr list list \<Rightarrow> bool" where
  "mq_inv P M0 s M qs \<longleftrightarrow> M = M0 \<and> mq_rep P s M qs"

lemma q_step:
  assumes "mq_inv P M0 s M qs" and "q_valid P c" and "q_spec c qs = Some (r, qs')"
  shows "\<exists>M' s'. q_exec c M s = Ret (r, M') s' \<and> mq_inv P M0 s' M' qs'"
  using q_run [of P s M qs c] assms by (auto simp: mq_inv_def)

lemma q_stop: "mq_inv P M0 s M qs \<Longrightarrow> q_valid P c \<Longrightarrow> q_spec c qs = None \<Longrightarrow> q_exec c M s = Abort Assert_fail"
  using q_run [of P s M qs c] by (auto simp: mq_inv_def)

interpretation mqc: c_machine "mq_inv P M0" q_exec q_spec "q_valid P"
  by unfold_locales (rule q_step, assumption+, rule q_stop)

subsection \<open>Construction\<close>

text \<open>Objects that are in no list.\<close>

definition q_loose :: "addr set \<Rightarrow> obj_mem \<Rightarrow> bool" where
  "q_loose P s \<longleftrightarrow> finite (dom (dl_next s)) \<and> (\<forall>x \<in> P. x \<noteq> NULL \<and> dl_next s (m_chain x) = Some (m_chain x)
     \<and> dl_prev s (m_chain x) = Some (m_chain x) \<and> ol_ptr s (m_chain x) = Some NULL)"

lemma mod_alloc_queue_run:
  assumes al: "fresh_alloc alloc" and P: "q_loose P s" and n: "0 < n" and M: "mq_queue M = NULL" "\<not> mq_mtx M"
  shows "\<exists>M' s'. mod_alloc_queue alloc M (int n) s = Ret M' s' \<and> mq_rep P s' M' (replicate n [])"
proof -
  have fin: "finite (dom (dl_next s))" using P by (simp add: q_loose_def)
  obtain s' mp where s': "dhash_init alloc (int n) None None s =
        Ret \<lparr>dh_bucket = mp, dh_bk_size = int n, dh_elm_cnt = 0, dh_max_chain = 0, dh_hash_fn = None, dh_cmp_fn = None\<rparr> s'"
      "rings s' mp (replicate n [])" "arr mp n \<inter> dom (dl_next s) = {}"
      "\<forall>p. p \<notin> arr mp n \<longrightarrow> dl_next s' p = dl_next s p \<and> dl_prev s' p = dl_prev s p" "dlist_mem.more s' = dlist_mem.more s"
    using dhash_init_run [where hf = None and cf = None, OF al fin n] by blast
  have run: "mod_alloc_queue alloc M (int n) s = Ret (M\<lparr>mq_queue := mp, mq_nr_queue := int n\<rparr>) s'"
    using s'(1) M(1) by (auto simp: mod_alloc_queue_def dhash_init_def dl_ctor_def c_eval split: option.splits outcome.splits)
  have mp: "mp \<noteq> NULL" using ringsD(1) [OF s'(2), of 0] n ring_cell(1) [of s' mp "[]" mp] by simp
  have out: "m_chain x \<notin> arr mp n" if "x \<in> P" for x using P that s'(3) by (auto simp: q_loose_def)
  have "link_rows (replicate n []) = replicate n []" by (simp add: link_rows_def)
  then have "mq_rep P s' (M\<lparr>mq_queue := mp, mq_nr_queue := int n\<rparr>) (replicate n [])"
    using P s'(2,4) out mp M(2) more_objs [OF s'(5)] by (auto simp: mq_rep_def q_loose_def is_dlink_def same_objs_def)
  with run show ?thesis by blast
qed

subsection \<open>Properties\<close>

text \<open>C16: the queues of a module, from their allocation on, are a row of sequences: enqueuing at either end,
  dequeuing, removing an object from whatever queue it is in and moving it to another do to memory what they do to
  the row. Using a queue that does not exist and enqueuing an object that is already in one stop
  at an assertion.\<close>

theorem mod_queues:
  assumes "fresh_alloc alloc" and "q_loose P s" and "0 < n" and "mq_queue M = NULL" and "\<not> mq_mtx M" and v: "\<forall>c \<in> set cs. q_valid P c"
  shows "\<exists>M1 s1. mod_alloc_queue alloc M (int n) s = Ret M1 s1
    \<and> (case spec_run q_spec cs (replicate n []) of
        Some (rs, qs) \<Rightarrow> \<exists>s'. m_run q_exec cs M1 s1 = Ret (rs, M1) s' \<and> mq_rep P s' M1 qs
      | None \<Rightarrow> m_run q_exec cs M1 s1 = Abort Assert_fail)"
proof -
  obtain M1 s1 where 1: "mod_alloc_queue alloc M (int n) s = Ret M1 s1" "mq_rep P s1 M1 (replicate n [])"
    using mod_alloc_queue_run [OF assms(1-5)] by blast
  then have I: "mq_inv P M1 s1 M1 (replicate n [])" by (simp add: mq_inv_def)
  show ?thesis
  proof (cases "spec_run q_spec cs (replicate n [])")
    case None
    then show ?thesis using mqc.run_none [OF I v] 1(1) by simp
  next
    case (Some q)
    then have "spec_run q_spec cs (replicate n []) = Some (fst q, snd q)" by simp
    from mqc.run_some [OF I v this] 1(1) show ?thesis by (auto simp: Some mq_inv_def)
  qed
qed

definition demo_q_mem :: obj_mem where
  "demo_q_mem = \<lparr>dl_next = [108 \<mapsto> 108, 208 \<mapsto> 208], dl_prev = [108 \<mapsto> 108, 208 \<mapsto> 208], ol_ptr = [108 \<mapsto> 0, 208 \<mapsto> 0],
     o_key64 = Map.empty, o_keystr = Map.empty, o_chr = Map.empty\<rparr>"

definition demo_qs :: mod_qs where
  "demo_qs = \<lparr>mq_nr_lock = 0, mq_nr_queue = 0, mq_queue = NULL, mq_locks = NULL, mq_mtx = False\<rparr>"

theorem mod_queues_witness:
  "\<exists>M1 s1 s'. mod_alloc_queue top_alloc demo_qs (int 2) demo_q_mem = Ret M1 s1
    \<and> m_run q_exec [Q_enqueue 100 0, Q_front 200 0, Q_swap 200 1, Q_dequeue 0, Q_dequeue 0, Q_dequeue 1] M1 s1 = Ret ([0, 0, 0, 100, 0, 200], M1) s'"
proof -
  let ?cs = "[Q_enqueue 100 0, Q_front 200 0, Q_swap 200 1, Q_dequeue 0, Q_dequeue 0, Q_dequeue 1]"
  have "q_loose {100, 200} demo_q_mem" by (simp add: q_loose_def demo_q_mem_def m_chain_def)
  moreover have "spec_run q_spec ?cs (replicate 2 []) = Some ([0, 0, 0, 100, 0, 200], [[], []])"
    by (simp add: q_put_def q_drop_def numeral_eq_Suc)
  ultimately show ?thesis
    using mod_queues [OF fresh_top_alloc, of "{100, 200}" demo_q_mem 2 demo_qs ?cs] by (auto simp: demo_qs_def)
qed

text \<open>The lock for an index or an object is one of those allocated.\<close>

theorem mod_get_lock_in:
  assumes "mq_locks M \<noteq> NULL" and "0 < mq_nr_lock M" and "mq_nr_lock M < 2 ^ 31"
  shows "0 \<le> i \<Longrightarrow> \<exists>l \<in> arr (mq_locks M) (nat (mq_nr_lock M)). mod_get_lock_idx M i s = Ret l s"
    and "\<exists>l \<in> arr (mq_locks M) (nat (mq_nr_lock M)). mod_get_lock_ptr M p s = Ret l s"
proof -
  show "\<exists>l \<in> arr (mq_locks M) (nat (mq_nr_lock M)). mod_get_lock_idx M i s = Ret l s" if "0 \<le> i"
  proof -
    have "nat (i mod mq_nr_lock M) < nat (mq_nr_lock M)" using assms(2) by simp
    then show ?thesis using assms that by (simp add: mod_get_lock_idx_def c_eval arr_mem)
  qed
  show "\<exists>l \<in> arr (mq_locks M) (nat (mq_nr_lock M)). mod_get_lock_ptr M p s = Ret l s"
  proof -
    let ?w = "word_of_int (mq_nr_lock M) :: 64 word"
    have u: "unat ?w = nat (mq_nr_lock M)" using assms(2,3) by (simp add: unsigned_of_int take_bit_int_eq_self)
    then have n: "?w \<noteq> 0" using assms(2) by auto
    have "unat (drop_bit 4 p mod ?w) < nat (mq_nr_lock M)" using assms(2) by (simp add: unat_mod u)
    then show ?thesis using assms(1) n by (simp add: mod_get_lock_ptr_def c_eval arr_mem)
  qed
qed

end
