(* ===== verification/ModDtor.thy ===== *)
theory ModDtor
  imports ModRegProps ModQueue
begin

text \<open>
  The destructor of a module (common/di/module.cpp): it unregisters the sub-modules, drops the table of
  names, checks that the queues are empty and gives their array and the array of locks back.
\<close>

text \<open>The two parts of a module, its registry and its queues. The mutexes are not part of the memory, so that
  deleting their array leaves no trace in it.\<close>

definition mod_dtor :: "mod_reg \<Rightarrow> mod_qs \<Rightarrow> (obj_mem, unit) cprog" where
  "mod_dtor R M =
     bindM (if rg_dep_idx R \<noteq> None then unregister_deps R [0..rg_dep_cnt R - 1] else ret R) (\<lambda>R1.
     seqM (case rg_name_tab R1 of None \<Rightarrow> ret () | Some t \<Rightarrow> dho_dtor t)
     (if mq_queue M \<noteq> NULL
      then seqM (forM [0..<nat (mq_nr_queue M)] (\<lambda>i. bindM (dl_empty (mq_queue M + i)) assertM))
        (free_dlists (mq_queue M) (mq_nr_queue M))
      else ret ()))"

subsection \<open>Destruction\<close>

lemma mod_arr_clear: "mod_arr R sl \<Longrightarrow> i < length sl \<Longrightarrow> sl ! i = NULL \<Longrightarrow> arr_set (rg_dep_idx R) (int i) NULL s = Ret (rg_dep_idx R) s"
  by (simp add: mod_arr_def arr_set_def c_eval list_update_append list_update_same_conv)

lemma mod_unregister_nth:
  assumes R: "mod_rep P ids sk ch s R (sl, reg)" and i: "i < length sl" "sl ! i \<noteq> NULL"
  shows "\<exists>R' s'. mod_unregister R (sl ! i) s = Ret R' s' \<and> mod_rep P ids sk ch s' R' (sl[i := NULL], reg)
    \<and> same_area P (the (rg_name_tab R)) (the (rg_name_tab R')) s s'"
proof -
  have A: "mod_arr R sl" using R by (simp add: mod_rep_def)
  then have "sub_index R (sl ! j) = int j" if "j < length sl" "sl ! j \<noteq> NULL" for j using that by (simp add: mod_arr_def)
  from drop_mod_nth [OF this i] show ?thesis using mod_unregister_live [OF R live_nth [OF i]] by auto
qed

lemma unregister_deps_run:
  assumes "mod_rep P ids sk ch s R (sl, reg)" and "k = length sl - i" and "i \<le> length sl"
  shows "if NULL \<in> set (drop i sl) then unregister_deps R (map int [i..<length sl]) s = Abort Assert_fail
    else \<exists>R' s' sl'. unregister_deps R (map int [i..<length sl]) s = Ret R' s' \<and> mod_rep P ids sk ch s' R' (sl', reg)
      \<and> same_area P (the (rg_name_tab R)) (the (rg_name_tab R')) s s'"
  using assms
proof (induction k arbitrary: R s sl i)
  case 0
  then show ?case by (auto simp: c_eval same_area_def same_links_def)
next
  case (Suc k)
  then have i: "i < length sl" by simp
  then have u: "map int [i..<length sl] = int i # map int [Suc i..<length sl]" "drop i sl = sl ! i # drop (Suc i) sl"
    by (simp_all add: upt_conv_Cons Cons_nth_drop_Suc)
  have A: "mod_arr R sl" using Suc.prems(1) by (simp add: mod_rep_def)
  then have g: "arr_get (rg_dep_idx R) (int i) s = Ret (sl ! i) s" using i by (simp add: mod_arr_def arr_get_def nth_append c_eval)
  show ?case
  proof (cases "sl ! i = NULL")
    case True
    then have "mod_unregister R NULL s = Abort Assert_fail"
      using mod_unregister_stop [OF Suc.prems(1), of NULL] by (simp add: live_def)
    then show ?thesis using True g by (simp add: u c_eval)
  next
    case False
    from mod_unregister_nth [OF Suc.prems(1) i False] obtain R1 s1 where
      1: "mod_unregister R (sl ! i) s = Ret R1 s1" "mod_rep P ids sk ch s1 R1 (sl[i := NULL], reg)"
      "same_area P (the (rg_name_tab R)) (the (rg_name_tab R1)) s s1" by blast
    then have c: "arr_set (rg_dep_idx R1) (int i) NULL s1 = Ret (rg_dep_idx R1) s1"
      using mod_arr_clear [of R1 "sl[i := NULL]" i] i by (simp add: mod_rep_def)
    have run: "unregister_deps R (map int [i..<length sl]) s = unregister_deps R1 (map int [Suc i..<length sl]) s1"
      using g 1(1) c by (simp add: u c_eval)
    have k: "k = length (sl[i := NULL]) - Suc i" "Suc i \<le> length (sl[i := NULL])" using Suc.prems(2) i by simp_all
    have ni: "NULL \<in> set (drop i sl) \<longleftrightarrow> NULL \<in> set (drop (Suc i) (sl[i := NULL]))" using False by (auto simp: u(2))
    from Suc.IH [OF 1(2) k] same_area_trans [OF 1(3)] show ?thesis unfolding run ni length_list_update by (auto split: if_splits)
  qed
qed

text \<open>The queues of a module, with the links of what is in them, away from the links of the table and of
  the sub-modules.\<close>

definition mod_area :: "addr set \<Rightarrow> mod_reg \<Rightarrow> addr set" where
  "mod_area P R = mod_links P \<union> (case rg_name_tab R of None \<Rightarrow> {} | Some t \<Rightarrow> arr (dh_bucket t) (nat (dh_bk_size t)))"

definition mod_rows :: "addr set \<Rightarrow> mod_reg \<Rightarrow> obj_mem \<Rightarrow> mod_qs \<Rightarrow> addr list list \<Rightarrow> bool" where
  "mod_rows P R s M rows \<longleftrightarrow>
     (if mq_queue M = NULL then rows = []
      else mq_nr_queue M = int (length rows) \<and> rings s (mq_queue M) rows \<and> nodes (mq_queue M) rows \<inter> mod_area P R = {})"

lemma check_rows:
  assumes "rings s b rows" and "i \<le> length rows"
  shows "forM [i..<length rows] (\<lambda>i. bindM (dl_empty (b + i)) assertM) s
    = (if \<exists>row \<in> set (drop i rows). row \<noteq> [] then Abort Assert_fail else Ret () s)"
  using assms(2)
proof (induction "length rows - i" arbitrary: i)
  case 0
  then show ?case by (simp add: c_eval)
next
  case (Suc k)
  then have i: "i < length rows" by simp
  then have u: "[i..<length rows] = i # [Suc i..<length rows]" "drop i rows = rows ! i # drop (Suc i) rows"
    by (simp_all add: upt_conv_Cons Cons_nth_drop_Suc)
  have e: "dl_empty (b + i) s = Ret (rows ! i = []) s"
    using dlist_empty_run [OF ringsD(1) [OF assms(1) i]] by (simp add: dl_empty_def)
  show ?case
  proof (cases "rows ! i = []")
    case True
    with Suc.hyps(1) [of "Suc i"] Suc.hyps(2) i e show ?thesis by (simp add: u c_eval)
  next
    case False
    with e show ?thesis by (simp add: u c_eval)
  qed
qed

lemma drop_queues_run:
  assumes M: "mod_rows P R s M rows" and L: "same_links (- mod_area P R) s s2"
  shows "\<exists>s3. (if mq_queue M \<noteq> NULL
      then seqM (forM [0..<nat (mq_nr_queue M)] (\<lambda>i. bindM (dl_empty (mq_queue M + i)) assertM))
        (free_dlists (mq_queue M) (mq_nr_queue M))
      else ret ()) s2 = (if list_all (\<lambda>row. row = []) rows then Ret () s3 else Abort Assert_fail)"
proof (cases "mq_queue M = NULL")
  case True
  with M show ?thesis by (simp add: mod_rows_def c_eval)
next
  case q: False
  have q': "mq_nr_queue M = int (length rows)" "rings s (mq_queue M) rows" "nodes (mq_queue M) rows \<inter> mod_area P R = {}"
    using M q by (simp_all add: mod_rows_def)
  have r: "rings s2 (mq_queue M) rows"
    using L q'(2,3) rings_cong [of "mq_queue M" rows s2 s] by (auto simp: same_links_def)
  have "is_dlink s2 p" if "p \<in> arr (mq_queue M) (length rows)" for p
  proof -
    have "p - mq_queue M < length rows" "p = mq_queue M + (p - mq_queue M)" using that by (auto simp: arr_mem)
    then show ?thesis using ring_cell [OF ringsD(1) [OF r]] by (metis is_dlink_def list.set_intros(1))
  qed
  then have "arr (mq_queue M) (length rows) \<subseteq> dom (dl_next s2) \<inter> dom (dl_prev s2)" by (auto simp: is_dlink_def)
  then have "\<exists>s3. free_dlists (mq_queue M) (mq_nr_queue M) s2 = Ret () s3" using q'(1) by (simp add: free_dlists_def)
  with q q'(1) check_rows [OF r, of 0] show ?thesis by (auto simp: c_eval list_all_iff)
qed

lemma drop_table_run:
  assumes "mod_rep P ids sk ch s R x"
  shows "\<exists>t s'. rg_name_tab R = Some t \<and> dho_dtor t s = Ret () s' \<and> same_links (- arr (dh_bucket t) (nat (dh_bk_size t))) s s'"
proof -
  obtain t where t: "rg_name_tab R = Some t" "mod_tab P ids sk s t (map m_chain (live (fst x)) @ map m_id_link (live (fst x)))"
    using assms by (auto simp: mod_rep_def)
  let ?b = "arr (dh_bucket t) (nat (dh_bk_size t))"
  have "hpart mod_h s t (mod_key P ids sk) (map m_chain (live (fst x)) @ map m_id_link (live (fst x)))" using t(2) by (simp add: mod_tab_def)
  from hpart_cell [OF this] have "?b \<subseteq> dom (dl_next s) \<inter> dom (dl_prev s)" by (auto simp: hcells_def is_dlink_def)
  then have "\<exists>s'. free_dlists (dh_bucket t) (dh_bk_size t) s = Ret () s' \<and> same_links (- ?b) s s'"
    by (simp add: free_dlists_def same_links_def)
  then show ?thesis using t(1) by (auto simp: dho_dtor_def dhash_free_def c_eval)
qed

text \<open>C18: the destructor of a parent module returns when every sub-module it ever registered is still
  registered and all its queues are empty, or it has none. After any sub-module was removed it stops at an
  assertion, since it unregisters the place that the removal emptied; with an object left in a queue
  it stops at the check of the queues.\<close>

theorem mod_dtor_removed:
  assumes "mod_rep P ids sk ch s R (sl, reg)" and "mod_rows P R s M rows"
  shows "if NULL \<in> set sl \<or> (\<exists>row \<in> set rows. row \<noteq> []) then mod_dtor R M s = Abort Assert_fail
    else \<exists>s'. mod_dtor R M s = Ret () s'"
proof -
  have A: "mod_arr R sl" using assms(1) by (simp add: mod_rep_def)
  have up: "[0..rg_dep_cnt R - 1] = map int [0..<length sl]" "rg_dep_idx R \<noteq> None"
    using A by (simp_all add: mod_arr_def upto_nats)
  show ?thesis
  proof (cases "NULL \<in> set sl")
    case True
    then show ?thesis using unregister_deps_run [OF assms(1), of "length sl" 0] by (simp add: mod_dtor_def up c_eval)
  next
    case False
    then obtain R' s' sl' where 1: "unregister_deps R (map int [0..<length sl]) s = Ret R' s'" "mod_rep P ids sk ch s' R' (sl', reg)"
        "same_area P (the (rg_name_tab R)) (the (rg_name_tab R')) s s'"
      using unregister_deps_run [OF assms(1), of "length sl" 0] by auto
    obtain t0 where t0: "rg_name_tab R = Some t0" using assms(1) by (auto simp: mod_rep_def)
    obtain t s2 where t: "rg_name_tab R' = Some t" "dho_dtor t s' = Ret () s2" "same_links (- arr (dh_bucket t) (nat (dh_bk_size t))) s' s2"
      using drop_table_run [OF 1(2)] by blast
    have "same_links (- mod_area P R) s s2" using 1(3) t(1,3) t0 by (auto simp: same_area_def same_links_def mod_area_def)
    from drop_queues_run [OF assms(2) this]
    have "\<exists>s3. mod_dtor R M s = (if list_all (\<lambda>row. row = []) rows then Ret () s3 else Abort Assert_fail)"
      using 1(1) t(1,2) up by (simp add: mod_dtor_def bindM_def seqM_def)
    then show ?thesis using False by (auto simp: list_all_iff)
  qed
qed

text \<open>Other links may change.\<close>

lemma mod_rep_same:
  assumes R: "mod_rep P ids sk ch s R x" and L: "same_links (mod_area P R) s s'" and O: "same_objs s s'"
  shows "mod_rep P ids sk ch s' R x"
proof -
  let ?ls = "map m_chain (live (fst x)) @ map m_id_link (live (fst x))"
  obtain t where t: "rg_name_tab R = Some t" "mod_tab P ids sk s t ?ls" using R by (auto simp: mod_rep_def)
  have area: "hcells t ?ls \<subseteq> mod_area P R" "mod_links P \<subseteq> mod_area P R"
    using t by (auto simp: mod_area_def hcells_def mod_tab_def)
  have "hpart mod_h s' t (mod_key P ids sk) ?ls"
    by (rule hpart_same) (use t(2) L area(1) in \<open>auto simp: mod_tab_def intro: same_links_sub\<close>)
  moreover have "same_links (mod_links P) s s'" using L area(2) by (rule same_links_sub)
  ultimately have "mod_tab P ids sk s' t ?ls" using t(2) O by (simp add: mod_tab_def same_links_def same_objs_def is_dlink_def dom_def)
  moreover have "mod_objs P ids sk s' = mod_objs P ids sk s" "o_chr s' = o_chr s" using O by (simp_all add: mod_objs_def same_objs_def)
  ultimately show ?thesis using R t(1) by (auto simp: mod_rep_def)
qed

text \<open>Modules 100 and 200 below a parent whose queue, at an address behind all of them, is empty or holds one
  object.\<close>

definition with_row :: "addr \<Rightarrow> addr list \<Rightarrow> obj_mem \<Rightarrow> obj_mem" where
  "with_row b row s = (case row of
      [] \<Rightarrow> s\<lparr>dl_next := (dl_next s)(b \<mapsto> b), dl_prev := (dl_prev s)(b \<mapsto> b)\<rparr>
    | c # _ \<Rightarrow> s\<lparr>dl_next := (dl_next s)(b \<mapsto> c, c \<mapsto> b), dl_prev := (dl_prev s)(b \<mapsto> c, c \<mapsto> b)\<rparr>)"

lemma with_row:
  assumes "mod_rep P ids sk ch s R x" and "\<forall>a \<in> mod_area P R. a < b" and "b \<noteq> NULL" and "row = [] \<or> row = [b + 1]"
    and "mq_queue M = b" and "mq_nr_queue M = 1"
  shows "mod_rep P ids sk ch (with_row b row s) R x" and "mod_rows P R (with_row b row s) M [row]"
proof -
  have b: "b \<notin> mod_area P R" "b + 1 \<notin> mod_area P R" and lt: "\<forall>a \<in> mod_area P R. \<not> b \<le> a" using assms(2) by force+
  show "mod_rep P ids sk ch (with_row b row s) R x"
    by (rule mod_rep_same [OF assms(1)]) (use assms(4) b in \<open>auto simp: with_row_def same_links_def same_objs_def\<close>)
  show "mod_rows P R (with_row b row s) M [row]"
    using assms(3-6) b lt by (auto simp: mod_rows_def rings_def dlist_rep_def nodes_def arr_mem with_row_def)
qed

theorem mod_dtor_removed_witness:
  "\<exists>R s b M. mod_ctor_subs top_alloc (\<lambda>_. -1) (\<lambda>_. False) [100, 200] demo_mod_mem = Ret R s \<and> mq_queue M = b \<and> b \<noteq> NULL
    \<and> (\<exists>s'. mod_dtor R M (with_row b [] s) = Ret () s')
    \<and> mod_dtor R M (with_row b [b + 1] s) = Abort Assert_fail
    \<and> (\<exists>R' s'. mod_unregister R 100 s = Ret R' s' \<and> mod_dtor R' (M\<lparr>mq_queue := NULL\<rparr>) s' = Abort Assert_fail)"
proof -
  obtain R s where R: "mod_ctor_subs top_alloc (\<lambda>_. -1) (\<lambda>_. False) [100, 200] demo_mod_mem = Ret R s"
      "mod_rep {100, 200} demo_ids demo_names (o_chr demo_mod_mem) s R ([100, 200], {100, 200})"
    using mod_ctor_run [OF fresh_top_alloc demo_mods, of "[100, 200]" "\<lambda>_. False" "\<lambda>_. -1"] by auto
  have "finite (mod_area {100, 200} R)" by (auto simp: mod_area_def mod_links_def arr_def split: option.split)
  then obtain b where b: "\<forall>a \<in> mod_area {100, 200} R. a < b" "b \<noteq> NULL"
    by (metis Max_ge finite_insert insertI1 insertI2 le_imp_less_Suc nat.distinct(1))
  let ?M = "\<lparr>mq_nr_lock = 0, mq_nr_queue = 1, mq_queue = b, mq_locks = NULL, mq_mtx = False\<rparr>"
  have 1: "\<exists>s'. mod_dtor R ?M (with_row b [] s) = Ret () s'"
    using mod_dtor_removed [OF with_row [OF R(2) b, of "[]" ?M]] by simp
  have 2: "mod_dtor R ?M (with_row b [b + 1] s) = Abort Assert_fail"
    using mod_dtor_removed [OF with_row [OF R(2) b, of "[b + 1]" ?M]] by simp
  obtain R' s' where u: "mod_unregister R 100 s = Ret R' s'"
      "mod_rep {100, 200} demo_ids demo_names (o_chr demo_mod_mem) s' R' ([NULL, 200], {100, 200})"
    using mod_unregister_nth [OF R(2), of 0] by auto
  have "mod_dtor R' (?M\<lparr>mq_queue := NULL\<rparr>) s' = Abort Assert_fail"
    using mod_dtor_removed [OF u(2), of "?M\<lparr>mq_queue := NULL\<rparr>" "[]"] by (simp add: mod_rows_def)
  with u(1) have 3: "\<exists>R' s'. mod_unregister R 100 s = Ret R' s' \<and> mod_dtor R' (?M\<lparr>mq_queue := NULL\<rparr>) s' = Abort Assert_fail"
    by blast
  have "mq_queue ?M = b" by simp
  with R(1) b(2) 1 2 3 show ?thesis by blast
qed

end
