(* ===== verification/ModText.thy ===== *)
theory ModText
  imports CPrelude
begin

text \<open>
  The description of a module and the modules below it (\<open>Module::to_string\<close> of common/di/module.cpp). What
  \<open>snprintf\<close> writes is kept as the range of places it writes to; \<open>args m\<close> is the number of
  characters of the values that module \<open>m\<close> prints, \<open>deps m\<close> its array of sub-modules.
\<close>

text \<open>The characters of the format besides the values: tab and line end among them.\<close>

definition fixed_len :: nat where
  "fixed_len = 34"

text \<open>\<open>snprintf\<close> at place \<open>p\<close> with \<open>n\<close> places left, for a text of \<open>k\<close> characters.\<close>

definition snprintf_range :: "nat \<Rightarrow> nat \<Rightarrow> nat \<Rightarrow> (nat \<times> nat) list" where
  "snprintf_range p n k = (if n = 0 then [] else [(p, p + min k (n - 1) + 1)])"

function mod_to_string :: "(addr \<Rightarrow> nat) \<Rightarrow> (addr \<Rightarrow> addr list) \<Rightarrow> addr \<Rightarrow> nat \<Rightarrow> nat \<Rightarrow> nat \<times> (nat \<times> nat) list"
  and mod_to_string_loop :: "(addr \<Rightarrow> nat) \<Rightarrow> (addr \<Rightarrow> addr list) \<Rightarrow> addr list \<Rightarrow> nat \<Rightarrow> nat \<Rightarrow> nat \<Rightarrow> nat \<times> (nat \<times> nat) list" where
  "mod_to_string args deps m str len =
     (let off = fixed_len + args m; w = snprintf_range str len off in
      if off \<ge> len then (len, w)
      else (let r = mod_to_string_loop args deps (deps m) str len off in (fst r, w @ snd r)))"
| "mod_to_string_loop args deps [] str len off = (off, [])"
| "mod_to_string_loop args deps (d # ds) str len off =
     (if d \<noteq> NULL
      then (let lim = len - off; r = mod_to_string args deps d (str + off) lim; off' = off + fst r in
            if fst r \<ge> lim then (len, snd r)
            else (let q = mod_to_string_loop args deps ds str len off' in (fst q, snd r @ snd q)))
      else mod_to_string_loop args deps ds str len off)"
  by pat_completeness auto
termination
  by (relation "inv_image (less_than <*lex*> less_than <*lex*> less_than)
        (case_sum (\<lambda>(_, _, _, _, len). (len, 0, 0)) (\<lambda>(_, _, ds, _, len, off). (len - off, 1, length ds)))")
    (auto simp: fixed_len_def)

text \<open>It ends for every graph of modules, since the text of each takes room; it returns at most the size
  of the buffer and writes only to it.\<close>

definition inside :: "nat \<Rightarrow> nat \<Rightarrow> nat \<times> (nat \<times> nat) list \<Rightarrow> bool" where
  "inside str len r \<longleftrightarrow> fst r \<le> len \<and> (\<forall>(a, b) \<in> set (snd r). str \<le> a \<and> b \<le> str + len)"

lemma to_string_inside:
  "inside str len (mod_to_string args deps m str len)"
  "off \<le> len \<Longrightarrow> inside str len (mod_to_string_loop args deps ds str len off)"
proof (induction args deps m str len and args deps ds str len off rule: mod_to_string_mod_to_string_loop.induct)
  case (1 args deps m str len)
  have w: "inside str len (n, snprintf_range str len k)" if "n \<le> len" for n k using that by (auto simp: inside_def snprintf_range_def)
  show ?case
  proof (cases "fixed_len + args m \<ge> len")
    case True
    then show ?thesis using w [of len "fixed_len + args m"] by simp
  next
    case False
    have "inside str len (mod_to_string_loop args deps (deps m) str len (fixed_len + args m))"
      using "1.IH" [OF refl refl False] False by simp
    then show ?thesis using False w [of 0 "fixed_len + args m"] by (auto simp: Let_def inside_def)
  qed
next
  case (3 args deps d ds str len off)
  show ?case
  proof (cases "d = NULL")
    case True
    then show ?thesis using "3.IH"(3) "3.prems" by simp
  next
    case False
    let ?r = "mod_to_string args deps d (str + off) (len - off)"
    have r: "inside (str + off) (len - off) ?r" by (rule "3.IH"(1) [OF False refl])
    show ?thesis
    proof (cases "fst ?r \<ge> len - off")
      case True
      then show ?thesis using False r "3.prems" by (auto simp: Let_def inside_def simp del: mod_to_string.simps)
    next
      case lt: False
      then have "inside str len (mod_to_string_loop args deps ds str len (off + fst ?r))" using "3.IH"(2) [OF False refl refl refl lt] by simp
      then show ?thesis using False lt r "3.prems" by (auto simp: Let_def inside_def simp del: mod_to_string.simps)
    qed
  qed
qed (simp add: inside_def)

text \<open>C17: \<open>to_string\<close> ends for every graph of modules, returns at most the size of its buffer and writes only to
  places inside it.\<close>

theorem mod_to_string_inside: "inside str len (mod_to_string args deps m str len)"
  by (rule to_string_inside(1))

end
