(* ===== verification/HexDump.thy ===== *)
theory HexDump
  imports CPrelude
begin

text \<open>
  The hex dump of common/ctype/debug.c over a memory of bytes. What it prints is a list of items; the
  local array \<open>text\<close> has 17 places, of which only the first is set at the beginning.
\<close>

datatype hex_item = H_addr addr | H_word "32 word" | H_blank | H_text "8 word list"

type_synonym bytes = "addr \<rightharpoonup> 8 word"

text \<open>\<open>printf (" %s\n", text)\<close>: reading stops at the first zero.\<close>

fun read_text :: "8 word option list \<Rightarrow> (bytes, 8 word list) cprog" where
  "read_text [] = abortM (Fault NULL)"
| "read_text (None # cs) = abortM Uninit_read"
| "read_text (Some c # cs) = (if c = 0 then ret [] else bindM (read_text cs) (\<lambda>w. ret (c # w)))"

definition hex_char :: "8 word \<Rightarrow> 8 word" where
  "hex_char c = (if 0x30 \<le> sint c \<and> sint c \<le> 0x7a then c else 0x2e)"

fun hex_fill :: "addr \<Rightarrow> nat \<Rightarrow> nat list \<Rightarrow> 8 word option list \<Rightarrow> (bytes, 8 word option list) cprog" where
  "hex_fill buf i [] tx = ret tx"
| "hex_fill buf i (j # js) tx =
     bindM (rd (\<lambda>s. s) (buf + 4 * i + j)) (\<lambda>c. hex_fill buf i js (tx[(4 * i) mod 16 + j := Some (hex_char c)]))"

definition word_at_le :: "addr \<Rightarrow> (bytes, 32 word) cprog" where
  "word_at_le p = bindM (rd (\<lambda>s. s) p) (\<lambda>a. bindM (rd (\<lambda>s. s) (p + 1)) (\<lambda>b.
     bindM (rd (\<lambda>s. s) (p + 2)) (\<lambda>c. bindM (rd (\<lambda>s. s) (p + 3)) (\<lambda>d.
     ret (ucast a + push_bit 8 (ucast b) + push_bit 16 (ucast c) + push_bit 24 (ucast d))))))"

fun hexdump_loop :: "addr \<Rightarrow> nat \<Rightarrow> nat \<Rightarrow> 8 word option list \<Rightarrow> hex_item list \<Rightarrow> (bytes, 8 word option list \<times> hex_item list) cprog" where
  "hexdump_loop buf 0 i tx out = ret (tx, out)"
| "hexdump_loop buf (Suc n) i tx out =
     bindM (hex_fill buf i [0, 1, 2, 3] tx) (\<lambda>text1.
     bindM (word_at_le (buf + 4 * i)) (\<lambda>w.
     if i mod 4 = 0 then hexdump_loop buf n (i + 1) text1 (out @ [H_addr (buf + 4 * i), H_word w])
     else if i mod 4 = 3 then
       bindM (read_text text1) (\<lambda>t. hexdump_loop buf n (i + 1) (text1[0 := Some 0]) (out @ [H_word w, H_text t]))
     else hexdump_loop buf n (i + 1) text1 (out @ [H_word w])))"

definition hexdump :: "addr \<Rightarrow> nat \<Rightarrow> (bytes, hex_item list) cprog" where
  "hexdump buf len =
     (let n = (len div 4) mod 2 ^ 32 in
      bindM (hexdump_loop buf n 0 (Some 0 # replicate 16 None) []) (\<lambda>r.
      let k = (n + 2 ^ 32 - 1) mod 4 in
      if k \<noteq> 3
      then bindM (read_text (fst r)) (\<lambda>t. ret (snd r @ replicate (3 - k) H_blank @ [H_text t]))
      else ret (snd r)))"

subsection \<open>It reads memory that was not set\<close>

lemma hex_char_nz: "hex_char c \<noteq> 0"
  by (auto simp: hex_char_def)

lemma four_bytes:
  fixes s :: bytes
  assumes "\<forall>j < 4. \<exists>c. s (p + j) = Some c"
  shows "\<exists>a b c d. s p = Some a \<and> s (p + 1) = Some b \<and> s (p + 2) = Some c \<and> s (p + 3) = Some d"
proof -
  have k: "k < 4 \<Longrightarrow> \<exists>c. s (p + k) = Some c" for k using assms by blast
  show ?thesis using k [of 0] k [of 1] k [of 2] k [of 3] by simp
qed

lemma fill_run:
  assumes "\<forall>j < 4. \<exists>c. s (buf + 4 * i + j) = Some c" and "i < 4"
  shows "\<exists>a b c d. hex_fill buf i [0, 1, 2, 3] tx s
    = Ret (tx[4 * i := Some a, 4 * i + 1 := Some b, 4 * i + 2 := Some c, 4 * i + 3 := Some d]) s \<and> a \<noteq> 0 \<and> b \<noteq> 0 \<and> c \<noteq> 0 \<and> d \<noteq> 0"
proof -
  obtain a b c d where "s (buf + 4 * i) = Some a" "s (buf + 4 * i + 1) = Some b" "s (buf + 4 * i + 2) = Some c" "s (buf + 4 * i + 3) = Some d"
    using four_bytes [OF assms(1)] by blast
  moreover have "(4 * i) mod 16 = 4 * i" using assms(2) by simp
  ultimately show ?thesis using hex_char_nz
    by (intro exI [of _ "hex_char a"] exI [of _ "hex_char b"] exI [of _ "hex_char c"] exI [of _ "hex_char d"]) (simp add: c_eval)
qed

lemma word_run:
  assumes "\<forall>j < 4. \<exists>c. s (p + j) = Some c"
  shows "\<exists>w. word_at_le p s = Ret w s"
proof -
  obtain a b c d where "s p = Some a" "s (p + 1) = Some b" "s (p + 2) = Some c" "s (p + 3) = Some d" using four_bytes [OF assms] by blast
  then show ?thesis by (simp add: word_at_le_def c_eval)
qed

lemma read_set: "\<forall>c \<in> set cs. \<exists>d. c = Some d \<and> d \<noteq> 0 \<Longrightarrow> read_text (cs @ None # ds) s = Abort Uninit_read"
  by (induction cs) (auto simp: c_eval)

text \<open>The tx after \<open>i\<close> words of the first line.\<close>

definition set_to :: "nat \<Rightarrow> 8 word option list \<Rightarrow> bool" where
  "set_to n tx \<longleftrightarrow> (\<exists>cs. tx = cs @ replicate (17 - n) None \<and> length cs = n \<and> (\<forall>c \<in> set cs. \<exists>d. c = Some d \<and> d \<noteq> 0))"

lemma set_to_read:
  assumes "set_to n tx" and "n < 17"
  shows "read_text tx s = Abort Uninit_read"
proof -
  obtain cs where "tx = cs @ replicate (17 - n) None" "\<forall>c \<in> set cs. \<exists>d. c = Some d \<and> d \<noteq> 0" using assms(1) by (auto simp: set_to_def)
  moreover have "replicate (17 - n) None = None # replicate (16 - n) (None :: 8 word option)" using assms(2) by (simp flip: replicate_Suc add: Suc_diff_le)
  ultimately show ?thesis using read_set by simp
qed

definition text_at :: "nat \<Rightarrow> 8 word option list \<Rightarrow> bool" where
  "text_at i tx \<longleftrightarrow> (if i = 0 then tx = Some 0 # replicate 16 None else set_to (4 * i) tx)"

lemma text_filled:
  assumes t: "text_at i tx" and i: "i < 4" and nz: "a \<noteq> 0" "b \<noteq> 0" "c \<noteq> 0" "d \<noteq> 0"
  shows "set_to (4 * i + 4) (tx[4 * i := Some a, 4 * i + 1 := Some b, 4 * i + 2 := Some c, 4 * i + 3 := Some d])"
proof (cases "i = 0")
  case True
  then show ?thesis using t nz
    by (simp add: text_at_def set_to_def numeral_eq_Suc)
next
  case False
  then obtain cs where cs: "tx = cs @ replicate (17 - 4 * i) None" "length cs = 4 * i" "\<forall>c \<in> set cs. \<exists>d. c = Some d \<and> d \<noteq> 0"
    using t by (auto simp: text_at_def set_to_def)
  have "17 - 4 * i = 4 + (13 - 4 * i)" using i by simp
  then have r: "replicate (17 - 4 * i) (None :: 8 word option) = [None, None, None, None] @ replicate (13 - 4 * i) None"
    by (simp only: replicate_add) (simp add: numeral_eq_Suc)
  have "tx[4 * i := Some a, 4 * i + 1 := Some b, 4 * i + 2 := Some c, 4 * i + 3 := Some d]
      = (cs @ [Some a, Some b, Some c, Some d]) @ replicate (13 - 4 * i) None"
    unfolding cs(1) r by (simp add: list_update_append cs(2) numeral_eq_Suc)
  moreover have "17 - (4 * i + 4) = 13 - 4 * i" by simp
  ultimately show ?thesis using cs(2,3) nz unfolding set_to_def
    by (intro exI [of _ "cs @ [Some a, Some b, Some c, Some d]"]) auto
qed

lemma loop_run:
  assumes "\<forall>j < 4 * (i + n). \<exists>c. s (buf + j) = Some c" and "text_at i tx" and "i < 4"
  shows "if i + n < 4 then \<exists>tx' out'. hexdump_loop buf n i tx out s = Ret (tx', out') s \<and> text_at (i + n) tx'
    else hexdump_loop buf n i tx out s = Abort Uninit_read"
  using assms
proof (induction n arbitrary: i tx out)
  case 0
  then show ?case by (simp add: c_eval)
next
  case (Suc n)
  have rd: "\<forall>j < 4. \<exists>c. s (buf + 4 * i + j) = Some c"
  proof (intro allI impI)
    fix j :: nat assume "j < 4"
    then have "4 * i + j < 4 * (i + Suc n)" by simp
    then show "\<exists>c. s (buf + 4 * i + j) = Some c" using Suc.prems(1) by (simp add: add.assoc)
  qed
  obtain a b c d where f: "hex_fill buf i [0, 1, 2, 3] tx s
      = Ret (tx[4 * i := Some a, 4 * i + 1 := Some b, 4 * i + 2 := Some c, 4 * i + 3 := Some d]) s" and nz: "a \<noteq> 0" "b \<noteq> 0" "c \<noteq> 0" "d \<noteq> 0"
    using fill_run [OF rd Suc.prems(3), of tx] by blast
  let ?t = "tx[4 * i := Some a, 4 * i + 1 := Some b, 4 * i + 2 := Some c, 4 * i + 3 := Some d]"
  have t: "set_to (4 * i + 4) ?t" by (rule text_filled [OF Suc.prems(2,3) nz])
  obtain w where w: "word_at_le (buf + 4 * i) s = Ret w s" using word_run [OF rd] by blast
  show ?case
  proof (cases "i = 3")
    case True
    then have "read_text ?t s = Abort Uninit_read" using set_to_read [OF t] by simp
    then show ?thesis using True f w by (simp add: c_eval del: hex_fill.simps)
  next
    case False
    then have i: "i + 1 < 4" "i mod 4 \<noteq> 3" using Suc.prems(3) by simp_all
    have "text_at (i + 1) ?t" using t by (simp add: text_at_def add.commute)
    moreover have "\<forall>j < 4 * (i + 1 + n). \<exists>c. s (buf + j) = Some c" using Suc.prems(1) by simp
    ultimately have IH: "if i + 1 + n < 4 then \<exists>tx' out'. hexdump_loop buf n (i + 1) ?t out s = Ret (tx', out') s \<and> text_at (i + 1 + n) tx'
        else hexdump_loop buf n (i + 1) ?t out s = Abort Uninit_read" for out using Suc.IH i(1) by blast
    have "\<exists>out1. hexdump_loop buf (Suc n) i tx out s = hexdump_loop buf n (i + 1) ?t out1 s"
      using f w i(2) by (cases "i mod 4 = 0") (auto simp: c_eval simp del: hex_fill.simps)
    then obtain out1 where "hexdump_loop buf (Suc n) i tx out s = hexdump_loop buf n (i + 1) ?t out1 s" by blast
    moreover have "i + 1 + n = i + Suc n" by simp
    ultimately show ?thesis using IH [of out1] by (simp only:)
  qed
qed

text \<open>A dump of at least four readable bytes prints a place of its array that was never set; a shorter one
  prints nothing.\<close>

theorem hexdump_uninit:
  assumes "\<forall>j < len. \<exists>c. s (buf + j) = Some c" and "len < 2 ^ 34"
  shows "hexdump buf len s = (if len < 4 then Ret [] s else Abort Uninit_read)"
proof -
  let ?n = "len div 4"
  have n: "?n mod 2 ^ 32 = ?n" using assms(2) by simp
  have rd: "\<forall>j < 4 * (0 + ?n). \<exists>c. s (buf + j) = Some c" using assms(1) by auto
  have t: "text_at 0 (Some 0 # replicate 16 None)" by (simp add: text_at_def)
  note L = loop_run [OF rd t, of "[]"]
  show ?thesis
  proof (cases "?n < 4")
    case True
    then obtain tx' out' where 1: "hexdump_loop buf ?n 0 (Some 0 # replicate 16 None) [] s = Ret (tx', out') s" "text_at ?n tx'" using L by auto
    show ?thesis
    proof (cases "?n = 0")
      case True
      then show ?thesis by (simp add: hexdump_def c_eval Let_def)
    next
      case False
      then have "read_text tx' s = Abort Uninit_read" using 1(2) \<open>?n < 4\<close> set_to_read [of "4 * ?n" tx'] by (simp add: text_at_def)
      moreover have "(?n + 2 ^ 32 - 1) mod 4 \<noteq> 3"
      proof -
        have "?n = 1 \<or> ?n = 2 \<or> ?n = 3" using False \<open>?n < 4\<close> by linarith
        then show ?thesis by auto
      qed
      moreover have "\<not> len < 4" using False by simp
      ultimately show ?thesis using 1(1) n by (simp add: hexdump_def c_eval Let_def)
    qed
  next
    case False
    then have "hexdump_loop buf ?n 0 (Some 0 # replicate 16 None) [] s = Abort Uninit_read" using L by simp
    moreover have "\<not> len < 4" using False by simp
    ultimately show ?thesis using n by (simp add: hexdump_def c_eval Let_def)
  qed
qed

theorem hexdump_uninit_witness: "hexdump 40 20 (\<lambda>a. if a < 100 then Some 0x61 else None) = Abort Uninit_read"
  using hexdump_uninit [of 20 "\<lambda>a. if a < 100 then Some 0x61 else None" 40] by simp

end
