(* ===== verification/EvtFsm.thy ===== *)
theory EvtFsm
  imports DlistSpec
begin

text \<open>
  The events of the hierarchical state machine of include/ctype/statefsm.h and common/ctype/statefsm.c. The
  address of a \<open>struct fsm_ctrl\<close> also stands for that of the head \<open>fsm_evts\<close> of the list of the events it
  allocated; an event starts with its link. A member that was never written is \<open>None\<close> inside the map of its
  field. \<open>ma\<close> says where \<open>malloc\<close> puts the next object, \<open>esz ops\<close> is the function \<open>fsm_evt_size\<close> of the
  operations at \<open>ops\<close>.
\<close>

subsection \<open>Data and operations\<close>

record fsm_mem = dlist_mem +
  fsm_ops :: "addr \<rightharpoonup> addr option"
  fsm_name :: "addr \<rightharpoonup> addr option"
  fsm_usr_arg :: "addr \<rightharpoonup> addr option"
  fsm_init_st :: "addr \<rightharpoonup> 32 word option"
  fsm_nr_states :: "addr \<rightharpoonup> 32 word option"
  fsm_states :: "addr \<rightharpoonup> addr option"
  fsm_mtx :: "addr \<rightharpoonup> addr option"
  evt_id :: "addr \<rightharpoonup> 32 word option"
  mtx_held :: "addr set"
  st_id :: "addr \<rightharpoonup> 32 word"

definition rdu :: "(fsm_mem \<Rightarrow> (addr \<rightharpoonup> 'v option)) \<Rightarrow> addr \<Rightarrow> (fsm_mem, 'v) cprog" where
  [c_eval]: "rdu fld p = bindM (rd fld p) (\<lambda>v. case v of None \<Rightarrow> abortM Uninit_read | Some x \<Rightarrow> ret x)"

definition fsm_ctrl_init :: "addr \<Rightarrow> addr \<Rightarrow> addr \<Rightarrow> addr \<Rightarrow> 32 word \<Rightarrow> 32 word \<Rightarrow> addr \<Rightarrow> (fsm_mem, unit) cprog" where
  "fsm_ctrl_init fsm ops name usr init_state nr_states states =
     seqM (wr fsm_ops fsm_ops_update fsm (Some ops))
    (seqM (wr fsm_name fsm_name_update fsm (Some name))
    (seqM (wr fsm_usr_arg fsm_usr_arg_update fsm (Some usr))
    (seqM (wr fsm_init_st fsm_init_st_update fsm (Some init_state))
    (seqM (wr fsm_nr_states fsm_nr_states_update fsm (Some nr_states))
     (wr fsm_states fsm_states_update fsm (Some states))))))"

text \<open>\<open>malloc\<close> of a \<open>struct fsm_ctrl\<close>; nothing of it is written. \<open>junk\<close>: what its list links hold.\<close>

definition malloc_ctrl :: "(fsm_mem \<Rightarrow> addr) \<Rightarrow> addr \<Rightarrow> (fsm_mem, addr) cprog" where
  "malloc_ctrl ma junk s =
     (let p = ma s in if p = NULL then Ret NULL s
      else Ret p (s\<lparr>dl_next := (dl_next s)(p \<mapsto> junk), dl_prev := (dl_prev s)(p \<mapsto> junk), fsm_ops := (fsm_ops s)(p \<mapsto> None),
        fsm_name := (fsm_name s)(p \<mapsto> None), fsm_usr_arg := (fsm_usr_arg s)(p \<mapsto> None), fsm_init_st := (fsm_init_st s)(p \<mapsto> None),
        fsm_nr_states := (fsm_nr_states s)(p \<mapsto> None), fsm_states := (fsm_states s)(p \<mapsto> None), fsm_mtx := (fsm_mtx s)(p \<mapsto> None)\<rparr>))"

definition fsm_ctrl_construct :: "(fsm_mem \<Rightarrow> addr) \<Rightarrow> addr \<Rightarrow> addr \<Rightarrow> addr \<Rightarrow> addr \<Rightarrow> 32 word \<Rightarrow> 32 word \<Rightarrow> addr \<Rightarrow> (fsm_mem, addr) cprog" where
  "fsm_ctrl_construct ma junk ops name usr init_state nr_states states =
     bindM (malloc_ctrl ma junk) (\<lambda>fsm.
     seqM (fsm_ctrl_init fsm ops name usr init_state nr_states states) (ret fsm))"

definition fsm_ctrl_usr_arg :: "addr \<Rightarrow> (fsm_mem, addr) cprog" where
  "fsm_ctrl_usr_arg fsm = rdu fsm_usr_arg fsm"

definition fsm_init_evt :: "addr \<Rightarrow> 32 word \<Rightarrow> (fsm_mem, unit) cprog" where
  "fsm_init_evt evt i = seqM (wr evt_id evt_id_update evt (Some i)) (dlist_init evt)"

definition mtx_lock :: "addr \<Rightarrow> (fsm_mem, unit) cprog" where
  [c_eval]: "mtx_lock m s = (if m = NULL then Abort (Fault m) else if m \<in> mtx_held s then None else Ret () (s\<lparr>mtx_held := insert m (mtx_held s)\<rparr>))"

definition mtx_unlock :: "addr \<Rightarrow> (fsm_mem, unit) cprog" where
  [c_eval]: "mtx_unlock m s = (if m = NULL then Abort (Fault m) else Ret () (s\<lparr>mtx_held := mtx_held s - {m}\<rparr>))"

text \<open>\<open>malloc\<close> of \<open>n\<close> bytes for an event: the links take the first 16, the id the next 4.\<close>

definition malloc_evt :: "(fsm_mem \<Rightarrow> addr) \<Rightarrow> addr \<Rightarrow> nat \<Rightarrow> (fsm_mem, addr) cprog" where
  "malloc_evt ma junk n s =
     (let p = ma s in if p = NULL then Ret NULL s
      else Ret p (s\<lparr>dl_next := (dl_next s)(p := if 8 \<le> n then Some junk else None), dl_prev := (dl_prev s)(p := if 16 \<le> n then Some junk else None),
        evt_id := (evt_id s)(p := if 20 \<le> n then Some None else None)\<rparr>))"

definition fsm_set_state :: "addr \<Rightarrow> 32 word \<Rightarrow> (fsm_mem, unit) cprog" where
  "fsm_set_state st v = wr st_id st_id_update st v"

definition fsm_curr_state :: "addr \<Rightarrow> (fsm_mem, 32 word) cprog" where
  "fsm_curr_state st = rd st_id st"

type_synonym evt_sizes = "addr \<Rightarrow> (32 word \<Rightarrow> nat) option"

definition free_evt :: "addr \<Rightarrow> (fsm_mem, unit) cprog" where
  "free_evt p s = Ret () (s\<lparr>dl_next := (dl_next s)(p := None), dl_prev := (dl_prev s)(p := None), evt_id := (evt_id s)(p := None)\<rparr>)"

definition fsm_alloc_evt :: "evt_sizes \<Rightarrow> (fsm_mem \<Rightarrow> addr) \<Rightarrow> addr \<Rightarrow> addr \<Rightarrow> 32 word \<Rightarrow> (fsm_mem, addr) cprog" where
  "fsm_alloc_evt esz ma junk fsm i =
     bindM (rdu fsm_ops fsm) (\<lambda>ops.
     bindM (if ops = NULL then abortM (Fault NULL) else case esz ops of None \<Rightarrow> abortM (Fault NULL) | Some f \<Rightarrow> ret (f i)) (\<lambda>n.
     bindM (malloc_evt ma junk n) (\<lambda>evt.
     seqM (fsm_init_evt evt i)
    (bindM (rdu fsm_mtx fsm) (\<lambda>m.
     seqM (mtx_lock m)
    (seqM (dlist_add_back fsm evt)
    (bindM (rdu fsm_mtx fsm) (\<lambda>m'.
     seqM (mtx_unlock m')
     (ret evt)))))))))"

definition fsm_free_evt :: "addr \<Rightarrow> addr \<Rightarrow> (fsm_mem, unit) cprog" where
  "fsm_free_evt fsm evt =
     bindM (rdu fsm_mtx fsm) (\<lambda>m.
     seqM (mtx_lock m)
    (seqM (dlist_rm evt)
    (bindM (rdu fsm_mtx fsm) (\<lambda>m'.
     seqM (mtx_unlock m')
     (free_evt evt)))))"

text \<open>The routines that submit an event have empty bodies.\<close>

definition fsm_submit_evt :: "addr \<Rightarrow> addr \<Rightarrow> addr \<Rightarrow> (fsm_mem, unit) cprog" where
  "fsm_submit_evt fsm state evt = ret ()"

definition fsm_submit_evt_sync :: "addr \<Rightarrow> addr \<Rightarrow> addr \<Rightarrow> (fsm_mem, unit) cprog" where
  "fsm_submit_evt_sync fsm state evt = ret ()"

definition fsm_submit_evt_id :: "addr \<Rightarrow> addr \<Rightarrow> 32 word \<Rightarrow> (fsm_mem, unit) cprog" where
  "fsm_submit_evt_id fsm state i = ret ()"

subsection \<open>A control object is not ready after its construction\<close>

definition fresh_obj :: "(fsm_mem \<Rightarrow> addr) \<Rightarrow> bool" where
  "fresh_obj ma \<longleftrightarrow> (\<forall>s. finite (dom (dl_next s)) \<longrightarrow> ma s \<noteq> NULL \<and> dl_next s (ma s) = None)"

definition good_sizes :: "evt_sizes \<Rightarrow> bool" where
  "good_sizes esz \<longleftrightarrow> (\<forall>ops. ops \<noteq> NULL \<longrightarrow> (\<exists>f. esz ops = Some f \<and> (\<forall>i. 20 \<le> f i)))"

theorem fsm_construct_unready:
  assumes "fresh_obj ma" and "finite (dom (dl_next s))" and "ops \<noteq> NULL" and "good_sizes esz"
  shows "bindM (fsm_ctrl_construct ma junk ops name usr i0 n states) (\<lambda>fsm. fsm_alloc_evt esz ma junk' fsm i) s = Abort Uninit_read"
proof -
  let ?p = "ma s"
  have p: "?p \<noteq> NULL" using assms(1,2) by (simp add: fresh_obj_def)
  let ?s = "s\<lparr>dl_next := (dl_next s)(?p \<mapsto> junk), dl_prev := (dl_prev s)(?p \<mapsto> junk), fsm_ops := (fsm_ops s)(?p \<mapsto> Some ops),
        fsm_name := (fsm_name s)(?p \<mapsto> Some name), fsm_usr_arg := (fsm_usr_arg s)(?p \<mapsto> Some usr), fsm_init_st := (fsm_init_st s)(?p \<mapsto> Some i0),
        fsm_nr_states := (fsm_nr_states s)(?p \<mapsto> Some n), fsm_states := (fsm_states s)(?p \<mapsto> Some states), fsm_mtx := (fsm_mtx s)(?p \<mapsto> None)\<rparr>"
  have 1: "fsm_ctrl_construct ma junk ops name usr i0 n states s = Ret ?p ?s"
    using p by (simp add: fsm_ctrl_construct_def fsm_ctrl_init_def malloc_ctrl_def Let_def bindM_def seqM_def wr_def ret_def)
  let ?q = "ma ?s"
  have q: "?q \<noteq> NULL" "?q \<noteq> ?p" using assms(1) [unfolded fresh_obj_def, rule_format, of ?s] assms(2) by auto
  obtain f where f: "esz ops = Some f" "20 \<le> f i" using assms(3,4) by (auto simp: good_sizes_def)
  have "fsm_alloc_evt esz ma junk' ?p i ?s = Abort Uninit_read"
    using q assms(3) f by (simp add: fsm_alloc_evt_def malloc_evt_def fsm_init_evt_def dlist_init_def Let_def bindM_def seqM_def rdu_def rd_def wr_def ret_def abortM_def)
  then show ?thesis using 1 by (simp add: bindM_def [of "fsm_ctrl_construct ma junk ops name usr i0 n states"])
qed

subsection \<open>The events of a control object\<close>

definition fsm_rep :: "fsm_mem \<Rightarrow> addr \<Rightarrow> addr list \<Rightarrow> bool" where
  "fsm_rep s fsm evs \<longleftrightarrow> dlist_rep s fsm evs \<and> finite (dom (dl_next s)) \<and> (\<exists>ops. fsm_ops s fsm = Some (Some ops) \<and> ops \<noteq> NULL)
     \<and> (\<exists>m. fsm_mtx s fsm = Some (Some m) \<and> m \<noteq> NULL \<and> m \<notin> mtx_held s)"

lemma dlist_rep_off:
  assumes "dlist_rep s l xs" and "p \<notin> set (l # xs)"
    and "\<And>q. q \<noteq> p \<Longrightarrow> dl_next s' q = dl_next s q" and "\<And>q. q \<noteq> p \<Longrightarrow> dl_prev s' q = dl_prev s q"
  shows "dlist_rep s' l xs"
proof -
  have "dlinks (dl_next s') (dl_prev s') (l # xs @ [l]) = dlinks (dl_next s) (dl_prev s) (l # xs @ [l])"
  proof (rule dlinks_cong)
    fix x assume "x \<in> set (l # xs @ [l])"
    then have "x \<noteq> p" using assms(2) by auto
    then show "dl_next s' x = dl_next s x \<and> dl_prev s' x = dl_prev s x" using assms(3,4) by simp
  qed
  then show ?thesis using assms(1) by (simp add: dlist_rep_def)
qed

lemma fsm_alloc_run:
  assumes "fsm_rep s fsm evs" and "fresh_obj ma" and "good_sizes esz"
  shows "\<exists>s'. fsm_alloc_evt esz ma junk fsm i s = Ret (ma s) s' \<and> fsm_rep s' fsm (evs @ [ma s]) \<and> evt_id s' (ma s) = Some (Some i)
    \<and> (\<forall>e. e \<noteq> ma s \<longrightarrow> evt_id s' e = evt_id s e)"
proof -
  let ?p = "ma s"
  obtain ops m where f: "dlist_rep s fsm evs" "finite (dom (dl_next s))" "fsm_ops s fsm = Some (Some ops)" "ops \<noteq> NULL"
      "fsm_mtx s fsm = Some (Some m)" "m \<noteq> NULL" "m \<notin> mtx_held s"
    using assms(1) by (auto simp: fsm_rep_def)
  obtain g where g: "esz ops = Some g" "20 \<le> g i" using assms(3) f(4) by (auto simp: good_sizes_def)
  have p: "?p \<noteq> NULL" "dl_next s ?p = None" using assms(2) f(2) by (simp_all add: fresh_obj_def)
  have pn: "?p \<notin> set (fsm # evs)" using ring_cell(2) [OF f(1), of ?p] p(2) by auto
  let ?s1 = "s\<lparr>evt_id := (evt_id s)(?p \<mapsto> Some i), dl_prev := (dl_prev s)(?p \<mapsto> ?p), dl_next := (dl_next s)(?p \<mapsto> ?p), mtx_held := insert m (mtx_held s)\<rparr>"
  have r1: "dlist_rep ?s1 fsm evs" using f(1) pn by (rule dlist_rep_off) simp_all
  have d1: "is_dlink ?s1 ?p" using p(1) by (simp add: is_dlink_def)
  note A = dlist_add_back_run [OF r1 d1 pn]
  have R: "dlist_rep (dl_put fsm evs ?p [] ?s1) fsm (evs @ [?p])" using dlist_rep_put [of ?s1 fsm evs "[]" ?p] r1 d1 pn by simp
  let ?s2 = "(dl_put fsm evs ?p [] ?s1)\<lparr>mtx_held := mtx_held s\<rparr>"
  have k: "fsm_ops (dl_put fsm evs ?p [] ?s1) = fsm_ops s" "fsm_mtx (dl_put fsm evs ?p [] ?s1) = fsm_mtx s"
    "mtx_held (dl_put fsm evs ?p [] ?s1) = insert m (mtx_held s)" "evt_id (dl_put fsm evs ?p [] ?s1) = (evt_id s)(?p \<mapsto> Some i)"
    by (simp_all add: dl_put_def)
  have run: "fsm_alloc_evt esz ma junk fsm i s = Ret ?p ?s2"
  proof -
    have "fsm_alloc_evt esz ma junk fsm i s = seqM (dlist_add_back fsm ?p) (bindM (rdu fsm_mtx fsm) (\<lambda>m'. seqM (mtx_unlock m') (ret ?p))) ?s1"
      using f(3-7) p(1) g by (simp add: fsm_alloc_evt_def malloc_evt_def fsm_init_evt_def dlist_init_def Let_def bindM_def seqM_def mtx_lock_def rdu_def rd_def wr_def ret_def)
    then show ?thesis using A k f(5-7) by (simp add: seqM_def bindM_def rdu_def rd_def ret_def mtx_unlock_def)
  qed
  have "dlist_rep ?s2 fsm (evs @ [?p])" using R by (simp add: dlist_rep_def)
  moreover have "finite (dom (dl_next ?s2))" using f(2) by (simp add: dl_put_def)
  ultimately show ?thesis using run k f(3-7) by (auto simp: fsm_rep_def)
qed

lemma fsm_free_run:
  assumes "fsm_rep s fsm (us @ e # vs)"
  shows "\<exists>s'. fsm_free_evt fsm e s = Ret () s' \<and> fsm_rep s' fsm (us @ vs) \<and> evt_id s' = (evt_id s)(e := None) \<and> dl_next s' e = None"
proof -
  obtain ops m where f: "dlist_rep s fsm (us @ e # vs)" "finite (dom (dl_next s))" "fsm_ops s fsm = Some (Some ops)" "ops \<noteq> NULL"
      "fsm_mtx s fsm = Some (Some m)" "m \<noteq> NULL" "m \<notin> mtx_held s"
    using assms by (auto simp: fsm_rep_def)
  let ?s1 = "s\<lparr>mtx_held := insert m (mtx_held s)\<rparr>"
  have r1: "dlist_rep ?s1 fsm (us @ e # vs)" using f(1) by (simp add: dlist_rep_def)
  note C = dlist_rm_run [OF r1] and R = dlist_rep_cut [OF r1]
  let ?c = "dl_cut fsm us vs ?s1"
  have k: "fsm_ops ?c = fsm_ops s" "fsm_mtx ?c = fsm_mtx s" "mtx_held ?c = insert m (mtx_held s)" "evt_id ?c = evt_id s" by (simp_all add: dl_cut_def)
  let ?s2 = "?c\<lparr>mtx_held := mtx_held s, dl_next := (dl_next ?c)(e := None), dl_prev := (dl_prev ?c)(e := None), evt_id := (evt_id s)(e := None)\<rparr>"
  have run: "fsm_free_evt fsm e s = Ret () ?s2"
    using C k f(5-7) by (simp add: fsm_free_evt_def free_evt_def mtx_lock_def mtx_unlock_def seqM_def bindM_def rdu_def rd_def ret_def)
  have en: "e \<notin> set (fsm # us @ vs)" using f(1) by (auto simp: dlist_rep_def)
  have "dlist_rep ?s2 fsm (us @ vs)" using R en by (rule dlist_rep_off) simp_all
  moreover have "finite (dom (dl_next ?s2))" using f(2) by (simp add: dl_cut_def)
  ultimately show ?thesis using run k f(3-7) by (auto simp: fsm_rep_def)
qed

text \<open>Events allocated and freed in any order: the list of the control object holds those that are live.\<close>

datatype evt_cmd = Alloc "32 word" | Free nat

fun evt_exec :: "evt_sizes \<Rightarrow> (fsm_mem \<Rightarrow> addr) \<Rightarrow> addr \<Rightarrow> addr \<Rightarrow> evt_cmd list \<Rightarrow> addr list \<Rightarrow> (fsm_mem, addr list) cprog" where
  "evt_exec esz ma junk fsm [] live = ret live"
| "evt_exec esz ma junk fsm (Alloc i # cs) live = bindM (fsm_alloc_evt esz ma junk fsm i) (\<lambda>e. evt_exec esz ma junk fsm cs (live @ [e]))"
| "evt_exec esz ma junk fsm (Free k # cs) live =
     (if k < length live then seqM (fsm_free_evt fsm (live ! k)) (evt_exec esz ma junk fsm cs (take k live @ drop (Suc k) live))
      else evt_exec esz ma junk fsm cs live)"

fun evt_ids :: "evt_cmd list \<Rightarrow> 32 word list \<Rightarrow> 32 word list" where
  "evt_ids [] ids = ids"
| "evt_ids (Alloc i # cs) ids = evt_ids cs (ids @ [i])"
| "evt_ids (Free k # cs) ids = evt_ids cs (if k < length ids then take k ids @ drop (Suc k) ids else ids)"

lemma evt_exec_run:
  assumes "fsm_rep s fsm live" and "map (evt_id s) live = map (Some \<circ> Some) ids" and "fresh_obj ma" and "good_sizes esz"
  shows "\<exists>live' s'. evt_exec esz ma junk fsm cs live s = Ret live' s' \<and> fsm_rep s' fsm live' \<and> map (evt_id s') live' = map (Some \<circ> Some) (evt_ids cs ids)"
  using assms(1,2)
proof (induction cs arbitrary: s live ids)
  case Nil
  then show ?case by (simp add: c_eval)
next
  case (Cons c cs)
  show ?case
  proof (cases c)
    case (Alloc i)
    obtain s1 where s1: "fsm_alloc_evt esz ma junk fsm i s = Ret (ma s) s1" "fsm_rep s1 fsm (live @ [ma s])" "evt_id s1 (ma s) = Some (Some i)"
        "\<forall>e. e \<noteq> ma s \<longrightarrow> evt_id s1 e = evt_id s e"
      using fsm_alloc_run [OF Cons.prems(1) assms(3,4)] by blast
    have n: "ma s \<notin> set live" using s1(2) by (auto simp: fsm_rep_def dlist_rep_def)
    have "evt_id s1 x = evt_id s x" if "x \<in> set live" for x using s1(4) that n by metis
    then have "map (evt_id s1) live = map (evt_id s) live" by simp
    then have "map (evt_id s1) (live @ [ma s]) = map (Some \<circ> Some) (ids @ [i])" using Cons.prems(2) s1(3) by simp
    from Cons.IH [OF s1(2) this] show ?thesis using s1(1) Alloc by (simp add: bindM_def)
  next
    case (Free k)
    have len: "length live = length ids" using arg_cong [OF Cons.prems(2), of length] by simp
    show ?thesis
    proof (cases "k < length live")
      case True
      have split: "live = take k live @ live ! k # drop (Suc k) live" using True by (rule id_take_nth_drop)
      obtain s1 where s1: "fsm_free_evt fsm (live ! k) s = Ret () s1" "fsm_rep s1 fsm (take k live @ drop (Suc k) live)" "evt_id s1 = (evt_id s)(live ! k := None)"
        using fsm_free_run [of s fsm "take k live" "live ! k" "drop (Suc k) live"] Cons.prems(1) split by auto
      have "distinct live" using Cons.prems(1) by (simp add: fsm_rep_def dlist_rep_def)
      then have "distinct (take k live @ live ! k # drop (Suc k) live)" by (rule subst [where P = distinct, OF split])
      then have "live ! k \<notin> set (take k live @ drop (Suc k) live)" by simp
      then have "map (evt_id s1) (take k live @ drop (Suc k) live) = map (evt_id s) (take k live @ drop (Suc k) live)" unfolding s1(3) by (rule map_fun_upd)
      also have "\<dots> = map (Some \<circ> Some) (take k ids @ drop (Suc k) ids)" by (simp only: map_append take_map [symmetric] drop_map [symmetric] Cons.prems(2))
      finally have ids: "map (evt_id s1) (take k live @ drop (Suc k) live) = map (Some \<circ> Some) (take k ids @ drop (Suc k) ids)" .
      from Cons.IH [OF s1(2) ids] show ?thesis using s1(1) Free True len by (simp add: seqM_def)
    next
      case False
      then show ?thesis using Cons.IH [OF Cons.prems] Free len by simp
    qed
  qed
qed

text \<open>Events allocated and freed in any order are tracked: the list of the control object holds the live ones,
  with their ids, in the order of their allocation, and the mutex is free afterwards.\<close>

theorem fsm_events_tracked:
  assumes "fsm_rep s fsm []" and "fresh_obj ma" and "good_sizes esz"
  shows "\<exists>live s'. evt_exec esz ma junk fsm cs [] s = Ret live s' \<and> fsm_rep s' fsm live \<and> map (evt_id s') live = map (Some \<circ> Some) (evt_ids cs [])"
  using evt_exec_run [OF assms(1) _ assms(2,3), of "[]"] by simp

definition demo_obj :: "fsm_mem \<Rightarrow> addr" where
  "demo_obj s = Suc (Max (insert 20 (dom (dl_next s))))"

lemma demo_fresh_obj: "fresh_obj demo_obj"
  using Suc_Max_fresh [of "dom (dl_next s)" 20 for s :: fsm_mem] by (auto simp: fresh_obj_def demo_obj_def domIff)

definition demo_fsm_mem :: fsm_mem where
  "demo_fsm_mem = \<lparr>dl_next = [10 \<mapsto> 10], dl_prev = [10 \<mapsto> 10], fsm_ops = [10 \<mapsto> Some 4], fsm_name = [10 \<mapsto> Some 5], fsm_usr_arg = [10 \<mapsto> Some 6],
     fsm_init_st = [10 \<mapsto> Some 0], fsm_nr_states = [10 \<mapsto> Some 2], fsm_states = [10 \<mapsto> Some 7], fsm_mtx = [10 \<mapsto> Some 8], evt_id = Map.empty, mtx_held = {}, st_id = Map.empty\<rparr>"

theorem fsm_events_tracked_witness:
  "\<exists>live s'. evt_exec (\<lambda>_. Some (\<lambda>_. 32)) demo_obj 3 10 [Alloc 5, Alloc 6, Alloc 7, Free 1] [] demo_fsm_mem = Ret live s' \<and> map (evt_id s') live = [Some (Some 5), Some (Some 7)]"
proof -
  have "fsm_rep demo_fsm_mem 10 []" by (simp add: fsm_rep_def demo_fsm_mem_def dlist_rep_def)
  moreover have "good_sizes (\<lambda>_. Some (\<lambda>_. 32))" by (simp add: good_sizes_def)
  ultimately have "\<exists>live s'. evt_exec (\<lambda>_. Some (\<lambda>_. 32)) demo_obj 3 10 [Alloc 5, Alloc 6, Alloc 7, Free 1] [] demo_fsm_mem = Ret live s'
      \<and> fsm_rep s' 10 live \<and> map (evt_id s') live = map (Some \<circ> Some) (evt_ids [Alloc 5, Alloc 6, Alloc 7, Free 1] [])"
    by (intro fsm_events_tracked demo_fresh_obj)
  then show ?thesis by auto
qed

theorem fsm_construct_unready_witness:
  "bindM (fsm_ctrl_construct demo_obj 3 4 5 6 0 2 7) (\<lambda>fsm. fsm_alloc_evt (\<lambda>_. Some (\<lambda>_. 32)) demo_obj 3 fsm 1) demo_fsm_mem = Abort Uninit_read"
  by (rule fsm_construct_unready [OF demo_fresh_obj]) (simp_all add: demo_fsm_mem_def good_sizes_def)

end
