(* ===== verification/BigBlob.thy ===== *)
theory BigBlob
  imports CPrelude
begin

unbundle bit_operations_syntax

text \<open>
  The big numbers of common/util/bigint.cpp and include/util/bigint.h. The data of a \<open>BaseBlob\<close> is a message
  of the serialisation library with a string of bytes; the memory maps the address of a message to that string
  and to its member \<open>byte\<close>. A 32-bit word of it is four bytes: zero and complement do not depend on their
  order. \<open>nb s\<close> is the address of the next message; \<open>parse\<close> is the library's parser, which answers whether it
  succeeded and what the message holds then; \<open>bsize\<close> is its serialised size.
\<close>

subsection \<open>Data and operations\<close>

record blob_mem =
  b_blob :: "addr \<rightharpoonup> 8 word list"
  b_byte :: "addr \<rightharpoonup> int"

record base_blob =
  bl_ref :: bool
  bl_data :: addr

type_synonym parser = "8 word list \<Rightarrow> bool \<times> 8 word list \<times> int"

definition new_blob :: "(blob_mem \<Rightarrow> addr) \<Rightarrow> (blob_mem, addr) cprog" where
  [c_eval]: "new_blob nb s = Ret (nb s) (s\<lparr>b_blob := (b_blob s)(nb s \<mapsto> []), b_byte := (b_byte s)(nb s \<mapsto> 0)\<rparr>)"

definition delete_blob :: "addr \<Rightarrow> (blob_mem, unit) cprog" where
  [c_eval]: "delete_blob p s = (if p = NULL then Ret () s
     else if b_blob s p = None then Abort (Fault p) else Ret () (s\<lparr>b_blob := (b_blob s)(p := None), b_byte := (b_byte s)(p := None)\<rparr>))"

definition blob_dtor :: "base_blob \<Rightarrow> (blob_mem, unit) cprog" where
  "blob_dtor B = (if \<not> bl_ref B then delete_blob (bl_data B) else ret ())"

text \<open>\<open>str\<close>: the bytes that can be read from the argument.\<close>

definition blob_ctor_bits :: "(blob_mem \<Rightarrow> addr) \<Rightarrow> nat \<Rightarrow> 8 word list \<Rightarrow> (blob_mem, base_blob) cprog" where
  "blob_ctor_bits nb bits str =
     bindM (new_blob nb) (\<lambda>p.
     seqM (if length str < bits div 8 then abortM (Fault p) else wr b_blob b_blob_update p (take (bits div 8) str))
    (bindM (rd b_blob p) (\<lambda>xs.
     seqM (wr b_byte b_byte_update p (int (length xs)))
     (ret \<lparr>bl_ref = False, bl_data = p\<rparr>))))"

definition blob_ctor_ref :: "addr \<Rightarrow> base_blob" where
  "blob_ctor_ref p = \<lparr>bl_ref = True, bl_data = p\<rparr>"

definition parse_into :: "parser \<Rightarrow> addr \<Rightarrow> 8 word list \<Rightarrow> (blob_mem, bool) cprog" where
  "parse_into parse p xs =
     seqM (wr b_blob b_blob_update p (fst (snd (parse xs))))
    (seqM (wr b_byte b_byte_update p (snd (snd (parse xs)))) (ret (fst (parse xs))))"

definition blob_ctor_string :: "(blob_mem \<Rightarrow> addr) \<Rightarrow> parser \<Rightarrow> 8 word list \<Rightarrow> (blob_mem, base_blob) cprog" where
  "blob_ctor_string nb parse xs =
     bindM (new_blob nb) (\<lambda>p. bindM (parse_into parse p xs) (\<lambda>b.
     if b = False then seqM (delete_blob p) (ret \<lparr>bl_ref = False, bl_data = NULL\<rparr>) else ret \<lparr>bl_ref = False, bl_data = p\<rparr>))"

definition blob_ctor_stream :: "(blob_mem \<Rightarrow> addr) \<Rightarrow> parser \<Rightarrow> 8 word list \<Rightarrow> (blob_mem, base_blob) cprog" where
  "blob_ctor_stream nb parse xs =
     bindM (new_blob nb) (\<lambda>p. bindM (parse_into parse p xs) (\<lambda>b.
     if b then seqM (delete_blob p) (ret \<lparr>bl_ref = False, bl_data = NULL\<rparr>) else ret \<lparr>bl_ref = False, bl_data = p\<rparr>))"

definition blob_ctor_copy :: "(blob_mem \<Rightarrow> addr) \<Rightarrow> base_blob \<Rightarrow> (blob_mem, base_blob) cprog" where
  "blob_ctor_copy nb C =
     bindM (new_blob nb) (\<lambda>p.
     bindM (rd b_blob (bl_data C)) (\<lambda>xs. bindM (rd b_byte (bl_data C)) (\<lambda>y.
     seqM (wr b_blob b_blob_update p xs) (seqM (wr b_byte b_byte_update p y)
     (ret \<lparr>bl_ref = False, bl_data = p\<rparr>)))))"

definition bl_is_valid :: "base_blob \<Rightarrow> bool" where
  "bl_is_valid B = (bl_data B \<noteq> NULL)"

text \<open>\<open>*len\<close> of \<open>bl_data_ptr\<close>, and the word at an index.\<close>

definition bl_words :: "base_blob \<Rightarrow> (blob_mem, nat) cprog" where
  "bl_words B = bindM (rd b_blob (bl_data B)) (\<lambda>xs. ret (length xs div 4))"

definition word_bytes :: "nat \<Rightarrow> 8 word list \<Rightarrow> 8 word list" where
  "word_bytes i xs = take 4 (drop (4 * i) xs)"

definition set_word :: "addr \<Rightarrow> nat \<Rightarrow> 8 word list \<Rightarrow> (blob_mem, unit) cprog" where
  "set_word p i w = bindM (rd b_blob p) (\<lambda>xs.
     if 4 * i + 4 \<le> length xs then wr b_blob b_blob_update p (take (4 * i) xs @ w @ drop (4 * i + 4) xs) else abortM (Fault p))"

definition get_word :: "addr \<Rightarrow> nat \<Rightarrow> (blob_mem, 8 word list) cprog" where
  "get_word p i = bindM (rd b_blob p) (\<lambda>xs. if 4 * i + 4 \<le> length xs then ret (word_bytes i xs) else abortM (Fault p))"

definition bl_set_null :: "base_blob \<Rightarrow> (blob_mem, unit) cprog" where
  "bl_set_null B = bindM (bl_words B) (\<lambda>len. forM [0..<len] (\<lambda>i. set_word (bl_data B) i [0, 0, 0, 0]))"

fun is_null_loop :: "addr \<Rightarrow> nat list \<Rightarrow> (blob_mem, bool) cprog" where
  "is_null_loop p [] = ret True"
| "is_null_loop p (i # is) = bindM (get_word p i) (\<lambda>w. if w \<noteq> [0, 0, 0, 0] then ret False else is_null_loop p is)"

definition bl_is_null :: "base_blob \<Rightarrow> (blob_mem, bool) cprog" where
  "bl_is_null B = bindM (bl_words B) (\<lambda>len. is_null_loop (bl_data B) [0..<len])"

definition blob_not :: "(blob_mem \<Rightarrow> addr) \<Rightarrow> base_blob \<Rightarrow> (blob_mem, base_blob) cprog" where
  "blob_not nb B =
     (if bl_is_valid B
      then bindM (blob_ctor_copy nb B) (\<lambda>r. bindM (bl_words B) (\<lambda>len.
           seqM (forM [0..<len] (\<lambda>i. bindM (get_word (bl_data B) i) (\<lambda>w. set_word (bl_data r) i (map NOT w))))
           (ret r)))
      else blob_ctor_bits nb 0 [])"

text \<open>\<open>memcmp\<close> as far as the first difference; the data of a string ends with a zero byte after it.\<close>

fun mem_eq :: "8 word list \<Rightarrow> 8 word list \<Rightarrow> nat \<Rightarrow> (blob_mem, bool) cprog" where
  "mem_eq xs ys 0 = ret True"
| "mem_eq (x # xs) (y # ys) (Suc n) = (if x = y then mem_eq xs ys n else ret False)"
| "mem_eq xs ys (Suc n) = abortM (Fault NULL)"

definition blob_eq :: "(8 word list \<Rightarrow> int \<Rightarrow> nat) \<Rightarrow> base_blob \<Rightarrow> base_blob \<Rightarrow> (blob_mem, bool) cprog" where
  "blob_eq bsize A B =
     bindM (rd b_blob (bl_data A)) (\<lambda>xs. bindM (rd b_blob (bl_data B)) (\<lambda>ys. bindM (rd b_byte (bl_data A)) (\<lambda>k.
     mem_eq (xs @ [0]) (ys @ [0]) (bsize xs k))))"

subsection \<open>Words of a blob\<close>

lemma set_words_run:
  assumes "b_blob s p = Some xs" and "4 * n \<le> length xs" and "\<And>i. i < n \<Longrightarrow> length (f i) = 4"
  shows "forM [0..<n] (\<lambda>i. set_word p i (f i)) s = Ret () (s\<lparr>b_blob := (b_blob s)(p \<mapsto> concat (map f [0..<n]) @ drop (4 * n) xs)\<rparr>)"
  using assms(2,3)
proof (induction n)
  case 0
  then show ?case using assms(1) by (simp add: c_eval fun_upd_idem)
next
  case (Suc n)
  have l: "length (concat (map f [0..<n])) = 4 * n"
  proof -
    have "map (length \<circ> f) [0..<n] = replicate n 4" using Suc.prems(2) by (intro nth_equalityI) auto
    then show ?thesis by (simp add: length_concat sum_list_replicate)
  qed
  have IH: "forM [0..<n] (\<lambda>i. set_word p i (f i)) s = Ret () (s\<lparr>b_blob := (b_blob s)(p \<mapsto> concat (map f [0..<n]) @ drop (4 * n) xs)\<rparr>)"
    by (rule Suc.IH) (use Suc.prems in simp_all)
  have step: "forM [0..<Suc n] (\<lambda>i. set_word p i (f i)) s
    = set_word p n (f n) (s\<lparr>b_blob := (b_blob s)(p \<mapsto> concat (map f [0..<n]) @ drop (4 * n) xs)\<rparr>)"
    using forM_snoc [OF IH] by simp
  show ?case unfolding step using l Suc.prems by (simp add: set_word_def c_eval add.commute fun_upd_def cong: if_cong)
qed

lemma set_null_run:
  assumes "b_blob s (bl_data B) = Some xs"
  shows "bl_set_null B s = Ret () (s\<lparr>b_blob := (b_blob s)(bl_data B \<mapsto> replicate (4 * (length xs div 4)) 0 @ drop (4 * (length xs div 4)) xs)\<rparr>)"
proof -
  have "concat (map (\<lambda>i. [0, 0, 0, 0]) [0..<n]) = replicate (4 * n) (0 :: 8 word)" for n
  proof (induction n)
    case (Suc n)
    have "[0, 0, 0, 0] = replicate 4 (0 :: 8 word)" by (simp add: numeral_eq_Suc)
    then show ?case using Suc by (simp add: replicate_add [symmetric] add.commute)
  qed simp
  moreover have "forM [0..<length xs div 4] (\<lambda>i. set_word (bl_data B) i [0, 0, 0, 0]) s
    = Ret () (s\<lparr>b_blob := (b_blob s)(bl_data B \<mapsto> concat (map (\<lambda>i. [0, 0, 0, 0]) [0..<length xs div 4]) @ drop (4 * (length xs div 4)) xs)\<rparr>)"
    using assms by (rule set_words_run) simp_all
  ultimately show ?thesis using assms by (simp add: bl_set_null_def bl_words_def c_eval)
qed

lemma is_null_run:
  assumes "b_blob s p = Some xs" and "\<forall>i \<in> set is. 4 * i + 4 \<le> length xs"
  shows "is_null_loop p is s = Ret (\<forall>i \<in> set is. word_bytes i xs = [0, 0, 0, 0]) s"
  using assms by (induction "is") (auto simp: get_word_def c_eval)

subsection \<open>Properties\<close>

definition fresh_blob :: "(blob_mem \<Rightarrow> addr) \<Rightarrow> bool" where
  "fresh_blob nb \<longleftrightarrow> (\<forall>s. finite (dom (b_blob s)) \<longrightarrow> nb s \<noteq> NULL \<and> b_blob s (nb s) = None)"

text \<open>Setting a blob to null makes it null; the bytes behind the last word are neither set nor looked at.\<close>

lemma set_null_is_null:
  assumes "b_blob s (bl_data B) = Some xs"
  shows "\<exists>s'. seqM (bl_set_null B) (bl_is_null B) s = Ret True s' \<and> b_blob s' (bl_data B) = Some (replicate (4 * (length xs div 4)) 0 @ drop (4 * (length xs div 4)) xs)"
proof -
  let ?n = "length xs div 4" and ?ys = "replicate (4 * (length xs div 4)) 0 @ drop (4 * (length xs div 4)) xs"
  let ?s = "s\<lparr>b_blob := (b_blob s)(bl_data B \<mapsto> ?ys)\<rparr>"
  have len: "length ?ys = length xs" by simp
  have w: "word_bytes i ?ys = [0, 0, 0, 0]" if "i < ?n" for i
  proof -
    have r: "[0, 0, 0, 0] = replicate 4 (0 :: 8 word)" by (simp add: numeral_eq_Suc)
    have "4 \<le> 4 * ?n - 4 * i" "4 * i \<le> 4 * ?n" using that by simp_all
    then show ?thesis unfolding r word_bytes_def by (simp add: min_def)
  qed
  have "is_null_loop (bl_data B) [0..<?n] ?s = Ret (\<forall>i \<in> set [0..<?n]. word_bytes i ?ys = [0, 0, 0, 0]) ?s"
    by (rule is_null_run) (use len in auto)
  then have "bl_is_null B ?s = Ret True ?s" using w len by (simp add: bl_is_null_def bl_words_def c_eval)
  then show ?thesis using set_null_run [of s B xs] assms by (auto simp: seqM_def)
qed

lemma null_of_tail:
  assumes "b_blob s (bl_data B) = Some xs" and "length xs < 4"
  shows "bl_is_null B s = Ret True s"
  using assms by (simp add: bl_is_null_def bl_words_def c_eval)

text \<open>The complement of the complement is the number again.\<close>

definition not_words :: "8 word list \<Rightarrow> 8 word list" where
  "not_words xs = map NOT (take (4 * (length xs div 4)) xs) @ drop (4 * (length xs div 4)) xs"

lemma words_concat: "4 * n \<le> length xs \<Longrightarrow> concat (map (\<lambda>i. map NOT (word_bytes i xs)) [0..<n]) = map NOT (take (4 * n) xs)"
proof (induction n)
  case (Suc n)
  have "4 * Suc n = 4 * n + 4" by simp
  then have "take (4 * Suc n) xs = take (4 * n) xs @ take 4 (drop (4 * n) xs)" by (simp only: take_add)
  then show ?case using Suc by (simp add: word_bytes_def)
qed simp

lemma blob_not_run:
  assumes "bl_data B \<noteq> NULL" and "b_blob s (bl_data B) = Some xs" and "b_byte s (bl_data B) = Some k" and "fresh_blob nb" and "finite (dom (b_blob s))"
  shows "\<exists>p s'. blob_not nb B s = Ret \<lparr>bl_ref = False, bl_data = p\<rparr> s' \<and> p \<noteq> NULL \<and> b_blob s p = None
    \<and> b_blob s' = (b_blob s)(p \<mapsto> not_words xs) \<and> b_byte s' p = Some k"
proof -
  let ?p = "nb s" and ?n = "length xs div 4"
  have p: "?p \<noteq> NULL" "b_blob s ?p = None" "?p \<noteq> bl_data B" using assms by (auto simp: fresh_blob_def)
  let ?s = "s\<lparr>b_blob := (b_blob s)(?p \<mapsto> xs), b_byte := (b_byte s)(?p \<mapsto> k)\<rparr>"
  have cp: "blob_ctor_copy nb B s = Ret \<lparr>bl_ref = False, bl_data = ?p\<rparr> ?s" using assms(2,3) p(3) by (simp add: blob_ctor_copy_def c_eval)
  have W: "forM js (\<lambda>i. bindM (get_word (bl_data B) i) (\<lambda>w. set_word ?p i (map NOT w))) t = forM js (\<lambda>i. set_word ?p i (map NOT (word_bytes i xs))) t"
    if "\<forall>i \<in> set js. 4 * i + 4 \<le> length xs" "b_blob t (bl_data B) = Some xs" for js t
    using that
  proof (induction js arbitrary: t)
    case (Cons j js)
    have g: "bindM (get_word (bl_data B) j) (\<lambda>w. set_word ?p j (map NOT w)) t = set_word ?p j (map NOT (word_bytes j xs)) t"
      using Cons.prems by (simp add: get_word_def c_eval)
    show ?case
    proof (cases "set_word ?p j (map NOT (word_bytes j xs)) t")
      case None
      then show ?thesis using g by (simp add: seqM_def)
    next
      case (Some r)
      show ?thesis
      proof (cases r)
        case (Ok x t')
        have "b_blob t' (bl_data B) = Some xs"
          using Some Ok Cons.prems(2) p(3) by (auto simp: set_word_def c_eval split: option.splits if_splits)
        then show ?thesis using g Some Ok Cons.IH Cons.prems(1) by (simp add: seqM_def)
      qed (use g Some in \<open>simp add: seqM_def\<close>)
    qed
  qed simp
  have "forM [0..<?n] (\<lambda>i. bindM (get_word (bl_data B) i) (\<lambda>w. set_word ?p i (map NOT w))) ?s
      = forM [0..<?n] (\<lambda>i. set_word ?p i (map NOT (word_bytes i xs))) ?s" by (rule W) (use assms(2) p(3) in auto)
  also have "\<dots> = Ret () (?s\<lparr>b_blob := (b_blob ?s)(?p \<mapsto> concat (map (\<lambda>i. map NOT (word_bytes i xs)) [0..<?n]) @ drop (4 * ?n) xs)\<rparr>)"
    by (rule set_words_run) (auto simp: word_bytes_def)
  also have "concat (map (\<lambda>i. map NOT (word_bytes i xs)) [0..<?n]) @ drop (4 * ?n) xs = not_words xs" by (simp add: words_concat not_words_def)
  finally have loop: "forM [0..<?n] (\<lambda>i. bindM (get_word (bl_data B) i) (\<lambda>w. set_word ?p i (map NOT w))) ?s
      = Ret () (?s\<lparr>b_blob := (b_blob ?s)(?p \<mapsto> not_words xs)\<rparr>)" .
  have words: "bl_words B ?s = Ret ?n ?s" using assms(2) p(3) by (simp add: bl_words_def bindM_def rd_def ret_def)
  have "blob_not nb B s = bindM (bl_words B) (\<lambda>len. seqM (forM [0..<len] (\<lambda>i. bindM (get_word (bl_data B) i) (\<lambda>w. set_word ?p i (map NOT w))))
      (ret \<lparr>bl_ref = False, bl_data = ?p\<rparr>)) ?s"
    using assms(1) by (simp add: blob_not_def bl_is_valid_def bindM_def [of "blob_ctor_copy nb B"] cp)
  also have "\<dots> = Ret \<lparr>bl_ref = False, bl_data = ?p\<rparr> (?s\<lparr>b_blob := (b_blob ?s)(?p \<mapsto> not_words xs)\<rparr>)"
    by (simp only: bindM_def [of "bl_words B"] words seqM_def loop option.case outcome.case ret_def)
  finally show ?thesis using p by (intro exI conjI) (assumption | simp)+
qed

lemma not_words_twice: "not_words (not_words xs) = xs"
proof -
  have m: "min (length xs) (4 * (length xs div 4)) = 4 * (length xs div 4)" by simp
  show ?thesis by (simp add: not_words_def comp_def m)
qed

text \<open>The complement of the complement of a number has the bytes of the number, also those behind its last word.\<close>

theorem blob_not_twice:
  assumes "bl_data B \<noteq> NULL" and "b_blob s (bl_data B) = Some xs" and "b_byte s (bl_data B) = Some k" and "fresh_blob nb" and "finite (dom (b_blob s))"
  shows "\<exists>C s'. bindM (blob_not nb B) (blob_not nb) s = Ret C s' \<and> b_blob s' (bl_data C) = Some xs \<and> b_blob s' (bl_data B) = Some xs"
proof -
  obtain p s1 where s1: "blob_not nb B s = Ret \<lparr>bl_ref = False, bl_data = p\<rparr> s1" "p \<noteq> NULL" "b_blob s p = None"
      "b_blob s1 = (b_blob s)(p \<mapsto> not_words xs)" "b_byte s1 p = Some k"
    using blob_not_run [OF assms] by blast
  let ?C = "\<lparr>bl_ref = False, bl_data = p\<rparr>"
  obtain q s2 where s2: "blob_not nb ?C s1 = Ret \<lparr>bl_ref = False, bl_data = q\<rparr> s2" "b_blob s1 q = None" "b_blob s2 = (b_blob s1)(q \<mapsto> not_words (not_words xs))"
    using blob_not_run [of ?C s1 "not_words xs" k nb] s1 assms(4,5) by auto
  have "q \<noteq> bl_data B" "p \<noteq> bl_data B" using s1(3,4) s2(2) assms(2) by (auto split: if_splits)
  then show ?thesis using s1(1,4) s2(1,3) assms(2) by (auto simp: bindM_def not_words_twice)
qed

definition demo_blob_alloc :: "blob_mem \<Rightarrow> addr" where
  "demo_blob_alloc s = Suc (Max (insert 20 (dom (b_blob s))))"

lemma demo_fresh_blob: "fresh_blob demo_blob_alloc"
  using Suc_Max_fresh [of "dom (b_blob s)" 20 for s] by (auto simp: fresh_blob_def demo_blob_alloc_def domIff)

theorem blob_not_twice_witness:
  "\<exists>C s'. bindM (blob_not demo_blob_alloc \<lparr>bl_ref = True, bl_data = 30\<rparr>) (blob_not demo_blob_alloc)
      \<lparr>b_blob = [30 \<mapsto> [1, 2, 3, 4, 5]], b_byte = [30 \<mapsto> 5]\<rparr> = Ret C s' \<and> b_blob s' (bl_data C) = Some [1, 2, 3, 4, 5]"
proof -
  let ?B = "\<lparr>bl_ref = True, bl_data = 30\<rparr>" and ?s = "\<lparr>b_blob = [30 \<mapsto> [1, 2, 3, 4, 5]], b_byte = [30 \<mapsto> 5]\<rparr>"
  have "\<exists>C s'. bindM (blob_not demo_blob_alloc ?B) (blob_not demo_blob_alloc) ?s = Ret C s' \<and> b_blob s' (bl_data C) = Some [1, 2, 3, 4, 5]
      \<and> b_blob s' (bl_data ?B) = Some [1, 2, 3, 4, 5]"
    by (rule blob_not_twice [of ?B ?s "[1, 2, 3, 4, 5]" 5]) (simp_all add: demo_fresh_blob)
  then show ?thesis by blast
qed

text \<open>\<open>==\<close> compares as many bytes as the serialised message has: for equal blobs it reads behind the string.\<close>

lemma mem_eq_over: "length xs < n \<Longrightarrow> mem_eq xs xs n s = Abort (Fault NULL)"
  by (induction xs arbitrary: n) (auto simp: abortM_def gr0_conv_Suc less_Suc_eq_0_disj Suc_less_eq2)

lemma blob_eq_faults:
  assumes "b_blob s (bl_data A) = Some xs" and "b_blob s (bl_data B) = Some xs" and "b_byte s (bl_data A) = Some k" and "length xs + 2 \<le> bsize xs k"
  shows "blob_eq bsize A B s = Abort (Fault NULL)"
  using assms mem_eq_over [of "xs @ [0]" "bsize xs k" s] by (simp add: blob_eq_def bindM_def rd_def)

text \<open>A number read from a stream is invalid when the stream could be parsed.\<close>

lemma blob_stream_inverted:
  assumes "fst (parse xs)" and "nb s \<noteq> NULL"
  shows "\<exists>B s'. blob_ctor_stream nb parse xs s = Ret B s' \<and> \<not> bl_is_valid B"
  using assms by (auto simp: blob_ctor_stream_def parse_into_def bl_is_valid_def c_eval)

end
