(* ===== verification/CryptoBuf.thy ===== *)
theory CryptoBuf
  imports CPrelude
begin

unbundle bit_operations_syntax

text \<open>
  The buffers of an encryption envelope (\<open>encrypt_env_t\<close>, include/crypto/crypto.h and crypto/crypto.cpp) and
  the hexadecimal text of crypto/crypto-user.cpp. The heap maps the address of an array made by
  \<open>new []\<close> to its bytes, \<open>None\<close> for a byte that was not written; a pointer into an array is its address with
  an offset. \<open>na s n\<close> is the address of the next array of \<open>n\<close> bytes.
\<close>

type_synonym blocks = "addr \<rightharpoonup> 8 word option list"

type_synonym new_fn = "blocks \<Rightarrow> nat \<Rightarrow> addr"

definition new_array :: "new_fn \<Rightarrow> nat \<Rightarrow> (blocks, addr) cprog" where
  [c_eval]: "new_array na n s = Ret (na s n) (s(na s n \<mapsto> replicate n None))"

definition delete_array :: "addr \<Rightarrow> (blocks, unit) cprog" where
  [c_eval]: "delete_array p s = (case s p of None \<Rightarrow> Abort (Fault p) | Some _ \<Rightarrow> Ret () (s(p := None)))"

text \<open>\<open>*p = c\<close> at offset \<open>k\<close>.\<close>

definition put_byte :: "addr \<Rightarrow> nat \<Rightarrow> 8 word \<Rightarrow> (blocks, unit) cprog" where
  [c_eval]: "put_byte p k c s = (case s p of None \<Rightarrow> Abort (Fault p)
     | Some xs \<Rightarrow> if k < length xs then Ret () (s(p \<mapsto> xs[k := Some c])) else Abort (Fault (p + k)))"

text \<open>\<open>memcpy\<close> of \<open>n\<close> bytes from offset \<open>k\<close> of \<open>q\<close> to the start of \<open>p\<close>.\<close>

definition copy_bytes :: "addr \<Rightarrow> addr \<Rightarrow> nat \<Rightarrow> nat \<Rightarrow> (blocks, unit) cprog" where
  [c_eval]: "copy_bytes p q k n s = (if n = 0 then Ret () s else case s q of None \<Rightarrow> Abort (Fault q)
     | Some xs \<Rightarrow> if length xs < k + n then Abort (Fault q)
         else case s p of None \<Rightarrow> Abort (Fault p)
           | Some ys \<Rightarrow> if length ys < n then Abort (Fault p) else Ret () (s(p \<mapsto> take n (drop k xs) @ drop n ys)))"

subsection \<open>The envelope\<close>

record encrypt_env =
  m_out_len :: nat
  out_msg :: addr
  m_ekey :: "addr \<times> nat"
  m_iv :: addr
  m_iv_len :: nat
  m_ekey_len :: nat

definition env_ctor :: encrypt_env where
  "env_ctor = \<lparr>m_out_len = 0, out_msg = NULL, m_ekey = (NULL, 0), m_iv = NULL, m_iv_len = 0, m_ekey_len = 0\<rparr>"

definition delete_if :: "addr \<Rightarrow> (blocks, unit) cprog" where
  "delete_if p = (if p \<noteq> NULL then delete_array p else ret ())"

definition env_dtor :: "encrypt_env \<Rightarrow> (blocks, encrypt_env) cprog" where
  "env_dtor E = seqM (delete_if (out_msg E)) (seqM (delete_if (m_iv E))
     (ret (E\<lparr>m_iv := NULL, m_ekey := (NULL, 0), out_msg := NULL\<rparr>)))"

definition env_alloc_mem :: "new_fn \<Rightarrow> encrypt_env \<Rightarrow> nat \<Rightarrow> nat \<Rightarrow> nat \<Rightarrow> (blocks, encrypt_env) cprog" where
  "env_alloc_mem na E out_len ek_len iv_len =
     seqM (delete_if (out_msg E))
    (bindM (new_array na out_len) (\<lambda>msg.
     seqM (delete_if (m_iv E))
    (bindM (new_array na (iv_len + ek_len)) (\<lambda>iv.
     ret (E\<lparr>m_out_len := out_len, out_msg := msg, m_iv := iv, m_ekey := (iv, iv_len), m_iv_len := iv_len, m_ekey_len := ek_len\<rparr>)))))"

text \<open>The three flags say which of the pointers \<open>mesg\<close>, \<open>ekey\<close> and \<open>iv\<close> are not null; the result has what is
  stored through each.\<close>

definition env_release_mem :: "new_fn \<Rightarrow> encrypt_env \<Rightarrow> bool \<Rightarrow> bool \<Rightarrow> bool
    \<Rightarrow> (blocks, addr option \<times> addr option \<times> addr option \<times> encrypt_env) cprog" where
  "env_release_mem na E mesg ekey iv =
     seqM (if mesg then ret () else delete_if (out_msg E))
    (bindM (if ekey
            then bindM (new_array na (m_ekey_len E)) (\<lambda>p. seqM (copy_bytes p (fst (m_ekey E)) (snd (m_ekey E)) (m_ekey_len E)) (ret (Some p)))
            else ret None) (\<lambda>k.
     bindM (if iv
            then bindM (new_array na (m_iv_len E)) (\<lambda>p. seqM (copy_bytes p (m_iv E) 0 (m_iv_len E)) (ret (Some p)))
            else seqM (delete_if (m_iv E)) (ret None)) (\<lambda>v.
     ret (if mesg then Some (out_msg E) else None, k, v, E\<lparr>out_msg := NULL, m_iv := NULL, m_ekey := (NULL, 0)\<rparr>))))"

subsection \<open>Hexadecimal text\<close>

definition hexmap :: "8 word list" where
  "hexmap = [0x30, 0x31, 0x32, 0x33, 0x34, 0x35, 0x36, 0x37, 0x38, 0x39, 0x61, 0x62, 0x63, 0x64, 0x65, 0x66]"

text \<open>\<open>xs\<close>: what \<open>in\<close> points to. The loop runs \<open>len\<close> times from \<open>i\<close>.\<close>

fun base16_loop :: "8 word list \<Rightarrow> addr \<Rightarrow> nat \<Rightarrow> nat \<Rightarrow> (blocks, unit) cprog" where
  "base16_loop xs buff i 0 = ret ()"
| "base16_loop xs buff i (Suc n) =
     (if i < length xs
      then seqM (put_byte buff (2 * i) (hexmap ! unat (drop_bit 4 (xs ! i))))
          (seqM (put_byte buff (2 * i + 1) (hexmap ! unat (xs ! i AND 0xf)))
           (base16_loop xs buff (i + 1) n))
      else abortM (Fault i))"

definition to_base16 :: "new_fn \<Rightarrow> 8 word list \<Rightarrow> nat \<Rightarrow> (blocks, addr) cprog" where
  "to_base16 na xs len =
     bindM (new_array na (len * 2 + 1)) (\<lambda>buff.
     seqM (base16_loop xs buff 0 len)
    (seqM (put_byte buff (2 * len) 0)
     (ret buff)))"

subsection \<open>What the calls of an envelope leave on the heap\<close>

definition fresh_new :: "new_fn \<Rightarrow> bool" where
  "fresh_new na \<longleftrightarrow> (\<forall>s n. finite (dom s) \<longrightarrow> na s n \<noteq> NULL \<and> s (na s n) = None)"

text \<open>An envelope of which nothing was released.\<close>

definition env_on :: "blocks \<Rightarrow> encrypt_env \<Rightarrow> blocks \<Rightarrow> bool" where
  "env_on s E h \<longleftrightarrow> finite (dom s) \<and> (if m_iv E = NULL then E = env_ctor \<and> s = h
     else out_msg E \<noteq> NULL \<and> out_msg E \<noteq> m_iv E \<and> h (out_msg E) = None \<and> h (m_iv E) = None \<and> m_ekey E = (m_iv E, m_iv_len E)
       \<and> (\<exists>ms ks. length ks = m_iv_len E + m_ekey_len E \<and> s = h(out_msg E \<mapsto> ms, m_iv E \<mapsto> ks)))"

lemma env_on_ctor: "finite (dom s) \<Longrightarrow> env_on s env_ctor s"
  by (simp add: env_on_def env_ctor_def)

lemma env_alloc_run:
  assumes "env_on s E h" and "fresh_new na"
  shows "\<exists>E' s'. env_alloc_mem na E ol el il s = Ret E' s' \<and> env_on s' E' h \<and> m_iv E' \<noteq> NULL \<and> m_iv_len E' = il \<and> m_ekey_len E' = el"
proof -
  define s1 where "s1 = (if m_iv E = NULL then s else s(out_msg E := None))"
  define s2 where "s2 = s1(na s1 ol \<mapsto> replicate ol None)"
  define s3 where "s3 = (if m_iv E = NULL then s2 else s2(m_iv E := None))"
  have fin: "finite (dom s1)" "finite (dom s2)" "finite (dom s3)" using assms(1) by (auto simp: s1_def s2_def s3_def env_on_def)
  have n1: "na s1 ol \<noteq> NULL" "s1 (na s1 ol) = None" and n3: "na s3 (il + el) \<noteq> NULL" "s3 (na s3 (il + el)) = None"
    using assms(2) fin unfolding fresh_new_def by blast+
  let ?E = "E\<lparr>m_out_len := ol, out_msg := na s1 ol, m_iv := na s3 (il + el), m_ekey := (na s3 (il + el), il), m_iv_len := il, m_ekey_len := el\<rparr>"
  let ?s = "s3(na s3 (il + el) \<mapsto> replicate (il + el) None)"
  have d1: "delete_if (out_msg E) s = Ret () s1"
    using assms(1) by (auto simp: env_on_def delete_if_def delete_array_def ret_def s1_def env_ctor_def split: if_splits)
  have iv: "m_iv E \<noteq> NULL \<Longrightarrow> s1 (m_iv E) \<noteq> None" using assms(1) by (auto simp: env_on_def s1_def)
  then have ne: "m_iv E \<noteq> NULL \<Longrightarrow> m_iv E \<noteq> na s1 ol" using n1(2) by auto
  have d2: "delete_if (m_iv E) s2 = Ret () s3"
    using iv by (auto simp: delete_if_def delete_array_def ret_def s2_def s3_def)
  have h: "s3 = h(na s1 ol \<mapsto> replicate ol None)"
    using assms(1) ne by (auto simp: env_on_def s1_def s2_def s3_def fun_eq_iff split: if_splits)
  have h1: "h (na s1 ol) = None" using assms(1) n1(2) ne by (auto simp: env_on_def s1_def split: if_splits)
  have nn: "na s3 (il + el) \<noteq> na s1 ol" "h (na s3 (il + el)) = None" using n3(2) h by (auto split: if_splits)
  have "\<exists>ms ks. length ks = il + el \<and> ?s = h(na s1 ol \<mapsto> ms, na s3 (il + el) \<mapsto> ks)"
    by (rule exI [of _ "replicate ol None"], rule exI [of _ "replicate (il + el) None"]) (simp flip: h)
  then have "env_on ?s ?E h" using n1(1) n3(1) nn h1 fin(3) by (simp add: env_on_def)
  then show ?thesis using d1 d2 n3(1) by (auto simp: env_alloc_mem_def bindM_def seqM_def new_array_def ret_def s2_def)
qed

definition opt_set :: "addr option \<Rightarrow> addr set" where
  "opt_set p = (case p of None \<Rightarrow> {} | Some a \<Rightarrow> {a})"

text \<open>A copy of part of an array to a new one.\<close>

lemma copy_new_run:
  assumes "fresh_new na" and "finite (dom s)" and "s q = Some xs" and "k + n \<le> length xs"
  shows "bindM (new_array na n) (\<lambda>p. seqM (copy_bytes p q k n) (ret (Some p))) s = Ret (Some (na s n)) (s(na s n \<mapsto> take n (drop k xs)))"
    and "na s n \<noteq> NULL" and "s (na s n) = None"
proof -
  show f: "na s n \<noteq> NULL" "s (na s n) = None" using assms(1,2) unfolding fresh_new_def by blast+
  then have "na s n \<noteq> q" using assms(3) by auto
  then show "bindM (new_array na n) (\<lambda>p. seqM (copy_bytes p q k n) (ret (Some p))) s = Ret (Some (na s n)) (s(na s n \<mapsto> take n (drop k xs)))"
    using assms(3,4) by (auto simp: c_eval)
qed

lemma env_release_run:
  assumes "env_on s E h" and "m_iv E \<noteq> NULL" and "fresh_new na"
  shows "\<exists>mp kp vp E' s'. env_release_mem na E mesg ekey iv s = Ret (mp, kp, vp, E') s'
    \<and> m_iv E' = NULL \<and> out_msg E' = NULL \<and> fst (m_ekey E') = NULL \<and> h \<subseteq>\<^sub>m s'
    \<and> dom s' - dom h = opt_set mp \<union> opt_set kp \<union> opt_set vp \<union> (if iv then {m_iv E} else {})
    \<and> m_iv E \<notin> opt_set mp \<union> opt_set kp \<union> opt_set vp"
proof -
  obtain ms ks where e: "out_msg E \<noteq> NULL" "out_msg E \<noteq> m_iv E" "h (out_msg E) = None" "h (m_iv E) = None" "m_ekey E = (m_iv E, m_iv_len E)"
      "length ks = m_iv_len E + m_ekey_len E" "s = h(out_msg E \<mapsto> ms, m_iv E \<mapsto> ks)" and fin: "finite (dom s)"
    using assms(1,2) by (auto simp: env_on_def)
  define s1 where "s1 = (if mesg then s else s(out_msg E := None))"
  have 1: "(if mesg then ret () else delete_if (out_msg E)) s = Ret () s1"
    using e(1,2,7) by (auto simp: s1_def delete_if_def delete_array_def ret_def)
  have s1: "s1 (m_iv E) = Some ks" "finite (dom s1)" using e(2,7) fin by (auto simp: s1_def)
  define p where "p = na s1 (m_ekey_len E)"
  define s2 where "s2 = (if ekey then s1(p \<mapsto> take (m_ekey_len E) (drop (m_iv_len E) ks)) else s1)"
  note K = copy_new_run [OF assms(3) s1(2,1), of "m_iv_len E" "m_ekey_len E"]
  have p: "p \<noteq> NULL" "s1 p = None" "p \<noteq> m_iv E" using K(2,3) e(6) s1(1) by (auto simp: p_def)
  have 2: "(if ekey then bindM (new_array na (m_ekey_len E)) (\<lambda>p. seqM (copy_bytes p (fst (m_ekey E)) (snd (m_ekey E)) (m_ekey_len E)) (ret (Some p)))
        else ret None) s1 = Ret (if ekey then Some p else None) s2"
    using K(1) e(5,6) by (simp add: s2_def p_def ret_def)
  have s2: "s2 (m_iv E) = Some ks" "finite (dom s2)" using s1 p(3) by (auto simp: s2_def)
  define q where "q = na s2 (m_iv_len E)"
  define s3 where "s3 = (if iv then s2(q \<mapsto> take (m_iv_len E) (drop 0 ks)) else s2(m_iv E := None))"
  note V = copy_new_run [OF assms(3) s2(2,1), of 0 "m_iv_len E"]
  have q: "q \<noteq> NULL" "s2 q = None" "q \<noteq> m_iv E" using V(2,3) e(6) s2(1) by (auto simp: q_def)
  have 3: "(if iv then bindM (new_array na (m_iv_len E)) (\<lambda>p. seqM (copy_bytes p (m_iv E) 0 (m_iv_len E)) (ret (Some p)))
        else seqM (delete_if (m_iv E)) (ret None)) s2 = Ret (if iv then Some q else None) s3"
    using V(1) e(6) s2(1) assms(2) by (simp add: s3_def q_def ret_def delete_if_def delete_array_def seqM_def)
  have run: "env_release_mem na E mesg ekey iv s = Ret (if mesg then Some (out_msg E) else None, if ekey then Some p else None, if iv then Some q else None,
      E\<lparr>out_msg := NULL, m_iv := NULL, m_ekey := (NULL, 0)\<rparr>) s3"
    using 1 2 3 unfolding env_release_mem_def by (simp add: bindM_def seqM_def [of "if mesg then ret () else delete_if (out_msg E)"] ret_def)
  have hp: "h p = None" using p(2,3) e(3) by (auto simp: s1_def e(7) split: if_splits)
  have hq: "h q = None" using q(2,3) e(3) by (auto simp: s2_def s1_def e(7) split: if_splits)
  have sub: "h \<subseteq>\<^sub>m s3" using hp hq e(3,4) by (auto simp: map_le_def s3_def s2_def s1_def e(7))
  have dom: "dom s3 - dom h = opt_set (if mesg then Some (out_msg E) else None) \<union> opt_set (if ekey then Some p else None)
      \<union> opt_set (if iv then Some q else None) \<union> (if iv then {m_iv E} else {})"
    using hp hq e(2,3,4) p(3) q(3) by (auto simp: opt_set_def s3_def s2_def s1_def e(7) split: if_splits)
  show ?thesis using run sub dom e(2) p(3) q(3) by (auto simp: opt_set_def)
qed

fun env_allocs :: "new_fn \<Rightarrow> encrypt_env \<Rightarrow> (nat \<times> nat \<times> nat) list \<Rightarrow> (blocks, encrypt_env) cprog" where
  "env_allocs na E [] = ret E"
| "env_allocs na E (l # ls) = bindM (env_alloc_mem na E (fst l) (fst (snd l)) (snd (snd l))) (\<lambda>E'. env_allocs na E' ls)"

lemma env_allocs_run:
  assumes "env_on s E h" and "fresh_new na"
  shows "\<exists>E' s'. env_allocs na E ls s = Ret E' s' \<and> env_on s' E' h \<and> (ls \<noteq> [] \<or> m_iv E \<noteq> NULL \<longrightarrow> m_iv E' \<noteq> NULL)"
  using assms(1)
proof (induction ls arbitrary: s E)
  case Nil
  then show ?case by (simp add: c_eval)
next
  case (Cons l ls)
  obtain E1 s1 where s1: "env_alloc_mem na E (fst l) (fst (snd l)) (snd (snd l)) s = Ret E1 s1" "env_on s1 E1 h" "m_iv E1 \<noteq> NULL"
    using env_alloc_run [OF Cons.prems assms(2)] by blast
  then show ?case using Cons.IH [OF s1(2)] by (auto simp: bindM_def)
qed

text \<open>C40: however often memory was allocated for an envelope, releasing it leaves on the heap, besides what was there
  before, the arrays that it hands out and, when the vector is asked for, also the array of the envelope itself,
  to which nothing points any more.\<close>

theorem env_release_leaks:
  assumes "fresh_new na" and "finite (dom h)" and "ls \<noteq> []"
  shows "\<exists>E s mp kp vp E' s'. env_allocs na env_ctor ls h = Ret E s \<and> env_release_mem na E mesg ekey iv s = Ret (mp, kp, vp, E') s'
    \<and> m_iv E' = NULL \<and> out_msg E' = NULL \<and> fst (m_ekey E') = NULL \<and> h \<subseteq>\<^sub>m s'
    \<and> dom s' - dom h = opt_set mp \<union> opt_set kp \<union> opt_set vp \<union> (if iv then {m_iv E} else {})
    \<and> m_iv E \<notin> opt_set mp \<union> opt_set kp \<union> opt_set vp"
proof -
  obtain E s where s: "env_allocs na env_ctor ls h = Ret E s" "env_on s E h" "m_iv E \<noteq> NULL"
    using env_allocs_run [OF env_on_ctor [OF assms(2)] assms(1)] assms(3) by blast
  show ?thesis using env_release_run [OF s(2,3) assms(1)] s(1) by (intro exI [of _ E] exI [of _ s]) (simp only: simp_thms)
qed

definition demo_new :: new_fn where
  "demo_new s n = Suc (Max (insert 20 (dom s)))"

lemma demo_fresh_new: "fresh_new demo_new"
  using Suc_Max_fresh [of "dom s" 20 for s :: blocks] by (auto simp: fresh_new_def demo_new_def domIff)

theorem env_release_leaks_witness:
  "\<exists>E s mp kp vp E' s'. env_allocs demo_new env_ctor [(10, 4, 2), (8, 16, 16)] Map.empty = Ret E s
    \<and> env_release_mem demo_new E True True True s = Ret (mp, kp, vp, E') s' \<and> m_iv E' = NULL
    \<and> dom s' = opt_set mp \<union> opt_set kp \<union> opt_set vp \<union> {m_iv E} \<and> m_iv E \<notin> opt_set mp \<union> opt_set kp \<union> opt_set vp"
  using env_release_leaks [OF demo_fresh_new, of Map.empty "[(10, 4, 2), (8, 16, 16)]" True True True] by auto

text \<open>Releasing a second time and asking for the key copies from the null pointer.\<close>

lemma env_release_twice:
  assumes "fst (m_ekey E) = NULL" and "out_msg E = NULL" and "0 < m_ekey_len E" and "s NULL = None" and "finite (dom s)" and "fresh_new na"
  shows "env_release_mem na E mesg True iv s = Abort (Fault NULL)"
proof -
  have "na s (m_ekey_len E) \<noteq> NULL" using assms(5,6) by (auto simp: fresh_new_def)
  then show ?thesis using assms(1-4) by (auto simp: env_release_mem_def delete_if_def bindM_def seqM_def new_array_def copy_bytes_def ret_def)
qed

text \<open>The destructor of an envelope that was not released frees its arrays.\<close>

lemma env_dtor_frees:
  assumes "env_on s E h"
  shows "\<exists>E'. env_dtor E s = Ret E' h"
proof (cases "m_iv E = NULL")
  case True
  then show ?thesis using assms by (simp add: env_on_def env_dtor_def delete_if_def seqM_def ret_def env_ctor_def)
next
  case False
  then obtain ms ks where e: "out_msg E \<noteq> NULL" "out_msg E \<noteq> m_iv E" "h (out_msg E) = None" "h (m_iv E) = None" "s = h(out_msg E \<mapsto> ms, m_iv E \<mapsto> ks)"
    using assms by (auto simp: env_on_def)
  have "s(out_msg E := None, m_iv E := None) = h" unfolding e(5) using e(2-4) by (simp add: fun_eq_iff)
  moreover have "s (out_msg E) \<noteq> None" "s (m_iv E) \<noteq> None" using e(2,5) by simp_all
  ultimately show ?thesis using False e(1,2) by (auto simp: env_dtor_def delete_if_def delete_array_def seqM_def ret_def)
qed

subsection \<open>The text is the one of its bytes\<close>

definition hex2 :: "8 word \<Rightarrow> 8 word option list" where
  "hex2 b = [Some (hexmap ! unat (drop_bit 4 b)), Some (hexmap ! unat (b AND 0xf))]"

lemma base16_run:
  assumes "i + n \<le> length xs" and "s p = Some ys" and "length ys = 2 * (i + n) + 1"
  shows "base16_loop xs p i n s = Ret () (s(p \<mapsto> take (2 * i) ys @ concat (map hex2 (take n (drop i xs))) @ drop (2 * (i + n)) ys))"
  using assms
proof (induction n arbitrary: i s ys)
  case 0
  then show ?case by (simp add: ret_def fun_upd_idem)
next
  case (Suc n)
  have i: "i < length xs" using Suc.prems(1) by simp
  let ?ys = "ys[2 * i := Some (hexmap ! unat (drop_bit 4 (xs ! i))), 2 * i + 1 := Some (hexmap ! unat (xs ! i AND 0xf))]"
  have step: "base16_loop xs p i (Suc n) s = base16_loop xs p (i + 1) n (s(p \<mapsto> ?ys))"
    using i Suc.prems(2,3) by (simp add: put_byte_def seqM_def)
  have IH: "base16_loop xs p (i + 1) n (s(p \<mapsto> ?ys))
      = Ret () ((s(p \<mapsto> ?ys))(p \<mapsto> take (2 * (i + 1)) ?ys @ concat (map hex2 (take n (drop (i + 1) xs))) @ drop (2 * (i + 1 + n)) ?ys))"
    by (rule Suc.IH) (use Suc.prems in simp_all)
  have t: "take (2 * (i + 1)) ?ys = take (2 * i) ys @ hex2 (xs ! i)"
    using Suc.prems(3) by (simp add: take_Suc_conv_app_nth hex2_def)
  have x: "take (Suc n) (drop i xs) = xs ! i # take n (drop (i + 1) xs)" using i by (simp add: take_Suc Cons_nth_drop_Suc [symmetric])
  have d: "drop (2 * (i + 1 + n)) ?ys = drop (2 * (i + Suc n)) ys" by simp
  show ?case unfolding step IH t x d fun_upd_upd by (simp add: fun_upd_def)
qed

theorem to_base16_text:
  assumes "len \<le> length xs" and "na s (len * 2 + 1) = p"
  shows "to_base16 na xs len s = Ret p (s(p \<mapsto> concat (map hex2 (take len xs)) @ [Some 0]))"
proof -
  let ?s = "s(p \<mapsto> replicate (len * 2 + 1) None)"
  have "base16_loop xs p 0 len ?s = Ret () (?s(p \<mapsto> take (2 * 0) (replicate (len * 2 + 1) None) @ concat (map hex2 (take len (drop 0 xs)))
      @ drop (2 * (0 + len)) (replicate (len * 2 + 1) None)))"
    by (rule base16_run) (use assms(1) in simp_all)
  moreover have "drop (2 * (0 + len)) (replicate (len * 2 + 1) (None :: 8 word option)) = [None]" by (simp only: drop_replicate) simp
  ultimately have loop: "base16_loop xs p 0 len ?s = Ret () (s(p \<mapsto> concat (map hex2 (take len xs)) @ [None]))" by simp
  have "length (concat (map hex2 (take len xs))) = 2 * len" using assms(1) by (simp add: length_concat hex2_def comp_def sum_list_triv)
  then have "put_byte p (2 * len) 0 (s(p \<mapsto> concat (map hex2 (take len xs)) @ [None])) = Ret () (s(p \<mapsto> concat (map hex2 (take len xs)) @ [Some 0]))"
    by (simp add: put_byte_def list_update_append)
  then show ?thesis using assms(2) loop by (simp only: to_base16_def bindM_def seqM_def new_array_def ret_def option.case outcome.case)
qed

theorem to_base16_text_witness:
  "to_base16 (\<lambda>s n. 40) [0x1f, 0xa0, 7] 2 Map.empty = Ret 40 [40 \<mapsto> [Some 0x31, Some 0x66, Some 0x61, Some 0x30, Some 0]]"
  using to_base16_text [of 2 "[0x1f, 0xa0, 7]" "\<lambda>s n. 40" Map.empty 40] by (simp add: hex2_def hexmap_def drop_bit_eq_div)

end
