(* ===== verification/KeyStore.thy ===== *)
theory KeyStore
  imports KvMapProps CMachine
begin

text \<open>
  The keys that \<open>UserCrypto\<close> keeps of one user (crypto/crypto-user.cpp, include/crypto/user.h): public keys
  by version in a \<open>Uint64KvMap\<close> whose values point to strings on the heap, and a private key. The memory is
  that of the map, the heap of strings and the state of the mutex. \<open>ka\<close> and \<open>sa\<close> say where the next record
  of the map and the next string go, \<open>loc\<close> is the local record of a search.
\<close>

subsection \<open>Data and operations\<close>

record key_mem =
  km_kv :: kv_mem
  km_str :: "addr \<rightharpoonup> string"
  km_mtx :: bool

record user_keys =
  rsa_pubkeys :: kv_tab
  rsa_privkey :: addr

definition in_kv :: "(kv_mem, 'a) cprog \<Rightarrow> (key_mem, 'a) cprog" where
  [c_eval]: "in_kv p s = (case p (km_kv s) of None \<Rightarrow> None
     | Some r \<Rightarrow> (case r of Ok x k \<Rightarrow> Ret x (s\<lparr>km_kv := k\<rparr>) | Err e \<Rightarrow> Abort e))"

definition usr_lock :: "(key_mem, unit) cprog" where
  [c_eval]: "usr_lock s = (if km_mtx s then None else Ret () (s\<lparr>km_mtx := True\<rparr>))"

definition usr_unlock :: "(key_mem, unit) cprog" where
  [c_eval]: "usr_unlock s = Ret () (s\<lparr>km_mtx := False\<rparr>)"

definition new_string :: "(key_mem \<Rightarrow> addr) \<Rightarrow> string \<Rightarrow> (key_mem, addr) cprog" where
  [c_eval]: "new_string sa v s = Ret (sa s) (s\<lparr>km_str := (km_str s)(sa s \<mapsto> v)\<rparr>)"

definition delete_string :: "addr \<Rightarrow> (key_mem, unit) cprog" where
  [c_eval]: "delete_string p s = (case km_str s p of None \<Rightarrow> Abort (Fault p) | Some _ \<Rightarrow> Ret () (s\<lparr>km_str := (km_str s)(p := None)\<rparr>))"

text \<open>\<open>UserCrypto::UserCrypto\<close>; the contexts of the cipher library are not part of the model.\<close>

definition user_ctor :: "kv_mem slink_alloc \<Rightarrow> (key_mem, user_keys) cprog" where
  "user_ctor al = bindM (in_kv (kv64_ctor al 37)) (\<lambda>t. ret \<lparr>rsa_pubkeys = t, rsa_privkey = NULL\<rparr>)"

definition get_public_key :: "addr \<Rightarrow> user_keys \<Rightarrow> 64 word \<Rightarrow> (key_mem, bool \<times> string) cprog" where
  "get_public_key loc U ver =
     seqM usr_lock
    (bindM (in_kv (kv64_value loc (rsa_pubkeys U) ver)) (\<lambda>rec.
     seqM usr_unlock
     (if rec \<noteq> NULL then bindM (rd km_str rec) (\<lambda>k. ret (True, k)) else ret (False, []))))"

text \<open>The step that the three routines that put keys share: enter the key or compare it.\<close>

definition enter_key :: "addr \<Rightarrow> (kv_mem \<Rightarrow> addr) \<Rightarrow> (key_mem \<Rightarrow> addr) \<Rightarrow> user_keys \<Rightarrow> 64 word \<Rightarrow> string \<Rightarrow> (key_mem, user_keys) cprog" where
  "enter_key loc ka sa U ver key =
     bindM (in_kv (kv64_value loc (rsa_pubkeys U) ver)) (\<lambda>rec.
     if rec = NULL
     then bindM (new_string sa key) (\<lambda>p.
          bindM (in_kv (kv64_insert ka (rsa_pubkeys U) ver p)) (\<lambda>r. ret (U\<lparr>rsa_pubkeys := snd r\<rparr>)))
     else bindM (rd km_str rec) (\<lambda>k. seqM (assertM (k = key)) (ret U)))"

definition put_public_key :: "addr \<Rightarrow> (kv_mem \<Rightarrow> addr) \<Rightarrow> (key_mem \<Rightarrow> addr) \<Rightarrow> user_keys \<Rightarrow> 64 word \<Rightarrow> string \<Rightarrow> (key_mem, user_keys) cprog" where
  "put_public_key loc ka sa U ver key =
     seqM usr_lock (bindM (enter_key loc ka sa U ver key) (\<lambda>U'. seqM usr_unlock (ret U')))"

fun enter_keys :: "addr \<Rightarrow> (kv_mem \<Rightarrow> addr) \<Rightarrow> (key_mem \<Rightarrow> addr) \<Rightarrow> user_keys \<Rightarrow> (64 word \<times> string) list \<Rightarrow> (key_mem, user_keys) cprog" where
  "enter_keys loc ka sa U [] = ret U"
| "enter_keys loc ka sa U (r # krec) = bindM (enter_key loc ka sa U (fst r) (snd r)) (\<lambda>U'. enter_keys loc ka sa U' krec)"

definition put_all_pub_keys :: "addr \<Rightarrow> (kv_mem \<Rightarrow> addr) \<Rightarrow> (key_mem \<Rightarrow> addr) \<Rightarrow> user_keys \<Rightarrow> (64 word \<times> string) list \<Rightarrow> (key_mem, user_keys) cprog" where
  "put_all_pub_keys loc ka sa U krec =
     seqM usr_lock (bindM (enter_keys loc ka sa U krec) (\<lambda>U'. seqM usr_unlock (ret U')))"

definition put_key_pair :: "addr \<Rightarrow> (kv_mem \<Rightarrow> addr) \<Rightarrow> (key_mem \<Rightarrow> addr) \<Rightarrow> user_keys \<Rightarrow> 64 word \<Rightarrow> string \<Rightarrow> string \<Rightarrow> (key_mem, user_keys) cprog" where
  "put_key_pair loc ka sa U ver pub priv =
     bindM (new_string sa priv) (\<lambda>privkey.
     seqM usr_lock
    (seqM (if rsa_privkey U \<noteq> NULL then delete_string (rsa_privkey U) else ret ())
    (bindM (enter_key loc ka sa (U\<lparr>rsa_privkey := privkey\<rparr>) ver pub) (\<lambda>U'.
     seqM usr_unlock (ret U')))))"

text \<open>\<open>gen\<close>: what the cipher library generates, the addresses of the strings of a private and a public key,
  or nothing. Returns whether it is \<open>Crypto::ok\<close>.\<close>

definition gen_rsa_key :: "(key_mem, (addr \<times> addr) option) cprog \<Rightarrow> (kv_mem \<Rightarrow> addr) \<Rightarrow> user_keys \<Rightarrow> 64 word \<Rightarrow> (key_mem, bool \<times> user_keys) cprog" where
  "gen_rsa_key gen ka U ver =
     bindM gen (\<lambda>kp. case kp of None \<Rightarrow> ret (False, U)
     | Some (priv, pub) \<Rightarrow>
         seqM usr_lock
        (bindM (in_kv (kv64_insert ka (rsa_pubkeys U) ver pub)) (\<lambda>r.
         seqM usr_unlock (ret (True, U\<lparr>rsa_pubkeys := snd r, rsa_privkey := priv\<rparr>)))))"

text \<open>\<open>out\<close>: the records of \<open>krec\<close>.\<close>

partial_function (option) all_keys_loop :: "kv_tab \<Rightarrow> shash_iter \<Rightarrow> (64 word \<times> string) list \<Rightarrow> (key_mem, (64 word \<times> string) list) cprog" where
  "all_keys_loop tab it out s =
     (if kv64_iter_at_end it then ret out
      else bindM (in_kv (kv64_iter_value it)) (\<lambda>v. bindM (rd km_str v) (\<lambda>pub. bindM (in_kv (kv64_iter_key it)) (\<lambda>ver.
           bindM (in_kv (shash_iter_next tab it)) (\<lambda>it'. all_keys_loop tab it' (out @ [(ver, pub)])))))) s"

definition get_all_pub_keys :: "shash_iter \<Rightarrow> user_keys \<Rightarrow> (64 word \<times> string) list \<Rightarrow> (key_mem, bool \<times> (64 word \<times> string) list) cprog" where
  "get_all_pub_keys junk U krec =
     seqM usr_lock
    (bindM (in_kv (shash_iter_init (Some (rsa_pubkeys U)) junk)) (\<lambda>it.
     bindM (all_keys_loop (rsa_pubkeys U) it krec) (\<lambda>krec'.
     seqM usr_unlock (ret (True, krec')))))"

text \<open>The destructor: its loop over the map and the rest.\<close>

partial_function (option) drop_keys_loop :: "kv_tab \<Rightarrow> shash_iter \<Rightarrow> addr option \<Rightarrow> (key_mem, unit) cprog" where
  "drop_keys_loop tab it val s =
     (if kv64_iter_at_end it then ret ()
      else bindM (in_kv (kv64_iter_takeout tab it)) (\<lambda>r.
           bindM (case fst (snd r) of None \<Rightarrow> (case val of None \<Rightarrow> abortM Uninit_read | Some v \<Rightarrow> ret v) | Some v \<Rightarrow> ret v) (\<lambda>v.
           seqM (assertM (v \<noteq> NULL))
          (seqM (delete_string v)
          (bindM (in_kv (shash_iter_next tab (snd (snd r)))) (\<lambda>it'. drop_keys_loop tab it' (Some v))))))) s"

definition user_dtor :: "shash_iter \<Rightarrow> user_keys \<Rightarrow> (key_mem, unit) cprog" where
  "user_dtor junk U =
     bindM (in_kv (shash_iter_init (Some (rsa_pubkeys U)) junk)) (\<lambda>it.
     seqM (drop_keys_loop (rsa_pubkeys U) it None)
    (seqM (if rsa_privkey U \<noteq> NULL then delete_string (rsa_privkey U) else ret ())
     (in_kv (kv64_dtor (rsa_pubkeys U)))))"

end
