(* ===== verification/KeyStoreProps.thy ===== *)
theory KeyStoreProps
  imports KeyStore
begin

text \<open>The keys of a user refine a map from versions to keys with a private key; walking over them and
  destroying them.\<close>

subsection \<open>The keys in memory\<close>

definition fresh_str :: "(key_mem \<Rightarrow> addr) \<Rightarrow> bool" where
  "fresh_str sa \<longleftrightarrow> (\<forall>s. finite (dom (km_str s)) \<longrightarrow> sa s \<noteq> NULL \<and> km_str s (sa s) = None)"

type_synonym key_state = "(64 word \<rightharpoonup> string) \<times> string option"

definition key_vals :: "(addr \<rightharpoonup> string) \<Rightarrow> addr \<Rightarrow> (64 word \<rightharpoonup> addr \<times> addr) \<Rightarrow> (64 word \<rightharpoonup> string) \<Rightarrow> bool" where
  "key_vals st priv m M \<longleftrightarrow> dom m = dom M
     \<and> (\<forall>k r. m k = Some r \<longrightarrow> fst r \<noteq> NULL \<and> fst r \<noteq> priv \<and> st (fst r) = M k \<and> (\<forall>j q. m j = Some q \<and> j \<noteq> k \<longrightarrow> fst q \<noteq> fst r))"

text \<open>The heap of strings holds those of the keys and no other.\<close>

definition key_heap :: "user_keys \<Rightarrow> (64 word \<rightharpoonup> addr \<times> addr) \<Rightarrow> addr set" where
  "key_heap U m = fst ` ran m \<union> (if rsa_privkey U = NULL then {} else {rsa_privkey U})"

definition keys_in :: "addr \<Rightarrow> (kv_mem \<Rightarrow> addr) \<Rightarrow> (key_mem \<Rightarrow> addr) \<Rightarrow> key_mem \<Rightarrow> user_keys \<Rightarrow> key_state \<Rightarrow> bool" where
  "keys_in loc ka sa s U x \<longleftrightarrow> fresh_kv loc ka \<and> fresh_str sa \<and> finite (dom (km_str s))
     \<and> (\<exists>m. kv64_rep loc (km_kv s) (rsa_pubkeys U) m \<and> key_vals (km_str s) (rsa_privkey U) m (fst x) \<and> dom (km_str s) = key_heap U m)
     \<and> (if rsa_privkey U = NULL then snd x = None else snd x \<noteq> None \<and> km_str s (rsa_privkey U) = snd x)"

definition key_rep :: "addr \<Rightarrow> (kv_mem \<Rightarrow> addr) \<Rightarrow> (key_mem \<Rightarrow> addr) \<Rightarrow> key_mem \<Rightarrow> user_keys \<Rightarrow> key_state \<Rightarrow> bool" where
  "key_rep loc ka sa s U x \<longleftrightarrow> \<not> km_mtx s \<and> keys_in loc ka sa s U x"

lemma keys_mtx [simp]: "keys_in loc ka sa (s\<lparr>km_mtx := b\<rparr>) U x = keys_in loc ka sa s U x"
  by (simp add: keys_in_def)

lemma key_valsD:
  assumes "key_vals st priv m M" and "m k = Some r"
  shows "fst r \<noteq> NULL" "fst r \<noteq> priv" "st (fst r) = M k" "M k \<noteq> None"
proof -
  show "fst r \<noteq> NULL" "fst r \<noteq> priv" "st (fst r) = M k" using assms unfolding key_vals_def by blast+
  show "M k \<noteq> None" using assms unfolding key_vals_def by (metis domIff option.distinct(1))
qed

lemma key_vals_none: "key_vals st priv m M \<Longrightarrow> m k = None \<longleftrightarrow> M k = None"
  unfolding key_vals_def by (metis domIff)

lemma key_vals_put:
  assumes "key_vals st priv m M" and "p \<noteq> NULL" and "p \<noteq> priv" and "st p = None" and "m k = None"
  shows "key_vals (st(p \<mapsto> key)) priv (m(k \<mapsto> (p, w))) (M(k \<mapsto> key))"
proof -
  have "fst r \<noteq> p" if "m j = Some r" for j r using key_valsD(3,4) [OF assms(1) that] assms(4) by auto
  then show ?thesis using assms unfolding key_vals_def by (auto simp del: split_paired_All split_paired_Ex)
qed

lemma key_vals_priv:
  assumes "key_vals st priv m M" and "st p = None" and "\<And>q. q \<noteq> priv \<Longrightarrow> q \<noteq> p \<Longrightarrow> st' q = st q"
  shows "key_vals st' p m M"
proof -
  have "fst r \<noteq> p" if "m j = Some r" for j r using key_valsD(3,4) [OF assms(1) that] assms(2) by auto
  then show ?thesis using assms(1,3) unfolding key_vals_def by (auto simp del: split_paired_All split_paired_Ex)
qed

subsection \<open>Looking up and entering a key\<close>

lemma keys_value:
  assumes "keys_in loc ka sa s U (M, pr)" and "small_key ver"
  shows "\<exists>v. in_kv (kv64_value loc (rsa_pubkeys U) ver) s = Ret v s \<and> (v = NULL \<longleftrightarrow> M ver = None) \<and> (v \<noteq> NULL \<longrightarrow> km_str s v = M ver)"
proof -
  obtain m where m: "kv64_rep loc (km_kv s) (rsa_pubkeys U) m" "key_vals (km_str s) (rsa_privkey U) m M"
    using assms(1) by (auto simp: keys_in_def)
  show ?thesis using kv64_find_run(1) [OF m(1) assms(2)] key_valsD [OF m(2), of ver] key_vals_none [OF m(2), of ver]
    by (cases "m ver") (auto simp: c_eval)
qed

definition enter_spec :: "64 word \<Rightarrow> string \<Rightarrow> (64 word \<rightharpoonup> string) \<Rightarrow> (64 word \<rightharpoonup> string) option" where
  "enter_spec ver key M = (case M ver of None \<Rightarrow> Some (M(ver \<mapsto> key)) | Some k \<Rightarrow> if k = key then Some M else None)"

lemma enter_none:
  assumes "keys_in loc ka sa s U (M, pr)" and "small_key ver" and "M ver = None"
  shows "\<exists>U' s'. enter_key loc ka sa U ver key s = Ret U' s' \<and> keys_in loc ka sa s' U' (M(ver \<mapsto> key), pr) \<and> km_mtx s' = km_mtx s"
proof -
  obtain m where m: "kv64_rep loc (km_kv s) (rsa_pubkeys U) m" "key_vals (km_str s) (rsa_privkey U) m M" "dom (km_str s) = key_heap U m"
    and F: "fresh_kv loc ka" "fresh_str sa" "finite (dom (km_str s))"
    and pr: "if rsa_privkey U = NULL then pr = None else pr \<noteq> None \<and> km_str s (rsa_privkey U) = pr"
    using assms(1) unfolding keys_in_def fst_conv snd_conv by blast
  let ?p = "sa s"
  have p: "?p \<noteq> NULL" "km_str s ?p = None" using F(2,3) by (auto simp: fresh_str_def)
  have pp: "?p \<noteq> rsa_privkey U" using p pr by (auto split: if_splits)
  have mv: "m ver = None" using key_vals_none [OF m(2)] assms(3) by simp
  obtain i t' k' where k': "kv64_insert ka (rsa_pubkeys U) ver ?p (km_kv s) = Ret (i, t') k'" "kv64_rep loc k' t' (m(ver \<mapsto> (?p, NULL)))"
    using kv64_insert_run(1) [OF m(1) assms(2) mv F(1)] by blast
  have val: "in_kv (kv64_value loc (rsa_pubkeys U) ver) s = Ret NULL s" using keys_value [OF assms(1,2)] assms(3) by auto
  have run: "enter_key loc ka sa U ver key s = Ret (U\<lparr>rsa_pubkeys := t'\<rparr>) (s\<lparr>km_str := (km_str s)(?p \<mapsto> key), km_kv := k'\<rparr>)"
    using val k'(1) by (simp add: enter_key_def c_eval)
  have "keys_in loc ka sa (s\<lparr>km_str := (km_str s)(?p \<mapsto> key), km_kv := k'\<rparr>) (U\<lparr>rsa_pubkeys := t'\<rparr>) (M(ver \<mapsto> key), pr)"
    unfolding keys_in_def
  proof (intro conjI exI [of _ "m(ver \<mapsto> (?p, NULL))"])
    show "dom (km_str (s\<lparr>km_str := (km_str s)(?p \<mapsto> key), km_kv := k'\<rparr>)) = key_heap (U\<lparr>rsa_pubkeys := t'\<rparr>) (m(ver \<mapsto> (?p, NULL)))"
      using m(3) mv by (simp add: key_heap_def)
    show "if rsa_privkey (U\<lparr>rsa_pubkeys := t'\<rparr>) = NULL then snd (M(ver \<mapsto> key), pr) = None
      else snd (M(ver \<mapsto> key), pr) \<noteq> None \<and> km_str (s\<lparr>km_str := (km_str s)(?p \<mapsto> key), km_kv := k'\<rparr>) (rsa_privkey (U\<lparr>rsa_pubkeys := t'\<rparr>)) = snd (M(ver \<mapsto> key), pr)"
      using pr pp by (auto split: if_splits)
  qed (use F k'(2) key_vals_put [OF m(2) p(1) pp p(2) mv] in simp_all)
  then show ?thesis using run by auto
qed

lemma enter_some:
  assumes "keys_in loc ka sa s U (M, pr)" and "small_key ver" and "M ver = Some k"
  shows "enter_key loc ka sa U ver key s = (if k = key then Ret U s else Abort Assert_fail)"
proof -
  obtain v where v: "in_kv (kv64_value loc (rsa_pubkeys U) ver) s = Ret v s" "v \<noteq> NULL" "km_str s v = Some k"
    using keys_value [OF assms(1,2)] assms(3) by auto
  then show ?thesis by (simp add: enter_key_def bindM_def rd_def seqM_def assertM_def ret_def)
qed

lemma enter_run:
  assumes "keys_in loc ka sa s U (M, pr)" and "small_key ver"
  shows "case enter_spec ver key M of None \<Rightarrow> enter_key loc ka sa U ver key s = Abort Assert_fail
    | Some M' \<Rightarrow> \<exists>U' s'. enter_key loc ka sa U ver key s = Ret U' s' \<and> keys_in loc ka sa s' U' (M', pr) \<and> km_mtx s' = km_mtx s"
  using enter_none [OF assms] enter_some [OF assms] assms(1) by (cases "M ver") (auto simp: enter_spec_def)

fun enter_all_spec :: "(64 word \<times> string) list \<Rightarrow> (64 word \<rightharpoonup> string) \<Rightarrow> (64 word \<rightharpoonup> string) option" where
  "enter_all_spec [] M = Some M"
| "enter_all_spec (r # rs) M = (case enter_spec (fst r) (snd r) M of None \<Rightarrow> None | Some M' \<Rightarrow> enter_all_spec rs M')"

lemma enter_all_run:
  assumes "keys_in loc ka sa s U (M, pr)" and "\<forall>r \<in> set rs. small_key (fst r)"
  shows "case enter_all_spec rs M of None \<Rightarrow> enter_keys loc ka sa U rs s = Abort Assert_fail
    | Some M' \<Rightarrow> \<exists>U' s'. enter_keys loc ka sa U rs s = Ret U' s' \<and> keys_in loc ka sa s' U' (M', pr) \<and> km_mtx s' = km_mtx s"
  using assms
proof (induction rs arbitrary: s U M)
  case Nil
  then show ?case by (simp add: c_eval)
next
  case (Cons r rs)
  have E: "case enter_spec (fst r) (snd r) M of None \<Rightarrow> enter_key loc ka sa U (fst r) (snd r) s = Abort Assert_fail
    | Some M' \<Rightarrow> \<exists>U' s'. enter_key loc ka sa U (fst r) (snd r) s = Ret U' s' \<and> keys_in loc ka sa s' U' (M', pr) \<and> km_mtx s' = km_mtx s"
    by (rule enter_run [OF Cons.prems(1)]) (use Cons.prems(2) in simp)
  show ?case
  proof (cases "enter_spec (fst r) (snd r) M")
    case None
    then show ?thesis using E by (simp add: c_eval)
  next
    case (Some M1)
    then obtain U1 s1 where s1: "enter_key loc ka sa U (fst r) (snd r) s = Ret U1 s1" "keys_in loc ka sa s1 U1 (M1, pr)" "km_mtx s1 = km_mtx s"
      using E by auto
    have "case enter_all_spec rs M1 of None \<Rightarrow> enter_keys loc ka sa U1 rs s1 = Abort Assert_fail
      | Some M' \<Rightarrow> \<exists>U' s'. enter_keys loc ka sa U1 rs s1 = Ret U' s' \<and> keys_in loc ka sa s' U' (M', pr) \<and> km_mtx s' = km_mtx s1"
      by (rule Cons.IH [OF s1(2)]) (use Cons.prems(2) in simp)
    moreover have step: "enter_keys loc ka sa U (r # rs) s = enter_keys loc ka sa U1 rs s1" using s1(1) by (simp add: bindM_def)
    ultimately show ?thesis unfolding step enter_all_spec.simps Some option.case s1(3) by (simp only:)
  qed
qed

subsection \<open>The operations as an abstract machine\<close>

datatype key_cmd =
    Put_key "64 word" string
  | Put_keys "(64 word \<times> string) list"
  | Put_pair "64 word" string string
  | Get_key "64 word"

fun key_exec :: "addr \<Rightarrow> (kv_mem \<Rightarrow> addr) \<Rightarrow> (key_mem \<Rightarrow> addr) \<Rightarrow> key_cmd \<Rightarrow> user_keys \<Rightarrow> (key_mem, (bool \<times> string) \<times> user_keys) cprog" where
  "key_exec loc ka sa (Put_key ver key) U = bindM (put_public_key loc ka sa U ver key) (\<lambda>U'. ret ((True, []), U'))"
| "key_exec loc ka sa (Put_keys krec) U = bindM (put_all_pub_keys loc ka sa U krec) (\<lambda>U'. ret ((True, []), U'))"
| "key_exec loc ka sa (Put_pair ver pub priv) U = bindM (put_key_pair loc ka sa U ver pub priv) (\<lambda>U'. ret ((True, []), U'))"
| "key_exec loc ka sa (Get_key ver) U = bindM (get_public_key loc U ver) (\<lambda>r. ret (r, U))"

fun key_spec :: "key_cmd \<Rightarrow> key_state \<Rightarrow> ((bool \<times> string) \<times> key_state) option" where
  "key_spec (Put_key ver key) x = map_option (\<lambda>M. ((True, []), (M, snd x))) (enter_spec ver key (fst x))"
| "key_spec (Put_keys krec) x = map_option (\<lambda>M. ((True, []), (M, snd x))) (enter_all_spec krec (fst x))"
| "key_spec (Put_pair ver pub priv) x = map_option (\<lambda>M. ((True, []), (M, Some priv))) (enter_spec ver pub (fst x))"
| "key_spec (Get_key ver) x = Some (case fst x ver of None \<Rightarrow> (False, []) | Some k \<Rightarrow> (True, k), x)"

fun key_valid :: "key_cmd \<Rightarrow> bool" where
  "key_valid (Put_key ver key) = small_key ver"
| "key_valid (Put_keys krec) = (\<forall>r \<in> set krec. small_key (fst r))"
| "key_valid (Put_pair ver pub priv) = small_key ver"
| "key_valid (Get_key ver) = small_key ver"

text \<open>A routine that takes the mutex, works on the keys and releases it.\<close>

lemma locked_run:
  assumes "\<not> km_mtx s"
    and "case y of None \<Rightarrow> p (s\<lparr>km_mtx := True\<rparr>) = Abort Assert_fail
      | Some M \<Rightarrow> \<exists>U' s'. p (s\<lparr>km_mtx := True\<rparr>) = Ret U' s' \<and> keys_in loc ka sa s' U' (M, pr) \<and> km_mtx s' = km_mtx (s\<lparr>km_mtx := True\<rparr>)"
  shows "case y of None \<Rightarrow> seqM usr_lock (bindM p (\<lambda>U'. seqM usr_unlock (ret U'))) s = Abort Assert_fail
      | Some M \<Rightarrow> \<exists>U' s'. seqM usr_lock (bindM p (\<lambda>U'. seqM usr_unlock (ret U'))) s = Ret U' s' \<and> key_rep loc ka sa s' U' (M, pr)"
proof (cases y)
  case None
  then show ?thesis using assms by (simp add: c_eval)
next
  case (Some M)
  then obtain U' s' where "p (s\<lparr>km_mtx := True\<rparr>) = Ret U' s'" "keys_in loc ka sa s' U' (M, pr)" using assms(2) by auto
  then show ?thesis using Some assms(1) by (auto simp: c_eval key_rep_def)
qed

lemma put_key_run:
  assumes "key_rep loc ka sa s U (M, pr)" and "small_key ver"
  shows "case enter_spec ver key M of None \<Rightarrow> put_public_key loc ka sa U ver key s = Abort Assert_fail
    | Some M' \<Rightarrow> \<exists>U' s'. put_public_key loc ka sa U ver key s = Ret U' s' \<and> key_rep loc ka sa s' U' (M', pr)"
  unfolding put_public_key_def by (rule locked_run) (use assms enter_run [of loc ka sa "s\<lparr>km_mtx := True\<rparr>" U M pr ver key] in \<open>auto simp: key_rep_def\<close>)

lemma put_keys_run:
  assumes "key_rep loc ka sa s U (M, pr)" and "\<forall>r \<in> set rs. small_key (fst r)"
  shows "case enter_all_spec rs M of None \<Rightarrow> put_all_pub_keys loc ka sa U rs s = Abort Assert_fail
    | Some M' \<Rightarrow> \<exists>U' s'. put_all_pub_keys loc ka sa U rs s = Ret U' s' \<and> key_rep loc ka sa s' U' (M', pr)"
  unfolding put_all_pub_keys_def by (rule locked_run) (use assms enter_all_run [of loc ka sa "s\<lparr>km_mtx := True\<rparr>" U M pr rs] in \<open>auto simp: key_rep_def\<close>)

text \<open>The private key is replaced by a new string.\<close>

lemma replace_priv:
  assumes "keys_in loc ka sa s U (M, pr)" and "\<not> km_mtx s"
  obtains s1 where "seqM (if rsa_privkey U \<noteq> NULL then delete_string (rsa_privkey U) else ret ()) q (s\<lparr>km_str := (km_str s)(sa s \<mapsto> priv), km_mtx := True\<rparr>) = q s1"
    and "keys_in loc ka sa s1 (U\<lparr>rsa_privkey := sa s\<rparr>) (M, Some priv)" and "km_mtx s1"
proof -
  obtain m where m: "kv64_rep loc (km_kv s) (rsa_pubkeys U) m" "key_vals (km_str s) (rsa_privkey U) m M" "dom (km_str s) = key_heap U m"
    and F: "fresh_kv loc ka" "fresh_str sa" "finite (dom (km_str s))"
    and pr: "if rsa_privkey U = NULL then pr = None else pr \<noteq> None \<and> km_str s (rsa_privkey U) = pr"
    using assms(1) unfolding keys_in_def fst_conv snd_conv by blast
  let ?p = "sa s"
  have p: "?p \<noteq> NULL" "km_str s ?p = None" using F(2,3) by (auto simp: fresh_str_def)
  have pp: "?p \<noteq> rsa_privkey U" using p pr by (auto split: if_splits)
  define st where "st = (if rsa_privkey U \<noteq> NULL then ((km_str s)(?p \<mapsto> priv))(rsa_privkey U := None) else (km_str s)(?p \<mapsto> priv))"
  have v: "key_vals st ?p m M" by (rule key_vals_priv [OF m(2) p(2)]) (simp add: st_def)
  have d: "finite (dom st)" using F(3) by (simp add: st_def)
  have sp: "st ?p = Some priv" using pp by (simp add: st_def)
  show thesis
  proof (rule that [of "s\<lparr>km_mtx := True, km_str := st\<rparr>"])
    show "seqM (if rsa_privkey U \<noteq> NULL then delete_string (rsa_privkey U) else ret ()) q (s\<lparr>km_str := (km_str s)(?p \<mapsto> priv), km_mtx := True\<rparr>)
        = q (s\<lparr>km_mtx := True, km_str := st\<rparr>)"
      using pr pp by (cases s) (auto simp: c_eval st_def)
    show "keys_in loc ka sa (s\<lparr>km_mtx := True, km_str := st\<rparr>) (U\<lparr>rsa_privkey := ?p\<rparr>) (M, Some priv)"
      unfolding keys_in_def
    proof (intro conjI exI [of _ m])
      have "(rsa_privkey U, w) \<notin> ran m" for w using key_valsD(2) [OF m(2)] by (fastforce simp: ran_def)
      then show "dom (km_str (s\<lparr>km_mtx := True, km_str := st\<rparr>)) = key_heap (U\<lparr>rsa_privkey := ?p\<rparr>) m"
        using m(3) p(1) pp by (auto simp: key_heap_def st_def)
    qed (use F(1,2) d v sp p(1) m(1) in simp_all)
  qed simp
qed

lemma put_pair_run:
  assumes "key_rep loc ka sa s U (M, pr)" and "small_key ver"
  shows "case enter_spec ver pub M of None \<Rightarrow> put_key_pair loc ka sa U ver pub priv s = Abort Assert_fail
    | Some M' \<Rightarrow> \<exists>U' s'. put_key_pair loc ka sa U ver pub priv s = Ret U' s' \<and> key_rep loc ka sa s' U' (M', Some priv)"
proof -
  have r: "keys_in loc ka sa s U (M, pr)" "\<not> km_mtx s" using assms(1) by (simp_all add: key_rep_def)
  let ?U = "U\<lparr>rsa_privkey := sa s\<rparr>"
  obtain s1 where s1: "seqM (if rsa_privkey U \<noteq> NULL then delete_string (rsa_privkey U) else ret ())
        (bindM (enter_key loc ka sa ?U ver pub) (\<lambda>U'. seqM usr_unlock (ret U'))) (s\<lparr>km_str := (km_str s)(sa s \<mapsto> priv), km_mtx := True\<rparr>)
      = bindM (enter_key loc ka sa ?U ver pub) (\<lambda>U'. seqM usr_unlock (ret U')) s1"
    "keys_in loc ka sa s1 ?U (M, Some priv)" "km_mtx s1"
    using replace_priv [OF r] by metis
  have run: "put_key_pair loc ka sa U ver pub priv s = bindM (enter_key loc ka sa ?U ver pub) (\<lambda>U'. seqM usr_unlock (ret U')) s1"
    using s1(1) r(2) by (simp add: put_key_pair_def bindM_def new_string_def seqM_def [of usr_lock] usr_lock_def)
  show ?thesis unfolding run using enter_run [OF s1(2) assms(2), of pub]
    by (cases "enter_spec ver pub M") (auto simp: c_eval key_rep_def)
qed

lemma get_key_run:
  assumes "key_rep loc ka sa s U (M, pr)" and "small_key ver"
  shows "get_public_key loc U ver s = Ret (case M ver of None \<Rightarrow> (False, []) | Some k \<Rightarrow> (True, k)) s"
proof -
  let ?s = "s\<lparr>km_mtx := True\<rparr>"
  have r: "keys_in loc ka sa ?s U (M, pr)" "\<not> km_mtx s" using assms(1) by (simp_all add: key_rep_def)
  obtain v where v: "in_kv (kv64_value loc (rsa_pubkeys U) ver) ?s = Ret v ?s" "v = NULL \<longleftrightarrow> M ver = None" "v \<noteq> NULL \<longrightarrow> km_str ?s v = M ver"
    using keys_value [OF r(1) assms(2)] by (elim exE conjE)
  have s: "s\<lparr>km_mtx := False\<rparr> = s" using r(2) by (cases s) simp
  have run: "get_public_key loc U ver s = (if v \<noteq> NULL then bindM (rd km_str v) (\<lambda>k. ret (True, k)) else ret (False, [])) s"
    using v(1) r(2) unfolding get_public_key_def by (simp add: bindM_def seqM_def usr_lock_def usr_unlock_def) (simp only: s refl simp_thms)
  show ?thesis unfolding run using v(2,3) by (cases "M ver") (simp_all add: c_eval)
qed

lemma opt_run:
  assumes "case y of None \<Rightarrow> p s = Abort e | Some M \<Rightarrow> \<exists>U' s'. p s = Ret U' s' \<and> R s' U' M"
  shows "y = None \<Longrightarrow> bindM p (\<lambda>U. ret (r, U)) s = Abort e"
    and "y = Some M \<Longrightarrow> \<exists>U' s'. bindM p (\<lambda>U. ret (r, U)) s = Ret (r, U') s' \<and> R s' U' M"
  using assms by (auto simp: c_eval)

interpretation keyc: c_machine "key_rep loc ka sa" "key_exec loc ka sa" key_spec key_valid
  for loc :: addr and ka :: "kv_mem \<Rightarrow> addr" and sa :: "key_mem \<Rightarrow> addr"
proof (unfold_locales, goal_cases)
  case (1 s U x c r x')
  obtain M pr where x: "x = (M, pr)" by (cases x)
  show ?case
  proof (cases c)
    case (Put_key ver key)
    then obtain M' where "enter_spec ver key M = Some M'" "r = (True, [])" "x' = (M', pr)" using 1(3) x by auto
    then show ?thesis using opt_run(2) [where M = M' and r = "(True, [])" and p = "put_public_key loc ka sa U ver key" and R = "\<lambda>s' U' M'. key_rep loc ka sa s' U' (M', pr)", OF put_key_run [OF 1(1) [unfolded x], of ver key]] 1(2) Put_key by simp
  next
    case (Put_keys krec)
    then obtain M' where "enter_all_spec krec M = Some M'" "r = (True, [])" "x' = (M', pr)" using 1(3) x by auto
    then show ?thesis using opt_run(2) [where M = M' and r = "(True, [])" and p = "put_all_pub_keys loc ka sa U krec" and R = "\<lambda>s' U' M'. key_rep loc ka sa s' U' (M', pr)", OF put_keys_run [OF 1(1) [unfolded x], of krec]] 1(2) Put_keys by simp
  next
    case (Put_pair ver pub priv)
    then obtain M' where "enter_spec ver pub M = Some M'" "r = (True, [])" "x' = (M', Some priv)" using 1(3) x by auto
    then show ?thesis using opt_run(2) [where M = M' and r = "(True, [])" and p = "put_key_pair loc ka sa U ver pub priv" and R = "\<lambda>s' U' M'. key_rep loc ka sa s' U' (M', Some priv)", OF put_pair_run [OF 1(1) [unfolded x], of ver pub priv]] 1(2) Put_pair by simp
  next
    case (Get_key ver)
    then have "r = (case M ver of None \<Rightarrow> (False, []) | Some k \<Rightarrow> (True, k))" "x' = x" using 1(3) x by auto
    then show ?thesis using get_key_run [OF 1(1) [unfolded x], of ver] 1(1,2) Get_key by (simp add: bindM_def ret_def)
  qed
next
  case (2 s U x c)
  obtain M pr where x: "x = (M, pr)" by (cases x)
  show ?case
  proof (cases c)
    case (Put_key ver key)
    then have "enter_spec ver key M = None" using 2(3) x by auto
    then show ?thesis using opt_run(1) [where r = "(True, [])" and p = "put_public_key loc ka sa U ver key" and R = "\<lambda>s' U' M'. key_rep loc ka sa s' U' (M', pr)", OF put_key_run [OF 2(1) [unfolded x], of ver key]] 2(2) Put_key by simp
  next
    case (Put_keys krec)
    then have "enter_all_spec krec M = None" using 2(3) x by auto
    then show ?thesis using opt_run(1) [where r = "(True, [])" and p = "put_all_pub_keys loc ka sa U krec" and R = "\<lambda>s' U' M'. key_rep loc ka sa s' U' (M', pr)", OF put_keys_run [OF 2(1) [unfolded x], of krec]] 2(2) Put_keys by simp
  next
    case (Put_pair ver pub priv)
    then have "enter_spec ver pub M = None" using 2(3) x by auto
    then show ?thesis using opt_run(1) [where r = "(True, [])" and p = "put_key_pair loc ka sa U ver pub priv" and R = "\<lambda>s' U' M'. key_rep loc ka sa s' U' (M', Some priv)", OF put_pair_run [OF 2(1) [unfolded x], of ver pub priv]] 2(2) Put_pair by simp
  next
    case (Get_key ver)
    then show ?thesis using 2(3) by simp
  qed
qed

subsection \<open>The constructor\<close>

definition fresh_row :: "addr \<Rightarrow> kv_mem slink_alloc \<Rightarrow> key_mem \<Rightarrow> bool" where
  "fresh_row loc al s \<longleftrightarrow> fst (al (km_kv s) 37) \<noteq> NULL \<and> loc \<notin> links (fst (al (km_kv s) 37)) 37"

text \<open>A memory without strings, where the local record and the map's records are to be.\<close>

definition start_mem :: "addr \<Rightarrow> key_mem \<Rightarrow> bool" where
  "start_mem loc s \<longleftrightarrow> \<not> km_mtx s \<and> km_str s = Map.empty \<and> loc \<noteq> NULL \<and> finite (dom (sl_next (km_kv s)))
     \<and> loc \<notin> dom (sl_next (km_kv s)) \<and> loc \<notin> dom (kv_key (km_kv s)) \<and> loc \<notin> dom (kv_value (km_kv s)) \<and> loc \<notin> dom (kv_obj (km_kv s))"

lemma user_ctor_run:
  assumes "start_mem loc s" and "fresh_row loc al s" and "fresh_kv loc ka" and "fresh_str sa"
  shows "\<exists>U s'. user_ctor al s = Ret U s' \<and> key_rep loc ka sa s' U (Map.empty, None)"
proof -
  obtain b junk where b: "al (km_kv s) 37 = (b, junk)" by (cases "al (km_kv s) 37")
  have "\<exists>t k'. kv64_ctor al (int 37) (km_kv s) = Ret t k' \<and> kv64_rep loc k' t Map.empty"
    by (rule kv64_ctor_run [where al = al, OF b]) (use assms(1,2) b in \<open>simp_all add: start_mem_def fresh_row_def\<close>)
  then obtain t k' where k': "kv64_ctor al 37 (km_kv s) = Ret t k'" "kv64_rep loc k' t Map.empty" by auto
  have "key_rep loc ka sa (s\<lparr>km_kv := k'\<rparr>) \<lparr>rsa_pubkeys = t, rsa_privkey = NULL\<rparr> (Map.empty, None)"
    using assms(1,3,4) k'(2) unfolding key_rep_def keys_in_def
    by (auto simp: start_mem_def key_vals_def key_heap_def intro!: exI [of _ Map.empty])
  then show ?thesis using k'(1) by (auto simp: user_ctor_def c_eval)
qed

subsection \<open>Walking over the keys\<close>

text \<open>What the walk notes of a record.\<close>

definition key_pair :: "key_mem \<Rightarrow> addr \<Rightarrow> 64 word \<times> string" where
  "key_pair s x = (key_of (km_kv s) x, the (km_str s (the (kv_value (km_kv s) x))))"

definition good_rec :: "key_mem \<Rightarrow> addr \<Rightarrow> bool" where
  "good_rec s x \<longleftrightarrow> kv_key (km_kv s) x \<noteq> None \<and> (\<exists>v. kv_value (km_kv s) x = Some v \<and> km_str s v \<noteq> None)"

lemma all_keys_run:
  assumes b: "buckets (km_kv s) (sh_bucket t) bs" and sz: "sh_bk_size t = int (length bs)"
    and "i < length bs" and "bs ! i = us @ vs" and "lands (sh_bucket t) i us vs bs it"
    and "\<forall>x \<in> set (vs @ concat (drop (Suc i) bs)). good_rec s x"
  shows "all_keys_loop t it out s = Ret (out @ map (key_pair s) (vs @ concat (drop (Suc i) bs))) s"
  using assms(3-)
proof (induction "length (vs @ concat (drop (Suc i) bs))" arbitrary: i us vs it out rule: less_induct)
  case less
  show ?case
    using less.prems(3) less.prems(1,2)
  proof (cases rule: lands_cases [where P = "\<lambda>x. False"])
    case fin
    then show ?thesis by (subst all_keys_loop.simps) (simp add: kv64_iter_at_end_def c_eval)
  next
    case (pos j us' y ys)
    have bk: "sh_bucket t + j \<noteq> NULL" using b by (simp add: buckets_def)
    have "good_rec s y" using less.prems(4) pos(4) by simp
    then obtain v st where y: "kv_key (km_kv s) y = Some (key_of (km_kv s) y)" "kv_value (km_kv s) y = Some v" "km_str s v = Some st"
      by (auto simp: good_rec_def key_of_def)
    have y0: "y \<noteq> NULL" using chain_not_NULL [OF bucketsD(1) [OF b pos(1)]] pos(2) by auto
    obtain it1 where n: "shash_iter_next t it (km_kv s) = Ret it1 (km_kv s)" "lands (sh_bucket t) j (us' @ [y]) ys bs it1"
      using shash_next_keep [OF b pos(1,2) sz] pos(3) by blast
    have k: "s\<lparr>km_kv := km_kv s\<rparr> = s" by simp
    have cur: "sl_curr (sh_iter it) = y" "\<not> kv64_iter_at_end it" using pos(3) bk by (auto simp: at_pos_def kv64_iter_at_end_def)
    have "key_pair s y = (key_of (km_kv s) y, st)" using y by (simp add: key_pair_def)
    then have step: "all_keys_loop t it out s = all_keys_loop t it1 (out @ [key_pair s y]) s"
      using y y0 cur n(1) by (subst all_keys_loop.simps) (simp add: kv64_iter_value_def kv64_iter_key_def Let_def c_eval)
    have "all_keys_loop t it1 (out @ [key_pair s y]) s = Ret ((out @ [key_pair s y]) @ map (key_pair s) (ys @ concat (drop (Suc j) bs))) s"
      by (rule less.hyps) (use pos n(2) less.prems(4) in auto)
    then show ?thesis unfolding step using pos(4) by simp
  qed
qed

text \<open>The records of the table: one for each version.\<close>

lemma keys_rows:
  assumes "keys_in loc ka sa s U (M, pr)"
  obtains bs where "buckets (km_kv s) (sh_bucket (rsa_pubkeys U)) bs" and "sh_bk_size (rsa_pubkeys U) = int (length bs)" and "bs \<noteq> []"
    and "\<forall>x \<in> set (concat bs). good_rec s x" and "distinct (map (key_of (km_kv s)) (concat bs))"
    and "map_of (map (key_pair s) (concat bs)) = M"
    and "dom (km_str s) = (\<lambda>x. the (kv_value (km_kv s) x)) ` set (concat bs) \<union> (if rsa_privkey U = NULL then {} else {rsa_privkey U})"
    and "inj_on (\<lambda>x. the (kv_value (km_kv s) x)) (set (concat bs))"
    and "\<forall>x \<in> set (concat bs). the (kv_value (km_kv s) x) \<noteq> NULL \<and> the (kv_value (km_kv s) x) \<noteq> rsa_privkey U"
    and "\<forall>x \<in> set (concat bs). kv_obj (km_kv s) x \<noteq> None"
proof -
  let ?k = "km_kv s" and ?t = "rsa_pubkeys U"
  obtain m where m: "kv64_rep loc ?k ?t m" "key_vals (km_str s) (rsa_privkey U) m M" "dom (km_str s) = key_heap U m"
    using assms unfolding keys_in_def fst_conv snd_conv by blast
  obtain em where em: "kv64_tab ?k ?t em" "m = val_of ?k em" using m(1) by (auto simp: kv64_rep_def)
  obtain bs where R: "shash_rep kv64_h (key_of ?k) ?k (shash_pure kv64_h (key_of ?k) ?t) bs"
      "distinct (map (key_of ?k) (concat bs))" "em = key_map (key_of ?k) (concat bs)"
    using em(1) unfolding kv64_tab_def shash_maps_def by blast
  let ?v = "\<lambda>x. the (kv_value ?k x)"
  have B: "buckets ?k (sh_bucket ?t) bs" "sh_bk_size ?t = int (length bs)" "bs \<noteq> []" using R(1) by (simp_all add: shash_rep_def)
  have rec: "em (key_of ?k x) = Some x \<and> kv_key ?k x = Some (key_of ?k x) \<and> kv_value ?k x \<noteq> None \<and> kv_obj ?k x \<noteq> None
      \<and> m (key_of ?k x) = Some (?v x, the (kv_obj ?k x))" if "x \<in> set (concat bs)" for x
  proof -
    have e: "em (key_of ?k x) = Some x" using key_map_Some [OF R(2)] R(3) that by blast
    then show ?thesis using em unfolding kv64_tab_def by (simp add: val_of_def)
  qed
  have val: "?v x \<noteq> NULL \<and> ?v x \<noteq> rsa_privkey U \<and> km_str s (?v x) = M (key_of ?k x) \<and> M (key_of ?k x) \<noteq> None" if "x \<in> set (concat bs)" for x
    using key_valsD [OF m(2) conjunct2 [OF conjunct2 [OF conjunct2 [OF conjunct2 [OF rec [OF that]]]]]] by simp
  have ms: "\<exists>x \<in> set (concat bs). key_of ?k x = k \<and> r = (?v x, the (kv_obj ?k x))" if mk: "m k = Some r" for k r
  proof -
    obtain x where "em k = Some x" "r = (?v x, the (kv_obj ?k x))" using mk by (auto simp: em(2) val_of_def)
    then show ?thesis using key_map_Some [OF R(2)] R(3) by blast
  qed
  show thesis
  proof (rule that [OF B])
    show "\<forall>x \<in> set (concat bs). good_rec s x" using rec val by (fastforce simp: good_rec_def)
    show "distinct (map (key_of ?k) (concat bs))" by (rule R(2))
    show "map_of (map (key_pair s) (concat bs)) = M"
    proof
      fix k
      have d: "distinct (map fst (map (key_pair s) (concat bs)))" using R(2) by (simp add: key_pair_def comp_def)
      show "map_of (map (key_pair s) (concat bs)) k = M k"
      proof (cases "M k")
        case None
        have "key_of ?k x \<noteq> k" if "x \<in> set (concat bs)" for x using val [OF that] None by auto
        then have "k \<notin> key_of ?k ` set (concat bs)" by blast
        then show ?thesis using None by (simp add: map_of_eq_None_iff key_pair_def image_image del: set_concat)
      next
        case (Some st)
        then obtain r where r: "m k = Some r" using key_vals_none [OF m(2)] by (cases "m k") auto
        obtain x where x: "x \<in> set (concat bs)" "key_of ?k x = k" using ms [OF r] by blast
        have "(k, st) = key_pair s x" using val [OF x(1)] x(2) Some by (simp add: key_pair_def)
        then have "(k, st) \<in> set (map (key_pair s) (concat bs))" using x(1) by (simp del: set_concat)
        then show ?thesis using d Some by (simp only: map_of_is_SomeI)
      qed
    qed
    have "fst ` ran m = ?v ` set (concat bs)"
    proof
      show "fst ` ran m \<subseteq> ?v ` set (concat bs)" using ms by (fastforce simp: ran_def simp del: set_concat)
      show "?v ` set (concat bs) \<subseteq> fst ` ran m"
      proof
        fix a assume "a \<in> ?v ` set (concat bs)"
        then obtain x where x: "x \<in> set (concat bs)" "a = ?v x" by blast
        then have "(a, the (kv_obj ?k x)) \<in> ran m" using rec [OF x(1)] by (auto simp: ran_def)
        then show "a \<in> fst ` ran m" by force
      qed
    qed
    then show "dom (km_str s) = ?v ` set (concat bs) \<union> (if rsa_privkey U = NULL then {} else {rsa_privkey U})"
      using m(3) by (simp add: key_heap_def)
    show "inj_on ?v (set (concat bs))"
    proof (rule inj_onI)
      fix x y assume xy: "x \<in> set (concat bs)" "y \<in> set (concat bs)" "?v x = ?v y"
      have "m (key_of ?k x) = Some (?v x, the (kv_obj ?k x))" "m (key_of ?k y) = Some (?v y, the (kv_obj ?k y))"
        using rec [OF xy(1)] rec [OF xy(2)] by simp_all
      then have k: "key_of ?k x = key_of ?k y" using m(2) xy(3) unfolding key_vals_def by (metis fst_conv)
      have e: "em (key_of ?k x) = Some x" "em (key_of ?k y) = Some y" using rec [OF xy(1)] rec [OF xy(2)] by (simp_all only: simp_thms)
      have "Some x = Some y" using e(1) unfolding k e(2) by (rule sym)
      then show "x = y" by (simp only: option.inject)
    qed
    show "\<forall>x \<in> set (concat bs). ?v x \<noteq> NULL \<and> ?v x \<noteq> rsa_privkey U" using val by (intro ballI) simp
    show "\<forall>x \<in> set (concat bs). kv_obj ?k x \<noteq> None" using rec by (intro ballI) simp
  qed
qed

lemma get_all_run:
  assumes "key_rep loc ka sa s U (M, pr)"
  shows "\<exists>ks. get_all_pub_keys junk U krec s = Ret (True, krec @ ks) s \<and> map_of ks = M \<and> distinct (map fst ks)"
proof -
  have r: "\<not> km_mtx s" "keys_in loc ka sa (s\<lparr>km_mtx := True\<rparr>) U (M, pr)" using assms by (simp_all add: key_rep_def)
  let ?s = "s\<lparr>km_mtx := True\<rparr>" and ?t = "rsa_pubkeys U"
  obtain bs where B: "buckets (km_kv ?s) (sh_bucket ?t) bs" "sh_bk_size ?t = int (length bs)" "bs \<noteq> []"
    and G: "\<forall>x \<in> set (concat bs). good_rec ?s x" "distinct (map (key_of (km_kv ?s)) (concat bs))" "map_of (map (key_pair ?s) (concat bs)) = M"
    by (rule keys_rows [OF r(2)])
  obtain it where it: "shash_iter_init (Some ?t) junk (km_kv ?s) = Ret it (km_kv ?s)" "lands (sh_bucket ?t) 0 [] (bs ! 0) bs it"
    using shash_iter_init_lands [OF B] by blast
  have c: "bs ! 0 @ concat (drop (Suc 0) bs) = concat bs" using B(3) by (cases bs) auto
  have loop: "all_keys_loop ?t it krec ?s = Ret (krec @ map (key_pair ?s) (concat bs)) ?s"
    using all_keys_run [OF B(1,2) _ _ it(2), where out = krec] B(3) G(1) unfolding c by simp
  have d: "distinct (map fst (map (key_pair ?s) (concat bs)))" using G(2) by (simp add: key_pair_def comp_def)
  have "get_all_pub_keys junk U krec s = Ret (True, krec @ map (key_pair ?s) (concat bs)) s"
    using it(1) loop r(1) by (cases s) (simp add: get_all_pub_keys_def bindM_def seqM_def usr_lock_def usr_unlock_def in_kv_def ret_def)
  then show ?thesis using G(3) d by blast
qed

subsection \<open>Destroying the keys\<close>

lemma kv64_takeout_val:
  assumes "shash_iter_rm_curr t it s = Ret (x, it') s'" and "x \<noteq> NULL" and "kv_value s' x = Some v" and "kv_obj s' x \<noteq> None"
  shows "\<exists>r. kv64_iter_takeout t it s = Ret (r, Some v, it') (drop_kv {x} s')"
  using assms free_drop_first(1) [of x s' NULL] by (auto simp: kv64_iter_takeout_def c_eval)

definition val_at :: "key_mem \<Rightarrow> addr \<Rightarrow> addr" where
  "val_at s x = the (kv_value (km_kv s) x)"

definition full_rec :: "key_mem \<Rightarrow> addr \<Rightarrow> bool" where
  "full_rec s x \<longleftrightarrow> kv_value (km_kv s) x \<noteq> None \<and> kv_obj (km_kv s) x \<noteq> None \<and> val_at s x \<noteq> NULL \<and> km_str s (val_at s x) \<noteq> None"

lemma drop_keys_run:
  assumes "buckets (km_kv s) (sh_bucket t) bs" and "sh_bk_size t = int (length bs)" and "i < length bs"
    and "bs ! i = us @ vs" and "lands (sh_bucket t) i us vs bs it"
    and "\<forall>x \<in> set (vs @ concat (drop (Suc i) bs)). full_rec s x" and "inj_on (val_at s) (set (vs @ concat (drop (Suc i) bs)))"
  shows "\<exists>s'. drop_keys_loop t it val s = Ret () s' \<and> buckets (km_kv s') (sh_bucket t) (swept (\<lambda>x. True) i us vs bs)
    \<and> km_str s' = km_str s |` (- val_at s ` set (vs @ concat (drop (Suc i) bs))) \<and> km_mtx s' = km_mtx s"
  using assms
proof (induction "length (vs @ concat (drop (Suc i) bs))" arbitrary: s bs i us vs it val rule: less_induct)
  case less
  note b = less.prems(1) and sz = less.prems(2) and i = less.prems(3)
  show ?case
    using less.prems(5) i less.prems(4)
  proof (cases rule: lands_cases [where P = "\<lambda>x. True"])
    case fin
    then have "map (filter (\<lambda>x. \<not> True)) (drop (Suc i) bs) = drop (Suc i) bs" by (intro map_idI) auto
    then have "swept (\<lambda>x. True) i us vs bs = bs"
      using fin(1) id_take_nth_drop [OF i] less.prems(4) by (simp add: swept_def)
    moreover have "drop_keys_loop t it val s = Ret () s" using fin(3,4) by (subst drop_keys_loop.simps) (simp add: kv64_iter_at_end_def c_eval)
    ultimately show ?thesis using fin(1,2) b by (simp del: concat_eq_Nil_conv add: restrict_map_def)
  next
    case (pos j us' y ys)
    let ?bs = "bs[j := us' @ ys]" and ?k = "km_kv s"
    have fy: "full_rec s y" and inj: "inj_on (val_at s) (set (y # ys @ concat (drop (Suc j) bs)))" using less.prems(6,7) pos(4) by simp_all
    obtain v0 where y: "kv_value ?k y = Some v0" "v0 = val_at s y" "kv_obj ?k y \<noteq> None" "v0 \<noteq> NULL" "km_str s v0 \<noteq> None"
      using fy by (auto simp: full_rec_def val_at_def)
    have y0: "y \<noteq> NULL" using chain_not_NULL [OF bucketsD(1) [OF b pos(1)]] pos(2) by auto
    obtain i' v where rm: "shash_iter_rm_curr t (at_pos (sh_bucket t) j us' y) ?k = Ret (y, i') (?k\<lparr>sl_next := (sl_next ?k)(tip (sh_bucket t + j) us' \<mapsto> v)\<rparr>)"
      and B: "buckets (?k\<lparr>sl_next := (sl_next ?k)(tip (sh_bucket t + j) us' \<mapsto> v)\<rparr>) (sh_bucket t) ?bs"
      and go: "\<And>s'. buckets s' (sh_bucket t) ?bs \<Longrightarrow> \<exists>it. shash_iter_next t i' s' = Ret it s' \<and> lands (sh_bucket t) j us' ys ?bs it"
      using shash_rm_curr_run [OF b pos(1,2) sz] by blast
    let ?k1 = "?k\<lparr>sl_next := (sl_next ?k)(tip (sh_bucket t + j) us' \<mapsto> v)\<rparr>"
    let ?k2 = "drop_kv {y} ?k1"
    obtain r where tk: "kv64_iter_takeout t it ?k = Ret (r, Some v0, i') ?k2"
      using kv64_takeout_val [OF rm y0, of v0] y pos(3) by auto
    have B2: "buckets ?k2 (sh_bucket t) ?bs"
      using B by (rule buckets_gone [of _ _ _ y]) (use removed_not_in [OF b pos(1,2)] in \<open>auto simp: drop_kv_def restrict_map_def fun_eq_iff\<close>)
    obtain it1 where n: "shash_iter_next t i' ?k2 = Ret it1 ?k2" "lands (sh_bucket t) j us' ys ?bs it1" using go [OF B2] by blast
    let ?s1 = "s\<lparr>km_str := (km_str s)(v0 := None), km_kv := ?k2\<rparr>"
    have "\<not> kv64_iter_at_end it" using pos(3) b by (auto simp: at_pos_def kv64_iter_at_end_def buckets_def)
    then have step: "drop_keys_loop t it val s = drop_keys_loop t it1 (Some v0) ?s1"
      using tk n(1) y by (subst drop_keys_loop.simps) (auto simp: c_eval)
    let ?R = "set (ys @ concat (drop (Suc j) bs))"
    have yn: "y \<notin> ?R" using distinct_rest [OF b pos(1,2)] .
    have vr: "val_at ?s1 x = val_at s x" "kv_value ?k2 x = kv_value ?k x" "kv_obj ?k2 x = kv_obj ?k x" "val_at s x \<noteq> v0" if "x \<in> ?R" for x
    proof -
      have xy: "x \<noteq> y" using that yn by auto
      then show "kv_value ?k2 x = kv_value ?k x" "kv_obj ?k2 x = kv_obj ?k x" "val_at ?s1 x = val_at s x"
        by (simp_all add: drop_kv_def val_at_def)
      show "val_at s x \<noteq> v0"
      proof
        assume "val_at s x = v0"
        then have e: "val_at s x = val_at s y" using y(2) by (rule trans)
        have "x = y" by (rule inj_onD [OF inj e]) (use that in auto)
        then show False using xy by simp
      qed
    qed
    have "\<exists>s'. drop_keys_loop t it1 (Some v0) ?s1 = Ret () s' \<and> buckets (km_kv s') (sh_bucket t) (swept (\<lambda>x. True) j us' ys ?bs)
        \<and> km_str s' = km_str ?s1 |` (- val_at ?s1 ` set (ys @ concat (drop (Suc j) ?bs))) \<and> km_mtx s' = km_mtx ?s1"
    proof (rule less.hyps)
      show "\<forall>x \<in> set (ys @ concat (drop (Suc j) ?bs)). full_rec ?s1 x"
      proof
        fix x assume "x \<in> set (ys @ concat (drop (Suc j) ?bs))"
        then have x: "x \<in> ?R" by simp
        then have "full_rec s x" using less.prems(6) pos(4) by auto
        then show "full_rec ?s1 x" using vr [OF x] by (simp add: full_rec_def)
      qed
      have "inj_on (val_at s) ?R" using inj by (rule inj_on_subset) auto
      then show "inj_on (val_at ?s1) (set (ys @ concat (drop (Suc j) ?bs)))" using vr(1) by (simp add: inj_on_def)
    qed (use pos(1,4) sz n(2) B2 in simp_all)
    then obtain s' where s': "drop_keys_loop t it1 (Some v0) ?s1 = Ret () s'" "buckets (km_kv s') (sh_bucket t) (swept (\<lambda>x. True) j us' ys ?bs)"
        "km_str s' = (km_str s)(v0 := None) |` (- val_at ?s1 ` ?R)" "km_mtx s' = km_mtx s" by auto
    have "val_at ?s1 ` ?R = val_at s ` ?R" using vr(1) by (rule image_cong [OF refl])
    then have "km_str s' = km_str s |` (- val_at s ` set (y # ys @ concat (drop (Suc j) bs)))"
      unfolding s'(3) using y(2) by (auto simp: restrict_map_def fun_eq_iff)
    moreover have "swept (\<lambda>x. True) j us' (y # ys) bs = swept (\<lambda>x. True) j us' ys ?bs" by (simp add: swept_def)
    ultimately show ?thesis unfolding step pos(4,5) using s'(1,2,4) by auto
  qed
qed

lemma user_dtor_frees:
  assumes "key_rep loc ka sa s U (M, pr)"
  shows "\<exists>s'. user_dtor junk U s = Ret () s' \<and> km_str s' = Map.empty"
proof -
  have r: "keys_in loc ka sa s U (M, pr)" using assms by (simp add: key_rep_def)
  let ?t = "rsa_pubkeys U"
  obtain bs where B: "buckets (km_kv s) (sh_bucket ?t) bs" "sh_bk_size ?t = int (length bs)" "bs \<noteq> []"
    and G: "\<forall>x \<in> set (concat bs). good_rec s x"
    and D: "dom (km_str s) = (\<lambda>x. the (kv_value (km_kv s) x)) ` set (concat bs) \<union> (if rsa_privkey U = NULL then {} else {rsa_privkey U})"
    and I: "inj_on (\<lambda>x. the (kv_value (km_kv s) x)) (set (concat bs))"
    and N: "\<forall>x \<in> set (concat bs). the (kv_value (km_kv s) x) \<noteq> NULL \<and> the (kv_value (km_kv s) x) \<noteq> rsa_privkey U"
    and O: "\<forall>x \<in> set (concat bs). kv_obj (km_kv s) x \<noteq> None"
    by (rule keys_rows [OF r])
  have v: "val_at s = (\<lambda>x. the (kv_value (km_kv s) x))" by (simp add: val_at_def fun_eq_iff)
  obtain it where it: "shash_iter_init (Some ?t) junk (km_kv s) = Ret it (km_kv s)" "lands (sh_bucket ?t) 0 [] (bs ! 0) bs it"
    using shash_iter_init_lands [OF B] by blast
  have c: "bs ! 0 @ concat (drop (Suc 0) bs) = concat bs" using B(3) by (cases bs) auto
  have full: "full_rec s x" if "x \<in> set (concat bs)" for x
    using G N O that by (auto simp: full_rec_def good_rec_def val_at_def simp del: set_concat)
  obtain s1 where s1: "drop_keys_loop ?t it None s = Ret () s1" "buckets (km_kv s1) (sh_bucket ?t) (swept (\<lambda>x. True) 0 [] (bs ! 0) bs)"
      "km_str s1 = km_str s |` (- val_at s ` set (concat bs))"
    using drop_keys_run [OF B(1,2) _ _ it(2), of None] B(3) full I unfolding c v by (auto simp del: set_concat)
  have dom: "dom (km_str s1) = (if rsa_privkey U = NULL then {} else {rsa_privkey U})"
    unfolding s1(3) dom_restrict D v using N by (auto simp del: set_concat)
  obtain s2 where s2: "(if rsa_privkey U \<noteq> NULL then delete_string (rsa_privkey U) else ret ()) s1 = Ret () s2" "km_str s2 = Map.empty" "km_kv s2 = km_kv s1"
  proof (cases "rsa_privkey U = NULL")
    case True
    then show ?thesis using that [of s1] dom by (simp add: ret_def)
  next
    case False
    then have d: "dom (km_str s1) = {rsa_privkey U}" using dom by simp
    then have "(km_str s1)(rsa_privkey U := None) = Map.empty" by (simp add: dom_eq_empty_conv [symmetric] del: dom_eq_empty_conv)
    moreover have "km_str s1 (rsa_privkey U) \<noteq> None" using d by blast
    ultimately show ?thesis using that False by (auto simp: delete_string_def)
  qed
  have len: "length (swept (\<lambda>x. True) 0 [] (bs ! 0) bs) = length bs" using B(3) by (simp add: swept_def)
  have "links (sh_bucket ?t) (length bs) \<subseteq> dom (sl_next (km_kv s1))"
  proof
    fix p assume "p \<in> links (sh_bucket ?t) (length bs)"
    then have "p - sh_bucket ?t < length bs \<and> p = sh_bucket ?t + (p - sh_bucket ?t)" unfolding links_def by auto
    then obtain j where j: "j < length bs" "p = sh_bucket ?t + j" by blast
    then have "chain (sl_next (km_kv s1)) p (swept (\<lambda>x. True) 0 [] (bs ! 0) bs ! j)" using bucketsD(1) [OF s1(2), of j] len by simp
    then show "p \<in> dom (sl_next (km_kv s1))" using chain_dom [of _ p _ p] by auto
  qed
  then have "\<exists>k. kv64_dtor ?t (km_kv s1) = Ret () k" using B(1,2) by (simp add: kv64_dtor_def shash_free_def free_slinks_def c_eval buckets_def)
  then obtain k where "kv64_dtor ?t (km_kv s2) = Ret () k" using s2(3) by auto
  then have "user_dtor junk U s = Ret () (s2\<lparr>km_kv := k\<rparr>)"
    using it(1) s1(1) s2(1) by (simp add: user_dtor_def bindM_def seqM_def in_kv_def)
  then show ?thesis using s2(2) by simp
qed

text \<open>Generating a key pair does not free the private key that it replaces.\<close>

lemma gen_rsa_key_leaks:
  assumes "key_rep loc ka sa s U (M, Some p)" and "small_key ver" and "M ver = None"
    and "gen s = Ret (Some (priv, pub)) (s\<lparr>km_str := (km_str s)(priv \<mapsto> a, pub \<mapsto> b)\<rparr>)" and "km_str s priv = None" and "km_str s pub = None"
  shows "\<exists>U' s'. gen_rsa_key gen ka U ver s = Ret (True, U') s' \<and> rsa_privkey U' = priv \<and> priv \<noteq> rsa_privkey U \<and> km_str s' (rsa_privkey U) = Some p"
proof -
  obtain m where m: "kv64_rep loc (km_kv s) (rsa_pubkeys U) m" "key_vals (km_str s) (rsa_privkey U) m M" and F: "fresh_kv loc ka" and mt: "\<not> km_mtx s"
    and pr: "km_str s (rsa_privkey U) = Some p"
    using assms(1) unfolding key_rep_def keys_in_def by (auto split: if_splits)
  have "m ver = None" using key_vals_none [OF m(2)] assms(3) by simp
  then obtain i t' k' where "kv64_insert ka (rsa_pubkeys U) ver pub (km_kv s) = Ret (i, t') k'"
    using kv64_insert_run(1) [OF m(1) assms(2) _ F] by blast
  moreover have "rsa_privkey U \<noteq> priv" "rsa_privkey U \<noteq> pub" using pr assms(5,6) by auto
  ultimately show ?thesis using assms(4) mt pr
    by (auto simp: gen_rsa_key_def bindM_def seqM_def usr_lock_def usr_unlock_def in_kv_def ret_def)
qed

subsection \<open>Properties\<close>

text \<open>What a user sees of the keys: the answers of the operations and, at the end, the record of all public
  keys; and that the destructor leaves no string behind.\<close>

definition key_session :: "addr \<Rightarrow> (kv_mem \<Rightarrow> addr) \<Rightarrow> (key_mem \<Rightarrow> addr) \<Rightarrow> kv_mem slink_alloc \<Rightarrow> shash_iter \<Rightarrow> key_cmd list
    \<Rightarrow> (key_mem, (bool \<times> string) list \<times> (64 word \<times> string) list) cprog" where
  "key_session loc ka sa al junk cs =
     bindM (user_ctor al) (\<lambda>U.
     bindM (m_run (key_exec loc ka sa) cs U) (\<lambda>r.
     bindM (get_all_pub_keys junk (snd r) []) (\<lambda>ks.
     seqM (user_dtor junk (snd r)) (ret (fst r, snd ks)))))"

text \<open>C38: from the constructor of a user on, putting and getting keys under versions below \<open>2 ^ 32\<close> returns what a
  map from versions to keys returns, entering another key under a version stops at an assertion; the record of all keys is
  that map, each version once; and the destructor frees every key. (Versions that agree in their low 32 bits
  may be taken for each other.)\<close>

theorem key_store_refines:
  assumes "start_mem loc s" and "fresh_row loc al s" and "fresh_kv loc ka" and "fresh_str sa" and "\<forall>c \<in> set cs. key_valid c"
  shows "case spec_run key_spec cs (Map.empty, None) of None \<Rightarrow> key_session loc ka sa al junk cs s = Abort Assert_fail
    | Some q \<Rightarrow> \<exists>ks s'. key_session loc ka sa al junk cs s = Ret (fst q, ks) s' \<and> map_of ks = fst (snd q) \<and> distinct (map fst ks)
        \<and> km_str s' = Map.empty"
proof -
  obtain U s1 where s1: "user_ctor al s = Ret U s1" "key_rep loc ka sa s1 U (Map.empty, None)"
    using user_ctor_run [OF assms(1-4)] by blast
  show ?thesis
  proof (cases "spec_run key_spec cs (Map.empty, None)")
    case None
    then have "m_run (key_exec loc ka sa) cs U s1 = Abort Assert_fail" by (rule keyc.run_none [OF s1(2) assms(5)])
    then show ?thesis using None s1(1) by (simp add: key_session_def bindM_def)
  next
    case (Some q)
    then have q: "spec_run key_spec cs (Map.empty, None) = Some (fst q, (fst (snd q), snd (snd q)))" by simp
    obtain U2 s2 where s2: "m_run (key_exec loc ka sa) cs U s1 = Ret (fst q, U2) s2" "key_rep loc ka sa s2 U2 (fst (snd q), snd (snd q))"
      using keyc.run_some [OF s1(2) assms(5) q] by blast
    obtain ks where ks: "get_all_pub_keys junk U2 [] s2 = Ret (True, [] @ ks) s2" "map_of ks = fst (snd q)" "distinct (map fst ks)"
      using get_all_run [OF s2(2), of junk "[]"] by blast
    obtain s3 where "user_dtor junk U2 s2 = Ret () s3" "km_str s3 = Map.empty" using user_dtor_frees [OF s2(2)] by blast
    then have "key_session loc ka sa al junk cs s = Ret (fst q, ks) s3 \<and> map_of ks = fst (snd q) \<and> distinct (map fst ks) \<and> km_str s3 = Map.empty"
      using s1(1) s2(1) ks by (simp add: key_session_def bindM_def seqM_def ret_def)
    then show ?thesis unfolding Some option.case by blast
  qed
qed

definition demo_str_alloc :: "key_mem \<Rightarrow> addr" where
  "demo_str_alloc s = Suc (Max (insert 20 (dom (km_str s))))"

lemma demo_fresh_str: "fresh_str demo_str_alloc"
  using Suc_Max_fresh [of "dom (km_str s)" 20 for s] by (fastforce simp: fresh_str_def demo_str_alloc_def)

definition demo_key_mem :: key_mem where
  "demo_key_mem = \<lparr>km_kv = \<lparr>sl_next = Map.empty, kv_key = Map.empty, kv_value = Map.empty, kv_obj = Map.empty\<rparr>, km_str = Map.empty, km_mtx = False\<rparr>"

theorem key_store_refines_witness:
  "\<exists>ks s'. key_session 5 demo_kv_alloc demo_str_alloc (\<lambda>s n. (100, 7)) \<lparr>sh_curr = 0, sh_iter = \<lparr>sl_prev = 0, sl_curr = 0\<rparr>\<rparr>
      [Put_key 1 ''a'', Put_keys [(2, ''b''), (1, ''a'')], Get_key 2, Get_key 3, Put_pair 3 ''c'' ''p''] demo_key_mem
      = Ret ([(True, []), (True, []), (True, ''b''), (False, []), (True, [])], ks) s'
      \<and> map_of ks = [1 \<mapsto> ''a'', 2 \<mapsto> ''b'', 3 \<mapsto> ''c''] \<and> distinct (map fst ks) \<and> km_str s' = Map.empty"
proof -
  have 1: "start_mem 5 demo_key_mem" by (simp add: start_mem_def demo_key_mem_def)
  have 2: "fresh_row 5 (\<lambda>s n. (100, 7)) demo_key_mem" by (simp add: fresh_row_def links_def)
  show ?thesis
    using key_store_refines [OF 1 2 demo_kv_fresh demo_fresh_str,
        of "[Put_key 1 ''a'', Put_keys [(2, ''b''), (1, ''a'')], Get_key 2, Get_key 3, Put_pair 3 ''c'' ''p'']"
           "\<lparr>sh_curr = 0, sh_iter = \<lparr>sl_prev = 0, sl_curr = 0\<rparr>\<rparr>"]
    by (simp add: small_key_def enter_spec_def)
qed

end
