(* ===== verification/AsyncRpc.thy ===== *)
theory AsyncRpc
  imports CPrelude
begin

text \<open>
  The asynchronous server of common/util/async-rpc.cpp and include/util/async-rpc.h with the requests of
  app/key-server/key-server-async.cpp. A request is an object with a state and the procedure it serves. The
  completion queue belongs to the RPC library: the memory holds what it was given, the requests that wait for a
  call and those whose response is sent, in the order they were given. \<open>nr s\<close> is the address of the
  next request. \<open>start_server\<close> runs \<open>run_server_loop\<close> in four threads of its own and in the caller's, all on one
  queue: each registers its requests and then handles what the queue delivers to it. The threads
  interleave between the registrations of single requests, before and after the handler of a call, and
  between deliveries. What the handler computes is not modelled, it is an entry of \<open>srq_handled\<close>, and
  neither is the shutdown of the queue, after which \<open>Next\<close> returns without a request.
\<close>

subsection \<open>Data and operations\<close>

datatype req_state = Create | Process | Finish

datatype rpc_kind = Db_command | Gen_key | Query_key | Signed_mesg | Save_kpair | List_public_keys | List_all_acct

record rpc_mem =
  srq_st :: "addr \<rightharpoonup> req_state"
  srq_kind :: "addr \<rightharpoonup> rpc_kind"
  cq_calls :: "addr list"
  cq_sends :: "addr list"
  srq_handled :: "rpc_kind list"

text \<open>The constructor of a request.\<close>

definition new_req :: "(rpc_mem \<Rightarrow> addr) \<Rightarrow> rpc_kind \<Rightarrow> (rpc_mem, addr) cprog" where
  "new_req nr k s = Ret (nr s) (s\<lparr>srq_st := (srq_st s)(nr s \<mapsto> Create), srq_kind := (srq_kind s)(nr s \<mapsto> k)\<rparr>)"

definition new_request :: "(rpc_mem \<Rightarrow> addr) \<Rightarrow> addr \<Rightarrow> (rpc_mem, addr) cprog" where
  "new_request nr this = bindM (rd srq_kind this) (\<lambda>k. new_req nr k)"

definition request_data :: "addr \<Rightarrow> (rpc_mem, unit) cprog" where
  "request_data this s = Ret () (s\<lparr>cq_calls := cq_calls s @ [this]\<rparr>)"

definition process_request :: "addr \<Rightarrow> (rpc_mem, unit) cprog" where
  "process_request this = bindM (rd srq_kind this) (\<lambda>k s. Ret () (s\<lparr>srq_handled := srq_handled s @ [k], cq_sends := cq_sends s @ [this]\<rparr>))"

definition delete_req :: "addr \<Rightarrow> (rpc_mem, unit) cprog" where
  "delete_req p s = Ret () (s\<lparr>srq_st := (srq_st s)(p := None), srq_kind := (srq_kind s)(p := None)\<rparr>)"

partial_function (option) proceed :: "(rpc_mem \<Rightarrow> addr) \<Rightarrow> addr \<Rightarrow> (rpc_mem, unit) cprog" where
  "proceed nr this s =
     bindM (rd srq_st this) (\<lambda>st.
     if st = Create
     then seqM (wr srq_st srq_st_update this Process) (request_data this)
     else if st = Process
     then seqM (bindM (new_request nr this) (\<lambda>req. proceed nr req))
         (seqM (wr srq_st srq_st_update this Finish) (process_request this))
     else seqM (assertM (st = Finish)) (delete_req this)) s"

text \<open>\<open>proceed\<close> up to the handler of a call: whether there is one to run.\<close>

definition proceed_to_handler :: "(rpc_mem \<Rightarrow> addr) \<Rightarrow> addr \<Rightarrow> (rpc_mem, bool) cprog" where
  "proceed_to_handler nr this =
     bindM (rd srq_st this) (\<lambda>st.
     if st = Create
     then seqM (wr srq_st srq_st_update this Process) (seqM (request_data this) (ret False))
     else if st = Process
     then seqM (bindM (new_request nr this) (\<lambda>req. proceed nr req))
         (seqM (wr srq_st srq_st_update this Finish) (ret True))
     else seqM (assertM (st = Finish)) (seqM (delete_req this) (ret False)))"

text \<open>The two statements of \<open>register_requests\<close> for one procedure, and all of them.\<close>

definition register_request :: "(rpc_mem \<Rightarrow> addr) \<Rightarrow> rpc_kind \<Rightarrow> (rpc_mem, unit) cprog" where
  "register_request nr k = bindM (new_req nr k) (\<lambda>req. proceed nr req)"

definition all_kinds :: "rpc_kind list" where
  "all_kinds = [Db_command, Gen_key, Query_key, Signed_mesg, Save_kpair, List_public_keys, List_all_acct]"

definition register_requests :: "(rpc_mem \<Rightarrow> addr) \<Rightarrow> (rpc_mem, unit) cprog" where
  "register_requests nr = forM all_kinds (register_request nr)"

text \<open>A pass of the loop of \<open>run_server_loop\<close> with what \<open>Next\<close> stored; the loop has no exit.\<close>

definition server_pass :: "(rpc_mem \<Rightarrow> addr) \<Rightarrow> addr \<Rightarrow> bool \<Rightarrow> (rpc_mem, unit) cprog" where
  "server_pass nr tag ok = (if ok then proceed nr tag else bindM (rd srq_kind tag) (\<lambda>_. ret ()))"

partial_function (option) server_loop :: "(rpc_mem \<Rightarrow> addr) \<Rightarrow> (nat \<Rightarrow> rpc_mem \<Rightarrow> (addr \<times> bool) \<times> rpc_mem) \<Rightarrow> nat \<Rightarrow> (rpc_mem, unit) cprog" where
  "server_loop nr nxt i s =
     bindM (\<lambda>s. Ret (fst (nxt i s)) (snd (nxt i s))) (\<lambda>c.
     seqM (server_pass nr (fst c) (snd c)) (server_loop nr nxt (i + 1))) s"

definition run_server_loop :: "(rpc_mem \<Rightarrow> addr) \<Rightarrow> (nat \<Rightarrow> rpc_mem \<Rightarrow> (addr \<times> bool) \<times> rpc_mem) \<Rightarrow> (rpc_mem, unit) cprog" where
  "run_server_loop nr nxt = seqM (register_requests nr) (server_loop nr nxt 0)"

subsection \<open>The threads of the server\<close>

text \<open>The queue delivers what it was given, once.\<close>

definition deliver :: "addr \<Rightarrow> rpc_mem \<Rightarrow> rpc_mem option" where
  "deliver t s = (if t \<in> set (cq_calls s) then Some (s\<lparr>cq_calls := remove1 t (cq_calls s)\<rparr>)
     else if t \<in> set (cq_sends s) then Some (s\<lparr>cq_sends := remove1 t (cq_sends s)\<rparr>) else None)"

text \<open>A thread in \<open>run_server_loop\<close>: with requests still to register, waiting in \<open>Next\<close>, in the handler of a
  call.\<close>

datatype rpc_thread = Registering "rpc_kind list" | Waiting | Handling addr

definition start_server :: "rpc_thread list" where
  "start_server = replicate 4 (Registering all_kinds) @ [Registering all_kinds]"

text \<open>\<open>L\<close>: the requests delivered with \<open>ok\<close> false.\<close>

inductive rpc_reach :: "(rpc_mem \<Rightarrow> addr) \<Rightarrow> addr list \<Rightarrow> rpc_thread list \<Rightarrow> rpc_mem \<Rightarrow> bool" for nr where
  rpc_start: "srq_st s = Map.empty \<Longrightarrow> srq_kind s = Map.empty \<Longrightarrow> cq_calls s = [] \<Longrightarrow> cq_sends s = []
    \<Longrightarrow> rpc_reach nr [] start_server s"
| rpc_register: "rpc_reach nr L ths s \<Longrightarrow> i < length ths \<Longrightarrow> ths ! i = Registering (k # ks)
    \<Longrightarrow> register_request nr k s = Ret () s' \<Longrightarrow> rpc_reach nr L (ths[i := Registering ks]) s'"
| rpc_enter: "rpc_reach nr L ths s \<Longrightarrow> i < length ths \<Longrightarrow> ths ! i = Registering [] \<Longrightarrow> rpc_reach nr L (ths[i := Waiting]) s"
| rpc_good: "rpc_reach nr L ths s \<Longrightarrow> i < length ths \<Longrightarrow> ths ! i = Waiting \<Longrightarrow> deliver t s = Some s1
    \<Longrightarrow> proceed_to_handler nr t s1 = Ret run_hd s' \<Longrightarrow> rpc_reach nr L (ths[i := if run_hd then Handling t else Waiting]) s'"
| rpc_handled: "rpc_reach nr L ths s \<Longrightarrow> i < length ths \<Longrightarrow> ths ! i = Handling t \<Longrightarrow> process_request t s = Ret () s'
    \<Longrightarrow> rpc_reach nr L (ths[i := Waiting]) s'"
| rpc_bad: "rpc_reach nr L ths s \<Longrightarrow> i < length ths \<Longrightarrow> ths ! i = Waiting \<Longrightarrow> deliver t s = Some s1
    \<Longrightarrow> server_pass nr t False s1 = Ret () s' \<Longrightarrow> rpc_reach nr (t # L) ths s'"

text \<open>The requests in handlers and those not registered yet.\<close>

fun held :: "rpc_thread \<Rightarrow> addr list" where
  "held (Handling t) = [t]"
| "held th = []"

fun to_register :: "rpc_thread \<Rightarrow> rpc_kind list" where
  "to_register (Registering ks) = ks"
| "to_register th = []"

definition handling :: "rpc_thread list \<Rightarrow> addr multiset" where
  "handling ths = \<Sum>\<^sub># (mset (map (\<lambda>th. mset (held th)) ths))"

definition missing :: "rpc_thread list \<Rightarrow> rpc_kind multiset" where
  "missing ths = \<Sum>\<^sub># (mset (map (\<lambda>th. mset (to_register th)) ths))"

definition fresh_req :: "(rpc_mem \<Rightarrow> addr) \<Rightarrow> bool" where
  "fresh_req nr \<longleftrightarrow> (\<forall>s. finite (dom (srq_st s)) \<longrightarrow> srq_st s (nr s) = None)"

definition kinds_of :: "rpc_mem \<Rightarrow> addr list \<Rightarrow> rpc_kind multiset" where
  "kinds_of s ts = mset (map (\<lambda>t. the (srq_kind s t)) ts)"

text \<open>\<open>H\<close>: the requests in handlers, \<open>ks\<close>: the kinds registered.\<close>

definition rpc_inv :: "rpc_kind multiset \<Rightarrow> addr list \<Rightarrow> addr list \<Rightarrow> rpc_mem \<Rightarrow> bool" where
  "rpc_inv ks H L s \<longleftrightarrow> distinct (cq_calls s @ cq_sends s @ H @ L) \<and> dom (srq_st s) = set (cq_calls s @ cq_sends s @ H @ L)
     \<and> dom (srq_kind s) = dom (srq_st s)
     \<and> (\<forall>t \<in> set (cq_calls s). srq_st s t = Some Process) \<and> (\<forall>t \<in> set (cq_sends s @ H). srq_st s t = Some Finish)
     \<and> kinds_of s (cq_calls s) + kinds_of s (filter (\<lambda>t. srq_st s t = Some Process) L) = ks"

text \<open>What \<open>proceed\<close> does in each state.\<close>

lemma proceed_create:
  assumes "srq_st s t = Some Create"
  shows "proceed nr t s = Ret () (s\<lparr>srq_st := (srq_st s)(t \<mapsto> Process), cq_calls := cq_calls s @ [t]\<rparr>)"
  using assms by (subst proceed.simps) (simp add: request_data_def c_eval)

lemma new_proceed:
  "bindM (new_req nr k) (\<lambda>req. proceed nr req) s
   = Ret () (s\<lparr>srq_st := (srq_st s)(nr s \<mapsto> Process), srq_kind := (srq_kind s)(nr s \<mapsto> k), cq_calls := cq_calls s @ [nr s]\<rparr>)"
  by (simp add: bindM_def new_req_def proceed_create)

lemma proceed_process:
  assumes "srq_st s t = Some Process" and "srq_kind s t = Some k" and "srq_st s (nr s) = None"
  shows "proceed nr t s = Ret () (s\<lparr>srq_st := (srq_st s)(nr s \<mapsto> Process, t \<mapsto> Finish), srq_kind := (srq_kind s)(nr s \<mapsto> k),
    cq_calls := cq_calls s @ [nr s], cq_sends := cq_sends s @ [t], srq_handled := srq_handled s @ [k]\<rparr>)"
proof -
  have n: "nr s \<noteq> t" using assms(1,3) by auto
  have "bindM (new_request nr t) (\<lambda>req. proceed nr req) s = bindM (new_req nr k) (\<lambda>req. proceed nr req) s"
    using assms(2) by (simp add: new_request_def bindM_def rd_def)
  then have 1: "bindM (new_request nr t) (\<lambda>req. proceed nr req) s
    = Ret () (s\<lparr>srq_st := (srq_st s)(nr s \<mapsto> Process), srq_kind := (srq_kind s)(nr s \<mapsto> k), cq_calls := cq_calls s @ [nr s]\<rparr>)"
    unfolding new_proceed .
  show ?thesis using assms(1,2) n
    by (subst proceed.simps) (simp add: bindM_def [of "rd srq_st t"] rd_def [of srq_st] seqM_def [of "bindM a b" for a b] 1, simp add: process_request_def c_eval)
qed

lemma proceed_finish:
  assumes "srq_st s t = Some Finish"
  shows "proceed nr t s = Ret () (s\<lparr>srq_st := (srq_st s)(t := None), srq_kind := (srq_kind s)(t := None)\<rparr>)"
  using assms by (subst proceed.simps) (simp add: delete_req_def c_eval)

lemma proceed_split:
  "proceed nr t s = bindM (proceed_to_handler nr t) (\<lambda>run_hd. if run_hd then process_request t else ret ()) s"
proof (cases "srq_st s t")
  case None
  then show ?thesis by (subst proceed.simps) (simp add: proceed_to_handler_def c_eval)
next
  case (Some st)
  then show ?thesis
    by (subst proceed.simps) (cases st; simp add: proceed_to_handler_def request_data_def delete_req_def bindM_def seqM_def rd_def wr_def
        ret_def assertM_def split: option.split outcome.split)
qed

lemma to_handler_process:
  assumes "srq_st s t = Some Process" and "srq_kind s t = Some k" and "srq_st s (nr s) = None"
  shows "proceed_to_handler nr t s = Ret True (s\<lparr>srq_st := (srq_st s)(nr s \<mapsto> Process, t \<mapsto> Finish), srq_kind := (srq_kind s)(nr s \<mapsto> k),
    cq_calls := cq_calls s @ [nr s]\<rparr>)"
proof -
  have n: "nr s \<noteq> t" using assms(1,3) by auto
  have "bindM (new_request nr t) (\<lambda>req. proceed nr req) s = bindM (new_req nr k) (\<lambda>req. proceed nr req) s"
    using assms(2) by (simp add: new_request_def bindM_def rd_def)
  then have 1: "bindM (new_request nr t) (\<lambda>req. proceed nr req) s
    = Ret () (s\<lparr>srq_st := (srq_st s)(nr s \<mapsto> Process), srq_kind := (srq_kind s)(nr s \<mapsto> k), cq_calls := cq_calls s @ [nr s]\<rparr>)"
    unfolding new_proceed .
  show ?thesis using assms(1,2) n
    by (simp add: proceed_to_handler_def bindM_def [of "rd srq_st t"] rd_def [of srq_st] seqM_def [of "bindM a b" for a b] 1, simp add: c_eval)
qed

lemma to_handler_finish:
  assumes "srq_st s t = Some Finish"
  shows "proceed_to_handler nr t s = Ret False (s\<lparr>srq_st := (srq_st s)(t := None), srq_kind := (srq_kind s)(t := None)\<rparr>)"
  using assms by (simp add: proceed_to_handler_def delete_req_def c_eval)

subsection \<open>The invariant\<close>

lemma inv_fin: "rpc_inv ks H L s \<Longrightarrow> finite (dom (srq_st s))"
  by (simp add: rpc_inv_def)

lemma inv_kind: "rpc_inv ks H L s \<Longrightarrow> srq_st s t = Some x \<Longrightarrow> \<exists>k. srq_kind s t = Some k"
  unfolding rpc_inv_def by (metis domI domD)

lemma inv_perm:
  assumes "rpc_inv ks H L s" and "mset H' = mset H"
  shows "rpc_inv ks H' L s"
proof -
  have "mset (cq_calls s @ cq_sends s @ H' @ L) = mset (cq_calls s @ cq_sends s @ H @ L)" using assms(2) by simp
  then have "distinct (cq_calls s @ cq_sends s @ H' @ L) = distinct (cq_calls s @ cq_sends s @ H @ L)" by (rule mset_eq_imp_distinct_iff)
  moreover have "set H' = set H" using assms(2) by (rule mset_eq_setD)
  ultimately show ?thesis using assms(1) unfolding rpc_inv_def set_append by simp
qed

lemma kinds_cong: "(\<And>t. t \<in> set ts \<Longrightarrow> srq_kind s t = srq_kind s' t) \<Longrightarrow> kinds_of s ts = kinds_of s' ts"
  unfolding kinds_of_def by (metis (mono_tags, lifting) map_eq_conv)

lemma kinds_append [simp]: "kinds_of s (xs @ ys) = kinds_of s xs + kinds_of s ys"
  by (simp add: kinds_of_def)

lemma kinds_new:
  assumes "p \<notin> set ts"
  shows "kinds_of (s\<lparr>srq_st := f, srq_kind := (srq_kind s)(p \<mapsto> k), cq_calls := c\<rparr>) ts = kinds_of s ts"
  using assms by (intro kinds_cong) auto

text \<open>A request added to those waiting; one that waited may go to a handler at the same time.\<close>

lemma inv_new:
  assumes I: "rpc_inv ks H L s" and n: "srq_st s p = None"
  shows "rpc_inv (add_mset k ks) H L (s\<lparr>srq_st := (srq_st s)(p \<mapsto> Process), srq_kind := (srq_kind s)(p \<mapsto> k), cq_calls := cq_calls s @ [p]\<rparr>)"
    (is "rpc_inv _ H L ?s")
proof -
  have p: "p \<notin> set (cq_calls s @ cq_sends s @ H @ L)" using I n unfolding rpc_inv_def by auto
  have f: "filter (\<lambda>t. srq_st ?s t = Some Process) L = filter (\<lambda>t. srq_st s t = Some Process) L" using p by (intro filter_cong) auto
  have "kinds_of ?s (filter (\<lambda>t. srq_st s t = Some Process) L) = kinds_of s (filter (\<lambda>t. srq_st s t = Some Process) L)"
      "kinds_of ?s (cq_calls s) = kinds_of s (cq_calls s)" "kinds_of ?s [p] = {#k#}"
    using p by (intro kinds_new; simp)+ (simp add: kinds_of_def)
  then have "kinds_of ?s (cq_calls ?s) + kinds_of ?s (filter (\<lambda>t. srq_st ?s t = Some Process) L) = add_mset k ks"
    unfolding f using I by (simp add: rpc_inv_def)
  then show ?thesis using I p unfolding rpc_inv_def by auto
qed

lemma inv_begin:
  assumes I: "rpc_inv ks H L s" and u: "cq_calls s = us @ t # vs" and k: "srq_kind s t = Some k" and n: "srq_st s p = None"
  shows "rpc_inv ks (t # H) L (s\<lparr>srq_st := (srq_st s)(p \<mapsto> Process, t \<mapsto> Finish), srq_kind := (srq_kind s)(p \<mapsto> k), cq_calls := (us @ vs) @ [p]\<rparr>)"
    (is "rpc_inv _ _ _ ?s")
proof -
  have D: "distinct (us @ t # vs @ cq_sends s @ H @ L)" "dom (srq_st s) = set (us @ t # vs @ cq_sends s @ H @ L)" "dom (srq_kind s) = dom (srq_st s)"
    "\<forall>t \<in> set (us @ vs). srq_st s t = Some Process" "\<forall>t \<in> set (cq_sends s @ H). srq_st s t = Some Finish"
    "kinds_of s us + {#k#} + kinds_of s vs + kinds_of s (filter (\<lambda>t. srq_st s t = Some Process) L) = ks"
    using I u k unfolding rpc_inv_def by (auto simp: kinds_of_def)
  have pn: "p \<notin> set (us @ t # vs @ cq_sends s @ H @ L)" using n D(2) by (metis domIff)
  have f: "filter (\<lambda>x. srq_st ?s x = Some Process) L = filter (\<lambda>x. srq_st s x = Some Process) L"
    using pn D(1) by (intro filter_cong) auto
  have "kinds_of ?s us = kinds_of s us" "kinds_of ?s vs = kinds_of s vs"
      "kinds_of ?s (filter (\<lambda>x. srq_st s x = Some Process) L) = kinds_of s (filter (\<lambda>x. srq_st s x = Some Process) L)" "kinds_of ?s [p] = {#k#}"
    using pn by (intro kinds_new; simp)+ (simp add: kinds_of_def)
  then have K: "kinds_of ?s (cq_calls ?s) + kinds_of ?s (filter (\<lambda>x. srq_st ?s x = Some Process) L) = ks"
    unfolding f using D(6) by (simp add: ac_simps)
  show ?thesis unfolding rpc_inv_def
  proof (intro conjI)
    show "distinct (cq_calls ?s @ cq_sends ?s @ (t # H) @ L)" using D(1) pn by auto
    show "dom (srq_st ?s) = set (cq_calls ?s @ cq_sends ?s @ (t # H) @ L)" using D(2) by auto
    show "dom (srq_kind ?s) = dom (srq_st ?s)" using D(2,3) by auto
    show "\<forall>x \<in> set (cq_calls ?s). srq_st ?s x = Some Process" using D(1,4) pn by auto
    show "\<forall>x \<in> set (cq_sends ?s @ t # H). srq_st ?s x = Some Finish" using D(1,5) pn by auto
  qed (rule K)
qed

lemma inv_end:
  assumes I: "rpc_inv ks H L s" and u: "cq_sends s = us @ t # vs"
  shows "rpc_inv ks H L (s\<lparr>srq_st := (srq_st s)(t := None), srq_kind := (srq_kind s)(t := None), cq_sends := us @ vs\<rparr>)"
    (is "rpc_inv _ _ _ ?s")
proof -
  have D: "distinct (cq_calls s @ us @ t # vs @ H @ L)" "dom (srq_st s) = set (cq_calls s @ us @ t # vs @ H @ L)" "dom (srq_kind s) = dom (srq_st s)"
    using I u unfolding rpc_inv_def by auto
  have f: "filter (\<lambda>x. srq_st ?s x = Some Process) L = filter (\<lambda>x. srq_st s x = Some Process) L"
    using D(1) by (intro filter_cong) auto
  have kk: "kinds_of ?s ts = kinds_of s ts" if "t \<notin> set ts" for ts using that by (intro kinds_cong) auto
  have "kinds_of ?s (cq_calls s) = kinds_of s (cq_calls s)"
      "kinds_of ?s (filter (\<lambda>x. srq_st s x = Some Process) L) = kinds_of s (filter (\<lambda>x. srq_st s x = Some Process) L)"
    using D(1) by (intro kk; auto)+
  then have K: "kinds_of ?s (cq_calls ?s) + kinds_of ?s (filter (\<lambda>x. srq_st ?s x = Some Process) L) = ks"
    unfolding f using I by (simp add: rpc_inv_def)
  show ?thesis unfolding rpc_inv_def
  proof (intro conjI)
    show "distinct (cq_calls ?s @ cq_sends ?s @ H @ L)" using D(1) by auto
    show "dom (srq_st ?s) = set (cq_calls ?s @ cq_sends ?s @ H @ L)" using D(1,2) by auto
    show "dom (srq_kind ?s) = dom (srq_st ?s)" using D(3) by auto
    show "\<forall>x \<in> set (cq_calls ?s). srq_st ?s x = Some Process" using D(1) I by (auto simp: rpc_inv_def)
    show "\<forall>x \<in> set (cq_sends ?s @ H). srq_st ?s x = Some Finish" using D(1) u I by (auto simp: rpc_inv_def)
  qed (rule K)
qed

lemma inv_answered:
  assumes I: "rpc_inv ks (t # H) L s"
  shows "rpc_inv ks H L (s\<lparr>cq_sends := cq_sends s @ [t], srq_handled := h\<rparr>)" (is "rpc_inv _ _ _ ?s")
proof -
  have "kinds_of ?s ts = kinds_of s ts" for ts by (intro kinds_cong) simp
  moreover have "distinct (cq_calls s @ (cq_sends s @ [t]) @ H @ L)" using I by (auto simp: rpc_inv_def)
  ultimately show ?thesis using I by (auto simp: rpc_inv_def)
qed

lemma register_run:
  assumes "rpc_inv ks H L s" and "fresh_req nr"
  shows "\<exists>s'. bindM (new_req nr k) (\<lambda>req. proceed nr req) s = Ret () s' \<and> rpc_inv (add_mset k ks) H L s'"
proof -
  have n: "srq_st s (nr s) = None" using assms(2) inv_fin [OF assms(1)] by (simp add: fresh_req_def)
  show ?thesis using inv_new [OF assms(1) n, of k] by (simp add: new_proceed)
qed

text \<open>Delivering takes a request out of one of the lists.\<close>

lemma deliver_cases:
  assumes "rpc_inv ks H L s" and "deliver t s = Some s1"
  obtains (call) us vs k where "cq_calls s = us @ t # vs" "s1 = s\<lparr>cq_calls := us @ vs\<rparr>" "srq_st s t = Some Process" "srq_kind s t = Some k"
  | (sent) us vs k where "cq_sends s = us @ t # vs" "s1 = s\<lparr>cq_sends := us @ vs\<rparr>" "srq_st s t = Some Finish" "srq_kind s t = Some k"
proof (cases "t \<in> set (cq_calls s)")
  case True
  then obtain us vs where u: "cq_calls s = us @ t # vs" "t \<notin> set us" by (metis split_list_first)
  have st: "srq_st s t = Some Process" using assms(1) True by (simp add: rpc_inv_def)
  obtain k where "srq_kind s t = Some k" using inv_kind [OF assms(1) st] by blast
  then show ?thesis using call u st assms(2) True by (auto simp: deliver_def remove1_append)
next
  case False
  then have t: "t \<in> set (cq_sends s)" using assms(2) by (auto simp: deliver_def split: if_splits)
  then obtain us vs where u: "cq_sends s = us @ t # vs" "t \<notin> set us" by (metis split_list_first)
  have st: "srq_st s t = Some Finish" using assms(1) t by (simp add: rpc_inv_def)
  obtain k where "srq_kind s t = Some k" using inv_kind [OF assms(1) st] by blast
  then show ?thesis using sent u st assms(2) False t by (auto simp: deliver_def remove1_append)
qed

lemma pass_good:
  assumes I: "rpc_inv ks H L s" and d: "deliver t s = Some s1" and fr: "fresh_req nr"
  shows "\<exists>run_hd s'. proceed_to_handler nr t s1 = Ret run_hd s' \<and> rpc_inv ks (if run_hd then t # H else H) L s'"
  using I d
proof (cases rule: deliver_cases)
  case (call us vs k)
  have p: "srq_st s (nr s1) = None" using fr [unfolded fresh_req_def, rule_format, of s1] inv_fin [OF I] call(2) by simp
  have "proceed_to_handler nr t s1 = Ret True (s\<lparr>srq_st := (srq_st s)(nr s1 \<mapsto> Process, t \<mapsto> Finish),
      srq_kind := (srq_kind s)(nr s1 \<mapsto> k), cq_calls := (us @ vs) @ [nr s1]\<rparr>)"
    using to_handler_process [of s1 t k nr] call p by simp
  then show ?thesis using inv_begin [OF I call(1,4) p] by (intro exI [of _ True]) simp
next
  case (sent us vs k)
  have "proceed_to_handler nr t s1 = Ret False (s\<lparr>srq_st := (srq_st s)(t := None), srq_kind := (srq_kind s)(t := None), cq_sends := us @ vs\<rparr>)"
    using to_handler_finish [of s1 t nr] sent by simp
  then show ?thesis using inv_end [OF I sent(1)] by (intro exI [of _ False]) simp
qed

lemma pass_handled:
  assumes I: "rpc_inv ks (t # H) L s"
  shows "\<exists>s'. process_request t s = Ret () s' \<and> rpc_inv ks H L s'"
proof -
  have "srq_st s t = Some Finish" using I by (simp add: rpc_inv_def)
  from inv_kind [OF I this] obtain k where k: "srq_kind s t = Some k" by blast
  have "process_request t s = Ret () (s\<lparr>cq_sends := cq_sends s @ [t], srq_handled := srq_handled s @ [k]\<rparr>)"
    using k by (simp add: process_request_def c_eval)
  then show ?thesis using inv_answered [OF I] by blast
qed

lemma pass_bad:
  assumes I: "rpc_inv ks H L s" and d: "deliver t s = Some s1"
  shows "server_pass nr t False s1 = Ret () s1 \<and> rpc_inv ks H (t # L) s1"
  using I d
proof (cases rule: deliver_cases)
  case (call us vs k)
  have "kinds_of s1 ts = kinds_of s ts" for ts using call(2) by (intro kinds_cong) auto
  then show ?thesis using call I unfolding rpc_inv_def by (auto simp: server_pass_def c_eval kinds_of_def)
next
  case (sent us vs k)
  have "kinds_of s1 ts = kinds_of s ts" for ts using sent(2) by (intro kinds_cong) auto
  then show ?thesis using sent I unfolding rpc_inv_def by (auto simp: server_pass_def c_eval)
qed

text \<open>What the threads hold when one of them goes on.\<close>

lemma handling_upd: "i < length ths \<Longrightarrow> handling (ths[i := th]) + mset (held (ths ! i)) = handling ths + mset (held th)"
  and missing_upd: "i < length ths \<Longrightarrow> missing (ths[i := th]) + mset (to_register (ths ! i)) = missing ths + mset (to_register th)"
proof -
  assume i: "i < length ths"
  then have e: "ths = take i ths @ ths ! i # drop (Suc i) ths" "ths[i := th] = take i ths @ th # drop (Suc i) ths"
    by (simp_all add: id_take_nth_drop upd_conv_take_nth_drop)
  have h: "handling (us @ x # vs) = handling us + mset (held x) + handling vs" for us x vs by (simp add: handling_def)
  have m: "missing (us @ x # vs) = missing us + mset (to_register x) + missing vs" for us x vs by (simp add: missing_def)
  have "handling ths = handling (take i ths @ ths ! i # drop (Suc i) ths)" "missing ths = missing (take i ths @ ths ! i # drop (Suc i) ths)"
    using e(1) by (rule arg_cong)+
  then show "handling (ths[i := th]) + mset (held (ths ! i)) = handling ths + mset (held th)"
    "missing (ths[i := th]) + mset (to_register (ths ! i)) = missing ths + mset (to_register th)"
    unfolding e(2) h m by (simp_all add: ac_simps)
qed

definition srv_inv :: "addr list \<Rightarrow> rpc_thread list \<Rightarrow> rpc_mem \<Rightarrow> bool" where
  "srv_inv L ths s \<longleftrightarrow> (\<exists>ks H. mset H = handling ths \<and> ks + missing ths = repeat_mset 5 (mset all_kinds) \<and> rpc_inv ks H L s)"

lemma held_first:
  assumes "i < length ths" and "ths ! i = Handling t" and "mset H = handling ths"
  shows "\<exists>H'. mset H = mset (t # H')"
proof -
  obtain H' where "mset H' = handling (ths[i := Waiting])" using ex_mset by blast
  then have "mset H = mset (t # H')" using handling_upd [OF assms(1), of Waiting] assms(2,3) by simp
  then show ?thesis by blast
qed

lemma rpc_reach_inv:
  assumes "rpc_reach nr L ths s" and fr: "fresh_req nr"
  shows "srv_inv L ths s"
  using assms(1)
proof induction
  case (rpc_start s)
  have "rpc_inv {#} [] [] s" using rpc_start by (simp add: rpc_inv_def kinds_of_def)
  moreover have "handling start_server = {#}" "missing start_server = repeat_mset 5 (mset all_kinds)"
    by (simp_all add: start_server_def handling_def missing_def numeral_eq_Suc)
  ultimately show ?case unfolding srv_inv_def by (intro exI [of _ "{#}"] exI [of _ "[]"]) simp
next
  case (rpc_register L ths s i k ks s')
  obtain js H where J: "mset H = handling ths" "js + missing ths = repeat_mset 5 (mset all_kinds)" "rpc_inv js H L s"
    using rpc_register.IH by (auto simp: srv_inv_def)
  have "rpc_inv (add_mset k js) H L s'" using register_run [OF J(3) fr, of k] rpc_register.hyps(4) by (auto simp: register_request_def)
  moreover have "mset H = handling (ths[i := Registering ks])"
    using handling_upd [OF rpc_register.hyps(2), of "Registering ks"] rpc_register.hyps(3) J(1) by simp
  moreover have "add_mset k (missing (ths[i := Registering ks])) = missing ths"
    using missing_upd [OF rpc_register.hyps(2), of "Registering ks"] rpc_register.hyps(3) by simp
  then have "add_mset k js + missing (ths[i := Registering ks]) = repeat_mset 5 (mset all_kinds)"
    using J(2) by (metis union_mset_add_mset_left union_mset_add_mset_right)
  ultimately show ?case unfolding srv_inv_def by blast
next
  case (rpc_enter L ths s i)
  then show ?case
    using handling_upd [OF rpc_enter.hyps(2), of Waiting] missing_upd [OF rpc_enter.hyps(2), of Waiting] by (simp add: srv_inv_def)
next
  case (rpc_good L ths s i t s1 run_hd s')
  obtain ks H where J: "mset H = handling ths" "ks + missing ths = repeat_mset 5 (mset all_kinds)" "rpc_inv ks H L s"
    using rpc_good.IH by (auto simp: srv_inv_def)
  let ?ths = "ths[i := if run_hd then Handling t else Waiting]"
  have "rpc_inv ks (if run_hd then t # H else H) L s'" using pass_good [OF J(3) rpc_good.hyps(4) fr] rpc_good.hyps(5) by auto
  moreover have "mset (if run_hd then t # H else H) = handling ?ths" "ks + missing ?ths = repeat_mset 5 (mset all_kinds)"
    using handling_upd [OF rpc_good.hyps(2), of "if run_hd then Handling t else Waiting"] missing_upd [OF rpc_good.hyps(2), of "if run_hd then Handling t else Waiting"]
      rpc_good.hyps(3) J(1,2) by (cases run_hd; simp)+
  ultimately show ?case unfolding srv_inv_def by blast
next
  case (rpc_handled L ths s i t s')
  obtain ks H where J: "mset H = handling ths" "ks + missing ths = repeat_mset 5 (mset all_kinds)" "rpc_inv ks H L s"
    using rpc_handled.IH by (auto simp: srv_inv_def)
  obtain H' where H': "mset H = mset (t # H')" using held_first [OF rpc_handled.hyps(2,3) J(1)] by blast
  have "rpc_inv ks H' L s'" using pass_handled [OF inv_perm [OF J(3) H' [symmetric]]] rpc_handled.hyps(4) by auto
  moreover have "ks + missing (ths[i := Waiting]) = repeat_mset 5 (mset all_kinds)"
    using missing_upd [OF rpc_handled.hyps(2), of Waiting] rpc_handled.hyps(3) J(2) by simp
  moreover have "add_mset t (mset H') = add_mset t (handling (ths[i := Waiting]))"
    using handling_upd [OF rpc_handled.hyps(2), of Waiting] rpc_handled.hyps(3) J(1) H' by simp
  then have "mset H' = handling (ths[i := Waiting])" by simp
  ultimately show ?case unfolding srv_inv_def by blast
next
  case (rpc_bad L ths s i t s1 s')
  then show ?case using pass_bad [OF _ rpc_bad.hyps(4)] by (fastforce simp: srv_inv_def)
qed

text \<open>C39: with the five threads of \<open>start_server\<close> on one completion queue, whatever it delivers to whom and
  however they interleave: the requests that wait for a call, those lost because a delivery of a waiting one was
  not good, and those the threads still have to register are, kind by kind, five of each procedure;
  the requests that exist are those waiting, those being answered, those in handlers and those lost; and a
  thread that gets a delivery goes on to the next or to a handler, and from a handler to its answer,
  without running into an assertion or a deleted request.\<close>

theorem rpc_always_ready:
  assumes "rpc_reach nr L ths s" and "fresh_req nr"
  shows "kinds_of s (cq_calls s) + kinds_of s (filter (\<lambda>t. srq_st s t = Some Process) L) + missing ths = repeat_mset 5 (mset all_kinds)
    \<and> dom (srq_st s) = set (cq_calls s) \<union> set (cq_sends s) \<union> set_mset (handling ths) \<union> set L
    \<and> (\<forall>t s1. deliver t s = Some s1 \<longrightarrow> (\<exists>run_hd s'. proceed_to_handler nr t s1 = Ret run_hd s') \<and> (\<exists>s'. server_pass nr t False s1 = Ret () s'))
    \<and> (\<forall>t. Handling t \<in> set ths \<longrightarrow> (\<exists>s'. process_request t s = Ret () s'))"
proof -
  obtain ks H where J: "mset H = handling ths" "ks + missing ths = repeat_mset 5 (mset all_kinds)" "rpc_inv ks H L s"
    using rpc_reach_inv [OF assms] by (auto simp: srv_inv_def)
  have "\<exists>s'. process_request t s = Ret () s'" if t: "Handling t \<in> set ths" for t
  proof -
    obtain i where i: "i < length ths" "ths ! i = Handling t" using t by (metis in_set_conv_nth)
    obtain H' where H': "mset H = mset (t # H')" using held_first [OF i J(1)] by blast
    show ?thesis using pass_handled [OF inv_perm [OF J(3) H' [symmetric]]] by blast
  qed
  moreover have "(\<exists>run_hd s'. proceed_to_handler nr t s1 = Ret run_hd s') \<and> (\<exists>s'. server_pass nr t False s1 = Ret () s')" if d: "deliver t s = Some s1" for t s1
    using pass_good [OF J(3) d assms(2)] pass_bad [OF J(3) d] by blast
  moreover have "kinds_of s (cq_calls s) + kinds_of s (filter (\<lambda>t. srq_st s t = Some Process) L) + missing ths = repeat_mset 5 (mset all_kinds)"
    using J(2,3) by (simp add: rpc_inv_def)
  moreover have "dom (srq_st s) = set (cq_calls s) \<union> set (cq_sends s) \<union> set_mset (handling ths) \<union> set L"
  proof -
    have "set H = set_mset (handling ths)" using J(1) by (metis set_mset_mset)
    then show ?thesis using J(3) by (simp add: rpc_inv_def Un_assoc)
  qed
  ultimately show ?thesis by blast
qed

definition demo_req :: "rpc_mem \<Rightarrow> addr" where
  "demo_req s = Suc (Max (insert 20 (dom (srq_st s))))"

lemma demo_fresh_req: "fresh_req demo_req"
  using Suc_Max_fresh [of "dom (srq_st s)" 20 for s] by (auto simp: fresh_req_def demo_req_def domIff)

definition demo_rpc :: rpc_mem where
  "demo_rpc = \<lparr>srq_st = Map.empty, srq_kind = Map.empty, cq_calls = [], cq_sends = [], srq_handled = []\<rparr>"

theorem rpc_always_ready_witness:
  "\<exists>s ths. rpc_reach demo_req [] ths s \<and> kinds_of s (cq_calls s) = {#Db_command#} \<and> {#Db_command#} + missing ths = repeat_mset 5 (mset all_kinds)
    \<and> (\<forall>t s1. deliver t s = Some s1 \<longrightarrow> (\<exists>run_hd s'. proceed_to_handler demo_req t s1 = Ret run_hd s'))"
proof -
  have r0: "rpc_reach demo_req [] start_server demo_rpc" by (rule rpc_start) (simp_all add: demo_rpc_def)
  have "start_server ! 0 = Registering (Db_command # tl all_kinds)" by (simp add: start_server_def all_kinds_def numeral_eq_Suc)
  from rpc_register [OF r0 _ this new_proceed [folded register_request_def]] obtain s ths where
    r: "rpc_reach demo_req [] ths s" and c: "cq_calls s = [demo_req demo_rpc]" "srq_kind s (demo_req demo_rpc) = Some Db_command"
    by (auto simp: start_server_def demo_rpc_def)
  have k: "kinds_of s (cq_calls s) = {#Db_command#}" "kinds_of s [] = {#}" using c by (simp_all add: kinds_of_def)
  with rpc_always_ready [OF r demo_fresh_req] have "{#Db_command#} + missing ths = repeat_mset 5 (mset all_kinds)
    \<and> (\<forall>t s1. deliver t s = Some s1 \<longrightarrow> (\<exists>run_hd s'. proceed_to_handler demo_req t s1 = Ret run_hd s'))" by simp
  with r k(1) show ?thesis by blast
qed

text \<open>The loop of the server has no exit: it goes on or is stopped by an error.\<close>

lemma server_loop_never_returns: "server_loop nr nxt i s \<noteq> Ret x s'"
proof -
  have "\<exists>e. r = Err e" if "server_loop nr nxt i s = Some r" for r
  proof (rule server_loop.raw_induct [of "\<lambda>nr nxt i s r. \<exists>e. r = Err e", OF _ that])
    fix loop nr nxt i s y
    assume IH: "\<And>nr nxt i s y. loop nr nxt i s = Some y \<Longrightarrow> \<exists>e. y = Err e"
      and e: "bindM (\<lambda>s. Ret (fst (nxt i s)) (snd (nxt i s))) (\<lambda>c. seqM (server_pass nr (fst c) (snd c)) (loop nr nxt (i + 1))) s = Some y"
    show "\<exists>e. y = Err e"
      using e IH by (auto simp: bindM_def seqM_def split: option.splits outcome.splits)
  qed
  then show ?thesis by fastforce
qed

end
