(* ===== verification/Spec2Isabelle.thy ===== *)
theory Spec2Isabelle
  imports SlistProps DlistProps DhashProps ShashProps StrKvProps ObjProps DHashStrings LruCache ShashObjProps Bitmap UuidProps DataFsm Ctrlvec ShmDlist ShmSlist ShmSeg SyncLock PageLock ThreadPoolProps TaskPend ModuleTree RsContainProps ModQueue ModDtor ModText HexDump EvtFsm BigBlob CryptoBuf KeyStoreProps AsyncRpc
begin

text \<open>
  A verification library of the C and C++ run-time library of tvntd (include/ctype, common/ctype,
  and the parts of cpptype, di, util and crypto that carry its own logic).

  \<^bold>\<open>The program.\<close> The library is a set of intrusive containers and the services built on them.
  Links are embedded in the client's structures and every operation works on pointers to links:
  singly linked lists (list.h, list.c) and circular doubly linked lists (dlist.h, dlist.c); two
  hash tables whose buckets are such lists (hash.h, hash.c): \<open>dhash\<close> over the doubly linked one,
  with rehashing, and \<open>shash\<close> over the singly linked one. On top of \<open>slist\<close> and \<open>shash\<close> there
  is the map of 64- and 128-bit ids to object ids (uuid-map.h, uuid-map.c), and on top of \<open>shash\<close>
  the C++ maps \<open>Uint64KvMap\<close> and \<open>StringKvMap\<close> (hash-obj.h, hash-obj.cpp). Objects that carry
  their links (object.h) are kept in lists \<open>DListObj\<close> and \<open>SListObj\<close> (list-obj.h, list-obj.cpp) and in tables
  \<open>DHashObj\<close> over \<open>dhash\<close> and \<open>SHashObj\<close> over \<open>shash\<close>, and the cache \<open>LruTable\<close> (lru-cache.h, lru-cache.cpp) keeps each
  object in one of either. The same lists exist with offsets
  instead of pointers, for memory shared by processes that map it at different addresses
  (shm-slist.h, shm-slist.c, shm-dlist.h), and the segment allocator (shm-seg.h, shm-seg.c) keeps
  its free records on one of them. Independent of these are the bitmap (bitmap.h, bmap.c), the
  table-driven state machine (data-statefsm.h, data-statefsm.c) and the start and stop of
  modules from a vector (ctrlvec.c). The C++ side adds the rendezvous of threads (lock.cpp), the
  locking of memory pages (pagelock.cpp), the tree of modules with its start and stop stages
  (module.cpp) and the thread pool with requests, barriers and light-weight tasks (request.h,
  request-impl.h, request.cpp), which is itself a module. Around them are the control objects of the
  hierarchical state machine, which keep their events on a \<open>dlist\<close> (statefsm.h, statefsm.c), the hex dump
  (debug.c), big numbers (bigint.h, bigint.cpp), the requests of the asynchronous key server (async-rpc.h, async-rpc.cpp,
  key-server-async.cpp), and on the side of its clients the keys of a user, in a \<open>Uint64KvMap\<close>
  (user.h, crypto-user.cpp), and the buffers of envelopes (crypto.h, crypto.cpp).

  \<^bold>\<open>How code becomes definitions.\<close> \<open>CPrelude\<close> gives the execution model: a routine is a
  function from memory to an outcome, that is a result with the new memory, an error (invalid
  access, failed assertion, use of an uninitialised variable, shift out of range, division by
  zero) or no outcome when it does not return. Memory is a record with one partial map per
  field of a C structure, keyed by the address of the object; a structure that contains another
  extends its record. \<open>NULL\<close> is address 0, an address outside the domain of a field faults.
  Function pointers are optional parameters of the routines, \<open>malloc\<close> is a parameter, and a
  routine that takes the address of a local variable takes that address as an argument. Mutexes
  are the set of those held: taking a held one does not return. Code that several threads run is
  split where another thread can come between: at the boundaries of its critical sections, at
  the atomic operations, and at the waits on condition variables, which may wake up without a
  signal. What is taken as one step although it is not is named in the theory
  (in \<open>ThreadPool\<close> the assertions of \<open>schedule\<close> before its mutex, \<open>worker_spawn_thr\<close> with the
  creation of the thread, and the end of a request after its handler). The pieces are functions on the shared state and the position of the thread, a step relation
  interleaves them freely, and invariants are shown by rule induction over its runs. Loops are
  \<^theory_text>\<open>partial_function (option)\<close>, so that no fuel is chosen anywhere; that a loop ends is
  proved where it is claimed. Machine integers are words, or \<open>int\<close> where the code's values stay
  far from the limits (element counts, hash indexes, the statistics of the pool): their overflow is not
  modelled. Allocation never fails: the theorems ask of \<open>malloc\<close> that it returns an address that is not in use.

  \<^bold>\<open>Theories.\<close>
  \<^item> \<open>CPrelude\<close>, \<open>CInterfaces\<close>, \<open>CTables\<close>: execution model, generic lemmas on chains of
    links, and the interfaces as locales: \<open>c_fifo\<close> (a queue), \<open>c_sorted\<close> (insertion in order),
    \<open>c_table\<close> (a table of elements by key), \<open>c_map\<close> (a map from keys to values). What a client
    gets from them (queues are first-in first-out, repeated insertion sorts, inserted
    elements are found, a run of commands gives what the abstract map gives) is proved once
    inside the locales.
  \<^item> \<open>Slink\<close>, \<open>Slist\<close>, \<open>SlistSpec\<close>, \<open>SlistProps\<close>: list.h and list.c. The abstraction relates
    memory to the sequence of elements; interpretations \<open>slq\<close> and \<open>slsort\<close>.
  \<^item> \<open>Dlist\<close>, \<open>DlistSpec\<close>, \<open>DlistProps\<close>: dlist.h and dlist.c, as rings; interpretations \<open>dlq\<close>
    and \<open>dlsort\<close>.
  \<^item> \<open>Dhash\<close>, \<open>DhashSpec\<close>, \<open>DhashProps\<close> and \<open>Shash\<close>, \<open>ShashSpec\<close>, \<open>ShashProps\<close>: hash.h and
    hash.c. The table invariant says that every element is in the bucket of its hash and
    no two have one key; interpretations \<open>dht\<close> and \<open>sht\<close>.
  \<^item> \<open>ShashCalls\<close>, \<open>ShashClear\<close>: \<open>shash\<close> with hash and comparison functions that read the
    elements, and the interface \<open>shash_clearing\<close> of maps that are emptied through their iterator.
    \<open>KvMap\<close>, \<open>KvMapProps\<close>: \<open>Uint64KvMap\<close> with its iterator; interpretations \<open>kvm\<close> and \<open>kvc\<close>.
    \<open>StrHash\<close>: strings as bytes in memory and the string hash of object.cpp. \<open>StrKvMap\<close>,
    \<open>StrKvProps\<close>: \<open>StringKvMap\<close>; interpretations \<open>skm\<close> and \<open>skc\<close>.
  \<^item> \<open>ObjLinks\<close>, \<open>ObjProps\<close>: \<open>ODlink\<close>, the keys of objects and \<open>DListObj\<close>. \<open>DHashObj\<close>,
    \<open>DHashObjProps\<close>, \<open>DHashStrings\<close>: the table of objects by number, by string and through
    other links. \<open>SlistObj\<close>, \<open>ShashObj\<close>, \<open>ShashObjProps\<close>: \<open>OSlink\<close>, \<open>SListObj\<close> and \<open>SHashObj\<close>.
    \<open>LruTable\<close>, \<open>LruProps\<close>, \<open>LruCache\<close>: the cache. \<open>CMachine\<close>: the interface \<open>c_machine\<close> of
    structures that carry out the commands of an abstract machine, interpretations \<open>lruc\<close>, \<open>shoc\<close>.
  \<^item> \<open>Bitmap\<close>, \<open>UuidMap\<close>, \<open>UuidProps\<close>, \<open>DataFsm\<close>, \<open>Ctrlvec\<close>: bitmap, id map, table-driven
    state machine and control vectors.
  \<^item> \<open>ShmDlist\<close>, \<open>ShmSlist\<close>, \<open>ShmSeg\<close>: lists over offsets (the ring refines \<open>Dlist\<close> at every
    base address) and the segment allocator.
  \<^item> \<open>SyncLock\<close>: \<open>SyncLock\<close> of lock.cpp; \<open>PageLock\<close>: the page counters of pagelock.cpp.
  \<^item> \<open>ThreadPool\<close>, \<open>ThreadPoolProps\<close>: \<open>schedule\<close>, the loop of the workers, the promotion of
    requests behind a barrier and \<open>thp_stop\<close> of request.cpp, with the queues of request-impl.h;
    \<open>TaskPend\<close>: \<open>Task\<close> of request.cpp, against the contract it relies on, that the pool executes once what it is
    handed; the pool itself keeps it only as long as it is not stopped.
  \<^item> \<open>ModuleTree\<close>: the stages of module.cpp over an arbitrary graph of modules. \<open>ModReg\<close>,
    \<open>ModRegProps\<close>: the registration of sub-modules in an array and, by name and by id, in a
    table of objects; interpretation \<open>modc\<close>. \<open>RsContain\<close>, \<open>RsContainProps\<close>: resources and the
    containers that find them by name, by id and by place, with the iterators; interpretation \<open>rsc\<close>.
    \<open>ModQueue\<close>: the queues and locks of a module; interpretation \<open>mqc\<close>. \<open>ModDtor\<close>: the destructor of a module,
    over its registry and its queues. \<open>ModText\<close>: its description as text.
  \<^item> \<open>KeyStore\<close>, \<open>KeyStoreProps\<close>: the keys of a user, from constructor to destructor, as an abstract machine
    over the map of \<open>KvMap\<close> and a heap of strings; interpretation \<open>keyc\<close>. \<open>CryptoBuf\<close>: the arrays of an envelope
    and hexadecimal text. \<open>AsyncRpc\<close>: the requests of the key server, whose five threads share a completion queue, as reachable states.
    \<open>BigBlob\<close>: big numbers as bytes of a message. \<open>EvtFsm\<close>: control objects and their events. \<open>HexDump\<close>: the
    hex dump.

  \<^bold>\<open>What is shown.\<close> For the lists: what each operation does to the sequence of elements,
  termination of the loops, and which elements are freed. For the tables: the invariant is kept
  by insertion, removal and rehashing, lookup returns the element inserted under the key, the
  iterator visits every element once. For \<open>Uint64KvMap\<close>: runs of commands refine a map as long
  as keys are below \<open>2 ^ 32\<close>; for \<open>StringKvMap\<close> with copied keys: a map of strings, whatever
  becomes of the caller's buffers. Clearing either frees every record. For \<open>LruTable\<close> with numbers
  as keys (below \<open>2 ^ 32\<close>, at most 31 objects, so that the table is not rehashed): from its
  constructor on, any commands do what an abstract cache does, and it keeps the most recently
  inserted objects; with strings as keys a hit never returns. \<open>SHashObj\<close> refines a set of links (keys below \<open>2 ^ 32\<close>). For the state machine: the check accepts exactly the
  well-formed tables, and with a checked table that has arcs for every state, and well-behaved actions, events run
  safely and end when a measure decreases. For ids, bitmaps and shared memory: round trips and frame properties. For the
  threads, in every reachable state of every interleaving: the counter of scheduled requests of the pool lies between
  the number of those that are pending and that number with those their callers executed; a request
  that a worker takes from the queue behind a barrier is taken when no other is pending; a
  rendezvous ends after exactly the configured number of notifications, and one waiting thread is never left asleep
  by them; and, if the pool executes once what it is handed, a task is handled by one thread at a time
  with no submission lost. Some schedules stop a worker, leave it asleep for good, keep the pool from
  stopping or execute a request twice, and theorems give these schedules. For modules: every
  start ends, on cyclic graphs too, and goes through all modules below one for the stages which that one does not
  override; on trees the order of the overriding routines is that of the tree, forward for the start
  and with the sub-modules reversed for the stop; a parent with up to 15 sub-modules of different names and ids (below \<open>2 ^ 32\<close>)
  is an abstract registry, and its destructor returns only if none was removed and its queues are empty. No constructor of a
  container of resources makes one that works. The keys of a user (versions below \<open>2 ^ 32\<close>) are a map, and its destructor leaves no string;
  for each procedure of the key server five requests wait for a call, those not yet registered and those lost by
  a bad delivery counted; events of a control object are on its list until they are freed. Where the
  code departs from what its comments say, a theorem states what it does instead.

  \<^bold>\<open>Not modelled.\<close> Reference counts of C++ objects; waiting for a request (\<open>req_wait\<close>) and the
  teardown of a stopped pool; the first layout of a shared segment (\<open>shm_seg_reinit\<close> and its callers), in which the
  header, the fence, the bitmap and the records overlap in memory, and \<open>shm_open\<close> and \<open>mmap\<close>;
  output routines other than the walks they make and the hex dump; the handlers of RPC calls and the shutdown of their
  queue; the end points of RPC clients; the calls to the cipher
  library and through generated RPC code; the JSON and database wrappers of third-party code, the
  Java server and the vendored test framework.
\<close>

end
